(* ===== verification/Prelude.thy ===== *)
theory Prelude
  imports Main "HOL-Library.Word" "HOL-Library.Multiset"
begin

text \<open>
  What the components share: the machine integer types, the branch type codes of
  \<^verbatim>\<open>inc/instruction.h\<close>, the loop shapes that the C++ code repeats (a search for the first
  index, a scan for the least value), the ordered-set lookup \<^verbatim>\<open>upper_bound\<close>, association
  lists in iteration order for the code's hash maps, and the collections of rewrite rules
  the component theories fill.
\<close>

unbundle bit_operations_syntax

named_theorems branch_defs \<open>the branch type codes\<close>
named_theorems front_defs \<open>definitions of the front end operations\<close>

type_synonym u64 = "64 word"
type_synonym u32 = "32 word"
type_synonym u16 = "16 word"
type_synonym u8 = "8 word"

section \<open>Branch type codes\<close>

definition BRANCH_DIRECT_JUMP :: u8 where [branch_defs]: "BRANCH_DIRECT_JUMP = 1"
definition BRANCH_INDIRECT :: u8 where [branch_defs]: "BRANCH_INDIRECT = 2"
definition BRANCH_CONDITIONAL :: u8 where [branch_defs]: "BRANCH_CONDITIONAL = 3"
definition BRANCH_DIRECT_CALL :: u8 where [branch_defs]: "BRANCH_DIRECT_CALL = 4"
definition BRANCH_INDIRECT_CALL :: u8 where [branch_defs]: "BRANCH_INDIRECT_CALL = 5"
definition BRANCH_RETURN :: u8 where [branch_defs]: "BRANCH_RETURN = 6"

text \<open>The request types of \<^verbatim>\<open>inc/memory_class.h\<close>.\<close>

definition LOAD :: u32 where [branch_defs]: "LOAD = 0"
definition RFO :: u32 where [branch_defs]: "RFO = 1"
definition PREFETCH :: u32 where [branch_defs]: "PREFETCH = 2"
definition WRITEBACK :: u32 where [branch_defs]: "WRITEBACK = 3"

text \<open>
  The branches that use the BTB proper: every type but returns and the two indirect kinds
  (the guard that \<^verbatim>\<open>update_btb\<close> and \<^verbatim>\<open>prefetch_btb\<close> share).
\<close>

definition is_direct :: "u8 \<Rightarrow> bool" where
  "is_direct bt \<longleftrightarrow> bt \<noteq> BRANCH_RETURN \<and> bt \<noteq> BRANCH_INDIRECT \<and> bt \<noteq> BRANCH_INDIRECT_CALL"

section \<open>Loops with an early return\<close>

text \<open>
  \<^verbatim>\<open>for (i = 0; i < n; i++) if (P(i)) return i;\<close> is \<open>first_index P n\<close>.
\<close>

definition first_index :: "(nat \<Rightarrow> bool) \<Rightarrow> nat \<Rightarrow> nat option" where
  "first_index P n = List.find P [0..<n]"

lemma first_index_SomeD:
  "first_index P n = Some i \<Longrightarrow> i < n \<and> P i \<and> (\<forall>j<i. \<not> P j)"
  by (auto simp: first_index_def find_Some_iff)

lemma first_index_None_iff: "first_index P n = None \<longleftrightarrow> (\<forall>i<n. \<not> P i)"
  by (auto simp: first_index_def find_None_iff)

lemma first_index_Some_iff:
  "first_index P n = Some i \<longleftrightarrow> i < n \<and> P i \<and> (\<forall>j<i. \<not> P j)"
proof
  assume a: "i < n \<and> P i \<and> (\<forall>j<i. \<not> P j)"
  then obtain k where k: "first_index P n = Some k"
    using first_index_None_iff[of P n] by (cases "first_index P n") auto
  from first_index_SomeD[OF k] a have "k = i"
    by (metis linorder_neqE_nat)
  with k show "first_index P n = Some i" by simp
qed (rule first_index_SomeD)

lemma first_index_cong:
  "(\<And>i. i < n \<Longrightarrow> P i = Q i) \<Longrightarrow> first_index P n = first_index Q n"
  unfolding first_index_def by (rule find_cong) auto

lemma first_index_exI: "i < n \<Longrightarrow> P i \<Longrightarrow> \<exists>j. first_index P n = Some j"
  using first_index_None_iff[of P n] by (cases "first_index P n") auto

section \<open>A scan for the least value\<close>

text \<open>
  The replacement scans keep a candidate and its value and move on when they see a strictly
  smaller value: \<open>scan_min f n\<close> is the index left after indices \<open>0..<n\<close>.
\<close>

definition scan_min :: "(nat \<Rightarrow> 'b::linorder) \<Rightarrow> nat \<Rightarrow> nat" where
  "scan_min f n =
     fst (foldl (\<lambda>(w, v) i. if f i < v then (i, f i) else (w, v)) (0, f 0) [0..<n])"

lemma scan_min_fold:
  fixes f :: "nat \<Rightarrow> 'b::linorder"
  shows
  "let (w, v) = foldl (\<lambda>(w, v) i. if f i < v then (i, f i) else (w, v)) (0, f 0) [0..<n]
   in v = f w \<and> w \<le> n - 1 \<and> (\<forall>i<n. f w \<le> f i) \<and> (\<forall>i<w. f w < f i)"
proof (induction n)
  case 0
  show ?case by simp
next
  case (Suc n)
  obtain w v where wv: "foldl (\<lambda>(w, v) i. if f i < v then (i, f i) else (w, v)) (0, f 0) [0..<n]
      = (w, v)" by fastforce
  have IH: "v = f w" "w \<le> n - 1" "\<forall>i<n. f w \<le> f i" "\<forall>i<w. f w < f i"
    using Suc.IH wv by auto
  show ?case
  proof (cases "f n < v")
    case True
    with IH(1,3) have "\<forall>i<n. f n < f i" by (meson order_less_le_trans)
    with True IH show ?thesis by (auto simp: wv less_Suc_eq)
  next
    case False
    with IH show ?thesis by (auto simp: wv less_Suc_eq not_less)
  qed
qed

lemma scan_min_bound: "0 < n \<Longrightarrow> scan_min f n < n"
  using scan_min_fold[of f n] by (auto simp: scan_min_def split: prod.splits)

lemma scan_min_least: "i < n \<Longrightarrow> f (scan_min f n) \<le> f i"
  using scan_min_fold[of f n] by (auto simp: scan_min_def split: prod.splits)

lemma scan_min_first: "i < scan_min f n \<Longrightarrow> f (scan_min f n) < f i"
  using scan_min_fold[of f n] by (auto simp: scan_min_def split: prod.splits)

section \<open>Ordered sets of counters\<close>

text \<open>
  A \<^verbatim>\<open>std::set<uint64_t>\<close> is a strictly sorted list; \<open>upper_bound t xs\<close> is its first element
  greater than \<open>t\<close>, \<open>None\<close> for \<^verbatim>\<open>end()\<close>.
\<close>

fun set_insert :: "'a::linorder \<Rightarrow> 'a list \<Rightarrow> 'a list" where
  "set_insert x [] = [x]"
| "set_insert x (y # ys) =
     (if x < y then x # y # ys else if x = y then y # ys else y # set_insert x ys)"

fun upper_bound :: "'a::linorder \<Rightarrow> 'a list \<Rightarrow> 'a option" where
  "upper_bound t [] = None"
| "upper_bound t (x # xs) = (if t < x then Some x else upper_bound t xs)"

lemma set_set_insert [simp]: "set (set_insert x xs) = insert x (set xs)"
  by (induction xs) auto

lemma sorted_set_insert: "sorted_wrt (<) xs \<Longrightarrow> sorted_wrt (<) (set_insert x xs)"
  by (induction xs) auto

lemma upper_bound_None_iff: "upper_bound t xs = None \<longleftrightarrow> (\<forall>x\<in>set xs. x \<le> t)"
  by (induction xs) auto

lemma upper_bound_SomeD:
  "sorted_wrt (<) xs \<Longrightarrow> upper_bound t xs = Some u \<Longrightarrow>
   u \<in> set xs \<and> t < u \<and> (\<forall>x\<in>set xs. t < x \<longrightarrow> u \<le> x)"
  by (induction xs) (auto split: if_splits)

lemma upper_bound_mem: "upper_bound t xs = Some u \<Longrightarrow> u \<in> set xs \<and> t < u"
  by (induction xs) (auto split: if_splits)

section \<open>Hash maps in iteration order\<close>

text \<open>
  A \<^verbatim>\<open>std::unordered_map\<close> is the list of its pairs in iteration order. Erasing a key keeps the
  order of the rest; where a new pair goes (and how a rehash reorders the others) is not fixed
  by the C++ standard, so the models that insert take that as a parameter \<open>emplace\<close>
  with the law \<open>mset (emplace p xs) = add_mset p (mset xs)\<close>.
\<close>

definition erase_key :: "'k \<Rightarrow> ('k \<times> 'v) list \<Rightarrow> ('k \<times> 'v) list" where
  "erase_key k xs = filter (\<lambda>p. fst p \<noteq> k) xs"

definition set_value :: "'k \<Rightarrow> ('v \<Rightarrow> 'v) \<Rightarrow> ('k \<times> 'v) list \<Rightarrow> ('k \<times> 'v) list" where
  "set_value k f xs = map (\<lambda>(k', v). if k' = k then (k', f v) else (k', v)) xs"

lemma map_of_erase_key [simp]: "map_of (erase_key k xs) j = (if j = k then None else map_of xs j)"
  by (induction xs) (auto simp: erase_key_def)

lemma keys_erase_key [simp]: "fst ` set (erase_key k xs) = fst ` set xs - {k}"
  by (auto simp: erase_key_def)

lemma distinct_erase_key [intro]: "distinct (map fst xs) \<Longrightarrow> distinct (map fst (erase_key k xs))"
  by (simp add: erase_key_def distinct_map_filter)

lemma length_erase_key:
  "distinct (map fst xs) \<Longrightarrow> k \<in> fst ` set xs \<Longrightarrow> length (erase_key k xs) < length xs"
  by (induction xs) (auto simp: erase_key_def intro: le_imp_less_Suc length_filter_le)

lemma length_erase_key_ge: "distinct (map fst xs) \<Longrightarrow> length xs - 1 \<le> length (erase_key k xs)"
proof (induction xs)
  case (Cons p xs)
  show ?case
  proof (cases "fst p = k")
    case True
    with Cons.prems have "erase_key k xs = xs" by (auto simp: erase_key_def filter_id_conv image_iff)
    with True show ?thesis by (simp add: erase_key_def)
  next
    case False
    with Cons show ?thesis by (simp add: erase_key_def)
  qed
qed (simp add: erase_key_def)

lemma length_erase_key_le: "length (erase_key k xs) \<le> length xs"
  by (simp add: erase_key_def)

lemma map_fst_set_value [simp]: "map fst (set_value k f xs) = map fst xs"
  by (induction xs) (auto simp: set_value_def)

lemma length_set_value [simp]: "length (set_value k f xs) = length xs"
  by (simp add: set_value_def)

lemma keys_set_value [simp]: "fst ` set (set_value k f xs) = fst ` set xs"
  by (metis list.set_map map_fst_set_value)

lemma map_of_set_value [simp]:
  "map_of (set_value k f xs) j = (if j = k then map_option f (map_of xs j) else map_of xs j)"
  by (induction xs) (auto simp: set_value_def)

text \<open>What a law-abiding \<open>emplace\<close> gives for a fresh key.\<close>

lemma emplace_facts:
  assumes "mset ys = add_mset (k, v) (mset xs)" and "distinct (map fst xs)" and "k \<notin> fst ` set xs"
  shows "distinct (map fst ys)" "set ys = insert (k, v) (set xs)"
    "length ys = Suc (length xs)" "map_of ys = (map_of xs)(k \<mapsto> v)"
proof -
  have m: "mset ys = mset ((k, v) # xs)" using assms(1) by simp
  have "mset (map fst ys) = mset (map fst ((k, v) # xs))"
    using arg_cong[OF m, of "image_mset fst"] by simp
  then show d: "distinct (map fst ys)"
    using assms(2,3) by (metis distinct.simps(2) image_set list.simps(9) fst_conv mset_eq_imp_distinct_iff)
  show s: "set ys = insert (k, v) (set xs)"
    using arg_cong[OF m, of set_mset] by simp
  show "length ys = Suc (length xs)"
    using arg_cong[OF m, of size] by simp
  have "distinct (map fst ((k, v) # xs))" using assms by simp
  then have "map_of ys = map_of ((k, v) # xs)"
    using d s by (metis list.simps(15) map_of_inject_set)
  then show "map_of ys = (map_of xs)(k \<mapsto> v)" by simp
qed

lemma nth_update_if: "q < length xs \<Longrightarrow> xs[r := x] ! q = (if q = r then x else xs ! q)"
  by (cases "q = r") auto

lemma replicate_2: "replicate 2 x = [x, x]"
  by (simp add: numeral_2_eq_2)

section \<open>Words\<close>

lemma unat_and_mask: "unat (x AND mask n :: 'a::len word) = unat x mod 2 ^ n"
  by (metis and.commute take_bit_eq_mask unsigned_take_bit_eq take_bit_eq_mod)

lemma word_less_add_one:
  fixes r :: "'w::len word"
  assumes "r < m"
  shows "unat (r + 1) = Suc (unat r)" "r + 1 \<le> m"
proof -
  have "unat r < unat m" using assms by (simp add: word_less_nat_alt)
  moreover have "unat m < 2 ^ LENGTH('w)" using unsigned_less[of m, where 'a = nat] by simp
  ultimately have "Suc (unat r) < 2 ^ LENGTH('w)" by linarith
  then show u: "unat (r + 1) = Suc (unat r)"
    by (simp add: unat_word_ariths)
  then show "r + 1 \<le> m" using \<open>unat r < unat m\<close> by (simp add: word_le_nat_alt)
qed

lemma unat_minus_one_u64 [simp]: "unat (- 1 :: u64) = 18446744073709551615"
  by (simp add: unsigned_minus_1_eq_mask mask_eq_exp_minus_1)

lemma unat_and_pred: "0 < m \<Longrightarrow> unat (x AND (m - 1) :: 'a::len word) < unat m"
proof -
  assume "0 < m"
  have "x AND (m - 1) \<le> m - 1" by (simp add: word_and_le1)
  also have "m - 1 < m" using \<open>0 < m\<close> by (simp add: word_less_nat_alt unat_sub_if')
  finally show ?thesis by (simp add: word_less_nat_alt)
qed

lemma unat_two_power: "n < LENGTH('a) \<Longrightarrow> unat (2 ^ n :: 'a::len word) = 2 ^ n"
  using unat_of_nat[of "2 ^ n", where 'a = 'a] by simp

lemma unat_mod_bound: "0 < m \<Longrightarrow> unat (x mod m :: 'a::len word) < unat m"
  by (simp add: unat_mod word_gt_0_no unat_gt_0)

end
