(* ===== verification/StreamBuffer.thy ===== *)
theory StreamBuffer
  imports Prelude
begin

text \<open>
  The prefetch stream buffer of \<^verbatim>\<open>btb/prefetch_stream_buffer.h\<close>: a bounded FIFO of
  (ip, target) pairs beside the BTB. A failed \<^verbatim>\<open>assert\<close> is \<open>None\<close>.
\<close>

record stream_buffer =
  buffer :: "(u64 \<times> u64) list"
  capacity :: nat

definition new_stream_buffer :: "nat \<Rightarrow> stream_buffer" where
  "new_stream_buffer cap = \<lparr>buffer = [], capacity = cap\<rparr>"

definition sb_prefetch :: "u64 \<Rightarrow> u64 \<Rightarrow> stream_buffer \<Rightarrow> stream_buffer option" where
  "sb_prefetch ip target sb =
     (let b = (if length (buffer sb) \<ge> capacity sb then tl (buffer sb) else buffer sb)
      in if \<not> length b < capacity sb then None
         else if target = 0 then None
         else Some (sb\<lparr>buffer := b @ [(ip, target)]\<rparr>))"

definition stream_buffer_predict :: "u64 \<Rightarrow> stream_buffer \<Rightarrow> u64" where
  "stream_buffer_predict ip sb =
     (case List.find (\<lambda>a. fst a = ip) (buffer sb) of Some a \<Rightarrow> snd a | None \<Rightarrow> 0)"

fun sb_erase_first :: "u64 \<Rightarrow> (u64 \<times> u64) list \<Rightarrow> u64 \<times> (u64 \<times> u64) list" where
  "sb_erase_first ip [] = (0, [])"
| "sb_erase_first ip (a # as) =
     (if fst a = ip then (snd a, as)
      else (let (t, as') = sb_erase_first ip as in (t, a # as')))"

definition stream_buffer_update :: "u64 \<Rightarrow> stream_buffer \<Rightarrow> u64 \<times> stream_buffer" where
  "stream_buffer_update ip sb =
     (let (t, b) = sb_erase_first ip (buffer sb) in (t, sb\<lparr>buffer := b\<rparr>))"

text \<open>Well-formedness: never over capacity, and every buffered target is a real one.\<close>

definition sb_ok :: "stream_buffer \<Rightarrow> bool" where
  "sb_ok sb \<longleftrightarrow> 0 < capacity sb \<and> length (buffer sb) \<le> capacity sb \<and> (\<forall>a\<in>set (buffer sb). snd a \<noteq> 0)"

lemma sb_ok_new [simp]: "0 < cap \<Longrightarrow> sb_ok (new_stream_buffer cap)"
  by (simp add: sb_ok_def new_stream_buffer_def)

lemma in_set_tlD: "x \<in> set (tl xs) \<Longrightarrow> x \<in> set xs"
  by (cases xs) auto

lemma sb_prefetch_total:
  "sb_ok sb \<Longrightarrow> target \<noteq> 0 \<Longrightarrow> \<exists>sb'. sb_prefetch ip target sb = Some sb' \<and> sb_ok sb'"
  by (fastforce simp: sb_ok_def sb_prefetch_def Let_def dest: in_set_tlD)

lemma sb_prefetch_ok: "sb_ok sb \<Longrightarrow> sb_prefetch ip target sb = Some sb' \<Longrightarrow> sb_ok sb'"
  by (fastforce simp: sb_ok_def sb_prefetch_def Let_def split: if_splits dest: in_set_tlD)

lemma sb_erase_first_len: "length (snd (sb_erase_first ip b)) \<le> length b"
  by (induction b) (auto split: prod.splits)

lemma sb_erase_first_sub: "set (snd (sb_erase_first ip b)) \<subseteq> set b"
  by (induction b) (auto split: prod.splits)

lemma stream_buffer_update_ok [intro]: "sb_ok sb \<Longrightarrow> sb_ok (snd (stream_buffer_update ip sb))"
  using sb_erase_first_len[of ip "buffer sb"] sb_erase_first_sub[of ip "buffer sb"]
  by (auto simp: sb_ok_def stream_buffer_update_def Let_def split: prod.splits)

lemma sb_erase_first_result:
  "fst (sb_erase_first ip b) = (case List.find (\<lambda>a. fst a = ip) b of Some a \<Rightarrow> snd a | None \<Rightarrow> 0)"
  by (induction b) (auto split: prod.splits)

lemma stream_buffer_update_returns_predict:
  "fst (stream_buffer_update ip sb) = stream_buffer_predict ip sb"
  by (simp add: stream_buffer_update_def stream_buffer_predict_def Let_def case_prod_beta
      sb_erase_first_result)

lemma sb_erase_first_other:
  "j \<noteq> ip \<Longrightarrow> List.find (\<lambda>a. fst a = j) (snd (sb_erase_first ip b)) = List.find (\<lambda>a. fst a = j) b"
  by (induction b) (auto split: prod.splits)

lemma stream_buffer_update_other:
  "j \<noteq> ip \<Longrightarrow> stream_buffer_predict j (snd (stream_buffer_update ip sb)) = stream_buffer_predict j sb"
  by (simp add: stream_buffer_update_def stream_buffer_predict_def Let_def case_prod_beta
      sb_erase_first_other)

lemma find_append: "List.find P (xs @ ys) = (case List.find P xs of None \<Rightarrow> List.find P ys | Some x \<Rightarrow> Some x)"
  by (induction xs) auto

end
