(* ===== verification/FrontEnd.thy ===== *)
theory FrontEnd
  imports Prelude StreamBuffer
begin

text \<open>
  The part of the branch predictor front end that every BTB file of \<^verbatim>\<open>btb/\<close> repeats word for
  word: the indirect target buffer, the conditional history register, the return address
  stack (RAS), the call size tracker, and the dispatch on the branch type in
  \<^verbatim>\<open>btb_prediction\<close>, \<^verbatim>\<open>update_btb\<close> and \<^verbatim>\<open>prefetch_btb\<close>. The definitions follow
  \<^verbatim>\<open>btb/basic_btb/basic_btb.cc\<close>; the branch of the dispatch that uses the BTB itself is the
  argument of the three \<open>..._with\<close> combinators. One core (\<^verbatim>\<open>NUM_CPUS\<close> is 1 in
  \<^verbatim>\<open>default_config.cmake\<close>), so the arrays have no cpu index.
\<close>

section \<open>State\<close>

definition BASIC_BTB_INDIRECT_SIZE :: nat where "BASIC_BTB_INDIRECT_SIZE = 4096"
definition BASIC_BTB_RAS_SIZE :: nat where "BASIC_BTB_RAS_SIZE = 32"
definition BASIC_BTB_CALL_INSTR_SIZE_TRACKERS :: nat where "BASIC_BTB_CALL_INSTR_SIZE_TRACKERS = 1024"

lemmas size_defs = BASIC_BTB_INDIRECT_SIZE_def BASIC_BTB_RAS_SIZE_def
  BASIC_BTB_CALL_INSTR_SIZE_TRACKERS_def

record frontend =
  indirect :: "u64 list"
  conditional_history :: u64
  ras :: "u64 list"
  ras_index :: int
  call_instr_sizes :: "u64 list"

definition init_frontend :: frontend where
  "init_frontend =
     \<lparr>indirect = replicate BASIC_BTB_INDIRECT_SIZE 0,
      conditional_history = 0,
      ras = replicate BASIC_BTB_RAS_SIZE 0,
      ras_index = 0,
      call_instr_sizes = replicate BASIC_BTB_CALL_INSTR_SIZE_TRACKERS 4\<rparr>"

section \<open>Operations\<close>

definition basic_btb_abs_addr_dist :: "u64 \<Rightarrow> u64 \<Rightarrow> u64" where
  "basic_btb_abs_addr_dist addr1 addr2 = (if addr1 > addr2 then addr1 - addr2 else addr2 - addr1)"

definition basic_btb_indirect_hash :: "frontend \<Rightarrow> u64 \<Rightarrow> nat" where
  "basic_btb_indirect_hash fe ip =
     unat ((drop_bit 2 ip XOR conditional_history fe) AND (of_nat BASIC_BTB_INDIRECT_SIZE - 1))"

definition push_basic_btb_ras :: "u64 \<Rightarrow> frontend \<Rightarrow> frontend" where
  "push_basic_btb_ras ip fe =
     (let i = ras_index fe + 1;
          i = (if i = int BASIC_BTB_RAS_SIZE then 0 else i)
      in fe\<lparr>ras_index := i, ras := (ras fe)[nat i := ip]\<rparr>)"

definition peek_basic_btb_ras :: "frontend \<Rightarrow> u64" where
  "peek_basic_btb_ras fe = ras fe ! nat (ras_index fe)"

definition pop_basic_btb_ras :: "frontend \<Rightarrow> u64 \<times> frontend" where
  "pop_basic_btb_ras fe =
     (let target = ras fe ! nat (ras_index fe);
          r = (ras fe)[nat (ras_index fe) := 0];
          i = ras_index fe - 1;
          i = (if i = -1 then i + int BASIC_BTB_RAS_SIZE else i)
      in (target, fe\<lparr>ras := r, ras_index := i\<rparr>))"

definition basic_btb_call_size_tracker_hash :: "u64 \<Rightarrow> nat" where
  "basic_btb_call_size_tracker_hash ip = unat (ip AND (of_nat BASIC_BTB_CALL_INSTR_SIZE_TRACKERS - 1))"

definition basic_btb_get_call_size :: "frontend \<Rightarrow> u64 \<Rightarrow> u64" where
  "basic_btb_get_call_size fe ip = call_instr_sizes fe ! basic_btb_call_size_tracker_hash ip"

section \<open>The dispatch on the branch type\<close>

record 'a btb_cpu =
  front :: frontend
  store :: 'a

text \<open>
  \<^verbatim>\<open>btb_prediction\<close>: a call pushes its address, a return peeks at the stack, an indirect branch
  reads the indirect buffer, any other branch asks the BTB (\<open>direct\<close>). The prediction is the
  target and the always-taken flag.
\<close>

definition btb_prediction_with ::
  "(u64 \<Rightarrow> 'a \<Rightarrow> ((u64 \<times> u8) \<times> 'a) option) \<Rightarrow> u64 \<Rightarrow> u8 \<Rightarrow> 'a btb_cpu \<Rightarrow> ((u64 \<times> u8) \<times> 'a btb_cpu) option"
where
  "btb_prediction_with direct ip bt s =
     (let always_taken = (if bt \<noteq> BRANCH_CONDITIONAL then 1 else 0);
          fe = (if bt = BRANCH_DIRECT_CALL \<or> bt = BRANCH_INDIRECT_CALL
                then push_basic_btb_ras ip (front s) else front s)
      in if bt = BRANCH_RETURN then
           (let target = peek_basic_btb_ras fe
            in Some ((target + basic_btb_get_call_size fe target, always_taken), s\<lparr>front := fe\<rparr>))
         else if bt = BRANCH_INDIRECT \<or> bt = BRANCH_INDIRECT_CALL then
           Some ((indirect fe ! basic_btb_indirect_hash fe ip, always_taken), s\<lparr>front := fe\<rparr>)
         else
           (case direct ip (store s) of
              None \<Rightarrow> None
            | Some (r, st) \<Rightarrow> Some (r, s\<lparr>front := fe, store := st\<rparr>)))"

definition frontend_update :: "u64 \<Rightarrow> u64 \<Rightarrow> u8 \<Rightarrow> u8 \<Rightarrow> frontend \<Rightarrow> frontend" where
  "frontend_update ip branch_target taken bt fe =
     (let fe1 = (if bt = BRANCH_INDIRECT \<or> bt = BRANCH_INDIRECT_CALL
                 then fe\<lparr>indirect := (indirect fe)[basic_btb_indirect_hash fe ip := branch_target]\<rparr>
                 else fe);
          fe2 = (if bt = BRANCH_CONDITIONAL
                 then (let h = push_bit 1 (conditional_history fe1)
                       in fe1\<lparr>conditional_history := (if taken \<noteq> 0 then h OR 1 else h)\<rparr>)
                 else fe1)
      in if bt = BRANCH_RETURN
         then (let (call_ip, fe3) = pop_basic_btb_ras fe2;
                   estimated = basic_btb_abs_addr_dist call_ip branch_target
               in if estimated \<le> 10
                  then fe3\<lparr>call_instr_sizes :=
                         (call_instr_sizes fe3)[basic_btb_call_size_tracker_hash call_ip := estimated]\<rparr>
                  else fe3)
         else fe2)"

definition update_btb_with ::
  "(u64 \<Rightarrow> u64 \<Rightarrow> u8 \<Rightarrow> u8 \<Rightarrow> 'a \<Rightarrow> 'a option) \<Rightarrow>
   u64 \<Rightarrow> u64 \<Rightarrow> u8 \<Rightarrow> u8 \<Rightarrow> 'a btb_cpu \<Rightarrow> 'a btb_cpu option"
where
  "update_btb_with direct ip branch_target taken bt s =
     (let fe = frontend_update ip branch_target taken bt (front s)
      in if bt = BRANCH_RETURN \<or> bt = BRANCH_INDIRECT \<or> bt = BRANCH_INDIRECT_CALL
         then Some (s\<lparr>front := fe\<rparr>)
         else map_option (\<lambda>st. s\<lparr>front := fe, store := st\<rparr>) (direct ip branch_target taken bt (store s)))"

definition prefetch_btb_with ::
  "(u64 \<Rightarrow> u64 \<Rightarrow> u8 \<Rightarrow> bool \<Rightarrow> bool \<Rightarrow> 'a \<Rightarrow> 'a option) \<Rightarrow>
   u64 \<Rightarrow> u64 \<Rightarrow> u8 \<Rightarrow> bool \<Rightarrow> bool \<Rightarrow> 'a btb_cpu \<Rightarrow> 'a btb_cpu option"
where
  "prefetch_btb_with direct ip branch_target bt taken to_sb s =
     (if bt \<noteq> BRANCH_RETURN \<and> bt \<noteq> BRANCH_INDIRECT \<and> bt \<noteq> BRANCH_INDIRECT_CALL
      then map_option (\<lambda>st. s\<lparr>store := st\<rparr>) (direct ip branch_target bt taken to_sb (store s))
      else Some s)"

section \<open>Invariant: every array access is in range\<close>

definition fe_ok :: "frontend \<Rightarrow> bool" where
  "fe_ok fe \<longleftrightarrow> length (indirect fe) = BASIC_BTB_INDIRECT_SIZE \<and> length (ras fe) = BASIC_BTB_RAS_SIZE \<and>
     length (call_instr_sizes fe) = BASIC_BTB_CALL_INSTR_SIZE_TRACKERS \<and>
     0 \<le> ras_index fe \<and> ras_index fe < int BASIC_BTB_RAS_SIZE"

lemma fe_ok_init [simp]: "fe_ok init_frontend"
  by (simp add: fe_ok_def init_frontend_def size_defs)

lemma indirect_hash_bound: "basic_btb_indirect_hash fe ip < BASIC_BTB_INDIRECT_SIZE"
proof -
  have m: "(4095 :: u64) = mask 12" by (simp add: mask_eq_decr_exp)
  show ?thesis by (simp add: basic_btb_indirect_hash_def size_defs m unat_and_mask)
qed

lemma call_size_hash_bound:
  "basic_btb_call_size_tracker_hash ip < BASIC_BTB_CALL_INSTR_SIZE_TRACKERS"
proof -
  have m: "(1023 :: u64) = mask 10" by (simp add: mask_eq_decr_exp)
  show ?thesis by (simp add: basic_btb_call_size_tracker_hash_def size_defs m unat_and_mask)
qed

lemma fe_ok_push [intro]: "fe_ok fe \<Longrightarrow> fe_ok (push_basic_btb_ras ip fe)"
  by (auto simp: fe_ok_def push_basic_btb_ras_def Let_def size_defs)

lemma fe_ok_pop [intro]: "fe_ok fe \<Longrightarrow> fe_ok (snd (pop_basic_btb_ras fe))"
  by (auto simp: fe_ok_def pop_basic_btb_ras_def Let_def size_defs)

lemma fe_ok_update [intro]: "fe_ok fe \<Longrightarrow> fe_ok (frontend_update ip t tk bt fe)"
proof -
  assume ok: "fe_ok fe"
  have sizes: "fe_ok f \<Longrightarrow> fe_ok (f\<lparr>call_instr_sizes := (call_instr_sizes f)[i := v]\<rparr>)"
    "fe_ok f \<Longrightarrow> fe_ok (f\<lparr>indirect := (indirect f)[i := v]\<rparr>)"
    "fe_ok f \<Longrightarrow> fe_ok (f\<lparr>conditional_history := v\<rparr>)" for f i v
    by (simp_all add: fe_ok_def)
  show ?thesis
    using ok fe_ok_pop by (auto simp: frontend_update_def Let_def case_prod_beta sizes)
qed

section \<open>The return address stack is a bounded stack\<close>

text \<open>
  The abstract stack: the 32 ring slots read backwards from the index. A push shifts a new
  address in at the top and drops the oldest; a pop shifts a zero in at the bottom.
\<close>

definition ras_view :: "frontend \<Rightarrow> u64 list" where
  "ras_view fe = map (\<lambda>k. ras fe ! nat ((ras_index fe - int k) mod 32)) [0..<BASIC_BTB_RAS_SIZE]"

lemma length_ras_view [simp]: "length (ras_view fe) = 32"
  by (simp add: ras_view_def size_defs)

lemma ras_view_nth: "k < 32 \<Longrightarrow> ras_view fe ! k = ras fe ! nat ((ras_index fe - int k) mod 32)"
  by (simp add: ras_view_def size_defs)

lemma peek_view: "fe_ok fe \<Longrightarrow> peek_basic_btb_ras fe = hd (ras_view fe)"
  by (simp add: peek_basic_btb_ras_def ras_view_def size_defs fe_ok_def upt_conv_Cons)

lemma push_index: "fe_ok fe \<Longrightarrow> ras_index (push_basic_btb_ras ip fe) = (ras_index fe + 1) mod 32"
  by (auto simp: push_basic_btb_ras_def Let_def fe_ok_def size_defs)

lemma pop_index: "fe_ok fe \<Longrightarrow> ras_index (snd (pop_basic_btb_ras fe)) = (ras_index fe - 1) mod 32"
  by (auto simp: pop_basic_btb_ras_def Let_def fe_ok_def size_defs)

lemma push_view:
  assumes "fe_ok fe"
  shows "ras_view (push_basic_btb_ras ip fe) = ip # butlast (ras_view fe)"
proof (rule nth_equalityI)
  fix k assume "k < length (ras_view (push_basic_btb_ras ip fe))"
  then have k: "k < 32" by simp
  let ?i = "(ras_index fe + 1) mod 32"
  have r: "ras (push_basic_btb_ras ip fe) = (ras fe)[nat ?i := ip]"
    using assms by (auto simp: push_basic_btb_ras_def Let_def fe_ok_def size_defs)
  have len: "length (ras fe) = 32" using assms by (simp add: fe_ok_def size_defs)
  have idx: "(?i - int k) mod 32 = (ras_index fe + 1 - int k) mod 32" by (simp add: mod_diff_left_eq)
  show "ras_view (push_basic_btb_ras ip fe) ! k = (ip # butlast (ras_view fe)) ! k"
  proof (cases k)
    case 0
    then show ?thesis
      using k len assms by (simp add: ras_view_nth push_index r)
  next
    case (Suc j)
    have ne: "(ras_index fe + 1 - int k) mod 32 \<noteq> ?i"
      using k Suc by (simp add: mod_eq_dvd_iff) presburger
    have "ras_view (push_basic_btb_ras ip fe) ! k = ras fe ! nat ((ras_index fe + 1 - int k) mod 32)"
      using k len assms ne by (simp add: ras_view_nth push_index r idx nth_list_update eq_nat_nat_iff)
    then show ?thesis
      using Suc k by (simp add: nth_butlast ras_view_nth)
  qed
qed simp

lemma pop_view:
  assumes "fe_ok fe"
  shows "fst (pop_basic_btb_ras fe) = hd (ras_view fe)"
    "ras_view (snd (pop_basic_btb_ras fe)) = tl (ras_view fe) @ [0]"
proof -
  show "fst (pop_basic_btb_ras fe) = hd (ras_view fe)"
    using peek_view[OF assms] by (simp add: pop_basic_btb_ras_def peek_basic_btb_ras_def Let_def)
  show "ras_view (snd (pop_basic_btb_ras fe)) = tl (ras_view fe) @ [0]"
  proof (rule nth_equalityI)
    fix k assume "k < length (ras_view (snd (pop_basic_btb_ras fe)))"
    then have k: "k < 32" by simp
    have r: "ras (snd (pop_basic_btb_ras fe)) = (ras fe)[nat (ras_index fe) := 0]"
      by (simp add: pop_basic_btb_ras_def Let_def)
    have b: "0 \<le> ras_index fe" "ras_index fe < 32" "length (ras fe) = 32"
      using assms by (simp_all add: fe_ok_def size_defs)
    have idx: "((ras_index fe - 1) mod 32 - int k) mod 32 = (ras_index fe - int (Suc k)) mod 32"
      by (simp add: mod_diff_left_eq algebra_simps)
    have v: "ras_view (snd (pop_basic_btb_ras fe)) ! k
        = (ras fe)[nat (ras_index fe) := 0] ! nat ((ras_index fe - int (Suc k)) mod 32)"
      using k assms idx by (simp add: ras_view_nth pop_index r)
    show "ras_view (snd (pop_basic_btb_ras fe)) ! k = (tl (ras_view fe) @ [0]) ! k"
    proof (cases "k = 31")
      case True
      have "(ras_index fe - int (Suc k)) mod 32 = ras_index fe"
        using b True by simp
      with v b True show ?thesis by (simp add: nth_append)
    next
      case False
      have "(ras_index fe - int (Suc k)) mod 32 \<noteq> ras_index fe"
        using b k False by presburger
      with v b have "ras_view (snd (pop_basic_btb_ras fe)) ! k
          = ras fe ! nat ((ras_index fe - int (Suc k)) mod 32)"
        by (simp add: nth_list_update eq_nat_nat_iff)
      with k False show ?thesis by (simp add: nth_append nth_tl ras_view_nth)
    qed
  qed simp
qed

lemma fold_push_view:
  "fe_ok fe \<Longrightarrow> fe_ok (fold push_basic_btb_ras xs fe) \<and>
     ras_view (fold push_basic_btb_ras xs fe) = take 32 (rev xs @ ras_view fe)"
proof (induction xs arbitrary: fe)
  case (Cons x xs)
  have "take 32 (rev xs @ x # butlast (ras_view fe)) = take 32 (rev (x # xs) @ ras_view fe)"
    by (simp add: take_Cons' butlast_conv_take min_def)
  with Cons.IH[OF fe_ok_push[OF Cons.prems, of x]] push_view[OF Cons.prems, of x] show ?case by simp
qed simp

text \<open>\<open>ras_pops n\<close> pops \<open>n\<close> times and collects the targets.\<close>

fun ras_pops :: "nat \<Rightarrow> frontend \<Rightarrow> u64 list \<times> frontend" where
  "ras_pops 0 fe = ([], fe)"
| "ras_pops (Suc n) fe =
     (let (t, fe1) = pop_basic_btb_ras fe; (ts, fe2) = ras_pops n fe1 in (t # ts, fe2))"

lemma ras_pops_view:
  "fe_ok fe \<Longrightarrow> n \<le> 32 \<Longrightarrow> fst (ras_pops n fe) = take n (ras_view fe)"
proof (induction n arbitrary: fe)
  case (Suc n)
  let ?fe = "snd (pop_basic_btb_ras fe)"
  have "ras_view fe \<noteq> []" using length_ras_view[of fe] by (cases "ras_view fe") auto
  then obtain x xs where v: "ras_view fe = x # xs" by (cases "ras_view fe") auto
  have "length xs = 31" using length_ras_view[of fe] v by simp
  then have "fst (ras_pops n ?fe) = take n xs"
    using Suc.IH[OF fe_ok_pop[OF Suc.prems(1)]] Suc.prems pop_view(2)[OF Suc.prems(1)] v by simp
  then show ?case
    using pop_view(1)[OF Suc.prems(1)] v by (simp add: case_prod_beta Let_def)
qed simp

section \<open>Properties\<close>

text \<open>C33: the ring of 32 slots behind the return address stack is a bounded stack: a push shifts
  the call in at the top and drops only the oldest of 32, a peek and a pop give the top, and a
  pop leaves the rest in order.\<close>

theorem ras_refines_bounded_stack:
  assumes "fe_ok fe"
  shows "ras_view (push_basic_btb_ras ip fe) = ip # butlast (ras_view fe) \<and>
    peek_basic_btb_ras fe = hd (ras_view fe) \<and>
    fst (pop_basic_btb_ras fe) = hd (ras_view fe) \<and>
    ras_view (snd (pop_basic_btb_ras fe)) = tl (ras_view fe) @ [0]"
  by (intro conjI push_view peek_view pop_view assms)

lemma ras_refines_bounded_stack_witness:
  "ras_view (push_basic_btb_ras 7 init_frontend) = 7 # butlast (ras_view init_frontend)"
  using ras_refines_bounded_stack[OF fe_ok_init, of 7] by blast

text \<open>Up to 32 nested calls return in last-in first-out order, whatever the stack held before
  and wherever its index stood in the ring.\<close>

theorem ras_lifo:
  assumes "fe_ok fe" "length xs \<le> 32"
  shows "fst (ras_pops (length xs) (fold push_basic_btb_ras xs fe)) = rev xs"
  using fold_push_view[OF assms(1), of xs] ras_pops_view[of "fold push_basic_btb_ras xs fe" "length xs"] assms(2)
  by (simp add: min_def)

lemma ras_lifo_witness:
  "fst (ras_pops 3 (fold push_basic_btb_ras [10, 20, 30] init_frontend)) = [30, 20, 10]"
  using ras_lifo[OF fe_ok_init, of "[10, 20, 30]"] by (simp add: numeral_3_eq_3)

text \<open>The call size tracker learns: after one return of an indirect call at \<open>ip\<close> that lands
  \<open>d \<le> 10\<close> bytes behind it, the next call from \<open>ip\<close> has its return predicted exactly.\<close>

theorem return_target_learned:
  assumes "fe_ok (front s)" "d \<le> 10" "ip \<le> ip + d"
  shows "\<exists>r1 s1 s2 r3 s3.
    btb_prediction_with direct ip BRANCH_INDIRECT_CALL s = Some (r1, s1) \<and>
    update_btb_with dupdate ret (ip + d) taken BRANCH_RETURN s1 = Some s2 \<and>
    btb_prediction_with direct ip BRANCH_INDIRECT_CALL s2 = Some (r3, s3) \<and>
    btb_prediction_with direct ret BRANCH_RETURN s3 = Some ((ip + d, 1), s3)"
proof -
  let ?h = "basic_btb_call_size_tracker_hash ip"
  let ?f1 = "push_basic_btb_ras ip (front s)"
  have ok1: "fe_ok ?f1" using assms(1) by auto
  have top: "fst (pop_basic_btb_ras ?f1) = ip"
    using pop_view(1)[OF ok1] push_view[OF assms(1)] by simp
  have dist: "basic_btb_abs_addr_dist ip (ip + d) = d"
    using assms(3) by (auto simp: basic_btb_abs_addr_dist_def)
  let ?f2 = "frontend_update ret (ip + d) taken BRANCH_RETURN ?f1"
  have f2: "?f2 = (snd (pop_basic_btb_ras ?f1))\<lparr>call_instr_sizes :=
      (call_instr_sizes (snd (pop_basic_btb_ras ?f1)))[?h := d]\<rparr>"
    using top dist assms(2) by (simp add: frontend_update_def Let_def case_prod_beta branch_defs)
  have ok2: "fe_ok ?f2" using ok1 by auto
  have size: "basic_btb_get_call_size (push_basic_btb_ras ip ?f2) ip = d"
  proof -
    have "call_instr_sizes (push_basic_btb_ras ip f) = call_instr_sizes f" for f
      by (simp add: push_basic_btb_ras_def Let_def)
    moreover have "length (call_instr_sizes (snd (pop_basic_btb_ras ?f1))) = BASIC_BTB_CALL_INSTR_SIZE_TRACKERS"
      using fe_ok_pop[OF ok1] by (simp add: fe_ok_def)
    ultimately show ?thesis
      using call_size_hash_bound[of ip] by (simp add: f2 basic_btb_get_call_size_def)
  qed
  have peek: "peek_basic_btb_ras (push_basic_btb_ras ip ?f2) = ip"
    using peek_view[OF fe_ok_push[OF ok2]] push_view[OF ok2] by simp
  show ?thesis
    using size peek
    by (simp add: btb_prediction_with_def update_btb_with_def Let_def branch_defs)
qed

lemma return_target_learned_witness:
  "\<exists>s3. btb_prediction_with (\<lambda>_ _. None) 900 BRANCH_RETURN s3 = Some ((107, 1), (s3 :: unit btb_cpu))"
  using return_target_learned[of "\<lparr>front = init_frontend, store = ()\<rparr>" 7 100 "\<lambda>_ _. None" "\<lambda>_ _ _ _ _. None" 900 1]
  by auto

end
