(* ===== verification/BtbInterface.thy ===== *)
theory BtbInterface
  imports Prelude FrontEnd
begin

text \<open>
  The interface between the front end and a BTB. A BTB provides the three branches of the
  dispatch that reach it (\<open>dpredict\<close>, \<open>dupdate\<close>, \<open>dprefetch\<close>) and an observation \<open>lookup\<close>, the
  target stored for a branch. The locale \<open>direct_btb\<close> states what every replacement policy
  promises: no assertion fails, the invariant is kept, a prediction does not change what is
  stored, and whatever is found later was stored by the last taken reference. The client
  lemmas lift these laws to runs of the whole front end. \<open>allocating_btb\<close> adds that a taken
  miss is always stored (no bypassing).
\<close>

section \<open>Configuration\<close>

text \<open>The globals of \<^verbatim>\<open>src/main.cc\<close> that fix the geometry of the BTB.\<close>

record btb_config =
  total_btb_ways :: u8
  total_btb_entries :: u64

definition BASIC_BTB_SETS :: "btb_config \<Rightarrow> u64" where
  "BASIC_BTB_SETS c = total_btb_entries c div ucast (total_btb_ways c)"

definition BASIC_BTB_WAYS :: "btb_config \<Rightarrow> nat" where
  "BASIC_BTB_WAYS c = unat (total_btb_ways c)"

definition config_ok :: "btb_config \<Rightarrow> bool" where
  "config_ok c \<longleftrightarrow> 0 < BASIC_BTB_WAYS c \<and> 0 < BASIC_BTB_SETS c"

definition default_config :: btb_config where
  "default_config = \<lparr>total_btb_ways = 4, total_btb_entries = 8192\<rparr>"

lemma default_config_ok [simp]: "config_ok default_config"
  by (simp add: config_ok_def default_config_def BASIC_BTB_SETS_def BASIC_BTB_WAYS_def)

section \<open>Runs of the front end\<close>

datatype btb_event =
    Predict u64 u8
  | Update u64 u64 u8 u8
  | PrefetchBtb u64 u64 u8 bool bool

fun event_ip :: "btb_event \<Rightarrow> u64" where
  "event_ip (Predict ip _) = ip"
| "event_ip (Update ip _ _ _) = ip"
| "event_ip (PrefetchBtb ip _ _ _ _) = ip"

text \<open>The three handlers a BTB file defines are the arguments.\<close>

fun btb_step ::
  "(u64 \<Rightarrow> u8 \<Rightarrow> 's \<Rightarrow> ((u64 \<times> u8) \<times> 's) option) \<Rightarrow> (u64 \<Rightarrow> u64 \<Rightarrow> u8 \<Rightarrow> u8 \<Rightarrow> 's \<Rightarrow> 's option) \<Rightarrow>
   (u64 \<Rightarrow> u64 \<Rightarrow> u8 \<Rightarrow> bool \<Rightarrow> bool \<Rightarrow> 's \<Rightarrow> 's option) \<Rightarrow> btb_event \<Rightarrow> 's \<Rightarrow> 's option"
where
  "btb_step pr up pf (Predict ip bt) s = map_option snd (pr ip bt s)"
| "btb_step pr up pf (Update ip t tk bt) s = up ip t tk bt s"
| "btb_step pr up pf (PrefetchBtb ip t bt tk sb) s = pf ip t bt tk sb s"

fun btb_run ::
  "(u64 \<Rightarrow> u8 \<Rightarrow> 's \<Rightarrow> ((u64 \<times> u8) \<times> 's) option) \<Rightarrow> (u64 \<Rightarrow> u64 \<Rightarrow> u8 \<Rightarrow> u8 \<Rightarrow> 's \<Rightarrow> 's option) \<Rightarrow>
   (u64 \<Rightarrow> u64 \<Rightarrow> u8 \<Rightarrow> bool \<Rightarrow> bool \<Rightarrow> 's \<Rightarrow> 's option) \<Rightarrow> btb_event list \<Rightarrow> 's \<Rightarrow> 's option"
where
  "btb_run pr up pf [] s = Some s"
| "btb_run pr up pf (e # es) s = Option.bind (btb_step pr up pf e s) (btb_run pr up pf es)"

text \<open>
  The abstract specification: an unbounded map that remembers, for every direct branch, the
  target of its last taken reference.
\<close>

fun ideal_step :: "btb_event \<Rightarrow> (u64 \<rightharpoonup> u64) \<Rightarrow> (u64 \<rightharpoonup> u64)" where
  "ideal_step (Predict ip bt) m = m"
| "ideal_step (Update ip t tk bt) m = (if is_direct bt \<and> tk \<noteq> 0 then m(ip \<mapsto> t) else m)"
| "ideal_step (PrefetchBtb ip t bt tk sb) m = (if is_direct bt \<and> tk then m(ip \<mapsto> t) else m)"

fun ideal_run :: "btb_event list \<Rightarrow> (u64 \<rightharpoonup> u64) \<Rightarrow> (u64 \<rightharpoonup> u64)" where
  "ideal_run [] m = m"
| "ideal_run (e # es) m = ideal_run es (ideal_step e m)"

section \<open>The contract of a BTB\<close>

text \<open>Some BTBs touch their state on every \<^verbatim>\<open>prefetch_btb\<close>, before the branch type is looked at (\<open>enter\<close>).\<close>

definition prefetch_btb_entering ::
  "('a \<Rightarrow> 'a) \<Rightarrow> (u64 \<Rightarrow> u64 \<Rightarrow> u8 \<Rightarrow> bool \<Rightarrow> bool \<Rightarrow> 'a \<Rightarrow> 'a option) \<Rightarrow>
   u64 \<Rightarrow> u64 \<Rightarrow> u8 \<Rightarrow> bool \<Rightarrow> bool \<Rightarrow> 'a btb_cpu \<Rightarrow> 'a btb_cpu option"
where
  "prefetch_btb_entering enter direct ip branch_target bt taken to_sb s =
     prefetch_btb_with direct ip branch_target bt taken to_sb (s\<lparr>store := enter (store s)\<rparr>)"

lemma prefetch_entering_id [simp]: "prefetch_btb_entering id = prefetch_btb_with"
  by (simp add: prefetch_btb_entering_def fun_eq_iff)

locale direct_btb =
  fixes inv :: "nat \<Rightarrow> 'a \<Rightarrow> bool"
    and bound :: nat
    and key_ok :: "u64 \<Rightarrow> bool"
    and lookup :: "'a \<Rightarrow> u64 \<Rightarrow> u64 option"
    and dpredict :: "u64 \<Rightarrow> 'a \<Rightarrow> ((u64 \<times> u8) \<times> 'a) option"
    and dupdate :: "u64 \<Rightarrow> u64 \<Rightarrow> u8 \<Rightarrow> u8 \<Rightarrow> 'a \<Rightarrow> 'a option"
    and dprefetch :: "u64 \<Rightarrow> u64 \<Rightarrow> u8 \<Rightarrow> bool \<Rightarrow> bool \<Rightarrow> 'a \<Rightarrow> 'a option"
    and enter :: "'a \<Rightarrow> 'a"
  assumes inv_later: "inv n a \<Longrightarrow> inv (Suc n) a"
    and law_enter: "inv n a \<Longrightarrow> inv n (enter a)" "lookup (enter a) k = lookup a k"
    and law_predict: "inv n a \<Longrightarrow> n < bound \<Longrightarrow> key_ok ip \<Longrightarrow>
      \<exists>r a'. dpredict ip a = Some (r, a') \<and> inv (Suc n) a' \<and> (\<forall>k. key_ok k \<longrightarrow> lookup a' k = lookup a k) \<and>
        (\<forall>t. lookup a ip = Some t \<longrightarrow> fst r = t)"
    and law_update: "inv n a \<Longrightarrow> n < bound \<Longrightarrow> key_ok ip \<Longrightarrow>
      \<exists>a'. dupdate ip t tk bt a = Some a' \<and> inv (Suc n) a' \<and> (\<forall>k u. key_ok k \<longrightarrow> lookup a' k = Some u \<longrightarrow>
        (if k = ip \<and> tk \<noteq> 0 then u = t else lookup a k = Some u))"
    and law_prefetch: "inv n a \<Longrightarrow> n < bound \<Longrightarrow> key_ok ip \<Longrightarrow>
      \<exists>a'. dprefetch ip t bt p sb a = Some a' \<and> inv (Suc n) a' \<and> (\<forall>k u. key_ok k \<longrightarrow> lookup a' k = Some u \<longrightarrow>
        (if k = ip \<and> p then u = t else lookup a k = Some u))"
begin

lemma step_law:
  assumes "inv n (store s)" "n < bound" "fe_ok (front s)" "key_ok (event_ip e)"
  shows "\<exists>s'. btb_step (btb_prediction_with dpredict) (update_btb_with dupdate)
      (prefetch_btb_entering enter dprefetch) e s = Some s' \<and> inv (Suc n) (store s') \<and> fe_ok (front s') \<and>
    (\<forall>m k u. key_ok k \<longrightarrow> (\<forall>v. lookup (store s) k = Some v \<longrightarrow> m k = Some v) \<longrightarrow>
       lookup (store s') k = Some u \<longrightarrow> ideal_step e m k = Some u)"
proof (cases e)
  case (Predict ip bt)
  from law_predict[OF assms(1,2), of ip] assms(4) Predict obtain r a' where
    "dpredict ip (store s) = Some (r, a')" "inv (Suc n) a'" "\<forall>k. key_ok k \<longrightarrow> lookup a' k = lookup (store s) k"
    by auto
  with Predict assms inv_later[OF assms(1)] show ?thesis
    by (auto simp: btb_prediction_with_def Let_def)
next
  case (Update ip t tk bt)
  from law_update[OF assms(1,2), of ip t tk bt] assms(4) Update obtain a' where
    "dupdate ip t tk bt (store s) = Some a'" "inv (Suc n) a'"
    "\<forall>k u. key_ok k \<longrightarrow> lookup a' k = Some u \<longrightarrow> (if k = ip \<and> tk \<noteq> 0 then u = t else lookup (store s) k = Some u)"
    by auto
  with Update assms inv_later[OF assms(1)] show ?thesis
    by (auto simp: update_btb_with_def is_direct_def Let_def split: if_splits)
next
  case (PrefetchBtb ip t bt tk sb)
  from law_prefetch[OF law_enter(1)[OF assms(1)] assms(2), of ip t bt tk sb] assms(4) PrefetchBtb obtain a' where
    "dprefetch ip t bt tk sb (enter (store s)) = Some a'" "inv (Suc n) a'"
    "\<forall>k u. key_ok k \<longrightarrow> lookup a' k = Some u \<longrightarrow>
       (if k = ip \<and> tk then u = t else lookup (enter (store s)) k = Some u)"
    by auto
  with PrefetchBtb assms inv_later[OF law_enter(1)[OF assms(1)]] show ?thesis
    by (auto simp: prefetch_btb_entering_def prefetch_btb_with_def is_direct_def law_enter(2) split: if_splits)
qed

lemma run_law:
  assumes "inv n (store s)" "n + length es \<le> bound" "fe_ok (front s)" "\<forall>e\<in>set es. key_ok (event_ip e)"
  shows "\<exists>s'. btb_run (btb_prediction_with dpredict) (update_btb_with dupdate)
      (prefetch_btb_entering enter dprefetch) es s = Some s' \<and> inv (n + length es) (store s') \<and> fe_ok (front s') \<and>
    (\<forall>m k u. key_ok k \<longrightarrow> (\<forall>v. lookup (store s) k = Some v \<longrightarrow> m k = Some v) \<longrightarrow>
       lookup (store s') k = Some u \<longrightarrow> ideal_run es m k = Some u)"
  using assms
proof (induction es arbitrary: n s)
  case (Cons e es)
  obtain s1 where s1: "btb_step (btb_prediction_with dpredict) (update_btb_with dupdate)
      (prefetch_btb_entering enter dprefetch) e s = Some s1" "inv (Suc n) (store s1)" "fe_ok (front s1)"
    "\<And>m k u. key_ok k \<Longrightarrow> (\<forall>v. lookup (store s) k = Some v \<longrightarrow> m k = Some v) \<Longrightarrow>
       lookup (store s1) k = Some u \<Longrightarrow> ideal_step e m k = Some u"
    using step_law[OF Cons.prems(1) _ Cons.prems(3), of e] Cons.prems by auto
  obtain s' where s': "btb_run (btb_prediction_with dpredict) (update_btb_with dupdate)
      (prefetch_btb_entering enter dprefetch) es s1 = Some s'" "inv (Suc n + length es) (store s')"
    "fe_ok (front s')"
    "\<And>m k u. key_ok k \<Longrightarrow> (\<forall>v. lookup (store s1) k = Some v \<longrightarrow> m k = Some v) \<Longrightarrow>
       lookup (store s') k = Some u \<Longrightarrow> ideal_run es m k = Some u"
    using Cons.IH[OF s1(2) _ s1(3)] Cons.prems by auto
  have "ideal_run (e # es) m k = Some u" if "key_ok k"
    "\<forall>v. lookup (store s) k = Some v \<longrightarrow> m k = Some v" "lookup (store s') k = Some u" for m k u
    using s'(4)[of k "ideal_step e m" u] s1(4)[of k m] that by simp
  with s1 s' show ?case by simp
qed auto

text \<open>A hit of the front end's prediction is the target of the last taken reference.\<close>

lemma run_correct:
  assumes "inv 0 (store s)" "fe_ok (front s)" "\<And>k. key_ok k \<Longrightarrow> lookup (store s) k = None"
    and "\<forall>e\<in>set es. key_ok (event_ip e)" "length es < bound"
  shows "\<exists>s'. btb_run (btb_prediction_with dpredict) (update_btb_with dupdate)
      (prefetch_btb_entering enter dprefetch) es s = Some s' \<and> inv (length es) (store s') \<and> fe_ok (front s') \<and>
     (\<forall>ip bt t. key_ok ip \<longrightarrow> is_direct bt \<longrightarrow> lookup (store s') ip = Some t \<longrightarrow>
        ideal_run es Map.empty ip = Some t \<and>
        (\<exists>taken s''. btb_prediction_with dpredict ip bt s' = Some ((t, taken), s'')))"
proof -
  obtain s' where s': "btb_run (btb_prediction_with dpredict) (update_btb_with dupdate)
      (prefetch_btb_entering enter dprefetch) es s = Some s'" "inv (length es) (store s')" "fe_ok (front s')"
    "\<forall>m k u. key_ok k \<longrightarrow> (\<forall>v. lookup (store s) k = Some v \<longrightarrow> m k = Some v) \<longrightarrow>
       lookup (store s') k = Some u \<longrightarrow> ideal_run es m k = Some u"
    using run_law[of 0 s es] assms by auto
  have "ideal_run es Map.empty ip = Some t \<and>
      (\<exists>taken s''. btb_prediction_with dpredict ip bt s' = Some ((t, taken), s''))"
    if h: "key_ok ip" "is_direct bt" "lookup (store s') ip = Some t" for ip bt t
  proof -
    from law_predict[OF s'(2) assms(5) h(1)] h(3) obtain r a' where
      "dpredict ip (store s') = Some (r, a')" "fst r = t" by auto
    then have "\<exists>taken s''. btb_prediction_with dpredict ip bt s' = Some ((t, taken), s'')"
      using h(2) by (cases r) (auto simp: btb_prediction_with_def is_direct_def Let_def)
    with s'(4) h(1,3) assms(3) show ?thesis by (metis option.simps(3))
  qed
  with s' show ?thesis by blast
qed

end

locale allocating_btb = direct_btb +
  assumes update_allocates: "inv n a \<Longrightarrow> n < bound \<Longrightarrow> key_ok ip \<Longrightarrow> t \<noteq> 0 \<Longrightarrow> tk \<noteq> 0 \<Longrightarrow>
      dupdate ip t tk bt a = Some a' \<Longrightarrow> lookup a' ip = Some t"
begin

lemma update_then_predict:
  assumes "inv n (store s)" "Suc n < bound" "key_ok ip" "t \<noteq> 0" "tk \<noteq> 0" "is_direct bt"
  shows "\<exists>s' taken s''. update_btb_with dupdate ip t tk bt s = Some s' \<and>
    btb_prediction_with dpredict ip bt s' = Some ((t, taken), s'')"
proof -
  obtain a where a: "dupdate ip t tk bt (store s) = Some a" "inv (Suc n) a"
    using law_update[OF assms(1) _ assms(3), of t tk bt] assms(2) by auto
  then have l: "lookup a ip = Some t" using update_allocates[OF assms(1) _ assms(3-5)] assms(2) by simp
  obtain r a' where p: "dpredict ip a = Some (r, a')" "fst r = t"
    using law_predict[OF a(2) assms(2,3)] l by auto
  with a assms(6) show ?thesis
    by (cases r) (auto simp: update_btb_with_def btb_prediction_with_def is_direct_def Let_def)
qed

end

text \<open>An invariant with a bound that every event may move by one.\<close>

lemma run_counted:
  assumes "\<And>n e s s'. I n s \<Longrightarrow> P e \<Longrightarrow> n < N \<Longrightarrow> btb_step pr up pf e s = Some s' \<Longrightarrow> I (Suc n) s'"
    and "I n s" "\<forall>e\<in>set es. P e" "n + length es \<le> N" "btb_run pr up pf es s = Some s'"
  shows "I (n + length es) s'"
  using assms(2-5)
proof (induction es arbitrary: n s)
  case (Cons e es)
  then obtain s1 where "btb_step pr up pf e s = Some s1" "btb_run pr up pf es s1 = Some s'"
    by (auto simp: bind_eq_Some_conv)
  with Cons.IH[of "Suc n" s1] Cons.prems assms(1)[of n s e s1] show ?case by simp
qed simp

end
