(* ===== verification/TagArray.thy ===== *)
theory TagArray
  imports Prelude
begin

text \<open>
  Rows of a set-associative array: what the array BTBs (LRU, SRRIP, random, victim buffer,
  Hawkeye) share. A row is the list of ways of one set; \<open>tag\<close> and \<open>tgt\<close> read an entry's
  tag and target; tag 0 marks a way never written.
\<close>

definition row_find :: "('e \<Rightarrow> u64) \<Rightarrow> 'e list \<Rightarrow> u64 \<Rightarrow> nat option" where
  "row_find tag row k = first_index (\<lambda>i. tag (row ! i) = k) (length row)"

definition row_lookup :: "('e \<Rightarrow> u64) \<Rightarrow> ('e \<Rightarrow> u64) \<Rightarrow> 'e list \<Rightarrow> u64 \<Rightarrow> u64 option" where
  "row_lookup tag tgt row k = map_option (\<lambda>w. tgt (row ! w)) (row_find tag row k)"

definition uniq_tags :: "('e \<Rightarrow> u64) \<Rightarrow> 'e list \<Rightarrow> bool" where
  "uniq_tags tag row \<longleftrightarrow> (\<forall>i<length row. \<forall>j<length row.
     tag (row ! i) \<noteq> 0 \<longrightarrow> tag (row ! i) = tag (row ! j) \<longrightarrow> i = j)"

lemma row_find_None: "row_find tag row k = None \<longleftrightarrow> (\<forall>i<length row. tag (row ! i) \<noteq> k)"
  by (simp add: row_find_def first_index_None_iff)

lemma row_find_SomeD: "row_find tag row k = Some w \<Longrightarrow> w < length row \<and> tag (row ! w) = k"
  by (auto simp: row_find_def dest: first_index_SomeD)

lemma row_find_at:
  assumes "uniq_tags tag row" "w < length row" "tag (row ! w) = k" "k \<noteq> 0"
  shows "row_find tag row k = Some w"
proof (cases "row_find tag row k")
  case None
  with assms show ?thesis by (auto simp: row_find_None)
next
  case (Some v)
  with assms row_find_SomeD[OF Some] show ?thesis by (auto simp: uniq_tags_def)
qed

lemma row_lookup_None: "row_lookup tag tgt row k = None \<longleftrightarrow> row_find tag row k = None"
  by (simp add: row_lookup_def)

lemma row_lookup_insert:
  assumes u: "uniq_tags tag row" and "w < length row" and "row_find tag row ip = None"
    and t: "tag e = ip" and "ip \<noteq> 0"
  shows "uniq_tags tag (row[w := e])"
    and "k \<noteq> 0 \<Longrightarrow> row_lookup tag tgt (row[w := e]) k =
      (if k = ip then Some (tgt e) else if tag (row ! w) = k then None else row_lookup tag tgt row k)"
proof -
  show u': "uniq_tags tag (row[w := e])"
    using assms unfolding uniq_tags_def row_find_None by (auto simp: nth_list_update)
  assume k: "k \<noteq> 0"
  show "row_lookup tag tgt (row[w := e]) k =
      (if k = ip then Some (tgt e) else if tag (row ! w) = k then None else row_lookup tag tgt row k)"
  proof (cases "k = ip")
    case True
    then show ?thesis
      using row_find_at[OF u', of w k] assms k by (simp add: row_lookup_def)
  next
    case False
    show ?thesis
    proof (cases "row_find tag (row[w := e]) k")
      case None
      then have n: "\<forall>i<length row. i \<noteq> w \<longrightarrow> tag (row ! i) \<noteq> k"
        by (auto simp: row_find_None nth_list_update)
      show ?thesis
      proof (cases "tag (row ! w) = k")
        case True with None False show ?thesis by (simp add: row_lookup_def)
      next
        case ne: False
        with n have "row_find tag row k = None" by (auto simp: row_find_None)
        with None False ne show ?thesis by (simp add: row_lookup_def)
      qed
    next
      case (Some v)
      have v: "v < length row" "v \<noteq> w" "tag (row ! v) = k"
        using row_find_SomeD[OF Some] False t assms(2) by (cases "v = w"; force)+
      then have "row_find tag row k = Some v" using row_find_at[OF u] k by simp
      moreover have "tag (row ! w) \<noteq> k" using u v k assms(2) by (auto simp: uniq_tags_def)
      ultimately show ?thesis using Some False v by (simp add: row_lookup_def)
    qed
  qed
qed

lemma row_find_same_tags:
  "length row' = length row \<Longrightarrow> (\<And>i. i < length row \<Longrightarrow> tag (row' ! i) = tag (row ! i)) \<Longrightarrow>
   row_find tag row' k = row_find tag row k"
  by (auto simp: row_find_def intro: first_index_cong)

lemma uniq_tags_same_tags:
  "length row' = length row \<Longrightarrow> (\<And>i. i < length row \<Longrightarrow> tag (row' ! i) = tag (row ! i)) \<Longrightarrow>
   uniq_tags tag row' = uniq_tags tag row"
  by (simp add: uniq_tags_def)

lemma row_lookup_same:
  "length row' = length row \<Longrightarrow> (\<And>i. i < length row \<Longrightarrow> tag (row' ! i) = tag (row ! i)) \<Longrightarrow>
   (\<And>i. i < length row \<Longrightarrow> tgt (row' ! i) = tgt (row ! i)) \<Longrightarrow>
   row_lookup tag tgt row' k = row_lookup tag tgt row k"
  using row_find_same_tags[of row' row tag k]
  by (cases "row_find tag row k") (auto simp: row_lookup_def dest: row_find_SomeD)

lemma row_lookup_modify:
  assumes "w < length row" "tag e = tag (row ! w)" "uniq_tags tag row"
  shows "uniq_tags tag (row[w := e])"
    and "k \<noteq> 0 \<Longrightarrow> row_lookup tag tgt (row[w := e]) k =
      (if k = tag (row ! w) then Some (tgt e) else row_lookup tag tgt row k)"
proof -
  have same: "\<And>i. i < length row \<Longrightarrow> tag (row[w := e] ! i) = tag (row ! i)"
    using assms by (auto simp: nth_list_update)
  show u: "uniq_tags tag (row[w := e])" using uniq_tags_same_tags[of "row[w := e]" row tag] same assms by simp
  have f: "row_find tag (row[w := e]) k = row_find tag row k"
    by (rule row_find_same_tags) (auto simp: same)
  assume "k \<noteq> 0"
  then show "row_lookup tag tgt (row[w := e]) k =
      (if k = tag (row ! w) then Some (tgt e) else row_lookup tag tgt row k)"
    using f row_find_at[OF assms(3,1), of k] assms(1)
    by (cases "row_find tag row k") (auto simp: row_lookup_def nth_list_update dest!: row_find_SomeD)
qed

lemma uniq_tags_replicate: "tag e = 0 \<Longrightarrow> uniq_tags tag (replicate n e)"
  by (simp add: uniq_tags_def)

text \<open>One entry of a two-dimensional array.\<close>

definition upd2 :: "nat \<Rightarrow> nat \<Rightarrow> ('e \<Rightarrow> 'e) \<Rightarrow> 'e list list \<Rightarrow> 'e list list" where
  "upd2 i j f xss = xss[i := (xss ! i)[j := f (xss ! i ! j)]]"

lemma length_upd2 [simp]: "length (upd2 i j f xss) = length xss"
  by (simp add: upd2_def)

lemma row_upd2: "i < length xss \<Longrightarrow>
  upd2 i j f xss ! r = (if r = i then (xss ! i)[j := f (xss ! i ! j)] else xss ! r)"
  by (auto simp: upd2_def nth_list_update)

lemma length_row_upd2 [simp]: "length (upd2 i j f xss ! r) = length (xss ! r)"
proof (cases "i < length xss")
  case True then show ?thesis by (simp add: row_upd2)
next
  case False then show ?thesis by (simp add: upd2_def list_update_beyond)
qed

lemma upd2_upd2:
  "i < length xss \<Longrightarrow> j < length (xss ! i) \<Longrightarrow> upd2 i j g (upd2 i j f xss) = upd2 i j (g \<circ> f) xss"
  by (simp add: upd2_def)

section \<open>Arrays of rows\<close>

text \<open>
  The geometry of an array BTB: the set index of a branch, the numbers of sets and ways, and
  the two fields of an entry that the front end sees.
\<close>

record 'e geometry =
  g_index :: "u64 \<Rightarrow> nat"
  g_sets :: nat
  g_ways :: nat
  g_tag :: "'e \<Rightarrow> u64"
  g_tgt :: "'e \<Rightarrow> u64"

definition arr_ok :: "'e geometry \<Rightarrow> 'e list list \<Rightarrow> bool" where
  "arr_ok g b \<longleftrightarrow> 0 < g_ways g \<and> length b = g_sets g \<and> (\<forall>k. g_index g k < g_sets g) \<and>
     (\<forall>r<g_sets g. length (b ! r) = g_ways g \<and> uniq_tags (g_tag g) (b ! r) \<and>
       (\<forall>i<g_ways g. g_tag g (b ! r ! i) \<noteq> 0 \<longrightarrow> g_index g (g_tag g (b ! r ! i)) = r))"

definition arr_find :: "'e geometry \<Rightarrow> 'e list list \<Rightarrow> u64 \<Rightarrow> nat option" where
  "arr_find g b k = row_find (g_tag g) (b ! g_index g k) k"

definition arr_lookup :: "'e geometry \<Rightarrow> 'e list list \<Rightarrow> u64 \<Rightarrow> u64 option" where
  "arr_lookup g b k = row_lookup (g_tag g) (g_tgt g) (b ! g_index g k) k"

text \<open>
  What an operation on the branch \<open>ip\<close> may do: keep the array well-formed, write the target
  \<open>w\<close> for \<open>ip\<close> (when \<open>w\<close> is given), and drop entries, never invent or change another one.
\<close>

definition arr_effect :: "'e geometry \<Rightarrow> u64 \<Rightarrow> u64 option \<Rightarrow> 'e list list \<Rightarrow> 'e list list \<Rightarrow> bool" where
  "arr_effect g ip w a b \<longleftrightarrow> arr_ok g b \<and>
     (\<forall>k u. k \<noteq> 0 \<longrightarrow> arr_lookup g b k = Some u \<longrightarrow>
       (if k = ip \<and> w \<noteq> None then w = Some u else arr_lookup g a k = Some u))"

definition arr_same :: "'e geometry \<Rightarrow> 'e list list \<Rightarrow> 'e list list \<Rightarrow> bool" where
  "arr_same g a b \<longleftrightarrow> arr_ok g b \<and> (\<forall>k. k \<noteq> 0 \<longrightarrow> arr_find g b k = arr_find g a k \<and>
     arr_lookup g b k = arr_lookup g a k)"

lemma arr_okD:
  assumes "arr_ok g b"
  shows "g_index g k < length b" "length (b ! g_index g k) = g_ways g"
    "uniq_tags (g_tag g) (b ! g_index g k)" "0 < g_ways g"
  using assms by (auto simp: arr_ok_def)

lemma arr_okD': "arr_ok g b \<Longrightarrow> s < length b \<Longrightarrow> length (b ! s) = g_ways g"
  "arr_ok g b \<Longrightarrow> s < length b \<Longrightarrow> uniq_tags (g_tag g) (b ! s)"
  "arr_ok g b \<Longrightarrow> length b = g_sets g"
  by (simp_all add: arr_ok_def)

lemma arr_findD:
  assumes "arr_ok g b" "arr_find g b k = Some w"
  shows "w < g_ways g" "g_tag g (b ! g_index g k ! w) = k"
    "arr_lookup g b k = Some (g_tgt g (b ! g_index g k ! w))"
  using assms arr_okD(2)[of g b k]
  by (auto simp: arr_find_def arr_lookup_def row_lookup_def dest: row_find_SomeD)

lemma arr_lookup_None: "arr_lookup g b k = None \<longleftrightarrow> arr_find g b k = None"
  by (simp add: arr_lookup_def arr_find_def row_lookup_None)

lemma arr_find_at:
  "arr_ok g b \<Longrightarrow> w < g_ways g \<Longrightarrow> g_tag g (b ! g_index g k ! w) = k \<Longrightarrow> k \<noteq> 0 \<Longrightarrow> arr_find g b k = Some w"
  using arr_okD(2,3)[of g b k] by (simp add: arr_find_def row_find_at)

lemma arr_same_refl [simp]: "arr_ok g b \<Longrightarrow> arr_same g b b"
  by (simp add: arr_same_def)

lemma arr_effect_refl:
  "arr_ok g b \<Longrightarrow> w = None \<or> arr_find g b ip = None \<Longrightarrow> arr_effect g ip w b b"
  by (auto simp: arr_effect_def arr_lookup_None[symmetric])

lemma arr_same_trans: "arr_same g a b \<Longrightarrow> arr_same g b c \<Longrightarrow> arr_same g a c"
  by (simp add: arr_same_def)

lemma arr_same_effect: "arr_same g a b \<Longrightarrow> arr_effect g ip w b c \<Longrightarrow> arr_effect g ip w a c"
  unfolding arr_same_def arr_effect_def by (metis (no_types, lifting))

lemma arr_effect_same: "arr_effect g ip w a b \<Longrightarrow> arr_same g b c \<Longrightarrow> arr_effect g ip w a c"
  unfolding arr_same_def arr_effect_def by (metis (no_types, lifting))

text \<open>Rewriting one way: its tag kept, or a tag that the set does not hold brought in.\<close>

lemma arr_modify:
  assumes ok: "arr_ok g b" and i: "s < length b" "w < g_ways g"
    and tag: "g_tag g (f (b ! s ! w)) = g_tag g (b ! s ! w)"
  shows "arr_ok g (upd2 s w f b)"
    and "k \<noteq> 0 \<Longrightarrow> arr_find g (upd2 s w f b) k = arr_find g b k"
    and "k \<noteq> 0 \<Longrightarrow> arr_lookup g (upd2 s w f b) k =
      (if k = g_tag g (b ! s ! w) \<and> g_index g k = s then Some (g_tgt g (f (b ! s ! w)))
       else arr_lookup g b k)"
proof -
  note d = arr_okD'[OF ok]
  note m = row_lookup_modify[OF _ tag d(2)[OF i(1)], unfolded d(1)[OF i(1)], OF i(2)]
  show "arr_ok g (upd2 s w f b)"
    using ok i m(1) tag by (auto simp: arr_ok_def row_upd2 nth_list_update)
  have "row_find (g_tag g) ((b ! s)[w := f (b ! s ! w)]) k = row_find (g_tag g) (b ! s) k"
  proof (rule row_find_same_tags)
    show "i < length (b ! s) \<Longrightarrow> g_tag g ((b ! s)[w := f (b ! s ! w)] ! i) = g_tag g (b ! s ! i)" for i
      using tag by (cases "i = w") simp_all
  qed simp
  then show "k \<noteq> 0 \<Longrightarrow> arr_find g (upd2 s w f b) k = arr_find g b k"
    using i by (auto simp: arr_find_def row_upd2)
  show "k \<noteq> 0 \<Longrightarrow> arr_lookup g (upd2 s w f b) k =
      (if k = g_tag g (b ! s ! w) \<and> g_index g k = s then Some (g_tgt g (f (b ! s ! w)))
       else arr_lookup g b k)"
    using i m(2) by (auto simp: arr_lookup_def row_upd2)
qed

text \<open>Replacing a whole row by one with the same tags and targets.\<close>

lemma arr_same_row:
  assumes ok: "arr_ok g b" and s: "s < length b" and len: "length row = g_ways g"
    and same: "\<And>i. i < g_ways g \<Longrightarrow> g_tag g (row ! i) = g_tag g (b ! s ! i)"
      "\<And>i. i < g_ways g \<Longrightarrow> g_tgt g (row ! i) = g_tgt g (b ! s ! i)"
  shows "arr_same g b (b[s := row])"
proof -
  note d = arr_okD'[OF ok]
  have l: "length row = length (b ! s)" using d(1)[OF s] len by simp
  have "uniq_tags (g_tag g) row"
    using uniq_tags_same_tags[OF l, of "g_tag g"] d(1,2)[OF s] same(1) by simp
  then have "arr_ok g (b[s := row])"
    using ok s len same(1) by (auto simp: arr_ok_def nth_list_update)
  moreover have "row_find (g_tag g) row k = row_find (g_tag g) (b ! s) k"
    "row_lookup (g_tag g) (g_tgt g) row k = row_lookup (g_tag g) (g_tgt g) (b ! s) k" for k
    using row_find_same_tags[OF l, of "g_tag g"] row_lookup_same[OF l, of "g_tag g" "g_tgt g"] same d(1)[OF s]
    by simp_all
  ultimately show ?thesis
    using s by (auto simp: arr_same_def arr_find_def arr_lookup_def nth_list_update)
qed

lemma arr_touch:
  assumes "arr_ok g b" "s < length b" "w < g_ways g"
    and "g_tag g (f (b ! s ! w)) = g_tag g (b ! s ! w)" "g_tgt g (f (b ! s ! w)) = g_tgt g (b ! s ! w)"
  shows "arr_same g b (upd2 s w f b)"
proof -
  have "k \<noteq> 0 \<Longrightarrow> k = g_tag g (b ! s ! w) \<Longrightarrow> g_index g k = s \<Longrightarrow>
      arr_lookup g b k = Some (g_tgt g (b ! s ! w))" for k
    using arr_find_at[OF assms(1,3), of k] arr_findD(3)[OF assms(1)] by auto
  then show ?thesis
    using arr_modify[where f = f, OF assms(1-4)] assms(5) by (auto simp: arr_same_def)
qed

lemma arr_write:
  assumes "arr_ok g b" "ip \<noteq> 0" "arr_find g b ip = Some w"
    and "g_tag g (f (b ! g_index g ip ! w)) = ip"
    and "g_tgt g (f (b ! g_index g ip ! w)) = (case t of None \<Rightarrow> g_tgt g (b ! g_index g ip ! w) | Some t \<Rightarrow> t)"
  shows "arr_effect g ip t b (upd2 (g_index g ip) w f b)"
    and "arr_lookup g (upd2 (g_index g ip) w f b) ip
      = (case t of None \<Rightarrow> arr_lookup g b ip | Some t \<Rightarrow> Some t)"
proof -
  note fd = arr_findD[OF assms(1,3)]
  have tag: "g_tag g (f (b ! g_index g ip ! w)) = g_tag g (b ! g_index g ip ! w)"
    using fd(2) assms(4) by simp
  note m = arr_modify[where f = f, OF assms(1) arr_okD(1)[OF assms(1)] fd(1) tag]
  show "arr_effect g ip t b (upd2 (g_index g ip) w f b)"
    using m fd assms(2,5) by (auto simp: arr_effect_def split: if_splits option.splits)
  show "arr_lookup g (upd2 (g_index g ip) w f b) ip
      = (case t of None \<Rightarrow> arr_lookup g b ip | Some t \<Rightarrow> Some t)"
    using m fd assms(2,5) by (auto split: option.splits)
qed

lemma arr_insert:
  assumes ok: "arr_ok g b" and ip: "ip \<noteq> 0" and none: "arr_find g b ip = None" and w: "w < g_ways g"
    and f: "g_tag g (f (b ! g_index g ip ! w)) = ip" "g_tgt g (f (b ! g_index g ip ! w)) = t"
  shows "arr_effect g ip (Some t) b (upd2 (g_index g ip) w f b)"
    and "arr_lookup g (upd2 (g_index g ip) w f b) ip = Some t"
    and "k \<noteq> 0 \<Longrightarrow> k \<noteq> ip \<Longrightarrow> k \<noteq> g_tag g (b ! g_index g ip ! w) \<Longrightarrow>
      arr_lookup g (upd2 (g_index g ip) w f b) k = arr_lookup g b k"
    and "g_tag g (b ! g_index g ip ! w) \<noteq> 0 \<Longrightarrow>
      arr_lookup g (upd2 (g_index g ip) w f b) (g_tag g (b ! g_index g ip ! w)) = None \<and>
      arr_lookup g b (g_tag g (b ! g_index g ip ! w)) = Some (g_tgt g (b ! g_index g ip ! w))"
proof -
  let ?s = "g_index g ip" and ?b = "upd2 (g_index g ip) w f b"
  note d = arr_okD(1-3)[OF ok, of ip]
  have n: "row_find (g_tag g) (b ! ?s) ip = None" using none by (simp add: arr_find_def)
  note m = row_lookup_insert[OF d(3) _ n f(1) ip, unfolded d(2), OF w]
  have "g_tag g ((b ! ?s)[w := f (b ! ?s ! w)] ! i) \<noteq> 0 \<Longrightarrow>
      g_index g (g_tag g ((b ! ?s)[w := f (b ! ?s ! w)] ! i)) = ?s" if "i < g_ways g" for i
    using that f ok d by (cases "i = w") (auto simp: arr_ok_def)
  then have okb: "arr_ok g ?b"
    using ok m(1) d(1) by (auto simp: arr_ok_def row_upd2)
  have lk: "k \<noteq> 0 \<Longrightarrow> arr_lookup g ?b k = (if k = ip then Some t
      else if g_index g k = ?s \<and> g_tag g (b ! ?s ! w) = k then None else arr_lookup g b k)" for k
    using d m(2) f by (auto simp: arr_lookup_def row_upd2)
  show "arr_effect g ip (Some t) b ?b" "arr_lookup g ?b ip = Some t"
    "k \<noteq> 0 \<Longrightarrow> k \<noteq> ip \<Longrightarrow> k \<noteq> g_tag g (b ! ?s ! w) \<Longrightarrow> arr_lookup g ?b k = arr_lookup g b k"
    using okb lk ip by (auto simp: arr_effect_def split: if_splits)
  let ?o = "g_tag g (b ! ?s ! w)"
  show "?o \<noteq> 0 \<Longrightarrow> arr_lookup g ?b ?o = None \<and> arr_lookup g b ?o = Some (g_tgt g (b ! ?s ! w))"
  proof -
    assume o: "?o \<noteq> 0"
    then have g: "g_index g ?o = ?s" using ok d(1,2) w by (auto simp: arr_ok_def)
    then have f: "arr_find g b ?o = Some w" using arr_find_at[OF ok w, of ?o] o by simp
    then have "?o \<noteq> ip" using none by auto
    then show ?thesis using lk[OF o] g arr_findD(3)[OF ok f] by simp
  qed
qed

lemma arr_ok_replicate:
  assumes "0 < g_ways g" "\<And>k. g_index g k < g_sets g" "g_tag g e = 0"
  shows "arr_ok g (replicate (g_sets g) (replicate (g_ways g) e))"
    "k \<noteq> 0 \<Longrightarrow> arr_lookup g (replicate (g_sets g) (replicate (g_ways g) e)) k = None"
  using assms by (simp_all add: arr_ok_def uniq_tags_replicate arr_lookup_def row_lookup_None row_find_None)

section \<open>Recency order of a row\<close>

text \<open>
  The used ways of a row, least recent stamp first. With distinct stamps, writing one way
  with the largest stamp moves it to the end of that order.
\<close>

definition recency :: "('e \<Rightarrow> u64) \<Rightarrow> ('e \<Rightarrow> 's::linorder) \<Rightarrow> 'e list \<Rightarrow> 'e list" where
  "recency tag stamp row = sort_key stamp (filter (\<lambda>e. tag e \<noteq> 0) row)"

definition stamps_below :: "('e \<Rightarrow> u64) \<Rightarrow> ('e \<Rightarrow> 's::linorder) \<Rightarrow> 's \<Rightarrow> 'e list \<Rightarrow> bool" where
  "stamps_below tag stamp n row \<longleftrightarrow>
     (\<forall>i<length row. \<forall>j<length row. tag (row ! i) \<noteq> 0 \<longrightarrow> tag (row ! j) \<noteq> 0 \<longrightarrow>
        stamp (row ! i) = stamp (row ! j) \<longrightarrow> i = j) \<and>
     (\<forall>i<length row. tag (row ! i) \<noteq> 0 \<longrightarrow> stamp (row ! i) < n)"

lemma stamps_below_update:
  assumes "stamps_below tag stamp n row" "stamp e = n" "n < m" "w < length row"
  shows "stamps_below tag stamp m (row[w := e])"
  unfolding stamps_below_def
proof (intro conjI allI impI)
  let ?r = "row[w := e]"
  have less: "\<And>i. i < length row \<Longrightarrow> tag (row ! i) \<noteq> 0 \<Longrightarrow> stamp (row ! i) < n"
    using assms(1) by (simp add: stamps_below_def)
  fix i j
  assume h: "i < length ?r" "j < length ?r" "tag (?r ! i) \<noteq> 0" "tag (?r ! j) \<noteq> 0"
    "stamp (?r ! i) = stamp (?r ! j)"
  show "i = j"
  proof (cases "i = w \<or> j = w")
    case True
    with h assms(2) less[of i] less[of j] show ?thesis
      by (cases "i = w"; cases "j = w") (simp_all add: assms(2))
  next
    case False
    with h assms(1) show ?thesis by (simp add: stamps_below_def)
  qed
next
  fix i assume "i < length (row[w := e])" "tag (row[w := e] ! i) \<noteq> 0"
  with assms show "stamp (row[w := e] ! i) < m"
    by (cases "i = w") (auto simp: stamps_below_def)
qed

lemma stamps_below_mono: "stamps_below tag stamp n row \<Longrightarrow> n \<le> m \<Longrightarrow> stamps_below tag stamp m row"
  unfolding stamps_below_def by (meson order_less_le_trans)

lemma stamps_below_keep:
  assumes "stamps_below tag stamp n row" "stamp e = stamp (row ! w)" "tag e = tag (row ! w)"
  shows "stamps_below tag stamp n (row[w := e])"
  using assms unfolding stamps_below_def
  by (cases "w < length row") (auto simp: nth_list_update)

lemma stamps_inj:
  "stamps_below tag stamp n row \<Longrightarrow> inj_on stamp (set (filter (\<lambda>e. tag e \<noteq> 0) row))"
  unfolding stamps_below_def inj_on_def by (auto simp: in_set_conv_nth)

lemma stamps_less: "stamps_below tag stamp n row \<Longrightarrow> e \<in> set (recency tag stamp row) \<Longrightarrow> stamp e < n"
  unfolding stamps_below_def recency_def by (auto simp: in_set_conv_nth)

lemma recency_update:
  assumes st: "stamps_below tag stamp n row" and w: "w < length row" and e: "tag e \<noteq> 0" "stamp e = n"
  shows "recency tag stamp (row[w := e]) = remove1 (row ! w) (recency tag stamp row) @ [e]"
proof -
  let ?u = "\<lambda>e. tag e \<noteq> 0" and ?ys = "remove1 (row ! w) (recency tag stamp row) @ [e]"
  have "mset (row[w := e]) = add_mset e (mset row - {#row ! w#})" using w by (simp add: mset_update)
  then have m: "mset (filter ?u (row[w := e])) = mset ?ys"
    using e w by (auto simp: recency_def diff_single_trivial)
  have less: "\<And>x. x \<in> set (remove1 (row ! w) (recency tag stamp row)) \<Longrightarrow> stamp x < n"
    using stamps_less[OF st] notin_set_remove1 by metis
  have "sorted (map stamp (recency tag stamp row))" by (simp add: recency_def)
  then have s: "sorted (map stamp ?ys)"
    using less e by (auto simp: sorted_append less_imp_le intro: sorted_map_remove1)
  have sub: "set ?ys \<subseteq> insert e (set (filter ?u row))"
    using set_remove1_subset[of "row ! w" "recency tag stamp row"] by (auto simp: recency_def)
  have "stamp e \<notin> stamp ` (set (filter ?u row) - {e})"
    using stamps_less[OF st] e by (fastforce simp: recency_def)
  then have "inj_on stamp (insert e (set (filter ?u row)))"
    using stamps_inj[OF st] by (simp only: inj_on_insert not_False_eq_True)
  then have "inj_on stamp (set ?ys)" using sub by (rule inj_on_subset)
  then have "inj_on stamp (set (filter ?u (row[w := e])))"
    using mset_eq_setD[OF m] by simp
  then show ?thesis
    using sort_key_inj_key_eq[OF m _ s] by (simp add: recency_def)
qed

text \<open>The same order as branches: an LRU stack of tags.\<close>

definition tag_order :: "('e \<Rightarrow> u64) \<Rightarrow> ('e \<Rightarrow> 's::linorder) \<Rightarrow> 'e list \<Rightarrow> u64 list" where
  "tag_order tag stamp row = map tag (recency tag stamp row)"

lemma map_remove1_unique:
  "(\<forall>y\<in>set xs. f y = f x \<longrightarrow> y = x) \<Longrightarrow> map f (remove1 x xs) = remove1 (f x) (map f xs)"
  by (induction xs) auto

lemma set_recency: "set (recency tag stamp row) = {e \<in> set row. tag e \<noteq> 0}"
  by (simp add: recency_def)

lemma set_tag_order: "set (tag_order tag stamp row) = tag ` {e \<in> set row. tag e \<noteq> 0}"
  by (simp add: tag_order_def set_recency)

lemma tag_order_update:
  assumes "stamps_below tag stamp n row" "uniq_tags tag row" "w < length row" "tag e \<noteq> 0" "stamp e = n"
  shows "tag_order tag stamp (row[w := e]) = remove1 (tag (row ! w)) (tag_order tag stamp row) @ [tag e]"
proof -
  have "\<forall>y\<in>set (recency tag stamp row). tag y = tag (row ! w) \<longrightarrow> y = row ! w"
    using assms(2,3) by (auto simp: set_recency in_set_conv_nth uniq_tags_def)
  then show ?thesis
    using recency_update[OF assms(1,3-5)] by (simp add: tag_order_def map_remove1_unique)
qed

lemma recency_cong:
  assumes "length row' = length row" "\<And>i. i < length row \<Longrightarrow> tag (row' ! i) = tag (row ! i)"
    "\<And>i. i < length row \<Longrightarrow> stamp (row' ! i) = stamp (row ! i)"
  shows "stamps_below tag stamp n row' = stamps_below tag stamp n row"
  using assms by (simp add: stamps_below_def)

lemma recency_first:
  assumes st: "stamps_below tag stamp n row" and full: "\<forall>e\<in>set row. tag e \<noteq> 0"
    and w: "w < length row" and least: "\<And>i. i < length row \<Longrightarrow> stamp (row ! w) \<le> stamp (row ! i)"
  shows "recency tag stamp row \<noteq> [] \<and> hd (recency tag stamp row) = row ! w"
proof -
  let ?r = "recency tag stamp row"
  have mem: "row ! w \<in> set ?r" using w full by (simp add: set_recency)
  then obtain x xs where r: "?r = x # xs" by (cases ?r) auto
  have "sorted (map stamp ?r)" by (simp add: recency_def)
  then have "stamp x \<le> stamp (row ! w)" using mem r by auto
  moreover have "x \<in> set row" using r set_recency[of tag stamp row] by auto
  then have "stamp (row ! w) \<le> stamp x" using least by (auto simp: in_set_conv_nth)
  ultimately have "stamp x = stamp (row ! w)" by simp
  then have "x = row ! w"
    using stamps_inj[OF st] mem r set_recency[of tag stamp row] unfolding inj_on_def by auto
  with r show ?thesis by simp
qed

lemma tag_order_replace_least:
  assumes "stamps_below tag stamp n row" "uniq_tags tag row" "\<forall>e\<in>set row. tag e \<noteq> 0"
    and "w < length row" "\<And>i. i < length row \<Longrightarrow> stamp (row ! w) \<le> stamp (row ! i)"
    and "tag e \<noteq> 0" "stamp e = n"
  shows "tag_order tag stamp (row[w := e]) = tl (tag_order tag stamp row) @ [tag e]"
    and "hd (tag_order tag stamp row) = tag (row ! w)"
proof -
  have f: "recency tag stamp row \<noteq> []" "hd (recency tag stamp row) = row ! w"
    using recency_first[OF assms(1,3,4,5)] by auto
  then obtain xs where r: "recency tag stamp row = row ! w # xs"
    by (cases "recency tag stamp row") auto
  show "hd (tag_order tag stamp row) = tag (row ! w)" by (simp add: tag_order_def r)
  show "tag_order tag stamp (row[w := e]) = tl (tag_order tag stamp row) @ [tag e]"
    using recency_update[OF assms(1,4,6,7)] by (simp add: tag_order_def r)
qed

text \<open>A branch with the least stamp of all ways is the first of the order, also in a set with empty ways.\<close>

lemma recency_least:
  assumes st: "stamps_below tag stamp n row" and w: "w < length row" "tag (row ! w) \<noteq> 0"
    and least: "\<And>i. i < length row \<Longrightarrow> stamp (row ! w) \<le> stamp (row ! i)"
  shows "\<exists>xs. recency tag stamp row = row ! w # xs"
proof -
  let ?r = "recency tag stamp row"
  have mem: "row ! w \<in> set ?r" using w by (simp add: set_recency)
  then obtain x xs where r: "?r = x # xs" by (cases ?r) auto
  have "sorted (map stamp ?r)" by (simp add: recency_def)
  then have "stamp x \<le> stamp (row ! w)" using mem r by auto
  moreover have "x \<in> set row" using r set_recency[of tag stamp row] by auto
  then have "stamp (row ! w) \<le> stamp x" using least by (auto simp: in_set_conv_nth)
  ultimately have "stamp x = stamp (row ! w)" by simp
  then have "x = row ! w"
    using stamps_inj[OF st] mem r set_recency[of tag stamp row] unfolding inj_on_def by auto
  with r show ?thesis by simp
qed

text \<open>The order depends on nothing but tags and stamps.\<close>

lemma sort_key_map: "sort_key k (map h xs) = map h (sort_key (\<lambda>x. k (h x)) xs)"
proof -
  have "insort_key k (h x) (map h ys) = map h (insort_key (\<lambda>x. k (h x)) x ys)" for x ys by (induction ys) auto
  then show ?thesis by (induction xs) auto
qed

lemma tag_order_pairs:
  "tag_order tag stamp row = map fst (sort_key snd (filter (\<lambda>p. fst p \<noteq> 0) (map (\<lambda>e. (tag e, stamp e)) row)))"
  by (simp add: tag_order_def recency_def filter_map sort_key_map comp_def)

lemma tag_order_keep:
  assumes "tag e = tag (row ! w)" "stamp e = stamp (row ! w)"
  shows "tag_order tag stamp (row[w := e]) = tag_order tag stamp row"
proof -
  have "map (\<lambda>e. (tag e, stamp e)) (row[w := e]) = map (\<lambda>e. (tag e, stamp e)) row"
    by (cases "w < length row"; rule nth_equalityI) (auto simp: nth_list_update assms)
  then show ?thesis unfolding tag_order_pairs by simp
qed

end
