(* ===== verification/ArrayBtb.thy ===== *)
theory ArrayBtb
  imports BtbInterface TagArray
begin

text \<open>
  The interface of a BTB kept as an array of sets of ways, whatever its replacement policy:
  a prediction leaves the tags and targets as they are, an update or prefetch of a branch
  writes that branch's target or drops entries (\<open>arr_effect\<close>). These laws give the contract of
  \<^verbatim>\<open>BtbInterface\<close> (\<open>sublocale\<close>), so a policy proves only what it does to its array.
\<close>

locale array_btb =
  fixes g :: "'e geometry"
    and arr :: "'a \<Rightarrow> 'e list list"
    and policy_ok :: "'a \<Rightarrow> bool"
    and dpredict :: "u64 \<Rightarrow> 'a \<Rightarrow> ((u64 \<times> u8) \<times> 'a) option"
    and dupdate :: "u64 \<Rightarrow> u64 \<Rightarrow> u8 \<Rightarrow> u8 \<Rightarrow> 'a \<Rightarrow> 'a option"
    and dprefetch :: "u64 \<Rightarrow> u64 \<Rightarrow> u8 \<Rightarrow> bool \<Rightarrow> bool \<Rightarrow> 'a \<Rightarrow> 'a option"
  assumes array_predict: "arr_ok g (arr a) \<Longrightarrow> policy_ok a \<Longrightarrow> ip \<noteq> 0 \<Longrightarrow>
      \<exists>r a'. dpredict ip a = Some (r, a') \<and> policy_ok a' \<and> arr_same g (arr a) (arr a') \<and>
        (\<forall>t. arr_lookup g (arr a) ip = Some t \<longrightarrow> fst r = t)"
    and array_update: "arr_ok g (arr a) \<Longrightarrow> policy_ok a \<Longrightarrow> ip \<noteq> 0 \<Longrightarrow>
      \<exists>a'. dupdate ip t tk bt a = Some a' \<and> policy_ok a' \<and>
        arr_effect g ip (if tk \<noteq> 0 then Some t else None) (arr a) (arr a')"
    and array_prefetch: "arr_ok g (arr a) \<Longrightarrow> policy_ok a \<Longrightarrow> ip \<noteq> 0 \<Longrightarrow>
      \<exists>a'. dprefetch ip t bt p sb a = Some a' \<and> policy_ok a' \<and>
        arr_effect g ip (if p then Some t else None) (arr a) (arr a')"

sublocale array_btb \<subseteq> direct_btb "\<lambda>_ a. arr_ok g (arr a) \<and> policy_ok a" bound "\<lambda>ip. ip \<noteq> 0"
  "\<lambda>a. arr_lookup g (arr a)" dpredict dupdate dprefetch id for bound
proof (unfold_locales, simp_all only: id_apply, goal_cases)
  case (1 n a ip) then show ?case using array_predict[of a ip] by (auto simp: arr_same_def)
next
  case (2 n a ip t tk bt)
  then show ?case using array_update[of a ip t tk bt] by (fastforce simp: arr_effect_def)
next
  case (3 n a ip t bt p sb)
  then show ?case using array_prefetch[of a ip t bt p sb] by (fastforce simp: arr_effect_def)
qed

locale allocating_array_btb = array_btb +
  assumes array_allocates: "arr_ok g (arr a) \<Longrightarrow> policy_ok a \<Longrightarrow> ip \<noteq> 0 \<Longrightarrow> t \<noteq> 0 \<Longrightarrow> tk \<noteq> 0 \<Longrightarrow>
      dupdate ip t tk bt a = Some a' \<Longrightarrow> arr_lookup g (arr a') ip = Some t"

sublocale allocating_array_btb \<subseteq> allocating_btb "\<lambda>_ a. arr_ok g (arr a) \<and> policy_ok a" bound
  "\<lambda>ip. ip \<noteq> 0" "\<lambda>a. arr_lookup g (arr a)" dpredict dupdate dprefetch id for bound
  by unfold_locales (use array_allocates in blast)

end
