(* ===== verification/Statistics.thy ===== *)
theory Statistics
  imports Prelude
begin

text \<open>
  The measuring objects the BTBs call on every access: \<^verbatim>\<open>CoverageAccuracy\<close>
  (\<^verbatim>\<open>btb/accuracy.h\<close>), \<^verbatim>\<open>BranchBias\<close> (\<^verbatim>\<open>btb/branch_bias.h\<close>), \<^verbatim>\<open>ReuseDistance\<close>
  (\<^verbatim>\<open>btb/reuse_distance.h\<close>) and \<^verbatim>\<open>AccessRecord\<close> (\<^verbatim>\<open>btb/access_record.h\<close>). The demand record
  file is its parsed content, a list of (ip, counter) pairs; the printing at the end of a run
  is not modelled. All objects are those of the single configured core.
\<close>

section \<open>Coverage and accuracy\<close>

record coverage =
  cov_access_record :: "(u64 \<rightharpoonup> u64) list"
  cov_future_accesses :: "u64 \<Rightarrow> u64 list"
  cov_total_sets :: u64
  cov_total_ways :: u64
  friendly_count :: u64
  unfriendly_count :: u64

definition cov_find_set_index :: "u64 \<Rightarrow> u64 \<Rightarrow> nat" where
  "cov_find_set_index sets ip = unat (drop_bit 2 ip AND (sets - 1))"

definition cov_add :: "coverage \<Rightarrow> u64 \<times> u64 \<Rightarrow> coverage" where
  "cov_add c p =
     (let ip = fst p; counter = snd p;
          i = cov_find_set_index (cov_total_sets c) ip;
          m = cov_access_record c ! i
      in c\<lparr>cov_future_accesses := (cov_future_accesses c)(ip := set_insert counter (cov_future_accesses c ip)),
           cov_access_record := (cov_access_record c)
             [i := (case m counter of None \<Rightarrow> m(counter \<mapsto> ip) | Some _ \<Rightarrow> m)]\<rparr>)"

definition cov_init :: "(u64 \<times> u64) list \<Rightarrow> u64 \<Rightarrow> u64 \<Rightarrow> coverage" where
  "cov_init demand sets ways =
     foldl cov_add
       \<lparr>cov_access_record = replicate (unat sets) Map.empty, cov_future_accesses = (\<lambda>_. []),
        cov_total_sets = sets, cov_total_ways = ways, friendly_count = 0, unfriendly_count = 0\<rparr>
       demand"

text \<open>
  The loop over \<^verbatim>\<open>i = start; i < *it; i++\<close> collects the branches of the set seen at the times
  between; \<open>cov_unique_lines\<close> lists them without repetition.
\<close>

definition cov_unique_lines :: "(u64 \<rightharpoonup> u64) \<Rightarrow> u64 \<Rightarrow> u64 \<Rightarrow> u64 list" where
  "cov_unique_lines m start stop =
     remdups (List.map_filter (\<lambda>k. m (start + of_nat k)) [0..<unat (stop - start)])"

definition get_reuse_distance :: "u64 \<Rightarrow> u64 \<Rightarrow> coverage \<Rightarrow> u64 \<times> coverage" where
  "get_reuse_distance ip curr_time c =
     (case upper_bound curr_time (cov_future_accesses c ip) of
        None \<Rightarrow> (- 1, c\<lparr>unfriendly_count := unfriendly_count c + 1\<rparr>)
      | Some nxt \<Rightarrow>
          (let lines = cov_unique_lines
                 (cov_access_record c ! cov_find_set_index (cov_total_sets c) ip) (curr_time + 1) nxt;
               n = of_nat (length lines)
           in if n < cov_total_ways c
              then (n, c\<lparr>friendly_count := friendly_count c + 1\<rparr>)
              else (n, c\<lparr>unfriendly_count := unfriendly_count c + 1\<rparr>)))"

lemma get_reuse_distance_counts:
  "friendly_count (snd (get_reuse_distance ip t c)) + unfriendly_count (snd (get_reuse_distance ip t c))
     = friendly_count c + unfriendly_count c + 1"
  by (simp add: get_reuse_distance_def Let_def split: option.splits)

text \<open>
  The set index of this class is a mask, the set index of the BTBs that call it a remainder.
  For a power of two the two agree.
\<close>

lemma mask_index_power_of_two:
  assumes "n < 64"
  shows "cov_find_set_index (2 ^ n) ip = unat (drop_bit 2 ip mod 2 ^ n :: u64)"
proof -
  have "(2 ^ n - 1 :: u64) = mask n" by (simp add: mask_eq_decr_exp)
  moreover have "unat (2 ^ n :: u64) = 2 ^ n"
    using assms by (simp add: unat_two_power)
  ultimately show ?thesis
    by (simp add: cov_find_set_index_def unat_and_mask unat_mod)
qed

lemma cov_index_bound: "0 < sets \<Longrightarrow> cov_find_set_index sets ip < unat sets"
  by (simp add: cov_find_set_index_def unat_and_pred)

lemma cov_fold:
  fixes c :: coverage
  assumes "distinct (map snd demand)" "0 < cov_total_sets c" "length (cov_access_record c) = unat (cov_total_sets c)"
    and "\<And>ip. sorted_wrt (<) (cov_future_accesses c ip)"
    and "\<And>i k. i < unat (cov_total_sets c) \<Longrightarrow> k \<in> snd ` set demand \<Longrightarrow> (cov_access_record c ! i) k = None"
  shows "let c' = foldl cov_add c demand in
     cov_total_sets c' = cov_total_sets c \<and> cov_total_ways c' = cov_total_ways c \<and>
     (\<forall>ip. sorted_wrt (<) (cov_future_accesses c' ip) \<and>
       set (cov_future_accesses c' ip) = set (cov_future_accesses c ip) \<union> {k. (ip, k) \<in> set demand}) \<and>
     (\<forall>i k ip. i < unat (cov_total_sets c) \<longrightarrow> (cov_access_record c' ! i) k = Some ip \<longleftrightarrow>
       (cov_access_record c ! i) k = Some ip \<or>
       (ip, k) \<in> set demand \<and> cov_find_set_index (cov_total_sets c) ip = i)"
  using assms
proof (induction demand arbitrary: c)
  case (Cons p ps)
  obtain ip k where p: "p = (ip, k)" by fastforce
  let ?c = "cov_add c p" and ?i = "cov_find_set_index (cov_total_sets c) ip"
  have i: "?i < unat (cov_total_sets c)" using cov_index_bound Cons.prems(2) by blast
  have none: "(cov_access_record c ! ?i) k = None" using Cons.prems(5)[OF i, of k] p by simp
  have c: "cov_total_sets ?c = cov_total_sets c" "cov_total_ways ?c = cov_total_ways c"
    "length (cov_access_record ?c) = length (cov_access_record c)"
    "cov_future_accesses ?c = (cov_future_accesses c)(ip := set_insert k (cov_future_accesses c ip))"
    "cov_access_record ?c = (cov_access_record c)[?i := (cov_access_record c ! ?i)(k \<mapsto> ip)]"
    using none p by (simp_all add: cov_add_def Let_def)
  have IH: "let c' = foldl cov_add ?c ps in
     cov_total_sets c' = cov_total_sets ?c \<and> cov_total_ways c' = cov_total_ways ?c \<and>
     (\<forall>ip. sorted_wrt (<) (cov_future_accesses c' ip) \<and>
       set (cov_future_accesses c' ip) = set (cov_future_accesses ?c ip) \<union> {k. (ip, k) \<in> set ps}) \<and>
     (\<forall>i k ip. i < unat (cov_total_sets ?c) \<longrightarrow> (cov_access_record c' ! i) k = Some ip \<longleftrightarrow>
       (cov_access_record ?c ! i) k = Some ip \<or>
       (ip, k) \<in> set ps \<and> cov_find_set_index (cov_total_sets ?c) ip = i)"
  proof (rule Cons.IH)
    fix j q assume j: "j < unat (cov_total_sets ?c)" and q: "q \<in> snd ` set ps"
    have "q \<noteq> k" using Cons.prems(1) q p by auto
    then show "(cov_access_record ?c ! j) q = None"
      using Cons.prems(3) Cons.prems(5)[of j q] j q c i by (auto simp: nth_list_update)
  qed (use Cons.prems c in \<open>auto simp: sorted_set_insert\<close>)
  show ?case
    using IH c i Cons.prems(3) none p
    by (auto simp: Let_def nth_list_update split: if_splits)
qed (simp add: Let_def)

lemma cov_init_facts:
  assumes "distinct (map snd demand)" "0 < sets"
  shows "cov_total_sets (cov_init demand sets ways) = sets"
    "sorted_wrt (<) (cov_future_accesses (cov_init demand sets ways) ip)"
    "set (cov_future_accesses (cov_init demand sets ways) ip) = {k. (ip, k) \<in> set demand}"
    "i < unat sets \<Longrightarrow> (cov_access_record (cov_init demand sets ways) ! i) k = Some j \<longleftrightarrow>
       (j, k) \<in> set demand \<and> cov_find_set_index sets j = i"
  using cov_fold[of demand "\<lparr>cov_access_record = replicate (unat sets) Map.empty, cov_future_accesses = (\<lambda>_. []),
        cov_total_sets = sets, cov_total_ways = ways, friendly_count = 0, unfriendly_count = 0\<rparr>"] assms
  unfolding cov_init_def by (simp_all add: Let_def)

lemma word_between:
  assumes "(t::u64) < n"
  shows "(\<lambda>k. t + 1 + of_nat k) ` {..<unat (n - (t + 1))} = {x. t < x \<and> x < n}"
proof -
  have t: "unat t < unat n" using assms by (simp add: word_less_nat_alt)
  have n: "unat n < 2 ^ 64" using unsigned_less[of n, where 'a = nat] by simp
  have t1: "unat (t + 1) = Suc (unat t)" using t n by (simp add: unat_word_ariths)
  then have d: "unat (n - (t + 1)) = unat n - Suc (unat t)"
    using t by (subst unat_sub) (simp_all add: word_le_nat_alt)
  show ?thesis
  proof (intro set_eqI iffI)
    fix x assume "x \<in> (\<lambda>k. t + 1 + of_nat k) ` {..<unat (n - (t + 1))}"
    then obtain k where k: "x = t + 1 + of_nat k" "k < unat n - Suc (unat t)" using d by auto
    then have "unat x = Suc (unat t) + k"
      using t1 n t by (simp add: unat_word_ariths unat_of_nat)
    then show "x \<in> {x. t < x \<and> x < n}" using k by (simp add: word_less_nat_alt)
  next
    fix x assume x: "x \<in> {x. t < x \<and> x < n}"
    then have le: "t + 1 \<le> x" using t1 by (simp add: word_le_nat_alt word_less_nat_alt)
    have "unat (x - (t + 1)) = unat x - Suc (unat t)" using le t1 by (simp add: unat_sub)
    then have "unat (x - (t + 1)) < unat (n - (t + 1))" using x d by (auto simp: word_less_nat_alt)
    moreover have "x = t + 1 + of_nat (unat (x - (t + 1)))" by simp
    ultimately show "x \<in> (\<lambda>k. t + 1 + of_nat k) ` {..<unat (n - (t + 1))}" by blast
  qed
qed

lemma cov_unique_lines_card:
  assumes "t < n"
  shows "length (cov_unique_lines m (t + 1) n) = card {j. \<exists>x. t < x \<and> x < n \<and> m x = Some j}"
proof -
  have "set (cov_unique_lines m (t + 1) n)
      = {j. \<exists>x\<in>(\<lambda>k. t + 1 + of_nat k) ` {..<unat (n - (t + 1))}. m x = Some j}"
    by (force simp: cov_unique_lines_def List.map_filter_def)
  also have "\<dots> = {j. \<exists>x. t < x \<and> x < n \<and> m x = Some j}"
    by (simp only: word_between[OF assms]) blast
  finally show ?thesis
    by (metis cov_unique_lines_def distinct_card distinct_remdups)
qed

text \<open>for a demand record with distinct times, the reuse distance reported for a branch at
  time \<open>t\<close> is the number of distinct branches of its (masked) set accessed strictly between
  \<open>t\<close> and the branch's next access, and all ones when the branch is never accessed again.\<close>

theorem reuse_distance_correct:
  assumes "distinct (map snd demand)" "0 < sets"
  shows "fst (get_reuse_distance ip t (cov_init demand sets ways)) =
    (if \<exists>m. (ip, m) \<in> set demand \<and> t < m then
       of_nat (card {j. \<exists>x. (j, x) \<in> set demand \<and> t < x \<and> x < Min {m. (ip, m) \<in> set demand \<and> t < m} \<and>
         cov_find_set_index sets j = cov_find_set_index sets ip})
     else - 1)"
proof -
  let ?c = "cov_init demand sets ways" and ?M = "{m. (ip, m) \<in> set demand \<and> t < m}"
  note f = cov_init_facts[OF assms, where ways = ways]
  have fin: "finite ?M" by (rule finite_subset[of _ "snd ` set demand"]) force+
  show ?thesis
  proof (cases "upper_bound t (cov_future_accesses ?c ip)")
    case None
    then have n: "\<not> (\<exists>m. (ip, m) \<in> set demand \<and> t < m)"
      using f(3)[of ip] by (auto simp: upper_bound_None_iff not_less)
    show ?thesis unfolding if_not_P[OF n] using None by (simp add: get_reuse_distance_def)
  next
    case (Some n)
    have n: "(ip, n) \<in> set demand" "t < n" "\<And>x. (ip, x) \<in> set demand \<Longrightarrow> t < x \<Longrightarrow> n \<le> x"
      using upper_bound_SomeD[OF f(2) Some] f(3)[of ip] by auto
    then have m: "Min ?M = n" by (intro Min_eqI fin) auto
    have "length (cov_unique_lines (cov_access_record ?c ! cov_find_set_index sets ip) (t + 1) n)
        = card {j. \<exists>x. (j, x) \<in> set demand \<and> t < x \<and> x < n \<and>
             cov_find_set_index sets j = cov_find_set_index sets ip}"
      unfolding cov_unique_lines_card[OF n(2)]
      by (rule arg_cong[where f = card]) (use f(4)[OF cov_index_bound[OF assms(2)]] in auto)
    with Some n m show ?thesis by (auto simp: get_reuse_distance_def Let_def f(1))
  qed
qed

lemma reuse_distance_correct_witness:
  "fst (get_reuse_distance 4 1 (cov_init [(4, 1), (8, 2), (12, 3), (8, 4), (4, 5)] 1 4)) = 2"
proof -
  have "{m. (4 :: u64, m) \<in> set [(4, 1), (8, 2), (12, 3), (8, 4), (4, 5 :: u64)] \<and> (1 :: u64) < m} = {5}" by auto
  moreover have "{j :: u64. \<exists>x. (j, x) \<in> set [(4, 1), (8, 2), (12, 3), (8, 4), (4, 5 :: u64)] \<and> 1 < x \<and> x < 5 \<and>
      cov_find_set_index 1 j = cov_find_set_index 1 4} = {8, 12}"
    by (auto simp: cov_find_set_index_def)
  ultimately show ?thesis
    using reuse_distance_correct[of "[(4, 1), (8, 2), (12, 3), (8, 4), (4, 5)]" 1 4 1 4] by auto
qed

section \<open>Branch bias\<close>

record branch_bias =
  bias_record :: "u64 \<rightharpoonup> u64 \<times> u64"
  record_branch_bias :: bool

definition new_branch_bias :: "bool \<Rightarrow> branch_bias" where
  "new_branch_bias f = \<lparr>bias_record = Map.empty, record_branch_bias = f\<rparr>"

definition bias_access :: "u64 \<Rightarrow> bool \<Rightarrow> branch_bias \<Rightarrow> branch_bias" where
  "bias_access ip taken b =
     (if \<not> record_branch_bias b then b
      else (let (t, n) = (case bias_record b ip of None \<Rightarrow> (0, 0) | Some p \<Rightarrow> p)
            in b\<lparr>bias_record := (bias_record b)(ip \<mapsto> (if taken then (t + 1, n) else (t, n + 1)))\<rparr>))"

section \<open>Reuse distances\<close>

record reuse_entry =
  re_ip :: u64
  re_target :: u64
  re_branch_type :: u8
  distance_set :: "u64 list"
  reuse_distance_record :: "nat list"

definition new_reuse_entry :: "u64 \<Rightarrow> u64 \<Rightarrow> u8 \<Rightarrow> reuse_entry" where
  "new_reuse_entry ip target bt =
     \<lparr>re_ip = ip, re_target = target, re_branch_type = bt, distance_set = [], reuse_distance_record = []\<rparr>"

definition re_access :: "u64 \<Rightarrow> reuse_entry \<Rightarrow> reuse_entry" where
  "re_access access_ip e =
     (if access_ip = re_ip e
      then e\<lparr>reuse_distance_record := reuse_distance_record e @ [length (distance_set e)], distance_set := []\<rparr>
      else e\<lparr>distance_set := List.insert access_ip (distance_set e)\<rparr>)"

record reuse_distance =
  rd_total_sets :: u64
  sorted_branch_record :: "u64 \<rightharpoonup> reuse_entry"
  btb_view_branch_record :: "u64 list list"
  record_reuse_distance :: bool

definition new_reuse_distance :: "u64 \<Rightarrow> bool \<Rightarrow> reuse_distance" where
  "new_reuse_distance sets f =
     \<lparr>rd_total_sets = sets, sorted_branch_record = Map.empty,
      btb_view_branch_record = replicate (unat sets) [], record_reuse_distance = f\<rparr>"

definition rd_get_set_index :: "reuse_distance \<Rightarrow> u64 \<Rightarrow> nat" where
  "rd_get_set_index r ip = unat (drop_bit 2 ip AND (rd_total_sets r - 1))"

definition rd_touch :: "u64 \<Rightarrow> (u64 \<rightharpoonup> reuse_entry) \<Rightarrow> u64 \<Rightarrow> (u64 \<rightharpoonup> reuse_entry)" where
  "rd_touch access_ip m ip =
     m(ip \<mapsto> re_access access_ip (case m ip of Some e \<Rightarrow> e | None \<Rightarrow> new_reuse_entry 0 0 BRANCH_CONDITIONAL))"

definition rd_access :: "u64 \<Rightarrow> u64 \<Rightarrow> u8 \<Rightarrow> reuse_distance \<Rightarrow> reuse_distance" where
  "rd_access access_ip target bt r =
     (if \<not> record_reuse_distance r then r
      else
        let set = rd_get_set_index r access_ip;
            view = List.insert access_ip (btb_view_branch_record r ! set);
            m = (case sorted_branch_record r access_ip of
                   None \<Rightarrow> (sorted_branch_record r)(access_ip \<mapsto> new_reuse_entry access_ip target bt)
                 | Some _ \<Rightarrow> sorted_branch_record r)
        in r\<lparr>btb_view_branch_record := (btb_view_branch_record r)[set := view],
             sorted_branch_record := foldl (rd_touch access_ip) m view\<rparr>)"

lemma rd_access_off [simp]: "\<not> record_reuse_distance r \<Longrightarrow> rd_access ip t bt r = r"
  by (simp add: rd_access_def)

lemma bias_access_off [simp]: "\<not> record_branch_bias b \<Longrightarrow> bias_access ip t b = b"
  by (simp add: bias_access_def)

text \<open>One entry: between two accesses to its branch it collects the distinct other branches.\<close>

lemma re_access_others:
  assumes "re_ip e \<notin> set xs" and "distinct (distance_set e)"
  shows "let e' = foldl (\<lambda>e x. re_access x e) e xs
         in re_ip e' = re_ip e \<and> distinct (distance_set e')
            \<and> set (distance_set e') = set (distance_set e) \<union> set xs
            \<and> reuse_distance_record e' = reuse_distance_record e"
  using assms
proof (induction xs arbitrary: e)
  case (Cons x xs)
  let ?e = "re_access x e"
  have "re_ip ?e = re_ip e" "distinct (distance_set ?e)"
    "set (distance_set ?e) = insert x (set (distance_set e))"
    "reuse_distance_record ?e = reuse_distance_record e"
    using Cons.prems by (auto simp: re_access_def)
  with Cons.IH[of ?e] Cons.prems show ?case by (simp add: Let_def)
qed simp

text \<open>Between two accesses to the same branch, any accesses to other branches make the entry
  record exactly the number of distinct branches seen, once, and start over.\<close>

theorem re_access_interval:
  assumes "re_ip e \<notin> set xs" and "distance_set e = []"
  shows "reuse_distance_record (re_access (re_ip e) (foldl (\<lambda>e x. re_access x e) e xs))
           = reuse_distance_record e @ [card (set xs)]"
proof -
  let ?e = "foldl (\<lambda>e x. re_access x e) e xs"
  have "re_ip ?e = re_ip e" "distinct (distance_set ?e)" "set (distance_set ?e) = set xs"
    "reuse_distance_record ?e = reuse_distance_record e"
    using re_access_others[of e xs] assms by (simp_all add: Let_def)
  then show ?thesis by (simp add: re_access_def distinct_card[symmetric])
qed

lemma re_access_interval_witness:
  "reuse_distance_record (re_access 8 (foldl (\<lambda>e x. re_access x e) (new_reuse_entry 8 100 BRANCH_DIRECT_JUMP) [4, 12, 4]))
     = [2]"
  using re_access_interval[of "new_reuse_entry 8 100 BRANCH_DIRECT_JUMP" "[4, 12, 4]"]
  by (simp add: new_reuse_entry_def insert_commute)

section \<open>The access record of a BTB\<close>

datatype RecordType = HIT | MISS_ONLY | MISS_INSERT | EVICT

datatype BTBType = NORMAL | CONDITIONAL | UNCONDITIONAL | PREDECODER | NANO | MILI | L1 | L2

record record_entry =
  rec_ip :: u64
  rec_target :: u64
  rec_branch_type :: u8
  rec_list :: "RecordType list"

definition new_record_entry :: "u64 \<Rightarrow> u64 \<Rightarrow> u8 \<Rightarrow> record_entry" where
  "new_record_entry ip target bt =
     \<lparr>rec_ip = ip, rec_target = target, rec_branch_type = bt, rec_list = []\<rparr>"

record access_record =
  branch_record :: "u64 \<rightharpoonup> record_entry"
  btb_type :: BTBType

definition new_access_record :: "BTBType \<Rightarrow> access_record" where
  "new_access_record t = \<lparr>branch_record = Map.empty, btb_type = t\<rparr>"

definition rec_access :: "u64 \<Rightarrow> u64 \<Rightarrow> u8 \<Rightarrow> bool \<Rightarrow> bool \<Rightarrow> access_record \<Rightarrow> access_record" where
  "rec_access ip target bt hit insert_on_miss r =
     (let e = (case branch_record r ip of None \<Rightarrow> new_record_entry ip target bt | Some e \<Rightarrow> e);
          k = (if hit then HIT else if insert_on_miss then MISS_INSERT else MISS_ONLY)
      in r\<lparr>branch_record := (branch_record r)(ip \<mapsto> e\<lparr>rec_list := rec_list e @ [k]\<rparr>)\<rparr>)"

definition rec_evict :: "u64 \<Rightarrow> access_record \<Rightarrow> access_record option" where
  "rec_evict ip r =
     (case branch_record r ip of
        None \<Rightarrow> None
      | Some e \<Rightarrow> Some (r\<lparr>branch_record := (branch_record r)(ip \<mapsto> e\<lparr>rec_list := rec_list e @ [EVICT]\<rparr>)\<rparr>))"

lemma dom_rec_access [simp]:
  "dom (branch_record (rec_access ip t bt h i r)) = insert ip (dom (branch_record r))"
  by (simp add: rec_access_def Let_def)

lemma rec_evict_total: "ip \<in> dom (branch_record r) \<Longrightarrow> \<exists>r'. rec_evict ip r = Some r'"
  by (auto simp: rec_evict_def)

lemma dom_rec_evict: "rec_evict ip r = Some r' \<Longrightarrow> dom (branch_record r') = dom (branch_record r)"
  by (auto simp: rec_evict_def split: option.splits if_splits)

text \<open>
  The hit ratio that the training run leaves for a branch, as the readers of the record file
  compute it: hits over hits and misses, evictions not counted.
\<close>

definition rec_hits :: "RecordType list \<Rightarrow> nat" where
  "rec_hits xs = length (filter (\<lambda>k. k = HIT) xs)"

definition rec_misses :: "RecordType list \<Rightarrow> nat" where
  "rec_misses xs = length (filter (\<lambda>k. k = MISS_ONLY \<or> k = MISS_INSERT) xs)"

end
