(* ===== verification/BasicBtb.thy ===== *)
theory BasicBtb
  imports ArrayBtb Statistics
begin

text \<open>
  The LRU BTB of \<^verbatim>\<open>btb/basic_btb/basic_btb.cc\<close>, the baseline of the artifact: an array of
  sets of ways with a global 64-bit access stamp, a stream buffer for prefetched entries and
  the measuring objects. A way is found by its index, so a pointer to an entry is the pair of
  its set and its way.
\<close>

section \<open>State\<close>

record basic_entry =
  ip_tag :: u64
  target :: u64
  always_taken :: u8
  lru :: u64

definition empty_basic_entry :: basic_entry where
  "empty_basic_entry = \<lparr>ip_tag = 0, target = 0, always_taken = 0, lru = 0\<rparr>"

record basic_store =
  basic_btb :: "basic_entry list list"
  basic_btb_lru_counter :: u64
  timestamp :: u64
  sbuf :: stream_buffer
  coverage_accuracy :: coverage
  branch_bias :: branch_bias
  reuse :: reuse_distance

definition basic_initialize_btb :: "btb_config \<Rightarrow> (u64 \<times> u64) list \<Rightarrow> basic_store btb_cpu" where
  "basic_initialize_btb c demand =
     \<lparr>front = init_frontend,
      store =
       \<lparr>basic_btb = replicate (unat (BASIC_BTB_SETS c)) (replicate (BASIC_BTB_WAYS c) empty_basic_entry),
        basic_btb_lru_counter = 0,
        timestamp = 0,
        sbuf = new_stream_buffer 32,
        coverage_accuracy = cov_init demand (BASIC_BTB_SETS c) (of_nat (BASIC_BTB_WAYS c)),
        branch_bias = new_branch_bias False,
        reuse = new_reuse_distance (BASIC_BTB_SETS default_config) False\<rparr>\<rparr>"

section \<open>Operations\<close>

definition basic_btb_set_index :: "btb_config \<Rightarrow> u64 \<Rightarrow> nat" where
  "basic_btb_set_index c ip = unat (drop_bit 2 ip mod BASIC_BTB_SETS c)"

definition basic_btb_find_entry :: "btb_config \<Rightarrow> basic_store \<Rightarrow> u64 \<Rightarrow> nat option" where
  "basic_btb_find_entry c st ip =
     first_index (\<lambda>i. ip_tag (basic_btb st ! basic_btb_set_index c ip ! i) = ip) (BASIC_BTB_WAYS c)"

definition basic_btb_get_lru_entry :: "btb_config \<Rightarrow> basic_store \<Rightarrow> nat \<Rightarrow> nat" where
  "basic_btb_get_lru_entry c st sx = scan_min (\<lambda>i. lru (basic_btb st ! sx ! i)) (BASIC_BTB_WAYS c)"

definition basic_btb_update_lru :: "nat \<Rightarrow> nat \<Rightarrow> basic_store \<Rightarrow> basic_store" where
  "basic_btb_update_lru sx way st =
     st\<lparr>basic_btb := upd2 sx way (\<lambda>e. e\<lparr>lru := basic_btb_lru_counter st\<rparr>) (basic_btb st),
        basic_btb_lru_counter := basic_btb_lru_counter st + 1\<rparr>"

definition basic_write_entry :: "nat \<Rightarrow> nat \<Rightarrow> u64 \<Rightarrow> u64 \<Rightarrow> basic_store \<Rightarrow> basic_store" where
  "basic_write_entry sx way ip branch_target st =
     st\<lparr>basic_btb := upd2 sx way
         (\<lambda>e. e\<lparr>ip_tag := ip, target := branch_target, always_taken := 1\<rparr>) (basic_btb st)\<rparr>"

text \<open>The object \<^verbatim>\<open>reuse_distance\<close> is a global, built before the options are read, so it gets the
  default geometry. An existing entry: a not-taken reference only clears the flag, a taken one only moves the target.\<close>

definition basic_refresh_entry :: "nat \<Rightarrow> nat \<Rightarrow> bool \<Rightarrow> u64 \<Rightarrow> basic_store \<Rightarrow> basic_store" where
  "basic_refresh_entry sx way taken branch_target st =
     st\<lparr>basic_btb := upd2 sx way
         (\<lambda>e. if \<not> taken then e\<lparr>always_taken := 0\<rparr> else e\<lparr>target := branch_target\<rparr>) (basic_btb st)\<rparr>"

definition basic_direct_predict ::
  "btb_config \<Rightarrow> u64 \<Rightarrow> basic_store \<Rightarrow> ((u64 \<times> u8) \<times> basic_store) option" where
  "basic_direct_predict c ip st0 =
     (let st = st0\<lparr>timestamp := timestamp st0 + 1\<rparr>
      in case basic_btb_find_entry c st ip of
           None \<Rightarrow> Some ((stream_buffer_predict ip (sbuf st), 1), st)
         | Some way \<Rightarrow>
             (let sx = basic_btb_set_index c ip;
                  always_taken = always_taken (basic_btb st ! sx ! way);
                  st = basic_btb_update_lru sx way st
              in Some ((target (basic_btb st ! sx ! way), always_taken), st)))"

definition basic_direct_update ::
  "btb_config \<Rightarrow> u64 \<Rightarrow> u64 \<Rightarrow> u8 \<Rightarrow> u8 \<Rightarrow> basic_store \<Rightarrow> basic_store option" where
  "basic_direct_update c ip branch_target taken bt st0 =
     (let st = st0\<lparr>branch_bias := bias_access ip (taken \<noteq> 0) (branch_bias st0)\<rparr>;
          sx = basic_btb_set_index c ip
      in case basic_btb_find_entry c st ip of
           None \<Rightarrow>
             (let st = st\<lparr>sbuf := snd (stream_buffer_update ip (sbuf st))\<rparr>
              in if branch_target \<noteq> 0 \<and> taken \<noteq> 0 then
                   (let way = basic_btb_get_lru_entry c st sx;
                        old = ip_tag (basic_btb st ! sx ! way);
                        st = (if old \<noteq> 0
                              then st\<lparr>coverage_accuracy :=
                                snd (get_reuse_distance old (timestamp st - 1) (coverage_accuracy st))\<rparr>
                              else st);
                        st = basic_write_entry sx way ip branch_target st;
                        st = basic_btb_update_lru sx way st
                    in Some (st\<lparr>reuse := rd_access ip branch_target bt (reuse st)\<rparr>))
                 else Some st)
         | Some way \<Rightarrow>
             (let st = basic_refresh_entry sx way (taken \<noteq> 0) branch_target st
              in if taken = 0 then Some st
                 else Some (st\<lparr>reuse := rd_access ip branch_target bt (reuse st)\<rparr>)))"

definition basic_direct_prefetch ::
  "btb_config \<Rightarrow> u64 \<Rightarrow> u64 \<Rightarrow> u8 \<Rightarrow> bool \<Rightarrow> bool \<Rightarrow> basic_store \<Rightarrow> basic_store option" where
  "basic_direct_prefetch c ip branch_target bt taken to_stream_buffer st =
     (let sx = basic_btb_set_index c ip
      in case basic_btb_find_entry c st ip of
           None \<Rightarrow>
             if branch_target \<noteq> 0 \<and> taken then
               (if to_stream_buffer
                then map_option (\<lambda>sb. st\<lparr>sbuf := sb\<rparr>) (sb_prefetch ip branch_target (sbuf st))
                else
                  (let way = basic_btb_get_lru_entry c st sx;
                       old = ip_tag (basic_btb st ! sx ! way);
                       st = st\<lparr>coverage_accuracy :=
                              snd (get_reuse_distance old (timestamp st - 1) (coverage_accuracy st))\<rparr>;
                       st = basic_write_entry sx way ip branch_target st
                   in Some (basic_btb_update_lru sx way st)))
             else Some st
         | Some way \<Rightarrow>
             (let st = basic_btb_update_lru sx way st
              in Some (basic_refresh_entry sx way taken branch_target st)))"

definition basic_btb_prediction ::
  "btb_config \<Rightarrow> u64 \<Rightarrow> u8 \<Rightarrow> basic_store btb_cpu \<Rightarrow> ((u64 \<times> u8) \<times> basic_store btb_cpu) option" where
  "basic_btb_prediction c = btb_prediction_with (basic_direct_predict c)"

definition basic_update_btb ::
  "btb_config \<Rightarrow> u64 \<Rightarrow> u64 \<Rightarrow> u8 \<Rightarrow> u8 \<Rightarrow> basic_store btb_cpu \<Rightarrow> basic_store btb_cpu option" where
  "basic_update_btb c = update_btb_with (basic_direct_update c)"

definition basic_prefetch_btb ::
  "btb_config \<Rightarrow> u64 \<Rightarrow> u64 \<Rightarrow> u8 \<Rightarrow> bool \<Rightarrow> bool \<Rightarrow> basic_store btb_cpu \<Rightarrow> basic_store btb_cpu option" where
  "basic_prefetch_btb c = prefetch_btb_with (basic_direct_prefetch c)"

section \<open>The contract\<close>

definition basic_geometry :: "btb_config \<Rightarrow> basic_entry geometry" where
  "basic_geometry c = \<lparr>g_index = basic_btb_set_index c, g_sets = unat (BASIC_BTB_SETS c),
     g_ways = BASIC_BTB_WAYS c, g_tag = ip_tag, g_tgt = target\<rparr>"

lemma basic_geometry_simps [simp]:
  "g_index (basic_geometry c) = basic_btb_set_index c"
  "g_sets (basic_geometry c) = unat (BASIC_BTB_SETS c)"
  "g_ways (basic_geometry c) = BASIC_BTB_WAYS c"
  "g_tag (basic_geometry c) = ip_tag" "g_tgt (basic_geometry c) = target"
  by (simp_all add: basic_geometry_def)

definition basic_ok :: "btb_config \<Rightarrow> basic_store \<Rightarrow> bool" where
  "basic_ok c st \<longleftrightarrow> arr_ok (basic_geometry c) (basic_btb st) \<and> sb_ok (sbuf st)"

definition basic_lookup :: "btb_config \<Rightarrow> basic_store \<Rightarrow> u64 \<Rightarrow> u64 option" where
  "basic_lookup c st = arr_lookup (basic_geometry c) (basic_btb st)"

lemma set_index_bound: "config_ok c \<Longrightarrow> basic_btb_set_index c ip < unat (BASIC_BTB_SETS c)"
  by (simp add: basic_btb_set_index_def config_ok_def unat_mod_bound)

lemma find_entry_arr:
  "arr_ok (basic_geometry c) (basic_btb st) \<Longrightarrow>
   basic_btb_find_entry c st ip = arr_find (basic_geometry c) (basic_btb st) ip"
  using arr_okD(2)[of "basic_geometry c" "basic_btb st" ip]
  by (simp add: basic_btb_find_entry_def arr_find_def row_find_def)

lemma get_lru_entry_bound: "arr_ok (basic_geometry c) b \<Longrightarrow> basic_btb_get_lru_entry c st sx < BASIC_BTB_WAYS c"
  using arr_okD(4)[of "basic_geometry c" b] by (simp add: basic_btb_get_lru_entry_def scan_min_bound)

text \<open>The three ways a handler writes the array, as updates of one way.\<close>

lemma touch_array:
  "basic_btb (basic_btb_update_lru sx w st) = upd2 sx w (\<lambda>e. e\<lparr>lru := basic_btb_lru_counter st\<rparr>) (basic_btb st)"
  "sbuf (basic_btb_update_lru sx w st) = sbuf st"
  by (simp_all add: basic_btb_update_lru_def)

lemma refresh_array:
  "basic_btb (basic_refresh_entry sx w tk t st) =
     upd2 sx w (\<lambda>e. if \<not> tk then e\<lparr>always_taken := 0\<rparr> else e\<lparr>target := t\<rparr>) (basic_btb st)"
  "sbuf (basic_refresh_entry sx w tk t st) = sbuf st"
  by (simp_all add: basic_refresh_entry_def)

definition basic_new_entry :: "u64 \<Rightarrow> u64 \<Rightarrow> u64 \<Rightarrow> basic_entry \<Rightarrow> basic_entry" where
  "basic_new_entry ip t stamp e = e\<lparr>ip_tag := ip, target := t, always_taken := 1, lru := stamp\<rparr>"

lemma allocate_array:
  assumes "sx < length (basic_btb st)" "w < length (basic_btb st ! sx)"
  shows "basic_btb (basic_btb_update_lru sx w (basic_write_entry sx w ip t st))
      = upd2 sx w (basic_new_entry ip t (basic_btb_lru_counter st)) (basic_btb st)"
  using assms
  by (simp add: basic_btb_update_lru_def basic_write_entry_def upd2_upd2 basic_new_entry_def[abs_def] comp_def)

lemma basic_touch_same:
  assumes "arr_ok (basic_geometry c) (basic_btb st)" "basic_btb_find_entry c st ip = Some w"
  shows "arr_same (basic_geometry c) (basic_btb st)
     (basic_btb (basic_btb_update_lru (basic_btb_set_index c ip) w st))"
  using assms arr_okD(1)[OF assms(1), of ip] arr_findD(1)[OF assms(1)]
  by (auto simp: touch_array find_entry_arr intro!: arr_touch)

lemma basic_refresh_effect:
  assumes "arr_ok (basic_geometry c) (basic_btb st)" "basic_btb_find_entry c st ip = Some w" "ip \<noteq> 0"
  shows "arr_effect (basic_geometry c) ip (if tk then Some t else None) (basic_btb st)
      (basic_btb (basic_refresh_entry (basic_btb_set_index c ip) w tk t st))"
    and "tk \<Longrightarrow> arr_lookup (basic_geometry c)
      (basic_btb (basic_refresh_entry (basic_btb_set_index c ip) w tk t st)) ip = Some t"
proof -
  have f: "arr_find (basic_geometry c) (basic_btb st) ip = Some w"
    using assms by (simp add: find_entry_arr)
  note w = arr_write[OF assms(1,3) f, where t = "if tk then Some t else None"
      and f = "\<lambda>e. if \<not> tk then e\<lparr>always_taken := 0\<rparr> else e\<lparr>target := t\<rparr>", simplified]
  show "arr_effect (basic_geometry c) ip (if tk then Some t else None) (basic_btb st)
      (basic_btb (basic_refresh_entry (basic_btb_set_index c ip) w tk t st))"
    using w(1) arr_findD(2)[OF assms(1) f] by (simp add: refresh_array)
  show "tk \<Longrightarrow> arr_lookup (basic_geometry c)
      (basic_btb (basic_refresh_entry (basic_btb_set_index c ip) w tk t st)) ip = Some t"
    using w(2) arr_findD(2)[OF assms(1) f] by (simp add: refresh_array)
qed

lemma basic_allocate_effect:
  assumes "arr_ok (basic_geometry c) (basic_btb st)" "basic_btb_find_entry c st ip = None" "ip \<noteq> 0"
    and "w < BASIC_BTB_WAYS c"
  shows "arr_effect (basic_geometry c) ip (Some t) (basic_btb st) (basic_btb
      (basic_btb_update_lru (basic_btb_set_index c ip) w (basic_write_entry (basic_btb_set_index c ip) w ip t st)))"
    and "arr_lookup (basic_geometry c) (basic_btb
      (basic_btb_update_lru (basic_btb_set_index c ip) w (basic_write_entry (basic_btb_set_index c ip) w ip t st))) ip
      = Some t"
proof -
  have f: "arr_find (basic_geometry c) (basic_btb st) ip = None"
    using assms by (simp add: find_entry_arr)
  have r: "basic_btb_set_index c ip < length (basic_btb st)"
    "w < length (basic_btb st ! basic_btb_set_index c ip)"
    using arr_okD(1,2)[OF assms(1), of ip] assms(4) by simp_all
  note i = arr_insert[OF assms(1,3) f, of w "basic_new_entry ip t (basic_btb_lru_counter st)" t,
      simplified, OF assms(4)]
  show "arr_effect (basic_geometry c) ip (Some t) (basic_btb st) (basic_btb
      (basic_btb_update_lru (basic_btb_set_index c ip) w (basic_write_entry (basic_btb_set_index c ip) w ip t st)))"
    "arr_lookup (basic_geometry c) (basic_btb
      (basic_btb_update_lru (basic_btb_set_index c ip) w (basic_write_entry (basic_btb_set_index c ip) w ip t st))) ip
      = Some t"
    using i(1,2) by (simp_all add: allocate_array[OF r] basic_new_entry_def)
qed

lemma basic_predict_law:
  assumes ok: "arr_ok (basic_geometry c) (basic_btb st)" and sb: "sb_ok (sbuf st)" and "ip \<noteq> 0"
  shows "\<exists>r st'. basic_direct_predict c ip st = Some (r, st') \<and> sb_ok (sbuf st') \<and>
    arr_same (basic_geometry c) (basic_btb st) (basic_btb st') \<and>
    (\<forall>t. arr_lookup (basic_geometry c) (basic_btb st) ip = Some t \<longrightarrow> fst r = t)"
proof -
  let ?st = "st\<lparr>timestamp := timestamp st + 1\<rparr>" and ?s = "basic_btb_set_index c ip"
  have ok': "arr_ok (basic_geometry c) (basic_btb ?st)" using ok by simp
  show ?thesis
  proof (cases "basic_btb_find_entry c ?st ip")
    case None
    with find_entry_arr[OF ok', of ip] arr_lookup_None[of "basic_geometry c" "basic_btb st" ip] ok sb
    show ?thesis by (simp add: basic_direct_predict_def Let_def)
  next
    case (Some w)
    let ?st' = "basic_btb_update_lru ?s w ?st"
    have f: "arr_find (basic_geometry c) (basic_btb st) ip = Some w"
      using Some find_entry_arr[OF ok', of ip] by simp
    have "target (basic_btb ?st' ! ?s ! w) = target (basic_btb st ! ?s ! w)"
      using arr_okD(1,2)[OF ok, of ip] arr_findD(1)[OF ok f] by (simp add: touch_array row_upd2)
    moreover have "arr_same (basic_geometry c) (basic_btb st) (basic_btb ?st')"
      using basic_touch_same[OF ok' Some] by simp
    ultimately show ?thesis
      using Some sb arr_findD(3)[OF ok f] by (simp add: basic_direct_predict_def Let_def touch_array)
  qed
qed

lemma basic_find_cong: "basic_btb st' = basic_btb st \<Longrightarrow>
  basic_btb_find_entry c st' ip = basic_btb_find_entry c st ip"
  by (simp add: basic_btb_find_entry_def)

lemma basic_update_law:
  assumes ok: "arr_ok (basic_geometry c) (basic_btb st)" and sb: "sb_ok (sbuf st)" and ip: "ip \<noteq> 0"
  shows "\<exists>st'. basic_direct_update c ip t tk bt st = Some st' \<and> sb_ok (sbuf st') \<and>
    arr_effect (basic_geometry c) ip (if tk \<noteq> 0 then Some t else None) (basic_btb st) (basic_btb st') \<and>
    (t \<noteq> 0 \<and> tk \<noteq> 0 \<longrightarrow> arr_lookup (basic_geometry c) (basic_btb st') ip = Some t)"
proof -
  let ?s = "basic_btb_set_index c ip"
  let ?st = "st\<lparr>branch_bias := bias_access ip (tk \<noteq> 0) (branch_bias st)\<rparr>"
  have same: "basic_btb_find_entry c ?st ip = basic_btb_find_entry c st ip"
    by (rule basic_find_cong) simp
  have okst: "arr_ok (basic_geometry c) (basic_btb ?st)" using ok by simp
  show ?thesis
  proof (cases "basic_btb_find_entry c st ip")
    case (Some w)
    note e = basic_refresh_effect[OF okst _ ip, of w "tk \<noteq> 0" t, unfolded same, OF Some]
    from Some e sb show ?thesis by (auto simp: basic_direct_update_def Let_def same refresh_array)
  next
    case None
    let ?st1 = "?st\<lparr>sbuf := snd (stream_buffer_update ip (sbuf st))\<rparr>"
    let ?w = "basic_btb_get_lru_entry c ?st1 ?s"
    let ?st2 = "(if ip_tag (basic_btb ?st1 ! ?s ! ?w) \<noteq> 0
       then ?st1\<lparr>coverage_accuracy := snd (get_reuse_distance (ip_tag (basic_btb ?st1 ! ?s ! ?w))
              (timestamp ?st1 - 1) (coverage_accuracy ?st1))\<rparr> else ?st1)"
    have ok2: "arr_ok (basic_geometry c) (basic_btb ?st2)" using ok by simp
    have none2: "basic_btb_find_entry c ?st2 ip = None" using None basic_find_cong[of ?st2 st] by simp
    have w: "?w < BASIC_BTB_WAYS c" using get_lru_entry_bound[OF ok2] by simp
    note e = basic_allocate_effect[OF ok2 none2 ip w, of t]
    have refl: "arr_effect (basic_geometry c) ip x (basic_btb st) (basic_btb st)" for x
      using None ok find_entry_arr[OF ok] by (auto intro: arr_effect_refl)
    have sb1: "sb_ok (sbuf ?st1)" "sb_ok (sbuf ?st2)" using sb by auto
    show ?thesis
      using e sb1 None same refl[of "if tk \<noteq> 0 then Some t else None"]
      by (auto simp: basic_direct_update_def Let_def touch_array basic_write_entry_def split: if_splits)
  qed
qed

lemma basic_prefetch_law:
  assumes ok: "arr_ok (basic_geometry c) (basic_btb st)" and sb: "sb_ok (sbuf st)" and ip: "ip \<noteq> 0"
  shows "\<exists>st'. basic_direct_prefetch c ip t bt tk to_sb st = Some st' \<and> sb_ok (sbuf st') \<and>
    arr_effect (basic_geometry c) ip (if tk then Some t else None) (basic_btb st) (basic_btb st')"
proof -
  let ?s = "basic_btb_set_index c ip"
  show ?thesis
  proof (cases "basic_btb_find_entry c st ip")
    case (Some w)
    let ?st = "basic_btb_update_lru ?s w st"
    have same: "arr_same (basic_geometry c) (basic_btb st) (basic_btb ?st)"
      by (rule basic_touch_same[OF ok Some])
    then have ok': "arr_ok (basic_geometry c) (basic_btb ?st)" by (simp add: arr_same_def)
    have "basic_btb_find_entry c ?st ip = Some w"
      using same ip Some find_entry_arr[OF ok] find_entry_arr[OF ok'] by (simp add: arr_same_def)
    from basic_refresh_effect(1)[OF ok' this ip, of tk t]
    have "arr_effect (basic_geometry c) ip (if tk then Some t else None) (basic_btb st)
       (basic_btb (basic_refresh_entry ?s w tk t ?st))"
      by (rule arr_same_effect[OF same])
    then show ?thesis
      using Some sb by (simp add: basic_direct_prefetch_def Let_def touch_array refresh_array)
  next
    case None
    let ?w = "basic_btb_get_lru_entry c st ?s"
    let ?st = "st\<lparr>coverage_accuracy :=
       snd (get_reuse_distance (ip_tag (basic_btb st ! ?s ! ?w)) (timestamp st - 1) (coverage_accuracy st))\<rparr>"
    have ok': "arr_ok (basic_geometry c) (basic_btb ?st)" using ok by simp
    have none: "basic_btb_find_entry c ?st ip = None" using None basic_find_cong[of ?st st] by simp
    note e = basic_allocate_effect[OF ok' none ip get_lru_entry_bound[OF ok], where t = t]
    have refl: "arr_effect (basic_geometry c) ip x (basic_btb st) (basic_btb st)" for x
      using None ok find_entry_arr[OF ok] by (auto intro: arr_effect_refl)
    show ?thesis
      using e None sb refl[of "if tk then Some t else None"] refl[of "Some t"] sb_prefetch_total[OF sb, of t ip]
      by (auto simp: basic_direct_prefetch_def Let_def touch_array basic_write_entry_def split: if_splits)
  qed
qed

interpretation basic: allocating_array_btb "basic_geometry c" basic_btb "\<lambda>st. sb_ok (sbuf st)"
  "basic_direct_predict c" "basic_direct_update c" "basic_direct_prefetch c" for c
proof (unfold_locales, goal_cases)
  case (1 a ip) then show ?case using basic_predict_law by blast
next
  case (2 a ip t tk bt) then show ?case using basic_update_law[of c a ip t tk bt] by blast
next
  case (3 a ip t bt p sb) then show ?case using basic_prefetch_law by blast
next
  case (4 a ip t tk bt a') then show ?case using basic_update_law[of c a ip t tk bt] by auto
qed

lemma basic_init_ok:
  assumes "config_ok c"
  shows "arr_ok (basic_geometry c) (basic_btb (store (basic_initialize_btb c d)))"
    "sb_ok (sbuf (store (basic_initialize_btb c d)))"
    "fe_ok (front (basic_initialize_btb c d))"
    "k \<noteq> 0 \<Longrightarrow> arr_lookup (basic_geometry c) (basic_btb (store (basic_initialize_btb c d))) k = None"
proof -
  note r = arr_ok_replicate[of "basic_geometry c" empty_basic_entry]
  have "0 < BASIC_BTB_WAYS c" using assms by (simp add: config_ok_def)
  then show "arr_ok (basic_geometry c) (basic_btb (store (basic_initialize_btb c d)))"
    "k \<noteq> 0 \<Longrightarrow> arr_lookup (basic_geometry c) (basic_btb (store (basic_initialize_btb c d))) k = None"
    using r set_index_bound[OF assms] by (simp_all add: basic_initialize_btb_def empty_basic_entry_def)
qed (simp_all add: basic_initialize_btb_def)

section \<open>The stamps implement LRU\<close>

text \<open>An empty way has the stamp 0.\<close>

definition unstamped :: "basic_entry list \<Rightarrow> bool" where
  "unstamped row \<longleftrightarrow> (\<forall>e\<in>set row. ip_tag e = 0 \<longrightarrow> lru e = 0)"

lemma unstamped_update: "unstamped row \<Longrightarrow> (ip_tag e = 0 \<Longrightarrow> lru e = 0) \<Longrightarrow> unstamped (row[w := e])"
  unfolding unstamped_def by (auto dest!: set_update_subset_insert[THEN subsetD])

lemma unstamped_keep:
  assumes "unstamped row" "ip_tag e = ip_tag (row ! w)" "lru e = lru (row ! w)"
  shows "unstamped (row[w := e])"
proof (cases "w < length row")
  case True
  then have "row ! w \<in> set row" by simp
  with assms show ?thesis by (intro unstamped_update) (auto simp: unstamped_def)
next
  case False
  with assms(1) show ?thesis by (simp add: list_update_beyond)
qed

definition basic_lru_ok :: "btb_config \<Rightarrow> nat \<Rightarrow> basic_store \<Rightarrow> bool" where
  "basic_lru_ok c n st \<longleftrightarrow> arr_ok (basic_geometry c) (basic_btb st) \<and> sb_ok (sbuf st) \<and>
     unat (basic_btb_lru_counter st) \<le> n \<and>
     (\<forall>r<length (basic_btb st). stamps_below ip_tag lru (basic_btb_lru_counter st) (basic_btb st ! r) \<and>
        unstamped (basic_btb st ! r))"

text \<open>The branches of a set, least recently used first.\<close>

definition basic_order :: "btb_config \<Rightarrow> basic_store \<Rightarrow> u64 \<Rightarrow> u64 list" where
  "basic_order c st ip = tag_order ip_tag lru (basic_btb st ! basic_btb_set_index c ip)"

lemma stamp_next: "unat (x::u64) \<le> n \<Longrightarrow> n < 2 ^ 64 - 1 \<Longrightarrow> x < x + 1 \<and> unat (x + 1) = Suc (unat x)"
  by (simp add: word_less_nat_alt unat_word_ariths)

lemma lru_stamped:
  assumes "basic_lru_ok c n st" "n < 2 ^ 64 - 1" "r < length (basic_btb st)" "w < BASIC_BTB_WAYS c"
    and "basic_btb st' = upd2 r w f (basic_btb st)" "arr_ok (basic_geometry c) (basic_btb st')" "sb_ok (sbuf st')"
    and "basic_btb_lru_counter st' = basic_btb_lru_counter st + 1"
    and "lru (f (basic_btb st ! r ! w)) = basic_btb_lru_counter st" "ip_tag (f (basic_btb st ! r ! w)) \<noteq> 0"
  shows "basic_lru_ok c (Suc n) st'"
proof -
  have c: "basic_btb_lru_counter st < basic_btb_lru_counter st + 1"
    "unat (basic_btb_lru_counter st + 1) = Suc (unat (basic_btb_lru_counter st))"
    using stamp_next[of "basic_btb_lru_counter st" n] assms(1,2) by (auto simp: basic_lru_ok_def)
  have w: "w < length (basic_btb st ! r)"
    using assms(1,3,4) arr_okD'(1)[of "basic_geometry c" "basic_btb st" r] by (simp add: basic_lru_ok_def)
  have "stamps_below ip_tag lru (basic_btb_lru_counter st') (basic_btb st' ! q) \<and> unstamped (basic_btb st' ! q)"
    if "q < length (basic_btb st')" for q
    using that assms c w
    by (auto simp: basic_lru_ok_def row_upd2 intro: stamps_below_update stamps_below_mono less_imp_le unstamped_update)
  with assms c show ?thesis by (auto simp: basic_lru_ok_def)
qed

lemma lru_kept:
  assumes "basic_lru_ok c n st" "basic_btb_lru_counter st' = basic_btb_lru_counter st"
    and "basic_btb st' = basic_btb st \<or> basic_btb st' = upd2 r w f (basic_btb st) \<and> r < length (basic_btb st) \<and>
       lru (f (basic_btb st ! r ! w)) = lru (basic_btb st ! r ! w) \<and>
       ip_tag (f (basic_btb st ! r ! w)) = ip_tag (basic_btb st ! r ! w)"
    and "arr_ok (basic_geometry c) (basic_btb st')" "sb_ok (sbuf st')"
  shows "basic_lru_ok c n st'"
proof -
  have "stamps_below ip_tag lru (basic_btb_lru_counter st) (basic_btb st' ! q) \<and> unstamped (basic_btb st' ! q)"
    if q: "q < length (basic_btb st)" for q
    using assms(1,3) q
    by (auto simp: basic_lru_ok_def row_upd2 intro!: stamps_below_keep[of ip_tag lru] unstamped_keep)
  then show ?thesis using assms by (auto simp: basic_lru_ok_def)
qed

lemma lru_later: "basic_lru_ok c n st \<Longrightarrow> n \<le> m \<Longrightarrow> basic_lru_ok c m st"
  by (auto simp: basic_lru_ok_def)

lemma basic_lru_okD: "basic_lru_ok c n st \<Longrightarrow> arr_ok (basic_geometry c) (basic_btb st)"
  "basic_lru_ok c n st \<Longrightarrow> sb_ok (sbuf st)"
  by (simp_all add: basic_lru_ok_def)

lemma lru_touched:
  assumes "basic_lru_ok c n st" "n < 2 ^ 64 - 1" "ip \<noteq> 0" "basic_btb_find_entry c st ip = Some w"
  shows "basic_lru_ok c (Suc n) (basic_btb_update_lru (basic_btb_set_index c ip) w st)"
proof -
  note ok = basic_lru_okD[OF assms(1)]
  have "arr_find (basic_geometry c) (basic_btb st) ip = Some w" using assms(4) find_entry_arr[OF ok(1)] by simp
  note f = arr_findD(1,2)[OF ok(1) this]
  from lru_stamped[OF assms(1,2) arr_okD(1)[OF ok(1), of ip] _ touch_array(1)] f ok assms(3)
    basic_touch_same[OF ok(1) assms(4)]
  show ?thesis by (simp add: arr_same_def basic_btb_update_lru_def)
qed

lemma lru_allocated:
  assumes "basic_lru_ok c n st" "n < 2 ^ 64 - 1" "basic_btb_find_entry c st ip = None" "ip \<noteq> 0"
    and "w < BASIC_BTB_WAYS c"
  shows "basic_lru_ok c (Suc n) (basic_btb_update_lru (basic_btb_set_index c ip) w
     (basic_write_entry (basic_btb_set_index c ip) w ip t st))"
proof -
  note ok = basic_lru_okD[OF assms(1)]
  have r: "basic_btb_set_index c ip < length (basic_btb st)"
    "w < length (basic_btb st ! basic_btb_set_index c ip)"
    using arr_okD(1,2)[OF ok(1), of ip] assms(5) by simp_all
  from lru_stamped[OF assms(1,2) r(1) assms(5) allocate_array[OF r]] ok
    basic_allocate_effect(1)[OF ok(1) assms(3-5), of t] assms(4)
  show ?thesis
    by (simp add: arr_effect_def basic_btb_update_lru_def basic_write_entry_def basic_new_entry_def)
qed

lemma lru_refreshed:
  assumes "basic_lru_ok c n st" "basic_btb_find_entry c st ip = Some w" "ip \<noteq> 0"
  shows "basic_lru_ok c n (basic_refresh_entry (basic_btb_set_index c ip) w tk t st)"
proof -
  note ok = basic_lru_okD[OF assms(1)]
  let ?st = "basic_refresh_entry (basic_btb_set_index c ip) w tk t st"
  show ?thesis
  proof (rule lru_kept[OF assms(1)])
    show "basic_btb_lru_counter ?st = basic_btb_lru_counter st" by (simp add: basic_refresh_entry_def)
    show "arr_ok (basic_geometry c) (basic_btb ?st)"
      using basic_refresh_effect(1)[OF ok(1) assms(2,3), of tk t] by (simp add: arr_effect_def)
    show "sb_ok (sbuf ?st)" using ok(2) by (simp add: refresh_array)
  qed (rule disjI2, use arr_okD(1)[OF ok(1), of ip] in \<open>auto simp: refresh_array\<close>)
qed

lemma lru_other_fields [simp]:
  "basic_lru_ok c n (st\<lparr>timestamp := x\<rparr>) = basic_lru_ok c n st"
  "basic_lru_ok c n (st\<lparr>branch_bias := b\<rparr>) = basic_lru_ok c n st"
  "basic_lru_ok c n (st\<lparr>coverage_accuracy := v\<rparr>) = basic_lru_ok c n st"
  "basic_lru_ok c n (st\<lparr>reuse := d\<rparr>) = basic_lru_ok c n st"
  by (simp_all add: basic_lru_ok_def)

lemma lru_sbuf: "basic_lru_ok c n st \<Longrightarrow> sb_ok sb \<Longrightarrow> basic_lru_ok c n (st\<lparr>sbuf := sb\<rparr>)"
  by (simp add: basic_lru_ok_def)

lemma lru_predict:
  assumes "basic_lru_ok c n st" "n < 2 ^ 64 - 1" "ip \<noteq> 0" "basic_direct_predict c ip st = Some (r, st')"
  shows "basic_lru_ok c (Suc n) st'"
  using assms lru_touched[of c n "st\<lparr>timestamp := timestamp st + 1\<rparr>" ip]
  by (auto simp: basic_direct_predict_def Let_def split: option.splits intro: lru_later)

lemma lru_update:
  assumes "basic_lru_ok c n st" "n < 2 ^ 64 - 1" "ip \<noteq> 0" "basic_direct_update c ip t tk bt st = Some st'"
  shows "basic_lru_ok c (Suc n) st'"
proof (cases "basic_btb_find_entry c st ip")
  case (Some w)
  let ?st = "st\<lparr>branch_bias := bias_access ip (tk \<noteq> 0) (branch_bias st)\<rparr>"
  have f: "basic_btb_find_entry c ?st ip = Some w" using Some by (simp add: basic_btb_find_entry_def)
  have "basic_lru_ok c (Suc n) (basic_refresh_entry (basic_btb_set_index c ip) w (tk \<noteq> 0) t ?st)"
    using lru_refreshed[OF _ f assms(3), of n "tk \<noteq> 0" t] assms(1) by (auto intro: lru_later)
  with f assms(4) show ?thesis by (auto simp: basic_direct_update_def Let_def split: if_splits)
next
  case None
  let ?st = "st\<lparr>branch_bias := bias_access ip (tk \<noteq> 0) (branch_bias st)\<rparr>"
  let ?st1 = "?st\<lparr>sbuf := snd (stream_buffer_update ip (sbuf st))\<rparr>"
  let ?s = "basic_btb_set_index c ip" and ?w = "basic_btb_get_lru_entry c ?st1 (basic_btb_set_index c ip)"
  let ?st2 = "(if ip_tag (basic_btb ?st1 ! ?s ! ?w) \<noteq> 0
     then ?st1\<lparr>coverage_accuracy := snd (get_reuse_distance (ip_tag (basic_btb ?st1 ! ?s ! ?w))
            (timestamp ?st1 - 1) (coverage_accuracy ?st1))\<rparr> else ?st1)"
  have none: "basic_btb_find_entry c ?st ip = None" "basic_btb_find_entry c ?st2 ip = None"
    using None by (simp_all add: basic_btb_find_entry_def)
  have ok: "basic_lru_ok c n ?st1" using assms(1) basic_lru_okD(2)[OF assms(1)] by (auto intro: lru_sbuf)
  then have ok2: "basic_lru_ok c n ?st2" by simp
  have "?w < BASIC_BTB_WAYS c" using get_lru_entry_bound[OF basic_lru_okD(1)[OF ok]] .
  from lru_allocated[OF ok2 assms(2) none(2) assms(3) this, of t] lru_later[OF ok, of "Suc n"]
  show ?thesis
    using assms(4) none(1) by (auto simp: basic_direct_update_def Let_def split: if_splits)
qed

lemma lru_prefetch:
  assumes "basic_lru_ok c n st" "n < 2 ^ 64 - 1" "ip \<noteq> 0"
    and "basic_direct_prefetch c ip t bt tk to_sb st = Some st'"
  shows "basic_lru_ok c (Suc n) st'"
proof (cases "basic_btb_find_entry c st ip")
  case (Some w)
  let ?st = "basic_btb_update_lru (basic_btb_set_index c ip) w st"
  note ok = basic_lru_okD(1)[OF assms(1)] and t = lru_touched[OF assms(1-3) Some]
  have "basic_btb_find_entry c ?st ip = Some w"
    using basic_touch_same[OF ok Some] Some find_entry_arr[OF ok] assms(3)
      find_entry_arr[OF basic_lru_okD(1)[OF t]] by (simp add: arr_same_def)
  from lru_refreshed[OF t this assms(3)] Some assms(4) show ?thesis
    by (auto simp: basic_direct_prefetch_def Let_def)
next
  case None
  let ?s = "basic_btb_set_index c ip" and ?w = "basic_btb_get_lru_entry c st (basic_btb_set_index c ip)"
  let ?st = "st\<lparr>coverage_accuracy := snd (get_reuse_distance (ip_tag (basic_btb st ! ?s ! ?w))
       (timestamp st - 1) (coverage_accuracy st))\<rparr>"
  have none: "basic_btb_find_entry c ?st ip = None" using None by (simp add: basic_btb_find_entry_def)
  have ok: "basic_lru_ok c n ?st" using assms(1) by simp
  have "?w < BASIC_BTB_WAYS c" using get_lru_entry_bound[OF basic_lru_okD(1)[OF ok]] .
  from lru_allocated[OF ok assms(2) none assms(3) this, of t] lru_later[OF assms(1), of "Suc n"]
  show ?thesis
    using assms(4) None basic_lru_okD(2)[OF assms(1)]
    by (auto simp: basic_direct_prefetch_def Let_def split: if_splits intro: lru_sbuf sb_prefetch_ok)
qed

definition basic_run :: "btb_config \<Rightarrow> btb_event list \<Rightarrow> basic_store btb_cpu \<Rightarrow> basic_store btb_cpu option" where
  "basic_run c = btb_run (basic_btb_prediction c) (basic_update_btb c) (basic_prefetch_btb c)"

lemmas basic_handlers = basic_btb_prediction_def basic_update_btb_def basic_prefetch_btb_def

lemma lru_step:
  assumes "basic_lru_ok c n (store s)" "event_ip e \<noteq> 0" "n < 2 ^ 64 - 1"
    and "btb_step (basic_btb_prediction c) (basic_update_btb c) (basic_prefetch_btb c) e s = Some s'"
  shows "basic_lru_ok c (Suc n) (store s')"
  using assms
  by (cases e) (auto simp: basic_handlers btb_prediction_with_def update_btb_with_def prefetch_btb_with_def
      Let_def split: if_splits option.splits intro: lru_predict lru_update lru_prefetch lru_later)

lemma lru_initial: "config_ok c \<Longrightarrow> basic_lru_ok c 0 (store (basic_initialize_btb c d))"
  using basic_init_ok(1,2)[of c d] arr_okD'(1)[of "basic_geometry c"]
  by (simp add: basic_lru_ok_def) (simp add: basic_initialize_btb_def stamps_below_def unstamped_def empty_basic_entry_def)

lemma lru_reachable:
  assumes "config_ok c" "\<forall>e\<in>set es. event_ip e \<noteq> 0" "length es < 2 ^ 64"
    and "basic_run c es (basic_initialize_btb c d) = Some s"
  shows "basic_lru_ok c (length es) (store s)"
  using run_counted[where I = "\<lambda>n s. basic_lru_ok c n (store s)" and P = "\<lambda>e. event_ip e \<noteq> 0"
      and N = "2 ^ 64 - 1" and n = 0 and es = es, OF lru_step lru_initial[OF assms(1)]] assms(2-4)
  by (auto simp: basic_run_def)

text \<open>A prediction or a prefetch that hits moves its branch to the recent end, an update that hits moves none.\<close>

lemma basic_found:
  assumes "basic_lru_ok c n st" "basic_btb_find_entry c st ip = Some w"
  shows "basic_btb_set_index c ip < length (basic_btb st)" "w < length (basic_btb st ! basic_btb_set_index c ip)"
    "ip_tag (basic_btb st ! basic_btb_set_index c ip ! w) = ip"
proof -
  note ok = basic_lru_okD(1)[OF assms(1)]
  have f: "arr_find (basic_geometry c) (basic_btb st) ip = Some w" using assms(2) find_entry_arr[OF ok] by simp
  show "basic_btb_set_index c ip < length (basic_btb st)" "w < length (basic_btb st ! basic_btb_set_index c ip)"
    "ip_tag (basic_btb st ! basic_btb_set_index c ip ! w) = ip"
    using arr_findD[OF ok f] arr_okD(1,2)[OF ok, of ip] by simp_all
qed

lemma basic_order_touch:
  assumes ok: "basic_lru_ok c n st" and ip: "ip \<noteq> 0" and f: "basic_btb_find_entry c st ip = Some w"
    and b: "basic_btb st' = upd2 (basic_btb_set_index c ip) w f (basic_btb st)"
    and e: "\<And>e. ip_tag (f e) = ip_tag e" "\<And>e. lru (f e) = basic_btb_lru_counter st"
  shows "basic_order c st' ip = remove1 ip (basic_order c st ip) @ [ip]"
  using tag_order_update[of ip_tag lru "basic_btb_lru_counter st" "basic_btb st ! basic_btb_set_index c ip" w "f (basic_btb st ! basic_btb_set_index c ip ! w)"]
    basic_found[OF ok f] arr_okD(3)[OF basic_lru_okD(1)[OF ok], of ip] assms
  by (simp add: basic_order_def row_upd2 basic_lru_ok_def)

lemma basic_order_predict_hit:
  assumes "basic_lru_ok c n st" "ip \<noteq> 0" "basic_btb_find_entry c st ip = Some w"
    and "basic_direct_predict c ip st = Some (r, st')"
  shows "basic_order c st' ip = remove1 ip (basic_order c st ip) @ [ip]"
proof -
  have "basic_btb_find_entry c (st\<lparr>timestamp := timestamp st + 1\<rparr>) ip = Some w"
    using assms(3) by (simp add: basic_btb_find_entry_def)
  with assms(4) have "basic_btb st' = upd2 (basic_btb_set_index c ip) w (\<lambda>e. e\<lparr>lru := basic_btb_lru_counter st\<rparr>) (basic_btb st)"
    by (auto simp: basic_direct_predict_def Let_def touch_array)
  from basic_order_touch[OF assms(1-3) this] show ?thesis by simp
qed

lemma basic_order_prefetch_hit:
  assumes "basic_lru_ok c n st" "ip \<noteq> 0" "basic_btb_find_entry c st ip = Some w"
    and "basic_direct_prefetch c ip t bt tk to_sb st = Some st'"
  shows "basic_order c st' ip = remove1 ip (basic_order c st ip) @ [ip]"
proof -
  let ?g = "\<lambda>e. if \<not> tk then e\<lparr>always_taken := 0\<rparr> else e\<lparr>target := t\<rparr>"
  have "basic_btb st' = upd2 (basic_btb_set_index c ip) w (?g \<circ> (\<lambda>e. e\<lparr>lru := basic_btb_lru_counter st\<rparr>)) (basic_btb st)"
    using assms(3,4) basic_found(1,2)[OF assms(1,3)] by (auto simp: basic_direct_prefetch_def Let_def refresh_array touch_array upd2_upd2)
  from basic_order_touch[OF assms(1-3) this] show ?thesis by (simp split: if_splits)
qed

lemma basic_order_update_hit:
  assumes "basic_lru_ok c n st" "basic_btb_find_entry c st ip = Some w" "basic_direct_update c ip t tk bt st = Some st'"
  shows "basic_order c st' ip = basic_order c st ip"
proof -
  let ?g = "\<lambda>e. if tk = 0 then e\<lparr>always_taken := 0\<rparr> else e\<lparr>target := t\<rparr>" and ?s = "basic_btb_set_index c ip"
  have "basic_btb_find_entry c (st\<lparr>branch_bias := bias_access ip (tk \<noteq> 0) (branch_bias st)\<rparr>) ip = Some w"
    using assms(2) by (simp add: basic_btb_find_entry_def)
  with assms(3) have b: "basic_btb st' = upd2 ?s w ?g (basic_btb st)"
    by (auto simp: basic_direct_update_def Let_def refresh_array split: if_splits)
  have "tag_order ip_tag lru ((basic_btb st ! ?s)[w := ?g (basic_btb st ! ?s ! w)]) = tag_order ip_tag lru (basic_btb st ! ?s)"
    by (rule tag_order_keep) simp_all
  with basic_found(1)[OF assms(1,2)] show ?thesis by (simp add: basic_order_def b row_upd2)
qed

text \<open>
  A replacement takes the first way with the least stamp. In a full set that is the least recently touched branch; in a set with an
  empty way it is an empty way or the one branch whose stamp is 0 like theirs.
\<close>

definition basic_replaces :: "btb_config \<Rightarrow> u64 \<Rightarrow> basic_store \<Rightarrow> basic_store \<Rightarrow> bool" where
  "basic_replaces c ip st st' \<longleftrightarrow>
     (let row = basic_btb st ! basic_btb_set_index c ip; old = basic_order c st ip; new = basic_order c st' ip
      in if \<forall>e\<in>set row. ip_tag e \<noteq> 0 then new = tl old @ [ip]
         else new = old @ [ip] \<or>
              new = tl old @ [ip] \<and> (\<exists>e\<in>set row. ip_tag e \<noteq> 0 \<and> ip_tag e = hd old \<and> lru e = 0))"

lemma basic_order_replaces:
  assumes inv: "basic_lru_ok c n st" and ip: "ip \<noteq> 0"
    and b: "basic_btb st' = upd2 (basic_btb_set_index c ip) (basic_btb_get_lru_entry c st (basic_btb_set_index c ip))
       (basic_new_entry ip t (basic_btb_lru_counter st)) (basic_btb st)"
  shows "basic_replaces c ip st st'"
proof -
  let ?s = "basic_btb_set_index c ip"
  let ?w = "basic_btb_get_lru_entry c st ?s" and ?row = "basic_btb st ! ?s"
  let ?e = "basic_new_entry ip t (basic_btb_lru_counter st) (?row ! ?w)"
  note ok = basic_lru_okD(1)[OF inv] and d = arr_okD(1-3)[OF basic_lru_okD(1)[OF inv], of ip]
  have w: "?w < length ?row" using get_lru_entry_bound[OF ok] d by simp
  have st: "stamps_below ip_tag lru (basic_btb_lru_counter st) ?row" "unstamped ?row" "uniq_tags ip_tag ?row"
    using inv d by (simp_all add: basic_lru_ok_def)
  have e: "ip_tag ?e \<noteq> 0" "ip_tag ?e = ip" "lru ?e = basic_btb_lru_counter st" using ip by (simp_all add: basic_new_entry_def)
  have least: "lru (?row ! ?w) \<le> lru (?row ! i)" if "i < length ?row" for i
    using that d scan_min_least[of i "BASIC_BTB_WAYS c" "\<lambda>i. lru (?row ! i)"]
    by (simp add: basic_btb_get_lru_entry_def)
  have new: "basic_order c st' ip = tag_order ip_tag lru (?row[?w := ?e])" using d(1) by (simp add: basic_order_def b row_upd2)
  show ?thesis
  proof (cases "\<forall>e\<in>set ?row. ip_tag e \<noteq> 0")
    case True
    with tag_order_replace_least(1)[OF st(1,3) True w least e(1,3)] show ?thesis
      by (simp add: basic_replaces_def Let_def new e(2)) (simp add: basic_order_def)
  next
    case False
    then obtain j where "j < length ?row" "lru (?row ! j) = 0" using st(2) unfolding unstamped_def by (metis in_set_conv_nth)
    with least[of j] have z: "lru (?row ! ?w) = 0" by simp
    note u = tag_order_update[OF st(1,3) w e(1,3), unfolded e(2)]
    show ?thesis
    proof (cases "ip_tag (?row ! ?w) = 0")
      case True
      then have "ip_tag (?row ! ?w) \<notin> set (tag_order ip_tag lru ?row)" by (auto simp: set_tag_order)
      with u have "basic_order c st' ip = basic_order c st ip @ [ip]" by (simp add: new remove1_idem) (simp add: basic_order_def)
      with False show ?thesis unfolding basic_replaces_def Let_def by auto
    next
      case t: False
      have "\<exists>xs. recency ip_tag lru ?row = ?row ! ?w # xs"
        by (rule recency_least[OF st(1) w t least])
      then obtain xs where "recency ip_tag lru ?row = ?row ! ?w # xs" ..
      then have "basic_order c st ip = ip_tag (?row ! ?w) # map ip_tag xs" by (simp add: basic_order_def tag_order_def)
      moreover from this have "basic_order c st' ip = map ip_tag xs @ [ip]" using u by (simp add: new) (simp add: basic_order_def)
      moreover have "?row ! ?w \<in> set ?row" using w by simp
      ultimately show ?thesis using False t z unfolding basic_replaces_def Let_def by auto
    qed
  qed
qed

lemma basic_replacement_step:
  assumes inv: "basic_lru_ok c n st" and ip: "ip \<noteq> 0" and none: "basic_btb_find_entry c st ip = None" and t: "t \<noteq> 0"
    and step: "taken \<noteq> 0 \<and> basic_direct_update c ip t taken bt st = Some st' \<or> basic_direct_prefetch c ip t bt True False st = Some st'"
  shows "basic_replaces c ip st st'"
proof -
  let ?s = "basic_btb_set_index c ip"
  note ok = basic_lru_okD(1)[OF inv]
  have l: "?s < length (basic_btb st)" "basic_btb_get_lru_entry c st ?s < length (basic_btb st ! ?s)"
    using get_lru_entry_bound[OF ok] arr_okD(1,2)[OF ok, of ip] by simp_all
  have "basic_btb st' = upd2 ?s (basic_btb_get_lru_entry c st ?s) (basic_new_entry ip t (basic_btb_lru_counter st)) (basic_btb st)"
    using step none t l
    by (auto simp: basic_direct_update_def basic_direct_prefetch_def Let_def basic_btb_find_entry_def basic_btb_get_lru_entry_def
        allocate_array split: if_splits)
  from basic_order_replaces[OF inv ip this] show ?thesis .
qed

section \<open>Properties\<close>

text \<open>C6: from initialize_btb, on any sequence of calls of the three handlers with non-zero
  branch addresses, no assertion of the LRU BTB fails, its sets stay well-formed, and whenever
  it holds a direct branch it predicts the target of that branch's last taken reference.\<close>

theorem basic_btb_run_correct:
  assumes "config_ok c" and "\<forall>e\<in>set es. event_ip e \<noteq> 0"
  shows "\<exists>s. basic_run c es (basic_initialize_btb c demand) = Some s \<and> basic_ok c (store s) \<and> fe_ok (front s) \<and>
    (\<forall>ip bt t. ip \<noteq> 0 \<longrightarrow> is_direct bt \<longrightarrow> basic_lookup c (store s) ip = Some t \<longrightarrow>
      ideal_run es Map.empty ip = Some t \<and>
      (\<exists>taken s'. basic_btb_prediction c ip bt s = Some ((t, taken), s')))"
proof -
  note i = basic_init_ok[OF assms(1), where d = demand]
  from basic.run_correct[where c = c and bound = "Suc (length es)" and es = es
      and s = "basic_initialize_btb c demand"] i assms(2)
  show ?thesis by (auto simp: basic_run_def basic_handlers basic_ok_def basic_lookup_def)
qed

lemma basic_btb_run_correct_witness:
  "\<exists>s. basic_run default_config [Update 0x400100 0x400200 1 BRANCH_CONDITIONAL, Predict 0x400100 BRANCH_CONDITIONAL]
      (basic_initialize_btb default_config []) = Some s \<and> basic_ok default_config (store s)"
  using basic_btb_run_correct[of default_config
      "[Update 0x400100 0x400200 1 BRANCH_CONDITIONAL, Predict 0x400100 BRANCH_CONDITIONAL]" "[]"]
  by auto

text \<open>C26: a taken direct branch that the LRU BTB has just been updated with, to a non-zero
  target, is predicted with that target by the next prediction.\<close>

theorem basic_update_then_predict:
  assumes "basic_ok c (store s)" "ip \<noteq> 0" "branch_target \<noteq> 0" "taken \<noteq> 0" "is_direct bt"
  shows "\<exists>s' always_taken s''. basic_update_btb c ip branch_target taken bt s = Some s' \<and>
    basic_btb_prediction c ip bt s' = Some ((branch_target, always_taken), s'')"
  using basic.update_then_predict[where c = c and bound = 2 and n = 0 and s = s and ip = ip
      and t = branch_target and tk = taken and bt = bt] assms
  by (simp add: basic_ok_def basic_handlers)

lemma basic_update_then_predict_witness:
  "\<exists>s' f s''. basic_update_btb default_config 0x400100 0x400200 1 BRANCH_DIRECT_JUMP
       (basic_initialize_btb default_config []) = Some s' \<and>
     basic_btb_prediction default_config 0x400100 BRANCH_DIRECT_JUMP s' = Some ((0x400200, f), s'')"
  using basic_update_then_predict[of default_config "basic_initialize_btb default_config []"
      "0x400100" "0x400200" 1 BRANCH_DIRECT_JUMP]
    basic_init_ok[OF default_config_ok]
  by (simp add: basic_ok_def is_direct_def branch_defs)


text \<open>C5: in every state a run of fewer than 2^64 handler calls reaches from initialize_btb, the stamps of the LRU BTB
  implement the least-recently-used order of each set. A prediction or a prefetch that hits moves its branch to the recent end, an update that hits leaves the
  order. A taken miss, by an update or by a prefetch into the BTB, enters its branch at the recent end; in a full set it
  replaces exactly the least recently used branch, and in a set with an empty way it takes an empty way or replaces the one branch
  that still has the stamp 0 of the empty ways.\<close>

theorem basic_lru_order:
  assumes "config_ok c" "\<forall>e\<in>set es. event_ip e \<noteq> 0" "length es < 2 ^ 64" "ip \<noteq> 0"
    and "basic_run c es (basic_initialize_btb c demand) = Some s"
  shows "(basic_btb_find_entry c (store s) ip \<noteq> None \<longrightarrow>
      (\<forall>r st'. basic_direct_predict c ip (store s) = Some (r, st') \<longrightarrow>
         basic_order c st' ip = remove1 ip (basic_order c (store s) ip) @ [ip]) \<and>
      (\<forall>t bt taken to_sb st'. basic_direct_prefetch c ip t bt taken to_sb (store s) = Some st' \<longrightarrow>
         basic_order c st' ip = remove1 ip (basic_order c (store s) ip) @ [ip]) \<and>
      (\<forall>t taken bt st'. basic_direct_update c ip t taken bt (store s) = Some st' \<longrightarrow>
         basic_order c st' ip = basic_order c (store s) ip)) \<and>
    (basic_btb_find_entry c (store s) ip = None \<longrightarrow>
      (\<forall>t taken bt st'. t \<noteq> 0 \<longrightarrow>
         taken \<noteq> 0 \<and> basic_direct_update c ip t taken bt (store s) = Some st' \<or>
         basic_direct_prefetch c ip t bt True False (store s) = Some st' \<longrightarrow>
         (let row = basic_btb (store s) ! basic_btb_set_index c ip; old = basic_order c (store s) ip; new = basic_order c st' ip
          in if \<forall>e\<in>set row. ip_tag e \<noteq> 0 then new = tl old @ [ip]
             else new = old @ [ip] \<or>
                  new = tl old @ [ip] \<and> (\<exists>e\<in>set row. ip_tag e \<noteq> 0 \<and> ip_tag e = hd old \<and> lru e = 0))))"
  unfolding basic_replaces_def[symmetric]
  using lru_reachable[OF assms(1-3,5)] assms(4)
  by (blast intro: basic_order_predict_hit basic_order_prefetch_hit basic_order_update_hit basic_replacement_step)

definition two_way_config :: btb_config where
  "two_way_config = \<lparr>total_btb_ways = 2, total_btb_entries = 4\<rparr>"

definition demo_events :: "btb_event list" where
  "demo_events = [Update 4 100 1 BRANCH_DIRECT_JUMP, Update 8 100 1 BRANCH_DIRECT_JUMP,
     Update 16 100 1 BRANCH_DIRECT_JUMP]"

lemmas basic_eval = demo_events_def two_way_config_def basic_run_def basic_handlers update_btb_with_def
  frontend_update_def branch_defs basic_direct_update_def basic_initialize_btb_def
  BASIC_BTB_SETS_def BASIC_BTB_WAYS_def basic_btb_find_entry_def first_index_def upt_rec
  basic_btb_set_index_def cov_init_def empty_basic_entry_def basic_btb_get_lru_entry_def scan_min_def
  basic_write_entry_def basic_btb_update_lru_def upd2_def new_branch_bias_def bias_access_def
  new_stream_buffer_def stream_buffer_update_def new_reuse_distance_def rd_access_def
  basic_refresh_entry_def

lemma demo_run:
  "\<exists>s st'. basic_run two_way_config demo_events (basic_initialize_btb two_way_config []) = Some s \<and>
     basic_order two_way_config (store s) 24 = [8, 16] \<and>
     basic_btb_find_entry two_way_config (store s) 24 = None \<and>
     (\<forall>e\<in>set (basic_btb (store s) ! basic_btb_set_index two_way_config 24). ip_tag e \<noteq> 0) \<and>
     basic_direct_update two_way_config 24 100 1 BRANCH_DIRECT_JUMP (store s) = Some st'"
  by (simp add: basic_eval basic_order_def tag_order_def recency_def replicate_2)

lemma basic_lru_order_witness:
  "\<exists>s st'. basic_run two_way_config demo_events (basic_initialize_btb two_way_config []) = Some s \<and>
     basic_order two_way_config (store s) 24 = [8, 16] \<and>
     basic_direct_update two_way_config 24 100 1 BRANCH_DIRECT_JUMP (store s) = Some st' \<and>
     basic_order two_way_config st' 24 = [16, 24]"
proof -
  obtain s st' where s: "basic_run two_way_config demo_events (basic_initialize_btb two_way_config []) = Some s"
    "basic_order two_way_config (store s) 24 = [8, 16]"
    "basic_btb_find_entry two_way_config (store s) 24 = None"
    "\<forall>e\<in>set (basic_btb (store s) ! basic_btb_set_index two_way_config 24). ip_tag e \<noteq> 0"
    "basic_direct_update two_way_config 24 100 1 BRANCH_DIRECT_JUMP (store s) = Some st'"
    using demo_run by blast
  have "config_ok two_way_config" "\<forall>e\<in>set demo_events. event_ip e \<noteq> 0" "length demo_events < 2 ^ 64"
    by (simp_all add: config_ok_def two_way_config_def BASIC_BTB_SETS_def BASIC_BTB_WAYS_def demo_events_def)
  from conjunct2[OF basic_lru_order[OF this _ s(1), of 24], rule_format, of 100 1 BRANCH_DIRECT_JUMP st'] s
  have "basic_order two_way_config st' 24 = tl (basic_order two_way_config (store s) 24) @ [24]" by simp
  with s show ?thesis by simp
qed

text \<open>The first branch the BTB ever stores gets stamp 0, the stamp of a never used way, so
  the next taken miss in its set evicts it although the other way of the set is empty.\<close>

theorem basic_first_entry_evicted_early:
  "\<exists>s. basic_run two_way_config [Update 8 100 1 BRANCH_DIRECT_JUMP, Update 16 200 1 BRANCH_DIRECT_JUMP]
      (basic_initialize_btb two_way_config []) = Some s \<and>
    map ip_tag (basic_btb (store s) ! 0) = [16, 0] \<and> basic_lookup two_way_config (store s) 8 = None"
  by (simp add: basic_eval replicate_2 basic_lookup_def arr_lookup_def row_lookup_def row_find_def)

text \<open>The set index of the measuring objects (a mask) is the set index of the BTB (a remainder)
  for every power of two of sets, but not in general: with 7979 entries and 4 ways, a size the
  artifact's README runs, the branch at 0x2000 is in set 54 and is counted in set 0.\<close>

theorem mask_and_remainder_index:
  "(n < 64 \<and> BASIC_BTB_SETS c = 2 ^ n \<longrightarrow> cov_find_set_index (BASIC_BTB_SETS c) ip = basic_btb_set_index c ip) \<and>
   (let c = \<lparr>total_btb_ways = 4, total_btb_entries = 7979\<rparr>
    in basic_btb_set_index c 0x2000 = 54 \<and> cov_find_set_index (BASIC_BTB_SETS c) 0x2000 = 0)"
proof -
  have "n < 64 \<Longrightarrow> BASIC_BTB_SETS c = 2 ^ n \<Longrightarrow>
      cov_find_set_index (BASIC_BTB_SETS c) ip = basic_btb_set_index c ip"
    using mask_index_power_of_two[of n ip] by (simp add: basic_btb_set_index_def)
  then show ?thesis
    by (simp add: basic_btb_set_index_def cov_find_set_index_def BASIC_BTB_SETS_def)
qed

lemma mask_and_remainder_index_witness:
  "cov_find_set_index (BASIC_BTB_SETS default_config) 0x2000 = basic_btb_set_index default_config 0x2000"
  using mask_and_remainder_index[of 11 default_config "0x2000"]
  by (simp add: BASIC_BTB_SETS_def default_config_def)

end
