(* ===== verification/Rrip.thy ===== *)
theory Rrip
  imports Prelude
begin

text \<open>
  The victim search that all the re-reference interval (RRIP) policies share,
  \<^verbatim>\<open>while (true) { find a way at the maximum; otherwise age every way }\<close>: over the values of
  one set. The loop may run forever in principle, so it is a partial function; it is proved to
  return for every non-empty set whose values do not exceed the maximum.
\<close>

partial_function (option) rrip_search ::
  "'w::len word \<Rightarrow> 'w word list \<Rightarrow> (nat \<times> 'w word list) option"
where
  "rrip_search mx rs =
     (case first_index (\<lambda>i. rs ! i = mx) (length rs) of
        Some i \<Rightarrow> Some (i, rs)
      | None \<Rightarrow> rrip_search mx (map (\<lambda>r. r + 1) rs))"

text \<open>The result: the first way with the largest value; all ways aged alike until it is maximal.\<close>

definition rrip_victim :: "'w::len word list \<Rightarrow> nat \<Rightarrow> bool" where
  "rrip_victim rs i \<longleftrightarrow> i < length rs \<and> (\<forall>j<length rs. rs ! j \<le> rs ! i) \<and> (\<forall>j<i. rs ! j < rs ! i)"

lemma rrip_search_result:
  fixes mx :: "'w::len word"
  assumes "rs \<noteq> []" "\<forall>r\<in>set rs. r \<le> mx"
  shows "\<exists>i rs'. rrip_search mx rs = Some (i, rs') \<and> rrip_victim rs i \<and> rs' ! i = mx \<and>
     length rs' = length rs \<and> (\<forall>j<length rs. rs' ! j \<le> mx \<and>
       unat (rs' ! j) + unat (rs ! i) = unat (rs ! j) + unat mx)"
  using assms
proof (induction "unat mx - Max (unat ` set rs)" arbitrary: rs rule: less_induct)
  case less
  show ?case
  proof (cases "first_index (\<lambda>i. rs ! i = mx) (length rs)")
    case (Some i)
    then have i: "i < length rs" "rs ! i = mx" "\<forall>j<i. rs ! j \<noteq> mx" using first_index_SomeD by fastforce+
    then have "rrip_victim rs i" using less.prems(2) by (auto simp: rrip_victim_def order_less_le)
    with Some i less.prems(2) show ?thesis
      by (intro exI[of _ i] exI[of _ rs]) (simp add: rrip_search.simps)
  next
    case None
    then have lt: "\<And>r. r \<in> set rs \<Longrightarrow> r < mx"
      using less.prems(2) by (fastforce simp: first_index_None_iff in_set_conv_nth order_less_le)
    let ?rs = "map (\<lambda>r. r + 1) rs"
    have suc: "\<And>r. r \<in> set rs \<Longrightarrow> unat (r + 1) = Suc (unat r)" "\<And>r. r \<in> set rs \<Longrightarrow> r + 1 \<le> mx"
      using word_less_add_one[OF lt] by auto
    have img: "unat ` set ?rs = Suc ` unat ` set rs" using suc(1) by (force simp: image_image)
    have "Max (unat ` set ?rs) = Suc (Max (unat ` set rs))"
      unfolding img using less.prems(1) by (intro mono_Max_commute[symmetric]) (auto simp: mono_Suc)
    moreover have "Max (unat ` set rs) < unat mx"
      using lt less.prems(1) by (auto simp: word_less_nat_alt)
    ultimately have m: "unat mx - Max (unat ` set ?rs) < unat mx - Max (unat ` set rs)" by simp
    obtain i rs' where i: "rrip_search mx ?rs = Some (i, rs')" "rrip_victim ?rs i" "rs' ! i = mx"
      "length rs' = length ?rs" "\<forall>j<length ?rs. rs' ! j \<le> mx \<and>
         unat (rs' ! j) + unat (?rs ! i) = unat (?rs ! j) + unat mx"
      using less.hyps[OF m] less.prems(1) suc(2) by auto
    have il: "i < length rs" using i(2) by (simp add: rrip_victim_def)
    have nth: "\<And>j. j < length rs \<Longrightarrow> unat (?rs ! j) = Suc (unat (rs ! j))" using suc(1) by simp
    have "rrip_victim rs i"
      using i(2) il nth by (auto simp: rrip_victim_def word_le_nat_alt word_less_nat_alt)
    moreover have "rrip_search mx rs = Some (i, rs')"
      using None i(1) by (simp add: rrip_search.simps[of mx rs])
    moreover have "\<forall>j<length rs. rs' ! j \<le> mx \<and> unat (rs' ! j) + unat (rs ! i) = unat (rs ! j) + unat mx"
    proof (intro allI impI)
      fix j assume j: "j < length rs"
      with i(5) have "rs' ! j \<le> mx" "unat (rs' ! j) + unat (?rs ! i) = unat (?rs ! j) + unat mx" by auto
      then show "rs' ! j \<le> mx \<and> unat (rs' ! j) + unat (rs ! i) = unat (rs ! j) + unat mx"
        using nth[OF j] nth[OF il] by simp
    qed
    ultimately show ?thesis using i(3,4) by (intro exI[of _ i] exI[of _ rs']) simp
  qed
qed

lemma rrip_search_total:
  assumes "rs \<noteq> []" "\<forall>r\<in>set rs. r \<le> mx"
  obtains i rs' where "rrip_search mx rs = Some (i, rs')" "i < length rs" "length rs' = length rs"
    "\<forall>r\<in>set rs'. r \<le> mx" "rs' ! i = mx"
proof -
  from rrip_search_result[OF assms] obtain i rs' where *: "rrip_search mx rs = Some (i, rs')"
    "rrip_victim rs i" "rs' ! i = mx" "length rs' = length rs" "\<forall>j<length rs. rs' ! j \<le> mx" by blast
  then have "\<forall>r\<in>set rs'. r \<le> mx" by (auto simp: in_set_conv_nth)
  with * show thesis by (intro that) (auto simp: rrip_victim_def)
qed

end
