(* ===== verification/SrripBtb.thy ===== *)
theory SrripBtb
  imports ArrayBtb Rrip
begin

text \<open>
  The SRRIP BTB of \<^verbatim>\<open>btb/srrip_btb/srrip_btb.cc\<close>: the array of the LRU BTB with a two-bit
  re-reference prediction value (RRPV, kept in 64 bits) per way. The set index is a mask here.
\<close>

section \<open>State\<close>

definition SRRIP_DISTANT_INTERVAL :: u64 where "SRRIP_DISTANT_INTERVAL = 3"
definition SRRIP_LONG_INTERVAL :: u64 where "SRRIP_LONG_INTERVAL = 2"
definition taken_only :: bool where "taken_only = False"

record srrip_entry =
  ip_tag :: u64
  target :: u64
  always_taken :: u8
  rrpv :: u64

definition empty_srrip_entry :: srrip_entry where
  "empty_srrip_entry = \<lparr>ip_tag = 0, target = 0, always_taken = 0, rrpv = SRRIP_DISTANT_INTERVAL\<rparr>"

record srrip_store =
  srrip_btb :: "srrip_entry list list"
  sbuf :: stream_buffer

definition srrip_initialize_btb :: "btb_config \<Rightarrow> srrip_store btb_cpu" where
  "srrip_initialize_btb c =
     \<lparr>front = init_frontend,
      store = \<lparr>srrip_btb = replicate (unat (BASIC_BTB_SETS c)) (replicate (BASIC_BTB_WAYS c) empty_srrip_entry),
               sbuf = new_stream_buffer 32\<rparr>\<rparr>"

section \<open>Operations\<close>

definition srrip_btb_set_index :: "btb_config \<Rightarrow> u64 \<Rightarrow> nat" where
  "srrip_btb_set_index c ip = unat (drop_bit 2 ip AND (BASIC_BTB_SETS c - 1))"

definition srrip_btb_find_entry :: "btb_config \<Rightarrow> srrip_store \<Rightarrow> u64 \<Rightarrow> nat option" where
  "srrip_btb_find_entry c st ip =
     first_index (\<lambda>i. ip_tag (srrip_btb st ! srrip_btb_set_index c ip ! i) = ip) (BASIC_BTB_WAYS c)"

definition set_rrpvs :: "srrip_entry list \<Rightarrow> u64 list \<Rightarrow> srrip_entry list" where
  "set_rrpvs row rs = map2 (\<lambda>e r. e\<lparr>rrpv := r\<rparr>) row rs"

text \<open>The way to replace, and the set with the other ways aged and this one set to the long interval.\<close>

definition basic_btb_get_srrip_entry :: "nat \<Rightarrow> srrip_store \<Rightarrow> (nat \<times> srrip_store) option" where
  "basic_btb_get_srrip_entry sx st =
     (let row = srrip_btb st ! sx
      in map_option
           (\<lambda>(i, rs). (i, st\<lparr>srrip_btb :=
              (srrip_btb st)[sx := (set_rrpvs row rs)[i := (set_rrpvs row rs ! i)\<lparr>rrpv := SRRIP_LONG_INTERVAL\<rparr>]]\<rparr>))
           (rrip_search SRRIP_DISTANT_INTERVAL (map rrpv row)))"

definition srrip_write_entry :: "nat \<Rightarrow> nat \<Rightarrow> u64 \<Rightarrow> u64 \<Rightarrow> srrip_store \<Rightarrow> srrip_store" where
  "srrip_write_entry sx w ip branch_target st =
     st\<lparr>srrip_btb := upd2 sx w
        (\<lambda>e. e\<lparr>ip_tag := ip, target := branch_target, always_taken := 1\<rparr>) (srrip_btb st)\<rparr>"

definition srrip_allocate :: "btb_config \<Rightarrow> u64 \<Rightarrow> u64 \<Rightarrow> srrip_store \<Rightarrow> srrip_store option" where
  "srrip_allocate c ip branch_target st =
     (let sx = srrip_btb_set_index c ip
      in map_option (\<lambda>(w, st). srrip_write_entry sx w ip branch_target st) (basic_btb_get_srrip_entry sx st))"

definition srrip_refresh_entry :: "nat \<Rightarrow> nat \<Rightarrow> bool \<Rightarrow> u64 \<Rightarrow> srrip_store \<Rightarrow> srrip_store" where
  "srrip_refresh_entry sx w taken branch_target st =
     (let touch = (\<lambda>e. if taken_only then (if taken then e\<lparr>rrpv := 0\<rparr> else e) else e\<lparr>rrpv := 0\<rparr>);
          put = (\<lambda>e. if \<not> taken then e\<lparr>always_taken := 0\<rparr> else e\<lparr>target := branch_target\<rparr>)
      in st\<lparr>srrip_btb := upd2 sx w (put \<circ> touch) (srrip_btb st)\<rparr>)"

definition srrip_direct_predict ::
  "btb_config \<Rightarrow> u64 \<Rightarrow> srrip_store \<Rightarrow> ((u64 \<times> u8) \<times> srrip_store) option" where
  "srrip_direct_predict c ip st =
     (case srrip_btb_find_entry c st ip of
        None \<Rightarrow> Some ((stream_buffer_predict ip (sbuf st), 1), st)
      | Some w \<Rightarrow> (let e = srrip_btb st ! srrip_btb_set_index c ip ! w in Some ((target e, always_taken e), st)))"

definition srrip_direct_update ::
  "btb_config \<Rightarrow> u64 \<Rightarrow> u64 \<Rightarrow> u8 \<Rightarrow> u8 \<Rightarrow> srrip_store \<Rightarrow> srrip_store option" where
  "srrip_direct_update c ip branch_target taken bt st =
     (case srrip_btb_find_entry c st ip of
        None \<Rightarrow>
          (let st = st\<lparr>sbuf := snd (stream_buffer_update ip (sbuf st))\<rparr>
           in if branch_target \<noteq> 0 \<and> taken \<noteq> 0 then srrip_allocate c ip branch_target st else Some st)
      | Some w \<Rightarrow> Some (srrip_refresh_entry (srrip_btb_set_index c ip) w (taken \<noteq> 0) branch_target st))"

definition srrip_direct_prefetch ::
  "btb_config \<Rightarrow> u64 \<Rightarrow> u64 \<Rightarrow> u8 \<Rightarrow> bool \<Rightarrow> bool \<Rightarrow> srrip_store \<Rightarrow> srrip_store option" where
  "srrip_direct_prefetch c ip branch_target bt taken to_stream_buffer st =
     (case srrip_btb_find_entry c st ip of
        None \<Rightarrow>
          if branch_target \<noteq> 0 \<and> taken then
            (if to_stream_buffer
             then map_option (\<lambda>sb. st\<lparr>sbuf := sb\<rparr>) (sb_prefetch ip branch_target (sbuf st))
             else srrip_allocate c ip branch_target st)
          else Some st
      | Some w \<Rightarrow> Some (srrip_refresh_entry (srrip_btb_set_index c ip) w taken branch_target st))"

definition srrip_btb_prediction ::
  "btb_config \<Rightarrow> u64 \<Rightarrow> u8 \<Rightarrow> srrip_store btb_cpu \<Rightarrow> ((u64 \<times> u8) \<times> srrip_store btb_cpu) option" where
  "srrip_btb_prediction c = btb_prediction_with (srrip_direct_predict c)"

definition srrip_update_btb ::
  "btb_config \<Rightarrow> u64 \<Rightarrow> u64 \<Rightarrow> u8 \<Rightarrow> u8 \<Rightarrow> srrip_store btb_cpu \<Rightarrow> srrip_store btb_cpu option" where
  "srrip_update_btb c = update_btb_with (srrip_direct_update c)"

definition srrip_prefetch_btb ::
  "btb_config \<Rightarrow> u64 \<Rightarrow> u64 \<Rightarrow> u8 \<Rightarrow> bool \<Rightarrow> bool \<Rightarrow> srrip_store btb_cpu \<Rightarrow> srrip_store btb_cpu option" where
  "srrip_prefetch_btb c = prefetch_btb_with (srrip_direct_prefetch c)"

section \<open>The contract\<close>

definition srrip_geometry :: "btb_config \<Rightarrow> srrip_entry geometry" where
  "srrip_geometry c = \<lparr>g_index = srrip_btb_set_index c, g_sets = unat (BASIC_BTB_SETS c),
     g_ways = BASIC_BTB_WAYS c, g_tag = ip_tag, g_tgt = target\<rparr>"

lemma srrip_geometry_simps [simp]:
  "g_index (srrip_geometry c) = srrip_btb_set_index c"
  "g_sets (srrip_geometry c) = unat (BASIC_BTB_SETS c)"
  "g_ways (srrip_geometry c) = BASIC_BTB_WAYS c"
  "g_tag (srrip_geometry c) = ip_tag" "g_tgt (srrip_geometry c) = target"
  by (simp_all add: srrip_geometry_def)

definition rrpvs_ok :: "srrip_entry list list \<Rightarrow> bool" where
  "rrpvs_ok b \<longleftrightarrow> (\<forall>row\<in>set b. \<forall>e\<in>set row. rrpv e \<le> SRRIP_DISTANT_INTERVAL)"

definition srrip_policy_ok :: "srrip_store \<Rightarrow> bool" where
  "srrip_policy_ok st \<longleftrightarrow> sb_ok (sbuf st) \<and> rrpvs_ok (srrip_btb st)"

definition srrip_ok :: "btb_config \<Rightarrow> srrip_store \<Rightarrow> bool" where
  "srrip_ok c st \<longleftrightarrow> arr_ok (srrip_geometry c) (srrip_btb st) \<and> srrip_policy_ok st"

definition srrip_lookup :: "btb_config \<Rightarrow> srrip_store \<Rightarrow> u64 \<Rightarrow> u64 option" where
  "srrip_lookup c st = arr_lookup (srrip_geometry c) (srrip_btb st)"

lemma srrip_index_bound: "config_ok c \<Longrightarrow> srrip_btb_set_index c ip < unat (BASIC_BTB_SETS c)"
  by (simp add: srrip_btb_set_index_def config_ok_def unat_and_pred)

lemma srrip_find_arr:
  "arr_ok (srrip_geometry c) (srrip_btb st) \<Longrightarrow>
   srrip_btb_find_entry c st ip = arr_find (srrip_geometry c) (srrip_btb st) ip"
  using arr_okD(2)[of "srrip_geometry c" "srrip_btb st" ip]
  by (simp add: srrip_btb_find_entry_def arr_find_def row_find_def)

lemma rrpvs_ok_row:
  "rrpvs_ok b \<Longrightarrow> \<forall>e\<in>set row. rrpv e \<le> SRRIP_DISTANT_INTERVAL \<Longrightarrow> rrpvs_ok (b[sx := row])"
  unfolding rrpvs_ok_def by (auto dest!: set_update_subset_insert[THEN subsetD])

lemma rrpvs_ok_upd2:
  assumes "rrpvs_ok b" "sx < length b" "w < length (b ! sx)" "rrpv (f (b ! sx ! w)) \<le> SRRIP_DISTANT_INTERVAL"
  shows "rrpvs_ok (upd2 sx w f b)"
  using assms unfolding rrpvs_ok_def upd2_def
  by (auto dest!: set_update_subset_insert[THEN subsetD])

text \<open>Choosing a victim changes no tag and no target.\<close>

lemma srrip_victim_step:
  assumes ok: "arr_ok (srrip_geometry c) (srrip_btb st)" and r: "rrpvs_ok (srrip_btb st)"
    and sx: "sx < length (srrip_btb st)"
  obtains w st' where "basic_btb_get_srrip_entry sx st = Some (w, st')" "w < BASIC_BTB_WAYS c"
    "arr_same (srrip_geometry c) (srrip_btb st) (srrip_btb st')" "rrpvs_ok (srrip_btb st')"
    "sbuf st' = sbuf st" "rrip_victim (map rrpv (srrip_btb st ! sx)) w"
    "rrpv (srrip_btb st' ! sx ! w) = SRRIP_LONG_INTERVAL"
proof -
  let ?row = "srrip_btb st ! sx"
  have len: "length ?row = BASIC_BTB_WAYS c" "0 < BASIC_BTB_WAYS c"
    using arr_okD'(1)[OF ok sx] arr_okD(4)[OF ok] by simp_all
  have "\<forall>r\<in>set (map rrpv ?row). r \<le> SRRIP_DISTANT_INTERVAL" using r sx by (auto simp: rrpvs_ok_def)
  moreover have "map rrpv ?row \<noteq> []" using len by auto
  ultimately obtain w rs where
    s: "rrip_search SRRIP_DISTANT_INTERVAL (map rrpv ?row) = Some (w, rs)" "rrip_victim (map rrpv ?row) w"
      "length rs = length ?row" "\<forall>j<length ?row. rs ! j \<le> SRRIP_DISTANT_INTERVAL"
    using rrip_search_result[of "map rrpv ?row" SRRIP_DISTANT_INTERVAL] by fastforce
  have w: "w < BASIC_BTB_WAYS c" using s(2) len by (simp add: rrip_victim_def)
  let ?row' = "(set_rrpvs ?row rs)[w := (set_rrpvs ?row rs ! w)\<lparr>rrpv := SRRIP_LONG_INTERVAL\<rparr>]"
  let ?st' = "st\<lparr>srrip_btb := (srrip_btb st)[sx := ?row']\<rparr>"
  have nth: "i < BASIC_BTB_WAYS c \<Longrightarrow> ?row' ! i =
      (?row ! i)\<lparr>rrpv := if i = w then SRRIP_LONG_INTERVAL else rs ! i\<rparr>" for i
    using s(3) len w by (simp add: set_rrpvs_def nth_list_update)
  have len': "length ?row' = BASIC_BTB_WAYS c" using s(3) len by (simp add: set_rrpvs_def)
  have "SRRIP_LONG_INTERVAL \<le> SRRIP_DISTANT_INTERVAL"
    by (simp add: SRRIP_LONG_INTERVAL_def SRRIP_DISTANT_INTERVAL_def)
  then have "\<forall>e\<in>set ?row'. rrpv e \<le> SRRIP_DISTANT_INTERVAL"
    using nth len' s(4) len by (auto simp: in_set_conv_nth)
  then have rr: "rrpvs_ok (srrip_btb ?st')"
    using rrpvs_ok_row[OF r] by simp
  have "arr_same (srrip_geometry c) (srrip_btb st) (srrip_btb ?st')"
    using arr_same_row[OF ok sx, of ?row'] nth len' by simp
  then show thesis
    using s(1,2) w rr sx len' nth[OF w]
    by (intro that[of w ?st']) (simp_all add: basic_btb_get_srrip_entry_def Let_def)
qed



lemma srrip_allocate_law:
  assumes ok: "arr_ok (srrip_geometry c) (srrip_btb st)" and p: "srrip_policy_ok st" and ip: "ip \<noteq> 0"
    and none: "srrip_btb_find_entry c st ip = None"
  obtains w st1 where "srrip_allocate c ip t st = Some (srrip_write_entry (srrip_btb_set_index c ip) w ip t st1)"
    "basic_btb_get_srrip_entry (srrip_btb_set_index c ip) st = Some (w, st1)"
    "srrip_policy_ok (srrip_write_entry (srrip_btb_set_index c ip) w ip t st1)"
    "arr_effect (srrip_geometry c) ip (Some t) (srrip_btb st)
       (srrip_btb (srrip_write_entry (srrip_btb_set_index c ip) w ip t st1))"
    "arr_lookup (srrip_geometry c) (srrip_btb (srrip_write_entry (srrip_btb_set_index c ip) w ip t st1)) ip = Some t"
    "rrip_victim (map rrpv (srrip_btb st ! srrip_btb_set_index c ip)) w"
    "rrpv (srrip_btb (srrip_write_entry (srrip_btb_set_index c ip) w ip t st1) ! srrip_btb_set_index c ip ! w)
       = SRRIP_LONG_INTERVAL"
proof -
  let ?s = "srrip_btb_set_index c ip"
  have sx: "?s < length (srrip_btb st)" using arr_okD(1)[OF ok, of ip] by simp
  have r: "rrpvs_ok (srrip_btb st)" "sb_ok (sbuf st)" using p by (simp_all add: srrip_policy_ok_def)
  obtain w st1 where v: "basic_btb_get_srrip_entry ?s st = Some (w, st1)" "w < BASIC_BTB_WAYS c"
    "arr_same (srrip_geometry c) (srrip_btb st) (srrip_btb st1)" "rrpvs_ok (srrip_btb st1)"
    "sbuf st1 = sbuf st" "rrip_victim (map rrpv (srrip_btb st ! ?s)) w"
    "rrpv (srrip_btb st1 ! ?s ! w) = SRRIP_LONG_INTERVAL"
    using srrip_victim_step[OF ok r(1) sx] by blast
  let ?f = "\<lambda>e. e\<lparr>ip_tag := ip, target := t, always_taken := 1\<rparr>"
  let ?st2 = "srrip_write_entry ?s w ip t st1"
  have b2: "srrip_btb ?st2 = upd2 ?s w ?f (srrip_btb st1)" "sbuf ?st2 = sbuf st1"
    by (simp_all add: srrip_write_entry_def)
  have ok1: "arr_ok (srrip_geometry c) (srrip_btb st1)" using v(3) by (simp add: arr_same_def)
  have len: "?s < length (srrip_btb st1)" "w < length (srrip_btb st1 ! ?s)"
    using arr_okD(1,2)[OF ok1, of ip] v(2) by simp_all
  have none1: "arr_find (srrip_geometry c) (srrip_btb st1) ip = None"
    using none v(3) ip srrip_find_arr[OF ok] by (simp add: arr_same_def)
  note i = arr_insert[OF ok1 ip none1, of w ?f t, simplified, OF v(2)]
  have "rrpvs_ok (srrip_btb ?st2)"
    using v(4,7) len unfolding b2
    by (intro rrpvs_ok_upd2) (auto simp: SRRIP_LONG_INTERVAL_def SRRIP_DISTANT_INTERVAL_def)
  then have "srrip_policy_ok ?st2" using r(2) v(5) b2 by (simp add: srrip_policy_ok_def)
  moreover have "srrip_allocate c ip t st = Some ?st2" using v(1) by (simp add: srrip_allocate_def Let_def)
  moreover have "rrpv (srrip_btb ?st2 ! ?s ! w) = SRRIP_LONG_INTERVAL"
    using v(7) len by (simp add: b2 row_upd2)
  ultimately show thesis
    using that[of w st1] v(1,6) i(1,2) arr_same_effect[OF v(3)] b2 by simp
qed

lemma srrip_refresh_law:
  assumes ok: "arr_ok (srrip_geometry c) (srrip_btb st)" and p: "srrip_policy_ok st" and ip: "ip \<noteq> 0"
    and some: "srrip_btb_find_entry c st ip = Some w"
    and st'_def: "st' = srrip_refresh_entry (srrip_btb_set_index c ip) w tk t st"
  shows "srrip_policy_ok st'"
    and "arr_effect (srrip_geometry c) ip (if tk then Some t else None) (srrip_btb st) (srrip_btb st')"
    and "tk \<Longrightarrow> arr_lookup (srrip_geometry c) (srrip_btb st') ip = Some t"
    and "rrpv (srrip_btb st' ! srrip_btb_set_index c ip ! w) = 0"
proof -
  let ?s = "srrip_btb_set_index c ip"
  let ?f = "\<lambda>e. if \<not> tk then e\<lparr>rrpv := 0, always_taken := 0\<rparr> else e\<lparr>rrpv := 0, target := t\<rparr>"
  have f: "arr_find (srrip_geometry c) (srrip_btb st) ip = Some w" using some srrip_find_arr[OF ok] by simp
  note fd = arr_findD[OF ok f]
  have len: "?s < length (srrip_btb st)" "w < length (srrip_btb st ! ?s)"
    using arr_okD(1,2)[OF ok, of ip] fd(1) by simp_all
  have b: "srrip_btb st' = upd2 ?s w ?f (srrip_btb st)" "sbuf st' = sbuf st"
    by (simp_all add: st'_def srrip_refresh_entry_def taken_only_def Let_def upd2_def)
  have "rrpvs_ok (upd2 ?s w ?f (srrip_btb st))"
    using p len by (intro rrpvs_ok_upd2) (auto simp: srrip_policy_ok_def)
  then show "srrip_policy_ok st'" using p b by (simp add: srrip_policy_ok_def)
  note w = arr_write[OF ok ip f, of ?f "if tk then Some t else None", simplified]
  show "arr_effect (srrip_geometry c) ip (if tk then Some t else None) (srrip_btb st) (srrip_btb st')"
    "tk \<Longrightarrow> arr_lookup (srrip_geometry c) (srrip_btb st') ip = Some t"
    using w fd(2) b by simp_all
  show "rrpv (srrip_btb st' ! ?s ! w) = 0" using len by (simp add: b row_upd2)
qed

lemma srrip_find_cong: "srrip_btb st' = srrip_btb st \<Longrightarrow>
  srrip_btb_find_entry c st' ip = srrip_btb_find_entry c st ip"
  by (simp add: srrip_btb_find_entry_def)

lemma srrip_predict_law:
  assumes ok: "arr_ok (srrip_geometry c) (srrip_btb st)"
  shows "\<exists>r. srrip_direct_predict c ip st = Some (r, st) \<and>
    (\<forall>t. arr_lookup (srrip_geometry c) (srrip_btb st) ip = Some t \<longrightarrow> fst r = t)"
  using srrip_find_arr[OF ok, of ip] arr_findD(3)[OF ok, of ip] arr_lookup_None[of "srrip_geometry c" "srrip_btb st" ip]
  by (cases "arr_find (srrip_geometry c) (srrip_btb st) ip") (auto simp: srrip_direct_predict_def Let_def)

lemma srrip_update_law:
  assumes ok: "arr_ok (srrip_geometry c) (srrip_btb st)" and p: "srrip_policy_ok st" and ip: "ip \<noteq> 0"
  shows "\<exists>st'. srrip_direct_update c ip t tk bt st = Some st' \<and> srrip_policy_ok st' \<and>
    arr_effect (srrip_geometry c) ip (if tk \<noteq> 0 then Some t else None) (srrip_btb st) (srrip_btb st') \<and>
    (t \<noteq> 0 \<and> tk \<noteq> 0 \<longrightarrow> arr_lookup (srrip_geometry c) (srrip_btb st') ip = Some t)"
proof (cases "srrip_btb_find_entry c st ip")
  case (Some w)
  with srrip_refresh_law[OF ok p ip Some refl, of "tk \<noteq> 0" t] show ?thesis
    by (simp add: srrip_direct_update_def)
next
  case None
  let ?st = "st\<lparr>sbuf := snd (stream_buffer_update ip (sbuf st))\<rparr>"
  have ok1: "arr_ok (srrip_geometry c) (srrip_btb ?st)" using ok by simp
  have p1: "srrip_policy_ok ?st" using p by (auto simp: srrip_policy_ok_def)
  have none: "srrip_btb_find_entry c ?st ip = None" using None srrip_find_cong[of ?st st] by simp
  have refl: "arr_effect (srrip_geometry c) ip x (srrip_btb st) (srrip_btb st)" for x
    using None ok srrip_find_arr[OF ok] by (auto intro: arr_effect_refl)
  show ?thesis
    by (rule srrip_allocate_law[OF ok1 p1 ip none, of t])
      (use None p1 refl in \<open>auto simp: srrip_direct_update_def Let_def\<close>)
qed

lemma srrip_prefetch_law:
  assumes ok: "arr_ok (srrip_geometry c) (srrip_btb st)" and p: "srrip_policy_ok st" and ip: "ip \<noteq> 0"
  shows "\<exists>st'. srrip_direct_prefetch c ip t bt tk to_sb st = Some st' \<and> srrip_policy_ok st' \<and>
    arr_effect (srrip_geometry c) ip (if tk then Some t else None) (srrip_btb st) (srrip_btb st')"
proof (cases "srrip_btb_find_entry c st ip")
  case (Some w)
  with srrip_refresh_law[OF ok p ip Some refl, of tk t] show ?thesis by (simp add: srrip_direct_prefetch_def)
next
  case None
  have refl: "arr_effect (srrip_geometry c) ip x (srrip_btb st) (srrip_btb st)" for x
    using None ok srrip_find_arr[OF ok] by (auto intro: arr_effect_refl)
  have sb: "sb_ok (sbuf st)" using p by (simp add: srrip_policy_ok_def)
  show ?thesis
    by (rule srrip_allocate_law[OF ok p ip None, of t])
      (use None p refl sb_prefetch_total[OF sb, of t ip] in
        \<open>auto simp: srrip_direct_prefetch_def srrip_policy_ok_def\<close>)
qed

interpretation srrip: allocating_array_btb "srrip_geometry c" srrip_btb srrip_policy_ok
  "srrip_direct_predict c" "srrip_direct_update c" "srrip_direct_prefetch c" for c
proof (unfold_locales, goal_cases)
  case (1 a ip) then show ?case using srrip_predict_law by (fastforce intro: arr_same_refl)
next
  case (2 a ip t tk bt) then show ?case using srrip_update_law[of c a ip t tk bt] by blast
next
  case (3 a ip t bt p sb) then show ?case using srrip_prefetch_law by blast
next
  case (4 a ip t tk bt a') then show ?case using srrip_update_law[of c a ip t tk bt] by auto
qed

lemma srrip_init_ok:
  assumes "config_ok c"
  shows "srrip_ok c (store (srrip_initialize_btb c))" "fe_ok (front (srrip_initialize_btb c))"
    "k \<noteq> 0 \<Longrightarrow> srrip_lookup c (store (srrip_initialize_btb c)) k = None"
proof -
  note r = arr_ok_replicate[of "srrip_geometry c" empty_srrip_entry]
  have "0 < BASIC_BTB_WAYS c" using assms by (simp add: config_ok_def)
  then show "srrip_ok c (store (srrip_initialize_btb c))"
    "k \<noteq> 0 \<Longrightarrow> srrip_lookup c (store (srrip_initialize_btb c)) k = None"
    using r srrip_index_bound[OF assms]
    by (auto simp: srrip_ok_def srrip_lookup_def srrip_policy_ok_def rrpvs_ok_def srrip_initialize_btb_def
        empty_srrip_entry_def)
qed (simp add: srrip_initialize_btb_def)

section \<open>Properties\<close>

definition srrip_run :: "btb_config \<Rightarrow> btb_event list \<Rightarrow> srrip_store btb_cpu \<Rightarrow> srrip_store btb_cpu option" where
  "srrip_run c = btb_run (srrip_btb_prediction c) (srrip_update_btb c) (srrip_prefetch_btb c)"

lemmas srrip_handlers = srrip_btb_prediction_def srrip_update_btb_def srrip_prefetch_btb_def

text \<open>C27: on any sequence of handler calls from initialize_btb the SRRIP BTB always finds a victim
  (its search loop returns), keeps its sets well-formed and every RRPV at most 3, and predicts,
  for a branch it holds, the target of that branch's last taken reference.\<close>

theorem srrip_btb_run_correct:
  assumes "config_ok c" and "\<forall>e\<in>set es. event_ip e \<noteq> 0"
  shows "\<exists>s. srrip_run c es (srrip_initialize_btb c) = Some s \<and> srrip_ok c (store s) \<and> fe_ok (front s) \<and>
    (\<forall>ip bt t. ip \<noteq> 0 \<longrightarrow> is_direct bt \<longrightarrow> srrip_lookup c (store s) ip = Some t \<longrightarrow>
      ideal_run es Map.empty ip = Some t \<and>
      (\<exists>taken s'. srrip_btb_prediction c ip bt s = Some ((t, taken), s')))"
  using srrip.run_correct[where c = c and bound = "Suc (length es)" and es = es and s = "srrip_initialize_btb c"] srrip_init_ok[OF assms(1)] assms(2)
  by (auto simp: srrip_run_def srrip_handlers srrip_ok_def srrip_lookup_def)

lemma srrip_btb_run_correct_witness:
  "\<exists>s. srrip_run default_config [Update 0x400100 0x400200 1 BRANCH_CONDITIONAL, Predict 0x400100 BRANCH_CONDITIONAL]
      (srrip_initialize_btb default_config) = Some s \<and> srrip_ok default_config (store s)"
  using srrip_btb_run_correct[of default_config
      "[Update 0x400100 0x400200 1 BRANCH_CONDITIONAL, Predict 0x400100 BRANCH_CONDITIONAL]"]
  by auto



end
