(* ===== verification/MapSets.thy ===== *)
theory MapSets
  imports BtbInterface
begin

text \<open>
  BTBs whose sets are hash maps from branch to entry (OPT, Thermometer): each set is the list
  of its pairs in iteration order, no key twice and no more pairs than ways. The facts here are shared by
  their interpretations of \<open>direct_btb\<close>.
\<close>

definition sets_ok :: "nat \<Rightarrow> nat \<Rightarrow> (u64 \<times> 'e) list list \<Rightarrow> bool" where
  "sets_ok n ways cur \<longleftrightarrow> length cur = n \<and>
     (\<forall>r<n. distinct (map fst (cur ! r)) \<and> length (cur ! r) \<le> ways)"

definition set_find :: "(u64 \<Rightarrow> nat) \<Rightarrow> (u64 \<times> 'e) list list \<Rightarrow> u64 \<Rightarrow> 'e option" where
  "set_find idx cur k = map_of (cur ! idx k) k"

text \<open>
  \<open>emplace\<close> inserts a pair with a new key somewhere in the iteration order and may move the
  others (a rehash); nothing else is known of it.
\<close>

definition emplace_law :: "(u64 \<times> 'e \<Rightarrow> (u64 \<times> 'e) list \<Rightarrow> (u64 \<times> 'e) list) \<Rightarrow> bool" where
  "emplace_law emplace \<longleftrightarrow> (\<forall>p xs. mset (emplace p xs) = add_mset p (mset xs))"

lemma emplace_law_Cons [simp]: "emplace_law (#)"
  by (simp add: emplace_law_def)

lemma emplaceD:
  assumes "emplace_law emplace" "distinct (map fst xs)" "map_of xs k = None"
  shows "distinct (map fst (emplace (k, v) xs))" "length (emplace (k, v) xs) = Suc (length xs)"
    "map_of (emplace (k, v) xs) = (map_of xs)(k \<mapsto> v)"
    "set (emplace (k, v) xs) = insert (k, v) (set xs)"
  using emplace_facts[of "emplace (k, v) xs" k v xs] assms
  by (auto simp: emplace_law_def map_of_eq_None_iff)

lemma sets_ok_update:
  "sets_ok n ways cur \<Longrightarrow> distinct (map fst row) \<Longrightarrow> length row \<le> ways \<Longrightarrow> sets_ok n ways (cur[r := row])"
  by (simp add: sets_ok_def nth_update_if)

lemma sets_okD: "sets_ok n ways cur \<Longrightarrow> r < n \<Longrightarrow> distinct (map fst (cur ! r)) \<and> length (cur ! r) \<le> ways"
  "sets_ok n ways cur \<Longrightarrow> length cur = n"
  by (simp_all add: sets_ok_def)

lemma set_find_update:
  "r < length cur \<Longrightarrow> set_find idx (cur[r := row]) k = (if idx k = r then map_of row k else set_find idx cur k)"
  by (simp add: set_find_def nth_list_update)

lemma sets_ok_set_value:
  "sets_ok n ways cur \<Longrightarrow> r < n \<Longrightarrow> sets_ok n ways (cur[r := set_value k f (cur ! r)])"
  by (rule sets_ok_update) (auto simp: sets_ok_def)

lemma set_find_set_value:
  "idx k < length cur \<Longrightarrow> set_find idx (cur[idx k := set_value k f (cur ! idx k)]) j =
     (if j = k then map_option f (set_find idx cur k) else set_find idx cur j)"
  by (auto simp: set_find_def nth_list_update)

lemma sets_ok_replicate: "sets_ok n ways (replicate n [])"
  by (simp add: sets_ok_def)

lemma set_find_replicate: "idx k < n \<Longrightarrow> set_find idx (replicate n []) k = None"
  by (simp add: set_find_def)

end
