(* ===== verification/OptBtb.thy ===== *)
theory OptBtb
  imports MapSets Statistics
begin

text \<open>
  The optimal BTB of \<^verbatim>\<open>btb/opt_btb/opt_btb.cc\<close>, the oracle that Thermometer is trained on: it
  reads the whole future from a record file, given here as its list of (ip, counter) pairs,
  and evicts the branch whose next use is furthest away. The sets are hash maps; where a new
  pair goes in the iteration order is the parameter \<open>emplace\<close>. The value of the local
  \<^verbatim>\<open>counter\<close> when the record is empty is indeterminate in C++: the parameter \<open>uninit\<close>.
\<close>

section \<open>State\<close>

record opt_entry =
  ip_tag :: u64
  target :: u64
  always_taken :: u8
  lru :: u64

definition empty_opt_entry :: opt_entry where
  "empty_opt_entry = \<lparr>ip_tag = 0, target = 0, always_taken = 0, lru = 0\<rparr>"

record opt_store =
  future_accesses :: "(u64 \<Rightarrow> u64 list) list"
  future_prefetches :: "(u64 \<Rightarrow> u64 list) list"
  current_btb :: "(u64 \<times> opt_entry) list list"
  total_sets :: u64
  total_ways :: u64
  last_timestamp :: u64
  opt_timestamp :: u64
  coverage_accuracy :: coverage
  sbuf :: stream_buffer
  opt_access_record :: access_record

section \<open>Operations\<close>

definition opt_find_set_index :: "u64 \<Rightarrow> u64 \<Rightarrow> nat" where
  "opt_find_set_index sets ip = unat (drop_bit 2 ip mod sets)"

definition add_to_future :: "u64 \<Rightarrow> u64 \<Rightarrow> u64 \<Rightarrow> (u64 \<Rightarrow> u64 list) list \<Rightarrow> (u64 \<Rightarrow> u64 list) list" where
  "add_to_future sets ip counter future =
     (let i = opt_find_set_index sets ip; m = future ! i
      in future[i := m(ip := set_insert counter (m ip))])"

definition opt_read_line ::
  "(u64 \<rightharpoonup> (u64 \<times> u64) list) option \<Rightarrow> u64 \<times> u64 \<Rightarrow> opt_store \<Rightarrow> opt_store" where
  "opt_read_line twig line st =
     (let (ip, counter) = line;
          st = st\<lparr>future_accesses := add_to_future (total_sets st) ip counter (future_accesses st)\<rparr>
      in case twig of
           None \<Rightarrow> st
         | Some m \<Rightarrow>
             (case m ip of
                None \<Rightarrow> st
              | Some as \<Rightarrow> st\<lparr>future_prefetches :=
                  foldl (\<lambda>f a. add_to_future (total_sets st) (fst a) counter f) (future_prefetches st) as\<rparr>))"

definition opt_read_record ::
  "u64 \<Rightarrow> (u64 \<times> u64) list \<Rightarrow> (u64 \<rightharpoonup> (u64 \<times> u64) list) option \<Rightarrow> opt_store \<Rightarrow> opt_store" where
  "opt_read_record uninit demand twig st =
     (let st = foldl (\<lambda>st line. opt_read_line twig line st) st demand
      in st\<lparr>last_timestamp := (if demand = [] then uninit else snd (last demand))\<rparr>)"

definition opt_initialize_btb ::
  "btb_config \<Rightarrow> u64 \<Rightarrow> (u64 \<times> u64) list \<Rightarrow> (u64 \<rightharpoonup> (u64 \<times> u64) list) option \<Rightarrow> opt_store btb_cpu" where
  "opt_initialize_btb c uninit demand twig =
     (let sets = BASIC_BTB_SETS c;
          st = \<lparr>future_accesses = replicate (unat sets) (\<lambda>_. []),
                future_prefetches = replicate (unat sets) (\<lambda>_. []),
                current_btb = replicate (unat sets) [],
                total_sets = sets, total_ways = of_nat (BASIC_BTB_WAYS c),
                last_timestamp = 0, opt_timestamp = 0,
                coverage_accuracy = cov_init demand sets (of_nat (BASIC_BTB_WAYS c)),
                sbuf = new_stream_buffer 32,
                opt_access_record = new_access_record NORMAL\<rparr>
      in \<lparr>front = init_frontend, store = opt_read_record uninit demand twig st\<rparr>)"

definition opt_find_btb_entry :: "u64 \<Rightarrow> opt_store \<Rightarrow> opt_entry option" where
  "opt_find_btb_entry ip st = map_of (current_btb st ! opt_find_set_index (total_sets st) ip) ip"

text \<open>
  The two scans of \<^verbatim>\<open>insert_to_btb\<close> over a full set, at time \<open>t\<close>, with the future demand and
  prefetch times \<open>fa\<close>, \<open>fp\<close> of the set.
\<close>

definition prefetch_scan_step ::
  "(u64 \<Rightarrow> u64 list) \<Rightarrow> (u64 \<Rightarrow> u64 list) \<Rightarrow> u64 \<Rightarrow> (u64 \<times> u64) option \<Rightarrow> u64 \<Rightarrow> (u64 \<times> u64) option" where
  "prefetch_scan_step fa fp t cand k =
     (case upper_bound t (fp k) of
        None \<Rightarrow> cand
      | Some p \<Rightarrow>
          (if (case upper_bound t (fa k) of Some d \<Rightarrow> p > d | None \<Rightarrow> False) then cand
           else (case cand of
                   Some (f, _) \<Rightarrow> if f < p then Some (p, k) else cand
                 | None \<Rightarrow> Some (p, k))))"

definition demand_scan_step :: "(u64 \<Rightarrow> u64 list) \<Rightarrow> u64 \<Rightarrow> u64 \<Rightarrow> u64 \<times> u64 \<Rightarrow> u64 \<Rightarrow> u64 \<times> u64" where
  "demand_scan_step fa t last_time cand k =
     (case upper_bound t (fa k) of
        None \<Rightarrow> (last_time + 1, k)
      | Some n \<Rightarrow> if fst cand < n then (n, k) else cand)"

definition opt_evict :: "nat \<Rightarrow> u64 \<Rightarrow> u64 \<Rightarrow> opt_store \<Rightarrow> opt_store option" where
  "opt_evict sx victim time st =
     (let st = st\<lparr>current_btb := (current_btb st)[sx := erase_key victim (current_btb st ! sx)]\<rparr>
      in case rec_evict victim (opt_access_record st) of
           None \<Rightarrow> None
         | Some r \<Rightarrow> Some (st\<lparr>opt_access_record := r,
                     coverage_accuracy := snd (get_reuse_distance victim time (coverage_accuracy st))\<rparr>))"

definition opt_insert_to_btb ::
  "(u64 \<times> opt_entry \<Rightarrow> (u64 \<times> opt_entry) list \<Rightarrow> (u64 \<times> opt_entry) list) \<Rightarrow>
   u64 \<Rightarrow> opt_store \<Rightarrow> (bool \<times> opt_store) option"
where
  "opt_insert_to_btb emplace ip st =
     (let sx = opt_find_set_index (total_sets st) ip;
          time = opt_timestamp st - 1;
          fa = future_accesses st ! sx;
          fp = future_prefetches st ! sx;
          keys = map fst (current_btb st ! sx);
          bypass = Some (False, st\<lparr>coverage_accuracy :=
                     snd (get_reuse_distance ip time (coverage_accuracy st))\<rparr>);
          add = (\<lambda>st. (True, st\<lparr>current_btb :=
                   (current_btb st)[sx := emplace (ip, empty_opt_entry) (current_btb st ! sx)]\<rparr>))
      in if of_nat (length keys) = total_ways st then
           (case upper_bound time (fa ip) of
              None \<Rightarrow> bypass
            | Some current \<Rightarrow>
                (case foldl (prefetch_scan_step fa fp time) None keys of
                   Some (_, victim) \<Rightarrow> map_option add (opt_evict sx victim time st)
                 | None \<Rightarrow>
                     (let victim = snd (foldl (demand_scan_step fa time (last_timestamp st)) (current, ip) keys)
                      in if victim = ip then bypass else map_option add (opt_evict sx victim time st))))
         else Some (add st))"

definition opt_set_entry :: "u64 \<Rightarrow> (opt_entry \<Rightarrow> opt_entry) \<Rightarrow> opt_store \<Rightarrow> opt_store" where
  "opt_set_entry ip f st =
     (let sx = opt_find_set_index (total_sets st) ip
      in st\<lparr>current_btb := (current_btb st)[sx := set_value ip f (current_btb st ! sx)]\<rparr>)"

text \<open>A miss on a taken branch: ask for a place, record the access, fill the entry.\<close>

definition opt_fill ::
  "(u64 \<times> opt_entry \<Rightarrow> (u64 \<times> opt_entry) list \<Rightarrow> (u64 \<times> opt_entry) list) \<Rightarrow>
   u64 \<Rightarrow> u64 \<Rightarrow> u8 \<Rightarrow> opt_store \<Rightarrow> opt_store option" where
  "opt_fill emplace ip branch_target bt st =
     (case opt_insert_to_btb emplace ip st of
        None \<Rightarrow> None
      | Some (judge, st) \<Rightarrow>
          (let st = st\<lparr>opt_access_record := rec_access ip branch_target bt False judge (opt_access_record st)\<rparr>
           in if judge
              then Some (opt_set_entry ip
                     (\<lambda>e. e\<lparr>ip_tag := ip, target := branch_target, always_taken := 1\<rparr>) st)
              else Some st))"

definition opt_refresh :: "u64 \<Rightarrow> bool \<Rightarrow> u64 \<Rightarrow> u8 \<Rightarrow> opt_store \<Rightarrow> opt_store" where
  "opt_refresh ip taken branch_target bt st =
     (if \<not> taken then opt_set_entry ip (\<lambda>e. e\<lparr>always_taken := 0\<rparr>) st
      else (let st = opt_set_entry ip (\<lambda>e. e\<lparr>target := branch_target\<rparr>) st
            in st\<lparr>opt_access_record := rec_access ip branch_target bt True False (opt_access_record st)\<rparr>))"

definition opt_direct_predict :: "u64 \<Rightarrow> opt_store \<Rightarrow> ((u64 \<times> u8) \<times> opt_store) option" where
  "opt_direct_predict ip st =
     (let st = st\<lparr>opt_timestamp := opt_timestamp st + 1\<rparr>
      in case opt_find_btb_entry ip st of
           None \<Rightarrow> Some ((stream_buffer_predict ip (sbuf st), 1), st)
         | Some e \<Rightarrow> Some ((target e, always_taken e), st))"

definition opt_direct_update ::
  "(u64 \<times> opt_entry \<Rightarrow> (u64 \<times> opt_entry) list \<Rightarrow> (u64 \<times> opt_entry) list) \<Rightarrow>
   u64 \<Rightarrow> u64 \<Rightarrow> u8 \<Rightarrow> u8 \<Rightarrow> opt_store \<Rightarrow> opt_store option" where
  "opt_direct_update emplace ip branch_target taken bt st =
     (case opt_find_btb_entry ip st of
        None \<Rightarrow>
          (let st = st\<lparr>sbuf := snd (stream_buffer_update ip (sbuf st))\<rparr>
           in if branch_target \<noteq> 0 \<and> taken \<noteq> 0 then opt_fill emplace ip branch_target bt st else Some st)
      | Some _ \<Rightarrow> Some (opt_refresh ip (taken \<noteq> 0) branch_target bt st))"

definition opt_direct_prefetch ::
  "(u64 \<times> opt_entry \<Rightarrow> (u64 \<times> opt_entry) list \<Rightarrow> (u64 \<times> opt_entry) list) \<Rightarrow>
   u64 \<Rightarrow> u64 \<Rightarrow> u8 \<Rightarrow> bool \<Rightarrow> bool \<Rightarrow> opt_store \<Rightarrow> opt_store option" where
  "opt_direct_prefetch emplace ip branch_target bt taken to_stream_buffer st =
     (case opt_find_btb_entry ip st of
        None \<Rightarrow>
          if branch_target \<noteq> 0 \<and> taken then
            (if to_stream_buffer
             then map_option (\<lambda>sb. st\<lparr>sbuf := sb\<rparr>) (sb_prefetch ip branch_target (sbuf st))
             else opt_fill emplace ip branch_target bt st)
          else Some st
      | Some _ \<Rightarrow> Some (opt_refresh ip taken branch_target bt st))"

text \<open>The prefetch handler marks its access record before it looks at the branch type.\<close>

definition opt_mark_predecoder :: "opt_store \<Rightarrow> opt_store" where
  "opt_mark_predecoder st = st\<lparr>opt_access_record := (opt_access_record st)\<lparr>btb_type := PREDECODER\<rparr>\<rparr>"

definition opt_btb_prediction ::
  "u64 \<Rightarrow> u8 \<Rightarrow> opt_store btb_cpu \<Rightarrow> ((u64 \<times> u8) \<times> opt_store btb_cpu) option" where
  "opt_btb_prediction = btb_prediction_with opt_direct_predict"

definition opt_update_btb ::
  "(u64 \<times> opt_entry \<Rightarrow> (u64 \<times> opt_entry) list \<Rightarrow> (u64 \<times> opt_entry) list) \<Rightarrow>
   u64 \<Rightarrow> u64 \<Rightarrow> u8 \<Rightarrow> u8 \<Rightarrow> opt_store btb_cpu \<Rightarrow> opt_store btb_cpu option" where
  "opt_update_btb emplace = update_btb_with (opt_direct_update emplace)"

definition opt_prefetch_btb ::
  "(u64 \<times> opt_entry \<Rightarrow> (u64 \<times> opt_entry) list \<Rightarrow> (u64 \<times> opt_entry) list) \<Rightarrow>
   u64 \<Rightarrow> u64 \<Rightarrow> u8 \<Rightarrow> bool \<Rightarrow> bool \<Rightarrow> opt_store btb_cpu \<Rightarrow> opt_store btb_cpu option" where
  "opt_prefetch_btb emplace = prefetch_btb_entering opt_mark_predecoder (opt_direct_prefetch emplace)"

section \<open>Invariant\<close>

definition opt_keys :: "nat \<Rightarrow> opt_store \<Rightarrow> u64 set" where
  "opt_keys sx st = fst ` set (current_btb st ! sx)"

text \<open>\<open>st0\<close> is the store that initialize_btb leaves: its future never changes.\<close>

definition opt_base :: "btb_config \<Rightarrow> opt_store \<Rightarrow> opt_store \<Rightarrow> bool" where
  "opt_base c st0 st \<longleftrightarrow> config_ok c \<and> total_sets st = BASIC_BTB_SETS c \<and>
     total_ways st = of_nat (BASIC_BTB_WAYS c) \<and>
     sets_ok (unat (BASIC_BTB_SETS c)) (BASIC_BTB_WAYS c) (current_btb st) \<and> sb_ok (sbuf st) \<and>
     future_accesses st = future_accesses st0 \<and> future_prefetches st = future_prefetches st0 \<and>
     last_timestamp st = last_timestamp st0 \<and>
     (\<forall>r<unat (BASIC_BTB_SETS c). \<forall>k\<in>opt_keys r st. opt_find_set_index (BASIC_BTB_SETS c) k = r)"

definition opt_inv :: "btb_config \<Rightarrow> opt_store \<Rightarrow> opt_store \<Rightarrow> bool" where
  "opt_inv c st0 st \<longleftrightarrow> opt_base c st0 st \<and>
     (\<forall>r<unat (BASIC_BTB_SETS c). opt_keys r st \<subseteq> dom (branch_record (opt_access_record st)))"

definition opt_lookup :: "opt_store \<Rightarrow> u64 \<Rightarrow> u64 option" where
  "opt_lookup st ip = map_option target (opt_find_btb_entry ip st)"

lemma opt_find_set: "opt_find_btb_entry ip st = set_find (opt_find_set_index (total_sets st)) (current_btb st) ip"
  by (simp add: opt_find_btb_entry_def set_find_def)

lemma opt_index_bound: "config_ok c \<Longrightarrow> opt_find_set_index (BASIC_BTB_SETS c) ip < unat (BASIC_BTB_SETS c)"
  by (simp add: opt_find_set_index_def config_ok_def unat_mod_bound)

lemma opt_baseD:
  assumes "opt_base c st0 st"
  shows "opt_find_set_index (total_sets st) ip < length (current_btb st)"
    "opt_find_set_index (total_sets st) ip < unat (BASIC_BTB_SETS c)"
    "distinct (map fst (current_btb st ! opt_find_set_index (total_sets st) ip))"
    "length (current_btb st ! opt_find_set_index (total_sets st) ip) \<le> BASIC_BTB_WAYS c"
    "length (current_btb st) = unat (BASIC_BTB_SETS c)"
  using assms opt_index_bound[of c ip] by (auto simp: opt_base_def sets_ok_def)

lemma ways_inj: "n \<le> BASIC_BTB_WAYS c \<Longrightarrow> (of_nat n = (of_nat (BASIC_BTB_WAYS c) :: u64)) \<longleftrightarrow> n = BASIC_BTB_WAYS c"
proof -
  have "BASIC_BTB_WAYS c < 256" using unsigned_less[of "total_btb_ways c", where 'a = nat]
    by (simp add: BASIC_BTB_WAYS_def)
  then show "n \<le> BASIC_BTB_WAYS c \<Longrightarrow> (of_nat n = (of_nat (BASIC_BTB_WAYS c) :: u64)) \<longleftrightarrow> n = BASIC_BTB_WAYS c"
    by (auto simp: word_of_nat_eq_iff take_bit_eq_mod)
qed

lemma prefetch_scan_victim:
  "foldl (prefetch_scan_step fa fp t) cand ks = Some (p, v) \<Longrightarrow> v \<in> set ks \<or> cand = Some (p, v)"
  by (induction ks arbitrary: cand)
    (auto simp: prefetch_scan_step_def split: option.splits if_splits prod.splits)

lemma prefetch_scan_none:
  "(\<And>k. k \<in> set ks \<Longrightarrow> fp k = []) \<Longrightarrow> foldl (prefetch_scan_step fa fp t) None ks = None"
  by (induction ks) (auto simp: prefetch_scan_step_def)

lemma demand_scan_victim:
  "snd (foldl (demand_scan_step fa t l) cand ks) \<in> insert (snd cand) (set ks)"
proof (induction ks arbitrary: cand)
  case (Cons k ks)
  have "snd (demand_scan_step fa t l cand k) \<in> {k, snd cand}"
    by (auto simp: demand_scan_step_def split: option.splits)
  with Cons.IH[of "demand_scan_step fa t l cand k"] show ?case by auto
qed simp

lemma opt_evict_total:
  assumes "opt_inv c st0 st" "sx = opt_find_set_index (total_sets st) ip" "v \<in> opt_keys sx st"
  obtains st' where "opt_evict sx v t st = Some st'" "opt_inv c st0 st'"
    "current_btb st' = (current_btb st)[sx := erase_key v (current_btb st ! sx)]"
    "length (current_btb st' ! sx) < BASIC_BTB_WAYS c" "total_sets st' = total_sets st"
    "dom (branch_record (opt_access_record st')) = dom (branch_record (opt_access_record st))"
proof -
  have b: "opt_base c st0 st" using assms(1) by (simp add: opt_inv_def)
  note d = opt_baseD(1-4)[OF b, of ip, folded assms(2)] opt_baseD(5)[OF b]
  have "v \<in> dom (branch_record (opt_access_record st))"
    using assms(1,3) d(2) by (auto simp: opt_inv_def)
  then obtain r where r: "rec_evict v (opt_access_record st) = Some r" using rec_evict_total by blast
  let ?st' = "st\<lparr>current_btb := (current_btb st)[sx := erase_key v (current_btb st ! sx)],
      opt_access_record := r, coverage_accuracy := snd (get_reuse_distance v t (coverage_accuracy st))\<rparr>"
  have dom: "dom (branch_record r) = dom (branch_record (opt_access_record st))"
    using dom_rec_evict[OF r] .
  have sets: "sets_ok (unat (BASIC_BTB_SETS c)) (BASIC_BTB_WAYS c) (current_btb ?st')"
    using b d length_erase_key_le[of v "current_btb st ! sx"]
    by (auto simp: opt_base_def intro!: sets_ok_update)
  have keys: "opt_keys q ?st' \<subseteq> opt_keys q st" if "q < unat (BASIC_BTB_SETS c)" for q
    using d(5) that by (auto simp: opt_keys_def nth_update_if)
  have "opt_base c st0 ?st'" using b sets keys unfolding opt_base_def by auto
  moreover have "\<forall>q<unat (BASIC_BTB_SETS c). opt_keys q ?st' \<subseteq> dom (branch_record r)"
    using keys assms(1) dom unfolding opt_inv_def by blast
  ultimately have "opt_inv c st0 ?st'" by (simp add: opt_inv_def)
  moreover have "length (current_btb ?st' ! sx) < BASIC_BTB_WAYS c"
    using length_erase_key[OF d(3), of v] d assms(3) by (simp add: opt_keys_def)
  ultimately show thesis using r dom by (intro that[of ?st']) (simp_all add: opt_evict_def Let_def)
qed

text \<open>The effect of asking for a place: one more branch, at most one dropped, capacity kept.\<close>

definition opt_added :: "btb_config \<Rightarrow> opt_store \<Rightarrow> u64 \<Rightarrow> opt_store \<Rightarrow> opt_store \<Rightarrow> bool" where
  "opt_added c st0 ip st st' \<longleftrightarrow> opt_base c st0 st' \<and>
     opt_find_btb_entry ip st' = Some empty_opt_entry \<and>
     (\<forall>k e. k \<noteq> ip \<longrightarrow> opt_find_btb_entry k st' = Some e \<longrightarrow> opt_find_btb_entry k st = Some e) \<and>
     (\<forall>r<unat (BASIC_BTB_SETS c). opt_keys r st' \<subseteq> insert ip (dom (branch_record (opt_access_record st'))))"

lemma opt_add_effect:
  assumes e: "emplace_law emplace" and inv: "opt_inv c st0 st" and sx: "sx = opt_find_set_index (total_sets st) ip"
    and fresh: "ip \<notin> opt_keys sx st" and room: "length (current_btb st ! sx) < BASIC_BTB_WAYS c"
    and st': "st' = st\<lparr>current_btb := (current_btb st)[sx := emplace (ip, empty_opt_entry) (current_btb st ! sx)]\<rparr>"
  shows "opt_added c st0 ip st st'" "opt_keys sx st' = insert ip (opt_keys sx st)"
proof -
  have b: "opt_base c st0 st" using inv by (simp add: opt_inv_def)
  note d = opt_baseD(1-4)[OF b, of ip, folded sx] opt_baseD(5)[OF b]
  have "map_of (current_btb st ! sx) ip = None" using fresh by (simp add: opt_keys_def map_of_eq_None_iff)
  note em = emplaceD[OF e d(3) this, of empty_opt_entry]
  have "sets_ok (unat (BASIC_BTB_SETS c)) (BASIC_BTB_WAYS c) (current_btb st')"
    using b em room st' by (auto simp: opt_base_def intro!: sets_ok_update)
  moreover have keys: "opt_keys r st' \<subseteq> (if r = sx then insert ip (opt_keys r st) else opt_keys r st)"
    if "r < unat (BASIC_BTB_SETS c)" for r
    using that st' em(4) d(5) by (auto simp: opt_keys_def nth_update_if)
  moreover have "opt_find_set_index (BASIC_BTB_SETS c) ip = sx" using b sx by (simp add: opt_base_def)
  moreover have "opt_find_set_index (BASIC_BTB_SETS c) k = r"
    if "r < unat (BASIC_BTB_SETS c)" "k \<in> opt_keys r st'" for r k
    using subsetD[OF keys[OF that(1)] that(2)] that(1) b sx by (auto simp: opt_base_def split: if_splits)
  ultimately have b': "opt_base c st0 st'" using b st' by (simp add: opt_base_def)
  have f: "opt_find_btb_entry k st' = (if k = ip then Some empty_opt_entry else opt_find_btb_entry k st)" for k
    using d(1) em(3) sx st' by (auto simp: opt_find_btb_entry_def nth_list_update)
  have "r < unat (BASIC_BTB_SETS c) \<Longrightarrow> opt_keys r st' \<subseteq> insert ip (opt_keys r st)" for r
    using keys[of r] by (cases "r = sx") auto
  with inv st' have "r < unat (BASIC_BTB_SETS c) \<Longrightarrow>
      opt_keys r st' \<subseteq> insert ip (dom (branch_record (opt_access_record st')))" for r
    by (fastforce simp: opt_inv_def)
  with b' f show "opt_added c st0 ip st st'" by (auto simp: opt_added_def)
  show "opt_keys sx st' = insert ip (opt_keys sx st)"
    using st' em(4) d(1) by (simp add: opt_keys_def)
qed

text \<open>Evict and add.\<close>

lemma opt_replace:
  assumes e: "emplace_law emplace" and inv: "opt_inv c st0 st" and sx: "sx = opt_find_set_index (total_sets st) ip"
    and v: "v \<in> opt_keys sx st" and fresh: "ip \<notin> opt_keys sx st"
  obtains st1 st' where "opt_evict sx v t st = Some st1"
    "st' = st1\<lparr>current_btb := (current_btb st1)[sx := emplace (ip, empty_opt_entry) (current_btb st1 ! sx)]\<rparr>"
    "opt_added c st0 ip st st'" "opt_keys sx st' = insert ip (opt_keys sx st - {v})"
proof -
  obtain st1 where s1: "opt_evict sx v t st = Some st1" "opt_inv c st0 st1"
    "current_btb st1 = (current_btb st)[sx := erase_key v (current_btb st ! sx)]"
    "length (current_btb st1 ! sx) < BASIC_BTB_WAYS c" "total_sets st1 = total_sets st"
    using opt_evict_total[OF inv sx v] by metis
  have b: "opt_base c st0 st" using inv by (simp add: opt_inv_def)
  have l: "sx < length (current_btb st)" using opt_baseD(1)[OF b, of ip] sx by simp
  have k1: "opt_keys sx st1 = opt_keys sx st - {v}" using s1(3) l by (simp add: opt_keys_def)
  have f1: "opt_find_btb_entry k st1 = Some x \<Longrightarrow> opt_find_btb_entry k st = Some x" for k x
    using s1(3,5) l by (auto simp: opt_find_btb_entry_def nth_list_update split: if_splits)
  have sx1: "sx = opt_find_set_index (total_sets st1) ip" using sx s1(5) by simp
  have fresh1: "ip \<notin> opt_keys sx st1" using fresh k1 by simp
  note a = opt_add_effect[OF e s1(2) sx1 fresh1 s1(4) refl]
  show thesis
    by (rule that[OF s1(1) refl]) (use a k1 f1 in \<open>auto simp: opt_added_def\<close>)
qed

lemma opt_insert_cases:
  assumes e: "emplace_law emplace" and inv: "opt_inv c st0 st" and none: "opt_find_btb_entry ip st = None"
  obtains (bypass) st' where "opt_insert_to_btb emplace ip st = Some (False, st')" "opt_inv c st0 st'"
      "current_btb st' = current_btb st" "total_sets st' = total_sets st"
  | (added) st' where "opt_insert_to_btb emplace ip st = Some (True, st')" "opt_added c st0 ip st st'"
proof -
  let ?sx = "opt_find_set_index (total_sets st) ip"
  have b: "opt_base c st0 st" using inv by (simp add: opt_inv_def)
  note d = opt_baseD(1-4)[OF b, of ip] opt_baseD(5)[OF b]
  have fresh: "ip \<notin> opt_keys ?sx st"
    using none by (simp add: opt_find_btb_entry_def map_of_eq_None_iff opt_keys_def)
  have full: "of_nat (length (current_btb st ! ?sx)) = total_ways st \<longleftrightarrow>
      length (current_btb st ! ?sx) = BASIC_BTB_WAYS c"
    using ways_inj[OF d(4)] b by (simp add: opt_base_def)
  let ?t = "opt_timestamp st - 1"
  let ?by = "st\<lparr>coverage_accuracy := snd (get_reuse_distance ip ?t (coverage_accuracy st))\<rparr>"
  have by_ok: "opt_inv c st0 ?by" using inv by (simp add: opt_inv_def opt_base_def opt_keys_def)
  show thesis
  proof (cases "length (current_btb st ! ?sx) = BASIC_BTB_WAYS c")
    case False
    then have "length (current_btb st ! ?sx) < BASIC_BTB_WAYS c" using d(4) by simp
    note a = opt_add_effect(1)[OF e inv refl fresh this refl]
    show thesis by (rule added[OF _ a]) (use False full in \<open>simp add: opt_insert_to_btb_def Let_def\<close>)
  next
    case True
    let ?fa = "future_accesses st ! ?sx" and ?fp = "future_prefetches st ! ?sx"
    let ?ks = "map fst (current_btb st ! ?sx)"
    have keys: "set ?ks = opt_keys ?sx st" by (simp add: opt_keys_def)
    show thesis
    proof (cases "upper_bound ?t (?fa ip)")
      case None
      show thesis
        by (rule bypass[OF _ by_ok]) (use True full None in \<open>simp_all add: opt_insert_to_btb_def Let_def\<close>)
    next
      case (Some cur)
      let ?v = "case foldl (prefetch_scan_step ?fa ?fp ?t) None ?ks of Some (_, v) \<Rightarrow> v
        | None \<Rightarrow> snd (foldl (demand_scan_step ?fa ?t (last_timestamp st)) (cur, ip) ?ks)"
      have v: "?v \<in> insert ip (opt_keys ?sx st)"
        using demand_scan_victim[of ?fa ?t "last_timestamp st" "(cur, ip)" ?ks] keys
          prefetch_scan_victim[of ?fa ?fp ?t None ?ks]
        by (auto split: option.splits)
      show thesis
      proof (cases "?v = ip")
        case True': True
        then have "foldl (prefetch_scan_step ?fa ?fp ?t) None ?ks = None"
          using prefetch_scan_victim[of ?fa ?fp ?t None ?ks] keys fresh by (auto split: option.splits)
        with True' show thesis
          by (intro bypass[OF _ by_ok])
            (use True full Some in \<open>simp_all add: opt_insert_to_btb_def Let_def\<close>)
      next
        case False
        with v have "?v \<in> opt_keys ?sx st" by simp
        from opt_replace[OF e inv refl this fresh, of ?t] obtain st1 st' where
          s: "opt_evict ?sx ?v ?t st = Some st1"
            "st' = st1\<lparr>current_btb := (current_btb st1)[?sx := emplace (ip, empty_opt_entry) (current_btb st1 ! ?sx)]\<rparr>"
            "opt_added c st0 ip st st'" by metis
        show thesis
          by (rule added[OF _ s(3)])
            (use True full Some False s(1,2) in \<open>auto simp: opt_insert_to_btb_def Let_def split: option.splits\<close>)
      qed
    qed
  qed
qed

section \<open>The contract\<close>

lemma opt_keys_fields [simp]:
  "opt_keys q (st\<lparr>opt_access_record := r\<rparr>) = opt_keys q st"
  "opt_keys q (st\<lparr>sbuf := sb\<rparr>) = opt_keys q st"
  by (simp_all add: opt_keys_def)

lemma opt_inv_record:
  assumes "opt_inv c st0 st" "dom (branch_record (opt_access_record st)) \<subseteq> dom (branch_record r)"
  shows "opt_inv c st0 (st\<lparr>opt_access_record := r\<rparr>)"
proof -
  have k: "opt_keys q (st\<lparr>opt_access_record := r\<rparr>) = opt_keys q st" for q by (simp add: opt_keys_def)
  have "opt_base c st0 (st\<lparr>opt_access_record := r\<rparr>)"
    using assms(1) by (simp add: opt_inv_def opt_base_def k)
  moreover have "\<forall>q<unat (BASIC_BTB_SETS c). opt_keys q st \<subseteq> dom (branch_record r)"
    using assms unfolding opt_inv_def by blast
  ultimately show ?thesis by (simp add: opt_inv_def k)
qed

lemma opt_set_entry_effect:
  assumes b: "opt_base c st0 st" and some: "opt_find_btb_entry ip st = Some e"
  shows "opt_base c st0 (opt_set_entry ip f st)"
    "opt_find_btb_entry k (opt_set_entry ip f st) = (if k = ip then Some (f e) else opt_find_btb_entry k st)"
    "r < unat (BASIC_BTB_SETS c) \<Longrightarrow> opt_keys r (opt_set_entry ip f st) = opt_keys r st"
    "opt_access_record (opt_set_entry ip f st) = opt_access_record st"
    "total_sets (opt_set_entry ip f st) = total_sets st"
proof -
  note d = opt_baseD(1-4)[OF b, of ip] opt_baseD(5)[OF b]
  let ?sx = "opt_find_set_index (total_sets st) ip"
  have cur: "current_btb (opt_set_entry ip f st) = (current_btb st)[?sx := set_value ip f (current_btb st ! ?sx)]"
    by (simp add: opt_set_entry_def Let_def)
  have sets: "sets_ok (unat (BASIC_BTB_SETS c)) (BASIC_BTB_WAYS c) (current_btb (opt_set_entry ip f st))"
    unfolding cur using b d(2) by (intro sets_ok_set_value) (auto simp: opt_base_def)
  show t: "total_sets (opt_set_entry ip f st) = total_sets st" by (simp add: opt_set_entry_def Let_def)
  show "opt_find_btb_entry k (opt_set_entry ip f st) = (if k = ip then Some (f e) else opt_find_btb_entry k st)"
    using set_find_set_value[of "opt_find_set_index (total_sets st)" ip "current_btb st" f k] d(1) some
    by (simp add: opt_find_set cur t)
  show keys: "r < unat (BASIC_BTB_SETS c) \<Longrightarrow> opt_keys r (opt_set_entry ip f st) = opt_keys r st" for r
    using d by (simp add: opt_keys_def cur nth_update_if)
  show "opt_base c st0 (opt_set_entry ip f st)"
    using b sets keys by (simp add: opt_base_def opt_set_entry_def Let_def)
  show "opt_access_record (opt_set_entry ip f st) = opt_access_record st"
    by (simp add: opt_set_entry_def Let_def)
qed

lemma opt_refresh_law:
  assumes inv: "opt_inv c st0 st" and some: "opt_find_btb_entry ip st = Some e"
  shows "opt_inv c st0 (opt_refresh ip tk t bt st)"
    "opt_lookup (opt_refresh ip tk t bt st) k = (if k = ip \<and> tk then Some t else opt_lookup st k)"
proof -
  have b: "opt_base c st0 st" using inv by (simp add: opt_inv_def)
  note a = opt_set_entry_effect[OF b some]
  have keep: "opt_inv c st0 (opt_set_entry ip f st)" for f
    using inv a(1,3,4) by (simp add: opt_inv_def)
  have rec: "opt_inv c st0 (s\<lparr>opt_access_record := rec_access ip t bt h j (opt_access_record s)\<rparr>)"
    if "opt_inv c st0 s" for s h j
    by (rule opt_inv_record[OF that]) (simp add: subset_insertI)
  show "opt_inv c st0 (opt_refresh ip tk t bt st)"
    using keep rec by (simp add: opt_refresh_def Let_def)
  have upd: "opt_find_btb_entry j (s\<lparr>opt_access_record := r\<rparr>) = opt_find_btb_entry j s" for s r j
    by (simp add: opt_find_btb_entry_def)
  show "opt_lookup (opt_refresh ip tk t bt st) k = (if k = ip \<and> tk then Some t else opt_lookup st k)"
    using a(2) some by (auto simp: opt_refresh_def opt_lookup_def Let_def upd)
qed

lemma opt_fill_law:
  assumes e: "emplace_law emplace" and inv: "opt_inv c st0 st" and none: "opt_find_btb_entry ip st = None"
  obtains st' where "opt_fill emplace ip t bt st = Some st'" "opt_inv c st0 st'"
    "\<And>k u. opt_lookup st' k = Some u \<Longrightarrow> if k = ip then u = t else opt_lookup st k = Some u"
proof (cases rule: opt_insert_cases[OF e inv none])
  case (1 st1)
  let ?st' = "st1\<lparr>opt_access_record := rec_access ip t bt False False (opt_access_record st1)\<rparr>"
  have "opt_inv c st0 ?st'" by (rule opt_inv_record[OF 1(2)]) (simp add: subset_insertI)
  moreover have "opt_find_btb_entry k ?st' = opt_find_btb_entry k st" for k
    using 1(3,4) by (simp add: opt_find_btb_entry_def)
  ultimately show thesis using 1(1) none
    by (intro that[of ?st']) (auto simp: opt_fill_def opt_lookup_def split: if_splits)
next
  case (2 st1)
  let ?st2 = "st1\<lparr>opt_access_record := rec_access ip t bt False True (opt_access_record st1)\<rparr>"
  let ?f = "\<lambda>e. e\<lparr>ip_tag := ip, target := t, always_taken := 1\<rparr>"
  let ?st' = "opt_set_entry ip ?f ?st2"
  have b2: "opt_base c st0 ?st2" using 2(2) by (simp add: opt_added_def opt_base_def)
  have f2: "opt_find_btb_entry k ?st2 = opt_find_btb_entry k st1" for k by (simp add: opt_find_btb_entry_def)
  have some: "opt_find_btb_entry ip ?st2 = Some empty_opt_entry" using 2(2) f2 by (simp add: opt_added_def)
  note a = opt_set_entry_effect[OF b2 some]
  have "opt_keys r ?st' \<subseteq> dom (branch_record (opt_access_record ?st'))" if "r < unat (BASIC_BTB_SETS c)" for r
    using that a(3)[OF that, of ?f] a(4)[of ?f] 2(2) by (auto simp: opt_added_def opt_keys_def)
  then have inv': "opt_inv c st0 ?st'" using a(1) by (simp add: opt_inv_def)
  show thesis
    by (rule that[OF _ inv'])
      (use 2 a(2) f2 in \<open>auto simp: opt_fill_def Let_def opt_lookup_def opt_added_def split: if_splits\<close>)
qed

lemma opt_inv_fields:
  "opt_inv c st0 st \<Longrightarrow> opt_inv c st0 (st\<lparr>opt_timestamp := x\<rparr>)"
  "opt_inv c st0 st \<Longrightarrow> sb_ok sb \<Longrightarrow> opt_inv c st0 (st\<lparr>sbuf := sb\<rparr>)"
  "opt_inv c st0 st \<Longrightarrow> opt_inv c st0 (opt_mark_predecoder st)"
  "opt_inv c st0 st \<Longrightarrow> sb_ok (sbuf st)"
  by (auto simp: opt_inv_def opt_base_def opt_keys_def opt_mark_predecoder_def)

lemma opt_find_fields [simp]:
  "opt_find_btb_entry k (st\<lparr>opt_timestamp := x\<rparr>) = opt_find_btb_entry k st"
  "opt_find_btb_entry k (st\<lparr>sbuf := sb\<rparr>) = opt_find_btb_entry k st"
  "opt_find_btb_entry k (opt_mark_predecoder st) = opt_find_btb_entry k st"
  "opt_lookup (st\<lparr>opt_timestamp := x\<rparr>) k = opt_lookup st k"
  "opt_lookup (st\<lparr>sbuf := sb\<rparr>) k = opt_lookup st k"
  "opt_lookup (opt_mark_predecoder st) k = opt_lookup st k"
  by (simp_all add: opt_find_btb_entry_def opt_mark_predecoder_def opt_lookup_def)

lemma opt_predict_law:
  assumes "opt_inv c st0 st"
  shows "\<exists>r st'. opt_direct_predict ip st = Some (r, st') \<and> opt_inv c st0 st' \<and>
    (\<forall>k. opt_lookup st' k = opt_lookup st k) \<and> (\<forall>t. opt_lookup st ip = Some t \<longrightarrow> fst r = t)"
  using opt_inv_fields(1)[OF assms]
  by (cases "opt_find_btb_entry ip st") (auto simp: opt_direct_predict_def Let_def opt_lookup_def)

lemma opt_update_law:
  assumes e: "emplace_law emplace" and inv: "opt_inv c st0 st"
  shows "\<exists>st'. opt_direct_update emplace ip t tk bt st = Some st' \<and> opt_inv c st0 st' \<and>
    (\<forall>k u. opt_lookup st' k = Some u \<longrightarrow> (if k = ip \<and> tk \<noteq> 0 then u = t else opt_lookup st k = Some u))"
proof (cases "opt_find_btb_entry ip st")
  case (Some x)
  with opt_refresh_law[OF inv Some] show ?thesis by (auto simp: opt_direct_update_def split: if_splits)
next
  case None
  let ?st = "st\<lparr>sbuf := snd (stream_buffer_update ip (sbuf st))\<rparr>"
  have inv1: "opt_inv c st0 ?st" using inv opt_inv_fields(4)[OF inv] by (auto intro: opt_inv_fields)
  have none: "opt_find_btb_entry ip ?st = None" using None by simp
  have look: "opt_lookup st ip = None" using None by (simp add: opt_lookup_def)
  obtain st' where f: "opt_fill emplace ip t bt ?st = Some st'" "opt_inv c st0 st'"
    "\<And>k u. opt_lookup st' k = Some u \<Longrightarrow> if k = ip then u = t else opt_lookup ?st k = Some u"
    using opt_fill_law[OF e inv1 none, of t bt] by blast
  note f3 = f(3)[unfolded opt_find_fields(5)]
  show ?thesis
  proof (cases "t \<noteq> 0 \<and> tk \<noteq> 0")
    case True
    with None f(1,2) f3 show ?thesis by (auto simp: opt_direct_update_def Let_def)
  next
    case False
    with None inv1 look show ?thesis by (auto simp: opt_direct_update_def Let_def)
  qed
qed

lemma opt_prefetch_law:
  assumes e: "emplace_law emplace" and inv: "opt_inv c st0 st"
  shows "\<exists>st'. opt_direct_prefetch emplace ip t bt tk to_sb st = Some st' \<and> opt_inv c st0 st' \<and>
    (\<forall>k u. opt_lookup st' k = Some u \<longrightarrow> (if k = ip \<and> tk then u = t else opt_lookup st k = Some u))"
proof (cases "opt_find_btb_entry ip st")
  case (Some x)
  with opt_refresh_law[OF inv Some] show ?thesis by (auto simp: opt_direct_prefetch_def split: if_splits)
next
  case None
  have look: "opt_lookup st ip = None" using None by (simp add: opt_lookup_def)
  obtain st' where f: "opt_fill emplace ip t bt st = Some st'" "opt_inv c st0 st'"
    "\<And>k u. opt_lookup st' k = Some u \<Longrightarrow> if k = ip then u = t else opt_lookup st k = Some u"
    using opt_fill_law[OF e inv None, of t bt] by blast
  consider (fill) "t \<noteq> 0" "tk" "\<not> to_sb" | (buf) "t \<noteq> 0" "tk" "to_sb" | (skip) "\<not> (t \<noteq> 0 \<and> tk)" by blast
  then show ?thesis
  proof cases
    case fill
    with None f show ?thesis by (auto simp: opt_direct_prefetch_def)
  next
    case buf
    obtain sb where "sb_prefetch ip t (sbuf st) = Some sb" "sb_ok sb"
      using sb_prefetch_total[OF opt_inv_fields(4)[OF inv] buf(1)] by blast
    with None buf inv look show ?thesis by (auto simp: opt_direct_prefetch_def intro: opt_inv_fields)
  next
    case skip
    with None inv look show ?thesis by (auto simp: opt_direct_prefetch_def)
  qed
qed

text \<open>The law of \<open>emplace\<close> is part of the invariant, so that the interpretation needs no hypothesis.\<close>

interpretation opt: direct_btb "\<lambda>_ st. opt_inv c orig st \<and> emplace_law emplace" bound "\<lambda>_. True" opt_lookup
  opt_direct_predict "opt_direct_update emplace" "opt_direct_prefetch emplace" opt_mark_predecoder
  for c orig emplace bound
proof (unfold_locales, goal_cases)
  case (1 n a) then show ?case .
next
  case (2 n a) then show ?case by (auto intro: opt_inv_fields)
next
  case (3 a k) then show ?case by simp
next
  case (4 n a ip) then show ?case using opt_predict_law by blast
next
  case (5 n a ip t tk bt) then show ?case using opt_update_law[of emplace c orig a ip t tk bt] by simp
next
  case (6 n a ip t bt p sb) then show ?case using opt_prefetch_law[of emplace c orig a ip t bt p sb] by simp
qed

section \<open>The future that initialize_btb reads\<close>

lemma opt_read_line_fields:
  "total_sets (opt_read_line twig l st) = total_sets st" "total_ways (opt_read_line twig l st) = total_ways st"
  "current_btb (opt_read_line twig l st) = current_btb st" "sbuf (opt_read_line twig l st) = sbuf st"
  "opt_access_record (opt_read_line twig l st) = opt_access_record st"
  by (auto simp: opt_read_line_def Let_def split: prod.splits option.splits)

lemma opt_read_fold_fields:
  "total_sets (foldl (\<lambda>st l. opt_read_line twig l st) st d) = total_sets st"
  "total_ways (foldl (\<lambda>st l. opt_read_line twig l st) st d) = total_ways st"
  "current_btb (foldl (\<lambda>st l. opt_read_line twig l st) st d) = current_btb st"
  "sbuf (foldl (\<lambda>st l. opt_read_line twig l st) st d) = sbuf st"
  "opt_access_record (foldl (\<lambda>st l. opt_read_line twig l st) st d) = opt_access_record st"
  by (induction d arbitrary: st) (simp_all add: opt_read_line_fields)

lemma opt_init_ok:
  assumes "config_ok c" and st0_def: "st0 = store (opt_initialize_btb c u d twig)"
  shows "opt_inv c st0 st0" "fe_ok (front (opt_initialize_btb c u d twig))" "opt_lookup st0 k = None"
proof -
  show "opt_inv c st0 st0"
    using assms(1) sets_ok_replicate[of "unat (BASIC_BTB_SETS c)"]
    by (simp add: st0_def opt_inv_def opt_base_def opt_initialize_btb_def opt_read_record_def Let_def
        opt_read_fold_fields opt_keys_def)
  show "fe_ok (front (opt_initialize_btb c u d twig))" by (simp add: opt_initialize_btb_def Let_def)
  show "opt_lookup st0 k = None"
    using opt_index_bound[OF assms(1), of k]
    by (simp add: st0_def opt_lookup_def opt_find_btb_entry_def opt_initialize_btb_def opt_read_record_def
        Let_def opt_read_fold_fields)
qed

lemma future_fold:
  assumes "opt_find_set_index sets k < length f" "sorted_wrt (<) ((f ! opt_find_set_index sets k) k)"
    and f'_def: "f' = foldl (\<lambda>f p. add_to_future sets (fst p) (snd p) f) f d"
  shows "sorted_wrt (<) ((f' ! opt_find_set_index sets k) k) \<and>
    set ((f' ! opt_find_set_index sets k) k) = set ((f ! opt_find_set_index sets k) k) \<union> {x. (k, x) \<in> set d}"
  using assms(1,2) unfolding f'_def
proof (induction d arbitrary: f)
  case (Cons p d)
  let ?f = "add_to_future sets (fst p) (snd p) f" and ?i = "opt_find_set_index sets k"
  have "length ?f = length f" by (simp add: add_to_future_def Let_def)
  moreover have "(?f ! ?i) k = (if fst p = k then set_insert (snd p) ((f ! ?i) k) else (f ! ?i) k)"
    using Cons.prems(1) by (simp add: add_to_future_def Let_def nth_update_if)
  ultimately show ?case
    using Cons.IH[of ?f] Cons.prems by (cases p) (auto simp: sorted_set_insert)
qed simp

lemma opt_read_none:
  "foldl (\<lambda>st l. opt_read_line None l st) st d =
     st\<lparr>future_accesses := foldl (\<lambda>f p. add_to_future (total_sets st) (fst p) (snd p) f) (future_accesses st) d\<rparr>"
  by (induction d arbitrary: st) (auto simp: opt_read_line_def Let_def split: prod.splits)

lemma opt_init_future:
  assumes "config_ok c" and st0_def: "st0 = store (opt_initialize_btb c u d None)"
  shows "sorted_wrt (<) ((future_accesses st0 ! opt_find_set_index (BASIC_BTB_SETS c) k) k)"
    "set ((future_accesses st0 ! opt_find_set_index (BASIC_BTB_SETS c) k) k) = {x. (k, x) \<in> set d}"
    "r < unat (BASIC_BTB_SETS c) \<Longrightarrow> (future_prefetches st0 ! r) k = []"
    "last_timestamp st0 = (if d = [] then u else snd (last d))"
  using future_fold[of "BASIC_BTB_SETS c" k "replicate (unat (BASIC_BTB_SETS c)) (\<lambda>_. [])" _ d, OF _ _ refl]
    opt_index_bound[OF assms(1), of k]
  by (simp_all add: st0_def opt_initialize_btb_def opt_read_record_def Let_def opt_read_none)

section \<open>The victim is the branch used furthest in the future\<close>

definition next_use :: "(u64 \<times> u64) list \<Rightarrow> u64 \<Rightarrow> u64 \<Rightarrow> u64 option" where
  "next_use demand t k =
     (if \<exists>m. (k, m) \<in> set demand \<and> t < m then Some (Min {m. (k, m) \<in> set demand \<and> t < m}) else None)"

text \<open>\<open>a\<close> is used again strictly later than \<open>b\<close>, or never.\<close>

definition later_use :: "(u64 \<times> u64) list \<Rightarrow> u64 \<Rightarrow> u64 \<Rightarrow> u64 \<Rightarrow> bool" where
  "later_use demand t a b \<longleftrightarrow> (\<exists>n. next_use demand t b = Some n \<and>
     (next_use demand t a = None \<or> (\<exists>m. next_use demand t a = Some m \<and> n < m)))"

lemma next_use_upper_bound:
  assumes "sorted_wrt (<) xs" "set xs = {x. (k, x) \<in> set demand}"
  shows "upper_bound t xs = next_use demand t k"
proof (cases "upper_bound t xs")
  case None
  then show ?thesis using assms(2) by (auto simp: next_use_def upper_bound_None_iff not_less)
next
  case (Some n)
  have n: "n \<in> set xs" "t < n" "\<And>x. x \<in> set xs \<Longrightarrow> t < x \<Longrightarrow> n \<le> x"
    using upper_bound_SomeD[OF assms(1) Some] by auto
  have "finite {m. (k, m) \<in> set demand \<and> t < m}" by (rule finite_subset[of _ "snd ` set demand"]) force+
  then have "Min {m. (k, m) \<in> set demand \<and> t < m} = n"
    by (intro Min_eqI) (use n assms(2) in auto)
  with Some n assms(2) show ?thesis by (auto simp: next_use_def)
qed

definition use_value :: "(u64 \<Rightarrow> u64 list) \<Rightarrow> u64 \<Rightarrow> u64 \<Rightarrow> u64 \<Rightarrow> u64" where
  "use_value fa t l k = (case upper_bound t (fa k) of None \<Rightarrow> l + 1 | Some n \<Rightarrow> n)"

lemma demand_scan_furthest:
  assumes "\<And>k x. k \<in> set ks \<Longrightarrow> x \<in> set (fa k) \<Longrightarrow> x \<le> l" "l < l + 1" "use_value fa t l v0 \<le> l + 1"
  shows "let r = foldl (demand_scan_step fa t l) (use_value fa t l v0, v0) ks; v = snd r in
    fst r = use_value fa t l v \<and> (\<forall>k\<in>insert v0 (set ks). use_value fa t l k \<le> use_value fa t l v) \<and>
    (v = v0 \<or> use_value fa t l v0 < use_value fa t l v \<or> use_value fa t l v = l + 1)"
  using assms(1,3)
proof (induction ks arbitrary: v0)
  case (Cons k ks)
  let ?val = "use_value fa t l"
  have le: "?val k \<le> l + 1"
  proof (cases "upper_bound t (fa k)")
    case (Some n)
    then have "n \<le> l" using Cons.prems(1)[of k n] upper_bound_mem by fastforce
    with Some assms(2) show ?thesis by (simp add: use_value_def)
  qed (simp add: use_value_def)
  obtain w where w: "demand_scan_step fa t l (?val v0, v0) k = (?val w, w)"
    "w \<in> {v0, k}" "?val v0 \<le> ?val w" "?val k \<le> ?val w" "?val w \<le> l + 1"
    "w = v0 \<or> ?val v0 < ?val w \<or> ?val w = l + 1"
  proof (cases "upper_bound t (fa k)")
    case None
    then have v: "?val k = l + 1" by (simp add: use_value_def)
    show thesis by (rule that[of k]) (use None v Cons.prems(2) in \<open>simp_all add: demand_scan_step_def\<close>)
  next
    case (Some n)
    then have v: "?val k = n" by (simp add: use_value_def)
    show thesis
    proof (cases "?val v0 < n")
      case True
      show thesis by (rule that[of k]) (use Some v True le in \<open>simp_all add: demand_scan_step_def\<close>)
    next
      case False
      show thesis by (rule that[of v0]) (use Some v False Cons.prems(2) in \<open>simp_all add: demand_scan_step_def\<close>)
    qed
  qed
  have IH: "let r = foldl (demand_scan_step fa t l) (?val w, w) ks; v = snd r in
    fst r = ?val v \<and> (\<forall>k\<in>insert w (set ks). ?val k \<le> ?val v) \<and>
    (v = w \<or> ?val w < ?val v \<or> ?val v = l + 1)"
    by (rule Cons.IH) (use Cons.prems w(5) in auto)
  let ?v = "snd (foldl (demand_scan_step fa t l) (?val w, w) ks)"
  have i: "?val w \<le> ?val ?v" "?v = w \<or> ?val w < ?val ?v \<or> ?val ?v = l + 1"
    using IH by (simp_all add: Let_def)
  have "?v = v0 \<or> ?val v0 < ?val ?v \<or> ?val ?v = l + 1"
  proof (cases "?v = w")
    case True with w(6) show ?thesis by simp
  next
    case False
    with i(2) have "?val w < ?val ?v \<or> ?val ?v = l + 1" by simp
    with w(3) show ?thesis by (meson order_le_less_trans)
  qed
  with IH w(1,3,4) i(1) show ?case by (auto simp: Let_def intro: order_trans)
qed (simp add: Let_def)

section \<open>Properties\<close>

definition opt_run ::
  "(u64 \<times> opt_entry \<Rightarrow> (u64 \<times> opt_entry) list \<Rightarrow> (u64 \<times> opt_entry) list) \<Rightarrow>
   btb_event list \<Rightarrow> opt_store btb_cpu \<Rightarrow> opt_store btb_cpu option" where
  "opt_run emplace = btb_run opt_btb_prediction (opt_update_btb emplace) (opt_prefetch_btb emplace)"

lemmas opt_handlers = opt_btb_prediction_def opt_update_btb_def opt_prefetch_btb_def

lemma opt_reachable:
  assumes "config_ok c" "emplace_law emplace"
    and "opt_run emplace es (opt_initialize_btb c u d twig) = Some s"
  shows "opt_inv c (store (opt_initialize_btb c u d twig)) (store s)"
  using opt.run_law[where n = 0 and bound = "length es" and c = c and emplace = emplace and es = es and s = "opt_initialize_btb c u d twig"
      and orig = "store (opt_initialize_btb c u d twig)"]
    opt_init_ok(1,2)[OF assms(1) refl] assms(2,3)
  by (auto simp: opt_run_def opt_handlers)

lemma last_is_max: "sorted (map snd d) \<Longrightarrow> p \<in> set d \<Longrightarrow> snd p \<le> snd (last (d :: (u64 \<times> u64) list))"
  by (induction d) (auto split: if_splits)

text \<open>C4: whatever future and prefetch hints the OPT BTB reads, no handler call fails (a victim always has an
  access record, an inserted branch is always found again), no set exceeds its ways, and a
  branch it holds is predicted with the target of its last taken reference.\<close>

theorem opt_btb_run_correct:
  assumes "config_ok c" "emplace_law emplace"
  shows "\<exists>s. opt_run emplace es (opt_initialize_btb c u demand twig) = Some s \<and>
    sets_ok (unat (BASIC_BTB_SETS c)) (BASIC_BTB_WAYS c) (current_btb (store s)) \<and> fe_ok (front s) \<and>
    (\<forall>ip bt t. is_direct bt \<longrightarrow> opt_lookup (store s) ip = Some t \<longrightarrow>
      ideal_run es Map.empty ip = Some t \<and>
      (\<exists>taken s'. opt_btb_prediction ip bt s = Some ((t, taken), s')))"
  using opt.run_correct[where bound = "Suc (length es)" and c = c and emplace = emplace and es = es and s = "opt_initialize_btb c u demand twig"
      and orig = "store (opt_initialize_btb c u demand twig)"] opt_init_ok[OF assms(1) refl] assms(2)
  by (auto simp: opt_run_def opt_handlers opt_inv_def opt_base_def)

lemma opt_btb_run_correct_witness:
  "\<exists>s. opt_run (#) [Predict 8 BRANCH_DIRECT_JUMP, Update 8 100 1 BRANCH_DIRECT_JUMP]
     (opt_initialize_btb default_config 0 [(8, 0)] None) = Some s"
  using opt_btb_run_correct[OF default_config_ok emplace_law_Cons,
      of "[Predict 8 BRANCH_DIRECT_JUMP, Update 8 100 1 BRANCH_DIRECT_JUMP]" 0 "[(8, 0)]" None] by auto

text \<open>C3: OPT is Belady's policy on the recorded future: in every state reached without prefetch hints,
  with a record sorted by time, a taken miss in a full set either evicts a branch that no
  branch of the set (nor the new one) outlasts and that is used later than the new one, or
  bypasses because the new branch is never used again or no stored branch is used later.\<close>

theorem opt_evicts_furthest_use:
  assumes "config_ok c" "emplace_law emplace" "sorted (map snd demand)" "\<forall>p\<in>set demand. snd p < - 1"
    and "opt_run emplace es (opt_initialize_btb c 0 demand None) = Some s"
    and "opt_find_btb_entry ip (store s) = None" and "sx = opt_find_set_index (total_sets (store s)) ip"
    and "length (current_btb (store s) ! sx) = BASIC_BTB_WAYS c" and "t = opt_timestamp (store s) - 1"
  shows "\<exists>b st'. opt_insert_to_btb emplace ip (store s) = Some (b, st') \<and>
    (if b then \<exists>v\<in>opt_keys sx (store s). opt_keys sx st' = insert ip (opt_keys sx (store s) - {v}) \<and>
         later_use demand t v ip \<and> (\<forall>k\<in>opt_keys sx (store s). \<not> later_use demand t k v)
     else opt_keys sx st' = opt_keys sx (store s) \<and>
       (next_use demand t ip = None \<or> (\<forall>k\<in>opt_keys sx (store s). \<not> later_use demand t k ip)))"
proof -
  let ?st = "store s" and ?init = "store (opt_initialize_btb c 0 demand None)"
  have inv: "opt_inv c ?init ?st" by (rule opt_reachable[OF assms(1,2,5)])
  have b: "opt_base c ?init ?st" using inv by (simp add: opt_inv_def)
  note d = opt_baseD(1-4)[OF b, of ip, folded assms(7)]
  note fu = opt_init_future[OF assms(1) refl, where u = 0 and d = demand]
  let ?fa = "future_accesses ?st ! sx" and ?fp = "future_prefetches ?st ! sx" and ?l = "last_timestamp ?st"
  let ?ks = "map fst (current_btb ?st ! sx)"
  have tot: "total_sets ?st = BASIC_BTB_SETS c" "sx < unat (BASIC_BTB_SETS c)"
    using b d(2) by (simp_all add: opt_base_def)
  have keys: "set ?ks = opt_keys sx ?st" by (simp add: opt_keys_def)
  have in_set: "opt_find_set_index (BASIC_BTB_SETS c) k = sx" if "k \<in> insert ip (set ?ks)" for k
    using that b tot assms(7) unfolding keys by (auto simp: opt_base_def)
  have fa: "sorted_wrt (<) (?fa k)" "set (?fa k) = {x. (k, x) \<in> set demand}" if "k \<in> insert ip (set ?ks)" for k
    using fu(1,2)[of k] in_set[OF that] b by (simp_all add: opt_base_def)
  have fp: "foldl (prefetch_scan_step ?fa ?fp t) None ?ks = None"
    using fu(3)[OF tot(2)] b by (intro prefetch_scan_none) (simp add: opt_base_def)
  have ub: "upper_bound t (?fa k) = next_use demand t k" if "k \<in> insert ip (set ?ks)" for k
    by (rule next_use_upper_bound[OF fa[OF that]])
  have "x \<le> ?l" if "(k, x) \<in> set demand" for k x
    using last_is_max[OF assms(3) that] that fu(4) b by (auto simp: opt_base_def)
  then have le: "\<And>k x. k \<in> insert ip (set ?ks) \<Longrightarrow> x \<in> set (?fa k) \<Longrightarrow> x \<le> ?l" using fa(2) by auto
  have fresh: "ip \<notin> opt_keys sx ?st"
    using assms(6,7) by (simp add: opt_find_btb_entry_def map_of_eq_None_iff opt_keys_def)
  have full: "of_nat (length ?ks) = total_ways ?st" using assms(8) b by (simp add: opt_base_def)
  show ?thesis
  proof (cases "upper_bound t (?fa ip)")
    case None
    then show ?thesis
      using full ub[of ip] assms(7,9)
      by (intro exI[of _ False]) (simp add: opt_insert_to_btb_def Let_def opt_keys_def)
  next
    case (Some cur)
    then have dem: "demand \<noteq> []" using fa(2)[of ip] upper_bound_mem[OF Some] by auto
    have "?l < - 1" using fu(4) b dem assms(4) last_in_set[OF dem] by (auto simp: opt_base_def)
    then have l: "?l < ?l + 1" using word_less_add_one(1)[of ?l "- 1"] by (simp add: word_less_nat_alt)
    let ?val = "use_value ?fa t ?l"
    have le_val: "?val k \<le> ?l + 1" if "k \<in> insert ip (set ?ks)" for k
    proof (cases "upper_bound t (?fa k)")
      case (Some n)
      with le[OF that, of n] upper_bound_mem[OF Some] l show ?thesis by (simp add: use_value_def)
    qed (simp add: use_value_def)
    have later: "later_use demand t a b \<longleftrightarrow> ?val b < ?val a"
      if "a \<in> insert ip (set ?ks)" "b \<in> insert ip (set ?ks)" for a b
    proof (cases "upper_bound t (?fa b)")
      case None
      then show ?thesis
        using ub[OF that(2)] le_val[OF that(1)] by (simp add: later_use_def use_value_def not_less)
    next
      case Some': (Some n)
      have "n \<le> ?l" using le[OF that(2), of n] upper_bound_mem[OF Some'] by simp
      then have "n < ?l + 1" using l by simp
      then show ?thesis using Some' ub[OF that(1)] ub[OF that(2)]
        by (cases "next_use demand t a") (simp_all add: later_use_def use_value_def)
    qed
    let ?v = "snd (foldl (demand_scan_step ?fa t ?l) (cur, ip) ?ks)"
    have vip: "?val ip = cur" using Some by (simp add: use_value_def)
    have sc: "\<forall>k\<in>insert ip (set ?ks). ?val k \<le> ?val ?v"
      "?v = ip \<or> ?val ip < ?val ?v \<or> ?val ?v = ?l + 1"
    proof -
      have "x \<le> ?l" if "k \<in> set ?ks" "x \<in> set (?fa k)" for k x using le[of k x] that by blast
      note D = demand_scan_furthest[of ?ks ?fa ?l t ip, OF this l le_val[OF insertI1], unfolded Let_def vip]
      show "\<forall>k\<in>insert ip (set ?ks). ?val k \<le> ?val ?v" by (rule D[THEN conjunct2, THEN conjunct1])
      show "?v = ip \<or> ?val ip < ?val ?v \<or> ?val ?v = ?l + 1"
        unfolding vip by (rule D[THEN conjunct2, THEN conjunct2])
    qed
    show ?thesis
    proof (cases "?v = ip")
      case True
      with sc(1) later have "\<forall>k\<in>set ?ks. \<not> later_use demand t k ip" by (simp add: not_less)
      then show ?thesis
        using full fp Some True keys assms(7,9)
        by (intro exI[of _ False]) (simp add: opt_insert_to_btb_def Let_def opt_keys_def)
    next
      case False
      have vin: "?v \<in> set ?ks" using demand_scan_victim[of ?fa t ?l "(cur, ip)" ?ks] False by simp
      have "cur \<le> ?l" using le[of ip cur] upper_bound_mem[OF Some] by simp
      then have "?val ip < ?val ?v" using sc(2) False vip l by auto
      then have lat: "later_use demand t ?v ip" "\<forall>k\<in>set ?ks. \<not> later_use demand t k ?v"
        using later vin sc(1) by (simp_all add: not_less)
      from opt_replace[OF assms(2) inv assms(7) vin[unfolded keys] fresh, of t] obtain st1 st' where
        r: "opt_evict sx ?v t ?st = Some st1"
          "st' = st1\<lparr>current_btb := (current_btb st1)[sx := emplace (ip, empty_opt_entry) (current_btb st1 ! sx)]\<rparr>"
          "opt_keys sx st' = insert ip (opt_keys sx ?st - {?v})" by metis
      have "opt_insert_to_btb emplace ip ?st = Some (True, st')"
        using full fp Some False r(1,2) assms(7,9) by (simp add: opt_insert_to_btb_def Let_def)
      moreover have "\<exists>v\<in>opt_keys sx ?st. opt_keys sx st' = insert ip (opt_keys sx ?st - {v}) \<and>
          later_use demand t v ip \<and> (\<forall>k\<in>opt_keys sx ?st. \<not> later_use demand t k v)"
        by (rule bexI[of _ ?v]) (use r(3) lat[unfolded keys] vin[unfolded keys] in simp_all)
      ultimately show ?thesis by (intro exI[of _ True] exI[of _ st']) simp
    qed
  qed
qed


text \<open>Two ways, a set holding 8 and 24; at time 2 branch 40 comes, and 8 is used before 24.\<close>

definition opt_demo_config :: btb_config where
  "opt_demo_config = \<lparr>total_btb_ways = 2, total_btb_entries = 2\<rparr>"

definition opt_demo :: "(u64 \<times> u64) list" where
  "opt_demo = [(8, 0), (24, 1), (40, 2), (40, 3), (8, 5), (24, 9)]"

definition opt_demo_events :: "btb_event list" where
  "opt_demo_events = [Predict 8 BRANCH_DIRECT_JUMP, Update 8 100 1 BRANCH_DIRECT_JUMP,
     Predict 24 BRANCH_DIRECT_JUMP, Update 24 100 1 BRANCH_DIRECT_JUMP, Predict 40 BRANCH_DIRECT_JUMP]"

lemma opt_demo_run:
  "case opt_run (#) opt_demo_events (opt_initialize_btb opt_demo_config 0 opt_demo None) of None \<Rightarrow> False
   | Some s \<Rightarrow> opt_find_btb_entry 40 (store s) = None \<and> total_sets (store s) = 1 \<and>
     map fst (current_btb (store s) ! 0) = [24, 8] \<and> opt_timestamp (store s) = 3"
  by code_simp

lemma opt_evicts_furthest_use_witness:
  "\<exists>s b st'. opt_run (#) opt_demo_events (opt_initialize_btb opt_demo_config 0 opt_demo None) = Some s \<and>
     opt_keys 0 (store s) = {24, 8} \<and> opt_insert_to_btb (#) 40 (store s) = Some (b, st') \<and>
     (if b then \<exists>v\<in>{24, 8}. opt_keys 0 st' = insert 40 ({24, 8} - {v}) \<and>
         later_use opt_demo 2 v 40 \<and> (\<forall>k\<in>{24, 8}. \<not> later_use opt_demo 2 k v)
      else opt_keys 0 st' = {24, 8} \<and>
       (next_use opt_demo 2 40 = None \<or> (\<forall>k\<in>{24, 8}. \<not> later_use opt_demo 2 k 40)))"
proof -
  obtain s where s: "opt_run (#) opt_demo_events (opt_initialize_btb opt_demo_config 0 opt_demo None) = Some s"
    "opt_find_btb_entry 40 (store s) = None" "total_sets (store s) = 1"
    "map fst (current_btb (store s) ! 0) = [24, 8]" "opt_timestamp (store s) = 3"
    using opt_demo_run by (auto split: option.splits)
  have i: "opt_find_set_index 1 40 = 0" by (simp add: opt_find_set_index_def)
  have k: "opt_keys 0 (store s) = {24, 8}" using arg_cong[OF s(4), of set] by (simp add: opt_keys_def)
  have l: "length (current_btb (store s) ! 0) = 2" using arg_cong[OF s(4), of length] by simp
  have c: "config_ok opt_demo_config" "BASIC_BTB_WAYS opt_demo_config = 2"
    by (simp_all add: config_ok_def opt_demo_config_def BASIC_BTB_SETS_def BASIC_BTB_WAYS_def)
  have d: "sorted (map snd opt_demo)" "\<forall>p\<in>set opt_demo. snd p < - 1" by (simp add: opt_demo_def, code_simp)
  have h: "0 = opt_find_set_index (total_sets (store s)) 40"
    "length (current_btb (store s) ! 0) = BASIC_BTB_WAYS opt_demo_config" "2 = opt_timestamp (store s) - 1"
    using s i l c(2) by simp_all
  show ?thesis
    using s(1) k opt_evicts_furthest_use[OF c(1) emplace_law_Cons d s(1,2) h, unfolded k] by blast
qed

end
