(* ===== verification/ThermometerBtb.thy ===== *)
theory ThermometerBtb
  imports MapSets Complex_Main
begin

text \<open>
  Thermometer, the artifact's own replacement policy, from
  \<^verbatim>\<open>btb/hot_warm_cold_btb.template/hot_warm_cold_btb.cc\<close>. A branch's temperature is its hit
  ratio in the training run of OPT; a full set evicts from its coldest non-empty category.
  The template's switches are the record \<open>thermo_flags\<close>. What the C++ leaves open is the
  record \<open>thermo_env\<close>: where a hash map puts a new pair, the answer of the direction predictor
  (asked only when a switch the shipped configurations leave off is on), an indeterminate
  local. \<^verbatim>\<open>rand()\<close> is a sequence in the state.

  Ratios are doubles in the code. Quotients of counts below 2 to the 50 compare with the
  two-digit bounds as the exact rationals do, so they are rationals here, with the two other
  values a division can give.
\<close>

section \<open>Ratios\<close>

datatype hit_ratio = NaN | PInf | Fin rat

definition double_div :: "nat \<Rightarrow> nat \<Rightarrow> hit_ratio" where
  "double_div a b = (if b = 0 then (if a = 0 then NaN else PInf) else Fin (of_nat a / of_nat b))"

fun ratio_le :: "hit_ratio \<Rightarrow> hit_ratio \<Rightarrow> bool" where
  "ratio_le NaN _ = False"
| "ratio_le _ NaN = False"
| "ratio_le _ PInf = True"
| "ratio_le PInf (Fin _) = False"
| "ratio_le (Fin a) (Fin b) = (a \<le> b)"

fun ratio_neg :: "hit_ratio \<Rightarrow> bool" where
  "ratio_neg (Fin a) = (a < 0)"
| "ratio_neg _ = False"

section \<open>State\<close>

record thermo_entry =
  ip_tag :: u64
  target :: u64
  always_taken :: u8
  rrpv :: u64
  lru :: u64
  taken_history :: "bool list"

definition new_thermo_entry :: "u64 \<Rightarrow> u64 \<Rightarrow> thermo_entry" where
  "new_thermo_entry ip t =
     \<lparr>ip_tag = ip, target = t, always_taken = 1, rrpv = 2, lru = 0, taken_history = [True]\<rparr>"

definition add_to_taken_history :: "bool \<Rightarrow> thermo_entry \<Rightarrow> thermo_entry option" where
  "add_to_taken_history taken e =
     (let h = (if length (taken_history e) \<ge> 8 then tl (taken_history e) else taken_history e)
      in if length h < 8 then Some (e\<lparr>taken_history := h @ [taken]\<rparr>) else None)"

definition get_loop_judge :: "thermo_entry \<Rightarrow> int" where
  "get_loop_judge e =
     (let r = rev (taken_history e)
      in if hd r then - 1 else int (length (takeWhile Not (tl r))))"

record thermo_flags =
  sort_hit_access :: bool
  use_lru :: bool
  consider_warm_taken :: bool
  consider_hot_taken :: bool
  consider_keep :: bool
  consider_taken_history :: bool
  curr_hotter :: bool
  hot_lower :: rat
  cold_upper :: rat
  warm_split :: rat

text \<open>The configuration of the paper, \<^verbatim>\<open>set_80_50_f_keep_curr_hotter_lru.cmake\<close>.\<close>

definition thermometer_flags :: thermo_flags where
  "thermometer_flags =
     \<lparr>sort_hit_access = False, use_lru = True, consider_warm_taken = False, consider_hot_taken = False,
      consider_keep = True, consider_taken_history = False, curr_hotter = True,
      hot_lower = 4 / 5, cold_upper = 1 / 2, warm_split = 0\<rparr>"

definition category_boundary :: "thermo_flags \<Rightarrow> rat list" where
  "category_boundary fl =
     (if warm_split fl = 0 \<or> warm_split fl = cold_upper fl
      then [cold_upper fl, hot_lower fl] else [cold_upper fl, warm_split fl, hot_lower fl])"

definition num_category :: "thermo_flags \<Rightarrow> nat" where
  "num_category fl = length (category_boundary fl) + 1"

record thermo_env =
  emplace :: "u64 \<times> thermo_entry \<Rightarrow> (u64 \<times> thermo_entry) list \<Rightarrow> (u64 \<times> thermo_entry) list"
  predict_branch :: "u64 \<Rightarrow> u8"
  uninit :: u64

record thermo_store =
  thermo_btb :: "(u64 \<times> thermo_entry) list list"
  branch_record :: "u64 \<rightharpoonup> hit_ratio"
  not_trained_branch_record :: "u64 set"
  general_evict_counter :: "u64 list"
  general_total_counter :: "u64 list"
  rands :: "nat \<Rightarrow> nat"
  rand_pos :: nat
  sbuf :: stream_buffer

definition RAND_MAX :: nat where "RAND_MAX = 2147483647"

definition thermo_rand :: "thermo_store \<Rightarrow> nat \<times> thermo_store" where
  "thermo_rand st = (rands st (rand_pos st) mod (RAND_MAX + 1), st\<lparr>rand_pos := rand_pos st + 1\<rparr>)"

section \<open>The training record\<close>

text \<open>A line of the record file, its numbers parsed: the long form lists the accesses of a branch.\<close>

datatype record_line = LongLine u64 "u64 list" | ShortLine u64 u64 u64

definition add_to_record :: "record_line \<Rightarrow> (u64 \<rightharpoonup> hit_ratio) \<Rightarrow> (u64 \<rightharpoonup> hit_ratio)" where
  "add_to_record line m =
     (let (ip, percentage) =
        (case line of
           LongLine ip codes \<Rightarrow>
             (let hit = length (filter (\<lambda>k. k = 0) codes);
                  miss = length (filter (\<lambda>k. k = 1 \<or> k = 2) codes)
              in (ip, double_div hit (hit + miss)))
         | ShortLine ip hit taken \<Rightarrow> (ip, double_div (unat hit) (unat taken)))
      in case m ip of None \<Rightarrow> m(ip \<mapsto> percentage) | Some _ \<Rightarrow> m)"

definition init_record :: "record_line list \<Rightarrow> (u64 \<rightharpoonup> hit_ratio)" where
  "init_record ls = foldl (\<lambda>m l. add_to_record l m) Map.empty ls"

definition thermo_initialize_btb ::
  "btb_config \<Rightarrow> thermo_flags \<Rightarrow> record_line list \<Rightarrow> (nat \<Rightarrow> nat) \<Rightarrow> thermo_store btb_cpu" where
  "thermo_initialize_btb c fl ls rs =
     \<lparr>front = init_frontend,
      store =
       \<lparr>thermo_btb = replicate (unat (BASIC_BTB_SETS c)) [],
        branch_record = init_record ls,
        not_trained_branch_record = {},
        general_evict_counter = replicate (num_category fl) 0,
        general_total_counter = replicate (num_category fl) 0,
        rands = rs, rand_pos = 0,
        sbuf = new_stream_buffer 32\<rparr>\<rparr>"

section \<open>Operations\<close>

definition thermo_set_index :: "btb_config \<Rightarrow> u64 \<Rightarrow> nat" where
  "thermo_set_index c ip = unat (drop_bit 2 ip mod BASIC_BTB_SETS c)"

definition thermo_update_lru :: "btb_config \<Rightarrow> u64 \<Rightarrow> thermo_store \<Rightarrow> thermo_store option" where
  "thermo_update_lru c ip st =
     (let sx = thermo_set_index c ip; row = thermo_btb st ! sx;
          mx = foldl (\<lambda>m p. if m < lru (snd p) then lru (snd p) else m) 0 row
      in if map_of row ip = None then None
         else Some (st\<lparr>thermo_btb := (thermo_btb st)[sx := set_value ip (\<lambda>e. e\<lparr>lru := mx + 1\<rparr>) row]\<rparr>))"

definition find_lru_min :: "nat \<Rightarrow> u64 list \<Rightarrow> thermo_store \<Rightarrow> (u64 \<times> thermo_store) option" where
  "find_lru_min sx candidates st =
     (if candidates = [] then None
      else
        let (r, st) = thermo_rand st;
            row = thermo_btb st ! sx;
            c = candidates ! (r mod length candidates)
        in if map_of row c = None then Some (c, st)
           else Some (snd (foldl (\<lambda>(m, ip_min) ip. case map_of row ip of
                                None \<Rightarrow> (m, ip_min)
                              | Some e \<Rightarrow> if m > lru e then (lru e, ip) else (m, ip_min))
                         (- 1, 0) candidates), st))"

definition get_hit_access_ratio :: "u64 \<Rightarrow> thermo_store \<Rightarrow> hit_ratio \<times> thermo_store" where
  "get_hit_access_ratio ip st =
     (case branch_record st ip of
        None \<Rightarrow>
          (let st = st\<lparr>not_trained_branch_record := insert ip (not_trained_branch_record st)\<rparr>;
               (r, st) = thermo_rand st
           in (double_div r RAND_MAX, st))
      | Some q \<Rightarrow> (q, st))"

definition thermo_find_btb_entry :: "btb_config \<Rightarrow> u64 \<Rightarrow> thermo_store \<Rightarrow> thermo_entry option \<times> thermo_store" where
  "thermo_find_btb_entry c ip st =
     (let sx = thermo_set_index c ip; row = thermo_btb st ! sx
      in case map_of row ip of
           None \<Rightarrow> (None, st)
         | Some e \<Rightarrow> (Some (e\<lparr>rrpv := 0\<rparr>),
                     st\<lparr>thermo_btb := (thermo_btb st)[sx := set_value ip (\<lambda>e. e\<lparr>rrpv := 0\<rparr>) row]\<rparr>))"

definition sort_choose_victim ::
  "thermo_flags \<Rightarrow> thermo_env \<Rightarrow> u64 \<Rightarrow> nat \<Rightarrow> thermo_store \<Rightarrow> u64 \<times> thermo_store" where
  "sort_choose_victim fl env ip sx st =
     (let (m, min_ip, st) =
        (if consider_keep fl then (let (q, st) = get_hit_access_ratio ip st in (q, ip, st))
         else (Fin 1, uninit env, st));
        (m, min_ip, st) =
          foldl (\<lambda>(m, min_ip, st) k.
                   let (q, st) = get_hit_access_ratio k st
                   in if ratio_le q m then (q, k, st) else (m, min_ip, st))
                (m, min_ip, st) (map fst (thermo_btb st ! sx))
      in (min_ip, st))"

text \<open>
  Put a branch into its category: the first whose bound its ratio does not exceed, the last
  one otherwise. With \<open>curr_ip\<close> (the switch \<open>curr_hotter\<close>, for the branch being inserted) a warm
  branch counts as hot and a hot one is not a candidate at all.
\<close>

definition add_to_candidate ::
  "thermo_flags \<Rightarrow> u64 \<Rightarrow> bool \<Rightarrow> u64 list list \<times> thermo_store \<Rightarrow> bool \<times> u64 list list \<times> thermo_store" where
  "add_to_candidate fl ip curr_ip cs =
     (let (candidate, st) = cs;
          (q, st) = get_hit_access_ratio ip st;
          bs = category_boundary fl;
          put = (\<lambda>i. candidate[i := candidate ! i @ [ip]])
      in if ratio_neg q then (False, candidate, st)
         else case first_index (\<lambda>i. ratio_le q (Fin (bs ! i))) (length bs) of
                Some i \<Rightarrow> (if curr_ip \<and> i + 1 = length bs then (True, put (i + 1), st) else (True, put i, st))
              | None \<Rightarrow> (if curr_ip then (True, candidate, st) else (True, put (length bs), st)))"

definition choose_taken_history :: "thermo_flags \<Rightarrow> u64 list \<Rightarrow> nat \<Rightarrow> thermo_store \<Rightarrow> u64" where
  "choose_taken_history fl candidate sx st =
     (if \<not> consider_taken_history fl then 0
      else snd (foldl (\<lambda>(m, v) ip. case map_of (thermo_btb st ! sx) ip of
                          None \<Rightarrow> (m, v)
                        | Some e \<Rightarrow> (let j = get_loop_judge e
                                    in if j \<ge> 0 \<and> j < m then (j, ip) else (m, v)))
                      (8, 0) candidate))"

definition choose_victim_one_category ::
  "thermo_flags \<Rightarrow> thermo_env \<Rightarrow> nat \<Rightarrow> u64 list \<Rightarrow> bool \<Rightarrow> thermo_store \<Rightarrow> (u64 \<times> thermo_store) option" where
  "choose_victim_one_category fl env sx one_category ask st =
     (let not_taken = (if ask then filter (\<lambda>k. predict_branch env k = 0) one_category else []);
          final = (if not_taken = [] then one_category else not_taken)
      in if use_lru fl then find_lru_min sx final st
         else
           let v = choose_taken_history fl final sx st
           in if v \<noteq> 0 then Some (v, st)
              else if final = [] then None
              else (let (r, st) = thermo_rand st in Some (final ! (r mod length final), st)))"

definition judge_consider_taken :: "thermo_flags \<Rightarrow> nat \<Rightarrow> bool" where
  "judge_consider_taken fl i \<longleftrightarrow>
     consider_hot_taken fl \<and> i = num_category fl - 1 \<or>
     consider_warm_taken fl \<and> 0 < i \<and> i < num_category fl - 1"

definition collect_candidates ::
  "thermo_flags \<Rightarrow> u64 list \<Rightarrow> bool \<Rightarrow> u64 list list \<times> u64 list \<times> thermo_store
     \<Rightarrow> u64 list list \<times> u64 list \<times> thermo_store" where
  "collect_candidates fl ks curr_ip acc =
     foldl (\<lambda>(candidate, dont_care, st) k.
              let (added, candidate, st) = add_to_candidate fl k curr_ip (candidate, st)
              in (candidate, if added then dont_care else dont_care @ [k], st)) acc ks"

definition choose_victim_general ::
  "thermo_flags \<Rightarrow> thermo_env \<Rightarrow> u64 \<Rightarrow> nat \<Rightarrow> thermo_store \<Rightarrow> (u64 \<times> thermo_store) option" where
  "choose_victim_general fl env ip sx st =
     (let acc = collect_candidates fl (map fst (thermo_btb st ! sx)) False
                  (replicate (num_category fl) [], [], st);
          acc = (if consider_keep fl then collect_candidates fl [ip] (curr_hotter fl) acc else acc);
          (candidate, dont_care, st) = acc
      in case first_index (\<lambda>i. candidate ! i \<noteq> []) (length candidate) of
           Some i \<Rightarrow>
             if \<exists>k\<in>set dont_care. k \<in> set (candidate ! i) then None
             else
               let cs = candidate ! i @ dont_care;
                   st = st\<lparr>general_evict_counter := (general_evict_counter st)[i := general_evict_counter st ! i + 1],
                           general_total_counter := (general_total_counter st)
                             [i := general_total_counter st ! i + of_nat (length cs)]\<rparr>
               in choose_victim_one_category fl env sx cs (judge_consider_taken fl i) st
         | None \<Rightarrow>
             if dont_care = [] then None else choose_victim_one_category fl env sx dont_care False st)"

definition thermo_insert ::
  "btb_config \<Rightarrow> thermo_flags \<Rightarrow> thermo_env \<Rightarrow> u64 \<Rightarrow> u64 \<Rightarrow> thermo_store \<Rightarrow> thermo_store option" where
  "thermo_insert c fl env ip t st =
     (let sx = thermo_set_index c ip;
          add = (\<lambda>st. if length (thermo_btb st ! sx) < BASIC_BTB_WAYS c
                      then thermo_update_lru c ip (st\<lparr>thermo_btb := (thermo_btb st)
                             [sx := emplace env (ip, new_thermo_entry ip t) (thermo_btb st ! sx)]\<rparr>)
                      else None)
      in if \<not> sx < length (thermo_btb st) then None
         else if map_of (thermo_btb st ! sx) ip \<noteq> None then None
         else if length (thermo_btb st ! sx) \<ge> BASIC_BTB_WAYS c then
           (case (if sort_hit_access fl then Some (sort_choose_victim fl env ip sx st)
                  else choose_victim_general fl env ip sx st) of
              None \<Rightarrow> None
            | Some (victim, st) \<Rightarrow>
                if victim = 0 then None
                else if victim = ip then Some st
                else add (st\<lparr>thermo_btb := (thermo_btb st)[sx := erase_key victim (thermo_btb st ! sx)]\<rparr>))
         else add st)"

text \<open>A found entry: its RRPV reset, its target or flag set, its history extended on an update only.\<close>

definition thermo_refresh ::
  "btb_config \<Rightarrow> u64 \<Rightarrow> bool \<Rightarrow> u64 \<Rightarrow> bool \<Rightarrow> thermo_entry \<Rightarrow> thermo_store \<Rightarrow> thermo_store option" where
  "thermo_refresh c ip taken t history e st =
     (let sx = thermo_set_index c ip;
          e = e\<lparr>rrpv := 0\<rparr>;
          e = (if \<not> taken then e\<lparr>always_taken := 0\<rparr> else e\<lparr>target := t\<rparr>)
      in case (if history then add_to_taken_history taken e else Some e) of
           None \<Rightarrow> None
         | Some e \<Rightarrow> thermo_update_lru c ip
             (st\<lparr>thermo_btb := (thermo_btb st)[sx := set_value ip (\<lambda>_. e) (thermo_btb st ! sx)]\<rparr>))"

definition thermo_direct_predict ::
  "btb_config \<Rightarrow> u64 \<Rightarrow> thermo_store \<Rightarrow> ((u64 \<times> u8) \<times> thermo_store) option" where
  "thermo_direct_predict c ip st =
     (case thermo_find_btb_entry c ip st of
        (None, st) \<Rightarrow> Some ((stream_buffer_predict ip (sbuf st), 1), st)
      | (Some e, st) \<Rightarrow> Some ((target e, always_taken e), st))"

definition thermo_direct_update ::
  "btb_config \<Rightarrow> thermo_flags \<Rightarrow> thermo_env \<Rightarrow> u64 \<Rightarrow> u64 \<Rightarrow> u8 \<Rightarrow> u8 \<Rightarrow> thermo_store \<Rightarrow> thermo_store option" where
  "thermo_direct_update c fl env ip branch_target taken bt st =
     (case thermo_find_btb_entry c ip st of
        (None, st) \<Rightarrow>
          (let st = st\<lparr>sbuf := snd (stream_buffer_update ip (sbuf st))\<rparr>
           in if branch_target \<noteq> 0 \<and> taken \<noteq> 0 then thermo_insert c fl env ip branch_target st else Some st)
      | (Some e, st) \<Rightarrow> thermo_refresh c ip (taken \<noteq> 0) branch_target True e st)"

definition thermo_direct_prefetch ::
  "btb_config \<Rightarrow> thermo_flags \<Rightarrow> thermo_env \<Rightarrow> u64 \<Rightarrow> u64 \<Rightarrow> u8 \<Rightarrow> bool \<Rightarrow> bool \<Rightarrow> thermo_store \<Rightarrow> thermo_store option" where
  "thermo_direct_prefetch c fl env ip branch_target bt taken to_stream_buffer st =
     (case thermo_find_btb_entry c ip st of
        (None, st) \<Rightarrow>
          if branch_target \<noteq> 0 \<and> taken then
            (if to_stream_buffer
             then map_option (\<lambda>sb. st\<lparr>sbuf := sb\<rparr>) (sb_prefetch ip branch_target (sbuf st))
             else thermo_insert c fl env ip branch_target st)
          else Some st
      | (Some e, st) \<Rightarrow> thermo_refresh c ip taken branch_target False e st)"

definition thermo_btb_prediction ::
  "btb_config \<Rightarrow> u64 \<Rightarrow> u8 \<Rightarrow> thermo_store btb_cpu \<Rightarrow> ((u64 \<times> u8) \<times> thermo_store btb_cpu) option" where
  "thermo_btb_prediction c = btb_prediction_with (thermo_direct_predict c)"

definition thermo_update_btb ::
  "btb_config \<Rightarrow> thermo_flags \<Rightarrow> thermo_env \<Rightarrow>
   u64 \<Rightarrow> u64 \<Rightarrow> u8 \<Rightarrow> u8 \<Rightarrow> thermo_store btb_cpu \<Rightarrow> thermo_store btb_cpu option" where
  "thermo_update_btb c fl env = update_btb_with (thermo_direct_update c fl env)"

definition thermo_prefetch_btb ::
  "btb_config \<Rightarrow> thermo_flags \<Rightarrow> thermo_env \<Rightarrow>
   u64 \<Rightarrow> u64 \<Rightarrow> u8 \<Rightarrow> bool \<Rightarrow> bool \<Rightarrow> thermo_store btb_cpu \<Rightarrow> thermo_store btb_cpu option" where
  "thermo_prefetch_btb c fl env = prefetch_btb_with (thermo_direct_prefetch c fl env)"

section \<open>Choosing a victim\<close>

text \<open>What the choice may change: the random position, the statistics, the untrained set.\<close>

definition same_btb :: "thermo_store \<Rightarrow> thermo_store \<Rightarrow> bool" where
  "same_btb st st' \<longleftrightarrow> thermo_btb st' = thermo_btb st \<and> branch_record st' = branch_record st \<and>
     sbuf st' = sbuf st"

lemma same_btb_refl [simp]: "same_btb st st" by (simp add: same_btb_def)

lemma same_btb_trans: "same_btb a b \<Longrightarrow> same_btb b c \<Longrightarrow> same_btb a c" by (simp add: same_btb_def)

lemma same_btb_rand [simp]: "same_btb st (snd (thermo_rand st))" by (simp add: same_btb_def thermo_rand_def)

definition min_step :: "(u64 \<times> thermo_entry) list \<Rightarrow> u64 \<times> u64 \<Rightarrow> u64 \<Rightarrow> u64 \<times> u64" where
  "min_step row = (\<lambda>(m, ip_min) ip. case map_of row ip of
      None \<Rightarrow> (m, ip_min) | Some e \<Rightarrow> if m > lru e then (lru e, ip) else (m, ip_min))"

lemma min_fold:
  "let (m', v) = foldl (min_step row) (m, v0) cs in
     m' \<le> m \<and> (\<forall>k\<in>set cs. \<forall>e. map_of row k = Some e \<longrightarrow> m' \<le> lru e) \<and>
     ((m', v) = (m, v0) \<or> v \<in> set cs \<and> (\<exists>e. map_of row v = Some e \<and> lru e = m'))"
proof (induction cs arbitrary: m v0)
  case (Cons k cs)
  obtain m1 v1 where 1: "min_step row (m, v0) k = (m1, v1)" by fastforce
  have s: "m1 \<le> m" "\<forall>e. map_of row k = Some e \<longrightarrow> m1 \<le> lru e"
    "(m1, v1) = (m, v0) \<or> v1 = k \<and> (\<exists>e. map_of row k = Some e \<and> lru e = m1)"
    using 1 by (auto simp: min_step_def split: option.splits if_splits)
  obtain m' v where 2: "foldl (min_step row) (m1, v1) cs = (m', v)" by fastforce
  have IH: "m' \<le> m1" "\<forall>k\<in>set cs. \<forall>e. map_of row k = Some e \<longrightarrow> m' \<le> lru e"
    "(m', v) = (m1, v1) \<or> v \<in> set cs \<and> (\<exists>e. map_of row v = Some e \<and> lru e = m')"
    using Cons.IH[of m1 v1] 2 by simp_all
  have "m' \<le> m" using IH(1) s(1) by simp
  moreover have "\<forall>e. map_of row k = Some e \<longrightarrow> m' \<le> lru e" using IH(1) s(2) order_trans by blast
  moreover have "(m', v) = (m, v0) \<or> v \<in> set (k # cs) \<and> (\<exists>e. map_of row v = Some e \<and> lru e = m')"
    using IH(3) s(3) by auto
  ultimately show ?case using 1 2 IH(2) by simp
qed simp

lemma find_lru_min_result:
  assumes "cs \<noteq> []" and "\<And>k e. map_of (thermo_btb st ! sx) k = Some e \<Longrightarrow> lru e < - 1"
  obtains v where "find_lru_min sx cs st = Some (v, snd (thermo_rand st))" "v \<in> set cs"
    "\<And>e k e'. map_of (thermo_btb st ! sx) v = Some e \<Longrightarrow> k \<in> set cs \<Longrightarrow>
      map_of (thermo_btb st ! sx) k = Some e' \<Longrightarrow> lru e \<le> lru e'"
proof -
  obtain r st1 where r: "thermo_rand st = (r, st1)" by fastforce
  have b: "thermo_btb st1 = thermo_btb st" using r by (auto simp: thermo_rand_def)
  let ?row = "thermo_btb st ! sx" and ?c = "cs ! (r mod length cs)"
  have c: "?c \<in> set cs" using assms(1) by simp
  show thesis
  proof (cases "map_of ?row ?c")
    case None
    show thesis
      by (rule that[of ?c]) (use None c r b assms(1) in \<open>simp_all add: find_lru_min_def\<close>)
  next
    case (Some e)
    obtain m v where mv: "foldl (min_step ?row) (- 1, 0) cs = (m, v)" by fastforce
    have f: "\<forall>k\<in>set cs. \<forall>e. map_of ?row k = Some e \<longrightarrow> m \<le> lru e"
      "(m, v) = (- 1, 0) \<or> v \<in> set cs \<and> (\<exists>e. map_of ?row v = Some e \<and> lru e = m)"
      using min_fold[of ?row "- 1" 0 cs] mv by simp_all
    have "m \<noteq> - 1" using f(1) c Some assms(2)[OF Some] by (metis leD)
    with f(2) have v: "v \<in> set cs" "\<exists>e. map_of ?row v = Some e \<and> lru e = m" by auto
    show thesis
    proof (rule that[OF _ v(1)])
      show "find_lru_min sx cs st = Some (v, snd (thermo_rand st))"
        using mv Some assms(1) r b by (simp add: find_lru_min_def min_step_def)
    qed (use v f(1) in auto)
  qed
qed

definition category :: "thermo_flags \<Rightarrow> hit_ratio \<Rightarrow> nat" where
  "category fl q =
     (let bs = category_boundary fl
      in case first_index (\<lambda>i. ratio_le q (Fin (bs ! i))) (length bs) of Some i \<Rightarrow> i | None \<Rightarrow> length bs)"

text \<open>The category of the branch being inserted; \<open>None\<close> when it is not a candidate.\<close>

definition curr_category :: "thermo_flags \<Rightarrow> hit_ratio \<Rightarrow> nat option" where
  "curr_category fl q =
     (let i = category fl q; n = length (category_boundary fl)
      in if \<not> curr_hotter fl then Some i
         else if i = n then None else if i + 1 = n then Some n else Some i)"

lemma length_boundary: "2 \<le> length (category_boundary fl)"
  by (simp add: category_boundary_def)

lemma category_bound: "category fl q \<le> length (category_boundary fl)"
  by (auto simp: category_def Let_def split: option.splits dest: first_index_SomeD)

lemma curr_category_bound: "curr_category fl q = Some i \<Longrightarrow> i \<le> length (category_boundary fl)"
  using category_bound[of fl q] by (auto simp: curr_category_def Let_def split: if_splits)

definition records_ok :: "thermo_store \<Rightarrow> bool" where
  "records_ok st \<longleftrightarrow> (\<forall>q\<in>ran (branch_record st). \<not> ratio_neg q)"

lemma double_div_nonneg [simp]: "\<not> ratio_neg (double_div a b)"
  by (simp add: double_div_def not_less)

lemma get_ratio_result:
  assumes "records_ok st"
  obtains q st' where "get_hit_access_ratio ip st = (q, st')" "same_btb st st'" "\<not> ratio_neg q"
    "\<And>x. branch_record st ip = Some x \<Longrightarrow> q = x"
proof (cases "branch_record st ip")
  case None
  let ?st = "st\<lparr>not_trained_branch_record := insert ip (not_trained_branch_record st)\<rparr>"
  obtain r st1 where r: "thermo_rand ?st = (r, st1)" by fastforce
  have "same_btb st st1" using r by (auto simp: thermo_rand_def same_btb_def)
  then show thesis
    using None r by (intro that[of "double_div r RAND_MAX" st1]) (simp_all add: get_hit_access_ratio_def)
next
  case (Some x)
  then show thesis
    using assms by (intro that[of x st]) (auto simp: get_hit_access_ratio_def records_ok_def ran_def)
qed

text \<open>The candidates by category, over the ratios \<open>f\<close> that were looked up or drawn.\<close>

lemma collect_result:
  assumes "records_ok st" "distinct ks" "length cand = num_category fl"
  shows "\<exists>f cand' st'. collect_candidates fl ks False (cand, dc, st) = (cand', dc, st') \<and> same_btb st st' \<and>
    length cand' = length cand \<and> (\<forall>k\<in>set ks. \<forall>q. branch_record st k = Some q \<longrightarrow> f k = q) \<and>
    (\<forall>i<length cand. cand' ! i = cand ! i @ filter (\<lambda>k. category fl (f k) = i) ks)"
  using assms
proof (induction ks arbitrary: cand st)
  case Nil
  show ?case by (simp add: collect_candidates_def)
next
  case (Cons k ks)
  obtain q st1 where q: "get_hit_access_ratio k st = (q, st1)" "same_btb st st1" "\<not> ratio_neg q"
    "\<And>x. branch_record st k = Some x \<Longrightarrow> q = x"
    using get_ratio_result[OF Cons.prems(1)] by metis
  let ?i = "category fl q"
  let ?cand = "cand[?i := cand ! ?i @ [k]]"
  have a: "add_to_candidate fl k False (cand, st) = (True, ?cand, st1)"
    using q(1,3) by (auto simp: add_to_candidate_def category_def Let_def split: option.splits)
  have ok1: "records_ok st1" using Cons.prems(1) q(2) by (simp add: records_ok_def same_btb_def)
  obtain f cand' st' where IH: "collect_candidates fl ks False (?cand, dc, st1) = (cand', dc, st')"
    "same_btb st1 st'" "length cand' = length ?cand"
    "\<forall>k\<in>set ks. \<forall>q. branch_record st1 k = Some q \<longrightarrow> f k = q"
    "\<forall>i<length ?cand. cand' ! i = ?cand ! i @ filter (\<lambda>k. category fl (f k) = i) ks"
    using Cons.IH[OF ok1, of ?cand] Cons.prems by (metis distinct.simps(2) length_list_update)
  let ?f = "f(k := q)"
  have "collect_candidates fl (k # ks) False (cand, dc, st) = (cand', dc, st')"
    using IH(1) a by (simp add: collect_candidates_def)
  moreover have "filter (\<lambda>j. category fl (?f j) = i) ks = filter (\<lambda>j. category fl (f j) = i) ks" for i
    using Cons.prems(2) by (intro filter_cong) auto
  then have "\<forall>i<length cand. cand' ! i = cand ! i @ filter (\<lambda>j. category fl (?f j) = i) (k # ks)"
    using IH(5) by (auto simp: nth_update_if)
  moreover have "\<forall>j\<in>set (k # ks). \<forall>x. branch_record st j = Some x \<longrightarrow> ?f j = x"
    using IH(4) q(2,4) Cons.prems(2) by (auto simp: same_btb_def)
  moreover have "length cand' = length cand" using IH(3) by simp
  ultimately show ?case using same_btb_trans[OF q(2) IH(2)]
    by (intro exI[of _ ?f] exI[of _ cand'] exI[of _ st']) simp
qed

lemma collect_curr_result:
  assumes "records_ok st" "length cand = num_category fl"
  shows "\<exists>q cand' st'. collect_candidates fl [ip] (curr_hotter fl) (cand, dc, st) = (cand', dc, st') \<and>
    same_btb st st' \<and> length cand' = length cand \<and> (\<forall>x. branch_record st ip = Some x \<longrightarrow> q = x) \<and>
    (\<forall>i<length cand. cand' ! i = cand ! i @ (if curr_category fl q = Some i then [ip] else []))"
proof -
  obtain q st1 where q: "get_hit_access_ratio ip st = (q, st1)" "same_btb st st1" "\<not> ratio_neg q"
    "\<And>x. branch_record st ip = Some x \<Longrightarrow> q = x"
    using get_ratio_result[OF assms(1)] by metis
  let ?cand = "case curr_category fl q of None \<Rightarrow> cand | Some i \<Rightarrow> cand[i := cand ! i @ [ip]]"
  have "add_to_candidate fl ip (curr_hotter fl) (cand, st) = (True, ?cand, st1)"
  proof (cases "first_index (\<lambda>i. ratio_le q (Fin (category_boundary fl ! i))) (length (category_boundary fl))")
    case None
    then have "category fl q = length (category_boundary fl)" by (simp add: category_def)
    with None q(1,3) show ?thesis by (simp add: add_to_candidate_def curr_category_def Let_def)
  next
    case (Some i)
    then have "category fl q = i" "i < length (category_boundary fl)"
      by (auto simp: category_def dest: first_index_SomeD)
    with Some q(1,3) show ?thesis by (simp add: add_to_candidate_def curr_category_def Let_def)
  qed
  then have "collect_candidates fl [ip] (curr_hotter fl) (cand, dc, st) = (?cand, dc, st1)"
    by (simp add: collect_candidates_def)
  moreover have "\<forall>i<length cand. ?cand ! i = cand ! i @ (if curr_category fl q = Some i then [ip] else [])"
    by (auto simp: nth_update_if split: option.splits)
  moreover have "length ?cand = length cand" by (simp split: option.splits)
  ultimately show ?thesis using q(2,4)
    by (intro exI[of _ q] exI[of _ ?cand] exI[of _ st1]) simp
qed

text \<open>The chosen victim, whatever the switches.\<close>

lemma taken_history_choice: "choose_taken_history fl cs sx st \<in> insert 0 (set cs)"
proof -
  let ?f = "\<lambda>(m, v) ip. case map_of (thermo_btb st ! sx) ip of None \<Rightarrow> (m, v)
      | Some e \<Rightarrow> (let j = get_loop_judge e in if j \<ge> 0 \<and> j < m then (j, ip) else (m, v))"
  have "snd (foldl ?f a cs) \<in> insert (snd a) (set cs)" for a :: "int \<times> u64"
  proof (induction cs arbitrary: a)
    case (Cons k cs)
    have "snd (?f a k) \<in> {k, snd a}" by (cases a) (auto simp: Let_def split: option.splits)
    with Cons.IH[of "?f a k"] show ?case by auto
  qed simp
  from this[of "(8, 0)"] show ?thesis by (simp add: choose_taken_history_def)
qed

lemma choose_one_category:
  assumes "cs \<noteq> []" and small: "\<And>k e. map_of (thermo_btb st ! sx) k = Some e \<Longrightarrow> lru e < - 1"
  obtains v st' where "choose_victim_one_category fl env sx cs ask st = Some (v, st')" "same_btb st st'"
    "v \<in> set cs" "\<And>e k e'. use_lru fl \<Longrightarrow> \<not> ask \<Longrightarrow> map_of (thermo_btb st ! sx) v = Some e \<Longrightarrow> k \<in> set cs \<Longrightarrow>
      map_of (thermo_btb st ! sx) k = Some e' \<Longrightarrow> lru e \<le> lru e'"
proof -
  let ?nt = "if ask then filter (\<lambda>k. predict_branch env k = 0) cs else []"
  let ?final = "if ?nt = [] then cs else ?nt"
  have final: "?final \<noteq> []" "set ?final \<subseteq> set cs" "\<not> ask \<Longrightarrow> ?final = cs" using assms(1) by auto
  show thesis
  proof (cases "use_lru fl")
    case True
    obtain v where v: "find_lru_min sx ?final st = Some (v, snd (thermo_rand st))" "v \<in> set ?final"
      "\<And>e k e'. map_of (thermo_btb st ! sx) v = Some e \<Longrightarrow> k \<in> set ?final \<Longrightarrow>
        map_of (thermo_btb st ! sx) k = Some e' \<Longrightarrow> lru e \<le> lru e'"
      by (rule find_lru_min_result[where st = st and sx = sx, OF final(1) small], assumption, rule that)
    show thesis
    proof (rule that[of v "snd (thermo_rand st)"])
      show "choose_victim_one_category fl env sx cs ask st = Some (v, snd (thermo_rand st))"
        using v(1) True unfolding choose_victim_one_category_def Let_def by simp
      show "v \<in> set cs" using v(2) final(2) by blast
      fix e k e' assume "\<not> ask" "map_of (thermo_btb st ! sx) v = Some e" "k \<in> set cs"
        "map_of (thermo_btb st ! sx) k = Some e'"
      then show "lru e \<le> lru e'" using v(3)[of e k e'] final(3) by simp
    qed simp
  next
    case False
    let ?h = "choose_taken_history fl ?final sx st"
    obtain r st1 where r: "thermo_rand st = (r, st1)" by fastforce
    have st1: "same_btb st st1" using r same_btb_rand[of st] by simp
    show thesis
    proof (cases "?h = 0")
      case True
      have "?final ! (r mod length ?final) \<in> set ?final" using final(1) by simp
      then have "?final ! (r mod length ?final) \<in> set cs" using final(2) by blast
      moreover have "choose_victim_one_category fl env sx cs ask st = Some (?final ! (r mod length ?final), st1)"
        using True False r final(1) unfolding choose_victim_one_category_def Let_def by simp
      ultimately show thesis using st1 False by (intro that) auto
    next
      case ne: False
      then have "?h \<in> set cs" using taken_history_choice[of fl ?final sx st] final(2) by auto
      moreover have "choose_victim_one_category fl env sx cs ask st = Some (?h, st)"
        using ne False unfolding choose_victim_one_category_def Let_def by simp
      ultimately show thesis using False by (intro that) auto
    qed
  qed
qed

text \<open>
  The whole choice: there are ratios \<open>f\<close>, the trained ones where there is a record, such that the
  victim is in the lowest category with a candidate.
\<close>

definition candidates_of :: "thermo_flags \<Rightarrow> (u64 \<Rightarrow> hit_ratio) \<Rightarrow> u64 \<Rightarrow> u64 list \<Rightarrow> nat \<Rightarrow> u64 list" where
  "candidates_of fl f ip ks i = filter (\<lambda>k. category fl (f k) = i) ks @
     (if consider_keep fl \<and> curr_category fl (f ip) = Some i then [ip] else [])"

lemma choose_general:
  assumes ok: "records_ok st" and d: "distinct (map fst (thermo_btb st ! sx))"
    and ip: "ip \<notin> fst ` set (thermo_btb st ! sx)" and ne: "thermo_btb st ! sx \<noteq> []"
    and small: "\<And>k e. map_of (thermo_btb st ! sx) k = Some e \<Longrightarrow> lru e < - 1"
  obtains f i v st' where "choose_victim_general fl env ip sx st = Some (v, st')" "same_btb st st'"
    "\<And>k q. branch_record st k = Some q \<Longrightarrow> k \<in> insert ip (fst ` set (thermo_btb st ! sx)) \<Longrightarrow> f k = q"
    "i < num_category fl" "v \<in> set (candidates_of fl f ip (map fst (thermo_btb st ! sx)) i)"
    "\<And>j. j < i \<Longrightarrow> candidates_of fl f ip (map fst (thermo_btb st ! sx)) j = []"
    "\<And>e k e'. use_lru fl \<Longrightarrow> \<not> judge_consider_taken fl i \<Longrightarrow> map_of (thermo_btb st ! sx) v = Some e \<Longrightarrow>
      k \<in> set (candidates_of fl f ip (map fst (thermo_btb st ! sx)) i) \<Longrightarrow>
      map_of (thermo_btb st ! sx) k = Some e' \<Longrightarrow> lru e \<le> lru e'"
proof -
  let ?ks = "map fst (thermo_btb st ! sx)" and ?n = "num_category fl"
  have l0: "length (replicate ?n ([] :: u64 list)) = ?n" by simp
  from collect_result[OF ok d l0, of "[]"] obtain f c1 st1 where
    c1: "collect_candidates fl ?ks False (replicate ?n [], [], st) = (c1, [], st1)" "same_btb st st1"
      "length c1 = ?n" "\<forall>k\<in>set ?ks. \<forall>q. branch_record st k = Some q \<longrightarrow> f k = q"
      "\<forall>i<?n. c1 ! i = filter (\<lambda>k. category fl (f k) = i) ?ks"
    by auto
  have ok1: "records_ok st1" using ok c1(2) by (simp add: records_ok_def same_btb_def)
  obtain q c2 st2 where c2: "(if consider_keep fl then collect_candidates fl [ip] (curr_hotter fl) (c1, [], st1)
        else (c1, [], st1)) = (c2, [], st2)" "same_btb st1 st2" "length c2 = ?n"
      "\<forall>x. branch_record st1 ip = Some x \<longrightarrow> q = x"
      "\<forall>i<?n. c2 ! i = c1 ! i @ (if consider_keep fl \<and> curr_category fl q = Some i then [ip] else [])"
  proof (cases "consider_keep fl")
    case True
    with collect_curr_result[OF ok1 c1(3), of ip "[]"] c1(3) show thesis by (auto intro: that)
  next
    case False
    then show thesis by (intro that[of c1 st1 "case branch_record st1 ip of Some x \<Rightarrow> x | None \<Rightarrow> NaN"])
        (simp_all add: c1(3))
  qed
  let ?f = "f(ip := q)"
  have b2: "same_btb st st2" using same_btb_trans[OF c1(2) c2(2)] .
  have fl: "filter (\<lambda>k. category fl (f k) = i) ?ks = filter (\<lambda>k. category fl (?f k) = i) ?ks" for i
    using ip by (intro filter_cong) auto
  have cand: "\<forall>i<?n. c2 ! i = candidates_of fl ?f ip ?ks i"
    using c1(5) c2(5) by (simp add: candidates_of_def fl)
  obtain k0 where k0: "k0 \<in> set ?ks" using ne by (cases "thermo_btb st ! sx") auto
  have "category fl (?f k0) < ?n" using category_bound[of fl] by (simp add: num_category_def le_imp_less_Suc)
  moreover have "c2 ! category fl (?f k0) \<noteq> []"
    using cand calculation k0 by (auto simp: candidates_of_def filter_empty_conv)
  ultimately obtain i where i: "first_index (\<lambda>i. c2 ! i \<noteq> []) ?n = Some i"
    using first_index_exI[of "category fl (?f k0)" ?n "\<lambda>i. c2 ! i \<noteq> []"] by blast
  have i': "i < ?n" "c2 ! i \<noteq> []" "\<forall>j<i. c2 ! j = []" using first_index_SomeD[OF i] by auto
  let ?st3 = "st2\<lparr>general_evict_counter := (general_evict_counter st2)[i := general_evict_counter st2 ! i + 1],
      general_total_counter := (general_total_counter st2)
        [i := general_total_counter st2 ! i + of_nat (length (c2 ! i @ []))]\<rparr>"
  have b3: "same_btb st ?st3" using b2 by (simp add: same_btb_def)
  then have small3: "\<And>k e. map_of (thermo_btb ?st3 ! sx) k = Some e \<Longrightarrow> lru e < - 1"
    using small by (simp add: same_btb_def)
  obtain v st' where v: "choose_victim_one_category fl env sx (c2 ! i) (judge_consider_taken fl i) ?st3 = Some (v, st')"
    "same_btb ?st3 st'" "v \<in> set (c2 ! i)"
    "\<And>e k e'. use_lru fl \<Longrightarrow> \<not> judge_consider_taken fl i \<Longrightarrow> map_of (thermo_btb ?st3 ! sx) v = Some e \<Longrightarrow>
      k \<in> set (c2 ! i) \<Longrightarrow> map_of (thermo_btb ?st3 ! sx) k = Some e' \<Longrightarrow> lru e \<le> lru e'"
    by (rule choose_one_category[where st = ?st3 and sx = sx and fl = fl and env = env
          and ask = "judge_consider_taken fl i", OF i'(2) small3], assumption, rule that)
  show thesis
  proof (rule that[of v st' ?f i])
    show "choose_victim_general fl env ip sx st = Some (v, st')"
      using v(1) i c1(1) c2(1,3) by (simp add: choose_victim_general_def Let_def)
    show "same_btb st st'" by (rule same_btb_trans[OF b3 v(2)])
    show "?f k = x" if "branch_record st k = Some x" "k \<in> insert ip (fst ` set (thermo_btb st ! sx))" for k x
      using that c1(2,4) c2(4) by (auto simp: same_btb_def)
    show "v \<in> set (candidates_of fl ?f ip ?ks i)" using v(3) cand i'(1) by simp
    show "candidates_of fl ?f ip ?ks j = []" if "j < i" for j using i'(1,3) cand that by auto
    show "lru e \<le> lru e'" if "use_lru fl" "\<not> judge_consider_taken fl i" "map_of (thermo_btb st ! sx) v = Some e"
      "k \<in> set (candidates_of fl ?f ip ?ks i)" "map_of (thermo_btb st ! sx) k = Some e'" for e k e'
      using v(4)[of e k e'] that cand i'(1) b3 by (simp add: same_btb_def)
  qed (rule i'(1))
qed

lemma sort_victim_result:
  assumes ok: "records_ok st" and keep: "consider_keep fl"
  obtains v st' where "sort_choose_victim fl env ip sx st = (v, st')" "same_btb st st'"
    "v \<in> insert ip (fst ` set (thermo_btb st ! sx))"
proof -
  let ?f = "\<lambda>(m, min_ip, st) k. let (q, st) = get_hit_access_ratio k st
      in if ratio_le q m then (q, k, st) else (m, min_ip, st)"
  have fold: "same_btb s (snd (snd (foldl ?f (m, v, s) ks))) \<and>
      fst (snd (foldl ?f (m, v, s) ks)) \<in> insert v (set ks)" if "records_ok s" for m v s ks
    using that
  proof (induction ks arbitrary: m v s)
    case (Cons k ks)
    obtain q s1 where q: "get_hit_access_ratio k s = (q, s1)" "same_btb s s1"
      using get_ratio_result[OF Cons.prems] by metis
    then have ok1: "records_ok s1" using Cons.prems by (simp add: records_ok_def same_btb_def)
    show ?case
      using Cons.IH[OF ok1, of q k] Cons.IH[OF ok1, of m v] q same_btb_trans[OF q(2)] by auto
  qed simp
  obtain q s1 where q: "get_hit_access_ratio ip st = (q, s1)" "same_btb st s1"
    using get_ratio_result[OF ok] by metis
  then have ok1: "records_ok s1" using ok by (simp add: records_ok_def same_btb_def)
  obtain m v st' where r: "foldl ?f (q, ip, s1) (map fst (thermo_btb st ! sx)) = (m, v, st')"
    by (rule prod_cases3)
  have "sort_choose_victim fl env ip sx st = (v, st')"
    using q r keep by (simp add: sort_choose_victim_def same_btb_def)
  moreover have "same_btb s1 st'" "v \<in> insert ip (fst ` set (thermo_btb st ! sx))"
    using fold[OF ok1, of q ip "map fst (thermo_btb st ! sx)"] r by auto
  ultimately show thesis using that same_btb_trans[OF q(2)] by blast
qed

section \<open>Invariant\<close>

definition entry_ok :: "nat \<Rightarrow> u64 \<times> thermo_entry \<Rightarrow> bool" where
  "entry_ok n p \<longleftrightarrow> fst p \<noteq> 0 \<and> unat (lru (snd p)) \<le> n \<and> length (taken_history (snd p)) \<le> 8"

definition thermo_inv ::
  "btb_config \<Rightarrow> (u64 \<rightharpoonup> hit_ratio) \<Rightarrow> nat \<Rightarrow> thermo_store \<Rightarrow> bool" where
  "thermo_inv c R n st \<longleftrightarrow> config_ok c \<and> sets_ok (unat (BASIC_BTB_SETS c)) (BASIC_BTB_WAYS c) (thermo_btb st) \<and>
     sb_ok (sbuf st) \<and> records_ok st \<and>
     branch_record st = R \<and> (\<forall>row\<in>set (thermo_btb st). \<forall>p\<in>set row. entry_ok n p)"

definition thermo_lookup :: "btb_config \<Rightarrow> thermo_store \<Rightarrow> u64 \<Rightarrow> u64 option" where
  "thermo_lookup c st ip = map_option target (set_find (thermo_set_index c) (thermo_btb st) ip)"

definition thermo_keys :: "nat \<Rightarrow> thermo_store \<Rightarrow> u64 set" where
  "thermo_keys sx st = fst ` set (thermo_btb st ! sx)"

lemma thermo_index_bound: "config_ok c \<Longrightarrow> thermo_set_index c ip < unat (BASIC_BTB_SETS c)"
  by (simp add: thermo_set_index_def config_ok_def unat_mod_bound)

lemma thermo_invD:
  assumes "thermo_inv c R n st"
  shows "thermo_set_index c ip < length (thermo_btb st)"
    "distinct (map fst (thermo_btb st ! thermo_set_index c ip))"
    "length (thermo_btb st ! thermo_set_index c ip) \<le> BASIC_BTB_WAYS c"
    "p \<in> set (thermo_btb st ! thermo_set_index c ip) \<Longrightarrow> entry_ok n p"
  using assms thermo_index_bound[of c ip] by (auto simp: thermo_inv_def sets_ok_def)

lemma entry_ok_later: "entry_ok n p \<Longrightarrow> n \<le> m \<Longrightarrow> entry_ok m p"
  by (simp add: entry_ok_def)

lemma thermo_inv_row:
  assumes "thermo_inv c R n st" "n \<le> m" "distinct (map fst row)" "length row \<le> BASIC_BTB_WAYS c"
    "\<And>p. p \<in> set row \<Longrightarrow> entry_ok m p" "thermo_btb st' = (thermo_btb st)[sx := row]"
    "sb_ok (sbuf st')" "branch_record st' = branch_record st"
  shows "thermo_inv c R m st'"
proof -
  have "entry_ok m p" if "r \<in> set (thermo_btb st')" "p \<in> set r" for r p
  proof (cases "r = row")
    case True
    with that(2) assms(5) show ?thesis by simp
  next
    case False
    then have "r \<in> set (thermo_btb st)"
      using that(1) set_update_subset_insert[of "thermo_btb st" sx row] assms(6) by auto
    with that(2) assms(1,2) show ?thesis by (auto simp: thermo_inv_def intro: entry_ok_later)
  qed
  with assms show ?thesis by (auto simp: thermo_inv_def records_ok_def intro: sets_ok_update)
qed

lemma thermo_inv_later: "thermo_inv c R n st \<Longrightarrow> n \<le> m \<Longrightarrow> thermo_inv c R m st"
  by (auto simp: thermo_inv_def intro: entry_ok_later)

lemma thermo_inv_same:
  "thermo_inv c R n st \<Longrightarrow> same_btb st st' \<Longrightarrow> thermo_inv c R n st'"
  by (simp add: thermo_inv_def same_btb_def records_ok_def)

lemma thermo_inv_sbuf: "thermo_inv c R n st \<Longrightarrow> sb_ok sb \<Longrightarrow> thermo_inv c R n (st\<lparr>sbuf := sb\<rparr>)"
  by (simp add: thermo_inv_def records_ok_def)

lemma map_of_entry_ok: "thermo_inv c R n st \<Longrightarrow> map_of (thermo_btb st ! thermo_set_index c ip) k = Some e \<Longrightarrow>
  entry_ok n (k, e)"
  using thermo_invD(4)[of c R n st "(k, e)" ip] by (auto dest: map_of_SomeD)

lemma small_lru: "entry_ok n (k, e) \<Longrightarrow> n < 2 ^ 64 - 1 \<Longrightarrow> lru e < - 1"
  by (simp add: entry_ok_def word_less_nat_alt)

text \<open>Stamping a stored branch as the most recent of its set.\<close>

lemma max_fold:
  "(\<And>p. p \<in> set row \<Longrightarrow> unat (lru (snd p)) \<le> n) \<Longrightarrow> unat m \<le> n \<Longrightarrow>
   unat (foldl (\<lambda>m p. if m < lru (snd p) then lru (snd p) else m) m row) \<le> n"
  by (induction row arbitrary: m) auto

lemma set_value_entry_ok:
  assumes "\<And>p. p \<in> set row \<Longrightarrow> entry_ok n p" "\<And>e. (k, e) \<in> set row \<Longrightarrow> entry_ok m (k, f e)" "n \<le> m"
    "p \<in> set (set_value k f row)"
  shows "entry_ok m p"
proof -
  obtain j v where "(j, v) \<in> set row" "p = (if j = k then (j, f v) else (j, v))"
    using assms(4) by (auto simp: set_value_def)
  with assms(1)[of "(j, v)"] assms(2)[of v] assms(3) show ?thesis
    by (auto intro: entry_ok_later split: if_splits)
qed

lemma thermo_update_lru_law:
  assumes inv: "thermo_inv c R n st" and n: "n < 2 ^ 64 - 1"
    and some: "set_find (thermo_set_index c) (thermo_btb st) ip = Some e"
  obtains st' where "thermo_update_lru c ip st = Some st'" "thermo_inv c R (Suc n) st'"
    "\<And>k. thermo_lookup c st' k = thermo_lookup c st k" "\<And>r. thermo_keys r st' = thermo_keys r st"
proof -
  let ?sx = "thermo_set_index c ip" and ?row = "thermo_btb st ! thermo_set_index c ip"
  note d = thermo_invD(1-3)[OF inv, of ip] thermo_invD(4)[OF inv]
  define mx where "mx = foldl (\<lambda>m p. if m < lru (snd p) then lru (snd p) else m) 0 ?row"
  have mx: "unat mx \<le> n" unfolding mx_def using d(4) by (intro max_fold) (auto simp: entry_ok_def)
  then have m1: "unat (mx + 1) \<le> Suc n" using n by (simp add: unat_word_ariths)
  have e: "entry_ok (Suc n) p" if "p \<in> set (set_value ip (\<lambda>e. e\<lparr>lru := mx + 1\<rparr>) ?row)" for p
  proof (rule set_value_entry_ok[OF _ _ _ that])
    show "entry_ok n q" if "q \<in> set ?row" for q by (rule d(4)[OF that])
    show "entry_ok (Suc n) (ip, e\<lparr>lru := mx + 1\<rparr>)" if "(ip, e) \<in> set ?row" for e
      using d(4)[OF that] m1 by (simp add: entry_ok_def)
  qed simp
  let ?st' = "st\<lparr>thermo_btb := (thermo_btb st)[?sx := set_value ip (\<lambda>e. e\<lparr>lru := mx + 1\<rparr>) ?row]\<rparr>"
  have "thermo_inv c R (Suc n) ?st'"
    by (rule thermo_inv_row[OF inv _ _ _ e]) (use d inv in \<open>auto simp: thermo_inv_def\<close>)
  moreover have "thermo_lookup c ?st' k = thermo_lookup c st k" for k
    using set_find_set_value[where idx = "thermo_set_index c" and k = ip, OF d(1)] some
    by (simp add: thermo_lookup_def)
  moreover have "thermo_keys r ?st' = thermo_keys r st" for r
    using d(1) by (simp add: thermo_keys_def nth_list_update)
  ultimately show thesis
    using some by (intro that[of ?st']) (simp_all add: thermo_update_lru_def mx_def set_find_def Let_def)
qed

text \<open>Rewriting a stored entry, tag of the pair kept.\<close>

lemma thermo_set_entry:
  assumes inv: "thermo_inv c R n st" and some: "set_find (thermo_set_index c) (thermo_btb st) ip = Some e"
    and f: "lru (f e) = lru e" "length (taken_history (f e)) \<le> 8"
    and st': "st' = st\<lparr>thermo_btb := (thermo_btb st)
       [thermo_set_index c ip := set_value ip f (thermo_btb st ! thermo_set_index c ip)]\<rparr>"
  shows "thermo_inv c R n st'"
    "set_find (thermo_set_index c) (thermo_btb st') ip = Some (f e)"
    "thermo_lookup c st' k = (if k = ip then Some (target (f e)) else thermo_lookup c st k)"
    "thermo_keys r st' = thermo_keys r st"
proof -
  let ?row = "thermo_btb st ! thermo_set_index c ip"
  note d = thermo_invD(1-3)[OF inv, of ip] thermo_invD(4)[OF inv]
  have e: "entry_ok n p" if "p \<in> set (set_value ip f ?row)" for p
  proof (rule set_value_entry_ok[OF _ _ _ that])
    show "entry_ok n q" if "q \<in> set ?row" for q by (rule d(4)[OF that])
    fix x assume x: "(ip, x) \<in> set ?row"
    then have "x = e" using some d(2) by (simp add: set_find_def)
    with d(4)[OF x] f show "entry_ok n (ip, f x)" by (simp add: entry_ok_def)
  qed simp
  show "thermo_inv c R n st'"
    by (rule thermo_inv_row[OF inv _ _ _ e]) (use d inv st' in \<open>auto simp: thermo_inv_def\<close>)
  note s = set_find_set_value[where idx = "thermo_set_index c" and k = ip and f = f, OF d(1)]
  show "set_find (thermo_set_index c) (thermo_btb st') ip = Some (f e)" using s some st' by simp
  show "thermo_lookup c st' k = (if k = ip then Some (target (f e)) else thermo_lookup c st k)"
    using s some st' by (simp add: thermo_lookup_def)
  show "thermo_keys r st' = thermo_keys r st" using d(1) st' by (simp add: thermo_keys_def nth_list_update)
qed

lemma thermo_find_law:
  assumes inv: "thermo_inv c R n st"
  obtains (miss) "thermo_find_btb_entry c ip st = (None, st)" "thermo_lookup c st ip = None"
      "set_find (thermo_set_index c) (thermo_btb st) ip = None"
  | (hit) e st' where "thermo_find_btb_entry c ip st = (Some (e\<lparr>rrpv := 0\<rparr>), st')" "thermo_inv c R n st'"
      "set_find (thermo_set_index c) (thermo_btb st') ip = Some (e\<lparr>rrpv := 0\<rparr>)"
      "thermo_lookup c st ip = Some (target e)" "\<And>k. thermo_lookup c st' k = thermo_lookup c st k"
      "length (taken_history e) \<le> 8" "sbuf st' = sbuf st"
proof (cases "set_find (thermo_set_index c) (thermo_btb st) ip")
  case None
  then show thesis by (intro miss) (simp_all add: thermo_find_btb_entry_def thermo_lookup_def set_find_def Let_def)
next
  case (Some e)
  have "entry_ok n (ip, e)" using map_of_entry_ok[OF inv] Some by (simp add: set_find_def)
  then have h: "length (taken_history e) \<le> 8" by (simp add: entry_ok_def)
  let ?f = "\<lambda>e. e\<lparr>rrpv := 0\<rparr>"
  have f: "lru (?f e) = lru e" "length (taken_history (?f e)) \<le> 8" using h by simp_all
  note a = thermo_set_entry[where f = ?f, OF inv Some f refl]
  have look: "thermo_lookup c st ip = Some (target e)" using Some by (simp add: thermo_lookup_def)
  show thesis
  proof (rule hit[OF _ a(1) _ look _ h])
    show "thermo_lookup c (st\<lparr>thermo_btb := (thermo_btb st)[thermo_set_index c ip :=
        set_value ip ?f (thermo_btb st ! thermo_set_index c ip)]\<rparr>) k = thermo_lookup c st k" for k
      using a(3)[of k] look by simp
  qed (use Some a(2) in \<open>simp_all add: thermo_find_btb_entry_def set_find_def Let_def\<close>)
qed

lemma thermo_refresh_law:
  assumes inv: "thermo_inv c R n st" and n: "n < 2 ^ 64 - 1"
    and some: "set_find (thermo_set_index c) (thermo_btb st) ip = Some e"
  shows "\<exists>st'. thermo_refresh c ip tk t h e st = Some st' \<and> thermo_inv c R (Suc n) st' \<and>
    (\<forall>k. thermo_lookup c st' k = (if k = ip \<and> tk then Some t else thermo_lookup c st k))"
proof -
  have len: "length (taken_history e) \<le> 8"
    using map_of_entry_ok[OF inv] some by (fastforce simp: set_find_def entry_ok_def)
  define e1 where "e1 = (if \<not> tk then e\<lparr>rrpv := 0, always_taken := 0\<rparr> else e\<lparr>rrpv := 0, target := t\<rparr>)"
  have e1: "lru e1 = lru e" "taken_history e1 = taken_history e" "target e1 = (if tk then t else target e)"
    by (simp_all add: e1_def)
  obtain e2 where e2: "(if h then add_to_taken_history tk e1 else Some e1) = Some e2"
    "lru e2 = lru e" "length (taken_history e2) \<le> 8" "target e2 = (if tk then t else target e)"
  proof (cases h)
    case True
    let ?h = "if length (taken_history e) \<ge> 8 then tl (taken_history e) else taken_history e"
    show thesis
      by (rule that[of "e1\<lparr>taken_history := ?h @ [tk]\<rparr>"])
        (use True len e1 in \<open>simp_all add: add_to_taken_history_def Let_def\<close>)
  next
    case False
    show thesis by (rule that[of e1]) (use False len e1 in simp_all)
  qed
  let ?st1 = "st\<lparr>thermo_btb := (thermo_btb st)
     [thermo_set_index c ip := set_value ip (\<lambda>_. e2) (thermo_btb st ! thermo_set_index c ip)]\<rparr>"
  note a = thermo_set_entry[OF inv some, of "\<lambda>_. e2", OF e2(2,3) refl]
  obtain st' where u: "thermo_update_lru c ip ?st1 = Some st'" "thermo_inv c R (Suc n) st'"
    "\<And>k. thermo_lookup c st' k = thermo_lookup c ?st1 k"
    by (rule thermo_update_lru_law[OF a(1) n a(2)]) (rule that)
  have "thermo_refresh c ip tk t h e st = Some st'"
    unfolding thermo_refresh_def Let_def e1_def[symmetric] e2(1) using u(1) by simp
  moreover have "thermo_lookup c st ip = Some (target e)" using some by (simp add: thermo_lookup_def)
  ultimately show ?thesis using u a(3) e2(4) by auto
qed

lemma thermo_add_law:
  assumes e: "emplace_law (emplace env)" and inv: "thermo_inv c R n st" and n: "n < 2 ^ 64 - 1" and ip: "ip \<noteq> 0"
    and fresh: "ip \<notin> thermo_keys (thermo_set_index c ip) st"
    and room: "length (thermo_btb st ! thermo_set_index c ip) < BASIC_BTB_WAYS c"
  obtains st' where "thermo_update_lru c ip (st\<lparr>thermo_btb := (thermo_btb st)[thermo_set_index c ip :=
        emplace env (ip, new_thermo_entry ip t) (thermo_btb st ! thermo_set_index c ip)]\<rparr>) = Some st'"
    "thermo_inv c R (Suc n) st'" "thermo_lookup c st' ip = Some t"
    "\<And>k. k \<noteq> ip \<Longrightarrow> thermo_lookup c st' k = thermo_lookup c st k"
    "thermo_keys (thermo_set_index c ip) st' = insert ip (thermo_keys (thermo_set_index c ip) st)"
proof -
  let ?sx = "thermo_set_index c ip" and ?row = "thermo_btb st ! thermo_set_index c ip"
  let ?new = "new_thermo_entry ip t"
  note d = thermo_invD(1-3)[OF inv, of ip] thermo_invD(4)[OF inv]
  have none: "map_of ?row ip = None" using fresh by (simp add: thermo_keys_def map_of_eq_None_iff)
  note em = emplaceD[OF e d(2) none, of ?new]
  let ?st1 = "st\<lparr>thermo_btb := (thermo_btb st)[?sx := emplace env (ip, ?new) ?row]\<rparr>"
  have eo: "entry_ok n p" if "p \<in> set (emplace env (ip, ?new) ?row)" for p
  proof (cases "p = (ip, ?new)")
    case True
    then show ?thesis using ip by (simp add: entry_ok_def new_thermo_entry_def)
  next
    case False
    then have "p \<in> set ?row" using that em(4) by simp
    then show ?thesis by (rule d(4))
  qed
  have inv1: "thermo_inv c R n ?st1"
    by (rule thermo_inv_row[OF inv _ em(1) _ eo]) (use em(2) room inv in \<open>auto simp: thermo_inv_def\<close>)
  have f1: "set_find (thermo_set_index c) (thermo_btb ?st1) k =
      (if k = ip then Some ?new else set_find (thermo_set_index c) (thermo_btb st) k)" for k
    using em(3) d(1) by (auto simp: set_find_update) (simp_all add: set_find_def)
  obtain st' where u: "thermo_update_lru c ip ?st1 = Some st'" "thermo_inv c R (Suc n) st'"
    "\<And>k. thermo_lookup c st' k = thermo_lookup c ?st1 k" "\<And>r. thermo_keys r st' = thermo_keys r ?st1"
    by (rule thermo_update_lru_law[OF inv1 n, of ip ?new]) (use f1 that in auto)
  show thesis
  proof (rule that[OF u(1,2)])
    show "thermo_lookup c st' ip = Some t" using u(3) f1 by (simp add: thermo_lookup_def new_thermo_entry_def)
    show "k \<noteq> ip \<Longrightarrow> thermo_lookup c st' k = thermo_lookup c st k" for k
      using u(3) f1 by (simp add: thermo_lookup_def)
    show "thermo_keys ?sx st' = insert ip (thermo_keys ?sx st)"
      using u(4) em(4) d(1) by (simp add: thermo_keys_def)
  qed
qed

lemma thermo_erase_law:
  assumes inv: "thermo_inv c R n st" and sx: "sx = thermo_set_index c ip" and v: "v \<in> thermo_keys sx st"
    and st': "st' = st\<lparr>thermo_btb := (thermo_btb st)[sx := erase_key v (thermo_btb st ! sx)]\<rparr>"
  shows "thermo_inv c R n st'" "thermo_keys sx st' = thermo_keys sx st - {v}"
    "length (thermo_btb st' ! sx) < BASIC_BTB_WAYS c"
    "thermo_lookup c st' k = Some u \<Longrightarrow> thermo_lookup c st k = Some u"
proof -
  let ?row = "thermo_btb st ! sx"
  note d = thermo_invD(1-3)[OF inv, of ip, folded sx] thermo_invD(4)[OF inv, of _ ip, folded sx]
  have eo: "entry_ok n p" if "p \<in> set (erase_key v ?row)" for p
    using that d(4) by (auto simp: erase_key_def)
  show "thermo_inv c R n st'"
    by (rule thermo_inv_row[OF inv _ distinct_erase_key[OF d(2)] _ eo])
      (use st' inv d(3) length_erase_key_le[of v ?row] in \<open>auto simp: thermo_inv_def\<close>)
  show "thermo_keys sx st' = thermo_keys sx st - {v}" using st' d(1) by (simp add: thermo_keys_def)
  show "length (thermo_btb st' ! sx) < BASIC_BTB_WAYS c"
    using st' d length_erase_key[OF d(2), of v] v by (simp add: thermo_keys_def)
  show "thermo_lookup c st' k = Some u \<Longrightarrow> thermo_lookup c st k = Some u"
    using d(1) st' by (auto simp: thermo_lookup_def set_find_def nth_list_update split: if_splits)
qed

text \<open>
  Inserting a missing branch never fails: there is room, or a branch of the set is replaced, or
  the new branch itself is the victim.
\<close>

lemma thermo_insert_cases:
  assumes e: "emplace_law (emplace env)" and keep: "sort_hit_access fl \<longrightarrow> consider_keep fl"
    and inv: "thermo_inv c R n st" and n: "n < 2 ^ 64 - 1" and ip: "ip \<noteq> 0"
    and none: "set_find (thermo_set_index c) (thermo_btb st) ip = None"
    and sx: "sx = thermo_set_index c ip"
  obtains (room) st' where "length (thermo_btb st ! sx) < BASIC_BTB_WAYS c"
      "thermo_insert c fl env ip t st = Some st'" "thermo_inv c R (Suc n) st'"
      "thermo_keys sx st' = insert ip (thermo_keys sx st)"
      "\<And>k u. thermo_lookup c st' k = Some u \<Longrightarrow> if k = ip then u = t else thermo_lookup c st k = Some u"
  | (bypass) st' where "length (thermo_btb st ! sx) = BASIC_BTB_WAYS c"
      "(if sort_hit_access fl then Some (sort_choose_victim fl env ip sx st)
        else choose_victim_general fl env ip sx st) = Some (ip, st')"
      "thermo_insert c fl env ip t st = Some st'" "thermo_inv c R n st'" "same_btb st st'"
  | (evict) v st1 st' where "length (thermo_btb st ! sx) = BASIC_BTB_WAYS c"
      "(if sort_hit_access fl then Some (sort_choose_victim fl env ip sx st)
        else choose_victim_general fl env ip sx st) = Some (v, st1)"
      "thermo_insert c fl env ip t st = Some st'" "thermo_inv c R (Suc n) st'" "v \<in> thermo_keys sx st"
      "thermo_keys sx st' = insert ip (thermo_keys sx st - {v})"
      "\<And>k u. thermo_lookup c st' k = Some u \<Longrightarrow> if k = ip then u = t else thermo_lookup c st k = Some u"
proof -
  note d = thermo_invD(1-3)[OF inv, of ip, folded sx]
  have fresh: "ip \<notin> thermo_keys sx st"
    using none sx by (simp add: set_find_def map_of_eq_None_iff thermo_keys_def)
  have m: "map_of (thermo_btb st ! sx) ip = None" using none sx by (simp add: set_find_def)
  let ?ch = "if sort_hit_access fl then Some (sort_choose_victim fl env ip sx st)
      else choose_victim_general fl env ip sx st"
  show thesis
  proof (cases "length (thermo_btb st ! sx) < BASIC_BTB_WAYS c")
    case True
    obtain st' where a: "thermo_update_lru c ip (st\<lparr>thermo_btb := (thermo_btb st)[sx :=
          emplace env (ip, new_thermo_entry ip t) (thermo_btb st ! sx)]\<rparr>) = Some st'"
      "thermo_inv c R (Suc n) st'" "thermo_lookup c st' ip = Some t"
      "\<And>k. k \<noteq> ip \<Longrightarrow> thermo_lookup c st' k = thermo_lookup c st k"
      "thermo_keys sx st' = insert ip (thermo_keys sx st)"
      using thermo_add_law[OF e inv n ip, folded sx, OF fresh True, of t] by metis
    have "thermo_insert c fl env ip t st = Some st'"
      using True a(1) d(1) m by (simp add: thermo_insert_def Let_def sx[symmetric])
    moreover have "if k = ip then u = t else thermo_lookup c st k = Some u"
      if "thermo_lookup c st' k = Some u" for k u
      using a(3) a(4)[of k] that by (cases "k = ip") simp_all
    ultimately show thesis by (rule room[OF True _ a(2,5)])
  next
    case False
    then have full: "length (thermo_btb st ! sx) = BASIC_BTB_WAYS c" using d(3) by simp
    have ok: "records_ok st" "0 < BASIC_BTB_WAYS c" using inv by (simp_all add: thermo_inv_def config_ok_def)
    have ne: "thermo_btb st ! sx \<noteq> []" using full ok(2) by auto
    have small: "lru x < - 1" if "map_of (thermo_btb st ! sx) k = Some x" for k x
      using small_lru[OF map_of_entry_ok[OF inv, of ip k x, folded sx, OF that] n] .
    obtain v st1 where v: "?ch = Some (v, st1)" "same_btb st st1" "v \<in> insert ip (thermo_keys sx st)"
    proof (cases "sort_hit_access fl")
      case True
      with keep obtain v st1 where "sort_choose_victim fl env ip sx st = (v, st1)" "same_btb st st1"
        "v \<in> insert ip (fst ` set (thermo_btb st ! sx))"
        using sort_victim_result[OF ok(1)] by metis
      with True show thesis by (intro that) (simp_all add: thermo_keys_def)
    next
      case False
      obtain f i v st1 where "choose_victim_general fl env ip sx st = Some (v, st1)" "same_btb st st1"
        "v \<in> set (candidates_of fl f ip (map fst (thermo_btb st ! sx)) i)"
        by (rule choose_general[OF ok(1) d(2) fresh[unfolded thermo_keys_def] ne small])
      with False show thesis by (intro that) (auto simp: candidates_of_def thermo_keys_def split: if_splits)
    qed
    have inv1: "thermo_inv c R n st1" by (rule thermo_inv_same[OF inv v(2)])
    have keys1: "thermo_keys r st1 = thermo_keys r st" "thermo_lookup c st1 k = thermo_lookup c st k" for r k
      using v(2) by (simp_all add: same_btb_def thermo_keys_def thermo_lookup_def)
    have "v \<noteq> 0"
    proof (cases "v = ip")
      case False
      with v(3) obtain x where "(v, x) \<in> set (thermo_btb st ! sx)" by (auto simp: thermo_keys_def)
      then have "entry_ok n (v, x)" using thermo_invD(4)[OF inv, of _ ip, folded sx] by simp
      then show ?thesis by (simp add: entry_ok_def)
    qed (use ip in simp)
    show thesis
    proof (cases "v = ip")
      case True
      have "thermo_insert c fl env ip t st = Some st1"
        using True False d(1) m v(1) ip by (simp add: thermo_insert_def Let_def sx[symmetric])
      from bypass[OF full v(1)[unfolded True] this inv1 v(2)] show thesis .
    next
      case ne: False
      with v(3) keys1 have vin: "v \<in> thermo_keys sx st1" by simp
      let ?st2 = "st1\<lparr>thermo_btb := (thermo_btb st1)[sx := erase_key v (thermo_btb st1 ! sx)]\<rparr>"
      note er = thermo_erase_law[OF inv1 sx vin refl]
      have fresh2: "ip \<notin> thermo_keys sx ?st2" using er(2) fresh keys1 by simp
      obtain st' where a: "thermo_update_lru c ip (?st2\<lparr>thermo_btb := (thermo_btb ?st2)[sx :=
            emplace env (ip, new_thermo_entry ip t) (thermo_btb ?st2 ! sx)]\<rparr>) = Some st'"
        "thermo_inv c R (Suc n) st'" "thermo_lookup c st' ip = Some t"
        "\<And>k. k \<noteq> ip \<Longrightarrow> thermo_lookup c st' k = thermo_lookup c ?st2 k"
        "thermo_keys sx st' = insert ip (thermo_keys sx ?st2)"
        using thermo_add_law[OF e er(1) n ip, folded sx, OF fresh2 er(3), of t] by metis
      have "thermo_insert c fl env ip t st = Some st'"
        using False d(1) m v(1) \<open>v \<noteq> 0\<close> ne a(1) er(3)
        by (simp add: thermo_insert_def Let_def sx[symmetric] del: thermo_store.simps)
      moreover have "v \<in> thermo_keys sx st" "thermo_keys sx st' = insert ip (thermo_keys sx st - {v})"
        using vin keys1(1) a(5) er(2) by simp_all
      moreover have "if k = ip then u = t else thermo_lookup c st k = Some u"
        if "thermo_lookup c st' k = Some u" for k u
        using a(3) a(4)[of k] er(4)[of k u] keys1(2)[of k] that by (cases "k = ip") simp_all
      ultimately show thesis by (rule evict[OF full v(1) _ a(2)])
    qed
  qed
qed

section \<open>The direct-branch laws\<close>

lemma thermo_predict_law:
  assumes inv: "thermo_inv c R n st"
  shows "\<exists>r st'. thermo_direct_predict c ip st = Some (r, st') \<and> thermo_inv c R (Suc n) st' \<and>
    (\<forall>k. thermo_lookup c st' k = thermo_lookup c st k) \<and> (\<forall>t. thermo_lookup c st ip = Some t \<longrightarrow> fst r = t)"
  using inv
proof (cases rule: thermo_find_law[of c R n st ip])
  case miss
  then show ?thesis using thermo_inv_later[OF inv, of "Suc n"] by (simp add: thermo_direct_predict_def)
next
  case (hit e st')
  then show ?thesis using thermo_inv_later[of c R n st' "Suc n"] by (simp add: thermo_direct_predict_def)
qed

text \<open>What an insertion promises, whichever of its three cases it takes.\<close>

lemma thermo_insert_law:
  assumes "emplace_law (emplace env)" "sort_hit_access fl \<longrightarrow> consider_keep fl"
    and "thermo_inv c R n st" "n < 2 ^ 64 - 1" "ip \<noteq> 0"
    and "set_find (thermo_set_index c) (thermo_btb st) ip = None"
  shows "\<exists>st'. thermo_insert c fl env ip t st = Some st' \<and> thermo_inv c R (Suc n) st' \<and>
    (\<forall>k u. thermo_lookup c st' k = Some u \<longrightarrow> (if k = ip then u = t else thermo_lookup c st k = Some u))"
  using assms refl
proof (cases rule: thermo_insert_cases[of env fl c R n st ip "thermo_set_index c ip" t])
  case (bypass st')
  then have "thermo_lookup c st' k = thermo_lookup c st k" for k by (simp add: same_btb_def thermo_lookup_def)
  moreover have "thermo_lookup c st ip = None" using assms(6) by (simp add: thermo_lookup_def)
  ultimately show ?thesis using bypass thermo_inv_later[OF bypass(4), of "Suc n"] by auto
qed auto

lemma thermo_update_law:
  assumes e: "emplace_law (emplace env)" "sort_hit_access fl \<longrightarrow> consider_keep fl"
    and inv: "thermo_inv c R n st" and n: "n < 2 ^ 64 - 1" "ip \<noteq> 0"
  shows "\<exists>st'. thermo_direct_update c fl env ip t tk bt st = Some st' \<and> thermo_inv c R (Suc n) st' \<and>
    (\<forall>k u. thermo_lookup c st' k = Some u \<longrightarrow>
       (if k = ip \<and> tk \<noteq> 0 then u = t else thermo_lookup c st k = Some u))"
  using inv
proof (cases rule: thermo_find_law[of c R n st ip])
  case miss
  let ?st = "st\<lparr>sbuf := snd (stream_buffer_update ip (sbuf st))\<rparr>"
  have i: "thermo_inv c R n ?st"
    by (rule thermo_inv_sbuf[OF inv stream_buffer_update_ok]) (use inv in \<open>simp add: thermo_inv_def\<close>)
  have l: "thermo_lookup c ?st k = thermo_lookup c st k" for k by (simp add: thermo_lookup_def)
  have f: "set_find (thermo_set_index c) (thermo_btb ?st) ip = None" using miss(3) by simp
  show ?thesis
  proof (cases "t \<noteq> 0 \<and> tk \<noteq> 0")
    case True
    then have "thermo_direct_update c fl env ip t tk bt st = thermo_insert c fl env ip t ?st"
      using miss(1) by (simp add: thermo_direct_update_def)
    with thermo_insert_law[OF e i n f, of t, unfolded l] True show ?thesis by simp
  next
    case False
    have "if k = ip \<and> tk \<noteq> 0 then u = t else thermo_lookup c st k = Some u"
      if "thermo_lookup c ?st k = Some u" for k u
      using that l[of k] miss(2) by auto
    with False miss(1) thermo_inv_later[OF i, of "Suc n"] show ?thesis
      by (intro exI[of _ ?st]) (auto simp: thermo_direct_update_def)
  qed
next
  case (hit e0 st')
  from thermo_refresh_law[OF hit(2) n(1) hit(3), of "tk \<noteq> 0" t True] hit(1,5) show ?thesis
    by (auto simp: thermo_direct_update_def)
qed

lemma thermo_prefetch_law:
  assumes e: "emplace_law (emplace env)" "sort_hit_access fl \<longrightarrow> consider_keep fl"
    and inv: "thermo_inv c R n st" and n: "n < 2 ^ 64 - 1" "ip \<noteq> 0"
  shows "\<exists>st'. thermo_direct_prefetch c fl env ip t bt p sb st = Some st' \<and> thermo_inv c R (Suc n) st' \<and>
    (\<forall>k u. thermo_lookup c st' k = Some u \<longrightarrow>
       (if k = ip \<and> p then u = t else thermo_lookup c st k = Some u))"
  using inv
proof (cases rule: thermo_find_law[of c R n st ip])
  case miss
  have keep: "if k = ip \<and> p then u = t else thermo_lookup c st k = Some u"
    if "thermo_lookup c st k = Some u" for k u
    using that miss(2) by auto
  consider (stay) "\<not> (t \<noteq> 0 \<and> p)" | (buffer) "t \<noteq> 0 \<and> p" sb | (fill) "t \<noteq> 0 \<and> p" "\<not> sb" by blast
  then show ?thesis
  proof cases
    case stay
    then have "thermo_direct_prefetch c fl env ip t bt p sb st = Some st"
      unfolding thermo_direct_prefetch_def miss(1) by (simp split: prod.split, blast)
    moreover have "thermo_inv c R (Suc n) st" using thermo_inv_later[OF inv] by simp
    ultimately show ?thesis using keep by blast
  next
    case buffer
    have "sb_ok (sbuf st)" using inv by (simp add: thermo_inv_def)
    then obtain b where b: "sb_prefetch ip t (sbuf st) = Some b" "sb_ok b"
      using sb_prefetch_total[of "sbuf st" t ip] buffer by metis
    have "thermo_lookup c (st\<lparr>sbuf := b\<rparr>) k = thermo_lookup c st k" for k by (simp add: thermo_lookup_def)
    moreover have "thermo_direct_prefetch c fl env ip t bt p sb st = Some (st\<lparr>sbuf := b\<rparr>)"
      using buffer miss(1) b(1) by (simp add: thermo_direct_prefetch_def)
    moreover have "thermo_inv c R (Suc n) (st\<lparr>sbuf := b\<rparr>)"
      by (rule thermo_inv_later[OF thermo_inv_sbuf[OF inv b(2)]]) simp
    ultimately show ?thesis using keep by auto
  next
    case fill
    with thermo_insert_law[OF e inv n miss(3), of t] miss(1) show ?thesis
      by (auto simp: thermo_direct_prefetch_def)
  qed
next
  case (hit e0 st')
  from thermo_refresh_law[OF hit(2) n(1) hit(3), of p t False] hit(1,5) show ?thesis
    by (auto simp: thermo_direct_prefetch_def)
qed

text \<open>The assumptions on the environment are part of the invariant, so that the interpretation needs none.\<close>

interpretation thermo: direct_btb
  "\<lambda>n st. thermo_inv c R n st \<and> emplace_law (emplace env) \<and> (sort_hit_access fl \<longrightarrow> consider_keep fl)"
  "2 ^ 64 - 1" "\<lambda>ip. ip \<noteq> 0" "thermo_lookup c" "thermo_direct_predict c" "thermo_direct_update c fl env"
  "thermo_direct_prefetch c fl env" id for c R env fl
proof (unfold_locales, goal_cases)
  case (1 n a)
  then show ?case by (auto intro: thermo_inv_later)
next
  case (4 n a ip)
  then show ?case using thermo_predict_law[of c R n a ip] by auto
next
  case (5 n a ip t tk bt)
  then show ?case using thermo_update_law[of env fl c R n a ip t tk bt] by auto
next
  case (6 n a ip t bt p sb)
  then show ?case using thermo_prefetch_law[of env fl c R n a ip t bt p sb] by auto
qed simp_all

section \<open>Runs\<close>

definition thermo_run ::
  "btb_config \<Rightarrow> thermo_flags \<Rightarrow> thermo_env \<Rightarrow> btb_event list \<Rightarrow> thermo_store btb_cpu \<Rightarrow> thermo_store btb_cpu option" where
  "thermo_run c fl env =
     btb_run (thermo_btb_prediction c) (thermo_update_btb c fl env) (thermo_prefetch_btb c fl env)"

lemmas thermo_handlers = thermo_run_def thermo_btb_prediction_def thermo_update_btb_def thermo_prefetch_btb_def

lemma add_to_record_nonneg:
  "\<forall>q\<in>ran m. \<not> ratio_neg q \<Longrightarrow> \<forall>q\<in>ran (add_to_record l m). \<not> ratio_neg q"
  by (auto simp: add_to_record_def Let_def ran_def split: record_line.splits option.splits if_splits)

lemma init_record_nonneg: "\<forall>q\<in>ran (init_record ls). \<not> ratio_neg q"
proof -
  have "\<forall>q\<in>ran m. \<not> ratio_neg q \<Longrightarrow> \<forall>q\<in>ran (foldl (\<lambda>m l. add_to_record l m) m ls). \<not> ratio_neg q" for m
  proof (induction ls arbitrary: m)
    case (Cons l ls)
    from Cons.IH[OF add_to_record_nonneg[OF Cons.prems]] show ?case by simp
  qed simp
  from this[of Map.empty] show ?thesis by (simp add: init_record_def)
qed

lemma thermo_init_ok:
  assumes "config_ok c"
  shows "thermo_inv c (init_record ls) 0 (store (thermo_initialize_btb c fl ls rs))"
    "fe_ok (front (thermo_initialize_btb c fl ls rs))"
    "thermo_lookup c (store (thermo_initialize_btb c fl ls rs)) k = None"
  using assms init_record_nonneg thermo_index_bound[OF assms]
  by (simp_all add: thermo_initialize_btb_def thermo_inv_def thermo_lookup_def set_find_def records_ok_def
      sets_ok_def)

text \<open>C2: whatever training record, switches and random numbers Thermometer gets, no handler call fails
  (the victim is always a branch of the set or the new one), no set exceeds its ways, and a
  branch it holds is predicted with the target of its last taken reference.\<close>

theorem thermo_btb_run_correct:
  assumes "config_ok c" "emplace_law (emplace env)" "sort_hit_access fl \<longrightarrow> consider_keep fl"
    and "\<forall>e\<in>set es. event_ip e \<noteq> 0" "length es < 2 ^ 64 - 1"
  shows "\<exists>s. thermo_run c fl env es (thermo_initialize_btb c fl ls rs) = Some s \<and>
    sets_ok (unat (BASIC_BTB_SETS c)) (BASIC_BTB_WAYS c) (thermo_btb (store s)) \<and> fe_ok (front s) \<and>
    (\<forall>ip bt t. ip \<noteq> 0 \<longrightarrow> is_direct bt \<longrightarrow> thermo_lookup c (store s) ip = Some t \<longrightarrow>
      ideal_run es Map.empty ip = Some t \<and>
      (\<exists>taken s'. thermo_btb_prediction c ip bt s = Some ((t, taken), s')))"
  using thermo.run_correct[where c = c and R = "init_record ls" and env = env and fl = fl and es = es
      and s = "thermo_initialize_btb c fl ls rs"] thermo_init_ok[OF assms(1)] assms
  by (auto simp: thermo_handlers thermo_inv_def)

lemma thermo_btb_run_correct_witness:
  "\<exists>s. thermo_run default_config thermometer_flags \<lparr>emplace = (#), predict_branch = (\<lambda>_. 0), uninit = 0\<rparr>
     [Predict 8 BRANCH_DIRECT_JUMP, Update 8 100 1 BRANCH_DIRECT_JUMP]
     (thermo_initialize_btb default_config thermometer_flags [ShortLine 8 3 4] (\<lambda>n. n)) = Some s"
  using thermo_btb_run_correct[OF default_config_ok,
      of "\<lparr>emplace = (#), predict_branch = (\<lambda>_. 0), uninit = 0\<rparr>" thermometer_flags
        "[Predict 8 BRANCH_DIRECT_JUMP, Update 8 100 1 BRANCH_DIRECT_JUMP]" "[ShortLine 8 3 4]" "\<lambda>n. n"]
  by (auto simp: thermometer_flags_def)

lemma thermo_reachable:
  assumes "config_ok c" "emplace_law (emplace env)" "sort_hit_access fl \<longrightarrow> consider_keep fl"
    and "\<forall>e\<in>set es. event_ip e \<noteq> 0" "length es < 2 ^ 64 - 1"
    and "thermo_run c fl env es (thermo_initialize_btb c fl ls rs) = Some s"
  shows "thermo_inv c (init_record ls) (length es) (store s)"
  using thermo.run_law[where n = 0 and c = c and R = "init_record ls" and env = env and fl = fl and es = es
      and s = "thermo_initialize_btb c fl ls rs"] thermo_init_ok[OF assms(1)] assms
  by (auto simp: thermo_handlers)

abbreviation temperature :: "hit_ratio \<Rightarrow> nat" where
  "temperature \<equiv> category thermometer_flags"

text \<open>What the paper's configuration does with its candidates.\<close>

lemma thermometer_candidates:
  "v \<in> set (candidates_of thermometer_flags f ip ks i) \<longleftrightarrow>
     v \<in> set ks \<and> temperature (f v) = i \<or> v = ip \<and> curr_category thermometer_flags (f ip) = Some i"
  by (auto simp: candidates_of_def thermometer_flags_def)

lemma thermometer_curr_category:
  "curr_category thermometer_flags q =
     (if temperature q = 0 then Some 0 else if temperature q = 1 then Some 2 else None)"
proof -
  have n: "length (category_boundary thermometer_flags) = 2"
    by (simp add: category_boundary_def thermometer_flags_def)
  then have "temperature q \<le> 2" using category_bound[of thermometer_flags q] by simp
  with n show ?thesis by (auto simp: curr_category_def Let_def thermometer_flags_def)
qed

lemma thermometer_no_taken: "\<not> judge_consider_taken thermometer_flags i" "use_lru thermometer_flags"
  "\<not> sort_hit_access thermometer_flags" "consider_keep thermometer_flags"
  by (simp_all add: judge_consider_taken_def thermometer_flags_def)

text \<open>C1: in the paper's configuration a missing branch that finds its set full evicts the coldest: the
  victim is a stored branch of the lowest temperature of the set (and a cold one if the new
  branch is cold), the least recently used of that temperature; or the new branch itself, which
  is then not hot, and not warm either unless every stored branch is hot. Temperatures are the
  trained hit ratios where the record has the branch.\<close>

theorem thermo_evicts_coldest:
  assumes "config_ok c" "emplace_law (emplace env)" "\<forall>e\<in>set es. event_ip e \<noteq> 0" "length es < 2 ^ 64 - 1"
    and "thermo_run c thermometer_flags env es (thermo_initialize_btb c thermometer_flags ls rs) = Some s"
    and "ip \<noteq> 0" "thermo_lookup c (store s) ip = None" "row = thermo_btb (store s) ! thermo_set_index c ip"
    and "length row = BASIC_BTB_WAYS c"
  shows "\<exists>f v st'. thermo_insert c thermometer_flags env ip t (store s) = Some st' \<and>
    (\<forall>k q. k \<in> insert ip (fst ` set row) \<longrightarrow> init_record ls k = Some q \<longrightarrow> f k = q) \<and>
    (if v = ip
     then thermo_btb st' = thermo_btb (store s) \<and> temperature (f ip) < 2 \<and>
       (temperature (f ip) = 1 \<longrightarrow> (\<forall>k\<in>fst ` set row. temperature (f k) = 2))
     else v \<in> fst ` set row \<and>
       thermo_keys (thermo_set_index c ip) st' = insert ip (fst ` set row - {v}) \<and>
       (\<forall>k\<in>fst ` set row. temperature (f v) \<le> temperature (f k)) \<and>
       (temperature (f ip) = 0 \<longrightarrow> temperature (f v) = 0) \<and>
       (\<forall>e k e'. map_of row v = Some e \<longrightarrow> map_of row k = Some e' \<longrightarrow>
          temperature (f k) = temperature (f v) \<longrightarrow> lru e \<le> lru e'))"
proof -
  let ?st = "store s" and ?sx = "thermo_set_index c ip" and ?fl = thermometer_flags
  have inv: "thermo_inv c (init_record ls) (length es) ?st"
    by (rule thermo_reachable[OF assms(1,2) _ assms(3-5)]) (simp add: thermometer_no_taken)
  note d = thermo_invD(1-3)[OF inv, of ip, folded assms(8)]
  have none: "set_find (thermo_set_index c) (thermo_btb ?st) ip = None" using assms(7) by (simp add: thermo_lookup_def)
  have fresh: "ip \<notin> fst ` set row" using none assms(8) by (simp add: set_find_def map_of_eq_None_iff)
  have R: "records_ok ?st" "branch_record ?st = init_record ls" using inv by (simp_all add: thermo_inv_def)
  have ne: "row \<noteq> []" using assms(1,9) by (auto simp: config_ok_def)
  have small: "lru x < - 1" if "map_of row k = Some x" for k x
    using small_lru[OF map_of_entry_ok[OF inv, of ip k x, folded assms(8), OF that] assms(4)] .
  obtain f i v st1 where g: "choose_victim_general ?fl env ip ?sx ?st = Some (v, st1)"
    "\<And>k q. branch_record ?st k = Some q \<Longrightarrow> k \<in> insert ip (fst ` set row) \<Longrightarrow> f k = q"
    "v \<in> set (candidates_of ?fl f ip (map fst row) i)"
    "\<And>j. j < i \<Longrightarrow> candidates_of ?fl f ip (map fst row) j = []"
    "\<And>e k e'. use_lru ?fl \<Longrightarrow> \<not> judge_consider_taken ?fl i \<Longrightarrow> map_of row v = Some e \<Longrightarrow>
      k \<in> set (candidates_of ?fl f ip (map fst row) i) \<Longrightarrow> map_of row k = Some e' \<Longrightarrow> lru e \<le> lru e'"
    by (rule choose_general[of ?st ?sx ip, folded assms(8), OF R(1) d(2) fresh ne small]) (assumption, rule that)
  have low: "i \<le> temperature (f k)" if "k \<in> fst ` set row" for k
    using g(4)[of "temperature (f k)"] thermometer_candidates[of k f ip "map fst row" "temperature (f k)"] that
    by (force simp: not_le[symmetric])
  have own: "i = 0" if "temperature (f ip) = 0"
    using g(4)[of 0] thermometer_candidates[of ip f ip "map fst row" 0] that thermometer_curr_category[of "f ip"]
    by force
  have le2: "temperature q \<le> 2" for q
    using category_bound[of ?fl q] by (simp add: category_boundary_def thermometer_flags_def)
  have keep: "sort_hit_access ?fl \<longrightarrow> consider_keep ?fl" by (simp add: thermometer_no_taken)
  from assms(2) keep inv assms(4,6) none refl show ?thesis
  proof (cases rule: thermo_insert_cases[of env ?fl c _ _ ?st ip ?sx t])
    case (room st')
    with assms(8,9) show ?thesis by simp
  next
    case (bypass st')
    with g(1) thermometer_no_taken(3) have "v = ip" by simp
    with g(3) fresh have c: "curr_category ?fl (f ip) = Some i" by (simp add: thermometer_candidates)
    have "temperature (f k) = 2" if "temperature (f ip) = 1" "k \<in> fst ` set row" for k
      using c low[OF that(2)] that(1) le2[of "f k"] by (simp add: thermometer_curr_category)
    moreover have "temperature (f ip) < 2" using c le2[of "f ip"] by (auto simp: thermometer_curr_category split: if_splits)
    ultimately show ?thesis using bypass(3,5) g(2) R(2) fresh
      by (intro exI[of _ f] exI[of _ ip] exI[of _ st']) (auto simp: same_btb_def)
  next
    case (evict w st2 st')
    with g(1) thermometer_no_taken(3) have w: "w = v" by simp
    then have v: "v \<in> fst ` set row" using evict(5) assms(8) by (simp add: thermo_keys_def)
    with g(3) fresh have i: "temperature (f v) = i" by (auto simp: thermometer_candidates)
    have "lru e \<le> lru e'" if "map_of row v = Some e" "map_of row k = Some e'" "temperature (f k) = temperature (f v)" for e k e'
    proof (rule g(5)[OF thermometer_no_taken(2,1) that(1) _ that(2)])
      have "k \<in> fst ` set row" using that(2) by (force dest: map_of_SomeD)
      then show "k \<in> set (candidates_of ?fl f ip (map fst row) i)" using that(3) i by (simp add: thermometer_candidates)
    qed
    with evict(3,6) g(2) R(2) fresh v w i low own assms(8) show ?thesis
      by (intro exI[of _ f] exI[of _ v] exI[of _ st']) (auto simp: thermo_keys_def)
  qed
qed

text \<open>Two ways, the cold branch 8 and the hot branch 24 stored; the hot branch 40 comes.\<close>

definition thermo_demo_config :: btb_config where
  "thermo_demo_config = \<lparr>total_btb_ways = 2, total_btb_entries = 2\<rparr>"

definition thermo_demo_env :: thermo_env where
  "thermo_demo_env = \<lparr>emplace = (#), predict_branch = (\<lambda>_. 0), uninit = 0\<rparr>"

definition thermo_demo_record :: "record_line list" where
  "thermo_demo_record = [ShortLine 8 3 10, LongLine 24 [2, 0, 0, 0, 0, 0], ShortLine 40 9 10]"

definition thermo_demo_events :: "btb_event list" where
  "thermo_demo_events = [Update 8 100 1 BRANCH_DIRECT_JUMP, Update 24 200 1 BRANCH_DIRECT_JUMP]"

lemma thermo_demo_run:
  "case thermo_run thermo_demo_config thermometer_flags thermo_demo_env thermo_demo_events
      (thermo_initialize_btb thermo_demo_config thermometer_flags thermo_demo_record (\<lambda>n. n)) of
     None \<Rightarrow> False
   | Some s \<Rightarrow> thermo_lookup thermo_demo_config (store s) 40 = None \<and> map fst (thermo_btb (store s) ! 0) = [24, 8]"
  by code_simp

lemma thermo_evicts_coldest_witness:
  "\<exists>s st'. thermo_run thermo_demo_config thermometer_flags thermo_demo_env thermo_demo_events
      (thermo_initialize_btb thermo_demo_config thermometer_flags thermo_demo_record (\<lambda>n. n)) = Some s \<and>
    thermo_insert thermo_demo_config thermometer_flags thermo_demo_env 40 300 (store s) = Some st' \<and>
    fst ` set (thermo_btb (store s) ! 0) = {24, 8} \<and> thermo_keys 0 st' = {40, 24}"
proof -
  obtain s where s: "thermo_run thermo_demo_config thermometer_flags thermo_demo_env thermo_demo_events
      (thermo_initialize_btb thermo_demo_config thermometer_flags thermo_demo_record (\<lambda>n. n)) = Some s"
    "thermo_lookup thermo_demo_config (store s) 40 = None" "map fst (thermo_btb (store s) ! 0) = [24, 8]"
    using thermo_demo_run by (auto split: option.splits)
  have c: "config_ok thermo_demo_config" "BASIC_BTB_WAYS thermo_demo_config = 2"
    by (simp_all add: config_ok_def thermo_demo_config_def BASIC_BTB_SETS_def BASIC_BTB_WAYS_def)
  have i: "thermo_set_index thermo_demo_config 40 = 0"
    by (simp add: thermo_set_index_def thermo_demo_config_def BASIC_BTB_SETS_def)
  have k: "fst ` set (thermo_btb (store s) ! 0) = {24, 8}" using arg_cong[OF s(3), of set] by simp
  have l: "length (thermo_btb (store s) ! 0) = BASIC_BTB_WAYS thermo_demo_config"
    using arg_cong[OF s(3), of length] c(2) by simp
  have r: "init_record thermo_demo_record 8 = Some (Fin (3 / 10))"
    "init_record thermo_demo_record 24 = Some (Fin (5 / 6))" "init_record thermo_demo_record 40 = Some (Fin (9 / 10))"
    by (simp_all add: init_record_def thermo_demo_record_def add_to_record_def double_div_def)
  have temp: "temperature (Fin (3 / 10)) = 0" "temperature (Fin (5 / 6)) = 2" "temperature (Fin (9 / 10)) = 2"
    by code_simp+
  have e: "emplace_law (emplace thermo_demo_env)" "\<forall>e\<in>set thermo_demo_events. event_ip e \<noteq> 0"
    "length thermo_demo_events < 2 ^ 64 - 1" "(40::u64) \<noteq> 0"
    using emplace_law_Cons by (simp_all add: thermo_demo_env_def thermo_demo_events_def)
  obtain f v st' where
    v: "thermo_insert thermo_demo_config thermometer_flags thermo_demo_env 40 300 (store s) = Some st'"
      "\<forall>k q. k \<in> insert 40 {24, 8} \<longrightarrow> init_record thermo_demo_record k = Some q \<longrightarrow> f k = q"
      "if v = 40
       then thermo_btb st' = thermo_btb (store s) \<and> temperature (f 40) < 2 \<and>
         (temperature (f 40) = 1 \<longrightarrow> (\<forall>k\<in>{24, 8}. temperature (f k) = 2))
       else v \<in> {24, 8} \<and> thermo_keys 0 st' = insert 40 ({24, 8} - {v}) \<and>
         (\<forall>k\<in>{24, 8}. temperature (f v) \<le> temperature (f k)) \<and>
         (temperature (f 40) = 0 \<longrightarrow> temperature (f v) = 0) \<and>
         (\<forall>e k e'. map_of (thermo_btb (store s) ! 0) v = Some e \<longrightarrow>
            map_of (thermo_btb (store s) ! 0) k = Some e' \<longrightarrow> temperature (f k) = temperature (f v) \<longrightarrow> lru e \<le> lru e')"
    using thermo_evicts_coldest[OF c(1) e(1-3) s(1) e(4) s(2) refl, unfolded i, OF l, of 300, unfolded k]
    by (elim exE conjE) (rule that)
  have f: "f 8 = Fin (3 / 10)" "f 24 = Fin (5 / 6)" "f 40 = Fin (9 / 10)" using v(2) r by auto
  with v(3) temp have "v = 8" "thermo_keys 0 st' = insert 40 ({24, 8} - {v})" by (auto split: if_splits)
  with s(1) v(1) k show ?thesis by auto
qed

end
