(* ===== verification/GhrpBtb.thy ===== *)
theory GhrpBtb
  imports MapSets
begin

text \<open>
  The GHRP BTB of \<^verbatim>\<open>btb/ghrp_btb/ghrp_btb.cc\<close>: three tables of counters, indexed by hashes of a
  signature (branch address and history of its set), vote whether a branch is dead on
  arrival (bypass) or dead in its set (evict first); otherwise a pseudo-LRU bit chooses. The
  sets are ordered maps (\<^verbatim>\<open>std::map\<close>), so a set is its list of pairs in key order. The
  table \<^verbatim>\<open>predTables\<close> is a function of its two indices; the indices are shown to be in range.
\<close>

section \<open>State\<close>

record ghrp_entry =
  ip_tag :: u64
  target :: u64
  always_taken :: u8
  lru :: u64
  plru_timestamp :: bool
  lru_timestamp :: u64
  signature :: u16
  dead_prediction :: bool

definition empty_ghrp_entry :: ghrp_entry where
  "empty_ghrp_entry = \<lparr>ip_tag = 0, target = 0, always_taken = 0, lru = 0, plru_timestamp = False,
     lru_timestamp = 0, signature = 0, dead_prediction = False\<rparr>"

definition is_ghrp_plru :: bool where "is_ghrp_plru = True"
definition numCounts :: nat where "numCounts = 4096"
definition numPredTables :: nat where "numPredTables = 3"
definition counterSize :: int where "counterSize = 4"
definition bypassThresh :: int where "bypassThresh = 3"
definition deadThresh :: int where "deadThresh = 3"

lemmas ghrp_constants = is_ghrp_plru_def numCounts_def numPredTables_def counterSize_def bypassThresh_def
  deadThresh_def

text \<open>The number of sets does not depend on the number of entries that is configured: it is fixed at \<^verbatim>\<open>2048 * 4 / total_btb_ways\<close>.\<close>

definition GHRP_SETS :: "btb_config \<Rightarrow> nat" where "GHRP_SETS c = 2048 * 4 div unat (total_btb_ways c)"

record ghrp_store =
  ghrp_btb :: "(u64 \<times> ghrp_entry) list list"
  numLines :: nat
  current_timestamp :: u64
  global_history :: "u16 list"
  predTables :: "u64 \<Rightarrow> nat \<Rightarrow> int"
  sbuf :: stream_buffer

definition ghrp_initialize_btb :: "btb_config \<Rightarrow> ghrp_store btb_cpu" where
  "ghrp_initialize_btb c =
     \<lparr>front = init_frontend,
      store =
       \<lparr>ghrp_btb = replicate (GHRP_SETS c) [],
        numLines = BASIC_BTB_WAYS c,
        current_timestamp = 0,
        global_history = replicate (GHRP_SETS c) 0,
        predTables = (\<lambda>_ _. 0),
        sbuf = new_stream_buffer 32\<rparr>\<rparr>"

section \<open>The predictor\<close>

definition ghrp_mix :: "u64 \<Rightarrow> u64 \<Rightarrow> u64 \<Rightarrow> u64" where
  "ghrp_mix a b c =
     (let a = a - b; a = a - c; a = a XOR drop_bit 13 c;
          b = b - c; b = b - a; b = b XOR push_bit 8 a;
          c = c - a; c = c - b; c = c XOR drop_bit 13 b;
          a = a - b; a = a - c; a = a XOR drop_bit 12 c;
          b = b - c; b = b - a; b = b XOR push_bit 16 a;
          c = c - a; c = c - b; c = c XOR drop_bit 5 b;
          a = a - b; a = a - c; a = a XOR drop_bit 3 c;
          b = b - c; b = b - a; b = b XOR push_bit 10 a;
          c = c - a; c = c - b; c = c XOR drop_bit 15 b
      in c)"

definition ghrp_f1 :: "u64 \<Rightarrow> u64" where "ghrp_f1 x = ghrp_mix 0xfeedface 0xdeadb10c x"
definition ghrp_f2 :: "u64 \<Rightarrow> u64" where "ghrp_f2 x = ghrp_mix 0xc001d00d 0xfade2b1c x"
definition ghrp_fi :: "u64 \<Rightarrow> u64" where "ghrp_fi x = ghrp_f1 x + ghrp_f2 x"

definition ghrp_hash :: "u16 \<Rightarrow> nat \<Rightarrow> u64 option" where
  "ghrp_hash sig i =
     (if i = 0 then Some (ghrp_f1 (ucast sig) AND (of_nat numCounts - 1))
      else if i = 1 then Some (ghrp_f2 (ucast sig) AND (of_nat numCounts - 1))
      else if i = 2 then Some (ghrp_fi (ucast sig) AND (of_nat numCounts - 1))
      else None)"

definition make_signature :: "u64 \<Rightarrow> u16 \<Rightarrow> u16" where
  "make_signature pc his = ucast (pc XOR ucast his)"

text \<open>The last branch of \<open>ghrp_hash\<close> fails an assertion; \<open>computeIndices\<close> never reaches it.\<close>

definition computeIndices :: "u16 \<Rightarrow> u64 list" where
  "computeIndices sig = map (\<lambda>i. the (ghrp_hash sig i)) [0..<numPredTables]"

definition getCounters :: "u64 list \<Rightarrow> ghrp_store \<Rightarrow> int list" where
  "getCounters indices st = map (\<lambda>t. predTables st (indices ! t) t) [0..<numPredTables]"

definition majorityVote :: "int list \<Rightarrow> int \<Rightarrow> bool" where
  "majorityVote counters threshold \<longleftrightarrow>
     length (filter (\<lambda>i. counters ! i \<ge> threshold) [0..<numPredTables]) * 2 \<ge> numPredTables"

definition updatePredTable :: "u64 list \<Rightarrow> bool \<Rightarrow> ghrp_store \<Rightarrow> ghrp_store" where
  "updatePredTable indices isDead st =
     foldl (\<lambda>st t.
              let i = indices ! t; p = predTables st; v = p i t;
                  v = (if isDead then (if v < counterSize - 1 then v + 1 else v)
                       else (if v > 0 then v - 1 else v))
              in st\<lparr>predTables := p(i := (p i)(t := v))\<rparr>) st [0..<numPredTables]"

definition update_global_history :: "u64 \<Rightarrow> nat \<Rightarrow> ghrp_store \<Rightarrow> ghrp_store" where
  "update_global_history pc sx st =
     st\<lparr>global_history := (global_history st)
         [sx := ucast (push_bit 4 (ucast (global_history st ! sx) :: u64) OR push_bit 1 (pc AND 7))]\<rparr>"

section \<open>The sets\<close>

text \<open>\<^verbatim>\<open>m[k].field = v\<close> on a map creates the pair when there is none.\<close>

definition bracket_set :: "'v \<Rightarrow> u64 \<Rightarrow> ('v \<Rightarrow> 'v) \<Rightarrow> (u64 \<times> 'v) list \<Rightarrow> (u64 \<times> 'v) list" where
  "bracket_set d k f row =
     (if map_of row k = None then insort_key fst (k, f d) row else set_value k f row)"

definition plru_settle :: "nat \<Rightarrow> u64 \<Rightarrow> (u64 \<times> ghrp_entry) list \<Rightarrow> (u64 \<times> ghrp_entry) list" where
  "plru_settle lines addr row =
     bracket_set empty_ghrp_entry addr (\<lambda>e. e\<lparr>plru_timestamp := True\<rparr>)
       (if length row = lines \<and> (\<forall>p\<in>set row. plru_timestamp (snd p))
        then map (\<lambda>(k, e). (k, e\<lparr>plru_timestamp := False\<rparr>)) row else row)"

definition do_evition :: "nat \<Rightarrow> ghrp_store \<Rightarrow> ghrp_store option" where
  "do_evition sx st =
     (let row = ghrp_btb st ! sx;
          erase = (\<lambda>k. st\<lparr>ghrp_btb := (ghrp_btb st)[sx := erase_key k row]\<rparr>)
      in if length row < numLines st then Some st
         else case List.find (\<lambda>p. dead_prediction (snd p)) row of
                Some p \<Rightarrow> Some (erase (fst p))
              | None \<Rightarrow>
                  if row = [] then None
                  else
                    let oldest =
                      (if is_ghrp_plru
                       then (case List.find (\<lambda>p. \<not> plru_timestamp (snd p)) row of
                               Some p \<Rightarrow> fst p | None \<Rightarrow> fst (hd row))
                       else fst (foldl (\<lambda>q p. if lru_timestamp (snd p) < lru_timestamp (snd q) then p else q)
                                  (hd row) row))
                    in if map_of row oldest = None then None else Some (erase oldest))"

definition hit_access :: "nat \<Rightarrow> u64 \<Rightarrow> u64 \<Rightarrow> ghrp_store \<Rightarrow> ghrp_store option" where
  "hit_access sx addr pc st =
     (let sign = make_signature pc (global_history st ! sx);
          cntrs = getCounters (computeIndices sign) st;
          st = st\<lparr>current_timestamp := current_timestamp st + 1\<rparr>
      in case map_of (ghrp_btb st ! sx) addr of
           None \<Rightarrow> None
         | Some block \<Rightarrow>
             (let st = updatePredTable (computeIndices (signature block)) False st;
                  block = block\<lparr>plru_timestamp := True, lru_timestamp := current_timestamp st,
                    dead_prediction := majorityVote cntrs deadThresh, signature := sign\<rparr>;
                  row = set_value addr (\<lambda>_. block) (ghrp_btb st ! sx)
              in Some (st\<lparr>ghrp_btb := (ghrp_btb st)[sx := plru_settle (numLines st) addr row]\<rparr>)))"

definition miss_access :: "nat \<Rightarrow> u64 \<Rightarrow> u64 \<Rightarrow> ghrp_store \<Rightarrow> (bool \<times> ghrp_store) option" where
  "miss_access sx addr pc st =
     (let sign = make_signature pc (global_history st ! sx);
          cntrs = getCounters (computeIndices sign) st;
          st = st\<lparr>current_timestamp := current_timestamp st + 1\<rparr>
      in if majorityVote cntrs bypassThresh then Some (False, st)
         else case do_evition sx st of
                None \<Rightarrow> None
              | Some st \<Rightarrow>
                  (let block = empty_ghrp_entry;
                       st = updatePredTable (computeIndices (signature block)) True st;
                       block = block\<lparr>plru_timestamp := True, lru_timestamp := current_timestamp st,
                         dead_prediction := majorityVote cntrs deadThresh, signature := sign\<rparr>;
                       row = ghrp_btb st ! sx;
                       row = (if map_of row addr = None then insort_key fst (addr, block) row else row)
                   in Some (True, st\<lparr>ghrp_btb := (ghrp_btb st)[sx := plru_settle (numLines st) addr row]\<rparr>)))"

text \<open>\<^verbatim>\<open>GHRP::access\<close>, the handler of the original code, which the BTB split into the two above.\<close>

definition ghrp_access :: "nat \<Rightarrow> u64 \<Rightarrow> u64 \<Rightarrow> ghrp_store \<Rightarrow> (bool \<times> ghrp_store) option" where
  "ghrp_access sx addr pc st =
     (let sign = make_signature pc (global_history st ! sx);
          cntrs = getCounters (computeIndices sign) st;
          st = st\<lparr>current_timestamp := current_timestamp st + 1\<rparr>;
          settle = (\<lambda>hit st. Some (hit, st\<lparr>ghrp_btb := (ghrp_btb st)
                      [sx := plru_settle (numLines st) addr (ghrp_btb st ! sx)]\<rparr>));
          mark = (\<lambda>st block. block\<lparr>plru_timestamp := True, lru_timestamp := current_timestamp st,
                    dead_prediction := majorityVote cntrs deadThresh, signature := sign\<rparr>)
      in case map_of (ghrp_btb st ! sx) addr of
           None \<Rightarrow>
             if majorityVote cntrs bypassThresh then Some (False, st)
             else (case do_evition sx st of
                     None \<Rightarrow> None
                   | Some st \<Rightarrow>
                       (let st = updatePredTable (computeIndices (signature empty_ghrp_entry)) True st;
                            row = ghrp_btb st ! sx;
                            row = (if map_of row addr = None
                                   then insort_key fst (addr, mark st empty_ghrp_entry) row else row)
                        in settle False (st\<lparr>ghrp_btb := (ghrp_btb st)[sx := row]\<rparr>)))
         | Some block \<Rightarrow>
             (let st = updatePredTable (computeIndices (signature block)) False st
              in settle True (st\<lparr>ghrp_btb := (ghrp_btb st)
                   [sx := set_value addr (\<lambda>_. mark st block) (ghrp_btb st ! sx)]\<rparr>)))"

section \<open>Handlers\<close>

definition ghrp_set_index :: "btb_config \<Rightarrow> u64 \<Rightarrow> nat" where
  "ghrp_set_index c ip = unat (drop_bit 2 ip AND of_nat (GHRP_SETS c - 1))"

definition ghrp_direct_predict ::
  "btb_config \<Rightarrow> u64 \<Rightarrow> ghrp_store \<Rightarrow> ((u64 \<times> u8) \<times> ghrp_store) option" where
  "ghrp_direct_predict c ip st =
     (let sx = ghrp_set_index c ip
      in case map_of (ghrp_btb st ! sx) ip of
           None \<Rightarrow> Some ((stream_buffer_predict ip (sbuf st), 1), st)
         | Some e \<Rightarrow>
             (case hit_access sx ip ip st of
                None \<Rightarrow> None
              | Some st \<Rightarrow>
                  (case map_of (ghrp_btb st ! sx) ip of
                     None \<Rightarrow> None
                   | Some e' \<Rightarrow> Some ((target e', always_taken e), st))))"

definition ghrp_allocate :: "nat \<Rightarrow> u64 \<Rightarrow> u64 \<Rightarrow> ghrp_store \<Rightarrow> ghrp_store option" where
  "ghrp_allocate sx ip branch_target st =
     (case miss_access sx ip ip st of
        None \<Rightarrow> None
      | Some (inserted, st) \<Rightarrow>
          (let st = (if inserted
                     then st\<lparr>ghrp_btb := (ghrp_btb st)[sx := bracket_set empty_ghrp_entry ip
                       (\<lambda>e. e\<lparr>ip_tag := ip, target := branch_target, always_taken := 1\<rparr>) (ghrp_btb st ! sx)]\<rparr>
                     else st)
           in Some (update_global_history ip sx st)))"

definition ghrp_refresh :: "nat \<Rightarrow> u64 \<Rightarrow> bool \<Rightarrow> u64 \<Rightarrow> ghrp_store \<Rightarrow> ghrp_store" where
  "ghrp_refresh sx ip taken branch_target st =
     update_global_history ip sx (st\<lparr>ghrp_btb := (ghrp_btb st)[sx := set_value ip
        (\<lambda>e. if \<not> taken then e\<lparr>always_taken := 0\<rparr> else e\<lparr>target := branch_target\<rparr>) (ghrp_btb st ! sx)]\<rparr>)"

definition ghrp_direct_update ::
  "btb_config \<Rightarrow> u64 \<Rightarrow> u64 \<Rightarrow> u8 \<Rightarrow> u8 \<Rightarrow> ghrp_store \<Rightarrow> ghrp_store option" where
  "ghrp_direct_update c ip branch_target taken bt st =
     (let sx = ghrp_set_index c ip
      in case map_of (ghrp_btb st ! sx) ip of
           None \<Rightarrow>
             (let st = st\<lparr>sbuf := snd (stream_buffer_update ip (sbuf st))\<rparr>
              in if branch_target \<noteq> 0 \<and> taken \<noteq> 0 then ghrp_allocate sx ip branch_target st else Some st)
         | Some _ \<Rightarrow> Some (ghrp_refresh sx ip (taken \<noteq> 0) branch_target st))"

definition ghrp_direct_prefetch ::
  "btb_config \<Rightarrow> u64 \<Rightarrow> u64 \<Rightarrow> u8 \<Rightarrow> bool \<Rightarrow> bool \<Rightarrow> ghrp_store \<Rightarrow> ghrp_store option" where
  "ghrp_direct_prefetch c ip branch_target bt taken to_stream_buffer st =
     (let sx = ghrp_set_index c ip
      in case map_of (ghrp_btb st ! sx) ip of
           None \<Rightarrow>
             if branch_target \<noteq> 0 \<and> taken then
               (if to_stream_buffer
                then map_option (\<lambda>sb. st\<lparr>sbuf := sb\<rparr>) (sb_prefetch ip branch_target (sbuf st))
                else ghrp_allocate sx ip branch_target st)
             else Some st
         | Some _ \<Rightarrow> map_option (ghrp_refresh sx ip taken branch_target) (hit_access sx ip ip st))"

definition ghrp_btb_prediction ::
  "btb_config \<Rightarrow> u64 \<Rightarrow> u8 \<Rightarrow> ghrp_store btb_cpu \<Rightarrow> ((u64 \<times> u8) \<times> ghrp_store btb_cpu) option" where
  "ghrp_btb_prediction c = btb_prediction_with (ghrp_direct_predict c)"

definition ghrp_update_btb ::
  "btb_config \<Rightarrow> u64 \<Rightarrow> u64 \<Rightarrow> u8 \<Rightarrow> u8 \<Rightarrow> ghrp_store btb_cpu \<Rightarrow> ghrp_store btb_cpu option" where
  "ghrp_update_btb c = update_btb_with (ghrp_direct_update c)"

definition ghrp_prefetch_btb ::
  "btb_config \<Rightarrow> u64 \<Rightarrow> u64 \<Rightarrow> u8 \<Rightarrow> bool \<Rightarrow> bool \<Rightarrow> ghrp_store btb_cpu \<Rightarrow> ghrp_store btb_cpu option" where
  "ghrp_prefetch_btb c = prefetch_btb_with (ghrp_direct_prefetch c)"

definition ghrp_run :: "btb_config \<Rightarrow> btb_event list \<Rightarrow> ghrp_store btb_cpu \<Rightarrow> ghrp_store btb_cpu option" where
  "ghrp_run c = btb_run (ghrp_btb_prediction c) (ghrp_update_btb c) (ghrp_prefetch_btb c)"

section \<open>The counters\<close>

lemma length_filter_mono:
  "(\<And>x. x \<in> set xs \<Longrightarrow> P x \<Longrightarrow> Q x) \<Longrightarrow> length (filter P xs) \<le> length (filter Q xs)"
  by (induction xs) (auto intro: le_SucI)

text \<open>
  Counters stay in range. The only counters that are ever raised are those of signature 0: on an insertion the code trains
  with the signature of the new block, which is not set yet, instead of the evicted one's.
\<close>

definition table_ok :: "(u64 \<Rightarrow> nat \<Rightarrow> int) \<Rightarrow> bool" where
  "table_ok p \<longleftrightarrow> (\<forall>i t. 0 \<le> p i t \<and> p i t < counterSize \<and> (0 < p i t \<longrightarrow> t < numPredTables \<and> ghrp_hash 0 t = Some i))"

lemma ghrp_hash_total: "t < numPredTables \<Longrightarrow> \<exists>i. ghrp_hash sig t = Some i \<and> unat i < numCounts"
  using unat_and_pred[of "4096 :: u64"] by (auto simp: ghrp_constants ghrp_hash_def)

lemma computeIndices_nth: "t < numPredTables \<Longrightarrow> ghrp_hash sig t = Some (computeIndices sig ! t)"
  using ghrp_hash_total[of t sig] by (auto simp: computeIndices_def)

lemma updatePredTable_fold:
  "updatePredTable indices d st = st\<lparr>predTables := predTables (updatePredTable indices d st)\<rparr>"
  by (simp add: updatePredTable_def numPredTables_def upt_rec Let_def)

lemma updatePredTable_fields [simp]:
  "ghrp_btb (updatePredTable indices d st) = ghrp_btb st" "numLines (updatePredTable indices d st) = numLines st"
  "current_timestamp (updatePredTable indices d st) = current_timestamp st"
  "global_history (updatePredTable indices d st) = global_history st" "sbuf (updatePredTable indices d st) = sbuf st"
  by (simp_all add: updatePredTable_def numPredTables_def upt_rec Let_def)

lemma updatePredTable_at:
  "predTables (updatePredTable indices d st) i t =
     (if t < numPredTables \<and> i = indices ! t
      then (if d then (if predTables st i t < counterSize - 1 then predTables st i t + 1 else predTables st i t)
            else (if predTables st i t > 0 then predTables st i t - 1 else predTables st i t))
      else predTables st i t)"
proof (cases "t < 3")
  case True
  then have "t = 0 \<or> t = 1 \<or> t = 2" by auto
  then show ?thesis by (auto simp: updatePredTable_def numPredTables_def upt_rec Let_def)
next
  case False
  then show ?thesis by (simp add: updatePredTable_def numPredTables_def upt_rec Let_def)
qed

lemma table_okD:
  assumes "table_ok p"
  shows "0 \<le> p i t" "p i t < counterSize" "0 < p i t \<Longrightarrow> t < numPredTables \<and> ghrp_hash 0 t = Some i"
  using assms by (simp_all add: table_ok_def)

lemma table_ok_down:
  assumes "table_ok (predTables st)"
  shows "table_ok (predTables (updatePredTable indices False st))"
  unfolding table_ok_def
proof (intro allI)
  fix i t
  show "0 \<le> predTables (updatePredTable indices False st) i t \<and>
      predTables (updatePredTable indices False st) i t < counterSize \<and>
      (0 < predTables (updatePredTable indices False st) i t \<longrightarrow> t < numPredTables \<and> ghrp_hash 0 t = Some i)"
    using table_okD[OF assms, of i t]
    by (cases "t < numPredTables \<and> i = indices ! t") (auto simp only: updatePredTable_at if_True if_False split: if_splits)
qed

lemma table_ok_up:
  assumes "table_ok (predTables st)"
  shows "table_ok (predTables (updatePredTable (computeIndices 0) True st))"
  unfolding table_ok_def
proof (intro allI)
  fix i t
  show "0 \<le> predTables (updatePredTable (computeIndices 0) True st) i t \<and>
      predTables (updatePredTable (computeIndices 0) True st) i t < counterSize \<and>
      (0 < predTables (updatePredTable (computeIndices 0) True st) i t \<longrightarrow>
         t < numPredTables \<and> ghrp_hash 0 t = Some i)"
    using table_okD[OF assms, of i t] computeIndices_nth[of t 0]
    by (cases "t < numPredTables \<and> i = computeIndices 0 ! t") (auto simp only: updatePredTable_at if_True if_False split: if_splits)
qed

section \<open>Invariant\<close>

definition ghrp_row_ok :: "nat \<Rightarrow> (u64 \<times> ghrp_entry) list \<Rightarrow> bool" where
  "ghrp_row_ok ways row \<longleftrightarrow> distinct (map fst row) \<and> sorted (map fst row) \<and> length row \<le> ways"

definition ghrp_inv :: "btb_config \<Rightarrow> ghrp_store \<Rightarrow> bool" where
  "ghrp_inv c st \<longleftrightarrow> 0 < BASIC_BTB_WAYS c \<and> length (ghrp_btb st) = GHRP_SETS c \<and>
     (\<forall>r<GHRP_SETS c. ghrp_row_ok (BASIC_BTB_WAYS c) (ghrp_btb st ! r)) \<and>
     numLines st = BASIC_BTB_WAYS c \<and> length (global_history st) = GHRP_SETS c \<and>
     table_ok (predTables st) \<and> sb_ok (sbuf st)"

definition ghrp_lookup :: "btb_config \<Rightarrow> ghrp_store \<Rightarrow> u64 \<Rightarrow> u64 option" where
  "ghrp_lookup c st ip = map_option target (set_find (ghrp_set_index c) (ghrp_btb st) ip)"

lemma ghrp_index_bound:
  assumes "0 < BASIC_BTB_WAYS c"
  shows "ghrp_set_index c ip < GHRP_SETS c"
proof -
  have "unat (total_btb_ways c) < 256" using unsigned_less[of "total_btb_ways c", where ?'a = nat] by simp
  then have pos: "0 < GHRP_SETS c" using assms by (simp add: GHRP_SETS_def BASIC_BTB_WAYS_def div_greater_zero_iff)
  have "GHRP_SETS c \<le> 8192" by (simp add: GHRP_SETS_def)
  then have "unat (of_nat (GHRP_SETS c - 1) :: u64) = GHRP_SETS c - 1" by (simp add: unat_of_nat)
  then have "unat (drop_bit 2 ip AND of_nat (GHRP_SETS c - 1)) \<le> GHRP_SETS c - 1"
    using word_and_le1[of "drop_bit 2 ip" "of_nat (GHRP_SETS c - 1)"] by (simp add: word_le_nat_alt)
  with pos show ?thesis by (simp add: ghrp_set_index_def)
qed

lemma ghrp_invD:
  assumes "ghrp_inv c st"
  shows "ghrp_set_index c ip < length (ghrp_btb st)"
    "ghrp_row_ok (BASIC_BTB_WAYS c) (ghrp_btb st ! ghrp_set_index c ip)"
    "numLines st = BASIC_BTB_WAYS c" "0 < BASIC_BTB_WAYS c" "table_ok (predTables st)" "sb_ok (sbuf st)"
  using assms ghrp_index_bound[of c ip] by (auto simp: ghrp_inv_def)

lemma ghrp_inv_row:
  assumes "ghrp_inv c st" "ghrp_row_ok (BASIC_BTB_WAYS c) row" "ghrp_btb st' = (ghrp_btb st)[r := row]"
    "numLines st' = numLines st" "length (global_history st') = length (global_history st)"
    "table_ok (predTables st')" "sb_ok (sbuf st')"
  shows "ghrp_inv c st'"
  using assms by (auto simp: ghrp_inv_def nth_update_if)

lemma ghrp_inv_fields:
  assumes "ghrp_inv c st" "ghrp_btb st' = ghrp_btb st" "numLines st' = numLines st"
    "length (global_history st') = length (global_history st)" "table_ok (predTables st')" "sb_ok (sbuf st')"
  shows "ghrp_inv c st'"
  using assms by (simp add: ghrp_inv_def)

lemma ghrp_lookup_row:
  "r < length (ghrp_btb st) \<Longrightarrow> ghrp_btb st' = (ghrp_btb st)[r := row] \<Longrightarrow>
   ghrp_lookup c st' k = (if ghrp_set_index c k = r then map_option target (map_of row k) else ghrp_lookup c st k)"
  by (simp add: ghrp_lookup_def set_find_update)

lemma ghrp_lookup_cong: "ghrp_btb st' = ghrp_btb st \<Longrightarrow> ghrp_lookup c st' k = ghrp_lookup c st k"
  by (simp add: ghrp_lookup_def)

text \<open>Two sets with the same branches and targets.\<close>

definition same_targets :: "(u64 \<times> ghrp_entry) list \<Rightarrow> (u64 \<times> ghrp_entry) list \<Rightarrow> bool" where
  "same_targets row row' \<longleftrightarrow> map fst row' = map fst row \<and>
     (\<forall>k. map_option target (map_of row' k) = map_option target (map_of row k))"

lemma same_targets_refl [simp]: "same_targets row row" by (simp add: same_targets_def)

lemma same_targets_trans: "same_targets a b \<Longrightarrow> same_targets b d \<Longrightarrow> same_targets a d"
  by (simp add: same_targets_def)

lemma same_targetsD: "same_targets a b \<Longrightarrow> map_option target (map_of b k) = map_option target (map_of a k)"
  by (simp add: same_targets_def)

lemma same_targets_ok: "same_targets row row' \<Longrightarrow> ghrp_row_ok w row \<Longrightarrow> ghrp_row_ok w row'"
  by (auto simp: same_targets_def ghrp_row_ok_def dest: map_eq_imp_length_eq)

lemma same_targets_set_value:
  "(\<And>e. map_of row k = Some e \<Longrightarrow> target (f e) = target e) \<Longrightarrow> same_targets row (set_value k f row)"
  by (auto simp: same_targets_def option.map_comp o_def split: option.splits) (cases "map_of row k"; simp)

lemma same_targets_clear: "same_targets row (map (\<lambda>(k, e). (k, e\<lparr>plru_timestamp := b\<rparr>)) row)"
  by (induction row) (auto simp: same_targets_def)

lemma map_of_None_same: "same_targets row row' \<Longrightarrow> map_of row' k = None \<longleftrightarrow> map_of row k = None"
  by (metis option.map_disc_iff same_targets_def)

lemma bracket_set_present: "map_of row k \<noteq> None \<Longrightarrow> bracket_set d k f row = set_value k f row"
  by (auto simp: bracket_set_def)

lemma plru_settle_same: "map_of row addr \<noteq> None \<Longrightarrow> same_targets row (plru_settle lines addr row)"
proof -
  assume a: "map_of row addr \<noteq> None"
  let ?r = "if length row = lines \<and> (\<forall>p\<in>set row. plru_timestamp (snd p))
        then map (\<lambda>(k, e). (k, e\<lparr>plru_timestamp := False\<rparr>)) row else row"
  have s: "same_targets row ?r" by (simp add: same_targets_clear)
  then have "map_of ?r addr \<noteq> None" using a map_of_None_same[OF s, of addr] by simp
  then have "plru_settle lines addr row = set_value addr (\<lambda>e. e\<lparr>plru_timestamp := True\<rparr>) ?r"
    unfolding plru_settle_def by (rule bracket_set_present)
  moreover have "same_targets ?r (set_value addr (\<lambda>e. e\<lparr>plru_timestamp := True\<rparr>) ?r)"
    by (rule same_targets_set_value) simp
  ultimately show ?thesis using same_targets_trans[OF s] by simp
qed

section \<open>The laws of the operations\<close>

lemma ghrp_hit_law:
  assumes inv: "ghrp_inv c st" and sx: "sx = ghrp_set_index c ip" and e: "map_of (ghrp_btb st ! sx) ip = Some e"
  obtains st' where "hit_access sx ip pc st = Some st'" "ghrp_inv c st'" "sbuf st' = sbuf st"
    "\<And>k. ghrp_lookup c st' k = ghrp_lookup c st k"
proof -
  note d = ghrp_invD(1,2)[OF inv, of ip, folded sx] ghrp_invD(3-6)[OF inv]
  let ?row = "ghrp_btb st ! sx"
  let ?cntrs = "getCounters (computeIndices (make_signature pc (global_history st ! sx))) st"
  let ?st = "updatePredTable (computeIndices (signature e)) False (st\<lparr>current_timestamp := current_timestamp st + 1\<rparr>)"
  let ?block = "e\<lparr>plru_timestamp := True, lru_timestamp := current_timestamp ?st,
      dead_prediction := majorityVote ?cntrs deadThresh, signature := make_signature pc (global_history st ! sx)\<rparr>"
  let ?r1 = "set_value ip (\<lambda>_. ?block) ?row"
  let ?r2 = "plru_settle (numLines st) ip ?r1"
  let ?st' = "?st\<lparr>ghrp_btb := (ghrp_btb st)[sx := ?r2]\<rparr>"
  have "same_targets ?row ?r1" using e by (intro same_targets_set_value) simp
  moreover have "same_targets ?r1 ?r2" using e by (intro plru_settle_same) simp
  ultimately have s: "same_targets ?row ?r2" by (rule same_targets_trans)
  have "hit_access sx ip pc st = Some ?st'" using e by (simp add: hit_access_def Let_def)
  moreover have "ghrp_inv c ?st'"
    by (rule ghrp_inv_row[OF inv same_targets_ok[OF s d(2)], of _ sx]) (use d in \<open>simp_all add: table_ok_down\<close>)
  moreover have "sbuf ?st' = sbuf st" by simp
  moreover have "ghrp_lookup c ?st' k = ghrp_lookup c st k" for k
    using ghrp_lookup_row[OF d(1), of ?st' ?r2 c k] s by (auto simp: same_targets_def ghrp_lookup_def set_find_def)
  ultimately show thesis by (rule that)
qed

lemma ghrp_row_ok_erase: "ghrp_row_ok w row \<Longrightarrow> ghrp_row_ok w (erase_key k row)"
  by (auto simp: ghrp_row_ok_def erase_key_def intro: sorted_filter distinct_map_filter le_trans[OF length_filter_le])

lemma insort_key_facts:
  assumes "distinct (map fst row)" "map_of row k = None"
  shows "distinct (map fst (insort_key fst (k, e) row))" "length (insort_key fst (k, e) row) = Suc (length row)"
    "map_of (insort_key fst (k, e) row) = (map_of row)(k \<mapsto> e)"
  using emplace_facts[of "insort_key fst (k, e) row" k e row] assms by (simp_all add: map_of_eq_None_iff)

lemma ghrp_row_ok_insert:
  "ghrp_row_ok w row \<Longrightarrow> map_of row k = None \<Longrightarrow> length row < w \<Longrightarrow> ghrp_row_ok w (insort_key fst (k, e) row)"
  by (simp add: ghrp_row_ok_def sorted_insort_key insort_key_facts)

text \<open>The evicted branch: a dead one if there is one, one with a clear pseudo-LRU bit, or the first.\<close>

lemma find_fst_mem: "List.find P xs = Some p \<Longrightarrow> p \<in> set xs \<and> P p"
  by (auto simp: find_Some_iff)

lemma do_evition_law:
  assumes row: "row = ghrp_btb st ! sx" "sx < length (ghrp_btb st)" "distinct (map fst row)" "length row \<le> numLines st"
    and pos: "0 < numLines st"
  obtains (room) "length row < numLines st" "do_evition sx st = Some st"
  | (evict) v where "length row = numLines st" "v \<in> fst ` set row"
      "do_evition sx st = Some (st\<lparr>ghrp_btb := (ghrp_btb st)[sx := erase_key v row]\<rparr>)"
      "\<And>p. List.find (\<lambda>p. dead_prediction (snd p)) row = Some p \<Longrightarrow> v = fst p"
      "\<And>p. List.find (\<lambda>p. dead_prediction (snd p)) row = None \<Longrightarrow> v = fst p \<Longrightarrow> p \<in> set row \<Longrightarrow>
         \<exists>q\<in>set row. \<not> plru_timestamp (snd q) \<Longrightarrow> \<not> plru_timestamp (snd p)"
proof (cases "length row < numLines st")
  case True
  then show thesis using row(1) by (intro room) (simp_all add: do_evition_def Let_def)
next
  case False
  then have full: "length row = numLines st" "row \<noteq> []" using row(4) pos by auto
  show thesis
  proof (cases "List.find (\<lambda>p. dead_prediction (snd p)) row")
    case (Some p)
    show thesis
      by (rule evict[of "fst p"]) (use Some full row(1) find_fst_mem[OF Some] in \<open>simp_all add: do_evition_def Let_def\<close>)
  next
    case None
    let ?v = "case List.find (\<lambda>p. \<not> plru_timestamp (snd p)) row of Some p \<Rightarrow> fst p | None \<Rightarrow> fst (hd row)"
    have v: "?v \<in> fst ` set row" using full(2) by (auto split: option.split dest!: find_fst_mem intro: rev_image_eqI)
    then have m: "map_of row ?v \<noteq> None" by (simp only: map_of_eq_None_iff not_not)
    show thesis
    proof (rule evict[OF full(1) v])
      show "do_evition sx st = Some (st\<lparr>ghrp_btb := (ghrp_btb st)[sx := erase_key ?v row]\<rparr>)"
        using None full m by (simp add: do_evition_def Let_def is_ghrp_plru_def flip: row(1))
      show "\<not> plru_timestamp (snd p)" if "?v = fst p" "p \<in> set row" "\<exists>q\<in>set row. \<not> plru_timestamp (snd q)" for p
      proof -
        note t = that
        obtain q where q: "List.find (\<lambda>p. \<not> plru_timestamp (snd p)) row = Some q"
          using t(3) by (cases "List.find (\<lambda>p. \<not> plru_timestamp (snd p)) row") (auto simp: find_None_iff)
        with t(1) find_fst_mem[OF q] have "fst q = fst p" "q \<in> set row" "\<not> plru_timestamp (snd q)" by auto
        with t(2) row(3) show ?thesis by (metis eq_key_imp_eq_value prod.collapse)
      qed
    qed (use None in simp)
  qed
qed

lemma ghrp_miss_law:
  assumes inv: "ghrp_inv c st" and sx: "sx = ghrp_set_index c ip" and none: "map_of (ghrp_btb st ! sx) ip = None"
  obtains (bypass) st' where "miss_access sx ip pc st = Some (False, st')" "ghrp_inv c st'" "ghrp_btb st' = ghrp_btb st"
  | (insert) st' where "miss_access sx ip pc st = Some (True, st')" "ghrp_inv c st'"
      "map_of (ghrp_btb st' ! sx) ip \<noteq> None"
      "\<And>k u. k \<noteq> ip \<Longrightarrow> ghrp_lookup c st' k = Some u \<Longrightarrow> ghrp_lookup c st k = Some u"
proof -
  note d = ghrp_invD(1,2)[OF inv, of ip, folded sx] ghrp_invD(3-6)[OF inv]
  let ?sign = "make_signature pc (global_history st ! sx)"
  let ?cntrs = "getCounters (computeIndices ?sign) st"
  let ?st0 = "st\<lparr>current_timestamp := current_timestamp st + 1\<rparr>"
  have inv0: "ghrp_inv c ?st0" by (rule ghrp_inv_fields[OF inv]) (use d in simp_all)
  show thesis
  proof (cases "majorityVote ?cntrs bypassThresh")
    case True
    with inv0 show thesis by (intro bypass[of ?st0]) (simp_all add: miss_access_def Let_def)
  next
    case False
    let ?row = "ghrp_btb st ! sx"
    obtain st1 where e: "do_evition sx ?st0 = Some st1" "numLines st1 = numLines st"
      "length (global_history st1) = length (global_history st)" "predTables st1 = predTables st" "sbuf st1 = sbuf st"
      "ghrp_btb st1 = (ghrp_btb st)[sx := ghrp_btb st1 ! sx]" "ghrp_row_ok (BASIC_BTB_WAYS c) (ghrp_btb st1 ! sx)"
      "length (ghrp_btb st1 ! sx) < BASIC_BTB_WAYS c" "map_of (ghrp_btb st1 ! sx) ip = None"
      "\<And>k e. map_of (ghrp_btb st1 ! sx) k = Some e \<Longrightarrow> map_of ?row k = Some e"
    proof -
      have "?row = ghrp_btb ?st0 ! sx" "sx < length (ghrp_btb ?st0)" "distinct (map fst ?row)"
        "length ?row \<le> numLines ?st0" "0 < numLines ?st0"
        using d by (simp_all add: ghrp_row_ok_def)
      then show thesis
      proof (cases rule: do_evition_law)
      case room
      then show thesis using d none by (intro that[of ?st0]) simp_all
    next
      case (evict v)
      have "length (erase_key v ?row) < BASIC_BTB_WAYS c"
        using evict(1,2) d(2,3) length_erase_key[of ?row v] by (simp add: ghrp_row_ok_def)
      with evict(3) d none show thesis
        by (intro that[of "?st0\<lparr>ghrp_btb := (ghrp_btb st)[sx := erase_key v ?row]\<rparr>"])
          (auto simp: ghrp_row_ok_erase split: if_splits)
      qed
    qed
    let ?st2 = "updatePredTable (computeIndices (signature empty_ghrp_entry)) True st1"
    let ?block = "empty_ghrp_entry\<lparr>plru_timestamp := True, lru_timestamp := current_timestamp ?st2,
        dead_prediction := majorityVote ?cntrs deadThresh, signature := ?sign\<rparr>"
    let ?r1 = "insort_key fst (ip, ?block) (ghrp_btb st1 ! sx)"
    let ?r2 = "plru_settle (numLines ?st2) ip ?r1"
    let ?st' = "?st2\<lparr>ghrp_btb := (ghrp_btb st1)[sx := ?r2]\<rparr>"
    have ok1: "ghrp_row_ok (BASIC_BTB_WAYS c) ?r1" by (rule ghrp_row_ok_insert[OF e(7,9,8)])
    have dist: "distinct (map fst (ghrp_btb st1 ! sx))" using e(7) by (simp add: ghrp_row_ok_def)
    have m1: "map_of ?r1 = (map_of (ghrp_btb st1 ! sx))(ip \<mapsto> ?block)" by (rule insort_key_facts(3)[OF dist e(9)])
    then have s: "same_targets ?r1 ?r2" by (intro plru_settle_same) simp
    have len: "sx < length (ghrp_btb st1)" using arg_cong[OF e(6), of length] d(1) by simp
    have btb': "ghrp_btb ?st' = (ghrp_btb st)[sx := ?r2]" using arg_cong[OF e(6), of "\<lambda>b. b[sx := ?r2]"] by simp
    have sig: "signature empty_ghrp_entry = 0" by (simp add: empty_ghrp_entry_def)
    have i1: "ghrp_inv c ?st'"
      by (rule ghrp_inv_row[OF inv same_targets_ok[OF s ok1] btb'])
        (use e(2-5) d table_ok_up[of st1] in \<open>simp_all add: sig\<close>)
    have i2: "miss_access sx ip pc st = Some (True, ?st')"
      using False e(1,9) by (simp add: miss_access_def Let_def)
    have i3: "map_of (ghrp_btb ?st' ! sx) ip \<noteq> None"
      using len m1 map_of_None_same[OF s, of ip] by simp
    have i4: "ghrp_lookup c st k = Some u" if "k \<noteq> ip" "ghrp_lookup c ?st' k = Some u" for k u
    proof (cases "ghrp_set_index c k = sx")
      case True
      have "map_option target (map_of ?r1 k) = map_option target (map_of ?r2 k)" by (rule same_targetsD[OF s, symmetric])
      also have "\<dots> = Some u" using that(2) ghrp_lookup_row[OF d(1) btb', of c k] True by simp
      finally have "map_option target (map_of (ghrp_btb st1 ! sx) k) = Some u"
        using m1 that(1) by simp
      with e(10)[of k] True show ?thesis by (auto simp: ghrp_lookup_def set_find_def)
    next
      case False
      with that(2) ghrp_lookup_row[OF d(1) btb', of c k] show ?thesis by simp
    qed
    show thesis by (rule insert[OF i2 i1 i3 i4])
  qed
qed

section \<open>The direct-branch laws\<close>

lemma ghrp_history [simp]:
  "ghrp_btb (update_global_history pc sx st) = ghrp_btb st" "numLines (update_global_history pc sx st) = numLines st"
  "predTables (update_global_history pc sx st) = predTables st" "sbuf (update_global_history pc sx st) = sbuf st"
  "length (global_history (update_global_history pc sx st)) = length (global_history st)"
  by (simp_all add: update_global_history_def)

lemma ghrp_inv_history: "ghrp_inv c st \<Longrightarrow> ghrp_inv c (update_global_history pc sx st)"
  by (rule ghrp_inv_fields) (auto dest: ghrp_invD)

lemma ghrp_allocate_law:
  assumes inv: "ghrp_inv c st" and sx: "sx = ghrp_set_index c ip" and none: "map_of (ghrp_btb st ! sx) ip = None"
  shows "\<exists>st'. ghrp_allocate sx ip t st = Some st' \<and> ghrp_inv c st' \<and>
    (\<forall>k u. ghrp_lookup c st' k = Some u \<longrightarrow> (if k = ip then u = t else ghrp_lookup c st k = Some u))"
  using inv sx none
proof (cases rule: ghrp_miss_law[where pc = ip])
  case (bypass st')
  have "ghrp_lookup c (update_global_history ip sx st') k = ghrp_lookup c st k" for k
    using bypass(3) by (intro ghrp_lookup_cong) simp
  moreover have "ghrp_lookup c st ip = None" using none sx by (simp add: ghrp_lookup_def set_find_def)
  ultimately show ?thesis
    using bypass(1) ghrp_inv_history[OF bypass(2)] by (auto simp: ghrp_allocate_def)
next
  case (insert st')
  let ?f = "\<lambda>e. e\<lparr>ip_tag := ip, target := t, always_taken := 1\<rparr>"
  let ?row = "set_value ip ?f (ghrp_btb st' ! sx)"
  let ?st2 = "st'\<lparr>ghrp_btb := (ghrp_btb st')[sx := ?row]\<rparr>"
  note d = ghrp_invD(1,2)[OF insert(2), of ip, folded sx] ghrp_invD(3-6)[OF insert(2)]
  have "ghrp_allocate sx ip t st = Some (update_global_history ip sx ?st2)"
    unfolding ghrp_allocate_def insert(1) by (simp only: option.case prod.case if_True Let_def bracket_set_present[OF insert(3)])
  moreover have "ghrp_inv c ?st2"
    by (rule ghrp_inv_row[OF insert(2), of ?row _ sx]) (use d in \<open>simp_all add: ghrp_row_ok_def\<close>)
  then have "ghrp_inv c (update_global_history ip sx ?st2)" by (rule ghrp_inv_history)
  moreover have "if k = ip then u = t else ghrp_lookup c st k = Some u"
    if "ghrp_lookup c (update_global_history ip sx ?st2) k = Some u" for k u
  proof -
    have l: "ghrp_lookup c ?st2 k = Some u" using that by (simp add: ghrp_lookup_def)
    have r: "ghrp_lookup c ?st2 k =
        (if ghrp_set_index c k = sx then map_option target (map_of ?row k) else ghrp_lookup c st' k)"
      by (rule ghrp_lookup_row[OF d(1)]) simp
    show ?thesis
    proof (cases "k = ip")
      case True
      with l r sx show ?thesis by (cases "map_of (ghrp_btb st' ! sx) ip") auto
    next
      case False
      then have "ghrp_lookup c st' k = Some u"
        using l[unfolded r] by (auto simp: ghrp_lookup_def set_find_def split: if_splits)
      with insert(4)[OF False] False show ?thesis by simp
    qed
  qed
  ultimately show ?thesis by blast
qed

lemma ghrp_refresh_law:
  assumes inv: "ghrp_inv c st" and sx: "sx = ghrp_set_index c ip" and some: "map_of (ghrp_btb st ! sx) ip \<noteq> None"
  shows "ghrp_inv c (ghrp_refresh sx ip tk t st)"
    "ghrp_lookup c (ghrp_refresh sx ip tk t st) k = (if k = ip \<and> tk then Some t else ghrp_lookup c st k)"
proof -
  let ?f = "\<lambda>e. if \<not> tk then e\<lparr>always_taken := 0\<rparr> else e\<lparr>target := t\<rparr>"
  let ?row = "set_value ip ?f (ghrp_btb st ! sx)"
  let ?st2 = "st\<lparr>ghrp_btb := (ghrp_btb st)[sx := ?row]\<rparr>"
  note d = ghrp_invD(1,2)[OF inv, of ip, folded sx] ghrp_invD(3-6)[OF inv]
  have "ghrp_inv c ?st2"
    by (rule ghrp_inv_row[OF inv, of ?row _ sx]) (use d in \<open>simp_all add: ghrp_row_ok_def\<close>)
  then show "ghrp_inv c (ghrp_refresh sx ip tk t st)" unfolding ghrp_refresh_def by (rule ghrp_inv_history)
  have "ghrp_lookup c (ghrp_refresh sx ip tk t st) k = ghrp_lookup c ?st2 k"
    by (rule ghrp_lookup_cong) (simp add: ghrp_refresh_def)
  with some sx ghrp_lookup_row[OF d(1), of ?st2 ?row c k] show
    "ghrp_lookup c (ghrp_refresh sx ip tk t st) k = (if k = ip \<and> tk then Some t else ghrp_lookup c st k)"
    by (auto simp: ghrp_lookup_def set_find_def)
qed

lemma ghrp_predict_law:
  assumes inv: "ghrp_inv c st"
  shows "\<exists>r st'. ghrp_direct_predict c ip st = Some (r, st') \<and> ghrp_inv c st' \<and>
    (\<forall>k. ghrp_lookup c st' k = ghrp_lookup c st k) \<and> (\<forall>t. ghrp_lookup c st ip = Some t \<longrightarrow> fst r = t)"
proof (cases "map_of (ghrp_btb st ! ghrp_set_index c ip) ip")
  case None
  with inv show ?thesis by (simp add: ghrp_direct_predict_def ghrp_lookup_def set_find_def)
next
  case (Some e)
  obtain st' where h: "hit_access (ghrp_set_index c ip) ip ip st = Some st'" "ghrp_inv c st'"
    "\<And>k. ghrp_lookup c st' k = ghrp_lookup c st k"
    by (rule ghrp_hit_law[OF inv refl Some]) (rule that)
  have l: "ghrp_lookup c st ip = Some (target e)" using Some by (simp add: ghrp_lookup_def set_find_def)
  with h(3)[of ip] obtain e' where e': "map_of (ghrp_btb st' ! ghrp_set_index c ip) ip = Some e'" "target e' = target e"
    by (auto simp: ghrp_lookup_def set_find_def)
  have "ghrp_direct_predict c ip st = Some ((target e', always_taken e), st')"
    using Some h(1) e'(1) by (simp add: ghrp_direct_predict_def Let_def)
  with h(2,3) l e'(2) show ?thesis by auto
qed

lemma ghrp_update_law:
  assumes inv: "ghrp_inv c st"
  shows "\<exists>st'. ghrp_direct_update c ip t tk bt st = Some st' \<and> ghrp_inv c st' \<and>
    (\<forall>k u. ghrp_lookup c st' k = Some u \<longrightarrow> (if k = ip \<and> tk \<noteq> 0 then u = t else ghrp_lookup c st k = Some u))"
proof (cases "map_of (ghrp_btb st ! ghrp_set_index c ip) ip")
  case None
  let ?st = "st\<lparr>sbuf := snd (stream_buffer_update ip (sbuf st))\<rparr>"
  have inv1: "ghrp_inv c ?st"
    by (rule ghrp_inv_fields[OF inv]) (use ghrp_invD[OF inv] in auto)
  have l: "ghrp_lookup c ?st k = ghrp_lookup c st k" for k by (rule ghrp_lookup_cong) simp
  have n: "ghrp_lookup c st ip = None" using None by (simp add: ghrp_lookup_def set_find_def)
  show ?thesis
  proof (cases "t \<noteq> 0 \<and> tk \<noteq> 0")
    case True
    then have "ghrp_direct_update c ip t tk bt st = ghrp_allocate (ghrp_set_index c ip) ip t ?st"
      using None by (simp add: ghrp_direct_update_def Let_def)
    moreover have "map_of (ghrp_btb ?st ! ghrp_set_index c ip) ip = None" using None by simp
    note ghrp_allocate_law[OF inv1 refl this, of t, unfolded l]
    ultimately show ?thesis using True by simp
  next
    case False
    then have "ghrp_direct_update c ip t tk bt st = Some ?st" using None by (auto simp: ghrp_direct_update_def Let_def)
    with inv1 l n show ?thesis by auto
  qed
next
  case (Some e)
  then have "ghrp_direct_update c ip t tk bt st = Some (ghrp_refresh (ghrp_set_index c ip) ip (tk \<noteq> 0) t st)"
    by (simp add: ghrp_direct_update_def Let_def)
  moreover have "map_of (ghrp_btb st ! ghrp_set_index c ip) ip \<noteq> None" using Some by simp
  ultimately show ?thesis using ghrp_refresh_law[OF inv refl, of ip] by auto
qed

lemma ghrp_prefetch_law:
  assumes inv: "ghrp_inv c st"
  shows "\<exists>st'. ghrp_direct_prefetch c ip t bt p sb st = Some st' \<and> ghrp_inv c st' \<and>
    (\<forall>k u. ghrp_lookup c st' k = Some u \<longrightarrow> (if k = ip \<and> p then u = t else ghrp_lookup c st k = Some u))"
proof (cases "map_of (ghrp_btb st ! ghrp_set_index c ip) ip")
  case None
  have n: "ghrp_lookup c st ip = None" using None by (simp add: ghrp_lookup_def set_find_def)
  consider (stay) "\<not> (t \<noteq> 0 \<and> p)" | (buffer) "t \<noteq> 0" p sb | (fill) "t \<noteq> 0" p "\<not> sb" by blast
  then show ?thesis
  proof cases
    case stay
    then have "ghrp_direct_prefetch c ip t bt p sb st = Some st" using None by (auto simp: ghrp_direct_prefetch_def Let_def)
    with inv n show ?thesis by auto
  next
    case buffer
    obtain b where b: "sb_prefetch ip t (sbuf st) = Some b" "sb_ok b"
      using sb_prefetch_total[OF ghrp_invD(6)[OF inv] buffer(1)] by auto
    have "ghrp_inv c (st\<lparr>sbuf := b\<rparr>)" by (rule ghrp_inv_fields[OF inv]) (use ghrp_invD[OF inv] b in auto)
    moreover have "ghrp_lookup c (st\<lparr>sbuf := b\<rparr>) k = ghrp_lookup c st k" for k by (rule ghrp_lookup_cong) simp
    moreover have "ghrp_direct_prefetch c ip t bt p sb st = Some (st\<lparr>sbuf := b\<rparr>)"
      using None buffer b(1) by (simp add: ghrp_direct_prefetch_def Let_def)
    ultimately show ?thesis using n by auto
  next
    case fill
    then have "ghrp_direct_prefetch c ip t bt p sb st = ghrp_allocate (ghrp_set_index c ip) ip t st"
      using None by (simp add: ghrp_direct_prefetch_def Let_def)
    with ghrp_allocate_law[OF inv refl None, of t] fill show ?thesis by simp
  qed
next
  case (Some e)
  obtain st' where h: "hit_access (ghrp_set_index c ip) ip ip st = Some st'" "ghrp_inv c st'"
    "\<And>k. ghrp_lookup c st' k = ghrp_lookup c st k"
    by (rule ghrp_hit_law[OF inv refl Some]) (rule that)
  have "ghrp_lookup c st' ip \<noteq> None" using Some h(3) by (simp add: ghrp_lookup_def set_find_def)
  then have m: "map_of (ghrp_btb st' ! ghrp_set_index c ip) ip \<noteq> None" by (simp add: ghrp_lookup_def set_find_def)
  have "ghrp_direct_prefetch c ip t bt p sb st = Some (ghrp_refresh (ghrp_set_index c ip) ip p t st')"
    using Some h(1) by (simp add: ghrp_direct_prefetch_def Let_def)
  with ghrp_refresh_law[OF h(2) refl m] h(3) show ?thesis by auto
qed

interpretation ghrp: direct_btb "\<lambda>_. ghrp_inv c" bound "\<lambda>_. True" "ghrp_lookup c"
  "ghrp_direct_predict c" "ghrp_direct_update c" "ghrp_direct_prefetch c" id for c bound
proof (unfold_locales, goal_cases)
  case (4 n a ip) then show ?case using ghrp_predict_law[of c a ip] by auto
next
  case (5 n a ip t tk bt) then show ?case using ghrp_update_law[of c a ip t tk bt] by auto
next
  case (6 n a ip t bt p sb) then show ?case using ghrp_prefetch_law[of c a ip t bt p sb] by auto
qed simp_all

lemma ghrp_init_ok:
  assumes "0 < BASIC_BTB_WAYS c"
  shows "ghrp_inv c (store (ghrp_initialize_btb c))" "fe_ok (front (ghrp_initialize_btb c))"
    "ghrp_lookup c (store (ghrp_initialize_btb c)) k = None"
  using assms ghrp_index_bound[OF assms]
  by (simp_all add: ghrp_initialize_btb_def ghrp_inv_def ghrp_row_ok_def table_ok_def counterSize_def
      ghrp_lookup_def set_find_def)

lemmas ghrp_handlers = ghrp_run_def ghrp_btb_prediction_def ghrp_update_btb_def ghrp_prefetch_btb_def

text \<open>C29: no handler of the GHRP BTB fails (the evicted branch is always in the set), its ordered sets stay within the
  ways, and a branch it holds is predicted with the target of its last taken reference.\<close>

theorem ghrp_btb_run_correct:
  assumes "0 < BASIC_BTB_WAYS c"
  shows "\<exists>s. ghrp_run c es (ghrp_initialize_btb c) = Some s \<and> ghrp_inv c (store s) \<and> fe_ok (front s) \<and>
    (\<forall>ip bt t. is_direct bt \<longrightarrow> ghrp_lookup c (store s) ip = Some t \<longrightarrow>
      ideal_run es Map.empty ip = Some t \<and>
      (\<exists>taken s'. ghrp_btb_prediction c ip bt s = Some ((t, taken), s')))"
  using ghrp.run_correct[where bound = "Suc (length es)" and c = c and es = es and s = "ghrp_initialize_btb c"]
    ghrp_init_ok[OF assms]
  by (auto simp: ghrp_handlers)

lemma ghrp_btb_run_correct_witness:
  "\<exists>s. ghrp_run default_config [Update 8 100 1 BRANCH_CONDITIONAL, Predict 8 BRANCH_CONDITIONAL]
     (ghrp_initialize_btb default_config) = Some s \<and> ghrp_inv default_config (store s)"
  using ghrp_btb_run_correct[of default_config "[Update 8 100 1 BRANCH_CONDITIONAL, Predict 8 BRANCH_CONDITIONAL]"]
  by (auto simp: BASIC_BTB_WAYS_def default_config_def)

lemma ghrp_reachable:
  assumes "0 < BASIC_BTB_WAYS c" "ghrp_run c es (ghrp_initialize_btb c) = Some s"
  shows "ghrp_inv c (store s)"
  using ghrp.run_law[where n = 0 and bound = "length es" and c = c and es = es and s = "ghrp_initialize_btb c"]
    ghrp_init_ok[OF assms(1)] assms(2)
  by (auto simp: ghrp_handlers)

text \<open>C30: the dead-branch tables only ever learn about signature 0: in every reachable state every counter is in
  range, every counter above 0 stands at the index that signature 0 has in its table, and so a branch whose signature
  shares at most one table index with signature 0 is never bypassed and never predicted dead, whatever happened to it before.\<close>

theorem ghrp_learns_signature_zero_only:
  assumes "0 < BASIC_BTB_WAYS c" "ghrp_run c es (ghrp_initialize_btb c) = Some s"
  shows "(\<forall>i t. 0 \<le> predTables (store s) i t \<and> predTables (store s) i t < counterSize) \<and>
    (\<forall>i t. 0 < predTables (store s) i t \<longrightarrow> t < numPredTables \<and> i = computeIndices 0 ! t) \<and>
    (\<forall>sig. length (filter (\<lambda>t. computeIndices sig ! t = computeIndices 0 ! t) [0..<numPredTables]) \<le> 1 \<longrightarrow>
       \<not> majorityVote (getCounters (computeIndices sig) (store s)) bypassThresh \<and>
       \<not> majorityVote (getCounters (computeIndices sig) (store s)) deadThresh)"
proof -
  have ok: "table_ok (predTables (store s))" by (rule ghrp_invD(5)[OF ghrp_reachable[OF assms]])
  have "\<not> majorityVote (getCounters (computeIndices sig) (store s)) 3"
    if l: "length (filter (\<lambda>t. computeIndices sig ! t = computeIndices 0 ! t) [0..<numPredTables]) \<le> 1" for sig
  proof -
    have "length (filter (\<lambda>i. 3 \<le> getCounters (computeIndices sig) (store s) ! i) [0..<numPredTables])
        \<le> length (filter (\<lambda>t. computeIndices sig ! t = computeIndices 0 ! t) [0..<numPredTables])"
    proof (rule length_filter_mono)
      fix t assume t: "t \<in> set [0..<numPredTables]" "3 \<le> getCounters (computeIndices sig) (store s) ! t"
      then have "0 < predTables (store s) (computeIndices sig ! t) t" by (simp add: getCounters_def)
      with table_okD(3)[OF ok this] computeIndices_nth[of t 0] show "computeIndices sig ! t = computeIndices 0 ! t"
        by simp
    qed
    with l show ?thesis by (simp add: majorityVote_def numPredTables_def)
  qed
  moreover have "t < numPredTables \<and> i = computeIndices 0 ! t" if "0 < predTables (store s) i t" for i t
    using table_okD(3)[OF ok that] computeIndices_nth[of t 0] by simp
  ultimately show ?thesis using table_okD[OF ok] by (simp add: bypassThresh_def deadThresh_def)
qed


definition ghrp_demo_config :: btb_config where
  "ghrp_demo_config = \<lparr>total_btb_ways = 4, total_btb_entries = 8192\<rparr>"

text \<open>An insertion of branch 8 raises the counters of signature 0 and leaves those of signature 8.\<close>

lemma ghrp_demo_indices: "computeIndices 0 = [3301, 2843, 2048]" "computeIndices 8 = [2097, 3100, 1101]"
  by code_simp+

lemma ghrp_demo_signature: "make_signature 8 0 = 8" "ucast (8::u16) = (8::u64)"
  by (simp_all add: make_signature_def)

lemma ghrp_demo_run:
  "case ghrp_run ghrp_demo_config [Update 8 100 1 BRANCH_DIRECT_JUMP] (ghrp_initialize_btb ghrp_demo_config) of
     None \<Rightarrow> False
   | Some s \<Rightarrow> map fst (ghrp_btb (store s) ! 2) = [8] \<and>
     getCounters [3301, 2843, 2048] (store s) = [1, 1, 1] \<and> getCounters [2097, 3100, 1101] (store s) = [0, 0, 0]"
  by (simp add: ghrp_handlers update_btb_with_def frontend_update_def branch_defs ghrp_direct_update_def
      ghrp_initialize_btb_def ghrp_demo_config_def GHRP_SETS_def BASIC_BTB_WAYS_def ghrp_set_index_def new_stream_buffer_def
      stream_buffer_update_def ghrp_allocate_def miss_access_def ghrp_demo_signature ghrp_demo_indices getCounters_def
      majorityVote_def do_evition_def ghrp_constants upt_rec updatePredTable_def empty_ghrp_entry_def plru_settle_def
      set_value_def bracket_set_def update_global_history_def)

lemma ghrp_learns_signature_zero_only_witness:
  "\<exists>s. ghrp_run ghrp_demo_config [Update 8 100 1 BRANCH_DIRECT_JUMP] (ghrp_initialize_btb ghrp_demo_config) = Some s \<and>
     getCounters (computeIndices 0) (store s) = [1, 1, 1] \<and>
     \<not> majorityVote (getCounters (computeIndices 8) (store s)) bypassThresh"
proof -
  obtain s where s: "ghrp_run ghrp_demo_config [Update 8 100 1 BRANCH_DIRECT_JUMP] (ghrp_initialize_btb ghrp_demo_config) = Some s"
    "getCounters (computeIndices 0) (store s) = [1, 1, 1]"
    using ghrp_demo_run by (auto split: option.splits simp: ghrp_demo_indices)
  have c: "0 < BASIC_BTB_WAYS ghrp_demo_config" by (simp add: ghrp_demo_config_def BASIC_BTB_WAYS_def)
  have "length (filter (\<lambda>t. computeIndices 8 ! t = computeIndices 0 ! t) [0..<numPredTables]) \<le> 1"
    unfolding ghrp_demo_indices by code_simp
  with ghrp_learns_signature_zero_only[OF c s(1)] s show ?thesis by blast
qed

text \<open>The split handlers \<open>hit_access\<close> and \<open>miss_access\<close> are the two cases of the original \<^verbatim>\<open>GHRP::access\<close>.\<close>

theorem ghrp_access_split:
  assumes "sx < length (ghrp_btb st)"
  shows "ghrp_access sx addr pc st =
    (if map_of (ghrp_btb st ! sx) addr = None
     then map_option (\<lambda>(_, st'). (False, st')) (miss_access sx addr pc st)
     else map_option (\<lambda>st'. (True, st')) (hit_access sx addr pc st))"
proof (cases "map_of (ghrp_btb st ! sx) addr")
  case None
  let ?st0 = "st\<lparr>current_timestamp := current_timestamp st + 1\<rparr>"
  have len: "length (ghrp_btb st1) = length (ghrp_btb st)" if "do_evition sx ?st0 = Some st1" for st1
    using that by (auto simp: do_evition_def Let_def split: if_splits option.splits)
  with None assms show ?thesis
    by (auto simp: ghrp_access_def miss_access_def Let_def split: option.splits)
next
  case (Some e)
  with assms show ?thesis by (simp add: ghrp_access_def hit_access_def Let_def)
qed

lemma ghrp_access_split_witness:
  "ghrp_access 0 8 8 (store (ghrp_initialize_btb ghrp_demo_config)) =
     map_option (\<lambda>(_, st'). (False, st')) (miss_access 0 8 8 (store (ghrp_initialize_btb ghrp_demo_config)))"
  using ghrp_access_split[of 0 "store (ghrp_initialize_btb ghrp_demo_config)" 8 8]
  by (simp add: ghrp_initialize_btb_def ghrp_demo_config_def GHRP_SETS_def)

end
