(* ===== verification/Optgen.thy ===== *)
theory Optgen
  imports Prelude
begin

text \<open>
  The two learning structures of Hawkeye: \<^verbatim>\<open>OPTgen\<close> (\<^verbatim>\<open>btb/hawkeye_btb/optgen.h\<close>), which
  replays the optimal policy on a ring of 128 time quanta, and \<^verbatim>\<open>HAWKEYE_PC_PREDICTOR\<close>
  (\<^verbatim>\<open>btb/hawkeye_btb/hawkeye_predictor.h\<close>), a table of five-bit counters indexed by a CRC of
  the branch address. Out-of-range reads of the ring (undefined in C++) are \<open>None\<close>.
\<close>

section \<open>OPTgen\<close>

definition OPTGEN_VECTOR_SIZE :: nat where "OPTGEN_VECTOR_SIZE = 128"

record addr_info =
  ai_addr :: u64
  ai_last_quanta :: u32
  ai_PC :: u64
  ai_prefetched :: bool
  ai_lru :: u32

text \<open>\<^verbatim>\<open>operator[]\<close> of the sampler's map zeroes a new entry; \<^verbatim>\<open>init\<close> leaves \<^verbatim>\<open>addr\<close> alone.\<close>

definition zero_addr_info :: addr_info where
  "zero_addr_info = \<lparr>ai_addr = 0, ai_last_quanta = 0, ai_PC = 0, ai_prefetched = False, ai_lru = 0\<rparr>"

definition ai_init :: "addr_info \<Rightarrow> addr_info" where
  "ai_init a = a\<lparr>ai_last_quanta := 0, ai_PC := 0, ai_prefetched := False, ai_lru := 0\<rparr>"

definition ai_update :: "u32 \<Rightarrow> u64 \<Rightarrow> addr_info \<Rightarrow> addr_info" where
  "ai_update curr_quanta pc a = a\<lparr>ai_last_quanta := curr_quanta, ai_PC := pc\<rparr>"

definition mark_prefetch :: "addr_info \<Rightarrow> addr_info" where
  "mark_prefetch a = a\<lparr>ai_prefetched := True\<rparr>"

record optgen =
  liveness_history :: "u32 list"
  num_cache :: u64
  num_dont_cache :: u64
  og_access :: u64
  CACHE_SIZE :: u64

definition optgen_init :: "u64 \<Rightarrow> optgen" where
  "optgen_init sz = \<lparr>liveness_history = replicate OPTGEN_VECTOR_SIZE 0, num_cache = 0, num_dont_cache = 0,
     og_access = 0, CACHE_SIZE = sz\<rparr>"

definition add_access :: "nat \<Rightarrow> optgen \<Rightarrow> optgen option" where
  "add_access curr_quanta og =
     (if curr_quanta < length (liveness_history og)
      then Some (og\<lparr>og_access := og_access og + 1, liveness_history := (liveness_history og)[curr_quanta := 0]\<rparr>)
      else None)"

definition add_prefetch :: "nat \<Rightarrow> optgen \<Rightarrow> optgen option" where
  "add_prefetch curr_quanta og =
     (if curr_quanta < length (liveness_history og)
      then Some (og\<lparr>liveness_history := (liveness_history og)[curr_quanta := 0]\<rparr>)
      else None)"

text \<open>The two loops of \<^verbatim>\<open>should_cache\<close>, from \<open>i\<close> around the ring to \<open>cq\<close>.\<close>

partial_function (option) optgen_room :: "u64 \<Rightarrow> u32 list \<Rightarrow> nat \<Rightarrow> nat \<Rightarrow> bool option" where
  "optgen_room sz h cq i =
     (if i = cq then Some True
      else if \<not> i < length h then None
      else if ucast (h ! i) \<ge> sz then Some False
      else optgen_room sz h cq ((i + 1) mod length h))"

partial_function (option) optgen_occupy :: "nat \<Rightarrow> u32 list \<Rightarrow> nat \<Rightarrow> u32 list option" where
  "optgen_occupy cq h i =
     (if i = cq then Some h
      else if \<not> i < length h then None
      else optgen_occupy cq (h[i := h ! i + 1]) ((i + 1) mod length h))"

declare optgen_room.simps [code] optgen_occupy.simps [code]

definition should_cache :: "nat \<Rightarrow> nat \<Rightarrow> optgen \<Rightarrow> (bool \<times> optgen) option" where
  "should_cache curr_quanta last_quanta og =
     (case optgen_room (CACHE_SIZE og) (liveness_history og) curr_quanta last_quanta of
        None \<Rightarrow> None
      | Some False \<Rightarrow> Some (False, og\<lparr>num_dont_cache := num_dont_cache og + 1\<rparr>)
      | Some True \<Rightarrow>
          (case optgen_occupy curr_quanta (liveness_history og) last_quanta of
             None \<Rightarrow> None
           | Some h \<Rightarrow> Some (True, og\<lparr>liveness_history := h, num_cache := num_cache og + 1\<rparr>)))"

section \<open>The loops end\<close>

definition ring_dist :: "nat \<Rightarrow> nat \<Rightarrow> nat \<Rightarrow> nat" where
  "ring_dist n i cq = (if i \<le> cq then cq - i else n + cq - i)"

definition in_interval :: "nat \<Rightarrow> nat \<Rightarrow> nat \<Rightarrow> nat \<Rightarrow> bool" where
  "in_interval n i cq j \<longleftrightarrow> ring_dist n i j < ring_dist n i cq"

lemma ring_dist_step: "i < n \<Longrightarrow> cq < n \<Longrightarrow> i \<noteq> cq \<Longrightarrow> ring_dist n i cq = Suc (ring_dist n ((i + 1) mod n) cq)"
  by (cases "i + 1 = n") (auto simp: ring_dist_def)

lemma in_interval_step:
  "i < n \<Longrightarrow> cq < n \<Longrightarrow> j < n \<Longrightarrow> i \<noteq> cq \<Longrightarrow>
   in_interval n i cq j \<longleftrightarrow> j = i \<or> in_interval n ((i + 1) mod n) cq j"
  by (cases "i + 1 = n") (auto simp: in_interval_def ring_dist_def)

lemma not_in_interval_self: "i < n \<Longrightarrow> cq < n \<Longrightarrow> i \<noteq> cq \<Longrightarrow> \<not> in_interval n ((i + 1) mod n) cq i"
  by (cases "i + 1 = n") (auto simp: in_interval_def ring_dist_def)

lemma in_interval_empty [simp]: "\<not> in_interval n i i j"
  by (simp add: in_interval_def ring_dist_def)

lemma optgen_room_result:
  assumes "cq < length h" "i < length h"
  shows "optgen_room sz h cq i =
    Some (\<forall>j<length h. in_interval (length h) i cq j \<longrightarrow> ucast (h ! j) < sz)"
  using assms(2)
proof (induction "ring_dist (length h) i cq" arbitrary: i)
  case 0
  then have "i = cq" using assms(1) by (auto simp: ring_dist_def split: if_splits)
  then show ?case by (subst optgen_room.simps) simp
next
  case (Suc d)
  let ?n = "length h" and ?i = "(i + 1) mod length h"
  have ne: "i \<noteq> cq" using Suc.hyps(2) by (auto simp: ring_dist_def)
  have i': "?i < ?n" using Suc.prems by (intro mod_less_divisor) linarith
  have "d = ring_dist ?n ?i cq" using ring_dist_step[OF Suc.prems assms(1) ne] Suc.hyps(2) by simp
  note IH = Suc.hyps(1)[OF this i']
  note st = in_interval_step[OF Suc.prems assms(1) _ ne]
  have "(\<forall>j<?n. in_interval ?n i cq j \<longrightarrow> ucast (h ! j) < sz) \<longleftrightarrow>
      ucast (h ! i) < sz \<and> (\<forall>j<?n. in_interval ?n ?i cq j \<longrightarrow> ucast (h ! j) < sz)"
    using st Suc.prems by auto
  then show ?case
    using ne Suc.prems IH by (subst optgen_room.simps) (auto simp: not_le)
qed

lemma optgen_occupy_result:
  assumes "cq < length h" "i < length h"
  shows "\<exists>h'. optgen_occupy cq h i = Some h' \<and> length h' = length h \<and>
    (\<forall>j<length h. h' ! j = (if in_interval (length h) i cq j then h ! j + 1 else h ! j))"
  using assms
proof (induction "ring_dist (length h) i cq" arbitrary: i h)
  case 0
  then have "i = cq" by (auto simp: ring_dist_def split: if_splits)
  then have "optgen_occupy cq h i = Some h" by (subst optgen_occupy.simps) simp
  with \<open>i = cq\<close> show ?case by simp
next
  case (Suc d)
  let ?n = "length h" and ?i = "(i + 1) mod length h" and ?h = "h[i := h ! i + 1]"
  have ne: "i \<noteq> cq" using Suc.hyps(2) by (auto simp: ring_dist_def)
  have i': "?i < ?n" using Suc.prems by (intro mod_less_divisor) linarith
  have "d = ring_dist ?n ?i cq" using ring_dist_step[OF Suc.prems(2,1) ne] Suc.hyps(2) by simp
  then obtain h' where h': "optgen_occupy cq ?h ?i = Some h'" "length h' = ?n"
    "\<forall>j<?n. h' ! j = (if in_interval ?n ?i cq j then ?h ! j + 1 else ?h ! j)"
    using Suc.hyps(1)[of ?h ?i] Suc.prems i' by auto
  have "\<forall>j<?n. h' ! j = (if in_interval ?n i cq j then h ! j + 1 else h ! j)"
    using h'(3) in_interval_step[OF Suc.prems(2,1) _ ne] not_in_interval_self[OF Suc.prems(2,1) ne] Suc.prems
    by (auto simp: nth_list_update)
  moreover have "optgen_occupy cq h i = Some h'"
    using ne Suc.prems h'(1) by (subst optgen_occupy.simps) simp
  ultimately show ?case using h'(2) by blast
qed

section \<open>OPTgen never overcommits\<close>

definition optgen_ok :: "optgen \<Rightarrow> bool" where
  "optgen_ok og \<longleftrightarrow> length (liveness_history og) = OPTGEN_VECTOR_SIZE \<and>
     (\<forall>j<OPTGEN_VECTOR_SIZE. unat (liveness_history og ! j) \<le> unat (CACHE_SIZE og))"

lemma optgen_ok_init: "optgen_ok (optgen_init sz)"
  by (simp add: optgen_ok_def optgen_init_def OPTGEN_VECTOR_SIZE_def)

lemma add_access_ok: "optgen_ok og \<Longrightarrow> q < OPTGEN_VECTOR_SIZE \<Longrightarrow> \<exists>og'. add_access q og = Some og' \<and> optgen_ok og'"
  by (auto simp: add_access_def optgen_ok_def nth_list_update)

lemma add_prefetch_ok: "optgen_ok og \<Longrightarrow> q < OPTGEN_VECTOR_SIZE \<Longrightarrow> \<exists>og'. add_prefetch q og = Some og' \<and> optgen_ok og'"
  by (auto simp: add_prefetch_def optgen_ok_def nth_list_update)

lemma unat_ucast_u32 [simp]: "unat (ucast (x :: u32) :: u64) = unat x"
  using unsigned_less[of x, where 'a = nat]
  by (simp add: unsigned_ucast_eq take_bit_nat_eq_self)

lemma unat_add_one_le: "unat (x + 1 :: 'a::len word) \<le> Suc (unat x)"
  by (simp add: unat_word_ariths)

lemma should_cache_result:
  assumes ok: "optgen_ok og" and q: "cq < OPTGEN_VECTOR_SIZE" "lq < OPTGEN_VECTOR_SIZE"
  obtains (yes) og' where "should_cache cq lq og = Some (True, og')" "optgen_ok og'"
      "\<forall>j<OPTGEN_VECTOR_SIZE. in_interval OPTGEN_VECTOR_SIZE lq cq j \<longrightarrow>
         unat (liveness_history og ! j) < unat (CACHE_SIZE og)"
      "\<forall>j<OPTGEN_VECTOR_SIZE. liveness_history og' ! j =
         (if in_interval OPTGEN_VECTOR_SIZE lq cq j then liveness_history og ! j + 1 else liveness_history og ! j)"
      "CACHE_SIZE og' = CACHE_SIZE og"
  | (no) og' j where "should_cache cq lq og = Some (False, og')" "optgen_ok og'"
      "j < OPTGEN_VECTOR_SIZE" "in_interval OPTGEN_VECTOR_SIZE lq cq j"
      "unat (liveness_history og ! j) = unat (CACHE_SIZE og)"
      "liveness_history og' = liveness_history og" "CACHE_SIZE og' = CACHE_SIZE og"
proof -
  let ?n = OPTGEN_VECTOR_SIZE and ?h = "liveness_history og"
  have len: "length ?h = ?n" and le: "\<And>j. j < ?n \<Longrightarrow> unat (?h ! j) \<le> unat (CACHE_SIZE og)"
    using ok by (auto simp: optgen_ok_def)
  let ?room = "\<forall>j<?n. in_interval ?n lq cq j \<longrightarrow> unat (?h ! j) < unat (CACHE_SIZE og)"
  have room: "optgen_room (CACHE_SIZE og) ?h cq lq = Some ?room"
    using optgen_room_result[of cq ?h lq "CACHE_SIZE og"] q len by (simp add: word_less_nat_alt)
  show thesis
  proof (cases ?room)
    case True
    obtain h' where h': "optgen_occupy cq ?h lq = Some h'" "length h' = ?n"
      "\<forall>j<?n. h' ! j = (if in_interval ?n lq cq j then ?h ! j + 1 else ?h ! j)"
      using optgen_occupy_result[of cq ?h lq] q len by auto
    let ?og = "og\<lparr>liveness_history := h', num_cache := num_cache og + 1\<rparr>"
    have "unat (h' ! j) \<le> unat (CACHE_SIZE og)" if "j < ?n" for j
      using True h'(3) le[OF that] that unat_add_one_le[of "?h ! j"] by (auto intro: le_trans)
    then have "optgen_ok ?og" using h'(2) by (simp add: optgen_ok_def)
    with True room h' show thesis by (intro yes[of ?og]) (simp_all add: should_cache_def)
  next
    case False
    then have no_room: "optgen_room (CACHE_SIZE og) ?h cq lq = Some False" using room by simp
    from False obtain j where j: "j < ?n" "in_interval ?n lq cq j" "\<not> unat (?h ! j) < unat (CACHE_SIZE og)" by auto
    then have "unat (?h ! j) = unat (CACHE_SIZE og)" using le[of j] by simp
    with no_room j ok show thesis
      by (intro no[of "og\<lparr>num_dont_cache := num_dont_cache og + 1\<rparr>" j]) (simp_all add: should_cache_def optgen_ok_def)
  qed
qed

text \<open>C31: OPTgen answers every interval of its ring (its loops end) and says yes exactly when every quantum of the
  interval has room, in which case it occupies the interval; the occupancy never exceeds the
  size of the simulated cache.\<close>

theorem should_cache_correct:
  assumes "optgen_ok og" "cq < OPTGEN_VECTOR_SIZE" "prev < OPTGEN_VECTOR_SIZE"
  shows "\<exists>b og'. should_cache cq prev og = Some (b, og') \<and> optgen_ok og' \<and>
    (b \<longleftrightarrow> (\<forall>j<OPTGEN_VECTOR_SIZE. in_interval OPTGEN_VECTOR_SIZE prev cq j \<longrightarrow>
        unat (liveness_history og ! j) < unat (CACHE_SIZE og))) \<and>
    (\<forall>j<OPTGEN_VECTOR_SIZE. liveness_history og' ! j =
       (if b \<and> in_interval OPTGEN_VECTOR_SIZE prev cq j then liveness_history og ! j + 1 else liveness_history og ! j))"
  using assms
proof (cases rule: should_cache_result)
  case (yes og')
  then show ?thesis by (intro exI[of _ True] exI[of _ og']) auto
next
  case (no og' j)
  then show ?thesis by (intro exI[of _ False] exI[of _ og']) auto
qed

lemma should_cache_correct_witness:
  "\<exists>b og'. should_cache 3 126 (optgen_init 2) = Some (b, og') \<and> b \<and> optgen_ok og'"
  using should_cache_correct[OF optgen_ok_init[of 2], of 3 126]
  by (auto simp: OPTGEN_VECTOR_SIZE_def optgen_init_def)

text \<open>An interval as long as the ring is taken for an empty one: it is granted whatever the occupancy. The
  caller's test \<^verbatim>\<open>> OPTGEN_VECTOR_SIZE\<close> lets such an interval through.\<close>

theorem full_ring_always_cached:
  assumes "q < OPTGEN_VECTOR_SIZE"
  shows "should_cache ((q + OPTGEN_VECTOR_SIZE) mod OPTGEN_VECTOR_SIZE) q og =
    Some (True, og\<lparr>num_cache := num_cache og + 1\<rparr>)"
  using assms by (simp add: should_cache_def optgen_room.simps[of _ _ q q] optgen_occupy.simps[of q _ q])

lemma full_ring_always_cached_witness:
  "should_cache ((5 + OPTGEN_VECTOR_SIZE) mod OPTGEN_VECTOR_SIZE) 5
     \<lparr>liveness_history = replicate 128 2, num_cache = 0, num_dont_cache = 0, og_access = 0, CACHE_SIZE = 2\<rparr> =
   Some (True, \<lparr>liveness_history = replicate 128 2, num_cache = 1, num_dont_cache = 0, og_access = 0, CACHE_SIZE = 2\<rparr>)"
  using full_ring_always_cached[of 5] by (simp add: OPTGEN_VECTOR_SIZE_def)

section \<open>The predictor\<close>

definition MAX_SHCT :: u16 where "MAX_SHCT = 31"
definition SHCT_SIZE :: u64 where "SHCT_SIZE = 2048"

fun CRC_steps :: "nat \<Rightarrow> u64 \<Rightarrow> u64" where
  "CRC_steps 0 r = r"
| "CRC_steps (Suc n) r = CRC_steps n (if r AND 1 = 1 then drop_bit 1 r XOR 3988292384 else drop_bit 1 r)"

definition CRC :: "u64 \<Rightarrow> u64" where "CRC blockAddress = CRC_steps 32 blockAddress"

type_synonym shct = "u64 \<rightharpoonup> u16"

definition hk_signature :: "u64 \<Rightarrow> u64" where "hk_signature pc = CRC pc mod SHCT_SIZE"

definition hk_start :: "u64 \<Rightarrow> shct \<Rightarrow> u16" where
  "hk_start sig m = (case m sig of None \<Rightarrow> (1 + MAX_SHCT) div 2 | Some v \<Rightarrow> v)"

definition hk_increment :: "u64 \<Rightarrow> shct \<Rightarrow> shct" where
  "hk_increment pc m =
     (let sig = hk_signature pc; v = hk_start sig m in m(sig \<mapsto> (if v < MAX_SHCT then v + 1 else MAX_SHCT)))"

definition hk_decrement :: "u64 \<Rightarrow> shct \<Rightarrow> shct" where
  "hk_decrement pc m =
     (let sig = hk_signature pc; v = hk_start sig m in m(sig \<mapsto> (if v \<noteq> 0 then v - 1 else v)))"

definition hk_get_prediction :: "u64 \<Rightarrow> shct \<Rightarrow> bool" where
  "hk_get_prediction pc m =
     (case m (hk_signature pc) of Some v \<Rightarrow> \<not> v < (MAX_SHCT + 1) div 2 | None \<Rightarrow> True)"

definition shct_ok :: "shct \<Rightarrow> bool" where
  "shct_ok m \<longleftrightarrow> (\<forall>v\<in>ran m. v \<le> MAX_SHCT)"

lemma shct_ok_empty [simp]: "shct_ok Map.empty" by (simp add: shct_ok_def)

lemma hk_start_ok: "shct_ok m \<Longrightarrow> hk_start sig m \<le> MAX_SHCT"
  by (auto simp: hk_start_def shct_ok_def ran_def MAX_SHCT_def split: option.split)

lemma shct_ok_upd: "shct_ok m \<Longrightarrow> v \<le> MAX_SHCT \<Longrightarrow> shct_ok (m(sig \<mapsto> v))"
  by (auto simp: shct_ok_def ran_def)

lemma hk_increment_ok [intro]:
  assumes "shct_ok m"
  shows "shct_ok (hk_increment pc m)"
proof -
  let ?v = "hk_start (hk_signature pc) m"
  have "(if ?v < MAX_SHCT then ?v + 1 else MAX_SHCT) \<le> MAX_SHCT" using word_less_add_one(2)[of ?v MAX_SHCT] by simp
  then show ?thesis unfolding hk_increment_def Let_def by (rule shct_ok_upd[OF assms])
qed

lemma hk_decrement_ok [intro]:
  assumes "shct_ok m"
  shows "shct_ok (hk_decrement pc m)"
proof -
  let ?v = "hk_start (hk_signature pc) m"
  have "?v - 1 \<le> ?v" if "?v \<noteq> 0" using that by (simp add: word_le_nat_alt unat_minus_one)
  then have "(if ?v \<noteq> 0 then ?v - 1 else ?v) \<le> MAX_SHCT" using hk_start_ok[OF assms, of "hk_signature pc"] by auto
  then show ?thesis unfolding hk_decrement_def Let_def by (rule shct_ok_upd[OF assms])
qed

end
