(* ===== verification/HawkeyeBtb.thy ===== *)
theory HawkeyeBtb
  imports ArrayBtb Optgen
begin

text \<open>
  The Hawkeye BTB of \<^verbatim>\<open>btb/hawkeye_btb/hawkeye_btb.cc\<close>: the ways of a set carry a three-bit
  prediction value (7: do not keep); 32 sampled sets feed a sampler and OPTgen, which train the
  two predictors. The geometry is fixed at 2048 sets of 4 ways. Every operator \<^verbatim>\<open>[]\<close> on the
  sampler's ordered maps reaches a pair that exists, so it is written as an update.
\<close>

section \<open>State\<close>

definition HK_SETS :: nat where "HK_SETS = 2048"
definition HK_WAYS :: nat where "HK_WAYS = 4"
definition maxRRPV :: u32 where "maxRRPV = 7"
definition TIMER_SIZE :: nat where "TIMER_SIZE = 1024"
definition SAMPLER_WAYS :: nat where "SAMPLER_WAYS = 8"

text \<open>\<^verbatim>\<open>SAMPLER_SETS\<close> is the unbracketed text 2800/8; \<open>hk_sampler_set\<close> shows what that gives after a \<^verbatim>\<open>%\<close>.\<close>

definition SAMPLER_SETS :: nat where "SAMPLER_SETS = 2800 div 8"

lemmas hk_sizes = HK_SETS_def HK_WAYS_def TIMER_SIZE_def SAMPLER_WAYS_def SAMPLER_SETS_def OPTGEN_VECTOR_SIZE_def

record hk_entry =
  ip_tag :: u64
  target :: u64
  always_taken :: u8
  lru :: u64

definition empty_hk_entry :: hk_entry where
  "empty_hk_entry = \<lparr>ip_tag = 0, target = 0, always_taken = 0, lru = 0\<rparr>"

record hk_store =
  hk_btb :: "hk_entry list list"
  rrpv :: "u32 list list"
  perset_mytimer :: "u64 list"
  signatures :: "u64 list list"
  hk_prefetched :: "bool list list"
  demand_predictor :: shct
  prefetch_predictor :: shct
  perset_optgen :: "optgen list"
  addr_history :: "(u64 \<times> addr_info) list list"
  sbuf :: stream_buffer

definition hk_initialize_btb :: "hk_store btb_cpu" where
  "hk_initialize_btb =
     \<lparr>front = init_frontend,
      store =
       \<lparr>hk_btb = replicate HK_SETS (replicate HK_WAYS empty_hk_entry),
        rrpv = replicate HK_SETS (replicate HK_WAYS maxRRPV),
        perset_mytimer = replicate HK_SETS 0,
        signatures = replicate HK_SETS (replicate HK_WAYS 0),
        hk_prefetched = replicate HK_SETS (replicate HK_WAYS False),
        demand_predictor = Map.empty,
        prefetch_predictor = Map.empty,
        perset_optgen = replicate HK_SETS (optgen_init (of_nat HK_WAYS - 2)),
        addr_history = replicate SAMPLER_SETS [],
        sbuf = new_stream_buffer 32\<rparr>\<rparr>"

section \<open>Victims\<close>

definition SAMPLED_SET :: "nat \<Rightarrow> bool" where
  "SAMPLED_SET sx \<longleftrightarrow> sx mod 64 = (sx div 2 ^ 5) mod 64"

definition GetVictimInSet :: "nat \<Rightarrow> hk_store \<Rightarrow> (nat \<times> hk_store) option" where
  "GetVictimInSet sx st =
     (let row = rrpv st ! sx
      in case first_index (\<lambda>i. row ! i = maxRRPV) HK_WAYS of
           Some i \<Rightarrow> Some (i, st)
         | None \<Rightarrow>
             (let (max_rrip, lru_victim) =
                foldl (\<lambda>(m, v) i. if row ! i \<ge> m then (row ! i, int i) else (m, v)) (0, - 1) [0..<HK_WAYS]
              in if lru_victim = - 1 then None
                 else
                   let w = nat lru_victim; sig = signatures st ! sx ! w
                   in Some (w,
                        if SAMPLED_SET sx
                        then (if hk_prefetched st ! sx ! w
                              then st\<lparr>prefetch_predictor := hk_decrement sig (prefetch_predictor st)\<rparr>
                              else st\<lparr>demand_predictor := hk_decrement sig (demand_predictor st)\<rparr>)
                        else st)))"

section \<open>The sampler\<close>

definition replace_addr_history_element :: "(u64 \<times> addr_info) list \<Rightarrow> (u64 \<times> addr_info) list" where
  "replace_addr_history_element row =
     erase_key (case List.find (\<lambda>p. ai_lru (snd p) = of_nat (SAMPLER_WAYS - 1)) row of
                  Some p \<Rightarrow> fst p | None \<Rightarrow> 0) row"

definition update_addr_history_lru :: "u32 \<Rightarrow> (u64 \<times> addr_info) list \<Rightarrow> (u64 \<times> addr_info) list option" where
  "update_addr_history_lru curr_lru row =
     (if \<forall>p\<in>set row. ai_lru (snd p) < curr_lru \<longrightarrow> ai_lru (snd p) + 1 < of_nat SAMPLER_WAYS
      then Some (map (\<lambda>(k, a). (k, if ai_lru a < curr_lru then a\<lparr>ai_lru := ai_lru a + 1\<rparr> else a)) row)
      else None)"

definition hk_sampler_set :: "u64 \<Rightarrow> nat" where
  "hk_sampler_set paddr = unat (drop_bit 6 (push_bit 6 (drop_bit 6 paddr)) mod 2800 div 8)"

definition hk_sampler_tag :: "u64 \<Rightarrow> u64" where
  "hk_sampler_tag paddr = CRC (drop_bit 12 (push_bit 6 (drop_bit 6 paddr))) mod 256"

definition hk_train :: "bool \<Rightarrow> addr_info \<Rightarrow> hk_store \<Rightarrow> hk_store" where
  "hk_train up a st =
     (let f = (if up then hk_increment else hk_decrement) (ai_PC a)
      in if ai_prefetched a then st\<lparr>prefetch_predictor := f (prefetch_predictor st)\<rparr>
         else st\<lparr>demand_predictor := f (demand_predictor st)\<rparr>)"

text \<open>What the three cases share: ask OPTgen about an interval, train, put the new state of OPTgen back.\<close>

definition hk_set_optgen :: "nat \<Rightarrow> optgen \<Rightarrow> hk_store \<Rightarrow> hk_store" where
  "hk_set_optgen sx og st = st\<lparr>perset_optgen := (perset_optgen st)[sx := og]\<rparr>"

definition hk_set_history :: "nat \<Rightarrow> (u64 \<times> addr_info) list \<Rightarrow> hk_store \<Rightarrow> hk_store" where
  "hk_set_history ss row st = st\<lparr>addr_history := (addr_history st)[ss := row]\<rparr>"

text \<open>A demand access to a line the sampler knows.\<close>

definition hk_sample_demand :: "nat \<Rightarrow> nat \<Rightarrow> u64 \<Rightarrow> addr_info \<Rightarrow> hk_store \<Rightarrow> hk_store option" where
  "hk_sample_demand sx ss tag a st =
     (let cq = unat (perset_mytimer st ! sx) mod OPTGEN_VECTOR_SIZE;
          timer = (ucast (perset_mytimer st ! sx) :: u32);
          timer = (if timer < ai_last_quanta a then timer + of_nat TIMER_SIZE else timer);
          wrap = timer - ai_last_quanta a > of_nat OPTGEN_VECTOR_SIZE;
          lq = unat (ai_last_quanta a) mod OPTGEN_VECTOR_SIZE
      in case (if wrap then Some (False, perset_optgen st ! sx) else should_cache cq lq (perset_optgen st ! sx)) of
           None \<Rightarrow> None
         | Some (cache, og) \<Rightarrow>
             (let st = hk_train cache a st
              in case (add_access cq og, update_addr_history_lru (ai_lru a) (addr_history st ! ss)) of
                   (Some og, Some row) \<Rightarrow>
                     Some (hk_set_history ss (set_value tag (\<lambda>a. a\<lparr>ai_prefetched := False\<rparr>) row)
                            (hk_set_optgen sx og st))
                 | _ \<Rightarrow> None))"

text \<open>The first access to a line.\<close>

definition hk_sample_new :: "nat \<Rightarrow> nat \<Rightarrow> u64 \<Rightarrow> bool \<Rightarrow> hk_store \<Rightarrow> hk_store option" where
  "hk_sample_new sx ss tag is_prefetch st =
     (let cq = unat (perset_mytimer st ! sx) mod OPTGEN_VECTOR_SIZE;
          row = addr_history st ! ss;
          row = (if length row = SAMPLER_WAYS then replace_addr_history_element row else row)
      in if \<not> length row < SAMPLER_WAYS then None
         else
           let a = ai_init zero_addr_info;
               row = insort_key fst (tag, if is_prefetch then mark_prefetch a else a) row
           in case (if is_prefetch then add_prefetch cq (perset_optgen st ! sx)
                    else add_access cq (perset_optgen st ! sx),
                    update_addr_history_lru (of_nat (SAMPLER_WAYS - 1)) row) of
                (Some og, Some row) \<Rightarrow> Some (hk_set_history ss row (hk_set_optgen sx og st))
              | _ \<Rightarrow> None)"

text \<open>A prefetch of a line the sampler knows.\<close>

definition hk_sample_prefetch :: "nat \<Rightarrow> nat \<Rightarrow> u64 \<Rightarrow> addr_info \<Rightarrow> hk_store \<Rightarrow> hk_store option" where
  "hk_sample_prefetch sx ss tag a st =
     (let cq = unat (perset_mytimer st ! sx) mod OPTGEN_VECTOR_SIZE;
          lq = unat (ai_last_quanta a) mod OPTGEN_VECTOR_SIZE
      in case (if perset_mytimer st ! sx - ucast (ai_last_quanta a) < 5
               then should_cache cq lq (perset_optgen st ! sx) else Some (False, perset_optgen st ! sx)) of
           None \<Rightarrow> None
         | Some (cache, og) \<Rightarrow>
             (let st = (if cache then hk_train True a st else st)
              in case (add_prefetch cq og,
                       update_addr_history_lru (ai_lru a) (set_value tag mark_prefetch (addr_history st ! ss))) of
                   (Some og, Some row) \<Rightarrow> Some (hk_set_history ss row (hk_set_optgen sx og st))
                 | _ \<Rightarrow> None))"

definition hk_sample :: "nat \<Rightarrow> u64 \<Rightarrow> u64 \<Rightarrow> u32 \<Rightarrow> hk_store \<Rightarrow> hk_store option" where
  "hk_sample sx paddr PC type st =
     (let ss = hk_sampler_set paddr; tag = hk_sampler_tag paddr
      in if \<not> ss < SAMPLER_SETS then None
         else
           case (case map_of (addr_history st ! ss) tag of
                   Some a \<Rightarrow> if type \<noteq> PREFETCH then hk_sample_demand sx ss tag a st
                             else hk_sample_prefetch sx ss tag a st
                 | None \<Rightarrow> hk_sample_new sx ss tag (type = PREFETCH) st) of
             None \<Rightarrow> None
           | Some st \<Rightarrow>
               (let t = perset_mytimer st ! sx
                in Some (hk_set_history ss
                     (set_value tag (\<lambda>a. (ai_update (ucast t) PC a)\<lparr>ai_lru := 0\<rparr>) (addr_history st ! ss))
                     (st\<lparr>perset_mytimer := (perset_mytimer st)[sx := (t + 1) mod of_nat TIMER_SIZE]\<rparr>))))"

section \<open>Replacement state\<close>

definition hk_age :: "nat \<Rightarrow> bool \<Rightarrow> bool \<Rightarrow> u32 list \<Rightarrow> u32 list" where
  "hk_age way new_prediction hit row =
     (if \<not> new_prediction then row[way := maxRRPV]
      else
        let row = row[way := 0];
            row = (if \<not> hit then
                     (let saturated = (\<exists>r\<in>set row. r = maxRRPV - 1)
                      in map (\<lambda>r. if \<not> saturated \<and> r < maxRRPV - 1 then r + 1 else r) row)
                   else row)
        in row[way := 0])"

definition UpdateReplacementState ::
  "nat \<Rightarrow> nat \<Rightarrow> u64 \<Rightarrow> u64 \<Rightarrow> u32 \<Rightarrow> bool \<Rightarrow> hk_store \<Rightarrow> hk_store option" where
  "UpdateReplacementState sx way paddr PC type hit st =
     (let st = (if type = PREFETCH
                then (if \<not> hit then st\<lparr>hk_prefetched := upd2 sx way (\<lambda>_. True) (hk_prefetched st)\<rparr> else st)
                else st\<lparr>hk_prefetched := upd2 sx way (\<lambda>_. False) (hk_prefetched st)\<rparr>)
      in if type = WRITEBACK then Some st
         else
           case (if SAMPLED_SET sx then hk_sample sx paddr PC type st else Some st) of
             None \<Rightarrow> None
           | Some st \<Rightarrow>
               (let new_prediction = (if type = PREFETCH then hk_get_prediction PC (prefetch_predictor st)
                                      else hk_get_prediction PC (demand_predictor st))
                in Some (st\<lparr>signatures := upd2 sx way (\<lambda>_. PC) (signatures st),
                           rrpv := (rrpv st)[sx := hk_age way new_prediction hit (rrpv st ! sx)]\<rparr>)))"

section \<open>Handlers\<close>

definition hk_set_index :: "u64 \<Rightarrow> nat" where
  "hk_set_index ip = unat (drop_bit 2 ip AND (of_nat HK_SETS - 1))"

definition hk_find_entry :: "hk_store \<Rightarrow> u64 \<Rightarrow> nat option" where
  "hk_find_entry st ip = first_index (\<lambda>i. ip_tag (hk_btb st ! hk_set_index ip ! i) = ip) HK_WAYS"

definition hk_refresh_entry :: "nat \<Rightarrow> nat \<Rightarrow> bool \<Rightarrow> u64 \<Rightarrow> hk_store \<Rightarrow> hk_store" where
  "hk_refresh_entry sx way taken branch_target st =
     st\<lparr>hk_btb := upd2 sx way
         (\<lambda>e. if \<not> taken then e\<lparr>always_taken := 0\<rparr> else e\<lparr>target := branch_target\<rparr>) (hk_btb st)\<rparr>"

definition hk_direct_predict :: "u64 \<Rightarrow> hk_store \<Rightarrow> ((u64 \<times> u8) \<times> hk_store) option" where
  "hk_direct_predict ip st =
     (let sx = hk_set_index ip
      in case hk_find_entry st ip of
           None \<Rightarrow> Some ((stream_buffer_predict ip (sbuf st), 1), st)
         | Some way \<Rightarrow>
             map_option (\<lambda>st'. ((target (hk_btb st' ! sx ! way), always_taken (hk_btb st ! sx ! way)), st'))
               (UpdateReplacementState sx way ip ip LOAD True st))"

definition hk_direct_update :: "u64 \<Rightarrow> u64 \<Rightarrow> u8 \<Rightarrow> u8 \<Rightarrow> hk_store \<Rightarrow> hk_store option" where
  "hk_direct_update ip branch_target taken bt st =
     (let sx = hk_set_index ip
      in case hk_find_entry st ip of
           None \<Rightarrow>
             (let st = st\<lparr>sbuf := snd (stream_buffer_update ip (sbuf st))\<rparr>
              in if branch_target \<noteq> 0 \<and> taken \<noteq> 0 then
                   (case GetVictimInSet sx st of
                      None \<Rightarrow> None
                    | Some (way, st) \<Rightarrow>
                        UpdateReplacementState sx way ip ip LOAD False
                          (st\<lparr>hk_btb := upd2 sx way
                             (\<lambda>e. e\<lparr>ip_tag := ip, target := branch_target, always_taken := 1\<rparr>) (hk_btb st)\<rparr>))
                 else Some st)
         | Some way \<Rightarrow> Some (hk_refresh_entry sx way (taken \<noteq> 0) branch_target st))"

text \<open>The tag is set only when the old one is not 0: the guard of a statement that is commented out.\<close>

definition hk_direct_prefetch :: "u64 \<Rightarrow> u64 \<Rightarrow> u8 \<Rightarrow> bool \<Rightarrow> bool \<Rightarrow> hk_store \<Rightarrow> hk_store option" where
  "hk_direct_prefetch ip branch_target bt taken to_stream_buffer st =
     (let sx = hk_set_index ip
      in case hk_find_entry st ip of
           None \<Rightarrow>
             if branch_target \<noteq> 0 \<and> taken then
               (if to_stream_buffer
                then map_option (\<lambda>sb. st\<lparr>sbuf := sb\<rparr>) (sb_prefetch ip branch_target (sbuf st))
                else
                  (case GetVictimInSet sx st of
                     None \<Rightarrow> None
                   | Some (way, st) \<Rightarrow>
                       UpdateReplacementState sx way ip ip PREFETCH False
                         (st\<lparr>hk_btb := upd2 sx way
                            (\<lambda>e. (if ip_tag e \<noteq> 0 then e\<lparr>ip_tag := ip\<rparr> else e)
                                   \<lparr>target := branch_target, always_taken := 1\<rparr>) (hk_btb st)\<rparr>)))
             else Some st
         | Some way \<Rightarrow>
             map_option (hk_refresh_entry sx way taken branch_target)
               (UpdateReplacementState sx way ip ip PREFETCH True st))"

definition hk_btb_prediction :: "u64 \<Rightarrow> u8 \<Rightarrow> hk_store btb_cpu \<Rightarrow> ((u64 \<times> u8) \<times> hk_store btb_cpu) option" where
  "hk_btb_prediction = btb_prediction_with hk_direct_predict"

definition hk_update_btb :: "u64 \<Rightarrow> u64 \<Rightarrow> u8 \<Rightarrow> u8 \<Rightarrow> hk_store btb_cpu \<Rightarrow> hk_store btb_cpu option" where
  "hk_update_btb = update_btb_with hk_direct_update"

definition hk_prefetch_btb :: "u64 \<Rightarrow> u64 \<Rightarrow> u8 \<Rightarrow> bool \<Rightarrow> bool \<Rightarrow> hk_store btb_cpu \<Rightarrow> hk_store btb_cpu option" where
  "hk_prefetch_btb = prefetch_btb_with hk_direct_prefetch"

section \<open>The sampler is a set of LRU stacks\<close>

text \<open>
  Every set of the sampler numbers its lines by recency: distinct positions, all below the number of lines. That is
  what makes the assertions of the sampler hold: a full set has a line at the last position.
\<close>

abbreviation lru_pos :: "u64 \<times> addr_info \<Rightarrow> nat" where "lru_pos p \<equiv> unat (ai_lru (snd p))"

definition sampler_ok :: "(u64 \<times> addr_info) list \<Rightarrow> bool" where
  "sampler_ok row \<longleftrightarrow> distinct (map fst row) \<and> length row \<le> SAMPLER_WAYS \<and>
     distinct (map lru_pos row) \<and> (\<forall>p\<in>set row. lru_pos p < length row)"

lemma sampler_full:
  assumes "sampler_ok row" "length row = SAMPLER_WAYS"
  shows "\<exists>p\<in>set row. lru_pos p = SAMPLER_WAYS - 1"
proof -
  have "lru_pos ` set row \<subseteq> {..<SAMPLER_WAYS}" using assms by (auto simp: sampler_ok_def)
  moreover have "card (lru_pos ` set row) = SAMPLER_WAYS"
    using assms distinct_card[of "map lru_pos row"] by (simp add: sampler_ok_def)
  ultimately have "lru_pos ` set row = {..<SAMPLER_WAYS}" by (intro card_subset_eq) auto
  then have "SAMPLER_WAYS - 1 \<in> lru_pos ` set row" by (simp add: SAMPLER_WAYS_def)
  then show ?thesis by (force simp: image_iff)
qed

lemma replace_history_room:
  assumes ok: "sampler_ok row" and full: "length row = SAMPLER_WAYS"
  shows "distinct (map fst (replace_addr_history_element row))" "distinct (map lru_pos (replace_addr_history_element row))"
    "length (replace_addr_history_element row) < SAMPLER_WAYS"
    "\<forall>p\<in>set (replace_addr_history_element row). lru_pos p < SAMPLER_WAYS - 1"
    "set (replace_addr_history_element row) \<subseteq> set row"
proof -
  let ?P = "\<lambda>p. ai_lru (snd p) = (of_nat (SAMPLER_WAYS - 1) :: u32)"
  have P: "?P p \<longleftrightarrow> lru_pos p = SAMPLER_WAYS - 1" for p :: "u64 \<times> addr_info"
    by (simp add: word_unat_eq_iff SAMPLER_WAYS_def)
  obtain p where p: "List.find ?P row = Some p" "p \<in> set row" "lru_pos p = SAMPLER_WAYS - 1"
  proof (cases "List.find ?P row")
    case None
    then show thesis using sampler_full[OF ok full] by (auto simp only: P find_None_iff)
  next
    case (Some p)
    then show thesis using that[of p] P[of p] by (auto simp: find_Some_iff)
  qed
  have r: "replace_addr_history_element row = erase_key (fst p) row"
    using p(1) by (simp add: replace_addr_history_element_def)
  have d: "distinct (map fst row)" "distinct (map lru_pos row)" using ok by (simp_all add: sampler_ok_def)
  show "distinct (map fst (replace_addr_history_element row))" "distinct (map lru_pos (replace_addr_history_element row))"
    using d by (simp_all add: r erase_key_def distinct_map_filter)
  show "length (replace_addr_history_element row) < SAMPLER_WAYS"
    using length_erase_key[OF d(1), of "fst p"] p(2) full by (simp add: r)
  show "set (replace_addr_history_element row) \<subseteq> set row" by (auto simp: r erase_key_def)
  have "lru_pos q < SAMPLER_WAYS - 1" if "q \<in> set row" "fst q \<noteq> fst p" for q
  proof -
    have "lru_pos q \<noteq> lru_pos p" using d(2) that p(2) by (auto simp: distinct_map inj_on_def)
    moreover have "lru_pos q < SAMPLER_WAYS" using ok full that(1) by (auto simp: sampler_ok_def)
    ultimately show ?thesis using p(3) by linarith
  qed
  then show "\<forall>p\<in>set (replace_addr_history_element row). lru_pos p < SAMPLER_WAYS - 1" by (auto simp: r erase_key_def)
qed

definition bump :: "u32 \<Rightarrow> addr_info \<Rightarrow> addr_info" where
  "bump cl a = (if ai_lru a < cl then a\<lparr>ai_lru := ai_lru a + 1\<rparr> else a)"

lemma bump_pos: "unat (ai_lru (bump cl a)) = (if unat (ai_lru a) < unat cl then Suc (unat (ai_lru a)) else unat (ai_lru a))"
  using word_less_add_one(1)[of "ai_lru a" cl] by (simp add: bump_def word_less_nat_alt)

text \<open>Every line below the position \<open>cl\<close> moves up by one and the line \<open>tag\<close> goes to the front.\<close>

lemma sampler_move:
  assumes keys: "distinct (map fst row)" and len: "length row \<le> SAMPLER_WAYS" and ne: "row \<noteq> []"
    and cl: "unat cl < SAMPLER_WAYS"
    and inj: "\<And>p q. p \<in> set row \<Longrightarrow> q \<in> set row \<Longrightarrow> fst p \<noteq> tag \<Longrightarrow> fst q \<noteq> tag \<Longrightarrow> lru_pos p = lru_pos q \<Longrightarrow> p = q"
    and pos: "\<And>p. p \<in> set row \<Longrightarrow> fst p \<noteq> tag \<Longrightarrow> lru_pos p \<noteq> unat cl \<and>
      (if lru_pos p < unat cl then Suc (lru_pos p) else lru_pos p) < length row"
    and f: "\<And>a. ai_lru (f a) = 0"
  shows "\<exists>row'. update_addr_history_lru cl row = Some row' \<and> map fst row' = map fst row \<and>
    sampler_ok (set_value tag f row')"
proof -
  let ?row = "map (\<lambda>(k, a). (k, bump cl a)) row"
  let ?h = "\<lambda>p. if fst p = tag then 0 else unat (ai_lru (bump cl (snd p)))"
  have "ai_lru (snd p) + 1 < (of_nat SAMPLER_WAYS :: u32)" if "ai_lru (snd p) < cl" for p :: "u64 \<times> addr_info"
    using word_less_add_one(1)[OF that] cl that by (simp add: word_less_nat_alt SAMPLER_WAYS_def)
  then have u: "update_addr_history_lru cl row = Some ?row"
    by (simp add: update_addr_history_lru_def bump_def)
  have fst: "map fst ?row = map fst row" by (simp add: case_prod_beta comp_def)
  have pos': "map lru_pos (set_value tag f ?row) = map ?h row"
    using f by (simp add: set_value_def case_prod_beta comp_def)
  have h: "?h p = (if fst p = tag then 0 else if lru_pos p < unat cl then Suc (lru_pos p) else lru_pos p)" for p
    by (simp add: bump_pos)
  have "inj_on ?h (set row)"
  proof (rule inj_onI)
    fix p q assume m: "p \<in> set row" "q \<in> set row" "?h p = ?h q"
    have key: "fst p = fst q \<Longrightarrow> p = q" using keys m(1,2) by (auto simp: distinct_map inj_on_def)
    have z: "?h x \<noteq> 0" if "x \<in> set row" "fst x \<noteq> tag" for x
      using pos[OF that] that(2) unfolding h by (auto split: if_splits)
    show "p = q"
    proof (cases "fst p = tag \<or> fst q = tag")
      case True
      with m z[of p] z[of q] key show ?thesis by (cases "fst p = tag"; cases "fst q = tag") auto
    next
      case False
      then have "lru_pos p = lru_pos q" using m(3) pos[OF m(1)] pos[OF m(2)] unfolding h by (auto split: if_splits)
      with inj[OF m(1,2)] False show ?thesis by blast
    qed
  qed
  moreover have "distinct row" using keys by (simp add: distinct_map)
  ultimately have "distinct (map ?h row)" by (simp add: distinct_map)
  moreover have "?h p < length row" if "p \<in> set row" for p
    using pos[OF that] ne unfolding h by (auto split: if_splits)
  then have "\<forall>x\<in>set (map ?h row). x < length row" by (simp only: set_map ball_simps) blast
  ultimately have "sampler_ok (set_value tag f ?row)"
    using keys len fst unfolding sampler_ok_def pos'[symmetric]
    by (simp only: map_fst_set_value length_set_value length_map set_map ball_simps)
  with u fst show ?thesis by blast
qed

lemma sampler_touch:
  assumes ok: "sampler_ok row" and a: "map_of row tag = Some a" and f: "\<And>a. ai_lru (f a) = 0"
  shows "\<exists>row'. update_addr_history_lru (ai_lru a) row = Some row' \<and> map fst row' = map fst row \<and>
    sampler_ok (set_value tag f row')"
proof (rule sampler_move)
  have m: "(tag, a) \<in> set row" using a by (rule map_of_SomeD)
  have d: "distinct (map fst row)" "inj_on lru_pos (set row)" "\<And>p. p \<in> set row \<Longrightarrow> lru_pos p < length row"
    using ok by (auto simp: sampler_ok_def distinct_map)
  show "distinct (map fst row)" by (rule d(1))
  show "length row \<le> SAMPLER_WAYS" using ok by (simp add: sampler_ok_def)
  then show "unat (ai_lru a) < SAMPLER_WAYS" using d(3)[OF m] by simp
  show "row \<noteq> []" using m by auto
  show "p = q" if "p \<in> set row" "q \<in> set row" "lru_pos p = lru_pos q" for p q
    using d(2) that by (simp add: inj_on_def)
  show "lru_pos p \<noteq> unat (ai_lru a) \<and> (if lru_pos p < unat (ai_lru a) then Suc (lru_pos p) else lru_pos p) < length row"
    if "p \<in> set row" "fst p \<noteq> tag" for p
  proof -
    have "lru_pos p \<noteq> unat (ai_lru a)" using d(2) that m by (force simp: inj_on_def)
    with d(3)[OF that(1)] d(3)[OF m] show ?thesis by auto
  qed
qed (rule f)

lemma sampler_add:
  assumes ok: "sampler_ok row" and none: "map_of row tag = None" and f: "\<And>a. ai_lru (f a) = 0" and a: "ai_lru a = 0"
    and row0: "row0 = (if length row = SAMPLER_WAYS then replace_addr_history_element row else row)"
  shows "length row0 < SAMPLER_WAYS"
    "\<exists>row'. update_addr_history_lru (of_nat (SAMPLER_WAYS - 1)) (insort_key fst (tag, a) row0) = Some row' \<and>
       map_of row' tag \<noteq> None \<and> sampler_ok (set_value tag f row')"
proof -
  have r: "distinct (map fst row0) \<and> distinct (map lru_pos row0) \<and> length row0 < SAMPLER_WAYS \<and>
    (\<forall>p\<in>set row0. lru_pos p < length row0) \<and> set row0 \<subseteq> set row"
  proof (cases "length row = SAMPLER_WAYS")
    case True
    note R = replace_history_room[OF ok True]
    have "SAMPLER_WAYS - 1 \<le> length (replace_addr_history_element row)"
      using length_erase_key_ge[of row] ok True
      by (metis replace_addr_history_element_def sampler_ok_def)
    with R show ?thesis unfolding row0 by (fastforce simp: True)
  next
    case False
    with ok show ?thesis unfolding row0 by (auto simp: sampler_ok_def)
  qed
  then show lt: "length row0 < SAMPLER_WAYS" by blast
  let ?row = "insort_key fst (tag, a) row0"
  have none0: "map_of row0 tag = None" using r none by (auto simp: map_of_eq_None_iff)
  note I = emplace_facts[of ?row tag a row0]
  have I: "distinct (map fst ?row)" "set ?row = insert (tag, a) (set row0)" "length ?row = Suc (length row0)"
    "map_of ?row = (map_of row0)(tag \<mapsto> a)"
    using emplace_facts[of ?row tag a row0] r none0 by (simp_all add: map_of_eq_None_iff)
  have seven: "unat (of_nat (SAMPLER_WAYS - 1) :: u32) = 7" by (simp add: SAMPLER_WAYS_def)
  have other: "p \<in> set row0" if "p \<in> set ?row" "fst p \<noteq> tag" for p using that I(2) by auto
  have "\<exists>row'. update_addr_history_lru (of_nat (SAMPLER_WAYS - 1)) ?row = Some row' \<and> map fst row' = map fst ?row \<and>
       sampler_ok (set_value tag f row')"
  proof (rule sampler_move[OF I(1)])
    show "length ?row \<le> SAMPLER_WAYS" using I(3) lt by simp
    show "?row \<noteq> []" using I(3) by auto
    show "unat (of_nat (SAMPLER_WAYS - 1) :: u32) < SAMPLER_WAYS" unfolding seven by (simp add: SAMPLER_WAYS_def)
    show "p = q" if "p \<in> set ?row" "q \<in> set ?row" "fst p \<noteq> tag" "fst q \<noteq> tag" "lru_pos p = lru_pos q" for p q
      using other[OF that(1,3)] other[OF that(2,4)] that(5) r by (auto simp: distinct_map inj_on_def)
    show "lru_pos p \<noteq> unat (of_nat (SAMPLER_WAYS - 1) :: u32) \<and>
        (if lru_pos p < unat (of_nat (SAMPLER_WAYS - 1) :: u32) then Suc (lru_pos p) else lru_pos p) < length ?row"
      if "p \<in> set ?row" "fst p \<noteq> tag" for p
    proof -
      have "lru_pos p < length row0" using other[OF that] r by blast
      with lt I(3) show ?thesis unfolding seven by (simp add: SAMPLER_WAYS_def)
    qed
  qed (rule f)
  then obtain row' where row': "update_addr_history_lru (of_nat (SAMPLER_WAYS - 1)) ?row = Some row'"
    "map fst row' = map fst ?row" "sampler_ok (set_value tag f row')" by blast
  have "tag \<in> fst ` set row'" using arg_cong[OF row'(2), of set] I(2) by (metis image_insert insertI1 fst_conv list.set_map)
  then have "map_of row' tag \<noteq> None" by (simp add: map_of_eq_None_iff)
  with row' show "\<exists>row'. update_addr_history_lru (of_nat (SAMPLER_WAYS - 1)) ?row = Some row' \<and>
       map_of row' tag \<noteq> None \<and> sampler_ok (set_value tag f row')" by blast
qed

section \<open>Invariant\<close>

definition hk_learn_ok :: "hk_store \<Rightarrow> bool" where
  "hk_learn_ok st \<longleftrightarrow> shct_ok (demand_predictor st) \<and> shct_ok (prefetch_predictor st) \<and>
     length (perset_mytimer st) = HK_SETS \<and> (\<forall>r<HK_SETS. unat (perset_mytimer st ! r) < TIMER_SIZE) \<and>
     length (perset_optgen st) = HK_SETS \<and> (\<forall>r<HK_SETS. optgen_ok (perset_optgen st ! r)) \<and>
     length (addr_history st) = SAMPLER_SETS \<and> (\<forall>r<SAMPLER_SETS. sampler_ok (addr_history st ! r))"

definition hk_ways_ok :: "hk_store \<Rightarrow> bool" where
  "hk_ways_ok st \<longleftrightarrow> length (rrpv st) = HK_SETS \<and>
     (\<forall>r<HK_SETS. length (rrpv st ! r) = HK_WAYS \<and> (\<forall>x\<in>set (rrpv st ! r). x \<le> maxRRPV)) \<and>
     length (signatures st) = HK_SETS \<and> (\<forall>r<HK_SETS. length (signatures st ! r) = HK_WAYS) \<and>
     length (hk_prefetched st) = HK_SETS \<and> (\<forall>r<HK_SETS. length (hk_prefetched st ! r) = HK_WAYS)"

definition hk_policy_ok :: "hk_store \<Rightarrow> bool" where
  "hk_policy_ok st \<longleftrightarrow> sb_ok (sbuf st) \<and> hk_learn_ok st \<and> hk_ways_ok st"

lemma hk_sampler_set_bound: "hk_sampler_set paddr < SAMPLER_SETS"
proof -
  have "unat (x mod 2800 div 8 :: u64) < 350" for x
  proof -
    have "unat (x mod 2800) < 2800" by (simp add: unat_mod)
    then show ?thesis by (simp add: unat_div)
  qed
  then show ?thesis by (simp add: hk_sampler_set_def SAMPLER_SETS_def)
qed

lemma hk_index_bound: "hk_set_index ip < HK_SETS"
  using unat_and_pred[of "2048 :: u64" "drop_bit 2 ip"] by (simp add: hk_set_index_def HK_SETS_def)

text \<open>What the learning steps leave alone.\<close>

definition hk_same :: "hk_store \<Rightarrow> hk_store \<Rightarrow> bool" where
  "hk_same st st' \<longleftrightarrow> hk_btb st' = hk_btb st \<and> rrpv st' = rrpv st \<and> signatures st' = signatures st \<and>
     hk_prefetched st' = hk_prefetched st \<and> sbuf st' = sbuf st \<and> perset_mytimer st' = perset_mytimer st"

lemma hk_train_ok:
  assumes "hk_learn_ok st"
  shows "hk_learn_ok (hk_train up a st)" "hk_same st (hk_train up a st)"
    "perset_optgen (hk_train up a st) = perset_optgen st" "addr_history (hk_train up a st) = addr_history st"
  using assms by (auto simp: hk_train_def hk_learn_ok_def hk_same_def Let_def)

lemma hk_put_ok:
  assumes "hk_learn_ok st" "sx < HK_SETS" "optgen_ok og" "ss < SAMPLER_SETS" "sampler_ok (set_value tag f row)"
  shows "hk_learn_ok (hk_set_history ss (set_value tag f row) (hk_set_optgen sx og st))"
    "hk_same st (hk_set_history ss row (hk_set_optgen sx og st))"
  using assms by (auto simp: hk_learn_ok_def hk_same_def hk_set_history_def hk_set_optgen_def nth_list_update)

text \<open>
  After one of the three cases the sampler row \<open>ss\<close> is well formed once the line \<open>tag\<close> has been put
  to the front, which the caller does at once.
\<close>

definition hk_sampled :: "nat \<Rightarrow> u64 \<Rightarrow> hk_store \<Rightarrow> hk_store \<Rightarrow> bool" where
  "hk_sampled ss tag st st' \<longleftrightarrow> hk_same st st' \<and> ss < length (addr_history st') \<and>
     (\<forall>f. (\<forall>a. ai_lru (f a) = 0) \<longrightarrow> hk_learn_ok (hk_set_history ss (set_value tag f (addr_history st' ! ss)) st'))"

lemma hk_sampledI:
  assumes "hk_learn_ok st" "sx < HK_SETS" "optgen_ok og" "ss < SAMPLER_SETS"
    and "\<And>f. (\<And>a. ai_lru (f a) = 0) \<Longrightarrow> sampler_ok (set_value tag f row)"
  shows "hk_sampled ss tag st (hk_set_history ss row (hk_set_optgen sx og st))"
proof -
  have len: "length (addr_history st) = SAMPLER_SETS" using assms(1) by (simp add: hk_learn_ok_def)
  let ?st = "hk_set_history ss row (hk_set_optgen sx og st)"
  have h: "addr_history ?st ! ss = row" "ss < length (addr_history ?st)"
    using len assms(4) by (simp_all add: hk_set_history_def hk_set_optgen_def)
  have e: "hk_set_history ss row' ?st = hk_set_history ss row' (hk_set_optgen sx og st)" for row'
    by (simp add: hk_set_history_def)
  have "hk_learn_ok (hk_set_history ss (set_value tag f row) ?st)" if "\<forall>a. ai_lru (f a) = 0" for f
    unfolding e by (rule hk_put_ok(1)[OF assms(1-4) assms(5)]) (use that in simp)
  moreover have "hk_same st ?st" by (simp add: hk_same_def hk_set_history_def hk_set_optgen_def)
  ultimately show ?thesis unfolding hk_sampled_def h(1) using h(2) by blast
qed

lemma hk_learn_okD:
  assumes "hk_learn_ok st"
  shows "sx < HK_SETS \<Longrightarrow> optgen_ok (perset_optgen st ! sx)" "ss < SAMPLER_SETS \<Longrightarrow> sampler_ok (addr_history st ! ss)"
  using assms by (simp_all add: hk_learn_ok_def)

lemma hk_mod_bound: "n mod OPTGEN_VECTOR_SIZE < OPTGEN_VECTOR_SIZE"
  by (simp add: OPTGEN_VECTOR_SIZE_def)

lemma should_cache_ok:
  assumes "optgen_ok og"
  shows "\<exists>b og'. should_cache (n mod OPTGEN_VECTOR_SIZE) (m mod OPTGEN_VECTOR_SIZE) og = Some (b, og') \<and> optgen_ok og'"
  by (rule should_cache_result[OF assms hk_mod_bound[of n] hk_mod_bound[of m]]) (iprover intro: exI conjI)+

lemma hk_sample_demand_law:
  assumes ok: "hk_learn_ok st" and sx: "sx < HK_SETS" and ss: "ss < SAMPLER_SETS"
    and a: "map_of (addr_history st ! ss) tag = Some a"
  shows "\<exists>st'. hk_sample_demand sx ss tag a st = Some st' \<and> hk_sampled ss tag st st'"
proof -
  let ?n = "unat (perset_mytimer st ! sx)"
  obtain wrap where w: "hk_sample_demand sx ss tag a st =
      (case (if wrap then Some (False, perset_optgen st ! sx)
             else should_cache (?n mod OPTGEN_VECTOR_SIZE) (unat (ai_last_quanta a) mod OPTGEN_VECTOR_SIZE) (perset_optgen st ! sx)) of
         None \<Rightarrow> None
       | Some (cache, og) \<Rightarrow>
           (let st = hk_train cache a st
            in case (add_access (?n mod OPTGEN_VECTOR_SIZE) og, update_addr_history_lru (ai_lru a) (addr_history st ! ss)) of
                 (Some og, Some row) \<Rightarrow>
                   Some (hk_set_history ss (set_value tag (\<lambda>a. a\<lparr>ai_prefetched := False\<rparr>) row) (hk_set_optgen sx og st))
               | _ \<Rightarrow> None))"
    unfolding hk_sample_demand_def Let_def by blast
  obtain b og where og: "(if wrap then Some (False, perset_optgen st ! sx)
      else should_cache (?n mod OPTGEN_VECTOR_SIZE) (unat (ai_last_quanta a) mod OPTGEN_VECTOR_SIZE) (perset_optgen st ! sx))
      = Some (b, og)" "optgen_ok og"
    using should_cache_ok[OF hk_learn_okD(1)[OF ok sx], of ?n "unat (ai_last_quanta a)"] hk_learn_okD(1)[OF ok sx]
    by (cases wrap) auto
  obtain og' where og': "add_access (?n mod OPTGEN_VECTOR_SIZE) og = Some og'" "optgen_ok og'"
    using add_access_ok[OF og(2) hk_mod_bound] by blast
  note t = hk_train_ok[OF ok, of b a]
  note row_ok = hk_learn_okD(2)[OF ok ss]
  obtain row where row: "update_addr_history_lru (ai_lru a) (addr_history st ! ss) = Some row"
    using sampler_touch[OF row_ok a, of "\<lambda>a. a\<lparr>ai_lru := 0\<rparr>"] by auto
  have sam: "sampler_ok (set_value tag f (set_value tag (\<lambda>a. a\<lparr>ai_prefetched := False\<rparr>) row))"
    if "\<And>a. ai_lru (f a) = 0" for f
  proof -
    have "set_value tag f (set_value tag (\<lambda>a. a\<lparr>ai_prefetched := False\<rparr>) row) =
        set_value tag (\<lambda>a. f (a\<lparr>ai_prefetched := False\<rparr>)) row"
      by (auto simp: set_value_def)
    with sampler_touch[OF row_ok a, of "\<lambda>a. f (a\<lparr>ai_prefetched := False\<rparr>)"] row that show ?thesis by simp
  qed
  let ?st = "hk_set_history ss (set_value tag (\<lambda>a. a\<lparr>ai_prefetched := False\<rparr>) row) (hk_set_optgen sx og' (hk_train b a st))"
  have "hk_sampled ss tag (hk_train b a st) ?st" by (rule hk_sampledI[OF t(1) sx og'(2) ss sam])
  then have "hk_sampled ss tag st ?st" using t(2) by (simp add: hk_sampled_def hk_same_def)
  moreover have "hk_sample_demand sx ss tag a st = Some ?st"
    unfolding w og(1) by (simp add: Let_def og'(1) t(4) row)
  ultimately show ?thesis by blast
qed

lemma hk_sample_new_law:
  assumes ok: "hk_learn_ok st" and sx: "sx < HK_SETS" and ss: "ss < SAMPLER_SETS"
    and none: "map_of (addr_history st ! ss) tag = None"
  shows "\<exists>st'. hk_sample_new sx ss tag p st = Some st' \<and> hk_sampled ss tag st st'"
proof -
  let ?row0 = "if length (addr_history st ! ss) = SAMPLER_WAYS then replace_addr_history_element (addr_history st ! ss)
      else addr_history st ! ss"
  let ?a = "if p then mark_prefetch (ai_init zero_addr_info) else ai_init zero_addr_info"
  let ?cq = "unat (perset_mytimer st ! sx) mod OPTGEN_VECTOR_SIZE"
  have a0: "ai_lru ?a = 0" by (simp add: mark_prefetch_def ai_init_def zero_addr_info_def)
  note row_ok = hk_learn_okD(2)[OF ok ss]
  note add = sampler_add[OF row_ok none _ a0 refl]
  have room: "length ?row0 < SAMPLER_WAYS" by (rule add(1)[of "\<lambda>a. a\<lparr>ai_lru := 0\<rparr>"]) simp
  obtain row where row: "update_addr_history_lru (of_nat (SAMPLER_WAYS - 1)) (insort_key fst (tag, ?a) ?row0) = Some row"
    using add(2)[of "\<lambda>a. a\<lparr>ai_lru := 0\<rparr>"] by auto
  have sam: "sampler_ok (set_value tag f row)" if "\<And>a. ai_lru (f a) = 0" for f
    using add(2)[OF that] row by auto
  obtain og where og: "(if p then add_prefetch ?cq (perset_optgen st ! sx) else add_access ?cq (perset_optgen st ! sx)) = Some og"
    "optgen_ok og"
    using add_prefetch_ok[OF hk_learn_okD(1)[OF ok sx] hk_mod_bound] add_access_ok[OF hk_learn_okD(1)[OF ok sx] hk_mod_bound]
    by (cases p) auto
  have "hk_sample_new sx ss tag p st = Some (hk_set_history ss row (hk_set_optgen sx og st))"
    using room unfolding hk_sample_new_def Let_def og(1) row by simp
  with hk_sampledI[OF ok sx og(2) ss sam] show ?thesis by blast
qed

lemma hk_sample_prefetch_law:
  assumes ok: "hk_learn_ok st" and sx: "sx < HK_SETS" and ss: "ss < SAMPLER_SETS"
    and a: "map_of (addr_history st ! ss) tag = Some a"
  shows "\<exists>st'. hk_sample_prefetch sx ss tag a st = Some st' \<and> hk_sampled ss tag st st'"
proof -
  let ?n = "unat (perset_mytimer st ! sx)" and ?row0 = "set_value tag mark_prefetch (addr_history st ! ss)"
  obtain near where w: "hk_sample_prefetch sx ss tag a st =
      (case (if near then should_cache (?n mod OPTGEN_VECTOR_SIZE) (unat (ai_last_quanta a) mod OPTGEN_VECTOR_SIZE) (perset_optgen st ! sx)
             else Some (False, perset_optgen st ! sx)) of
         None \<Rightarrow> None
       | Some (cache, og) \<Rightarrow>
           (let st = (if cache then hk_train True a st else st)
            in case (add_prefetch (?n mod OPTGEN_VECTOR_SIZE) og,
                     update_addr_history_lru (ai_lru a) (set_value tag mark_prefetch (addr_history st ! ss))) of
                 (Some og, Some row) \<Rightarrow> Some (hk_set_history ss row (hk_set_optgen sx og st))
               | _ \<Rightarrow> None))"
    unfolding hk_sample_prefetch_def Let_def by blast
  obtain b og where og: "(if near then should_cache (?n mod OPTGEN_VECTOR_SIZE) (unat (ai_last_quanta a) mod OPTGEN_VECTOR_SIZE) (perset_optgen st ! sx)
      else Some (False, perset_optgen st ! sx)) = Some (b, og)" "optgen_ok og"
    using should_cache_ok[OF hk_learn_okD(1)[OF ok sx], of ?n "unat (ai_last_quanta a)"] hk_learn_okD(1)[OF ok sx]
    by (cases near) auto
  obtain og' where og': "add_prefetch (?n mod OPTGEN_VECTOR_SIZE) og = Some og'" "optgen_ok og'"
    using add_prefetch_ok[OF og(2) hk_mod_bound] by blast
  let ?st = "if b then hk_train True a st else st"
  have t: "hk_learn_ok ?st" "hk_same st ?st" "addr_history ?st = addr_history st"
    using hk_train_ok[OF ok, of True a] ok by (simp_all add: hk_same_def)
  have pos: "map lru_pos ?row0 = map lru_pos (addr_history st ! ss)"
    by (simp add: set_value_def mark_prefetch_def case_prod_beta)
  then have "lru_pos ` set ?row0 = lru_pos ` set (addr_history st ! ss)" by (metis list.set_map)
  then have row_ok: "sampler_ok ?row0"
    using hk_learn_okD(2)[OF ok ss] pos unfolding sampler_ok_def by (metis (no_types, lifting) image_iff length_set_value map_fst_set_value)
  have a': "map_of ?row0 tag = Some (mark_prefetch a)" "ai_lru (mark_prefetch a) = ai_lru a"
    using a by (simp_all add: mark_prefetch_def)
  obtain row where row: "update_addr_history_lru (ai_lru a) ?row0 = Some row"
    using sampler_touch[OF row_ok a'(1), of "\<lambda>a. a\<lparr>ai_lru := 0\<rparr>"] a'(2) by auto
  have sam: "sampler_ok (set_value tag f row)" if "\<And>a. ai_lru (f a) = 0" for f
    using sampler_touch[OF row_ok a'(1) that] row a'(2) by simp
  let ?st' = "hk_set_history ss row (hk_set_optgen sx og' ?st)"
  have "hk_sampled ss tag ?st ?st'" by (rule hk_sampledI[OF t(1) sx og'(2) ss sam])
  then have "hk_sampled ss tag st ?st'" using t(2) by (simp add: hk_sampled_def hk_same_def)
  moreover have "hk_sample_prefetch sx ss tag a st = Some ?st'"
    unfolding w og(1) using t(3) by (simp add: Let_def og'(1) row)
  ultimately show ?thesis by blast
qed

lemma hk_learn_timer:
  "hk_learn_ok st \<Longrightarrow> unat t < TIMER_SIZE \<Longrightarrow> hk_learn_ok (st\<lparr>perset_mytimer := (perset_mytimer st)[sx := t]\<rparr>)"
  by (simp add: hk_learn_ok_def nth_update_if)

lemma hk_sample_law:
  assumes ok: "hk_learn_ok st" and sx: "sx < HK_SETS"
  obtains st' where "hk_sample sx paddr PC type st = Some st'" "hk_learn_ok st'"
    "hk_btb st' = hk_btb st" "rrpv st' = rrpv st" "signatures st' = signatures st" "hk_prefetched st' = hk_prefetched st"
    "sbuf st' = sbuf st"
proof -
  let ?ss = "hk_sampler_set paddr" and ?tag = "hk_sampler_tag paddr"
  note ss = hk_sampler_set_bound[of paddr]
  obtain st1 where s: "(case map_of (addr_history st ! ?ss) ?tag of
                   Some a \<Rightarrow> if type \<noteq> PREFETCH then hk_sample_demand sx ?ss ?tag a st
                             else hk_sample_prefetch sx ?ss ?tag a st
                 | None \<Rightarrow> hk_sample_new sx ?ss ?tag (type = PREFETCH) st) = Some st1" "hk_sampled ?ss ?tag st st1"
  proof (cases "map_of (addr_history st ! ?ss) ?tag")
    case None
    with hk_sample_new_law[OF ok sx ss None, of "type = PREFETCH"] that show thesis by auto
  next
    case (Some a)
    with hk_sample_demand_law[OF ok sx ss Some] hk_sample_prefetch_law[OF ok sx ss Some] that show thesis
      by (cases "type = PREFETCH") auto
  qed
  let ?t = "perset_mytimer st1 ! sx"
  let ?f = "\<lambda>a. (ai_update (ucast ?t) PC a)\<lparr>ai_lru := 0\<rparr>"
  let ?mid = "hk_set_history ?ss (set_value ?tag ?f (addr_history st1 ! ?ss)) st1"
  let ?st' = "hk_set_history ?ss (set_value ?tag ?f (addr_history st1 ! ?ss))
      (st1\<lparr>perset_mytimer := (perset_mytimer st1)[sx := (?t + 1) mod of_nat TIMER_SIZE]\<rparr>)"
  have mid: "hk_learn_ok ?mid" using s(2) by (simp add: hk_sampled_def)
  have t: "unat ((?t + 1) mod of_nat TIMER_SIZE) < TIMER_SIZE"
    by (simp add: TIMER_SIZE_def unat_mod)
  have "?st' = ?mid\<lparr>perset_mytimer := (perset_mytimer ?mid)[sx := (?t + 1) mod of_nat TIMER_SIZE]\<rparr>"
    unfolding hk_set_history_def by (cases st1) simp
  then have "hk_learn_ok ?st'" using hk_learn_timer[OF mid t] by simp
  moreover have "hk_sample sx paddr PC type st = Some ?st'"
    unfolding hk_sample_def Let_def s(1) using ss by simp
  ultimately show thesis
    using s(2) by (intro that[of ?st']) (simp_all add: hk_sampled_def hk_same_def hk_set_history_def)
qed

text \<open>Setting the prediction values keeps a set's row in shape.\<close>

lemma hk_age_ok:
  assumes "length row = HK_WAYS" "\<forall>x\<in>set row. x \<le> maxRRPV"
  shows "length (hk_age way p hit row) = HK_WAYS" "\<forall>x\<in>set (hk_age way p hit row). x \<le> maxRRPV"
proof -
  show "length (hk_age way p hit row) = HK_WAYS" using assms(1) by (simp add: hk_age_def Let_def)
  have upd: "\<forall>x\<in>set (xs[way := v]). x \<le> maxRRPV" if "\<forall>x\<in>set xs. x \<le> maxRRPV" "v \<le> maxRRPV" for xs and v :: u32
    using that set_update_subset_insert[of xs way v] by auto
  have inc: "(if \<not> b \<and> r < maxRRPV - 1 then r + 1 else r) \<le> maxRRPV" if "r \<le> maxRRPV" for b and r :: u32
  proof (cases "r < maxRRPV - 1")
    case True
    have "r + 1 \<le> maxRRPV - 1" by (rule word_less_add_one(2)[OF True])
    also have "\<dots> \<le> maxRRPV" by (simp add: maxRRPV_def)
    finally show ?thesis using that by simp
  qed (use that in simp)
  have m: "\<forall>x\<in>set (map (\<lambda>r. if \<not> b \<and> r < maxRRPV - 1 then r + 1 else r) xs). x \<le> maxRRPV"
    if "\<forall>x\<in>set xs. x \<le> maxRRPV" for b xs
    unfolding set_map ball_simps using inc that by blast
  have z: "(0 :: u32) \<le> maxRRPV" by simp
  note r1 = upd[OF assms(2) z]
  show "\<forall>x\<in>set (hk_age way p hit row). x \<le> maxRRPV"
  proof (cases p)
    case False
    with upd[OF assms(2) order_refl] show ?thesis by (simp add: hk_age_def)
  next
    case True
    show ?thesis
    proof (cases hit)
      case True
      with \<open>p\<close> r1 show ?thesis by (simp add: hk_age_def Let_def)
    next
      case False
      with \<open>p\<close> upd[OF m[OF r1] z] show ?thesis unfolding hk_age_def Let_def by (simp only: if_True if_False not_False_eq_True simp_thms)
    qed
  qed
qed

lemma hk_ways_ok_step:
  assumes ok: "hk_ways_ok st" and sx: "sx < HK_SETS"
  shows "hk_ways_ok (st\<lparr>hk_prefetched := upd2 sx way f (hk_prefetched st)\<rparr>)"
    "hk_ways_ok (st\<lparr>signatures := upd2 sx way g (signatures st),
       rrpv := (rrpv st)[sx := hk_age way p hit (rrpv st ! sx)]\<rparr>)"
proof -
  show "hk_ways_ok (st\<lparr>hk_prefetched := upd2 sx way f (hk_prefetched st)\<rparr>)"
    using ok by (simp add: hk_ways_ok_def)
  have "length (rrpv st ! sx) = HK_WAYS" "\<forall>x\<in>set (rrpv st ! sx). x \<le> maxRRPV" using ok sx by (simp_all add: hk_ways_ok_def)
  note a = hk_age_ok[OF this, of way p hit]
  show "hk_ways_ok (st\<lparr>signatures := upd2 sx way g (signatures st),
       rrpv := (rrpv st)[sx := hk_age way p hit (rrpv st ! sx)]\<rparr>)"
    using ok a by (simp add: hk_ways_ok_def nth_update_if)
qed

lemma hk_policy_cong:
  "hk_policy_ok st \<Longrightarrow> sb_ok b \<Longrightarrow> hk_policy_ok (st\<lparr>sbuf := b\<rparr>)"
  "hk_policy_ok st \<Longrightarrow> hk_policy_ok (st\<lparr>hk_btb := x\<rparr>)"
  by (simp_all add: hk_policy_ok_def hk_learn_ok_def hk_ways_ok_def)

lemma UpdateReplacementState_law:
  assumes ok: "hk_policy_ok st" and sx: "sx < HK_SETS"
  obtains st' where "UpdateReplacementState sx way paddr PC type hit st = Some st'" "hk_policy_ok st'"
    "hk_btb st' = hk_btb st"
proof -
  define st1 where "st1 = (if type = PREFETCH
                then (if \<not> hit then st\<lparr>hk_prefetched := upd2 sx way (\<lambda>_. True) (hk_prefetched st)\<rparr> else st)
                else st\<lparr>hk_prefetched := upd2 sx way (\<lambda>_. False) (hk_prefetched st)\<rparr>)"
  have p1: "hk_learn_ok st1" "hk_ways_ok st1" "sb_ok (sbuf st1)" "hk_btb st1 = hk_btb st"
    using ok hk_ways_ok_step(1)[OF _ sx, of st way] unfolding st1_def hk_policy_ok_def
    by (auto simp: hk_learn_ok_def)
  show thesis
  proof (cases "type = WRITEBACK")
    case True
    then have "UpdateReplacementState sx way paddr PC type hit st = Some st1"
      by (simp add: UpdateReplacementState_def Let_def st1_def)
    with p1 show thesis by (intro that[of st1]) (simp_all add: hk_policy_ok_def)
  next
    case False
    obtain st2 where s: "(if SAMPLED_SET sx then hk_sample sx paddr PC type st1 else Some st1) = Some st2"
      "hk_learn_ok st2" "hk_btb st2 = hk_btb st" "hk_ways_ok st2" "sb_ok (sbuf st2)"
    proof (cases "SAMPLED_SET sx")
      case True
      obtain st2 where h: "hk_sample sx paddr PC type st1 = Some st2" "hk_learn_ok st2" "hk_btb st2 = hk_btb st1"
        "rrpv st2 = rrpv st1" "signatures st2 = signatures st1" "hk_prefetched st2 = hk_prefetched st1" "sbuf st2 = sbuf st1"
        by (rule hk_sample_law[OF p1(1) sx])
      with True p1 show thesis by (intro that[of st2]) (simp_all add: hk_ways_ok_def)
    next
      case False
      with p1 show thesis by (intro that[of st1]) simp_all
    qed
    let ?p = "if type = PREFETCH then hk_get_prediction PC (prefetch_predictor st2)
              else hk_get_prediction PC (demand_predictor st2)"
    let ?st' = "st2\<lparr>signatures := upd2 sx way (\<lambda>_. PC) (signatures st2),
        rrpv := (rrpv st2)[sx := hk_age way ?p hit (rrpv st2 ! sx)]\<rparr>"
    have "UpdateReplacementState sx way paddr PC type hit st = Some ?st'"
      using False unfolding UpdateReplacementState_def Let_def st1_def[symmetric] s(1) by simp
    moreover have "hk_policy_ok ?st'"
      using hk_ways_ok_step(2)[OF s(4) sx] s(2,5) by (simp add: hk_policy_ok_def hk_learn_ok_def)
    ultimately show thesis using s(3) by (intro that[of ?st']) simp_all
  qed
qed

lemma max_scan:
  assumes "(m, v) = foldl (\<lambda>(m, v) i. if f i \<ge> m then (f i, int i) else (m, v)) (0, - 1) [0..<Suc n]"
  shows "\<exists>w\<le>n. v = int w \<and> m = (f w :: u32) \<and> (\<forall>i\<le>n. f i \<le> f w) \<and> (\<forall>i\<le>n. w < i \<longrightarrow> f i < f w)"
  using assms
proof (induction n arbitrary: m v)
  case 0
  then show ?case by simp
next
  case (Suc n)
  obtain m0 v0 where "foldl (\<lambda>(m, v) i. if f i \<ge> m then (f i, int i) else (m, v)) (0, - 1) [0..<Suc n] = (m0, v0)"
    by (rule prod.exhaust)
  note 0 = this[symmetric]
  from Suc.IH[OF 0] obtain w where w: "w \<le> n" "v0 = int w" "m0 = f w" "\<forall>i\<le>n. f i \<le> f w"
    "\<forall>i\<le>n. w < i \<longrightarrow> f i < f w" by blast
  have mv: "(m, v) = (if f (Suc n) \<ge> m0 then (f (Suc n), int (Suc n)) else (m0, v0))"
    using Suc.prems 0[symmetric] by simp
  show ?case
  proof (cases "f w \<le> f (Suc n)")
    case True
    with mv w show ?thesis by (intro exI[of _ "Suc n"]) (auto simp: le_Suc_eq intro: order_trans)
  next
    case False
    with mv w show ?thesis by (intro exI[of _ w]) (auto simp: le_Suc_eq)
  qed
qed

text \<open>The victim: the first way with the value 7, or the last of the ways with the largest value.\<close>

definition hk_victim :: "u32 list \<Rightarrow> nat \<Rightarrow> bool" where
  "hk_victim row w \<longleftrightarrow> w < HK_WAYS \<and>
     (if \<exists>i<HK_WAYS. row ! i = maxRRPV then row ! w = maxRRPV \<and> (\<forall>i<w. row ! i \<noteq> maxRRPV)
      else (\<forall>i<HK_WAYS. row ! i \<le> row ! w) \<and> (\<forall>i<HK_WAYS. w < i \<longrightarrow> row ! i < row ! w))"

lemma GetVictimInSet_law:
  assumes ok: "hk_policy_ok st"
  obtains w st' where "GetVictimInSet sx st = Some (w, st')" "w < HK_WAYS" "hk_policy_ok st'" "hk_btb st' = hk_btb st"
    "hk_victim (rrpv st ! sx) w"
proof (cases "first_index (\<lambda>i. rrpv st ! sx ! i = maxRRPV) HK_WAYS")
  case (Some i)
  with first_index_SomeD[OF Some] ok show thesis
    by (intro that[of i st]) (auto simp: GetVictimInSet_def Let_def hk_victim_def)
next
  case None
  then have n: "\<forall>i<HK_WAYS. rrpv st ! sx ! i \<noteq> maxRRPV" by (simp add: first_index_None_iff)
  let ?fold = "foldl (\<lambda>(m, v) i. if rrpv st ! sx ! i \<ge> m then (rrpv st ! sx ! i, int i) else (m, v)) (0, - 1) [0..<HK_WAYS]"
  obtain m v where "?fold = (m, v)" by (rule prod.exhaust)
  note mv = this[symmetric]
  have "HK_WAYS = Suc 3" by (simp add: HK_WAYS_def)
  with max_scan[of m v "\<lambda>i. rrpv st ! sx ! i" 3] mv obtain w where
    w: "w < HK_WAYS" "v = int w" "\<forall>i<HK_WAYS. rrpv st ! sx ! i \<le> rrpv st ! sx ! w"
      "\<forall>i<HK_WAYS. w < i \<longrightarrow> rrpv st ! sx ! i < rrpv st ! sx ! w" by (auto simp: less_Suc_eq_le)
  let ?st' = "if SAMPLED_SET sx
       then (if hk_prefetched st ! sx ! w
             then st\<lparr>prefetch_predictor := hk_decrement (signatures st ! sx ! w) (prefetch_predictor st)\<rparr>
             else st\<lparr>demand_predictor := hk_decrement (signatures st ! sx ! w) (demand_predictor st)\<rparr>)
       else st"
  have g: "GetVictimInSet sx st = Some (w, ?st')"
    using None w(2) by (simp add: GetVictimInSet_def Let_def mv[symmetric])
  moreover have "hk_policy_ok ?st'" using ok by (auto simp: hk_policy_ok_def hk_learn_ok_def hk_ways_ok_def)
  ultimately show thesis using w n by (intro that[of w ?st']) (auto simp: hk_victim_def)
qed

section \<open>The direct-branch laws\<close>

definition hk_geometry :: "hk_entry geometry" where
  "hk_geometry = \<lparr>g_index = hk_set_index, g_sets = HK_SETS, g_ways = HK_WAYS, g_tag = ip_tag, g_tgt = target\<rparr>"

lemma hk_geometry_simps [simp]:
  "g_index hk_geometry = hk_set_index" "g_sets hk_geometry = HK_SETS" "g_ways hk_geometry = HK_WAYS"
  "g_tag hk_geometry = ip_tag" "g_tgt hk_geometry = target"
  by (simp_all add: hk_geometry_def)

lemma hk_find_arr: "arr_ok hk_geometry (hk_btb st) \<Longrightarrow> hk_find_entry st ip = arr_find hk_geometry (hk_btb st) ip"
  using arr_okD(2)[of hk_geometry "hk_btb st" ip] by (simp add: hk_find_entry_def arr_find_def row_find_def)

lemma hk_policy_sbuf: "hk_policy_ok st \<Longrightarrow> sb_ok (sbuf st)" by (simp add: hk_policy_ok_def)

lemma hk_refresh_law:
  assumes ok: "arr_ok hk_geometry (hk_btb st)" and p: "hk_policy_ok st" and ip: "ip \<noteq> 0"
    and some: "hk_find_entry st ip = Some w"
  shows "hk_policy_ok (hk_refresh_entry (hk_set_index ip) w tk t st)"
    "arr_effect hk_geometry ip (if tk then Some t else None) (hk_btb st) (hk_btb (hk_refresh_entry (hk_set_index ip) w tk t st))"
proof -
  let ?f = "\<lambda>e. if \<not> tk then e\<lparr>always_taken := 0\<rparr> else e\<lparr>target := t\<rparr>"
  have f: "arr_find hk_geometry (hk_btb st) ip = Some w" using some hk_find_arr[OF ok] by simp
  show "hk_policy_ok (hk_refresh_entry (hk_set_index ip) w tk t st)"
    unfolding hk_refresh_entry_def by (rule hk_policy_cong(2)[OF p])
  from arr_write(1)[OF ok ip f, of ?f "if tk then Some t else None"] arr_findD(2)[OF ok f] show
    "arr_effect hk_geometry ip (if tk then Some t else None) (hk_btb st) (hk_btb (hk_refresh_entry (hk_set_index ip) w tk t st))"
    by (simp add: hk_refresh_entry_def)
qed

text \<open>Filling the victim's way: with the tag (an update) or with the tag only if the way was in use (a prefetch).\<close>

lemma hk_fill_law:
  assumes ok: "arr_ok hk_geometry (hk_btb st)" and ip: "ip \<noteq> 0" and none: "hk_find_entry st ip = None"
    and w: "w < HK_WAYS" and tag: "set_tag \<or> ip_tag (hk_btb st ! hk_set_index ip ! w) \<noteq> 0"
  shows "arr_effect hk_geometry ip (Some t) (hk_btb st) (upd2 (hk_set_index ip) w
     (\<lambda>e. (if set_tag \<or> ip_tag e \<noteq> 0 then e\<lparr>ip_tag := ip\<rparr> else e)\<lparr>target := t, always_taken := 1\<rparr>) (hk_btb st))"
    and "arr_lookup hk_geometry (upd2 (hk_set_index ip) w
     (\<lambda>e. (if set_tag \<or> ip_tag e \<noteq> 0 then e\<lparr>ip_tag := ip\<rparr> else e)\<lparr>target := t, always_taken := 1\<rparr>) (hk_btb st)) ip = Some t"
  using arr_insert[OF ok ip, of w "\<lambda>e. (if set_tag \<or> ip_tag e \<noteq> 0 then e\<lparr>ip_tag := ip\<rparr> else e)\<lparr>target := t, always_taken := 1\<rparr>" t]
    none hk_find_arr[OF ok, of ip] w tag
  by simp_all

lemma hk_lost_law:
  assumes ok: "arr_ok hk_geometry (hk_btb st)" and ip: "ip \<noteq> 0" and none: "hk_find_entry st ip = None"
    and w: "w < HK_WAYS" and tag: "ip_tag (hk_btb st ! hk_set_index ip ! w) = 0"
  shows "arr_effect hk_geometry ip (Some t) (hk_btb st) (upd2 (hk_set_index ip) w
     (\<lambda>e. (if ip_tag e \<noteq> 0 then e\<lparr>ip_tag := ip\<rparr> else e)\<lparr>target := t, always_taken := 1\<rparr>) (hk_btb st))"
    and "arr_find hk_geometry (upd2 (hk_set_index ip) w
     (\<lambda>e. (if ip_tag e \<noteq> 0 then e\<lparr>ip_tag := ip\<rparr> else e)\<lparr>target := t, always_taken := 1\<rparr>) (hk_btb st)) ip = None"
proof -
  let ?f = "\<lambda>e. (if ip_tag e \<noteq> 0 then e\<lparr>ip_tag := ip\<rparr> else e)\<lparr>target := t, always_taken := 1\<rparr>"
  have i: "hk_set_index ip < length (hk_btb st)" using arr_okD(1)[OF ok, of ip] by simp
  note m = arr_modify[of hk_geometry "hk_btb st" "hk_set_index ip" w ?f, simplified, OF ok i w]
  have none': "arr_find hk_geometry (hk_btb st) ip = None" using none hk_find_arr[OF ok] by simp
  have ok': "arr_ok hk_geometry (upd2 (hk_set_index ip) w ?f (hk_btb st))" using m(1) tag by simp
  have l: "arr_lookup hk_geometry (upd2 (hk_set_index ip) w ?f (hk_btb st)) k = arr_lookup hk_geometry (hk_btb st) k"
    if "k \<noteq> 0" for k
    using m(3)[of k] tag that by simp
  show "arr_find hk_geometry (upd2 (hk_set_index ip) w ?f (hk_btb st)) ip = None"
    using l[OF ip] none' by (simp only: arr_lookup_None[symmetric])
  show "arr_effect hk_geometry ip (Some t) (hk_btb st) (upd2 (hk_set_index ip) w ?f (hk_btb st))"
    using ok' l none' ip arr_lookup_None[of hk_geometry "hk_btb st" ip] by (simp add: arr_effect_def)
qed

lemma hk_predict_law:
  assumes ok: "arr_ok hk_geometry (hk_btb st)" and p: "hk_policy_ok st"
  shows "\<exists>r st'. hk_direct_predict ip st = Some (r, st') \<and> hk_policy_ok st' \<and> hk_btb st' = hk_btb st \<and>
    (\<forall>t. arr_lookup hk_geometry (hk_btb st) ip = Some t \<longrightarrow> fst r = t)"
proof (cases "hk_find_entry st ip")
  case None
  with p arr_lookup_None[of hk_geometry "hk_btb st" ip] hk_find_arr[OF ok, of ip] show ?thesis
    by (simp add: hk_direct_predict_def Let_def)
next
  case (Some w)
  obtain st' where u: "UpdateReplacementState (hk_set_index ip) w ip ip LOAD True st = Some st'" "hk_policy_ok st'"
    "hk_btb st' = hk_btb st"
    by (rule UpdateReplacementState_law[OF p hk_index_bound])
  with Some arr_findD(3)[OF ok, of ip w] hk_find_arr[OF ok, of ip] show ?thesis
    by (simp add: hk_direct_predict_def Let_def)
qed

lemma hk_update_law:
  assumes ok: "arr_ok hk_geometry (hk_btb st)" and p: "hk_policy_ok st" and ip: "ip \<noteq> 0"
  shows "\<exists>st'. hk_direct_update ip t tk bt st = Some st' \<and> hk_policy_ok st' \<and>
    arr_effect hk_geometry ip (if tk \<noteq> 0 then Some t else None) (hk_btb st) (hk_btb st') \<and>
    (t \<noteq> 0 \<and> tk \<noteq> 0 \<longrightarrow> arr_lookup hk_geometry (hk_btb st') ip = Some t)"
proof (cases "hk_find_entry st ip")
  case (Some w)
  note r = hk_refresh_law[OF ok p ip Some, of "tk \<noteq> 0" t]
  have f: "arr_find hk_geometry (hk_btb st) ip = Some w" using Some hk_find_arr[OF ok] by simp
  have "arr_lookup hk_geometry (hk_btb (hk_refresh_entry (hk_set_index ip) w (tk \<noteq> 0) t st)) ip = Some t" if "tk \<noteq> 0"
    using arr_write(2)[OF ok ip f, of "\<lambda>e. e\<lparr>target := t\<rparr>" "Some t"] arr_findD(2)[OF ok f] that
    by (simp add: hk_refresh_entry_def)
  with r Some show ?thesis by (simp add: hk_direct_update_def Let_def)
next
  case None
  let ?st = "st\<lparr>sbuf := snd (stream_buffer_update ip (sbuf st))\<rparr>"
  have p1: "hk_policy_ok ?st" by (rule hk_policy_cong(1)[OF p]) (use hk_policy_sbuf[OF p] in auto)
  have none1: "hk_find_entry ?st ip = None" using None by (simp add: hk_find_entry_def)
  have keep: "arr_effect hk_geometry ip x (hk_btb st) (hk_btb st)" for x
    using None ok hk_find_arr[OF ok] by (auto intro: arr_effect_refl)
  show ?thesis
  proof (cases "t \<noteq> 0 \<and> tk \<noteq> 0")
    case False
    with None p1 keep show ?thesis by (auto simp: hk_direct_update_def Let_def)
  next
    case True
    obtain w st1 where v: "GetVictimInSet (hk_set_index ip) ?st = Some (w, st1)" "w < HK_WAYS" "hk_policy_ok st1"
      "hk_btb st1 = hk_btb ?st"
      by (rule GetVictimInSet_law[OF p1, of "hk_set_index ip"])
    let ?st2 = "st1\<lparr>hk_btb := upd2 (hk_set_index ip) w (\<lambda>e. e\<lparr>ip_tag := ip, target := t, always_taken := 1\<rparr>) (hk_btb st1)\<rparr>"
    obtain st' where u: "UpdateReplacementState (hk_set_index ip) w ip ip LOAD False ?st2 = Some st'" "hk_policy_ok st'"
      "hk_btb st' = hk_btb ?st2"
      by (rule UpdateReplacementState_law[OF hk_policy_cong(2)[OF v(3)] hk_index_bound])
    from hk_fill_law[OF ok ip None v(2), of True t] True u v None show ?thesis
      by (simp add: hk_direct_update_def Let_def)
  qed
qed

lemma hk_prefetch_law:
  assumes ok: "arr_ok hk_geometry (hk_btb st)" and p: "hk_policy_ok st" and ip: "ip \<noteq> 0"
  shows "\<exists>st'. hk_direct_prefetch ip t bt tk sb st = Some st' \<and> hk_policy_ok st' \<and>
    arr_effect hk_geometry ip (if tk then Some t else None) (hk_btb st) (hk_btb st')"
proof (cases "hk_find_entry st ip")
  case (Some w)
  obtain st' where u: "UpdateReplacementState (hk_set_index ip) w ip ip PREFETCH True st = Some st'" "hk_policy_ok st'"
    "hk_btb st' = hk_btb st"
    by (rule UpdateReplacementState_law[OF p hk_index_bound])
  have s: "hk_find_entry st' ip = Some w" using Some u(3) by (simp add: hk_find_entry_def)
  have ok': "arr_ok hk_geometry (hk_btb st')" using ok u(3) by simp
  from hk_refresh_law[OF ok' u(2) ip s, of tk t] u Some show ?thesis by (simp add: hk_direct_prefetch_def Let_def)
next
  case None
  have keep: "arr_effect hk_geometry ip x (hk_btb st) (hk_btb st)" for x
    using None ok hk_find_arr[OF ok] by (auto intro: arr_effect_refl)
  consider (stay) "\<not> (t \<noteq> 0 \<and> tk)" | (buffer) "t \<noteq> 0" tk sb | (fill) "t \<noteq> 0" tk "\<not> sb" by blast
  then show ?thesis
  proof cases
    case stay
    then have "hk_direct_prefetch ip t bt tk sb st = Some st" using None by (auto simp: hk_direct_prefetch_def Let_def)
    with keep p show ?thesis by simp
  next
    case buffer
    obtain b where "sb_prefetch ip t (sbuf st) = Some b" "sb_ok b"
      using sb_prefetch_total[OF hk_policy_sbuf[OF p] buffer(1)] by auto
    with buffer None keep hk_policy_cong(1)[OF p] show ?thesis by (simp add: hk_direct_prefetch_def Let_def)
  next
    case fill
    obtain w st1 where v: "GetVictimInSet (hk_set_index ip) st = Some (w, st1)" "w < HK_WAYS" "hk_policy_ok st1"
      "hk_btb st1 = hk_btb st"
      by (rule GetVictimInSet_law[OF p, of "hk_set_index ip"])
    let ?f = "\<lambda>e. (if ip_tag e \<noteq> 0 then e\<lparr>ip_tag := ip\<rparr> else e)\<lparr>target := t, always_taken := 1\<rparr>"
    let ?st2 = "st1\<lparr>hk_btb := upd2 (hk_set_index ip) w ?f (hk_btb st1)\<rparr>"
    obtain st' where u: "UpdateReplacementState (hk_set_index ip) w ip ip PREFETCH False ?st2 = Some st'" "hk_policy_ok st'"
      "hk_btb st' = hk_btb ?st2"
      by (rule UpdateReplacementState_law[OF hk_policy_cong(2)[OF v(3)] hk_index_bound])
    have "hk_direct_prefetch ip t bt tk sb st = Some st'"
      using None fill v(1) u(1) by (simp add: hk_direct_prefetch_def Let_def)
    moreover have "arr_effect hk_geometry ip (Some t) (hk_btb st) (upd2 (hk_set_index ip) w ?f (hk_btb st))"
    proof (cases "ip_tag (hk_btb st ! hk_set_index ip ! w) = 0")
      case True
      then show ?thesis by (rule hk_lost_law(1)[OF ok ip None v(2)])
    next
      case False
      with hk_fill_law(1)[OF ok ip None v(2), of False t] show ?thesis by simp
    qed
    ultimately show ?thesis using u(2,3) v(4) fill(2) by simp
  qed
qed

interpretation hawkeye: allocating_array_btb hk_geometry hk_btb hk_policy_ok
  hk_direct_predict hk_direct_update hk_direct_prefetch
proof (unfold_locales, goal_cases)
  case (1 a ip) then show ?case using hk_predict_law[of a ip] by (fastforce intro: arr_same_refl)
next
  case (2 a ip t tk bt) then show ?case using hk_update_law[of a ip t tk bt] by blast
next
  case (3 a ip t bt p sb) then show ?case using hk_prefetch_law[of a ip t bt p sb] by blast
next
  case (4 a ip t tk bt a') then show ?case using hk_update_law[of a ip t tk bt] by auto
qed

definition hk_ok :: "hk_store \<Rightarrow> bool" where
  "hk_ok st \<longleftrightarrow> arr_ok hk_geometry (hk_btb st) \<and> hk_policy_ok st"

definition hk_lookup :: "hk_store \<Rightarrow> u64 \<Rightarrow> u64 option" where
  "hk_lookup st = arr_lookup hk_geometry (hk_btb st)"

lemma optgen_init_ok: "optgen_ok (optgen_init n)"
  by (simp add: optgen_ok_def optgen_init_def)

lemma hk_init_ok:
  shows "hk_ok (store hk_initialize_btb)" "fe_ok (front hk_initialize_btb)"
    "k \<noteq> 0 \<Longrightarrow> hk_lookup (store hk_initialize_btb) k = None"
proof -
  note r = arr_ok_replicate[of hk_geometry empty_hk_entry]
  have n: "0 < HK_WAYS" by (simp add: HK_WAYS_def)
  show "hk_ok (store hk_initialize_btb)" "k \<noteq> 0 \<Longrightarrow> hk_lookup (store hk_initialize_btb) k = None"
    using r hk_index_bound n
    by (auto simp: hk_ok_def hk_lookup_def hk_policy_ok_def hk_learn_ok_def hk_ways_ok_def hk_initialize_btb_def
        empty_hk_entry_def optgen_init_ok sampler_ok_def TIMER_SIZE_def shct_ok_def)
qed (simp add: hk_initialize_btb_def)

section \<open>Properties\<close>

definition hk_run :: "btb_event list \<Rightarrow> hk_store btb_cpu \<Rightarrow> hk_store btb_cpu option" where
  "hk_run = btb_run hk_btb_prediction hk_update_btb hk_prefetch_btb"

lemmas hk_handlers = hk_run_def hk_btb_prediction_def hk_update_btb_def hk_prefetch_btb_def

text \<open>C32: no assertion of the Hawkeye BTB fails on any sequence of handler calls: every set of the sampler stays an LRU
  stack of at most 8 lines, every occupancy vector and counter stays in range, and a branch the BTB
  holds is predicted with the target of its last taken reference.\<close>

theorem hk_btb_run_correct:
  assumes "\<forall>e\<in>set es. event_ip e \<noteq> 0"
  shows "\<exists>s. hk_run es hk_initialize_btb = Some s \<and> hk_ok (store s) \<and> fe_ok (front s) \<and>
    (\<forall>r<SAMPLER_SETS. sampler_ok (addr_history (store s) ! r)) \<and>
    (\<forall>ip bt t. ip \<noteq> 0 \<longrightarrow> is_direct bt \<longrightarrow> hk_lookup (store s) ip = Some t \<longrightarrow>
      ideal_run es Map.empty ip = Some t \<and> (\<exists>taken s'. hk_btb_prediction ip bt s = Some ((t, taken), s')))"
  using hawkeye.run_correct[where bound = "Suc (length es)" and es = es and s = hk_initialize_btb] hk_init_ok assms
  by (auto simp: hk_handlers hk_ok_def hk_lookup_def hk_policy_ok_def hk_learn_ok_def)

lemma hk_btb_run_correct_witness:
  "\<exists>s. hk_run [Update 0x400100 0x400200 1 BRANCH_CONDITIONAL, Predict 0x400100 BRANCH_CONDITIONAL] hk_initialize_btb = Some s \<and>
     hk_ok (store s)"
  using hk_btb_run_correct[of "[Update 0x400100 0x400200 1 BRANCH_CONDITIONAL, Predict 0x400100 BRANCH_CONDITIONAL]"]
  by auto

text \<open>a taken miss replaces the first cache-averse way of the set, or the last of the ways with the largest value if
  none is averse, and marks the new entry friendly (0) or averse (7) as the predictor says.\<close>

theorem hk_replacement:
  assumes "hk_ok st" "ip \<noteq> 0" "t \<noteq> 0" "taken \<noteq> 0" "hk_find_entry st ip = None"
  shows "\<exists>st' w. hk_direct_update ip t taken bt st = Some st' \<and> hk_find_entry st' ip = Some w \<and>
    hk_victim (rrpv st ! hk_set_index ip) w \<and> target (hk_btb st' ! hk_set_index ip ! w) = t"
proof -
  let ?s = "hk_set_index ip"
  let ?st = "st\<lparr>sbuf := snd (stream_buffer_update ip (sbuf st))\<rparr>"
  have ok: "arr_ok hk_geometry (hk_btb st)" and p: "hk_policy_ok st" using assms(1) by (simp_all add: hk_ok_def)
  have p1: "hk_policy_ok ?st" by (rule hk_policy_cong(1)[OF p]) (use hk_policy_sbuf[OF p] in auto)
  obtain w st1 where v: "GetVictimInSet ?s ?st = Some (w, st1)" "w < HK_WAYS" "hk_policy_ok st1"
    "hk_btb st1 = hk_btb ?st" "hk_victim (rrpv ?st ! ?s) w"
    by (rule GetVictimInSet_law[OF p1, of ?s])
  let ?f = "\<lambda>e. e\<lparr>ip_tag := ip, target := t, always_taken := 1\<rparr>"
  let ?st2 = "st1\<lparr>hk_btb := upd2 ?s w ?f (hk_btb st1)\<rparr>"
  obtain st' where u: "UpdateReplacementState ?s w ip ip LOAD False ?st2 = Some st'" "hk_policy_ok st'"
    "hk_btb st' = hk_btb ?st2"
    by (rule UpdateReplacementState_law[OF hk_policy_cong(2)[OF v(3)] hk_index_bound])
  have b: "hk_btb st' = upd2 ?s w ?f (hk_btb st)" using u(3) v(4) by simp
  have "arr_effect hk_geometry ip (Some t) (hk_btb st) (hk_btb st')"
    using hk_fill_law(1)[OF ok assms(2,5) v(2), of True t] b by simp
  then have ok': "arr_ok hk_geometry (hk_btb st')" by (simp add: arr_effect_def)
  have len: "?s < length (hk_btb st)" "w < length (hk_btb st ! ?s)"
    using arr_okD(1,2)[OF ok, of ip] v(2) by simp_all
  have e: "ip_tag (hk_btb st' ! ?s ! w) = ip" "target (hk_btb st' ! ?s ! w) = t" using len by (simp_all add: b row_upd2)
  then have "hk_find_entry st' ip = Some w"
    using arr_find_at[OF ok', of w ip] v(2) assms(2) hk_find_arr[OF ok'] by simp
  moreover have "hk_direct_update ip t taken bt st = Some st'"
    using assms(3-5) v(1) u(1) by (simp add: hk_direct_update_def Let_def)
  ultimately show ?thesis using v(5) e(2) by auto
qed

lemma hk_empty_find: "ip \<noteq> 0 \<Longrightarrow> hk_find_entry (store hk_initialize_btb) ip = None"
  using hk_init_ok(3)[of ip] hk_find_arr[of "store hk_initialize_btb" ip] hk_init_ok(1)
    arr_lookup_None[of hk_geometry "hk_btb (store hk_initialize_btb)" ip]
  by (simp add: hk_lookup_def hk_ok_def)

lemma hk_replacement_witness:
  "\<exists>st' w. hk_direct_update 0x400100 0x400200 1 BRANCH_DIRECT_JUMP (store hk_initialize_btb) = Some st' \<and>
     hk_find_entry st' 0x400100 = Some w \<and> target (hk_btb st' ! hk_set_index 0x400100 ! w) = 0x400200"
  using hk_replacement[OF hk_init_ok(1), of "0x400100" "0x400200" 1 BRANCH_DIRECT_JUMP] hk_empty_find[of "0x400100"]
  by auto

text \<open>A prefetch that misses is installed exactly when the way it replaces was in use: a prefetch into an
  empty way writes the target and no tag, so the branch is not found afterwards.\<close>

theorem hk_prefetch_lost_in_empty_way:
  assumes "hk_ok st" "ip \<noteq> 0" "t \<noteq> 0" "hk_find_entry st ip = None"
  shows "\<exists>st' w. hk_direct_prefetch ip t bt True False st = Some st' \<and> hk_victim (rrpv st ! hk_set_index ip) w \<and>
    (hk_lookup st' ip = (if ip_tag (hk_btb st ! hk_set_index ip ! w) = 0 then None else Some t))"
proof -
  let ?s = "hk_set_index ip"
  have ok: "arr_ok hk_geometry (hk_btb st)" and p: "hk_policy_ok st" using assms(1) by (simp_all add: hk_ok_def)
  obtain w st1 where v: "GetVictimInSet ?s st = Some (w, st1)" "w < HK_WAYS" "hk_policy_ok st1"
    "hk_btb st1 = hk_btb st" "hk_victim (rrpv st ! ?s) w"
    by (rule GetVictimInSet_law[OF p, of ?s])
  let ?f = "\<lambda>e. (if ip_tag e \<noteq> 0 then e\<lparr>ip_tag := ip\<rparr> else e)\<lparr>target := t, always_taken := 1\<rparr>"
  let ?st2 = "st1\<lparr>hk_btb := upd2 ?s w ?f (hk_btb st1)\<rparr>"
  obtain st' where u: "UpdateReplacementState ?s w ip ip PREFETCH False ?st2 = Some st'" "hk_policy_ok st'"
    "hk_btb st' = hk_btb ?st2"
    by (rule UpdateReplacementState_law[OF hk_policy_cong(2)[OF v(3)] hk_index_bound])
  have b: "hk_btb st' = upd2 ?s w ?f (hk_btb st)" using u(3) v(4) by simp
  have d: "hk_direct_prefetch ip t bt True False st = Some st'"
    using assms(3,4) v(1) u(1) by (simp add: hk_direct_prefetch_def Let_def)
  have "hk_lookup st' ip = (if ip_tag (hk_btb st ! ?s ! w) = 0 then None else Some t)"
  proof (cases "ip_tag (hk_btb st ! ?s ! w) = 0")
    case True
    from hk_lost_law(2)[OF ok assms(2,4) v(2) True, of t] True show ?thesis
      unfolding hk_lookup_def b arr_lookup_None[symmetric] by simp
  next
    case False
    with hk_fill_law(2)[OF ok assms(2,4) v(2), of False t] show ?thesis by (simp add: hk_lookup_def b)
  qed
  with d v(5) show ?thesis by blast
qed

lemma hk_prefetch_lost_in_empty_way_witness:
  "\<exists>st' w. hk_direct_prefetch 0x400100 0x400200 BRANCH_DIRECT_JUMP True False (store hk_initialize_btb) = Some st' \<and>
     hk_lookup st' 0x400100 = None"
proof -
  have e: "ip_tag (hk_btb (store hk_initialize_btb) ! hk_set_index 0x400100 ! w) = 0" if "w < HK_WAYS" for w
    using hk_index_bound[of "0x400100"] that by (simp add: hk_initialize_btb_def empty_hk_entry_def)
  obtain st' w where "hk_direct_prefetch 0x400100 0x400200 BRANCH_DIRECT_JUMP True False (store hk_initialize_btb) = Some st'"
    "hk_victim (rrpv (store hk_initialize_btb) ! hk_set_index 0x400100) w"
    "hk_lookup st' 0x400100 = (if ip_tag (hk_btb (store hk_initialize_btb) ! hk_set_index 0x400100 ! w) = 0 then None else Some 0x400200)"
    using hk_prefetch_lost_in_empty_way[OF hk_init_ok(1), of "0x400100" "0x400200" BRANCH_DIRECT_JUMP] hk_empty_find[of "0x400100"]
    by auto
  with e[of w] show ?thesis by (auto simp: hk_victim_def)
qed

end
