(* ===== verification/VictimBtb.thy ===== *)
theory VictimBtb
  imports ArrayBtb
begin

text \<open>
  The LRU BTB with a victim buffer of \<^verbatim>\<open>btb/victim_buffer_btb/victim_buffer_btb.cc\<close>: entries that are replaced
  go to a queue of 128 entries that is searched when the BTB misses. The number of sets is
  \<^verbatim>\<open>2048 * 4 / total_btb_ways\<close>, and the set index is a mask.
\<close>

section \<open>State\<close>

definition VB_SETS :: "btb_config \<Rightarrow> nat" where "VB_SETS c = 2048 * 4 div unat (total_btb_ways c)"

definition victim_buffer_size :: nat where "victim_buffer_size = 128"

record vb_entry =
  ip_tag :: u64
  target :: u64
  always_taken :: u8
  lru :: u64

definition empty_vb_entry :: vb_entry where
  "empty_vb_entry = \<lparr>ip_tag = 0, target = 0, always_taken = 0, lru = 0\<rparr>"

definition new_vb_entry :: "u64 \<Rightarrow> u64 \<Rightarrow> vb_entry" where
  "new_vb_entry ip t = empty_vb_entry\<lparr>ip_tag := ip, target := t, always_taken := 1\<rparr>"

record vb_store =
  vb_btb :: "vb_entry list list"
  vb_lru_counter :: u64
  victim_buffer :: "vb_entry list"
  sbuf :: stream_buffer

definition vb_initialize_btb :: "btb_config \<Rightarrow> vb_store btb_cpu" where
  "vb_initialize_btb c =
     \<lparr>front = init_frontend,
      store = \<lparr>vb_btb = replicate (VB_SETS c) (replicate (BASIC_BTB_WAYS c) empty_vb_entry), vb_lru_counter = 0,
        victim_buffer = [], sbuf = new_stream_buffer 32\<rparr>\<rparr>"

section \<open>Operations\<close>

definition vb_set_index :: "btb_config \<Rightarrow> u64 \<Rightarrow> nat" where
  "vb_set_index c ip = unat (drop_bit 2 ip AND of_nat (VB_SETS c - 1))"

definition vb_find_entry :: "btb_config \<Rightarrow> vb_store \<Rightarrow> u64 \<Rightarrow> nat option" where
  "vb_find_entry c st ip = first_index (\<lambda>i. ip_tag (vb_btb st ! vb_set_index c ip ! i) = ip) (BASIC_BTB_WAYS c)"

definition vb_get_lru_entry :: "btb_config \<Rightarrow> vb_store \<Rightarrow> nat \<Rightarrow> nat" where
  "vb_get_lru_entry c st sx = scan_min (\<lambda>i. lru (vb_btb st ! sx ! i)) (BASIC_BTB_WAYS c)"

definition vb_update_lru :: "nat \<Rightarrow> nat \<Rightarrow> vb_store \<Rightarrow> vb_store" where
  "vb_update_lru sx way st =
     st\<lparr>vb_btb := upd2 sx way (\<lambda>e. e\<lparr>lru := vb_lru_counter st\<rparr>) (vb_btb st), vb_lru_counter := vb_lru_counter st + 1\<rparr>"

definition victim_find_entry :: "u64 \<Rightarrow> vb_entry list \<Rightarrow> nat option" where
  "victim_find_entry ip vs = first_index (\<lambda>i. ip_tag (vs ! i) = ip) (length vs)"

definition add_to_victim_buffer :: "vb_entry \<Rightarrow> vb_entry list \<Rightarrow> vb_entry list option" where
  "add_to_victim_buffer e vs =
     (let vs = (if length vs \<ge> victim_buffer_size then tl vs else vs)
      in if \<not> length vs < victim_buffer_size then None else Some (vs @ [new_vb_entry (ip_tag e) (target e)]))"

text \<open>An entry of the BTB, or of the victim buffer: what the pointer \<^verbatim>\<open>btb_entry\<close> may point to.\<close>

datatype vb_ptr = InBtb nat | InVictim nat

definition vb_find :: "btb_config \<Rightarrow> vb_store \<Rightarrow> u64 \<Rightarrow> vb_ptr option" where
  "vb_find c st ip =
     (case vb_find_entry c st ip of
        Some w \<Rightarrow> Some (InBtb w)
      | None \<Rightarrow> map_option InVictim (victim_find_entry ip (victim_buffer st)))"

definition vb_refresh_entry :: "nat \<Rightarrow> vb_ptr \<Rightarrow> bool \<Rightarrow> u64 \<Rightarrow> vb_store \<Rightarrow> vb_store" where
  "vb_refresh_entry sx p taken branch_target st =
     (let f = (\<lambda>e. if \<not> taken then e\<lparr>always_taken := 0\<rparr> else e\<lparr>target := branch_target\<rparr>)
      in case p of
           InBtb w \<Rightarrow> st\<lparr>vb_btb := upd2 sx w f (vb_btb st)\<rparr>
         | InVictim i \<Rightarrow> st\<lparr>victim_buffer := (victim_buffer st)[i := f (victim_buffer st ! i)]\<rparr>)"

definition vb_allocate :: "btb_config \<Rightarrow> u64 \<Rightarrow> u64 \<Rightarrow> vb_store \<Rightarrow> vb_store option" where
  "vb_allocate c ip branch_target st =
     (let sx = vb_set_index c ip; way = vb_get_lru_entry c st sx
      in case add_to_victim_buffer (vb_btb st ! sx ! way) (victim_buffer st) of
           None \<Rightarrow> None
         | Some vs \<Rightarrow>
             Some (vb_update_lru sx way (st\<lparr>victim_buffer := vs, vb_btb := upd2 sx way
               (\<lambda>e. e\<lparr>ip_tag := ip, target := branch_target, always_taken := 1\<rparr>) (vb_btb st)\<rparr>)))"

definition vb_direct_predict :: "btb_config \<Rightarrow> u64 \<Rightarrow> vb_store \<Rightarrow> ((u64 \<times> u8) \<times> vb_store) option" where
  "vb_direct_predict c ip st =
     (let sx = vb_set_index c ip
      in case vb_find c st ip of
           None \<Rightarrow> Some ((stream_buffer_predict ip (sbuf st), 1), st)
         | Some (InBtb w) \<Rightarrow>
             (let st = vb_update_lru sx w st
              in Some ((target (vb_btb st ! sx ! w), always_taken (vb_btb st ! sx ! w)), st))
         | Some (InVictim i) \<Rightarrow> Some ((target (victim_buffer st ! i), always_taken (victim_buffer st ! i)), st))"

definition vb_direct_update :: "btb_config \<Rightarrow> u64 \<Rightarrow> u64 \<Rightarrow> u8 \<Rightarrow> u8 \<Rightarrow> vb_store \<Rightarrow> vb_store option" where
  "vb_direct_update c ip branch_target taken bt st =
     (case vb_find c st ip of
        None \<Rightarrow>
          (let st = st\<lparr>sbuf := snd (stream_buffer_update ip (sbuf st))\<rparr>
           in if branch_target \<noteq> 0 \<and> taken \<noteq> 0 then vb_allocate c ip branch_target st else Some st)
      | Some p \<Rightarrow> Some (vb_refresh_entry (vb_set_index c ip) p (taken \<noteq> 0) branch_target st))"

definition vb_direct_prefetch :: "btb_config \<Rightarrow> u64 \<Rightarrow> u64 \<Rightarrow> u8 \<Rightarrow> bool \<Rightarrow> bool \<Rightarrow> vb_store \<Rightarrow> vb_store option" where
  "vb_direct_prefetch c ip branch_target bt taken to_stream_buffer st =
     (case vb_find c st ip of
        None \<Rightarrow>
          if branch_target \<noteq> 0 \<and> taken then
            (if to_stream_buffer then map_option (\<lambda>sb. st\<lparr>sbuf := sb\<rparr>) (sb_prefetch ip branch_target (sbuf st))
             else vb_allocate c ip branch_target st)
          else Some st
      | Some p \<Rightarrow>
          (let st = (case p of InBtb w \<Rightarrow> vb_update_lru (vb_set_index c ip) w st | InVictim i \<Rightarrow> st)
           in Some (vb_refresh_entry (vb_set_index c ip) p taken branch_target st)))"

definition vb_btb_prediction :: "btb_config \<Rightarrow> u64 \<Rightarrow> u8 \<Rightarrow> vb_store btb_cpu \<Rightarrow> ((u64 \<times> u8) \<times> vb_store btb_cpu) option" where
  "vb_btb_prediction c = btb_prediction_with (vb_direct_predict c)"

definition vb_update_btb :: "btb_config \<Rightarrow> u64 \<Rightarrow> u64 \<Rightarrow> u8 \<Rightarrow> u8 \<Rightarrow> vb_store btb_cpu \<Rightarrow> vb_store btb_cpu option" where
  "vb_update_btb c = update_btb_with (vb_direct_update c)"

definition vb_prefetch_btb ::
  "btb_config \<Rightarrow> u64 \<Rightarrow> u64 \<Rightarrow> u8 \<Rightarrow> bool \<Rightarrow> bool \<Rightarrow> vb_store btb_cpu \<Rightarrow> vb_store btb_cpu option" where
  "vb_prefetch_btb c = prefetch_btb_with (vb_direct_prefetch c)"

section \<open>Invariant\<close>

definition vb_geometry :: "btb_config \<Rightarrow> vb_entry geometry" where
  "vb_geometry c = \<lparr>g_index = vb_set_index c, g_sets = VB_SETS c, g_ways = BASIC_BTB_WAYS c, g_tag = ip_tag, g_tgt = target\<rparr>"

lemma vb_geometry_simps [simp]:
  "g_index (vb_geometry c) = vb_set_index c" "g_sets (vb_geometry c) = VB_SETS c"
  "g_ways (vb_geometry c) = BASIC_BTB_WAYS c" "g_tag (vb_geometry c) = ip_tag" "g_tgt (vb_geometry c) = target"
  by (simp_all add: vb_geometry_def)

text \<open>A used tag is at one place only: in the BTB or once in the victim buffer.\<close>

definition victims_ok :: "vb_entry list \<Rightarrow> bool" where
  "victims_ok vs \<longleftrightarrow> length vs \<le> victim_buffer_size \<and> distinct (filter (\<lambda>k. k \<noteq> 0) (map ip_tag vs))"

definition vb_ok :: "btb_config \<Rightarrow> vb_store \<Rightarrow> bool" where
  "vb_ok c st \<longleftrightarrow> arr_ok (vb_geometry c) (vb_btb st) \<and> sb_ok (sbuf st) \<and> victims_ok (victim_buffer st) \<and>
     (\<forall>e\<in>set (victim_buffer st). ip_tag e \<noteq> 0 \<longrightarrow> arr_lookup (vb_geometry c) (vb_btb st) (ip_tag e) = None)"

definition victim_lookup :: "vb_entry list \<Rightarrow> u64 \<Rightarrow> u64 option" where
  "victim_lookup vs k = map_option (\<lambda>i. target (vs ! i)) (victim_find_entry k vs)"

definition vb_lookup :: "btb_config \<Rightarrow> vb_store \<Rightarrow> u64 \<Rightarrow> u64 option" where
  "vb_lookup c st k =
     (case arr_lookup (vb_geometry c) (vb_btb st) k of Some t \<Rightarrow> Some t | None \<Rightarrow> victim_lookup (victim_buffer st) k)"

lemma vb_okD:
  assumes "vb_ok c st"
  shows "arr_ok (vb_geometry c) (vb_btb st)" "sb_ok (sbuf st)" "victims_ok (victim_buffer st)"
    "e \<in> set (victim_buffer st) \<Longrightarrow> ip_tag e \<noteq> 0 \<Longrightarrow> arr_lookup (vb_geometry c) (vb_btb st) (ip_tag e) = None"
  using assms by (auto simp: vb_ok_def)

lemma vb_find_arr:
  "arr_ok (vb_geometry c) (vb_btb st) \<Longrightarrow> vb_find_entry c st ip = arr_find (vb_geometry c) (vb_btb st) ip"
  using arr_okD(2)[of "vb_geometry c" "vb_btb st" ip] by (simp add: vb_find_entry_def arr_find_def row_find_def)

text \<open>With distinct tags the victim buffer is a map: an entry is found wherever it is.\<close>

lemma victim_find_SomeD: "victim_find_entry k vs = Some i \<Longrightarrow> i < length vs \<and> ip_tag (vs ! i) = k"
  unfolding victim_find_entry_def using first_index_SomeD by blast

lemma victim_lookup_None: "victim_lookup vs k = None \<longleftrightarrow> k \<notin> ip_tag ` set vs"
proof -
  have "victim_lookup vs k = None \<longleftrightarrow> (\<forall>i<length vs. ip_tag (vs ! i) \<noteq> k)"
    by (simp add: victim_lookup_def victim_find_entry_def first_index_None_iff)
  also have "\<dots> \<longleftrightarrow> k \<notin> ip_tag ` set vs" unfolding image_iff by (metis in_set_conv_nth)
  finally show ?thesis .
qed

lemma victim_lookup_Some:
  assumes "distinct (filter (\<lambda>k. k \<noteq> 0) (map ip_tag vs))" "k \<noteq> 0"
  shows "victim_lookup vs k = Some t \<longleftrightarrow> (\<exists>e\<in>set vs. ip_tag e = k \<and> target e = t)"
proof -
  have uniq: "e = f" if "e \<in> set vs" "f \<in> set vs" "ip_tag e = k" "ip_tag f = k" for e f
    using assms that by (induction vs) (auto simp: image_iff split: if_splits)
  have found: "\<exists>i<length vs. victim_find_entry k vs = Some i \<and> ip_tag (vs ! i) = k" if "e \<in> set vs" "ip_tag e = k" for e
  proof -
    from \<open>e \<in> set vs\<close> obtain j where j: "j < length vs" "vs ! j = e" unfolding in_set_conv_nth by blast
    then have "ip_tag (vs ! j) = k" using \<open>ip_tag e = k\<close> by simp
    with j(1) have "\<exists>i. victim_find_entry k vs = Some i"
      unfolding victim_find_entry_def by (rule first_index_exI)
    then obtain i where i: "victim_find_entry k vs = Some i" ..
    from victim_find_SomeD[OF i] i show ?thesis by blast
  qed
  show ?thesis
  proof
    assume "victim_lookup vs k = Some t"
    then obtain i where i: "victim_find_entry k vs = Some i" "target (vs ! i) = t" by (auto simp: victim_lookup_def)
    with victim_find_SomeD[OF i(1)] show "\<exists>e\<in>set vs. ip_tag e = k \<and> target e = t"
      by (intro bexI[of _ "vs ! i"]) auto
  next
    assume "\<exists>e\<in>set vs. ip_tag e = k \<and> target e = t"
    then obtain e where e: "e \<in> set vs" "ip_tag e = k" "target e = t" by blast
    from found[OF e(1,2)] obtain i where "i < length vs" "victim_find_entry k vs = Some i" "ip_tag (vs ! i) = k" by blast
    with uniq[of "vs ! i" e] e show "victim_lookup vs k = Some t" by (simp add: victim_lookup_def)
  qed
qed

text \<open>A lookup by where the branch is.\<close>

lemma vb_lookup_cases:
  assumes ok: "vb_ok c st" and k: "k \<noteq> 0"
  shows "vb_lookup c st k = Some t \<longleftrightarrow>
    arr_lookup (vb_geometry c) (vb_btb st) k = Some t \<or> (\<exists>e\<in>set (victim_buffer st). ip_tag e = k \<and> target e = t)"
proof -
  have d: "distinct (filter (\<lambda>k. k \<noteq> 0) (map ip_tag (victim_buffer st)))" using vb_okD(3)[OF ok] by (simp add: victims_ok_def)
  note v = victim_lookup_Some[OF d k, of t]
  show ?thesis
  proof (cases "arr_lookup (vb_geometry c) (vb_btb st) k")
    case None
    with v show ?thesis by (simp add: vb_lookup_def)
  next
    case (Some u)
    then have "\<not> (\<exists>e\<in>set (victim_buffer st). ip_tag e = k)" using vb_okD(4)[OF ok] k by auto
    with Some show ?thesis by (auto simp: vb_lookup_def)
  qed
qed

lemma vb_find_cases:
  assumes ok: "vb_ok c st" and k: "k \<noteq> 0"
  shows "case vb_find c st k of
      None \<Rightarrow> arr_find (vb_geometry c) (vb_btb st) k = None \<and> k \<notin> ip_tag ` set (victim_buffer st) \<and> vb_lookup c st k = None
    | Some (InBtb w) \<Rightarrow> arr_find (vb_geometry c) (vb_btb st) k = Some w \<and>
        vb_lookup c st k = Some (target (vb_btb st ! vb_set_index c k ! w))
    | Some (InVictim i) \<Rightarrow> arr_find (vb_geometry c) (vb_btb st) k = None \<and> i < length (victim_buffer st) \<and>
        ip_tag (victim_buffer st ! i) = k \<and> vb_lookup c st k = Some (target (victim_buffer st ! i))"
proof -
  note A = vb_okD(1)[OF ok]
  show ?thesis
  proof (cases "arr_find (vb_geometry c) (vb_btb st) k")
    case (Some w)
    with arr_findD(3)[OF A Some] vb_find_arr[OF A] show ?thesis by (simp add: vb_find_def vb_lookup_def)
  next
    case None
    then have l: "arr_lookup (vb_geometry c) (vb_btb st) k = None" by (simp add: arr_lookup_None)
    show ?thesis
    proof (cases "victim_find_entry k (victim_buffer st)")
      case N: None
      then have "victim_lookup (victim_buffer st) k = None" by (simp add: victim_lookup_def)
      with victim_lookup_None[of "victim_buffer st" k] None N l vb_find_arr[OF A] show ?thesis
        by (simp add: vb_find_def vb_lookup_def)
    next
      case (Some i)
      from victim_find_SomeD[OF Some] have "i < length (victim_buffer st)" "ip_tag (victim_buffer st ! i) = k" by auto
      with Some None l vb_find_arr[OF A] show ?thesis by (simp add: vb_find_def vb_lookup_def victim_lookup_def)
    qed
  qed
qed

section \<open>The operations\<close>

lemma vb_keep_btb:
  assumes ok: "vb_ok c st" and same: "arr_same (vb_geometry c) (vb_btb st) (vb_btb st')"
    and st': "victim_buffer st' = victim_buffer st" "sb_ok (sbuf st')"
  shows "vb_ok c st'" "k \<noteq> 0 \<Longrightarrow> vb_lookup c st' k = vb_lookup c st k"
  using ok same st' by (auto simp: vb_ok_def arr_same_def vb_lookup_def split: option.splits)

lemma vb_touch_law:
  assumes ok: "vb_ok c st" and f: "arr_find (vb_geometry c) (vb_btb st) ip = Some w"
  shows "vb_ok c (vb_update_lru (vb_set_index c ip) w st)"
    "k \<noteq> 0 \<Longrightarrow> vb_lookup c (vb_update_lru (vb_set_index c ip) w st) k = vb_lookup c st k"
    "arr_find (vb_geometry c) (vb_btb (vb_update_lru (vb_set_index c ip) w st)) ip = Some w \<or> ip = 0"
    "target (vb_btb (vb_update_lru (vb_set_index c ip) w st) ! vb_set_index c ip ! w) = target (vb_btb st ! vb_set_index c ip ! w)"
proof -
  note A = vb_okD(1)[OF ok]
  have i: "vb_set_index c ip < length (vb_btb st)" "w < BASIC_BTB_WAYS c" "w < length (vb_btb st ! vb_set_index c ip)"
    using arr_okD(1,2)[OF A, of ip] arr_findD(1)[OF A f] by simp_all
  have s: "arr_same (vb_geometry c) (vb_btb st) (vb_btb (vb_update_lru (vb_set_index c ip) w st))"
    using arr_touch[OF A, of "vb_set_index c ip" w "\<lambda>e. e\<lparr>lru := vb_lru_counter st\<rparr>"] i by (simp add: vb_update_lru_def)
  have e: "victim_buffer (vb_update_lru (vb_set_index c ip) w st) = victim_buffer st"
    "sb_ok (sbuf (vb_update_lru (vb_set_index c ip) w st))"
    using vb_okD(2)[OF ok] by (simp_all add: vb_update_lru_def)
  show "vb_ok c (vb_update_lru (vb_set_index c ip) w st)"
    "k \<noteq> 0 \<Longrightarrow> vb_lookup c (vb_update_lru (vb_set_index c ip) w st) k = vb_lookup c st k"
    using vb_keep_btb[OF ok s e] by simp_all
  show "arr_find (vb_geometry c) (vb_btb (vb_update_lru (vb_set_index c ip) w st)) ip = Some w \<or> ip = 0"
    using s f by (auto simp: arr_same_def)
  show "target (vb_btb (vb_update_lru (vb_set_index c ip) w st) ! vb_set_index c ip ! w) = target (vb_btb st ! vb_set_index c ip ! w)"
    using i by (simp add: vb_update_lru_def row_upd2)
qed

lemma victim_update:
  assumes i: "victim_find_entry ip vs = Some i" and f: "ip_tag (f (vs ! i)) = ip_tag (vs ! i)"
  shows "map ip_tag (vs[i := f (vs ! i)]) = map ip_tag vs"
    "victim_lookup (vs[i := f (vs ! i)]) k = (if k = ip then Some (target (f (vs ! i))) else victim_lookup vs k)"
proof -
  note v = victim_find_SomeD[OF i]
  show m: "map ip_tag (vs[i := f (vs ! i)]) = map ip_tag vs" using f by (simp add: map_update list_update_same_conv v)
  have tag: "ip_tag (vs[i := f (vs ! i)] ! j) = ip_tag (vs ! j)" if "j < length vs" for j
    using arg_cong[OF m, of "\<lambda>l. l ! j"] that by simp
  have find: "victim_find_entry k (vs[i := f (vs ! i)]) = victim_find_entry k vs" for k
    unfolding victim_find_entry_def length_list_update by (rule first_index_cong) (simp add: tag)
  show "victim_lookup (vs[i := f (vs ! i)]) k = (if k = ip then Some (target (f (vs ! i))) else victim_lookup vs k)"
  proof (cases "k = ip")
    case True
    with i v show ?thesis by (simp add: victim_lookup_def find)
  next
    case False
    have "j \<noteq> i" if "victim_find_entry k vs = Some j" for j using victim_find_SomeD[OF that] v False by auto
    then have "vs[i := f (vs ! i)] ! j = vs ! j" if "victim_find_entry k vs = Some j" for j using that by simp
    with False show ?thesis by (cases "victim_find_entry k vs") (simp_all add: victim_lookup_def find)
  qed
qed

lemma vb_refresh_law:
  assumes ok: "vb_ok c st" and ip: "ip \<noteq> 0" and p: "vb_find c st ip = Some p"
  shows "vb_ok c (vb_refresh_entry (vb_set_index c ip) p tk t st)"
    "k \<noteq> 0 \<Longrightarrow> vb_lookup c (vb_refresh_entry (vb_set_index c ip) p tk t st) k =
      (if k = ip \<and> tk then Some t else vb_lookup c st k)"
proof -
  let ?f = "\<lambda>e. if \<not> tk then e\<lparr>always_taken := 0\<rparr> else e\<lparr>target := t\<rparr>"
  let ?st = "vb_refresh_entry (vb_set_index c ip) p tk t st"
  note A = vb_okD(1)[OF ok]
  have "vb_ok c ?st \<and> (k \<noteq> 0 \<longrightarrow> vb_lookup c ?st k = (if k = ip \<and> tk then Some t else vb_lookup c st k))" for k
  proof (cases p)
    case (InBtb w)
    then have f: "arr_find (vb_geometry c) (vb_btb st) ip = Some w" using vb_find_cases[OF ok ip] p by simp
    note fd = arr_findD[OF A f]
    have tag: "g_tag (vb_geometry c) (?f (vb_btb st ! vb_set_index c ip ! w)) = g_tag (vb_geometry c) (vb_btb st ! vb_set_index c ip ! w)"
      by simp
    note m = arr_modify[where f = ?f, OF A _ fd(1), of "vb_set_index c ip", OF arr_okD(1)[OF A, of ip, simplified] tag]
    have e: "vb_btb ?st = upd2 (vb_set_index c ip) w ?f (vb_btb st)" "victim_buffer ?st = victim_buffer st" "sbuf ?st = sbuf st"
      by (simp_all add: vb_refresh_entry_def InBtb Let_def)
    have l: "arr_lookup (vb_geometry c) (vb_btb ?st) k =
        (if k = ip then Some (if tk then t else target (vb_btb st ! vb_set_index c ip ! w)) else arr_lookup (vb_geometry c) (vb_btb st) k)"
      if "k \<noteq> 0" for k
      using m(3)[OF that] fd(2) by (simp add: e)
    have s: "arr_lookup (vb_geometry c) (vb_btb st) ip = Some (target (vb_btb st ! vb_set_index c ip ! w))" using fd(3) by simp
    have "vb_ok c ?st" using ok m(1) l s unfolding vb_ok_def e by auto
    moreover have "vb_lookup c ?st k = (if k = ip \<and> tk then Some t else vb_lookup c st k)" if "k \<noteq> 0"
      using l[OF that] s unfolding vb_lookup_def e(2) by simp
    ultimately show ?thesis by blast
  next
    case (InVictim i)
    then have n: "arr_find (vb_geometry c) (vb_btb st) ip = None" using vb_find_cases[OF ok ip] p by simp
    have vi: "victim_find_entry ip (victim_buffer st) = Some i"
      using p InVictim by (auto simp: vb_find_def split: option.splits)
    have tag: "ip_tag (?f (victim_buffer st ! i)) = ip_tag (victim_buffer st ! i)" by simp
    note u = victim_update[where f = ?f, OF vi tag]
    have e: "vb_btb ?st = vb_btb st" "victim_buffer ?st = (victim_buffer st)[i := ?f (victim_buffer st ! i)]" "sbuf ?st = sbuf st"
      by (simp_all add: vb_refresh_entry_def InVictim Let_def)
    have tags: "ip_tag ` set (victim_buffer ?st) = ip_tag ` set (victim_buffer st)"
      using arg_cong[OF u(1), of set] unfolding e(2) set_map .
    have "victims_ok (victim_buffer ?st)" using vb_okD(3)[OF ok] unfolding victims_ok_def e(2) u(1) by simp
    moreover have "arr_lookup (vb_geometry c) (vb_btb st) (ip_tag x) = None" if "x \<in> set (victim_buffer ?st)" "ip_tag x \<noteq> 0" for x
    proof -
      have "ip_tag x \<in> ip_tag ` set (victim_buffer st)" using that(1) unfolding tags[symmetric] by simp
      then show ?thesis using vb_okD(4)[OF ok] that(2) by auto
    qed
    ultimately have "vb_ok c ?st" using A vb_okD(2)[OF ok] unfolding vb_ok_def e(1,3) by blast
    moreover have "vb_lookup c ?st k = (if k = ip \<and> tk then Some t else vb_lookup c st k)"
    proof -
      have l: "victim_lookup (victim_buffer ?st) k =
          (if k = ip then Some (if tk then t else target (victim_buffer st ! i)) else victim_lookup (victim_buffer st) k)"
        unfolding e(2) u(2) by simp
      have "arr_lookup (vb_geometry c) (vb_btb st) ip = None" using n by (simp add: arr_lookup_None)
      moreover have "victim_lookup (victim_buffer st) ip = Some (target (victim_buffer st ! i))" using vi by (simp add: victim_lookup_def)
      ultimately show ?thesis unfolding vb_lookup_def e(1) l by (simp split: option.splits)
    qed
    ultimately show ?thesis by blast
  qed
  then show "vb_ok c ?st" "k \<noteq> 0 \<Longrightarrow> vb_lookup c ?st k = (if k = ip \<and> tk then Some t else vb_lookup c st k)" by blast+
qed

lemma vb_lru_bound: "vb_ok c st \<Longrightarrow> vb_get_lru_entry c st sx < BASIC_BTB_WAYS c"
  using arr_okD(4)[OF vb_okD(1)[of c st]] by (simp add: vb_get_lru_entry_def scan_min_bound)

text \<open>
  A fill loses nothing but the oldest victim: every other branch, the replaced one included, is found with the target
  it had.
\<close>

lemma vb_allocate_law:
  assumes ok: "vb_ok c st" and ip: "ip \<noteq> 0" and none: "vb_find c st ip = None"
  shows "\<exists>st'. vb_allocate c ip t st = Some st' \<and> vb_ok c st' \<and> vb_lookup c st' ip = Some t \<and>
    (\<forall>k. k \<noteq> 0 \<longrightarrow> k \<noteq> ip \<longrightarrow> vb_lookup c st' k =
       (if length (victim_buffer st) = victim_buffer_size \<and> k = ip_tag (hd (victim_buffer st)) then None else vb_lookup c st k))"
proof -
  let ?g = "vb_geometry c" and ?s = "vb_set_index c ip" and ?w = "vb_get_lru_entry c st (vb_set_index c ip)"
  let ?old = "vb_btb st ! ?s ! ?w" and ?vs = "victim_buffer st"
  let ?kept = "if length ?vs \<ge> victim_buffer_size then tl ?vs else ?vs"
  note A = vb_okD(1)[OF ok]
  have w: "?w < BASIC_BTB_WAYS c" by (rule vb_lru_bound[OF ok])
  have i: "?s < length (vb_btb st)" "?w < length (vb_btb st ! ?s)" using arr_okD(1,2)[OF A, of ip] w by simp_all
  have n: "arr_find ?g (vb_btb st) ip = None" "ip \<notin> ip_tag ` set ?vs" using vb_find_cases[OF ok ip] none by simp_all
  have vs: "length ?vs \<le> victim_buffer_size" "distinct (filter (\<lambda>k. k \<noteq> 0) (map ip_tag ?vs))"
    using vb_okD(3)[OF ok] by (simp_all add: victims_ok_def)
  have pos: "0 < victim_buffer_size" by (simp add: victim_buffer_size_def)
  have short: "length ?kept < victim_buffer_size" using vs(1) pos by auto
  then have add: "add_to_victim_buffer ?old ?vs = Some (?kept @ [new_vb_entry (ip_tag ?old) (target ?old)])"
    by (simp add: add_to_victim_buffer_def Let_def)
  let ?new = "\<lambda>e. e\<lparr>ip_tag := ip, target := t, always_taken := 1, lru := vb_lru_counter st\<rparr>"
  define st' where "st' = st\<lparr>victim_buffer := ?kept @ [new_vb_entry (ip_tag ?old) (target ?old)],
      vb_btb := upd2 ?s ?w ?new (vb_btb st), vb_lru_counter := vb_lru_counter st + 1\<rparr>"
  have run: "vb_allocate c ip t st = Some st'"
    using add i by (simp add: vb_allocate_def Let_def vb_update_lru_def upd2_upd2 comp_def st'_def)
  have b: "vb_btb st' = upd2 ?s ?w ?new (vb_btb st)" "sbuf st' = sbuf st"
    and v: "victim_buffer st' = ?kept @ [new_vb_entry (ip_tag ?old) (target ?old)]"
    by (simp_all add: st'_def)
  note I = arr_insert[where f = ?new and t = t, OF A ip n(1), of ?w, simplified, OF w]
  have old: "arr_lookup ?g (vb_btb st') (ip_tag ?old) = None" "arr_lookup ?g (vb_btb st) (ip_tag ?old) = Some (target ?old)"
    if "ip_tag ?old \<noteq> 0" using I(4)[OF that] b(1) by simp_all
  have lip: "arr_lookup ?g (vb_btb st') ip = Some t" using I(2) b(1) by simp
  have lk: "arr_lookup ?g (vb_btb st') k = (if k = ip_tag ?old then None else arr_lookup ?g (vb_btb st) k)"
    if "k \<noteq> 0" "k \<noteq> ip" for k using I(3)[OF that] old(1) that b(1) by simp
  have okb: "arr_ok ?g (vb_btb st')" using I(1) b(1) by (simp add: arr_effect_def)
  have sub: "set ?kept \<subseteq> set ?vs" by (auto dest: list.set_sel(2)[rotated] split: if_splits) (metis list.sel(2) list.set_sel(2))
  have dk: "distinct (filter (\<lambda>k. k \<noteq> 0) (map ip_tag ?kept))"
    using vs(2) by (cases ?vs) (auto split: if_splits)
  have fresh: "ip_tag ?old \<notin> ip_tag ` set ?vs" if "ip_tag ?old \<noteq> 0" using old(2)[OF that] vb_okD(4)[OF ok] that by auto
  have ok': "vb_ok c st'"
    unfolding vb_ok_def
  proof (intro conjI ballI impI)
    show "arr_ok ?g (vb_btb st')" by (rule okb)
    show "sb_ok (sbuf st')" using vb_okD(2)[OF ok] b(2) by simp
    show "victims_ok (victim_buffer st')"
      using short dk fresh sub by (auto simp: victims_ok_def v new_vb_entry_def)
    fix e assume e: "e \<in> set (victim_buffer st')" "ip_tag e \<noteq> 0"
    show "arr_lookup ?g (vb_btb st') (ip_tag e) = None"
    proof (cases "e \<in> set ?vs")
      case True
      then have "ip_tag e \<noteq> ip" "arr_lookup ?g (vb_btb st) (ip_tag e) = None" using n(2) vb_okD(4)[OF ok True e(2)] by auto
      with lk[OF e(2)] show ?thesis by simp
    next
      case False
      with e(1) sub have "ip_tag e = ip_tag ?old" by (auto simp: v new_vb_entry_def)
      with old(1) e(2) show ?thesis by simp
    qed
  qed
  have "vb_lookup c st' ip = Some t" using lip by (simp add: vb_lookup_def)
  moreover have "vb_lookup c st' k = (if length ?vs = victim_buffer_size \<and> k = ip_tag (hd ?vs) then None else vb_lookup c st k)"
    if k: "k \<noteq> 0" "k \<noteq> ip" for k
  proof -
    have mem: "(\<exists>e\<in>set ?kept. ip_tag e = k \<and> target e = u) \<longleftrightarrow>
        \<not> (length ?vs = victim_buffer_size \<and> k = ip_tag (hd ?vs)) \<and> (\<exists>e\<in>set ?vs. ip_tag e = k \<and> target e = u)" for u
      using vs k(1) pos by (cases ?vs) (auto simp: image_iff split: if_splits)
    have "k \<noteq> ip_tag (hd ?vs)" if "k = ip_tag ?old" "?vs \<noteq> []" using fresh k(1) that by (metis hd_in_set imageI)
    then have hd: "length ?vs = victim_buffer_size \<and> k = ip_tag (hd ?vs) \<Longrightarrow> k \<noteq> ip_tag ?old" using pos by force
    have hdn: "arr_lookup ?g (vb_btb st) k = None" if "length ?vs = victim_buffer_size \<and> k = ip_tag (hd ?vs)"
      using that vb_okD(4)[OF ok, of "hd ?vs"] k(1) pos by (metis hd_in_set length_0_conv less_numeral_extra(3))
    have "vb_lookup c st' k = Some u \<longleftrightarrow>
        \<not> (length ?vs = victim_buffer_size \<and> k = ip_tag (hd ?vs)) \<and> vb_lookup c st k = Some u" for u
      unfolding vb_lookup_cases[OF ok' k(1)] vb_lookup_cases[OF ok k(1)] lk[OF k] v set_append
      using mem[of u] hd hdn old(2) k(1) fresh by (auto simp: new_vb_entry_def)
    then show ?thesis by (metis option.exhaust option.simps(3))
  qed
  ultimately show ?thesis using run ok' by blast
qed

section \<open>The contract\<close>

lemma vb_predict_law:
  assumes ok: "vb_ok c st" and ip: "ip \<noteq> 0"
  shows "\<exists>r st'. vb_direct_predict c ip st = Some (r, st') \<and> vb_ok c st' \<and>
    (\<forall>k. k \<noteq> 0 \<longrightarrow> vb_lookup c st' k = vb_lookup c st k) \<and> (\<forall>t. vb_lookup c st ip = Some t \<longrightarrow> fst r = t)"
proof (cases "vb_find c st ip")
  case None
  with vb_find_cases[OF ok ip] ok show ?thesis by (simp add: vb_direct_predict_def Let_def)
next
  case (Some p)
  show ?thesis
  proof (cases p)
    case (InBtb w)
    with Some vb_find_cases[OF ok ip] have f: "arr_find (vb_geometry c) (vb_btb st) ip = Some w"
      "vb_lookup c st ip = Some (target (vb_btb st ! vb_set_index c ip ! w))" by simp_all
    note touch = vb_touch_law[OF ok f(1)]
    show ?thesis using Some InBtb f(2) touch(1,2,4) by (simp add: vb_direct_predict_def Let_def)
  next
    case (InVictim i)
    with Some vb_find_cases[OF ok ip] ok show ?thesis by (simp add: vb_direct_predict_def Let_def)
  qed
qed

lemma vb_sbuf_law:
  assumes "vb_ok c st" "sb_ok b"
  shows "vb_ok c (st\<lparr>sbuf := b\<rparr>)" "vb_lookup c (st\<lparr>sbuf := b\<rparr>) k = vb_lookup c st k" "vb_find c (st\<lparr>sbuf := b\<rparr>) k = vb_find c st k"
  using assms by (simp_all add: vb_ok_def vb_lookup_def vb_find_def vb_find_entry_def cong: option.case_cong)

lemma vb_update_law:
  assumes ok: "vb_ok c st" and ip: "ip \<noteq> 0"
  shows "\<exists>st'. vb_direct_update c ip t tk bt st = Some st' \<and> vb_ok c st' \<and>
    (\<forall>k u. k \<noteq> 0 \<longrightarrow> vb_lookup c st' k = Some u \<longrightarrow> (if k = ip \<and> tk \<noteq> 0 then u = t else vb_lookup c st k = Some u)) \<and>
    (t \<noteq> 0 \<and> tk \<noteq> 0 \<longrightarrow> vb_lookup c st' ip = Some t)"
proof (cases "vb_find c st ip")
  case (Some p)
  note r = vb_refresh_law[OF ok ip Some, where tk = "tk \<noteq> 0" and t = t]
  have "vb_lookup c (vb_refresh_entry (vb_set_index c ip) p (tk \<noteq> 0) t st) ip = Some t" if "tk \<noteq> 0"
    using r(2)[OF ip] that by simp
  with r Some show ?thesis unfolding vb_direct_update_def by simp
next
  case None
  let ?st = "st\<lparr>sbuf := snd (stream_buffer_update ip (sbuf st))\<rparr>"
  have "sb_ok (snd (stream_buffer_update ip (sbuf st)))" using vb_okD(2)[OF ok] by (rule stream_buffer_update_ok)
  note s = vb_sbuf_law[OF ok this]
  show ?thesis
  proof (cases "t \<noteq> 0 \<and> tk \<noteq> 0")
    case False
    from vb_find_cases[OF ok ip] None have "vb_lookup c st ip = None" by simp
    with False None s show ?thesis by (auto simp: vb_direct_update_def Let_def)
  next
    case True
    have n: "vb_find c ?st ip = None" using None s(3) by simp
    obtain st' where a: "vb_allocate c ip t ?st = Some st'" "vb_ok c st'" "vb_lookup c st' ip = Some t"
      "\<forall>k. k \<noteq> 0 \<longrightarrow> k \<noteq> ip \<longrightarrow> vb_lookup c st' k =
         (if length (victim_buffer ?st) = victim_buffer_size \<and> k = ip_tag (hd (victim_buffer ?st)) then None else vb_lookup c ?st k)"
      using vb_allocate_law[OF s(1) ip n, of t] by blast
    have "if k = ip \<and> tk \<noteq> 0 then u = t else vb_lookup c st k = Some u" if "k \<noteq> 0" "vb_lookup c st' k = Some u" for k u
      using that a(3) a(4)[rule_format, of k] s(2)[of k] True by (cases "k = ip") (simp_all split: if_splits)
    moreover have "vb_direct_update c ip t tk bt st = Some st'" using True None a(1) by (simp add: vb_direct_update_def Let_def)
    ultimately show ?thesis using a(2,3) by blast
  qed
qed

lemma vb_prefetch_law:
  assumes ok: "vb_ok c st" and ip: "ip \<noteq> 0"
  shows "\<exists>st'. vb_direct_prefetch c ip t bt tk sb st = Some st' \<and> vb_ok c st' \<and>
    (\<forall>k u. k \<noteq> 0 \<longrightarrow> vb_lookup c st' k = Some u \<longrightarrow> (if k = ip \<and> tk then u = t else vb_lookup c st k = Some u))"
proof (cases "vb_find c st ip")
  case (Some p)
  define st1 where "st1 = (case p of InBtb w \<Rightarrow> vb_update_lru (vb_set_index c ip) w st | InVictim i \<Rightarrow> st)"
  have "vb_ok c st1 \<and> vb_find c st1 ip = Some p \<and> (\<forall>k. k \<noteq> 0 \<longrightarrow> vb_lookup c st1 k = vb_lookup c st k)"
  proof (cases p)
    case (InBtb w)
    with Some vb_find_cases[OF ok ip] have f: "arr_find (vb_geometry c) (vb_btb st) ip = Some w" by simp
    note touch = vb_touch_law[OF ok f]
    have "vb_find c (vb_update_lru (vb_set_index c ip) w st) ip = Some (InBtb w)"
      using touch(3) ip vb_find_arr[OF vb_okD(1)[OF touch(1)], of ip] by (simp add: vb_find_def)
    with touch(1,2) InBtb show ?thesis by (simp add: st1_def)
  next
    case (InVictim i)
    with Some ok show ?thesis by (simp add: st1_def)
  qed
  then have s: "vb_ok c st1" "vb_find c st1 ip = Some p" "\<And>k. k \<noteq> 0 \<Longrightarrow> vb_lookup c st1 k = vb_lookup c st k" by auto
  note r = vb_refresh_law[OF s(1) ip s(2), where tk = tk and t = t]
  have "vb_direct_prefetch c ip t bt tk sb st = Some (vb_refresh_entry (vb_set_index c ip) p tk t st1)"
    using Some by (simp add: vb_direct_prefetch_def st1_def Let_def)
  with r(1) r(2) s(3) show ?thesis by simp
next
  case None
  from vb_find_cases[OF ok ip] None have l: "vb_lookup c st ip = None" by simp
  consider (stay) "\<not> (t \<noteq> 0 \<and> tk)" | (buffer) "t \<noteq> 0" tk sb | (fill) "t \<noteq> 0" tk "\<not> sb" by blast
  then show ?thesis
  proof cases
    case stay
    then have "vb_direct_prefetch c ip t bt tk sb st = Some st" using None by (auto simp: vb_direct_prefetch_def)
    with ok l show ?thesis by auto
  next
    case buffer
    obtain b where "sb_prefetch ip t (sbuf st) = Some b" "sb_ok b"
      using sb_prefetch_total[OF vb_okD(2)[OF ok] buffer(1)] by auto
    with buffer None l vb_sbuf_law[OF ok] show ?thesis by (auto simp: vb_direct_prefetch_def)
  next
    case fill
    obtain st' where a: "vb_allocate c ip t st = Some st'" "vb_ok c st'" "vb_lookup c st' ip = Some t"
      "\<forall>k. k \<noteq> 0 \<longrightarrow> k \<noteq> ip \<longrightarrow> vb_lookup c st' k =
         (if length (victim_buffer st) = victim_buffer_size \<and> k = ip_tag (hd (victim_buffer st)) then None else vb_lookup c st k)"
      using vb_allocate_law[OF ok ip None, of t] by blast
    have "if k = ip \<and> tk then u = t else vb_lookup c st k = Some u" if "k \<noteq> 0" "vb_lookup c st' k = Some u" for k u
      using that a(3) a(4)[rule_format, of k] fill by (cases "k = ip") (simp_all split: if_splits)
    moreover have "vb_direct_prefetch c ip t bt tk sb st = Some st'" using fill None a(1) by (simp add: vb_direct_prefetch_def)
    ultimately show ?thesis using a(2) by blast
  qed
qed

interpretation victim: direct_btb "\<lambda>_. vb_ok c" bound "\<lambda>ip. ip \<noteq> 0" "vb_lookup c"
  "vb_direct_predict c" "vb_direct_update c" "vb_direct_prefetch c" id for c bound
proof (unfold_locales, goal_cases)
  case (4 n a ip) then show ?case using vb_predict_law[of c a ip] by blast
next
  case (5 n a ip t tk bt) then show ?case using vb_update_law[of c a ip t tk bt] by blast
next
  case (6 n a ip t bt p sb) then show ?case using vb_prefetch_law[of c a ip t bt p sb] by blast
qed simp_all

interpretation victim: allocating_btb "\<lambda>_. vb_ok c" bound "\<lambda>ip. ip \<noteq> 0" "vb_lookup c"
  "vb_direct_predict c" "vb_direct_update c" "vb_direct_prefetch c" id for c bound
proof (unfold_locales, goal_cases)
  case (1 n a ip t tk bt a')
  from vb_update_law[OF 1(1,3), of t tk bt] obtain st' where
    "vb_direct_update c ip t tk bt a = Some st'" "t \<noteq> 0 \<and> tk \<noteq> 0 \<longrightarrow> vb_lookup c st' ip = Some t" by blast
  with 1(4-6) show ?case by simp
qed

section \<open>Properties\<close>

definition vb_run :: "btb_config \<Rightarrow> btb_event list \<Rightarrow> vb_store btb_cpu \<Rightarrow> vb_store btb_cpu option" where
  "vb_run c = btb_run (vb_btb_prediction c) (vb_update_btb c) (vb_prefetch_btb c)"

lemmas vb_handlers = vb_run_def vb_btb_prediction_def vb_update_btb_def vb_prefetch_btb_def

lemma vb_index_bound:
  assumes "0 < VB_SETS c"
  shows "vb_set_index c ip < VB_SETS c"
proof -
  have "VB_SETS c \<le> 8192" by (simp add: VB_SETS_def)
  then have "unat (of_nat (VB_SETS c - 1) :: u64) = VB_SETS c - 1" by (simp add: unat_of_nat)
  then have "unat (drop_bit 2 ip AND of_nat (VB_SETS c - 1)) \<le> VB_SETS c - 1"
    using word_and_le1[of "drop_bit 2 ip" "of_nat (VB_SETS c - 1)"] by (simp add: word_le_nat_alt)
  with assms show ?thesis by (simp add: vb_set_index_def)
qed

lemma vb_sets_pos: "0 < BASIC_BTB_WAYS c \<Longrightarrow> 0 < VB_SETS c"
proof -
  assume w: "0 < BASIC_BTB_WAYS c"
  have "unat (total_btb_ways c) < 256" using unsigned_less[of "total_btb_ways c", where ?'a = nat] by simp
  with w show ?thesis by (simp add: VB_SETS_def BASIC_BTB_WAYS_def div_greater_zero_iff)
qed

lemma vb_init_ok:
  assumes "0 < BASIC_BTB_WAYS c"
  shows "vb_ok c (store (vb_initialize_btb c))" "fe_ok (front (vb_initialize_btb c))"
    "k \<noteq> 0 \<Longrightarrow> vb_lookup c (store (vb_initialize_btb c)) k = None"
proof -
  note r = arr_ok_replicate[of "vb_geometry c" empty_vb_entry]
  show "vb_ok c (store (vb_initialize_btb c))" "k \<noteq> 0 \<Longrightarrow> vb_lookup c (store (vb_initialize_btb c)) k = None"
    using r vb_index_bound[OF vb_sets_pos[OF assms]] assms
    by (auto simp: vb_ok_def vb_lookup_def victims_ok_def vb_initialize_btb_def empty_vb_entry_def victim_lookup_def
        victim_find_entry_def first_index_def)
qed (simp add: vb_initialize_btb_def)

text \<open>C34: on any sequence of handler calls the BTB with a victim buffer never fails; a branch is in the BTB or once in
  the buffer of at most 128, never in both, and a branch held by either is predicted with the target of its last taken reference.\<close>

theorem vb_btb_run_correct:
  assumes "0 < BASIC_BTB_WAYS c" and "\<forall>e\<in>set es. event_ip e \<noteq> 0"
  shows "\<exists>s. vb_run c es (vb_initialize_btb c) = Some s \<and> vb_ok c (store s) \<and> fe_ok (front s) \<and>
    (\<forall>ip bt t. ip \<noteq> 0 \<longrightarrow> is_direct bt \<longrightarrow> vb_lookup c (store s) ip = Some t \<longrightarrow>
      ideal_run es Map.empty ip = Some t \<and> (\<exists>taken s'. vb_btb_prediction c ip bt s = Some ((t, taken), s')))"
  using victim.run_correct[where c = c and bound = "Suc (length es)" and es = es and s = "vb_initialize_btb c"]
    vb_init_ok[OF assms(1)] assms(2)
  by (auto simp: vb_handlers)

lemma vb_btb_run_correct_witness:
  "\<exists>s. vb_run default_config [Update 0x400100 0x400200 1 BRANCH_CONDITIONAL, Predict 0x400100 BRANCH_CONDITIONAL]
      (vb_initialize_btb default_config) = Some s \<and> vb_ok default_config (store s)"
  using vb_btb_run_correct[of default_config
      "[Update 0x400100 0x400200 1 BRANCH_CONDITIONAL, Predict 0x400100 BRANCH_CONDITIONAL]"]
  by (auto simp: BASIC_BTB_WAYS_def default_config_def)

text \<open>a taken miss is stored and forgets at most one branch, the oldest of a full victim buffer: every other branch,
  the one whose way is replaced included, is still found with its target.\<close>

theorem vb_fill_keeps_victims:
  assumes "vb_ok c st" "ip \<noteq> 0" "t \<noteq> 0" "taken \<noteq> 0" "vb_find c st ip = None"
  shows "\<exists>st'. vb_direct_update c ip t taken bt st = Some st' \<and> vb_ok c st' \<and> vb_lookup c st' ip = Some t \<and>
    (\<forall>k. k \<noteq> 0 \<longrightarrow> k \<noteq> ip \<longrightarrow> vb_lookup c st' k =
      (if length (victim_buffer st) = 128 \<and> k = ip_tag (hd (victim_buffer st)) then None else vb_lookup c st k))"
proof -
  let ?st = "st\<lparr>sbuf := snd (stream_buffer_update ip (sbuf st))\<rparr>"
  have "sb_ok (snd (stream_buffer_update ip (sbuf st)))" using vb_okD(2)[OF assms(1)] by (rule stream_buffer_update_ok)
  note s = vb_sbuf_law[OF assms(1) this]
  have "vb_find c ?st ip = None" using assms(5) s(3) by simp
  from vb_allocate_law[OF s(1) assms(2) this, of t] obtain st' where a: "vb_allocate c ip t ?st = Some st'" "vb_ok c st'"
    "vb_lookup c st' ip = Some t" "\<forall>k. k \<noteq> 0 \<longrightarrow> k \<noteq> ip \<longrightarrow> vb_lookup c st' k =
         (if length (victim_buffer ?st) = victim_buffer_size \<and> k = ip_tag (hd (victim_buffer ?st)) then None else vb_lookup c ?st k)"
    by blast
  have "vb_direct_update c ip t taken bt st = Some st'" using assms(3-5) a(1) by (simp add: vb_direct_update_def Let_def)
  with a(2-4) show ?thesis unfolding s(2) victim_buffer_size_def by auto
qed

lemma vb_fill_keeps_victims_witness:
  "\<exists>st'. vb_direct_update default_config 0x400100 0x400200 1 BRANCH_DIRECT_JUMP (store (vb_initialize_btb default_config)) = Some st' \<and>
     vb_lookup default_config st' 0x400100 = Some 0x400200"
proof -
  have w: "0 < BASIC_BTB_WAYS default_config" by (simp add: BASIC_BTB_WAYS_def default_config_def)
  let ?st = "store (vb_initialize_btb default_config)"
  have "vb_lookup default_config ?st 0x400100 = None" by (rule vb_init_ok(3)[OF w]) simp
  with vb_find_cases[OF vb_init_ok(1)[OF w], of "0x400100"] have "vb_find default_config ?st 0x400100 = None"
    by (auto split: option.splits vb_ptr.splits)
  from vb_fill_keeps_victims[OF vb_init_ok(1)[OF w] _ _ _ this, of "0x400200" 1 BRANCH_DIRECT_JUMP] show ?thesis by auto
qed

end
