(* ===== verification/CircularBuffer.thy ===== *)
theory CircularBuffer
  imports Prelude
begin

text \<open>
  The fixed-size buffer of \<^verbatim>\<open>inc/circular_buffer.hpp\<close> and the contract of a bounded queue. \<open>head_\<close> and
  \<open>tail_\<close> are 64-bit counters that only ever grow; an element lives at its counter modulo the
  size. A failed assertion is \<open>None\<close>. The locale \<open>bounded_queue\<close> states what a queue promises
  and lifts it to runs; a queue may be asked for a bounded number of pushes (\<open>n\<close>), because the
  counters would wrap after \<open>2 ^ 64\<close>.
\<close>

section \<open>The buffer\<close>

record 'a circular_buffer =
  cb_entry :: "'a list"
  cb_head :: u64
  cb_tail :: u64

definition circular_buffer_new :: "'a \<Rightarrow> nat \<Rightarrow> 'a circular_buffer" where
  "circular_buffer_new d N = \<lparr>cb_entry = replicate N d, cb_head = 0, cb_tail = 0\<rparr>"

definition cb_index :: "'a circular_buffer \<Rightarrow> u64 \<Rightarrow> nat" where
  "cb_index b n = unat n mod length (cb_entry b)"

definition cb_at :: "'a circular_buffer \<Rightarrow> u64 \<Rightarrow> 'a" where
  "cb_at b n = cb_entry b ! cb_index b n"

definition cb_size :: "'a circular_buffer \<Rightarrow> nat" where
  "cb_size b = length (cb_entry b)"

definition occupancy :: "'a circular_buffer \<Rightarrow> u64" where
  "occupancy b = cb_tail b - cb_head b"

definition cb_empty :: "'a circular_buffer \<Rightarrow> bool" where
  "cb_empty b \<longleftrightarrow> occupancy b = 0"

definition cb_full :: "'a circular_buffer \<Rightarrow> bool" where
  "cb_full b \<longleftrightarrow> unat (occupancy b) = cb_size b"

definition cb_front :: "'a circular_buffer \<Rightarrow> 'a" where
  "cb_front b = cb_at b (cb_head b)"

definition cb_back :: "'a circular_buffer \<Rightarrow> 'a" where
  "cb_back b = cb_at b (cb_tail b - 1)"

definition cb_clear :: "'a circular_buffer \<Rightarrow> 'a circular_buffer" where
  "cb_clear b = b\<lparr>cb_head := 0, cb_tail := 0\<rparr>"

definition cb_push_back :: "'a \<Rightarrow> 'a circular_buffer \<Rightarrow> 'a circular_buffer option" where
  "cb_push_back x b =
     (if cb_full b then None
      else Some (b\<lparr>cb_entry := (cb_entry b)[cb_index b (cb_tail b) := x], cb_tail := cb_tail b + 1\<rparr>))"

definition cb_pop_front :: "'a circular_buffer \<Rightarrow> 'a circular_buffer option" where
  "cb_pop_front b = (if cb_empty b then None else Some (b\<lparr>cb_head := cb_head b + 1\<rparr>))"

section \<open>Iterators\<close>

text \<open>
  An iterator of a buffer is a counter; \<open>begin()\<close> is \<open>cb_head\<close>, \<open>end()\<close> is \<open>cb_tail\<close>. The comparisons go
  through the signed difference, and equality is the absence of both orders, as in the code.
\<close>

definition it_add :: "u64 \<Rightarrow> int \<Rightarrow> u64" where "it_add p n = p + of_int n"
definition it_diff :: "u64 \<Rightarrow> u64 \<Rightarrow> int" where "it_diff p q = sint (p - q)"
definition it_less :: "u64 \<Rightarrow> u64 \<Rightarrow> bool" where "it_less p q \<longleftrightarrow> it_diff q p > 0"
definition it_eq :: "u64 \<Rightarrow> u64 \<Rightarrow> bool" where "it_eq p q \<longleftrightarrow> \<not> it_less q p \<and> \<not> it_less p q"

section \<open>The contract of a bounded queue\<close>

datatype 'a queue_op = Push 'a | Pop

fun queue_run :: "('a \<Rightarrow> 'q \<Rightarrow> 'q option) \<Rightarrow> ('q \<Rightarrow> 'q option) \<Rightarrow> 'a queue_op list \<Rightarrow> 'q \<Rightarrow> 'q option" where
  "queue_run push pop [] q = Some q"
| "queue_run push pop (Push x # es) q = Option.bind (push x q) (queue_run push pop es)"
| "queue_run push pop (Pop # es) q = Option.bind (pop q) (queue_run push pop es)"

text \<open>The abstract queue: a list of at most \<open>N\<close> elements; pushing on a full one and popping an empty one fail.\<close>

fun fifo_run :: "nat \<Rightarrow> 'a queue_op list \<Rightarrow> 'a list \<Rightarrow> 'a list option" where
  "fifo_run N [] xs = Some xs"
| "fifo_run N (Push x # es) xs = (if length xs < N then fifo_run N es (xs @ [x]) else None)"
| "fifo_run N (Pop # es) xs = (case xs of [] \<Rightarrow> None | _ # ys \<Rightarrow> fifo_run N es ys)"

locale bounded_queue =
  fixes inv :: "nat \<Rightarrow> 'q \<Rightarrow> bool"
    and view :: "'q \<Rightarrow> 'a list"
    and cap :: "'q \<Rightarrow> nat"
    and push :: "'a \<Rightarrow> 'q \<Rightarrow> 'q option"
    and pop :: "'q \<Rightarrow> 'q option"
  assumes inv_less: "inv (Suc n) q \<Longrightarrow> inv n q"
    and push_room: "inv (Suc n) q \<Longrightarrow> length (view q) < cap q \<Longrightarrow>
      \<exists>q'. push x q = Some q' \<and> inv n q' \<and> view q' = view q @ [x] \<and> cap q' = cap q"
    and push_full: "inv n q \<Longrightarrow> \<not> length (view q) < cap q \<Longrightarrow> push x q = None"
    and pop_some: "inv n q \<Longrightarrow> view q = y # ys \<Longrightarrow>
      \<exists>q'. pop q = Some q' \<and> inv n q' \<and> view q' = ys \<and> cap q' = cap q"
    and pop_empty: "inv n q \<Longrightarrow> view q = [] \<Longrightarrow> pop q = None"
begin

lemma run_refines:
  "inv (length es) q \<Longrightarrow> map_option view (queue_run push pop es q) = fifo_run (cap q) es (view q)"
proof (induction es arbitrary: q)
  case Nil
  show ?case by simp
next
  case (Cons e es)
  show ?case
  proof (cases e)
    case (Push x)
    show ?thesis
    proof (cases "length (view q) < cap q")
      case True
      with push_room[of "length es" q x] Cons.prems obtain q' where
        "push x q = Some q'" "inv (length es) q'" "view q' = view q @ [x]" "cap q' = cap q" by auto
      with Cons.IH[of q'] Push True show ?thesis by simp
    next
      case False
      with push_full[OF Cons.prems, of x] Push show ?thesis by simp
    qed
  next
    case Pop
    have i: "inv (length es) q" using inv_less[of "length es" q] Cons.prems by simp
    show ?thesis
    proof (cases "view q")
      case Nil
      with pop_empty[OF i] Pop show ?thesis by simp
    next
      case (Cons y ys)
      with pop_some[OF i] obtain q' where "pop q = Some q'" "inv (length es) q'" "view q' = ys" "cap q' = cap q" by blast
      with Cons.IH[of q'] Pop Cons show ?thesis by simp
    qed
  qed
qed

end

section \<open>The buffer is a bounded queue\<close>

definition cb_view :: "'a circular_buffer \<Rightarrow> 'a list" where
  "cb_view b = map (\<lambda>i. cb_entry b ! (i mod length (cb_entry b))) [unat (cb_head b)..<unat (cb_tail b)]"

definition cb_inv :: "nat \<Rightarrow> 'a circular_buffer \<Rightarrow> bool" where
  "cb_inv n b \<longleftrightarrow> cb_head b \<le> cb_tail b \<and> unat (cb_tail b) - unat (cb_head b) \<le> cb_size b \<and> unat (cb_tail b) + n < 2 ^ 64"

lemma cb_inv_occupancy: "cb_inv n b \<Longrightarrow> unat (occupancy b) = length (cb_view b)"
  by (simp add: cb_inv_def occupancy_def cb_view_def unat_sub_if' word_le_nat_alt)

lemma cb_inv_length: "cb_inv n b \<Longrightarrow> length (cb_view b) \<le> cb_size b"
  by (simp add: cb_inv_def cb_view_def)

lemma cb_fullD: "cb_inv n b \<Longrightarrow> cb_full b \<longleftrightarrow> \<not> length (cb_view b) < cb_size b"
  using cb_inv_length[of n b] by (auto simp: cb_full_def cb_inv_occupancy)

lemma cb_emptyD: "cb_inv n b \<Longrightarrow> cb_empty b \<longleftrightarrow> cb_view b = []"
  using cb_inv_occupancy[of n b] by (simp add: cb_empty_def unat_eq_0[symmetric])

lemma unat_Suc: "unat (x :: u64) + Suc n < 2 ^ 64 \<Longrightarrow> unat (x + 1) = Suc (unat x)"
  by (subst unat_add_lem[THEN iffD1]) auto

lemma mod_window_inj:
  assumes "h \<le> i" "i < t" "h \<le> t" "t - h < (N :: nat)"
  shows "i mod N \<noteq> t mod N"
proof
  assume "i mod N = t mod N"
  then have "(t - i) mod N = 0" using assms(2) mod_eq_dvd_iff_nat[of i t N] by simp
  moreover have "0 < t - i" "t - i < N" using assms by auto
  ultimately show False by simp
qed

lemma cb_push_law:
  assumes inv: "cb_inv (Suc n) b" and room: "length (cb_view b) < cb_size b"
  shows "\<exists>b'. cb_push_back x b = Some b' \<and> cb_inv n b' \<and> cb_view b' = cb_view b @ [x] \<and> cb_size b' = cb_size b \<and>
    cb_head b' = cb_head b \<and> cb_tail b' = cb_tail b + 1"
proof -
  let ?b = "b\<lparr>cb_entry := (cb_entry b)[cb_index b (cb_tail b) := x], cb_tail := cb_tail b + 1\<rparr>"
  let ?h = "unat (cb_head b)" and ?t = "unat (cb_tail b)" and ?N = "length (cb_entry b)"
  have t: "unat (cb_tail b + 1) = Suc ?t" using inv unat_Suc[of "cb_tail b" n] by (simp add: cb_inv_def)
  have ht: "?h \<le> ?t" using inv by (simp add: cb_inv_def word_le_nat_alt)
  have w: "?t - ?h < ?N" using room by (simp add: cb_view_def cb_size_def)
  then have i: "cb_index b (cb_tail b) < ?N" unfolding cb_index_def by (intro mod_less_divisor) linarith
  have view: "cb_view ?b = cb_view b @ [x]"
  proof -
    have "cb_view ?b = map (\<lambda>i. (cb_entry b)[?t mod ?N := x] ! (i mod ?N)) ([?h..<?t] @ [?t])"
      using ht by (simp add: cb_view_def t cb_index_def)
    also have "\<dots> = map (\<lambda>i. cb_entry b ! (i mod ?N)) [?h..<?t] @ [x]"
    proof -
      have "i mod ?N \<noteq> ?t mod ?N" if "i \<in> set [?h..<?t]" for i using mod_window_inj[of ?h i ?t ?N] that ht w by simp
      then have "(cb_entry b)[?t mod ?N := x] ! (i mod ?N) = cb_entry b ! (i mod ?N)" if "i \<in> set [?h..<?t]" for i
        using that by (metis nth_list_update_neq)
      then show ?thesis using i by (auto simp: cb_index_def)
    qed
    finally show ?thesis by (simp add: cb_view_def)
  qed
  have "cb_inv n ?b"
    using inv ht w by (simp add: cb_inv_def word_le_nat_alt t cb_size_def)
  with view show ?thesis using cb_fullD[OF inv] room by (simp add: cb_push_back_def cb_size_def)
qed

lemma cb_pop_law:
  assumes inv: "cb_inv n b" and ne: "cb_view b = y # ys"
  shows "\<exists>b'. cb_pop_front b = Some b' \<and> cb_inv n b' \<and> cb_view b' = ys \<and> cb_size b' = cb_size b \<and>
    cb_head b' = cb_head b + 1 \<and> cb_tail b' = cb_tail b"
proof -
  let ?b = "b\<lparr>cb_head := cb_head b + 1\<rparr>"
  have ht: "unat (cb_head b) < unat (cb_tail b)"
    using arg_cong[OF ne, of length] by (simp add: cb_view_def)
  have h: "unat (cb_head b + 1) = Suc (unat (cb_head b))"
    using unat_Suc[of "cb_head b" 0] ht inv by (simp add: cb_inv_def)
  have "cb_view b = cb_entry b ! (unat (cb_head b) mod length (cb_entry b)) # cb_view ?b"
    using ht by (simp add: cb_view_def h upt_conv_Cons)
  then have "cb_view ?b = ys" using ne by simp
  moreover have "cb_inv n ?b" using inv ht by (auto simp: cb_inv_def word_le_nat_alt h cb_size_def)
  ultimately show ?thesis using cb_emptyD[OF inv] ne by (simp add: cb_pop_front_def cb_size_def)
qed

interpretation cb: bounded_queue cb_inv cb_view cb_size cb_push_back cb_pop_front
proof (unfold_locales, goal_cases)
  case (1 n q) then show ?case by (simp add: cb_inv_def)
next
  case (2 n q x) then show ?case using cb_push_law[OF 2, of x] by blast
next
  case (3 n q x) then show ?case by (simp add: cb_push_back_def cb_fullD)
next
  case (4 n q y ys) then show ?case using cb_pop_law[OF 4] by blast
next
  case (5 n q) then show ?case by (simp add: cb_pop_front_def cb_emptyD)
qed

lemma cb_new_inv: "n < 2 ^ 64 \<Longrightarrow> cb_inv n (circular_buffer_new d N)" "cb_view (circular_buffer_new d N) = []"
  "cb_size (circular_buffer_new d N) = N"
  by (simp_all add: cb_inv_def circular_buffer_new_def cb_view_def cb_size_def)

text \<open>C35: for fewer than \<open>2 ^ 64\<close> operations the circular buffer is a queue bounded by its size: it holds the pushed
  and not yet popped elements in order, and an assertion fails exactly on a push to a full or a pop from an empty queue.\<close>

theorem circular_buffer_refines_fifo:
  assumes "length es < 2 ^ 64"
  shows "map_option cb_view (queue_run cb_push_back cb_pop_front es (circular_buffer_new d N)) = fifo_run N es []"
  using cb.run_refines[of es "circular_buffer_new d N"] assms by (simp add: cb_new_inv)

lemma circular_buffer_refines_fifo_witness:
  "map_option cb_view (queue_run cb_push_back cb_pop_front [Push (7::int), Push 8, Pop, Push 9] (circular_buffer_new 0 2)) =
     Some [8, 9]"
  using circular_buffer_refines_fifo[of "[Push (7::int), Push 8, Pop, Push 9]" 0 2] by simp

text \<open>The ends of the buffer.\<close>

lemma cb_ends:
  assumes inv: "cb_inv n b" and ne: "cb_view b \<noteq> []"
  shows "cb_front b = hd (cb_view b)" "cb_back b = last (cb_view b)"
proof -
  have ht: "unat (cb_head b) < unat (cb_tail b)" using ne by (auto simp: cb_view_def)
  then have "unat (cb_tail b - 1) = unat (cb_tail b) - 1" by (subst unat_minus_one) auto
  with ht show "cb_front b = hd (cb_view b)" "cb_back b = last (cb_view b)"
    by (simp_all add: cb_front_def cb_back_def cb_at_def cb_index_def cb_view_def hd_map last_map)
qed

lemma cb_deref:
  assumes inv: "cb_inv n b" and k: "k < length (cb_view b)"
  shows "cb_at b (it_add (cb_head b) (int k)) = cb_view b ! k"
proof -
  have "unat (cb_head b) + k < unat (cb_tail b)" using k by (simp add: cb_view_def)
  then have "unat (cb_head b + of_nat k) = unat (cb_head b) + k"
    using unsigned_less[of "cb_tail b", where ?'a = nat] by (simp add: unat_word_ariths unat_of_nat)
  with k show ?thesis by (simp add: cb_at_def cb_index_def cb_view_def it_add_def)
qed

text \<open>
  The order of the iterators does not depend on the counters having wrapped: it is the order of the
  offsets from any base, for offsets below \<open>2 ^ 63\<close>.
\<close>

lemma it_diff_offsets:
  assumes "i < 2 ^ 63" "j < 2 ^ 63"
  shows "it_diff (it_add p (int i)) (it_add p (int j)) = int i - int j"
proof -
  have "it_diff (it_add p (int i)) (it_add p (int j)) = sint (of_int (int i - int j) :: u64)"
    by (simp add: it_add_def it_diff_def)
  moreover have "- (2 ^ 63) \<le> int i - int j" "int i - int j < 2 ^ 63"
    using assms[unfolded of_nat_less_iff[symmetric, where ?'a = int]] by simp_all
  ultimately show ?thesis
    by (simp only: sint_sbintrunc') (simp add: signed_take_bit_int_eq_self)
qed

text \<open>Iterators into a buffer of at most \<open>2 ^ 63\<close> elements compare like their offsets, whatever the counters are:
  \<open><\<close>, \<open>==\<close> and the difference are those of the offsets, also across a wrap of the 64-bit counter.\<close>

theorem iterator_order:
  assumes "i < 2 ^ 63" "j < 2 ^ 63"
  shows "(it_less (it_add p (int i)) (it_add p (int j)) = (i < j)) \<and>
    (it_eq (it_add p (int i)) (it_add p (int j)) = (i = j)) \<and>
    it_diff (it_add p (int i)) (it_add p (int j)) = int i - int j"
  using assms by (auto simp: it_less_def it_eq_def it_diff_offsets)

lemma iterator_order_witness:
  "it_less (it_add (- 1) 0) (it_add (- 1) 3) \<and> \<not> it_eq (it_add (- 1) 0) (it_add (- 1) 3)"
  using iterator_order[of 0 3 "- 1"] by simp

end
