(* ===== verification/DelayQueue.thy ===== *)
theory DelayQueue
  imports CircularBuffer
begin

text \<open>
  The queue of \<^verbatim>\<open>inc/delay_queue.hpp\<close>, whose elements become visible after a fixed number of cycles: two
  circular buffers, of the elements and of the cycles left, and the iterator \<open>end_ready\<close>. The delays are
  unbounded integers: a \<^verbatim>\<open>long long\<close> would need \<open>2 ^ 63\<close> cycles to overflow.
\<close>

section \<open>Operations\<close>

record 'a delay_queue =
  dq_sz :: nat
  dq_buf :: "'a circular_buffer"
  dq_delays :: "int circular_buffer"
  dq_latency :: int
  dq_end_ready :: u64

definition delay_queue_new :: "'a \<Rightarrow> nat \<Rightarrow> u32 \<Rightarrow> 'a delay_queue" where
  "delay_queue_new d N latency =
     \<lparr>dq_sz = N, dq_buf = circular_buffer_new d N, dq_delays = circular_buffer_new 0 N,
      dq_latency = uint latency, dq_end_ready = cb_tail (circular_buffer_new d N)\<rparr>"

definition dq_has_ready :: "'a delay_queue \<Rightarrow> bool" where
  "dq_has_ready q \<longleftrightarrow> \<not> it_eq (cb_head (dq_buf q)) (dq_end_ready q)"

definition dq_full :: "'a delay_queue \<Rightarrow> bool" where "dq_full q \<longleftrightarrow> cb_full (dq_buf q)"

definition dq_empty :: "'a delay_queue \<Rightarrow> bool" where "dq_empty q \<longleftrightarrow> occupancy (dq_buf q) = 0"

definition dq_front :: "'a delay_queue \<Rightarrow> 'a" where "dq_front q = cb_front (dq_buf q)"

definition dq_push_delayed :: "int \<Rightarrow> 'a \<Rightarrow> 'a delay_queue \<Rightarrow> 'a delay_queue option" where
  "dq_push_delayed d x q =
     (case cb_push_back x (dq_buf q) of
        None \<Rightarrow> None
      | Some b \<Rightarrow> map_option (\<lambda>ds. q\<lparr>dq_buf := b, dq_delays := ds\<rparr>) (cb_push_back d (dq_delays q)))"

definition dq_push_back :: "'a \<Rightarrow> 'a delay_queue \<Rightarrow> 'a delay_queue option" where
  "dq_push_back x q = dq_push_delayed (dq_latency q) x q"

definition dq_push_back_ready :: "'a \<Rightarrow> 'a delay_queue \<Rightarrow> 'a delay_queue option" where
  "dq_push_back_ready x q = dq_push_delayed 0 x q"

definition dq_pop_front :: "'a delay_queue \<Rightarrow> 'a delay_queue option" where
  "dq_pop_front q =
     (case cb_pop_front (dq_buf q) of
        None \<Rightarrow> None
      | Some b \<Rightarrow> map_option (\<lambda>ds. q\<lparr>dq_buf := b, dq_delays := ds\<rparr>) (cb_pop_front (dq_delays q)))"

text \<open>\<^verbatim>\<open>clear\<close> empties the elements only.\<close>

definition dq_clear :: "'a delay_queue \<Rightarrow> 'a delay_queue" where
  "dq_clear q = q\<lparr>dq_buf := cb_clear (dq_buf q)\<rparr>"

text \<open>The bisection of \<^verbatim>\<open>std::partition_point\<close>, over offsets.\<close>

function partition_point :: "(nat \<Rightarrow> bool) \<Rightarrow> nat \<Rightarrow> nat \<Rightarrow> nat" where
  "partition_point P first len =
     (if len = 0 then first
      else let half = len div 2
           in if P (first + half) then partition_point P (first + half + 1) (len - half - 1)
              else partition_point P first half)"
  by pat_completeness auto

termination partition_point
  by (relation "measure (\<lambda>(_, _, len). len)") auto

declare partition_point.simps [simp del]

text \<open>The loop over the delays, then the first element that is not ready.\<close>

definition cb_modify :: "u64 \<Rightarrow> ('a \<Rightarrow> 'a) \<Rightarrow> 'a circular_buffer \<Rightarrow> 'a circular_buffer" where
  "cb_modify p f b = b\<lparr>cb_entry := (cb_entry b)[cb_index b p := f (cb_at b p)]\<rparr>"

definition cb_for_each :: "('a \<Rightarrow> 'a) \<Rightarrow> 'a circular_buffer \<Rightarrow> 'a circular_buffer" where
  "cb_for_each f b = foldl (\<lambda>b' k. cb_modify (it_add (cb_head b) (int k)) f b') b [0..<unat (occupancy b)]"

definition dq_operate :: "'a delay_queue \<Rightarrow> 'a delay_queue" where
  "dq_operate q =
     (let ds = cb_for_each (\<lambda>x. x - 1) (dq_delays q);
          n = partition_point (\<lambda>k. cb_at ds (it_add (cb_head ds) (int k)) \<le> 0) 0 (unat (occupancy ds))
      in q\<lparr>dq_delays := ds, dq_end_ready := it_add (cb_head (dq_buf q)) (int n)\<rparr>)"

section \<open>Loops over a buffer\<close>

lemma mod_window_neq:
  assumes "h + i \<noteq> h + k" "i < n" "k < n" "n \<le> (N :: nat)"
  shows "(h + i) mod N \<noteq> (h + k) mod N"
proof (cases "i < k")
  case True
  then show ?thesis using mod_window_inj[of h "h + i" "h + k" N] assms by simp
next
  case False
  then show ?thesis using mod_window_inj[of h "h + k" "h + i" N] assms by simp
qed

lemma cb_offset:
  assumes inv: "cb_inv n b" and k: "k < length (cb_view b)"
  shows "cb_index b (it_add (cb_head b) (int k)) = (unat (cb_head b) + k) mod length (cb_entry b)"
proof -
  have "unat (cb_head b) + k < unat (cb_tail b)" using k by (simp add: cb_view_def)
  then have "unat (cb_head b + of_nat k) = unat (cb_head b) + k"
    using unsigned_less[of "cb_tail b", where ?'a = nat] by (simp add: unat_word_ariths unat_of_nat)
  then show ?thesis by (simp add: cb_index_def it_add_def)
qed

lemma cb_view_nth: "k < length (cb_view b) \<Longrightarrow> cb_view b ! k = cb_entry b ! ((unat (cb_head b) + k) mod length (cb_entry b))"
  by (simp add: cb_view_def)

lemma cb_modify_law:
  fixes f :: "'a \<Rightarrow> 'a" and b :: "'a circular_buffer"
  assumes inv: "cb_inv n b" and k: "k < length (cb_view b)"
  defines "b' \<equiv> cb_modify (it_add (cb_head b) (int k)) f b"
  shows "cb_inv n b'" "cb_view b' = (cb_view b)[k := f (cb_view b ! k)]" "cb_size b' = cb_size b"
    "cb_head b' = cb_head b" "cb_tail b' = cb_tail b"
proof -
  show ends: "cb_size b' = cb_size b" "cb_head b' = cb_head b" "cb_tail b' = cb_tail b"
    by (simp_all add: b'_def cb_modify_def cb_size_def)
  show "cb_inv n b'" using inv by (simp add: cb_inv_def ends)
  have N: "length (cb_view b) \<le> length (cb_entry b)" using cb_inv_length[OF inv] by (simp add: cb_size_def)
  then have pos: "0 < length (cb_entry b)" using k by linarith
  have len: "length (cb_view b') = length (cb_view b)" "length (cb_entry b') = length (cb_entry b)"
    by (simp_all add: cb_view_def ends b'_def cb_modify_def)
  show "cb_view b' = (cb_view b)[k := f (cb_view b ! k)]"
  proof (rule nth_equalityI)
    fix i assume "i < length (cb_view b')"
    then have i: "i < length (cb_view b)" by (simp add: len)
    have e: "cb_entry b' = (cb_entry b)[(unat (cb_head b) + k) mod length (cb_entry b) := f (cb_view b ! k)]"
      using cb_deref[OF inv k] cb_offset[OF inv k] by (simp add: b'_def cb_modify_def)
    have "cb_view b' ! i = cb_entry b' ! ((unat (cb_head b) + i) mod length (cb_entry b))"
      using cb_view_nth[of i b'] i by (simp add: len ends)
    also have "\<dots> = (cb_view b)[k := f (cb_view b ! k)] ! i"
    proof (cases "i = k")
      case True
      with k pos show ?thesis by (simp add: e)
    next
      case False
      with mod_window_neq[of "unat (cb_head b)" k i, OF _ k i N] show ?thesis by (simp add: e cb_view_nth[OF i])
    qed
    finally show "cb_view b' ! i = (cb_view b)[k := f (cb_view b ! k)] ! i" .
  qed (simp add: len)
qed

lemma cb_for_each_law:
  assumes inv: "cb_inv n b"
  shows "cb_inv n (cb_for_each f b)" "cb_view (cb_for_each f b) = map f (cb_view b)"
    "cb_size (cb_for_each f b) = cb_size b" "cb_head (cb_for_each f b) = cb_head b" "cb_tail (cb_for_each f b) = cb_tail b"
proof -
  let ?g = "\<lambda>j. foldl (\<lambda>b' k. cb_modify (it_add (cb_head b) (int k)) f b') b [0..<j]"
  have step: "cb_inv n (?g j) \<and> cb_view (?g j) = map f (take j (cb_view b)) @ drop j (cb_view b) \<and>
      cb_size (?g j) = cb_size b \<and> cb_head (?g j) = cb_head b \<and> cb_tail (?g j) = cb_tail b"
    if "j \<le> length (cb_view b)" for j
    using that
  proof (induction j)
    case 0
    with inv show ?case by simp
  next
    case (Suc j)
    then have IH: "cb_inv n (?g j)" "cb_view (?g j) = map f (take j (cb_view b)) @ drop j (cb_view b)"
      "cb_size (?g j) = cb_size b" "cb_head (?g j) = cb_head b" "cb_tail (?g j) = cb_tail b" by simp_all
    have j: "j < length (cb_view (?g j))" using Suc.prems IH(2) by simp
    note m = cb_modify_law[OF IH(1) j, of f, unfolded IH(4)]
    have "(cb_view (?g j))[j := f (cb_view (?g j) ! j)] = map f (take (Suc j) (cb_view b)) @ drop (Suc j) (cb_view b)"
      using Suc.prems by (simp add: IH(2) nth_append take_Suc_conv_app_nth list_update_append Cons_nth_drop_Suc[symmetric])
    with m IH show ?case by simp
  qed
  show "cb_inv n (cb_for_each f b)" "cb_view (cb_for_each f b) = map f (cb_view b)"
    "cb_size (cb_for_each f b) = cb_size b" "cb_head (cb_for_each f b) = cb_head b" "cb_tail (cb_for_each f b) = cb_tail b"
    using step[of "length (cb_view b)"] by (simp_all add: cb_for_each_def cb_inv_occupancy[OF inv])
qed

text \<open>The bisection finds the border of a partitioned range.\<close>

lemma partition_point_border:
  assumes "m \<le> len" "\<And>i. i < m \<Longrightarrow> P (first + i)" "\<And>i. m \<le> i \<Longrightarrow> i < len \<Longrightarrow> \<not> P (first + i)"
  shows "partition_point P first len = first + m"
  using assms
proof (induction P first len arbitrary: m rule: partition_point.induct)
  case (1 P first len)
  show ?case
  proof (cases "len = 0")
    case True
    with 1 show ?thesis by (simp add: partition_point.simps)
  next
    case False
    define half where "half = len div 2"
    have h: "half < len" using False by (simp add: half_def)
    show ?thesis
    proof (cases "P (first + half)")
      case True
      then have "half < m" using 1(5)[of half] h by (meson not_le)
      have "partition_point P (first + half + 1) (len - half - 1) = first + half + 1 + (m - half - 1)"
      proof (rule 1(1)[OF False half_def True])
        show "m - half - 1 \<le> len - half - 1" using 1(3) by simp
        show "P (first + half + 1 + i)" if "i < m - half - 1" for i using 1(4)[of "half + 1 + i"] that by (simp add: ac_simps)
        show "\<not> P (first + half + 1 + i)" if "m - half - 1 \<le> i" "i < len - half - 1" for i
          using 1(5)[of "half + 1 + i"] that by (simp add: ac_simps)
      qed
      with True False \<open>half < m\<close> show ?thesis by (subst partition_point.simps) (simp add: half_def[symmetric])
    next
      case nP: False
      then have "m \<le> half" using 1(4)[of half] by (meson not_le)
      have "partition_point P first half = first + m"
      proof (rule 1(2)[OF False half_def nP \<open>m \<le> half\<close>])
        show "P (first + i)" if "i < m" for i using 1(4) that by simp
        show "\<not> P (first + i)" if "m \<le> i" "i < half" for i using 1(5) that h by simp
      qed
      with nP False show ?thesis by (subst partition_point.simps) (simp add: half_def[symmetric])
    qed
  qed
qed

lemma partition_point_sorted:
  assumes "sorted ds" "\<And>i. i < length ds \<Longrightarrow> P i \<longleftrightarrow> ds ! i \<le> (0 :: int)"
  shows "partition_point P 0 (length ds) = length (takeWhile (\<lambda>d. d \<le> 0) ds)"
proof -
  let ?m = "length (takeWhile (\<lambda>d. d \<le> 0) ds)"
  have "partition_point P 0 (length ds) = 0 + ?m"
  proof (rule partition_point_border)
    show m: "?m \<le> length ds" by (rule length_takeWhile_le)
    show "P (0 + i)" if "i < ?m" for i
      using that m assms(2)[of i] nth_mem[OF that] by (auto simp: takeWhile_nth dest: set_takeWhileD)
    show "\<not> P (0 + i)" if "?m \<le> i" "i < length ds" for i
    proof -
      have "?m < length ds" using that by simp
      then have "\<not> ds ! ?m \<le> 0" using nth_length_takeWhile[of "\<lambda>d. d \<le> 0" ds] by blast
      moreover have "ds ! ?m \<le> ds ! i" by (rule sorted_nth_mono[OF assms(1) that])
      ultimately show ?thesis using assms(2) that by simp
    qed
  qed
  then show ?thesis by simp
qed

section \<open>The queue without its clock\<close>

definition dq_view :: "'a delay_queue \<Rightarrow> 'a list" where "dq_view q = cb_view (dq_buf q)"

text \<open>The two buffers move together; \<open>n\<close> further pushes stay below \<open>2 ^ 63\<close>, where the iterators compare.\<close>

definition dq_base :: "nat \<Rightarrow> 'a delay_queue \<Rightarrow> bool" where
  "dq_base n q \<longleftrightarrow> cb_inv n (dq_buf q) \<and> cb_inv n (dq_delays q) \<and>
     cb_head (dq_delays q) = cb_head (dq_buf q) \<and> cb_tail (dq_delays q) = cb_tail (dq_buf q) \<and>
     cb_size (dq_delays q) = cb_size (dq_buf q) \<and> unat (cb_tail (dq_buf q)) + n < 2 ^ 63"

lemma dq_baseD:
  assumes "dq_base n q"
  shows "cb_inv n (dq_buf q)" "cb_inv n (dq_delays q)" "length (cb_view (dq_delays q)) = length (dq_view q)"
    "cb_head (dq_delays q) = cb_head (dq_buf q)" "cb_tail (dq_delays q) = cb_tail (dq_buf q)"
    "cb_size (dq_delays q) = cb_size (dq_buf q)" "length (dq_view q) < 2 ^ 63"
  using assms by (auto simp: dq_base_def dq_view_def cb_view_def)

lemma dq_push_delayed_law:
  assumes "dq_base (Suc n) q" "length (dq_view q) < cb_size (dq_buf q)"
  shows "\<exists>q'. dq_push_delayed d x q = Some q' \<and> dq_base n q' \<and> dq_view q' = dq_view q @ [x] \<and>
    cb_view (dq_delays q') = cb_view (dq_delays q) @ [d] \<and> cb_size (dq_buf q') = cb_size (dq_buf q) \<and>
    cb_head (dq_buf q') = cb_head (dq_buf q) \<and> dq_end_ready q' = dq_end_ready q \<and> dq_latency q' = dq_latency q"
proof -
  note b = dq_baseD[OF assms(1)]
  obtain b' where b': "cb_push_back x (dq_buf q) = Some b'" "cb_inv n b'" "cb_view b' = dq_view q @ [x]"
    "cb_size b' = cb_size (dq_buf q)" "cb_head b' = cb_head (dq_buf q)" "cb_tail b' = cb_tail (dq_buf q) + 1"
    using cb_push_law[OF b(1), of x] assms(2) by (auto simp: dq_view_def)
  obtain ds where ds: "cb_push_back d (dq_delays q) = Some ds" "cb_inv n ds" "cb_view ds = cb_view (dq_delays q) @ [d]"
    "cb_size ds = cb_size (dq_delays q)" "cb_head ds = cb_head (dq_delays q)" "cb_tail ds = cb_tail (dq_delays q) + 1"
    using cb_push_law[OF b(2), of d] assms(2) b(3,6) by auto
  have "unat (cb_tail b') + n < 2 ^ 63"
    using unat_Suc[of "cb_tail (dq_buf q)" n] assms(1) by (simp add: dq_base_def b'(6))
  then have "dq_base n (q\<lparr>dq_buf := b', dq_delays := ds\<rparr>)" using b b' ds by (simp add: dq_base_def)
  with b' ds show ?thesis by (simp add: dq_push_delayed_def dq_view_def)
qed

lemma dq_push_delayed_full:
  assumes "dq_base n q" "\<not> length (dq_view q) < cb_size (dq_buf q)"
  shows "dq_push_delayed d x q = None"
  using cb.push_full[OF dq_baseD(1)[OF assms(1)] assms(2)[unfolded dq_view_def], of x] by (simp add: dq_push_delayed_def)

lemma dq_pop_law:
  assumes "dq_base n q" "dq_view q = y # ys"
  shows "\<exists>q'. dq_pop_front q = Some q' \<and> dq_base n q' \<and> dq_view q' = ys \<and>
    cb_view (dq_delays q') = tl (cb_view (dq_delays q)) \<and> cb_size (dq_buf q') = cb_size (dq_buf q) \<and>
    cb_head (dq_buf q') = cb_head (dq_buf q) + 1 \<and> dq_end_ready q' = dq_end_ready q \<and> dq_latency q' = dq_latency q"
proof -
  note b = dq_baseD[OF assms(1)]
  obtain d ds' where d: "cb_view (dq_delays q) = d # ds'" using b(3) assms(2) by (cases "cb_view (dq_delays q)") auto
  obtain b' where b': "cb_pop_front (dq_buf q) = Some b'" "cb_inv n b'" "cb_view b' = ys"
    "cb_size b' = cb_size (dq_buf q)" "cb_head b' = cb_head (dq_buf q) + 1" "cb_tail b' = cb_tail (dq_buf q)"
    using cb_pop_law[OF b(1), of y ys] assms(2) by (auto simp: dq_view_def)
  obtain ds where ds: "cb_pop_front (dq_delays q) = Some ds" "cb_inv n ds" "cb_view ds = ds'"
    "cb_size ds = cb_size (dq_delays q)" "cb_head ds = cb_head (dq_delays q) + 1" "cb_tail ds = cb_tail (dq_delays q)"
    using cb_pop_law[OF b(2) d] by auto
  have "dq_base n (q\<lparr>dq_buf := b', dq_delays := ds\<rparr>)" using assms(1) b b' ds by (simp add: dq_base_def)
  with b' ds d show ?thesis by (simp add: dq_pop_front_def dq_view_def)
qed

interpretation dq: bounded_queue dq_base dq_view "\<lambda>q. cb_size (dq_buf q)" dq_push_back dq_pop_front
proof (unfold_locales, goal_cases)
  case (1 n q) then show ?case by (auto simp: dq_base_def cb_inv_def)
next
  case (2 n q x) then show ?case using dq_push_delayed_law[OF 2, of "dq_latency q" x] by (auto simp: dq_push_back_def)
next
  case (3 n q x) then show ?case by (simp add: dq_push_back_def dq_push_delayed_full)
next
  case (4 n q y ys) then show ?case using dq_pop_law[OF 4] by blast
next
  case (5 n q) then show ?case using cb.pop_empty[OF dq_baseD(1)[OF 5(1)]] by (simp add: dq_pop_front_def dq_view_def)
qed

section \<open>The clocked queue\<close>

text \<open>
  The client of the queue pushes, releases the front element if one is ready, and calls \<open>operate\<close> once a
  cycle. The abstract machine keeps every element with the cycles left, and the number of ready ones.
\<close>

datatype 'a dq_event = DqPush 'a | DqRelease | DqCycle

fun dq_step :: "'a dq_event \<Rightarrow> 'a delay_queue \<Rightarrow> 'a delay_queue option" where
  "dq_step (DqPush x) q = dq_push_back x q"
| "dq_step DqRelease q = (if dq_has_ready q then dq_pop_front q else Some q)"
| "dq_step DqCycle q = Some (dq_operate q)"

fun dq_run :: "'a dq_event list \<Rightarrow> 'a delay_queue \<Rightarrow> 'a delay_queue option" where
  "dq_run [] q = Some q"
| "dq_run (e # es) q = Option.bind (dq_step e q) (dq_run es)"

type_synonym 'a timed = "('a \<times> int) list \<times> nat"

fun timed_step :: "nat \<Rightarrow> int \<Rightarrow> 'a dq_event \<Rightarrow> 'a timed \<Rightarrow> 'a timed option" where
  "timed_step N L (DqPush x) (xs, r) = (if length xs < N then Some (xs @ [(x, L)], r) else None)"
| "timed_step N L DqRelease (xs, r) = Some (if 0 < r then (tl xs, r - 1) else (xs, r))"
| "timed_step N L DqCycle (xs, r) =
     (let ys = map (\<lambda>(x, d). (x, d - 1)) xs in Some (ys, length (takeWhile (\<lambda>(x, d). d \<le> 0) ys)))"

fun timed_run :: "nat \<Rightarrow> int \<Rightarrow> 'a dq_event list \<Rightarrow> 'a timed \<Rightarrow> 'a timed option" where
  "timed_run N L [] s = Some s"
| "timed_run N L (e # es) s = Option.bind (timed_step N L e s) (timed_run N L es)"

definition dq_ready :: "'a delay_queue \<Rightarrow> nat" where
  "dq_ready q = unat (dq_end_ready q - cb_head (dq_buf q))"

definition dq_abs :: "'a delay_queue \<Rightarrow> 'a timed" where
  "dq_abs q = (zip (dq_view q) (cb_view (dq_delays q)), dq_ready q)"

definition dq_inv :: "nat \<Rightarrow> 'a delay_queue \<Rightarrow> bool" where
  "dq_inv n q \<longleftrightarrow> dq_base n q \<and> dq_ready q \<le> length (dq_view q) \<and>
     sorted (cb_view (dq_delays q)) \<and> (\<forall>d\<in>set (cb_view (dq_delays q)). d \<le> dq_latency q)"

lemma dq_has_ready_iff:
  assumes "dq_base n q" "dq_ready q \<le> length (dq_view q)"
  shows "dq_has_ready q \<longleftrightarrow> 0 < dq_ready q"
proof -
  have "dq_end_ready q = it_add (cb_head (dq_buf q)) (int (dq_ready q))" by (simp add: it_add_def dq_ready_def)
  moreover have "dq_ready q < 2 ^ 63" using assms(2) dq_baseD(7)[OF assms(1)] by simp
  moreover have "cb_head (dq_buf q) = it_add (cb_head (dq_buf q)) (int 0)" by (simp add: it_add_def)
  ultimately show ?thesis
    using it_diff_offsets[of "dq_ready q" 0 "cb_head (dq_buf q)"] it_diff_offsets[of 0 "dq_ready q" "cb_head (dq_buf q)"]
    by (simp add: dq_has_ready_def it_eq_def it_less_def)
qed

lemma dq_operate_law:
  assumes "dq_inv n q"
  shows "dq_inv n (dq_operate q)" "timed_step N L DqCycle (dq_abs q) = Some (dq_abs (dq_operate q))"
    "dq_view (dq_operate q) = dq_view q" "cb_view (dq_delays (dq_operate q)) = map (\<lambda>x. x - 1) (cb_view (dq_delays q))"
    "dq_ready (dq_operate q) = length (takeWhile (\<lambda>d. d \<le> 0) (cb_view (dq_delays (dq_operate q))))"
    "cb_size (dq_buf (dq_operate q)) = cb_size (dq_buf q)" "dq_latency (dq_operate q) = dq_latency q"
proof -
  have base: "dq_base n q" and srt: "sorted (cb_view (dq_delays q))"
    and lat: "\<forall>d\<in>set (cb_view (dq_delays q)). d \<le> dq_latency q" using assms by (simp_all add: dq_inv_def)
  note b = dq_baseD[OF base]
  let ?ds = "cb_for_each (\<lambda>x. x - 1) (dq_delays q)"
  note f = cb_for_each_law[OF b(2), of "\<lambda>x. x - 1"]
  have "sorted (map (\<lambda>x. x - 1) xs)" if "sorted xs" for xs :: "int list" using that by (induction xs) auto
  then have srt': "sorted (cb_view ?ds)" using srt by (simp only: f)
  let ?r = "length (takeWhile (\<lambda>d. d \<le> 0) (cb_view ?ds))"
  have pp: "partition_point (\<lambda>k. cb_at ?ds (it_add (cb_head ?ds) (int k)) \<le> 0) 0 (unat (occupancy ?ds)) = ?r"
    unfolding cb_inv_occupancy[OF f(1)]
    by (rule partition_point_sorted[OF srt']) (simp add: cb_deref[OF f(1)])
  have r: "?r \<le> length (dq_view q)" using length_takeWhile_le[of _ "cb_view ?ds"] f(2) b(3) by (metis length_map)
  have op: "dq_operate q = q\<lparr>dq_delays := ?ds, dq_end_ready := it_add (cb_head (dq_buf q)) (int ?r)\<rparr>"
    by (simp only: dq_operate_def Let_def pp)
  show v: "dq_view (dq_operate q) = dq_view q" "cb_view (dq_delays (dq_operate q)) = map (\<lambda>x. x - 1) (cb_view (dq_delays q))"
    "cb_size (dq_buf (dq_operate q)) = cb_size (dq_buf q)" "dq_latency (dq_operate q) = dq_latency q"
    by (simp_all add: op dq_view_def f)
  have "?r < 2 ^ 64" using r b(7) by simp
  then show ready: "dq_ready (dq_operate q) = length (takeWhile (\<lambda>d. d \<le> 0) (cb_view (dq_delays (dq_operate q))))"
    by (simp add: op dq_ready_def it_add_def unat_of_nat)
  have "dq_base n (dq_operate q)" using base f by (simp add: op dq_base_def)
  moreover have "\<forall>d\<in>set (cb_view (dq_delays (dq_operate q))). d \<le> dq_latency (dq_operate q)" using lat by (force simp: v)
  moreover have "sorted (cb_view (dq_delays (dq_operate q)))" using srt' by (simp add: v f)
  ultimately show "dq_inv n (dq_operate q)" using r by (simp add: dq_inv_def ready v f)
  have z: "zip (dq_view q) (map (\<lambda>x. x - 1) (cb_view (dq_delays q))) =
      map (\<lambda>(x, d). (x, d - 1)) (zip (dq_view q) (cb_view (dq_delays q)))"
    by (simp add: zip_map2)
  have tw: "length (takeWhile (\<lambda>(x, d). d \<le> 0) (zip xs ys)) = length (takeWhile (\<lambda>d. d \<le> (0 :: int)) ys)"
    if "length xs = length ys" for xs :: "'a list" and ys
    using that by (induction xs ys rule: list_induct2) auto
  show "timed_step N L DqCycle (dq_abs q) = Some (dq_abs (dq_operate q))"
    using tw[of "dq_view q" "map (\<lambda>x. x - 1) (cb_view (dq_delays q))"] b(3)
    by (simp add: dq_abs_def ready v z Let_def)
qed

lemma dq_step_law:
  assumes "dq_inv (Suc n) q"
  shows "case timed_step (cb_size (dq_buf q)) (dq_latency q) e (dq_abs q) of
      None \<Rightarrow> dq_step e q = None
    | Some s \<Rightarrow> \<exists>q'. dq_step e q = Some q' \<and> dq_abs q' = s \<and> dq_inv n q' \<and> cb_size (dq_buf q') = cb_size (dq_buf q) \<and>
        dq_latency q' = dq_latency q"
proof -
  have base: "dq_base (Suc n) q" and r: "dq_ready q \<le> length (dq_view q)" and srt: "sorted (cb_view (dq_delays q))"
    and lat: "\<forall>d\<in>set (cb_view (dq_delays q)). d \<le> dq_latency q" using assms by (simp_all add: dq_inv_def)
  note b = dq_baseD[OF base]
  have base': "dq_base n q" using dq.inv_less[OF base] .
  have inv': "dq_inv n q" using assms base' by (simp add: dq_inv_def)
  show ?thesis
  proof (cases e)
    case (DqPush x)
    show ?thesis
    proof (cases "length (dq_view q) < cb_size (dq_buf q)")
      case False
      with dq_push_delayed_full[OF base this] DqPush b(3) show ?thesis by (simp add: dq_push_back_def dq_abs_def)
    next
      case True
      obtain q' where q': "dq_push_back x q = Some q'" "dq_base n q'" "dq_view q' = dq_view q @ [x]"
        "cb_view (dq_delays q') = cb_view (dq_delays q) @ [dq_latency q]" "cb_size (dq_buf q') = cb_size (dq_buf q)"
        "cb_head (dq_buf q') = cb_head (dq_buf q)" "dq_end_ready q' = dq_end_ready q" "dq_latency q' = dq_latency q"
        using dq_push_delayed_law[OF base True, of "dq_latency q" x] by (auto simp: dq_push_back_def)
      have ready: "dq_ready q' = dq_ready q" by (simp add: dq_ready_def q')
      have "dq_inv n q'" using q' r srt lat by (auto simp: dq_inv_def ready sorted_append)
      moreover have "dq_abs q' = (zip (dq_view q) (cb_view (dq_delays q)) @ [(x, dq_latency q)], dq_ready q)"
        using b(3) by (simp add: dq_abs_def q' ready)
      ultimately show ?thesis using DqPush True b(3) q' by (simp add: dq_abs_def)
    qed
  next
    case DqRelease
    show ?thesis
    proof (cases "0 < dq_ready q")
      case False
      with dq_has_ready_iff[OF base r] DqRelease inv' show ?thesis by (simp add: dq_abs_def)
    next
      case True
      then obtain y ys where y: "dq_view q = y # ys" using r by (cases "dq_view q") auto
      obtain d ds where d: "cb_view (dq_delays q) = d # ds" using b(3) y by (cases "cb_view (dq_delays q)") auto
      obtain q' where q': "dq_pop_front q = Some q'" "dq_base n q'" "dq_view q' = ys" "cb_view (dq_delays q') = ds"
        "cb_size (dq_buf q') = cb_size (dq_buf q)" "cb_head (dq_buf q') = cb_head (dq_buf q) + 1"
        "dq_end_ready q' = dq_end_ready q" "dq_latency q' = dq_latency q"
        using dq_pop_law[OF base' y] d by auto
      have "dq_ready q' = unat (dq_end_ready q - cb_head (dq_buf q) - 1)" by (simp add: dq_ready_def q' diff_diff_eq)
      also have "\<dots> = dq_ready q - 1"
        using True by (subst unat_minus_one) (auto simp: dq_ready_def)
      finally have ready: "dq_ready q' = dq_ready q - 1" .
      have "dq_inv n q'" using q' r srt lat y d by (auto simp: dq_inv_def ready)
      with True dq_has_ready_iff[OF base r] DqRelease y d q' show ?thesis by (simp add: dq_abs_def ready)
    qed
  next
    case DqCycle
    with dq_operate_law[OF inv'] show ?thesis by simp
  qed
qed

lemma dq_run_law:
  "dq_inv (length es) q \<Longrightarrow> map_option dq_abs (dq_run es q) = timed_run (cb_size (dq_buf q)) (dq_latency q) es (dq_abs q)"
proof (induction es arbitrary: q)
  case Nil
  show ?case by simp
next
  case (Cons e es)
  from dq_step_law[of "length es" q e] Cons.prems have s: "case timed_step (cb_size (dq_buf q)) (dq_latency q) e (dq_abs q) of
      None \<Rightarrow> dq_step e q = None
    | Some s \<Rightarrow> \<exists>q'. dq_step e q = Some q' \<and> dq_abs q' = s \<and> dq_inv (length es) q' \<and> cb_size (dq_buf q') = cb_size (dq_buf q) \<and>
        dq_latency q' = dq_latency q" by simp
  show ?case
  proof (cases "timed_step (cb_size (dq_buf q)) (dq_latency q) e (dq_abs q)")
    case None
    with s show ?thesis by simp
  next
    case (Some a)
    with s obtain q' where "dq_step e q = Some q'" "dq_abs q' = a" "dq_inv (length es) q'" "cb_size (dq_buf q') = cb_size (dq_buf q)"
        "dq_latency q' = dq_latency q" by auto
    with Cons.IH[of q'] Some show ?thesis by simp
  qed
qed

lemma dq_new_inv: "n < 2 ^ 63 \<Longrightarrow> dq_inv n (delay_queue_new d N L)" "dq_abs (delay_queue_new d N L) = ([], 0)"
  "cb_size (dq_buf (delay_queue_new d N L)) = N" "dq_latency (delay_queue_new d N L) = uint L"
  by (simp_all add: dq_inv_def dq_base_def delay_queue_new_def cb_new_inv dq_view_def dq_ready_def dq_abs_def)
    (simp_all add: circular_buffer_new_def)

section \<open>Properties\<close>

text \<open>C36: for fewer than \<open>2 ^ 63\<close> events (pushes, guarded pops and cycles) the delay queue is the abstract clocked
  queue: the same elements with the same cycles left, the same number of ready elements, failing on
  the same pushes.\<close>

theorem delay_queue_refines_timed:
  assumes "length es < 2 ^ 63"
  shows "map_option dq_abs (dq_run es (delay_queue_new d N L)) = timed_run N (uint L) es ([], 0)"
  using dq_run_law[OF dq_new_inv(1)[OF assms], of d N L] by (simp add: dq_new_inv)

lemma delay_queue_refines_timed_witness:
  "map_option dq_abs (dq_run [DqPush (5::int), DqPush 6, DqCycle, DqRelease, DqCycle, DqRelease] (delay_queue_new 0 4 2)) =
     Some ([(6, 0)], 1)"
  using delay_queue_refines_timed[of "[DqPush (5::int), DqPush 6, DqCycle, DqRelease, DqCycle, DqRelease]" 0 4 2]
  by (simp add: Let_def)

lemma dq_cycles:
  assumes "dq_inv n q"
  shows "\<exists>q'. dq_run (replicate j DqCycle) q = Some q' \<and> dq_inv n q' \<and> dq_view q' = dq_view q \<and>
    cb_view (dq_delays q') = map (\<lambda>x. x - int j) (cb_view (dq_delays q)) \<and>
    (0 < j \<longrightarrow> dq_ready q' = length (takeWhile (\<lambda>d. d \<le> 0) (cb_view (dq_delays q'))))"
proof (induction j)
  case 0
  with assms show ?case by simp
next
  case (Suc j)
  then obtain q' where q': "dq_run (replicate j DqCycle) q = Some q'" "dq_inv n q'" "dq_view q' = dq_view q"
    "cb_view (dq_delays q') = map (\<lambda>x. x - int j) (cb_view (dq_delays q))" by blast
  have "dq_run (es @ [e]) q0 = Option.bind (dq_run es q0) (dq_step e)" for es and e :: "'a dq_event" and q0
  proof (induction es arbitrary: q0)
    case Nil
    show ?case by (cases "dq_step e q0") simp_all
  next
    case (Cons a es)
    then show ?case by (cases "dq_step a q0") simp_all
  qed
  from this[of "replicate j DqCycle" DqCycle q] q'(1) have "dq_run (replicate (Suc j) DqCycle) q = Some (dq_operate q')"
    by (simp add: replicate_append_same)
  moreover note dq_operate_law[OF q'(2)]
  ultimately show ?case by (intro exI[of _ "dq_operate q'"]) (simp add: q' comp_def algebra_simps)
qed

lemma dq_reachable:
  assumes "length es + n < 2 ^ 63" "dq_run es (delay_queue_new d N L) = Some q"
  shows "dq_inv n q \<and> dq_latency q = uint L \<and> cb_size (dq_buf q) = N"
proof -
  have "dq_inv n q \<and> dq_latency q = dq_latency q0 \<and> cb_size (dq_buf q) = cb_size (dq_buf q0)"
    if "dq_inv (length es + n) q0" "dq_run es q0 = Some q" for q0 :: "'a delay_queue"
    using that
  proof (induction es arbitrary: q0)
    case (Cons e es)
    from Cons.prems(2) obtain q1 where q1: "dq_step e q0 = Some q1" "dq_run es q1 = Some q"
      by (auto simp: bind_eq_Some_conv)
    have "dq_inv (length es + n) q1 \<and> dq_latency q1 = dq_latency q0 \<and> cb_size (dq_buf q1) = cb_size (dq_buf q0)"
      using dq_step_law[of "length es + n" q0 e] Cons.prems(1) q1(1) by (auto split: option.splits)
    with Cons.IH[OF _ q1(2)] show ?case by simp
  qed simp
  from this[OF dq_new_inv(1)[OF assms(1)] assms(2)] show ?thesis by (simp add: dq_new_inv)
qed

text \<open>C37: an element pushed on a reachable queue becomes ready after exactly the latency: \<open>j\<close> cycles later (at least one)
  every element of the queue is ready if and only if \<open>j\<close> is not below the latency.\<close>

theorem delay_queue_latency:
  assumes "length es + 1 < 2 ^ 63" "dq_run es (delay_queue_new d N L) = Some q" "dq_push_back x q = Some q1" "0 < j"
  shows "\<exists>q2. dq_run (replicate j DqCycle) q1 = Some q2 \<and> dq_view q2 = dq_view q @ [x] \<and>
    (dq_ready q2 = length (dq_view q2)) = (uint L \<le> int j)"
proof -
  have q: "dq_inv (Suc 0) q" "dq_latency q = uint L" using dq_reachable[of es "Suc 0" d N L q] assms(1,2) by simp_all
  have base: "dq_base (Suc 0) q" using q(1) by (simp add: dq_inv_def)
  have room: "length (dq_view q) < cb_size (dq_buf q)"
    using dq.push_full[OF base, of x] assms(3) by auto
  have q1: "dq_view q1 = dq_view q @ [x]" "cb_view (dq_delays q1) = cb_view (dq_delays q) @ [uint L]"
    using dq_push_delayed_law[OF base room, of "uint L" x] assms(3) q(2) by (auto simp: dq_push_back_def)
  have "dq_inv 0 q1"
    using dq_step_law[OF q(1), of "DqPush x"] assms(3) by (auto split: option.splits)
  from dq_cycles[OF this, of j] assms(4) obtain q2 where q2: "dq_run (replicate j DqCycle) q1 = Some q2" "dq_inv 0 q2"
    "dq_view q2 = dq_view q1" "cb_view (dq_delays q2) = map (\<lambda>x. x - int j) (cb_view (dq_delays q1))"
    "dq_ready q2 = length (takeWhile (\<lambda>d. d \<le> 0) (cb_view (dq_delays q2)))" by auto
  let ?ds = "cb_view (dq_delays q2)"
  have ds: "?ds = map (\<lambda>x. x - int j) (cb_view (dq_delays q)) @ [uint L - int j]" by (simp add: q2 q1)
  have len: "length (dq_view q2) = length ?ds"
    using q2(2) dq_baseD(3) by (metis dq_inv_def)
  have tw: "length (takeWhile P xs) = length xs \<longleftrightarrow> (\<forall>d\<in>set xs. P d)" for P and xs :: "int list"
    by (induction xs) auto
  have "(\<forall>d\<in>set ?ds. d \<le> 0) \<longleftrightarrow> uint L \<le> int j"
  proof
    assume "uint L \<le> int j"
    moreover have "\<forall>d\<in>set (cb_view (dq_delays q)). d \<le> uint L" using q by (simp add: dq_inv_def)
    ultimately show "\<forall>d\<in>set ?ds. d \<le> 0" by (force simp: ds)
  qed (simp add: ds)
  then have "(dq_ready q2 = length (dq_view q2)) = (uint L \<le> int j)" by (simp only: q2(5) len tw)
  with q2(1,3) q1(1) show ?thesis by auto
qed

lemma dq_demo_run:
  "case dq_run [DqPush (5::int), DqCycle] (delay_queue_new 0 4 2) of
     None \<Rightarrow> False
   | Some q \<Rightarrow> (case dq_push_back 6 q of None \<Rightarrow> False | Some q1 \<Rightarrow> True)"
  by code_simp

lemma delay_queue_latency_witness:
  "\<exists>q q1 q2. dq_run [DqPush (5::int), DqCycle] (delay_queue_new 0 4 2) = Some q \<and> dq_push_back 6 q = Some q1 \<and>
     dq_run (replicate 2 DqCycle) q1 = Some q2 \<and> dq_ready q2 = length (dq_view q2)"
proof -
  obtain q q1 where q: "dq_run [DqPush (5::int), DqCycle] (delay_queue_new 0 4 2) = Some q" "dq_push_back 6 q = Some q1"
    using dq_demo_run by (auto split: option.splits)
  from delay_queue_latency[OF _ q, of 2] show ?thesis using q by auto
qed

text \<open>\<open>clear\<close> leaves the delays behind: after clearing a full queue it reports itself empty, and yet every push fails its
  assertion.\<close>

theorem delay_queue_clear_desynchronises:
  assumes "dq_base n q" "dq_full q" "0 < cb_size (dq_buf q)"
  shows "dq_empty (dq_clear q) \<and> \<not> dq_full (dq_clear q) \<and> dq_push_back x (dq_clear q) = None"
proof -
  note b = dq_baseD[OF assms(1)]
  have "cb_full (dq_delays q)"
    using assms(2) b(4-6) by (simp add: dq_full_def cb_full_def occupancy_def)
  then have "cb_push_back d (dq_delays q) = None" for d by (simp add: cb_push_back_def)
  with assms(3) show ?thesis
    by (auto simp: dq_empty_def dq_full_def dq_clear_def cb_clear_def occupancy_def cb_full_def cb_size_def
        dq_push_back_def dq_push_delayed_def split: option.splits)
qed

lemma delay_queue_clear_desynchronises_witness:
  "\<exists>q. dq_push_back (5::int) (delay_queue_new 0 1 2) = Some q \<and> dq_empty (dq_clear q) \<and> dq_push_back 6 (dq_clear q) = None"
proof -
  have "dq_inv (Suc 0) (delay_queue_new (0::int) 1 2)" by (rule dq_new_inv) simp
  then have base: "dq_base (Suc 0) (delay_queue_new (0::int) 1 2)" unfolding dq_inv_def by blast
  have v: "dq_view (delay_queue_new (0::int) 1 2) = []" by (simp add: dq_view_def delay_queue_new_def cb_new_inv)
  obtain q where q: "dq_push_back (5::int) (delay_queue_new 0 1 2) = Some q" "dq_base 0 q" "length (dq_view q) = 1" "cb_size (dq_buf q) = 1"
    using dq.push_room[OF base, of 5] v by (auto simp: dq_new_inv)
  have "dq_full q" using q cb_fullD[OF dq_baseD(1)[OF q(2)]] by (simp add: dq_full_def dq_view_def)
  from delay_queue_clear_desynchronises[OF q(2) this, of 6] q show ?thesis by auto
qed

text \<open>An element that is ready at once, pushed behind one that is not, breaks the order the bisection relies
  on: here the front element still has a cycle to wait, but \<open>operate\<close> reports three ready elements.\<close>

theorem push_back_ready_releases_early:
  "case Option.bind (Option.bind (dq_push_back (1::int) (delay_queue_new 0 4 2)) (dq_push_back_ready 2)) (dq_push_back_ready 3) of
     None \<Rightarrow> False
   | Some q \<Rightarrow> (let q' = dq_operate q in
       dq_has_ready q' \<and> dq_ready q' = 3 \<and> dq_front q' = 1 \<and> cb_front (dq_delays q') = 1)"
  by code_simp

end
