(* ===== verification/Packet.thy ===== *)
theory Packet
  imports Prelude
begin

text \<open>
  What travels through the memory hierarchy: the message packet and the merge of dependency lists of
  \<^verbatim>\<open>inc/block.h\<close>, the cache block of \<^verbatim>\<open>inc/memory_class.h\<close>, the request states and fill levels of
  \<^verbatim>\<open>inc/champsim.h\<close> and the cache types of \<^verbatim>\<open>inc/cache.h\<close>. A pointer to an object that requests data is a
  number, and so is an iterator into a queue of the core. A field without an initialiser starts \<open>undefined\<close>.
\<close>

section \<open>Codes\<close>

named_theorems code_defs \<open>the codes of request states, fill levels and cache types\<close>

definition NUM_CPUS :: nat where [code_defs]: "NUM_CPUS = 1"
definition NUM_TYPES :: nat where [code_defs]: "NUM_TYPES = 4"

definition INFLIGHT :: u8 where [code_defs]: "INFLIGHT = 1"
definition COMPLETED :: u8 where [code_defs]: "COMPLETED = 2"

definition FILL_L1 :: int where [code_defs]: "FILL_L1 = 1"
definition FILL_L2 :: int where [code_defs]: "FILL_L2 = 2"
definition FILL_LLC :: int where [code_defs]: "FILL_LLC = 4"

definition LOG2_BLOCK_SIZE :: nat where [code_defs]: "LOG2_BLOCK_SIZE = 6"
definition LOG2_PAGE_SIZE :: nat where [code_defs]: "LOG2_PAGE_SIZE = 12"

definition IS_ITLB :: u8 where [code_defs]: "IS_ITLB = 0"
definition IS_DTLB :: u8 where [code_defs]: "IS_DTLB = 1"
definition IS_STLB :: u8 where [code_defs]: "IS_STLB = 2"
definition IS_L1I :: u8 where [code_defs]: "IS_L1I = 3"
definition IS_L1D :: u8 where [code_defs]: "IS_L1D = 4"
definition IS_L2C :: u8 where [code_defs]: "IS_L2C = 5"
definition IS_LLC :: u8 where [code_defs]: "IS_LLC = 6"

section \<open>Packets\<close>

record packet =
  pk_scheduled :: u8
  pk_translated :: u8
  pk_fetched :: u8
  pk_prefetched :: u8
  pk_fill_level :: int
  pk_pf_origin_level :: int
  pk_rob_index :: int
  pk_producer :: int
  pk_delta :: int
  pk_depth :: int
  pk_signature :: int
  pk_confidence :: int
  pk_pf_metadata :: u32
  pk_is_producer :: u8
  pk_returned :: u8
  pk_asid :: "u8 \<times> u8"
  pk_type :: u8
  pk_lq_index_depend_on_me :: "nat list"
  pk_sq_index_depend_on_me :: "nat list"
  pk_instr_depend_on_me :: "nat list"
  pk_cpu :: nat
  pk_data_index :: u32
  pk_lq_index :: u32
  pk_sq_index :: u32
  pk_address :: u64
  pk_full_addr :: u64
  pk_v_address :: u64
  pk_full_v_addr :: u64
  pk_data :: u64
  pk_instr_id :: u64
  pk_ip :: u64
  pk_event_cycle :: u64
  pk_cycle_enqueued :: u64
  pk_to_return :: "nat list"

definition empty_packet :: packet where
  "empty_packet =
     \<lparr>pk_scheduled = 0, pk_translated = 0, pk_fetched = 0, pk_prefetched = 0,
      pk_fill_level = -1, pk_pf_origin_level = undefined, pk_rob_index = -1, pk_producer = -1,
      pk_delta = 0, pk_depth = 0, pk_signature = 0, pk_confidence = 0, pk_pf_metadata = undefined,
      pk_is_producer = 0, pk_returned = 0, pk_asid = (255, 255), pk_type = 0,
      pk_lq_index_depend_on_me = [], pk_sq_index_depend_on_me = [], pk_instr_depend_on_me = [],
      pk_cpu = NUM_CPUS, pk_data_index = 0, pk_lq_index = 0, pk_sq_index = 0,
      pk_address = 0, pk_full_addr = 0, pk_v_address = 0, pk_full_v_addr = 0, pk_data = 0,
      pk_instr_id = 0, pk_ip = 0, pk_event_cycle = - 1, pk_cycle_enqueued = 0, pk_to_return = []\<rparr>"

text \<open>\<^verbatim>\<open>is_valid<PACKET>\<close>, \<^verbatim>\<open>eq_addr<PACKET>\<close> and \<^verbatim>\<open>eq_full_addr<PACKET>\<close>.\<close>

definition is_valid_packet :: "packet \<Rightarrow> bool" where
  "is_valid_packet p \<longleftrightarrow> pk_address p \<noteq> 0"

definition eq_addr_packet :: "u64 \<Rightarrow> packet \<Rightarrow> bool" where
  "eq_addr_packet val p \<longleftrightarrow> is_valid_packet p \<and> pk_address p = val"

definition eq_full_addr :: "u64 \<Rightarrow> packet \<Rightarrow> bool" where
  "eq_full_addr val p \<longleftrightarrow> is_valid_packet p \<and> pk_full_addr p = val"

section \<open>Merging dependency lists\<close>

text \<open>
  The loop of \<^verbatim>\<open>packet_dep_merge\<close>: \<open>dest\<close> and \<open>src\<close> are what the two iterators have still to visit, and the result is
  what \<open>dest\<close> becomes from the first of them on.
\<close>

fun dep_merge_loop :: "'a::linorder list \<Rightarrow> 'a list \<Rightarrow> 'a list" where
  "dep_merge_loop dest [] = dest"
| "dep_merge_loop [] src = src"
| "dep_merge_loop (d # ds) (s # ss) =
     (if s > d then d # dep_merge_loop ds (s # ss)
      else if s = d then dep_merge_loop (d # ds) ss
      else s # dep_merge_loop (d # ds) ss)"

definition packet_dep_merge :: "'a::linorder list \<Rightarrow> 'a list \<Rightarrow> 'a list" where
  "packet_dep_merge dest src =
     (if src = [] then dest else if dest = [] then src else dep_merge_loop dest src)"

lemma set_dep_merge_loop: "set (dep_merge_loop dest src) = set dest \<union> set src"
  by (induction dest src rule: dep_merge_loop.induct) auto

lemma set_packet_dep_merge [simp]: "set (packet_dep_merge dest src) = set dest \<union> set src"
  by (auto simp: packet_dep_merge_def set_dep_merge_loop)

lemma packet_dep_merge_Nil [simp]: "packet_dep_merge dest [] = dest"
  by (simp add: packet_dep_merge_def)

lemma sorted_dep_merge_loop:
  "sorted_wrt (<) dest \<Longrightarrow> sorted_wrt (<) src \<Longrightarrow> sorted_wrt (<) (dep_merge_loop dest src)"
proof (induction dest src rule: dep_merge_loop.induct)
  case (3 d ds s ss)
  consider "d < s" | "s = d" | "s < d" by fastforce
  then show ?case
  proof cases
    case 1
    with 3 show ?thesis by (auto simp: set_dep_merge_loop)
  next
    case 2
    with 3 show ?thesis by auto
  next
    case 3
    with "3.IH"(3) "3.prems" show ?thesis by (auto simp: set_dep_merge_loop)
  qed
qed auto

text \<open>\<open>packet_dep_merge\<close> loses no dependent: the result holds the dependents of both lists, and it is strictly sorted
  when both lists are.\<close>

theorem packet_dep_merge_correct:
  "set (packet_dep_merge dest src) = set dest \<union> set src \<and>
   (sorted_wrt (<) dest \<longrightarrow> sorted_wrt (<) src \<longrightarrow> sorted_wrt (<) (packet_dep_merge dest src))"
  using sorted_dep_merge_loop[of dest src] by (auto simp: packet_dep_merge_def set_dep_merge_loop)

lemma packet_dep_merge_correct_witness:
  "sorted_wrt (<) (packet_dep_merge [1, 4, 9] [2, 4, 7 :: nat]) \<and> packet_dep_merge [1, 4, 9] [2, 4, 7 :: nat] = [1, 2, 4, 7, 9]"
  using packet_dep_merge_correct[of "[1, 4, 9]" "[2, 4, 7 :: nat]"] by (simp add: packet_dep_merge_def)

section \<open>Blocks\<close>

record block =
  blk_valid :: u8
  blk_prefetch :: u8
  blk_dirty :: u8
  blk_used :: u8
  blk_delta :: int
  blk_depth :: int
  blk_signature :: int
  blk_confidence :: int
  blk_address :: u64
  blk_full_addr :: u64
  blk_v_address :: u64
  blk_full_v_addr :: u64
  blk_tag :: u64
  blk_data :: u64
  blk_ip :: u64
  blk_cpu :: nat
  blk_instr_id :: u64
  blk_lru :: u32

definition new_block :: block where
  "new_block =
     \<lparr>blk_valid = 0, blk_prefetch = 0, blk_dirty = 0, blk_used = 0, blk_delta = 0, blk_depth = 0, blk_signature = 0,
      blk_confidence = 0, blk_address = 0, blk_full_addr = 0, blk_v_address = undefined, blk_full_v_addr = undefined,
      blk_tag = 0, blk_data = 0, blk_ip = undefined, blk_cpu = 0, blk_instr_id = 0, blk_lru = - 1\<rparr>"

definition block_of_packet :: "packet \<Rightarrow> block" where
  "block_of_packet p =
     \<lparr>blk_valid = 1, blk_prefetch = (if ucast (pk_type p) = PREFETCH then 1 else 0), blk_dirty = 0, blk_used = 0,
      blk_delta = pk_delta p, blk_depth = pk_depth p, blk_signature = pk_signature p, blk_confidence = pk_confidence p,
      blk_address = pk_address p, blk_full_addr = pk_full_addr p, blk_v_address = pk_v_address p,
      blk_full_v_addr = pk_full_v_addr p, blk_tag = pk_address p, blk_data = pk_data p, blk_ip = pk_ip p,
      blk_cpu = pk_cpu p, blk_instr_id = pk_instr_id p, blk_lru = - 1\<rparr>"

text \<open>\<^verbatim>\<open>eq_addr<BLOCK>\<close>.\<close>

definition eq_addr_block :: "u64 \<Rightarrow> block \<Rightarrow> bool" where
  "eq_addr_block val b \<longleftrightarrow> blk_valid b \<noteq> 0 \<and> blk_address b = val"

end
