(* ===== verification/LlcReplacement.thy ===== *)
theory LlcReplacement
  imports Packet
begin

text \<open>
  The replacement policies of the caches: the LRU code every cache shares
  (\<^verbatim>\<open>src/base_replacement.cc\<close>, \<^verbatim>\<open>lru_comparator\<close> of \<^verbatim>\<open>inc/util.h\<close>, used by \<^verbatim>\<open>replacement/lru_llc\<close>) and the contract of
  a last-level policy. The LRU state is a 32-bit counter per block that starts at its greatest value, so the
  first update wraps it around.
\<close>

definition LLC_SET :: nat where "LLC_SET = 2048"
definition LLC_WAY :: nat where "LLC_WAY = 16"

section \<open>The contract of a last-level policy\<close>

text \<open>The assertions at the head of \<open>llc_update_replacement_state\<close>.\<close>

definition llc_type_ok :: "u32 \<Rightarrow> u64 \<Rightarrow> bool" where
  "llc_type_ok type ip \<longleftrightarrow>
     (type = LOAD \<or> type = RFO \<or> type = PREFETCH \<or> type = WRITEBACK) \<and> \<not> (type = WRITEBACK \<and> ip \<noteq> 0)"

datatype llc_event = LlcVictim nat | LlcUpdate nat nat u64 u64 u32 bool

fun llc_event_ok :: "llc_event \<Rightarrow> bool" where
  "llc_event_ok (LlcVictim sx) \<longleftrightarrow> sx < LLC_SET"
| "llc_event_ok (LlcUpdate sx way addr ip type hit) \<longleftrightarrow> sx < LLC_SET \<and> way < LLC_WAY \<and> llc_type_ok type ip"

fun llc_step :: "(nat \<Rightarrow> 's \<Rightarrow> (nat \<times> 's) option) \<Rightarrow> (nat \<Rightarrow> nat \<Rightarrow> u64 \<Rightarrow> u64 \<Rightarrow> u32 \<Rightarrow> bool \<Rightarrow> 's \<Rightarrow> 's option) \<Rightarrow>
    llc_event \<Rightarrow> 's \<Rightarrow> 's option" where
  "llc_step fv up (LlcVictim sx) s = map_option snd (fv sx s)"
| "llc_step fv up (LlcUpdate sx way addr ip type hit) s = up sx way addr ip type hit s"

fun llc_run :: "(nat \<Rightarrow> 's \<Rightarrow> (nat \<times> 's) option) \<Rightarrow> (nat \<Rightarrow> nat \<Rightarrow> u64 \<Rightarrow> u64 \<Rightarrow> u32 \<Rightarrow> bool \<Rightarrow> 's \<Rightarrow> 's option) \<Rightarrow>
    llc_event list \<Rightarrow> 's \<Rightarrow> 's option" where
  "llc_run fv up [] s = Some s"
| "llc_run fv up (e # es) s = Option.bind (llc_step fv up e s) (llc_run fv up es)"

locale llc_policy =
  fixes inv :: "'s \<Rightarrow> bool"
    and fv :: "nat \<Rightarrow> 's \<Rightarrow> (nat \<times> 's) option"
    and up :: "nat \<Rightarrow> nat \<Rightarrow> u64 \<Rightarrow> u64 \<Rightarrow> u32 \<Rightarrow> bool \<Rightarrow> 's \<Rightarrow> 's option"
  assumes victim_law: "inv s \<Longrightarrow> sx < LLC_SET \<Longrightarrow> \<exists>w s'. fv sx s = Some (w, s') \<and> w < LLC_WAY \<and> inv s'"
    and update_law: "inv s \<Longrightarrow> sx < LLC_SET \<Longrightarrow> way < LLC_WAY \<Longrightarrow> llc_type_ok type ip \<Longrightarrow>
      \<exists>s'. up sx way addr ip type hit s = Some s' \<and> inv s'"
begin

lemma step_total: "inv s \<Longrightarrow> llc_event_ok e \<Longrightarrow> \<exists>s'. llc_step fv up e s = Some s' \<and> inv s'"
proof (cases e)
  case (LlcVictim sx)
  assume "inv s" "llc_event_ok e"
  with victim_law[of s sx] LlcVictim show ?thesis by auto
next
  case (LlcUpdate sx way addr ip type hit)
  assume "inv s" "llc_event_ok e"
  with update_law[of s sx way type ip addr hit] LlcUpdate show ?thesis by auto
qed

lemma run_total: "inv s \<Longrightarrow> \<forall>e\<in>set es. llc_event_ok e \<Longrightarrow> \<exists>s'. llc_run fv up es s = Some s' \<and> inv s'"
proof (induction es arbitrary: s)
  case (Cons e es)
  obtain s1 where "llc_step fv up e s = Some s1" "inv s1" using step_total[of s e] Cons.prems by auto
  with Cons.IH[of s1] Cons.prems show ?case by simp
qed simp

end

section \<open>LRU\<close>

definition lru_comparator :: "block \<Rightarrow> block \<Rightarrow> bool" where
  "lru_comparator lhs rhs \<longleftrightarrow> \<not> blk_valid rhs \<noteq> 0 \<or> (blk_valid lhs \<noteq> 0 \<and> blk_lru lhs < blk_lru rhs)"

text \<open>\<^verbatim>\<open>std::max_element\<close>: the position of the element that no later one exceeded when it was met.\<close>

definition max_element :: "('b \<Rightarrow> 'b \<Rightarrow> bool) \<Rightarrow> 'b list \<Rightarrow> nat" where
  "max_element lt xs = foldl (\<lambda>m i. if lt (xs ! m) (xs ! i) then i else m) 0 [1..<length xs]"

definition lru_victim :: "block list \<Rightarrow> nat" where
  "lru_victim current_set = max_element lru_comparator current_set"

definition lru_update_set :: "nat \<Rightarrow> block list \<Rightarrow> block list" where
  "lru_update_set way row =
     (let hit_lru = blk_lru (row ! way)
      in (map (\<lambda>x. if blk_lru x \<le> hit_lru then x\<lparr>blk_lru := blk_lru x + 1\<rparr> else x) row)
           [way := (row ! way)\<lparr>blk_lru := 0\<rparr>])"

definition lru_update :: "nat \<Rightarrow> nat \<Rightarrow> nat \<Rightarrow> u32 \<Rightarrow> bool \<Rightarrow> block list \<Rightarrow> block list" where
  "lru_update NUM_WAY sx way type hit blocks =
     (if hit \<and> type = WRITEBACK then blocks
      else take (sx * NUM_WAY) blocks @ lru_update_set way (take NUM_WAY (drop (sx * NUM_WAY) blocks)) @
             drop (sx * NUM_WAY + NUM_WAY) blocks)"

text \<open>\<^verbatim>\<open>replacement/lru_llc/lru.cc\<close>.\<close>

definition lru_llc_find_victim :: "nat \<Rightarrow> block list \<Rightarrow> (nat \<times> block list) option" where
  "lru_llc_find_victim sx blocks = Some (lru_victim (take LLC_WAY (drop (sx * LLC_WAY) blocks)), blocks)"

definition lru_llc_update_replacement_state ::
  "nat \<Rightarrow> nat \<Rightarrow> u64 \<Rightarrow> u64 \<Rightarrow> u32 \<Rightarrow> bool \<Rightarrow> block list \<Rightarrow> block list option" where
  "lru_llc_update_replacement_state sx way full_addr ip type hit blocks =
     (if llc_type_ok type ip then Some (lru_update LLC_WAY sx way type hit blocks) else None)"

subsection \<open>The victim\<close>

definition lru_choice :: "nat \<Rightarrow> block list \<Rightarrow> nat \<Rightarrow> bool" where
  "lru_choice n row w \<longleftrightarrow> w < n \<and>
     (if \<exists>i<n. blk_valid (row ! i) = 0
      then blk_valid (row ! w) = 0 \<and> (\<forall>i<n. w < i \<longrightarrow> blk_valid (row ! i) \<noteq> 0)
      else (\<forall>i<n. blk_lru (row ! i) \<le> blk_lru (row ! w)) \<and> (\<forall>i<w. blk_lru (row ! i) < blk_lru (row ! w)))"

lemma lru_choice_step:
  assumes "lru_choice n row m"
  shows "lru_choice (Suc n) row (if lru_comparator (row ! m) (row ! n) then n else m)"
proof -
  have m: "m < n" using assms by (simp add: lru_choice_def)
  have ex: "(\<exists>i<Suc n. P i) \<longleftrightarrow> P n \<or> (\<exists>i<n. P i)" for P by (auto simp: less_Suc_eq)
  have all: "(\<forall>i<Suc n. P i) \<longleftrightarrow> P n \<and> (\<forall>i<n. P i)" for P by (auto simp: less_Suc_eq)
  show ?thesis
  proof (cases "lru_comparator (row ! m) (row ! n)")
    case False
    then have v: "blk_valid (row ! n) \<noteq> 0" "blk_valid (row ! m) \<noteq> 0 \<Longrightarrow> blk_lru (row ! n) \<le> blk_lru (row ! m)"
      by (auto simp: lru_comparator_def not_less)
    with False assms m show ?thesis by (auto simp: lru_choice_def ex all split: if_splits)
  next
    case True
    then have v: "blk_valid (row ! n) \<noteq> 0 \<Longrightarrow> blk_valid (row ! m) \<noteq> 0 \<and> blk_lru (row ! m) < blk_lru (row ! n)"
      by (auto simp: lru_comparator_def)
    show ?thesis
    proof (cases "blk_valid (row ! n) = 0")
      case z: True
      with True show ?thesis by (auto simp: lru_choice_def ex all)
    next
      case False
      note v = v[OF this]
      then have nv: "\<not> (\<exists>i<n. blk_valid (row ! i) = 0)" using assms by (auto simp: lru_choice_def split: if_splits)
      then have "\<forall>i<n. blk_lru (row ! i) \<le> blk_lru (row ! m)" using assms by (simp add: lru_choice_def)
      then have "\<forall>i<n. blk_lru (row ! i) < blk_lru (row ! n)" using v by (meson order_le_less_trans)
      with nv False True show ?thesis by (auto simp: lru_choice_def ex all less_imp_le)
    qed
  qed
qed

lemma max_scan_choice:
  "0 < n \<Longrightarrow> lru_choice n row (foldl (\<lambda>m i. if lru_comparator (row ! m) (row ! i) then i else m) 0 [Suc 0..<n])"
proof (induction n)
  case (Suc n)
  show ?case
  proof (cases "n = 0")
    case True
    then show ?thesis by (simp add: lru_choice_def)
  next
    case False
    then have u: "[Suc 0..<Suc n] = [Suc 0..<n] @ [n]" by simp
    from lru_choice_step[OF Suc.IH] False show ?thesis unfolding u foldl_append foldl.simps by blast
  qed
qed simp

text \<open>\<open>lru_victim\<close> is the last invalid way if there is one, and otherwise the first way with the greatest counter.\<close>

theorem lru_victim_choice:
  assumes "row \<noteq> []"
  shows "lru_choice (length row) row (lru_victim row)"
  using max_scan_choice[of "length row" row] assms by (simp add: lru_victim_def max_element_def)

lemma lru_victim_choice_witness: "lru_choice 4 (replicate 4 new_block) (lru_victim (replicate 4 new_block))"
  using lru_victim_choice[of "replicate 4 new_block"] by simp

subsection \<open>The counters are a recency stack\<close>

abbreviation lru_of :: "block list \<Rightarrow> nat \<Rightarrow> nat" where "lru_of row x \<equiv> unat (blk_lru (row ! x))"

lemma lru_update_set_simps [simp]:
  "length (lru_update_set w row) = length row"
  "w < length row \<Longrightarrow> lru_of (lru_update_set w row) w = 0"
  by (simp_all add: lru_update_set_def Let_def)

lemma minus_one_unat: "unat (- 1 :: u32) = 2 ^ 32 - 1"
  by (simp add: unsigned_minus_1_eq_mask mask_eq_exp_minus_1)

lemma lru_update_set_other:
  assumes "x < length row" "x \<noteq> w"
  shows "lru_of (lru_update_set w row) x =
    (if lru_of row x \<le> lru_of row w then (if lru_of row x = 2 ^ 32 - 1 then 0 else Suc (lru_of row x)) else lru_of row x)"
proof -
  have "unat (v + 1) = (if unat v = 2 ^ 32 - 1 then 0 else Suc (unat v))" for v :: u32
  proof (cases "unat v = 2 ^ 32 - 1")
    case True
    then have "v = - 1" by (simp add: word_unat_eq_iff minus_one_unat)
    with True show ?thesis by (simp add: minus_one_unat)
  next
    case False
    then have "unat v + 1 < 2 ^ 32" using unsigned_less[of v, where ?'a = nat] by simp
    then have "unat (v + 1) = unat v + 1" by (subst unat_add_lem[THEN iffD1]) simp_all
    with False show ?thesis by simp
  qed
  with assms show ?thesis by (simp add: lru_update_set_def Let_def word_le_nat_alt)
qed

text \<open>The ways touched so far, the most recent first; the others share one counter that cannot be below theirs.\<close>

definition touch_order :: "nat \<Rightarrow> nat list \<Rightarrow> nat list" where
  "touch_order w ord = w # removeAll w ord"

definition lru_recency :: "nat list \<Rightarrow> nat list" where
  "lru_recency ws = foldl (\<lambda>ord w. touch_order w ord) [] ws"

definition lru_stack :: "nat list \<Rightarrow> block list \<Rightarrow> bool" where
  "lru_stack ord row \<longleftrightarrow> distinct ord \<and> set ord \<subseteq> {..<length row} \<and> map (lru_of row) ord = [0..<length ord] \<and>
     (\<exists>u. (\<forall>x<length row. x \<notin> set ord \<longrightarrow> lru_of row x = u) \<and>
        (if ord = [] then u = 2 ^ 32 - 1 else u = length ord - 1 \<or> u = length ord))"

lemma lru_stack_length: "lru_stack ord row \<Longrightarrow> length ord \<le> length row"
  using card_mono[of "{..<length row}" "set ord"] distinct_card[of ord] by (simp add: lru_stack_def)

lemma lru_stack_touch:
  assumes st: "lru_stack ord row" and w: "w < length row" and len: "length row < 2 ^ 31"
  shows "lru_stack (touch_order w ord) (lru_update_set w row)"
proof -
  let ?row = "lru_update_set w row"
  from st obtain u where d: "distinct ord" "set ord \<subseteq> {..<length row}" "map (lru_of row) ord = [0..<length ord]"
    and u: "\<And>x. x < length row \<Longrightarrow> x \<notin> set ord \<Longrightarrow> lru_of row x = u"
      "if ord = [] then u = 2 ^ 32 - 1 else u = length ord - 1 \<or> u = length ord"
    unfolding lru_stack_def by blast
  note L = lru_stack_length[OF st]
  note other = lru_update_set_other[of _ row w]
  show ?thesis
  proof (cases "w \<in> set ord")
    case True
    then obtain as bs where ab: "ord = as @ w # bs" by (meson split_list)
    have nin: "w \<notin> set as" "w \<notin> set bs" using d(1) ab by auto
    have ord': "touch_order w ord = w # as @ bs" using nin by (simp add: touch_order_def ab)
    then have so: "set (touch_order w ord) = set ord" "length (touch_order w ord) = length ord"
      "distinct (touch_order w ord)" "touch_order w ord \<noteq> []"
      using d(1) ab by auto
    have "[0..<length ord] = [0..<length as] @ length as # [Suc (length as)..<length ord]"
      using upt_add_eq_append[of 0 "length as" "Suc (length bs)"] by (simp add: ab upt_conv_Cons del: upt_Suc)
    then have "map (lru_of row) as @ lru_of row w # map (lru_of row) bs = [0..<length as] @ length as # [Suc (length as)..<length ord]"
      using d(3) unfolding ab by simp
    then have vals: "map (lru_of row) as = [0..<length as]" "lru_of row w = length as"
      "map (lru_of row) bs = [Suc (length as)..<length ord]"
      by (simp_all add: append_eq_append_conv)
    have va: "lru_of row x < length as" if "x \<in> set as" for x
    proof -
      have "lru_of row x \<in> set (map (lru_of row) as)" using that by simp
      then show ?thesis by (simp add: vals(1))
    qed
    have vb: "length as < lru_of row x" if "x \<in> set bs" for x
    proof -
      have "lru_of row x \<in> set (map (lru_of row) bs)" using that by simp
      then show ?thesis by (simp add: vals(3))
    qed
    have "lru_of ?row x = Suc (lru_of row x)" if "x \<in> set as" for x
    proof -
      have "x < length row" "x \<noteq> w" using that nin d(2) ab by auto
      moreover have "lru_of row x \<noteq> 2 ^ 32 - 1" using va[OF that] L len ab by simp
      ultimately show ?thesis using other[of x] va[OF that] vals(2) by simp
    qed
    then have "map (lru_of ?row) as = map (\<lambda>x. Suc (lru_of row x)) as" by simp
    also have "\<dots> = map Suc [0..<length as]" using arg_cong[OF vals(1), of "map Suc"] by (simp add: comp_def)
    finally have 1: "map (lru_of ?row) as = [1..<Suc (length as)]" by (simp add: map_Suc_upt)
    have 2: "map (lru_of ?row) bs = [Suc (length as)..<length ord]"
    proof -
      have "lru_of ?row x = lru_of row x" if "x \<in> set bs" for x
      proof -
        have "x < length row" "x \<noteq> w" using that nin d(2) ab by auto
        with other[of x] vb[OF that] vals(2) show ?thesis by simp
      qed
      then show ?thesis unfolding vals(3)[symmetric] by simp
    qed
    have "map (lru_of ?row) (touch_order w ord) = [0..<length (touch_order w ord)]"
    proof -
      have "[0..<length ord] = 0 # [1..<Suc (length as)] @ [Suc (length as)..<length ord]"
        using upt_add_eq_append[of 1 "Suc (length as)" "length bs"] by (simp add: ab upt_conv_Cons del: upt_Suc)
      moreover note so(2)
      ultimately show ?thesis using w by (simp only: ord' list.map map_append 1 2 lru_update_set_simps)
    qed
    moreover define u' where "u' = (if u \<le> length as then Suc u else u)"
    have "lru_of ?row x = u'" if "x < length row" "x \<notin> set (touch_order w ord)" for x
    proof -
      have "lru_of row x = u" "x \<noteq> w" using that u(1)[of x] True by (auto simp: so)
      with other[of x] that(1) vals(2) L len show ?thesis by (simp add: u'_def ab)
    qed
    moreover have "u' = length (touch_order w ord) - 1 \<or> u' = length (touch_order w ord)"
      using u(2) True by (auto simp: u'_def so(2)) (simp_all add: ab)
    ultimately show ?thesis using d(2) so by (auto simp: lru_stack_def)
  next
    case False
    then have ord': "touch_order w ord = w # ord" by (simp add: touch_order_def)
    have wu: "lru_of row w = u" by (rule u(1)[OF w False])
    have le: "lru_of row x \<le> u \<and> lru_of row x \<noteq> 2 ^ 32 - 1" if "x \<in> set ord" for x
    proof -
      have "lru_of row x \<in> set (map (lru_of row) ord)" using that by simp
      then have "lru_of row x < length ord" by (simp add: d(3))
      with that u(2) L len show ?thesis by (auto split: if_splits)
    qed
    have "lru_of ?row x = Suc (lru_of row x)" if "x \<in> set ord" for x
    proof -
      have "x < length row" "x \<noteq> w" using that False d(2) by auto
      with other[of x] le[OF that] wu show ?thesis by simp
    qed
    then have "map (lru_of ?row) ord = map (\<lambda>x. Suc (lru_of row x)) ord" by simp
    also have "\<dots> = map Suc [0..<length ord]" using arg_cong[OF d(3), of "map Suc"] by (simp add: comp_def)
    finally have "map (lru_of ?row) (touch_order w ord) = [0..<length (touch_order w ord)]"
      using w by (simp add: ord' map_Suc_upt upt_conv_Cons del: upt_Suc)
    moreover have "lru_of ?row x = (if u = 2 ^ 32 - 1 then 0 else Suc u)" if "x < length row" "x \<notin> set (touch_order w ord)" for x
      using that other[of x] u(1)[of x] wu by (simp add: ord')
    moreover have "(if u = 2 ^ 32 - 1 then 0 else Suc u) = length ord \<or> (if u = 2 ^ 32 - 1 then 0 else Suc u) = Suc (length ord)"
      using u(2) L len by (auto split: if_splits)
    ultimately show ?thesis using d w False by (auto simp: lru_stack_def ord')
  qed
qed

lemma lru_stack_run:
  assumes "lru_stack ord row" "\<forall>w\<in>set ws. w < length row" "length row < 2 ^ 31"
  shows "lru_stack (foldl (\<lambda>ord w. touch_order w ord) ord ws) (foldl (\<lambda>r w. lru_update_set w r) row ws) \<and>
    length (foldl (\<lambda>r w. lru_update_set w r) row ws) = length row"
  using assms
proof (induction ws arbitrary: ord row)
  case (Cons w ws)
  with lru_stack_touch[of ord row w] Cons.IH[of "touch_order w ord" "lru_update_set w row"] show ?case by simp
qed simp

lemma lru_recency_set: "set (lru_recency ws) = set ws"
proof -
  have "set (foldl (\<lambda>ord w. touch_order w ord) ord ws) = set ord \<union> set ws" for ord
    by (induction ws arbitrary: ord) (auto simp: touch_order_def)
  then show ?thesis by (simp add: lru_recency_def)
qed

text \<open>C39: once every way of a set has been used and is valid, the LRU victim is the way whose last use is the oldest, although
  the counters start at the greatest 32-bit value and wrap around on the first use.\<close>

theorem lru_evicts_least_recent:
  assumes "0 < n" "n < 2 ^ 31" "set ws = {..<n}"
    and "length row = n" "\<forall>i<n. blk_valid (row ! i) \<noteq> 0 \<and>
      blk_lru (row ! i) = blk_lru (foldl (\<lambda>r w. lru_update_set w r) (replicate n new_block) ws ! i)"
  shows "lru_victim row = last (lru_recency ws)"
proof -
  let ?ord = "lru_recency ws" and ?fin = "foldl (\<lambda>r w. lru_update_set w r) (replicate n new_block) ws"
  have "lru_stack [] (replicate n new_block)"
    by (auto simp: lru_stack_def new_block_def minus_one_unat intro!: exI[of _ "2 ^ 32 - 1"])
  from lru_stack_run[OF this, of ws] assms(2,3) have st: "lru_stack ?ord ?fin" by (simp add: lru_recency_def)
  have so: "set ?ord = {..<n}" by (simp add: lru_recency_set assms(3))
  have lo: "length ?ord = n" using distinct_card[of ?ord] st so by (simp add: lru_stack_def)
  have lr: "lru_of row (?ord ! i) = i" if "i < n" for i
  proof -
    have "map (lru_of ?fin) ?ord = [0..<n]" using st lo by (simp add: lru_stack_def)
    from arg_cong[OF this, of "\<lambda>l. l ! i"] have "lru_of ?fin (?ord ! i) = i" using that lo by simp
    moreover have "?ord ! i < n" using nth_mem[of i ?ord] that lo so by auto
    ultimately show ?thesis using assms(5) by simp
  qed
  have c: "lru_choice n row (lru_victim row)" using max_scan_choice[of n row] assms(1,4) by (simp add: lru_victim_def max_element_def)
  then have v: "lru_victim row < n" "\<forall>i<n. blk_lru (row ! i) \<le> blk_lru (row ! lru_victim row)"
    using assms(5) by (auto simp: lru_choice_def split: if_splits)
  then obtain i where i: "i < n" "lru_victim row = ?ord ! i" using so lo by (metis in_set_conv_nth lessThan_iff)
  have "?ord ! (n - 1) < n" using nth_mem[of "n - 1" ?ord] lo so assms(1) by auto
  with v(2) have "lru_of row (?ord ! (n - 1)) \<le> lru_of row (?ord ! i)" unfolding i(2)[symmetric] by (simp add: word_le_nat_alt)
  then have "i = n - 1" using lr[of i] lr[of "n - 1"] i(1) by simp
  moreover have "last ?ord = ?ord ! (n - 1)" using lo assms(1) by (subst last_conv_nth) auto
  ultimately show ?thesis using i(2) by simp
qed

lemma lru_evicts_least_recent_witness:
  "lru_victim (map (\<lambda>b. b\<lparr>blk_valid := 1\<rparr>) (foldl (\<lambda>r w. lru_update_set w r) (replicate 3 new_block) [1, 0, 2, 1])) = 0"
proof -
  let ?fin = "foldl (\<lambda>r w. lru_update_set w r) (replicate 3 new_block) [1, 0, 2, 1]"
  have l: "length ?fin = 3" by simp
  have s: "set [1, 0, 2, 1 :: nat] = {..<3}" by auto
  from lru_evicts_least_recent[OF _ _ s, of "map (\<lambda>b. b\<lparr>blk_valid := 1\<rparr>) ?fin"] show ?thesis
    unfolding length_map l by (simp add: lru_recency_def touch_order_def)
qed

section \<open>The LRU policy meets the contract\<close>

lemma lru_update_length:
  assumes "length blocks = LLC_SET * LLC_WAY" "sx < LLC_SET"
  shows "length (lru_update LLC_WAY sx way type hit blocks) = LLC_SET * LLC_WAY"
  using assms by (simp add: lru_update_def LLC_SET_def LLC_WAY_def)

interpretation lru_llc: llc_policy "\<lambda>blocks. length blocks = LLC_SET * LLC_WAY"
  lru_llc_find_victim lru_llc_update_replacement_state
proof (unfold_locales, goal_cases)
  case (1 s sx)
  let ?row = "take LLC_WAY (drop (sx * LLC_WAY) s)"
  have "length ?row = LLC_WAY" using 1 by (simp add: LLC_SET_def LLC_WAY_def)
  then have "lru_choice LLC_WAY ?row (lru_victim ?row)"
    using max_scan_choice[of LLC_WAY ?row] by (simp add: lru_victim_def max_element_def LLC_WAY_def)
  with 1(1) show ?case by (simp add: lru_llc_find_victim_def lru_choice_def)
next
  case (2 s sx way type ip addr hit)
  then show ?case by (simp add: lru_llc_update_replacement_state_def lru_update_length)
qed

end
