(* ===== verification/LlcRrip.thy ===== *)
theory LlcRrip
  imports LlcReplacement Rrip
begin

text \<open>
  The re-reference interval policies of the last-level cache: SRRIP (\<^verbatim>\<open>replacement/srrip_llc/srrip.cc\<close>) and DRRIP
  (\<^verbatim>\<open>replacement/drrip_llc/drrip.cc\<close>), and the choice of random sampler sets that DRRIP and SHiP share. The geometry is the
  default one (2048 sets of 16 ways, one core). Writes out of range (undefined in C++) do not
  occur for the events of \<^verbatim>\<open>llc_event_ok\<close>.
\<close>

definition maxRRPV :: u32 where "maxRRPV = 3"

section \<open>The array of prediction values\<close>

definition init_rrpv :: "u32 list list" where
  "init_rrpv = replicate LLC_SET (replicate LLC_WAY maxRRPV)"

definition set_rrpv :: "nat \<Rightarrow> nat \<Rightarrow> u32 \<Rightarrow> u32 list list \<Rightarrow> u32 list list" where
  "set_rrpv sx way v rs = rs[sx := (rs ! sx)[way := v]]"

definition rrpv_find_victim :: "nat \<Rightarrow> u32 list list \<Rightarrow> (nat \<times> u32 list list) option" where
  "rrpv_find_victim sx rs = map_option (\<lambda>(w, row). (w, rs[sx := row])) (rrip_search maxRRPV (rs ! sx))"

definition rrpv_ok :: "u32 list list \<Rightarrow> bool" where
  "rrpv_ok rs \<longleftrightarrow> length rs = LLC_SET \<and> (\<forall>r<LLC_SET. length (rs ! r) = LLC_WAY \<and> (\<forall>x\<in>set (rs ! r). x \<le> maxRRPV))"

lemma init_rrpv_ok: "rrpv_ok init_rrpv"
  by (simp add: rrpv_ok_def init_rrpv_def)

lemma set_rrpv_ok: "rrpv_ok rs \<Longrightarrow> v \<le> maxRRPV \<Longrightarrow> rrpv_ok (set_rrpv sx way v rs)"
  using set_update_subset_insert[of "rs ! sx" way v]
  by (auto simp: rrpv_ok_def set_rrpv_def nth_update_if)

lemma set_rrpv_read:
  "rrpv_ok rs \<Longrightarrow> sx < LLC_SET \<Longrightarrow> way < LLC_WAY \<Longrightarrow> set_rrpv sx way v rs ! sx ! way = v"
  by (simp add: rrpv_ok_def set_rrpv_def)

lemma rrpv_victim_law:
  assumes "rrpv_ok rs" "sx < LLC_SET"
  obtains w row where "rrpv_find_victim sx rs = Some (w, rs[sx := row])" "w < LLC_WAY" "rrpv_ok (rs[sx := row])"
    "rrip_victim (rs ! sx) w" "row ! w = maxRRPV"
proof -
  have r: "rs ! sx \<noteq> []" "\<forall>r\<in>set (rs ! sx). r \<le> maxRRPV" "length (rs ! sx) = LLC_WAY"
    using assms by (auto simp: rrpv_ok_def LLC_WAY_def)
  from rrip_search_result[OF r(1,2)] obtain w row where s: "rrip_search maxRRPV (rs ! sx) = Some (w, row)"
    "rrip_victim (rs ! sx) w" "row ! w = maxRRPV" "length row = length (rs ! sx)" "\<forall>j<length (rs ! sx). row ! j \<le> maxRRPV"
    by blast
  then have "\<forall>x\<in>set row. x \<le> maxRRPV" by (auto simp: in_set_conv_nth)
  then have "rrpv_ok (rs[sx := row])" using assms r(3) s(4) by (auto simp: rrpv_ok_def nth_update_if)
  with s r(3) show thesis by (intro that[of w row]) (auto simp: rrpv_find_victim_def rrip_victim_def)
qed

section \<open>SRRIP\<close>

definition srrip_llc_find_victim :: "nat \<Rightarrow> u32 list list \<Rightarrow> (nat \<times> u32 list list) option" where
  "srrip_llc_find_victim = rrpv_find_victim"

definition srrip_llc_update :: "nat \<Rightarrow> nat \<Rightarrow> u64 \<Rightarrow> u64 \<Rightarrow> u32 \<Rightarrow> bool \<Rightarrow> u32 list list \<Rightarrow> u32 list list option" where
  "srrip_llc_update sx way full_addr ip type hit rs =
     (if \<not> llc_type_ok type ip then None
      else Some (set_rrpv sx way (if hit then 0 else maxRRPV - 1) rs))"

interpretation srrip_llc: llc_policy rrpv_ok srrip_llc_find_victim srrip_llc_update
proof (unfold_locales, goal_cases)
  case (1 s sx)
  then show ?case using rrpv_victim_law[of s sx] unfolding srrip_llc_find_victim_def by metis
next
  case (2 s sx way type ip addr hit)
  then show ?case by (simp add: srrip_llc_update_def set_rrpv_ok maxRRPV_def)
qed

text \<open>The last-level SRRIP policy never fails: from its initial state, on any sequence of requests that its assertions
  allow, the victim search ends and every prediction value stays between 0 and 3.\<close>

theorem srrip_llc_total:
  assumes "\<forall>e\<in>set es. llc_event_ok e"
  shows "\<exists>rs. llc_run srrip_llc_find_victim srrip_llc_update es init_rrpv = Some rs \<and> rrpv_ok rs"
  using srrip_llc.run_total[OF init_rrpv_ok assms] .

lemma srrip_llc_total_witness:
  "\<exists>rs. llc_run srrip_llc_find_victim srrip_llc_update [LlcVictim 5, LlcUpdate 5 0 64 4096 LOAD False] init_rrpv = Some rs \<and> rrpv_ok rs"
  using srrip_llc_total[of "[LlcVictim 5, LlcUpdate 5 0 64 4096 LOAD False]"]
  by (simp add: LLC_SET_def LLC_WAY_def llc_type_ok_def branch_defs)

section \<open>Random sampler sets\<close>

text \<open>One turn of the outer loop: draw until the set is new. The draws are a linear congruence on 64 bits.\<close>

partial_function (option) rand_set :: "u64 \<Rightarrow> u32 list \<Rightarrow> (u64 \<times> u32) option" where
  "rand_set rand_seed prior =
     (let seed = rand_seed * 1103515245 + 12345;
          s = ucast (seed div 65536 mod 1048576) mod of_nat LLC_SET
      in if s \<in> set prior then rand_set seed prior else Some (seed, s))"

declare rand_set.simps [code]

fun rand_sets_from :: "nat \<Rightarrow> u64 \<Rightarrow> u32 list \<Rightarrow> u32 list option" where
  "rand_sets_from 0 seed sets = Some sets"
| "rand_sets_from (Suc n) seed sets =
     (case rand_set seed sets of None \<Rightarrow> None | Some (seed, s) \<Rightarrow> rand_sets_from n seed (sets @ [s]))"

definition init_rand_sets :: "nat \<Rightarrow> u32 list option" where
  "init_rand_sets n = rand_sets_from n 1 []"

lemma rand_set_new:
  assumes "rand_set seed prior = Some y"
  shows "snd y \<notin> set prior \<and> unat (snd y) < LLC_SET"
proof (rule rand_set.raw_induct[where P = "\<lambda>seed prior y. snd y \<notin> set prior \<and> unat (snd y) < LLC_SET", OF _ assms], goal_cases)
  case (1 self seed prior y)
  have "unat (x mod of_nat LLC_SET :: u32) < LLC_SET" for x by (simp add: unat_mod LLC_SET_def)
  with 1 show ?case by (auto simp: Let_def split: if_splits)
qed

lemma rand_sets_from_ok:
  "rand_sets_from n seed sets = Some sets' \<Longrightarrow> distinct sets \<Longrightarrow> \<forall>s\<in>set sets. unat s < LLC_SET \<Longrightarrow>
   distinct sets' \<and> length sets' = length sets + n \<and> (\<forall>s\<in>set sets'. unat s < LLC_SET)"
proof (induction n arbitrary: seed sets)
  case (Suc n)
  then obtain seed' s where s: "rand_set seed sets = Some (seed', s)" "rand_sets_from n seed' (sets @ [s]) = Some sets'"
    by (auto split: option.splits)
  have "distinct (sets @ [s])" "\<forall>x\<in>set (sets @ [s]). unat x < LLC_SET"
    using rand_set_new[OF s(1)] Suc.prems(2,3) by auto
  from Suc.IH[OF s(2) this] show ?case by simp
qed simp

text \<open>That the draws end is computed; on the integers, which the kernel's evaluation handles faster.\<close>

partial_function (option) rand_int :: "int \<Rightarrow> int list \<Rightarrow> (int \<times> int) option" where
  "rand_int rand_seed prior =
     (let seed = (rand_seed * 1103515245 + 12345) mod 18446744073709551616;
          s = seed div 65536 mod 1048576 mod 2048
      in if s \<in> set prior then rand_int seed prior else Some (seed, s))"

declare rand_int.simps [code]

fun rand_ints_from :: "nat \<Rightarrow> int \<Rightarrow> int list \<Rightarrow> bool" where
  "rand_ints_from 0 seed sets = True"
| "rand_ints_from (Suc n) seed sets =
     (case rand_int seed sets of None \<Rightarrow> False | Some (seed, s) \<Rightarrow> rand_ints_from n seed (s # sets))"

lemma rand_int_step:
  fixes seed :: u64
  shows "uint (seed * 1103515245 + 12345) = (uint seed * 1103515245 + 12345) mod 18446744073709551616"
    "uint (ucast (seed div 65536 mod 1048576) mod of_nat LLC_SET :: u32) = uint seed div 65536 mod 1048576 mod 2048"
proof -
  show "uint (seed * 1103515245 + 12345) = (uint seed * 1103515245 + 12345) mod 18446744073709551616"
    by (simp add: uint_word_ariths mod_simps)
  have "uint (ucast x mod 2048 :: u32) = uint x mod 2048" for x :: u64
    by (simp add: uint_mod unsigned_ucast_eq take_bit_eq_mod mod_mod_cancel)
  from this[of "seed div 65536 mod 1048576"] show
    "uint (ucast (seed div 65536 mod 1048576) mod of_nat LLC_SET :: u32) = uint seed div 65536 mod 1048576 mod 2048"
    by (simp add: LLC_SET_def uint_mod uint_div)
qed

lemma rand_int_refines:
  assumes "rand_int n is = Some y" "n = uint seed" "set is = uint ` set prior"
  shows "\<exists>seed' s'. rand_set seed prior = Some (seed', s') \<and> (uint seed', uint s') = y"
proof -
  let ?P = "\<lambda>n is y. \<forall>seed :: u64. n = uint seed \<longrightarrow> set is = uint ` set prior \<longrightarrow>
    (\<exists>seed' s'. rand_set seed prior = Some (seed', s') \<and> (uint seed', uint s') = y)"
  have "?P n is y"
  proof (rule rand_int.raw_induct[where P = ?P, OF _ assms(1)], intro allI impI, goal_cases)
  case (1 self n "is" y seed)
  let ?seed = "seed * 1103515245 + 12345"
  let ?s = "ucast (?seed div 65536 mod 1048576) mod of_nat LLC_SET :: u32"
  note step = rand_int_step(1)[of seed, symmetric] rand_int_step(2)[of ?seed, symmetric]
  have mem: "uint ?s \<in> set is \<longleftrightarrow> ?s \<in> set prior" unfolding 1(4) image_iff by (metis word_uint_eq_iff)
  show ?case
  proof (cases "?s \<in> set prior")
    case True
    with 1(2) mem have "self (uint ?seed) is = Some y" unfolding Let_def 1(3) step by simp
    with 1(1) 1(4) True show ?thesis by (subst rand_set.simps) (simp add: Let_def)
  next
    case False
    with 1(2) mem have "y = (uint ?seed, uint ?s)" unfolding Let_def 1(3) step by simp
    with False show ?thesis by (subst rand_set.simps) (simp add: Let_def)
  qed
  qed
  with assms(2,3) show ?thesis by blast
qed

lemma rand_ints_refine:
  "rand_ints_from n (uint seed) is \<Longrightarrow> set is = uint ` set prior \<Longrightarrow> rand_sets_from n seed prior \<noteq> None"
proof (induction n arbitrary: seed "is" prior)
  case (Suc n)
  then obtain i s where i: "rand_int (uint seed) is = Some (i, s)" "rand_ints_from n i (s # is)"
    by (auto split: option.splits)
  from rand_int_refines[OF i(1) refl Suc.prems(2)] obtain seed' s' where
    "rand_set seed prior = Some (seed', s')" "uint seed' = i" "uint s' = s" by blast
  with Suc.IH[of seed' "s # is" "prior @ [s']"] i(2) Suc.prems(2) show ?case by simp
qed simp

lemma init_rand_sets_ok:
  assumes "rand_ints_from n 1 []"
  obtains sets where "init_rand_sets n = Some sets" "distinct sets" "length sets = n" "\<forall>s\<in>set sets. unat s < LLC_SET"
proof -
  obtain sets where s: "rand_sets_from n 1 [] = Some sets" using rand_ints_refine[of n 1 "[]" "[]"] assms by auto
  have "init_rand_sets n = Some sets" using s by (simp add: init_rand_sets_def)
  moreover have "distinct sets \<and> length sets = n \<and> (\<forall>s\<in>set sets. unat s < LLC_SET)" using rand_sets_from_ok[OF s] by simp
  ultimately show thesis using that by blast
qed

section \<open>DRRIP\<close>

definition NUM_POLICY :: nat where "NUM_POLICY = 2"
definition SDM_SIZE :: nat where "SDM_SIZE = 32"
definition TOTAL_SDM_SETS :: nat where "TOTAL_SDM_SETS = NUM_POLICY * SDM_SIZE"
definition BIP_MAX :: u32 where "BIP_MAX = 32"
definition PSEL_MAX :: u32 where "PSEL_MAX = 1023"
definition PSEL_THRS :: u32 where "PSEL_THRS = PSEL_MAX div 2"

lemmas drrip_sizes = NUM_POLICY_def SDM_SIZE_def TOTAL_SDM_SETS_def BIP_MAX_def PSEL_MAX_def PSEL_THRS_def maxRRPV_def

record drrip =
  rrpv :: "u32 list list"
  bip_counter :: u32
  PSEL :: u32
  rand_sets :: "u32 list"

definition drrip_initialize :: "drrip option" where
  "drrip_initialize =
     map_option (\<lambda>sets. \<lparr>rrpv = init_rrpv, bip_counter = 0, PSEL = 0, rand_sets = sets\<rparr>) (init_rand_sets TOTAL_SDM_SETS)"

definition is_it_leader :: "nat \<Rightarrow> drrip \<Rightarrow> int" where
  "is_it_leader sx st =
     (case first_index (\<lambda>i. rand_sets st ! i = of_nat sx) TOTAL_SDM_SETS of
        Some i \<Rightarrow> int (i div SDM_SIZE) | None \<Rightarrow> - 1)"

text \<open>The insertion of the bimodal policy: distant, and at every 32nd call long.\<close>

definition bip_insert :: "nat \<Rightarrow> nat \<Rightarrow> drrip \<Rightarrow> drrip" where
  "bip_insert sx way st =
     (let c = bip_counter st + 1; c = (if c = BIP_MAX then 0 else c)
      in st\<lparr>rrpv := set_rrpv sx way (if c = 0 then maxRRPV - 1 else maxRRPV) (rrpv st), bip_counter := c\<rparr>)"

definition drrip_update :: "nat \<Rightarrow> nat \<Rightarrow> u64 \<Rightarrow> u64 \<Rightarrow> u32 \<Rightarrow> bool \<Rightarrow> drrip \<Rightarrow> drrip option" where
  "drrip_update sx way full_addr ip type hit st =
     (let put = (\<lambda>v st. st\<lparr>rrpv := set_rrpv sx way v (rrpv st)\<rparr>)
      in if type = WRITEBACK then Some (put (maxRRPV - 1) st)
         else if hit then Some (put 0 st)
         else
           let leader = is_it_leader sx st
           in if leader = - 1 then
                Some (if PSEL st > PSEL_THRS then bip_insert sx way st else put (maxRRPV - 1) st)
              else if leader = 0 then
                Some (bip_insert sx way (if PSEL st > 0 then st\<lparr>PSEL := PSEL st - 1\<rparr> else st))
              else if leader = 1 then
                Some (put (maxRRPV - 1) (if PSEL st < PSEL_MAX then st\<lparr>PSEL := PSEL st + 1\<rparr> else st))
              else None)"

definition drrip_find_victim :: "nat \<Rightarrow> drrip \<Rightarrow> (nat \<times> drrip) option" where
  "drrip_find_victim sx st = map_option (\<lambda>(w, rs). (w, st\<lparr>rrpv := rs\<rparr>)) (rrpv_find_victim sx (rrpv st))"

definition drrip_ok :: "drrip \<Rightarrow> bool" where
  "drrip_ok st \<longleftrightarrow> rrpv_ok (rrpv st) \<and> bip_counter st < BIP_MAX \<and> PSEL st \<le> PSEL_MAX \<and>
     distinct (rand_sets st) \<and> length (rand_sets st) = TOTAL_SDM_SETS \<and> (\<forall>s\<in>set (rand_sets st). unat s < LLC_SET)"

lemma is_it_leader_range: "is_it_leader sx st \<in> {- 1, 0, 1}"
proof (cases "first_index (\<lambda>i. rand_sets st ! i = of_nat sx) TOTAL_SDM_SETS")
  case (Some i)
  from first_index_SomeD[OF Some] have "i < 2 * 32" by (simp add: drrip_sizes)
  then have "i div 32 < 2" by (rule less_mult_imp_div_less)
  then have "i div 32 = 0 \<or> i div 32 = 1" by linarith
  with Some show ?thesis by (auto simp: is_it_leader_def SDM_SIZE_def)
qed (simp add: is_it_leader_def)

lemma bip_counter_step:
  fixes c :: u32
  assumes "c < BIP_MAX"
  shows "unat (if c + 1 = BIP_MAX then 0 else c + 1) = Suc (unat c) mod 32"
    "(if c + 1 = BIP_MAX then 0 else c + 1) < BIP_MAX"
proof -
  have c: "unat c < 32" using assms by (simp add: BIP_MAX_def word_less_nat_alt)
  then have s: "unat (c + 1) = Suc (unat c)" by (subst unat_add_lem[THEN iffD1]) simp_all
  then have e: "c + 1 = BIP_MAX \<longleftrightarrow> Suc (unat c) = 32" by (simp add: word_unat_eq_iff BIP_MAX_def)
  show 1: "unat (if c + 1 = BIP_MAX then 0 else c + 1) = Suc (unat c) mod 32"
    using c s unfolding e by (cases "Suc (unat c) = 32") simp_all
  show "(if c + 1 = BIP_MAX then 0 else c + 1) < BIP_MAX"
    unfolding word_less_nat_alt 1 by (simp add: BIP_MAX_def)
qed

lemma bip_insert_ok:
  assumes "drrip_ok st"
  shows "drrip_ok (bip_insert sx way st)" "unat (bip_counter (bip_insert sx way st)) = Suc (unat (bip_counter st)) mod 32"
    "rrpv (bip_insert sx way st) = set_rrpv sx way (if Suc (unat (bip_counter st)) mod 32 = 0 then maxRRPV - 1 else maxRRPV) (rrpv st)"
proof -
  have "bip_counter st < BIP_MAX" using assms by (simp add: drrip_ok_def)
  note b = bip_counter_step[OF this]
  show c: "unat (bip_counter (bip_insert sx way st)) = Suc (unat (bip_counter st)) mod 32"
    using b(1) by (simp add: bip_insert_def Let_def)
  have z: "(if bip_counter st + 1 = BIP_MAX then 0 else bip_counter st + 1) = 0 \<longleftrightarrow> Suc (unat (bip_counter st)) mod 32 = 0"
    unfolding b(1)[symmetric] by (simp only: unat_eq_0)
  show "rrpv (bip_insert sx way st) = set_rrpv sx way (if Suc (unat (bip_counter st)) mod 32 = 0 then maxRRPV - 1 else maxRRPV) (rrpv st)"
    unfolding bip_insert_def Let_def z by simp
  then have "rrpv_ok (rrpv (bip_insert sx way st))"
    using assms by (simp add: drrip_ok_def set_rrpv_ok maxRRPV_def)
  then show "drrip_ok (bip_insert sx way st)"
    using assms b(2) by (simp add: drrip_ok_def bip_insert_def Let_def)
qed

lemma drrip_psel_ok:
  assumes "drrip_ok st"
  shows "drrip_ok (if PSEL st > 0 then st\<lparr>PSEL := PSEL st - 1\<rparr> else st)"
    "drrip_ok (if PSEL st < PSEL_MAX then st\<lparr>PSEL := PSEL st + 1\<rparr> else st)"
proof -
  have "PSEL st - 1 \<le> PSEL_MAX" if "PSEL st > 0"
  proof -
    have "unat (PSEL st - 1) \<le> unat (PSEL st)" using that by (subst unat_minus_one) (auto simp: word_gt_0)
    also have "\<dots> \<le> unat PSEL_MAX" using assms by (simp add: drrip_ok_def word_le_nat_alt)
    finally show ?thesis by (simp add: word_le_nat_alt)
  qed
  then show "drrip_ok (if PSEL st > 0 then st\<lparr>PSEL := PSEL st - 1\<rparr> else st)" using assms by (simp add: drrip_ok_def)
  show "drrip_ok (if PSEL st < PSEL_MAX then st\<lparr>PSEL := PSEL st + 1\<rparr> else st)"
    using assms word_less_add_one(2)[of "PSEL st" PSEL_MAX] by (simp add: drrip_ok_def)
qed

lemma drrip_put_ok: "drrip_ok st \<Longrightarrow> v \<le> maxRRPV \<Longrightarrow> drrip_ok (st\<lparr>rrpv := set_rrpv sx way v (rrpv st)\<rparr>)"
  by (simp add: drrip_ok_def set_rrpv_ok)

lemma drrip_update_law:
  assumes ok: "drrip_ok st"
  shows "\<exists>st'. drrip_update sx way addr ip type hit st = Some st' \<and> drrip_ok st'"
proof -
  have v: "0 \<le> maxRRPV" "maxRRPV - 1 \<le> maxRRPV" by (simp_all add: maxRRPV_def)
  note put = drrip_put_ok[OF ok v(1)] drrip_put_ok[OF ok v(2)] drrip_put_ok[OF drrip_psel_ok(2)[OF ok] v(2)]
    bip_insert_ok(1)[OF ok] bip_insert_ok(1)[OF drrip_psel_ok(1)[OF ok]]
  have "is_it_leader sx st = - 1 \<or> is_it_leader sx st = 0 \<or> is_it_leader sx st = 1"
    using is_it_leader_range[of sx st] by auto
  then show ?thesis unfolding drrip_update_def Let_def using put by (elim disjE) (simp_all del: if_split_asm)
qed

interpretation drrip: llc_policy drrip_ok drrip_find_victim drrip_update
proof (unfold_locales, goal_cases)
  case (1 s sx)
  then have "rrpv_ok (rrpv s)" by (simp add: drrip_ok_def)
  from rrpv_victim_law[OF this 1(2)] obtain w row where "rrpv_find_victim sx (rrpv s) = Some (w, (rrpv s)[sx := row])"
    "w < LLC_WAY" "rrpv_ok ((rrpv s)[sx := row])" by blast
  with 1(1) show ?case by (simp add: drrip_find_victim_def drrip_ok_def)
next
  case (2 s sx way type ip addr hit)
  then show ?case by (intro drrip_update_law)
qed

lemma drrip_rand_ints: "rand_ints_from TOTAL_SDM_SETS 1 []"
  unfolding drrip_sizes by code_simp

lemma drrip_initialize_ok:
  obtains st where "drrip_initialize = Some st" "drrip_ok st" "PSEL st = 0" "bip_counter st = 0"
proof -
  obtain sets where "init_rand_sets TOTAL_SDM_SETS = Some sets" "distinct sets" "length sets = TOTAL_SDM_SETS"
    "\<forall>s\<in>set sets. unat s < LLC_SET"
    by (rule init_rand_sets_ok[OF drrip_rand_ints])
  then show thesis
    by (intro that[of "\<lparr>rrpv = init_rrpv, bip_counter = 0, PSEL = 0, rand_sets = sets\<rparr>"])
      (simp_all add: drrip_initialize_def drrip_ok_def init_rrpv_ok BIP_MAX_def)
qed

text \<open>the draw of DRRIP's sampler sets ends, and then the policy never fails: on any sequence of allowed requests the
  selector stays within its ten bits, the bimodal counter below 32 and every value between 0 and 3.\<close>

theorem drrip_total:
  assumes "\<forall>e\<in>set es. llc_event_ok e"
  shows "\<exists>st st'. drrip_initialize = Some st \<and> llc_run drrip_find_victim drrip_update es st = Some st' \<and> drrip_ok st'"
  using drrip_initialize_ok drrip.run_total[OF _ assms] by metis

lemma drrip_total_witness:
  "\<exists>st st'. drrip_initialize = Some st \<and>
     llc_run drrip_find_victim drrip_update [LlcVictim 5, LlcUpdate 5 0 64 4096 LOAD False] st = Some st' \<and> drrip_ok st'"
  using drrip_total[of "[LlcVictim 5, LlcUpdate 5 0 64 4096 LOAD False]"]
  by (simp add: LLC_SET_def LLC_WAY_def llc_type_ok_def branch_defs)

lemma card_leaders:
  assumes ok: "drrip_ok st" and a: "a + SDM_SIZE \<le> TOTAL_SDM_SETS"
  shows "card {sx. sx < LLC_SET \<and> (\<exists>i. a \<le> i \<and> i < a + SDM_SIZE \<and> rand_sets st ! i = of_nat sx)} = SDM_SIZE"
proof -
  have d: "distinct (rand_sets st)" "length (rand_sets st) = TOTAL_SDM_SETS" "\<forall>s\<in>set (rand_sets st). unat s < LLC_SET"
    using ok by (simp_all add: drrip_ok_def)
  let ?A = "{a..<a + SDM_SIZE}" and ?f = "\<lambda>i. unat (rand_sets st ! i)"
  have "{sx. sx < LLC_SET \<and> (\<exists>i. a \<le> i \<and> i < a + SDM_SIZE \<and> rand_sets st ! i = of_nat sx)} = ?f ` ?A"
  proof (intro set_eqI iffI)
    fix sx assume "sx \<in> {sx. sx < LLC_SET \<and> (\<exists>i. a \<le> i \<and> i < a + SDM_SIZE \<and> rand_sets st ! i = of_nat sx)}"
    then show "sx \<in> ?f ` ?A" by (auto simp: image_iff LLC_SET_def unat_of_nat intro!: bexI)
  next
    fix sx assume "sx \<in> ?f ` ?A"
    then obtain i where i: "a \<le> i" "i < a + SDM_SIZE" "sx = ?f i" by auto
    with a d(2) have "rand_sets st ! i \<in> set (rand_sets st)" by simp
    with i d(3) show "sx \<in> {sx. sx < LLC_SET \<and> (\<exists>i. a \<le> i \<and> i < a + SDM_SIZE \<and> rand_sets st ! i = of_nat sx)}" by auto
  qed
  moreover have "inj_on ?f ?A"
    using d(1,2) a by (auto simp: inj_on_def nth_eq_iff_index_eq word_unat_eq_iff[symmetric])
  ultimately show ?thesis by (simp add: card_image)
qed

lemma leader_iff:
  assumes "drrip_ok st" "p < NUM_POLICY"
  shows "is_it_leader sx st = int p \<longleftrightarrow> (\<exists>i. p * SDM_SIZE \<le> i \<and> i < p * SDM_SIZE + SDM_SIZE \<and> rand_sets st ! i = of_nat sx)"
proof -
  have d: "distinct (rand_sets st)" "length (rand_sets st) = TOTAL_SDM_SETS" using assms(1) by (simp_all add: drrip_ok_def)
  have div: "i div SDM_SIZE = p \<longleftrightarrow> p * SDM_SIZE \<le> i \<and> i < p * SDM_SIZE + SDM_SIZE" for i
    by (auto simp: SDM_SIZE_def)
  have bound: "i < TOTAL_SDM_SETS" if "i < p * SDM_SIZE + SDM_SIZE" for i
    using that assms(2) by (simp add: drrip_sizes)
  show ?thesis
  proof (cases "first_index (\<lambda>i. rand_sets st ! i = of_nat sx) TOTAL_SDM_SETS")
    case None
    then have "is_it_leader sx st = - 1" by (simp add: is_it_leader_def)
    moreover from None have "\<forall>i<TOTAL_SDM_SETS. rand_sets st ! i \<noteq> of_nat sx" by (simp add: first_index_None_iff)
    ultimately show ?thesis using bound by auto
  next
    case (Some j)
    note j = first_index_SomeD[OF Some]
    have u: "i = j" if "rand_sets st ! i = of_nat sx" "i < TOTAL_SDM_SETS" for i
      using that j d nth_eq_iff_index_eq[of "rand_sets st" i j] by simp
    have "is_it_leader sx st = int p \<longleftrightarrow> j div SDM_SIZE = p" by (simp add: is_it_leader_def Some)
    also have "\<dots> \<longleftrightarrow> (\<exists>i. p * SDM_SIZE \<le> i \<and> i < p * SDM_SIZE + SDM_SIZE \<and> rand_sets st ! i = of_nat sx)"
      unfolding div using j u bound by blast
    finally show ?thesis .
  qed
qed

text \<open>Exactly 32 sets lead the bimodal policy and exactly 32 lead SRRIP, in every state the policy can reach.\<close>

theorem drrip_leader_sets:
  assumes "\<forall>e\<in>set es. llc_event_ok e" "drrip_initialize = Some st" "llc_run drrip_find_victim drrip_update es st = Some st'"
  shows "card {sx. sx < LLC_SET \<and> is_it_leader sx st' = 0} = SDM_SIZE \<and> card {sx. sx < LLC_SET \<and> is_it_leader sx st' = 1} = SDM_SIZE"
proof -
  have "drrip_ok st" using drrip_initialize_ok assms(2) by (metis option.inject)
  then have ok: "drrip_ok st'" using drrip.run_total[of st es] assms by auto
  note l = leader_iff[OF ok, of 0] leader_iff[OF ok, of 1]
  have "(is_it_leader sx st' = 0) = (\<exists>i. 0 \<le> i \<and> i < 0 + SDM_SIZE \<and> rand_sets st' ! i = of_nat sx)"
    "(is_it_leader sx st' = 1) = (\<exists>i. SDM_SIZE \<le> i \<and> i < SDM_SIZE + SDM_SIZE \<and> rand_sets st' ! i = of_nat sx)" for sx
    using l[of sx] by (simp_all add: NUM_POLICY_def)
  with card_leaders[OF ok, of 0] card_leaders[OF ok, of SDM_SIZE] show ?thesis
    by (simp add: TOTAL_SDM_SETS_def NUM_POLICY_def)
qed

lemma drrip_leader_sets_witness:
  "\<exists>st. drrip_initialize = Some st \<and> card {sx. sx < LLC_SET \<and> is_it_leader sx st = 0} = 32"
proof -
  obtain st where st: "drrip_initialize = Some st" by (rule drrip_initialize_ok)
  have "llc_run drrip_find_victim drrip_update [] st = Some st" by simp
  from drrip_leader_sets[OF _ st this] have "card {sx. sx < LLC_SET \<and> is_it_leader sx st = 0} = 32" by (simp add: SDM_SIZE_def)
  with st show ?thesis by blast
qed

text \<open>Of any 32 consecutive insertions of the bimodal policy exactly the one that brings its counter back to 0 uses the
  long interval: after \<open>k\<close> insertions the counter is the old one plus \<open>k\<close> modulo 32, and the last of them was long exactly if it is 0.\<close>

theorem bip_one_in_32:
  assumes "drrip_ok st" "\<forall>p\<in>set (ps @ [(sx, way)]). fst p < LLC_SET \<and> snd p < LLC_WAY"
  shows "let st' = foldl (\<lambda>st (s, w). bip_insert s w st) st (ps @ [(sx, way)])
    in unat (bip_counter st') = (unat (bip_counter st) + length ps + 1) mod 32 \<and>
       rrpv st' ! sx ! way = (if (unat (bip_counter st) + length ps + 1) mod 32 = 0 then 2 else 3)"
proof -
  have "drrip_ok (foldl (\<lambda>st (s, w). bip_insert s w st) st ps) \<and>
      unat (bip_counter (foldl (\<lambda>st (s, w). bip_insert s w st) st ps)) = (unat (bip_counter st) + length ps) mod 32"
  proof (induction ps rule: rev_induct)
    case Nil
    have "unat (bip_counter st) < 32" using assms(1) by (simp add: drrip_ok_def BIP_MAX_def word_less_nat_alt)
    with assms(1) show ?case by simp
  next
    case (snoc p ps)
    then show ?case by (cases p) (simp add: bip_insert_ok mod_Suc_eq)
  qed
  then show ?thesis
    using bip_insert_ok[of "foldl (\<lambda>st (s, w). bip_insert s w st) st ps" sx way] assms(2)
      set_rrpv_read[of "rrpv (foldl (\<lambda>st (s, w). bip_insert s w st) st ps)" sx way]
    by (auto simp: Let_def mod_Suc_eq drrip_ok_def maxRRPV_def)
qed

lemma bip_one_in_32_witness:
  "\<exists>st. drrip_initialize = Some st \<and> bip_counter (bip_insert 3 1 (bip_insert 5 0 st)) = 2"
proof -
  obtain st where st: "drrip_initialize = Some st" "drrip_ok st" "bip_counter st = 0" by (rule drrip_initialize_ok)
  from bip_one_in_32[OF st(2), of "[(5, 0)]" 3 1] st(3) have "unat (bip_counter (bip_insert 3 1 (bip_insert 5 0 st))) = 2"
    by (simp add: Let_def LLC_SET_def LLC_WAY_def)
  then have "bip_counter (bip_insert 3 1 (bip_insert 5 0 st)) = 2" by (simp add: word_unat_eq_iff)
  with st(1) show ?thesis by blast
qed

end
