(* ===== verification/ShipLlc.thy ===== *)
theory ShipLlc
  imports LlcRrip
begin

text \<open>
  The SHiP policy of the last-level cache (\<^verbatim>\<open>replacement/ship_llc/ship.cc\<close>): a sampler of 256 sets, each an LRU list of 16
  entries, trains a table of three-bit counters by the address of the load; a load whose
  counter is saturated is inserted at the distant interval. Reading past a sampler set (undefined in C++) is \<open>None\<close>.
\<close>

section \<open>State\<close>

definition SHCT_SIZE :: nat where "SHCT_SIZE = 16384"
definition SHCT_PRIME :: nat where "SHCT_PRIME = 16381"
definition SAMPLER_SET :: nat where "SAMPLER_SET = 256"
definition SAMPLER_WAY :: nat where "SAMPLER_WAY = LLC_WAY"
definition SHCT_MAX :: u32 where "SHCT_MAX = 7"

lemmas ship_sizes = SHCT_SIZE_def SHCT_PRIME_def SAMPLER_SET_def SAMPLER_WAY_def LLC_WAY_def LLC_SET_def

record sampler_entry =
  s_valid :: u8
  s_type :: u8
  s_used :: u8
  s_tag :: u64
  s_ip :: u64
  s_lru :: u32

definition new_sampler_entry :: sampler_entry where
  "new_sampler_entry = \<lparr>s_valid = 0, s_type = 0, s_used = 0, s_tag = 0, s_ip = 0, s_lru = 0\<rparr>"

record ship =
  ship_rrpv :: "u32 list list"
  ship_rand_sets :: "u32 list"
  sampler :: "sampler_entry list list"
  SHCT :: "u32 list"

definition ship_initialize :: "ship option" where
  "ship_initialize =
     map_option (\<lambda>sets. \<lparr>ship_rrpv = init_rrpv, ship_rand_sets = sets,
         sampler = replicate SAMPLER_SET (map (\<lambda>j. new_sampler_entry\<lparr>s_lru := of_nat j\<rparr>) [0..<SAMPLER_WAY]),
         SHCT = replicate SHCT_SIZE 0\<rparr>)
       (init_rand_sets SAMPLER_SET)"

section \<open>Operations\<close>

definition is_it_sampled :: "nat \<Rightarrow> ship \<Rightarrow> nat" where
  "is_it_sampled sx st =
     (case first_index (\<lambda>i. ship_rand_sets st ! i = of_nat sx) SAMPLER_SET of Some i \<Rightarrow> i | None \<Rightarrow> SAMPLER_SET)"

definition SHCT_idx :: "u64 \<Rightarrow> nat" where "SHCT_idx ip = unat (ip mod of_nat SHCT_PRIME)"

definition SHCT_dec :: "u64 \<Rightarrow> u32 list \<Rightarrow> u32 list" where
  "SHCT_dec ip t = (if t ! SHCT_idx ip > 0 then t[SHCT_idx ip := t ! SHCT_idx ip - 1] else t)"

definition SHCT_inc :: "u64 \<Rightarrow> u32 list \<Rightarrow> u32 list" where
  "SHCT_inc ip t = (if t ! SHCT_idx ip < SHCT_MAX then t[SHCT_idx ip := t ! SHCT_idx ip + 1] else t)"

definition sampler_fill :: "u64 \<Rightarrow> u64 \<Rightarrow> u8 \<Rightarrow> sampler_entry \<Rightarrow> sampler_entry" where
  "sampler_fill tag ip type e = e\<lparr>s_tag := tag, s_ip := ip, s_type := type, s_used := 0\<rparr>"

text \<open>The three searches of \<^verbatim>\<open>update_sampler\<close>: a hit, an invalid entry, the least recent one.\<close>

definition sampler_access :: "u64 \<Rightarrow> u64 \<Rightarrow> u8 \<Rightarrow> sampler_entry list \<Rightarrow> u32 list \<Rightarrow>
    (nat \<times> sampler_entry list \<times> u32 list) option" where
  "sampler_access tag ip type row t =
     (case first_index (\<lambda>i. s_valid (row ! i) \<noteq> 0 \<and> s_tag (row ! i) = tag) SAMPLER_WAY of
        Some i \<Rightarrow> Some (i, row[i := (row ! i)\<lparr>s_type := type, s_used := 1\<rparr>], SHCT_dec (s_ip (row ! i)) t)
      | None \<Rightarrow>
          (case first_index (\<lambda>i. s_valid (row ! i) = 0) SAMPLER_WAY of
             Some i \<Rightarrow> Some (i, row[i := sampler_fill tag ip type ((row ! i)\<lparr>s_valid := 1\<rparr>)], t)
           | None \<Rightarrow>
               (case first_index (\<lambda>i. s_lru (row ! i) = of_nat (SAMPLER_WAY - 1)) SAMPLER_WAY of
                  Some i \<Rightarrow> Some (i, row[i := sampler_fill tag ip type (row ! i)],
                                  if s_used (row ! i) = 0 then SHCT_inc (s_ip (row ! i)) t else t)
                | None \<Rightarrow> None)))"

definition sampler_promote :: "nat \<Rightarrow> sampler_entry list \<Rightarrow> sampler_entry list" where
  "sampler_promote way row =
     (let curr_position = s_lru (row ! way)
      in (map (\<lambda>e. if s_lru e < curr_position then e\<lparr>s_lru := s_lru e + 1\<rparr> else e) row)
           [way := (row ! way)\<lparr>s_lru := 0\<rparr>])"

definition update_sampler :: "nat \<Rightarrow> u64 \<Rightarrow> u64 \<Rightarrow> u8 \<Rightarrow> ship \<Rightarrow> ship option" where
  "update_sampler s_idx address ip type st =
     (case sampler_access (address div (64 * of_nat LLC_SET)) ip type (sampler st ! s_idx) (SHCT st) of
        None \<Rightarrow> None
      | Some (way, row, t) \<Rightarrow>
          Some (st\<lparr>sampler := (sampler st)[s_idx := sampler_promote way row], SHCT := t\<rparr>))"

definition ship_find_victim :: "nat \<Rightarrow> ship \<Rightarrow> (nat \<times> ship) option" where
  "ship_find_victim sx st = map_option (\<lambda>(w, rs). (w, st\<lparr>ship_rrpv := rs\<rparr>)) (rrpv_find_victim sx (ship_rrpv st))"

definition ship_update :: "nat \<Rightarrow> nat \<Rightarrow> u64 \<Rightarrow> u64 \<Rightarrow> u32 \<Rightarrow> bool \<Rightarrow> ship \<Rightarrow> ship option" where
  "ship_update sx way full_addr ip type hit st =
     (if \<not> llc_type_ok type ip then None
      else
        let put = (\<lambda>v st. st\<lparr>ship_rrpv := set_rrpv sx way v (ship_rrpv st)\<rparr>)
        in if type = WRITEBACK then (if hit then Some st else Some (put (maxRRPV - 1) st))
           else
             let s_idx = is_it_sampled sx st
             in case (if s_idx < SAMPLER_SET then update_sampler s_idx full_addr ip (ucast type) st else Some st) of
                  None \<Rightarrow> None
                | Some st \<Rightarrow>
                    if hit then Some (put 0 st)
                    else if SHCT_idx ip \<ge> SHCT_PRIME then None
                    else Some (put (if SHCT st ! SHCT_idx ip = SHCT_MAX then maxRRPV else maxRRPV - 1) st))"

section \<open>A sampler set is a permutation of recencies\<close>

abbreviation s_pos :: "sampler_entry list \<Rightarrow> nat \<Rightarrow> nat" where "s_pos row i \<equiv> unat (s_lru (row ! i))"

definition row_ok :: "sampler_entry list \<Rightarrow> bool" where
  "row_ok row \<longleftrightarrow> length row = SAMPLER_WAY \<and> bij_betw (s_pos row) {..<SAMPLER_WAY} {..<SAMPLER_WAY}"

definition ship_ok :: "ship \<Rightarrow> bool" where
  "ship_ok st \<longleftrightarrow> rrpv_ok (ship_rrpv st) \<and> length (sampler st) = SAMPLER_SET \<and> (\<forall>r<SAMPLER_SET. row_ok (sampler st ! r)) \<and>
     length (SHCT st) = SHCT_SIZE \<and> (\<forall>x\<in>set (SHCT st). x \<le> SHCT_MAX) \<and> length (ship_rand_sets st) = SAMPLER_SET"

lemma row_okD:
  assumes "row_ok row"
  shows "length row = SAMPLER_WAY" "i < SAMPLER_WAY \<Longrightarrow> s_pos row i < SAMPLER_WAY"
    "i < SAMPLER_WAY \<Longrightarrow> j < SAMPLER_WAY \<Longrightarrow> s_pos row i = s_pos row j \<Longrightarrow> i = j"
    "p < SAMPLER_WAY \<Longrightarrow> \<exists>i<SAMPLER_WAY. s_pos row i = p"
proof -
  have b: "length row = SAMPLER_WAY" "inj_on (s_pos row) {..<SAMPLER_WAY}" "s_pos row ` {..<SAMPLER_WAY} = {..<SAMPLER_WAY}"
    using assms by (simp_all add: row_ok_def bij_betw_def)
  show "length row = SAMPLER_WAY" by (rule b(1))
  show "i < SAMPLER_WAY \<Longrightarrow> s_pos row i < SAMPLER_WAY" using b(3) by blast
  show "i < SAMPLER_WAY \<Longrightarrow> j < SAMPLER_WAY \<Longrightarrow> s_pos row i = s_pos row j \<Longrightarrow> i = j"
    using b(2) by (simp add: inj_on_def)
  show "\<exists>i<SAMPLER_WAY. s_pos row i = p" if "p < SAMPLER_WAY"
  proof -
    have "p \<in> s_pos row ` {..<SAMPLER_WAY}" using that by (simp only: b(3) lessThan_iff)
    then show ?thesis by blast
  qed
qed

lemma row_ok_cong:
  assumes "row_ok row" "length row' = length row" "\<And>i. i < SAMPLER_WAY \<Longrightarrow> s_lru (row' ! i) = s_lru (row ! i)"
  shows "row_ok row'"
proof -
  have "bij_betw (s_pos row') {..<SAMPLER_WAY} {..<SAMPLER_WAY} = bij_betw (s_pos row) {..<SAMPLER_WAY} {..<SAMPLER_WAY}"
    by (rule bij_betw_cong) (simp add: assms(3))
  with assms(1,2) show ?thesis by (simp add: row_ok_def)
qed

lemma sampler_promote_ok:
  assumes ok: "row_ok row" and w: "way < SAMPLER_WAY"
  shows "row_ok (sampler_promote way row)"
proof -
  note D = row_okD[OF ok]
  let ?row = "sampler_promote way row" and ?p = "s_pos row way"
  have pos: "s_pos ?row i = (if i = way then 0 else if s_pos row i < ?p then Suc (s_pos row i) else s_pos row i)"
    if "i < SAMPLER_WAY" for i
  proof (cases "i = way")
    case True
    with w D(1) show ?thesis by (simp add: sampler_promote_def Let_def)
  next
    case False
    have "unat (x + 1) = Suc (unat x)" if "x < y" for x y :: u32 by (rule word_less_add_one(1)[OF that])
    with False that D(1) show ?thesis by (simp add: sampler_promote_def Let_def word_less_nat_alt)
  qed
  have lt: "s_pos ?row i < SAMPLER_WAY" if "i < SAMPLER_WAY" for i
    using pos[OF that] D(2)[OF that] D(2)[OF w] by auto
  have "inj_on (s_pos ?row) {..<SAMPLER_WAY}"
  proof (rule inj_onI)
    fix i j assume m: "i \<in> {..<SAMPLER_WAY}" "j \<in> {..<SAMPLER_WAY}" "s_pos ?row i = s_pos ?row j"
    then have ij: "i < SAMPLER_WAY" "j < SAMPLER_WAY" by auto
    have ne: "s_pos row k \<noteq> ?p" if "k < SAMPLER_WAY" "k \<noteq> way" for k using D(3)[OF that(1) w] that(2) by blast
    show "i = j"
    proof (rule ccontr)
      assume neq: "i \<noteq> j"
      have "s_pos row i \<noteq> s_pos row j" using D(3)[OF ij] neq by blast
      with m(3) pos[OF ij(1)] pos[OF ij(2)] ne[OF ij(1)] ne[OF ij(2)] neq show False
        by (auto split: if_splits)
    qed
  qed
  moreover have "s_pos ?row ` {..<SAMPLER_WAY} \<subseteq> {..<SAMPLER_WAY}" using lt by auto
  ultimately have "bij_betw (s_pos ?row) {..<SAMPLER_WAY} {..<SAMPLER_WAY}"
    by (simp add: bij_betw_def endo_inj_surj)
  with D(1) show ?thesis by (simp add: row_ok_def sampler_promote_def Let_def)
qed

lemma SHCT_idx_bound: "SHCT_idx ip < SHCT_PRIME" "SHCT_idx ip < SHCT_SIZE"
proof -
  show "SHCT_idx ip < SHCT_PRIME" by (simp add: SHCT_idx_def unat_mod ship_sizes)
  then show "SHCT_idx ip < SHCT_SIZE" by (simp add: ship_sizes)
qed

definition counters_ok :: "u32 list \<Rightarrow> bool" where
  "counters_ok t \<longleftrightarrow> length t = SHCT_SIZE \<and> (\<forall>x\<in>set t. x \<le> SHCT_MAX)"

lemma counters_ok_steps:
  assumes "counters_ok t"
  shows "counters_ok (SHCT_dec ip t)" "counters_ok (SHCT_inc ip t)"
proof -
  have u: "\<forall>x\<in>set (t[k := v]). x \<le> SHCT_MAX" if "v \<le> SHCT_MAX" for k v
    using assms that set_update_subset_insert[of t k v] by (auto simp: counters_ok_def)
  have "t ! SHCT_idx ip \<in> set t" using SHCT_idx_bound(2)[of ip] assms by (simp add: counters_ok_def)
  then have le: "t ! SHCT_idx ip \<le> SHCT_MAX" using assms by (simp add: counters_ok_def)
  have "t ! SHCT_idx ip - 1 \<le> SHCT_MAX" if "t ! SHCT_idx ip > 0"
  proof -
    have "unat (t ! SHCT_idx ip - 1) \<le> unat (t ! SHCT_idx ip)" using that by (subst unat_minus_one) (auto simp: word_gt_0)
    also have "\<dots> \<le> unat SHCT_MAX" using le by (simp add: word_le_nat_alt)
    finally show ?thesis by (simp add: word_le_nat_alt)
  qed
  from u[OF this] assms show "counters_ok (SHCT_dec ip t)" by (simp add: counters_ok_def SHCT_dec_def)
  show "counters_ok (SHCT_inc ip t)"
    using u[OF word_less_add_one(2)[of "t ! SHCT_idx ip" SHCT_MAX]] assms by (simp add: counters_ok_def SHCT_inc_def)
qed

lemma sampler_access_law:
  assumes ok: "row_ok row" and t: "counters_ok t"
  obtains i row' t' where "sampler_access tag ip type row t = Some (i, row', t')" "i < SAMPLER_WAY" "row_ok row'" "counters_ok t'"
proof -
  note D = row_okD[OF ok]
  have upd: "row_ok (row[i := f (row ! i)])" if "i < SAMPLER_WAY" "\<And>e. s_lru (f e) = s_lru e" for i f
    by (rule row_ok_cong[OF ok]) (use that D(1) in \<open>simp_all add: nth_list_update\<close>)
  show thesis
  proof (cases "first_index (\<lambda>i. s_valid (row ! i) \<noteq> 0 \<and> s_tag (row ! i) = tag) SAMPLER_WAY")
    case (Some i)
    then have i: "i < SAMPLER_WAY" using first_index_SomeD by blast
    have "sampler_access tag ip type row t =
        Some (i, row[i := (row ! i)\<lparr>s_type := type, s_used := 1\<rparr>], SHCT_dec (s_ip (row ! i)) t)"
      by (simp add: sampler_access_def Some)
    moreover have "row_ok (row[i := (row ! i)\<lparr>s_type := type, s_used := 1\<rparr>])" by (rule upd[OF i]) simp
    ultimately show thesis using that i counters_ok_steps(1)[OF t] by blast
  next
    case N1: None
    show thesis
    proof (cases "first_index (\<lambda>i. s_valid (row ! i) = 0) SAMPLER_WAY")
      case (Some i)
      then have i: "i < SAMPLER_WAY" using first_index_SomeD by blast
      have a: "sampler_access tag ip type row t =
          Some (i, row[i := sampler_fill tag ip type ((row ! i)\<lparr>s_valid := 1\<rparr>)], t)"
        by (simp add: sampler_access_def N1 Some)
      have "row_ok (row[i := sampler_fill tag ip type ((row ! i)\<lparr>s_valid := 1\<rparr>)])"
        by (rule upd[OF i]) (simp add: sampler_fill_def)
      from that[OF a i this t] show thesis .
    next
      case N2: None
      obtain j where j: "j < SAMPLER_WAY" "s_pos row j = SAMPLER_WAY - 1"
        using D(4)[of "SAMPLER_WAY - 1"] by (auto simp: ship_sizes)
      then have "s_lru (row ! j) = of_nat (SAMPLER_WAY - 1)" by (simp add: word_unat_eq_iff ship_sizes)
      then have "\<exists>i. first_index (\<lambda>i. s_lru (row ! i) = of_nat (SAMPLER_WAY - 1)) SAMPLER_WAY = Some i"
        by (rule first_index_exI[OF j(1)])
      then obtain i where
        S: "first_index (\<lambda>i. s_lru (row ! i) = of_nat (SAMPLER_WAY - 1)) SAMPLER_WAY = Some i" by blast
      then have i: "i < SAMPLER_WAY" using first_index_SomeD by blast
      let ?t = "if s_used (row ! i) = 0 then SHCT_inc (s_ip (row ! i)) t else t"
      have "counters_ok ?t" using t counters_ok_steps[OF t] by simp
      moreover have "sampler_access tag ip type row t = Some (i, row[i := sampler_fill tag ip type (row ! i)], ?t)"
        by (simp only: sampler_access_def N1 N2 S option.case)
      moreover have "row_ok (row[i := sampler_fill tag ip type (row ! i)])"
        by (rule upd[OF i]) (simp add: sampler_fill_def)
      ultimately show thesis using i by (intro that)
    qed
  qed
qed

lemma update_sampler_law:
  assumes "ship_ok st" "s_idx < SAMPLER_SET"
  obtains st' where "update_sampler s_idx addr ip type st = Some st'" "ship_ok st'"
proof -
  have r: "row_ok (sampler st ! s_idx)" and t: "counters_ok (SHCT st)"
    using assms by (simp_all add: ship_ok_def counters_ok_def)
  obtain i row' t' where a: "sampler_access (addr div (64 * of_nat LLC_SET)) ip type (sampler st ! s_idx) (SHCT st) = Some (i, row', t')"
    "i < SAMPLER_WAY" "row_ok row'" "counters_ok t'"
    by (rule sampler_access_law[OF r t])
  note p = sampler_promote_ok[OF a(3,2)]
  have "ship_ok (st\<lparr>sampler := (sampler st)[s_idx := sampler_promote i row'], SHCT := t'\<rparr>)"
    using assms(1) a(4) p by (simp add: ship_ok_def counters_ok_def nth_update_if)
  with a(1) show thesis by (intro that) (simp_all add: update_sampler_def)
qed

lemma ship_put_ok: "ship_ok st \<Longrightarrow> v \<le> maxRRPV \<Longrightarrow> ship_ok (st\<lparr>ship_rrpv := set_rrpv sx way v (ship_rrpv st)\<rparr>)"
  by (simp add: ship_ok_def set_rrpv_ok)

lemma ship_update_law:
  assumes ok: "ship_ok st" and ty: "llc_type_ok type ip"
  shows "\<exists>st'. ship_update sx way addr ip type hit st = Some st' \<and> ship_ok st'"
proof -
  have v: "0 \<le> maxRRPV" "maxRRPV - 1 \<le> maxRRPV" "maxRRPV \<le> maxRRPV" by (simp_all add: maxRRPV_def)
  show ?thesis
  proof (cases "type = WRITEBACK")
    case True
    with ok ty ship_put_ok[OF ok v(2)] show ?thesis by (cases hit) (simp_all add: ship_update_def Let_def)
  next
    case False
    obtain st1 where s: "(if is_it_sampled sx st < SAMPLER_SET then update_sampler (is_it_sampled sx st) addr ip (ucast type) st
        else Some st) = Some st1" "ship_ok st1"
      using update_sampler_law[OF ok] ok by (metis option.inject)
    note p = ship_put_ok[OF s(2) v(1)] ship_put_ok[OF s(2) v(2)] ship_put_ok[OF s(2) v(3)]
    have "\<not> SHCT_idx ip \<ge> SHCT_PRIME" using SHCT_idx_bound(1)[of ip] by simp
    with False ty p s(1) show ?thesis by (cases hit) (simp_all add: ship_update_def Let_def)
  qed
qed

interpretation ship: llc_policy ship_ok ship_find_victim ship_update
proof (unfold_locales, goal_cases)
  case (1 s sx)
  then have "rrpv_ok (ship_rrpv s)" by (simp add: ship_ok_def)
  from rrpv_victim_law[OF this 1(2)] obtain w row where "rrpv_find_victim sx (ship_rrpv s) = Some (w, (ship_rrpv s)[sx := row])"
    "w < LLC_WAY" "rrpv_ok ((ship_rrpv s)[sx := row])" by blast
  with 1(1) show ?case by (simp add: ship_find_victim_def ship_ok_def)
next
  case (2 s sx way type ip addr hit)
  then show ?case by (intro ship_update_law)
qed

lemma ship_rand_ints: "rand_ints_from SAMPLER_SET 1 []"
  unfolding SAMPLER_SET_def by code_simp

lemma ship_initialize_ok:
  obtains st where "ship_initialize = Some st" "ship_ok st"
proof -
  obtain sets where s: "init_rand_sets SAMPLER_SET = Some sets" "distinct sets" "length sets = SAMPLER_SET"
    "\<forall>s\<in>set sets. unat s < LLC_SET"
    by (rule init_rand_sets_ok[OF ship_rand_ints])
  let ?row = "map (\<lambda>j. new_sampler_entry\<lparr>s_lru := of_nat j\<rparr>) [0..<SAMPLER_WAY]"
  have "s_pos ?row i = i" if "i < SAMPLER_WAY" for i using that by (simp add: unat_of_nat ship_sizes)
  then have "bij_betw (s_pos ?row) {..<SAMPLER_WAY} {..<SAMPLER_WAY} = bij_betw id {..<SAMPLER_WAY} {..<SAMPLER_WAY}"
    by (intro bij_betw_cong) simp
  then have r: "row_ok ?row" by (simp add: row_ok_def)
  show thesis
    by (rule that, simp add: ship_initialize_def s(1)) (use r s(3) in \<open>simp add: ship_ok_def init_rrpv_ok\<close>)
qed

text \<open>the draw of SHiP's sampler sets ends, and then the policy never fails: every sampler set stays a permutation of the
  recencies 0 to 15 (so a victim is always found in it) and every counter stays within its three bits.\<close>

theorem ship_total:
  assumes "\<forall>e\<in>set es. llc_event_ok e"
  shows "\<exists>st st'. ship_initialize = Some st \<and> llc_run ship_find_victim ship_update es st = Some st' \<and>
    (\<forall>r<SAMPLER_SET. row_ok (sampler st' ! r)) \<and> (\<forall>x\<in>set (SHCT st'). x \<le> SHCT_MAX)"
proof -
  obtain st where st: "ship_initialize = Some st" "ship_ok st" by (rule ship_initialize_ok)
  with ship.run_total[OF st(2) assms] show ?thesis by (auto simp: ship_ok_def)
qed

lemma ship_total_witness:
  "\<exists>st st'. ship_initialize = Some st \<and>
     llc_run ship_find_victim ship_update [LlcVictim 5, LlcUpdate 5 0 64 4096 LOAD False] st = Some st'"
  using ship_total[of "[LlcVictim 5, LlcUpdate 5 0 64 4096 LOAD False]"]
  by (auto simp: LLC_SET_def LLC_WAY_def llc_type_ok_def branch_defs)

end
