(* ===== verification/Vmem.thy ===== *)
theory Vmem
  imports Prelude
begin

text \<open>
  The virtual memory of \<^verbatim>\<open>src/vmem.cc\<close>: physical pages are handed out on first use from a shuffled
  free list, to data pages and to the pages of the page tables alike. Where the code prints an error and
  exits, the model returns \<open>None\<close>. Page sizes are below \<open>2 ^ 31\<close>, where the code's \<^verbatim>\<open>1 << lg2(..)\<close> is defined.
\<close>

section \<open>State and construction\<close>

definition VMEM_RAND_FACTOR :: u64 where "VMEM_RAND_FACTOR = 91827349653"
definition VMEM_RESERVE_CAPACITY :: u64 where "VMEM_RESERVE_CAPACITY = 1048576"

fun lg2 :: "nat \<Rightarrow> nat" where
  "lg2 n = (if n < 2 then 0 else 1 + lg2 (n div 2))"

declare lg2.simps [simp del]

record vmem =
  num_cpus :: u32
  page_size :: u32
  num_ppages :: u64
  ppage_free_list :: "u64 list"
  vpage_to_ppage_map :: "(u64 \<rightharpoonup> u64) list"
  pt_levels :: u32
  page_table :: "(u64 \<rightharpoonup> u64) list list"
  rand_state :: u64

definition next_rand :: "u64 \<Rightarrow> u64" where
  "next_rand r =
     (let r = r + VMEM_RAND_FACTOR; r = r XOR push_bit 13 r; r = r XOR drop_bit 7 r; r = r XOR push_bit 11 r
      in r XOR drop_bit 1 r)"

definition swap_at :: "nat \<Rightarrow> nat \<Rightarrow> 'a list \<Rightarrow> 'a list" where
  "swap_at i j xs = xs[i := xs ! j, j := xs ! i]"

definition shuffle_pages :: "u64 \<Rightarrow> u64 list \<Rightarrow> u64 \<times> u64 list" where
  "shuffle_pages r free =
     foldl (\<lambda>(r, free) i. let r = next_rand r in (r, swap_at i (unat (r mod of_nat (length free))) free))
       (r, free) [0..<length free]"

definition reserve_ppages :: "u64 \<Rightarrow> nat" where
  "reserve_ppages pg_size = (if VMEM_RESERVE_CAPACITY < pg_size then 1 else unat (VMEM_RESERVE_CAPACITY div pg_size))"

definition virtual_memory :: "u32 \<Rightarrow> u64 \<Rightarrow> u64 \<Rightarrow> u32 \<Rightarrow> u64 \<Rightarrow> vmem option" where
  "virtual_memory cpus capacity pg_size levels random_seed =
     (let psize = ucast pg_size :: u32; npages = capacity div ucast psize
      in if capacity mod ucast psize \<noteq> 0 then None
         else if unat pg_size \<noteq> 2 ^ lg2 (unat pg_size) \<or> pg_size < 1024 then None
         else
           let rs = random_seed + VMEM_RAND_FACTOR; rs = (if rs = 0 then push_bit 1 VMEM_RAND_FACTOR else rs);
               n = reserve_ppages pg_size; free = map of_nat [0..<unat npages]
           in if length free < n then None
              else
                let (rs, free) = shuffle_pages rs (drop n free)
                in Some \<lparr>num_cpus = cpus, page_size = psize, num_ppages = npages, ppage_free_list = free,
                     vpage_to_ppage_map = replicate (unat cpus) Map.empty, pt_levels = levels,
                     page_table = replicate (unat cpus) (replicate (unat levels) Map.empty), rand_state = rs\<rparr>)"

section \<open>Translation\<close>

definition get_next_free_ppage :: "vmem \<Rightarrow> (u64 \<times> vmem) option" where
  "get_next_free_ppage st =
     (case ppage_free_list st of [] \<Rightarrow> None | p # ps \<Rightarrow> Some (p, st\<lparr>ppage_free_list := ps\<rparr>))"

definition page_bits :: "vmem \<Rightarrow> nat" where "page_bits st = lg2 (unat (page_size st))"

definition va_to_pa :: "nat \<Rightarrow> u64 \<Rightarrow> vmem \<Rightarrow> (u64 \<times> vmem) option" where
  "va_to_pa cpu vaddr st =
     (let vpage = drop_bit (page_bits st) vaddr; voffset = vaddr AND (2 ^ page_bits st - 1)
      in if \<not> cpu < length (vpage_to_ppage_map st) then None
         else case (case (vpage_to_ppage_map st ! cpu) vpage of
                Some p \<Rightarrow> Some (p, st)
              | None \<Rightarrow> map_option (\<lambda>(p, st). (p, st\<lparr>vpage_to_ppage_map :=
                    (vpage_to_ppage_map st)[cpu := (vpage_to_ppage_map st ! cpu)(vpage \<mapsto> p)]\<rparr>)) (get_next_free_ppage st)) of
            None \<Rightarrow> None
          | Some (p, st) \<Rightarrow> Some (push_bit (page_bits st) p + voffset, st))"

definition get_pte_pa :: "nat \<Rightarrow> u64 \<Rightarrow> nat \<Rightarrow> vmem \<Rightarrow> (u64 \<times> vmem) option" where
  "get_pte_pa cpu vaddr level st =
     (let vpage = drop_bit (page_bits st) vaddr; pte_offset = vpage AND 511;
          shift_bits = 9 + 9 * (unat (pt_levels st) - 1 - level); tag = drop_bit shift_bits vpage
      in if \<not> cpu < length (page_table st) \<or> \<not> level < length (page_table st ! cpu) then None
         else case (case (page_table st ! cpu ! level) tag of
                Some p \<Rightarrow> Some (p, st)
              | None \<Rightarrow> map_option (\<lambda>(p, st). (p, st\<lparr>page_table :=
                    (page_table st)[cpu := (page_table st ! cpu)[level := (page_table st ! cpu ! level)(tag \<mapsto> p)]]\<rparr>))
                  (get_next_free_ppage st)) of
            None \<Rightarrow> None
          | Some (p, st) \<Rightarrow> Some (push_bit (page_bits st) p + pte_offset * 8, st))"

datatype vm_event = Translate nat u64 | Walk nat u64 nat

fun vm_step :: "vm_event \<Rightarrow> vmem \<Rightarrow> (u64 \<times> vmem) option" where
  "vm_step (Translate cpu va) st = va_to_pa cpu va st"
| "vm_step (Walk cpu va level) st = get_pte_pa cpu va level st"

fun vm_run :: "vm_event list \<Rightarrow> vmem \<Rightarrow> vmem option" where
  "vm_run [] st = Some st"
| "vm_run (e # es) st = (case vm_step e st of None \<Rightarrow> None | Some (_, st) \<Rightarrow> vm_run es st)"

section \<open>Invariant\<close>

text \<open>Every page handed out, by the table that holds it: table 0 of a core is its map of data pages.\<close>

definition mapped :: "vmem \<Rightarrow> nat \<times> nat \<times> u64 \<rightharpoonup> u64" where
  "mapped st = (\<lambda>(cpu, tab, key).
     if \<not> cpu < unat (num_cpus st) then None
     else case tab of 0 \<Rightarrow> (vpage_to_ppage_map st ! cpu) key
        | Suc level \<Rightarrow> if level < unat (pt_levels st) then (page_table st ! cpu ! level) key else None)"

definition vm_ok :: "nat \<Rightarrow> vmem \<Rightarrow> bool" where
  "vm_ok r st \<longleftrightarrow>
     length (vpage_to_ppage_map st) = unat (num_cpus st) \<and> length (page_table st) = unat (num_cpus st) \<and>
     (\<forall>c<unat (num_cpus st). length (page_table st ! c) = unat (pt_levels st)) \<and>
     unat (num_ppages st) * 2 ^ page_bits st < 2 ^ 64 \<and>
     distinct (ppage_free_list st) \<and> (\<forall>p\<in>set (ppage_free_list st). r \<le> unat p \<and> p < num_ppages st) \<and>
     (\<forall>k p. mapped st k = Some p \<longrightarrow> r \<le> unat p \<and> p < num_ppages st \<and> p \<notin> set (ppage_free_list st)) \<and>
     (\<forall>k k' p. mapped st k = Some p \<longrightarrow> mapped st k' = Some p \<longrightarrow> k = k')"

lemma vm_okD:
  assumes "vm_ok r st"
  shows "length (vpage_to_ppage_map st) = unat (num_cpus st)" "length (page_table st) = unat (num_cpus st)"
    "c < unat (num_cpus st) \<Longrightarrow> length (page_table st ! c) = unat (pt_levels st)"
    "unat (num_ppages st) * 2 ^ page_bits st < 2 ^ 64" "distinct (ppage_free_list st)"
    "p \<in> set (ppage_free_list st) \<Longrightarrow> r \<le> unat p \<and> p < num_ppages st"
    "mapped st k = Some p \<Longrightarrow> r \<le> unat p \<and> p < num_ppages st \<and> p \<notin> set (ppage_free_list st)"
    "mapped st k = Some p \<Longrightarrow> mapped st k' = Some p \<Longrightarrow> k = k'"
  using assms unfolding vm_ok_def by blast+

text \<open>Handing out the first free page for a key that has none.\<close>

lemma vm_ok_alloc:
  assumes ok: "vm_ok r st" and free: "ppage_free_list st = p # ps" and none: "mapped st k = None"
    and st': "mapped st' = (mapped st)(k \<mapsto> p)" "ppage_free_list st' = ps" "num_cpus st' = num_cpus st"
      "pt_levels st' = pt_levels st" "page_size st' = page_size st" "num_ppages st' = num_ppages st"
      "length (vpage_to_ppage_map st') = length (vpage_to_ppage_map st)" "length (page_table st') = length (page_table st)"
      "\<And>c. length (page_table st' ! c) = length (page_table st ! c)"
  shows "vm_ok r st'"
proof -
  note D = vm_okD[OF ok]
  have p: "r \<le> unat p" "p < num_ppages st" "p \<notin> set ps" using D(5) D(6)[of p] free by auto
  have "mapped st' j = Some q \<longrightarrow> r \<le> unat q \<and> q < num_ppages st' \<and> q \<notin> set (ppage_free_list st')" for j q
    using p D(7)[of j q] free by (auto simp: st')
  moreover have np: "mapped st j \<noteq> Some p" for j using D(7)[of j p] free by auto
  have "j = j'" if "mapped st' j = Some q" "mapped st' j' = Some q" for j j' q
    using that np[of j] np[of j'] D(8)[of j q j'] by (auto simp: st' fun_upd_def split: if_splits)
  moreover have "distinct (ppage_free_list st')" "\<forall>q\<in>set (ppage_free_list st'). r \<le> unat q \<and> q < num_ppages st'"
    using D(5) D(6) free by (auto simp: st')
  moreover have "unat (num_ppages st') * 2 ^ page_bits st' < 2 ^ 64" using D(4) by (simp only: st' page_bits_def)
  ultimately show ?thesis
    unfolding vm_ok_def st'(7-9) using D(1-3) by (simp only: st'(3,4)) blast
qed

definition vm_same :: "vmem \<Rightarrow> vmem \<Rightarrow> bool" where
  "vm_same st st' \<longleftrightarrow> num_cpus st' = num_cpus st \<and> pt_levels st' = pt_levels st \<and> page_size st' = page_size st \<and>
     num_ppages st' = num_ppages st \<and> mapped st \<subseteq>\<^sub>m mapped st'"

lemma vm_same_refl: "vm_same st st" by (simp add: vm_same_def)

lemma vm_same_trans: "vm_same a b \<Longrightarrow> vm_same b c \<Longrightarrow> vm_same a c"
  by (auto simp: vm_same_def intro: map_le_trans)

lemma va_to_pa_law:
  assumes ok: "vm_ok r st" and run: "va_to_pa cpu va st = Some (pa, st')"
  obtains p where "vm_ok r st'" "vm_same st st'" "cpu < unat (num_cpus st)"
    "mapped st' (cpu, 0, drop_bit (page_bits st) va) = Some p"
    "pa = push_bit (page_bits st) p + (va AND (2 ^ page_bits st - 1))"
proof -
  note D = vm_okD[OF ok]
  let ?v = "drop_bit (page_bits st) va"
  have cpu: "cpu < length (vpage_to_ppage_map st)" using run by (auto simp: va_to_pa_def Let_def split: if_splits)
  then have c: "cpu < unat (num_cpus st)" using D(1) by simp
  show thesis
  proof (cases "(vpage_to_ppage_map st ! cpu) ?v")
    case (Some p)
    with run cpu have "st' = st" "pa = push_bit (page_bits st) p + (va AND (2 ^ page_bits st - 1))"
      by (auto simp: va_to_pa_def Let_def)
    with Some ok c show thesis by (intro that[of p]) (simp_all add: vm_same_refl mapped_def)
  next
    case None
    then obtain p ps where f: "ppage_free_list st = p # ps"
      using run cpu by (cases "ppage_free_list st") (auto simp: va_to_pa_def Let_def get_next_free_ppage_def)
    let ?st = "st\<lparr>ppage_free_list := ps, vpage_to_ppage_map := (vpage_to_ppage_map st)[cpu := (vpage_to_ppage_map st ! cpu)(?v \<mapsto> p)]\<rparr>"
    have r: "st' = ?st" "pa = push_bit (page_bits st) p + (va AND (2 ^ page_bits st - 1))"
      using run cpu None f by (auto simp: va_to_pa_def Let_def get_next_free_ppage_def page_bits_def)
    have m: "mapped ?st = (mapped st)((cpu, 0, ?v) \<mapsto> p)"
      using cpu c by (auto simp: mapped_def fun_eq_iff nth_list_update split: nat.splits)
    have n: "mapped st (cpu, 0, ?v) = None" using None by (simp add: mapped_def)
    have "vm_ok r ?st" by (rule vm_ok_alloc[OF ok f n m]) simp_all
    moreover have "vm_same st ?st" unfolding vm_same_def m map_le_def using n by (auto simp del: drop_bit_drop_bit)
    ultimately show thesis using r c m by (intro that[of p]) simp_all
  qed
qed

lemma get_pte_pa_law:
  assumes ok: "vm_ok r st" and run: "get_pte_pa cpu va level st = Some (pa, st')"
  obtains p where "vm_ok r st'" "vm_same st st'" "cpu < unat (num_cpus st)" "level < unat (pt_levels st)"
    "mapped st' (cpu, Suc level, drop_bit (9 + 9 * (unat (pt_levels st) - 1 - level)) (drop_bit (page_bits st) va)) = Some p"
    "pa = push_bit (page_bits st) p + (drop_bit (page_bits st) va AND 511) * 8"
proof -
  note D = vm_okD[OF ok]
  let ?v = "drop_bit (9 + 9 * (unat (pt_levels st) - 1 - level)) (drop_bit (page_bits st) va)"
  have cpu: "cpu < length (page_table st)" "level < length (page_table st ! cpu)"
    using run by (auto simp: get_pte_pa_def Let_def split: if_splits)
  then have c: "cpu < unat (num_cpus st)" "level < unat (pt_levels st)" using D(2) D(3)[of cpu] by simp_all
  show thesis
  proof (cases "(page_table st ! cpu ! level) ?v")
    case (Some p)
    with run cpu have "st' = st" "pa = push_bit (page_bits st) p + (drop_bit (page_bits st) va AND 511) * 8"
      by (auto simp: get_pte_pa_def Let_def)
    with Some ok c show thesis by (intro that[of p]) (simp_all add: vm_same_refl mapped_def)
  next
    case None
    then obtain p ps where f: "ppage_free_list st = p # ps"
      using run cpu by (cases "ppage_free_list st") (auto simp: get_pte_pa_def Let_def get_next_free_ppage_def)
    let ?st = "st\<lparr>ppage_free_list := ps, page_table := (page_table st)[cpu := (page_table st ! cpu)[level :=
        (page_table st ! cpu ! level)(?v \<mapsto> p)]]\<rparr>"
    have r: "st' = ?st" "pa = push_bit (page_bits st) p + (drop_bit (page_bits st) va AND 511) * 8"
      using run cpu None f by (auto simp: get_pte_pa_def Let_def get_next_free_ppage_def page_bits_def)
    have m: "mapped ?st = (mapped st)((cpu, Suc level, ?v) \<mapsto> p)"
      using cpu c by (auto simp: mapped_def fun_eq_iff nth_list_update split: nat.splits)
    have n: "mapped st (cpu, Suc level, ?v) = None" using None by (simp add: mapped_def)
    have "vm_ok r ?st"
      by (rule vm_ok_alloc[OF ok f n m]) (use cpu in \<open>simp_all add: nth_list_update\<close>)
    moreover have "vm_same st ?st" unfolding vm_same_def m map_le_def using n by (auto simp del: drop_bit_drop_bit)
    ultimately show thesis using r c m by (intro that[of p]) simp_all
  qed
qed

lemma vm_step_law:
  assumes "vm_ok r st" "vm_step e st = Some (pa, st')"
  shows "vm_ok r st' \<and> vm_same st st'"
proof (cases e)
  case (Translate cpu va)
  with assms(2) have "va_to_pa cpu va st = Some (pa, st')" by simp
  from va_to_pa_law[OF assms(1) this] show ?thesis by metis
next
  case (Walk cpu va level)
  with assms(2) have "get_pte_pa cpu va level st = Some (pa, st')" by simp
  from get_pte_pa_law[OF assms(1) this] show ?thesis by metis
qed

lemma vm_run_law:
  "vm_ok r st \<Longrightarrow> vm_run es st = Some st' \<Longrightarrow> vm_ok r st' \<and> vm_same st st'"
proof (induction es arbitrary: st)
  case Nil
  then show ?case by (simp add: vm_same_refl)
next
  case (Cons e es)
  then obtain pa st1 where s: "vm_step e st = Some (pa, st1)" "vm_run es st1 = Some st'"
    by (auto split: option.splits)
  from vm_step_law[OF Cons.prems(1) s(1)] Cons.IH[of st1] s(2) show ?case using vm_same_trans by blast
qed

section \<open>Construction\<close>

lemma lg2_pow: "lg2 (2 ^ n) = n"
  by (induction n) (subst lg2.simps, simp)+

lemma mset_swap_at: "i < length xs \<Longrightarrow> j < length xs \<Longrightarrow> mset (swap_at i j xs) = mset xs"
  unfolding swap_at_def by (rule mset_swap)

lemma shuffle_pages_law:
  assumes "length free < 2 ^ 64"
  shows "mset (snd (shuffle_pages r free)) = mset free"
proof -
  have "length (snd (foldl (\<lambda>(r, free) i. let r = next_rand r in (r, swap_at i (unat (r mod of_nat (length free))) free))
       (r, free) [0..<n])) = length free \<and>
    mset (snd (foldl (\<lambda>(r, free) i. let r = next_rand r in (r, swap_at i (unat (r mod of_nat (length free))) free))
       (r, free) [0..<n])) = mset free" if "n \<le> length free" for n
    using that
  proof (induction n)
    case (Suc n)
    obtain r1 f1 where f: "foldl (\<lambda>(r, free) i. let r = next_rand r in (r, swap_at i (unat (r mod of_nat (length free))) free))
       (r, free) [0..<n] = (r1, f1)" by (rule prod.exhaust)
    with Suc have f1: "length f1 = length free" "mset f1 = mset free" by simp_all
    have "unat (next_rand r1 mod of_nat (length f1)) < length f1"
    proof -
      have "0 < length free" using Suc.prems by linarith
      then show ?thesis using f1(1) assms by (simp add: unat_mod unat_of_nat)
    qed
    then show ?case using Suc.prems f f1 mset_swap_at[of n f1] by (simp add: Let_def swap_at_def)
  qed simp
  from this[of "length free"] show ?thesis by (simp add: shuffle_pages_def)
qed

lemma virtual_memory_ok:
  assumes "virtual_memory cpus capacity pg_size levels seed = Some st" "pg_size < 2 ^ 31"
  shows "vm_ok (reserve_ppages pg_size) st" "unat pg_size = 2 ^ page_bits st" "page_bits st < 31"
    "unat (num_ppages st) * unat pg_size = unat capacity" "10 \<le> page_bits st"
proof -
  let ?p = "ucast pg_size :: u32" and ?n = "reserve_ppages pg_size"
  have lt: "unat pg_size < 2 ^ 31" using assms(2) by (simp add: word_less_nat_alt)
  then have up: "unat ?p = unat pg_size" "ucast ?p = pg_size"
    by (simp_all add: unsigned_ucast_eq unsigned_take_bit_eq take_bit_nat_eq_self word_unat_eq_iff)
  obtain rs free where sh: "shuffle_pages (if seed + VMEM_RAND_FACTOR = 0 then push_bit 1 VMEM_RAND_FACTOR else seed + VMEM_RAND_FACTOR)
      (drop ?n (map of_nat [0..<unat (capacity div pg_size)])) = (rs, free)" by (rule prod.exhaust)
  have g: "capacity mod pg_size = 0" "unat pg_size = 2 ^ lg2 (unat pg_size)" "\<not> pg_size < 1024"
    and st: "st = \<lparr>num_cpus = cpus, page_size = ?p, num_ppages = capacity div pg_size, ppage_free_list = free,
        vpage_to_ppage_map = replicate (unat cpus) Map.empty, pt_levels = levels,
        page_table = replicate (unat cpus) (replicate (unat levels) Map.empty), rand_state = rs\<rparr>"
    using assms(1) sh by (auto simp: virtual_memory_def up Let_def split: if_splits)
  show b: "unat pg_size = 2 ^ page_bits st" using g(2) by (simp add: page_bits_def st up)
  with lt show "page_bits st < 31" by (metis power_strict_increasing_iff one_less_numeral_iff semiring_norm(76))
  have "(2 :: nat) ^ 10 \<le> 2 ^ page_bits st" using g(3) b by (simp add: word_less_nat_alt)
  then show "10 \<le> page_bits st" by (metis power_increasing_iff one_less_numeral_iff semiring_norm(76))
  have "unat capacity mod unat pg_size = 0" using arg_cong[OF g(1), of unat] by (simp add: unat_mod)
  then show cap: "unat (num_ppages st) * unat pg_size = unat capacity" by (simp add: st unat_div) (metis mod_0_imp_dvd dvd_div_mult_self)
  let ?N = "unat (capacity div pg_size)"
  have N: "?N < 2 ^ 64" using unsigned_less[of "capacity div pg_size", where ?'a = nat] by simp
  have inj: "inj_on (of_nat :: nat \<Rightarrow> u64) {0..<?N}" using N by (auto simp: inj_on_def word_unat_eq_iff unat_of_nat)
  have d: "drop ?n (map of_nat [0..<?N]) = (map of_nat [?n..<?N] :: u64 list)" by (simp add: drop_map)
  have ms: "mset free = mset (map of_nat [?n..<?N])"
  proof -
    have "length (map of_nat [?n..<?N] :: u64 list) < 2 ^ 64" using N by simp
    from shuffle_pages_law[OF this] sh show ?thesis unfolding d by (metis snd_conv)
  qed
  have "distinct (map of_nat [?n..<?N] :: u64 list)" using inj by (auto simp: distinct_map inj_on_def)
  then have dist: "distinct free" using ms mset_eq_imp_distinct_iff by blast
  have set: "set free = of_nat ` {?n..<?N}" using mset_eq_setD[OF ms] by simp
  have range: "?n \<le> unat q \<and> q < num_ppages st" if "q \<in> set free" for q
    using that N unfolding set by (auto simp: st unat_of_nat word_less_nat_alt)
  have m: "mapped st k = None" for k by (cases k) (auto simp: mapped_def st split: nat.splits)
  have "unat (num_ppages st) * 2 ^ page_bits st < 2 ^ 64"
    using cap b unsigned_less[of capacity, where ?'a = nat] by simp
  with dist range m show "vm_ok ?n st" by (simp add: vm_ok_def) (simp add: st)
qed

section \<open>Properties\<close>

text \<open>A physical address splits into its page and its offset.\<close>

lemma physical_split:
  fixes p off :: u64
  assumes "unat n * 2 ^ b < 2 ^ 64" "p < n" "unat off < 2 ^ b"
  shows "unat (push_bit b p + off) = unat p * 2 ^ b + unat off"
proof -
  have "unat p * 2 ^ b + unat off < (unat p + 1) * 2 ^ b" using assms(3) by simp
  also have "\<dots> \<le> unat n * 2 ^ b" using assms(2) by (intro mult_right_mono) (simp_all add: word_less_nat_alt)
  finally have lt: "unat p * 2 ^ b + unat off < 2 ^ 64" using assms(1) by simp
  then have "unat (push_bit b p) = unat p * 2 ^ b"
    unfolding unsigned_push_bit_eq by (simp add: push_bit_eq_mult take_bit_eq_mod)
  with lt show ?thesis by (simp add: unat_word_ariths)
qed

lemma physical_eq_iff:
  fixes p q a b :: u64
  assumes n: "unat n * 2 ^ k < 2 ^ 64" and "p < n" "q < n" "unat a < 2 ^ k" "unat b < 2 ^ k"
  shows "push_bit k p + a = push_bit k q + b \<longleftrightarrow> p = q \<and> a = b"
proof
  assume "push_bit k p + a = push_bit k q + b"
  then have e: "unat p * 2 ^ k + unat a = unat q * 2 ^ k + unat b"
    using physical_split[OF n assms(2,4)] physical_split[OF n assms(3,5)] by simp
  have "(unat p * 2 ^ k + unat a) div 2 ^ k = unat p" "(unat p * 2 ^ k + unat a) mod 2 ^ k = unat a"
    "(unat q * 2 ^ k + unat b) div 2 ^ k = unat q" "(unat q * 2 ^ k + unat b) mod 2 ^ k = unat b"
    using assms(4,5) by simp_all
  with e show "p = q \<and> a = b" by (metis word_unat_eq_iff)
qed simp

lemma page_offset: "unat ((va :: u64) AND (2 ^ k - 1)) = unat va mod 2 ^ k" if "k < 64" for va
proof -
  have "va AND (2 ^ k - 1) = take_bit k va" by (simp add: take_bit_eq_mask mask_eq_exp_minus_1)
  then show ?thesis unfolding \<open>va AND (2 ^ k - 1) = take_bit k va\<close> unsigned_take_bit_eq by (simp only: take_bit_eq_mod)
qed

lemma page_number: "unat (drop_bit k (va :: u64)) = unat va div 2 ^ k"
  unfolding unsigned_drop_bit_eq using unsigned_less[of va, where ?'a = nat] by (simp add: drop_bit_eq_div take_bit_nat_eq_self)

lemma page_and_offset: "k < 64 \<Longrightarrow> drop_bit k va = drop_bit k vb \<and> va AND (2 ^ k - 1) = vb AND (2 ^ k - 1) \<longleftrightarrow> (va :: u64) = vb"
proof -
  assume k: "k < 64"
  have "va = vb" if "drop_bit k va = drop_bit k vb" "va AND (2 ^ k - 1) = vb AND (2 ^ k - 1)"
  proof -
    have "unat va div 2 ^ k = unat vb div 2 ^ k" "unat va mod 2 ^ k = unat vb mod 2 ^ k"
      using arg_cong[OF that(1), of unat] arg_cong[OF that(2), of unat] page_offset[OF k, of va] page_offset[OF k, of vb]
      by (simp_all only: page_number)
    then have "unat va = unat vb" by (metis div_mult_mod_eq)
    then show ?thesis by (simp add: word_unat_eq_iff)
  qed
  then show ?thesis by blast
qed

lemma vm_constructed:
  assumes "virtual_memory cpus capacity pg_size levels seed = Some st0" "pg_size < 2 ^ 31" "vm_run es st0 = Some st"
  shows "vm_ok (reserve_ppages pg_size) st" "page_bits st = page_bits st0" "num_ppages st = num_ppages st0"
    "pt_levels st = pt_levels st0"
  using vm_run_law[OF virtual_memory_ok(1)[OF assms(1,2)] assms(3)] by (auto simp: vm_same_def page_bits_def)

text \<open>C38: address translation is a function and injective over a whole run: two accesses, at any two times, of any cores and
  virtual addresses, get the same physical address exactly if they are the same address of the same core; and
  the physical address lies in the memory above the reserved pages.\<close>

theorem vm_translation_injective:
  assumes "virtual_memory cpus capacity pg_size levels seed = Some st0" "pg_size < 2 ^ 31"
    and "vm_run es st0 = Some st1" "va_to_pa c v st1 = Some (pa, st2)"
    and "vm_run fs st2 = Some st3" "va_to_pa c' v' st3 = Some (pa', st4)"
  shows "(pa = pa') = (c = c' \<and> v = v') \<and>
    reserve_ppages pg_size * unat pg_size \<le> unat pa \<and> unat pa < unat capacity"
proof -
  let ?r = "reserve_ppages pg_size" and ?k = "page_bits st0"
  note V = virtual_memory_ok[OF assms(1,2)] and K = vm_constructed[OF assms(1-3)]
  have k: "?k < 64" using V(3) by simp
  obtain p where p: "vm_ok ?r st2" "vm_same st1 st2" "mapped st2 (c, 0, drop_bit ?k v) = Some p"
    "pa = push_bit ?k p + (v AND (2 ^ ?k - 1))"
    using va_to_pa_law[OF K(1) assms(4)] K(2) by metis
  note R = vm_run_law[OF p(1) assms(5)]
  have k3: "page_bits st3 = ?k" using p(2) R K(2) by (simp add: vm_same_def page_bits_def)
  obtain q where q: "vm_ok ?r st4" "vm_same st3 st4" "mapped st4 (c', 0, drop_bit ?k v') = Some q"
    "pa' = push_bit ?k q + (v' AND (2 ^ ?k - 1))"
    using va_to_pa_law[OF conjunct1[OF R] assms(6)] k3 by metis
  have same: "vm_same st2 st4" using R q(2) vm_same_trans by blast
  have n: "num_ppages st2 = num_ppages st0" "num_ppages st4 = num_ppages st0"
    using p(2) same K(3) by (simp_all add: vm_same_def)
  have p4: "mapped st4 (c, 0, drop_bit ?k v) = Some p" using same p(3) by (auto simp: vm_same_def map_le_def dom_def)
  have range: "?r \<le> unat p" "p < num_ppages st0" "q < num_ppages st0"
    using vm_okD(7)[OF q(1) p4] vm_okD(7)[OF q(1) q(3)] n by auto
  have pq: "p = q \<longleftrightarrow> c = c' \<and> drop_bit ?k v = drop_bit ?k v'"
    using vm_okD(8)[OF q(1) p4, of "(c', 0, drop_bit ?k v')"] q(3) p4 by auto
  have off: "unat (x AND (2 ^ ?k - 1)) < 2 ^ ?k" for x :: u64 by (simp only: page_offset[OF k]) simp
  have nk: "unat (num_ppages st0) * 2 ^ ?k < 2 ^ 64" by (rule vm_okD(4)[OF V(1)])
  have "(pa = pa') = (p = q \<and> v AND (2 ^ ?k - 1) = v' AND (2 ^ ?k - 1))"
    unfolding p(4) q(4) by (rule physical_eq_iff[OF nk range(2,3) off off])
  also have "\<dots> = (c = c' \<and> v = v')" unfolding pq using page_and_offset[OF k, of v v'] by blast
  finally have 1: "(pa = pa') = (c = c' \<and> v = v')" .
  have u: "unat pa = unat p * 2 ^ ?k + unat (v AND (2 ^ ?k - 1))"
    unfolding p(4) by (rule physical_split[OF nk range(2) off])
  have "unat pa < (unat p + 1) * 2 ^ ?k" using u off[of v] by simp
  also have "\<dots> \<le> unat (num_ppages st0) * 2 ^ ?k" using range(2) by (intro mult_right_mono) (simp_all add: word_less_nat_alt)
  also have "\<dots> = unat capacity" using V(2,4) by simp
  finally have 2: "unat pa < unat capacity" .
  have "?r * unat pg_size \<le> unat pa" unfolding u V(2) by (rule trans_le_add1[OF mult_le_mono1[OF range(1)]])
  with 1 2 show ?thesis by blast
qed

text \<open>A page of the page tables is never a data page: for pages of at least 4096 bytes, the page of an address that
  \<open>get_pte_pa\<close> returns and that of an address that \<open>va_to_pa\<close> returns differ, whichever comes first.\<close>

theorem vm_page_tables_separate:
  assumes "virtual_memory cpus capacity pg_size levels seed = Some st0" "pg_size < 2 ^ 31" "4096 \<le> pg_size"
    and "vm_run es st0 = Some st1" "get_pte_pa c v level st1 = Some (pa, st2)"
    and "vm_run fs st2 = Some st3" "va_to_pa c' v' st3 = Some (pa', st4)"
  shows "unat pa div unat pg_size \<noteq> unat pa' div unat pg_size"
proof -
  let ?r = "reserve_ppages pg_size" and ?k = "page_bits st0"
  note V = virtual_memory_ok[OF assms(1,2)] and K = vm_constructed[OF assms(1,2,4)]
  have k: "?k < 64" using V(3) by simp
  have big: "4096 \<le> (2 :: nat) ^ ?k" using assms(3) V(2) by (simp add: word_le_nat_alt)
  let ?t = "drop_bit (9 + 9 * (unat (pt_levels st0) - 1 - level)) (drop_bit ?k v)"
  obtain p where p: "vm_ok ?r st2" "vm_same st1 st2" "mapped st2 (c, Suc level, ?t) = Some p"
    "pa = push_bit ?k p + (drop_bit ?k v AND 511) * 8"
    using get_pte_pa_law[OF K(1) assms(5)] K(2,4) by metis
  note R = vm_run_law[OF p(1) assms(6)]
  have k3: "page_bits st3 = ?k" using p(2) R K(2) by (simp add: vm_same_def page_bits_def)
  obtain q where q: "vm_ok ?r st4" "vm_same st3 st4" "mapped st4 (c', 0, drop_bit ?k v') = Some q"
    "pa' = push_bit ?k q + (v' AND (2 ^ ?k - 1))"
    using va_to_pa_law[OF conjunct1[OF R] assms(7)] k3 by metis
  have same: "vm_same st2 st4" using R q(2) vm_same_trans by blast
  have n: "num_ppages st4 = num_ppages st0" using p(2) same K(3) by (simp add: vm_same_def)
  have p4: "mapped st4 (c, Suc level, ?t) = Some p" using same p(3) by (auto simp: vm_same_def map_le_def dom_def)
  have range: "p < num_ppages st0" "q < num_ppages st0"
    using vm_okD(7)[OF q(1) p4] vm_okD(7)[OF q(1) q(3)] n by auto
  have nk: "unat (num_ppages st0) * 2 ^ ?k < 2 ^ 64" by (rule vm_okD(4)[OF V(1)])
  have "unat (drop_bit ?k v AND 511) \<le> 511"
    using word_and_le1[of "drop_bit ?k v" 511] by (simp add: word_le_nat_alt)
  then have off: "unat ((drop_bit ?k v AND 511) * 8) < 2 ^ ?k" using big by (simp add: unat_word_ariths)
  have off': "unat (v' AND (2 ^ ?k - 1)) < 2 ^ ?k" by (simp only: page_offset[OF k]) simp
  have "unat pa div 2 ^ ?k = unat p" unfolding p(4) physical_split[OF nk range(1) off] using off by simp
  moreover have "unat pa' div 2 ^ ?k = unat q" unfolding q(4) physical_split[OF nk range(2) off'] using off' by simp
  moreover have "p \<noteq> q" using vm_okD(8)[OF q(1) p4, of "(c', 0, drop_bit ?k v')"] q(3) by auto
  ultimately show ?thesis using V(2) by (simp add: word_unat_eq_iff)
qed

text \<open>C40: the address of a page table entry above the last level does not depend on its index: two virtual addresses that
  differ only in the index bits of that level read the entry at the same address, because the
  offset is always taken from the lowest nine bits of the page number.\<close>

theorem pte_address_ignores_index:
  assumes "vm_ok r st" "get_pte_pa c v level st = Some (pa, st')"
    and "drop_bit (9 + 9 * (unat (pt_levels st) - 1 - level)) (drop_bit (page_bits st) v') =
         drop_bit (9 + 9 * (unat (pt_levels st) - 1 - level)) (drop_bit (page_bits st) v)"
    and "drop_bit (page_bits st) v' AND 511 = drop_bit (page_bits st) v AND 511"
  shows "get_pte_pa c v' level st' = Some (pa, st')"
proof -
  obtain p where p: "vm_ok r st'" "vm_same st st'" "c < unat (num_cpus st)" "level < unat (pt_levels st)"
    "mapped st' (c, Suc level, drop_bit (9 + 9 * (unat (pt_levels st) - 1 - level)) (drop_bit (page_bits st) v)) = Some p"
    "pa = push_bit (page_bits st) p + (drop_bit (page_bits st) v AND 511) * 8"
    by (rule get_pte_pa_law[OF assms(1,2)])
  have s: "num_cpus st' = num_cpus st" "pt_levels st' = pt_levels st" "page_bits st' = page_bits st"
    using p(2) by (simp_all add: vm_same_def page_bits_def)
  note D = vm_okD[OF p(1)]
  have "c < length (page_table st')" "level < length (page_table st' ! c)" using D(2) D(3)[of c] p(3,4) s by simp_all
  moreover have "(page_table st' ! c ! level)
      (drop_bit (9 + 9 * (unat (pt_levels st') - 1 - level)) (drop_bit (page_bits st') v')) = Some p"
    using p(3-5) unfolding s assms(3) by (simp add: mapped_def s)
  ultimately show ?thesis using p(6) assms(4) unfolding get_pte_pa_def Let_def by (simp add: s)
qed

section \<open>A concrete memory\<close>

text \<open>Construction succeeds for a memory of 64 MB, and a translation succeeds while a page is free.\<close>

lemma va_to_pa_some:
  assumes "vm_ok r st" "cpu < unat (num_cpus st)" "ppage_free_list st \<noteq> []"
  shows "\<exists>pa st'. va_to_pa cpu va st = Some (pa, st') \<and> length (ppage_free_list st) \<le> Suc (length (ppage_free_list st')) \<and>
    num_cpus st' = num_cpus st"
proof -
  obtain p ps where "ppage_free_list st = p # ps" using assms(3) by (cases "ppage_free_list st") auto
  with assms(2) vm_okD(1)[OF assms(1)] show ?thesis
    by (cases "(vpage_to_ppage_map st ! cpu) (drop_bit (page_bits st) va)")
      (simp_all add: va_to_pa_def Let_def get_next_free_ppage_def)
qed

lemma get_pte_pa_some:
  assumes "vm_ok r st" "cpu < unat (num_cpus st)" "level < unat (pt_levels st)" "ppage_free_list st \<noteq> []"
  shows "\<exists>pa st'. get_pte_pa cpu va level st = Some (pa, st') \<and> length (ppage_free_list st) \<le> Suc (length (ppage_free_list st')) \<and>
    num_cpus st' = num_cpus st"
proof -
  obtain p ps where "ppage_free_list st = p # ps" using assms(4) by (cases "ppage_free_list st") auto
  with assms(2,3) vm_okD(2)[OF assms(1)] vm_okD(3)[OF assms(1), of cpu] show ?thesis
    by (cases "(page_table st ! cpu ! level) (drop_bit (9 + 9 * (unat (pt_levels st) - 1 - level)) (drop_bit (page_bits st) va))")
      (simp_all add: get_pte_pa_def Let_def get_next_free_ppage_def del: drop_bit_drop_bit)
qed

lemma virtual_memory_some:
  assumes "capacity mod ucast (ucast pg_size :: u32) = 0" "unat pg_size = 2 ^ lg2 (unat pg_size)" "1024 \<le> pg_size"
    and n: "n = unat (capacity div ucast (ucast pg_size :: u32))" "reserve_ppages pg_size \<le> n"
  shows "\<exists>st. virtual_memory cpus capacity pg_size levels seed = Some st \<and> num_cpus st = cpus \<and> pt_levels st = levels \<and>
    length (ppage_free_list st) = n - reserve_ppages pg_size"
proof -
  let ?rs = "if seed + VMEM_RAND_FACTOR = 0 then push_bit 1 VMEM_RAND_FACTOR else seed + VMEM_RAND_FACTOR"
  let ?free = "drop (reserve_ppages pg_size) (map of_nat [0..<n]) :: u64 list"
  obtain rs free where sh: "shuffle_pages ?rs ?free = (rs, free)" by (rule prod.exhaust)
  have "n < 2 ^ 64" using n(1) unsigned_less[of "capacity div ucast (ucast pg_size :: u32)", where ?'a = nat] by simp
  then have "length ?free < 2 ^ 64" by simp
  from shuffle_pages_law[OF this, of ?rs] sh have "mset free = mset ?free" by simp
  then have "length free = length ?free" by (rule mset_eq_length)
  then show ?thesis using assms sh by (auto simp: virtual_memory_def Let_def)
qed

lemma demo_memory:
  obtains st where "virtual_memory 1 67108864 4096 5 200 = Some st" "vm_ok 256 st" "num_cpus st = 1" "pt_levels st = 5"
    "2 \<le> length (ppage_free_list st)"
proof -
  have r: "reserve_ppages 4096 = 256" by (simp add: reserve_ppages_def VMEM_RESERVE_CAPACITY_def)
  have l: "lg2 4096 = 12" using lg2_pow[of 12] by simp
  from virtual_memory_some[of 67108864 4096 16384 1 5 200] r l obtain st where
    st: "virtual_memory 1 67108864 4096 5 200 = Some st" "num_cpus st = 1" "pt_levels st = 5" "length (ppage_free_list st) = 16128"
    by auto
  from virtual_memory_ok(1)[OF st(1)] r st show thesis by (intro that[of st]) simp_all
qed

lemma vm_translation_injective_witness:
  "\<exists>st0 pa pa'. virtual_memory 1 67108864 4096 5 200 = Some st0 \<and>
     (\<exists>st2 st4. va_to_pa 0 0x1234 st0 = Some (pa, st2) \<and> va_to_pa 0 0x5234 st2 = Some (pa', st4)) \<and> pa \<noteq> pa'"
proof -
  obtain st where st: "virtual_memory 1 67108864 4096 5 200 = Some st" "vm_ok 256 st" "num_cpus st = 1" "pt_levels st = 5"
    "2 \<le> length (ppage_free_list st)" by (rule demo_memory)
  then have "ppage_free_list st \<noteq> []" by auto
  with va_to_pa_some[OF st(2), of 0 "0x1234"] st(3,5) obtain pa st2 where
    s2: "va_to_pa 0 0x1234 st = Some (pa, st2)" "ppage_free_list st2 \<noteq> []" "num_cpus st2 = 1" by fastforce
  have "vm_ok 256 st2" using va_to_pa_law[OF st(2) s2(1)] by metis
  with va_to_pa_some[of 256 st2 0 "0x5234"] s2 obtain pa' st4 where s4: "va_to_pa 0 0x5234 st2 = Some (pa', st4)" by fastforce
  have "pa \<noteq> pa'" using vm_translation_injective[OF st(1) _ _ s2(1) _ s4, of "[]" "[]"] by simp
  with st(1) s2(1) s4 show ?thesis by blast
qed

lemma vm_page_tables_separate_witness:
  "\<exists>st0 st2 st4 pa pa'. virtual_memory 1 67108864 4096 5 200 = Some st0 \<and>
     get_pte_pa 0 0x1234 4 st0 = Some (pa, st2) \<and> va_to_pa 0 0x5234 st2 = Some (pa', st4) \<and>
     unat pa div 4096 \<noteq> unat pa' div 4096"
proof -
  obtain st where st: "virtual_memory 1 67108864 4096 5 200 = Some st" "vm_ok 256 st" "num_cpus st = 1" "pt_levels st = 5"
    "2 \<le> length (ppage_free_list st)" by (rule demo_memory)
  then have "ppage_free_list st \<noteq> []" by auto
  with get_pte_pa_some[OF st(2), of 0 4 "0x1234"] st(3-5) obtain pa st2 where
    s2: "get_pte_pa 0 0x1234 4 st = Some (pa, st2)" "ppage_free_list st2 \<noteq> []" "num_cpus st2 = 1" by fastforce
  have "vm_ok 256 st2" using get_pte_pa_law[OF st(2) s2(1)] by metis
  with va_to_pa_some[of 256 st2 0 "0x5234"] s2 obtain pa' st4 where s4: "va_to_pa 0 0x5234 st2 = Some (pa', st4)" by fastforce
  have "unat pa div 4096 \<noteq> unat pa' div 4096" using vm_page_tables_separate[OF st(1) _ _ _ s2(1) _ s4, of "[]" "[]"] by simp
  with st(1) s2(1) s4 show ?thesis by blast
qed

text \<open>Addresses 0x1000 and 0x201000 use the entries 0 and 1 of a page table of the level before the last.\<close>

lemma pte_address_ignores_index_witness:
  "\<exists>st0 st2 pa. virtual_memory 1 67108864 4096 5 200 = Some st0 \<and>
     get_pte_pa 0 0x1000 3 st0 = Some (pa, st2) \<and> get_pte_pa 0 0x201000 3 st2 = Some (pa, st2)"
proof -
  obtain st where st: "virtual_memory 1 67108864 4096 5 200 = Some st" "vm_ok 256 st" "num_cpus st = 1" "pt_levels st = 5"
    "2 \<le> length (ppage_free_list st)" by (rule demo_memory)
  have b: "page_bits st = 12"
  proof -
    have "2 ^ page_bits st = (2 :: nat) ^ 12" using virtual_memory_ok(2)[OF st(1)] by simp
    then show ?thesis by (rule power_inject_exp[THEN iffD1, rotated]) simp
  qed
  have "ppage_free_list st \<noteq> []" using st(5) by auto
  with get_pte_pa_some[OF st(2), of 0 3 "0x1000"] st(3-5) obtain pa st2 where s2: "get_pte_pa 0 0x1000 3 st = Some (pa, st2)" by fastforce
  have "get_pte_pa 0 0x201000 3 st2 = Some (pa, st2)" by (rule pte_address_ignores_index[OF st(2) s2]) (simp_all add: b st(4))
  with st(1) s2 show ?thesis by blast
qed

end
