(* ===== verification/MemoryInterface.thy ===== *)
theory MemoryInterface
  imports Packet
begin

text \<open>
  What the levels of the memory hierarchy share: the global clock and the interface \<^verbatim>\<open>MemoryRequestConsumer\<close> of
  \<^verbatim>\<open>inc/memory_class.h\<close> that a cache sends its requests to.
\<close>

text \<open>The globals \<^verbatim>\<open>current_core_cycle\<close> and \<^verbatim>\<open>warmup_complete\<close>, indexed by the core, and \<^verbatim>\<open>all_warmup_complete\<close>, their count.\<close>

record clock =
  current_core_cycle :: "nat \<Rightarrow> u64"
  warmup_complete :: "nat \<Rightarrow> bool"
  all_warmup_complete :: nat

text \<open>
  A call answers with a code and with the calls of \<^verbatim>\<open>return_data\<close> it makes before it returns; it cannot see the
  caller otherwise.
\<close>

record 'l consumer =
  c_add_rq :: "clock \<Rightarrow> packet \<Rightarrow> 'l \<Rightarrow> (int \<times> (nat \<times> packet) list \<times> 'l) option"
  c_add_wq :: "clock \<Rightarrow> packet \<Rightarrow> 'l \<Rightarrow> (int \<times> (nat \<times> packet) list \<times> 'l) option"
  c_add_pq :: "clock \<Rightarrow> packet \<Rightarrow> 'l \<Rightarrow> (int \<times> (nat \<times> packet) list \<times> 'l) option"
  c_increment_WQ_FULL :: "u64 \<Rightarrow> 'l \<Rightarrow> 'l"
  c_get_occupancy :: "nat \<Rightarrow> u64 \<Rightarrow> 'l \<Rightarrow> u32"
  c_get_size :: "nat \<Rightarrow> u64 \<Rightarrow> 'l \<Rightarrow> u32"

text \<open>What every request between two levels satisfies: an address, a core, an access type, no mark of the memory controller, and no instruction
  pointer on a write back.\<close>

definition sound_request :: "packet \<Rightarrow> bool" where
  "sound_request p \<longleftrightarrow>
     pk_address p \<noteq> 0 \<and> pk_cpu p < NUM_CPUS \<and> unat (pk_type p) < NUM_TYPES \<and> pk_scheduled p = 0 \<and>
     (ucast (pk_type p) = WRITEBACK \<longrightarrow> pk_ip p = 0)"

text \<open>Calls of \<^verbatim>\<open>return_data\<close> that answer the packet \<open>p\<close>.\<close>

definition answers :: "packet \<Rightarrow> (nat \<times> packet) list \<Rightarrow> bool" where
  "answers p calls \<longleftrightarrow>
     (\<forall>c\<in>set calls. fst c \<in> set (pk_to_return p) \<and> pk_address (snd c) = pk_address p \<and> pk_cpu (snd c) = pk_cpu p)"

lemma answers_Nil [simp]: "answers p []"
  by (simp add: answers_def)

lemma answers_nobody: "answers p calls \<Longrightarrow> pk_to_return p = [] \<Longrightarrow> calls = []"
  by (cases calls) (auto simp: answers_def)

lemma answers_to_all: "pk_address q = pk_address p \<Longrightarrow> pk_cpu q = pk_cpu p \<Longrightarrow> answers p (map (\<lambda>ret. (ret, q)) (pk_to_return p))"
  by (auto simp: answers_def)

end
