(* ===== verification/Mshr.thy ===== *)
theory Mshr
  imports Packet DelayQueue
begin

text \<open>
  The containers of a cache: the miss status registers, a \<^verbatim>\<open>std::list\<close> of packets whose nodes keep their identity
  while the list is sorted (\<^verbatim>\<open>min_fill_index\<close> of \<^verbatim>\<open>src/cache.cc\<close>), and the search and in-place update of an element
  of a delay queue through its iterators.
\<close>

section \<open>Sorting a list\<close>

text \<open>
  \<^verbatim>\<open>std::list::merge\<close>: an element of the other list goes first exactly if it compares less. \<^verbatim>\<open>std::list::sort\<close> merges
  runs whose lengths are powers of two: slot \<open>k\<close> of the counter is empty or holds a sorted run of \<open>2 ^ k\<close> elements.
\<close>

fun list_merge :: "('a \<Rightarrow> 'a \<Rightarrow> bool) \<Rightarrow> 'a list \<Rightarrow> 'a list \<Rightarrow> 'a list" where
  "list_merge lt [] ys = ys"
| "list_merge lt xs [] = xs"
| "list_merge lt (x # xs) (y # ys) =
     (if lt y x then y # list_merge lt (x # xs) ys else x # list_merge lt xs (y # ys))"

fun sort_carry :: "('a \<Rightarrow> 'a \<Rightarrow> bool) \<Rightarrow> 'a list \<Rightarrow> 'a list list \<Rightarrow> 'a list list" where
  "sort_carry lt carry [] = [carry]"
| "sort_carry lt carry (slot # slots) =
     (if slot = [] then carry # slots else [] # sort_carry lt (list_merge lt slot carry) slots)"

definition list_sort :: "('a \<Rightarrow> 'a \<Rightarrow> bool) \<Rightarrow> 'a list \<Rightarrow> 'a list" where
  "list_sort lt xs =
     foldl (\<lambda>acc slot. list_merge lt slot acc) [] (foldl (\<lambda>slots x. sort_carry lt [x] slots) [] xs)"

lemma mset_list_merge [simp]: "mset (list_merge lt xs ys) = mset xs + mset ys"
  by (induction lt xs ys rule: list_merge.induct) auto

lemma set_list_merge [simp]: "set (list_merge lt xs ys) = set xs \<union> set ys"
  by (metis mset_list_merge set_mset_mset set_mset_union)

text \<open>
  A merge keeps every transitive relation \<open>R\<close> along the list that holds between two elements in the order the
  comparison puts them.
\<close>

lemma sorted_list_merge:
  assumes "transp R" "\<And>x y. lt y x \<Longrightarrow> R y x" "\<And>x y. \<not> lt y x \<Longrightarrow> R x y" "sorted_wrt R xs" "sorted_wrt R ys"
  shows "sorted_wrt R (list_merge lt xs ys)"
  using assms
proof (induction lt xs ys rule: list_merge.induct)
  case (3 lt x xs y ys)
  show ?case
  proof (cases "lt y x")
    case True
    with "3.prems" have "\<forall>z\<in>set (x # xs). R y z" by (auto dest: transpD[of R y x])
    with True 3 show ?thesis by auto
  next
    case False
    with "3.prems" have "\<forall>z\<in>set (y # ys). R x z" by (auto dest: transpD[of R x y])
    with False 3 show ?thesis by auto
  qed
qed auto

lemma sort_carry_facts:
  assumes "transp R" "\<And>x y. lt y x \<Longrightarrow> R y x" "\<And>x y. \<not> lt y x \<Longrightarrow> R x y"
    and "sorted_wrt R carry" "\<forall>slot\<in>set slots. sorted_wrt R slot"
  shows "(\<forall>slot\<in>set (sort_carry lt carry slots). sorted_wrt R slot) \<and>
    mset (concat (sort_carry lt carry slots)) = mset carry + mset (concat slots)"
  using assms(4,5)
proof (induction slots arbitrary: carry)
  case (Cons slot slots)
  have "sorted_wrt R (list_merge lt slot carry)" using Cons.prems by (intro sorted_list_merge assms(1-3)) auto
  with Cons.IH[OF this] Cons.prems show ?case by auto
qed simp

lemma list_sort_facts:
  assumes R: "transp R" "\<And>x y. lt y x \<Longrightarrow> R y x" "\<And>x y. \<not> lt y x \<Longrightarrow> R x y"
  shows "sorted_wrt R (list_sort lt xs) \<and> mset (list_sort lt xs) = mset xs"
proof -
  have slots: "(\<forall>slot\<in>set (foldl (\<lambda>slots x. sort_carry lt [x] slots) slots xs). sorted_wrt R slot) \<and>
      mset (concat (foldl (\<lambda>slots x. sort_carry lt [x] slots) slots xs)) = mset xs + mset (concat slots)"
    if "\<forall>slot\<in>set slots. sorted_wrt R slot" for slots
    using that
  proof (induction xs arbitrary: slots)
    case (Cons x xs)
    from sort_carry_facts[OF R, where carry = "[x]" and slots = slots] Cons.prems Cons.IH[of "sort_carry lt [x] slots"] show ?case by simp
  qed simp
  have merged: "sorted_wrt R (foldl (\<lambda>acc slot. list_merge lt slot acc) acc slots) \<and>
      mset (foldl (\<lambda>acc slot. list_merge lt slot acc) acc slots) = mset acc + mset (concat slots)"
    if "\<forall>slot\<in>set slots. sorted_wrt R slot" "sorted_wrt R acc" for acc slots
    using that
  proof (induction slots arbitrary: acc)
    case (Cons slot slots)
    have "sorted_wrt R (list_merge lt slot acc)" using Cons.prems by (intro sorted_list_merge R) auto
    with Cons.IH[of "list_merge lt slot acc"] Cons.prems show ?case by simp
  qed simp
  from slots[of "[]"] merged[of "foldl (\<lambda>slots x. sort_carry lt [x] slots) [] xs" "[]"] show ?thesis
    by (simp add: list_sort_def)
qed

section \<open>Miss status registers\<close>

type_synonym mshr = "(nat \<times> packet) list"

definition min_fill_index :: "nat \<times> packet \<Rightarrow> nat \<times> packet \<Rightarrow> bool" where
  "min_fill_index lhs rhs \<longleftrightarrow>
     pk_returned (snd rhs) \<noteq> COMPLETED \<or>
     (pk_returned (snd lhs) = COMPLETED \<and> pk_event_cycle (snd lhs) < pk_event_cycle (snd rhs))"

definition mshr_new :: "nat \<Rightarrow> mshr" where
  "mshr_new n = map (\<lambda>i. (i, empty_packet)) [0..<n]"

definition mshr_find :: "(packet \<Rightarrow> bool) \<Rightarrow> mshr \<Rightarrow> nat option" where
  "mshr_find P ms = first_index (\<lambda>i. P (snd (ms ! i))) (length ms)"

text \<open>\<^verbatim>\<open>*it = p\<close> for the node \<open>node\<close>.\<close>

definition mshr_put :: "nat \<Rightarrow> packet \<Rightarrow> mshr \<Rightarrow> mshr" where
  "mshr_put node p ms = map (\<lambda>n. if fst n = node then (node, p) else n) ms"

definition mshr_sort :: "mshr \<Rightarrow> mshr" where
  "mshr_sort ms = list_sort min_fill_index ms"

text \<open>The order the registers are served in: completed requests first, the earliest event cycle first.\<close>

definition served_before :: "nat \<times> packet \<Rightarrow> nat \<times> packet \<Rightarrow> bool" where
  "served_before x y \<longleftrightarrow>
     (pk_returned (snd y) = COMPLETED \<longrightarrow>
      pk_returned (snd x) = COMPLETED \<and> pk_event_cycle (snd x) \<le> pk_event_cycle (snd y))"

lemma mshr_sort_facts:
  "sorted_wrt served_before (mshr_sort ms) \<and> mset (mshr_sort ms) = mset ms"
  unfolding mshr_sort_def
  by (rule list_sort_facts) (auto simp: served_before_def min_fill_index_def transp_def)

lemma set_mshr_sort [simp]: "set (mshr_sort ms) = set ms"
  using mset_eq_setD mshr_sort_facts by blast

lemma length_mshr_sort [simp]: "length (mshr_sort ms) = length ms"
  using mset_eq_length mshr_sort_facts by blast

lemma mset_mshr_sort [simp]: "mset (mshr_sort ms) = mset ms"
  using mshr_sort_facts by blast

lemma length_mshr_put [simp]: "length (mshr_put node p ms) = length ms"
  by (simp add: mshr_put_def)

lemma nodes_mshr_put [simp]: "map fst (mshr_put node p ms) = map fst ms"
  by (simp add: mshr_put_def)

text \<open>C23: sorting the miss status registers loses and invents none of them and puts the completed requests first, in the
  order of their event cycles, although the comparison is no strict weak order.\<close>

theorem mshr_sort_correct:
  "mset (mshr_sort ms) = mset ms \<and> sorted_wrt served_before (mshr_sort ms)"
  using mshr_sort_facts by blast

end
