(* ===== verification/RequestQueue.thy ===== *)
theory RequestQueue
  imports DelayQueue
begin

text \<open>
  The delay queues as a cache uses them: the search through the iterators (\<^verbatim>\<open>std::find_if\<close> from \<^verbatim>\<open>begin()\<close> to
  \<^verbatim>\<open>end()\<close>) and the update of the element it finds, and the contract of a queue whose front is taken only when it
  is ready. The contract counts the releases still to come instead of the pushes: a push never moves the
  tail past the head plus the size.
\<close>

section \<open>Search and update\<close>

definition dq_find :: "('a \<Rightarrow> bool) \<Rightarrow> 'a delay_queue \<Rightarrow> nat option" where
  "dq_find P q = first_index (\<lambda>k. P (cb_at (dq_buf q) (it_add (cb_head (dq_buf q)) (int k)))) (unat (occupancy (dq_buf q)))"

definition dq_at :: "nat \<Rightarrow> 'a delay_queue \<Rightarrow> 'a" where
  "dq_at k q = cb_at (dq_buf q) (it_add (cb_head (dq_buf q)) (int k))"

definition dq_modify :: "nat \<Rightarrow> ('a \<Rightarrow> 'a) \<Rightarrow> 'a delay_queue \<Rightarrow> 'a delay_queue" where
  "dq_modify k f q = q\<lparr>dq_buf := cb_modify (it_add (cb_head (dq_buf q)) (int k)) f (dq_buf q)\<rparr>"

definition dq_occupancy :: "'a delay_queue \<Rightarrow> u64" where
  "dq_occupancy q = occupancy (dq_buf q)"

section \<open>The contract\<close>

definition dq_safe :: "nat \<Rightarrow> 'a delay_queue \<Rightarrow> bool" where
  "dq_safe n q \<longleftrightarrow> dq_base 0 q \<and> unat (cb_head (dq_buf q)) + cb_size (dq_buf q) + n < 2 ^ 63 \<and>
     dq_ready q \<le> length (dq_view q)"

definition dq_capacity :: "'a delay_queue \<Rightarrow> nat" where
  "dq_capacity q = cb_size (dq_buf q)"

lemma dq_safeD:
  assumes "dq_safe n q"
  shows "dq_base 0 q" "cb_inv 0 (dq_buf q)" "dq_ready q \<le> length (dq_view q)" "length (dq_view q) \<le> dq_capacity q"
  using assms dq_baseD(1)[of 0 q] cb_inv_length[of 0 "dq_buf q"] by (auto simp: dq_safe_def dq_view_def dq_capacity_def)

lemma dq_safe_less: "dq_safe n q \<Longrightarrow> m \<le> n \<Longrightarrow> dq_safe m q"
  by (simp add: dq_safe_def)

lemma dq_safe_new: "N + n < 2 ^ 63 \<Longrightarrow> dq_safe n (delay_queue_new d N L)"
  "dq_view (delay_queue_new d N L) = []" "dq_capacity (delay_queue_new d N L) = N"
  using dq_new_inv(1)[of 0 d N L]
  by (auto simp: dq_safe_def dq_inv_def dq_capacity_def cb_new_inv dq_view_def delay_queue_new_def)
    (simp add: circular_buffer_new_def)

lemma dq_full_iff: "dq_safe n q \<Longrightarrow> dq_full q \<longleftrightarrow> length (dq_view q) = dq_capacity q"
  using cb_fullD[OF dq_safeD(2)[of n q]] dq_safeD(4)[of n q] by (auto simp: dq_full_def dq_view_def dq_capacity_def)

lemma dq_occupancy_eq: "dq_safe n q \<Longrightarrow> unat (dq_occupancy q) = length (dq_view q)"
  using cb_inv_occupancy[OF dq_safeD(2)] by (simp add: dq_occupancy_def dq_view_def)

lemma dq_safe_push:
  assumes "dq_safe n q" "\<not> dq_full q"
  shows "\<exists>q'. dq_push_delayed d x q = Some q' \<and> dq_safe n q' \<and> dq_view q' = dq_view q @ [x] \<and>
    dq_capacity q' = dq_capacity q \<and> (dq_has_ready q \<longrightarrow> dq_has_ready q')"
proof -
  have room: "length (dq_view q) < cb_size (dq_buf q)"
    using dq_full_iff[OF assms(1)] dq_safeD(4)[OF assms(1)] assms(2) by (simp add: dq_capacity_def)
  have "unat (cb_tail (dq_buf q)) < unat (cb_head (dq_buf q)) + cb_size (dq_buf q)"
    using room dq_safeD(2)[OF assms(1)] by (auto simp: dq_view_def cb_view_def)
  then have "dq_base (Suc 0) q" using assms(1) by (auto simp: dq_safe_def dq_base_def cb_inv_def)
  from dq_push_delayed_law[OF this room, of d x] obtain q' where q': "dq_push_delayed d x q = Some q'" "dq_base 0 q'"
    "dq_view q' = dq_view q @ [x]" "cb_size (dq_buf q') = cb_size (dq_buf q)" "cb_head (dq_buf q') = cb_head (dq_buf q)"
    "dq_end_ready q' = dq_end_ready q" by blast
  then have "dq_safe n q'" using assms(1) by (simp add: dq_safe_def dq_ready_def)
  with q' show ?thesis by (auto simp: dq_capacity_def dq_has_ready_def)
qed

lemma dq_safe_ready:
  assumes "dq_safe n q" "dq_has_ready q"
  shows "dq_view q \<noteq> []" "dq_front q = hd (dq_view q)"
proof -
  have "0 < dq_ready q" using dq_has_ready_iff[of 0 q] assms dq_safeD[OF assms(1)] by blast
  then show v: "dq_view q \<noteq> []" using dq_safeD(3)[OF assms(1)] by auto
  have "cb_at (dq_buf q) (cb_head (dq_buf q)) = cb_view (dq_buf q) ! 0"
    using cb_deref[OF dq_safeD(2)[OF assms(1)], of 0] v by (simp add: dq_view_def it_add_def)
  with v show "dq_front q = hd (dq_view q)" by (simp add: dq_front_def cb_front_def dq_view_def hd_conv_nth)
qed

lemma dq_safe_pop:
  assumes "dq_safe (Suc n) q" "dq_has_ready q"
  shows "\<exists>q'. dq_pop_front q = Some q' \<and> dq_safe n q' \<and> dq_view q' = tl (dq_view q) \<and> dq_capacity q' = dq_capacity q"
proof -
  have ready: "0 < dq_ready q" using dq_has_ready_iff[of 0 q] assms dq_safeD[OF assms(1)] by blast
  obtain y ys where y: "dq_view q = y # ys" using dq_safe_ready(1)[OF assms] by (cases "dq_view q") auto
  from dq_pop_law[OF dq_safeD(1)[OF assms(1)] y] obtain q' where q': "dq_pop_front q = Some q'" "dq_base 0 q'" "dq_view q' = ys"
    "cb_size (dq_buf q') = cb_size (dq_buf q)" "cb_head (dq_buf q') = cb_head (dq_buf q) + 1" "dq_end_ready q' = dq_end_ready q"
    by blast
  have "dq_ready q' = unat (dq_end_ready q - cb_head (dq_buf q) - 1)" by (simp add: dq_ready_def q' diff_diff_eq)
  also have "\<dots> = dq_ready q - 1" using ready by (subst unat_minus_one) (auto simp: dq_ready_def)
  finally have r: "dq_ready q' = dq_ready q - 1" .
  have "unat (cb_head (dq_buf q) + 1) = Suc (unat (cb_head (dq_buf q)))"
    using assms(1) by (intro unat_Suc[of _ 0]) (simp add: dq_safe_def)
  then have "dq_safe n q'" using assms(1) q' r y ready by (auto simp: dq_safe_def)
  with q' y show ?thesis by (auto simp: dq_capacity_def)
qed

lemma partition_point_le: "partition_point P first len \<le> first + len"
proof (induction P first len rule: partition_point.induct)
  case (1 P first len)
  show ?case
  proof (cases "len = 0")
    case False
    define half where "half = len div 2"
    have "half < len" using False by (simp add: half_def)
    with 1(1)[OF False half_def] 1(2)[OF False half_def] False show ?thesis
      by (subst partition_point.simps) (auto simp: half_def[symmetric] simp del: One_nat_def)
  qed (simp add: partition_point.simps)
qed

lemma dq_safe_operate:
  assumes "dq_safe n q"
  shows "dq_safe n (dq_operate q)" "dq_view (dq_operate q) = dq_view q" "dq_capacity (dq_operate q) = dq_capacity q"
proof -
  note b = dq_baseD[OF dq_safeD(1)[OF assms]]
  let ?ds = "cb_for_each (\<lambda>x. x - 1) (dq_delays q)"
  let ?r = "partition_point (\<lambda>k. cb_at ?ds (it_add (cb_head ?ds) (int k)) \<le> 0) 0 (unat (occupancy ?ds))"
  note f = cb_for_each_law[OF b(2), of "\<lambda>x. x - 1"]
  have "?r \<le> unat (occupancy ?ds)" using partition_point_le[of _ 0] by (metis add_0)
  also have "\<dots> = length (dq_view q)" using cb_inv_occupancy[OF f(1)] f(2) b(3) by simp
  finally have r: "?r \<le> length (dq_view q)" .
  have op: "dq_operate q = q\<lparr>dq_delays := ?ds, dq_end_ready := it_add (cb_head (dq_buf q)) (int ?r)\<rparr>"
    by (simp only: dq_operate_def Let_def)
  show v: "dq_view (dq_operate q) = dq_view q" "dq_capacity (dq_operate q) = dq_capacity q"
    by (simp_all add: op dq_view_def dq_capacity_def)
  have "?r < 2 ^ 64" using r b(7) by simp
  then have "dq_ready (dq_operate q) = ?r" by (simp add: op dq_ready_def it_add_def unat_of_nat)
  moreover have "dq_base 0 (dq_operate q)" using dq_safeD(1)[OF assms] f by (simp add: op dq_base_def)
  ultimately show "dq_safe n (dq_operate q)" using assms r v by (simp add: dq_safe_def) (simp add: op)
qed

lemma dq_at_view: "dq_safe n q \<Longrightarrow> k < length (dq_view q) \<Longrightarrow> dq_at k q = dq_view q ! k"
  using cb_deref[OF dq_safeD(2)] by (simp add: dq_at_def dq_view_def)

lemma dq_find_view:
  assumes "dq_safe n q"
  shows "dq_find P q = first_index (\<lambda>k. P (dq_view q ! k)) (length (dq_view q))"
  unfolding dq_find_def cb_inv_occupancy[OF dq_safeD(2)[OF assms]] dq_view_def
  by (rule first_index_cong) (simp add: cb_deref[OF dq_safeD(2)[OF assms]])

lemma dq_find_SomeD:
  assumes "dq_safe n q" "dq_find P q = Some k"
  shows "k < length (dq_view q)" "P (dq_view q ! k)" "dq_at k q = dq_view q ! k"
  using first_index_SomeD[of _ _ k] assms dq_at_view[OF assms(1)] unfolding dq_find_view[OF assms(1)] by auto

lemma dq_find_NoneD: "dq_safe n q \<Longrightarrow> dq_find P q = None \<Longrightarrow> x \<in> set (dq_view q) \<Longrightarrow> \<not> P x"
  by (auto simp: dq_find_view first_index_None_iff in_set_conv_nth)

lemma dq_safe_modify:
  assumes "dq_safe n q" "k < length (dq_view q)"
  shows "dq_safe n (dq_modify k f q)" "dq_view (dq_modify k f q) = (dq_view q)[k := f (dq_view q ! k)]"
    "dq_capacity (dq_modify k f q) = dq_capacity q"
  using cb_modify_law[OF dq_safeD(2)[OF assms(1)], of k f] assms
  by (simp_all add: dq_safe_def dq_base_def dq_view_def dq_modify_def dq_capacity_def dq_ready_def)

end
