(* ===== verification/CacheModel.thy ===== *)
theory CacheModel
  imports MemoryInterface Mshr RequestQueue LlcReplacement Vmem "HOL-Library.Monad_Syntax"
begin

text \<open>
  The cache of \<^verbatim>\<open>inc/cache.h\<close> and \<^verbatim>\<open>src/cache.cc\<close>, method by method. A cache is an open system: the record
  \<open>cache\<close> holds the members of the class, and \<open>world\<close> adds what its methods call: the lower level, the prefetcher, the state of the
  replacement policy, the page tables, and the list of \<^verbatim>\<open>return_data\<close> calls made to other objects, in order.
  A failed assertion (\<^verbatim>\<open>SANITY_CHECK\<close> is defined, so assertions are on) is \<open>None\<close>.
\<close>

section \<open>The state\<close>

record cache_stats =
  pf_requested :: u64
  pf_issued :: u64
  pf_useful :: u64
  pf_useless :: u64
  pf_fill :: u64
  sim_access :: "u64 list list"
  sim_hit :: "u64 list list"
  sim_miss :: "u64 list list"
  RQ_ACCESS :: u64
  RQ_MERGED :: u64
  RQ_FULL :: u64
  RQ_TO_CACHE :: u64
  PQ_ACCESS :: u64
  PQ_MERGED :: u64
  PQ_FULL :: u64
  PQ_TO_CACHE :: u64
  WQ_ACCESS :: u64
  WQ_MERGED :: u64
  WQ_FULL :: u64
  WQ_FORWARD :: u64
  WQ_TO_CACHE :: u64
  total_miss_latency :: u64

record cache =
  this_ptr :: nat
  cache_cpu :: nat
  NUM_SET :: nat
  NUM_WAY :: nat
  MSHR_SIZE :: nat
  FILL_LATENCY :: u32
  MAX_READ :: u32
  MAX_WRITE :: u32
  fill_level :: int
  cache_type :: u8
  has_lower_level :: bool
  reads_available_this_cycle :: u32
  writes_available_this_cycle :: u32
  blocks :: "block list"
  RQ :: "packet delay_queue"
  PQ :: "packet delay_queue"
  VAPQ :: "packet delay_queue"
  WQ :: "packet delay_queue"
  MSHR :: mshr
  stats :: cache_stats

record ('p, 'l, 'r) world = cache +
  prefetcher :: 'p
  lower_level :: 'l
  repl :: 'r
  vmem_state :: vmem
  outbox :: "(nat \<times> packet) list"

section \<open>What a cache calls\<close>

text \<open>
  The hooks of a prefetcher. Their arguments are those of the calls in \<^verbatim>\<open>src/cache.cc\<close>. A hook is a program that can do what
  the prefetchers of the repository do: ask for the occupancy and the size of a queue, and request prefetches, whose
  results it sees.
\<close>

datatype pf_call =
  L1iOperate nat u64 bool u8
| L1dOperate u64 u64 u64 bool u8
| L2cOperate u64 u64 u64 bool u8
| LlcOperate u64 u64 u64 bool u8
| L1iFill nat u64 nat nat bool u64
| L1dFill u64 u64 nat nat bool u64 u32
| L2cFill u64 u64 nat nat bool u64 u32
| LlcFill u64 u64 nat nat bool u64 u32

datatype 'p pf_prog =
  PfDone u32 'p
| PfOccupancy nat "u32 \<Rightarrow> 'p pf_prog"
| PfSize nat "u32 \<Rightarrow> 'p pf_prog"
| PfLine u64 u64 u64 int u32 "bool \<Rightarrow> 'p pf_prog"
| PfKpcLine u64 u64 int u32 "bool \<Rightarrow> 'p pf_prog"
| PfVaLine u64 u64 int u32 "bool \<Rightarrow> 'p pf_prog"
| PfCodeLine u64 "bool \<Rightarrow> 'p pf_prog"

text \<open>The replacement policy: \<^verbatim>\<open>find_victim\<close> and \<^verbatim>\<open>update_replacement_state\<close>, bound when the cache is built.\<close>

record 'r policy =
  p_find_victim :: "nat \<Rightarrow> block list \<Rightarrow> u64 \<Rightarrow> u64 \<Rightarrow> u32 \<Rightarrow> 'r \<Rightarrow> (nat \<times> 'r) option"
  p_update :: "nat \<Rightarrow> nat \<Rightarrow> u64 \<Rightarrow> u64 \<Rightarrow> u32 \<Rightarrow> bool \<Rightarrow> block list \<Rightarrow> 'r \<Rightarrow> (block list \<times> 'r) option"

text \<open>\<^verbatim>\<open>lru_victim\<close> and \<^verbatim>\<open>lru_update\<close>, the policy of every cache but the last level.\<close>

definition lru_policy :: "nat \<Rightarrow> unit policy" where
  "lru_policy ways =
     \<lparr>p_find_victim = (\<lambda>sx row ip full_addr type r. Some (lru_victim row, r)),
      p_update = (\<lambda>sx way full_addr ip type hit bs r. Some (lru_update ways sx way type hit bs, r))\<rparr>"

record ('p, 'l, 'r) parts =
  w_lower :: "'l consumer"
  w_hook :: "pf_call \<Rightarrow> 'p \<Rightarrow> 'p pf_prog"
  w_policy :: "'r policy"

section \<open>Lookup\<close>

abbreviation ptype :: "packet \<Rightarrow> u32" where "ptype p \<equiv> ucast (pk_type p)"

definition get_set :: "'a cache_scheme \<Rightarrow> u64 \<Rightarrow> nat" where
  "get_set w address = unat (ucast (address AND (2 ^ lg2 (NUM_SET w) - 1)) :: u32)"

definition set_row :: "'a cache_scheme \<Rightarrow> nat \<Rightarrow> block list" where
  "set_row w sx = take (NUM_WAY w) (drop (sx * NUM_WAY w) (blocks w))"

definition get_way :: "'a cache_scheme \<Rightarrow> u64 \<Rightarrow> nat \<Rightarrow> nat" where
  "get_way w address sx =
     (case first_index (\<lambda>i. eq_addr_block address (blocks w ! (sx * NUM_WAY w + i))) (NUM_WAY w) of
        Some i \<Rightarrow> i
      | None \<Rightarrow> NUM_WAY w)"

definition upd_block :: "nat \<Rightarrow> (block \<Rightarrow> block) \<Rightarrow> 'a cache_scheme \<Rightarrow> 'a cache_scheme" where
  "upd_block i f w = w\<lparr>blocks := (blocks w)[i := f (blocks w ! i)]\<rparr>"

definition upd_stats :: "(cache_stats \<Rightarrow> cache_stats) \<Rightarrow> 'a cache_scheme \<Rightarrow> 'a cache_scheme" where
  "upd_stats f w = w\<lparr>stats := f (stats w)\<rparr>"

definition count2 :: "nat \<Rightarrow> u8 \<Rightarrow> u64 list list \<Rightarrow> u64 list list" where
  "count2 i j t = t[i := (t ! i)[unat j := t ! i ! unat j + 1]]"

definition invalidate_entry :: "u64 \<Rightarrow> 'a cache_scheme \<Rightarrow> nat \<times> 'a cache_scheme" where
  "invalidate_entry inval_addr w =
     (let sx = get_set w inval_addr; way = get_way w inval_addr sx
      in (way, if way < NUM_WAY w then upd_block (sx * NUM_WAY w + way) (\<lambda>b. b\<lparr>blk_valid := 0\<rparr>) w else w))"

definition get_occupancy :: "nat \<Rightarrow> 'a cache_scheme \<Rightarrow> u32" where
  "get_occupancy queue_type w =
     (if queue_type = 0 then of_nat (length (filter (\<lambda>n. is_valid_packet (snd n)) (MSHR w)))
      else if queue_type = 1 then ucast (dq_occupancy (RQ w))
      else if queue_type = 2 then ucast (dq_occupancy (WQ w))
      else if queue_type = 3 then ucast (dq_occupancy (PQ w))
      else 0)"

definition get_size :: "nat \<Rightarrow> 'a cache_scheme \<Rightarrow> u32" where
  "get_size queue_type w =
     (if queue_type = 0 then of_nat (MSHR_SIZE w)
      else if queue_type = 1 then of_nat (dq_sz (RQ w))
      else if queue_type = 2 then of_nat (dq_sz (WQ w))
      else if queue_type = 3 then of_nat (dq_sz (PQ w))
      else 0)"

definition increment_WQ_FULL :: "'a cache_scheme \<Rightarrow> 'a cache_scheme" where
  "increment_WQ_FULL w = upd_stats (\<lambda>s. s\<lparr>WQ_FULL := WQ_FULL s + 1\<rparr>) w"

section \<open>Answers\<close>

definition return_data :: "clock \<Rightarrow> packet \<Rightarrow> 'a cache_scheme \<Rightarrow> 'a cache_scheme option" where
  "return_data clk pkt w =
     (case mshr_find (eq_addr_packet (pk_address pkt)) (MSHR w) of
        None \<Rightarrow> None
      | Some i \<Rightarrow>
          (let (node, e) = MSHR w ! i;
               e = e\<lparr>pk_returned := COMPLETED, pk_data := pk_data pkt, pk_pf_metadata := pk_pf_metadata pkt\<rparr>;
               now = current_core_cycle clk (pk_cpu pkt);
               e = (if warmup_complete clk (cache_cpu w)
                    then e\<lparr>pk_event_cycle := (if pk_event_cycle e < now then now else pk_event_cycle e) + ucast (FILL_LATENCY w)\<rparr>
                    else e\<lparr>pk_event_cycle := current_core_cycle clk (cache_cpu w)\<rparr>)
           in Some (w\<lparr>MSHR := mshr_sort (mshr_put node e (MSHR w))\<rparr>)))"

text \<open>\<^verbatim>\<open>ret->return_data(&packet)\<close>: a call on this cache itself, or on another object.\<close>

definition send :: "clock \<Rightarrow> nat \<Rightarrow> packet \<Rightarrow> ('p, 'l, 'r) world \<Rightarrow> ('p, 'l, 'r) world option" where
  "send clk ret pkt w =
     (if ret = this_ptr w then return_data clk pkt w else Some (w\<lparr>outbox := outbox w @ [(ret, pkt)]\<rparr>))"

fun send_all :: "clock \<Rightarrow> (nat \<times> packet) list \<Rightarrow> ('p, 'l, 'r) world \<Rightarrow> ('p, 'l, 'r) world option" where
  "send_all clk [] w = Some w"
| "send_all clk ((ret, pkt) # calls) w = Option.bind (send clk ret pkt w) (send_all clk calls)"

definition answer :: "clock \<Rightarrow> packet \<Rightarrow> ('p, 'l, 'r) world \<Rightarrow> ('p, 'l, 'r) world option" where
  "answer clk pkt w = send_all clk (map (\<lambda>ret. (ret, pkt)) (pk_to_return pkt)) w"

section \<open>Requests\<close>

definition find_wq :: "packet \<Rightarrow> 'a cache_scheme \<Rightarrow> nat option" where
  "find_wq pkt w =
     (if cache_type w = IS_L1D then dq_find (eq_full_addr (pk_full_addr pkt)) (WQ w)
      else dq_find (eq_addr_packet (pk_address pkt)) (WQ w))"

definition push_timed :: "clock \<Rightarrow> 'a cache_scheme \<Rightarrow> packet \<Rightarrow> packet delay_queue \<Rightarrow> packet delay_queue option" where
  "push_timed clk w pkt q = (if warmup_complete clk (cache_cpu w) then dq_push_back pkt q else dq_push_back_ready pkt q)"

definition forward_wq :: "clock \<Rightarrow> packet \<Rightarrow> nat \<Rightarrow> ('p, 'l, 'r) world \<Rightarrow> (int \<times> ('p, 'l, 'r) world) option" where
  "forward_wq clk pkt k w = do {
     w \<leftarrow> answer clk (pkt\<lparr>pk_data := pk_data (dq_at k (WQ w))\<rparr>) w;
     Some (- 1, upd_stats (\<lambda>s. s\<lparr>WQ_FORWARD := WQ_FORWARD s + 1\<rparr>) w) }"

definition merge_into_rq :: "packet \<Rightarrow> packet \<Rightarrow> packet" where
  "merge_into_rq pkt p = p\<lparr>
     pk_lq_index_depend_on_me := packet_dep_merge (pk_lq_index_depend_on_me p) (pk_lq_index_depend_on_me pkt),
     pk_sq_index_depend_on_me := packet_dep_merge (pk_sq_index_depend_on_me p) (pk_sq_index_depend_on_me pkt),
     pk_instr_depend_on_me := packet_dep_merge (pk_instr_depend_on_me p) (pk_instr_depend_on_me pkt),
     pk_to_return := packet_dep_merge (pk_to_return p) (pk_to_return pkt)\<rparr>"

definition add_rq :: "clock \<Rightarrow> packet \<Rightarrow> ('p, 'l, 'r) world \<Rightarrow> (int \<times> ('p, 'l, 'r) world) option" where
  "add_rq clk pkt w =
     (if pk_address pkt = 0 then None
      else let w = upd_stats (\<lambda>s. s\<lparr>RQ_ACCESS := RQ_ACCESS s + 1\<rparr>) w
           in case find_wq pkt w of
                Some k \<Rightarrow> forward_wq clk pkt k w
              | None \<Rightarrow>
                  (case dq_find (eq_addr_packet (pk_address pkt)) (RQ w) of
                     Some k \<Rightarrow>
                       Some (1, upd_stats (\<lambda>s. s\<lparr>RQ_MERGED := RQ_MERGED s + 1\<rparr>) (w\<lparr>RQ := dq_modify k (merge_into_rq pkt) (RQ w)\<rparr>))
                   | None \<Rightarrow>
                       if dq_full (RQ w) then Some (- 2, upd_stats (\<lambda>s. s\<lparr>RQ_FULL := RQ_FULL s + 1\<rparr>) w)
                       else do {
                         q \<leftarrow> push_timed clk w pkt (RQ w);
                         Some (- 1, upd_stats (\<lambda>s. s\<lparr>RQ_TO_CACHE := RQ_TO_CACHE s + 1\<rparr>) (w\<lparr>RQ := q\<rparr>)) }))"

definition add_wq :: "clock \<Rightarrow> packet \<Rightarrow> 'a cache_scheme \<Rightarrow> (int \<times> 'a cache_scheme) option" where
  "add_wq clk pkt w =
     (let w = upd_stats (\<lambda>s. s\<lparr>WQ_ACCESS := WQ_ACCESS s + 1\<rparr>) w
      in case find_wq pkt w of
           Some k \<Rightarrow> Some (1, upd_stats (\<lambda>s. s\<lparr>WQ_MERGED := WQ_MERGED s + 1\<rparr>) w)
         | None \<Rightarrow>
             if dq_full (WQ w) then Some (- 2, upd_stats (\<lambda>s. s\<lparr>WQ_FULL := WQ_FULL s + 1\<rparr>) w)
             else do {
               q \<leftarrow> push_timed clk w pkt (WQ w);
               Some (- 1, upd_stats (\<lambda>s. s\<lparr>WQ_TO_CACHE := WQ_TO_CACHE s + 1, WQ_ACCESS := WQ_ACCESS s + 1\<rparr>) (w\<lparr>WQ := q\<rparr>)) })"

definition merge_into_pq :: "packet \<Rightarrow> packet \<Rightarrow> packet" where
  "merge_into_pq pkt p = p\<lparr>pk_fill_level := min (pk_fill_level p) (pk_fill_level pkt),
     pk_to_return := packet_dep_merge (pk_to_return p) (pk_to_return pkt)\<rparr>"

definition add_pq :: "clock \<Rightarrow> packet \<Rightarrow> ('p, 'l, 'r) world \<Rightarrow> (int \<times> ('p, 'l, 'r) world) option" where
  "add_pq clk pkt w =
     (if pk_address pkt = 0 then None
      else let w = upd_stats (\<lambda>s. s\<lparr>PQ_ACCESS := PQ_ACCESS s + 1\<rparr>) w
           in case find_wq pkt w of
                Some k \<Rightarrow> forward_wq clk pkt k w
              | None \<Rightarrow>
                  (case dq_find (eq_addr_packet (pk_address pkt)) (PQ w) of
                     Some k \<Rightarrow>
                       Some (1, upd_stats (\<lambda>s. s\<lparr>PQ_MERGED := PQ_MERGED s + 1\<rparr>) (w\<lparr>PQ := dq_modify k (merge_into_pq pkt) (PQ w)\<rparr>))
                   | None \<Rightarrow>
                       if dq_full (PQ w) then Some (- 2, upd_stats (\<lambda>s. s\<lparr>PQ_FULL := PQ_FULL s + 1\<rparr>) w)
                       else do {
                         q \<leftarrow> push_timed clk w pkt (PQ w);
                         Some (- 1, upd_stats (\<lambda>s. s\<lparr>PQ_TO_CACHE := PQ_TO_CACHE s + 1\<rparr>) (w\<lparr>PQ := q\<rparr>)) }))"

section \<open>Prefetch requests\<close>

definition pf_packet :: "clock \<Rightarrow> 'a cache_scheme \<Rightarrow> u64 \<Rightarrow> u64 \<Rightarrow> int \<Rightarrow> u32 \<Rightarrow> packet" where
  "pf_packet clk w ip pf_addr pf_fill_level metadata =
     empty_packet\<lparr>pk_fill_level := pf_fill_level, pk_pf_origin_level := fill_level w, pk_pf_metadata := metadata,
       pk_cpu := cache_cpu w, pk_address := drop_bit LOG2_BLOCK_SIZE pf_addr, pk_full_addr := pf_addr,
       pk_v_address := 0, pk_full_v_addr := 0, pk_ip := ip, pk_type := ucast PREFETCH,
       pk_event_cycle := current_core_cycle clk (cache_cpu w)\<rparr>"

definition prefetch_line ::
  "clock \<Rightarrow> u64 \<Rightarrow> u64 \<Rightarrow> u64 \<Rightarrow> int \<Rightarrow> u32 \<Rightarrow> ('p, 'l, 'r) world \<Rightarrow> (bool \<times> ('p, 'l, 'r) world) option" where
  "prefetch_line clk ip base_addr pf_addr pf_fill_level metadata w =
     (let w = upd_stats (\<lambda>s. s\<lparr>pf_requested := pf_requested s + 1\<rparr>) w
      in if \<not> dq_full (PQ w) \<and> drop_bit LOG2_PAGE_SIZE base_addr = drop_bit LOG2_PAGE_SIZE pf_addr
         then do {
           (_, w) \<leftarrow> add_pq clk (pf_packet clk w ip pf_addr pf_fill_level metadata) w;
           Some (True, upd_stats (\<lambda>s. s\<lparr>pf_issued := pf_issued s + 1\<rparr>) w) }
         else Some (False, w))"

definition kpc_prefetch_line ::
  "clock \<Rightarrow> u64 \<Rightarrow> u64 \<Rightarrow> int \<Rightarrow> u32 \<Rightarrow> ('p, 'l, 'r) world \<Rightarrow> (bool \<times> ('p, 'l, 'r) world) option" where
  "kpc_prefetch_line clk base_addr pf_addr pf_fill_level metadata w =
     (if \<not> dq_full (PQ w) \<and> drop_bit LOG2_PAGE_SIZE base_addr = drop_bit LOG2_PAGE_SIZE pf_addr
      then do {
        (_, w) \<leftarrow> add_pq clk (pf_packet clk w 0 pf_addr pf_fill_level metadata) w;
        Some (True, upd_stats (\<lambda>s. s\<lparr>pf_issued := pf_issued s + 1\<rparr>) w) }
      else Some (False, w))"

definition va_prefetch_line ::
  "clock \<Rightarrow> u64 \<Rightarrow> u64 \<Rightarrow> int \<Rightarrow> u32 \<Rightarrow> ('p, 'l, 'r) world \<Rightarrow> (bool \<times> ('p, 'l, 'r) world) option" where
  "va_prefetch_line clk ip pf_addr pf_fill_level metadata w =
     (if pf_addr = 0 then None
      else let w = upd_stats (\<lambda>s. s\<lparr>pf_requested := pf_requested s + 1\<rparr>) w
           in if \<not> dq_full (VAPQ w)
              then (case dq_find (eq_addr_packet (drop_bit LOG2_BLOCK_SIZE pf_addr)) (VAPQ w) of
                      Some k \<Rightarrow> Some (True, w)
                    | None \<Rightarrow> do {
                        q \<leftarrow> dq_push_back ((pf_packet clk w ip pf_addr pf_fill_level metadata)
                               \<lparr>pk_v_address := drop_bit LOG2_BLOCK_SIZE pf_addr, pk_full_v_addr := pf_addr,
                                pk_event_cycle := 0, pk_to_return := [this_ptr w]\<rparr>) (VAPQ w);
                        Some (True, w\<lparr>VAPQ := q\<rparr>) })
              else Some (False, w))"

text \<open>\<^verbatim>\<open>O3_CPU::prefetch_code_line\<close> of \<^verbatim>\<open>src/ooo_cpu.cc\<close>, the request of the instruction prefetchers, on the cache \<^verbatim>\<open>L1I\<close>.\<close>

definition prefetch_code_line :: "clock \<Rightarrow> u64 \<Rightarrow> ('p, 'l, 'r) world \<Rightarrow> (bool \<times> ('p, 'l, 'r) world) option" where
  "prefetch_code_line clk pf_v_addr w =
     (if pf_v_addr = 0 then None
      else let w = upd_stats (\<lambda>s. s\<lparr>pf_requested := pf_requested s + 1\<rparr>) w
           in if \<not> dq_full (PQ w)
              then do {
                (pa, vm) \<leftarrow> va_to_pa (cache_cpu w) pf_v_addr (vmem_state w);
                let pf_pa = (pa AND NOT (2 ^ LOG2_PAGE_SIZE - 1)) OR (pf_v_addr AND (2 ^ LOG2_PAGE_SIZE - 1));
                (_, w) \<leftarrow> add_pq clk (empty_packet\<lparr>pk_fill_level := FILL_L1, pk_pf_origin_level := FILL_L1, pk_cpu := cache_cpu w,
                  pk_address := drop_bit LOG2_BLOCK_SIZE pf_pa, pk_full_addr := pf_pa, pk_ip := pf_v_addr,
                  pk_type := ucast PREFETCH, pk_event_cycle := current_core_cycle clk (cache_cpu w)\<rparr>) (w\<lparr>vmem_state := vm\<rparr>);
                Some (True, upd_stats (\<lambda>s. s\<lparr>pf_issued := pf_issued s + 1\<rparr>) w) }
              else Some (False, w))"

primrec run_pf :: "clock \<Rightarrow> 'p pf_prog \<Rightarrow> ('p, 'l, 'r) world \<Rightarrow> (u32 \<times> ('p, 'l, 'r) world) option" where
  "run_pf clk (PfDone metadata p) w = Some (metadata, w\<lparr>prefetcher := p\<rparr>)"
| "run_pf clk (PfOccupancy qt k) w = run_pf clk (k (get_occupancy qt w)) w"
| "run_pf clk (PfSize qt k) w = run_pf clk (k (get_size qt w)) w"
| "run_pf clk (PfLine ip base pf lvl md k) w =
     Option.bind (prefetch_line clk ip base pf lvl md w) (\<lambda>(ok, w). run_pf clk (k ok) w)"
| "run_pf clk (PfKpcLine base pf lvl md k) w =
     Option.bind (kpc_prefetch_line clk base pf lvl md w) (\<lambda>(ok, w). run_pf clk (k ok) w)"
| "run_pf clk (PfVaLine ip pf lvl md k) w =
     Option.bind (va_prefetch_line clk ip pf lvl md w) (\<lambda>(ok, w). run_pf clk (k ok) w)"
| "run_pf clk (PfCodeLine pf k) w =
     Option.bind (prefetch_code_line clk pf w) (\<lambda>(ok, w). run_pf clk (k ok) w)"

end
