(* ===== verification/CacheHandlers.thy ===== *)
theory CacheHandlers
  imports CacheModel
begin

text \<open>
  The handlers of \<^verbatim>\<open>src/cache.cc\<close> and the cycle \<^verbatim>\<open>operate\<close>. A handler takes the packet at the front of a queue as a value:
  it is popped when the handler succeeds, a handler that gives up has not written to it, and what a
  prefetch request could merge into it meanwhile (the fill level and the requesters) is not read again.
\<close>

section \<open>Prefetcher calls\<close>

definition is_train :: "'a cache_scheme \<Rightarrow> packet \<Rightarrow> bool" where
  "is_train w pkt \<longleftrightarrow> ptype pkt = LOAD \<or> (ptype pkt = PREFETCH \<and> pk_pf_origin_level pkt < fill_level w)"

text \<open>
  The calls of \<^verbatim>\<open>readlike_hit\<close> and \<^verbatim>\<open>readlike_miss\<close>: \<open>line\<close> is the address the lower levels report, \<open>pf_bit\<close> the prefetch bit of the
  block. The last level works on behalf of the core of the packet.
\<close>

definition operate_call :: "'a cache_scheme \<Rightarrow> packet \<Rightarrow> bool \<Rightarrow> u64 \<Rightarrow> u8 \<Rightarrow> pf_call option" where
  "operate_call w pkt hit line pf_bit =
     (let v = push_bit LOG2_BLOCK_SIZE (pk_v_address pkt); a = push_bit LOG2_BLOCK_SIZE line
      in if cache_type w = IS_L1I then Some (L1iOperate (pk_cpu pkt) (pk_ip pkt) hit pf_bit)
         else if cache_type w = IS_L1D then Some (L1dOperate (pk_full_v_addr pkt) (pk_full_addr pkt) (pk_ip pkt) hit (pk_type pkt))
         else if cache_type w = IS_L2C then Some (L2cOperate v a (pk_ip pkt) hit (pk_type pkt))
         else if cache_type w = IS_LLC then Some (LlcOperate v a (pk_ip pkt) hit (pk_type pkt))
         else None)"

definition call_prefetcher ::
  "clock \<Rightarrow> ('p, 'l, 'r) parts \<Rightarrow> packet \<Rightarrow> pf_call option \<Rightarrow> u32 \<Rightarrow> ('p, 'l, 'r) world \<Rightarrow> (u32 \<times> ('p, 'l, 'r) world) option" where
  "call_prefetcher clk P pkt call metadata w =
     (case call of
        None \<Rightarrow> Some (metadata, w)
      | Some c \<Rightarrow>
          if cache_type w = IS_LLC
          then do {
            (md, w) \<leftarrow> run_pf clk (w_hook P c (prefetcher w)) (w\<lparr>cache_cpu := pk_cpu pkt\<rparr>);
            Some (md, w\<lparr>cache_cpu := 0\<rparr>) }
          else run_pf clk (w_hook P c (prefetcher w)) w)"

definition train_prefetcher ::
  "clock \<Rightarrow> ('p, 'l, 'r) parts \<Rightarrow> packet \<Rightarrow> bool \<Rightarrow> u64 \<Rightarrow> u8 \<Rightarrow> ('p, 'l, 'r) world \<Rightarrow> ('p, 'l, 'r) world option" where
  "train_prefetcher clk P pkt hit line pf_bit w =
     (if is_train w pkt
      then map_option snd (call_prefetcher clk P pkt (operate_call w pkt hit line pf_bit) 0 w)
      else Some w)"

definition update_replacement ::
  "('p, 'l, 'r) parts \<Rightarrow> nat \<Rightarrow> nat \<Rightarrow> u64 \<Rightarrow> packet \<Rightarrow> bool \<Rightarrow> ('p, 'l, 'r) world \<Rightarrow> ('p, 'l, 'r) world option" where
  "update_replacement P sx way full_addr pkt hit w =
     map_option (\<lambda>(bs, r). w\<lparr>blocks := bs, repl := r\<rparr>)
       (p_update (w_policy P) sx way full_addr (pk_ip pkt) (ptype pkt) hit (blocks w) (repl w))"

definition count_hit :: "packet \<Rightarrow> cache_stats \<Rightarrow> cache_stats" where
  "count_hit pkt s = s\<lparr>sim_hit := count2 (pk_cpu pkt) (pk_type pkt) (sim_hit s),
     sim_access := count2 (pk_cpu pkt) (pk_type pkt) (sim_access s)\<rparr>"

definition count_miss :: "packet \<Rightarrow> cache_stats \<Rightarrow> cache_stats" where
  "count_miss pkt s = s\<lparr>sim_miss := count2 (pk_cpu pkt) (pk_type pkt) (sim_miss s),
     sim_access := count2 (pk_cpu pkt) (pk_type pkt) (sim_access s)\<rparr>"

section \<open>Hits\<close>

definition readlike_hit ::
  "clock \<Rightarrow> ('p, 'l, 'r) parts \<Rightarrow> nat \<Rightarrow> nat \<Rightarrow> packet \<Rightarrow> ('p, 'l, 'r) world \<Rightarrow> ('p, 'l, 'r) world option" where
  "readlike_hit clk P sx way pkt w =
     (let i = sx * NUM_WAY w + way; hit_block = blocks w ! i; pkt = pkt\<lparr>pk_data := blk_data hit_block\<rparr>
      in do {
        w \<leftarrow> train_prefetcher clk P pkt True (blk_address hit_block) (blk_prefetch hit_block) w;
        w \<leftarrow> update_replacement P sx way (blk_full_addr hit_block) pkt True w;
        w \<leftarrow> answer clk pkt (upd_stats (count_hit pkt) w);
        let w = (if blk_prefetch (blocks w ! i) \<noteq> 0
                 then upd_block i (\<lambda>b. b\<lparr>blk_prefetch := 0\<rparr>) (upd_stats (\<lambda>s. s\<lparr>pf_useful := pf_useful s + 1\<rparr>) w) else w);
        Some (upd_block i (\<lambda>b. b\<lparr>blk_used := 1\<rparr>) w) })"

section \<open>Read misses\<close>

text \<open>A miss that is already in flight: the dependents are merged, and a demand takes over the entry of a prefetch.\<close>

definition merge_into_mshr :: "packet \<Rightarrow> packet \<Rightarrow> packet" where
  "merge_into_mshr pkt e =
     (let e = (merge_into_rq pkt e)\<lparr>pk_fill_level := min (pk_fill_level e) (pk_fill_level pkt)\<rparr>
      in if ptype e = PREFETCH \<and> ptype pkt \<noteq> PREFETCH
         then pkt\<lparr>pk_returned := pk_returned e, pk_event_cycle := pk_event_cycle e\<rparr>
         else e)"

definition send_lower ::
  "clock \<Rightarrow> ('p, 'l, 'r) parts \<Rightarrow> packet \<Rightarrow> ('p, 'l, 'r) world \<Rightarrow> ('p, 'l, 'r) world option" where
  "send_lower clk P pkt w =
     (if cache_type w \<noteq> IS_STLB
      then let pkt = pkt\<lparr>pk_to_return := (if pk_fill_level pkt \<le> fill_level w then [this_ptr w] else [])\<rparr>
           in do {
             (_, calls, l) \<leftarrow> (if ptype pkt = PREFETCH \<and> cache_type w \<noteq> IS_LLC then c_add_pq (w_lower P) clk pkt (lower_level w)
                               else c_add_rq (w_lower P) clk pkt (lower_level w));
             send_all clk calls (w\<lparr>lower_level := l\<rparr>) }
      else do {
        (pa, vm) \<leftarrow> va_to_pa (pk_cpu pkt) (pk_full_addr pkt) (vmem_state w);
        return_data clk (pkt\<lparr>pk_data := drop_bit LOG2_PAGE_SIZE pa, pk_event_cycle := current_core_cycle clk (pk_cpu pkt)\<rparr>)
          (w\<lparr>vmem_state := vm\<rparr>) })"

definition mshr_allocate :: "clock \<Rightarrow> packet \<Rightarrow> 'a cache_scheme \<Rightarrow> 'a cache_scheme option" where
  "mshr_allocate clk pkt w =
     (if pk_fill_level pkt \<le> fill_level w
      then (case mshr_find (\<lambda>e. \<not> is_valid_packet e) (MSHR w) of
              None \<Rightarrow> None
            | Some i \<Rightarrow> Some (w\<lparr>MSHR := mshr_put (fst (MSHR w ! i))
                (pkt\<lparr>pk_returned := INFLIGHT, pk_cycle_enqueued := current_core_cycle clk (pk_cpu pkt)\<rparr>) (MSHR w)\<rparr>))
      else Some w)"

definition lower_full :: "('p, 'l, 'r) parts \<Rightarrow> nat \<Rightarrow> u64 \<Rightarrow> ('p, 'l, 'r) world \<Rightarrow> bool" where
  "lower_full P qt address w \<longleftrightarrow>
     c_get_occupancy (w_lower P) qt address (lower_level w) = c_get_size (w_lower P) qt address (lower_level w)"

definition readlike_miss ::
  "clock \<Rightarrow> ('p, 'l, 'r) parts \<Rightarrow> packet \<Rightarrow> ('p, 'l, 'r) world \<Rightarrow> (bool \<times> ('p, 'l, 'r) world) option" where
  "readlike_miss clk P pkt w =
     (let mshr_full = (\<forall>n\<in>set (MSHR w). is_valid_packet (snd n));
          train = (\<lambda>w. map_option (Pair True) (train_prefetcher clk P pkt False (pk_address pkt) 0 w))
      in case mshr_find (eq_addr_packet (pk_address pkt)) (MSHR w) of
           Some i \<Rightarrow> train (w\<lparr>MSHR := mshr_put (fst (MSHR w ! i)) (merge_into_mshr pkt (snd (MSHR w ! i))) (MSHR w)\<rparr>)
         | None \<Rightarrow>
             if mshr_full then Some (False, w)
             else if cache_type w = IS_LLC \<and> lower_full P 1 (pk_address pkt) w then Some (False, w)
             else if cache_type w \<noteq> IS_LLC \<and> ptype pkt = PREFETCH \<and> lower_full P 3 (pk_address pkt) w then Some (False, w)
             else do {
               w \<leftarrow> mshr_allocate clk pkt w;
               w \<leftarrow> send_lower clk P pkt w;
               train w })"

section \<open>Fills\<close>

text \<open>
  \<open>BLOCK_SIZE\<close> is an unsigned 32-bit constant, so the mask \<^verbatim>\<open>~(BLOCK_SIZE-1)\<close> has no bits above the 32nd.
\<close>

definition line_mask :: u64 where "line_mask = ucast (NOT (2 ^ LOG2_BLOCK_SIZE - 1) :: u32)"

definition fill_call :: "'a cache_scheme \<Rightarrow> nat \<Rightarrow> nat \<Rightarrow> packet \<Rightarrow> u64 \<Rightarrow> u64 \<Rightarrow> pf_call option" where
  "fill_call w sx way pkt evicting_ip evicting_address =
     (let v = push_bit LOG2_BLOCK_SIZE (pk_v_address pkt); a = push_bit LOG2_BLOCK_SIZE (pk_address pkt);
          ev = push_bit LOG2_BLOCK_SIZE evicting_address; pf = (ptype pkt = PREFETCH)
      in if cache_type w = IS_L1I then Some (L1iFill (pk_cpu pkt) (pk_ip pkt AND line_mask) sx way pf (evicting_ip AND line_mask))
         else if cache_type w = IS_L1D then Some (L1dFill (pk_full_v_addr pkt) (pk_full_addr pkt) sx way pf ev (pk_pf_metadata pkt))
         else if cache_type w = IS_L2C then Some (L2cFill v a sx way pf ev (pk_pf_metadata pkt))
         else if cache_type w = IS_LLC then Some (LlcFill v a sx way pf ev (pk_pf_metadata pkt))
         else None)"

definition writeback_packet :: "clock \<Rightarrow> 'a cache_scheme \<Rightarrow> packet \<Rightarrow> block \<Rightarrow> packet" where
  "writeback_packet clk w pkt b =
     empty_packet\<lparr>pk_fill_level := fill_level w * 2, pk_cpu := pk_cpu pkt, pk_address := blk_address b,
       pk_full_addr := blk_full_addr b, pk_data := blk_data b, pk_instr_id := pk_instr_id pkt, pk_ip := 0,
       pk_type := ucast WRITEBACK, pk_event_cycle := current_core_cycle clk (pk_cpu pkt)\<rparr>"

text \<open>The dirty victim goes to the lower level first; \<open>False\<close> if its write queue has no room.\<close>

definition evict_dirty ::
  "clock \<Rightarrow> ('p, 'l, 'r) parts \<Rightarrow> packet \<Rightarrow> block \<Rightarrow> ('p, 'l, 'r) world \<Rightarrow> (bool \<times> ('p, 'l, 'r) world) option" where
  "evict_dirty clk P pkt b w =
     (if lower_full P 2 (blk_address b) w
      then Some (False, w\<lparr>lower_level := c_increment_WQ_FULL (w_lower P) (blk_address b) (lower_level w)\<rparr>)
      else do {
        (result, calls, l) \<leftarrow> c_add_wq (w_lower P) clk (writeback_packet clk w pkt b) (lower_level w);
        w \<leftarrow> send_all clk calls (w\<lparr>lower_level := l\<rparr>);
        Some (result \<noteq> - 2, w) })"

text \<open>The block that a packet becomes.\<close>

definition fill_block :: "'a cache_scheme \<Rightarrow> packet \<Rightarrow> block \<Rightarrow> block" where
  "fill_block w pkt b =
     (let n = (block_of_packet pkt)\<lparr>blk_lru := blk_lru b\<rparr>
      in if ptype pkt = WRITEBACK \<or> (ptype pkt = RFO \<and> cache_type w = IS_L1D) then n\<lparr>blk_dirty := 1\<rparr> else n)"

definition install :: "nat \<Rightarrow> nat \<Rightarrow> packet \<Rightarrow> 'a cache_scheme \<Rightarrow> 'a cache_scheme option" where
  "install sx way pkt w =
     (let i = sx * NUM_WAY w + way; b = blocks w ! i
      in if cache_type w \<in> {IS_ITLB, IS_DTLB, IS_STLB} \<and> pk_data pkt = 0 then None
         else Some (upd_block i (fill_block w pkt)
           (upd_stats (\<lambda>s. s\<lparr>pf_useless := pf_useless s + (if blk_prefetch b \<noteq> 0 \<and> blk_used b = 0 then 1 else 0),
              pf_fill := pf_fill s + (if ptype pkt = PREFETCH then 1 else 0)\<rparr>) w)))"

definition finish_fill ::
  "clock \<Rightarrow> ('p, 'l, 'r) parts \<Rightarrow> nat \<Rightarrow> nat \<Rightarrow> packet \<Rightarrow> u64 \<Rightarrow> u64 \<Rightarrow> ('p, 'l, 'r) world \<Rightarrow> (packet \<times> ('p, 'l, 'r) world) option" where
  "finish_fill clk P sx way pkt evicting_ip evicting_address w =
     (let w = (if warmup_complete clk (pk_cpu pkt) \<and> pk_cycle_enqueued pkt \<noteq> 0
               then upd_stats (\<lambda>s. s\<lparr>total_miss_latency := total_miss_latency s +
                      (current_core_cycle clk (pk_cpu pkt) - pk_cycle_enqueued pkt)\<rparr>) w
               else w)
      in do {
        (md, w) \<leftarrow> call_prefetcher clk P pkt (fill_call w sx way pkt evicting_ip evicting_address) (pk_pf_metadata pkt) w;
        let pkt = (if cache_type w \<in> {IS_L2C, IS_LLC} then pkt\<lparr>pk_pf_metadata := md\<rparr> else pkt);
        w \<leftarrow> update_replacement P sx way (pk_full_addr pkt) pkt False w;
        Some (pkt, upd_stats (count_miss pkt) w) })"

definition filllike_miss ::
  "clock \<Rightarrow> ('p, 'l, 'r) parts \<Rightarrow> nat \<Rightarrow> nat \<Rightarrow> packet \<Rightarrow> ('p, 'l, 'r) world \<Rightarrow> (bool \<times> packet \<times> ('p, 'l, 'r) world) option" where
  "filllike_miss clk P sx way pkt w =
     (let bypass = (way = NUM_WAY w); b = blocks w ! (sx * NUM_WAY w + way)
      in if ptype pkt = WRITEBACK \<and> bypass then None
         else if bypass then do { (pkt, w) \<leftarrow> finish_fill clk P sx way pkt 0 0 w; Some (True, pkt, w) }
         else do {
           (ok, w) \<leftarrow> (if has_lower_level w \<and> blk_dirty b \<noteq> 0 then evict_dirty clk P pkt b w else Some (True, w));
           if \<not> ok then Some (False, pkt, w)
           else do {
             w \<leftarrow> install sx way pkt w;
             (pkt, w) \<leftarrow> finish_fill clk P sx way pkt (blk_ip b) (blk_address b) w;
             Some (True, pkt, w) } })"

section \<open>The handlers\<close>

text \<open>
  The shape of the handlers: \<^verbatim>\<open>while (available > 0)\<close> around a step that gives up (\<open>False\<close>) or counts the budget down by
  one. The first argument is fuel, the budget itself.
\<close>

primrec budget_loop :: "nat \<Rightarrow> ('w \<Rightarrow> u32) \<Rightarrow> ('w \<Rightarrow> (bool \<times> 'w) option) \<Rightarrow> 'w \<Rightarrow> 'w option" where
  "budget_loop 0 available step w = (if available w > 0 then None else Some w)"
| "budget_loop (Suc n) available step w =
     (if available w > 0
      then (case step w of
              None \<Rightarrow> None
            | Some (False, w) \<Rightarrow> Some w
            | Some (True, w) \<Rightarrow> budget_loop n available step w)
      else Some w)"

definition find_victim ::
  "('p, 'l, 'r) parts \<Rightarrow> nat \<Rightarrow> packet \<Rightarrow> ('p, 'l, 'r) world \<Rightarrow> (nat \<times> ('p, 'l, 'r) world) option" where
  "find_victim P sx pkt w =
     map_option (\<lambda>(way, r). (way, w\<lparr>repl := r\<rparr>))
       (p_find_victim (w_policy P) sx (set_row w sx) (pk_ip pkt) (pk_full_addr pkt) (ptype pkt) (repl w))"

text \<open>The answers of a fill: each call reads the packet in the node, which a call on the cache itself may change.\<close>

fun answer_node :: "clock \<Rightarrow> nat \<Rightarrow> nat list \<Rightarrow> ('p, 'l, 'r) world \<Rightarrow> ('p, 'l, 'r) world option" where
  "answer_node clk node [] w = Some w"
| "answer_node clk node (ret # rets) w =
     (case map_of (MSHR w) node of
        None \<Rightarrow> None
      | Some p \<Rightarrow> Option.bind (send clk ret p w) (answer_node clk node rets))"

definition fill_step :: "clock \<Rightarrow> ('p, 'l, 'r) parts \<Rightarrow> ('p, 'l, 'r) world \<Rightarrow> (bool \<times> ('p, 'l, 'r) world) option" where
  "fill_step clk P w =
     (case MSHR w of
        [] \<Rightarrow> None
      | (node, e) # _ \<Rightarrow>
          if pk_returned e \<noteq> COMPLETED \<or> pk_event_cycle e > current_core_cycle clk (pk_cpu e) then Some (False, w)
          else do {
            let sx = get_set w (pk_address e);
            (way, w) \<leftarrow> find_victim P sx e w;
            (ok, e, w) \<leftarrow> filllike_miss clk P sx way e w;
            if \<not> ok then Some (False, w)
            else do {
              w \<leftarrow> (if way \<noteq> NUM_WAY w
                    then answer_node clk node (pk_to_return e)
                      (w\<lparr>MSHR := mshr_put node (e\<lparr>pk_data := blk_data (blocks w ! (sx * NUM_WAY w + way))\<rparr>) (MSHR w)\<rparr>)
                    else Some w);
              Some (True, w\<lparr>MSHR := mshr_sort (mshr_put node empty_packet (MSHR w)),
                writes_available_this_cycle := writes_available_this_cycle w - 1\<rparr>) } })"

definition handle_fill :: "clock \<Rightarrow> ('p, 'l, 'r) parts \<Rightarrow> ('p, 'l, 'r) world \<Rightarrow> ('p, 'l, 'r) world option" where
  "handle_fill clk P w = budget_loop (unat (writes_available_this_cycle w)) writes_available_this_cycle (fill_step clk P) w"

text \<open>The guard that the three queue handlers share.\<close>

definition queue_ready :: "clock \<Rightarrow> packet delay_queue \<Rightarrow> bool" where
  "queue_ready clk q \<longleftrightarrow>
     dq_has_ready q \<and> pk_cpu (dq_front q) < NUM_CPUS \<and>
     \<not> pk_event_cycle (dq_front q) > current_core_cycle clk (pk_cpu (dq_front q))"

definition writeback_access ::
  "clock \<Rightarrow> ('p, 'l, 'r) parts \<Rightarrow> packet \<Rightarrow> ('p, 'l, 'r) world \<Rightarrow> (bool \<times> ('p, 'l, 'r) world) option" where
  "writeback_access clk P pkt w =
     (let sx = get_set w (pk_address pkt); way = get_way w (pk_address pkt) sx; i = sx * NUM_WAY w + way
      in if way < NUM_WAY w
         then do {
           w \<leftarrow> update_replacement P sx way (blk_full_addr (blocks w ! i)) pkt True w;
           Some (True, upd_block i (\<lambda>b. b\<lparr>blk_dirty := 1\<rparr>) (upd_stats (count_hit pkt) w)) }
         else if cache_type w = IS_L1D then readlike_miss clk P pkt w
         else do {
           (way, w) \<leftarrow> find_victim P sx pkt w;
           (ok, _, w) \<leftarrow> filllike_miss clk P sx way pkt w;
           Some (ok, w) })"

definition writeback_step :: "clock \<Rightarrow> ('p, 'l, 'r) parts \<Rightarrow> ('p, 'l, 'r) world \<Rightarrow> (bool \<times> ('p, 'l, 'r) world) option" where
  "writeback_step clk P w =
     (if \<not> queue_ready clk (WQ w) then Some (False, w)
      else do {
        (ok, w) \<leftarrow> writeback_access clk P (dq_front (WQ w)) w;
        if \<not> ok then Some (False, w)
        else do {
          q \<leftarrow> dq_pop_front (WQ w);
          Some (True, w\<lparr>writes_available_this_cycle := writes_available_this_cycle w - 1, WQ := q\<rparr>) } })"

definition handle_writeback :: "clock \<Rightarrow> ('p, 'l, 'r) parts \<Rightarrow> ('p, 'l, 'r) world \<Rightarrow> ('p, 'l, 'r) world option" where
  "handle_writeback clk P w =
     budget_loop (unat (writes_available_this_cycle w)) writes_available_this_cycle (writeback_step clk P) w"

definition read_access ::
  "clock \<Rightarrow> ('p, 'l, 'r) parts \<Rightarrow> packet \<Rightarrow> ('p, 'l, 'r) world \<Rightarrow> (bool \<times> ('p, 'l, 'r) world) option" where
  "read_access clk P pkt w =
     (let sx = get_set w (pk_address pkt); way = get_way w (pk_address pkt) sx
      in if way < NUM_WAY w then map_option (Pair True) (readlike_hit clk P sx way pkt w)
         else readlike_miss clk P pkt w)"

definition read_step :: "clock \<Rightarrow> ('p, 'l, 'r) parts \<Rightarrow> ('p, 'l, 'r) world \<Rightarrow> (bool \<times> ('p, 'l, 'r) world) option" where
  "read_step clk P w =
     (if \<not> queue_ready clk (RQ w) then Some (False, w)
      else do {
        (ok, w) \<leftarrow> read_access clk P (dq_front (RQ w)) w;
        if \<not> ok then Some (False, w)
        else do {
          q \<leftarrow> dq_pop_front (RQ w);
          Some (True, w\<lparr>RQ := q, reads_available_this_cycle := reads_available_this_cycle w - 1\<rparr>) } })"

definition handle_read :: "clock \<Rightarrow> ('p, 'l, 'r) parts \<Rightarrow> ('p, 'l, 'r) world \<Rightarrow> ('p, 'l, 'r) world option" where
  "handle_read clk P w = budget_loop (unat (reads_available_this_cycle w)) reads_available_this_cycle (read_step clk P) w"

definition prefetch_step :: "clock \<Rightarrow> ('p, 'l, 'r) parts \<Rightarrow> ('p, 'l, 'r) world \<Rightarrow> (bool \<times> ('p, 'l, 'r) world) option" where
  "prefetch_step clk P w =
     (if \<not> queue_ready clk (PQ w) then Some (False, w)
      else do {
        (ok, w) \<leftarrow> read_access clk P (dq_front (PQ w)) w;
        if \<not> ok then Some (False, w)
        else do {
          q \<leftarrow> dq_pop_front (PQ w);
          Some (True, w\<lparr>PQ := q, reads_available_this_cycle := reads_available_this_cycle w - 1\<rparr>) } })"

definition handle_prefetch :: "clock \<Rightarrow> ('p, 'l, 'r) parts \<Rightarrow> ('p, 'l, 'r) world \<Rightarrow> ('p, 'l, 'r) world option" where
  "handle_prefetch clk P w =
     budget_loop (unat (reads_available_this_cycle w)) reads_available_this_cycle (prefetch_step clk P) w"

definition va_translate_prefetches :: "clock \<Rightarrow> ('p, 'l, 'r) world \<Rightarrow> ('p, 'l, 'r) world option" where
  "va_translate_prefetches clk w =
     (if \<not> dq_full (PQ w) \<and> dq_has_ready (VAPQ w)
      then do {
        let pkt = dq_front (VAPQ w);
        (pa, vm) \<leftarrow> va_to_pa (cache_cpu w) (pk_full_v_addr pkt) (vmem_state w);
        (_, w) \<leftarrow> add_pq clk (pkt\<lparr>pk_full_addr := pa, pk_address := drop_bit LOG2_BLOCK_SIZE pa\<rparr>) (w\<lparr>vmem_state := vm\<rparr>);
        q \<leftarrow> dq_pop_front (VAPQ w);
        Some (w\<lparr>VAPQ := q\<rparr>) }
      else Some w)"

definition operate_writes :: "clock \<Rightarrow> ('p, 'l, 'r) parts \<Rightarrow> ('p, 'l, 'r) world \<Rightarrow> ('p, 'l, 'r) world option" where
  "operate_writes clk P w = do {
     w \<leftarrow> handle_fill clk P (w\<lparr>writes_available_this_cycle := MAX_WRITE w\<rparr>);
     w \<leftarrow> handle_writeback clk P w;
     Some (w\<lparr>WQ := dq_operate (WQ w)\<rparr>) }"

definition operate_reads :: "clock \<Rightarrow> ('p, 'l, 'r) parts \<Rightarrow> ('p, 'l, 'r) world \<Rightarrow> ('p, 'l, 'r) world option" where
  "operate_reads clk P w = do {
     w \<leftarrow> handle_read clk P (w\<lparr>reads_available_this_cycle := MAX_READ w\<rparr>);
     w \<leftarrow> va_translate_prefetches clk w;
     w \<leftarrow> handle_prefetch clk P w;
     Some (w\<lparr>RQ := dq_operate (RQ w), PQ := dq_operate (PQ w), VAPQ := dq_operate (VAPQ w)\<rparr>) }"

definition cache_operate :: "clock \<Rightarrow> ('p, 'l, 'r) parts \<Rightarrow> ('p, 'l, 'r) world \<Rightarrow> ('p, 'l, 'r) world option" where
  "cache_operate clk P w = Option.bind (operate_writes clk P w) (operate_reads clk P)"

end
