(* ===== verification/CacheSafety.thy ===== *)
theory CacheSafety
  imports CacheHandlers
begin

text \<open>
  The invariant of a cache and its proof. The parts a cache calls enter through the locale \<open>cache_parts\<close>: a lower level that
  answers only the requester of the packet it is given, a policy that names a way and touches nothing but
  recencies, and prefetchers that stay within the physical page.
\<close>

section \<open>Lines\<close>

text \<open>What a block says to a lookup.\<close>

definition line_of :: "block \<Rightarrow> (u64 \<times> u64) option" where
  "line_of b = (if blk_valid b \<noteq> 0 then Some (blk_address b, blk_data b) else None)"

definition is_tlb :: "u8 \<Rightarrow> bool" where
  "is_tlb t \<longleftrightarrow> t \<in> {IS_ITLB, IS_DTLB, IS_STLB}"

definition takes_writebacks :: "u8 \<Rightarrow> bool" where
  "takes_writebacks t \<longleftrightarrow> t \<in> {IS_L2C, IS_LLC}"

definition takes_writes :: "u8 \<Rightarrow> bool" where
  "takes_writes t \<longleftrightarrow> t = IS_L1D \<or> takes_writebacks t"

definition set_of :: "nat \<Rightarrow> u64 \<Rightarrow> nat" where
  "set_of sets a = unat (ucast (a AND (2 ^ lg2 sets - 1)) :: u32)"

text \<open>Every line is in the set of its address; where lines come in through the registers alone, at most once.\<close>

definition lines_ok :: "u8 \<Rightarrow> nat \<Rightarrow> nat \<Rightarrow> (u64 \<times> u64) option list \<Rightarrow> bool" where
  "lines_ok t sets ways ls \<longleftrightarrow>
     length ls = sets * ways \<and>
     (\<forall>i<length ls. \<forall>l. ls ! i = Some l \<longrightarrow> i div ways = set_of sets (fst l)) \<and>
     (\<not> takes_writebacks t \<longrightarrow>
       (\<forall>i<length ls. \<forall>j<length ls. \<forall>k l. ls ! i = Some k \<longrightarrow> ls ! j = Some l \<longrightarrow> fst k = fst l \<longrightarrow> i = j))"

definition lines :: "'a cache_scheme \<Rightarrow> (u64 \<times> u64) option list" where
  "lines w = map line_of (blocks w)"

text \<open>The addresses that would be written back.\<close>

definition dirty_of :: "block \<Rightarrow> u64 option" where
  "dirty_of b = (if blk_dirty b \<noteq> 0 then Some (blk_address b) else None)"

definition dirty_lines :: "'a cache_scheme \<Rightarrow> u64 option list" where
  "dirty_lines w = map dirty_of (blocks w)"

lemma lines_simps [simp]:
  "lines (upd_stats f w) = lines w" "length (lines w) = length (blocks w)"
  by (simp_all add: lines_def upd_stats_def)

section \<open>Packets and registers\<close>

definition request_ok :: "'a cache_scheme \<Rightarrow> packet \<Rightarrow> bool" where
  "request_ok w p \<longleftrightarrow>
     sound_request p \<and> this_ptr w \<notin> set (pk_to_return p) \<and>
     (is_tlb (cache_type w) \<longrightarrow> ptype p \<noteq> PREFETCH) \<and>
     (cache_type w = IS_STLB \<longrightarrow> pk_address p = drop_bit LOG2_PAGE_SIZE (pk_full_addr p) \<and> pk_fill_level p \<le> fill_level w)"

definition mshr_ok :: "'a cache_scheme \<Rightarrow> mshr \<Rightarrow> bool" where
  "mshr_ok w ms \<longleftrightarrow>
     0 < MSHR_SIZE w \<and> length ms = MSHR_SIZE w \<and> distinct (map fst ms) \<and> sorted_wrt served_before ms \<and>
     (\<forall>n\<in>set ms. is_valid_packet (snd n) \<longrightarrow> request_ok w (snd n)) \<and>
     (\<forall>n\<in>set ms. pk_returned (snd n) = COMPLETED \<longrightarrow> is_valid_packet (snd n)) \<and>
     (\<forall>m\<in>set ms. \<forall>n\<in>set ms. is_valid_packet (snd m) \<longrightarrow> pk_address (snd m) = pk_address (snd n) \<longrightarrow> m = n)"

text \<open>No line of an address that a register waits for.\<close>

definition apart :: "(u64 \<times> u64) option list \<Rightarrow> mshr \<Rightarrow> bool" where
  "apart ls ms \<longleftrightarrow> (\<forall>n\<in>set ms. is_valid_packet (snd n) \<longrightarrow> (\<forall>l. Some l \<in> set ls \<longrightarrow> fst l \<noteq> pk_address (snd n)))"

definition good_data :: "(u64 \<Rightarrow> u64 \<Rightarrow> bool) \<Rightarrow> (u64 \<times> u64) option list \<Rightarrow> mshr \<Rightarrow> bool" where
  "good_data good ls ms \<longleftrightarrow>
     (\<forall>l. Some l \<in> set ls \<longrightarrow> good (fst l) (snd l)) \<and>
     (\<forall>n\<in>set ms. pk_returned (snd n) = COMPLETED \<longrightarrow> good (pk_address (snd n)) (pk_data (snd n)))"

definition queue_ok :: "nat \<Rightarrow> 'a cache_scheme \<Rightarrow> packet delay_queue \<Rightarrow> bool" where
  "queue_ok n w q \<longleftrightarrow> dq_safe n q \<and> (\<forall>p\<in>set (dq_view q). request_ok w p)"

definition conf_ok :: "'a cache_scheme \<Rightarrow> bool" where
  "conf_ok w \<longleftrightarrow> 0 < NUM_SET w \<and> NUM_SET w < 2 ^ 32 \<and> 0 < NUM_WAY w \<and> cache_cpu w < NUM_CPUS"

text \<open>The members an operation never writes.\<close>

definition same_conf :: "'a cache_scheme \<Rightarrow> 'b cache_scheme \<Rightarrow> bool" where
  "same_conf w w' \<longleftrightarrow>
     this_ptr w' = this_ptr w \<and> NUM_SET w' = NUM_SET w \<and> NUM_WAY w' = NUM_WAY w \<and> MSHR_SIZE w' = MSHR_SIZE w \<and>
     FILL_LATENCY w' = FILL_LATENCY w \<and> MAX_READ w' = MAX_READ w \<and> MAX_WRITE w' = MAX_WRITE w \<and>
     fill_level w' = fill_level w \<and> cache_type w' = cache_type w \<and> has_lower_level w' = has_lower_level w"

lemma same_conf_refl [simp]: "same_conf w w"
  by (simp add: same_conf_def)

lemma same_conf_trans [trans]: "same_conf u v \<Longrightarrow> same_conf v w \<Longrightarrow> same_conf u w"
  by (simp add: same_conf_def)

lemma request_ok_conf: "same_conf w w' \<Longrightarrow> request_ok w' p \<longleftrightarrow> request_ok w p"
  by (simp add: same_conf_def request_ok_def sound_request_def)

lemma mshr_ok_conf: "same_conf w w' \<Longrightarrow> mshr_ok w' ms \<longleftrightarrow> mshr_ok w ms"
  by (simp add: mshr_ok_def request_ok_conf) (simp add: same_conf_def)

lemma queue_ok_conf: "same_conf w w' \<Longrightarrow> queue_ok n w' q \<longleftrightarrow> queue_ok n w q"
  by (simp add: queue_ok_def request_ok_conf)

section \<open>Sets and ways\<close>

lemma lg2_le: "0 < n \<Longrightarrow> 2 ^ lg2 n \<le> n"
proof (induction n rule: lg2.induct)
  case (1 n)
  show ?case
  proof (cases "n < 2")
    case False
    with 1 have "2 ^ lg2 (n div 2) \<le> n div 2" by simp
    with False show ?thesis by (subst lg2.simps) simp
  qed (use 1 in \<open>simp add: lg2.simps\<close>)
qed

lemma set_of_bound: "0 < sets \<Longrightarrow> sets < 2 ^ 32 \<Longrightarrow> set_of sets a < sets"
proof -
  assume s: "0 < sets" "sets < 2 ^ 32"
  have le: "2 ^ lg2 sets \<le> sets" by (rule lg2_le[OF s(1)])
  then have e: "lg2 sets < 32" using s(2) by (metis linorder_not_less one_less_numeral_iff order.strict_trans1 order.trans power_increasing_iff semiring_norm(76))
  have "a AND (2 ^ lg2 sets - 1) = take_bit (lg2 sets) a" by (simp add: take_bit_eq_mask mask_eq_decr_exp)
  then have "unat (a AND (2 ^ lg2 sets - 1)) < 2 ^ lg2 sets" by (simp add: unsigned_take_bit_eq)
  moreover have "unat (ucast x :: u32) \<le> unat x" for x :: u64
    by (simp add: unsigned_ucast_eq take_bit_nat_less_eq_self)
  ultimately show ?thesis using le unfolding set_of_def by (metis le_less_trans less_le_trans)
qed

lemma get_set_eq: "get_set w a = set_of (NUM_SET w) a"
  by (simp add: get_set_def set_of_def)

lemma block_index:
  assumes "sx < sets" "way < (ways :: nat)"
  shows "sx * ways + way < sets * ways" "(sx * ways + way) div ways = sx"
proof -
  have "sx * ways + way < Suc sx * ways" using assms by simp
  also have "\<dots> \<le> sets * ways" using assms(1) by (intro mult_le_mono1) simp
  finally show "sx * ways + way < sets * ways" .
  show "(sx * ways + way) div ways = sx" using assms(2) by simp
qed

lemma get_way_cases:
  assumes "conf_ok w" "length (blocks w) = NUM_SET w * NUM_WAY w" "sx = get_set w a"
  obtains (hit) way d where "get_way w a sx = way" "way < NUM_WAY w" "sx * NUM_WAY w + way < length (blocks w)"
      "lines w ! (sx * NUM_WAY w + way) = Some (a, d)" "blk_data (blocks w ! (sx * NUM_WAY w + way)) = d"
    | (miss) "get_way w a sx = NUM_WAY w" "\<And>i l. i < length (lines w) \<Longrightarrow> lines w ! i = Some l \<Longrightarrow> i div NUM_WAY w = sx \<Longrightarrow> fst l \<noteq> a"
proof -
  have s: "sx < NUM_SET w" using assms set_of_bound[of "NUM_SET w" a] by (simp add: conf_ok_def get_set_eq)
  let ?P = "\<lambda>i. eq_addr_block a (blocks w ! (sx * NUM_WAY w + i))"
  show thesis
  proof (cases "first_index ?P (NUM_WAY w)")
    case (Some way)
    with first_index_SomeD[OF Some] have y: "way < NUM_WAY w" "?P way" by auto
    note i = block_index(1)[OF s y(1)]
    have g: "get_way w a sx = way" by (simp add: get_way_def Some)
    from i y assms(2) show thesis
      by (intro hit[of way "blk_data (blocks w ! (sx * NUM_WAY w + way))"])
        (auto simp: g lines_def line_of_def eq_addr_block_def)
  next
    case None
    then have no: "\<not> ?P i" if "i < NUM_WAY w" for i using that by (simp add: first_index_None_iff)
    show thesis
    proof (rule miss)
      show "get_way w a sx = NUM_WAY w" by (simp add: get_way_def None)
      fix i l assume i: "i < length (lines w)" "lines w ! i = Some l" "i div NUM_WAY w = sx"
      have "i = sx * NUM_WAY w + i mod NUM_WAY w" using i(3) by (metis div_mult_mod_eq)
      moreover have "i mod NUM_WAY w < NUM_WAY w" using assms(1) by (simp add: conf_ok_def)
      ultimately show "fst l \<noteq> a" using no[of "i mod NUM_WAY w"] i
        by (auto simp: lines_def line_of_def eq_addr_block_def split: if_splits)
    qed
  qed
qed

section \<open>Registers\<close>

lemma mshr_put_mem:
  assumes "distinct (map fst ms)" "(node, e) \<in> set ms"
  shows "n \<in> set (mshr_put node p ms) \<longleftrightarrow> n = (node, p) \<or> (n \<in> set ms \<and> fst n \<noteq> node)"
  using assms by (auto simp: mshr_put_def image_iff split: if_splits)

text \<open>The registers stay well formed when one of them takes a packet whose address no other register has.\<close>

lemma mshr_ok_put:
  assumes ok: "mshr_ok w ms" and node: "(node, e) \<in> set ms"
    and p: "is_valid_packet p \<Longrightarrow> request_ok w p" "pk_returned p = COMPLETED \<Longrightarrow> is_valid_packet p"
    and new: "\<And>n. is_valid_packet p \<Longrightarrow> n \<in> set ms \<Longrightarrow> fst n \<noteq> node \<Longrightarrow> pk_address (snd n) \<noteq> pk_address p"
    and ms': "mset ms' = mset (mshr_put node p ms)" "sorted_wrt served_before ms'"
  shows "mshr_ok w ms'"
proof -
  have d: "distinct (map fst ms)" using ok by (simp add: mshr_ok_def)
  have mem: "n \<in> set ms' \<longleftrightarrow> n = (node, p) \<or> (n \<in> set ms \<and> fst n \<noteq> node)" for n
    using mshr_put_mem[OF d node] mset_eq_setD[OF ms'(1)] by simp
  have len: "length ms' = length ms" using mset_eq_length[OF ms'(1)] by simp
  have "mset (map fst ms') = mset (map fst (mshr_put node p ms))" using ms'(1) by (metis mset_map)
  then have "distinct (map fst ms')" using d by (metis nodes_mshr_put mset_eq_imp_distinct_iff)
  moreover have "m = n" if mn: "m \<in> set ms'" "n \<in> set ms'" "is_valid_packet (snd m)" "pk_address (snd m) = pk_address (snd n)" for m n
  proof -
    have vn: "is_valid_packet (snd n)" using mn by (simp add: is_valid_packet_def)
    consider "m = (node, p)" "n = (node, p)" | "m = (node, p)" "n \<in> set ms" "fst n \<noteq> node"
      | "n = (node, p)" "m \<in> set ms" "fst m \<noteq> node" | "m \<in> set ms" "n \<in> set ms"
      using mn(1,2) mem[of m] mem[of n] by blast
    then show ?thesis
    proof cases
      case 2
      with new[of n] mn show ?thesis by simp
    next
      case 3
      with new[of m] mn vn show ?thesis by simp
    next
      case 4
      with ok mn(3,4) show ?thesis unfolding mshr_ok_def by blast
    qed simp
  qed
  moreover have "is_valid_packet (snd n) \<longrightarrow> request_ok w (snd n)"
    "pk_returned (snd n) = COMPLETED \<longrightarrow> is_valid_packet (snd n)" if "n \<in> set ms'" for n
    using that p ok unfolding mem mshr_ok_def by auto
  moreover have "0 < MSHR_SIZE w" "length ms' = MSHR_SIZE w" using ok len by (simp_all add: mshr_ok_def)
  ultimately show ?thesis using ms'(2) unfolding mshr_ok_def by blast
qed

lemma apart_put:
  assumes "apart ls ms" "distinct (map fst ms)" "(node, e) \<in> set ms" "mset ms' = mset (mshr_put node p ms)"
    and "\<And>l. is_valid_packet p \<Longrightarrow> Some l \<in> set ls \<Longrightarrow> fst l \<noteq> pk_address p"
  shows "apart ls ms'"
proof -
  have "n = (node, p) \<or> n \<in> set ms" if "n \<in> set ms'" for n
    using that mshr_put_mem[OF assms(2,3), of n p] mset_eq_setD[OF assms(4)] by auto
  with assms(1,5) show ?thesis unfolding apart_def by fastforce
qed

lemma good_data_put:
  assumes "good_data good ls ms" "distinct (map fst ms)" "(node, e) \<in> set ms" "mset ms' = mset (mshr_put node p ms)"
    and "pk_returned p = COMPLETED \<Longrightarrow> good (pk_address p) (pk_data p)"
  shows "good_data good ls ms'"
proof -
  have "n = (node, p) \<or> n \<in> set ms" if "n \<in> set ms'" for n
    using that mshr_put_mem[OF assms(2,3), of n p] mset_eq_setD[OF assms(4)] by auto
  with assms(1,5) show ?thesis unfolding good_data_def by fastforce
qed

text \<open>Rewriting a register in place keeps the order if it keeps what the order looks at.\<close>

lemma sorted_mshr_put:
  assumes "sorted_wrt served_before ms" "distinct (map fst ms)" "(node, e) \<in> set ms"
    and "pk_returned p = COMPLETED \<longleftrightarrow> pk_returned e = COMPLETED"
    and "pk_returned e = COMPLETED \<Longrightarrow> pk_event_cycle p = pk_event_cycle e"
  shows "sorted_wrt served_before (mshr_put node p ms)"
proof -
  have key: "pk_returned (snd (if fst n = node then (node, p) else n)) = COMPLETED \<longleftrightarrow> pk_returned (snd n) = COMPLETED"
    "pk_returned (snd n) = COMPLETED \<Longrightarrow> pk_event_cycle (snd (if fst n = node then (node, p) else n)) = pk_event_cycle (snd n)"
    if "n \<in> set ms" for n
  proof -
    have "fst n = node \<Longrightarrow> snd n = e" using that assms(2,3) by (metis eq_key_imp_eq_value prod.collapse)
    then show "pk_returned (snd (if fst n = node then (node, p) else n)) = COMPLETED \<longleftrightarrow> pk_returned (snd n) = COMPLETED"
      "pk_returned (snd n) = COMPLETED \<Longrightarrow> pk_event_cycle (snd (if fst n = node then (node, p) else n)) = pk_event_cycle (snd n)"
      using assms(4,5) by auto
  qed
  show ?thesis unfolding mshr_put_def sorted_wrt_map
    by (rule sorted_wrt_mono_rel[OF _ assms(1)]) (use key in \<open>auto simp: served_before_def split del: if_split\<close>)
qed

lemma mshr_find_SomeD:
  assumes "mshr_find Q ms = Some i"
  shows "i < length ms" "ms ! i \<in> set ms" "Q (snd (ms ! i))"
  using first_index_SomeD[of _ _ i] assms by (auto simp: mshr_find_def)

lemma mshr_find_None: "mshr_find Q ms = None \<longleftrightarrow> (\<forall>n\<in>set ms. \<not> Q (snd n))"
  by (auto simp: mshr_find_def first_index_None_iff all_set_conv_all_nth)

lemma mshr_find_exI: "n \<in> set ms \<Longrightarrow> Q (snd n) \<Longrightarrow> \<exists>i. mshr_find Q ms = Some i"
  using mshr_find_None[of Q ms] by (cases "mshr_find Q ms") auto

section \<open>The invariant\<close>

text \<open>A prefetcher program that stays within physical pages and never asks for block 0.\<close>

primrec plain_prog :: "'p pf_prog \<Rightarrow> bool" where
  "plain_prog (PfDone md p) \<longleftrightarrow> True"
| "plain_prog (PfOccupancy qt k) \<longleftrightarrow> (\<forall>x. plain_prog (k x))"
| "plain_prog (PfSize qt k) \<longleftrightarrow> (\<forall>x. plain_prog (k x))"
| "plain_prog (PfLine ip base pf lvl md k) \<longleftrightarrow>
     (drop_bit LOG2_PAGE_SIZE base = drop_bit LOG2_PAGE_SIZE pf \<longrightarrow> drop_bit LOG2_BLOCK_SIZE pf \<noteq> 0) \<and> (\<forall>x. plain_prog (k x))"
| "plain_prog (PfKpcLine base pf lvl md k) \<longleftrightarrow>
     (drop_bit LOG2_PAGE_SIZE base = drop_bit LOG2_PAGE_SIZE pf \<longrightarrow> drop_bit LOG2_BLOCK_SIZE pf \<noteq> 0) \<and> (\<forall>x. plain_prog (k x))"
| "plain_prog (PfVaLine ip pf lvl md k) \<longleftrightarrow> False"
| "plain_prog (PfCodeLine pf k) \<longleftrightarrow> False"

record ('l, 'r) contract =
  k_this :: nat
  k_sets :: nat
  k_ways :: nat
  k_tlb :: bool
  k_lower :: "'l \<Rightarrow> bool"
  k_repl :: "'r \<Rightarrow> bool"
  k_vmem :: "nat \<Rightarrow> vmem \<Rightarrow> bool"
  k_good :: "vmem \<Rightarrow> u64 \<Rightarrow> u64 \<Rightarrow> bool"

definition unranked :: "block \<Rightarrow> block" where
  "unranked b = b\<lparr>blk_lru := 0\<rparr>"

definition cache_ok :: "('l, 'r) contract \<Rightarrow> bool \<Rightarrow> nat \<Rightarrow> ('p, 'l, 'r) world \<Rightarrow> bool" where
  "cache_ok K ap n w \<longleftrightarrow>
     conf_ok w \<and> this_ptr w = k_this K \<and> NUM_SET w = k_sets K \<and> NUM_WAY w = k_ways K \<and>
     lines_ok (cache_type w) (k_sets K) (k_ways K) (lines w) \<and>
     mshr_ok w (MSHR w) \<and>
     queue_ok n w (RQ w) \<and> queue_ok n w (PQ w) \<and> queue_ok n w (WQ w) \<and> queue_ok n w (VAPQ w) \<and>
     dq_view (VAPQ w) = [] \<and> (\<not> takes_writes (cache_type w) \<longrightarrow> dq_view (WQ w) = []) \<and>
     (ap \<and> \<not> takes_writebacks (cache_type w) \<longrightarrow> apart (lines w) (MSHR w)) \<and> Some 0 \<notin> set (dirty_lines w) \<and>
     (is_tlb (cache_type w) \<longrightarrow> k_tlb K \<and> good_data (k_good K (vmem_state w)) (lines w) (MSHR w)) \<and>
     (cache_type w = IS_STLB \<longrightarrow> k_vmem K n (vmem_state w)) \<and>
     k_lower K (lower_level w) \<and> k_repl K (repl w)"


lemma cache_okD:
  assumes "cache_ok K ap n w"
  shows "conf_ok w" "NUM_SET w = k_sets K" "NUM_WAY w = k_ways K" "lines_ok (cache_type w) (NUM_SET w) (NUM_WAY w) (lines w)"
    "length (blocks w) = NUM_SET w * NUM_WAY w" "mshr_ok w (MSHR w)" "queue_ok n w (RQ w)" "queue_ok n w (PQ w)"
    "queue_ok n w (WQ w)" "queue_ok n w (VAPQ w)" "k_lower K (lower_level w)" "k_repl K (repl w)"
    "distinct (map fst (MSHR w))" "sorted_wrt served_before (MSHR w)"
    "ap \<Longrightarrow> \<not> takes_writebacks (cache_type w) \<Longrightarrow> apart (lines w) (MSHR w)"
    "is_tlb (cache_type w) \<Longrightarrow> good_data (k_good K (vmem_state w)) (lines w) (MSHR w)"
    "is_tlb (cache_type w) \<Longrightarrow> k_tlb K" "this_ptr w = k_this K" "Some 0 \<notin> set (dirty_lines w)"
  using assms by (auto simp: cache_ok_def mshr_ok_def lines_ok_def)

lemma cache_ok_frame:
  assumes "same_conf w w'" "lines w' = lines w" "dirty_lines w' = dirty_lines w" "MSHR w' = MSHR w" "RQ w' = RQ w" "PQ w' = PQ w" "WQ w' = WQ w" "VAPQ w' = VAPQ w"
    "vmem_state w' = vmem_state w" "lower_level w' = lower_level w" "repl w' = repl w" "cache_cpu w' = cache_cpu w"
  shows "cache_ok K ap n w' \<longleftrightarrow> cache_ok K ap n w"
  using assms(1) by (simp add: cache_ok_def assms(2-) mshr_ok_conf[OF assms(1)] queue_ok_conf[OF assms(1)])
    (simp add: same_conf_def conf_ok_def assms(12))

lemma cache_ok_simps [simp]:
  "cache_ok K ap n (upd_stats f w) \<longleftrightarrow> cache_ok K ap n w"
  "cache_ok K ap n (w\<lparr>outbox := x\<rparr>) \<longleftrightarrow> cache_ok K ap n w"
  "cache_ok K ap n (w\<lparr>prefetcher := p\<rparr>) \<longleftrightarrow> cache_ok K ap n w"
  "cache_ok K ap n (w\<lparr>reads_available_this_cycle := r\<rparr>) \<longleftrightarrow> cache_ok K ap n w"
  "cache_ok K ap n (w\<lparr>writes_available_this_cycle := r\<rparr>) \<longleftrightarrow> cache_ok K ap n w"
  by (rule cache_ok_frame; simp add: same_conf_def upd_stats_def lines_def dirty_lines_def)+

lemma queue_ok_simps:
  "queue_ok n (w\<lparr>MSHR := ms\<rparr>) q = queue_ok n w q" "queue_ok n (w\<lparr>RQ := q1\<rparr>) q = queue_ok n w q"
  "queue_ok n (w\<lparr>PQ := q1\<rparr>) q = queue_ok n w q" "queue_ok n (w\<lparr>WQ := q1\<rparr>) q = queue_ok n w q"
  "queue_ok n (w\<lparr>lower_level := l\<rparr>) q = queue_ok n w q"
  "mshr_ok (w\<lparr>MSHR := ms\<rparr>) = mshr_ok w" "mshr_ok (w\<lparr>RQ := q1\<rparr>) = mshr_ok w" "mshr_ok (w\<lparr>PQ := q1\<rparr>) = mshr_ok w"
  "mshr_ok (w\<lparr>WQ := q1\<rparr>) = mshr_ok w" "mshr_ok (w\<lparr>lower_level := l\<rparr>) = mshr_ok w"
  by (auto intro!: ext queue_ok_conf mshr_ok_conf simp: same_conf_def)

lemma cache_ok_MSHR:
  assumes "cache_ok K ap n w" "mshr_ok w ms" "ap \<Longrightarrow> \<not> takes_writebacks (cache_type w) \<Longrightarrow> apart (lines w) ms"
    and "is_tlb (cache_type w) \<Longrightarrow> good_data (k_good K (vmem_state w)) (lines w) ms"
  shows "cache_ok K ap n (w\<lparr>MSHR := ms\<rparr>)"
  using assms by (simp add: cache_ok_def queue_ok_simps conf_ok_def lines_def dirty_lines_def)

lemma cache_ok_RQ: "cache_ok K ap n w \<Longrightarrow> queue_ok n w q \<Longrightarrow> cache_ok K ap n (w\<lparr>RQ := q\<rparr>)"
  by (simp add: cache_ok_def queue_ok_simps conf_ok_def lines_def dirty_lines_def)

lemma cache_ok_PQ: "cache_ok K ap n w \<Longrightarrow> queue_ok n w q \<Longrightarrow> cache_ok K ap n (w\<lparr>PQ := q\<rparr>)"
  by (simp add: cache_ok_def queue_ok_simps conf_ok_def lines_def dirty_lines_def)

lemma cache_ok_WQ:
  "cache_ok K ap n w \<Longrightarrow> queue_ok n w q \<Longrightarrow> (\<not> takes_writes (cache_type w) \<Longrightarrow> dq_view q = []) \<Longrightarrow> cache_ok K ap n (w\<lparr>WQ := q\<rparr>)"
  by (simp add: cache_ok_def queue_ok_simps conf_ok_def lines_def dirty_lines_def)

lemma cache_ok_lower: "cache_ok K ap n w \<Longrightarrow> k_lower K l \<Longrightarrow> cache_ok K ap n (w\<lparr>lower_level := l\<rparr>)"
  by (simp add: cache_ok_def queue_ok_simps conf_ok_def lines_def dirty_lines_def)

lemma queue_ok_less: "queue_ok n w q \<Longrightarrow> m \<le> n \<Longrightarrow> queue_ok m w q"
  using dq_safe_less by (auto simp: queue_ok_def)

text \<open>What handling one packet leaves alone, and what a prefetcher leaves alone.\<close>

definition keep :: "('p, 'l, 'r) world \<Rightarrow> ('p, 'l, 'r) world \<Rightarrow> bool" where
  "keep w w' \<longleftrightarrow>
     same_conf w w' \<and> RQ w' = RQ w \<and> WQ w' = WQ w \<and> (dq_has_ready (PQ w) \<longrightarrow> dq_has_ready (PQ w')) \<and>
     reads_available_this_cycle w' = reads_available_this_cycle w \<and>
     writes_available_this_cycle w' = writes_available_this_cycle w"

definition pf_keep :: "('p, 'l, 'r) world \<Rightarrow> ('p, 'l, 'r) world \<Rightarrow> bool" where
  "pf_keep w w' \<longleftrightarrow> keep w w' \<and> blocks w' = blocks w \<and> MSHR w' = MSHR w \<and> outbox w' = outbox w"

lemma keep_refl [simp]: "keep w w"
  by (simp add: keep_def)

lemma keep_trans: "keep u v \<Longrightarrow> keep v w \<Longrightarrow> keep u w"
  using same_conf_trans by (fastforce simp: keep_def)

lemma pf_keep_refl [simp]: "pf_keep w w"
  by (simp add: pf_keep_def)

lemma pf_keep_trans: "pf_keep u v \<Longrightarrow> pf_keep v w \<Longrightarrow> pf_keep u w"
  using keep_trans by (fastforce simp: pf_keep_def)

lemma keepD:
  assumes "keep w w'"
  shows "same_conf w w'" "RQ w' = RQ w" "WQ w' = WQ w" "cache_type w' = cache_type w" "this_ptr w' = this_ptr w"
    "NUM_WAY w' = NUM_WAY w" "NUM_SET w' = NUM_SET w" "fill_level w' = fill_level w"
    "reads_available_this_cycle w' = reads_available_this_cycle w" "writes_available_this_cycle w' = writes_available_this_cycle w"
    "dq_has_ready (PQ w) \<Longrightarrow> dq_has_ready (PQ w')" "request_ok w' = request_ok w"
  using assms request_ok_conf[of w w'] by (auto simp: keep_def same_conf_def)

lemma keep_simps [simp]:
  "keep w (upd_stats f w') \<longleftrightarrow> keep w w'" "keep w (w'\<lparr>outbox := x\<rparr>) \<longleftrightarrow> keep w w'"
  "keep w (w'\<lparr>MSHR := ms\<rparr>) \<longleftrightarrow> keep w w'" "keep w (w'\<lparr>prefetcher := p\<rparr>) \<longleftrightarrow> keep w w'"
  "keep w (w'\<lparr>lower_level := l\<rparr>) \<longleftrightarrow> keep w w'" "keep w (w'\<lparr>blocks := b\<rparr>) \<longleftrightarrow> keep w w'"
  "keep w (w'\<lparr>repl := r\<rparr>) \<longleftrightarrow> keep w w'" "keep w (w'\<lparr>vmem_state := v\<rparr>) \<longleftrightarrow> keep w w'"
  "keep w (w'\<lparr>cache_cpu := c\<rparr>) \<longleftrightarrow> keep w w'"
  by (auto simp: keep_def same_conf_def upd_stats_def)

section \<open>The contract of the parts\<close>

locale cache_parts =
  fixes P :: "('p, 'l, 'r) parts" and K :: "('l, 'r) contract"
  assumes lower_add: "k_lower K l \<Longrightarrow> sound_request p \<Longrightarrow> set (pk_to_return p) \<subseteq> {k_this K} \<Longrightarrow>
      f \<in> {c_add_rq (w_lower P), c_add_pq (w_lower P)} \<Longrightarrow>
      \<exists>r calls l'. f clk p l = Some (r, calls, l') \<and> k_lower K l' \<and> answers p calls \<and>
        (k_tlb K \<longrightarrow> (\<forall>c\<in>set calls. \<forall>vm. k_good K vm (pk_address p) (pk_data (snd c))))"
    and lower_wq: "k_lower K l \<Longrightarrow> sound_request p \<Longrightarrow> ptype p = WRITEBACK \<Longrightarrow>
      pk_to_return p = [] \<Longrightarrow> \<exists>r l'. c_add_wq (w_lower P) clk p l = Some (r, [], l') \<and> k_lower K l'"
    and lower_count: "k_lower K l \<Longrightarrow> k_lower K (c_increment_WQ_FULL (w_lower P) a l)"
    and victim: "sx < k_sets K \<Longrightarrow> length row = k_ways K \<Longrightarrow> k_repl K r \<Longrightarrow>
      \<exists>way r'. p_find_victim (w_policy P) sx row ip fa ty r = Some (way, r') \<and> way < k_ways K \<and> k_repl K r'"
    and update: "sx < k_sets K \<Longrightarrow> way < k_ways K \<Longrightarrow> length bs = k_sets K * k_ways K \<Longrightarrow> k_repl K r \<Longrightarrow>
      unat ty < NUM_TYPES \<Longrightarrow> (ty = WRITEBACK \<Longrightarrow> ip = 0) \<Longrightarrow>
      \<exists>bs' r'. p_update (w_policy P) sx way fa ip ty hit bs r = Some (bs', r') \<and> map unranked bs' = map unranked bs \<and> k_repl K r'"
    and hook: "plain_prog (w_hook P c st)"
    and translate: "k_vmem K (Suc n) vm \<Longrightarrow> cpu < NUM_CPUS \<Longrightarrow>
      \<exists>pa vm'. va_to_pa cpu va vm = Some (pa, vm') \<and> k_vmem K n vm' \<and>
        k_good K vm' (drop_bit LOG2_PAGE_SIZE va) (drop_bit LOG2_PAGE_SIZE pa) \<and> (\<forall>a d. k_good K vm a d \<longrightarrow> k_good K vm' a d)"
    and budget: "k_vmem K (Suc n) vm \<Longrightarrow> k_vmem K n vm"
    and nonzero: "k_tlb K \<Longrightarrow> k_good K vm a d \<Longrightarrow> d \<noteq> 0"
begin

end

end
