(* ===== verification/CacheSteps.thy ===== *)
theory CacheSteps
  imports CacheSafety
begin

text \<open>
  Every operation of a cache succeeds and keeps the invariant, under the contract of the parts. One unit of budget pays for
  one packet taken from a queue, and with it for the page a translation may need.
\<close>

context cache_parts
begin

section \<open>Answers\<close>

lemma return_data_law:
  assumes ok: "cache_ok K ap n w" and e: "(m, e) \<in> set (MSHR w)" "is_valid_packet e" "pk_address e = pk_address pkt"
    and good: "is_tlb (cache_type w) \<Longrightarrow> k_good K (vmem_state w) (pk_address pkt) (pk_data pkt)"
  shows "\<exists>ms. return_data clk pkt w = Some (w\<lparr>MSHR := ms\<rparr>) \<and> cache_ok K ap n (w\<lparr>MSHR := ms\<rparr>) \<and>
    (\<exists>m e. (m, e) \<in> set ms \<and> is_valid_packet e \<and> pk_address e = pk_address pkt)"
proof -
  note D = cache_okD[OF ok]
  obtain i where i: "mshr_find (eq_addr_packet (pk_address pkt)) (MSHR w) = Some i"
    using mshr_find_exI[OF e(1), of "eq_addr_packet (pk_address pkt)"] e(2,3) by (auto simp: eq_addr_packet_def)
  obtain node f where f: "MSHR w ! i = (node, f)" by fastforce
  note F = mshr_find_SomeD[OF i, unfolded f]
  have fm: "(node, f) \<in> set (MSHR w)" and fa: "is_valid_packet f" "pk_address f = pk_address pkt"
    using F by (auto simp: eq_addr_packet_def)
  have rf: "request_ok w f" using D(6) fm fa(1) by (force simp: mshr_ok_def)
  define p where "p = (let e = f\<lparr>pk_returned := COMPLETED, pk_data := pk_data pkt, pk_pf_metadata := pk_pf_metadata pkt\<rparr>;
               now = current_core_cycle clk (pk_cpu pkt)
           in if warmup_complete clk (cache_cpu w)
              then e\<lparr>pk_event_cycle := (if pk_event_cycle e < now then now else pk_event_cycle e) + ucast (FILL_LATENCY w)\<rparr>
              else e\<lparr>pk_event_cycle := current_core_cycle clk (cache_cpu w)\<rparr>)"
  have p: "pk_address p = pk_address f" "pk_data p = pk_data pkt" "is_valid_packet p" "request_ok w p"
    using fa(1) rf by (simp_all add: p_def Let_def is_valid_packet_def request_ok_def sound_request_def)
  let ?ms = "mshr_sort (mshr_put node p (MSHR w))"
  have "return_data clk pkt w = Some (w\<lparr>MSHR := ?ms\<rparr>)"
    by (simp add: return_data_def i f p_def Let_def)
  moreover have ms: "mshr_ok w ?ms"
  proof (rule mshr_ok_put[OF D(6) fm, where p = p])
    fix k assume k: "k \<in> set (MSHR w)" "fst k \<noteq> node"
    show "pk_address (snd k) \<noteq> pk_address p"
    proof
      assume "pk_address (snd k) = pk_address p"
      then have "pk_address (snd (node, f)) = pk_address (snd k)" "is_valid_packet (snd (node, f))" using fa(1) p(1) by simp_all
      with D(6) fm k(1) have "(node, f) = k" unfolding mshr_ok_def by blast
      with k(2) show False by auto
    qed
  qed (use p mshr_sort_facts in auto)
  moreover have "apart (lines w) ?ms" if "ap" "\<not> takes_writebacks (cache_type w)"
  proof (rule apart_put[OF D(15)[OF that] D(13) fm])
    fix l assume "Some l \<in> set (lines w)"
    with D(15)[OF that] fm fa(1) show "fst l \<noteq> pk_address p" unfolding apart_def p(1) by fastforce
  qed simp
  moreover have "good_data (k_good K (vmem_state w)) (lines w) ?ms" if "is_tlb (cache_type w)"
    using good_data_put[OF D(16)[OF that] D(13) fm, of ?ms p] good[OF that] p fa by simp
  moreover have "(node, p) \<in> set ?ms" using mshr_put_mem[OF D(13) fm, of "(node, p)" p] by simp
  ultimately show ?thesis using cache_ok_MSHR[OF ok, of ?ms] p fa(2) by metis
qed

lemma send_self_law:
  assumes "cache_ok K ap n w" "(m, e) \<in> set (MSHR w)" "is_valid_packet e" "pk_address e = a"
    and "\<forall>c\<in>set calls. fst c = this_ptr w \<and> pk_address (snd c) = a \<and>
      (is_tlb (cache_type w) \<longrightarrow> k_good K (vmem_state w) a (pk_data (snd c)))"
  shows "\<exists>ms. send_all clk calls w = Some (w\<lparr>MSHR := ms\<rparr>) \<and> cache_ok K ap n (w\<lparr>MSHR := ms\<rparr>)"
  using assms
proof (induction calls arbitrary: w m e)
  case Nil
  have "w\<lparr>MSHR := MSHR w\<rparr> = w" by simp
  with Nil.prems(1) show ?case by (intro exI[of _ "MSHR w"]) simp
next
  case (Cons c calls)
  obtain ret pkt where c: "c = (ret, pkt)" by fastforce
  have h: "pk_address pkt = a" "ret = this_ptr w" "is_tlb (cache_type w) \<Longrightarrow> k_good K (vmem_state w) a (pk_data pkt)"
    using Cons.prems(5) c by auto
  have "pk_address e = pk_address pkt" using h(1) Cons.prems(4) by simp
  from return_data_law[OF Cons.prems(1-3) this, of clk, unfolded h(1), OF h(3)]
  obtain ms where ms: "return_data clk pkt w = Some (w\<lparr>MSHR := ms\<rparr>)" "cache_ok K ap n (w\<lparr>MSHR := ms\<rparr>)"
    and "\<exists>m e. (m, e) \<in> set ms \<and> is_valid_packet e \<and> pk_address e = a" by blast
  then obtain m' e' where m': "(m', e') \<in> set ms" "is_valid_packet e'" "pk_address e' = a" by blast
  from Cons.IH[of "w\<lparr>MSHR := ms\<rparr>" m' e'] ms m' Cons.prems(5) obtain ms' where
    "send_all clk calls (w\<lparr>MSHR := ms\<rparr>) = Some (w\<lparr>MSHR := ms'\<rparr>)" "cache_ok K ap n (w\<lparr>MSHR := ms'\<rparr>)" by auto
  with ms(1) c h(2) show ?case by (intro exI[of _ ms']) (simp add: send_def)
qed

lemma send_others_law:
  assumes "\<forall>c\<in>set calls. fst c \<noteq> this_ptr w"
  shows "send_all clk calls w = Some (w\<lparr>outbox := outbox w @ calls\<rparr>)"
  using assms
proof (induction calls arbitrary: w)
  case (Cons c calls)
  then show ?case by (cases c) (simp add: send_def)
qed simp

lemma answer_law:
  assumes "this_ptr w \<notin> set (pk_to_return pkt)"
  shows "answer clk pkt w = Some (w\<lparr>outbox := outbox w @ map (\<lambda>ret. (ret, pkt)) (pk_to_return pkt)\<rparr>)"
  unfolding answer_def using assms by (intro send_others_law) auto

section \<open>Requests\<close>

lemma push_timed_law:
  assumes "queue_ok n w q" "\<not> dq_full q" "request_ok w p"
  shows "\<exists>q'. push_timed clk u p q = Some q' \<and> queue_ok n w q' \<and> dq_view q' = dq_view q @ [p] \<and>
    (dq_has_ready q \<longrightarrow> dq_has_ready q')"
proof -
  have s: "dq_safe n q" using assms(1) by (simp add: queue_ok_def)
  obtain d where d: "push_timed clk u p q = dq_push_delayed d p q"
    by (cases "warmup_complete clk (cache_cpu u)") (auto simp: push_timed_def dq_push_back_def dq_push_back_ready_def)
  from dq_safe_push[OF s assms(2), of d p] obtain q' where q': "dq_push_delayed d p q = Some q'" "dq_safe n q'"
    "dq_view q' = dq_view q @ [p]" "dq_has_ready q \<longrightarrow> dq_has_ready q'" by blast
  with assms d show ?thesis by (auto simp: queue_ok_def)
qed

lemma modify_law:
  assumes "queue_ok n w q" "dq_find Q q = Some k" "request_ok w (f (dq_view q ! k))"
  shows "queue_ok n w (dq_modify k f q)" "dq_has_ready q \<Longrightarrow> dq_has_ready (dq_modify k f q)"
proof -
  have s: "dq_safe n q" using assms(1) by (simp add: queue_ok_def)
  note k = dq_find_SomeD[OF s assms(2)]
  have "set ((dq_view q)[k := f (dq_view q ! k)]) \<subseteq> insert (f (dq_view q ! k)) (set (dq_view q))"
    by (rule set_update_subset_insert)
  with assms(1,3) dq_safe_modify[OF s k(1), of f] show "queue_ok n w (dq_modify k f q)"
    by (auto simp: queue_ok_def)
  show "dq_has_ready q \<Longrightarrow> dq_has_ready (dq_modify k f q)"
    by (simp add: dq_has_ready_def dq_modify_def cb_modify_def)
qed

lemma forward_law:
  assumes "cache_ok K ap n w" "request_ok w p"
  shows "\<exists>r w'. forward_wq clk p k w = Some (r, w') \<and> cache_ok K ap n w' \<and> keep w w' \<and> blocks w' = blocks w \<and> MSHR w' = MSHR w \<and>
    (\<exists>calls. outbox w' = outbox w @ calls \<and> answers p calls)"
proof -
  let ?p = "p\<lparr>pk_data := pk_data (dq_at k (WQ w))\<rparr>"
  have "answer clk ?p w = Some (w\<lparr>outbox := outbox w @ map (\<lambda>ret. (ret, ?p)) (pk_to_return ?p)\<rparr>)"
    using assms(2) by (intro answer_law) (simp add: request_ok_def sound_request_def)
  moreover have "answers p (map (\<lambda>ret. (ret, ?p)) (pk_to_return ?p))" by (auto simp: answers_def)
  ultimately show ?thesis using assms(1) by (simp add: forward_wq_def) (simp add: upd_stats_def)
qed

lemma add_pq_law:
  assumes ok: "cache_ok K ap n w" and p: "request_ok w p"
  shows "\<exists>r w'. add_pq clk p w = Some (r, w') \<and> cache_ok K ap n w' \<and> keep w w' \<and> blocks w' = blocks w \<and> MSHR w' = MSHR w \<and>
    (\<exists>calls. outbox w' = outbox w @ calls \<and> answers p calls)"
proof -
  define u where "u = upd_stats (\<lambda>s. s\<lparr>PQ_ACCESS := PQ_ACCESS s + 1\<rparr>) w"
  have u: "cache_ok K ap n u" "keep w u" "blocks u = blocks w" "MSHR u = MSHR w" "outbox u = outbox w" "request_ok u p"
    using ok p keepD(12)[of w u] by (simp_all add: u_def) (simp_all add: upd_stats_def)
  have a: "pk_address p \<noteq> 0" using p by (simp add: request_ok_def sound_request_def)
  note D = cache_okD[OF u(1)]
  have R: "?thesis" if "add_pq clk p w = Some (r, f (u\<lparr>PQ := q\<rparr>))" "queue_ok n u q" "dq_has_ready (PQ u) \<Longrightarrow> dq_has_ready q"
      "f = upd_stats g" for r f g q
  proof -
    have "keep u (u\<lparr>PQ := q\<rparr>)" using that(3) by (simp add: keep_def same_conf_def)
    with that cache_ok_PQ[OF u(1) that(2)] u show ?thesis using keep_trans[of w u "u\<lparr>PQ := q\<rparr>"]
      by (intro exI[of _ r] exI[of _ "f (u\<lparr>PQ := q\<rparr>)"]) (simp, simp add: upd_stats_def)
  qed
  show ?thesis
  proof (cases "find_wq p u")
    case (Some k)
    from forward_law[OF u(1,6), of clk k] obtain r w' where w': "forward_wq clk p k u = Some (r, w')" "cache_ok K ap n w'" "keep u w'"
      "blocks w' = blocks u" "MSHR w' = MSHR u" "\<exists>calls. outbox w' = outbox u @ calls \<and> answers p calls" by blast
    with a Some u keep_trans[OF u(2) w'(3)] show ?thesis by (simp add: add_pq_def u_def[symmetric])
  next
    case None
    show ?thesis
    proof (cases "dq_find (eq_addr_packet (pk_address p)) (PQ u)")
      case (Some k)
      have "dq_view (PQ u) ! k \<in> set (dq_view (PQ u))" using dq_find_SomeD(1)[OF _ Some] D(8) by (auto simp: queue_ok_def)
      then have "request_ok u (dq_view (PQ u) ! k)" using D(8) by (simp add: queue_ok_def)
      then have "request_ok u (merge_into_pq p (dq_view (PQ u) ! k))"
        using u(6) by (auto simp: request_ok_def sound_request_def merge_into_pq_def min_def)
      note m = modify_law[where f = "merge_into_pq p", OF D(8) Some this]
      show ?thesis by (rule R[OF _ m, of 1 "upd_stats (\<lambda>s. s\<lparr>PQ_MERGED := PQ_MERGED s + 1\<rparr>)"])
          (use a None Some in \<open>simp_all add: add_pq_def u_def[symmetric]\<close>)
    next
      case no: None
      show ?thesis
      proof (cases "dq_full (PQ u)")
        case True
        with a None no u show ?thesis by (simp add: add_pq_def u_def[symmetric]) (simp add: upd_stats_def)
      next
        case False
        from push_timed_law[OF D(8) False u(6), of clk u] obtain q where q: "push_timed clk u p (PQ u) = Some q" "queue_ok n u q"
          "dq_has_ready (PQ u) \<longrightarrow> dq_has_ready q" by blast
        show ?thesis by (rule R[OF _ q(2), of "- 1" "upd_stats (\<lambda>s. s\<lparr>PQ_TO_CACHE := PQ_TO_CACHE s + 1\<rparr>)"])
            (use a None no False q in \<open>simp_all add: add_pq_def u_def[symmetric]\<close>)
      qed
    qed
  qed
qed

lemma pf_request_ok:
  assumes "cache_ok K ap n w" "\<not> is_tlb (cache_type w)" "drop_bit LOG2_BLOCK_SIZE pf \<noteq> 0"
  shows "request_ok w (pf_packet clk w ip pf lvl md)"
  using assms cache_okD(1)[OF assms(1)]
  by (auto simp: request_ok_def sound_request_def pf_packet_def empty_packet_def conf_ok_def is_tlb_def branch_defs NUM_TYPES_def)

lemma prefetch_line_law:
  assumes "cache_ok K ap n w" "\<not> is_tlb (cache_type w)"
    and "drop_bit LOG2_PAGE_SIZE base = drop_bit LOG2_PAGE_SIZE pf \<longrightarrow> drop_bit LOG2_BLOCK_SIZE pf \<noteq> 0"
  shows "\<exists>r w'. prefetch_line clk ip base pf lvl md w = Some (r, w') \<and> cache_ok K ap n w' \<and> pf_keep w w'"
    "\<exists>r w'. kpc_prefetch_line clk base pf lvl md w = Some (r, w') \<and> cache_ok K ap n w' \<and> pf_keep w w'"
proof -
  have go: "\<exists>r w'. add_pq clk (pf_packet clk w ip pf lvl md) u = Some (r, w') \<and> cache_ok K ap n w' \<and> pf_keep u w'"
    if "cache_ok K ap n u" "drop_bit LOG2_PAGE_SIZE base = drop_bit LOG2_PAGE_SIZE pf" "request_ok u = request_ok w" for u ip
    using add_pq_law[OF that(1), of "pf_packet clk w ip pf lvl md" clk] pf_request_ok[OF assms(1,2)] assms(3) that
      answers_nobody[of "pf_packet clk w ip pf lvl md"] by (fastforce simp: pf_keep_def pf_packet_def empty_packet_def)
  let ?u = "upd_stats (\<lambda>s. s\<lparr>pf_requested := pf_requested s + 1\<rparr>) w"
  have u: "cache_ok K ap n ?u" "pf_keep w ?u" "request_ok ?u = request_ok w" "pf_packet clk ?u = pf_packet clk w"
    using assms(1) keepD(12)[of w ?u] by (simp_all add: pf_keep_def) (simp_all add: upd_stats_def pf_packet_def[abs_def])
  have st: "pf_keep v (upd_stats f w') \<longleftrightarrow> pf_keep v w'" for v w' f by (simp add: pf_keep_def) (simp add: upd_stats_def)
  show "\<exists>r w'. prefetch_line clk ip base pf lvl md w = Some (r, w') \<and> cache_ok K ap n w' \<and> pf_keep w w'"
  proof (cases "\<not> dq_full (PQ ?u) \<and> drop_bit LOG2_PAGE_SIZE base = drop_bit LOG2_PAGE_SIZE pf")
    case True
    with go[OF u(1) _ u(3), of ip] obtain r w' where "add_pq clk (pf_packet clk w ip pf lvl md) ?u = Some (r, w')"
      "cache_ok K ap n w'" "pf_keep ?u w'" by blast
    with True pf_keep_trans[OF u(2)] show ?thesis by (auto simp: prefetch_line_def u(4) st)
  next
    case False
    with u show ?thesis by (auto simp: prefetch_line_def Let_def)
  qed
  show "\<exists>r w'. kpc_prefetch_line clk base pf lvl md w = Some (r, w') \<and> cache_ok K ap n w' \<and> pf_keep w w'"
  proof (cases "\<not> dq_full (PQ w) \<and> drop_bit LOG2_PAGE_SIZE base = drop_bit LOG2_PAGE_SIZE pf")
    case True
    with go[OF assms(1), of 0] obtain r w' where "add_pq clk (pf_packet clk w 0 pf lvl md) w = Some (r, w')"
      "cache_ok K ap n w'" "pf_keep w w'" by blast
    with True show ?thesis by (auto simp: kpc_prefetch_line_def st)
  next
    case False
    with assms(1) show ?thesis by (auto simp: kpc_prefetch_line_def)
  qed
qed

lemma run_pf_law:
  assumes "plain_prog prog" "cache_ok K ap n w" "\<not> is_tlb (cache_type w)"
  shows "\<exists>md w'. run_pf clk prog w = Some (md, w') \<and> cache_ok K ap n w' \<and> pf_keep w w'"
  using assms
proof (induction prog arbitrary: w)
  case (PfDone md p)
  then show ?case by (simp add: pf_keep_def)
next
  case (PfLine ip base pf lvl md k)
  from prefetch_line_law(1)[OF PfLine.prems(2,3), of base pf clk ip lvl md] PfLine.prems(1) obtain r w' where
    w': "prefetch_line clk ip base pf lvl md w = Some (r, w')" "cache_ok K ap n w'" "pf_keep w w'" by auto
  have "cache_type w' = cache_type w" using keepD(4) w'(3) by (auto simp: pf_keep_def)
  with PfLine.IH[OF rangeI, of r w'] PfLine.prems w' obtain md' w'' where "run_pf clk (k r) w' = Some (md', w'')" "cache_ok K ap n w''" "pf_keep w' w''"
    by auto
  with w' pf_keep_trans show ?case by (fastforce simp: w'(1))
next
  case (PfKpcLine base pf lvl md k)
  from prefetch_line_law(2)[OF PfKpcLine.prems(2,3), of base pf clk lvl md] PfKpcLine.prems(1) obtain r w' where
    w': "kpc_prefetch_line clk base pf lvl md w = Some (r, w')" "cache_ok K ap n w'" "pf_keep w w'" by auto
  have "cache_type w' = cache_type w" using keepD(4) w'(3) by (auto simp: pf_keep_def)
  with PfKpcLine.IH[OF rangeI, of r w'] PfKpcLine.prems w' obtain md' w'' where "run_pf clk (k r) w' = Some (md', w'')" "cache_ok K ap n w''" "pf_keep w' w''"
    by auto
  with w' pf_keep_trans show ?case by (fastforce simp: w'(1))
qed auto

end

end
