(* ===== verification/CacheAccess.thy ===== *)
theory CacheAccess
  imports CacheSteps
begin

text \<open>The laws of hits, read misses and fills, under the contract of the parts.\<close>

lemma unat_ptype [simp]: "unat (ptype p) = unat (pk_type p)"
  by (simp add: unsigned_ucast_eq take_bit_nat_eq_self_iff less_trans[OF unsigned_less[of "pk_type p", where ?'a = nat]])

lemma line_of_upd [simp]:
  "line_of (b\<lparr>blk_prefetch := x\<rparr>) = line_of b" "line_of (b\<lparr>blk_used := x\<rparr>) = line_of b" "line_of (b\<lparr>blk_dirty := x\<rparr>) = line_of b"
  "dirty_of (b\<lparr>blk_prefetch := x\<rparr>) = dirty_of b" "dirty_of (b\<lparr>blk_used := x\<rparr>) = dirty_of b"
  "dirty_of (b\<lparr>blk_valid := x\<rparr>) = dirty_of b"
  by (simp_all add: line_of_def dirty_of_def)

lemma unranked_lines:
  assumes "map unranked bs' = map unranked (blocks w)"
  shows "lines (w\<lparr>blocks := bs'\<rparr>) = lines w" "dirty_lines (w\<lparr>blocks := bs'\<rparr>) = dirty_lines w"
proof -
  have l: "line_of = line_of \<circ> unranked" "dirty_of = dirty_of \<circ> unranked"
    by (auto simp: fun_eq_iff line_of_def dirty_of_def unranked_def)
  have "map line_of bs' = map line_of (map unranked bs')" "map dirty_of bs' = map dirty_of (map unranked bs')"
    by (subst l, simp)+
  then show "lines (w\<lparr>blocks := bs'\<rparr>) = lines w" "dirty_lines (w\<lparr>blocks := bs'\<rparr>) = dirty_lines w"
    unfolding assms using l by (simp_all add: lines_def dirty_lines_def)
qed

lemma lines_upd_block:
  assumes "\<And>b. line_of (f b) = line_of b"
  shows "lines (upd_block i f w) = lines w"
  using assms by (cases "i < length (blocks w)") (auto simp: lines_def upd_block_def list_eq_iff_nth_eq nth_list_update)

lemma dirty_upd_block:
  assumes "\<And>b. dirty_of (f b) = dirty_of b"
  shows "dirty_lines (upd_block i f w) = dirty_lines w"
  using assms by (cases "i < length (blocks w)") (auto simp: dirty_lines_def upd_block_def list_eq_iff_nth_eq nth_list_update)

lemma cache_ok_upd_block:
  assumes "\<And>b. line_of (f b) = line_of b" "\<And>b. dirty_of (f b) = dirty_of b"
  shows "cache_ok K ap n (upd_block i f w) \<longleftrightarrow> cache_ok K ap n w"
  by (rule cache_ok_frame) (simp_all add: lines_upd_block[OF assms(1)] dirty_upd_block[OF assms(2)], simp_all add: upd_block_def same_conf_def)

lemma keep_upd_block [simp]: "keep w (upd_block i f w') \<longleftrightarrow> keep w w'"
  by (simp add: upd_block_def)

lemma queue_ok_more:
  "queue_ok n (w\<lparr>blocks := bs\<rparr>) = queue_ok n w" "mshr_ok (w\<lparr>blocks := bs\<rparr>) = mshr_ok w"
  "queue_ok n (w\<lparr>repl := r\<rparr>) = queue_ok n w" "mshr_ok (w\<lparr>repl := r\<rparr>) = mshr_ok w"
  "queue_ok n (w\<lparr>cache_cpu := c\<rparr>) = queue_ok n w" "mshr_ok (w\<lparr>cache_cpu := c\<rparr>) = mshr_ok w"
  "queue_ok n (w\<lparr>vmem_state := v\<rparr>) = queue_ok n w" "mshr_ok (w\<lparr>vmem_state := v\<rparr>) = mshr_ok w"
  by (auto intro!: ext queue_ok_conf mshr_ok_conf simp: same_conf_def)

lemma cache_ok_blocks:
  assumes "cache_ok K ap n w" "map unranked bs = map unranked (blocks w)" "k_repl K r"
  shows "cache_ok K ap n (w\<lparr>blocks := bs, repl := r\<rparr>)"
proof -
  have "cache_ok K ap n (w\<lparr>blocks := bs\<rparr>)"
    using assms(1) unranked_lines[OF assms(2)] by (subst cache_ok_frame) (simp_all add: same_conf_def)
  with assms(3) show ?thesis by (simp add: cache_ok_def conf_ok_def lines_def dirty_lines_def queue_ok_more)
qed

lemma cache_ok_repl: "cache_ok K ap n w \<Longrightarrow> k_repl K r \<Longrightarrow> cache_ok K ap n (w\<lparr>repl := r\<rparr>)"
  using cache_ok_blocks[of K ap n w "blocks w" r] by simp

lemma cache_ok_cpu: "cache_ok K ap n w \<Longrightarrow> c < NUM_CPUS \<Longrightarrow> cache_ok K ap n (w\<lparr>cache_cpu := c\<rparr>)"
  by (simp add: cache_ok_def conf_ok_def lines_def dirty_lines_def queue_ok_more)

context cache_parts
begin

lemma cache_ok_mono: "cache_ok K ap (Suc n) w \<Longrightarrow> cache_ok K ap n w"
  by (auto simp: cache_ok_def intro: queue_ok_less budget)

lemma cache_ok_mono_le: "cache_ok K ap (n + k) w \<Longrightarrow> cache_ok K ap n w"
  by (induction k) (auto dest: cache_ok_mono)

section \<open>Prefetcher and policy\<close>

lemma call_prefetcher_law:
  assumes "cache_ok K ap n w" "pk_cpu pkt < NUM_CPUS" "is_tlb (cache_type w) \<Longrightarrow> call = None"
  shows "\<exists>md' w'. call_prefetcher clk P pkt call md w = Some (md', w') \<and> cache_ok K ap n w' \<and> pf_keep w w'"
proof (cases call)
  case None
  with assms(1) show ?thesis by (simp add: call_prefetcher_def)
next
  case (Some c)
  then have nt: "\<not> is_tlb (cache_type w)" using assms(3) by auto
  show ?thesis
  proof (cases "cache_type w = IS_LLC")
    case True
    let ?u = "w\<lparr>cache_cpu := pk_cpu pkt\<rparr>"
    have u: "cache_ok K ap n ?u" "pf_keep w ?u" using cache_ok_cpu[OF assms(1,2)] by (simp_all add: pf_keep_def)
    from run_pf_law[OF hook u(1), of clk c "prefetcher w"] nt obtain m w' where
      w': "run_pf clk (w_hook P c (prefetcher w)) ?u = Some (m, w')" "cache_ok K ap n w'" "pf_keep ?u w'" by auto
    have "cache_ok K ap n (w'\<lparr>cache_cpu := 0\<rparr>)" using cache_ok_cpu[OF w'(2), of 0] by (simp add: NUM_CPUS_def)
    moreover have "pf_keep w (w'\<lparr>cache_cpu := 0\<rparr>)" using pf_keep_trans[OF u(2) w'(3)] by (simp add: pf_keep_def)
    ultimately show ?thesis using True Some w'(1) by (simp add: call_prefetcher_def)
  next
    case False
    from run_pf_law[OF hook assms(1) nt, of clk c "prefetcher w"] False Some show ?thesis by (auto simp: call_prefetcher_def)
  qed
qed

lemma operate_call_tlb: "is_tlb (cache_type w) \<Longrightarrow> operate_call w pkt hit line pf = None"
  by (auto simp: is_tlb_def operate_call_def code_defs)

lemma fill_call_tlb: "is_tlb (cache_type w) \<Longrightarrow> fill_call w sx way pkt eip ea = None"
  by (auto simp: is_tlb_def fill_call_def code_defs)

lemma train_law:
  assumes "cache_ok K ap n w" "pk_cpu pkt < NUM_CPUS"
  shows "\<exists>w'. train_prefetcher clk P pkt hit line pf w = Some w' \<and> cache_ok K ap n w' \<and> pf_keep w w'"
  using call_prefetcher_law[OF assms, of "operate_call w pkt hit line pf" clk 0] operate_call_tlb[of w] assms(1)
  by (cases "is_train w pkt") (auto simp: train_prefetcher_def)

lemma update_law:
  assumes "cache_ok K ap n w" "request_ok w pkt" "sx < NUM_SET w" "way < NUM_WAY w"
  shows "\<exists>w'. update_replacement P sx way fa pkt hit w = Some w' \<and> cache_ok K ap n w' \<and> keep w w' \<and>
    map unranked (blocks w') = map unranked (blocks w) \<and> MSHR w' = MSHR w \<and> outbox w' = outbox w"
proof -
  note D = cache_okD[OF assms(1)]
  have ty: "unat (ptype pkt) < NUM_TYPES" "ptype pkt = WRITEBACK \<Longrightarrow> pk_ip pkt = 0"
    using assms(2) by (auto simp: request_ok_def sound_request_def unat_ptype)
  from update[of sx way "blocks w" "repl w" "ptype pkt" "pk_ip pkt" fa hit] assms(3,4) ty D(2,3,5,12)
  obtain bs r where u: "p_update (w_policy P) sx way fa (pk_ip pkt) (ptype pkt) hit (blocks w) (repl w) = Some (bs, r)"
    "map unranked bs = map unranked (blocks w)" "k_repl K r" by auto
  with cache_ok_blocks[OF assms(1) u(2,3)] show ?thesis by (simp add: update_replacement_def)
qed

section \<open>Hits\<close>

lemma readlike_hit_law:
  assumes ok: "cache_ok K ap n w" and p: "request_ok w pkt" and i: "sx < NUM_SET w" "way < NUM_WAY w"
  shows "\<exists>w'. readlike_hit clk P sx way pkt w = Some w' \<and> cache_ok K ap n w' \<and> keep w w' \<and> MSHR w' = MSHR w \<and> lines w' = lines w \<and>
    outbox w' = outbox w @ map (\<lambda>ret. (ret, pkt\<lparr>pk_data := blk_data (blocks w ! (sx * NUM_WAY w + way))\<rparr>)) (pk_to_return pkt)"
proof -
  define b where "b = blocks w ! (sx * NUM_WAY w + way)"
  define q where "q = pkt\<lparr>pk_data := blk_data b\<rparr>"
  have q: "request_ok v q = request_ok v pkt" "pk_cpu q < NUM_CPUS" "pk_to_return q = pk_to_return pkt" for v
    using p by (simp_all add: q_def request_ok_def sound_request_def)
  from train_law[OF ok q(2), of clk True "blk_address b" "blk_prefetch b"] obtain w1 where
    w1: "train_prefetcher clk P q True (blk_address b) (blk_prefetch b) w = Some w1" "cache_ok K ap n w1" "pf_keep w w1" by blast
  have k1: "keep w w1" "blocks w1 = blocks w" "MSHR w1 = MSHR w" "outbox w1 = outbox w" using w1(3) by (auto simp: pf_keep_def)
  have "request_ok w1 q" unfolding keepD(12)[OF k1(1)] q(1) by (rule p)
  from update_law[OF w1(2) this, of sx way "blk_full_addr b" True] i keepD(6,7)[OF k1(1)] obtain w2 where
    w2: "update_replacement P sx way (blk_full_addr b) q True w1 = Some w2" "cache_ok K ap n w2" "keep w1 w2"
      "map unranked (blocks w2) = map unranked (blocks w1)" "MSHR w2 = MSHR w1" "outbox w2 = outbox w1" by auto
  define u where "u = upd_stats (count_hit q) w2"
  define v where "v = u\<lparr>outbox := outbox u @ map (\<lambda>ret. (ret, q)) (pk_to_return q)\<rparr>"
  have kv: "keep w v" "cache_ok K ap n v" "MSHR v = MSHR w"
    using keep_trans[OF k1(1) w2(3)] w2(2,5) k1(3) by (simp_all add: v_def u_def) (simp add: upd_stats_def)
  have ob: "outbox v = outbox w @ map (\<lambda>ret. (ret, q)) (pk_to_return pkt)"
    using w2(6) k1(4) q(3) by (simp add: v_def u_def) (simp add: upd_stats_def)
  have bv: "blocks v = blocks w2" by (simp add: v_def u_def upd_stats_def)
  have "lines v = lines (w2\<lparr>blocks := blocks v\<rparr>)" by (simp add: lines_def)
  also have "\<dots> = lines w" using unranked_lines(1)[of "blocks w2" w] w2(4) k1(2) by (simp add: bv) (simp add: lines_def)
  finally have lv: "lines v = lines w" .
  have "this_ptr u \<notin> set (pk_to_return q)"
    using p q(3) keepD(5)[OF keep_trans[OF k1(1) w2(3)]] by (simp add: request_ok_def sound_request_def u_def) (simp add: upd_stats_def)
  then have ans: "answer clk q u = Some v" unfolding v_def by (rule answer_law)
  let ?i = "sx * NUM_WAY w + way"
  let ?x = "if blk_prefetch (blocks v ! ?i) \<noteq> 0
    then upd_block ?i (\<lambda>b. b\<lparr>blk_prefetch := 0\<rparr>) (upd_stats (\<lambda>s. s\<lparr>pf_useful := pf_useful s + 1\<rparr>) v) else v"
  have "readlike_hit clk P sx way pkt w = Some (upd_block ?i (\<lambda>b. b\<lparr>blk_used := 1\<rparr>) ?x)"
    using w1(1) w2(1) ans by (simp add: readlike_hit_def b_def[symmetric] q_def[symmetric] u_def[symmetric] Let_def)
  moreover have "cache_ok K ap n ?x" "keep w ?x" "lines ?x = lines w" "MSHR ?x = MSHR w" "outbox ?x = outbox v"
    using kv lv by (auto simp: cache_ok_upd_block lines_upd_block) (simp_all add: upd_block_def upd_stats_def)
  ultimately show ?thesis
    by (simp add: cache_ok_upd_block lines_upd_block ob q_def b_def split del: if_split) (simp add: upd_block_def)
qed

end

end
