(* ===== verification/CacheMiss.thy ===== *)
theory CacheMiss
  imports CacheAccess
begin

text \<open>The laws of read misses: the merge into a register in flight, the allocation of a register and the request to the lower level.\<close>

lemma merge_into_mshr_simps:
  "pk_returned (merge_into_mshr p e) = pk_returned e" "pk_event_cycle (merge_into_mshr p e) = pk_event_cycle e"
  "pk_address p = pk_address e \<Longrightarrow> pk_address (merge_into_mshr p e) = pk_address e"
  by (simp_all add: merge_into_mshr_def merge_into_rq_def Let_def)

lemma request_ok_merge:
  "request_ok w p \<Longrightarrow> request_ok w e \<Longrightarrow> request_ok w (merge_into_mshr p e)"
  by (auto simp: request_ok_def sound_request_def merge_into_mshr_def merge_into_rq_def Let_def)

lemma mshr_nth: "i < length ms \<Longrightarrow> (fst (ms ! i), snd (ms ! i)) \<in> set ms"
  by simp

lemma keep_MSHR_law: "keep w w' \<Longrightarrow> keep w (w'\<lparr>MSHR := ms\<rparr>)" by simp

context cache_parts
begin

lemma merge_law:
  assumes ok: "cache_ok K ap n w" and p: "request_ok w pkt"
    and i: "mshr_find (eq_addr_packet (pk_address pkt)) (MSHR w) = Some i"
  shows "cache_ok K ap n (w\<lparr>MSHR := mshr_put (fst (MSHR w ! i)) (merge_into_mshr pkt (snd (MSHR w ! i))) (MSHR w)\<rparr>)"
proof -
  note D = cache_okD[OF ok]
  define node e where ne: "node = fst (MSHR w ! i)" "e = snd (MSHR w ! i)"
  have mem: "(node, e) \<in> set (MSHR w)" using mshr_find_SomeD(1)[OF i] by (simp add: ne mshr_nth)
  have e: "is_valid_packet e" "pk_address pkt = pk_address e" using mshr_find_SomeD(3)[OF i] by (simp_all add: ne eq_addr_packet_def)
  define q where "q = merge_into_mshr pkt e"
  have q: "pk_returned q = pk_returned e" "pk_event_cycle q = pk_event_cycle e" "pk_address q = pk_address e"
    unfolding q_def using e(2) by (simp_all add: merge_into_mshr_simps)
  have re: "request_ok w e" using D(6) mem e(1) by (force simp: mshr_ok_def)
  have "cache_ok K ap n (w\<lparr>MSHR := mshr_put node q (MSHR w)\<rparr>)"
  proof (rule cache_ok_MSHR[OF ok])
    show "mshr_ok w (mshr_put node q (MSHR w))"
    proof (rule mshr_ok_put[OF D(6) mem, where p = q])
      show "request_ok w q" unfolding q_def by (rule request_ok_merge[OF p re])
      show "is_valid_packet q" using e(1) q(3) by (simp add: is_valid_packet_def)
      fix k assume k: "k \<in> set (MSHR w)" "fst k \<noteq> node"
      show "pk_address (snd k) \<noteq> pk_address q"
      proof
        assume "pk_address (snd k) = pk_address q"
        then have "pk_address (snd (node, e)) = pk_address (snd k)" "is_valid_packet (snd (node, e))" using e(1) q(3) by simp_all
        with D(6) mem k(1) have "(node, e) = k" unfolding mshr_ok_def by blast
        with k(2) show False by auto
      qed
    qed (use q D(14) in \<open>auto intro!: sorted_mshr_put[OF D(14,13) mem]\<close>)
    show "apart (lines w) (mshr_put node q (MSHR w))" if "ap" "\<not> takes_writebacks (cache_type w)"
    proof (rule apart_put[OF D(15)[OF that] D(13) mem refl])
      fix l assume "Some l \<in> set (lines w)"
      with D(15)[OF that] mem e(1) show "fst l \<noteq> pk_address q" unfolding apart_def q(3) by fastforce
    qed
    show "good_data (k_good K (vmem_state w)) (lines w) (mshr_put node q (MSHR w))" if t: "is_tlb (cache_type w)"
    proof (rule good_data_put[OF D(16)[OF t] D(13) mem refl])
      assume "pk_returned q = COMPLETED"
      moreover have "pk_data q = pk_data e" using re t unfolding q_def
        by (simp add: request_ok_def sound_request_def merge_into_mshr_def merge_into_rq_def Let_def)
      ultimately show "k_good K (vmem_state w) (pk_address q) (pk_data q)"
        using D(16)[OF t] mem q by (force simp: good_data_def)
    qed
  qed
  then show ?thesis by (simp add: q_def ne)
qed

lemma allocate_law:
  assumes ok: "cache_ok K ap n w" and p: "request_ok w pkt"
    and new: "mshr_find (eq_addr_packet (pk_address pkt)) (MSHR w) = None"
    and room: "\<not> (\<forall>n\<in>set (MSHR w). is_valid_packet (snd n))"
    and miss: "\<And>l. ap \<Longrightarrow> \<not> takes_writebacks (cache_type w) \<Longrightarrow> Some l \<in> set (lines w) \<Longrightarrow> fst l \<noteq> pk_address pkt"
  shows "\<exists>ms. mshr_allocate clk pkt w = Some (w\<lparr>MSHR := ms\<rparr>) \<and> cache_ok K ap n (w\<lparr>MSHR := ms\<rparr>) \<and>
    (pk_fill_level pkt \<le> fill_level w \<longrightarrow> (\<exists>m e. (m, e) \<in> set ms \<and> is_valid_packet e \<and> pk_address e = pk_address pkt))"
proof (cases "pk_fill_level pkt \<le> fill_level w")
  case False
  with ok show ?thesis by (intro exI[of _ "MSHR w"]) (simp add: mshr_allocate_def)
next
  case True
  note D = cache_okD[OF ok]
  obtain i where i: "mshr_find (\<lambda>e. \<not> is_valid_packet e) (MSHR w) = Some i"
    using room mshr_find_None[of "\<lambda>e. \<not> is_valid_packet e" "MSHR w"] by (cases "mshr_find (\<lambda>e. \<not> is_valid_packet e) (MSHR w)") auto
  define node e where ne: "node = fst (MSHR w ! i)" "e = snd (MSHR w ! i)"
  have mem: "(node, e) \<in> set (MSHR w)" using mshr_find_SomeD(1)[OF i] by (simp add: ne mshr_nth)
  have e: "pk_returned e \<noteq> COMPLETED" using mshr_find_SomeD(3)[OF i] D(6) mem by (force simp: mshr_ok_def ne)
  define q where "q = pkt\<lparr>pk_returned := INFLIGHT, pk_cycle_enqueued := current_core_cycle clk (pk_cpu pkt)\<rparr>"
  have q: "pk_returned q \<noteq> COMPLETED" "pk_address q = pk_address pkt" "request_ok w q" "is_valid_packet q"
    using p by (simp_all add: q_def request_ok_def sound_request_def is_valid_packet_def code_defs)
  have "cache_ok K ap n (w\<lparr>MSHR := mshr_put node q (MSHR w)\<rparr>)"
  proof (rule cache_ok_MSHR[OF ok])
    show "mshr_ok w (mshr_put node q (MSHR w))"
    proof (rule mshr_ok_put[OF D(6) mem, where p = q])
      fix k assume "k \<in> set (MSHR w)" "is_valid_packet q"
      then show "pk_address (snd k) \<noteq> pk_address q" using new q(2)
        unfolding mshr_find_None by (auto simp: eq_addr_packet_def is_valid_packet_def)
    qed (use q e D(14) in \<open>auto intro!: sorted_mshr_put[OF D(14,13) mem]\<close>)
    show "apart (lines w) (mshr_put node q (MSHR w))" if "ap" "\<not> takes_writebacks (cache_type w)"
      using miss[OF that] q(2) by (intro apart_put[OF D(15)[OF that] D(13) mem refl]) simp
    show "good_data (k_good K (vmem_state w)) (lines w) (mshr_put node q (MSHR w))" if t: "is_tlb (cache_type w)"
      using q(1) by (intro good_data_put[OF D(16)[OF t] D(13) mem refl]) simp
  qed
  moreover have "mshr_allocate clk pkt w = Some (w\<lparr>MSHR := mshr_put node q (MSHR w)\<rparr>)"
    using True i by (simp add: mshr_allocate_def q_def ne)
  moreover have "(node, q) \<in> set (mshr_put node q (MSHR w))" using mshr_put_mem[OF D(13) mem] by simp
  ultimately show ?thesis using q(2,4) by blast
qed

lemma send_lower_law:
  assumes ok: "cache_ok K ap (Suc n) w" and p: "request_ok w pkt"
    and reg: "pk_fill_level pkt \<le> fill_level w \<Longrightarrow> (m, e) \<in> set (MSHR w) \<and> is_valid_packet e \<and> pk_address e = pk_address pkt"
  shows "\<exists>w'. send_lower clk P pkt w = Some w' \<and> cache_ok K ap n w' \<and> keep w w' \<and> blocks w' = blocks w"
proof (cases "cache_type w = IS_STLB")
  case False
  note D = cache_okD[OF ok]
  define q where "q = pkt\<lparr>pk_to_return := (if pk_fill_level pkt \<le> fill_level w then [this_ptr w] else [])\<rparr>"
  define f where "f = (if ptype pkt = PREFETCH \<and> cache_type w \<noteq> IS_LLC then c_add_pq (w_lower P) else c_add_rq (w_lower P))"
  have q: "sound_request q" "set (pk_to_return q) \<subseteq> {k_this K}" "pk_address q = pk_address pkt"
    using p D(18) by (auto simp: q_def request_ok_def sound_request_def)
  have qt: "ptype q = ptype pkt" by (simp add: q_def)
  have "f \<in> {c_add_rq (w_lower P), c_add_pq (w_lower P)}" by (simp add: f_def)
  from lower_add[OF D(11) q(1,2) this, of clk] obtain r calls l where
    l: "f clk q (lower_level w) = Some (r, calls, l)" "k_lower K l"
      "answers q calls" "k_tlb K \<longrightarrow> (\<forall>c\<in>set calls. \<forall>vm. k_good K vm (pk_address q) (pk_data (snd c)))" by blast
  have go: "send_lower clk P pkt w = send_all clk calls (w\<lparr>lower_level := l\<rparr>)"
    using False l(1) by (cases "ptype pkt = PREFETCH \<and> cache_type w \<noteq> IS_LLC")
      (auto simp: send_lower_def q_def[symmetric] f_def qt)
  have okl: "cache_ok K ap n (w\<lparr>lower_level := l\<rparr>)" by (rule cache_ok_lower[OF cache_ok_mono[OF ok] l(2)])
  show ?thesis
  proof (cases "pk_fill_level pkt \<le> fill_level w")
    case True
    from send_self_law[OF okl, of m e "pk_address pkt" calls clk] reg[OF True] l(3,4) D(17) True q(3)
    obtain ms where "send_all clk calls (w\<lparr>lower_level := l\<rparr>) = Some (w\<lparr>lower_level := l\<rparr>\<lparr>MSHR := ms\<rparr>)"
      "cache_ok K ap n (w\<lparr>lower_level := l\<rparr>\<lparr>MSHR := ms\<rparr>)" by (auto simp: q_def answers_def)
    then show ?thesis unfolding go by simp
  next
    case False
    with l(3) have "calls = []" by (intro answers_nobody[of q]) (simp_all add: q_def)
    with okl show ?thesis unfolding go by simp
  qed
next
  case True
  note D = cache_okD[OF ok]
  have p': "pk_address pkt = drop_bit LOG2_PAGE_SIZE (pk_full_addr pkt)" "pk_fill_level pkt \<le> fill_level w" "pk_cpu pkt < NUM_CPUS"
    using p True by (simp_all add: request_ok_def sound_request_def)
  have t: "is_tlb (cache_type w)" using True by (simp add: is_tlb_def)
  have "k_vmem K (Suc n) (vmem_state w)" using ok True by (simp add: cache_ok_def)
  from translate[OF this p'(3), of "pk_full_addr pkt"] obtain pa vm where
    vm: "va_to_pa (pk_cpu pkt) (pk_full_addr pkt) (vmem_state w) = Some (pa, vm)" "k_vmem K n vm"
      "k_good K vm (pk_address pkt) (drop_bit LOG2_PAGE_SIZE pa)" "\<forall>a d. k_good K (vmem_state w) a d \<longrightarrow> k_good K vm a d"
    unfolding p'(1) by blast
  have okv: "cache_ok K ap n (w\<lparr>vmem_state := vm\<rparr>)"
    using cache_ok_mono[OF ok] True vm(2,4)
    by (simp add: cache_ok_def conf_ok_def lines_def dirty_lines_def queue_ok_more good_data_def)
  define q where "q = pkt\<lparr>pk_data := drop_bit LOG2_PAGE_SIZE pa, pk_event_cycle := current_core_cycle clk (pk_cpu pkt)\<rparr>"
  from return_data_law[OF okv, of m e q clk] reg[OF p'(2)] vm(3) obtain ms where
    "return_data clk q (w\<lparr>vmem_state := vm\<rparr>) = Some (w\<lparr>vmem_state := vm\<rparr>\<lparr>MSHR := ms\<rparr>)"
    "cache_ok K ap n (w\<lparr>vmem_state := vm\<rparr>\<lparr>MSHR := ms\<rparr>)" by (auto simp: q_def)
  with True vm(1) show ?thesis by (simp add: send_lower_def q_def[symmetric])
qed

lemma readlike_miss_law:
  assumes ok: "cache_ok K ap (Suc n) w" and p: "request_ok w pkt"
    and miss: "\<And>l. ap \<Longrightarrow> \<not> takes_writebacks (cache_type w) \<Longrightarrow> Some l \<in> set (lines w) \<Longrightarrow> fst l \<noteq> pk_address pkt"
  shows "\<exists>r w'. readlike_miss clk P pkt w = Some (r, w') \<and> cache_ok K ap n w' \<and> keep w w' \<and> blocks w' = blocks w"
proof -
  have cpu: "pk_cpu pkt < NUM_CPUS" using p by (simp add: request_ok_def sound_request_def)
  have T: "\<exists>w'. train_prefetcher clk P pkt False (pk_address pkt) 0 u = Some w' \<and> cache_ok K ap n w' \<and> keep w w' \<and> blocks w' = blocks w"
    if "cache_ok K ap n u" "keep w u" "blocks u = blocks w" for u
    using train_law[OF that(1) cpu, of clk False "pk_address pkt" 0] that keep_trans by (fastforce simp: pf_keep_def)
  let ?full = "\<forall>n\<in>set (MSHR w). is_valid_packet (snd n)"
  show ?thesis
  proof (cases "mshr_find (eq_addr_packet (pk_address pkt)) (MSHR w)")
    case (Some i)
    from T[OF merge_law[OF cache_ok_mono[OF ok] p Some]] show ?thesis by (auto simp: readlike_miss_def Some)
  next
    case None
    show ?thesis
    proof (cases "?full \<or> (cache_type w = IS_LLC \<and> lower_full P 1 (pk_address pkt) w) \<or>
        (cache_type w \<noteq> IS_LLC \<and> ptype pkt = PREFETCH \<and> lower_full P 3 (pk_address pkt) w)")
      case True
      then show ?thesis using cache_ok_mono[OF ok] by (auto simp: readlike_miss_def None Let_def)
    next
      case False
      from allocate_law[OF ok p None _ miss, of clk] False obtain ms where
        ms: "mshr_allocate clk pkt w = Some (w\<lparr>MSHR := ms\<rparr>)" "cache_ok K ap (Suc n) (w\<lparr>MSHR := ms\<rparr>)"
        "pk_fill_level pkt \<le> fill_level w \<longrightarrow> (\<exists>m e. (m, e) \<in> set ms \<and> is_valid_packet e \<and> pk_address e = pk_address pkt)" by blast
      let ?u = "w\<lparr>MSHR := ms\<rparr>"
      obtain m e where me: "pk_fill_level pkt \<le> fill_level ?u \<Longrightarrow> (m, e) \<in> set (MSHR ?u) \<and> is_valid_packet e \<and> pk_address e = pk_address pkt"
        using ms(3) by auto
      have "request_ok ?u pkt" using p request_ok_conf[of w ?u] by (simp add: same_conf_def)
      from send_lower_law[OF ms(2) this me, of clk] obtain w1 where
        w1: "send_lower clk P pkt ?u = Some w1" "cache_ok K ap n w1" "keep ?u w1" "blocks w1 = blocks ?u" by blast
      have "keep w w1" using keep_trans[OF _ w1(3), of w] by simp
      from T[OF w1(2) this] w1(4) obtain w2 where "train_prefetcher clk P pkt False (pk_address pkt) 0 w1 = Some w2"
        "cache_ok K ap n w2" "keep w w2" "blocks w2 = blocks w" by auto
      with False ms(1) w1(1) show ?thesis by (auto simp: readlike_miss_def None Let_def)
    qed
  qed
qed

end

end
