(* ===== verification/CacheFill.thy ===== *)
theory CacheFill
  imports CacheMiss
begin

text \<open>The laws of fills: the victim, its writeback and the installation of the new line.\<close>

lemma lines_ok_update:
  assumes "lines_ok t sets ways ls" "i < length ls" "i div ways = set_of sets a"
    and "\<And>l. \<not> takes_writebacks t \<Longrightarrow> Some l \<in> set ls \<Longrightarrow> fst l \<noteq> a"
  shows "lines_ok t sets ways (ls[i := Some (a, d)])"
proof -
  have mem: "Some l \<in> set ls" if "j < length ls" "ls ! j = Some l" for j l using that by (metis nth_mem)
  have nth: "ls[i := Some (a, d)] ! j = (if j = i then Some (a, d) else ls ! j)" for j using assms(2) by simp
  have old: "length ls = sets * ways" "j < length ls \<Longrightarrow> ls ! j = Some l \<Longrightarrow> j div ways = set_of sets (fst l)"
    "\<not> takes_writebacks t \<Longrightarrow> j < length ls \<Longrightarrow> k < length ls \<Longrightarrow> ls ! j = Some l \<Longrightarrow> ls ! k = Some m \<Longrightarrow> fst l = fst m \<Longrightarrow> j = k"
    for j k l m using assms(1) unfolding lines_ok_def by blast+
  have other: "\<not> takes_writebacks t \<Longrightarrow> j < length ls \<Longrightarrow> ls ! j = Some l \<Longrightarrow> fst l \<noteq> a" for j l
    using assms(4) mem by blast
  show ?thesis unfolding lines_ok_def length_list_update nth
  proof (intro conjI allI impI)
    fix j l assume "j < length ls" "(if j = i then Some (a, d) else ls ! j) = Some l"
    then show "j div ways = set_of sets (fst l)" using old(2) assms(3) by (cases "j = i") auto
  next
    fix j k l m assume h: "\<not> takes_writebacks t" "j < length ls" "k < length ls" "(if j = i then Some (a, d) else ls ! j) = Some l"
      "(if k = i then Some (a, d) else ls ! k) = Some m" "fst l = fst m"
    show "j = k"
    proof (cases "j = i \<or> k = i")
      case True
      with h other[OF h(1,2)] other[OF h(1,3)] show ?thesis by (auto split: if_splits)
    next
      case False
      with h old(3)[OF h(1-3)] show ?thesis by auto
    qed
  qed (rule old(1))
qed

lemma cache_ok_weaken: "cache_ok K ap n w \<Longrightarrow> cache_ok K False n w"
  by (simp add: cache_ok_def)

lemma cache_ok_apart:
  "cache_ok K False n w \<Longrightarrow> (\<not> takes_writebacks (cache_type w) \<Longrightarrow> apart (lines w) (MSHR w)) \<Longrightarrow> cache_ok K True n w"
  by (simp add: cache_ok_def)

lemma mshr_put_put: "mshr_put node p (mshr_put node q ms) = mshr_put node p ms"
  by (auto simp: mshr_put_def)

lemma fill_block_simps:
  "line_of (fill_block w pkt b) = Some (pk_address pkt, pk_data pkt)"
  "dirty_of (fill_block w pkt b) = None \<or> dirty_of (fill_block w pkt b) = Some (pk_address pkt)"
  "blk_data (fill_block w pkt b) = pk_data pkt"
  by (auto simp: fill_block_def line_of_def dirty_of_def block_of_packet_def Let_def)

lemma writeback_packet_ok:
  "pk_address (writeback_packet clk w pkt b) = blk_address b" "pk_cpu (writeback_packet clk w pkt b) = pk_cpu pkt"
  "ptype (writeback_packet clk w pkt b) = WRITEBACK" "pk_ip (writeback_packet clk w pkt b) = 0"
  "pk_to_return (writeback_packet clk w pkt b) = []"
  "blk_address b \<noteq> 0 \<Longrightarrow> pk_cpu pkt < NUM_CPUS \<Longrightarrow> sound_request (writeback_packet clk w pkt b)"
  by (simp_all add: writeback_packet_def empty_packet_def branch_defs sound_request_def code_defs)

text \<open>The write queue below has no room for a dirty block, as the test before the call or the call itself says.\<close>

definition write_refused :: "clock \<Rightarrow> ('p, 'l, 'r) parts \<Rightarrow> packet \<Rightarrow> block \<Rightarrow> ('p, 'l, 'r) world \<Rightarrow> bool" where
  "write_refused clk P pkt b w \<longleftrightarrow> blk_dirty b \<noteq> 0 \<and>
     (lower_full P 2 (blk_address b) w \<or>
      (\<exists>calls l. c_add_wq (w_lower P) clk (writeback_packet clk w pkt b) (lower_level w) = Some (- 2, calls, l)))"

lemma write_refused_repl [simp]: "write_refused clk P pkt b (w\<lparr>repl := r\<rparr>) = write_refused clk P pkt b w"
  by (simp add: write_refused_def lower_full_def writeback_packet_def)

context cache_parts
begin

lemma find_victim_law:
  assumes "cache_ok K ap n w" "sx < NUM_SET w"
  shows "\<exists>way r. find_victim P sx pkt w = Some (way, w\<lparr>repl := r\<rparr>) \<and> way < NUM_WAY w \<and> cache_ok K ap n (w\<lparr>repl := r\<rparr>)"
proof -
  note D = cache_okD[OF assms(1)]
  have "Suc sx * NUM_WAY w \<le> NUM_SET w * NUM_WAY w" using assms(2) by (intro mult_le_mono1) simp
  then have "length (set_row w sx) = k_ways K" using D(3,5) by (simp add: set_row_def)
  from victim[OF _ this D(12), of sx "pk_ip pkt" "pk_full_addr pkt" "ptype pkt"] assms(2) D(2,3) obtain way r where
    v: "p_find_victim (w_policy P) sx (set_row w sx) (pk_ip pkt) (pk_full_addr pkt) (ptype pkt) (repl w) = Some (way, r)"
      "way < NUM_WAY w" "k_repl K r" by auto
  with cache_ok_repl[OF assms(1) v(3)] show ?thesis
    by (intro exI[of _ way] exI[of _ r]) (simp add: find_victim_def)
qed

lemma evict_law:
  assumes ok: "cache_ok K ap n w" and b: "b \<in> set (blocks w)" "blk_dirty b \<noteq> 0" and cpu: "pk_cpu pkt < NUM_CPUS"
  shows "\<exists>r l. evict_dirty clk P pkt b w = Some (r, w\<lparr>lower_level := l\<rparr>) \<and> cache_ok K ap n (w\<lparr>lower_level := l\<rparr>) \<and>
    (\<not> r \<longrightarrow> write_refused clk P pkt b w)"
proof -
  note D = cache_okD[OF ok]
  have "dirty_of b \<in> set (dirty_lines w)" using b(1) by (simp add: dirty_lines_def)
  with D(19) b(2) have a: "blk_address b \<noteq> 0" by (auto simp: dirty_of_def)
  let ?p = "writeback_packet clk w pkt b"
  from lower_wq[OF D(11), of ?p clk] a cpu obtain r l where
    l: "c_add_wq (w_lower P) clk ?p (lower_level w) = Some (r, [], l)" "k_lower K l" by (auto simp: writeback_packet_ok)
  show ?thesis
  proof (cases "lower_full P 2 (blk_address b) w")
    case True
    with cache_ok_lower[OF ok lower_count[OF D(11)], of "blk_address b"] b(2) show ?thesis by (auto simp: evict_dirty_def write_refused_def)
  next
    case False
    with l cache_ok_lower[OF ok l(2)] b(2) show ?thesis by (auto simp: evict_dirty_def write_refused_def)
  qed
qed

lemma install_law:
  assumes ok: "cache_ok K ap n w" and p: "request_ok w pkt" and i: "sx = get_set w (pk_address pkt)" "way < NUM_WAY w"
    and miss: "\<And>l. \<not> takes_writebacks (cache_type w) \<Longrightarrow> Some l \<in> set (lines w) \<Longrightarrow> fst l \<noteq> pk_address pkt"
    and good: "is_tlb (cache_type w) \<Longrightarrow> k_good K (vmem_state w) (pk_address pkt) (pk_data pkt)"
  shows "\<exists>w'. install sx way pkt w = Some w' \<and> cache_ok K False n w' \<and> keep w w' \<and> MSHR w' = MSHR w \<and> outbox w' = outbox w \<and>
    vmem_state w' = vmem_state w \<and> lines w' = (lines w)[sx * NUM_WAY w + way := Some (pk_address pkt, pk_data pkt)] \<and>
    blk_data (blocks w' ! (sx * NUM_WAY w + way)) = pk_data pkt"
proof -
  note D = cache_okD[OF ok]
  let ?i = "sx * NUM_WAY w + way"
  have sx: "sx < NUM_SET w" using D(1) set_of_bound by (simp add: i(1) get_set_eq conf_ok_def)
  note bi = block_index[OF sx i(2)]
  have len: "?i < length (blocks w)" using bi(1) D(5) by simp
  define s where "s = upd_stats (\<lambda>s. s\<lparr>pf_useless := pf_useless s + (if blk_prefetch (blocks w ! ?i) \<noteq> 0 \<and> blk_used (blocks w ! ?i) = 0 then 1 else 0),
    pf_fill := pf_fill s + (if ptype pkt = PREFETCH then 1 else 0)\<rparr>) w"
  have s: "cache_ok K ap n s" "keep w s" "MSHR s = MSHR w" "outbox s = outbox w" "vmem_state s = vmem_state w" "blocks s = blocks w"
    "lines s = lines w" "dirty_lines s = dirty_lines w" "cache_type s = cache_type w" "NUM_SET s = NUM_SET w" "NUM_WAY s = NUM_WAY w"
    using ok by (simp_all add: s_def) (simp_all add: upd_stats_def dirty_lines_def)
  define w' where "w' = upd_block ?i (fill_block w pkt) s"
  have ln: "lines w' = (lines w)[?i := Some (pk_address pkt, pk_data pkt)]"
    using s(6) len by (simp add: w'_def upd_block_def lines_def map_update fill_block_simps)
  have dl: "dirty_lines w' = (dirty_lines w)[?i := dirty_of (fill_block w pkt (blocks w ! ?i))]"
    using s(6) by (simp add: w'_def upd_block_def dirty_lines_def map_update)
  have pa: "pk_address pkt \<noteq> 0" using p by (simp add: request_ok_def sound_request_def)
  have "Some 0 \<notin> set (dirty_lines w')"
    using set_update_subset_insert[of "dirty_lines w" ?i "dirty_of (fill_block w pkt (blocks w ! ?i))"] D(19)
      fill_block_simps(2)[of w pkt "blocks w ! ?i"] pa unfolding dl by auto
  moreover have "lines_ok (cache_type w) (NUM_SET w) (NUM_WAY w) (lines w')"
    unfolding ln using bi D(5) miss by (intro lines_ok_update[OF D(4)]) (auto simp: i(1) get_set_eq)
  moreover have "good_data (k_good K (vmem_state w)) (lines w') (MSHR w)" if t: "is_tlb (cache_type w)"
    using D(16)[OF t] good[OF t] set_update_subset_insert[of "lines w" ?i "Some (pk_address pkt, pk_data pkt)"]
    unfolding good_data_def ln by auto
  moreover have "dirty_lines (s\<lparr>blocks := bs\<rparr>) = map dirty_of bs" "lines (s\<lparr>blocks := bs\<rparr>) = map line_of bs" for bs
    by (simp_all add: dirty_lines_def lines_def)
  ultimately have "cache_ok K False n w'" using s(1) D(2,3)
    by (simp add: cache_ok_def w'_def upd_block_def conf_ok_def queue_ok_more s)
  moreover have "install sx way pkt w = Some w'"
    using good nonzero[OF D(17)] by (auto simp: install_def Let_def s_def[symmetric] w'_def is_tlb_def)
  moreover have "blk_data (blocks w' ! ?i) = pk_data pkt" using len s(6) by (simp add: w'_def upd_block_def fill_block_simps)
  ultimately show ?thesis using s ln by (auto simp: w'_def upd_block_def)
qed

lemma finish_fill_law:
  assumes ok: "cache_ok K ap n w" and p: "request_ok w pkt" and i: "sx < NUM_SET w" "way < NUM_WAY w"
  shows "\<exists>md w'. finish_fill clk P sx way pkt eip ea w = Some (pkt\<lparr>pk_pf_metadata := md\<rparr>, w') \<and> cache_ok K ap n w' \<and> keep w w' \<and>
    MSHR w' = MSHR w \<and> outbox w' = outbox w \<and> map unranked (blocks w') = map unranked (blocks w)"
proof -
  define u where "u = (if warmup_complete clk (pk_cpu pkt) \<and> pk_cycle_enqueued pkt \<noteq> 0
               then upd_stats (\<lambda>s. s\<lparr>total_miss_latency := total_miss_latency s +
                      (current_core_cycle clk (pk_cpu pkt) - pk_cycle_enqueued pkt)\<rparr>) w
               else w)"
  have u: "cache_ok K ap n u" "keep w u" "MSHR u = MSHR w" "outbox u = outbox w" "blocks u = blocks w" "cache_type u = cache_type w"
    using ok by (simp_all add: u_def) (simp_all add: upd_stats_def)
  have cpu: "pk_cpu pkt < NUM_CPUS" using p by (simp add: request_ok_def sound_request_def)
  from call_prefetcher_law[OF u(1) cpu fill_call_tlb[of u sx way pkt eip ea], of clk "pk_pf_metadata pkt"] obtain md v where
    v: "call_prefetcher clk P pkt (fill_call u sx way pkt eip ea) (pk_pf_metadata pkt) u = Some (md, v)" "cache_ok K ap n v" "pf_keep u v"
    by blast
  have kv: "keep w v" "blocks v = blocks w" "MSHR v = MSHR w" "outbox v = outbox w"
    using v(3) keep_trans[OF u(2)] u by (auto simp: pf_keep_def)
  obtain md' where md': "(if cache_type v \<in> {IS_L2C, IS_LLC} then pkt\<lparr>pk_pf_metadata := md\<rparr> else pkt) = pkt\<lparr>pk_pf_metadata := md'\<rparr>"
    by (cases "cache_type v \<in> {IS_L2C, IS_LLC}") (auto intro: that[of md] that[of "pk_pf_metadata pkt"])
  define q where "q = pkt\<lparr>pk_pf_metadata := md'\<rparr>"
  have "request_ok v q" using p keepD(12)[OF kv(1)] by (simp add: q_def request_ok_def sound_request_def)
  from update_law[OF v(2) this, of sx way "pk_full_addr q" False] i keepD(6,7)[OF kv(1)] obtain x where
    x: "update_replacement P sx way (pk_full_addr q) q False v = Some x" "cache_ok K ap n x" "keep v x"
      "map unranked (blocks x) = map unranked (blocks v)" "MSHR x = MSHR v" "outbox x = outbox v" by auto
  have "finish_fill clk P sx way pkt eip ea w = Some (q, upd_stats (count_miss q) x)"
    using v(1) x(1) md' by (simp add: finish_fill_def u_def[symmetric] q_def[symmetric] Let_def)
  with x keep_trans[OF kv(1) x(3)] kv show ?thesis unfolding q_def
    by (intro exI[of _ md'] exI[of _ "upd_stats (count_miss (pkt\<lparr>pk_pf_metadata := md'\<rparr>)) x"]) (simp, simp add: upd_stats_def)
qed

lemma unranked_nth:
  assumes "map unranked bs' = map unranked bs" "i < length bs"
  shows "blk_data (bs' ! i) = blk_data (bs ! i)"
proof -
  have "unranked (bs' ! i) = unranked (bs ! i)" using assms by (metis length_map nth_map)
  then have "blk_data (unranked (bs' ! i)) = blk_data (unranked (bs ! i))" by simp
  then show ?thesis by (simp add: unranked_def)
qed

lemma filllike_miss_law:
  assumes ok: "cache_ok K ap n w" and p: "request_ok w pkt" and i: "sx = get_set w (pk_address pkt)" "way < NUM_WAY w"
    and miss: "\<And>l. \<not> takes_writebacks (cache_type w) \<Longrightarrow> Some l \<in> set (lines w) \<Longrightarrow> fst l \<noteq> pk_address pkt"
    and good: "is_tlb (cache_type w) \<Longrightarrow> k_good K (vmem_state w) (pk_address pkt) (pk_data pkt)"
  shows "\<exists>r md w'. filllike_miss clk P sx way pkt w = Some (r, pkt\<lparr>pk_pf_metadata := md\<rparr>, w') \<and> cache_ok K False n w' \<and> keep w w' \<and>
    MSHR w' = MSHR w \<and> outbox w' = outbox w \<and>
    (r \<longrightarrow> lines w' = (lines w)[sx * NUM_WAY w + way := Some (pk_address pkt, pk_data pkt)] \<and>
      blk_data (blocks w' ! (sx * NUM_WAY w + way)) = pk_data pkt) \<and>
    (\<not> r \<longrightarrow> cache_ok K ap n w' \<and> lines w' = lines w \<and> write_refused clk P pkt (blocks w ! (sx * NUM_WAY w + way)) w)"
proof -
  note D = cache_okD[OF ok]
  let ?i = "sx * NUM_WAY w + way"
  define b where "b = blocks w ! ?i"
  have sx: "sx < NUM_SET w" using D(1) set_of_bound by (simp add: i(1) get_set_eq conf_ok_def)
  have len: "?i < length (blocks w)" using block_index(1)[OF sx i(2)] D(5) by simp
  have cpu: "pk_cpu pkt < NUM_CPUS" using p by (simp add: request_ok_def sound_request_def)
  have "b \<in> set (blocks w)" using len by (simp add: b_def)
  then obtain r l where ev: "(if has_lower_level w \<and> blk_dirty b \<noteq> 0 then evict_dirty clk P pkt b w else Some (True, w)) = Some (r, w\<lparr>lower_level := l\<rparr>)"
    "cache_ok K ap n (w\<lparr>lower_level := l\<rparr>)" "\<not> r \<longrightarrow> write_refused clk P pkt b w"
  proof (cases "has_lower_level w \<and> blk_dirty b \<noteq> 0")
    case True
    with evict_law[OF ok \<open>b \<in> set (blocks w)\<close> _ cpu, of clk] show ?thesis by (auto intro: that)
  next
    case False
    with ok that[of True "lower_level w"] show ?thesis by simp
  qed
  let ?u = "w\<lparr>lower_level := l\<rparr>"
  have u: "request_ok ?u pkt" "lines ?u = lines w" "keep w ?u" "get_set ?u = get_set w"
    using p request_ok_conf[of w ?u] by (simp_all add: same_conf_def lines_def get_set_def[abs_def])
  have way: "way \<noteq> NUM_WAY w" using i(2) by simp
  show ?thesis
  proof (cases r)
    case False
    with ev u(2,3) way cache_ok_weaken[OF ev(2)] show ?thesis
      by (intro exI[of _ False] exI[of _ "pk_pf_metadata pkt"] exI[of _ ?u])
        (simp add: filllike_miss_def Let_def b_def[symmetric])
  next
    case True
    from install_law[OF ev(2) u(1), of sx way] i miss good u obtain x where
      x: "install sx way pkt ?u = Some x" "cache_ok K False n x" "keep ?u x" "MSHR x = MSHR w" "outbox x = outbox w"
        "lines x = (lines w)[?i := Some (pk_address pkt, pk_data pkt)]" "blk_data (blocks x ! ?i) = pk_data pkt" by auto
    have kx: "keep w x" by (rule keep_trans[OF u(3) x(3)])
    have "request_ok x pkt" using p keepD(12)[OF kx] by simp
    from finish_fill_law[OF x(2) this, of sx way clk "blk_ip b" "blk_address b"] sx i(2) keepD(6,7)[OF kx] obtain md y where
      y: "finish_fill clk P sx way pkt (blk_ip b) (blk_address b) x = Some (pkt\<lparr>pk_pf_metadata := md\<rparr>, y)" "cache_ok K False n y" "keep x y"
        "MSHR y = MSHR x" "outbox y = outbox x" "map unranked (blocks y) = map unranked (blocks x)" by auto
    have "length (blocks x) = length (blocks w)" using arg_cong[OF x(6), of length] by simp
    then have "blk_data (blocks y ! ?i) = pk_data pkt" using unranked_nth[OF y(6)] x(7) len by simp
    moreover have "lines y = lines (x\<lparr>blocks := blocks y\<rparr>)" by (simp add: lines_def)
    then have "lines y = lines x" using unranked_lines(1)[OF y(6)] by simp
    moreover have "filllike_miss clk P sx way pkt w = Some (True, pkt\<lparr>pk_pf_metadata := md\<rparr>, y)"
      using way ev(1) True x(1) y(1) by (simp add: filllike_miss_def Let_def b_def[symmetric])
    ultimately show ?thesis using y x keep_trans[OF kx y(3)] by auto
  qed
qed

end

end
