(* ===== verification/CacheCycle.thy ===== *)
theory CacheCycle
  imports CacheFill
begin

text \<open>The laws of the handlers and of a whole cycle, under the contract of the parts.\<close>

section \<open>The budget\<close>

text \<open>A step that counts the budget down when it succeeds ends the loop within the budget, and pays \<open>cost\<close> units for each round.\<close>

lemma budget_loop_law:
  assumes step: "\<And>n w. I (n + cost) w \<Longrightarrow> available w > 0 \<Longrightarrow>
      \<exists>r w'. step w = Some (r, w') \<and> I n w' \<and> available w' = available w - (if r then 1 else 0)"
    and mono: "\<And>m n w. I (m + n) w \<Longrightarrow> I m w"
    and "I (m + cost * unat (available w)) w"
  shows "\<exists>w'. budget_loop (unat (available w)) available step w = Some w' \<and> I m w' \<and> available w' \<le> available w"
  using assms(3)
proof (induction "unat (available w)" arbitrary: w)
  case 0
  then have "available w = 0" by (simp add: unat_eq_0)
  with 0 show ?case by (auto dest: mono)
next
  case (Suc k)
  then have pos: "available w > 0" by (metis nat.distinct(1) unsigned_0 word_gt_0)
  have "I ((m + cost * k) + cost) w" using Suc.prems Suc.hyps(2)[symmetric] by (simp add: ac_simps)
  from step[OF this pos] obtain r w' where w': "step w = Some (r, w')" "I (m + cost * k) w'"
    "available w' = available w - (if r then 1 else 0)" by blast
  show ?case
  proof (cases r)
    case False
    with w' pos Suc.hyps(2)[symmetric] show ?thesis by (auto dest: mono)
  next
    case True
    have k: "k = unat (available w')" using w'(3) True Suc.hyps(2) pos by (simp add: unat_minus_one)
    with Suc.hyps(1)[OF k] w'(2) obtain w'' where w'': "budget_loop k available step w' = Some w''" "I m w''" "available w'' \<le> available w'"
      by auto
    have "available w' \<le> available w" using k Suc.hyps(2) by (simp add: word_le_nat_alt)
    then have "available w'' \<le> available w" using w''(3) by simp
    with True w'(1) w'' pos show ?thesis by (simp add: Suc.hyps(2)[symmetric])
  qed
qed

lemma line_elsewhere:
  assumes "cache_ok K ap n w" "\<And>i l. i < length (lines w) \<Longrightarrow> lines w ! i = Some l \<Longrightarrow> i div NUM_WAY w = get_set w a \<Longrightarrow> fst l \<noteq> a"
    and "Some l \<in> set (lines w)"
  shows "fst l \<noteq> a"
proof
  assume a: "fst l = a"
  from assms(3) obtain i where i: "i < length (lines w)" "lines w ! i = Some l" by (metis in_set_conv_nth)
  with cache_okD(4)[OF assms(1)] have "i div NUM_WAY w = get_set w (fst l)" unfolding lines_ok_def get_set_eq by blast
  with assms(2)[OF i] a show False by simp
qed

lemma cache_ok_mark_dirty:
  assumes ok: "cache_ok K ap n w" and "blk_address (blocks w ! i) \<noteq> 0" "i < length (blocks w)"
  shows "cache_ok K ap n (upd_block i (\<lambda>b. b\<lparr>blk_dirty := 1\<rparr>) w)"
proof -
  let ?u = "upd_block i (\<lambda>b. b\<lparr>blk_dirty := 1\<rparr>) w"
  have d: "dirty_lines ?u = (dirty_lines w)[i := Some (blk_address (blocks w ! i))]"
    by (simp add: upd_block_def dirty_lines_def map_update dirty_of_def)
  have "Some 0 \<notin> set (dirty_lines ?u)"
    using set_update_subset_insert[of "dirty_lines w" i] cache_okD(19)[OF ok] assms(2) unfolding d by fastforce
  moreover have "lines ?u = lines w" by (rule lines_upd_block) simp
  ultimately show ?thesis using ok
    by (simp add: cache_ok_def) (simp add: upd_block_def conf_ok_def queue_ok_more)
qed

lemma answer_node_others:
  assumes "map_of (MSHR w) node = Some p" "this_ptr w \<notin> set rets"
  shows "answer_node clk node rets w = Some (w\<lparr>outbox := outbox w @ map (\<lambda>ret. (ret, p)) rets\<rparr>)"
  using assms by (induction rets arbitrary: w) (auto simp: send_def)

lemma mshr_head:
  assumes "mshr_ok w ms"
  obtains node e ms' where "ms = (node, e) # ms'"
  using assms by (cases ms) (auto simp: mshr_ok_def)

text \<open>The register at the head of the list can be filled.\<close>

definition fill_due :: "clock \<Rightarrow> 'a cache_scheme \<Rightarrow> bool" where
  "fill_due clk w \<longleftrightarrow>
     (case MSHR w of [] \<Rightarrow> False
      | (_, e) # _ \<Rightarrow> pk_returned e = COMPLETED \<and> \<not> pk_event_cycle e > current_core_cycle clk (pk_cpu e))"

context cache_parts
begin

section \<open>Fills\<close>

lemma fill_step_law:
  assumes ok: "cache_ok K True n w"
  shows "\<exists>r w'. fill_step clk P w = Some (r, w') \<and> cache_ok K True n w' \<and> same_conf w w' \<and>
    writes_available_this_cycle w' = writes_available_this_cycle w - (if r then 1 else 0) \<and>
    (r \<longrightarrow> (\<exists>node e md ms. MSHR w = (node, e) # ms \<and> pk_returned e = COMPLETED \<and>
      MSHR w' = mshr_sort ((node, empty_packet) # ms) \<and> Some (pk_address e, pk_data e) \<in> set (lines w') \<and>
      outbox w' = outbox w @ map (\<lambda>ret. (ret, e\<lparr>pk_pf_metadata := md\<rparr>)) (pk_to_return e))) \<and>
    (\<not> r \<longrightarrow> MSHR w' = MSHR w \<and> lines w' = lines w \<and> outbox w' = outbox w \<and> (fill_due clk w \<longrightarrow>
      (\<exists>node e ms way u. MSHR w = (node, e) # ms \<and> find_victim P (get_set w (pk_address e)) e w = Some (way, u) \<and> way < NUM_WAY w \<and>
         write_refused clk P e (blocks w ! (get_set w (pk_address e) * NUM_WAY w + way)) w)))"
proof -
  note D = cache_okD[OF ok]
  from mshr_head[OF D(6)] obtain node e ms where ms: "MSHR w = (node, e) # ms" .
  show ?thesis
  proof (cases "pk_returned e \<noteq> COMPLETED \<or> pk_event_cycle e > current_core_cycle clk (pk_cpu e)")
    case True
    with ms have "fill_step clk P w = Some (False, w)" "\<not> fill_due clk w" by (auto simp: fill_step_def fill_due_def)
    with ok show ?thesis by auto
  next
    case False
    then have comp: "pk_returned e = COMPLETED" by simp
    have mem: "(node, e) \<in> set (MSHR w)" using ms by simp
    have val: "is_valid_packet e" using D(6) mem comp unfolding mshr_ok_def by fastforce
    have p: "request_ok w e" using D(6) mem val unfolding mshr_ok_def by fastforce
    define sx where "sx = get_set w (pk_address e)"
    have sx: "sx < NUM_SET w" using D(1) set_of_bound by (simp add: sx_def get_set_eq conf_ok_def)
    from find_victim_law[OF ok sx, of e] obtain way rp where
      v: "find_victim P sx e w = Some (way, w\<lparr>repl := rp\<rparr>)" "way < NUM_WAY w" "cache_ok K True n (w\<lparr>repl := rp\<rparr>)" by blast
    let ?u = "w\<lparr>repl := rp\<rparr>"
    have ku: "keep w ?u" by simp
    have pu: "request_ok ?u e" using p keepD(12)[OF ku] by simp
    have lu: "lines ?u = lines w" "get_set ?u = get_set w" by (simp_all add: lines_def get_set_def[abs_def])
    have miss: "fst l \<noteq> pk_address e" if "\<not> takes_writebacks (cache_type w)" "Some l \<in> set (lines w)" for l
      using D(15)[OF _ that(1)] mem val that(2) unfolding apart_def by fastforce
    have good: "is_tlb (cache_type w) \<Longrightarrow> k_good K (vmem_state w) (pk_address e) (pk_data e)"
      using D(16) mem comp unfolding good_data_def by fastforce
    from filllike_miss_law[OF v(3) pu, of sx way clk] v(2) miss good lu sx_def obtain r md x where
      x: "filllike_miss clk P sx way e ?u = Some (r, e\<lparr>pk_pf_metadata := md\<rparr>, x)" "cache_ok K False n x" "keep ?u x" "MSHR x = MSHR w"
        "outbox x = outbox w"
        "r \<longrightarrow> lines x = (lines w)[sx * NUM_WAY w + way := Some (pk_address e, pk_data e)] \<and>
          blk_data (blocks x ! (sx * NUM_WAY w + way)) = pk_data e" "\<not> r \<longrightarrow> cache_ok K True n x \<and> lines x = lines w \<and>
          write_refused clk P e (blocks w ! (sx * NUM_WAY w + way)) w" by auto
    have kx: "keep w x" by (rule keep_trans[OF ku x(3)])
    show ?thesis
    proof (cases r)
      case r: False
      with False ms v(1,2) x kx keepD(1)[OF kx] keepD(10)[OF kx] show ?thesis
        by (intro exI[of _ False] exI[of _ x]) (simp add: fill_step_def sx_def[symmetric])
    next
      case r: True
      define q where "q = e\<lparr>pk_pf_metadata := md\<rparr>"
      have q: "q\<lparr>pk_data := blk_data (blocks x ! (sx * NUM_WAY x + way))\<rparr> = q" "pk_to_return q = pk_to_return e"
        using x(6) r keepD(6)[OF kx] by (simp_all add: q_def)
      define y where "y = x\<lparr>MSHR := mshr_put node q (MSHR w)\<rparr>"
      have "map_of (MSHR y) node = Some q" using ms by (simp add: y_def mshr_put_def)
      moreover have "this_ptr y \<notin> set (pk_to_return e)" using p keepD(5)[OF kx] by (simp add: request_ok_def sound_request_def y_def)
      ultimately have ans: "answer_node clk node (pk_to_return e) y = Some (y\<lparr>outbox := outbox w @ map (\<lambda>ret. (ret, q)) (pk_to_return e)\<rparr>)"
        using answer_node_others[of y node q "pk_to_return e" clk] x(5) by (simp add: y_def)
      have nd: "node \<notin> fst ` set ms" using D(13) ms by simp
      then have "map (\<lambda>k. if fst k = node then (node, empty_packet) else k) ms = ms"
        by (intro map_idI) (metis imageI)
      then have put: "mshr_put node empty_packet (MSHR w) = (node, empty_packet) # ms"
        by (simp add: ms mshr_put_def)
      let ?ms = "mshr_sort ((node, empty_packet) # ms)"
      let ?w = "y\<lparr>outbox := outbox w @ map (\<lambda>ret. (ret, q)) (pk_to_return e), MSHR := ?ms,
        writes_available_this_cycle := writes_available_this_cycle x - 1\<rparr>"
      have fs: "fill_step clk P w = Some (True, ?w)"
      proof -
        have "way \<noteq> NUM_WAY x" using v(2) keepD(6)[OF kx] by simp
        then show ?thesis using False ms v(1) x(1,4) r ans q put
          by (simp add: fill_step_def sx_def[symmetric] q_def[symmetric] y_def mshr_put_put Let_def)
      qed
      have lx: "lines x = (lines w)[sx * NUM_WAY w + way := Some (pk_address e, pk_data e)]" using x(6) r by simp
      have len: "sx * NUM_WAY w + way < length (lines w)" using block_index(1)[OF sx v(2)] D(5) by simp
      have emp: "\<not> is_valid_packet empty_packet" "pk_returned empty_packet \<noteq> COMPLETED"
        by (simp_all add: empty_packet_def is_valid_packet_def code_defs)
      have mset: "mset ?ms = mset (mshr_put node empty_packet (MSHR w))" by (simp add: put)
      have mo: "mshr_ok w ?ms"
        using mshr_sort_facts emp by (intro mshr_ok_put[OF D(6) mem _ _ _ mset]) auto
      have okw: "cache_ok K True n (x\<lparr>MSHR := ?ms\<rparr>)"
      proof (rule cache_ok_apart)
        show "cache_ok K False n (x\<lparr>MSHR := ?ms\<rparr>)"
        proof (rule cache_ok_MSHR[OF x(2)])
          show "mshr_ok x ?ms" using mo mshr_ok_conf[OF keepD(1)[OF kx]] by simp
          show "good_data (k_good K (vmem_state x)) (lines x) ?ms" if t: "is_tlb (cache_type x)"
            by (rule good_data_put[OF cache_okD(16)[OF x(2) t] _ _ mset[folded x(4)], of e])
              (use D(13) mem emp x(4) in simp_all)
        qed simp
        assume t: "\<not> takes_writebacks (cache_type (x\<lparr>MSHR := ?ms\<rparr>))"
        then have t': "\<not> takes_writebacks (cache_type w)" using keepD(4)[OF kx] by simp
        have "fst l \<noteq> pk_address (snd k)" if k: "k \<in> set ?ms" "is_valid_packet (snd k)" and l: "Some l \<in> set (lines x)" for k l
        proof -
          have km: "k \<in> set ms" using k emp by auto
          then have kw: "k \<in> set (MSHR w)" "k \<noteq> (node, e)" using ms nd by force+
          consider "Some l \<in> set (lines w)" | "l = (pk_address e, pk_data e)"
            using l set_update_subset_insert[of "lines w" "sx * NUM_WAY w + way"] unfolding lx by fastforce
          then show ?thesis
          proof cases
            case 1
            with D(15)[OF _ t'] kw(1) k(2) show ?thesis unfolding apart_def by blast
          next
            case 2
            have "pk_address (snd k) \<noteq> pk_address (snd (node, e))"
              using D(6) kw mem k(2) unfolding mshr_ok_def by blast
            with 2 show ?thesis by simp
          qed
        qed
        then show "apart (lines (x\<lparr>MSHR := ?ms\<rparr>)) (MSHR (x\<lparr>MSHR := ?ms\<rparr>))"
          unfolding apart_def by (simp add: lines_def)
      qed
      have "?w = (x\<lparr>MSHR := ?ms\<rparr>)\<lparr>outbox := outbox ?w, writes_available_this_cycle := writes_available_this_cycle ?w\<rparr>"
        by (simp add: y_def)
      then have "cache_ok K True n ?w" using okw by (metis cache_ok_simps(2,5))
      moreover have "same_conf w ?w" using keepD(1)[OF kx] by (simp add: y_def same_conf_def)
      moreover have "Some (pk_address e, pk_data e) \<in> set (lines ?w)"
        using set_update_memI[OF len, of "Some (pk_address e, pk_data e)"] lx by (simp add: y_def lines_def)
      moreover have "writes_available_this_cycle x = writes_available_this_cycle w" using keepD(10)[OF kx] .
      moreover have "outbox ?w = outbox w @ map (\<lambda>ret. (ret, e\<lparr>pk_pf_metadata := md\<rparr>)) (pk_to_return e)" by (simp add: q_def)
      moreover have "MSHR ?w = ?ms" "writes_available_this_cycle ?w = writes_available_this_cycle x - 1" by simp_all
      ultimately show ?thesis using fs ms comp
        by (intro exI[of _ True] exI[of _ ?w] conjI impI exI[of _ node] exI[of _ e] exI[of _ md] exI[of _ ms]) (simp_all only: if_True not_True_eq_False)
    qed
  qed
qed

section \<open>Writebacks, reads and prefetches\<close>

lemma front_ok:
  assumes "queue_ok (Suc n) w q" "queue_ready clk q"
  shows "request_ok w (dq_front q)" "dq_has_ready q"
proof -
  have s: "dq_safe (Suc n) q" "dq_has_ready q" using assms by (simp_all add: queue_ok_def queue_ready_def)
  from dq_safe_ready[OF s] have "dq_front q \<in> set (dq_view q)" by simp
  with assms(1) show "request_ok w (dq_front q)" by (simp add: queue_ok_def)
  show "dq_has_ready q" by (rule s(2))
qed

lemma pop_law:
  assumes "queue_ok (Suc n) w q" "dq_has_ready q"
  shows "\<exists>q'. dq_pop_front q = Some q' \<and> queue_ok n w q' \<and> dq_view q' = tl (dq_view q)"
proof -
  from dq_safe_pop[of n q] assms obtain q' where q': "dq_pop_front q = Some q'" "dq_safe n q'" "dq_view q' = tl (dq_view q)"
    by (auto simp: queue_ok_def)
  have "set (tl (dq_view q)) \<subseteq> set (dq_view q)" by (cases "dq_view q") auto
  with assms(1) q' show ?thesis by (auto simp: queue_ok_def)
qed

lemma read_access_law:
  assumes ok: "cache_ok K True (Suc n) w" and p: "request_ok w pkt"
  shows "\<exists>r w'. read_access clk P pkt w = Some (r, w') \<and> cache_ok K True n w' \<and> keep w w'"
proof -
  note D = cache_okD[OF ok]
  define sx where "sx = get_set w (pk_address pkt)"
  have sx: "sx < NUM_SET w" using D(1) set_of_bound by (simp add: sx_def get_set_eq conf_ok_def)
  show ?thesis
  proof (cases rule: get_way_cases[OF D(1,5) sx_def])
    case (1 way d)
    note hit = 1
    from readlike_hit_law[OF cache_ok_mono[OF ok] p sx hit(2), of clk] obtain w' where
      "readlike_hit clk P sx way pkt w = Some w'" "cache_ok K True n w'" "keep w w'" by blast
    with hit(1,2) show ?thesis by (auto simp: read_access_def sx_def[symmetric])
  next
    case 2
    note miss = 2
    have "fst l \<noteq> pk_address pkt" if "Some l \<in> set (lines w)" for l
      using line_elsewhere[OF ok miss(2) that] by (simp add: sx_def)
    from readlike_miss_law[OF ok p this, of clk] obtain r w' where
      "readlike_miss clk P pkt w = Some (r, w')" "cache_ok K True n w'" "keep w w'" by blast
    with miss(1) show ?thesis by (auto simp: read_access_def sx_def[symmetric])
  qed
qed

lemma writeback_access_law:
  assumes ok: "cache_ok K True (Suc n) w" and p: "request_ok w pkt" and t: "takes_writes (cache_type w)"
  shows "\<exists>r w'. writeback_access clk P pkt w = Some (r, w') \<and> cache_ok K True n w' \<and> keep w w'"
proof -
  have ok': "cache_ok K True n w" by (rule cache_ok_mono[OF ok])
  note D = cache_okD[OF ok']
  define sx where "sx = get_set w (pk_address pkt)"
  have sx: "sx < NUM_SET w" using D(1) set_of_bound by (simp add: sx_def get_set_eq conf_ok_def)
  show ?thesis
  proof (cases rule: get_way_cases[OF D(1,5) sx_def])
    case (1 way d)
    note hit = 1
    let ?i = "sx * NUM_WAY w + way"
    have a: "blk_address (blocks w ! ?i) \<noteq> 0" using hit(3,4) p
      by (auto simp: lines_def line_of_def request_ok_def sound_request_def split: if_splits)
    from update_law[OF ok' p sx hit(2), of "blk_full_addr (blocks w ! ?i)" True] obtain u where
      u: "update_replacement P sx way (blk_full_addr (blocks w ! ?i)) pkt True w = Some u" "cache_ok K True n u" "keep w u"
        "map unranked (blocks u) = map unranked (blocks w)" by blast
    have len: "length (blocks u) = length (blocks w)" using arg_cong[OF u(4), of length] by simp
    have "unranked (blocks u ! ?i) = unranked (blocks w ! ?i)" using u(4) hit(3) len by (metis nth_map)
    then have "blk_address (unranked (blocks u ! ?i)) = blk_address (unranked (blocks w ! ?i))" by simp
    then have "blk_address (blocks u ! ?i) = blk_address (blocks w ! ?i)" by (simp add: unranked_def)
    moreover have "blocks (upd_stats (count_hit pkt) u) = blocks u" by (simp add: upd_stats_def)
    ultimately have "cache_ok K True n (upd_block ?i (\<lambda>b. b\<lparr>blk_dirty := 1\<rparr>) (upd_stats (count_hit pkt) u))"
      using u(2) a len hit(3) by (intro cache_ok_mark_dirty) simp_all
    with u(1,3) hit(1,2) show ?thesis by (auto simp: writeback_access_def sx_def[symmetric])
  next
    case 2
    note miss = 2
    have m: "fst l \<noteq> pk_address pkt" if "Some l \<in> set (lines w)" for l
      using line_elsewhere[OF ok' miss(2) that] by (simp add: sx_def)
    show ?thesis
    proof (cases "cache_type w = IS_L1D")
      case True
      from readlike_miss_law[OF ok p m, of clk] obtain r w' where
        "readlike_miss clk P pkt w = Some (r, w')" "cache_ok K True n w'" "keep w w'" by blast
      with True miss(1) show ?thesis by (auto simp: writeback_access_def sx_def[symmetric])
    next
      case False
      then have tw: "takes_writebacks (cache_type w)" "\<not> is_tlb (cache_type w)"
        using t by (auto simp: takes_writes_def takes_writebacks_def is_tlb_def code_defs)
      from find_victim_law[OF ok' sx, of pkt] obtain way rp where
        v: "find_victim P sx pkt w = Some (way, w\<lparr>repl := rp\<rparr>)" "way < NUM_WAY w" "cache_ok K True n (w\<lparr>repl := rp\<rparr>)" by blast
      let ?u = "w\<lparr>repl := rp\<rparr>"
      have ku: "keep w ?u" by simp
      have pu: "request_ok ?u pkt" using p keepD(12)[OF ku] by simp
      have gs: "get_set ?u = get_set w" by (simp add: get_set_def[abs_def])
      from filllike_miss_law[OF v(3) pu, of sx way clk] v(2) tw gs sx_def obtain r md x where
        x: "filllike_miss clk P sx way pkt ?u = Some (r, pkt\<lparr>pk_pf_metadata := md\<rparr>, x)" "cache_ok K False n x" "keep ?u x" by auto
      have kx: "keep w x" by (rule keep_trans[OF ku x(3)])
      have "cache_ok K True n x" using cache_ok_apart[OF x(2)] tw(1) keepD(4)[OF kx] by simp
      with v(1) x(1) kx False miss(1) show ?thesis by (auto simp: writeback_access_def sx_def[symmetric])
    qed
  qed
qed

lemma writeback_step_law:
  assumes ok: "cache_ok K True (Suc n) w"
  shows "\<exists>r w'. writeback_step clk P w = Some (r, w') \<and> cache_ok K True n w' \<and> same_conf w w' \<and>
    writes_available_this_cycle w' = writes_available_this_cycle w - (if r then 1 else 0)"
proof (cases "queue_ready clk (WQ w)")
  case False
  with cache_ok_mono[OF ok] show ?thesis by (auto simp: writeback_step_def)
next
  case True
  note D = cache_okD[OF ok]
  note f = front_ok[OF D(9) True]
  have "dq_view (WQ w) \<noteq> []" using D(9) f(2) dq_safe_ready(1) by (auto simp: queue_ok_def)
  then have t: "takes_writes (cache_type w)" using ok by (auto simp: cache_ok_def)
  from writeback_access_law[OF ok f(1) t, of clk] obtain r x where
    x: "writeback_access clk P (dq_front (WQ w)) w = Some (r, x)" "cache_ok K True n x" "keep w x" by blast
  show ?thesis
  proof (cases r)
    case False
    with True x keepD(1,10)[OF x(3)] show ?thesis by (auto simp: writeback_step_def)
  next
    case r: True
    from pop_law[OF D(9) f(2)] obtain q where q: "dq_pop_front (WQ w) = Some q" "queue_ok n w q" "dq_view q = tl (dq_view (WQ w))" by blast
    have "queue_ok n x q" using q(2) queue_ok_conf[OF keepD(1)[OF x(3)]] by simp
    from cache_ok_WQ[OF x(2) this] t keepD(4)[OF x(3)] have "cache_ok K True n (x\<lparr>WQ := q\<rparr>)" by simp
    moreover have "x\<lparr>writes_available_this_cycle := v, WQ := q\<rparr> = x\<lparr>WQ := q\<rparr>\<lparr>writes_available_this_cycle := v\<rparr>" for v by simp
    ultimately have "cache_ok K True n (x\<lparr>writes_available_this_cycle := v, WQ := q\<rparr>)" for v
      using cache_ok_simps(5)[of K True n v "x\<lparr>WQ := q\<rparr>"] by metis
    moreover have "same_conf w (x\<lparr>writes_available_this_cycle := writes_available_this_cycle x - 1, WQ := q\<rparr>)"
      using keepD(1)[OF x(3)] by (simp add: same_conf_def)
    ultimately show ?thesis using True x(1) r q(1) keepD(3,10)[OF x(3)]
      by (intro exI[of _ True] exI[of _ "x\<lparr>writes_available_this_cycle := writes_available_this_cycle x - 1, WQ := q\<rparr>"])
        (simp add: writeback_step_def)
  qed
qed

lemma read_step_law:
  assumes ok: "cache_ok K True (Suc n) w"
  shows "\<exists>r w'. read_step clk P w = Some (r, w') \<and> cache_ok K True n w' \<and> same_conf w w' \<and>
    reads_available_this_cycle w' = reads_available_this_cycle w - (if r then 1 else 0)"
proof (cases "queue_ready clk (RQ w)")
  case False
  with cache_ok_mono[OF ok] show ?thesis by (auto simp: read_step_def)
next
  case True
  note D = cache_okD[OF ok]
  note f = front_ok[OF D(7) True]
  from read_access_law[OF ok f(1), of clk] obtain r x where
    x: "read_access clk P (dq_front (RQ w)) w = Some (r, x)" "cache_ok K True n x" "keep w x" by blast
  show ?thesis
  proof (cases r)
    case False
    with True x keepD(1,9)[OF x(3)] show ?thesis by (auto simp: read_step_def)
  next
    case r: True
    from pop_law[OF D(7) f(2)] obtain q where q: "dq_pop_front (RQ w) = Some q" "queue_ok n w q" by blast
    have "queue_ok n x q" using q(2) queue_ok_conf[OF keepD(1)[OF x(3)]] by simp
    from cache_ok_RQ[OF x(2) this] have "cache_ok K True n (x\<lparr>RQ := q\<rparr>)" .
    then have "cache_ok K True n (x\<lparr>RQ := q\<rparr>\<lparr>reads_available_this_cycle := reads_available_this_cycle x - 1\<rparr>)"
      unfolding cache_ok_simps .
    moreover have "same_conf w (x\<lparr>RQ := q, reads_available_this_cycle := reads_available_this_cycle x - 1\<rparr>)"
      using keepD(1)[OF x(3)] by (simp add: same_conf_def)
    ultimately show ?thesis using True x(1) r q(1) keepD(2,9)[OF x(3)]
      by (intro exI[of _ True] exI[of _ "x\<lparr>RQ := q, reads_available_this_cycle := reads_available_this_cycle x - 1\<rparr>"])
        (simp add: read_step_def)
  qed
qed

text \<open>A prefetcher may push into the queue while its front is handled: one more unit.\<close>

lemma prefetch_step_law:
  assumes ok: "cache_ok K True (n + 2) w"
  shows "\<exists>r w'. prefetch_step clk P w = Some (r, w') \<and> cache_ok K True n w' \<and> same_conf w w' \<and>
    reads_available_this_cycle w' = reads_available_this_cycle w - (if r then 1 else 0)"
proof (cases "queue_ready clk (PQ w)")
  case False
  with cache_ok_mono_le[OF ok] show ?thesis by (auto simp: prefetch_step_def)
next
  case True
  have ok': "cache_ok K True (Suc (Suc n)) w" using ok by simp
  note D = cache_okD[OF ok']
  note f = front_ok[OF D(8) True]
  from read_access_law[OF ok' f(1), of clk] obtain r x where
    x: "read_access clk P (dq_front (PQ w)) w = Some (r, x)" "cache_ok K True (Suc n) x" "keep w x" by blast
  show ?thesis
  proof (cases r)
    case False
    with True x keepD(1,9)[OF x(3)] cache_ok_mono[OF x(2)] show ?thesis by (auto simp: prefetch_step_def)
  next
    case r: True
    from pop_law[OF cache_okD(8)[OF x(2)] keepD(11)[OF x(3) f(2)]] obtain q where
      q: "dq_pop_front (PQ x) = Some q" "queue_ok n x q" by blast
    from cache_ok_PQ[OF cache_ok_mono[OF x(2)] q(2)] have "cache_ok K True n (x\<lparr>PQ := q\<rparr>)" .
    then have "cache_ok K True n (x\<lparr>PQ := q\<rparr>\<lparr>reads_available_this_cycle := reads_available_this_cycle x - 1\<rparr>)"
      unfolding cache_ok_simps .
    moreover have "same_conf w (x\<lparr>PQ := q, reads_available_this_cycle := reads_available_this_cycle x - 1\<rparr>)"
      using keepD(1)[OF x(3)] by (simp add: same_conf_def)
    ultimately show ?thesis using True x(1) r q(1) keepD(9)[OF x(3)]
      by (intro exI[of _ True] exI[of _ "x\<lparr>PQ := q, reads_available_this_cycle := reads_available_this_cycle x - 1\<rparr>"])
        (simp add: prefetch_step_def)
  qed
qed

end

end
