(* ===== verification/CacheOperate.thy ===== *)
theory CacheOperate
  imports CacheCycle
begin

text \<open>The laws of a whole cycle and of the calls from above, under the contract of the parts.\<close>

lemma queue_ok_operate: "queue_ok n w q \<Longrightarrow> queue_ok n w (dq_operate q)"
  using dq_safe_operate[of n q] by (simp add: queue_ok_def)

lemma view_operate: "queue_ok n w q \<Longrightarrow> dq_view (dq_operate q) = dq_view q"
  using dq_safe_operate[of n q] by (simp add: queue_ok_def)

lemma cache_ok_VAPQ:
  assumes "cache_ok K ap n w" "queue_ok n w q" "dq_view q = []"
  shows "cache_ok K ap n (w\<lparr>VAPQ := q\<rparr>)"
proof -
  have "queue_ok n (w\<lparr>VAPQ := q\<rparr>) = queue_ok n w" "mshr_ok (w\<lparr>VAPQ := q\<rparr>) = mshr_ok w"
    by (auto intro!: ext queue_ok_conf mshr_ok_conf simp: same_conf_def)
  with assms show ?thesis by (simp add: cache_ok_def conf_ok_def lines_def dirty_lines_def)
qed

lemma lines_ok_drop:
  assumes "lines_ok t sets ways ls"
  shows "lines_ok t sets ways (ls[i := None])"
proof -
  have old: "ls ! j = Some l" if "ls[i := None] ! j = Some l" "j < length ls" for j l
    using that by (cases "j = i") auto
  show ?thesis unfolding lines_ok_def length_list_update
  proof (intro conjI allI impI)
    show "length ls = sets * ways" using assms by (simp add: lines_ok_def)
  next
    fix j l assume "j < length ls" "ls[i := None] ! j = Some l"
    with assms old[of j l] show "j div ways = set_of sets (fst l)" unfolding lines_ok_def by blast
  next
    fix j k l m assume "\<not> takes_writebacks t" "j < length ls" "k < length ls" "ls[i := None] ! j = Some l"
      "ls[i := None] ! k = Some m" "fst l = fst m"
    with assms old[of j l] old[of k m] show "j = k" unfolding lines_ok_def by blast
  qed
qed

text \<open>What a cycle may take from the queues.\<close>

definition cycle_cost :: "'a cache_scheme \<Rightarrow> nat" where
  "cycle_cost w = unat (MAX_WRITE w) + 3 * unat (MAX_READ w)"

lemma same_conf_cost: "same_conf w w' \<Longrightarrow> cycle_cost w' = cycle_cost w"
  by (simp add: same_conf_def cycle_cost_def)

context cache_parts
begin

lemma handle_fill_law:
  assumes "cache_ok K True n w"
  shows "\<exists>w'. handle_fill clk P w = Some w' \<and> cache_ok K True n w' \<and> same_conf w w' \<and>
    writes_available_this_cycle w' \<le> writes_available_this_cycle w"
proof -
  define I :: "nat \<Rightarrow> ('p, 'l, 'r) world \<Rightarrow> bool" where "I m x \<longleftrightarrow> cache_ok K True m x \<and> same_conf w x" for m x
  have "\<exists>w'. budget_loop (unat (writes_available_this_cycle w)) writes_available_this_cycle (fill_step clk P) w = Some w' \<and> I n w' \<and> writes_available_this_cycle w' \<le> writes_available_this_cycle w"
  proof (rule budget_loop_law[where I = I and cost = 0])
    show "\<exists>r x'. fill_step clk P x = Some (r, x') \<and> I m x' \<and> writes_available_this_cycle x' = writes_available_this_cycle x - (if r then 1 else 0)" if "I (m + 0) x" for m x
      using that fill_step_law[of m x clk] same_conf_trans[of w x] unfolding I_def add_0_right by (elim exE conjE) blast
  qed (use assms in \<open>auto simp: I_def dest: cache_ok_mono_le\<close>)
  then show ?thesis unfolding handle_fill_def by (auto simp: I_def)
qed

lemma handle_writeback_law:
  assumes "cache_ok K True (n + unat (writes_available_this_cycle w)) w"
  shows "\<exists>w'. handle_writeback clk P w = Some w' \<and> cache_ok K True n w' \<and> same_conf w w'"
proof -
  define I :: "nat \<Rightarrow> ('p, 'l, 'r) world \<Rightarrow> bool" where "I m x \<longleftrightarrow> cache_ok K True m x \<and> same_conf w x" for m x
  have "\<exists>w'. budget_loop (unat (writes_available_this_cycle w)) writes_available_this_cycle (writeback_step clk P) w = Some w' \<and> I n w' \<and> writes_available_this_cycle w' \<le> writes_available_this_cycle w"
  proof (rule budget_loop_law[where I = I and cost = 1])
    show "\<exists>r x'. writeback_step clk P x = Some (r, x') \<and> I m x' \<and> writes_available_this_cycle x' = writes_available_this_cycle x - (if r then 1 else 0)" if "I (m + 1) x" for m x
      using that writeback_step_law[of m x clk] same_conf_trans[of w x] unfolding I_def Suc_eq_plus1 by (elim exE conjE) blast
  qed (use assms in \<open>auto simp: I_def dest: cache_ok_mono_le\<close>)
  then show ?thesis unfolding handle_writeback_def by (auto simp: I_def)
qed

lemma handle_read_law:
  assumes "cache_ok K True (n + unat (reads_available_this_cycle w)) w"
  shows "\<exists>w'. handle_read clk P w = Some w' \<and> cache_ok K True n w' \<and> same_conf w w' \<and>
    reads_available_this_cycle w' \<le> reads_available_this_cycle w"
proof -
  define I :: "nat \<Rightarrow> ('p, 'l, 'r) world \<Rightarrow> bool" where "I m x \<longleftrightarrow> cache_ok K True m x \<and> same_conf w x" for m x
  have "\<exists>w'. budget_loop (unat (reads_available_this_cycle w)) reads_available_this_cycle (read_step clk P) w = Some w' \<and> I n w' \<and> reads_available_this_cycle w' \<le> reads_available_this_cycle w"
  proof (rule budget_loop_law[where I = I and cost = 1])
    show "\<exists>r x'. read_step clk P x = Some (r, x') \<and> I m x' \<and> reads_available_this_cycle x' = reads_available_this_cycle x - (if r then 1 else 0)" if "I (m + 1) x" for m x
      using that read_step_law[of m x clk] same_conf_trans[of w x] unfolding I_def Suc_eq_plus1 by (elim exE conjE) blast
  qed (use assms in \<open>auto simp: I_def dest: cache_ok_mono_le\<close>)
  then show ?thesis unfolding handle_read_def by (auto simp: I_def)
qed

lemma handle_prefetch_law:
  assumes "cache_ok K True (n + 2 * unat (reads_available_this_cycle w)) w"
  shows "\<exists>w'. handle_prefetch clk P w = Some w' \<and> cache_ok K True n w' \<and> same_conf w w'"
proof -
  define I :: "nat \<Rightarrow> ('p, 'l, 'r) world \<Rightarrow> bool" where "I m x \<longleftrightarrow> cache_ok K True m x \<and> same_conf w x" for m x
  have "\<exists>w'. budget_loop (unat (reads_available_this_cycle w)) reads_available_this_cycle (prefetch_step clk P) w = Some w' \<and> I n w' \<and> reads_available_this_cycle w' \<le> reads_available_this_cycle w"
  proof (rule budget_loop_law[where I = I and cost = 2])
    show "\<exists>r x'. prefetch_step clk P x = Some (r, x') \<and> I m x' \<and> reads_available_this_cycle x' = reads_available_this_cycle x - (if r then 1 else 0)" if "I (m + 2) x" for m x
      using that prefetch_step_law[of m x clk] same_conf_trans[of w x] unfolding I_def by (elim exE conjE) blast
  qed (use assms in \<open>auto simp: I_def dest: cache_ok_mono_le\<close>)
  then show ?thesis unfolding handle_prefetch_def by (auto simp: I_def)
qed

lemma operate_writes_law:
  assumes ok: "cache_ok K True (n + unat (MAX_WRITE w)) w"
  shows "\<exists>w'. operate_writes clk P w = Some w' \<and> cache_ok K True n w' \<and> same_conf w w'"
proof -
  define u where "u = w\<lparr>writes_available_this_cycle := MAX_WRITE w\<rparr>"
  have u: "cache_ok K True (n + unat (MAX_WRITE w)) u" "same_conf w u" "writes_available_this_cycle u = MAX_WRITE w"
    using ok by (simp_all add: u_def) (simp add: same_conf_def)
  from handle_fill_law[OF u(1), of clk] obtain x where
    x: "handle_fill clk P u = Some x" "cache_ok K True (n + unat (MAX_WRITE w)) x" "same_conf u x"
      "writes_available_this_cycle x \<le> MAX_WRITE w" by (auto simp: u(3))
  have "cache_ok K True (n + unat (writes_available_this_cycle x)) x"
    using x(2,4) cache_ok_mono_le[of True "n + unat (writes_available_this_cycle x)" "unat (MAX_WRITE w) - unat (writes_available_this_cycle x)" x]
    by (simp add: word_le_nat_alt)
  from handle_writeback_law[OF this, of clk] obtain y where
    y: "handle_writeback clk P x = Some y" "cache_ok K True n y" "same_conf x y" by blast
  note D = cache_okD[OF y(2)]
  have "cache_ok K True n (y\<lparr>WQ := dq_operate (WQ y)\<rparr>)"
    using y(2) by (intro cache_ok_WQ queue_ok_operate D(9)) (auto simp: view_operate[OF D(9)] cache_ok_def)
  moreover have "same_conf w (y\<lparr>WQ := dq_operate (WQ y)\<rparr>)"
    using same_conf_trans[OF u(2) same_conf_trans[OF x(3) y(3)]] by (simp add: same_conf_def)
  ultimately show ?thesis using x(1) y(1) by (simp add: operate_writes_def u_def[symmetric])
qed

lemma operate_reads_law:
  assumes ok: "cache_ok K True (n + 3 * unat (MAX_READ w)) w"
  shows "\<exists>w'. operate_reads clk P w = Some w' \<and> cache_ok K True n w' \<and> same_conf w w'"
proof -
  define u where "u = w\<lparr>reads_available_this_cycle := MAX_READ w\<rparr>"
  have u: "cache_ok K True ((n + 2 * unat (MAX_READ w)) + unat (reads_available_this_cycle u)) u" "same_conf w u"
    using ok by (simp_all add: u_def ac_simps) (simp add: same_conf_def)
  from handle_read_law[OF u(1), of clk] obtain x where
    x: "handle_read clk P u = Some x" "cache_ok K True (n + 2 * unat (MAX_READ w)) x" "same_conf u x"
      "reads_available_this_cycle x \<le> MAX_READ w" by (auto simp: u_def)
  have "dq_safe (n + 2 * unat (MAX_READ w)) (VAPQ x)" "dq_view (VAPQ x) = []" using x(2) by (auto simp: cache_ok_def queue_ok_def)
  then have "\<not> dq_has_ready (VAPQ x)" using dq_safe_ready(1) by blast
  then have va: "va_translate_prefetches clk x = Some x" by (simp add: va_translate_prefetches_def)
  have "cache_ok K True (n + 2 * unat (reads_available_this_cycle x)) x"
    using x(2,4) cache_ok_mono_le[of True "n + 2 * unat (reads_available_this_cycle x)" "2 * unat (MAX_READ w) - 2 * unat (reads_available_this_cycle x)" x]
    by (simp add: word_le_nat_alt)
  from handle_prefetch_law[OF this, of clk] obtain y where
    y: "handle_prefetch clk P x = Some y" "cache_ok K True n y" "same_conf x y" by blast
  note D = cache_okD[OF y(2)]
  have "cache_ok K True n (y\<lparr>RQ := dq_operate (RQ y)\<rparr>)" by (rule cache_ok_RQ[OF y(2) queue_ok_operate[OF D(7)]])
  from cache_ok_PQ[OF this, of "dq_operate (PQ y)"] queue_ok_operate[OF D(8)]
  have p: "cache_ok K True n (y\<lparr>RQ := dq_operate (RQ y), PQ := dq_operate (PQ y)\<rparr>)" by (simp add: queue_ok_simps)
  have "dq_view (dq_operate (VAPQ y)) = []" using view_operate[OF D(10)] y(2) by (simp add: cache_ok_def)
  from cache_ok_VAPQ[OF p _ this] queue_ok_operate[OF D(10)]
  have "cache_ok K True n (y\<lparr>RQ := dq_operate (RQ y), PQ := dq_operate (PQ y), VAPQ := dq_operate (VAPQ y)\<rparr>)"
    by (simp add: queue_ok_simps)
  moreover have "same_conf w (y\<lparr>RQ := dq_operate (RQ y), PQ := dq_operate (PQ y), VAPQ := dq_operate (VAPQ y)\<rparr>)"
    using same_conf_trans[OF u(2) same_conf_trans[OF x(3) y(3)]] by (simp add: same_conf_def)
  ultimately show ?thesis using x(1) y(1) va by (simp add: operate_reads_def u_def[symmetric])
qed

lemma cache_operate_law:
  assumes "cache_ok K True (n + cycle_cost w) w"
  shows "\<exists>w'. cache_operate clk P w = Some w' \<and> cache_ok K True n w' \<and> same_conf w w'"
proof -
  from operate_writes_law[of "n + 3 * unat (MAX_READ w)" w clk] assms obtain x where
    x: "operate_writes clk P w = Some x" "cache_ok K True (n + 3 * unat (MAX_READ w)) x" "same_conf w x"
    by (auto simp: cycle_cost_def ac_simps)
  have "MAX_READ x = MAX_READ w" using x(3) by (simp add: same_conf_def)
  with operate_reads_law[of n x clk] x same_conf_trans[OF x(3)] show ?thesis by (auto simp: cache_operate_def)
qed

section \<open>Calls from above\<close>

lemma add_rq_law:
  assumes ok: "cache_ok K ap n w" and p: "request_ok w p"
  shows "\<exists>r w'. add_rq clk p w = Some (r, w') \<and> cache_ok K ap n w' \<and> same_conf w w' \<and>
    (\<exists>calls. outbox w' = outbox w @ calls \<and> answers p calls)"
proof -
  define u where "u = upd_stats (\<lambda>s. s\<lparr>RQ_ACCESS := RQ_ACCESS s + 1\<rparr>) w"
  have u: "cache_ok K ap n u" "same_conf w u" "outbox u = outbox w" "request_ok u p"
    using ok p request_ok_conf[of w u p] by (simp_all add: u_def) (simp_all add: upd_stats_def same_conf_def)
  have a: "pk_address p \<noteq> 0" using p by (simp add: request_ok_def sound_request_def)
  note D = cache_okD[OF u(1)]
  have R: "?thesis" if "add_rq clk p w = Some (r, f (u\<lparr>RQ := q\<rparr>))" "queue_ok n u q" "f = upd_stats g" for r f g q
    using that cache_ok_RQ[OF u(1) that(2)] u
    by (intro exI[of _ r] exI[of _ "f (u\<lparr>RQ := q\<rparr>)"]) (simp, simp add: upd_stats_def same_conf_def)
  show ?thesis
  proof (cases "find_wq p u")
    case (Some k)
    from forward_law[OF u(1,4), of clk k] obtain r w' where w': "forward_wq clk p k u = Some (r, w')" "cache_ok K ap n w'" "keep u w'"
      "\<exists>calls. outbox w' = outbox u @ calls \<and> answers p calls" by blast
    with a Some u same_conf_trans[OF u(2) keepD(1)[OF w'(3)]] show ?thesis by (simp add: add_rq_def u_def[symmetric])
  next
    case None
    show ?thesis
    proof (cases "dq_find (eq_addr_packet (pk_address p)) (RQ u)")
      case (Some k)
      have "dq_view (RQ u) ! k \<in> set (dq_view (RQ u))" using dq_find_SomeD(1)[OF _ Some] D(7) by (auto simp: queue_ok_def)
      then have "request_ok u (dq_view (RQ u) ! k)" using D(7) by (simp add: queue_ok_def)
      then have "request_ok u (merge_into_rq p (dq_view (RQ u) ! k))"
        using u(4) by (auto simp: request_ok_def sound_request_def merge_into_rq_def)
      note m = modify_law[where f = "merge_into_rq p", OF D(7) Some this]
      show ?thesis by (rule R[OF _ m(1), of 1 "upd_stats (\<lambda>s. s\<lparr>RQ_MERGED := RQ_MERGED s + 1\<rparr>)"])
          (use a None Some in \<open>simp_all add: add_rq_def u_def[symmetric]\<close>)
    next
      case no: None
      show ?thesis
      proof (cases "dq_full (RQ u)")
        case True
        with a None no u show ?thesis by (simp add: add_rq_def u_def[symmetric]) (simp add: upd_stats_def same_conf_def)
      next
        case False
        from push_timed_law[OF D(7) False u(4), of clk u] obtain q where q: "push_timed clk u p (RQ u) = Some q" "queue_ok n u q" by blast
        show ?thesis by (rule R[OF _ q(2), of "- 1" "upd_stats (\<lambda>s. s\<lparr>RQ_TO_CACHE := RQ_TO_CACHE s + 1\<rparr>)"])
            (use a None no False q in \<open>simp_all add: add_rq_def u_def[symmetric]\<close>)
      qed
    qed
  qed
qed

lemma add_wq_law:
  assumes ok: "cache_ok K ap n w" and p: "request_ok w p" and t: "takes_writes (cache_type w)"
  shows "\<exists>r w'. add_wq clk p w = Some (r, w') \<and> cache_ok K ap n w' \<and> same_conf w w' \<and> outbox w' = outbox w"
proof -
  define u where "u = upd_stats (\<lambda>s. s\<lparr>WQ_ACCESS := WQ_ACCESS s + 1\<rparr>) w"
  have u: "cache_ok K ap n u" "same_conf w u" "outbox u = outbox w" "request_ok u p" "cache_type u = cache_type w"
    using ok p request_ok_conf[of w u p] by (simp_all add: u_def) (simp_all add: upd_stats_def same_conf_def)
  note D = cache_okD[OF u(1)]
  show ?thesis
  proof (cases "find_wq p u")
    case (Some k)
    with u show ?thesis by (simp add: add_wq_def u_def[symmetric]) (simp add: upd_stats_def same_conf_def)
  next
    case None
    show ?thesis
    proof (cases "dq_full (WQ u)")
      case True
      with None u show ?thesis by (simp add: add_wq_def u_def[symmetric]) (simp add: upd_stats_def same_conf_def)
    next
      case False
      from push_timed_law[OF D(9) False u(4), of clk u] obtain q where q: "push_timed clk u p (WQ u) = Some q" "queue_ok n u q" by blast
      from cache_ok_WQ[OF u(1) q(2)] t u(5) have "cache_ok K ap n (u\<lparr>WQ := q\<rparr>)" by simp
      with None False q(1) u show ?thesis
        by (simp add: add_wq_def u_def[symmetric]) (simp add: upd_stats_def same_conf_def)
    qed
  qed
qed

lemma invalidate_law:
  assumes ok: "cache_ok K ap n w"
  shows "cache_ok K ap n (snd (invalidate_entry a w))" "same_conf w (snd (invalidate_entry a w))"
    "outbox (snd (invalidate_entry a w)) = outbox w"
proof -
  note D = cache_okD[OF ok]
  define f where "f = (\<lambda>b. b\<lparr>blk_valid := 0 :: u8\<rparr> :: block)"
  have u: "cache_ok K ap n (upd_block i f w)" for i
  proof -
    have ls: "lines (upd_block i f w) = (lines w)[i := None]"
      by (simp add: lines_def upd_block_def map_update f_def line_of_def)
    have sub: "Some l \<in> set (lines (upd_block i f w)) \<Longrightarrow> Some l \<in> set (lines w)" for l
      unfolding ls using set_update_subset_insert[of "lines w" i None] by auto
    have "dirty_lines (upd_block i f w) = dirty_lines w" by (rule dirty_upd_block) (simp add: f_def)
    moreover have "lines_ok (cache_type w) (NUM_SET w) (NUM_WAY w) (lines (upd_block i f w))"
      unfolding ls by (rule lines_ok_drop[OF D(4)])
    moreover have "apart (lines w) ms \<Longrightarrow> apart (lines (upd_block i f w)) ms" for ms using sub unfolding apart_def by blast
    moreover have "good_data g (lines w) ms \<Longrightarrow> good_data g (lines (upd_block i f w)) ms" for g ms using sub unfolding good_data_def by blast
    moreover have "mshr_ok (upd_block i f w) = mshr_ok w" "queue_ok m (upd_block i f w) = queue_ok m w" for m
      by (simp_all add: upd_block_def queue_ok_more)
    moreover have "conf_ok (upd_block i f w) = conf_ok w" by (simp add: upd_block_def conf_ok_def)
    moreover have "this_ptr (upd_block i f w) = this_ptr w" "NUM_SET (upd_block i f w) = NUM_SET w" "NUM_WAY (upd_block i f w) = NUM_WAY w"
      "cache_type (upd_block i f w) = cache_type w" "MSHR (upd_block i f w) = MSHR w" "RQ (upd_block i f w) = RQ w"
      "PQ (upd_block i f w) = PQ w" "WQ (upd_block i f w) = WQ w" "VAPQ (upd_block i f w) = VAPQ w"
      "vmem_state (upd_block i f w) = vmem_state w" "lower_level (upd_block i f w) = lower_level w" "repl (upd_block i f w) = repl w"
      by (simp_all add: upd_block_def)
    ultimately show ?thesis using ok D(2,3) by (simp add: cache_ok_def)
  qed
  then show "cache_ok K ap n (snd (invalidate_entry a w))" using ok by (simp add: invalidate_entry_def Let_def f_def)
  show "same_conf w (snd (invalidate_entry a w))" "outbox (snd (invalidate_entry a w)) = outbox w"
    by (simp_all add: invalidate_entry_def Let_def upd_block_def same_conf_def)
qed

end

end
