(* ===== verification/DramController.thy ===== *)
theory DramController
  imports MemoryInterface Vmem
begin

text \<open>
  The memory controller of \<^verbatim>\<open>inc/dram_controller.h\<close> and \<^verbatim>\<open>src/dram_controller.cc\<close> with the queue it uses
  (\<^verbatim>\<open>PACKET_QUEUE\<close> of \<^verbatim>\<open>inc/block.h\<close>, \<^verbatim>\<open>remove_queue\<close> of \<^verbatim>\<open>src/block.cc\<close>): the address map, the two request
  queues of a channel, the first-ready scheduler, the data bus and the switch between reads and writes. The sizes that
  \<^verbatim>\<open>config.sh\<close> writes are fields of the state. Arrays over channels and banks are functions. A failed assertion is \<open>None\<close>.
\<close>

section \<open>The state\<close>

record dram_queue =
  q_SIZE :: nat
  q_is_WQ :: bool
  q_head :: nat
  q_tail :: nat
  q_occupancy :: u32
  q_next_schedule_index :: nat
  q_next_process_index :: nat
  q_next_schedule_cycle :: u64
  q_next_process_cycle :: u64
  q_ACCESS :: u64
  q_FORWARD :: u64
  q_ROW_BUFFER_HIT :: u64
  q_ROW_BUFFER_MISS :: u64
  q_FULL :: u64
  q_entry :: "packet list"

record bank_request =
  b_cycle_available :: u64
  b_open_row :: u32
  b_working :: bool
  b_working_type :: u8
  b_row_buffer_hit :: bool
  b_is_write :: bool
  b_is_read :: bool
  b_request_index :: int

record memory_controller =
  DRAM_CHANNELS :: nat
  DRAM_RANKS :: nat
  DRAM_BANKS :: nat
  DRAM_COLUMNS :: nat
  DRAM_ROWS :: nat
  CPU_FREQ :: nat
  DRAM_DBUS_RETURN_TIME :: u32
  tRP :: u32
  tRCD :: u32
  tCAS :: u32
  dbus_cycle_available :: "nat \<Rightarrow> u64"
  dbus_cycle_congested :: "nat \<Rightarrow> u64"
  dbus_congested :: "nat \<Rightarrow> nat \<Rightarrow> u64"
  write_mode :: "nat \<Rightarrow> bool"
  scheduled_reads :: "nat \<Rightarrow> u32"
  scheduled_writes :: "nat \<Rightarrow> u32"
  bank_request :: "nat \<times> nat \<times> nat \<Rightarrow> bank_request"
  dram_WQ :: "nat \<Rightarrow> dram_queue"
  dram_RQ :: "nat \<Rightarrow> dram_queue"

definition empty_dram_queue :: "nat \<Rightarrow> bool \<Rightarrow> dram_queue" where
  "empty_dram_queue entries is_WQ =
     \<lparr>q_SIZE = entries, q_is_WQ = is_WQ, q_head = 0, q_tail = 0, q_occupancy = 0, q_next_schedule_index = 0,
      q_next_process_index = 0, q_next_schedule_cycle = - 1, q_next_process_cycle = - 1, q_ACCESS = 0, q_FORWARD = 0,
      q_ROW_BUFFER_HIT = 0, q_ROW_BUFFER_MISS = 0, q_FULL = 0, q_entry = replicate entries empty_packet\<rparr>"

definition idle_bank :: bank_request where
  "idle_bank = \<lparr>b_cycle_available = 0, b_open_row = - 1, b_working = False, b_working_type = 0, b_row_buffer_hit = False,
     b_is_write = False, b_is_read = False, b_request_index = - 1\<rparr>"

text \<open>The constructor, with the queue flags that \<^verbatim>\<open>src/main.cc\<close> sets.\<close>

definition memory_controller_new ::
  "nat \<Rightarrow> nat \<Rightarrow> nat \<Rightarrow> nat \<Rightarrow> nat \<Rightarrow> nat \<Rightarrow> nat \<Rightarrow> nat \<Rightarrow> u32 \<Rightarrow> u32 \<Rightarrow> u32 \<Rightarrow> u32 \<Rightarrow> memory_controller" where
  "memory_controller_new channels ranks banks columns rows wq_size rq_size freq dbus trp trcd tcas =
     \<lparr>DRAM_CHANNELS = channels, DRAM_RANKS = ranks, DRAM_BANKS = banks, DRAM_COLUMNS = columns, DRAM_ROWS = rows, CPU_FREQ = freq,
      DRAM_DBUS_RETURN_TIME = dbus, tRP = trp, tRCD = trcd, tCAS = tcas,
      dbus_cycle_available = (\<lambda>_. 0), dbus_cycle_congested = (\<lambda>_. 0), dbus_congested = (\<lambda>_ _. 0), write_mode = (\<lambda>_. False),
      scheduled_reads = (\<lambda>_. 0), scheduled_writes = (\<lambda>_. 0), bank_request = (\<lambda>_. idle_bank),
      dram_WQ = (\<lambda>_. empty_dram_queue wq_size True), dram_RQ = (\<lambda>_. empty_dram_queue rq_size False)\<rparr>"

section \<open>The address map\<close>

definition dram_field :: "nat \<Rightarrow> nat \<Rightarrow> u64 \<Rightarrow> u32" where
  "dram_field shift n address = (if lg2 n = 0 then 0 else ucast (drop_bit shift address) AND (of_nat n - 1))"

definition dram_get_channel :: "memory_controller \<Rightarrow> u64 \<Rightarrow> nat" where
  "dram_get_channel st address = unat (dram_field 0 (DRAM_CHANNELS st) address)"

definition dram_get_bank :: "memory_controller \<Rightarrow> u64 \<Rightarrow> nat" where
  "dram_get_bank st address = unat (dram_field (lg2 (DRAM_CHANNELS st)) (DRAM_BANKS st) address)"

definition dram_get_column :: "memory_controller \<Rightarrow> u64 \<Rightarrow> nat" where
  "dram_get_column st address =
     unat (dram_field (lg2 (DRAM_BANKS st) + lg2 (DRAM_CHANNELS st)) (DRAM_COLUMNS st) address)"

definition dram_get_rank :: "memory_controller \<Rightarrow> u64 \<Rightarrow> nat" where
  "dram_get_rank st address =
     unat (dram_field (lg2 (DRAM_COLUMNS st) + lg2 (DRAM_BANKS st) + lg2 (DRAM_CHANNELS st)) (DRAM_RANKS st) address)"

definition dram_get_row :: "memory_controller \<Rightarrow> u64 \<Rightarrow> u32" where
  "dram_get_row st address =
     dram_field (lg2 (DRAM_RANKS st) + lg2 (DRAM_COLUMNS st) + lg2 (DRAM_BANKS st) + lg2 (DRAM_CHANNELS st)) (DRAM_ROWS st) address"

definition bank_of :: "memory_controller \<Rightarrow> u64 \<Rightarrow> nat \<times> nat \<times> nat" where
  "bank_of st address = (dram_get_channel st address, dram_get_rank st address, dram_get_bank st address)"

section \<open>Queues\<close>

definition dram_queue_of :: "bool \<Rightarrow> nat \<Rightarrow> memory_controller \<Rightarrow> dram_queue" where
  "dram_queue_of wq ch st = (if wq then dram_WQ st ch else dram_RQ st ch)"

definition upd_queue :: "bool \<Rightarrow> nat \<Rightarrow> (dram_queue \<Rightarrow> dram_queue) \<Rightarrow> memory_controller \<Rightarrow> memory_controller" where
  "upd_queue wq ch f st =
     (if wq then st\<lparr>dram_WQ := (dram_WQ st)(ch := f (dram_WQ st ch))\<rparr> else st\<lparr>dram_RQ := (dram_RQ st)(ch := f (dram_RQ st ch))\<rparr>)"

definition upd_bank :: "nat \<times> nat \<times> nat \<Rightarrow> (bank_request \<Rightarrow> bank_request) \<Rightarrow> memory_controller \<Rightarrow> memory_controller" where
  "upd_bank b f st = st\<lparr>bank_request := (bank_request st)(b := f (bank_request st b))\<rparr>"

definition upd_entry :: "nat \<Rightarrow> (packet \<Rightarrow> packet) \<Rightarrow> dram_queue \<Rightarrow> dram_queue" where
  "upd_entry i f q = q\<lparr>q_entry := (q_entry q)[i := f (q_entry q ! i)]\<rparr>"

text \<open>
  The scan the controller makes over a queue: the entry with the least event cycle below \<open>UINT64_MAX\<close> among those that
  satisfy \<open>P\<close>, the first one of equals.
\<close>

definition scan_oldest :: "(packet \<Rightarrow> bool) \<Rightarrow> packet list \<Rightarrow> u64 \<times> nat option" where
  "scan_oldest P es =
     foldl (\<lambda>(cycle, index) i. if P (es ! i) \<and> pk_event_cycle (es ! i) < cycle then (pk_event_cycle (es ! i), Some i) else (cycle, index))
       (- 1, None) [0..<length es]"

definition or_size :: "dram_queue \<Rightarrow> nat option \<Rightarrow> nat" where
  "or_size q index = (case index of None \<Rightarrow> q_SIZE q | Some i \<Rightarrow> i)"

definition update_schedule_cycle :: "dram_queue \<Rightarrow> dram_queue" where
  "update_schedule_cycle q =
     (let (cycle, index) = scan_oldest (\<lambda>e. pk_address e \<noteq> 0 \<and> pk_scheduled e = 0) (q_entry q)
      in q\<lparr>q_next_schedule_cycle := cycle, q_next_schedule_index := or_size q index\<rparr>)"

definition update_process_cycle :: "dram_queue \<Rightarrow> dram_queue" where
  "update_process_cycle q =
     (let (cycle, index) = scan_oldest (\<lambda>e. pk_scheduled e \<noteq> 0) (q_entry q)
      in q\<lparr>q_next_process_cycle := cycle, q_next_process_index := or_size q index\<rparr>)"

definition check_dram_queue :: "dram_queue \<Rightarrow> packet \<Rightarrow> nat option" where
  "check_dram_queue q p = first_index (\<lambda>i. pk_address (q_entry q ! i) = pk_address p) (q_SIZE q)"

definition remove_queue :: "nat \<Rightarrow> dram_queue \<Rightarrow> dram_queue option" where
  "remove_queue i q =
     (if q_occupancy q = 0 \<and> q_head q = q_tail q then None
      else Some ((upd_entry i (\<lambda>_. empty_packet) q)
        \<lparr>q_occupancy := q_occupancy q - 1, q_head := (if q_head q + 1 \<ge> q_SIZE q then 0 else q_head q + 1)\<rparr>))"

section \<open>Scheduling\<close>

definition schedulable :: "memory_controller \<Rightarrow> packet \<Rightarrow> bool" where
  "schedulable st e \<longleftrightarrow> pk_scheduled e = 0 \<and> pk_address e \<noteq> 0 \<and> \<not> b_working (bank_request st (bank_of st (pk_address e)))"

definition row_open :: "memory_controller \<Rightarrow> packet \<Rightarrow> bool" where
  "row_open st e \<longleftrightarrow> b_open_row (bank_request st (bank_of st (pk_address e))) = dram_get_row st (pk_address e)"

text \<open>The choice: the oldest request to an open row, or else the oldest request to a bank that is idle.\<close>

definition pick_request :: "memory_controller \<Rightarrow> packet list \<Rightarrow> (nat \<times> bool) option" where
  "pick_request st es =
     (case snd (scan_oldest (\<lambda>e. schedulable st e \<and> row_open st e) es) of
        Some i \<Rightarrow> Some (i, True)
      | None \<Rightarrow> map_option (\<lambda>i. (i, False)) (snd (scan_oldest (schedulable st) es)))"

definition issue :: "clock \<Rightarrow> bool \<Rightarrow> nat \<Rightarrow> nat \<Rightarrow> bool \<Rightarrow> memory_controller \<Rightarrow> memory_controller" where
  "issue clk wq ch i row_buffer_hit st =
     (let q = dram_queue_of wq ch st; e = q_entry q ! i; addr = pk_address e; b = bank_of st addr;
          LATENCY = ucast (if row_buffer_hit then tCAS st else tRP st + tRCD st + tCAS st);
          until = current_core_cycle clk (pk_cpu e) + LATENCY; op_channel = dram_get_channel st addr;
          st = upd_bank b (\<lambda>r. r\<lparr>b_working := True, b_working_type := pk_type e, b_cycle_available := until, b_request_index := int i,
                 b_row_buffer_hit := row_buffer_hit, b_is_write := q_is_WQ q, b_is_read := \<not> q_is_WQ q,
                 b_open_row := dram_get_row st addr\<rparr>) st;
          st = (if q_is_WQ q then st\<lparr>scheduled_writes := (scheduled_writes st)(op_channel := scheduled_writes st op_channel + 1)\<rparr>
                else st\<lparr>scheduled_reads := (scheduled_reads st)(op_channel := scheduled_reads st op_channel + 1)\<rparr>)
      in upd_queue wq ch (\<lambda>q. update_process_cycle (update_schedule_cycle
           (upd_entry i (\<lambda>e. e\<lparr>pk_scheduled := 1, pk_event_cycle := until\<rparr>) q))) st)"

definition schedule :: "clock \<Rightarrow> bool \<Rightarrow> nat \<Rightarrow> memory_controller \<Rightarrow> memory_controller" where
  "schedule clk wq ch st =
     (case pick_request st (q_entry (dram_queue_of wq ch st)) of
        None \<Rightarrow> st
      | Some (i, hit) \<Rightarrow> issue clk wq ch i hit st)"

text \<open>A bank that is ready for another request.\<close>

definition release_bank :: "bank_request \<Rightarrow> bank_request" where
  "release_bank r = r\<lparr>b_request_index := - 1, b_row_buffer_hit := False, b_working := False, b_is_write := False, b_is_read := False\<rparr>"

definition reset_entry :: "clock \<Rightarrow> bool \<Rightarrow> nat \<Rightarrow> nat \<Rightarrow> memory_controller \<Rightarrow> memory_controller" where
  "reset_entry clk wq ch i st =
     (let e = q_entry (dram_queue_of wq ch st) ! i
      in if pk_scheduled e = 0 then st
         else let addr = pk_address e; b = bank_of st addr; r = bank_request st b; now = current_core_cycle clk (pk_cpu e);
                  row = (if b_cycle_available r - ucast (tCAS st) \<le> now then dram_get_row st addr else - 1);
                  st = (if b_is_write r then st\<lparr>scheduled_writes := (scheduled_writes st)(ch := scheduled_writes st ch - 1)\<rparr>
                        else if b_is_read r then st\<lparr>scheduled_reads := (scheduled_reads st)(ch := scheduled_reads st ch - 1)\<rparr>
                        else st);
                  st = upd_bank b (\<lambda>r. r\<lparr>b_open_row := row, b_request_index := - 1, b_row_buffer_hit := False, b_working := False,
                         b_cycle_available := now, b_is_write := False, b_is_read := b_is_read r \<and> b_is_write r\<rparr>) st
              in upd_queue wq ch (upd_entry i (\<lambda>e. e\<lparr>pk_scheduled := 0, pk_event_cycle := now\<rparr>)) st)"

definition reset_remain_requests :: "clock \<Rightarrow> bool \<Rightarrow> nat \<Rightarrow> memory_controller \<Rightarrow> memory_controller option" where
  "reset_remain_requests clk wq ch st =
     (let st = foldl (\<lambda>st i. reset_entry clk wq ch i st) st [0..<q_SIZE (dram_queue_of wq ch st)];
          st = upd_queue False ch (\<lambda>q. update_process_cycle (update_schedule_cycle q)) st;
          st = upd_queue True ch (\<lambda>q. update_process_cycle (update_schedule_cycle q)) st
      in if q_is_WQ (dram_queue_of wq ch st) then (if scheduled_writes st ch \<noteq> 0 then None else Some st)
         else (if scheduled_reads st ch \<noteq> 0 then None else Some st))"

section \<open>The data bus\<close>

definition count_row :: "bool \<Rightarrow> dram_queue \<Rightarrow> dram_queue" where
  "count_row hit q = (if hit then q\<lparr>q_ROW_BUFFER_HIT := q_ROW_BUFFER_HIT q + 1\<rparr> else q\<lparr>q_ROW_BUFFER_MISS := q_ROW_BUFFER_MISS q + 1\<rparr>)"

text \<open>The request leaves: the bank is released, a read is answered.\<close>

definition finish_request ::
  "clock \<Rightarrow> bool \<Rightarrow> nat \<Rightarrow> nat \<Rightarrow> memory_controller \<Rightarrow> ((nat \<times> packet) list \<times> memory_controller) option" where
  "finish_request clk wq ch ri st =
     (let q = dram_queue_of wq ch st; e = q_entry q ! ri; b = bank_of st (pk_address e); op_channel = dram_get_channel st (pk_address e);
          free = current_core_cycle clk (pk_cpu e) + ucast (DRAM_DBUS_RETURN_TIME st);
          st = st\<lparr>dbus_cycle_available := (dbus_cycle_available st)(op_channel := free)\<rparr>;
          e = (if q_is_WQ q then e else e\<lparr>pk_event_cycle := free\<rparr>);
          calls = (if q_is_WQ q then [] else map (\<lambda>ret. (ret, e)) (pk_to_return e));
          hit = b_row_buffer_hit (bank_request st b);
          st = upd_bank b release_bank st;
          st = (if q_is_WQ q then st\<lparr>scheduled_writes := (scheduled_writes st)(op_channel := scheduled_writes st op_channel - 1)\<rparr>
                else st\<lparr>scheduled_reads := (scheduled_reads st)(op_channel := scheduled_reads st op_channel - 1)\<rparr>)
      in map_option (\<lambda>q. (calls, upd_queue wq ch (\<lambda>_. update_process_cycle q) st)) (remove_queue ri (count_row hit q)))"

definition wait_for_bus :: "clock \<Rightarrow> packet \<Rightarrow> memory_controller \<Rightarrow> memory_controller" where
  "wait_for_bus clk e st =
     (let b = bank_of st (pk_address e); op_channel = dram_get_channel st (pk_address e);
          wt = unat (b_working_type (bank_request st b)); ot = unat (pk_type e);
          bump = (\<lambda>i j t. t(i := (t i)(j := t i j + (1 :: u64))));
          st = st\<lparr>dbus_cycle_congested := (dbus_cycle_congested st)(op_channel := dbus_cycle_congested st op_channel +
                 (dbus_cycle_available st op_channel - current_core_cycle clk (pk_cpu e)))\<rparr>;
          st = upd_bank b (\<lambda>r. r\<lparr>b_cycle_available := dbus_cycle_available st op_channel\<rparr>) st
      in st\<lparr>dbus_congested := bump wt ot (bump wt NUM_TYPES (bump NUM_TYPES ot (bump NUM_TYPES NUM_TYPES (dbus_congested st))))\<rparr>)"

definition process_request ::
  "clock \<Rightarrow> bool \<Rightarrow> nat \<Rightarrow> memory_controller \<Rightarrow> ((nat \<times> packet) list \<times> memory_controller) option" where
  "process_request clk wq ch st =
     (let q = dram_queue_of wq ch st; ri = q_next_process_index q; e = q_entry q ! ri; r = bank_request st (bank_of st (pk_address e));
          now = current_core_cycle clk (pk_cpu e)
      in if ri = q_SIZE q then None
         else if b_request_index r \<noteq> int ri then None
         else if b_cycle_available r \<le> now
              then (if dbus_cycle_available st (dram_get_channel st (pk_address e)) \<le> now then finish_request clk wq ch ri st
                    else Some ([], wait_for_bus clk e st))
              else Some ([], st))"

section \<open>The cycle\<close>

definition turn_around :: "nat \<Rightarrow> memory_controller \<Rightarrow> memory_controller" where
  "turn_around i st = st\<lparr>dbus_cycle_available := (dbus_cycle_available st)(i := dbus_cycle_available st i + of_nat (15 * CPU_FREQ st div 2000))\<rparr>"

definition switch_mode :: "clock \<Rightarrow> nat \<Rightarrow> memory_controller \<Rightarrow> memory_controller option" where
  "switch_mode clk i st =
     (let rq = q_occupancy (dram_RQ st i); wq = q_occupancy (dram_WQ st i); sz = q_SIZE (dram_WQ st i)
      in if \<not> write_mode st i \<and> (unat wq \<ge> sz * 7 div 8 \<or> (rq = 0 \<and> wq > 0))
         then map_option (turn_around i) (reset_remain_requests clk False i (st\<lparr>write_mode := (write_mode st)(i := True)\<rparr>))
         else if write_mode st i \<and> (wq = 0 \<or> (rq \<noteq> 0 \<and> unat wq < sz * 3 div 4))
         then map_option (turn_around i) (reset_remain_requests clk True i (st\<lparr>write_mode := (write_mode st)(i := False)\<rparr>))
         else Some st)"

definition schedule_due :: "clock \<Rightarrow> bool \<Rightarrow> nat \<Rightarrow> memory_controller \<Rightarrow> memory_controller" where
  "schedule_due clk wq i st =
     (let q = dram_queue_of wq i st
      in if write_mode st i = wq \<and> q_next_schedule_index q < q_SIZE q \<and>
            q_next_schedule_cycle q \<le> current_core_cycle clk (pk_cpu (q_entry q ! q_next_schedule_index q))
         then schedule clk wq i st else st)"

definition process_due ::
  "clock \<Rightarrow> bool \<Rightarrow> nat \<Rightarrow> memory_controller \<Rightarrow> ((nat \<times> packet) list \<times> memory_controller) option" where
  "process_due clk wq i st =
     (let q = dram_queue_of wq i st
      in if write_mode st i = wq \<and> q_next_process_index q < q_SIZE q \<and>
            q_next_process_cycle q \<le> current_core_cycle clk (pk_cpu (q_entry q ! q_next_process_index q))
         then process_request clk wq i st else Some ([], st))"

definition operate_channel :: "clock \<Rightarrow> nat \<Rightarrow> memory_controller \<Rightarrow> ((nat \<times> packet) list \<times> memory_controller) option" where
  "operate_channel clk i st =
     Option.bind (switch_mode clk i st) (\<lambda>st.
       Option.bind (process_due clk True i (schedule_due clk True i st)) (\<lambda>(calls, st).
         map_option (\<lambda>(more, st). (calls @ more, st)) (process_due clk False i (schedule_due clk False i st))))"

primrec operate_channels :: "clock \<Rightarrow> nat list \<Rightarrow> memory_controller \<Rightarrow> ((nat \<times> packet) list \<times> memory_controller) option" where
  "operate_channels clk [] st = Some ([], st)"
| "operate_channels clk (i # is) st =
     Option.bind (operate_channel clk i st) (\<lambda>(calls, st).
       map_option (\<lambda>(more, st). (calls @ more, st)) (operate_channels clk is st))"

definition dram_operate :: "clock \<Rightarrow> memory_controller \<Rightarrow> ((nat \<times> packet) list \<times> memory_controller) option" where
  "dram_operate clk st = operate_channels clk [0..<DRAM_CHANNELS st] st"

section \<open>Requests\<close>

text \<open>The first free entry takes the packet; without one the packet is dropped.\<close>

definition put_request :: "packet \<Rightarrow> dram_queue \<Rightarrow> dram_queue" where
  "put_request p q =
     update_schedule_cycle
       (case first_index (\<lambda>i. pk_address (q_entry q ! i) = 0) (q_SIZE q) of
          Some i \<Rightarrow> (upd_entry i (\<lambda>_. p) q)\<lparr>q_occupancy := q_occupancy q + 1\<rparr>
        | None \<Rightarrow> q)"

definition dram_add_rq :: "clock \<Rightarrow> packet \<Rightarrow> memory_controller \<Rightarrow> int \<times> (nat \<times> packet) list \<times> memory_controller" where
  "dram_add_rq clk p st =
     (if all_warmup_complete clk < NUM_CPUS then (- 1, map (\<lambda>ret. (ret, p)) (pk_to_return p), st)
      else let channel = dram_get_channel st (pk_address p)
           in case check_dram_queue (dram_WQ st channel) p of
                Some k \<Rightarrow>
                  let p = p\<lparr>pk_data := pk_data (q_entry (dram_WQ st channel) ! k)\<rparr>
                  in (- 1, map (\<lambda>ret. (ret, p)) (pk_to_return p),
                      upd_queue False channel (\<lambda>q. q\<lparr>q_ACCESS := q_ACCESS q + 1\<rparr>)
                        (upd_queue True channel (\<lambda>q. q\<lparr>q_FORWARD := q_FORWARD q + 1\<rparr>) st))
              | None \<Rightarrow>
                  (case check_dram_queue (dram_RQ st channel) p of
                     Some k \<Rightarrow> (int k, [], st)
                   | None \<Rightarrow> (- 1, [], upd_queue False channel (put_request p) st)))"

definition dram_add_wq :: "clock \<Rightarrow> packet \<Rightarrow> memory_controller \<Rightarrow> int \<times> memory_controller" where
  "dram_add_wq clk p st =
     (if all_warmup_complete clk < NUM_CPUS then (- 1, st)
      else let channel = dram_get_channel st (pk_address p)
           in case check_dram_queue (dram_WQ st channel) p of
                Some k \<Rightarrow> (int k, st)
              | None \<Rightarrow> (- 1, upd_queue True channel (put_request p) st))"

definition dram_add_pq :: "packet \<Rightarrow> memory_controller \<Rightarrow> int \<times> memory_controller" where
  "dram_add_pq p st = (- 1, st)"

definition dram_get_occupancy :: "nat \<Rightarrow> u64 \<Rightarrow> memory_controller \<Rightarrow> u32" where
  "dram_get_occupancy queue_type address st =
     (if queue_type = 1 then q_occupancy (dram_RQ st (dram_get_channel st address))
      else if queue_type = 2 then q_occupancy (dram_WQ st (dram_get_channel st address)) else 0)"

definition dram_get_size :: "nat \<Rightarrow> u64 \<Rightarrow> memory_controller \<Rightarrow> u32" where
  "dram_get_size queue_type address st =
     (if queue_type = 1 then of_nat (q_SIZE (dram_RQ st (dram_get_channel st address)))
      else if queue_type = 2 then of_nat (q_SIZE (dram_WQ st (dram_get_channel st address))) else 0)"

definition dram_increment_WQ_FULL :: "u64 \<Rightarrow> memory_controller \<Rightarrow> memory_controller" where
  "dram_increment_WQ_FULL address st = upd_queue True (dram_get_channel st address) (\<lambda>q. q\<lparr>q_FULL := q_FULL q + 1\<rparr>) st"

text \<open>The controller as the lower level of the last cache.\<close>

definition dram_consumer :: "memory_controller consumer" where
  "dram_consumer =
     \<lparr>c_add_rq = (\<lambda>clk p st. Some (dram_add_rq clk p st)),
      c_add_wq = (\<lambda>clk p st. Some (case dram_add_wq clk p st of (r, st) \<Rightarrow> (r, [], st))),
      c_add_pq = (\<lambda>clk p st. Some (case dram_add_pq p st of (r, st) \<Rightarrow> (r, [], st))),
      c_increment_WQ_FULL = dram_increment_WQ_FULL, c_get_occupancy = dram_get_occupancy, c_get_size = dram_get_size\<rparr>"

end
