(* ===== verification/DramSafety.thy ===== *)
theory DramSafety
  imports DramController
begin

text \<open>
  The invariant of the memory controller: a scheduled request owns its bank, the counters count the scheduled requests of
  each direction, and requests of one direction at a time are scheduled. Under it no assertion of the controller fails.
\<close>

section \<open>The scan\<close>

definition scan_ok :: "(packet \<Rightarrow> bool) \<Rightarrow> packet list \<Rightarrow> nat \<Rightarrow> u64 \<times> nat option \<Rightarrow> bool" where
  "scan_ok P es n r \<longleftrightarrow>
     (case r of
        (c, None) \<Rightarrow> c = - 1 \<and> (\<forall>j<n. P (es ! j) \<longrightarrow> pk_event_cycle (es ! j) = - 1)
      | (c, Some i) \<Rightarrow> i < n \<and> P (es ! i) \<and> c = pk_event_cycle (es ! i) \<and> c < - 1 \<and>
          (\<forall>j<n. P (es ! j) \<longrightarrow> c \<le> pk_event_cycle (es ! j)) \<and> (\<forall>j<i. P (es ! j) \<longrightarrow> c < pk_event_cycle (es ! j)))"

lemma scan_oldest_facts: "scan_ok P es (length es) (scan_oldest P es)"
proof -
  have top: "c < - 1 \<longleftrightarrow> c \<noteq> - 1" for c :: u64 by (simp add: word_order.not_eq_extremum)
  have "scan_ok P es n (foldl (\<lambda>(cycle, index) i. if P (es ! i) \<and> pk_event_cycle (es ! i) < cycle
      then (pk_event_cycle (es ! i), Some i) else (cycle, index)) (- 1, None) [0..<n])" for n
  proof (induction n)
    case 0
    then show ?case by (simp add: scan_ok_def)
  next
    case (Suc n)
    obtain c r where cr: "foldl (\<lambda>(cycle, index) i. if P (es ! i) \<and> pk_event_cycle (es ! i) < cycle
      then (pk_event_cycle (es ! i), Some i) else (cycle, index)) (- 1, None) [0..<n] = (c, r)" by fastforce
    have all: "(\<forall>j<Suc n. Q j) \<longleftrightarrow> Q n \<and> (\<forall>j<n. Q j)" for Q by (auto simp: less_Suc_eq)
    note IH = Suc.IH[unfolded cr]
    show ?case
    proof (cases r)
      case None
      with IH cr top show ?thesis by (auto simp: scan_ok_def all)
    next
      case (Some i)
      show ?thesis
      proof (cases "P (es ! n) \<and> pk_event_cycle (es ! n) < c")
        case True
        with IH cr Some show ?thesis by (auto simp: scan_ok_def all)
      next
        case False
        with IH cr Some show ?thesis by (auto simp: scan_ok_def all)
      qed
    qed
  qed
  then show ?thesis by (simp add: scan_oldest_def)
qed

lemma scan_SomeD:
  assumes "scan_oldest P es = (c, Some i)"
  shows "i < length es" "P (es ! i)" "c = pk_event_cycle (es ! i)" "c < - 1"
    "j < length es \<Longrightarrow> P (es ! j) \<Longrightarrow> pk_event_cycle (es ! i) \<le> pk_event_cycle (es ! j)"
    "j < i \<Longrightarrow> P (es ! j) \<Longrightarrow> pk_event_cycle (es ! i) < pk_event_cycle (es ! j)"
  using scan_oldest_facts[of P es] assms by (auto simp: scan_ok_def)

lemma scan_NoneD:
  assumes "scan_oldest P es = (c, None)"
  shows "c = - 1" "j < length es \<Longrightarrow> P (es ! j) \<Longrightarrow> pk_event_cycle (es ! j) = - 1"
  using scan_oldest_facts[of P es] assms by (auto simp: scan_ok_def)

section \<open>The invariant\<close>

definition scheduled :: "bool \<Rightarrow> nat \<Rightarrow> memory_controller \<Rightarrow> u32" where
  "scheduled wq ch st = (if wq then scheduled_writes st ch else scheduled_reads st ch)"

definition holds_bank :: "bool \<Rightarrow> nat \<Rightarrow> bank_request \<Rightarrow> bool" where
  "holds_bank wq i r \<longleftrightarrow> b_working r \<and> b_request_index r = int i \<and> b_is_write r = wq \<and> b_is_read r = (\<not> wq)"

text \<open>\<open>M ch wq\<close>: the direction \<open>wq\<close> of the channel \<open>ch\<close> may have scheduled requests.\<close>

definition entry_ok :: "(nat \<Rightarrow> bool \<Rightarrow> bool) \<Rightarrow> memory_controller \<Rightarrow> bool \<Rightarrow> nat \<Rightarrow> nat \<Rightarrow> packet \<Rightarrow> bool" where
  "entry_ok M st wq ch i e \<longleftrightarrow>
     (pk_address e = 0 \<longrightarrow> pk_scheduled e = 0 \<and> pk_to_return e = []) \<and> (pk_address e \<noteq> 0 \<longrightarrow> dram_get_channel st (pk_address e) = ch) \<and>
     (pk_scheduled e \<noteq> 0 \<longrightarrow> M ch wq \<and> holds_bank wq i (bank_request st (bank_of st (pk_address e))))"

definition how_many :: "('a \<Rightarrow> bool) \<Rightarrow> 'a list \<Rightarrow> nat" where
  "how_many P xs = length (filter P xs)"

definition next_ok :: "dram_queue \<Rightarrow> bool" where
  "next_ok q \<longleftrightarrow> q_next_process_cycle q = - 1 \<or>
     (q_next_process_index q < q_SIZE q \<and> pk_scheduled (q_entry q ! q_next_process_index q) \<noteq> 0)"

definition queue_inv :: "(nat \<Rightarrow> bool \<Rightarrow> bool) \<Rightarrow> memory_controller \<Rightarrow> bool \<Rightarrow> nat \<Rightarrow> bool" where
  "queue_inv M st wq ch \<longleftrightarrow>
     (let q = dram_queue_of wq ch st
      in length (q_entry q) = q_SIZE q \<and> q_SIZE q < 2 ^ 32 \<and> q_is_WQ q = wq \<and>
         unat (q_occupancy q) = how_many (\<lambda>e. pk_address e \<noteq> 0) (q_entry q) \<and>
         unat (scheduled wq ch st) = how_many (\<lambda>e. pk_scheduled e \<noteq> 0) (q_entry q) \<and>
         (\<forall>i<q_SIZE q. entry_ok M st wq ch i (q_entry q ! i)) \<and>
         (\<forall>i<q_SIZE q. \<forall>j<q_SIZE q. pk_address (q_entry q ! i) = pk_address (q_entry q ! j) \<longrightarrow>
            pk_address (q_entry q ! i) \<noteq> 0 \<longrightarrow> i = j))"

definition dram_inv :: "(nat \<Rightarrow> bool \<Rightarrow> bool) \<Rightarrow> memory_controller \<Rightarrow> bool" where
  "dram_inv M st \<longleftrightarrow> (\<forall>ch. \<not> (M ch True \<and> M ch False)) \<and> (\<forall>wq ch. queue_inv M st wq ch)"

definition mode_of :: "memory_controller \<Rightarrow> nat \<Rightarrow> bool \<Rightarrow> bool" where
  "mode_of st ch wq \<longleftrightarrow> write_mode st ch = wq"

definition dram_ok :: "memory_controller \<Rightarrow> bool" where
  "dram_ok st \<longleftrightarrow> dram_inv (mode_of st) st \<and> (\<forall>wq ch. next_ok (dram_queue_of wq ch st))"

text \<open>The address map of a controller is fixed.\<close>

definition same_map :: "memory_controller \<Rightarrow> memory_controller \<Rightarrow> bool" where
  "same_map st st' \<longleftrightarrow> DRAM_CHANNELS st' = DRAM_CHANNELS st \<and> DRAM_RANKS st' = DRAM_RANKS st \<and> DRAM_BANKS st' = DRAM_BANKS st \<and>
     DRAM_COLUMNS st' = DRAM_COLUMNS st \<and> DRAM_ROWS st' = DRAM_ROWS st"

lemma same_map_eq:
  assumes "same_map st st'"
  shows "dram_get_channel st' = dram_get_channel st" "bank_of st' = bank_of st"
  using assms by (auto simp: same_map_def fun_eq_iff dram_get_channel_def bank_of_def dram_get_rank_def dram_get_bank_def)

lemma how_many_update:
  "i < length xs \<Longrightarrow> how_many P (xs[i := x]) + (if P (xs ! i) then 1 else 0) = how_many P xs + (if P x then 1 else 0)"
proof (induction xs arbitrary: i)
  case (Cons y ys)
  show ?case
  proof (cases i)
    case (Suc j)
    with Cons.IH[of j] Cons.prems show ?thesis by (auto simp: how_many_def split: if_splits)
  qed (simp add: how_many_def)
qed simp

lemma how_many_pos: "i < length xs \<Longrightarrow> P (xs ! i) \<Longrightarrow> 0 < how_many P xs"
  unfolding how_many_def by (auto simp: filter_empty_conv intro: nth_mem)

lemma how_many_le: "how_many P xs \<le> length xs"
  by (simp add: how_many_def)

lemma queue_invD:
  assumes "dram_inv M st"
  shows "length (q_entry (dram_queue_of wq ch st)) = q_SIZE (dram_queue_of wq ch st)" "q_SIZE (dram_queue_of wq ch st) < 2 ^ 32"
    "q_is_WQ (dram_queue_of wq ch st) = wq"
    "unat (q_occupancy (dram_queue_of wq ch st)) = how_many (\<lambda>e. pk_address e \<noteq> 0) (q_entry (dram_queue_of wq ch st))"
    "unat (scheduled wq ch st) = how_many (\<lambda>e. pk_scheduled e \<noteq> 0) (q_entry (dram_queue_of wq ch st))"
    "i < q_SIZE (dram_queue_of wq ch st) \<Longrightarrow> entry_ok M st wq ch i (q_entry (dram_queue_of wq ch st) ! i)"
    "i < q_SIZE (dram_queue_of wq ch st) \<Longrightarrow> j < q_SIZE (dram_queue_of wq ch st) \<Longrightarrow>
      pk_address (q_entry (dram_queue_of wq ch st) ! i) = pk_address (q_entry (dram_queue_of wq ch st) ! j) \<Longrightarrow>
      pk_address (q_entry (dram_queue_of wq ch st) ! i) \<noteq> 0 \<Longrightarrow> i = j"
  using assms unfolding dram_inv_def queue_inv_def Let_def by blast+

text \<open>Two scheduled requests are never in the same bank.\<close>

lemma banks_differ:
  assumes inv: "dram_inv M st"
    and i: "i < q_SIZE (dram_queue_of wq ch st)" "pk_scheduled (q_entry (dram_queue_of wq ch st) ! i) \<noteq> 0"
    and j: "j < q_SIZE (dram_queue_of wq' ch' st)" "pk_scheduled (q_entry (dram_queue_of wq' ch' st) ! j) \<noteq> 0"
    and ne: "(wq', ch', j) \<noteq> (wq, ch, i)"
  shows "bank_of st (pk_address (q_entry (dram_queue_of wq' ch' st) ! j)) \<noteq> bank_of st (pk_address (q_entry (dram_queue_of wq ch st) ! i))"
proof
  assume eq: "bank_of st (pk_address (q_entry (dram_queue_of wq' ch' st) ! j)) = bank_of st (pk_address (q_entry (dram_queue_of wq ch st) ! i))"
  note a = queue_invD(6)[OF inv i(1)] and b = queue_invD(6)[OF inv j(1)]
  have ch: "ch' = ch" using a b i(2) j(2) eq by (auto simp: entry_ok_def bank_of_def)
  have "M ch wq" "M ch' wq'" using a b i(2) j(2) by (auto simp: entry_ok_def)
  with ch inv have wq: "wq' = wq" unfolding dram_inv_def by (metis (full_types))
  have "int i = int j" using a b i(2) j(2) eq unfolding entry_ok_def holds_bank_def by metis
  with ne ch wq show False by simp
qed

text \<open>One request changes, and its bank with it.\<close>

lemma dram_inv_change:
  assumes inv: "dram_inv M st" and i: "i < q_SIZE (dram_queue_of wq ch st)" and map: "same_map st st'"
    and q: "q_SIZE (dram_queue_of wq ch st') = q_SIZE (dram_queue_of wq ch st)" "q_is_WQ (dram_queue_of wq ch st') = wq"
      "q_entry (dram_queue_of wq ch st') = (q_entry (dram_queue_of wq ch st))[i := e']"
    and occ: "unat (q_occupancy (dram_queue_of wq ch st')) + (if pk_address (q_entry (dram_queue_of wq ch st) ! i) \<noteq> 0 then 1 else 0) =
      unat (q_occupancy (dram_queue_of wq ch st)) + (if pk_address e' \<noteq> 0 then 1 else 0)"
    and cnt: "unat (scheduled wq ch st') + (if pk_scheduled (q_entry (dram_queue_of wq ch st) ! i) \<noteq> 0 then 1 else 0) =
      unat (scheduled wq ch st) + (if pk_scheduled e' \<noteq> 0 then 1 else 0)"
    and others: "\<And>wq' ch'. (wq', ch') \<noteq> (wq, ch) \<Longrightarrow> dram_queue_of wq' ch' st' = dram_queue_of wq' ch' st \<and> scheduled wq' ch' st' = scheduled wq' ch' st"
    and e': "entry_ok M st' wq ch i e'"
    and new: "\<And>j. pk_address e' \<noteq> 0 \<Longrightarrow> j < q_SIZE (dram_queue_of wq ch st) \<Longrightarrow> j \<noteq> i \<Longrightarrow>
      pk_address (q_entry (dram_queue_of wq ch st) ! j) \<noteq> pk_address e'"
    and banks: "\<And>wq' ch' j. (wq', ch', j) \<noteq> (wq, ch, i) \<Longrightarrow> j < q_SIZE (dram_queue_of wq' ch' st) \<Longrightarrow>
      pk_scheduled (q_entry (dram_queue_of wq' ch' st) ! j) \<noteq> 0 \<Longrightarrow>
      bank_request st' (bank_of st (pk_address (q_entry (dram_queue_of wq' ch' st) ! j))) =
      bank_request st (bank_of st (pk_address (q_entry (dram_queue_of wq' ch' st) ! j)))"
  shows "dram_inv M st'"
proof -
  note m = same_map_eq[OF map]
  have keep: "entry_ok M st' wq' ch' j (q_entry (dram_queue_of wq' ch' st) ! j)"
    if "(wq', ch', j) \<noteq> (wq, ch, i)" "j < q_SIZE (dram_queue_of wq' ch' st)" for wq' ch' j
    using queue_invD(6)[OF inv that(2)] banks[OF that] unfolding entry_ok_def m by auto
  have "queue_inv M st' wq' ch'" for wq' ch'
  proof (cases "(wq', ch') = (wq, ch)")
    case False
    with others[OF False] keep queue_invD[OF inv, where wq = wq' and ch = ch'] show ?thesis
      unfolding queue_inv_def Let_def by (metis Pair_inject)
  next
    case True
    let ?q = "dram_queue_of wq ch st"
    note I = queue_invD[OF inv, where wq = wq and ch = ch]
    have len: "i < length (q_entry ?q)" using i I(1) by simp
    have "unat (q_occupancy (dram_queue_of wq ch st')) = how_many (\<lambda>e. pk_address e \<noteq> 0) (q_entry (dram_queue_of wq ch st'))"
      using how_many_update[OF len, of "\<lambda>e. pk_address e \<noteq> 0" e'] occ I(4) unfolding q(3) by simp
    moreover have "unat (scheduled wq ch st') = how_many (\<lambda>e. pk_scheduled e \<noteq> 0) (q_entry (dram_queue_of wq ch st'))"
      using how_many_update[OF len, of "\<lambda>e. pk_scheduled e \<noteq> 0" e'] cnt I(5) unfolding q(3) by simp
    moreover have "entry_ok M st' wq ch j (q_entry (dram_queue_of wq ch st') ! j)" if "j < q_SIZE ?q" for j
      using that keep[of wq ch j] e' len unfolding q(3) by (cases "j = i") auto
    moreover have "j = k" if "j < q_SIZE ?q" "k < q_SIZE ?q"
      "pk_address (q_entry (dram_queue_of wq ch st') ! j) = pk_address (q_entry (dram_queue_of wq ch st') ! k)"
      "pk_address (q_entry (dram_queue_of wq ch st') ! j) \<noteq> 0" for j k
      using that I(7)[of j k] new[of j] new[of k] len unfolding q(3) by (auto simp: nth_list_update split: if_splits)
    ultimately show ?thesis using True I(1,2) q unfolding queue_inv_def Let_def by auto
  qed
  with inv show ?thesis unfolding dram_inv_def by blast
qed

section \<open>Updates\<close>

lemma queue_upd_simps [simp]:
  "dram_queue_of wq' ch' (upd_queue wq ch f st) = (if wq' = wq \<and> ch' = ch then f (dram_queue_of wq ch st) else dram_queue_of wq' ch' st)"
  "bank_request (upd_queue wq ch f st) = bank_request st" "scheduled wq' ch' (upd_queue wq ch f st) = scheduled wq' ch' st"
  "write_mode (upd_queue wq ch f st) = write_mode st" "DRAM_CHANNELS (upd_queue wq ch f st) = DRAM_CHANNELS st"
  "same_map st (upd_queue wq ch f st')  \<longleftrightarrow> same_map st st'"
  by (auto simp: upd_queue_def dram_queue_of_def scheduled_def same_map_def)

lemma bank_upd_simps [simp]:
  "dram_queue_of wq' ch' (upd_bank b g st) = dram_queue_of wq' ch' st"
  "bank_request (upd_bank b g st) = (bank_request st)(b := g (bank_request st b))" "scheduled wq' ch' (upd_bank b g st) = scheduled wq' ch' st"
  "write_mode (upd_bank b g st) = write_mode st" "DRAM_CHANNELS (upd_bank b g st) = DRAM_CHANNELS st"
  "same_map st (upd_bank b g st')  \<longleftrightarrow> same_map st st'"
  by (auto simp: upd_bank_def dram_queue_of_def scheduled_def same_map_def)

lemma same_map_refl [simp]: "same_map st st"
  by (simp add: same_map_def)

text \<open>The counter of the direction \<open>wq\<close> of a channel.\<close>

definition set_scheduled :: "bool \<Rightarrow> nat \<Rightarrow> u32 \<Rightarrow> memory_controller \<Rightarrow> memory_controller" where
  "set_scheduled wq ch n st = (if wq then st\<lparr>scheduled_writes := (scheduled_writes st)(ch := n)\<rparr>
     else st\<lparr>scheduled_reads := (scheduled_reads st)(ch := n)\<rparr>)"

lemma set_scheduled_simps [simp]:
  "dram_queue_of wq' ch' (set_scheduled wq ch n st) = dram_queue_of wq' ch' st" "bank_request (set_scheduled wq ch n st) = bank_request st"
  "scheduled wq' ch' (set_scheduled wq ch n st) = (if wq' = wq \<and> ch' = ch then n else scheduled wq' ch' st)"
  "write_mode (set_scheduled wq ch n st) = write_mode st" "DRAM_CHANNELS (set_scheduled wq ch n st) = DRAM_CHANNELS st"
  "same_map st (set_scheduled wq ch n st')  \<longleftrightarrow> same_map st st'"
  by (auto simp: set_scheduled_def dram_queue_of_def scheduled_def same_map_def)

lemma bus_simps [simp]:
  "dram_queue_of wq' ch' (st\<lparr>dbus_cycle_available := x\<rparr>) = dram_queue_of wq' ch' st"
  "scheduled wq' ch' (st\<lparr>dbus_cycle_available := x\<rparr>) = scheduled wq' ch' st"
  "same_map st' (st\<lparr>dbus_cycle_available := x\<rparr>) \<longleftrightarrow> same_map st' st"
  "dram_queue_of wq' ch' (st\<lparr>write_mode := m\<rparr>) = dram_queue_of wq' ch' st"
  "scheduled wq' ch' (st\<lparr>write_mode := m\<rparr>) = scheduled wq' ch' st"
  "same_map st' (st\<lparr>write_mode := m\<rparr>) \<longleftrightarrow> same_map st' st"
  by (auto simp: dram_queue_of_def scheduled_def same_map_def)

lemma cycle_simps [simp]:
  "q_SIZE (update_schedule_cycle q) = q_SIZE q" "q_is_WQ (update_schedule_cycle q) = q_is_WQ q" "q_entry (update_schedule_cycle q) = q_entry q"
  "q_occupancy (update_schedule_cycle q) = q_occupancy q" "next_ok (update_schedule_cycle q) = next_ok q"
  "q_SIZE (update_process_cycle q) = q_SIZE q" "q_is_WQ (update_process_cycle q) = q_is_WQ q" "q_entry (update_process_cycle q) = q_entry q"
  "q_occupancy (update_process_cycle q) = q_occupancy q"
  by (auto simp: update_schedule_cycle_def update_process_cycle_def next_ok_def split: prod.splits)

lemma next_ok_update: "length (q_entry q) = q_SIZE q \<Longrightarrow> next_ok (update_process_cycle q)"
  using scan_SomeD(1,2)[of "\<lambda>e. pk_scheduled e \<noteq> 0" "q_entry q"] scan_NoneD(1)[of "\<lambda>e. pk_scheduled e \<noteq> 0" "q_entry q"]
  by (auto simp: update_process_cycle_def next_ok_def or_size_def split: prod.splits option.splits)

lemma entry_simps [simp]:
  "q_SIZE (upd_entry i f q) = q_SIZE q" "q_is_WQ (upd_entry i f q) = q_is_WQ q" "q_occupancy (upd_entry i f q) = q_occupancy q"
  "q_entry (upd_entry i f q) = (q_entry q)[i := f (q_entry q ! i)]"
  by (simp_all add: upd_entry_def)

text \<open>What the invariant does not look at.\<close>

lemma dram_inv_frame:
  assumes "same_map st st'" "bank_request st' = bank_request st" "\<And>wq ch. scheduled wq ch st' = scheduled wq ch st"
    and "\<And>wq ch. q_SIZE (dram_queue_of wq ch st') = q_SIZE (dram_queue_of wq ch st) \<and> q_is_WQ (dram_queue_of wq ch st') = q_is_WQ (dram_queue_of wq ch st) \<and>
      q_entry (dram_queue_of wq ch st') = q_entry (dram_queue_of wq ch st) \<and> q_occupancy (dram_queue_of wq ch st') = q_occupancy (dram_queue_of wq ch st)"
    and "dram_inv M st"
  shows "dram_inv M st'"
  using assms(5) same_map_eq[OF assms(1)] assms(2-4) unfolding dram_inv_def queue_inv_def entry_ok_def Let_def by simp

text \<open>The invariant depends on the modes only through the scheduled requests.\<close>

lemma dram_inv_modes:
  assumes "dram_inv M st" "\<And>ch. \<not> (M' ch True \<and> M' ch False)"
    and "\<And>wq ch i. i < q_SIZE (dram_queue_of wq ch st) \<Longrightarrow> pk_scheduled (q_entry (dram_queue_of wq ch st) ! i) \<noteq> 0 \<Longrightarrow> M ch wq \<Longrightarrow> M' ch wq"
  shows "dram_inv M' st"
proof -
  have "entry_ok M' st wq ch i (q_entry (dram_queue_of wq ch st) ! i)" if "i < q_SIZE (dram_queue_of wq ch st)" for wq ch i
    using queue_invD(6)[OF assms(1) that] assms(3)[OF that] by (auto simp: entry_ok_def)
  moreover have "queue_inv M st wq ch" for wq ch using assms(1) by (simp add: dram_inv_def)
  ultimately have "queue_inv M' st wq ch" for wq ch unfolding queue_inv_def Let_def by blast
  with assms(2) show ?thesis unfolding dram_inv_def by blast
qed

section \<open>Scheduling\<close>

lemma unat_succ: "unat (x :: u32) + 1 < 2 ^ 32 \<Longrightarrow> unat (x + 1) = unat x + 1"
  by (simp add: unat_plus_if_size word_size)

lemma unat_pred: "0 < unat (x :: u32) \<Longrightarrow> unat (x - 1) + 1 = unat x"
  by (metis Suc_diff_1 Suc_eq_plus1 unat_minus_one unsigned_0 less_numeral_extra(3))

lemma count_room:
  assumes "dram_inv M st" "i < q_SIZE (dram_queue_of wq ch st)" "\<not> P (q_entry (dram_queue_of wq ch st) ! i)"
  shows "how_many P (q_entry (dram_queue_of wq ch st)) + 1 < 2 ^ 32"
proof -
  let ?es = "q_entry (dram_queue_of wq ch st)"
  have len: "i < length ?es" using assms(2) queue_invD(1)[OF assms(1)] by simp
  have "how_many P ?es < length ?es" unfolding how_many_def using assms(3) len
    by (intro length_filter_less[of "?es ! i"]) auto
  then show ?thesis using queue_invD(1,2)[OF assms(1), of wq ch] by simp
qed

lemma issue_law:
  assumes inv: "dram_inv M st" and m: "M ch wq" and i: "i < q_SIZE (dram_queue_of wq ch st)"
    and e: "schedulable st (q_entry (dram_queue_of wq ch st) ! i)"
  shows "dram_inv M (issue clk wq ch i hit st) \<and> write_mode (issue clk wq ch i hit st) = write_mode st \<and>
    DRAM_CHANNELS (issue clk wq ch i hit st) = DRAM_CHANNELS st \<and>
    (\<forall>wq' ch'. next_ok (dram_queue_of wq' ch' st) \<longrightarrow> next_ok (dram_queue_of wq' ch' (issue clk wq ch i hit st)))"
proof -
  define q where "q = dram_queue_of wq ch st"
  define e where "e = q_entry q ! i"
  define b where "b = bank_of st (pk_address e)"
  note I = queue_invD[OF inv, where wq = wq and ch = ch, folded q_def]
  have sch: "pk_scheduled e = 0" "pk_address e \<noteq> 0" "\<not> b_working (bank_request st b)" using assms(4) by (simp_all add: schedulable_def e_def q_def b_def)
  have ch: "dram_get_channel st (pk_address e) = ch" using I(6)[OF i[folded q_def]] sch(2) by (simp add: entry_ok_def e_def)
  define until where "until = current_core_cycle clk (pk_cpu e) + ucast (if hit then tCAS st else tRP st + tRCD st + tCAS st)"
  define r where "r = (bank_request st b)\<lparr>b_working := True, b_working_type := pk_type e, b_cycle_available := until, b_request_index := int i,
    b_row_buffer_hit := hit, b_is_write := wq, b_is_read := \<not> wq, b_open_row := dram_get_row st (pk_address e)\<rparr>"
  define st' where "st' = upd_queue wq ch (\<lambda>q. update_process_cycle (update_schedule_cycle (upd_entry i (\<lambda>e. e\<lparr>pk_scheduled := 1, pk_event_cycle := until\<rparr>) q)))
    (set_scheduled wq ch (scheduled wq ch st + 1) (upd_bank b (\<lambda>_. r) st))"
  have "issue clk wq ch i hit st = st'"
    unfolding issue_def st'_def r_def Let_def q_def[symmetric] e_def[symmetric] b_def[symmetric] until_def[symmetric] ch
    by (simp add: I(3) set_scheduled_def scheduled_def upd_bank_def)
  moreover have "dram_inv M st'"
  proof (rule dram_inv_change[OF inv i, where e' = "e\<lparr>pk_scheduled := 1, pk_event_cycle := until\<rparr>"])
    show "same_map st st'" by (simp add: st'_def)
    have "unat (scheduled wq ch st) + 1 < 2 ^ 32"
      using count_room[OF inv i, of "\<lambda>e. pk_scheduled e \<noteq> 0"] I(5) sch(1) by (simp add: e_def q_def)
    then show "unat (scheduled wq ch st') + (if pk_scheduled (q_entry (dram_queue_of wq ch st) ! i) \<noteq> 0 then 1 else 0) =
      unat (scheduled wq ch st) + (if pk_scheduled (e\<lparr>pk_scheduled := 1, pk_event_cycle := until\<rparr>) \<noteq> 0 then 1 else 0)"
      using sch(1) by (simp add: st'_def unat_succ e_def q_def)
    show "entry_ok M st' wq ch i (e\<lparr>pk_scheduled := 1, pk_event_cycle := until\<rparr>)"
    proof -
      have "same_map st st'" by (simp add: st'_def)
      from same_map_eq[OF this] show ?thesis
        using m ch sch(2) by (simp add: entry_ok_def st'_def holds_bank_def r_def b_def)
    qed
    fix j assume "j < q_SIZE (dram_queue_of wq ch st)" "j \<noteq> i"
    then show "pk_address (q_entry (dram_queue_of wq ch st) ! j) \<noteq> pk_address (e\<lparr>pk_scheduled := 1, pk_event_cycle := until\<rparr>)"
      using I(7)[of i j] i sch(2) by (auto simp: e_def q_def)
  next
    fix wq' ch' j assume j: "j < q_SIZE (dram_queue_of wq' ch' st)" "pk_scheduled (q_entry (dram_queue_of wq' ch' st) ! j) \<noteq> 0"
    then have "b_working (bank_request st (bank_of st (pk_address (q_entry (dram_queue_of wq' ch' st) ! j))))"
      using queue_invD(6)[OF inv j(1)] by (simp add: entry_ok_def holds_bank_def)
    with sch(3) show "bank_request st' (bank_of st (pk_address (q_entry (dram_queue_of wq' ch' st) ! j))) =
      bank_request st (bank_of st (pk_address (q_entry (dram_queue_of wq' ch' st) ! j)))" by (auto simp: st'_def)
  qed (use I(3) sch(2) in \<open>auto simp: st'_def e_def q_def\<close>)
  moreover have "write_mode st' = write_mode st" "DRAM_CHANNELS st' = DRAM_CHANNELS st" by (simp_all add: st'_def)
  moreover have "next_ok (dram_queue_of wq' ch' st) \<longrightarrow> next_ok (dram_queue_of wq' ch' st')" for wq' ch'
    using I(1) by (simp add: st'_def next_ok_update q_def)
  ultimately show ?thesis by simp
qed

lemma pick_requestD:
  assumes "pick_request st es = Some (i, hit)"
  shows "i < length es" "schedulable st (es ! i)" "hit \<Longrightarrow> row_open st (es ! i)"
proof -
  obtain c r where cr: "scan_oldest (\<lambda>e. schedulable st e \<and> row_open st e) es = (c, r)" by fastforce
  obtain c' r' where cr': "scan_oldest (schedulable st) es = (c', r')" by fastforce
  show "i < length es" "schedulable st (es ! i)" "hit \<Longrightarrow> row_open st (es ! i)"
    using assms scan_SomeD(1,2)[of _ es c] scan_SomeD(1,2)[of _ es c'] cr cr'
    by (auto simp: pick_request_def split: option.splits)
qed

lemma schedule_law:
  assumes inv: "dram_inv M st" and m: "M ch wq"
  shows "dram_inv M (schedule clk wq ch st) \<and> write_mode (schedule clk wq ch st) = write_mode st \<and>
    DRAM_CHANNELS (schedule clk wq ch st) = DRAM_CHANNELS st \<and>
    (\<forall>wq' ch'. next_ok (dram_queue_of wq' ch' st) \<longrightarrow> next_ok (dram_queue_of wq' ch' (schedule clk wq ch st)))"
proof (cases "pick_request st (q_entry (dram_queue_of wq ch st))")
  case None
  with inv show ?thesis by (simp add: schedule_def)
next
  case (Some a)
  obtain i hit where a: "a = (i, hit)" by fastforce
  from pick_requestD[OF Some[unfolded a]] issue_law[OF inv m] queue_invD(1)[OF inv] Some a show ?thesis by (simp add: schedule_def)
qed

section \<open>Leaving the bank\<close>

text \<open>A scheduled request leaves its bank: its entry becomes \<open>e'\<close>, its bank \<open>r\<close>, and the counter goes down.\<close>

lemma leave_law:
  assumes inv: "dram_inv M st" and i: "i < q_SIZE (dram_queue_of wq ch st)"
    and e: "e = q_entry (dram_queue_of wq ch st) ! i" "pk_scheduled e \<noteq> 0"
    and e': "pk_scheduled e' = 0" "pk_address e' = 0 \<and> pk_to_return e' = [] \<or> pk_address e' = pk_address e"
    and map: "same_map st st'"
    and q: "q_SIZE (dram_queue_of wq ch st') = q_SIZE (dram_queue_of wq ch st)" "q_is_WQ (dram_queue_of wq ch st') = wq"
      "q_entry (dram_queue_of wq ch st') = (q_entry (dram_queue_of wq ch st))[i := e']"
    and occ: "q_occupancy (dram_queue_of wq ch st') = (if pk_address e' = 0 then q_occupancy (dram_queue_of wq ch st) - 1 else q_occupancy (dram_queue_of wq ch st))"
    and cnt: "scheduled wq ch st' = scheduled wq ch st - 1"
    and others: "\<And>wq' ch'. (wq', ch') \<noteq> (wq, ch) \<Longrightarrow> dram_queue_of wq' ch' st' = dram_queue_of wq' ch' st \<and> scheduled wq' ch' st' = scheduled wq' ch' st"
    and bank: "\<And>b. b \<noteq> bank_of st (pk_address e) \<Longrightarrow> bank_request st' b = bank_request st b"
  shows "dram_inv M st'"
proof (rule dram_inv_change[OF inv i map q])
  note I = queue_invD[OF inv, where wq = wq and ch = ch]
  have a: "pk_address e \<noteq> 0" using I(6)[OF i] e by (auto simp: entry_ok_def)
  have len: "i < length (q_entry (dram_queue_of wq ch st))" using i I(1) by simp
  have "0 < unat (scheduled wq ch st)" using how_many_pos[OF len, of "\<lambda>e. pk_scheduled e \<noteq> 0"] I(5) e by simp
  from unat_pred[OF this] show "unat (scheduled wq ch st') + (if pk_scheduled (q_entry (dram_queue_of wq ch st) ! i) \<noteq> 0 then 1 else 0) =
    unat (scheduled wq ch st) + (if pk_scheduled e' \<noteq> 0 then 1 else 0)" using e e'(1) cnt by simp
  have "0 < unat (q_occupancy (dram_queue_of wq ch st))" using how_many_pos[OF len, of "\<lambda>e. pk_address e \<noteq> 0"] I(4) a e(1) by simp
  from unat_pred[OF this] show "unat (q_occupancy (dram_queue_of wq ch st')) + (if pk_address (q_entry (dram_queue_of wq ch st) ! i) \<noteq> 0 then 1 else 0) =
    unat (q_occupancy (dram_queue_of wq ch st)) + (if pk_address e' \<noteq> 0 then 1 else 0)" using a e(1) e'(2) occ by auto
  show "entry_ok M st' wq ch i e'" using I(6)[OF i] a e e' same_map_eq[OF map] by (auto simp: entry_ok_def)
  show "pk_address (q_entry (dram_queue_of wq ch st) ! j) \<noteq> pk_address e'"
    if "pk_address e' \<noteq> 0" "j < q_SIZE (dram_queue_of wq ch st)" "j \<noteq> i" for j
    using I(7)[of i j] i that a e(1) e'(2) by auto
  show "bank_request st' (bank_of st (pk_address (q_entry (dram_queue_of wq' ch' st) ! j))) =
      bank_request st (bank_of st (pk_address (q_entry (dram_queue_of wq' ch' st) ! j)))"
    if "(wq', ch', j) \<noteq> (wq, ch, i)" "j < q_SIZE (dram_queue_of wq' ch' st)" "pk_scheduled (q_entry (dram_queue_of wq' ch' st) ! j) \<noteq> 0" for wq' ch' j
    using bank banks_differ[OF inv i e(2)[unfolded e(1)] that(2,3,1)] e(1) by simp
qed (use others in auto)

text \<open>A scheduled request knows its bank.\<close>

lemma scheduled_bank:
  assumes "dram_inv M st" "i < q_SIZE (dram_queue_of wq ch st)" "e = q_entry (dram_queue_of wq ch st) ! i" "pk_scheduled e \<noteq> 0"
  shows "pk_address e \<noteq> 0" "dram_get_channel st (pk_address e) = ch" "holds_bank wq i (bank_request st (bank_of st (pk_address e)))"
  using queue_invD(6)[OF assms(1,2)] assms(3,4) by (auto simp: entry_ok_def)

lemma reset_entry_law:
  assumes inv: "dram_inv M st" and i: "i < q_SIZE (dram_queue_of wq ch st)"
  shows "dram_inv M (reset_entry clk wq ch i st)" "write_mode (reset_entry clk wq ch i st) = write_mode st"
    "q_SIZE (dram_queue_of wq' ch' (reset_entry clk wq ch i st)) = q_SIZE (dram_queue_of wq' ch' st)"
    "pk_scheduled (q_entry (dram_queue_of wq ch (reset_entry clk wq ch i st)) ! j) \<noteq> 0 \<Longrightarrow> j < q_SIZE (dram_queue_of wq ch st) \<Longrightarrow>
      j \<noteq> i \<and> pk_scheduled (q_entry (dram_queue_of wq ch st) ! j) \<noteq> 0"
    "(wq', ch') \<noteq> (wq, ch) \<Longrightarrow> dram_queue_of wq' ch' (reset_entry clk wq ch i st) = dram_queue_of wq' ch' st"
    "DRAM_CHANNELS (reset_entry clk wq ch i st) = DRAM_CHANNELS st"
proof -
  define e where "e = q_entry (dram_queue_of wq ch st) ! i"
  define now where "now = current_core_cycle clk (pk_cpu e)"
  define e' where "e' = e\<lparr>pk_scheduled := 0, pk_event_cycle := now\<rparr>"
  define b where "b = bank_of st (pk_address e)"
  define row where "row = (if b_cycle_available (bank_request st b) - ucast (tCAS st) \<le> now then dram_get_row st (pk_address e) else - 1)"
  define g :: "bank_request \<Rightarrow> bank_request" where "g r = r\<lparr>b_open_row := row, b_request_index := - 1, b_row_buffer_hit := False, b_working := False,
    b_cycle_available := now, b_is_write := False, b_is_read := b_is_read r \<and> b_is_write r\<rparr>" for r
  define st' where "st' = upd_queue wq ch (upd_entry i (\<lambda>e. e\<lparr>pk_scheduled := 0, pk_event_cycle := now\<rparr>))
    (upd_bank b g (set_scheduled wq ch (scheduled wq ch st - 1) st))"
  note I = queue_invD[OF inv, where wq = wq and ch = ch]
  have r: "reset_entry clk wq ch i st = st'" if "pk_scheduled e \<noteq> 0"
  proof -
    note h = scheduled_bank[OF inv i e_def that]
    then have "b_is_write (bank_request st b) = wq" "b_is_read (bank_request st b) = (\<not> wq)" by (simp_all add: holds_bank_def b_def)
    with that show ?thesis unfolding reset_entry_def Let_def e_def[symmetric] now_def[symmetric] b_def[symmetric] row_def[symmetric]
      st'_def by (cases wq) (simp_all add: set_scheduled_def scheduled_def g_def[abs_def])
  qed
  have s: "reset_entry clk wq ch i st = st" if "pk_scheduled e = 0" using that by (simp add: reset_entry_def e_def)
  have inv': "dram_inv M st'" if "pk_scheduled e \<noteq> 0"
    by (rule leave_law[OF inv i e_def that, where e' = e'])
      (use I(3) scheduled_bank(1)[OF inv i e_def that] in \<open>auto simp: st'_def e'_def e_def b_def\<close>)
  have len: "i < length (q_entry (dram_queue_of wq ch st))" using I(1) i by simp
  show "dram_inv M (reset_entry clk wq ch i st)" using inv inv' r s by (cases "pk_scheduled e = 0") auto
  show "write_mode (reset_entry clk wq ch i st) = write_mode st" "DRAM_CHANNELS (reset_entry clk wq ch i st) = DRAM_CHANNELS st"
    "q_SIZE (dram_queue_of wq' ch' (reset_entry clk wq ch i st)) = q_SIZE (dram_queue_of wq' ch' st)"
    using r s by (cases "pk_scheduled e = 0"; simp add: st'_def)+
  show "(wq', ch') \<noteq> (wq, ch) \<Longrightarrow> dram_queue_of wq' ch' (reset_entry clk wq ch i st) = dram_queue_of wq' ch' st"
    using r s by (cases "pk_scheduled e = 0") (auto simp: st'_def)
  show "j \<noteq> i \<and> pk_scheduled (q_entry (dram_queue_of wq ch st) ! j) \<noteq> 0"
    if "pk_scheduled (q_entry (dram_queue_of wq ch (reset_entry clk wq ch i st)) ! j) \<noteq> 0" "j < q_SIZE (dram_queue_of wq ch st)"
    using that r s len by (cases "pk_scheduled e = 0"; cases "j = i") (auto simp: st'_def e_def)
qed

lemma reset_entries_law:
  assumes inv: "dram_inv M st" and n: "n \<le> q_SIZE (dram_queue_of wq ch st)"
  shows "dram_inv M (foldl (\<lambda>st i. reset_entry clk wq ch i st) st [0..<n]) \<and>
    write_mode (foldl (\<lambda>st i. reset_entry clk wq ch i st) st [0..<n]) = write_mode st \<and>
    DRAM_CHANNELS (foldl (\<lambda>st i. reset_entry clk wq ch i st) st [0..<n]) = DRAM_CHANNELS st \<and>
    (\<forall>wq' ch'. q_SIZE (dram_queue_of wq' ch' (foldl (\<lambda>st i. reset_entry clk wq ch i st) st [0..<n])) = q_SIZE (dram_queue_of wq' ch' st)) \<and>
    (\<forall>wq' ch'. (wq', ch') \<noteq> (wq, ch) \<longrightarrow> dram_queue_of wq' ch' (foldl (\<lambda>st i. reset_entry clk wq ch i st) st [0..<n]) = dram_queue_of wq' ch' st) \<and>
    (\<forall>j<q_SIZE (dram_queue_of wq ch st). pk_scheduled (q_entry (dram_queue_of wq ch (foldl (\<lambda>st i. reset_entry clk wq ch i st) st [0..<n])) ! j) \<noteq> 0 \<longrightarrow> n \<le> j)"
  using n
proof (induction n)
  case 0
  with inv show ?case by simp
next
  case (Suc n)
  define u where "u = foldl (\<lambda>st i. reset_entry clk wq ch i st) st [0..<n]"
  have f: "foldl (\<lambda>st i. reset_entry clk wq ch i st) st [0..<Suc n] = reset_entry clk wq ch n u" by (simp add: u_def)
  have IH: "dram_inv M u" "write_mode u = write_mode st" "DRAM_CHANNELS u = DRAM_CHANNELS st"
    "\<And>wq' ch'. q_SIZE (dram_queue_of wq' ch' u) = q_SIZE (dram_queue_of wq' ch' st)"
    "\<And>wq' ch'. (wq', ch') \<noteq> (wq, ch) \<Longrightarrow> dram_queue_of wq' ch' u = dram_queue_of wq' ch' st"
    "\<And>j. j < q_SIZE (dram_queue_of wq ch st) \<Longrightarrow> pk_scheduled (q_entry (dram_queue_of wq ch u) ! j) \<noteq> 0 \<Longrightarrow> n \<le> j"
    using Suc unfolding u_def by auto
  have n: "n < q_SIZE (dram_queue_of wq ch u)" using Suc.prems IH(4) by simp
  note L = reset_entry_law[OF IH(1) n, where clk = clk]
  have "Suc n \<le> j" if "j < q_SIZE (dram_queue_of wq ch st)" "pk_scheduled (q_entry (dram_queue_of wq ch (reset_entry clk wq ch n u)) ! j) \<noteq> 0" for j
    using L(4)[OF that(2)] that(1) IH(4) IH(6)[OF that(1)] by fastforce
  with L IH show ?case unfolding f by auto
qed

end
