(* ===== verification/DramRuns.thy ===== *)
theory DramRuns
  imports DramSafety "HOL-Library.Multiset"
begin

text \<open>
  The cycle of the memory controller and the calls from above: no assertion fails, and every requester of a read that entered
  the queue is answered exactly once.
\<close>

section \<open>What the reads in a queue owe\<close>

definition dues :: "packet \<Rightarrow> (nat \<times> u64) multiset" where
  "dues e = mset (map (\<lambda>ret. (ret, pk_address e)) (pk_to_return e))"

definition dues_of :: "bool \<Rightarrow> nat \<Rightarrow> memory_controller \<Rightarrow> (nat \<times> u64) multiset list" where
  "dues_of wq ch st = map dues (q_entry (dram_queue_of wq ch st))"

definition owed :: "memory_controller \<Rightarrow> (nat \<times> u64) multiset" where
  "owed st = (\<Sum>ch<DRAM_CHANNELS st. sum_list (dues_of False ch st))"

definition paid :: "(nat \<times> packet) list \<Rightarrow> (nat \<times> u64) multiset" where
  "paid calls = mset (map (\<lambda>(ret, p). (ret, pk_address p)) calls)"

lemma paid_simps [simp]: "paid [] = {#}" "paid (xs @ ys) = paid xs + paid ys"
  by (simp_all add: paid_def)

lemma paid_to_all: "paid (map (\<lambda>ret. (ret, p)) (pk_to_return p)) = dues p"
  by (simp add: paid_def dues_def comp_def)

lemma map_same_update: "f x = f (xs ! i) \<Longrightarrow> map f (xs[i := x]) = map f xs"
  by (cases "i < length xs") (simp_all add: map_update list_update_same_conv list_update_beyond)

lemma dues_of_simps [simp]:
  "dues_of wq' ch' (upd_bank b g st) = dues_of wq' ch' st" "dues_of wq' ch' (set_scheduled wq ch n st) = dues_of wq' ch' st"
  "dues_of wq' ch' (st\<lparr>write_mode := m\<rparr>) = dues_of wq' ch' st" "dues_of wq' ch' (st\<lparr>dbus_cycle_available := x\<rparr>) = dues_of wq' ch' st"
  by (simp_all add: dues_of_def)

lemma dues_upd_queue:
  assumes "map dues (q_entry (f (dram_queue_of wq ch st))) = map dues (q_entry (dram_queue_of wq ch st))"
  shows "dues_of wq' ch' (upd_queue wq ch f st) = dues_of wq' ch' st"
  using assms by (auto simp: dues_of_def)

lemma dues_issue: "dues_of wq' ch' (issue clk wq ch i hit st) = dues_of wq' ch' st"
  unfolding issue_def Let_def
  by (subst dues_upd_queue) (auto simp: dues_def map_same_update dues_of_def dram_queue_of_def upd_bank_def)

lemma dues_schedule: "dues_of wq' ch' (schedule clk wq ch st) = dues_of wq' ch' st"
  by (auto simp: schedule_def dues_issue split: option.splits)

lemma dues_reset_entry: "dues_of wq' ch' (reset_entry clk wq ch i st) = dues_of wq' ch' st"
  unfolding reset_entry_def Let_def
  by (cases "pk_scheduled (q_entry (dram_queue_of wq ch st) ! i) = 0")
    (simp, simp only: if_False, subst dues_upd_queue, auto simp: dues_def map_same_update dues_of_def dram_queue_of_def upd_bank_def)

lemma dues_reset_entries: "dues_of wq' ch' (foldl (\<lambda>st i. reset_entry clk wq ch i st) st is) = dues_of wq' ch' st"
  by (induction "is" arbitrary: st) (simp_all add: dues_reset_entry)

section \<open>The switch between reads and writes\<close>

text \<open>The clock has not reached \<open>UINT64_MAX\<close>, which stands for no cycle.\<close>

definition clock_ok :: "clock \<Rightarrow> bool" where
  "clock_ok clk \<longleftrightarrow> (\<forall>c. current_core_cycle clk c < - 1)"

lemma reset_law:
  assumes ok: "dram_ok st" and wq: "write_mode st i = wq"
  shows "\<exists>st'. reset_remain_requests clk wq i (st\<lparr>write_mode := (write_mode st)(i := \<not> wq)\<rparr>) = Some st' \<and> dram_ok st' \<and>
    DRAM_CHANNELS st' = DRAM_CHANNELS st \<and> (\<forall>wq ch. dues_of wq ch st' = dues_of wq ch st)"
proof -
  define s0 where "s0 = st\<lparr>write_mode := (write_mode st)(i := \<not> wq)\<rparr>"
  have inv: "dram_inv (mode_of st) st" and nx: "next_ok (dram_queue_of wq' ch' st)" for wq' ch' using ok by (simp_all add: dram_ok_def)
  have i0: "dram_inv (mode_of st) s0" by (rule dram_inv_frame[OF _ _ _ _ inv]) (simp_all add: s0_def)
  define s1 where "s1 = foldl (\<lambda>st i'. reset_entry clk wq i i' st) s0 [0..<q_SIZE (dram_queue_of wq i s0)]"
  from reset_entries_law[OF i0 order_refl, where clk = clk and wq = wq and ch = i]
  have r: "dram_inv (mode_of st) s1" "write_mode s1 = write_mode s0" "DRAM_CHANNELS s1 = DRAM_CHANNELS s0"
    "\<And>wq' ch'. q_SIZE (dram_queue_of wq' ch' s1) = q_SIZE (dram_queue_of wq' ch' s0)"
    "\<And>wq' ch'. (wq', ch') \<noteq> (wq, i) \<Longrightarrow> dram_queue_of wq' ch' s1 = dram_queue_of wq' ch' s0"
    "\<And>j. j < q_SIZE (dram_queue_of wq i s0) \<Longrightarrow> pk_scheduled (q_entry (dram_queue_of wq i s1) ! j) = 0"
    unfolding s1_def by (blast, blast, blast, blast, blast, force)
  have i1: "dram_inv (mode_of s0) s1"
  proof (rule dram_inv_modes[OF r(1)])
    show "\<not> (mode_of s0 ch True \<and> mode_of s0 ch False)" for ch by (simp add: mode_of_def)
    fix wq' ch' j assume h: "j < q_SIZE (dram_queue_of wq' ch' s1)" "pk_scheduled (q_entry (dram_queue_of wq' ch' s1) ! j) \<noteq> 0" "mode_of st ch' wq'"
    then show "mode_of s0 ch' wq'" using r(4)[of wq' ch'] r(6)[of j] wq by (cases "ch' = i") (auto simp: mode_of_def s0_def)
  qed
  define s2 where "s2 = upd_queue True i (\<lambda>q. update_process_cycle (update_schedule_cycle q)) (upd_queue False i (\<lambda>q. update_process_cycle (update_schedule_cycle q)) s1)"
  have i2: "dram_inv (mode_of s0) s2" by (rule dram_inv_frame[OF _ _ _ _ i1]) (simp_all add: s2_def)
  have n2: "next_ok (dram_queue_of wq' ch' s2)" for wq' ch'
  proof (cases "ch' = i")
    case True
    have "length (q_entry (dram_queue_of w i s1)) = q_SIZE (dram_queue_of w i s1)" for w by (rule queue_invD(1)[OF r(1)])
    then show ?thesis using True by (cases wq') (simp_all add: s2_def next_ok_update)
  next
    case False
    then show ?thesis using r(5)[of wq' ch'] nx[of wq' ch'] by (simp add: s2_def s0_def)
  qed
  have wm: "write_mode s2 = write_mode s0" using r(2) by (simp add: s2_def)
  then have ok2: "dram_ok s2" using i2 n2 by (simp add: dram_ok_def mode_of_def[abs_def])
  have "how_many (\<lambda>e. pk_scheduled e \<noteq> 0) (q_entry (dram_queue_of wq i s1)) = 0"
    using r(4,6) queue_invD(1)[OF r(1), of wq i] by (auto simp: how_many_def filter_empty_conv in_set_conv_nth)
  then have "scheduled wq i s2 = 0" using queue_invD(5)[OF r(1), of wq i] by (simp add: s2_def unat_eq_0)
  moreover have "q_is_WQ (dram_queue_of wq i s2) = wq" using queue_invD(3)[OF i2] by simp
  moreover have "reset_remain_requests clk wq i s0 = (if q_is_WQ (dram_queue_of wq i s2) then if scheduled_writes s2 i \<noteq> 0 then None else Some s2
    else if scheduled_reads s2 i \<noteq> 0 then None else Some s2)"
    by (simp only: reset_remain_requests_def Let_def s1_def[symmetric] s2_def[symmetric])
  ultimately have "reset_remain_requests clk wq i s0 = Some s2" by (simp add: scheduled_def split: if_splits)
  moreover have "dues_of wq' ch' s2 = dues_of wq' ch' st" for wq' ch'
    unfolding s2_def s1_def by (subst dues_upd_queue, simp)+ (simp add: dues_reset_entries s0_def)
  moreover have "DRAM_CHANNELS s2 = DRAM_CHANNELS st" using r(3) by (simp add: s2_def s0_def)
  ultimately show ?thesis using ok2 unfolding s0_def by blast
qed

lemma turn_around_law: "dram_ok st \<Longrightarrow> dram_ok (turn_around i st)" "DRAM_CHANNELS (turn_around i st) = DRAM_CHANNELS st"
  "dues_of wq ch (turn_around i st) = dues_of wq ch st"
  using dram_inv_frame[of st "turn_around i st" "mode_of st"]
  by (auto simp: dram_ok_def turn_around_def mode_of_def[abs_def])

lemma switch_law:
  assumes "dram_ok st"
  shows "\<exists>st'. switch_mode clk i st = Some st' \<and> dram_ok st' \<and> DRAM_CHANNELS st' = DRAM_CHANNELS st \<and> (\<forall>wq ch. dues_of wq ch st' = dues_of wq ch st)"
proof -
  have go: "\<exists>st'. map_option (turn_around i) (reset_remain_requests clk wq i (st\<lparr>write_mode := (write_mode st)(i := v)\<rparr>)) = Some st' \<and>
      dram_ok st' \<and> DRAM_CHANNELS st' = DRAM_CHANNELS st \<and> (\<forall>wq ch. dues_of wq ch st' = dues_of wq ch st)"
    if "write_mode st i = wq" "v = (\<not> wq)" for wq v
    using reset_law[OF assms that(1), of clk] that(2) turn_around_law by auto
  show ?thesis unfolding switch_mode_def Let_def using go[of False True] go[of True False] assms by (auto simp: split del: if_split split: if_split)
qed

section \<open>Scheduling and processing\<close>

lemma schedule_due_law:
  assumes "dram_ok st"
  shows "dram_ok (schedule_due clk wq i st)" "DRAM_CHANNELS (schedule_due clk wq i st) = DRAM_CHANNELS st"
    "dues_of wq' ch' (schedule_due clk wq i st) = dues_of wq' ch' st"
proof -
  have "dram_inv (mode_of st) st" using assms by (simp add: dram_ok_def)
  from schedule_law[OF this, of i wq clk] assms
  show "dram_ok (schedule_due clk wq i st)" "DRAM_CHANNELS (schedule_due clk wq i st) = DRAM_CHANNELS st"
    by (auto simp: schedule_due_def Let_def dram_ok_def mode_of_def[abs_def])
  show "dues_of wq' ch' (schedule_due clk wq i st) = dues_of wq' ch' st" by (simp add: schedule_due_def Let_def dues_schedule)
qed

lemma count_row_simps [simp]:
  "q_occupancy (count_row hit q) = q_occupancy q" "q_head (count_row hit q) = q_head q" "q_tail (count_row hit q) = q_tail q"
  "q_SIZE (count_row hit q) = q_SIZE q" "q_entry (count_row hit q) = q_entry q" "q_is_WQ (count_row hit q) = q_is_WQ q"
  by (simp_all add: count_row_def)

lemma empty_packet_simps [simp]:
  "pk_address empty_packet = 0" "pk_scheduled empty_packet = 0" "pk_to_return empty_packet = []"
  by (simp_all add: empty_packet_def)

lemma finish_law:
  assumes ok: "dram_ok st" and i: "ri < q_SIZE (dram_queue_of wq ch st)"
    and e: "e = q_entry (dram_queue_of wq ch st) ! ri" "pk_scheduled e \<noteq> 0"
  shows "\<exists>calls st'. finish_request clk wq ch ri st = Some (calls, st') \<and> dram_ok st' \<and> DRAM_CHANNELS st' = DRAM_CHANNELS st \<and>
    (\<forall>wq' ch'. dues_of wq' ch' st' = (if wq' = wq \<and> ch' = ch then (dues_of wq ch st)[ri := {#}] else dues_of wq' ch' st)) \<and>
    paid calls = (if wq then {#} else dues e)"
proof -
  have inv: "dram_inv (mode_of st) st" and nx: "\<And>wq' ch'. next_ok (dram_queue_of wq' ch' st)" using ok by (simp_all add: dram_ok_def)
  note I = queue_invD[OF inv, where wq = wq and ch = ch]
  note h = scheduled_bank[OF inv i e]
  define q where "q = dram_queue_of wq ch st"
  define b where "b = bank_of st (pk_address e)"
  define hit where "hit = b_row_buffer_hit (bank_request st b)"
  define bus where "bus = (dbus_cycle_available st)(ch := current_core_cycle clk (pk_cpu e) + ucast (DRAM_DBUS_RETURN_TIME st))"
  define q' where "q' = (upd_entry ri (\<lambda>_. empty_packet) (count_row hit q))
        \<lparr>q_occupancy := q_occupancy q - 1, q_head := (if q_head q + 1 \<ge> q_SIZE q then 0 else q_head q + 1)\<rparr>"
  define s where "s = set_scheduled wq ch (scheduled wq ch st - 1) (upd_bank b release_bank (st\<lparr>dbus_cycle_available := bus\<rparr>))"
  define st' where "st' = upd_queue wq ch (\<lambda>_. update_process_cycle q') s"
  define e' where "e' = (if wq then e else e\<lparr>pk_event_cycle := current_core_cycle clk (pk_cpu e) + ucast (DRAM_DBUS_RETURN_TIME st)\<rparr>)"
  have len: "ri < length (q_entry q)" using I(1) i by (simp add: q_def)
  have "0 < unat (q_occupancy q)" using how_many_pos[OF len, of "\<lambda>e. pk_address e \<noteq> 0"] I(4) h(1) e(1) by (simp add: q_def)
  then have occ: "q_occupancy q \<noteq> 0" by auto
  have q': "remove_queue ri (count_row hit q) = Some q'" using occ by (simp add: remove_queue_def q'_def)
  have fin: "finish_request clk wq ch ri st = Some (if wq then [] else map (\<lambda>ret. (ret, e')) (pk_to_return e'), st')"
    using q' unfolding finish_request_def Let_def q_def[symmetric] e(1)[folded q_def, symmetric] b_def[symmetric] h(2) hit_def[symmetric]
    by (simp add: I(3)[folded q_def] st'_def s_def set_scheduled_def scheduled_def upd_bank_def e'_def bus_def hit_def)
  have inv': "dram_inv (mode_of st) st'"
  proof (rule leave_law[OF inv i e, where e' = empty_packet])
    show "q_is_WQ (dram_queue_of wq ch st') = wq" using I(3) by (simp add: st'_def q'_def q_def)
    show "bank_request st' c = bank_request st c" if "c \<noteq> bank_of st (pk_address e)" for c using that by (simp add: st'_def s_def b_def)
  qed (auto simp: st'_def s_def q'_def q_def)
  have nx': "next_ok (dram_queue_of wq' ch' st')" for wq' ch'
    using nx[of wq' ch'] I(1) by (auto simp: st'_def s_def q'_def q_def intro!: next_ok_update)
  have wm: "write_mode st' = write_mode st" by (simp add: st'_def s_def)
  have "dram_ok st'" using inv' nx' by (simp add: dram_ok_def mode_of_def[abs_def] wm)
  moreover have "dues_of wq' ch' st' = (if wq' = wq \<and> ch' = ch then (dues_of wq ch st)[ri := {#}] else dues_of wq' ch' st)" for wq' ch'
    by (simp add: dues_of_def st'_def s_def q'_def q_def map_update) (simp add: dues_def)
  moreover have "paid (if wq then [] else map (\<lambda>ret. (ret, e')) (pk_to_return e')) = (if wq then {#} else dues e)"
    by (simp add: paid_to_all) (simp add: e'_def dues_def)
  moreover have "DRAM_CHANNELS st' = DRAM_CHANNELS st" by (simp add: st'_def s_def)
  ultimately show ?thesis using fin by blast
qed

lemma wait_law:
  assumes "dram_ok st" "ri < q_SIZE (dram_queue_of wq ch st)" "e = q_entry (dram_queue_of wq ch st) ! ri"
  shows "dram_ok (wait_for_bus clk e st)" "DRAM_CHANNELS (wait_for_bus clk e st) = DRAM_CHANNELS st"
    "dues_of wq' ch' (wait_for_bus clk e st) = dues_of wq' ch' st"
proof -
  let ?s = "wait_for_bus clk e st"
  have q: "dram_queue_of w c ?s = dram_queue_of w c st" "scheduled w c ?s = scheduled w c st" for w c
    by (simp_all add: wait_for_bus_def Let_def dram_queue_of_def scheduled_def upd_bank_def)
  have m: "same_map st ?s" by (simp add: wait_for_bus_def Let_def same_map_def upd_bank_def)
  have w: "write_mode ?s = write_mode st" by (simp add: wait_for_bus_def Let_def upd_bank_def)
  have b: "holds_bank w j (bank_request ?s c) = holds_bank w j (bank_request st c)" for w j c
    by (simp add: wait_for_bus_def Let_def upd_bank_def holds_bank_def)
  have "dram_inv (mode_of st) ?s" using assms(1) same_map_eq[OF m]
    unfolding dram_ok_def dram_inv_def queue_inv_def entry_ok_def Let_def q b by simp
  then show "dram_ok ?s" using assms(1) by (simp add: dram_ok_def mode_of_def[abs_def] w q)
  show "DRAM_CHANNELS ?s = DRAM_CHANNELS st" "dues_of wq' ch' ?s = dues_of wq' ch' st"
    using m by (simp_all add: same_map_def dues_of_def q)
qed

lemma process_due_law:
  assumes ok: "dram_ok st" and clk: "clock_ok clk"
  shows "\<exists>calls st'. process_due clk wq i st = Some (calls, st') \<and> dram_ok st' \<and> DRAM_CHANNELS st' = DRAM_CHANNELS st \<and>
    (\<forall>ch. ch \<noteq> i \<longrightarrow> dues_of False ch st' = dues_of False ch st) \<and>
    sum_list (dues_of False i st) = paid calls + sum_list (dues_of False i st')"
proof -
  define q where "q = dram_queue_of wq i st"
  define ri where "ri = q_next_process_index q"
  define e where "e = q_entry q ! ri"
  have inv: "dram_inv (mode_of st) st" and nx: "next_ok q" using ok by (simp_all add: dram_ok_def q_def)
  show ?thesis
  proof (cases "write_mode st i = wq \<and> ri < q_SIZE q \<and> q_next_process_cycle q \<le> current_core_cycle clk (pk_cpu e)")
    case False
    with ok show ?thesis by (auto simp: process_due_def Let_def q_def ri_def e_def)
  next
    case True
    have "q_next_process_cycle q < - 1" using True clk by (meson clock_ok_def le_less_trans)
    then have s: "pk_scheduled e \<noteq> 0" using nx by (auto simp: next_ok_def e_def ri_def)
    have ri: "ri < q_SIZE (dram_queue_of wq i st)" and e: "e = q_entry (dram_queue_of wq i st) ! ri" using True by (simp_all add: q_def e_def)
    have h: "b_request_index (bank_request st (bank_of st (pk_address e))) = int ri"
      using scheduled_bank(3)[OF inv ri e s] by (simp add: holds_bank_def)
    have pd: "process_due clk wq i st = process_request clk wq i st" using True by (simp add: process_due_def Let_def q_def ri_def e_def)
    let ?now = "current_core_cycle clk (pk_cpu e)"
    have pr: "process_request clk wq i st = (if b_cycle_available (bank_request st (bank_of st (pk_address e))) \<le> ?now
      then if dbus_cycle_available st (dram_get_channel st (pk_address e)) \<le> ?now then finish_request clk wq i ri st
           else Some ([], wait_for_bus clk e st) else Some ([], st))"
      using True h by (simp add: process_request_def Let_def q_def[symmetric] ri_def[symmetric] e_def[symmetric])
    have len: "ri < length (dues_of wq i st)" using ri queue_invD(1)[OF inv] by (simp add: dues_of_def)
    have du: "dues_of wq i st ! ri = dues e" using len by (simp add: dues_of_def e)
    from finish_law[OF ok ri e s, of clk] obtain calls st' where f: "finish_request clk wq i ri st = Some (calls, st')" "dram_ok st'"
      "DRAM_CHANNELS st' = DRAM_CHANNELS st" "paid calls = (if wq then {#} else dues e)"
      "\<And>wq' ch'. dues_of wq' ch' st' = (if wq' = wq \<and> ch' = i then (dues_of wq i st)[ri := {#}] else dues_of wq' ch' st)" by blast
    have "sum_list (xs[k := {#}]) + xs ! k = sum_list xs" if "k < length xs" for xs :: "(nat \<times> u64) multiset list" and k
      using that by (subst (2) id_take_nth_drop[OF that]) (simp add: upd_conv_take_nth_drop)
    from this[OF len] du f(4,5) have "sum_list (dues_of False i st) = paid calls + sum_list (dues_of False i st')"
      by (cases wq) (simp_all add: union_commute)
    with f wait_law[OF ok ri e, where clk = clk] ok show ?thesis unfolding pd pr by (auto simp: f(5))
  qed
qed

lemma operate_channel_law:
  assumes ok: "dram_ok st" and clk: "clock_ok clk"
  shows "\<exists>calls st'. operate_channel clk i st = Some (calls, st') \<and> dram_ok st' \<and> DRAM_CHANNELS st' = DRAM_CHANNELS st \<and>
    (\<forall>ch. ch \<noteq> i \<longrightarrow> dues_of False ch st' = dues_of False ch st) \<and>
    sum_list (dues_of False i st) = paid calls + sum_list (dues_of False i st')"
proof -
  from switch_law[OF ok, of clk i] obtain s1 where s1: "switch_mode clk i st = Some s1" "dram_ok s1" "DRAM_CHANNELS s1 = DRAM_CHANNELS st"
    "\<And>wq ch. dues_of wq ch s1 = dues_of wq ch st" by blast
  note d1 = schedule_due_law[OF s1(2), where clk = clk and wq = True and i = i]
  from process_due_law[OF d1(1) clk, of True i] obtain c2 s2 where s2: "process_due clk True i (schedule_due clk True i s1) = Some (c2, s2)"
    "dram_ok s2" "DRAM_CHANNELS s2 = DRAM_CHANNELS st" "\<And>ch. ch \<noteq> i \<Longrightarrow> dues_of False ch s2 = dues_of False ch st"
    "sum_list (dues_of False i st) = paid c2 + sum_list (dues_of False i s2)" unfolding d1(2,3) s1(3,4) by blast
  note d3 = schedule_due_law[OF s2(2), where clk = clk and wq = False and i = i]
  from process_due_law[OF d3(1) clk, of False i] obtain c4 s4 where s4: "process_due clk False i (schedule_due clk False i s2) = Some (c4, s4)"
    "dram_ok s4" "DRAM_CHANNELS s4 = DRAM_CHANNELS st" "\<And>ch. ch \<noteq> i \<Longrightarrow> dues_of False ch s4 = dues_of False ch s2"
    "sum_list (dues_of False i s2) = paid c4 + sum_list (dues_of False i s4)" unfolding d3(2,3) s2(3) by blast
  have "sum_list (dues_of False i st) = paid (c2 @ c4) + sum_list (dues_of False i s4)"
    unfolding s2(5) s4(5) by (simp add: union_assoc)
  moreover have "operate_channel clk i st = Some (c2 @ c4, s4)" using s1(1) s2(1) s4(1) by (simp add: operate_channel_def)
  moreover have "\<forall>ch. ch \<noteq> i \<longrightarrow> dues_of False ch s4 = dues_of False ch st" using s2(4) s4(4) by simp
  ultimately show ?thesis using s4(2,3) by blast
qed

lemma operate_channels_law:
  assumes "dram_ok st" "clock_ok clk" "distinct is"
  shows "\<exists>calls st'. operate_channels clk is st = Some (calls, st') \<and> dram_ok st' \<and> DRAM_CHANNELS st' = DRAM_CHANNELS st \<and>
    (\<forall>ch. ch \<notin> set is \<longrightarrow> dues_of False ch st' = dues_of False ch st) \<and>
    (\<Sum>ch\<in>set is. sum_list (dues_of False ch st)) = paid calls + (\<Sum>ch\<in>set is. sum_list (dues_of False ch st'))"
  using assms
proof (induction "is" arbitrary: st)
  case (Cons i "is")
  from operate_channel_law[OF Cons.prems(1,2), of i] obtain c1 s1 where s1: "operate_channel clk i st = Some (c1, s1)" "dram_ok s1"
    "DRAM_CHANNELS s1 = DRAM_CHANNELS st" "\<And>ch. ch \<noteq> i \<Longrightarrow> dues_of False ch s1 = dues_of False ch st"
    "sum_list (dues_of False i st) = paid c1 + sum_list (dues_of False i s1)" by blast
  from Cons.IH[OF s1(2) Cons.prems(2)] Cons.prems(3) obtain c2 s2 where s2: "operate_channels clk is s1 = Some (c2, s2)" "dram_ok s2"
    "DRAM_CHANNELS s2 = DRAM_CHANNELS st" "\<And>ch. ch \<notin> set is \<Longrightarrow> dues_of False ch s2 = dues_of False ch s1"
    "(\<Sum>ch\<in>set is. sum_list (dues_of False ch s1)) = paid c2 + (\<Sum>ch\<in>set is. sum_list (dues_of False ch s2))" using s1(3) by auto
  have i: "i \<notin> set is" using Cons.prems(3) by simp
  have "(\<Sum>ch\<in>set is. sum_list (dues_of False ch st)) = (\<Sum>ch\<in>set is. sum_list (dues_of False ch s1))"
  proof (rule sum.cong)
    fix x assume "x \<in> set is"
    with i have "x \<noteq> i" by auto
    then show "sum_list (dues_of False x st) = sum_list (dues_of False x s1)" using s1(4) by simp
  qed simp
  moreover have "dues_of False i s2 = dues_of False i s1" using s2(4)[OF i] .
  ultimately have "(\<Sum>ch\<in>set (i # is). sum_list (dues_of False ch st)) = paid (c1 @ c2) + (\<Sum>ch\<in>set (i # is). sum_list (dues_of False ch s2))"
    using i s1(5) s2(5) by (simp add: ac_simps)
  moreover have "dues_of False ch s2 = dues_of False ch st" if "ch \<notin> set (i # is)" for ch using that s1(4)[of ch] s2(4)[of ch] by simp
  ultimately show ?case using s1(1) s2(1,2,3) by simp
qed simp

end
