(* ===== verification/DramSpec.thy ===== *)
theory DramSpec
  imports DramRuns
begin

text \<open>The calls from above, runs of the memory controller, and what it guarantees.\<close>

section \<open>New requests\<close>

definition has_address :: "u64 \<Rightarrow> dram_queue \<Rightarrow> bool" where
  "has_address a q \<longleftrightarrow> (\<exists>i<q_SIZE q. pk_address (q_entry q ! i) = a)"

lemma has_address_code [code]: "has_address a q \<longleftrightarrow> list_ex (\<lambda>i. pk_address (q_entry q ! i) = a) [0..<q_SIZE q]"
  by (auto simp: has_address_def list_ex_iff)

lemma check_dram_queue_None: "check_dram_queue q p = None \<longleftrightarrow> \<not> has_address (pk_address p) q"
  by (auto simp: check_dram_queue_def first_index_None_iff has_address_def)

lemma put_request_law:
  assumes ok: "dram_ok st" and p: "pk_address p \<noteq> 0" "pk_scheduled p = 0" "dram_get_channel st (pk_address p) = ch"
    and new: "\<not> has_address (pk_address p) (dram_queue_of wq ch st)"
  shows "dram_ok (upd_queue wq ch (put_request p) st) \<and>
    sum_list (dues_of wq ch (upd_queue wq ch (put_request p) st)) =
      sum_list (dues_of wq ch st) + (if has_address 0 (dram_queue_of wq ch st) then dues p else {#})"
proof -
  define q where "q = dram_queue_of wq ch st"
  define st' where "st' = upd_queue wq ch (put_request p) st"
  have inv: "dram_inv (mode_of st) st" and nx: "\<And>wq' ch'. next_ok (dram_queue_of wq' ch' st)" using ok by (simp_all add: dram_ok_def)
  note I = queue_invD[OF inv, where wq = wq and ch = ch, folded q_def]
  have sm: "same_map st st'" and wm: "write_mode st' = write_mode st" by (simp_all add: st'_def)
  show ?thesis
  proof (cases "first_index (\<lambda>i. pk_address (q_entry q ! i) = 0) (q_SIZE q)")
    case None
    then have no: "\<not> has_address 0 q" by (simp add: first_index_None_iff has_address_def)
    have pr: "put_request p q = update_schedule_cycle q" by (simp add: put_request_def None)
    have "dram_inv (mode_of st) st'" by (rule dram_inv_frame[OF sm _ _ _ inv]) (auto simp: st'_def pr[unfolded q_def])
    then have "dram_ok st'" using nx by (simp add: dram_ok_def mode_of_def[abs_def] wm) (simp add: st'_def pr[unfolded q_def])
    moreover have "dues_of wq ch st' = dues_of wq ch st" by (simp add: st'_def dues_of_def pr[unfolded q_def])
    ultimately show ?thesis using no by (simp add: st'_def q_def)
  next
    case (Some i)
    note i = first_index_SomeD[OF Some]
    then have i': "i < q_SIZE q" "pk_address (q_entry q ! i) = 0" and yes: "has_address 0 q" by (auto simp: has_address_def)
    have len: "i < length (q_entry q)" using i'(1) I(1) by simp
    have e: "pk_scheduled (q_entry q ! i) = 0" "pk_to_return (q_entry q ! i) = []" using I(6)[OF i'(1)] i'(2) by (auto simp: entry_ok_def)
    have pr: "put_request p q = update_schedule_cycle ((upd_entry i (\<lambda>_. p) q)\<lparr>q_occupancy := q_occupancy q + 1\<rparr>)"
      by (simp add: put_request_def Some)
    have "dram_inv (mode_of st) st'"
    proof (rule dram_inv_change[OF inv i'(1)[unfolded q_def] sm, where e' = p])
      have "unat (q_occupancy q) + 1 < 2 ^ 32"
        using count_room[OF inv i'(1)[unfolded q_def], of "\<lambda>e. pk_address e \<noteq> 0"] I(4) i'(2) by (simp add: q_def)
      from unat_succ[OF this] show "unat (q_occupancy (dram_queue_of wq ch st')) + (if pk_address (q_entry (dram_queue_of wq ch st) ! i) \<noteq> 0 then 1 else 0) =
        unat (q_occupancy (dram_queue_of wq ch st)) + (if pk_address p \<noteq> 0 then 1 else 0)"
        using i'(2) p(1) by (simp add: st'_def pr[unfolded q_def] q_def)
      show "entry_ok (mode_of st) st' wq ch i p" using p same_map_eq[OF sm] by (simp add: entry_ok_def)
      show "pk_address (q_entry (dram_queue_of wq ch st) ! j) \<noteq> pk_address p" if "j < q_SIZE (dram_queue_of wq ch st)" for j
        using new that by (auto simp: has_address_def)
    qed (use e p I(3) in \<open>auto simp: st'_def pr[unfolded q_def] q_def\<close>)
    moreover have "next_ok (dram_queue_of wq' ch' st')" for wq' ch'
    proof (cases "wq' = wq \<and> ch' = ch")
      case True
      have "next_ok q" using nx by (simp add: q_def)
      then have "next_ok ((upd_entry i (\<lambda>_. p) q)\<lparr>q_occupancy := q_occupancy q + 1\<rparr>)"
        using e(1) by (cases "q_next_process_index q = i") (auto simp: next_ok_def upd_entry_def)
      then show ?thesis using True by (simp add: st'_def pr[unfolded q_def] q_def)
    qed (use nx in \<open>auto simp: st'_def\<close>)
    ultimately have "dram_ok st'" by (simp add: dram_ok_def mode_of_def[abs_def] wm)
    moreover have "dues_of wq ch st' = (dues_of wq ch st)[i := dues p]"
      by (simp add: st'_def dues_of_def pr[unfolded q_def] map_update)
    moreover have "dues_of wq ch st ! i = {#}" using len e(2) by (simp add: dues_of_def q_def dues_def)
    moreover have "sum_list (xs[k := y]) + xs ! k = sum_list xs + y" if "k < length xs" for xs :: "(nat \<times> u64) multiset list" and k y
      using that by (subst (3) id_take_nth_drop[OF that]) (simp add: upd_conv_take_nth_drop ac_simps)
    note this[of i "dues_of wq ch st" "dues p"]
    ultimately show ?thesis using yes len by (simp add: st'_def q_def dues_of_def)
  qed
qed

text \<open>A request that finds neither a write back nor a read of its block, and a free entry.\<close>

definition accepted :: "packet \<Rightarrow> memory_controller \<Rightarrow> bool" where
  "accepted p st \<longleftrightarrow>
     (let ch = dram_get_channel st (pk_address p)
      in has_address (pk_address p) (dram_WQ st ch) \<or>
         (\<not> has_address (pk_address p) (dram_RQ st ch) \<and> has_address 0 (dram_RQ st ch)))"

lemma owed_upd:
  assumes "ch < DRAM_CHANNELS st" "DRAM_CHANNELS st' = DRAM_CHANNELS st"
    and "\<And>c. c \<noteq> ch \<Longrightarrow> dues_of False c st' = dues_of False c st"
    and "sum_list (dues_of False ch st') = sum_list (dues_of False ch st) + d"
  shows "owed st' = owed st + d"
proof -
  have "(\<Sum>c\<in>{..<DRAM_CHANNELS st} - {ch}. sum_list (dues_of False c st')) = (\<Sum>c\<in>{..<DRAM_CHANNELS st} - {ch}. sum_list (dues_of False c st))"
    by (rule sum.cong) (simp_all add: assms(3))
  note rest = this
  have split: "owed s = sum_list (dues_of False ch s) + (\<Sum>c\<in>{..<DRAM_CHANNELS st} - {ch}. sum_list (dues_of False c s))"
    if "DRAM_CHANNELS s = DRAM_CHANNELS st" for s
    unfolding owed_def that using assms(1) by (intro sum.remove) simp_all
  show ?thesis unfolding split[OF assms(2)] split[OF refl] rest assms(4) by (simp only: union_assoc) (simp only: union_commute)
qed

lemma queue_of_simps: "dram_queue_of True ch st = dram_WQ st ch" "dram_queue_of False ch st = dram_RQ st ch"
  by (simp_all add: dram_queue_of_def)

lemma upd_stat_law:
  assumes "dram_ok st" "\<And>q. q_SIZE (f q) = q_SIZE q \<and> q_is_WQ (f q) = q_is_WQ q \<and> q_entry (f q) = q_entry q \<and>
    q_occupancy (f q) = q_occupancy q \<and> next_ok (f q) = next_ok q"
  shows "dram_ok (upd_queue wq ch f st)" "dues_of wq' ch' (upd_queue wq ch f st) = dues_of wq' ch' st"
proof -
  have "dram_inv (mode_of st) (upd_queue wq ch f st)"
    by (rule dram_inv_frame[of st]) (use assms in \<open>auto simp: dram_ok_def\<close>)
  then show "dram_ok (upd_queue wq ch f st)" using assms by (simp add: dram_ok_def mode_of_def[abs_def])
  show "dues_of wq' ch' (upd_queue wq ch f st) = dues_of wq' ch' st" using assms(2) by (intro dues_upd_queue) simp
qed

lemma dram_add_rq_law:
  assumes ok: "dram_ok st" and p: "sound_request p" and ch: "dram_get_channel st (pk_address p) < DRAM_CHANNELS st"
  shows "\<exists>r calls st'. dram_add_rq clk p st = (r, calls, st') \<and> dram_ok st' \<and> DRAM_CHANNELS st' = DRAM_CHANNELS st \<and> answers p calls \<and>
    owed st' + paid calls = owed st + (if all_warmup_complete clk < NUM_CPUS \<or> accepted p st then dues p else {#})"
proof -
  define c where "c = dram_get_channel st (pk_address p)"
  have p': "pk_address p \<noteq> 0" "pk_scheduled p = 0" using p by (simp_all add: sound_request_def)
  consider (warm) "all_warmup_complete clk < NUM_CPUS"
    | (fwd) k where "\<not> all_warmup_complete clk < NUM_CPUS" "check_dram_queue (dram_WQ st c) p = Some k"
    | (dup) k where "\<not> all_warmup_complete clk < NUM_CPUS" "check_dram_queue (dram_WQ st c) p = None" "check_dram_queue (dram_RQ st c) p = Some k"
    | (new) "\<not> all_warmup_complete clk < NUM_CPUS" "check_dram_queue (dram_WQ st c) p = None" "check_dram_queue (dram_RQ st c) p = None"
    by fastforce
  then show ?thesis
  proof cases
    case warm
    with ok answers_to_all[of p p] show ?thesis by (simp add: dram_add_rq_def paid_to_all)
  next
    case (fwd k)
    define q where "q = p\<lparr>pk_data := pk_data (q_entry (dram_WQ st c) ! k)\<rparr>"
    define st' where "st' = upd_queue False c (\<lambda>q. q\<lparr>q_ACCESS := q_ACCESS q + 1\<rparr>) (upd_queue True c (\<lambda>q. q\<lparr>q_FORWARD := q_FORWARD q + 1\<rparr>) st)"
    have s: "dram_ok (upd_queue wq' ch f st)" "dues_of wq ch' (upd_queue wq' ch f st) = dues_of wq ch' st"
      if "dram_ok st" "f = (\<lambda>q. q\<lparr>q_ACCESS := q_ACCESS q + 1\<rparr>) \<or> f = (\<lambda>q. q\<lparr>q_FORWARD := q_FORWARD q + 1\<rparr>)" for wq wq' ch ch' f st
      using upd_stat_law[OF that(1), of f] that(2) by (auto simp: next_ok_def)
    have st': "dram_ok st'" "owed st' = owed st" "DRAM_CHANNELS st' = DRAM_CHANNELS st" using ok s by (simp_all add: st'_def owed_def)
    have a: "accepted p st" using fwd(2) check_dram_queue_None[of "dram_WQ st c" p] by (simp add: accepted_def c_def Let_def)
    have "dram_add_rq clk p st = (- 1, map (\<lambda>ret. (ret, q)) (pk_to_return p), st')"
      using fwd by (simp add: dram_add_rq_def c_def[symmetric] q_def st'_def Let_def)
    moreover have "answers p (map (\<lambda>ret. (ret, q)) (pk_to_return p))" by (rule answers_to_all) (simp_all add: q_def)
    moreover have "paid (map (\<lambda>ret. (ret, q)) (pk_to_return p)) = dues p" using paid_to_all[of q] by (simp add: q_def dues_def)
    ultimately show ?thesis using st' a by simp
  next
    case (dup k)
    have "\<not> accepted p st" using dup(2,3) check_dram_queue_None[of "dram_WQ st c" p] check_dram_queue_None[of "dram_RQ st c" p]
      by (simp add: accepted_def c_def Let_def)
    with dup ok show ?thesis by (simp add: dram_add_rq_def c_def[symmetric] Let_def)
  next
    case new
    define st' where "st' = upd_queue False c (put_request p) st"
    from put_request_law[OF ok p' c_def[symmetric], of False] new(3) check_dram_queue_None[of "dram_RQ st c" p]
    have st': "dram_ok st'" "sum_list (dues_of False c st') = sum_list (dues_of False c st) + (if has_address 0 (dram_RQ st c) then dues p else {#})"
      by (simp_all add: st'_def queue_of_simps)
    have "owed st' = owed st + (if has_address 0 (dram_RQ st c) then dues p else {#})"
      by (rule owed_upd[OF ch[folded c_def] _ _ st'(2)]) (auto simp: st'_def dues_of_def)
    moreover have "accepted p st = has_address 0 (dram_RQ st c)"
      using new(2,3) check_dram_queue_None[of "dram_WQ st c" p] check_dram_queue_None[of "dram_RQ st c" p]
      by (simp add: accepted_def c_def Let_def)
    moreover have "dram_add_rq clk p st = (- 1, [], st')" using new by (simp add: dram_add_rq_def c_def[symmetric] st'_def Let_def)
    moreover have "DRAM_CHANNELS st' = DRAM_CHANNELS st" by (simp add: st'_def)
    ultimately show ?thesis using st'(1) new(1) by simp
  qed
qed

lemma dram_add_wq_law:
  assumes ok: "dram_ok st" and p: "sound_request p"
  shows "\<exists>r st'. dram_add_wq clk p st = (r, st') \<and> dram_ok st' \<and> DRAM_CHANNELS st' = DRAM_CHANNELS st \<and> owed st' = owed st"
proof (cases "all_warmup_complete clk < NUM_CPUS \<or> (\<exists>k. check_dram_queue (dram_WQ st (dram_get_channel st (pk_address p))) p = Some k)")
  case True
  with ok show ?thesis by (auto simp: dram_add_wq_def Let_def)
next
  case False
  define c where "c = dram_get_channel st (pk_address p)"
  have p': "pk_address p \<noteq> 0" "pk_scheduled p = 0" using p by (simp_all add: sound_request_def)
  have "\<not> has_address (pk_address p) (dram_queue_of True c st)"
    using False check_dram_queue_None[of "dram_WQ st c" p] by (auto simp: queue_of_simps c_def)
  from put_request_law[OF ok p' c_def[symmetric] this] have "dram_ok (upd_queue True c (put_request p) st)" by blast
  moreover have "dram_add_wq clk p st = (- 1, upd_queue True c (put_request p) st)"
    using False by (auto simp: dram_add_wq_def c_def Let_def split: option.splits)
  ultimately show ?thesis by (simp add: owed_def dues_of_def)
qed

lemma dram_full_law: "dram_ok st \<Longrightarrow> dram_ok (dram_increment_WQ_FULL a st)"
  using upd_stat_law(1)[of st "\<lambda>q. q\<lparr>q_FULL := q_FULL q + 1\<rparr>"] by (simp add: dram_increment_WQ_FULL_def next_ok_def)

section \<open>Runs\<close>

datatype dram_event = DramRead packet | DramWrite packet | DramPrefetch packet | DramCycle

fun dram_event_ok :: "dram_event \<Rightarrow> bool" where
  "dram_event_ok (DramRead p) \<longleftrightarrow> sound_request p"
| "dram_event_ok (DramWrite p) \<longleftrightarrow> sound_request p"
| "dram_event_ok (DramPrefetch p) \<longleftrightarrow> True"
| "dram_event_ok DramCycle \<longleftrightarrow> True"

text \<open>The number of channels is a power of two, so that every address has one.\<close>

definition channels_ok :: "memory_controller \<Rightarrow> bool" where
  "channels_ok st \<longleftrightarrow> DRAM_CHANNELS st < 2 ^ 32 \<and> DRAM_CHANNELS st = 2 ^ lg2 (DRAM_CHANNELS st)"

lemma channel_bound: "channels_ok st \<Longrightarrow> dram_get_channel st a < DRAM_CHANNELS st"
proof -
  assume ok: "channels_ok st"
  define k where "k = lg2 (DRAM_CHANNELS st)"
  have c: "DRAM_CHANNELS st = 2 ^ k" "(2 :: nat) ^ k < 2 ^ 32" using ok by (simp_all add: channels_ok_def k_def)
  have "x AND (2 ^ k - 1) = take_bit k x" for x :: u32 by (simp add: take_bit_eq_mask mask_eq_decr_exp)
  then have "unat (x AND (2 ^ k - 1)) < 2 ^ k" for x :: u32 by (simp add: unsigned_take_bit_eq)
  then show ?thesis unfolding dram_get_channel_def dram_field_def k_def[symmetric] c(1) by simp
qed

fun dram_step :: "clock \<Rightarrow> dram_event \<Rightarrow> memory_controller \<Rightarrow> ((nat \<times> packet) list \<times> memory_controller) option" where
  "dram_step clk (DramRead p) st = Some (snd (dram_add_rq clk p st))"
| "dram_step clk (DramWrite p) st = Some ([], snd (dram_add_wq clk p st))"
| "dram_step clk (DramPrefetch p) st = Some ([], snd (dram_add_pq p st))"
| "dram_step clk DramCycle st = dram_operate clk st"

primrec dram_run :: "(clock \<times> dram_event) list \<Rightarrow> memory_controller \<Rightarrow> ((nat \<times> packet) list \<times> memory_controller) option" where
  "dram_run [] st = Some ([], st)"
| "dram_run (e # es) st =
     Option.bind (dram_step (fst e) (snd e) st) (\<lambda>(calls, st). map_option (\<lambda>(more, st). (calls @ more, st)) (dram_run es st))"

text \<open>What a read asks for, if the controller takes it: before the end of the warmup all of them, later those with a free entry.\<close>

fun asked :: "clock \<Rightarrow> dram_event \<Rightarrow> memory_controller \<Rightarrow> (nat \<times> u64) multiset" where
  "asked clk (DramRead p) st = (if all_warmup_complete clk < NUM_CPUS \<or> accepted p st then dues p else {#})"
| "asked clk _ st = {#}"

lemma dram_operate_law:
  assumes "dram_ok st" "clock_ok clk"
  shows "\<exists>calls st'. dram_operate clk st = Some (calls, st') \<and> dram_ok st' \<and> DRAM_CHANNELS st' = DRAM_CHANNELS st \<and> owed st = paid calls + owed st'"
  using operate_channels_law[OF assms, of "[0..<DRAM_CHANNELS st]"] by (auto simp: dram_operate_def owed_def atLeast0LessThan)

lemma dram_step_law:
  assumes "dram_ok st" "clock_ok clk" "dram_event_ok ev" "channels_ok st"
  shows "\<exists>calls st'. dram_step clk ev st = Some (calls, st') \<and> dram_ok st' \<and> DRAM_CHANNELS st' = DRAM_CHANNELS st \<and>
    owed st + asked clk ev st = paid calls + owed st'"
proof (cases ev)
  case (DramRead p)
  with assms(3) channel_bound[OF assms(4), of "pk_address p"] obtain r calls st' where "dram_add_rq clk p st = (r, calls, st')" "dram_ok st'" "DRAM_CHANNELS st' = DRAM_CHANNELS st"
    "owed st' + paid calls = owed st + (if all_warmup_complete clk < NUM_CPUS \<or> accepted p st then dues p else {#})"
    using dram_add_rq_law[OF assms(1), of p clk] by auto
  then show ?thesis using DramRead by (simp add: union_commute)
next
  case (DramWrite p)
  with dram_add_wq_law[OF assms(1), of p clk] assms(3) show ?thesis by auto
next
  case DramCycle
  with dram_operate_law[OF assms(1,2)] show ?thesis by auto
qed (use assms in \<open>simp add: dram_add_pq_def\<close>)

lemma dram_run_law:
  assumes "dram_ok st" "channels_ok st" "\<forall>e\<in>set es. clock_ok (fst e) \<and> dram_event_ok (snd e)"
  shows "\<exists>calls st'. dram_run es st = Some (calls, st') \<and> dram_ok st'"
  using assms
proof (induction es arbitrary: st)
  case (Cons e es)
  from dram_step_law[of st "fst e" "snd e"] Cons.prems obtain c s where s: "dram_step (fst e) (snd e) st = Some (c, s)" "dram_ok s"
    "DRAM_CHANNELS s = DRAM_CHANNELS st" by auto
  have "channels_ok s" using Cons.prems(2) s(3) by (simp add: channels_ok_def)
  from Cons.IH[OF s(2) this] Cons.prems(3) s(1) show ?case by auto
qed simp

lemma dram_new_ok:
  assumes "wq_size < 2 ^ 32" "rq_size < 2 ^ 32"
  shows "dram_ok (memory_controller_new channels ranks banks columns rows wq_size rq_size freq dbus trp trcd tcas)"
    "owed (memory_controller_new channels ranks banks columns rows wq_size rq_size freq dbus trp trcd tcas) = {#}"
proof -
  let ?s = "memory_controller_new channels ranks banks columns rows wq_size rq_size freq dbus trp trcd tcas"
  have q: "dram_queue_of wq ch ?s = empty_dram_queue (if wq then wq_size else rq_size) wq" for wq ch
    by (simp add: dram_queue_of_def memory_controller_new_def)
  have c: "scheduled wq ch ?s = 0" for wq ch by (simp add: scheduled_def memory_controller_new_def)
  have "queue_inv (mode_of ?s) ?s wq ch" for wq ch
    using assms unfolding queue_inv_def q c by (simp add: empty_dram_queue_def entry_ok_def how_many_def)
  then show "dram_ok ?s" by (simp add: dram_ok_def dram_inv_def q) (simp add: mode_of_def next_ok_def empty_dram_queue_def)
  have "sum_list (replicate n {#}) = ({#} :: (nat \<times> u64) multiset)" for n by (induction n) simp_all
  then show "owed ?s = {#}" unfolding owed_def dues_of_def q by (simp add: empty_dram_queue_def dues_def)
qed

primrec asked_run :: "(clock \<times> dram_event) list \<Rightarrow> memory_controller \<Rightarrow> (nat \<times> u64) multiset" where
  "asked_run [] st = {#}"
| "asked_run (e # es) st = asked (fst e) (snd e) st +
     (case dram_step (fst e) (snd e) st of None \<Rightarrow> {#} | Some (calls, st) \<Rightarrow> asked_run es st)"

lemma asked_run_law:
  assumes "dram_ok st" "channels_ok st" "\<forall>e\<in>set es. clock_ok (fst e) \<and> dram_event_ok (snd e)"
  shows "\<exists>calls st'. dram_run es st = Some (calls, st') \<and> owed st + asked_run es st = paid calls + owed st'"
  using assms
proof (induction es arbitrary: st)
  case (Cons e es)
  from dram_step_law[of st "fst e" "snd e"] Cons.prems obtain c s where s: "dram_step (fst e) (snd e) st = Some (c, s)" "dram_ok s"
    "DRAM_CHANNELS s = DRAM_CHANNELS st" "owed st + asked (fst e) (snd e) st = paid c + owed s" by auto
  have "channels_ok s" using Cons.prems(2) s(3) by (simp add: channels_ok_def)
  from Cons.IH[OF s(2) this] Cons.prems(3) obtain c' s' where s': "dram_run es s = Some (c', s')" "owed s + asked_run es s = paid c' + owed s'"
    by auto
  have "owed st + asked_run (e # es) st = (owed st + asked (fst e) (snd e) st) + asked_run es s" by (simp add: s(1) union_assoc)
  also have "\<dots> = paid c + (owed s + asked_run es s)" by (simp only: s(4) union_assoc)
  finally have "owed st + asked_run (e # es) st = paid (c @ c') + owed s'" by (simp add: s'(2) union_assoc)
  with s(1) s'(1) show ?case by simp
qed simp

section \<open>What the controller guarantees\<close>

text \<open>C11: no assertion of the memory controller fails: neither the counters at a switch between reads and writes, nor the bank
  index of a finished request, nor the occupancy of its queue, whatever sound requests arrive and whenever the controller runs.\<close>

theorem dram_never_fails:
  assumes "lg2 channels = k" "channels = 2 ^ k" "channels < 2 ^ 32" "wq_size < 2 ^ 32" "rq_size < 2 ^ 32"
    and "\<forall>e\<in>set es. clock_ok (fst e) \<and> dram_event_ok (snd e)"
  shows "dram_run es (memory_controller_new channels ranks banks columns rows wq_size rq_size freq dbus trp trcd tcas) \<noteq> None"
proof -
  let ?s = "memory_controller_new channels ranks banks columns rows wq_size rq_size freq dbus trp trcd tcas"
  have "channels_ok ?s" using assms(1-3) by (simp add: channels_ok_def memory_controller_new_def)
  with dram_run_law[OF dram_new_ok(1)[OF assms(4,5)]] assms(6) show ?thesis by fastforce
qed

definition demo_read :: packet where
  "demo_read = empty_packet\<lparr>pk_address := 8, pk_cpu := 0, pk_type := 0, pk_ip := 64, pk_to_return := [3]\<rparr>"

definition demo_clock :: clock where
  "demo_clock = \<lparr>current_core_cycle = (\<lambda>_. 100), warmup_complete = (\<lambda>_. True), all_warmup_complete = 1\<rparr>"

definition demo_dram_run :: "(clock \<times> dram_event) list" where
  "demo_dram_run = [(demo_clock, DramRead demo_read), (demo_clock, DramWrite (demo_read\<lparr>pk_address := 16\<rparr>)), (demo_clock, DramCycle), (demo_clock, DramCycle)]"

lemma demo_dram_run_ok: "\<forall>e\<in>set demo_dram_run. clock_ok (fst e) \<and> dram_event_ok (snd e)"
  by (simp add: demo_dram_run_def clock_ok_def demo_clock_def sound_request_def demo_read_def empty_packet_def code_defs branch_defs)

lemma dram_never_fails_witness:
  "dram_run demo_dram_run (memory_controller_new 1 1 8 128 65536 64 64 4000 10 50 50 50) \<noteq> None"
  using dram_never_fails[of 1 0 64 64, OF _ _ _ _ _ demo_dram_run_ok, of 1 8 128 65536 4000 10 50 50 50] by (simp add: lg2.simps)

lemma how_many_mono:
  "(\<And>x. x \<in> set xs \<Longrightarrow> P x \<Longrightarrow> Q x) \<Longrightarrow> how_many P xs \<le> how_many Q xs"
  unfolding how_many_def by (induction xs) (auto simp: le_Suc_eq)

lemma distinct_filter_nth:
  "(\<And>i j. i < length xs \<Longrightarrow> j < length xs \<Longrightarrow> xs ! i = xs ! j \<Longrightarrow> P (xs ! i) \<Longrightarrow> i = j) \<Longrightarrow> distinct (filter P xs)"
proof (induction xs)
  case (Cons x xs)
  have "i = j" if "i < length xs" "j < length xs" "xs ! i = xs ! j" "P (xs ! i)" for i j
    using Cons.prems[of "Suc i" "Suc j"] that by simp
  with Cons.IH have "distinct (filter P xs)" by blast
  moreover have "x \<notin> set xs" if "P x"
  proof
    assume "x \<in> set xs"
    then obtain j where "j < length xs" "xs ! j = x" by (auto simp: in_set_conv_nth)
    with Cons.prems[of 0 "Suc j"] that show False by simp
  qed
  ultimately show ?case by simp
qed simp

text \<open>C21: the counters of the memory controller are exact in every reachable state: the occupancy of a queue is the number of its
  entries with an address and never exceeds its size, no two entries have the same address, and the number of scheduled
  requests is the number of marked entries, no larger than the occupancy, and 0 in the direction the channel does not serve.\<close>

theorem dram_counters_exact:
  assumes "lg2 channels = k" "channels = 2 ^ k" "channels < 2 ^ 32" "wq_size < 2 ^ 32" "rq_size < 2 ^ 32"
    and "\<forall>e\<in>set es. clock_ok (fst e) \<and> dram_event_ok (snd e)"
    and "dram_run es (memory_controller_new channels ranks banks columns rows wq_size rq_size freq dbus trp trcd tcas) = Some (calls, st)"
    and "q = dram_queue_of wq ch st"
  shows "unat (q_occupancy q) = how_many (\<lambda>e. pk_address e \<noteq> 0) (q_entry q) \<and> unat (q_occupancy q) \<le> q_SIZE q \<and>
    distinct (filter (\<lambda>a. a \<noteq> 0) (map pk_address (q_entry q))) \<and>
    unat (scheduled wq ch st) = how_many (\<lambda>e. pk_scheduled e \<noteq> 0) (q_entry q) \<and> scheduled wq ch st \<le> q_occupancy q \<and>
    (scheduled wq ch st = 0 \<or> write_mode st ch = wq)"
proof -
  let ?s = "memory_controller_new channels ranks banks columns rows wq_size rq_size freq dbus trp trcd tcas"
  have "channels_ok ?s" using assms(1-3) by (simp add: channels_ok_def memory_controller_new_def)
  with dram_run_law[OF dram_new_ok(1)[OF assms(4,5)]] assms(6,7) have "dram_ok st" by fastforce
  then have I: "dram_inv (mode_of st) st" by (simp add: dram_ok_def)
  note J = queue_invD[OF I, where wq = wq and ch = ch, folded assms(8)]
  have len: "length (q_entry q) = q_SIZE q" by (rule J)
  have e: "entry_ok (mode_of st) st wq ch i (q_entry q ! i)" if "i < q_SIZE q" for i using J that by blast
  have occ: "unat (q_occupancy q) = how_many (\<lambda>e. pk_address e \<noteq> 0) (q_entry q)" by (rule J)
  have sch: "unat (scheduled wq ch st) = how_many (\<lambda>e. pk_scheduled e \<noteq> 0) (q_entry q)" by (rule J)
  have "distinct (filter (\<lambda>a. a \<noteq> 0) (map pk_address (q_entry q)))"
    by (rule distinct_filter_nth) (use J len in auto)
  moreover have "how_many (\<lambda>e. pk_scheduled e \<noteq> 0) (q_entry q) \<le> how_many (\<lambda>e. pk_address e \<noteq> 0) (q_entry q)"
    by (rule how_many_mono) (use e len in \<open>auto simp: in_set_conv_nth entry_ok_def\<close>)
  then have "scheduled wq ch st \<le> q_occupancy q" using occ sch by (simp add: word_le_nat_alt)
  moreover have "scheduled wq ch st = 0 \<or> write_mode st ch = wq"
  proof (rule disjCI)
    assume "write_mode st ch \<noteq> wq"
    then have "filter (\<lambda>e. pk_scheduled e \<noteq> 0) (q_entry q) = []"
      using e len by (auto simp: filter_empty_conv in_set_conv_nth entry_ok_def mode_of_def)
    then show "scheduled wq ch st = 0" using sch by (simp add: how_many_def unat_eq_0)
  qed
  ultimately show ?thesis using occ sch how_many_le[of "\<lambda>e. pk_address e \<noteq> 0" "q_entry q"] len by simp
qed

lemma dram_counters_exact_witness:
  "\<exists>calls st. dram_run demo_dram_run (memory_controller_new 1 1 8 128 65536 64 64 4000 10 50 50 50) = Some (calls, st) \<and>
    unat (q_occupancy (dram_queue_of False 0 st)) \<le> q_SIZE (dram_queue_of False 0 st)"
proof -
  have "dram_run demo_dram_run (memory_controller_new 1 1 8 128 65536 64 64 4000 10 50 50 50) \<noteq> None"
    using dram_run_law[OF dram_new_ok(1)[of 64 64] _ demo_dram_run_ok, of 1 1 8 128 65536 4000 10 50 50 50]
    by (fastforce simp: channels_ok_def memory_controller_new_def lg2.simps)
  then obtain calls st where r: "dram_run demo_dram_run (memory_controller_new 1 1 8 128 65536 64 64 4000 10 50 50 50) = Some (calls, st)"
    by fastforce
  with dram_counters_exact[of 1 0 64 64, OF _ _ _ _ _ demo_dram_run_ok r refl, of False 0] show ?thesis by (auto simp: lg2.simps)
qed

text \<open>C12: the memory controller answers every requester of an accepted read exactly once: in any run, the calls of
  \<open>return_data\<close> made so far and the requesters still waiting in the read queues are together the ones that asked.\<close>

theorem dram_reads_answered_once:
  assumes "lg2 channels = k" "channels = 2 ^ k" "channels < 2 ^ 32" "wq_size < 2 ^ 32" "rq_size < 2 ^ 32"
    and "\<forall>e\<in>set es. clock_ok (fst e) \<and> dram_event_ok (snd e)"
  shows "\<exists>calls st'. dram_run es (memory_controller_new channels ranks banks columns rows wq_size rq_size freq dbus trp trcd tcas) = Some (calls, st') \<and>
    paid calls + owed st' = asked_run es (memory_controller_new channels ranks banks columns rows wq_size rq_size freq dbus trp trcd tcas)"
proof -
  let ?s = "memory_controller_new channels ranks banks columns rows wq_size rq_size freq dbus trp trcd tcas"
  have "channels_ok ?s" using assms(1-3) by (simp add: channels_ok_def memory_controller_new_def)
  from asked_run_law[OF dram_new_ok(1)[OF assms(4,5)] this assms(6)] show ?thesis
    by (metis add_0 dram_new_ok(2)[OF assms(4,5)])
qed

lemma dram_reads_answered_once_witness:
  "\<exists>calls st'. dram_run demo_dram_run (memory_controller_new 1 1 8 128 65536 64 64 4000 10 50 50 50) = Some (calls, st') \<and>
    paid calls + owed st' = asked_run demo_dram_run (memory_controller_new 1 1 8 128 65536 64 64 4000 10 50 50 50)"
  using dram_reads_answered_once[of 1 0 64 64, OF _ _ _ _ _ demo_dram_run_ok, of 1 8 128 65536 4000 10 50 50 50] by (simp add: lg2.simps)

text \<open>C20: the scheduler is first-ready, first-come: it takes the oldest request to an open row of an idle bank, the one in the
  lowest slot of equals; without one it takes the oldest request to an idle bank; and it takes none only when no
  request to an idle bank has an event cycle.\<close>

theorem schedule_first_ready:
  "case pick_request st es of
     None \<Rightarrow> \<forall>j<length es. schedulable st (es ! j) \<longrightarrow> pk_event_cycle (es ! j) = - 1
   | Some (i, hit) \<Rightarrow> i < length es \<and> schedulable st (es ! i) \<and>
       (\<forall>j<length es. schedulable st (es ! j) \<longrightarrow> pk_event_cycle (es ! j) \<noteq> - 1 \<longrightarrow> row_open st (es ! j) \<longrightarrow> hit) \<and>
       (hit \<longrightarrow> row_open st (es ! i)) \<and>
       (\<forall>j<length es. schedulable st (es ! j) \<longrightarrow> (hit \<longrightarrow> row_open st (es ! j)) \<longrightarrow>
          pk_event_cycle (es ! i) \<le> pk_event_cycle (es ! j) \<and> (j < i \<longrightarrow> pk_event_cycle (es ! i) < pk_event_cycle (es ! j)))"
proof -
  obtain c r where cr: "scan_oldest (\<lambda>e. schedulable st e \<and> row_open st e) es = (c, r)" by fastforce
  obtain c' r' where cr': "scan_oldest (schedulable st) es = (c', r')" by fastforce
  show ?thesis
  proof (cases r)
    case None
    note n = scan_NoneD(2)[OF cr[unfolded None]]
    show ?thesis
    proof (cases r')
      case None
      with n scan_NoneD(2)[OF cr'[unfolded None]] show ?thesis by (simp add: pick_request_def cr cr' \<open>r = None\<close>)
    next
      case (Some i)
      with n scan_SomeD[OF cr'[unfolded Some]] show ?thesis by (auto simp: pick_request_def cr cr' \<open>r = None\<close>)
    qed
  next
    case (Some i)
    with scan_SomeD[OF cr[unfolded Some]] show ?thesis by (auto simp: pick_request_def cr)
  qed
qed

lemma schedule_first_ready_witness:
  "let es = [demo_read\<lparr>pk_event_cycle := 7\<rparr>, demo_read\<lparr>pk_address := 16, pk_event_cycle := 4\<rparr>];
       st = memory_controller_new 1 1 8 128 65536 64 64 4000 10 50 50 50
   in pick_request st es = Some (1, False) \<and> pk_event_cycle (es ! 1) \<le> pk_event_cycle (es ! 0)"
proof -
  define es where "es = [demo_read\<lparr>pk_event_cycle := 7\<rparr>, demo_read\<lparr>pk_address := 16, pk_event_cycle := 4\<rparr>]"
  define st where "st = memory_controller_new 1 1 8 128 65536 64 64 4000 10 50 50 50"
  have o: "schedulable st e \<longleftrightarrow> pk_scheduled e = 0 \<and> pk_address e \<noteq> 0" "row_open st e \<longleftrightarrow> dram_get_row st (pk_address e) = - 1" for e
    by (auto simp: schedulable_def row_open_def st_def memory_controller_new_def idle_bank_def)
  have f: "lg2 65536 = 16" "lg2 128 = 7" "lg2 8 = 3" "lg2 (Suc 0) = 0" by (simp_all add: lg2.simps)
  have r: "dram_get_row st 8 \<noteq> - 1" "dram_get_row st 16 \<noteq> - 1"
    by (simp_all add: dram_get_row_def dram_field_def st_def memory_controller_new_def f)
  have e: "pick_request st es = Some (1, False)"
    using r by (simp add: pick_request_def scan_oldest_def es_def o upt_rec demo_read_def empty_packet_def)
  have "length es = 2" "schedulable st (es ! 0)" by (simp_all add: es_def o demo_read_def empty_packet_def)
  with schedule_first_ready[of es st] e show ?thesis unfolding es_def[symmetric] st_def[symmetric] by auto
qed

text \<open>after the warmup the memory controller drops a read it has no entry for, and answers a read of a block that another
  read already waits for with the index of that read: in both cases nobody owes the requester an answer.\<close>

theorem dram_drops_reads:
  assumes "dram_ok st" "channels_ok st" "sound_request p" "\<not> all_warmup_complete clk < NUM_CPUS" "\<not> accepted p st"
  shows "fst (snd (dram_add_rq clk p st)) = [] \<and> owed (snd (snd (dram_add_rq clk p st))) = owed st"
proof -
  from dram_add_rq_law[OF assms(1,3) channel_bound[OF assms(2)], of clk] obtain r calls st' where
    r: "dram_add_rq clk p st = (r, calls, st')" "owed st' + paid calls = owed st" using assms(4,5) by auto
  define c where "c = dram_get_channel st (pk_address p)"
  have "check_dram_queue (dram_WQ st c) p = None"
    using assms(5) check_dram_queue_None[of "dram_WQ st c" p] by (simp add: accepted_def c_def Let_def)
  then have "calls = []" using r(1) assms(4) by (auto simp: dram_add_rq_def c_def[symmetric] Let_def split: option.splits)
  with r show ?thesis by simp
qed

lemma dram_drops_reads_witness:
  "let st0 = memory_controller_new 1 1 8 128 65536 1 1 4000 10 50 50 50;
       st = snd (snd (dram_add_rq demo_clock demo_read st0))
   in fst (snd (dram_add_rq demo_clock (demo_read\<lparr>pk_address := 9\<rparr>) st)) = [] \<and>
      owed (snd (snd (dram_add_rq demo_clock (demo_read\<lparr>pk_address := 9\<rparr>) st))) = owed st \<and>
      fst (snd (dram_add_rq demo_clock (demo_read\<lparr>pk_to_return := [4]\<rparr>) st)) = [] \<and>
      owed (snd (snd (dram_add_rq demo_clock (demo_read\<lparr>pk_to_return := [4]\<rparr>) st))) = owed st"
proof -
  define st0 where "st0 = memory_controller_new 1 1 8 128 65536 1 1 4000 10 50 50 50"
  define st where "st = snd (snd (dram_add_rq demo_clock demo_read st0))"
  have s: "sound_request demo_read" "sound_request (demo_read\<lparr>pk_address := 9\<rparr>)" "sound_request (demo_read\<lparr>pk_to_return := [4]\<rparr>)"
    by (simp_all add: sound_request_def demo_read_def empty_packet_def code_defs branch_defs)
  have ok0: "dram_ok st0" "channels_ok st0" unfolding st0_def by (rule dram_new_ok(1); simp) (simp add: channels_ok_def memory_controller_new_def lg2.simps)
  from dram_add_rq_law[OF ok0(1) s(1) channel_bound[OF ok0(2)], of demo_clock]
  have ok: "dram_ok st" "DRAM_CHANNELS st = DRAM_CHANNELS st0" by (auto simp: st_def)
  then have ch: "channels_ok st" using ok0(2) by (simp add: channels_ok_def)
  have w: "\<not> all_warmup_complete demo_clock < NUM_CPUS" by (simp add: demo_clock_def code_defs)
  have c: "dram_get_channel v x = 0" if "DRAM_CHANNELS v = 1" for v x using that by (simp add: dram_get_channel_def dram_field_def lg2.simps)
  have n: "DRAM_CHANNELS st0 = 1" by (simp add: st0_def memory_controller_new_def)
  have q0: "dram_WQ st0 0 = empty_dram_queue 1 True" "dram_RQ st0 0 = empty_dram_queue 1 False" by (simp_all add: st0_def memory_controller_new_def)
  have e: "q_entry (empty_dram_queue (Suc 0) v) = [empty_packet]" "q_SIZE (empty_dram_queue (Suc 0) v) = Suc 0" for v by (simp_all add: empty_dram_queue_def)
  have r: "pk_address demo_read = 8" by (simp add: demo_read_def)
  have "st = upd_queue False 0 (put_request demo_read) st0"
    by (simp add: st_def dram_add_rq_def w c[OF n] check_dram_queue_def first_index_def q0 e r Let_def)
  then have q: "dram_WQ st 0 = empty_dram_queue 1 True" "q_entry (dram_RQ st 0) = [demo_read]" "q_SIZE (dram_RQ st 0) = 1"
    by (simp_all add: upd_queue_def q0 put_request_def first_index_def e upd_entry_def)
  have a: "\<not> accepted (demo_read\<lparr>pk_address := 9\<rparr>) st" "\<not> accepted (demo_read\<lparr>pk_to_return := [4]\<rparr>) st"
    by (simp_all add: accepted_def c ok(2) n q has_address_def e r)
  from dram_drops_reads[OF ok(1) ch s(2) w a(1)] dram_drops_reads[OF ok(1) ch s(3) w a(2)]
  show ?thesis by (simp add: Let_def st_def st0_def)
qed

end
