(* ===== verification/CacheRuns.thy ===== *)
theory CacheRuns
  imports CacheOperate DramSpec ShipLlc
begin

text \<open>
  Runs of a cache, and the parts the program builds caches from: the LRU policy and the last-level policies, the next-line
  prefetchers, a cache or the memory controller as the lower level, the page tables behind the second-level TLB. Each combination is
  an interpretation of \<open>cache_parts\<close>.
\<close>

section \<open>Runs\<close>

text \<open>
  What can happen to a cache: a request from above, an invalidation, the answer of the lower level, a cycle, and a change of
  the lower level that is not of the cache's making.
\<close>

datatype 'l cache_event =
  AddRq packet
| AddWq packet
| AddPq packet
| Invalidate u64
| ReturnData packet
| Operate
| LowerMoves 'l

fun cache_step :: "('p, 'l, 'r) parts \<Rightarrow> clock \<Rightarrow> 'l cache_event \<Rightarrow> ('p, 'l, 'r) world \<Rightarrow> ('p, 'l, 'r) world option" where
  "cache_step P clk (AddRq p) w = map_option snd (add_rq clk p w)"
| "cache_step P clk (AddWq p) w = map_option snd (add_wq clk p w)"
| "cache_step P clk (AddPq p) w = map_option snd (add_pq clk p w)"
| "cache_step P clk (Invalidate a) w = Some (snd (invalidate_entry a w))"
| "cache_step P clk (ReturnData p) w = return_data clk p w"
| "cache_step P clk Operate w = cache_operate clk P w"
| "cache_step P clk (LowerMoves l) w = Some (w\<lparr>lower_level := l\<rparr>)"

text \<open>
  The environment keeps its side: requests are well formed, the lower level answers a register that waits, for a TLB with
  the translation, and moves between states of its contract.
\<close>

fun event_ok :: "('l, 'r) contract \<Rightarrow> 'l cache_event \<Rightarrow> ('p, 'l, 'r) world \<Rightarrow> bool" where
  "event_ok K (AddRq p) w \<longleftrightarrow> request_ok w p"
| "event_ok K (AddWq p) w \<longleftrightarrow> request_ok w p \<and> takes_writes (cache_type w)"
| "event_ok K (AddPq p) w \<longleftrightarrow> request_ok w p"
| "event_ok K (Invalidate a) w \<longleftrightarrow> True"
| "event_ok K (ReturnData p) w \<longleftrightarrow>
     list_ex (\<lambda>n. eq_addr_packet (pk_address p) (snd n)) (MSHR w) \<and>
     (is_tlb (cache_type w) \<longrightarrow> k_good K (vmem_state w) (pk_address p) (pk_data p))"
| "event_ok K Operate w \<longleftrightarrow> True"
| "event_ok K (LowerMoves l) w \<longleftrightarrow> k_lower K l"

primrec cache_run :: "('p, 'l, 'r) parts \<Rightarrow> (clock \<times> 'l cache_event) list \<Rightarrow> ('p, 'l, 'r) world \<Rightarrow> ('p, 'l, 'r) world option" where
  "cache_run P [] w = Some w"
| "cache_run P (e # es) w = Option.bind (cache_step P (fst e) (snd e) w) (cache_run P es)"

primrec run_ok :: "('p, 'l, 'r) parts \<Rightarrow> ('l, 'r) contract \<Rightarrow> (clock \<times> 'l cache_event) list \<Rightarrow> ('p, 'l, 'r) world \<Rightarrow> bool" where
  "run_ok P K [] w \<longleftrightarrow> True"
| "run_ok P K (e # es) w \<longleftrightarrow> event_ok K (snd e) w \<and>
     (case cache_step P (fst e) (snd e) w of None \<Rightarrow> True | Some w \<Rightarrow> run_ok P K es w)"

text \<open>The budget a run needs: every cycle may take packets from the queues.\<close>

fun is_operate :: "'l cache_event \<Rightarrow> bool" where
  "is_operate Operate \<longleftrightarrow> True"
| "is_operate _ \<longleftrightarrow> False"

definition run_cost :: "'a cache_scheme \<Rightarrow> (clock \<times> 'l cache_event) list \<Rightarrow> nat" where
  "run_cost w es = cycle_cost w * length (filter (is_operate \<circ> snd) es)"

context cache_parts
begin

lemma step_law:
  assumes ok: "cache_ok K True (n + (if is_operate ev then cycle_cost w else 0)) w" and ev: "event_ok K ev w"
  shows "\<exists>w'. cache_step P clk ev w = Some w' \<and> cache_ok K True n w' \<and> same_conf w w'"
proof (cases ev)
  case (AddRq p)
  with assms add_rq_law[of True n w p clk] show ?thesis by auto
next
  case (AddWq p)
  with assms add_wq_law[of True n w p clk] show ?thesis by auto
next
  case (AddPq p)
  from add_pq_law[of True n w p clk] assms AddPq obtain r w' where "add_pq clk p w = Some (r, w')" "cache_ok K True n w'" "keep w w'" by auto
  with AddPq keepD(1) show ?thesis by auto
next
  case (Invalidate a)
  with assms invalidate_law[of True n w a] show ?thesis by simp
next
  case (ReturnData p)
  then obtain m e where e: "(m, e) \<in> set (MSHR w)" "is_valid_packet e" "pk_address e = pk_address p"
    using ev by (auto simp: list_ex_iff eq_addr_packet_def)
  have ok': "cache_ok K True n w" using ok ReturnData by simp
  from return_data_law[OF ok' e, of clk] ev ReturnData obtain ms where
    "return_data clk p w = Some (w\<lparr>MSHR := ms\<rparr>)" "cache_ok K True n (w\<lparr>MSHR := ms\<rparr>)" by auto
  with ReturnData show ?thesis by (simp add: same_conf_def)
next
  case Operate
  with cache_operate_law[of n w clk] ok show ?thesis by simp
next
  case (LowerMoves l)
  with assms cache_ok_lower[of K True n w l] show ?thesis by (simp add: same_conf_def)
qed

lemma run_law:
  assumes "cache_ok K True (n + run_cost w es) w" "run_ok P K es w"
  shows "\<exists>w'. cache_run P es w = Some w' \<and> cache_ok K True n w' \<and> same_conf w w'"
  using assms
proof (induction es arbitrary: w)
  case Nil
  then show ?case by (simp add: run_cost_def)
next
  case (Cons e es)
  have "n + run_cost w (e # es) = (n + run_cost w es) + (if is_operate (snd e) then cycle_cost w else 0)"
    by (simp add: run_cost_def)
  with Cons.prems(1) have "cache_ok K True ((n + run_cost w es) + (if is_operate (snd e) then cycle_cost w else 0)) w" by metis
  from step_law[OF this, of "fst e"] Cons.prems(2) obtain x where
    x: "cache_step P (fst e) (snd e) w = Some x" "cache_ok K True (n + run_cost w es) x" "same_conf w x" by auto
  have "run_cost x es = run_cost w es" using same_conf_cost[OF x(3)] by (simp add: run_cost_def)
  with Cons.IH[of x] x Cons.prems(2) same_conf_trans[OF x(3)] show ?case by auto
qed

end

section \<open>A new cache\<close>

text \<open>The constructor, with the members \<^verbatim>\<open>cache_type\<close>, \<^verbatim>\<open>fill_level\<close> and \<^verbatim>\<open>lower_level\<close> that are assigned before the first cycle.\<close>

record cache_conf =
  cf_this :: nat
  cf_type :: u8
  cf_level :: int
  cf_sets :: nat
  cf_ways :: nat
  cf_wq :: nat
  cf_rq :: nat
  cf_pq :: nat
  cf_mshr :: nat
  cf_hit :: u32
  cf_fill :: u32
  cf_read :: u32
  cf_write :: u32
  cf_lower :: bool

definition VA_PREFETCH_TRANSLATION_LATENCY :: u32 where "VA_PREFETCH_TRANSLATION_LATENCY = 2"

definition new_stats :: cache_stats where
  "new_stats = \<lparr>pf_requested = 0, pf_issued = 0, pf_useful = 0, pf_useless = 0, pf_fill = 0,
     sim_access = replicate NUM_CPUS (replicate NUM_TYPES 0), sim_hit = replicate NUM_CPUS (replicate NUM_TYPES 0),
     sim_miss = replicate NUM_CPUS (replicate NUM_TYPES 0), RQ_ACCESS = 0, RQ_MERGED = 0, RQ_FULL = 0, RQ_TO_CACHE = 0,
     PQ_ACCESS = 0, PQ_MERGED = 0, PQ_FULL = 0, PQ_TO_CACHE = 0, WQ_ACCESS = 0, WQ_MERGED = 0, WQ_FULL = 0, WQ_FORWARD = 0,
     WQ_TO_CACHE = 0, total_miss_latency = 0\<rparr>"

definition new_cache :: "cache_conf \<Rightarrow> 'p \<Rightarrow> 'l \<Rightarrow> 'r \<Rightarrow> vmem \<Rightarrow> ('p, 'l, 'r) world" where
  "new_cache c p l r vm =
     \<lparr>this_ptr = cf_this c, cache_cpu = 0, NUM_SET = cf_sets c, NUM_WAY = cf_ways c, MSHR_SIZE = cf_mshr c, FILL_LATENCY = cf_fill c,
      MAX_READ = cf_read c, MAX_WRITE = cf_write c, fill_level = cf_level c, cache_type = cf_type c, has_lower_level = cf_lower c,
      reads_available_this_cycle = 0, writes_available_this_cycle = 0, blocks = replicate (cf_sets c * cf_ways c) new_block,
      RQ = delay_queue_new empty_packet (cf_rq c) (cf_hit c), PQ = delay_queue_new empty_packet (cf_pq c) (cf_hit c),
      VAPQ = delay_queue_new empty_packet (cf_pq c) VA_PREFETCH_TRANSLATION_LATENCY,
      WQ = delay_queue_new empty_packet (cf_wq c) (cf_hit c), MSHR = mshr_new (cf_mshr c), stats = new_stats,
      prefetcher = p, lower_level = l, repl = r, vmem_state = vm, outbox = []\<rparr>"

lemma new_cache_ok:
  assumes "cf_this c = k_this K" "cf_sets c = k_sets K" "cf_ways c = k_ways K" "0 < cf_sets c" "cf_sets c < 2 ^ 32" "0 < cf_ways c"
    and "0 < cf_mshr c" "cf_rq c + n < 2 ^ 63" "cf_pq c + n < 2 ^ 63" "cf_wq c + n < 2 ^ 63"
    and "is_tlb (cf_type c) \<Longrightarrow> k_tlb K" "cf_type c = IS_STLB \<Longrightarrow> k_vmem K n vm" "k_lower K l" "k_repl K r"
  shows "cache_ok K True n (new_cache c p l r vm)"
proof -
  let ?w = "new_cache c p l r vm"
  have ls: "lines ?w = replicate (cf_sets c * cf_ways c) None" "dirty_lines ?w = replicate (cf_sets c * cf_ways c) None"
    by (simp_all add: lines_def dirty_lines_def new_cache_def line_of_def dirty_of_def new_block_def)
  have e: "\<not> is_valid_packet empty_packet" "pk_returned empty_packet \<noteq> COMPLETED"
    by (simp_all add: empty_packet_def is_valid_packet_def code_defs)
  have ms: "(node, x) \<in> set (mshr_new m) \<Longrightarrow> x = empty_packet" for node x m by (auto simp: mshr_new_def)
  have "sorted_wrt served_before (mshr_new m)" for m
    unfolding mshr_new_def sorted_wrt_map using e(2) by (simp add: served_before_def sorted_wrt_iff_nth_less)
  then have "mshr_ok ?w (MSHR ?w)"
    using assms(7) ms e by (auto simp: mshr_ok_def new_cache_def) (auto simp: mshr_new_def comp_def)
  moreover have "queue_ok n ?w (RQ ?w)" "queue_ok n ?w (PQ ?w)" "queue_ok n ?w (WQ ?w)" "queue_ok n ?w (VAPQ ?w)"
    "dq_view (VAPQ ?w) = []" "dq_view (WQ ?w) = []"
    using assms(8-10) by (simp_all add: queue_ok_def new_cache_def dq_safe_new)
  moreover have "lines_ok t s y (replicate (s * y) None)" for t s y by (auto simp: lines_ok_def)
  moreover have "apart (lines ?w) (MSHR ?w)" by (simp add: apart_def ls)
  moreover have "good_data g (lines ?w) (MSHR ?w)" for g
  proof -
    have "pk_returned (snd m) \<noteq> COMPLETED" if "m \<in> set (MSHR ?w)" for m
      using ms[of "fst m" "snd m"] that e(2) by (simp add: new_cache_def)
    then show ?thesis by (auto simp: good_data_def ls)
  qed
  moreover have "conf_ok ?w" using assms(4-6) by (simp add: conf_ok_def new_cache_def NUM_CPUS_def)
  ultimately show ?thesis using assms(1-3,11-14) ls unfolding cache_ok_def by (simp add: new_cache_def)
qed

section \<open>Policies\<close>

lemma lru_victim_bound: "row \<noteq> [] \<Longrightarrow> lru_victim row < length row"
  using max_scan_choice[of "length row" row] by (simp add: lru_victim_def max_element_def lru_choice_def)

lemma lru_update_unranked:
  assumes "sx < sets" "way < ways" "length bs = sets * ways"
  shows "map unranked (lru_update ways sx way ty hit bs) = map unranked bs"
proof (cases "hit \<and> ty = WRITEBACK")
  case False
  have "Suc sx * ways \<le> sets * ways" using assms(1) by (intro mult_le_mono1) simp
  then have len: "length (take ways (drop (sx * ways) bs)) = ways" using assms(3) by simp
  have u: "unranked (b\<lparr>blk_lru := x\<rparr>) = unranked b" for b x by (simp add: unranked_def)
  have row: "map unranked (lru_update_set way row) = map unranked row" if "way < length row" for row
    using that by (intro nth_equalityI) (auto simp: lru_update_set_def Let_def u nth_list_update)
  have "bs = take (sx * ways) bs @ take ways (drop (sx * ways) bs) @ drop (sx * ways + ways) bs"
    by (metis add.commute append_assoc append_take_drop_id drop_drop take_add)
  then have "map unranked bs = map unranked (take (sx * ways) bs) @ map unranked (take ways (drop (sx * ways) bs)) @
      map unranked (drop (sx * ways + ways) bs)" by (metis map_append)
  with False show ?thesis using row[of "take ways (drop (sx * ways) bs)"] len assms(2) by (simp add: lru_update_def)
qed (simp add: lru_update_def)

text \<open>A last-level policy, whose state is its own.\<close>

definition own_policy ::
  "(nat \<Rightarrow> 's \<Rightarrow> (nat \<times> 's) option) \<Rightarrow> (nat \<Rightarrow> nat \<Rightarrow> u64 \<Rightarrow> u64 \<Rightarrow> u32 \<Rightarrow> bool \<Rightarrow> 's \<Rightarrow> 's option) \<Rightarrow> 's policy" where
  "own_policy fv up =
     \<lparr>p_find_victim = (\<lambda>sx row ip full_addr type r. fv sx r),
      p_update = (\<lambda>sx way full_addr ip type hit bs r. map_option (Pair bs) (up sx way full_addr ip type hit r))\<rparr>"

lemma type_ok: "unat (ty :: u32) < NUM_TYPES \<Longrightarrow> (ty = WRITEBACK \<Longrightarrow> ip = 0) \<Longrightarrow> llc_type_ok ty ip"
proof -
  assume a: "unat ty < NUM_TYPES" "ty = WRITEBACK \<Longrightarrow> ip = 0"
  have "unat ty = 0 \<or> unat ty = 1 \<or> unat ty = 2 \<or> unat ty = 3" using a(1) by (auto simp: NUM_TYPES_def)
  then have "ty = 0 \<or> ty = 1 \<or> ty = 2 \<or> ty = 3" by (simp add: word_unat_eq_iff)
  with a(2) show ?thesis by (auto simp: llc_type_ok_def branch_defs)
qed

section \<open>Prefetchers\<close>

text \<open>The prefetchers \<^verbatim>\<open>no_*\<close> and \<^verbatim>\<open>next_line_*\<close> of the data caches. They have no state.\<close>

fun no_prefetcher :: "pf_call \<Rightarrow> unit \<Rightarrow> unit pf_prog" where
  "no_prefetcher (L2cFill v a sx way pf ev md) u = PfDone md u"
| "no_prefetcher (LlcFill v a sx way pf ev md) u = PfDone md u"
| "no_prefetcher _ u = PfDone 0 u"

definition next_line :: "u64 \<Rightarrow> u64" where
  "next_line addr = push_bit LOG2_BLOCK_SIZE (drop_bit LOG2_BLOCK_SIZE addr + 1)"

fun next_line_prefetcher :: "pf_call \<Rightarrow> unit \<Rightarrow> unit pf_prog" where
  "next_line_prefetcher (L1dOperate v addr ip hit ty) u = PfLine ip addr (next_line addr) FILL_L1 0 (\<lambda>_. PfDone 0 u)"
| "next_line_prefetcher (L2cOperate v addr ip hit ty) u = PfLine ip addr (next_line addr) FILL_L2 0 (\<lambda>_. PfDone 0 u)"
| "next_line_prefetcher (LlcOperate v addr ip hit ty) u = PfLine ip addr (next_line addr) FILL_LLC 0 (\<lambda>_. PfDone 0 u)"
| "next_line_prefetcher (L2cFill v a sx way pf ev md) u = PfDone md u"
| "next_line_prefetcher (LlcFill v a sx way pf ev md) u = PfDone md u"
| "next_line_prefetcher _ u = PfDone 0 u"

lemma next_line_in_page:
  assumes "drop_bit LOG2_PAGE_SIZE addr = drop_bit LOG2_PAGE_SIZE (next_line addr)"
  shows "drop_bit LOG2_BLOCK_SIZE (next_line addr) \<noteq> 0"
proof
  assume z: "drop_bit LOG2_BLOCK_SIZE (next_line addr) = 0"
  have "next_line addr = push_bit 6 (drop_bit 6 (next_line addr))"
    unfolding next_line_def LOG2_BLOCK_SIZE_def by (simp add: bit_eq_iff bit_simps) auto
  then have n: "next_line addr = 0" using z by (simp add: LOG2_BLOCK_SIZE_def)
  then have "unat (drop_bit 12 addr) = 0" using assms by (simp add: LOG2_PAGE_SIZE_def)
  then have a: "unat addr < 4096" unfolding page_number by (simp add: div_eq_0_iff)
  have d: "unat (drop_bit 6 addr) = unat addr div 64" by (simp add: page_number)
  have "unat (drop_bit 6 addr + 1) = unat addr div 64 + 1" using a d by (simp add: unat_plus_if_size word_size)
  note s = this
  then have "unat (drop_bit 6 addr + 1) * unat (64 :: u64) < 2 ^ LENGTH(64)" using a by simp
  note m = iffD1[OF unat_mult_lem this]
  have nl: "next_line addr = (drop_bit 6 addr + 1) * 64" by (simp add: next_line_def LOG2_BLOCK_SIZE_def push_bit_eq_mult)
  have "unat (next_line addr) \<noteq> 0" unfolding nl m s by simp
  with n show False by simp
qed

lemma plain_prefetchers: "plain_prog (no_prefetcher c u)" "plain_prog (next_line_prefetcher c u)"
  using next_line_in_page by (cases c; simp)+

section \<open>A cache as the lower level\<close>

text \<open>A call hands the answers it makes over to the caller.\<close>

definition flush :: "('p, 'l, 'r) world \<Rightarrow> (nat \<times> packet) list \<times> ('p, 'l, 'r) world" where
  "flush w = (outbox w, w\<lparr>outbox := []\<rparr>)"

definition cache_consumer :: "('p, 'l, 'r) world consumer" where
  "cache_consumer =
     \<lparr>c_add_rq = (\<lambda>clk p l. map_option (\<lambda>(r, l). (r, flush l)) (add_rq clk p l)),
      c_add_wq = (\<lambda>clk p l. map_option (\<lambda>(r, l). (r, flush l)) (add_wq clk p l)),
      c_add_pq = (\<lambda>clk p l. map_option (\<lambda>(r, l). (r, flush l)) (add_pq clk p l)),
      c_increment_WQ_FULL = (\<lambda>a l. increment_WQ_FULL l),
      c_get_occupancy = (\<lambda>qt a l. get_occupancy qt l), c_get_size = (\<lambda>qt a l. get_size qt l)\<rparr>"

definition as_lower :: "('l, 'r) contract \<Rightarrow> nat \<Rightarrow> ('p, 'l, 'r) world \<Rightarrow> bool" where
  "as_lower K n l \<longleftrightarrow> cache_ok K True n l \<and> outbox l = [] \<and> takes_writebacks (cache_type l)"

definition data_parts :: "'l consumer \<Rightarrow> (pf_call \<Rightarrow> 'p \<Rightarrow> 'p pf_prog) \<Rightarrow> 'r policy \<Rightarrow> ('p, 'l, 'r) parts" where
  "data_parts lower hook policy = \<lparr>w_lower = lower, w_hook = hook, w_policy = policy\<rparr>"

definition data_contract :: "nat \<Rightarrow> nat \<Rightarrow> nat \<Rightarrow> ('l \<Rightarrow> bool) \<Rightarrow> ('r \<Rightarrow> bool) \<Rightarrow> ('l, 'r) contract" where
  "data_contract this sets ways lower r =
     \<lparr>k_this = this, k_sets = sets, k_ways = ways, k_tlb = False, k_lower = lower, k_repl = r,
      k_vmem = (\<lambda>_ _. False), k_good = (\<lambda>_ _ _. False)\<rparr>"

text \<open>The laws of a lower level and of a policy, each on its own.\<close>

definition lower_laws :: "nat \<Rightarrow> ('l \<Rightarrow> bool) \<Rightarrow> 'l consumer \<Rightarrow> bool" where
  "lower_laws this ok c \<longleftrightarrow>
     (\<forall>l p clk. ok l \<longrightarrow> sound_request p \<longrightarrow> set (pk_to_return p) \<subseteq> {this} \<longrightarrow>
       (\<forall>f\<in>{c_add_rq c, c_add_pq c}. \<exists>r calls l'. f clk p l = Some (r, calls, l') \<and> ok l' \<and> answers p calls) \<and>
       (ptype p = WRITEBACK \<longrightarrow> pk_to_return p = [] \<longrightarrow> (\<exists>r l'. c_add_wq c clk p l = Some (r, [], l') \<and> ok l'))) \<and>
     (\<forall>l a. ok l \<longrightarrow> ok (c_increment_WQ_FULL c a l))"

definition policy_laws :: "nat \<Rightarrow> nat \<Rightarrow> ('r \<Rightarrow> bool) \<Rightarrow> 'r policy \<Rightarrow> bool" where
  "policy_laws sets ways ok c \<longleftrightarrow>
     (\<forall>sx row r ip fa ty. sx < sets \<longrightarrow> length row = ways \<longrightarrow> ok r \<longrightarrow>
        (\<exists>way r'. p_find_victim c sx row ip fa ty r = Some (way, r') \<and> way < ways \<and> ok r')) \<and>
     (\<forall>sx way bs r ip fa ty hit. sx < sets \<longrightarrow> way < ways \<longrightarrow> length bs = sets * ways \<longrightarrow> ok r \<longrightarrow> unat ty < NUM_TYPES \<longrightarrow>
        (ty = WRITEBACK \<longrightarrow> ip = 0) \<longrightarrow>
        (\<exists>bs' r'. p_update c sx way fa ip ty hit bs r = Some (bs', r') \<and> map unranked bs' = map unranked bs \<and> ok r'))"

lemma data_cache_parts:
  assumes l: "lower_laws this lower c" and q: "policy_laws sets ways r policy" and h: "\<And>c st. plain_prog (hook c st)"
  shows "cache_parts (data_parts c hook policy) (data_contract this sets ways lower r)"
proof (unfold_locales, goal_cases)
  case (1 l p f clk)
  with assms(1) show ?case unfolding lower_laws_def by (simp add: data_parts_def data_contract_def) blast
next
  case (2 l p clk)
  with assms(1) show ?case unfolding lower_laws_def by (simp add: data_parts_def data_contract_def)
next
  case (3 l a)
  with assms(1) show ?case unfolding lower_laws_def by (simp add: data_parts_def data_contract_def)
next
  case (4 sx row r ip fa ty)
  with assms(2) show ?case unfolding policy_laws_def by (simp add: data_parts_def data_contract_def)
next
  case (5 sx way bs r ty ip fa hit)
  with assms(2) show ?case unfolding policy_laws_def by (simp add: data_parts_def data_contract_def)
qed (simp_all add: data_parts_def data_contract_def h)

lemma lru_laws: "0 < ways \<Longrightarrow> policy_laws sets ways (\<lambda>_. True) (lru_policy ways)"
  using lru_update_unranked lru_victim_bound unfolding policy_laws_def lru_policy_def by fastforce

lemma own_policy_laws:
  assumes "llc_policy ok fv up"
  shows "policy_laws LLC_SET LLC_WAY ok (own_policy fv up)"
  unfolding policy_laws_def
proof (intro conjI allI impI)
  fix sx r and ip fa :: u64 and ty and row :: "block list" assume "sx < LLC_SET" "ok r"
  with llc_policy.victim_law[OF assms] show "\<exists>way r'. p_find_victim (own_policy fv up) sx row ip fa ty r = Some (way, r') \<and> way < LLC_WAY \<and> ok r'"
    by (simp add: own_policy_def)
next
  fix sx way r and ip fa :: u64 and ty hit and bs :: "block list"
  assume "sx < LLC_SET" "way < LLC_WAY" "ok r" "unat ty < NUM_TYPES" "ty = WRITEBACK \<longrightarrow> ip = 0"
  with llc_policy.update_law[OF assms, of r sx way ty ip fa hit] type_ok[of ty ip] obtain r' where
    "up sx way fa ip ty hit r = Some r'" "ok r'" by auto
  then show "\<exists>bs' r'. p_update (own_policy fv up) sx way fa ip ty hit bs r = Some (bs', r') \<and> map unranked bs' = map unranked bs \<and> ok r'"
    by (simp add: own_policy_def)
qed

lemma dram_laws: "lower_laws this (\<lambda>st. dram_ok st \<and> channels_ok st) dram_consumer"
proof -
  have "\<exists>r st'. dram_add_wq clk p st = (r, st') \<and> dram_ok st' \<and> channels_ok st'" if "dram_ok st" "channels_ok st" "sound_request p" for clk p st
    using dram_add_wq_law[OF that(1,3), of clk] that(2) by (auto simp: channels_ok_def)
  moreover have "\<exists>r calls st'. dram_add_rq clk p st = (r, calls, st') \<and> dram_ok st' \<and> channels_ok st' \<and> answers p calls"
    if "dram_ok st" "channels_ok st" "sound_request p" for clk p st
    using dram_add_rq_law[OF that(1,3) channel_bound[OF that(2)], of clk] that(2) by (auto simp: channels_ok_def)
  moreover have "channels_ok (dram_increment_WQ_FULL a st) = channels_ok st" for a st
    by (simp add: dram_increment_WQ_FULL_def channels_ok_def)
  ultimately show ?thesis unfolding lower_laws_def dram_consumer_def
    by (simp add: dram_full_law dram_add_pq_def) (metis (no_types, lifting) old.prod.case)
qed

lemma cache_laws:
  fixes P :: "('p, 'l, 'r) parts"
  assumes "cache_parts P K" "this \<noteq> k_this K"
  shows "lower_laws this (as_lower K n) (cache_consumer :: ('p, 'l, 'r) world consumer)"
proof -
  let ?c = "cache_consumer :: ('p, 'l, 'r) world consumer"
  have ty: "takes_writes t" "\<not> is_tlb t" if "takes_writebacks t" for t
    using that by (auto simp: takes_writes_def takes_writebacks_def is_tlb_def code_defs)
  have rq: "request_ok l p" if "as_lower K n l" "sound_request p" "set (pk_to_return p) \<subseteq> {this}" for l p
    using that assms(2) cache_okD(18)[of K True n l] ty(2)[of "cache_type l"]
    by (auto simp: as_lower_def request_ok_def is_tlb_def)
  have fl: "as_lower K n (snd (flush l'))" if "as_lower K n l" "cache_ok K True n l'" "same_conf l l'" for l l'
    using that by (simp add: as_lower_def flush_def same_conf_def)
  have a: "\<exists>r calls l'. c_add_rq ?c clk p l = Some (r, calls, l') \<and> as_lower K n l' \<and> answers p calls"
    if h: "as_lower K n l" "sound_request p" "set (pk_to_return p) \<subseteq> {this}" for l p clk
  proof -
    from cache_parts.add_rq_law[OF assms(1) _ rq[OF h], of True n clk] h(1) obtain r l' calls where
      "add_rq clk p l = Some (r, l')" "cache_ok K True n l'" "same_conf l l'" "outbox l' = outbox l @ calls" "answers p calls"
      by (auto simp: as_lower_def)
    with fl[OF h(1), of l'] h(1) show ?thesis by (simp add: cache_consumer_def as_lower_def flush_def)
  qed
  have b: "\<exists>r calls l'. c_add_pq ?c clk p l = Some (r, calls, l') \<and> as_lower K n l' \<and> answers p calls"
    if h: "as_lower K n l" "sound_request p" "set (pk_to_return p) \<subseteq> {this}" for l p clk
  proof -
    from cache_parts.add_pq_law[OF assms(1) _ rq[OF h], of True n clk] h(1) obtain r l' calls where
      "add_pq clk p l = Some (r, l')" "cache_ok K True n l'" "keep l l'" "outbox l' = outbox l @ calls" "answers p calls"
      by (auto simp: as_lower_def)
    with fl[OF h(1), of l'] h(1) keepD(1)[of l l'] show ?thesis by (simp add: cache_consumer_def as_lower_def flush_def)
  qed
  have c: "\<exists>r l'. c_add_wq ?c clk p l = Some (r, [], l') \<and> as_lower K n l'"
    if h: "as_lower K n l" "sound_request p" "set (pk_to_return p) \<subseteq> {this}" for l p clk
  proof -
    have "takes_writes (cache_type l)" using h(1) ty(1) by (simp add: as_lower_def)
    from cache_parts.add_wq_law[OF assms(1) _ rq[OF h] this, of True n clk] h(1) obtain r l' where
      "add_wq clk p l = Some (r, l')" "cache_ok K True n l'" "same_conf l l'" "outbox l' = outbox l"
      by (auto simp: as_lower_def)
    with fl[OF h(1), of l'] h(1) show ?thesis by (simp add: cache_consumer_def as_lower_def flush_def)
  qed
  have d: "as_lower K n (c_increment_WQ_FULL ?c x l)" if "as_lower K n l" for l x
    using that by (simp add: cache_consumer_def as_lower_def increment_WQ_FULL_def) (simp add: upd_stats_def)
  show ?thesis unfolding lower_laws_def
  proof (intro conjI allI impI ballI)
    fix l :: "('p, 'l, 'r) world" and p clk f assume h: "as_lower K n l" "sound_request p" "set (pk_to_return p) \<subseteq> {this}" "f \<in> {c_add_rq ?c, c_add_pq ?c}"
    from h(4) show "\<exists>r calls l'. f clk p l = Some (r, calls, l') \<and> as_lower K n l' \<and> answers p calls"
      using a[OF h(1-3)] b[OF h(1-3)] by (elim insertE emptyE) (simp_all only:)
  qed (rule c, assumption+, rule d, assumption)
qed

end
