(* ===== verification/CacheSpec.thy ===== *)
theory CacheSpec
  imports CacheRuns
begin

text \<open>
  The caches of the program, built as \<^verbatim>\<open>config.sh\<close> does by default, and what holds of every run: the data caches L1D, L2C
  and LLC over the memory controller, and the second-level TLB over the page tables.
\<close>

section \<open>The data caches\<close>

definition l1d_conf :: cache_conf where
  "l1d_conf = \<lparr>cf_this = 1, cf_type = IS_L1D, cf_level = FILL_L1, cf_sets = 64, cf_ways = 12, cf_wq = 64, cf_rq = 64, cf_pq = 8,
     cf_mshr = 16, cf_hit = 4, cf_fill = 1, cf_read = 2, cf_write = 2, cf_lower = True\<rparr>"

definition l2c_conf :: cache_conf where
  "l2c_conf = \<lparr>cf_this = 2, cf_type = IS_L2C, cf_level = FILL_L2, cf_sets = 1024, cf_ways = 8, cf_wq = 32, cf_rq = 32, cf_pq = 16,
     cf_mshr = 32, cf_hit = 9, cf_fill = 1, cf_read = 1, cf_write = 1, cf_lower = True\<rparr>"

definition llc_conf :: cache_conf where
  "llc_conf = \<lparr>cf_this = 3, cf_type = IS_LLC, cf_level = FILL_LLC, cf_sets = LLC_SET, cf_ways = LLC_WAY, cf_wq = 32, cf_rq = 32, cf_pq = 32,
     cf_mshr = 64, cf_hit = 19, cf_fill = 1, cf_read = 1, cf_write = 1, cf_lower = True\<rparr>"

definition dram0 :: memory_controller where
  "dram0 = memory_controller_new 1 1 8 128 65536 64 64 4000 8 50 50 50"

type_synonym llc = "(unit, memory_controller, unit) world"
type_synonym l2c = "(unit, llc, unit) world"
type_synonym l1d = "(unit, l2c, unit) world"

definition llc_contract :: "(memory_controller, unit) contract" where
  "llc_contract = data_contract 3 LLC_SET LLC_WAY (\<lambda>st. dram_ok st \<and> channels_ok st) (\<lambda>_. True)"

definition l2c_contract :: "nat \<Rightarrow> (llc, unit) contract" where
  "l2c_contract n = data_contract 2 1024 8 (as_lower llc_contract n) (\<lambda>_. True)"

definition l1d_contract :: "nat \<Rightarrow> (l2c, unit) contract" where
  "l1d_contract n = data_contract 1 64 12 (as_lower (l2c_contract n) n) (\<lambda>_. True)"

interpretation llc: cache_parts "data_parts dram_consumer next_line_prefetcher (lru_policy LLC_WAY)" llc_contract
  unfolding llc_contract_def by (rule data_cache_parts[OF dram_laws lru_laws plain_prefetchers(2)]) (simp add: LLC_WAY_def)

interpretation l2c: cache_parts "data_parts cache_consumer next_line_prefetcher (lru_policy 8)" "l2c_contract n"
  unfolding l2c_contract_def
  by (rule data_cache_parts[OF cache_laws[OF llc.cache_parts_axioms] lru_laws plain_prefetchers(2)]) (simp_all add: llc_contract_def data_contract_def)

interpretation l1d: cache_parts "data_parts cache_consumer next_line_prefetcher (lru_policy 12)" "l1d_contract n"
  unfolding l1d_contract_def
  by (rule data_cache_parts[OF cache_laws[OF l2c.cache_parts_axioms] lru_laws plain_prefetchers(2)]) (simp_all add: l2c_contract_def data_contract_def)

text \<open>The last level with its other replacement policies.\<close>

interpretation llc_srrip: cache_parts "data_parts dram_consumer no_prefetcher (own_policy srrip_llc_find_victim srrip_llc_update)"
  "data_contract 3 LLC_SET LLC_WAY (\<lambda>st. dram_ok st \<and> channels_ok st) rrpv_ok"
  by (rule data_cache_parts[OF dram_laws own_policy_laws[OF srrip_llc.llc_policy_axioms] plain_prefetchers(1)])

interpretation llc_drrip: cache_parts "data_parts dram_consumer no_prefetcher (own_policy drrip_find_victim drrip_update)"
  "data_contract 3 LLC_SET LLC_WAY (\<lambda>st. dram_ok st \<and> channels_ok st) drrip_ok"
  by (rule data_cache_parts[OF dram_laws own_policy_laws[OF drrip.llc_policy_axioms] plain_prefetchers(1)])

interpretation llc_ship: cache_parts "data_parts dram_consumer no_prefetcher (own_policy ship_find_victim ship_update)"
  "data_contract 3 LLC_SET LLC_WAY (\<lambda>st. dram_ok st \<and> channels_ok st) ship_ok"
  by (rule data_cache_parts[OF dram_laws own_policy_laws[OF ship.llc_policy_axioms] plain_prefetchers(1)])

text \<open>The hierarchy as it starts.\<close>

definition new_llc :: "vmem \<Rightarrow> llc" where "new_llc vm = new_cache llc_conf () dram0 () vm"
definition new_l2c :: "vmem \<Rightarrow> l2c" where "new_l2c vm = new_cache l2c_conf () (new_llc vm) () vm"
definition new_l1d :: "vmem \<Rightarrow> l1d" where "new_l1d vm = new_cache l1d_conf () (new_l2c vm) () vm"

lemma dram0_ok: "dram_ok dram0" "channels_ok dram0"
  unfolding dram0_def by (rule dram_new_ok(1); simp) (simp add: channels_ok_def memory_controller_new_def lg2.simps)

lemma types: "\<not> is_tlb IS_L1D" "\<not> is_tlb IS_L2C" "\<not> is_tlb IS_LLC" "takes_writebacks IS_L2C" "takes_writebacks IS_LLC"
  "\<not> takes_writebacks IS_L1D" "IS_L1D \<noteq> IS_STLB" "IS_L2C \<noteq> IS_STLB" "IS_LLC \<noteq> IS_STLB" "takes_writes IS_L1D"
  by (simp_all add: is_tlb_def takes_writebacks_def takes_writes_def code_defs)

lemma new_llc_ok:
  assumes "n < 2 ^ 62"
  shows "cache_ok llc_contract True n (new_llc vm)" "as_lower llc_contract n (new_llc vm)"
proof -
  show ok: "cache_ok llc_contract True n (new_llc vm)" unfolding new_llc_def
    by (rule new_cache_ok) (use assms dram0_ok types in \<open>simp_all add: llc_conf_def llc_contract_def data_contract_def LLC_SET_def LLC_WAY_def\<close>)
  have "outbox (new_llc vm) = []" "cache_type (new_llc vm) = IS_LLC" by (simp_all add: new_llc_def new_cache_def llc_conf_def)
  with ok types show "as_lower llc_contract n (new_llc vm)" by (simp add: as_lower_def)
qed

lemma new_l2c_ok:
  assumes "n < 2 ^ 62"
  shows "cache_ok (l2c_contract n) True n (new_l2c vm)" "as_lower (l2c_contract n) n (new_l2c vm)"
proof -
  show ok: "cache_ok (l2c_contract n) True n (new_l2c vm)" unfolding new_l2c_def
    by (rule new_cache_ok) (use assms new_llc_ok types in \<open>simp_all add: l2c_conf_def l2c_contract_def data_contract_def\<close>)
  have "outbox (new_l2c vm) = []" "cache_type (new_l2c vm) = IS_L2C" by (simp_all add: new_l2c_def new_cache_def l2c_conf_def)
  with ok types show "as_lower (l2c_contract n) n (new_l2c vm)" by (simp add: as_lower_def)
qed

lemma new_l1d_ok:
  assumes "n < 2 ^ 62"
  shows "cache_ok (l1d_contract n) True n (new_l1d vm)"
  unfolding new_l1d_def
  by (rule new_cache_ok) (use assms new_l2c_ok types in \<open>simp_all add: l1d_conf_def l1d_contract_def data_contract_def\<close>)

section \<open>The second-level TLB\<close>

text \<open>It has no lower level: a miss asks the page tables.\<close>

definition stlb_conf :: cache_conf where
  "stlb_conf = \<lparr>cf_this = 5, cf_type = IS_STLB, cf_level = FILL_L2, cf_sets = 128, cf_ways = 12, cf_wq = 32, cf_rq = 32, cf_pq = 0,
     cf_mshr = 16, cf_hit = 7, cf_fill = 1, cf_read = 1, cf_write = 1, cf_lower = False\<rparr>"

definition no_lower :: "unit consumer" where
  "no_lower = \<lparr>c_add_rq = (\<lambda>_ _ _. Some (0, [], ())), c_add_wq = (\<lambda>_ _ _. Some (0, [], ())), c_add_pq = (\<lambda>_ _ _. Some (0, [], ())),
     c_increment_WQ_FULL = (\<lambda>_ _. ()), c_get_occupancy = (\<lambda>_ _ _. 0), c_get_size = (\<lambda>_ _ _. 0)\<rparr>"

definition translates :: "vmem \<Rightarrow> u64 \<Rightarrow> u64 \<Rightarrow> bool" where
  "translates vm page frame \<longleftrightarrow> mapped vm (0, 0, page) = Some frame \<and> frame \<noteq> 0"

definition tables_ok :: "nat \<Rightarrow> nat \<Rightarrow> vmem \<Rightarrow> bool" where
  "tables_ok r n vm \<longleftrightarrow> vm_ok r vm \<and> 0 < r \<and> page_bits vm = LOG2_PAGE_SIZE \<and> NUM_CPUS \<le> unat (num_cpus vm) \<and> n \<le> length (ppage_free_list vm)"

definition stlb_contract :: "nat \<Rightarrow> (unit, unit) contract" where
  "stlb_contract r = \<lparr>k_this = 5, k_sets = 128, k_ways = 12, k_tlb = True, k_lower = (\<lambda>_. True), k_repl = (\<lambda>_. True),
     k_vmem = tables_ok r, k_good = translates\<rparr>"

lemma stlb_translate:
  assumes "tables_ok r (Suc n) vm" "cpu < NUM_CPUS"
  shows "\<exists>pa vm'. va_to_pa cpu va vm = Some (pa, vm') \<and> tables_ok r n vm' \<and>
    translates vm' (drop_bit LOG2_PAGE_SIZE va) (drop_bit LOG2_PAGE_SIZE pa) \<and> (\<forall>a d. translates vm a d \<longrightarrow> translates vm' a d)"
proof -
  have cpu: "cpu = 0" "cpu < unat (num_cpus vm)" using assms by (auto simp: NUM_CPUS_def tables_ok_def)
  have vm: "vm_ok r vm" "0 < r" "page_bits vm = LOG2_PAGE_SIZE" using assms(1) by (simp_all add: tables_ok_def)
  have "ppage_free_list vm \<noteq> []" using assms(1) by (auto simp: tables_ok_def)
  from va_to_pa_some[OF vm(1) cpu(2) this, of va] obtain pa vm' where
    run: "va_to_pa cpu va vm = Some (pa, vm')" "length (ppage_free_list vm) \<le> Suc (length (ppage_free_list vm'))" "num_cpus vm' = num_cpus vm"
    by blast
  from va_to_pa_law[OF vm(1) run(1)] obtain p where p: "vm_ok r vm'" "vm_same vm vm'"
    "mapped vm' (cpu, 0, drop_bit (page_bits vm) va) = Some p" "pa = push_bit (page_bits vm) p + (va AND (2 ^ page_bits vm - 1))" .
  have pg: "page_bits vm' = page_bits vm" "mapped vm \<subseteq>\<^sub>m mapped vm'" using p(2) by (auto simp: vm_same_def page_bits_def)
  note D = vm_okD[OF p(1)]
  have "r \<le> unat p \<and> p < num_ppages vm'" using D(7)[OF p(3)] by simp
  then have p0: "p \<noteq> 0" "unat p < unat (num_ppages vm')" using vm(2) by (auto simp: word_less_nat_alt)
  then have "unat p * 2 ^ 12 < unat (num_ppages vm') * 2 ^ 12" by simp
  then have lt: "unat p * 2 ^ 12 + unat (va AND (2 ^ 12 - 1)) < 2 ^ 64"
  proof -
    have "unat (va AND (2 ^ 12 - 1)) < 2 ^ 12" using page_offset[of 12 va] by simp
    moreover have "Suc (unat p) * 2 ^ 12 \<le> unat (num_ppages vm') * 2 ^ 12" using p0(2) by (intro mult_le_mono1) simp
    ultimately show ?thesis using D(4) pg(1) vm(3) by (simp add: LOG2_PAGE_SIZE_def)
  qed
  have "drop_bit 12 pa = p"
  proof (rule word_unat_eq_iff[THEN iffD2])
    have "unat p * unat (4096 :: u64) < 2 ^ LENGTH(64)" using lt by simp
    from iffD1[OF unat_mult_lem this] have pb: "unat (push_bit 12 p) = unat p * 2 ^ 12" by (simp add: push_bit_eq_mult)
    have "unat pa = unat p * 2 ^ 12 + unat (va AND (2 ^ 12 - 1))"
      using lt pb p(4) vm(3) by (simp add: LOG2_PAGE_SIZE_def unat_plus_if_size word_size)
    then show "unat (drop_bit 12 pa) = unat p" using page_offset[of 12 va] by (simp add: page_number)
  qed
  then have "translates vm' (drop_bit LOG2_PAGE_SIZE va) (drop_bit LOG2_PAGE_SIZE pa)"
    using p(3) p0(1) cpu(1) vm(3) by (simp add: translates_def LOG2_PAGE_SIZE_def)
  moreover have "translates vm a d \<longrightarrow> translates vm' a d" for a d using pg(2) by (auto simp: translates_def map_le_def dom_def)
  moreover have "tables_ok r n vm'" using assms(1) p(1) pg(1) run(2,3) by (simp add: tables_ok_def)
  ultimately show ?thesis using run(1) by blast
qed

interpretation stlb: cache_parts "data_parts no_lower no_prefetcher (lru_policy 12)" "stlb_contract r"
proof (unfold_locales, goal_cases)
  case (4 sx row r ip fa ty)
  with lru_laws[of 12 128] show ?case unfolding policy_laws_def by (simp add: data_parts_def stlb_contract_def)
next
  case (5 sx way bs r ty ip fa hit)
  with lru_laws[of 12 128] show ?case unfolding policy_laws_def by (simp add: data_parts_def stlb_contract_def)
next
  case (7 n vm cpu va)
  with stlb_translate[of r n vm cpu va] show ?case by (simp add: stlb_contract_def)
qed (auto simp: data_parts_def no_lower_def stlb_contract_def plain_prefetchers tables_ok_def translates_def)

definition new_stlb :: "vmem \<Rightarrow> (unit, unit, unit) world" where "new_stlb vm = new_cache stlb_conf () () () vm"

lemma new_stlb_ok:
  assumes "tables_ok r n vm" "n < 2 ^ 62"
  shows "cache_ok (stlb_contract r) True n (new_stlb vm)"
  unfolding new_stlb_def
  by (rule new_cache_ok) (use assms in \<open>simp_all add: stlb_conf_def stlb_contract_def\<close>)

section \<open>What holds of every run\<close>

abbreviation l1d_parts where "l1d_parts \<equiv> data_parts cache_consumer next_line_prefetcher (lru_policy 12)"
abbreviation l2c_parts where "l2c_parts \<equiv> data_parts cache_consumer next_line_prefetcher (lru_policy 8)"
abbreviation llc_parts where "llc_parts \<equiv> data_parts dram_consumer next_line_prefetcher (lru_policy LLC_WAY)"
abbreviation stlb_parts where "stlb_parts \<equiv> data_parts no_lower no_prefetcher (lru_policy 12)"

text \<open>Every run of a new L1D within the bounds of its 64-bit counters keeps the invariant.\<close>

definition l1d_run_ok :: "(clock \<times> l2c cache_event) list \<Rightarrow> vmem \<Rightarrow> bool" where
  "l1d_run_ok es vm \<longleftrightarrow>
     run_ok l1d_parts (l1d_contract (run_cost (new_l1d vm) es)) es (new_l1d vm) \<and> run_cost (new_l1d vm) es < 2 ^ 62"

lemma l1d_run:
  assumes "l1d_run_ok es vm"
  shows "\<exists>w. cache_run l1d_parts es (new_l1d vm) = Some w \<and>
    cache_ok (l1d_contract (run_cost (new_l1d vm) es)) True 0 w \<and> same_conf (new_l1d vm) w"
  using l1d.run_law[where n = 0 and w = "new_l1d vm" and es = es] new_l1d_ok assms unfolding l1d_run_ok_def by auto

lemma l1d_run_state:
  assumes "l1d_run_ok es vm" "cache_run l1d_parts es (new_l1d vm) = Some w"
  shows "cache_ok (l1d_contract (run_cost (new_l1d vm) es)) True 0 w" "cache_type w = IS_L1D" "NUM_SET w = 64" "NUM_WAY w = 12"
    "MSHR_SIZE w = 16" "fill_level w = FILL_L1" "this_ptr w = 1"
  using l1d_run[OF assms(1)] assms(2) by (auto simp: same_conf_def new_l1d_def new_cache_def l1d_conf_def)

lemma lines_okD:
  assumes "lines_ok t sets ways ls"
  shows "i < length ls \<Longrightarrow> ls ! i = Some l \<Longrightarrow> i div ways = set_of sets (fst l)"
    "\<not> takes_writebacks t \<Longrightarrow> i < length ls \<Longrightarrow> j < length ls \<Longrightarrow> ls ! i = Some k \<Longrightarrow> ls ! j = Some l \<Longrightarrow> fst k = fst l \<Longrightarrow> i = j"
  using assms unfolding lines_ok_def by blast+

lemma line_nth:
  "i < length (blocks w) \<Longrightarrow> blk_valid (blocks w ! i) \<noteq> 0 \<Longrightarrow> lines w ! i = Some (blk_address (blocks w ! i), blk_data (blocks w ! i))"
  by (simp add: lines_def line_of_def)

text \<open>A run that shows the theorems at work: a load comes in and the cache runs two cycles.\<close>

definition demo_load :: packet where
  "demo_load = empty_packet\<lparr>pk_address := 8, pk_full_addr := 512, pk_fill_level := FILL_L1, pk_cpu := 0, pk_type := 0, pk_ip := 64,
     pk_to_return := [0]\<rparr>"

definition demo_run :: "(clock \<times> 'l cache_event) list" where
  "demo_run = [(demo_clock, AddRq demo_load), (demo_clock, Operate), (demo_clock, Operate)]"

lemma demo_load_sound: "sound_request demo_load" "pk_to_return demo_load = [0]" "pk_fill_level demo_load = FILL_L1"
  "pk_address demo_load = 8" "pk_full_addr demo_load = 512" "ptype demo_load = LOAD"
  by (simp_all add: sound_request_def demo_load_def empty_packet_def code_defs branch_defs)

lemma demo_l1d_run_ok: "l1d_run_ok demo_run vm"
proof -
  have "request_ok (new_l1d vm) demo_load"
    using demo_load_sound types(1,7) by (simp add: request_ok_def new_l1d_def new_cache_def l1d_conf_def)
  then show ?thesis by (simp add: l1d_run_ok_def demo_run_def run_cost_def cycle_cost_def new_l1d_def new_cache_def l1d_conf_def split: option.splits)
qed

text \<open>C7: the first-level data cache never fails: a new L1D over L2C, LLC and the memory controller, with the next-line prefetcher and LRU replacement,
  completes every sequence of well-formed requests, invalidations, cycles and answers for registers it has, whatever the L2C does in between
  within its contract, as long as fewer than \<open>2 ^ 62\<close> packets leave its queues.\<close>

theorem l1d_never_fails:
  assumes "l1d_run_ok es vm"
  shows "cache_run l1d_parts es (new_l1d vm) \<noteq> None"
  using l1d_run[OF assms] by auto

lemma l1d_never_fails_witness: "\<forall>vm. cache_run l1d_parts demo_run (new_l1d vm) \<noteq> None"
  by (intro allI l1d_never_fails demo_l1d_run_ok)

text \<open>C9: in every state a new L1D can reach, a block is cached at most once and waited for by at most one register, a block
  that a register waits for is not in the cache, and the registers stand in the order they are served in: the completed ones first, by
  their event cycles.\<close>

theorem l1d_one_copy:
  assumes "l1d_run_ok es vm" "cache_run l1d_parts es (new_l1d vm) = Some w"
  shows "(\<forall>i j. i < length (blocks w) \<longrightarrow> j < length (blocks w) \<longrightarrow>
      eq_addr_block a (blocks w ! i) \<longrightarrow> eq_addr_block a (blocks w ! j) \<longrightarrow> i = j) \<and>
    (\<forall>m\<in>set (MSHR w). \<forall>n\<in>set (MSHR w). eq_addr_packet a (snd m) \<longrightarrow> eq_addr_packet a (snd n) \<longrightarrow> m = n) \<and>
    (\<forall>m\<in>set (MSHR w). eq_addr_packet a (snd m) \<longrightarrow> get_way w a (get_set w a) = NUM_WAY w) \<and>
    sorted_wrt served_before (MSHR w)"
proof (intro conjI allI ballI impI)
  note S = l1d_run_state[OF assms]
  note D = cache_okD[OF S(1)]
  show "i = j" if "i < length (blocks w)" "j < length (blocks w)" "eq_addr_block a (blocks w ! i)" "eq_addr_block a (blocks w ! j)" for i j
  proof -
    have "lines w ! i = Some (a, blk_data (blocks w ! i))" "lines w ! j = Some (a, blk_data (blocks w ! j))"
      using that line_nth[of i w] line_nth[of j w] by (simp_all add: eq_addr_block_def)
    with that(1,2) lines_okD(2)[OF D(4), of i j] S(2) types(6) show ?thesis by simp
  qed
  show "m = n" if "m \<in> set (MSHR w)" "n \<in> set (MSHR w)" "eq_addr_packet a (snd m)" "eq_addr_packet a (snd n)" for m n
    using D(6) that unfolding mshr_ok_def eq_addr_packet_def by blast
  show "sorted_wrt served_before (MSHR w)" by (rule D(14))
  fix m assume m: "m \<in> set (MSHR w)" "eq_addr_packet a (snd m)"
  show "get_way w a (get_set w a) = NUM_WAY w"
  proof (cases rule: get_way_cases[OF D(1,5) refl, of a])
    case (1 way d)
    have "Some (a, d) \<in> set (lines w)" using 1(3,4) nth_mem[of "get_set w a * NUM_WAY w + way" "lines w"] by simp
    moreover have "apart (lines w) (MSHR w)" using D(15) S(2) types(6) by simp
    ultimately show ?thesis using m unfolding apart_def eq_addr_packet_def by fastforce
  qed
qed

lemma l1d_one_copy_witness:
  "\<forall>vm. \<exists>w. cache_run l1d_parts demo_run (new_l1d vm) = Some w \<and> sorted_wrt served_before (MSHR w)"
proof
  fix vm
  obtain w where w: "cache_run l1d_parts demo_run (new_l1d vm) = Some w" using l1d_run[OF demo_l1d_run_ok] by blast
  with l1d_one_copy[OF demo_l1d_run_ok w] show "\<exists>w. cache_run l1d_parts demo_run (new_l1d vm) = Some w \<and> sorted_wrt served_before (MSHR w)" by blast
qed

text \<open>C22: the shape of a reachable L1D: 768 blocks, every valid one in the set of its address, 16 registers with nodes of their
  own, and in every queue only sound requests, whose core and access type index the counters within their bounds.\<close>

theorem l1d_well_formed:
  assumes "l1d_run_ok es vm" "cache_run l1d_parts es (new_l1d vm) = Some w"
  shows "length (blocks w) = 768 \<and> length (MSHR w) = 16 \<and> distinct (map fst (MSHR w)) \<and>
    (\<forall>i<768. blk_valid (blocks w ! i) \<noteq> 0 \<longrightarrow> get_set w (blk_address (blocks w ! i)) = i div 12) \<and>
    (\<forall>n\<in>set (MSHR w). is_valid_packet (snd n) \<longrightarrow> sound_request (snd n)) \<and>
    (\<forall>q\<in>{RQ w, PQ w, WQ w}. \<forall>p\<in>set (dq_view q). sound_request p)"
proof -
  note S = l1d_run_state[OF assms]
  note D = cache_okD[OF S(1)]
  have len: "length (blocks w) = 768" using D(5) S(3,4) by simp
  have "get_set w (blk_address (blocks w ! i)) = i div 12" if "i < 768" "blk_valid (blocks w ! i) \<noteq> 0" for i
    using lines_okD(1)[OF D(4), of i] line_nth[of i w] that len S(3,4) by (simp add: get_set_eq)
  moreover have "sound_request (snd n)" if "n \<in> set (MSHR w)" "is_valid_packet (snd n)" for n
    using D(6) that unfolding mshr_ok_def request_ok_def by blast
  moreover have "sound_request p" if "q \<in> {RQ w, PQ w, WQ w}" "p \<in> set (dq_view q)" for q p
    using D(7,8,9) that unfolding queue_ok_def request_ok_def by blast
  moreover have "length (MSHR w) = 16" using D(6) S(5) by (simp add: mshr_ok_def)
  ultimately show ?thesis using len D(13) by blast
qed

lemma l1d_well_formed_witness:
  "\<forall>vm. \<exists>w. cache_run l1d_parts demo_run (new_l1d vm) = Some w \<and> length (blocks w) = 768 \<and> length (MSHR w) = 16"
proof
  fix vm
  obtain w where w: "cache_run l1d_parts demo_run (new_l1d vm) = Some w" using l1d_run[OF demo_l1d_run_ok] by blast
  with l1d_well_formed[OF demo_l1d_run_ok w]
  show "\<exists>w. cache_run l1d_parts demo_run (new_l1d vm) = Some w \<and> length (blocks w) = 768 \<and> length (MSHR w) = 16" by blast
qed

text \<open>The states of the invariant; every state a run reaches is one (\<open>l1d_run\<close>).\<close>

definition l1d_ok :: "nat \<Rightarrow> vmem \<Rightarrow> l1d \<Rightarrow> bool" where
  "l1d_ok n vm w \<longleftrightarrow> cache_ok (l1d_contract n) True 0 w \<and> same_conf (new_l1d vm) w"

lemma l1d_okD:
  assumes "l1d_ok n vm w"
  shows "cache_ok (l1d_contract n) True 0 w" "cache_type w = IS_L1D" "NUM_SET w = 64" "NUM_WAY w = 12" "this_ptr w = 1"
  using assms by (auto simp: l1d_ok_def same_conf_def new_l1d_def new_cache_def l1d_conf_def)

lemma l1d_run_l1d_ok:
  "l1d_run_ok es vm \<Longrightarrow> cache_run l1d_parts es (new_l1d vm) = Some w \<Longrightarrow> l1d_ok (run_cost (new_l1d vm) es) vm w"
  using l1d_run[of es vm] by (auto simp: l1d_ok_def)

text \<open>a read that hits is served in one access: every requester gets the packet with the data of the one block that has its address,
  in the order of the requesters, and no line and no register changes.\<close>

theorem l1d_read_hit:
  assumes "l1d_ok n vm w" "request_ok w pkt" "i < length (blocks w)" "eq_addr_block (pk_address pkt) (blocks w ! i)"
  shows "\<exists>w'. read_access clk l1d_parts pkt w = Some (True, w') \<and>
    outbox w' = outbox w @ map (\<lambda>ret. (ret, pkt\<lparr>pk_data := blk_data (blocks w ! i)\<rparr>)) (pk_to_return pkt) \<and>
    lines w' = lines w \<and> MSHR w' = MSHR w"
proof -
  let ?a = "pk_address pkt"
  note S = l1d_okD[OF assms(1)]
  note D = cache_okD[OF S(1)]
  have li: "lines w ! i = Some (?a, blk_data (blocks w ! i))" using line_nth[of i w] assms(3,4) by (simp add: eq_addr_block_def)
  have si: "i div NUM_WAY w = get_set w ?a" using lines_okD(1)[OF D(4), of i] li assms(3) by (simp add: get_set_eq)
  show ?thesis
  proof (cases rule: get_way_cases[OF D(1,5) refl, of ?a])
    case (1 way d)
    let ?j = "get_set w ?a * NUM_WAY w + way"
    have "?j = i" using lines_okD(2)[OF D(4), of ?j i] 1(3,4) li assms(3) S(2) types(6) by simp
    moreover have "get_set w ?a < NUM_SET w" using D(1) set_of_bound by (simp add: get_set_eq conf_ok_def)
    note l1d.readlike_hit_law[OF S(1) assms(2) this 1(2), of clk]
    ultimately show ?thesis using 1(1,2) by (auto simp: read_access_def Let_def)
  next
    case 2
    from 2(2)[of i "(?a, blk_data (blocks w ! i))"] li si assms(3) show ?thesis by simp
  qed
qed

text \<open>An L1D that holds the block of the load.\<close>

definition warm_l1d :: "vmem \<Rightarrow> l1d" where
  "warm_l1d vm = (new_l1d vm)\<lparr>blocks := (blocks (new_l1d vm))[96 := block_of_packet (demo_load\<lparr>pk_data := 77\<rparr>)]\<rparr>"

lemma demo_load_set: "set_of 64 8 = 8"
  by (simp add: set_of_def lg2.simps)

lemma demo_block: "line_of (block_of_packet (demo_load\<lparr>pk_data := 77\<rparr>)) = Some (8, 77)" "dirty_of (block_of_packet p) = None"
  by (simp_all add: line_of_def dirty_of_def block_of_packet_def demo_load_sound)

lemma new_l1d_parts:
  "length (blocks (new_l1d vm)) = 768" "lines (new_l1d vm) = replicate 768 None" "dirty_lines (new_l1d vm) = replicate 768 None"
  "cache_type (new_l1d vm) = IS_L1D" "NUM_SET (new_l1d vm) = 64" "NUM_WAY (new_l1d vm) = 12" "MSHR (new_l1d vm) = mshr_new 16"
  "this_ptr (new_l1d vm) = 1" "MSHR_SIZE (new_l1d vm) = 16" "outbox (new_l1d vm) = []"
  by (simp_all add: new_l1d_def new_cache_def l1d_conf_def lines_def dirty_lines_def line_of_def dirty_of_def new_block_def)

lemma mshr_new_empty: "n \<in> set (mshr_new k) \<Longrightarrow> snd n = empty_packet"
  by (auto simp: mshr_new_def)

lemma empty_packet_free: "\<not> is_valid_packet empty_packet" "pk_returned empty_packet \<noteq> COMPLETED"
  by (simp_all add: empty_packet_def is_valid_packet_def code_defs)

lemma cache_ok_edit:
  fixes u :: "('p, 'l, 'r) world"
  assumes "cache_ok K True n u" "lines_ok (cache_type u) (k_sets K) (k_ways K) (map line_of bs)" "mshr_ok u ms"
    and "apart (map line_of bs) ms" "Some 0 \<notin> set (map dirty_of bs)" "\<not> is_tlb (cache_type u)"
  shows "cache_ok K True n (u\<lparr>blocks := bs, MSHR := ms\<rparr>)"
proof -
  have "mshr_ok (u\<lparr>blocks := bs, MSHR := ms\<rparr>) ms" using assms(3) mshr_ok_conf[of u "u\<lparr>blocks := bs, MSHR := ms\<rparr>"]
    by (simp add: same_conf_def)
  moreover have "queue_ok n (u\<lparr>blocks := bs, MSHR := ms\<rparr>) q = queue_ok n u q" for n q
    by (rule queue_ok_conf) (simp add: same_conf_def)
  ultimately show ?thesis
    using assms unfolding cache_ok_def by (simp add: lines_def dirty_lines_def conf_ok_def)
qed

lemma same_conf_edit: "same_conf u ((u :: ('p, 'l, 'r) world)\<lparr>blocks := bs, MSHR := ms\<rparr>)"
  by (simp add: same_conf_def)

lemma l1d_edit_ok:
  assumes "lines_ok IS_L1D 64 12 (map line_of bs)" "mshr_ok (new_l1d vm) ms" "apart (map line_of bs) ms" "Some 0 \<notin> set (map dirty_of bs)"
  shows "l1d_ok 0 vm ((new_l1d vm)\<lparr>blocks := bs, MSHR := ms\<rparr>)"
  unfolding l1d_ok_def
proof (rule conjI[OF cache_ok_edit[OF new_l1d_ok] same_conf_edit])
  show "lines_ok (cache_type (new_l1d vm)) (k_sets (l1d_contract 0)) (k_ways (l1d_contract 0)) (map line_of bs)"
    using assms(1) by (simp add: new_l1d_parts l1d_contract_def data_contract_def)
qed (use assms types in \<open>simp_all add: new_l1d_parts\<close>)

lemma new_l1d_mshr_ok: "mshr_ok (new_l1d vm) (mshr_new 16)"
  using cache_okD(6)[OF new_l1d_ok[of 0 vm]] by (simp add: new_l1d_parts)

lemma warm_l1d_ok: "l1d_ok 0 vm (warm_l1d vm)"
proof -
  let ?bs = "(blocks (new_l1d vm))[96 := block_of_packet (demo_load\<lparr>pk_data := 77\<rparr>)]"
  have l: "map line_of ?bs = (replicate 768 None)[96 := Some (8, 77)]"
    using demo_block(1) by (simp add: map_update new_l1d_parts(2)[unfolded lines_def])
  have d: "map dirty_of ?bs = (replicate 768 None)[96 := None]"
    using demo_block(2) by (simp add: map_update new_l1d_parts(3)[unfolded dirty_lines_def])
  have "lines_ok IS_L1D 64 12 ((replicate 768 None)[96 := Some (8, 77)])"
    by (rule lines_ok_update) (auto simp: lines_ok_def demo_load_set)
  moreover have "apart (map line_of ?bs) (mshr_new 16)" using mshr_new_empty empty_packet_free(1) by (auto simp: apart_def)
  moreover have "Some 0 \<notin> set (map dirty_of ?bs)" unfolding d using set_update_subset_insert[of "replicate 768 None" 96 None] by auto
  ultimately have "l1d_ok 0 vm ((new_l1d vm)\<lparr>blocks := ?bs, MSHR := mshr_new 16\<rparr>)" using new_l1d_mshr_ok l by (intro l1d_edit_ok) simp_all
  moreover have "warm_l1d vm = (new_l1d vm)\<lparr>blocks := ?bs, MSHR := MSHR (new_l1d vm)\<rparr>" by (simp add: warm_l1d_def)
  ultimately show ?thesis by (simp only: new_l1d_parts)
qed

lemma l1d_read_hit_witness:
  "\<forall>vm. \<exists>w. read_access demo_clock l1d_parts demo_load (warm_l1d vm) = Some (True, w) \<and> outbox w = [(0, demo_load\<lparr>pk_data := 77\<rparr>)]"
proof
  fix vm
  have b: "blocks (warm_l1d vm) ! 96 = block_of_packet (demo_load\<lparr>pk_data := 77\<rparr>)" "length (blocks (warm_l1d vm)) = 768"
    by (simp_all add: warm_l1d_def new_l1d_parts)
  have "request_ok (warm_l1d vm) demo_load"
    using demo_load_sound types(1,7) by (simp add: request_ok_def warm_l1d_def new_l1d_parts)
  moreover have "eq_addr_block (pk_address demo_load) (block_of_packet (demo_load\<lparr>pk_data := 77\<rparr>))"
    by (simp add: eq_addr_block_def block_of_packet_def)
  ultimately show "\<exists>w. read_access demo_clock l1d_parts demo_load (warm_l1d vm) = Some (True, w) \<and> outbox w = [(0, demo_load\<lparr>pk_data := 77\<rparr>)]"
    using l1d_read_hit[OF warm_l1d_ok, of vm demo_load 96 demo_clock] b demo_load_sound(2)
    by (auto simp: block_of_packet_def warm_l1d_def new_l1d_parts)
qed

lemma add_wq_refuses: "add_wq clk p l = Some (- 2, l') \<Longrightarrow> dq_full (WQ l)"
  by (auto simp: add_wq_def Let_def bind_eq_Some_conv upd_stats_def split: option.splits if_splits)

text \<open>A writeback of the L1D is refused when the write queue of the L2C is full.\<close>

lemma l1d_write_refused:
  assumes "write_refused clk l1d_parts e b w"
  shows "blk_dirty b \<noteq> 0 \<and> (lower_full l1d_parts 2 (blk_address b) w \<or> dq_full (WQ (lower_level w)))"
  using assms add_wq_refuses unfolding write_refused_def by (fastforce simp: data_parts_def cache_consumer_def)

text \<open>The victim of the L1D: the block of the set that \<^verbatim>\<open>lru_victim\<close> names.\<close>

definition l1d_victim :: "packet \<Rightarrow> l1d \<Rightarrow> block" where
  "l1d_victim e w = (let row = set_row w (get_set w (pk_address e)) in row ! lru_victim row)"

lemma l1d_find_victim:
  assumes "find_victim l1d_parts (get_set w (pk_address e)) e w = Some (way, u)" "way < NUM_WAY w"
    and "length (blocks w) = NUM_SET w * NUM_WAY w" "get_set w (pk_address e) < NUM_SET w"
  shows "blocks w ! (get_set w (pk_address e) * NUM_WAY w + way) = l1d_victim e w"
proof -
  have "way = lru_victim (set_row w (get_set w (pk_address e)))"
    using assms(1) by (auto simp: find_victim_def data_parts_def lru_policy_def)
  moreover have "get_set w (pk_address e) * NUM_WAY w \<le> length (blocks w)" unfolding assms(3) using assms(4) by (intro mult_le_mono1) simp
  ultimately show ?thesis using assms(2,3) by (simp add: l1d_victim_def Let_def set_row_def)
qed

text \<open>C10: a fill serves the register at the head of the list once its data is there and its cycle has come. Either the block is installed
  with that data, the register is freed and every requester gets the packet with the data; or the victim of the set, the block that
  \<^verbatim>\<open>lru_victim\<close> names, is dirty and the write queue of the L2C is full, and then the registers and the lines stay as they are
  for the next attempt.\<close>

theorem l1d_fill_answers:
  assumes "l1d_ok n vm w" "MSHR w = (node, e) # ms" "pk_returned e = COMPLETED" "\<not> pk_event_cycle e > current_core_cycle clk (pk_cpu e)"
  shows "(\<exists>w' md. fill_step clk l1d_parts w = Some (True, w') \<and>
      (\<exists>i<length (blocks w'). eq_addr_block (pk_address e) (blocks w' ! i) \<and> blk_data (blocks w' ! i) = pk_data e) \<and>
      MSHR w' = mshr_sort ((node, empty_packet) # ms) \<and>
      outbox w' = outbox w @ map (\<lambda>ret. (ret, e\<lparr>pk_pf_metadata := md\<rparr>)) (pk_to_return e)) \<or>
    (\<exists>w'. fill_step clk l1d_parts w = Some (False, w') \<and> blk_dirty (l1d_victim e w) \<noteq> 0 \<and>
      (lower_full l1d_parts 2 (blk_address (l1d_victim e w)) w \<or> dq_full (WQ (lower_level w))) \<and>
      MSHR w' = MSHR w \<and> lines w' = lines w \<and> outbox w' = outbox w)"
proof -
  note S = l1d_okD[OF assms(1)]
  note D = cache_okD[OF S(1)]
  have "fill_due clk w" using assms(2-4) by (simp add: fill_due_def)
  with l1d.fill_step_law[OF S(1), of clk] assms(2) obtain r w' where
    f: "fill_step clk l1d_parts w = Some (r, w')"
      "r \<longrightarrow> (\<exists>md. MSHR w' = mshr_sort ((node, empty_packet) # ms) \<and> Some (pk_address e, pk_data e) \<in> set (lines w') \<and>
        outbox w' = outbox w @ map (\<lambda>ret. (ret, e\<lparr>pk_pf_metadata := md\<rparr>)) (pk_to_return e))"
      "\<not> r \<longrightarrow> MSHR w' = MSHR w \<and> lines w' = lines w \<and> outbox w' = outbox w \<and>
        (\<exists>way u. find_victim l1d_parts (get_set w (pk_address e)) e w = Some (way, u) \<and> way < NUM_WAY w \<and>
           write_refused clk l1d_parts e (blocks w ! (get_set w (pk_address e) * NUM_WAY w + way)) w)" by auto
  show ?thesis
  proof (cases r)
    case True
    with f(2) obtain md where m: "MSHR w' = mshr_sort ((node, empty_packet) # ms)" "Some (pk_address e, pk_data e) \<in> set (lines w')"
      "outbox w' = outbox w @ map (\<lambda>ret. (ret, e\<lparr>pk_pf_metadata := md\<rparr>)) (pk_to_return e)" by blast
    have "\<exists>i<length (blocks w'). eq_addr_block (pk_address e) (blocks w' ! i) \<and> blk_data (blocks w' ! i) = pk_data e"
      using m(2) by (auto simp: in_set_conv_nth lines_def line_of_def eq_addr_block_def split: if_splits)
    with True f(1) m show ?thesis by (intro disjI1 exI[of _ w'] exI[of _ md] conjI) simp_all
  next
    case False
    with f(3) obtain way u where v: "find_victim l1d_parts (get_set w (pk_address e)) e w = Some (way, u)" "way < NUM_WAY w"
      "write_refused clk l1d_parts e (blocks w ! (get_set w (pk_address e) * NUM_WAY w + way)) w" by blast
    have "get_set w (pk_address e) < NUM_SET w" using D(1) set_of_bound by (simp add: get_set_eq conf_ok_def)
    from l1d_write_refused[OF v(3)[unfolded l1d_find_victim[OF v(1,2) D(5) this]]] False f(1,3)
    show ?thesis by (intro disjI2 exI[of _ w']) simp
  qed
qed

text \<open>A new cache with one register in use.\<close>

lemma mshr_ok_one:
  assumes "mshr_ok u (mshr_new k)" "request_ok u p"
  shows "mshr_ok u ((0, p) # tl (mshr_new k))"
proof -
  have "0 < k" using assms(1) by (auto simp: mshr_ok_def mshr_new_def)
  then have new: "mshr_new k = (0, empty_packet) # tl (mshr_new k)" by (simp add: mshr_new_def upt_conv_Cons)
  have tl0: "snd n = empty_packet" "fst n \<noteq> 0" if "n \<in> set (tl (mshr_new k))" for n
    using that \<open>0 < k\<close> by (auto simp: mshr_new_def upt_conv_Cons)
  have put: "mshr_put 0 p (mshr_new k) = (0, p) # tl (mshr_new k)"
  proof -
    have "map (\<lambda>n. if fst n = 0 then (0, p) else n) (tl (mshr_new k)) = tl (mshr_new k)"
      by (intro map_idI) (metis tl0(2))
    then show ?thesis by (subst new) (simp add: mshr_put_def)
  qed
  have a: "pk_address p \<noteq> 0" "is_valid_packet p" using assms(2) by (simp_all add: request_ok_def sound_request_def is_valid_packet_def)
  show ?thesis
  proof (rule mshr_ok_put[OF assms(1), of 0 empty_packet p])
    show "(0, empty_packet) \<in> set (mshr_new k)" by (subst new) simp
    show "sorted_wrt served_before ((0, p) # tl (mshr_new k))"
    proof -
      have "sorted_wrt served_before (tl (mshr_new k))" using assms(1) by (subst (asm) new) (simp add: mshr_ok_def)
      moreover have "served_before (0, p) n" if "n \<in> set (tl (mshr_new k))" for n
        using tl0(1)[OF that] empty_packet_free(2) by (simp add: served_before_def)
      ultimately show ?thesis by simp
    qed
    show "pk_address (snd n) \<noteq> pk_address p" if "n \<in> set (mshr_new k)" for n
      using mshr_new_empty[OF that] a(1) by (simp add: empty_packet_def)
  qed (use a assms(2) put in simp_all)
qed

text \<open>An L1D with the answer to the load in its first register.\<close>

definition answered_load :: packet where
  "answered_load = demo_load\<lparr>pk_returned := COMPLETED, pk_event_cycle := 0, pk_data := 77\<rparr>"

definition answered_l1d :: "vmem \<Rightarrow> l1d" where
  "answered_l1d vm = (new_l1d vm)\<lparr>MSHR := (0, answered_load) # tl (mshr_new 16)\<rparr>"

lemma answered_l1d_ok: "l1d_ok 0 vm (answered_l1d vm)"
proof -
  have "request_ok (new_l1d vm) answered_load"
    using demo_load_sound types(1,7) by (simp add: answered_load_def request_ok_def sound_request_def new_l1d_parts)
  then have "mshr_ok (new_l1d vm) ((0, answered_load) # tl (mshr_new 16))" by (rule mshr_ok_one[OF new_l1d_mshr_ok])
  moreover have "lines_ok IS_L1D 64 12 (replicate 768 None)" by (simp add: lines_ok_def)
  ultimately have "l1d_ok 0 vm ((new_l1d vm)\<lparr>blocks := blocks (new_l1d vm), MSHR := (0, answered_load) # tl (mshr_new 16)\<rparr>)"
    by (intro l1d_edit_ok) (simp_all add: apart_def new_l1d_parts(2)[unfolded lines_def] new_l1d_parts(3)[unfolded dirty_lines_def])
  then show ?thesis by (simp add: answered_l1d_def)
qed

lemma l1d_fill_answers_witness:
  "\<forall>vm. \<exists>w md. fill_step demo_clock l1d_parts (answered_l1d vm) = Some (True, w) \<and>
     (\<exists>i<length (blocks w). eq_addr_block 8 (blocks w ! i) \<and> blk_data (blocks w ! i) = 77) \<and>
     outbox w = [(0, answered_load\<lparr>pk_pf_metadata := md\<rparr>)]"
proof
  fix vm
  have new: "b = new_block" if "b \<in> set (blocks (answered_l1d vm))" for b
    using that by (simp add: answered_l1d_def new_l1d_def new_cache_def)
  have "blk_dirty (l1d_victim answered_load (answered_l1d vm)) = 0"
  proof -
    let ?row = "set_row (answered_l1d vm) (get_set (answered_l1d vm) (pk_address answered_load))"
    have "length (blocks (answered_l1d vm)) = 768" "NUM_WAY (answered_l1d vm) = 12" "NUM_SET (answered_l1d vm) = 64"
      by (simp_all add: answered_l1d_def new_l1d_parts)
    then have l: "length ?row = 12" using set_of_bound[of 64 "pk_address answered_load"] by (simp add: set_row_def get_set_eq)
    then have "lru_victim ?row < length ?row" by (intro lru_victim_bound) auto
    then have "l1d_victim answered_load (answered_l1d vm) \<in> set ?row" by (simp add: l1d_victim_def Let_def)
    then have "l1d_victim answered_load (answered_l1d vm) \<in> set (blocks (answered_l1d vm))"
      unfolding set_row_def by (blast dest: in_set_takeD in_set_dropD)
    from new[OF this] show ?thesis by (simp add: new_block_def)
  qed
  moreover have "pk_address answered_load = 8" "pk_data answered_load = 77" "pk_to_return answered_load = [0]"
    "outbox (answered_l1d vm) = []"
    by (simp_all add: answered_load_def demo_load_sound answered_l1d_def new_l1d_parts)
  moreover have "MSHR (answered_l1d vm) = (0, answered_load) # tl (mshr_new 16)" "pk_returned answered_load = COMPLETED"
    "\<not> pk_event_cycle answered_load > current_core_cycle demo_clock (pk_cpu answered_load)"
    by (simp_all add: answered_l1d_def answered_load_def demo_clock_def)
  ultimately show "\<exists>w md. fill_step demo_clock l1d_parts (answered_l1d vm) = Some (True, w) \<and>
     (\<exists>i<length (blocks w). eq_addr_block 8 (blocks w ! i) \<and> blk_data (blocks w ! i) = 77) \<and>
     outbox w = [(0, answered_load\<lparr>pk_pf_metadata := md\<rparr>)]"
    using l1d_fill_answers[OF answered_l1d_ok, of vm 0 answered_load _ demo_clock] by auto
qed

section \<open>The second-level TLB against the page tables\<close>

lemma stlb_memory:
  obtains vm where "virtual_memory 1 67108864 4096 5 200 = Some vm" "tables_ok 256 4 vm"
proof -
  have r: "reserve_ppages 4096 = 256" by (simp add: reserve_ppages_def VMEM_RESERVE_CAPACITY_def)
  have l: "lg2 4096 = 12" using lg2_pow[of 12] by simp
  from virtual_memory_some[of 67108864 4096 16384 1 5 200] r l obtain vm where
    vm: "virtual_memory 1 67108864 4096 5 200 = Some vm" "num_cpus vm = 1" "length (ppage_free_list vm) = 16128" by auto
  have "2 ^ page_bits vm = (2 :: nat) ^ 12" using virtual_memory_ok(2)[OF vm(1)] by simp
  then have "page_bits vm = 12" by (rule power_inject_exp[THEN iffD1, rotated]) simp
  then have "tables_ok 256 4 vm" using virtual_memory_ok(1)[OF vm(1)] r vm(2,3) by (simp add: tables_ok_def LOG2_PAGE_SIZE_def NUM_CPUS_def)
  with vm(1) show thesis by (rule that)
qed

text \<open>C8: the second-level TLB never disagrees with the page tables: a new one over page tables with a free page for every packet completes
  every run, and then every valid line, and every register that is completed, holds the frame that the page tables map its page to.\<close>

theorem stlb_serves_page_tables:
  assumes "tables_ok r (run_cost (new_stlb vm) es) vm" "run_cost (new_stlb vm) es < 2 ^ 62" "run_ok stlb_parts (stlb_contract r) es (new_stlb vm)"
  shows "\<exists>w. cache_run stlb_parts es (new_stlb vm) = Some w \<and>
    (\<forall>b\<in>set (blocks w). blk_valid b \<noteq> 0 \<longrightarrow> mapped (vmem_state w) (0, 0, blk_address b) = Some (blk_data b)) \<and>
    (\<forall>n\<in>set (MSHR w). pk_returned (snd n) = COMPLETED \<longrightarrow> mapped (vmem_state w) (0, 0, pk_address (snd n)) = Some (pk_data (snd n)))"
proof -
  from stlb.run_law[where n = 0 and w = "new_stlb vm" and es = es and r = r] new_stlb_ok[OF assms(1,2)] assms(3) obtain w where
    w: "cache_run stlb_parts es (new_stlb vm) = Some w" "cache_ok (stlb_contract r) True 0 w" "same_conf (new_stlb vm) w" by auto
  have "is_tlb (cache_type w)" using w(3) by (simp add: same_conf_def new_stlb_def new_cache_def stlb_conf_def is_tlb_def)
  from cache_okD(16)[OF w(2) this]
  have g: "good_data (translates (vmem_state w)) (lines w) (MSHR w)" by (simp add: stlb_contract_def)
  have "Some (blk_address b, blk_data b) \<in> set (lines w)" if "b \<in> set (blocks w)" "blk_valid b \<noteq> 0" for b
    using that by (force simp: lines_def line_of_def)
  with g w(1) show ?thesis unfolding good_data_def translates_def by fastforce
qed

definition demo_lookup :: "(clock \<times> 'l cache_event) list" where
  "demo_lookup = [(demo_clock, AddRq (demo_load\<lparr>pk_address := 8, pk_full_addr := 0x8123\<rparr>)), (demo_clock, Operate)]"

lemma stlb_serves_page_tables_witness:
  "\<exists>vm w. virtual_memory 1 67108864 4096 5 200 = Some vm \<and> cache_run stlb_parts demo_lookup (new_stlb vm) = Some w \<and>
    (\<forall>b\<in>set (blocks w). blk_valid b \<noteq> 0 \<longrightarrow> mapped (vmem_state w) (0, 0, blk_address b) = Some (blk_data b))"
proof -
  obtain vm where vm: "virtual_memory 1 67108864 4096 5 200 = Some vm" "tables_ok 256 4 vm" by (rule stlb_memory)
  let ?es = "demo_lookup :: (clock \<times> unit cache_event) list"
  have c: "run_cost (new_stlb vm) ?es = 4"
    by (simp add: run_cost_def demo_lookup_def cycle_cost_def new_stlb_def new_cache_def stlb_conf_def)
  have "request_ok (new_stlb vm) (demo_load\<lparr>pk_address := 8, pk_full_addr := 0x8123\<rparr>)"
    using demo_load_sound
    by (simp add: request_ok_def new_stlb_def new_cache_def stlb_conf_def sound_request_def LOG2_PAGE_SIZE_def code_defs branch_defs)
  then have "run_ok stlb_parts (stlb_contract 256) ?es (new_stlb vm)" by (simp add: demo_lookup_def split: option.splits)
  with stlb_serves_page_tables[of 256 vm ?es] vm c show ?thesis by auto
qed

section \<open>What the cache loses\<close>

definition l2c_ok :: "nat \<Rightarrow> vmem \<Rightarrow> l2c \<Rightarrow> bool" where
  "l2c_ok n vm w \<longleftrightarrow> cache_ok (l2c_contract n) True 0 w \<and> same_conf (new_l2c vm) w"

text \<open>C24: a demand read that misses on a block a prefetch already waits for takes over the register, and with it the requesters and
  the data: whoever asked for the prefetch and not for the demand is named by no register any more and gets no answer, and
  a register that was completed serves the data of the demand packet, not the data that came back. In the L2C, which both L1
  caches ask, this leaves a register of one of them waiting forever.\<close>

theorem demand_drops_prefetch_requesters:
  assumes "l2c_ok n vm w" "request_ok w pkt" "ptype pkt \<noteq> PREFETCH" "(node, e) \<in> set (MSHR w)" "eq_addr_packet (pk_address pkt) e"
    and "ptype e = PREFETCH" "ret \<in> set (pk_to_return e)" "ret \<notin> set (pk_to_return pkt)"
  shows "\<exists>w'. readlike_miss clk l2c_parts pkt w = Some (True, w') \<and> outbox w' = outbox w \<and>
    (\<exists>e'. (node, e') \<in> set (MSHR w') \<and> eq_addr_packet (pk_address pkt) e' \<and> pk_returned e' = pk_returned e \<and> pk_data e' = pk_data pkt) \<and>
    (\<forall>m\<in>set (MSHR w'). eq_addr_packet (pk_address pkt) (snd m) \<longrightarrow> ret \<notin> set (pk_to_return (snd m)))"
proof -
  have ok: "cache_ok (l2c_contract n) True 0 w" using assms(1) by (simp add: l2c_ok_def)
  note D = cache_okD[OF ok]
  let ?Q = "eq_addr_packet (pk_address pkt)"
  obtain i where i: "mshr_find ?Q (MSHR w) = Some i" using mshr_find_exI[OF assms(4)] assms(5) by auto
  note f = mshr_find_SomeD[OF i]
  have "MSHR w ! i = (node, e)"
    using D(6) f(2,3) assms(4,5) unfolding mshr_ok_def eq_addr_packet_def by (metis snd_conv)
  moreover define p where "p = merge_into_mshr pkt e"
  ultimately have run: "readlike_miss clk l2c_parts pkt w =
      map_option (Pair True) (train_prefetcher clk l2c_parts pkt False (pk_address pkt) 0 (w\<lparr>MSHR := mshr_put node p (MSHR w)\<rparr>))"
    using i by (simp add: readlike_miss_def Let_def)
  have p: "p = pkt\<lparr>pk_returned := pk_returned e, pk_event_cycle := pk_event_cycle e\<rparr>"
    using assms(3,6) by (simp add: p_def merge_into_mshr_def merge_into_rq_def Let_def)
  have "cache_ok (l2c_contract n) True 0 (w\<lparr>MSHR := mshr_put node p (MSHR w)\<rparr>)"
    using l2c.merge_law[OF ok assms(2) i] \<open>MSHR w ! i = (node, e)\<close> by (simp add: p_def)
  from l2c.train_law[OF this, of pkt clk False "pk_address pkt" 0] assms(2) obtain w1 where
    w1: "train_prefetcher clk l2c_parts pkt False (pk_address pkt) 0 (w\<lparr>MSHR := mshr_put node p (MSHR w)\<rparr>) = Some w1"
      "MSHR w1 = mshr_put node p (MSHR w)" "outbox w1 = outbox w" by (auto simp: request_ok_def sound_request_def pf_keep_def)
  have mem: "m \<in> set (MSHR w1) \<longleftrightarrow> m = (node, p) \<or> (m \<in> set (MSHR w) \<and> fst m \<noteq> node)" for m
    unfolding w1(2) by (rule mshr_put_mem[OF D(13) assms(4)])
  have "ret \<notin> set (pk_to_return (snd m))" if "m \<in> set (MSHR w1)" "?Q (snd m)" for m
  proof -
    have "m = (node, e)" if "m \<in> set (MSHR w)"
      using D(6) that assms(4,5) \<open>?Q (snd m)\<close> unfolding mshr_ok_def eq_addr_packet_def by (metis snd_conv)
    then have "m = (node, p)" using that(1) mem[of m] by auto
    then show ?thesis using assms(8) by (simp add: p)
  qed
  moreover have "(node, p) \<in> set (MSHR w1)" "?Q p" using mem assms(5) by (auto simp: p eq_addr_packet_def is_valid_packet_def)
  moreover have "pk_returned p = pk_returned e" "pk_data p = pk_data pkt" by (simp_all add: p)
  ultimately show ?thesis using run w1(1,3) by (intro exI[of _ w1]) auto
qed

text \<open>An L2C with a register for a prefetch that the L1D (1) waits for, and a load from the L1I (0) to the same block.\<close>

definition waiting_prefetch :: packet where
  "waiting_prefetch = demo_load\<lparr>pk_type := 2, pk_returned := COMPLETED, pk_event_cycle := 0, pk_data := 77, pk_to_return := [1]\<rparr>"

definition prefetching_l2c :: "vmem \<Rightarrow> l2c" where
  "prefetching_l2c vm = (new_l2c vm)\<lparr>blocks := blocks (new_l2c vm), MSHR := (0, waiting_prefetch) # tl (mshr_new 32)\<rparr>"

lemma new_l2c_parts:
  "lines (new_l2c vm) = replicate 8192 None" "dirty_lines (new_l2c vm) = replicate 8192 None" "cache_type (new_l2c vm) = IS_L2C"
  "MSHR (new_l2c vm) = mshr_new 32" "this_ptr (new_l2c vm) = 2"
  by (simp_all add: new_l2c_def new_cache_def l2c_conf_def lines_def dirty_lines_def line_of_def dirty_of_def new_block_def)

lemma prefetching_l2c_ok: "l2c_ok 0 vm (prefetching_l2c vm)"
proof -
  have ok: "cache_ok (l2c_contract 0) True 0 (new_l2c vm)" by (rule new_l2c_ok) simp
  have "request_ok (new_l2c vm) waiting_prefetch"
    using demo_load_sound types(2,8)
    by (simp add: waiting_prefetch_def request_ok_def sound_request_def new_l2c_parts code_defs branch_defs)
  with cache_okD(6)[OF ok] have "mshr_ok (new_l2c vm) ((0, waiting_prefetch) # tl (mshr_new 32))"
    using mshr_ok_one[of "new_l2c vm" 32] by (simp add: new_l2c_parts)
  moreover have "lines_ok IS_L2C 1024 8 (replicate 8192 None)" by (simp add: lines_ok_def)
  ultimately show ?thesis using types(2) unfolding l2c_ok_def prefetching_l2c_def
    by (intro conjI cache_ok_edit[OF ok] same_conf_edit)
      (simp_all add: apart_def new_l2c_parts(1)[unfolded lines_def] new_l2c_parts(2)[unfolded dirty_lines_def] new_l2c_parts
        l2c_contract_def data_contract_def)
qed

lemma demand_drops_prefetch_requesters_witness:
  "\<forall>vm. \<exists>w. readlike_miss demo_clock l2c_parts demo_load (prefetching_l2c vm) = Some (True, w) \<and>
    (\<forall>m\<in>set (MSHR w). eq_addr_packet 8 (snd m) \<longrightarrow> 1 \<notin> set (pk_to_return (snd m)))"
proof
  fix vm
  have "request_ok (prefetching_l2c vm) demo_load"
    using demo_load_sound types(2,8) by (simp add: request_ok_def prefetching_l2c_def new_l2c_parts)
  moreover have "ptype demo_load \<noteq> PREFETCH" "ptype waiting_prefetch = PREFETCH" "eq_addr_packet (pk_address demo_load) waiting_prefetch"
    "1 \<in> set (pk_to_return waiting_prefetch)" "1 \<notin> set (pk_to_return demo_load)" "(0, waiting_prefetch) \<in> set (MSHR (prefetching_l2c vm))"
    using demo_load_sound by (simp_all add: waiting_prefetch_def eq_addr_packet_def is_valid_packet_def branch_defs prefetching_l2c_def)
  ultimately show "\<exists>w. readlike_miss demo_clock l2c_parts demo_load (prefetching_l2c vm) = Some (True, w) \<and>
    (\<forall>m\<in>set (MSHR w). eq_addr_packet 8 (snd m) \<longrightarrow> 1 \<notin> set (pk_to_return (snd m)))"
    using demand_drops_prefetch_requesters[OF prefetching_l2c_ok, of vm demo_load 0 waiting_prefetch 1 demo_clock] demo_load_sound(4) by auto
qed

text \<open>What a prefetch by virtual address asks for, and what the translation makes of it: the packet names the cache itself as its requester.\<close>

definition va_packet :: "clock \<Rightarrow> 'a cache_scheme \<Rightarrow> u64 \<Rightarrow> u64 \<Rightarrow> int \<Rightarrow> u32 \<Rightarrow> packet" where
  "va_packet clk w ip va lvl md = (pf_packet clk w ip va lvl md)
     \<lparr>pk_v_address := drop_bit LOG2_BLOCK_SIZE va, pk_full_v_addr := va, pk_event_cycle := 0, pk_to_return := [this_ptr w]\<rparr>"

lemma va_packet_fields:
  "pk_to_return (va_packet clk w ip va lvl md) = [this_ptr w]" "ptype (va_packet clk w ip va lvl md) = PREFETCH"
  "pk_full_v_addr (va_packet clk w ip va lvl md) = va" "pk_pf_origin_level (va_packet clk w ip va lvl md) = fill_level w"
  by (simp_all add: va_packet_def pf_packet_def branch_defs)

lemma va_prefetch_line_queues:
  assumes run: "va_prefetch_line clk ip va lvl md w = Some (True, w')" and q: "dq_safe n (VAPQ w)" "dq_view (VAPQ w) = []"
  shows "dq_view (VAPQ w') = [va_packet clk w ip va lvl md]"
proof -
  let ?u = "upd_stats (\<lambda>s. s\<lparr>pf_requested := pf_requested s + 1\<rparr>) w"
  have u: "VAPQ ?u = VAPQ w" "va_packet clk ?u = va_packet clk w" by (simp_all add: upd_stats_def va_packet_def[abs_def] pf_packet_def)
  have none: "dq_find Q (VAPQ w) = None" for Q using dq_find_SomeD(1)[OF q(1)] q(2) by (cases "dq_find Q (VAPQ w)") auto
  from run obtain p where p: "dq_push_back (va_packet clk w ip va lvl md) (VAPQ w) = Some p" "\<not> dq_full (VAPQ w)" "VAPQ w' = p"
    by (auto simp: va_prefetch_line_def Let_def u none bind_eq_Some_conv va_packet_def[symmetric] split: if_splits)
  from dq_safe_push[OF q(1) p(2), of "dq_latency (VAPQ w)" "va_packet clk w ip va lvl md"] p q(2) show ?thesis
    by (auto simp: dq_push_back_def)
qed

lemma va_translate_queues:
  assumes run: "va_translate_prefetches clk w = Some w'" and va: "dq_safe n (VAPQ w)" "dq_has_ready (VAPQ w)" "dq_view (VAPQ w) = [p]"
    and q: "dq_safe n (PQ w)" "dq_view (PQ w) = []" "dq_safe n (WQ w)" "dq_view (WQ w) = []"
    and pa: "va_to_pa (cache_cpu w) (pk_full_v_addr p) (vmem_state w) = Some (pa, vm)"
  shows "dq_view (PQ w') = [] \<or> dq_view (PQ w') = [p\<lparr>pk_full_addr := pa, pk_address := drop_bit LOG2_BLOCK_SIZE pa\<rparr>]"
proof (cases "dq_full (PQ w)")
  case True
  with run q show ?thesis by (simp add: va_translate_prefetches_def)
next
  case False
  have f: "dq_front (VAPQ w) = p" using dq_safe_ready(2)[OF va(1,2)] va(3) by simp
  let ?p = "p\<lparr>pk_full_addr := pa, pk_address := drop_bit LOG2_BLOCK_SIZE pa\<rparr>"
  have none: "dq_find Q (PQ w) = None" "dq_find Q (WQ w) = None" for Q
    using dq_find_SomeD(1)[OF q(1)] dq_find_SomeD(1)[OF q(3)] q(2,4) by (cases "dq_find Q (PQ w)"; cases "dq_find Q (WQ w)"; auto)+
  have wq: "find_wq ?p (upd_stats g (w\<lparr>vmem_state := vm\<rparr>)) = None" for g using none(2) by (simp add: find_wq_def upd_stats_def)
  from run False va(2) pa obtain r x where x: "add_pq clk ?p (w\<lparr>vmem_state := vm\<rparr>) = Some (r, x)" "PQ w' = PQ x"
    by (auto simp: va_translate_prefetches_def f bind_eq_Some_conv)
  then obtain y where y: "push_timed clk (upd_stats (\<lambda>s. s\<lparr>PQ_ACCESS := PQ_ACCESS s + 1\<rparr>) (w\<lparr>vmem_state := vm\<rparr>)) ?p (PQ w) = Some y" "PQ x = y"
    using False none(1) wq by (auto simp: add_pq_def Let_def bind_eq_Some_conv upd_stats_def find_wq_def split: if_splits)
  then obtain d where "dq_push_delayed d ?p (PQ w) = Some y"
    by (auto simp: push_timed_def dq_push_back_def dq_push_back_ready_def split: if_splits)
  with dq_safe_push[OF q(1) False, of d ?p] q(2) x(2) y(2) show ?thesis by auto
qed

text \<open>C25: a prefetch by virtual address cannot hit. The packet of \<open>va_prefetch_line\<close> names the cache itself as its requester; when it has been
  translated and comes to the front of the prefetch queue, and its block is in the cache by then, with no register that waits for it
  (a block in the cache has none), the hit answers the requester and the assertion of \<open>return_data\<close> fails. The states are
  the L1D when the prefetch is requested (\<open>w0\<close>), when it is translated (\<open>w2\<close>) and when its access is made (\<open>w4\<close>); nothing else is
  waiting in the queues it goes through, and the rest of the cache may have changed in between.\<close>

theorem va_prefetch_hit_fails:
  fixes w0 w1 w2 w3 w4 :: l1d
  assumes request: "va_prefetch_line clk0 ip va lvl md w0 = Some (True, w1)" "dq_safe 1 (VAPQ w0)" "dq_view (VAPQ w0) = []"
    and translation: "same_conf w0 w2" "dq_view (VAPQ w2) = dq_view (VAPQ w1)" "dq_has_ready (VAPQ w2)" "dq_safe 1 (VAPQ w2)"
      "dq_safe 1 (PQ w2)" "dq_view (PQ w2) = []" "dq_safe 1 (WQ w2)" "dq_view (WQ w2) = []"
      "va_to_pa (cache_cpu w2) va (vmem_state w2) = Some (pa, vm)" "va_translate_prefetches clk2 w2 = Some w3"
    and access: "same_conf w0 w4" "dq_view (PQ w4) = dq_view (PQ w3)" "dq_safe 1 (PQ w4)" "queue_ready clk4 (PQ w4)"
      "get_way w4 (drop_bit LOG2_BLOCK_SIZE pa) (get_set w4 (drop_bit LOG2_BLOCK_SIZE pa)) < NUM_WAY w4"
      "\<forall>m\<in>set (MSHR w4). \<not> eq_addr_packet (drop_bit LOG2_BLOCK_SIZE pa) (snd m)"
  shows "prefetch_step clk4 l1d_parts w4 = None"
proof -
  let ?a = "drop_bit LOG2_BLOCK_SIZE pa"
  let ?p0 = "va_packet clk0 w0 ip va lvl md"
  define p where "p = ?p0\<lparr>pk_full_addr := pa, pk_address := ?a\<rparr>"
  have ready: "dq_has_ready (PQ w4)" using access(4) by (simp add: queue_ready_def)
  have v2: "dq_view (VAPQ w2) = [?p0]" using va_prefetch_line_queues[OF request] translation(2) by simp
  have "dq_view (PQ w3) = [p]"
    using va_translate_queues[OF translation(10,4,3) v2 translation(5-8)] translation(9) dq_safe_ready(1)[OF access(3) ready] access(2)
    by (auto simp: va_packet_fields p_def)
  then have f: "dq_front (PQ w4) = p" using dq_safe_ready(2)[OF access(3) ready] access(2) by simp
  have c: "this_ptr w4 = this_ptr w0" "fill_level w4 = fill_level w0" using access(1) by (simp_all add: same_conf_def)
  have pf: "pk_address p = ?a" "pk_to_return p = [this_ptr w4]" "ptype p = PREFETCH" "pk_pf_origin_level p = fill_level w4"
    using va_packet_fields[of clk0 w0 ip va lvl md] c by (simp_all add: p_def)
  have none: "mshr_find (eq_addr_packet ?a) (MSHR w4) = None" using access(6) by (simp add: mshr_find_None)
  define i where "i = get_set w4 ?a * NUM_WAY w4 + get_way w4 ?a (get_set w4 ?a)"
  define q where "q = p\<lparr>pk_data := blk_data (blocks w4 ! i)\<rparr>"
  have q: "pk_address q = ?a" "pk_to_return q = [this_ptr w4]" "\<not> is_train w4 q" using pf by (simp_all add: q_def is_train_def branch_defs)
  obtain w5 where w5: "update_replacement l1d_parts (get_set w4 ?a) (get_way w4 ?a (get_set w4 ?a)) (blk_full_addr (blocks w4 ! i)) q True w4 = Some w5"
    "MSHR w5 = MSHR w4" "this_ptr w5 = this_ptr w4"
    by (auto simp: update_replacement_def data_parts_def lru_policy_def)
  have "answer clk4 q (upd_stats (count_hit q) w5) = None"
    using none q(1,2) w5(2,3) by (simp add: answer_def send_def return_data_def upd_stats_def)
  then have "readlike_hit clk4 l1d_parts (get_set w4 ?a) (get_way w4 ?a (get_set w4 ?a)) p w4 = None"
    using q(3) w5(1) by (simp add: readlike_hit_def Let_def i_def[symmetric] q_def[symmetric] train_prefetcher_def)
  then have "read_access clk4 l1d_parts p w4 = None" using access(5) by (simp add: read_access_def Let_def pf(1))
  with access(4) f show ?thesis by (simp add: prefetch_step_def)
qed

text \<open>A new L1D before warm-up, the prefetch of a virtual address, its translation two cycles later, and the block filled by then.\<close>

lemma dq_first_push:
  assumes i: "dq_inv (Suc 0) q0" and s: "dq_safe 1 q0" and v: "dq_view q0 = []" and c: "0 < dq_capacity q0"
    and d: "d \<le> dq_latency q0" "d \<le> 2"
  obtains q where "dq_push_delayed d x q0 = Some q" "dq_safe 1 q" "dq_safe 1 (dq_operate (dq_operate q))"
    "dq_view (dq_operate (dq_operate q)) = [x]" "dq_has_ready (dq_operate (dq_operate q))"
proof -
  have ds: "cb_view (dq_delays q0) = []" using dq_baseD(3)[of "Suc 0" q0] i v by (simp add: dq_inv_def)
  have "\<not> dq_full q0" using dq_full_iff[OF s] v c by simp
  from dq_safe_push[OF s this, of d x] obtain q where q: "dq_push_delayed d x q0 = Some q" "dq_safe 1 q" by blast
  have "length (dq_view q0) < cb_size (dq_buf q0)" using v c by (simp add: dq_capacity_def)
  from dq_push_delayed_law[OF _ this, of 0 d x] q(1) i v ds have r: "dq_base 0 q" "dq_view q = [x]" "cb_view (dq_delays q) = [d]"
    "dq_latency q = dq_latency q0" by (auto simp: dq_inv_def)
  then have iq: "dq_inv 0 q" using d(1) dq_safeD(3)[OF q(2)] by (simp add: dq_inv_def)
  note a = dq_operate_law[OF iq] and b = dq_operate_law[OF dq_operate_law(1)[OF iq]]
  have "dq_ready (dq_operate (dq_operate q)) = 1" using b(4,5) a(4) r(3) d(2) by simp
  then have "dq_has_ready (dq_operate (dq_operate q))"
    using dq_has_ready_iff[of 0 "dq_operate (dq_operate q)"] b(1,3) a(3) r(2) by (simp add: dq_inv_def)
  then show thesis using that q dq_safe_operate(1)[OF dq_safe_operate(1)[OF q(2)]] a(3) b(3) r(2) by simp
qed

definition cold_clock :: clock where "cold_clock = demo_clock\<lparr>warmup_complete := (\<lambda>_. False)\<rparr>"

definition two_cycles :: "l1d \<Rightarrow> l1d" where
  "two_cycles w = w\<lparr>VAPQ := dq_operate (dq_operate (VAPQ w)), PQ := dq_operate (dq_operate (PQ w))\<rparr>"

definition with_block :: "u64 \<Rightarrow> l1d \<Rightarrow> l1d" where
  "with_block a w = w\<lparr>blocks := (blocks w)[get_set w a * NUM_WAY w := new_block\<lparr>blk_valid := 1, blk_address := a\<rparr>]\<rparr>"

lemma with_block_hits:
  assumes "conf_ok w" "length (blocks w) = NUM_SET w * NUM_WAY w"
  shows "get_way (with_block a w) a (get_set (with_block a w) a) < NUM_WAY (with_block a w)"
proof -
  let ?w = "with_block a w"
  have "get_set w a < NUM_SET w" "0 < NUM_WAY w" using assms(1) set_of_bound[of "NUM_SET w" a] by (simp_all add: conf_ok_def get_set_eq)
  then have i: "get_set w a * NUM_WAY w < length (blocks w)" using assms(2) by simp
  have c: "get_set ?w a = get_set w a" "NUM_WAY ?w = NUM_WAY w" by (simp_all add: with_block_def get_set_def)
  have h: "eq_addr_block a (blocks ?w ! (get_set ?w a * NUM_WAY ?w + 0))"
    unfolding c by (simp add: with_block_def eq_addr_block_def i)
  show ?thesis
  proof (cases "first_index (\<lambda>i. eq_addr_block a (blocks ?w ! (get_set ?w a * NUM_WAY ?w + i))) (NUM_WAY ?w)")
    case None
    then have "\<not> eq_addr_block a (blocks ?w ! (get_set ?w a * NUM_WAY ?w + 0))"
      using \<open>0 < NUM_WAY w\<close> c(2) unfolding first_index_None_iff by (metis (no_types))
    with h show ?thesis by contradiction
  next
    case (Some k)
    then show ?thesis using first_index_SomeD[OF Some] by (simp add: get_way_def)
  qed
qed

lemma va_prefetch_hit_fails_witness:
  "\<exists>vm pa vm' w1 w3. virtual_memory 1 67108864 4096 5 200 = Some vm \<and>
    va_prefetch_line cold_clock 64 0x8000 FILL_L1 0 (new_l1d vm) = Some (True, w1) \<and>
    va_to_pa 0 0x8000 vm = Some (pa, vm') \<and> va_translate_prefetches cold_clock (two_cycles w1) = Some w3 \<and>
    prefetch_step cold_clock l1d_parts (with_block (drop_bit LOG2_BLOCK_SIZE pa) (two_cycles w3)) = None"
proof -
  obtain vm where vm: "virtual_memory 1 67108864 4096 5 200 = Some vm" "tables_ok 256 4 vm" by (rule stlb_memory)
  from stlb_translate[of 256 3 vm 0 "0x8000"] vm(2) obtain pa vm' where
    pa: "va_to_pa 0 0x8000 vm = Some (pa, vm')" "translates vm' (drop_bit LOG2_PAGE_SIZE 0x8000) (drop_bit LOG2_PAGE_SIZE pa)"
    by (auto simp: NUM_CPUS_def)
  let ?a = "drop_bit LOG2_BLOCK_SIZE pa" and ?w = "new_l1d vm"
  have "drop_bit 6 ?a \<noteq> 0" using pa(2) by (simp add: translates_def LOG2_BLOCK_SIZE_def LOG2_PAGE_SIZE_def)
  then have a: "?a \<noteq> 0" unfolding LOG2_BLOCK_SIZE_def by (metis drop_bit_of_0)
  let ?p = "va_packet cold_clock ?w 64 0x8000 FILL_L1 0"
  define va :: "packet delay_queue" where "va = delay_queue_new empty_packet 8 VA_PREFETCH_TRANSLATION_LATENCY"
  define pq :: "packet delay_queue" where "pq = delay_queue_new empty_packet 8 4"
  define wq :: "packet delay_queue" where "wq = delay_queue_new empty_packet 64 4"
  define pq2 where "pq2 = dq_operate (dq_operate pq)"
  have c: "VAPQ ?w = va" "PQ ?w = pq" "WQ ?w = wq" "cache_cpu ?w = 0" "vmem_state ?w = vm" "MSHR ?w = mshr_new 16"
    by (simp_all add: new_l1d_def new_cache_def l1d_conf_def va_def pq_def wq_def)
  have va: "dq_inv (Suc 0) va" "dq_safe 1 va" "dq_view va = []" "dq_capacity va = 8" "dq_latency va = 2"
    by (simp_all add: va_def dq_new_inv dq_safe_new) (simp add: delay_queue_new_def VA_PREFETCH_TRANSLATION_LATENCY_def)
  have pq: "dq_inv (Suc 0) pq" "dq_safe 1 pq" "dq_view pq = []" "dq_capacity pq = 8" "dq_latency pq = 4"
    by (simp_all add: pq_def dq_new_inv dq_safe_new)
  have wq: "dq_safe 1 wq" "dq_view wq = []" by (simp_all add: wq_def dq_safe_new)
  note o1 = dq_operate_law[OF pq(1)] and o2 = dq_operate_law[OF dq_operate_law(1)[OF pq(1)]]
  have pq2: "dq_inv (Suc 0) pq2" "dq_safe 1 pq2" "dq_view pq2 = []" "dq_capacity pq2 = 8" "dq_latency pq2 = 4"
    using o1 o2 pq dq_safe_operate[OF pq(2)] dq_safe_operate[OF dq_safe_operate(1)[OF pq(2)]] by (simp_all add: pq2_def)
  have none: "dq_find Q q = None" if "dq_safe 1 q" "dq_view q = []" for Q and q :: "packet delay_queue"
    using dq_find_SomeD(1)[OF that(1)] that(2) by (cases "dq_find Q q") auto
  have room: "\<not> dq_full q" if "dq_safe 1 q" "dq_view q = []" "dq_capacity q = 8" for q :: "packet delay_queue"
    using dq_full_iff[OF that(1)] that(2,3) by simp
  obtain q1 where q1: "dq_push_delayed 2 ?p va = Some q1" "dq_safe 1 q1" "dq_safe 1 (dq_operate (dq_operate q1))"
    "dq_view (dq_operate (dq_operate q1)) = [?p]" "dq_has_ready (dq_operate (dq_operate q1))"
    by (rule dq_first_push[OF va(1-3), of 2 ?p]) (simp_all add: va)
  define w1 where "w1 = (upd_stats (\<lambda>s. s\<lparr>pf_requested := pf_requested s + 1\<rparr>) ?w)\<lparr>VAPQ := q1\<rparr>"
  have w1: "va_prefetch_line cold_clock 64 0x8000 FILL_L1 0 ?w = Some (True, w1)"
    using q1(1) none[OF va(2,3)] room[OF va(2-4)]
    by (simp add: va_prefetch_line_def upd_stats_def va_packet_def c pf_packet_def dq_push_back_def va(5) w1_def)
  let ?w2 = "two_cycles w1"
  have c2: "VAPQ ?w2 = dq_operate (dq_operate q1)" "PQ ?w2 = pq2" "WQ ?w2 = wq" "cache_cpu ?w2 = 0" "vmem_state ?w2 = vm" "MSHR ?w2 = mshr_new 16"
    "cache_type ?w2 = IS_L1D" "blocks ?w2 = blocks ?w"
    using new_l1d_parts(4)[of vm] by (simp_all add: two_cycles_def w1_def c upd_stats_def pq2_def)
  define p where "p = ?p\<lparr>pk_full_addr := pa, pk_address := ?a\<rparr>"
  obtain q3 where q3: "dq_push_delayed 0 p pq2 = Some q3" "dq_safe 1 q3" "dq_safe 1 (dq_operate (dq_operate q3))"
    "dq_view (dq_operate (dq_operate q3)) = [p]" "dq_has_ready (dq_operate (dq_operate q3))"
    by (rule dq_first_push[OF pq2(1-3), of 0 p]) (simp_all add: pq2)
  have f: "dq_front (dq_operate (dq_operate q1)) = ?p" using dq_safe_ready(2)[OF q1(3,5)] q1(4) by simp
  obtain q4 where q4: "dq_pop_front (VAPQ ?w2) = Some q4" using dq_safe_pop[of 0 "VAPQ ?w2"] q1(3,5) c2(1) by auto
  define w3 where "w3 = (upd_stats (\<lambda>s. s\<lparr>PQ_TO_CACHE := PQ_TO_CACHE s + 1\<rparr>)
      ((upd_stats (\<lambda>s. s\<lparr>PQ_ACCESS := PQ_ACCESS s + 1\<rparr>) (?w2\<lparr>vmem_state := vm'\<rparr>))\<lparr>PQ := q3\<rparr>))\<lparr>VAPQ := q4\<rparr>"
  have "add_pq cold_clock p (?w2\<lparr>vmem_state := vm'\<rparr>) = Some (- 1, upd_stats (\<lambda>s. s\<lparr>PQ_TO_CACHE := PQ_TO_CACHE s + 1\<rparr>)
      ((upd_stats (\<lambda>s. s\<lparr>PQ_ACCESS := PQ_ACCESS s + 1\<rparr>) (?w2\<lparr>vmem_state := vm'\<rparr>))\<lparr>PQ := q3\<rparr>))"
    using a none[OF pq2(2,3)] none[OF wq] room[OF pq2(2-4)] q3(1)
    by (simp add: add_pq_def Let_def upd_stats_def find_wq_def c2 push_timed_def cold_clock_def dq_push_back_ready_def) (simp add: p_def)
  then have w3: "va_translate_prefetches cold_clock ?w2 = Some w3"
    using room[OF pq2(2-4)] q1(5) pa(1) q4 va_packet_fields(3)[of cold_clock ?w 64 "0x8000" FILL_L1 0]
    by (simp add: va_translate_prefetches_def Let_def f p_def[symmetric] w3_def upd_stats_def c2(1,2,4,5))
  let ?w4 = "with_block ?a (two_cycles w3)"
  have c4: "PQ ?w4 = dq_operate (dq_operate q3)" "MSHR ?w4 = mshr_new 16"
    by (simp_all add: with_block_def two_cycles_def w3_def w1_def c upd_stats_def)
  have same: "same_conf ?w ?w2" "same_conf ?w (two_cycles w3)" "same_conf ?w ?w4"
    by (simp_all add: same_conf_def with_block_def two_cycles_def w1_def w3_def upd_stats_def)
  have c3: "cache_cpu (two_cycles w3) = 0" "blocks (two_cycles w3) = blocks ?w"
    by (simp_all add: two_cycles_def w3_def w1_def c upd_stats_def)
  have c5: "VAPQ w1 = q1" "PQ w3 = q3" by (simp_all add: w1_def w3_def upd_stats_def)
  have v: "dq_view q1 = [?p]" "dq_view q3 = [p]"
    using dq_safe_operate(2)[OF dq_safe_operate(1)[OF q1(2)]] dq_safe_operate(2)[OF q1(2)] q1(4)
      dq_safe_operate(2)[OF dq_safe_operate(1)[OF q3(2)]] dq_safe_operate(2)[OF q3(2)] q3(4) by simp_all
  have conf: "conf_ok ?w" using cache_okD(1)[OF new_l1d_ok[of 0 vm]] by simp
  have "prefetch_step cold_clock l1d_parts ?w4 = None"
  proof (rule va_prefetch_hit_fails[OF w1, where ?clk2.0 = cold_clock and ?w3.0 = w3])
    show "va_to_pa (cache_cpu ?w2) 0x8000 (vmem_state ?w2) = Some (pa, vm')" using pa(1) c2 by simp
    show "get_way ?w4 ?a (get_set ?w4 ?a) < NUM_WAY ?w4"
    proof (rule with_block_hits)
      show "conf_ok (two_cycles w3)" using conf same(2) c3(1) by (simp add: conf_ok_def same_conf_def NUM_CPUS_def)
      show "length (blocks (two_cycles w3)) = NUM_SET (two_cycles w3) * NUM_WAY (two_cycles w3)"
        using new_l1d_parts[of vm] same(2) c3(2) by (simp add: same_conf_def)
    qed
    show "queue_ready cold_clock (PQ ?w4)"
      using q3(5) dq_safe_ready(2)[OF q3(3,5)] q3(4) c4(1)
      by (simp add: queue_ready_def p_def va_packet_def pf_packet_def c(4) NUM_CPUS_def)
    show "\<forall>m\<in>set (MSHR ?w4). \<not> eq_addr_packet ?a (snd m)"
      unfolding c4(2) using mshr_new_empty empty_packet_free(1) by (auto simp: eq_addr_packet_def)
  qed (simp_all only: c c2 c4 c5 v va pq2 wq q1 q3 w3 same)
  with vm(1) w1 pa(1) w3 show ?thesis by blast
qed

end
