(* ===== verification/FastSet.thy ===== *)
theory FastSet
  imports Prelude
begin

text \<open>
  The set of small numbers of \<^verbatim>\<open>inc/set.h\<close>, in which an instruction keeps the reorder buffer slots that wait for
  it. Up to twelve elements are a sorted array of 16-bit values, more are a bit set, and both share the same 64 bytes (a
  \<^verbatim>\<open>union\<close>): the state is the eight words, and the small array is read from and written to the 16-bit pieces of the
  words, in the order of a little-endian machine. The cardinality counts the small elements and stays at 13 once the set is a bit
  set. Elements must be below 512, as a comment in the code says.
\<close>

section \<open>The memory of the union\<close>

definition SMALL_SIZE :: nat where "SMALL_SIZE = 13"
definition SMALLER_SIZE :: nat where "SMALLER_SIZE = 6"
definition FASTSET_MAX :: nat where "FASTSET_MAX = 512"

record fastset =
  fs_data :: "u64 list"
  fs_card :: nat

definition new_fastset :: fastset where
  "new_fastset = \<lparr>fs_data = replicate 8 0, fs_card = 0\<rparr>"

definition fs_value :: "fastset \<Rightarrow> nat \<Rightarrow> u16" where
  "fs_value s i = ucast (drop_bit (16 * (i mod 4)) (fs_data s ! (i div 4)))"

definition put_value :: "nat \<Rightarrow> u16 \<Rightarrow> fastset \<Rightarrow> fastset" where
  "put_value i x s =
     (let k = 16 * (i mod 4); wd = fs_data s ! (i div 4)
      in s\<lparr>fs_data := (fs_data s)[i div 4 := (wd AND NOT (push_bit k (mask 16))) OR push_bit k (ucast x)]\<rparr>)"

definition setbit :: "u16 \<Rightarrow> fastset \<Rightarrow> fastset" where
  "setbit x s =
     (let wd = unat (drop_bit 6 x); b = unat (x AND 63)
      in s\<lparr>fs_data := (fs_data s)[wd := (fs_data s ! wd) OR push_bit b 1]\<rparr>)"

definition getbit :: "u16 \<Rightarrow> fastset \<Rightarrow> bool" where
  "getbit x s = (drop_bit (unat (x AND 63)) (fs_data s ! unat (drop_bit 6 x)) AND 1 \<noteq> 0)"

section \<open>Operations\<close>

text \<open>The first loop of \<^verbatim>\<open>insert_small\<close> stops at the first element that is not smaller; the second one moves the rest up.\<close>

definition move_up :: "nat \<Rightarrow> fastset \<Rightarrow> fastset" where
  "move_up i s = foldl (\<lambda>s j. put_value (Suc j) (fs_value s j) s) s (rev [i..<fs_card s])"

definition insert_small :: "u16 \<Rightarrow> fastset \<Rightarrow> fastset" where
  "insert_small x s =
     (let i = (case first_index (\<lambda>i. fs_value s i \<ge> x) (fs_card s) of Some i \<Rightarrow> i | None \<Rightarrow> fs_card s)
      in if i < fs_card s \<and> fs_value s i = x then s
         else (put_value i x (move_up i s))\<lparr>fs_card := Suc (fs_card s)\<rparr>)"

definition search_small_linear :: "u16 \<Rightarrow> fastset \<Rightarrow> bool" where
  "search_small_linear x s =
     (case first_index (\<lambda>i. fs_value s i \<ge> x) (fs_card s) of Some i \<Rightarrow> fs_value s i = x | None \<Rightarrow> False)"

text \<open>The loop of the binary search, from a position \<open>middle\<close> on. Division rounds to zero in C++, and so does \<open>div\<close> on the
  numbers that occur.\<close>

function binary_search :: "fastset \<Rightarrow> u16 \<Rightarrow> int \<Rightarrow> int \<Rightarrow> bool" where
  "binary_search s x lo hi =
     (if hi < lo then False
      else let middle = (lo + hi) div 2; y = fs_value s (nat middle)
           in if x < y then binary_search s x lo (middle - 1)
              else if x > y then binary_search s x (middle + 1) hi
              else True)"
  by pat_completeness auto

termination binary_search
  by (relation "measure (\<lambda>(s, x, lo, hi). nat (hi - lo + 1))") auto

declare binary_search.simps [simp del]

definition search_small :: "u16 \<Rightarrow> fastset \<Rightarrow> bool" where
  "search_small x s =
     (if fs_card s = 0 then False
      else if fs_card s < SMALLER_SIZE then search_small_linear x s
      else binary_search s x 0 (int (fs_card s) - 1))"

definition smalltobit :: "fastset \<Rightarrow> fastset" where
  "smalltobit s =
     (let tmp = map (fs_value s) [0..<fs_card s]
      in foldl (\<lambda>s x. setbit x s) (s\<lparr>fs_data := replicate 8 0\<rparr>) tmp)"

definition fs_insert :: "u16 \<Rightarrow> fastset \<Rightarrow> fastset" where
  "fs_insert x s =
     (if fs_card s = 0 then (put_value 0 x s)\<lparr>fs_card := 1\<rparr>
      else if fs_card s < SMALL_SIZE then
        (let s' = insert_small x s in if fs_card s' = SMALL_SIZE then smalltobit s' else s')
      else setbit x s)"

definition fs_search :: "u16 \<Rightarrow> fastset \<Rightarrow> bool" where
  "fs_search x s =
     (if fs_card s = 0 then False
      else if fs_card s = 1 then fs_value s 0 = x
      else if fs_card s < SMALL_SIZE then search_small x s
      else getbit x s)"

text \<open>\<^verbatim>\<open>join\<close>: the words of a bit set are united up to the one that holds \<open>n\<close>.\<close>

definition fs_join :: "fastset \<Rightarrow> nat \<Rightarrow> fastset \<Rightarrow> fastset" where
  "fs_join other n s =
     (if fs_card other = 0 then s
      else if fs_card other < SMALL_SIZE then foldl (\<lambda>s i. fs_insert (fs_value other i) s) s [0..<fs_card other]
      else (let s = (if fs_card s < SMALL_SIZE then (smalltobit s)\<lparr>fs_card := SMALL_SIZE\<rparr> else s);
                lim = ((n OR 63) + 1) div 64
            in s\<lparr>fs_data := foldl (\<lambda>d i. d[i := d ! i OR fs_data other ! i]) (fs_data s) [0..<lim]\<rparr>))"

text \<open>\<^verbatim>\<open>expand\<close> lists the elements, those below \<open>n\<close> of a bit set word by word.\<close>

definition expand_word :: "fastset \<Rightarrow> nat \<Rightarrow> nat \<Rightarrow> u16 list" where
  "expand_word s n w =
     (if fs_data s ! w = 0 then []
      else filter (\<lambda>l. getbit l s) (map of_nat (filter (\<lambda>l. l < n) [64 * w..<64 * w + 64])))"

definition fs_expand :: "fastset \<Rightarrow> nat \<Rightarrow> u16 list" where
  "fs_expand s n =
     (if fs_card s = 0 then []
      else if fs_card s < SMALL_SIZE then map (fs_value s) [0..<fs_card s]
      else concat (map (expand_word s n) [0..<(n + 63) div 64]))"

section \<open>The 16-bit pieces are an array\<close>

lemma bit_piece:
  fixes wd :: u64
  shows "bit (ucast (drop_bit k wd) :: u16) n \<longleftrightarrow> n < 16 \<and> bit wd (n + k)"
  using bit_imp_le_length[of "ucast (drop_bit k wd) :: u16" n]
  by (auto simp: unsigned_ucast_eq bit_ucast_iff bit_drop_bit_eq add.commute)

lemma bit_put_piece:
  fixes wd :: u64 and x :: u16
  assumes "k + 16 \<le> 64"
  shows "bit ((wd AND NOT (push_bit k (mask 16))) OR push_bit k (ucast x)) n \<longleftrightarrow>
    n < 64 \<and> (if k \<le> n \<and> n < k + 16 then bit x (n - k) else bit wd n)"
  using assms bit_imp_le_length[of x "n - k"] bit_imp_le_length[of wd n] by (auto simp: bit_simps)

lemma fs_value_put:
  assumes "i < 32" "j < 32" "length (fs_data s) = 8"
  shows "fs_value (put_value i x s) j = (if i = j then x else fs_value s j)"
proof (cases "i div 4 = j div 4")
  case True
  let ?k = "16 * (i mod 4)" and ?l = "16 * (j mod 4)"
  have k: "?k + 16 \<le> 64" "?l + 16 \<le> 64" by simp_all
  have dv: "j div 4 < 8" using assms by simp
  have ij: "i mod 4 \<noteq> j mod 4" if "i \<noteq> j" using True that by (metis div_mult_mod_eq)
  show ?thesis
  proof (rule bit_word_eqI)
    fix n assume "n < LENGTH(16)"
    then have n: "n < 16" by simp
    have "bit (fs_value (put_value i x s) j) n \<longleftrightarrow>
        (if ?k \<le> n + ?l \<and> n + ?l < ?k + 16 then bit x (n + ?l - ?k) else bit (fs_data s ! (j div 4)) (n + ?l))"
    proof -
      let ?w = "(fs_data s ! (j div 4) AND NOT (push_bit ?k (mask 16))) OR push_bit ?k (ucast x)"
      have "fs_value (put_value i x s) j = ucast (drop_bit ?l ?w)"
        using dv assms(3) True by (simp only: fs_value_def put_value_def Let_def) simp
      then show ?thesis using n k by (simp only: bit_piece bit_put_piece) simp
    qed
    moreover have "i \<noteq> j \<Longrightarrow> \<not> (?k \<le> n + ?l \<and> n + ?l < ?k + 16)"
      using ij n by (cases "i mod 4 < j mod 4") auto
    ultimately show "bit (fs_value (put_value i x s) j) n \<longleftrightarrow> bit (if i = j then x else fs_value s j) n"
      using n by (auto simp: fs_value_def bit_piece)
  qed
next
  case False
  then show ?thesis by (auto simp: fs_value_def put_value_def Let_def)
qed

lemma put_value_shape [simp]:
  "fs_card (put_value i x s) = fs_card s" "length (fs_data (put_value i x s)) = length (fs_data s)"
  by (simp_all add: put_value_def Let_def)

text \<open>The elements of the small form.\<close>

definition small_view :: "fastset \<Rightarrow> u16 list" where
  "small_view s = map (fs_value s) [0..<fs_card s]"

lemma length_small_view [simp]: "length (small_view s) = fs_card s"
  by (simp add: small_view_def)

lemma small_view_nth [simp]: "i < fs_card s \<Longrightarrow> small_view s ! i = fs_value s i"
  by (simp add: small_view_def)

text \<open>The state after the shift: position \<open>j\<close> above the gap holds what was below it.\<close>

lemma move_up_value:
  assumes len: "length (fs_data s) = 8" and c: "fs_card s < 31" and i: "i \<le> fs_card s" and j: "j < 32"
  shows "fs_value (move_up i s) j = (if i < j \<and> j \<le> fs_card s then fs_value s (j - 1) else fs_value s j)"
    "fs_card (move_up i s) = fs_card s" "length (fs_data (move_up i s)) = 8"
proof -
  let ?g = "\<lambda>m. foldl (\<lambda>s j. put_value (Suc j) (fs_value s j) s) s (rev [m..<fs_card s])"
  have "fs_card (?g m) = fs_card s \<and> length (fs_data (?g m)) = 8 \<and>
      (\<forall>j<32. fs_value (?g m) j = (if m < j \<and> j \<le> fs_card s then fs_value s (j - 1) else fs_value s j))"
    if "m \<le> fs_card s" for m
    using that
  proof (induction "fs_card s - m" arbitrary: m)
    case 0
    then show ?case using len by auto
  next
    case (Suc d)
    then have m: "m < fs_card s" by simp
    have e: "?g m = put_value (Suc m) (fs_value (?g (Suc m)) m) (?g (Suc m))"
      using m by (simp add: upt_conv_Cons)
    have IH: "fs_card (?g (Suc m)) = fs_card s" "length (fs_data (?g (Suc m))) = 8"
      "\<And>j. j < 32 \<Longrightarrow> fs_value (?g (Suc m)) j = (if Suc m < j \<and> j \<le> fs_card s then fs_value s (j - 1) else fs_value s j)"
      using Suc.hyps(1)[of "Suc m"] Suc.hyps(2) m by auto
    have "fs_value (?g m) j = (if m < j \<and> j \<le> fs_card s then fs_value s (j - 1) else fs_value s j)" if "j < 32" for j
      using m c that by (auto simp: e fs_value_put IH)
    then show ?case by (simp add: e IH)
  qed
  from this[OF i] j show "fs_value (move_up i s) j = (if i < j \<and> j \<le> fs_card s then fs_value s (j - 1) else fs_value s j)"
    "fs_card (move_up i s) = fs_card s" "length (fs_data (move_up i s)) = 8" by (simp_all add: move_up_def)
qed

section \<open>The invariant\<close>

definition fs_mem :: "fastset \<Rightarrow> u16 \<Rightarrow> bool" where
  "fs_mem s x \<longleftrightarrow> (if fs_card s < SMALL_SIZE then x \<in> set (small_view s) else getbit x s)"

definition fs_ok :: "fastset \<Rightarrow> bool" where
  "fs_ok s \<longleftrightarrow> length (fs_data s) = 8 \<and> fs_card s \<le> SMALL_SIZE \<and>
     (fs_card s < SMALL_SIZE \<longrightarrow> sorted_wrt (<) (small_view s) \<and> (\<forall>x\<in>set (small_view s). x < 512))"

lemma fs_ok_new [simp]: "fs_ok new_fastset" "fs_mem new_fastset x = False"
  by (simp_all add: fs_ok_def fs_mem_def new_fastset_def small_view_def SMALL_SIZE_def)

lemma small_memE:
  assumes "x \<in> set (small_view s)"
  obtains i where "i < fs_card s" "fs_value s i = x"
  using assms by (auto simp: small_view_def)

lemma small_value_less:
  assumes "sorted_wrt (<) (small_view s)" "i < j" "j < fs_card s"
  shows "fs_value s i < fs_value s j"
  using sorted_wrt_nth_less[OF assms(1,2)] assms(2,3) by simp

section \<open>Insertion into the small form\<close>

text \<open>Where an element belongs in a strictly sorted list.\<close>

lemma set_insert_split:
  "sorted_wrt (<) xs \<Longrightarrow> i \<le> length xs \<Longrightarrow> \<forall>j<i. xs ! j < x \<Longrightarrow> (i < length xs \<longrightarrow> x < xs ! i) \<Longrightarrow>
   set_insert x xs = take i xs @ x # drop i xs"
proof (induction xs arbitrary: i)
  case (Cons y ys)
  show ?case
  proof (cases i)
    case 0
    with Cons.prems show ?thesis by simp
  next
    case (Suc k)
    have yx: "y < x" using Cons.prems(3) Suc by force
    have "set_insert x ys = take k ys @ x # drop k ys"
    proof (rule Cons.IH)
      show "\<forall>j<k. ys ! j < x" using Cons.prems(3) Suc by force
    qed (use Cons.prems Suc in auto)
    with yx Suc show ?thesis by auto
  qed
qed simp

lemma set_insert_mem: "sorted_wrt (<) xs \<Longrightarrow> x \<in> set xs \<Longrightarrow> set_insert x xs = xs"
  by (induction xs) auto

lemma insert_small_view:
  assumes ok: "length (fs_data s) = 8" "sorted_wrt (<) (small_view s)" "fs_card s < SMALL_SIZE"
  shows "small_view (insert_small x s) = set_insert x (small_view s)" "length (fs_data (insert_small x s)) = 8"
proof -
  define i where "i = (case first_index (\<lambda>i. fs_value s i \<ge> x) (fs_card s) of Some i \<Rightarrow> i | None \<Rightarrow> fs_card s)"
  have "i \<le> fs_card s \<and> (\<forall>j<i. fs_value s j < x) \<and> (i < fs_card s \<longrightarrow> x \<le> fs_value s i)"
  proof (cases "first_index (\<lambda>i. fs_value s i \<ge> x) (fs_card s)")
    case None
    then have "i = fs_card s" by (simp add: i_def)
    with None show ?thesis by (simp add: first_index_None_iff not_le)
  next
    case (Some k)
    then have "i = k" by (simp add: i_def)
    with first_index_SomeD[OF Some] show ?thesis by (simp add: not_le)
  qed
  then have i: "i \<le> fs_card s" "\<forall>j<i. fs_value s j < x" "i < fs_card s \<Longrightarrow> x \<le> fs_value s i" by simp_all
  have c: "fs_card s < 13" using ok(3) by (simp add: SMALL_SIZE_def)
  have both: "small_view (insert_small x s) = set_insert x (small_view s) \<and> length (fs_data (insert_small x s)) = 8"
  proof (cases "i < fs_card s \<and> fs_value s i = x")
    case True
    then have "x \<in> set (small_view s)" by (metis length_small_view nth_mem small_view_nth)
    with True ok show ?thesis by (simp add: insert_small_def i_def[symmetric] set_insert_mem)
  next
    case False
    let ?m = "move_up i s"
    have m: "fs_card ?m = fs_card s" "length (fs_data ?m) = 8"
      "j < 32 \<Longrightarrow> fs_value ?m j = (if i < j \<and> j \<le> fs_card s then fs_value s (j - 1) else fs_value s j)" for j
      using move_up_value[OF ok(1) _ i(1), of j] move_up_value(2,3)[OF ok(1) _ i(1), of 0] c by simp_all
    have e: "insert_small x s = (put_value i x ?m)\<lparr>fs_card := Suc (fs_card s)\<rparr>"
      using False by (auto simp: insert_small_def i_def[symmetric])
    have v: "fs_value (insert_small x s) j = (if j = i then x else if i < j \<and> j \<le> fs_card s then fs_value s (j - 1) else fs_value s j)"
      if "j < 32" for j
    proof -
      have "fs_value (insert_small x s) j = fs_value (put_value i x ?m) j" by (simp add: e fs_value_def)
      with that c i(1) m show ?thesis by (auto simp: fs_value_put)
    qed
    have "small_view (insert_small x s) = take i (small_view s) @ x # drop i (small_view s)"
    proof (rule nth_equalityI)
      show "length (small_view (insert_small x s)) = length (take i (small_view s) @ x # drop i (small_view s))"
        using i(1) by (simp add: e)
      fix j assume "j < length (small_view (insert_small x s))"
      then have j: "j < Suc (fs_card s)" by (simp add: e)
      with c have "small_view (insert_small x s) ! j = (if j = i then x else if i < j then fs_value s (j - 1) else fs_value s j)"
        by (simp add: e[THEN arg_cong, of fs_card] v)
      also have "\<dots> = (take i (small_view s) @ x # drop i (small_view s)) ! j"
      proof -
        consider "j < i" | "j = i" | k where "j = Suc (i + k)" by (metis less_iff_Suc_add linorder_neqE_nat)
        then show ?thesis
        proof cases
          case 1
          with i(1) show ?thesis by (simp add: nth_append)
        next
          case 2
          with i(1) show ?thesis by (simp add: nth_append)
        next
          case 3
          with i(1) j show ?thesis by (simp add: nth_append)
        qed
      qed
      finally show "small_view (insert_small x s) ! j = (take i (small_view s) @ x # drop i (small_view s)) ! j" .
    qed
    moreover have "set_insert x (small_view s) = take i (small_view s) @ x # drop i (small_view s)"
    proof (rule set_insert_split[OF ok(2)])
      show "i < length (small_view s) \<longrightarrow> x < small_view s ! i" using i(3) False by (auto simp: order_less_le)
    qed (use i in auto)
    ultimately show ?thesis by (simp add: e m(2))
  qed
  from both show "small_view (insert_small x s) = set_insert x (small_view s)" "length (fs_data (insert_small x s)) = 8"
    by simp_all
qed

section \<open>The bit set\<close>

lemma word_and_bit:
  fixes x :: u16
  assumes "x < 512"
  shows "unat (drop_bit 6 x) < 8" "unat (x AND 63) < 64" "unat x = 64 * unat (drop_bit 6 x) + unat (x AND 63)"
proof -
  have m: "(63 :: u16) = mask 6" by (simp add: mask_eq_decr_exp)
  have d: "unat (drop_bit 6 x) = unat x div 64" by (simp only: unat_drop_bit_eq) (simp add: drop_bit_eq_div)
  have l: "unat (x AND 63) = unat x mod 64" unfolding m by (simp add: unat_and_mask)
  have "unat x < 512" using assms by (simp add: word_less_nat_alt)
  then show "unat (drop_bit 6 x) < 8" "unat (x AND 63) < 64" "unat x = 64 * unat (drop_bit 6 x) + unat (x AND 63)"
    by (simp_all add: d l)
qed

lemma getbit_bit: "getbit x s \<longleftrightarrow> bit (fs_data s ! unat (drop_bit 6 x)) (unat (x AND 63))"
  by (simp add: getbit_def bit_iff_and_drop_bit_eq_1[symmetric] and_one_eq bit_iff_odd_drop_bit odd_iff_mod_2_eq_one)

lemma getbit_setbit:
  assumes "x < 512" "y < 512" "length (fs_data s) = 8"
  shows "getbit y (setbit x s) \<longleftrightarrow> y = x \<or> getbit y s"
proof -
  note wx = word_and_bit[OF assms(1)] and wy = word_and_bit[OF assms(2)]
  have eq: "y = x \<longleftrightarrow> drop_bit 6 y = drop_bit 6 x \<and> y AND 63 = x AND 63"
    using wx(3) wy(3) by (metis word_unat_eq_iff)
  show ?thesis
  proof (cases "drop_bit 6 y = drop_bit 6 x")
    case True
    with wx wy assms(3) show ?thesis
      by (auto simp: getbit_bit setbit_def Let_def eq bit_or_iff bit_exp_iff possible_bit_word word_unat_eq_iff)
  next
    case False
    then have "unat (drop_bit 6 y) \<noteq> unat (drop_bit 6 x)" by (simp add: word_unat_eq_iff)
    with False show ?thesis by (auto simp: getbit_bit setbit_def Let_def eq)
  qed
qed

lemma setbit_shape [simp]:
  "fs_card (setbit x s) = fs_card s" "length (fs_data (setbit x s)) = length (fs_data s)"
  by (simp_all add: setbit_def Let_def)

lemma getbit_fold_setbit:
  "\<forall>x\<in>set xs. x < 512 \<Longrightarrow> y < 512 \<Longrightarrow> length (fs_data s) = 8 \<Longrightarrow>
   (getbit y (foldl (\<lambda>s x. setbit x s) s xs) \<longleftrightarrow> y \<in> set xs \<or> getbit y s) \<and>
   length (fs_data (foldl (\<lambda>s x. setbit x s) s xs)) = 8 \<and> fs_card (foldl (\<lambda>s x. setbit x s) s xs) = fs_card s"
  by (induction xs arbitrary: s) (auto simp: getbit_setbit)

lemma smalltobit_law:
  assumes "\<forall>x\<in>set (small_view s). x < 512"
  shows "y < 512 \<Longrightarrow> getbit y (smalltobit s) \<longleftrightarrow> y \<in> set (small_view s)"
    "length (fs_data (smalltobit s)) = 8" "fs_card (smalltobit s) = fs_card s"
proof -
  have z: "\<not> getbit y (s\<lparr>fs_data := replicate 8 0\<rparr>)" if "y < 512" for y
    using word_and_bit(1)[OF that] by (simp add: getbit_bit)
  note f = getbit_fold_setbit[OF assms, of _ "s\<lparr>fs_data := replicate 8 0\<rparr>"]
  show "y < 512 \<Longrightarrow> getbit y (smalltobit s) \<longleftrightarrow> y \<in> set (small_view s)"
    using f[of y] z by (simp add: smalltobit_def small_view_def)
  show "length (fs_data (smalltobit s)) = 8" "fs_card (smalltobit s) = fs_card s"
    using f[of 0] by (simp_all add: smalltobit_def small_view_def)
qed

section \<open>Insertion\<close>

lemma fs_insert_law:
  assumes ok: "fs_ok s" and x: "x < 512"
  shows "fs_ok (fs_insert x s) \<and> (\<forall>y<512. fs_mem (fs_insert x s) y \<longleftrightarrow> y = x \<or> fs_mem s y)"
proof -
  have len: "length (fs_data s) = 8" using ok by (simp add: fs_ok_def)
  consider "fs_card s = 0" | "fs_card s \<noteq> 0" "fs_card s < SMALL_SIZE" | "fs_card s = SMALL_SIZE"
    using ok by (fastforce simp: fs_ok_def)
  then show ?thesis
  proof cases
    case 1
    have "small_view ((put_value 0 x s)\<lparr>fs_card := 1\<rparr>) = [x]"
      using fs_value_put[of 0 0 s x] len by (simp add: small_view_def) (simp add: fs_value_def)
    with 1 x len show ?thesis by (auto simp: fs_insert_def fs_ok_def fs_mem_def SMALL_SIZE_def small_view_def[of s])
  next
    case 2
    let ?s = "insert_small x s"
    have v: "small_view ?s = set_insert x (small_view s)" "length (fs_data ?s) = 8"
      using insert_small_view[OF len _ 2(2)] ok 2(2) by (simp_all add: fs_ok_def)
    have s: "sorted_wrt (<) (small_view ?s)" "\<forall>y\<in>set (small_view ?s). y < 512"
      using ok 2(2) x sorted_set_insert[of "small_view s" x] by (auto simp: v fs_ok_def)
    have c: "fs_card ?s \<le> Suc (fs_card s)" by (simp add: insert_small_def Let_def split: option.splits)
    show ?thesis
    proof (cases "fs_card ?s = SMALL_SIZE")
      case True
      with smalltobit_law[OF s(2)] 2 v show ?thesis by (auto simp: fs_insert_def Let_def fs_ok_def fs_mem_def)
    next
      case False
      with c 2(2) have "fs_card ?s < SMALL_SIZE" by simp
      with False 2 v s show ?thesis by (auto simp: fs_insert_def Let_def fs_ok_def fs_mem_def)
    qed
  next
    case 3
    with getbit_setbit[OF x _ len] len show ?thesis by (auto simp: fs_insert_def fs_ok_def fs_mem_def SMALL_SIZE_def)
  qed
qed

lemma fs_fold_insert_law:
  "fs_ok s \<Longrightarrow> \<forall>x\<in>set xs. x < 512 \<Longrightarrow>
   fs_ok (fold fs_insert xs s) \<and> (\<forall>y<512. fs_mem (fold fs_insert xs s) y \<longleftrightarrow> y \<in> set xs \<or> fs_mem s y)"
proof (induction xs arbitrary: s)
  case (Cons x xs)
  from Cons.IH[of "fs_insert x s"] fs_insert_law[of s x] Cons.prems show ?case by auto
qed simp

section \<open>Search\<close>

lemma search_linear_law:
  assumes "sorted_wrt (<) (small_view s)"
  shows "search_small_linear x s \<longleftrightarrow> x \<in> set (small_view s)"
proof (cases "first_index (\<lambda>i. fs_value s i \<ge> x) (fs_card s)")
  case None
  then have "\<not> search_small_linear x s" by (simp add: search_small_linear_def)
  moreover have "\<forall>i<fs_card s. fs_value s i < x" using None by (simp add: first_index_None_iff not_le)
  ultimately show ?thesis by (auto elim!: small_memE)
next
  case (Some k)
  note k = first_index_SomeD[OF Some]
  have "fs_value s k = x" if "x \<in> set (small_view s)"
  proof -
    from that obtain i where i: "i < fs_card s" "fs_value s i = x" by (rule small_memE)
    with k have "k \<le> i" by (metis not_le order_refl)
    with i k small_value_less[OF assms, of k i] show ?thesis by (cases "k = i") auto
  qed
  moreover have "fs_value s k \<in> set (small_view s)" using k by (metis length_small_view nth_mem small_view_nth)
  ultimately show ?thesis using Some by (auto simp: search_small_linear_def)
qed

lemma binary_search_law:
  assumes "sorted_wrt (<) (small_view s)" "0 \<le> lo" "hi < int (fs_card s)"
    "\<And>i. i < fs_card s \<Longrightarrow> fs_value s i = x \<Longrightarrow> lo \<le> int i \<and> int i \<le> hi"
  shows "binary_search s x lo hi \<longleftrightarrow> x \<in> set (small_view s)"
  using assms
proof (induction s x lo hi rule: binary_search.induct)
  case (1 s x lo hi)
  show ?case
  proof (cases "hi < lo")
    case True
    with 1(6) show ?thesis by (subst binary_search.simps) (fastforce elim!: small_memE)
  next
    case False
    define m where "m = (lo + hi) div 2"
    have m: "lo \<le> m" "m \<le> hi" "0 \<le> m" using False 1(4) by (simp_all add: m_def)
    have nm: "nat m < fs_card s" using m 1(5) by linarith
    have e: "binary_search s x lo hi =
        (if x < fs_value s (nat m) then binary_search s x lo (m - 1)
         else if x > fs_value s (nat m) then binary_search s x (m + 1) hi else True)"
      using False by (subst binary_search.simps) (simp add: m_def Let_def)
    consider "x < fs_value s (nat m)" | "fs_value s (nat m) < x" | "fs_value s (nat m) = x" by fastforce
    then show ?thesis
    proof cases
      case lt: 1
      have "lo \<le> int i \<and> int i \<le> m - 1" if "i < fs_card s" "fs_value s i = x" for i
        using 1(6)[OF that] that lt small_value_less[OF 1(3), of "nat m" i] nm m by (cases "nat m < i"; cases "nat m = i") auto
      with "1.IH"(1)[OF False m_def refl lt 1(3,4)] m 1(5) e lt show ?thesis by simp
    next
      case gt: 2
      have "m + 1 \<le> int i \<and> int i \<le> hi" if "i < fs_card s" "fs_value s i = x" for i
        using 1(6)[OF that] that gt small_value_less[OF 1(3), of i "nat m"] nm m by (cases "i < nat m"; cases "i = nat m") auto
      with "1.IH"(2)[OF False m_def refl _ gt 1(3) _ 1(5)] m e gt show ?thesis by auto
    next
      case 3
      with nm have "x \<in> set (small_view s)" by (metis length_small_view nth_mem small_view_nth)
      with 3 e show ?thesis by simp
    qed
  qed
qed

lemma fs_search_law:
  assumes ok: "fs_ok s"
  shows "fs_search x s \<longleftrightarrow> fs_mem s x"
proof (cases "fs_card s < SMALL_SIZE")
  case False
  with ok show ?thesis by (auto simp: fs_search_def fs_mem_def fs_ok_def SMALL_SIZE_def)
next
  case True
  then have s: "sorted_wrt (<) (small_view s)" using ok by (simp add: fs_ok_def)
  have "search_small x s \<longleftrightarrow> x \<in> set (small_view s)"
    using search_linear_law[OF s] binary_search_law[OF s, of 0 "int (fs_card s) - 1" x]
    by (auto simp: search_small_def small_view_def)
  moreover have "fs_value s 0 = x \<longleftrightarrow> x \<in> set (small_view s)" if "fs_card s = 1"
    using that by (auto simp: small_view_def)
  ultimately show ?thesis using True by (auto simp: fs_search_def fs_mem_def small_view_def)
qed

section \<open>Union\<close>

lemma next_multiple: "((n OR 63) + 1) div 64 = Suc (n div (64 :: nat))"
proof -
  have m: "(63 :: nat) = mask 6" by (simp add: mask_eq_exp_minus_1)
  have "(n OR 63) div 64 = drop_bit 6 (n OR 63)" by (simp add: drop_bit_eq_div)
  also have "\<dots> = n div 64" by (simp only: drop_bit_or m) (simp add: drop_bit_eq_div mask_eq_exp_minus_1)
  finally have d: "(n OR 63) div 64 = n div 64" .
  have "(n OR 63) mod 64 = take_bit 6 (n OR 63)" by (simp add: take_bit_eq_mod)
  also have "\<dots> = mask 6" unfolding m by (rule bit_eqI) (auto simp: bit_simps)
  finally have r: "(n OR 63) mod 64 = 63" by (simp add: mask_eq_exp_minus_1)
  have "n OR 63 = 64 * (n div 64) + 63" using div_mult_mod_eq[of "n OR 63" 64] d r by (simp add: mult.commute)
  then have "(n OR 63) + 1 = 64 * Suc (n div 64)" by simp
  then show ?thesis by (metis nonzero_mult_div_cancel_left zero_neq_numeral)
qed

lemma fs_join_law:
  assumes ok: "fs_ok s" "fs_ok t" and n: "n < 512" and below: "\<forall>x<512. fs_mem t x \<longrightarrow> unat x \<le> n"
  shows "fs_ok (fs_join t n s) \<and> (\<forall>y<512. fs_mem (fs_join t n s) y \<longleftrightarrow> fs_mem s y \<or> fs_mem t y)"
proof -
  consider "fs_card t = 0" | "fs_card t \<noteq> 0" "fs_card t < SMALL_SIZE" | "\<not> fs_card t < SMALL_SIZE"
    by blast
  then show ?thesis
  proof cases
    case 1
    then show ?thesis using ok by (auto simp: fs_join_def fs_mem_def[of t] SMALL_SIZE_def small_view_def)
  next
    case 2
    have "fs_join t n s = fold fs_insert (small_view t) s"
      using 2 by (simp add: fs_join_def small_view_def foldl_conv_fold comp_def fold_map)
    with 2 ok fs_fold_insert_law[OF ok(1), of "small_view t"] show ?thesis by (auto simp: fs_ok_def fs_mem_def[of t])
  next
    case 3
    define s' where "s' = (if fs_card s < SMALL_SIZE then (smalltobit s)\<lparr>fs_card := SMALL_SIZE\<rparr> else s)"
    define lim where "lim = ((n OR 63) + 1) div 64"
    define or where "or k = foldl (\<lambda>d i. d[i := d ! i OR fs_data t ! i]) (fs_data s') [0..<k]" for k
    have s': "fs_ok s' \<and> fs_card s' = SMALL_SIZE \<and> (\<forall>y<512. getbit y s' \<longleftrightarrow> fs_mem s y)"
    proof (cases "fs_card s < SMALL_SIZE")
      case True
      with ok smalltobit_law[of s] show ?thesis by (auto simp: s'_def fs_ok_def fs_mem_def getbit_def)
    next
      case False
      with ok show ?thesis by (auto simp: s'_def fs_ok_def fs_mem_def)
    qed
    have orl: "length (or k) = 8 \<and> (\<forall>i<8. or k ! i = (if i < k then fs_data s' ! i OR fs_data t ! i else fs_data s' ! i))"
      if "k \<le> 8" for k
      using that
    proof (induction k)
      case 0
      then show ?case using s' by (simp add: or_def fs_ok_def)
    next
      case (Suc k)
      then show ?case by (auto simp: or_def nth_list_update less_Suc_eq)
    qed
    have lim: "lim \<le> 8" "n div 64 < lim" using n unfolding lim_def next_multiple by simp_all
    have e: "fs_join t n s = s'\<lparr>fs_data := or lim\<rparr>"
      using 3 by (auto simp: fs_join_def s'_def lim_def or_def Let_def SMALL_SIZE_def)
    have g: "getbit y (s'\<lparr>fs_data := or lim\<rparr>) \<longleftrightarrow> getbit y s' \<or> getbit y t" if y: "y < 512" for y
    proof (cases "unat (drop_bit 6 y) < lim")
      case True
      with orl[OF lim(1)] word_and_bit(1)[OF y] show ?thesis by (simp add: getbit_bit bit_or_iff)
    next
      case False
      have "\<not> fs_mem t y"
      proof
        assume "fs_mem t y"
        with below y have "unat y \<le> n" by blast
        then have "unat (drop_bit 6 y) \<le> n div 64" using word_and_bit(2,3)[OF y] by linarith
        with False lim(2) show False by simp
      qed
      with False orl[OF lim(1)] word_and_bit(1)[OF y] 3 show ?thesis by (simp add: getbit_bit fs_mem_def)
    qed
    from s' orl[OF lim(1)] g 3 show ?thesis by (auto simp: e fs_ok_def fs_mem_def[of t] fs_mem_def[of "s'\<lparr>fs_data := or lim\<rparr>"])
  qed
qed

section \<open>Enumeration\<close>

lemma upt_words: "concat (map (\<lambda>w. [64 * w..<64 * w + 64]) [0..<k]) = [0..<64 * k]"
proof (induction k)
  case (Suc k)
  then show ?case using upt_add_eq_append[of 0 "64 * k" 64] by (simp add: algebra_simps)
qed simp

lemma filter_less_upt: "n \<le> m \<Longrightarrow> filter (\<lambda>l. l < n) [0..<m] = [0..<n]"
  using upt_add_eq_append[of 0 n "m - n"] by (simp add: filter_empty_conv)

lemma expand_bits:
  assumes "n \<le> 512" "length (fs_data s) = 8"
  shows "concat (map (expand_word s n) [0..<(n + 63) div 64]) = filter (\<lambda>l. getbit l s) (map of_nat [0..<n])"
proof -
  let ?ws = "[0..<(n + 63) div 64]"
  have "expand_word s n = (\<lambda>w. filter (\<lambda>l. getbit l s) (map of_nat (filter (\<lambda>l. l < n) [64 * w..<64 * w + 64])))"
  proof (rule ext)
    fix w
    show "expand_word s n w = filter (\<lambda>l. getbit l s) (map of_nat (filter (\<lambda>l. l < n) [64 * w..<64 * w + 64]))"
  proof (cases "fs_data s ! w = 0")
    case True
    have "\<not> getbit (of_nat l) s" if l: "64 * w \<le> l" "l < 64 * w + 64" "l < n" for l
    proof -
      have u: "unat (of_nat l :: u16) = l" using l assms by (simp add: unat_of_nat)
      then have "(of_nat l :: u16) < 512" using l assms by (simp add: word_less_nat_alt)
      with word_and_bit[of "of_nat l"] u l have "unat (drop_bit 6 (of_nat l :: u16)) = w" by auto
      with True show ?thesis by (simp add: getbit_bit)
    qed
    with True show ?thesis by (auto simp: expand_word_def filter_empty_conv)
  qed (simp add: expand_word_def)
  qed
  then have "concat (map (expand_word s n) ?ws) =
      filter (\<lambda>l. getbit l s) (map of_nat (filter (\<lambda>l. l < n) (concat (map (\<lambda>w. [64 * w..<64 * w + 64]) ?ws))))"
    by (simp add: filter_concat map_concat comp_def)
  moreover have "n \<le> 64 * ((n + 63) div 64)" by simp
  ultimately show ?thesis by (simp only: upt_words filter_less_upt)
qed

lemma fs_expand_law:
  assumes ok: "fs_ok s" and n: "n \<le> 512"
  shows "sorted_wrt (<) (fs_expand s n)" "set (fs_expand s n) \<subseteq> {x. x < 512 \<and> fs_mem s x}"
    "\<forall>x<512. fs_mem s x \<longrightarrow> unat x < n \<Longrightarrow> set (fs_expand s n) = {x. x < 512 \<and> fs_mem s x}"
proof -
  have mono: "sorted_wrt (<) (map (of_nat :: nat \<Rightarrow> u16) [0..<n])"
    using n by (auto simp: sorted_wrt_iff_nth_less word_less_nat_alt unat_of_nat)
  show "sorted_wrt (<) (fs_expand s n)"
    using ok expand_bits[OF n, of s] sorted_wrt_filter[OF mono]
    by (auto simp: fs_expand_def fs_ok_def small_view_def)
  have big: "fs_expand s n = filter (\<lambda>l. getbit l s) (map of_nat [0..<n])" if "\<not> fs_card s < SMALL_SIZE"
    using that expand_bits[OF n, of s] ok by (simp add: fs_expand_def fs_ok_def SMALL_SIZE_def)
  have small: "set (fs_expand s n) = {x. x < 512 \<and> fs_mem s x}" if "fs_card s < SMALL_SIZE"
    using that ok by (auto simp: fs_expand_def fs_ok_def fs_mem_def small_view_def)
  have lt: "(of_nat l :: u16) < 512" if "l < n" for l using that n by (simp add: word_less_nat_alt unat_of_nat)
  show "set (fs_expand s n) \<subseteq> {x. x < 512 \<and> fs_mem s x}"
    using big small lt by (cases "fs_card s < SMALL_SIZE") (auto simp: fs_mem_def)
  show "set (fs_expand s n) = {x. x < 512 \<and> fs_mem s x}" if b: "\<forall>x<512. fs_mem s x \<longrightarrow> unat x < n"
  proof (cases "fs_card s < SMALL_SIZE")
    case False
    have "x \<in> of_nat ` {0..<n}" if "x < 512" "fs_mem s x" for x
      using b that by (auto intro!: image_eqI[of x of_nat "unat x"])
    with False lt show ?thesis by (auto simp: big fs_mem_def)
  qed (rule small)
qed

section \<open>The set refines a set\<close>

text \<open>C19: The set of \<^verbatim>\<open>inc/set.h\<close> implements a set of numbers below 512, in its sorted array form, in its bit set form and across the
  change of form in the shared memory of the union: a search (linear, binary or by bit) finds exactly what was inserted, \<open>expand\<close> lists
  it in ascending order, and \<open>join\<close> is the union.\<close>

theorem fastset_refines_set:
  assumes "\<forall>x\<in>set xs. x < 512" "\<forall>x\<in>set ys. x < 512" "\<forall>x\<in>set xs. unat x < m" "m \<le> 512" "\<forall>x\<in>set ys. unat x \<le> n" "n < 512"
  shows "let s = fold fs_insert xs new_fastset; t = fold fs_insert ys new_fastset in
     (\<forall>y<512. fs_search y s \<longleftrightarrow> y \<in> set xs) \<and>
     fs_expand s m = sorted_list_of_set (set xs) \<and>
     (\<forall>y<512. fs_search y (fs_join t n s) \<longleftrightarrow> y \<in> set xs \<union> set ys)"
proof -
  let ?s = "fold fs_insert xs new_fastset" and ?t = "fold fs_insert ys new_fastset"
  have s: "fs_ok ?s" "\<forall>y<512. fs_mem ?s y \<longleftrightarrow> y \<in> set xs" and t: "fs_ok ?t" "\<forall>y<512. fs_mem ?t y \<longleftrightarrow> y \<in> set ys"
    using fs_fold_insert_law[of new_fastset xs] fs_fold_insert_law[of new_fastset ys] assms by simp_all
  have j: "fs_ok (fs_join ?t n ?s)" "\<forall>y<512. fs_mem (fs_join ?t n ?s) y \<longleftrightarrow> fs_mem ?s y \<or> fs_mem ?t y"
    using fs_join_law[OF s(1) t(1) assms(6)] t(2) assms(5) by auto
  note e = fs_expand_law[OF s(1) assms(4)]
  have "set (fs_expand ?s m) = set xs" using e(3) s(2) assms(1,3) by auto
  then have "fs_expand ?s m = sorted_list_of_set (set xs)"
    using e(1) by (metis finite_set sorted_list_of_set.idem_if_sorted_distinct strict_sorted_iff)
  with s t j show ?thesis by (simp add: Let_def fs_search_law)
qed

lemma fastset_refines_set_witness:
  "fs_expand (fold fs_insert [300, 7, 300, 12] new_fastset) 352 = [7, 12, 300] \<and>
   fs_search 255 (fs_join (fold fs_insert (map of_nat [250..<264]) new_fastset) 351 (fold fs_insert [300, 7, 300, 12] new_fastset))"
proof -
  have "\<forall>x\<in>set (map of_nat [250..<264]). (x :: u16) < 512" "\<forall>x\<in>set (map of_nat [250..<264] :: u16 list). unat x \<le> 351"
    by (simp_all add: upt_rec)
  note th = fastset_refines_set[of "[300, 7, 300, 12]" "map of_nat [250..<264]" 352 351, OF _ this(1) _ _ this(2), unfolded Let_def]
  have "sorted_list_of_set (set [300, 7, 300, 12 :: u16]) = [7, 12, 300]"
    by (simp only: sorted_list_of_set_sort_remdups) simp
  moreover have "(255 :: u16) \<in> set (map of_nat [250..<264])" by (simp add: upt_rec)
  ultimately show ?thesis using th by simp
qed

end
