(* ===== verification/CoreTypes.thy ===== *)
theory CoreTypes
  imports FastSet RequestQueue MemoryInterface "HOL-Library.Monad_Syntax"
begin

text \<open>
  The data of the out-of-order core of \<^verbatim>\<open>inc/ooo_cpu.h\<close>: instructions (\<^verbatim>\<open>ooo_model_instr\<close> of \<^verbatim>\<open>inc/instruction.h\<close>), load and store
  queue entries and the buffers of the core (\<^verbatim>\<open>inc/block.h\<close>), the members of \<^verbatim>\<open>O3_CPU\<close>, and what a core calls: the branch prediction
  unit, the instruction prefetcher and the four caches behind its buses. The sizes are those of \<^verbatim>\<open>templates/champsim_constants.h\<close>, filled in by the
  build; \<open>default_core_conf\<close> has the values of \<^verbatim>\<open>default_config.cmake\<close>. Members that no code of the core reads (\<^verbatim>\<open>inst_pt\<close>,
  \<^verbatim>\<open>size\<close>, \<^verbatim>\<open>fetch_producer\<close>, \<^verbatim>\<open>is_consumer\<close>, \<^verbatim>\<open>mem_ready\<close>, \<^verbatim>\<open>data_pa\<close>, the addresses \<^verbatim>\<open>*virtual_address\<close>, \<^verbatim>\<open>forwarding_*\<close>) are left out.
\<close>

section \<open>Configuration\<close>

record core_conf =
  IFETCH_BUFFER_SIZE :: nat
  DECODE_BUFFER_SIZE :: nat
  DISPATCH_BUFFER_SIZE :: nat
  ROB_SIZE :: nat
  LQ_SIZE :: nat
  SQ_SIZE :: nat
  FETCH_WIDTH :: nat
  DECODE_WIDTH :: nat
  DISPATCH_WIDTH :: nat
  EXEC_WIDTH :: nat
  LQ_WIDTH :: nat
  SQ_WIDTH :: nat
  RETIRE_WIDTH :: nat
  BRANCH_MISPREDICT_PENALTY :: u64
  SCHEDULER_SIZE :: nat
  DECODE_LATENCY :: u32
  DISPATCH_LATENCY :: u32
  SCHEDULING_LATENCY :: u64
  EXEC_LATENCY :: u64
  LOG2_DIB_WINDOW_SIZE :: nat
  DIB_SET :: nat
  DIB_WAY :: nat
  ITLB_MAX_READ :: nat
  DTLB_MAX_READ :: nat
  L1I_MAX_READ :: nat
  L1D_MAX_READ :: nat

definition default_core_conf :: core_conf where
  "default_core_conf =
     \<lparr>IFETCH_BUFFER_SIZE = 64, DECODE_BUFFER_SIZE = 32, DISPATCH_BUFFER_SIZE = 32, ROB_SIZE = 352, LQ_SIZE = 128, SQ_SIZE = 72,
      FETCH_WIDTH = 6, DECODE_WIDTH = 6, DISPATCH_WIDTH = 6, EXEC_WIDTH = 4, LQ_WIDTH = 2, SQ_WIDTH = 2, RETIRE_WIDTH = 5,
      BRANCH_MISPREDICT_PENALTY = 1, SCHEDULER_SIZE = 128, DECODE_LATENCY = 1, DISPATCH_LATENCY = 1, SCHEDULING_LATENCY = 0,
      EXEC_LATENCY = 0, LOG2_DIB_WINDOW_SIZE = 4, DIB_SET = 32, DIB_WAY = 8,
      ITLB_MAX_READ = 2, DTLB_MAX_READ = 2, L1I_MAX_READ = 2, L1D_MAX_READ = 2\<rparr>"

definition NUM_INSTR_DESTINATIONS_SPARC :: nat where "NUM_INSTR_DESTINATIONS_SPARC = 4"
definition NUM_INSTR_DESTINATIONS :: nat where "NUM_INSTR_DESTINATIONS = 2"
definition NUM_INSTR_SOURCES :: nat where "NUM_INSTR_SOURCES = 4"

definition REG_STACK_POINTER :: u8 where "REG_STACK_POINTER = 6"
definition REG_FLAGS :: u8 where "REG_FLAGS = 25"
definition REG_INSTRUCTION_POINTER :: u8 where "REG_INSTRUCTION_POINTER = 26"

definition NOT_BRANCH :: u8 where "NOT_BRANCH = 0"
definition BRANCH_OTHER :: u8 where "BRANCH_OTHER = 7"

definition STA_SIZE :: "'a core_conf_scheme \<Rightarrow> nat" where
  "STA_SIZE E = ROB_SIZE E * NUM_INSTR_DESTINATIONS_SPARC"

section \<open>Instructions\<close>

record ooo_model_instr =
  oi_instr_id :: u64
  oi_ip :: u64
  oi_producer_id :: u64
  oi_event_cycle :: u64
  oi_branch_mispredicted :: u64
  oi_is_branch :: bool
  oi_is_memory :: bool
  oi_branch_taken :: bool
  oi_branch_mispredicted_all :: bool
  oi_pfc_finished :: bool
  oi_source_added :: "bool list"
  oi_destination_added :: "bool list"
  oi_is_producer :: bool
  oi_reg_RAW_producer :: bool
  oi_reg_ready :: bool
  oi_reg_RAW_checked :: "bool list"
  oi_asid :: "u8 \<times> u8"
  oi_branch_type :: u8
  oi_branch_target :: u64
  oi_translated :: u8
  oi_fetched :: u8
  oi_decoded :: u8
  oi_scheduled :: u8
  oi_executed :: u8
  oi_num_reg_ops :: int
  oi_num_mem_ops :: int
  oi_num_reg_dependent :: int
  oi_destination_registers :: "u8 list"
  oi_source_registers :: "u8 list"
  oi_registers_instrs_depend_on_me :: fastset
  oi_registers_index_depend_on_me :: "fastset list"
  oi_instruction_pa :: u64
  oi_destination_memory :: "u64 list"
  oi_source_memory :: "u64 list"
  oi_memory_instrs_depend_on_me :: fastset
  oi_lq_index :: "u32 list"
  oi_sq_index :: "u32 list"

definition new_instr :: ooo_model_instr where
  "new_instr =
     \<lparr>oi_instr_id = 0, oi_ip = 0, oi_producer_id = 0, oi_event_cycle = 0, oi_branch_mispredicted = 0,
      oi_is_branch = False, oi_is_memory = False, oi_branch_taken = False, oi_branch_mispredicted_all = False, oi_pfc_finished = False,
      oi_source_added = replicate NUM_INSTR_SOURCES False, oi_destination_added = replicate NUM_INSTR_DESTINATIONS_SPARC False,
      oi_is_producer = False, oi_reg_RAW_producer = False, oi_reg_ready = False, oi_reg_RAW_checked = replicate NUM_INSTR_SOURCES False,
      oi_asid = (255, 255), oi_branch_type = NOT_BRANCH, oi_branch_target = 0,
      oi_translated = 0, oi_fetched = 0, oi_decoded = 0, oi_scheduled = 0, oi_executed = 0,
      oi_num_reg_ops = 0, oi_num_mem_ops = 0, oi_num_reg_dependent = 0,
      oi_destination_registers = replicate NUM_INSTR_DESTINATIONS_SPARC 0, oi_source_registers = replicate NUM_INSTR_SOURCES 0,
      oi_registers_instrs_depend_on_me = new_fastset, oi_registers_index_depend_on_me = replicate NUM_INSTR_SOURCES new_fastset,
      oi_instruction_pa = 0, oi_destination_memory = replicate NUM_INSTR_DESTINATIONS_SPARC 0, oi_source_memory = replicate NUM_INSTR_SOURCES 0,
      oi_memory_instrs_depend_on_me = new_fastset,
      oi_lq_index = replicate NUM_INSTR_SOURCES (- 1), oi_sq_index = replicate NUM_INSTR_DESTINATIONS_SPARC (- 1)\<rparr>"

text \<open>A record of a trace, \<^verbatim>\<open>input_instr\<close> with two destinations and \<^verbatim>\<open>cloudsuite_instr\<close> with four, and the instruction built from it.\<close>

record input_instr =
  ii_ip :: u64
  ii_is_branch :: bool
  ii_branch_taken :: bool
  ii_destination_registers :: "u8 list"
  ii_source_registers :: "u8 list"
  ii_destination_memory :: "u64 list"
  ii_source_memory :: "u64 list"

definition copy_to :: "'a list \<Rightarrow> 'a list \<Rightarrow> 'a list" where
  "copy_to xs ys = xs @ drop (length xs) ys"

definition instr_of_input :: "u8 \<Rightarrow> input_instr \<Rightarrow> ooo_model_instr" where
  "instr_of_input cpu i =
     new_instr\<lparr>oi_destination_registers := copy_to (ii_destination_registers i) (oi_destination_registers new_instr),
       oi_destination_memory := copy_to (ii_destination_memory i) (oi_destination_memory new_instr),
       oi_source_registers := copy_to (ii_source_registers i) (oi_source_registers new_instr),
       oi_source_memory := copy_to (ii_source_memory i) (oi_source_memory new_instr),
       oi_ip := ii_ip i, oi_is_branch := ii_is_branch i, oi_branch_taken := ii_branch_taken i, oi_asid := (cpu, cpu)\<rparr>"

text \<open>The constructor from a \<^verbatim>\<open>cloudsuite_instr\<close> copies an empty range for the address space, which stays that of a new instruction.\<close>

definition instr_of_cloudsuite :: "input_instr \<Rightarrow> ooo_model_instr" where
  "instr_of_cloudsuite i =
     new_instr\<lparr>oi_destination_registers := copy_to (ii_destination_registers i) (oi_destination_registers new_instr),
       oi_destination_memory := copy_to (ii_destination_memory i) (oi_destination_memory new_instr),
       oi_source_registers := copy_to (ii_source_registers i) (oi_source_registers new_instr),
       oi_source_memory := copy_to (ii_source_memory i) (oi_source_memory new_instr),
       oi_ip := ii_ip i, oi_is_branch := ii_is_branch i, oi_branch_taken := ii_branch_taken i\<rparr>"

section \<open>The queues of the core\<close>

record lsq_entry =
  ls_instr_id :: u64
  ls_producer_id :: u64
  ls_virtual_address :: u64
  ls_physical_address :: u64
  ls_ip :: u64
  ls_event_cycle :: u64
  ls_rob_index :: nat
  ls_data_index :: nat
  ls_translated :: u8
  ls_fetched :: u8
  ls_asid :: "u8 \<times> u8"

definition new_lsq_entry :: lsq_entry where
  "new_lsq_entry =
     \<lparr>ls_instr_id = 0, ls_producer_id = - 1, ls_virtual_address = 0, ls_physical_address = 0, ls_ip = 0, ls_event_cycle = 0,
      ls_rob_index = 0, ls_data_index = 0, ls_translated = 0, ls_fetched = 0, ls_asid = (255, 255)\<rparr>"

text \<open>\<^verbatim>\<open>CORE_BUFFER\<close>: an array with the indices of a ring. The occupancy is an \<^verbatim>\<open>uint32_t\<close>.\<close>

record 'a core_buffer =
  co_entry :: "'a list"
  co_head :: nat
  co_tail :: nat
  co_occupancy :: u32

definition core_buffer_new :: "'a \<Rightarrow> nat \<Rightarrow> 'a core_buffer" where
  "core_buffer_new d n = \<lparr>co_entry = replicate n d, co_head = 0, co_tail = 0, co_occupancy = 0\<rparr>"

definition next_index :: "nat \<Rightarrow> nat \<Rightarrow> nat" where
  "next_index n i = (if i + 1 = n then 0 else i + 1)"

text \<open>\<^verbatim>\<open>for (i = head, count = 0; count < occupancy; i = (i + 1 == SIZE) ? 0 : i + 1, count++)\<close> visits \<open>ring_indices\<close>.\<close>

fun indices_from :: "nat \<Rightarrow> nat \<Rightarrow> nat \<Rightarrow> nat list" where
  "indices_from n i 0 = []"
| "indices_from n i (Suc k) = i # indices_from n (next_index n i) k"

definition ring_indices :: "'a core_buffer \<Rightarrow> nat list" where
  "ring_indices b = indices_from (length (co_entry b)) (co_head b) (unat (co_occupancy b))"

definition co_is_empty :: "'a core_buffer \<Rightarrow> bool" where
  "co_is_empty b \<longleftrightarrow> co_head b = co_tail b \<and> co_occupancy b = 0"

text \<open>The arrays with a head and a tail that hold indices (or instruction numbers) in order; a free slot holds a value that is no index.\<close>

record 'a ring =
  rg_slots :: "'a list"
  rg_head :: nat
  rg_tail :: nat

definition ring_new :: "'a \<Rightarrow> nat \<Rightarrow> 'a ring" where
  "ring_new d n = \<lparr>rg_slots = replicate n d, rg_head = 0, rg_tail = 0\<rparr>"

definition ring_top :: "'a ring \<Rightarrow> 'a" where
  "ring_top r = rg_slots r ! rg_head r"

definition ring_put :: "'a \<Rightarrow> 'a ring \<Rightarrow> 'a ring" where
  "ring_put x r = r\<lparr>rg_slots := (rg_slots r)[rg_tail r := x], rg_tail := next_index (length (rg_slots r)) (rg_tail r)\<rparr>"

definition ring_pop :: "'a \<Rightarrow> 'a ring \<Rightarrow> 'a ring" where
  "ring_pop d r = r\<lparr>rg_slots := (rg_slots r)[rg_head r := d], rg_head := next_index (length (rg_slots r)) (rg_head r)\<rparr>"

section \<open>The core\<close>

record dib_entry =
  dib_valid :: bool
  dib_lru :: u32
  dib_addr :: u64

record ('b, 'p, 'm) core =
  instr_unique_id :: u64
  completed_executions :: u64
  instrs_to_read_this_cycle :: u64
  num_retired :: u64
  inflight_reg_executions :: u32
  inflight_mem_executions :: u32
  num_searched :: nat
  DIB :: "dib_entry list list"
  IFETCH_BUFFER :: "ooo_model_instr circular_buffer"
  DISPATCH_BUFFER :: "ooo_model_instr delay_queue"
  DECODE_BUFFER :: "ooo_model_instr delay_queue"
  ROB :: "ooo_model_instr core_buffer"
  LQ :: "lsq_entry core_buffer"
  SQ :: "lsq_entry core_buffer"
  STA :: "u64 ring"
  ready_to_execute :: "nat ring"
  RTL0 :: "nat ring"
  RTL1 :: "nat ring"
  RTS0 :: "nat ring"
  RTS1 :: "nat ring"
  fetch_stall :: bool
  fetch_resume_cycle :: u64
  num_branch :: u64
  branch_mispredictions :: u64
  total_rob_occupancy_at_branch_mispredict :: u64
  total_branch_types :: "u64 list"
  branch_type_misses :: "u64 list"
  predicted_taken_branch_count :: u64
  btb_miss_taken_branch_count :: u64
  ITLB_PROCESSED :: "packet circular_buffer"
  DTLB_PROCESSED :: "packet circular_buffer"
  L1I_PROCESSED :: "packet circular_buffer"
  L1D_PROCESSED :: "packet circular_buffer"
  bpu :: 'b
  l1i_pf :: 'p
  memory :: 'm

definition new_core :: "'a core_conf_scheme \<Rightarrow> 'b \<Rightarrow> 'p \<Rightarrow> 'm \<Rightarrow> ('b, 'p, 'm) core" where
  "new_core E b p m =
     \<lparr>instr_unique_id = 0, completed_executions = 0, instrs_to_read_this_cycle = 0, num_retired = 0,
      inflight_reg_executions = 0, inflight_mem_executions = 0, num_searched = 0,
      DIB = replicate (DIB_SET E) (replicate (DIB_WAY E) \<lparr>dib_valid = False, dib_lru = of_nat (DIB_WAY E), dib_addr = 0\<rparr>),
      IFETCH_BUFFER = circular_buffer_new new_instr (IFETCH_BUFFER_SIZE E),
      DISPATCH_BUFFER = delay_queue_new new_instr (DISPATCH_BUFFER_SIZE E) (DISPATCH_LATENCY E),
      DECODE_BUFFER = delay_queue_new new_instr (DECODE_BUFFER_SIZE E) (DECODE_LATENCY E),
      ROB = core_buffer_new new_instr (ROB_SIZE E), LQ = core_buffer_new new_lsq_entry (LQ_SIZE E), SQ = core_buffer_new new_lsq_entry (SQ_SIZE E),
      STA = ring_new (- 1) (STA_SIZE E), ready_to_execute = ring_new (ROB_SIZE E) (ROB_SIZE E),
      RTL0 = ring_new (LQ_SIZE E) (LQ_SIZE E), RTL1 = ring_new (LQ_SIZE E) (LQ_SIZE E),
      RTS0 = ring_new (SQ_SIZE E) (SQ_SIZE E), RTS1 = ring_new (SQ_SIZE E) (SQ_SIZE E),
      fetch_stall = False, fetch_resume_cycle = 0, num_branch = 0, branch_mispredictions = 0,
      total_rob_occupancy_at_branch_mispredict = 0, total_branch_types = replicate 8 0, branch_type_misses = replicate 8 0,
      predicted_taken_branch_count = 0, btb_miss_taken_branch_count = 0,
      ITLB_PROCESSED = circular_buffer_new empty_packet (ROB_SIZE E), DTLB_PROCESSED = circular_buffer_new empty_packet (ROB_SIZE E),
      L1I_PROCESSED = circular_buffer_new empty_packet (ROB_SIZE E), L1D_PROCESSED = circular_buffer_new empty_packet (ROB_SIZE E),
      bpu = b, l1i_pf = p, memory = m\<rparr>"

section \<open>What a core calls\<close>

text \<open>
  The branch prediction unit is the BTB (\<^verbatim>\<open>btb_prediction\<close>, \<^verbatim>\<open>update_btb\<close>; a BTB of several levels also sets the latency) with the
  direction predictor (\<^verbatim>\<open>predict_branch\<close>, \<^verbatim>\<open>last_branch_result\<close>). The instruction prefetcher sees the branches, and every cycle it may read the
  fetch buffer and call \<^verbatim>\<open>prefetch_code_line\<close>. The four buses send requests to a cache each; \<open>m_operate\<close> runs the cycle of one of the
  six caches, which may answer through the buses. The flags are those of \<^verbatim>\<open>src/main.cc\<close>; the two hooks of the Twig
  profiler (\<^verbatim>\<open>twig_record\<close>, \<^verbatim>\<open>twig_prefetcher\<close>) do nothing unless their flags are set, and are left out.
\<close>

datatype core_cache = C_L2C | C_L1D | C_L1I | C_STLB | C_DTLB | C_ITLB

record ('b, 'p, 'm) core_env = core_conf +
  pt :: bool
  knob_cloudsuite :: bool
  perfect_bp :: bool
  perfect_btb :: bool
  perfect_bpu :: bool
  MAX_INSTR_DESTINATIONS :: nat
  b_btb_prediction :: "u64 \<Rightarrow> u8 \<Rightarrow> 'b \<Rightarrow> ((u64 \<times> u8) \<times> u64 \<times> 'b) option"
  b_predict_branch :: "u64 \<Rightarrow> u64 \<Rightarrow> u8 \<Rightarrow> u8 \<Rightarrow> 'b \<Rightarrow> (u8 \<times> 'b) option"
  b_update_btb :: "u64 \<Rightarrow> u64 \<Rightarrow> u8 \<Rightarrow> u8 \<Rightarrow> 'b \<Rightarrow> 'b option"
  b_last_branch_result :: "u64 \<Rightarrow> u64 \<Rightarrow> u8 \<Rightarrow> u8 \<Rightarrow> 'b \<Rightarrow> 'b option"
  p_branch_operate :: "u64 \<Rightarrow> u8 \<Rightarrow> u64 \<Rightarrow> bool \<Rightarrow> bool \<Rightarrow> u64 \<Rightarrow> 'p \<Rightarrow> 'p"
  p_cycle_operate ::
    "ooo_model_instr list \<Rightarrow> (u64 \<Rightarrow> 'm \<Rightarrow> (bool \<times> 'm) option) \<Rightarrow> 'p \<Rightarrow> 'm \<Rightarrow> ('p \<times> 'm) option"
  p_resolved_branch :: "ooo_model_instr \<Rightarrow> bool \<Rightarrow> 'p \<Rightarrow> bool \<times> 'p"
  m_itlb :: "'m consumer"
  m_dtlb :: "'m consumer"
  m_l1i :: "'m consumer"
  m_l1d :: "'m consumer"
  m_prefetch_code_line :: "clock \<Rightarrow> u64 \<Rightarrow> 'm \<Rightarrow> (bool \<times> 'm) option"
  m_operate :: "core_cache \<Rightarrow> clock \<Rightarrow> 'm \<Rightarrow> ((nat \<times> packet) list \<times> 'm) option"

text \<open>The addresses of the four buses, which requests carry in \<^verbatim>\<open>to_return\<close>.\<close>

definition ITLB_bus :: nat where "ITLB_bus = 0"
definition DTLB_bus :: nat where "DTLB_bus = 1"
definition L1I_bus :: nat where "L1I_bus = 2"
definition L1D_bus :: nat where "L1D_bus = 3"

lemmas bus_defs = ITLB_bus_def DTLB_bus_def L1I_bus_def L1D_bus_def

text \<open>One core (\<^verbatim>\<open>cpu\<close> is 0) and its clock.\<close>

definition now :: "clock \<Rightarrow> u64" where "now clk = current_core_cycle clk 0"
definition warm :: "clock \<Rightarrow> bool" where "warm clk = warmup_complete clk 0"

text \<open>\<^verbatim>\<open>CacheBus::return_data\<close>, on the bus with the given address. Prefetches are not returned.\<close>

definition bus_return :: "nat \<times> packet \<Rightarrow> ('b, 'p, 'm) core \<Rightarrow> ('b, 'p, 'm) core option" where
  "bus_return c s =
     (let (bus, pkt) = c
      in if pk_type pkt = ucast PREFETCH then Some s
         else if bus = ITLB_bus then map_option (\<lambda>b. s\<lparr>ITLB_PROCESSED := b\<rparr>) (cb_push_back pkt (ITLB_PROCESSED s))
         else if bus = DTLB_bus then map_option (\<lambda>b. s\<lparr>DTLB_PROCESSED := b\<rparr>) (cb_push_back pkt (DTLB_PROCESSED s))
         else if bus = L1I_bus then map_option (\<lambda>b. s\<lparr>L1I_PROCESSED := b\<rparr>) (cb_push_back pkt (L1I_PROCESSED s))
         else if bus = L1D_bus then map_option (\<lambda>b. s\<lparr>L1D_PROCESSED := b\<rparr>) (cb_push_back pkt (L1D_PROCESSED s))
         else None)"

primrec try_all :: "('x \<Rightarrow> 's \<Rightarrow> 's option) \<Rightarrow> 'x list \<Rightarrow> 's \<Rightarrow> 's option" where
  "try_all f [] s = Some s"
| "try_all f (x # xs) s = Option.bind (f x s) (try_all f xs)"

text \<open>A request to a cache; the answers it makes at once are delivered before it returns.\<close>

definition bus_request ::
  "(clock \<Rightarrow> packet \<Rightarrow> 'm \<Rightarrow> (int \<times> (nat \<times> packet) list \<times> 'm) option) \<Rightarrow> clock \<Rightarrow> packet \<Rightarrow> ('b, 'p, 'm) core \<Rightarrow>
   (int \<times> ('b, 'p, 'm) core) option" where
  "bus_request f clk pkt s = do {
     (code, calls, m) \<leftarrow> f clk pkt (memory s);
     s \<leftarrow> try_all bus_return calls (s\<lparr>memory := m\<rparr>);
     Some (code, s) }"

section \<open>Access to the buffers\<close>

definition rob_at :: "nat \<Rightarrow> ('b, 'p, 'm) core \<Rightarrow> ooo_model_instr" where
  "rob_at i s = co_entry (ROB s) ! i"

definition upd_rob :: "nat \<Rightarrow> (ooo_model_instr \<Rightarrow> ooo_model_instr) \<Rightarrow> ('b, 'p, 'm) core \<Rightarrow> ('b, 'p, 'm) core" where
  "upd_rob i f s = s\<lparr>ROB := (ROB s)\<lparr>co_entry := (co_entry (ROB s))[i := f (rob_at i s)]\<rparr>\<rparr>"

definition lq_at :: "nat \<Rightarrow> ('b, 'p, 'm) core \<Rightarrow> lsq_entry" where
  "lq_at i s = co_entry (LQ s) ! i"

definition upd_lq :: "nat \<Rightarrow> (lsq_entry \<Rightarrow> lsq_entry) \<Rightarrow> ('b, 'p, 'm) core \<Rightarrow> ('b, 'p, 'm) core" where
  "upd_lq i f s = s\<lparr>LQ := (LQ s)\<lparr>co_entry := (co_entry (LQ s))[i := f (lq_at i s)]\<rparr>\<rparr>"

definition sq_at :: "nat \<Rightarrow> ('b, 'p, 'm) core \<Rightarrow> lsq_entry" where
  "sq_at i s = co_entry (SQ s) ! i"

definition upd_sq :: "nat \<Rightarrow> (lsq_entry \<Rightarrow> lsq_entry) \<Rightarrow> ('b, 'p, 'm) core \<Rightarrow> ('b, 'p, 'm) core" where
  "upd_sq i f s = s\<lparr>SQ := (SQ s)\<lparr>co_entry := (co_entry (SQ s))[i := f (sq_at i s)]\<rparr>\<rparr>"

text \<open>The elements of a circular buffer by their offset from \<^verbatim>\<open>begin()\<close>; \<^verbatim>\<open>std::find_if\<close> from an offset on.\<close>

definition cb_get :: "nat \<Rightarrow> 'a circular_buffer \<Rightarrow> 'a" where
  "cb_get k b = cb_at b (it_add (cb_head b) (int k))"

definition cb_set :: "nat \<Rightarrow> ('a \<Rightarrow> 'a) \<Rightarrow> 'a circular_buffer \<Rightarrow> 'a circular_buffer" where
  "cb_set k f b = cb_modify (it_add (cb_head b) (int k)) f b"

definition cb_find_from :: "('a \<Rightarrow> bool) \<Rightarrow> nat \<Rightarrow> 'a circular_buffer \<Rightarrow> nat" where
  "cb_find_from P k b =
     (case List.find (\<lambda>i. P (cb_get i b)) [k..<unat (occupancy b)] of Some i \<Rightarrow> i | None \<Rightarrow> unat (occupancy b))"

definition cb_list :: "'a circular_buffer \<Rightarrow> 'a list" where
  "cb_list b = map (\<lambda>k. cb_get k b) [0..<unat (occupancy b)]"

end
