(* ===== verification/CoreFront.thy ===== *)
theory CoreFront
  imports CoreTypes LlcReplacement
begin

text \<open>
  The in-order front of the core, from \<^verbatim>\<open>src/ooo_cpu.cc\<close>: \<^verbatim>\<open>init_instruction\<close> (reading the trace, classifying and predicting
  branches), \<^verbatim>\<open>fetch_instruction\<close>, \<^verbatim>\<open>decode_instruction\<close> and \<^verbatim>\<open>dispatch_instruction\<close>. Statistics that are only printed and \<^verbatim>\<open>DP\<close> are left out,
  those that are members are kept.
\<close>

section \<open>Reading an instruction\<close>

text \<open>What the two loops over the registers find out.\<close>

definition dest_regs :: "('b, 'p, 'm) core_env \<Rightarrow> ooo_model_instr \<Rightarrow> u8 list" where
  "dest_regs E i = take (MAX_INSTR_DESTINATIONS E) (oi_destination_registers i)"

definition writes_sp :: "('b, 'p, 'm) core_env \<Rightarrow> ooo_model_instr \<Rightarrow> bool" where
  "writes_sp E i \<longleftrightarrow> REG_STACK_POINTER \<in> set (dest_regs E i)"

definition writes_ip :: "('b, 'p, 'm) core_env \<Rightarrow> ooo_model_instr \<Rightarrow> bool" where
  "writes_ip E i \<longleftrightarrow> REG_INSTRUCTION_POINTER \<in> set (dest_regs E i)"

definition reads_sp :: "ooo_model_instr \<Rightarrow> bool" where
  "reads_sp i \<longleftrightarrow> REG_STACK_POINTER \<in> set (oi_source_registers i)"

definition reads_flags :: "ooo_model_instr \<Rightarrow> bool" where
  "reads_flags i \<longleftrightarrow> REG_FLAGS \<in> set (oi_source_registers i)"

definition reads_ip :: "ooo_model_instr \<Rightarrow> bool" where
  "reads_ip i \<longleftrightarrow> REG_INSTRUCTION_POINTER \<in> set (oi_source_registers i)"

definition reads_other :: "ooo_model_instr \<Rightarrow> bool" where
  "reads_other i \<longleftrightarrow>
     (\<exists>r\<in>set (oi_source_registers i). r \<notin> {0, REG_STACK_POINTER, REG_FLAGS, REG_INSTRUCTION_POINTER})"

definition count_nonzero :: "'a::zero list \<Rightarrow> int" where
  "count_nonzero xs = int (length (filter (\<lambda>x. x \<noteq> 0) xs))"

text \<open>One entry of the store array for every store of the instruction.\<close>

definition sta_add :: "u64 \<Rightarrow> u64 ring \<Rightarrow> u64 ring option" where
  "sta_add uid r =
     (if rg_slots r ! rg_tail r < - 1 \<and> rg_head r \<noteq> rg_tail r then None else Some (ring_put uid r))"

definition sta_stores :: "('b, 'p, 'm) core_env \<Rightarrow> ooo_model_instr \<Rightarrow> u64 list" where
  "sta_stores E i = filter (\<lambda>a. a \<noteq> 0) (take (MAX_INSTR_DESTINATIONS E) (oi_destination_memory i))"

definition count_ops :: "('b, 'p, 'm) core_env \<Rightarrow> ooo_model_instr \<Rightarrow> ooo_model_instr" where
  "count_ops E i =
     (let i = i\<lparr>oi_num_reg_ops := oi_num_reg_ops i + count_nonzero (dest_regs E i) + count_nonzero (oi_source_registers i),
                oi_num_mem_ops := oi_num_mem_ops i + count_nonzero (take (MAX_INSTR_DESTINATIONS E) (oi_destination_memory i)) +
                  count_nonzero (oi_source_memory i)\<rparr>
      in if oi_num_mem_ops i > 0 then i\<lparr>oi_is_memory := True\<rparr> else i)"

text \<open>The branch type as a function of the registers; \<open>None\<close> when the instruction pointer is not written.\<close>

definition classify :: "('b, 'p, 'm) core_env \<Rightarrow> ooo_model_instr \<Rightarrow> u8 option" where
  "classify E i =
     (if \<not> reads_sp i \<and> \<not> reads_flags i \<and> writes_ip E i \<and> \<not> reads_other i then Some BRANCH_DIRECT_JUMP
      else if \<not> reads_sp i \<and> \<not> reads_flags i \<and> writes_ip E i \<and> reads_other i then Some BRANCH_INDIRECT
      else if \<not> reads_sp i \<and> reads_ip i \<and> \<not> writes_sp E i \<and> writes_ip E i \<and> reads_flags i \<and> \<not> reads_other i
        then Some BRANCH_CONDITIONAL
      else if reads_sp i \<and> reads_ip i \<and> writes_sp E i \<and> writes_ip E i \<and> \<not> reads_flags i \<and> \<not> reads_other i
        then Some BRANCH_DIRECT_CALL
      else if reads_sp i \<and> reads_ip i \<and> writes_sp E i \<and> writes_ip E i \<and> \<not> reads_flags i \<and> reads_other i
        then Some BRANCH_INDIRECT_CALL
      else if reads_sp i \<and> \<not> reads_ip i \<and> writes_sp E i \<and> writes_ip E i then Some BRANCH_RETURN
      else if writes_ip E i then Some BRANCH_OTHER
      else None)"

definition set_branch :: "('b, 'p, 'm) core_env \<Rightarrow> ooo_model_instr \<Rightarrow> ooo_model_instr" where
  "set_branch E i =
     (let i = (case classify E i of
                 None \<Rightarrow> i
               | Some t \<Rightarrow> i\<lparr>oi_is_branch := True, oi_branch_type := t,
                   oi_branch_taken := (if t = BRANCH_CONDITIONAL \<or> t = BRANCH_OTHER then oi_branch_taken i else True)\<rparr>)
      in if oi_is_branch i \<and> oi_branch_taken i then i else i\<lparr>oi_branch_target := 0\<rparr>)"

text \<open>Stack pointer folding drops the stack pointer from the destinations; the numbers of the register accesses are those before it.\<close>

definition fold_sp :: "('b, 'p, 'm) core_env \<Rightarrow> ooo_model_instr \<Rightarrow> ooo_model_instr" where
  "fold_sp E i =
     (if writes_sp E i \<and> (oi_is_branch i \<or> oi_num_mem_ops i > 0 \<or> \<not> reads_other i)
      then i\<lparr>oi_destination_registers :=
               map (\<lambda>r. if r = REG_STACK_POINTER then 0 else r) (dest_regs E i) @
               drop (MAX_INSTR_DESTINATIONS E) (oi_destination_registers i),
             oi_num_reg_ops := oi_num_reg_ops i - int (length (filter (\<lambda>r. r = REG_STACK_POINTER) (dest_regs E i)))\<rparr>
      else i)"

definition trace_instr ::
  "('b, 'p, 'm) core_env \<Rightarrow> ooo_model_instr \<Rightarrow> ('b, 'p, 'm) core \<Rightarrow> (ooo_model_instr \<times> ('b, 'p, 'm) core) option" where
  "trace_instr E i s =
     (if pt E then Some (i, s)
      else do {
        sta \<leftarrow> try_all (\<lambda>_. sta_add (instr_unique_id s)) (sta_stores E i) (STA s);
        let j = set_branch E (count_ops E i);
        let s = s\<lparr>STA := sta, total_branch_types := (total_branch_types s)
                    [unat (oi_branch_type j) := total_branch_types s ! unat (oi_branch_type j) + 1]\<rparr>;
        if (oi_branch_type j = BRANCH_RETURN \<or> oi_branch_type j = BRANCH_INDIRECT \<or> oi_branch_type j = BRANCH_INDIRECT_CALL) \<and>
           oi_branch_target j = 0
        then None else Some (fold_sp E j, s) })"

section \<open>Predicting a branch\<close>

text \<open>The target and the direction that the rest of the core sees, with the flags for perfect predictors.\<close>

definition final_prediction ::
  "('b, 'p, 'm) core_env \<Rightarrow> ooo_model_instr \<Rightarrow> u64 \<Rightarrow> u8 \<Rightarrow> u64 \<times> u8" where
  "final_prediction E i predicted_branch_target branch_prediction =
     (let taken = (if oi_branch_taken i then 1 else 0)
      in if perfect_bpu E then (oi_branch_target i, taken)
         else if perfect_bp E then (predicted_branch_target, taken)
         else if perfect_btb E \<and> branch_prediction = taken then (oi_branch_target i, branch_prediction)
         else (predicted_branch_target, branch_prediction))"

text \<open>A wrong target stalls fetch after the warmup; a right one ends the reading of this cycle when the branch is taken.\<close>

definition settle_prediction ::
  "('b, 'p, 'm) core_env \<Rightarrow> clock \<Rightarrow> ooo_model_instr \<Rightarrow> u64 \<Rightarrow> ('b, 'p, 'm) core \<Rightarrow> ooo_model_instr \<times> ('b, 'p, 'm) core" where
  "settle_prediction E clk i target s =
     (if target \<noteq> oi_branch_target i
      then (let i = i\<lparr>oi_branch_mispredicted_all := True\<rparr>;
                s = s\<lparr>branch_mispredictions := branch_mispredictions s + 1,
                      total_rob_occupancy_at_branch_mispredict :=
                        total_rob_occupancy_at_branch_mispredict s + ucast (co_occupancy (ROB s)),
                      branch_type_misses := (branch_type_misses s)
                        [unat (oi_branch_type i) := branch_type_misses s ! unat (oi_branch_type i) + 1]\<rparr>
            in if warm clk
               then (i\<lparr>oi_branch_mispredicted := BRANCH_MISPREDICT_PENALTY E\<rparr>,
                     s\<lparr>fetch_stall := True, instrs_to_read_this_cycle := 0\<rparr>)
               else (i, s))
      else (i, if oi_branch_taken i then s\<lparr>instrs_to_read_this_cycle := 0\<rparr> else s))"

definition predict_instr ::
  "('b, 'p, 'm) core_env \<Rightarrow> clock \<Rightarrow> ooo_model_instr \<Rightarrow> ('b, 'p, 'm) core \<Rightarrow> (ooo_model_instr \<times> ('b, 'p, 'm) core) option" where
  "predict_instr E clk i s =
     (if \<not> oi_is_branch i then Some (i, s)
      else do {
        let s = s\<lparr>num_branch := num_branch s + 1\<rparr>;
        ((target, always_taken), predict_latency, b) \<leftarrow> b_btb_prediction E (oi_ip i) (oi_branch_type i) (bpu s);
        let i = (if warm clk then i\<lparr>oi_branch_mispredicted := predict_latency\<rparr> else i);
        (prediction, b) \<leftarrow> b_predict_branch E (oi_ip i) target always_taken (oi_branch_type i) b;
        let (target, prediction) = final_prediction E i target prediction;
        let s = (if prediction \<noteq> 0
                 then s\<lparr>predicted_taken_branch_count := predicted_taken_branch_count s + 1,
                        btb_miss_taken_branch_count := btb_miss_taken_branch_count s + (if target = 0 then 1 else 0)\<rparr>
                 else s);
        let target = (if prediction = 0 \<and> always_taken = 0 then 0 else target);
        let s = s\<lparr>l1i_pf := p_branch_operate E (oi_ip i) (oi_branch_type i) target (prediction \<noteq> 0) (always_taken \<noteq> 0)
                    (oi_branch_target i) (l1i_pf s)\<rparr>;
        let (i, s) = settle_prediction E clk i target s;
        let taken = (if oi_branch_taken i then 1 else 0);
        b \<leftarrow> b_update_btb E (oi_ip i) (oi_branch_target i) taken (oi_branch_type i) b;
        b \<leftarrow> b_last_branch_result E (oi_ip i) (oi_branch_target i) taken (oi_branch_type i) b;
        Some (i, s\<lparr>bpu := b\<rparr>) })"

definition clear_registers :: "('b, 'p, 'm) core_env \<Rightarrow> ooo_model_instr \<Rightarrow> ooo_model_instr" where
  "clear_registers E i =
     i\<lparr>oi_source_registers := map (\<lambda>_. 0) (oi_source_registers i),
       oi_destination_registers := map (\<lambda>_. 0) (dest_regs E i) @ drop (MAX_INSTR_DESTINATIONS E) (oi_destination_registers i),
       oi_num_reg_ops := 0\<rparr>"

definition init_instruction ::
  "('b, 'p, 'm) core_env \<Rightarrow> clock \<Rightarrow> ooo_model_instr \<Rightarrow> ('b, 'p, 'm) core \<Rightarrow> (u64 \<times> ('b, 'p, 'm) core) option" where
  "init_instruction E clk i s = do {
     let n = (if instrs_to_read_this_cycle s = 0
              then of_nat (min (FETCH_WIDTH E) (cb_size (IFETCH_BUFFER s) - unat (occupancy (IFETCH_BUFFER s))))
              else instrs_to_read_this_cycle s);
     let s = s\<lparr>instrs_to_read_this_cycle := n - 1\<rparr>;
     (i, s) \<leftarrow> trace_instr E (i\<lparr>oi_instr_id := instr_unique_id s\<rparr>) s;
     (i, s) \<leftarrow> predict_instr E clk i s;
     let i = i\<lparr>oi_event_cycle := now clk\<rparr>;
     let i = (if warm clk then i else clear_registers E i);
     b \<leftarrow> cb_push_back i (IFETCH_BUFFER s);
     let s = s\<lparr>IFETCH_BUFFER := b, instr_unique_id := instr_unique_id s + 1\<rparr>;
     Some (instrs_to_read_this_cycle s, s) }"

section \<open>Fetch\<close>

definition dib_index :: "('b, 'p, 'm) core_env \<Rightarrow> u64 \<Rightarrow> nat" where
  "dib_index E ip = unat (drop_bit (LOG2_DIB_WINDOW_SIZE E) ip) mod DIB_SET E"

definition dib_find :: "('b, 'p, 'm) core_env \<Rightarrow> u64 \<Rightarrow> dib_entry list \<Rightarrow> nat option" where
  "dib_find E ip dib_set =
     first_index (\<lambda>w. dib_valid (dib_set ! w) \<and>
       drop_bit (LOG2_DIB_WINDOW_SIZE E) (dib_addr (dib_set ! w)) = drop_bit (LOG2_DIB_WINDOW_SIZE E) ip) (length dib_set)"

definition dib_age :: "nat \<Rightarrow> dib_entry list \<Rightarrow> dib_entry list" where
  "dib_age way dib_set =
     (let hit_lru = dib_lru (dib_set ! way)
      in map (\<lambda>x. if dib_lru x \<le> hit_lru then x\<lparr>dib_lru := dib_lru x + 1\<rparr> else x) dib_set)"

text \<open>An instruction whose window is in the decoded instruction buffer is translated, fetched and decoded at once.\<close>

definition dib_check :: "('b, 'p, 'm) core_env \<Rightarrow> clock \<Rightarrow> nat \<Rightarrow> ('b, 'p, 'm) core \<Rightarrow> ('b, 'p, 'm) core" where
  "dib_check E clk k s =
     (let ip = oi_ip (cb_get k (IFETCH_BUFFER s)); sx = dib_index E ip; dib_set = DIB s ! sx
      in case dib_find E ip dib_set of
           None \<Rightarrow> s
         | Some way \<Rightarrow>
             s\<lparr>IFETCH_BUFFER := cb_set k (\<lambda>i. i\<lparr>oi_translated := COMPLETED, oi_fetched := COMPLETED, oi_decoded := COMPLETED,
                                                 oi_event_cycle := now clk\<rparr>) (IFETCH_BUFFER s),
               DIB := (DIB s)[sx := (dib_age way dib_set)[way := (dib_age way dib_set ! way)\<lparr>dib_lru := 0\<rparr>]]\<rparr>)"

text \<open>A request for a page or for a line stands for a run of instructions: from the first that waits for it to the first that needs
  another one.\<close>

definition position :: "nat \<Rightarrow> ooo_model_instr circular_buffer \<Rightarrow> nat" where
  "position k b = unat (it_add (cb_head b) (int k))"

definition itlb_packet :: "clock \<Rightarrow> nat \<Rightarrow> nat \<Rightarrow> ooo_model_instr circular_buffer \<Rightarrow> packet" where
  "itlb_packet clk k l b =
     (let i = cb_get k b
      in empty_packet\<lparr>pk_fill_level := FILL_L1, pk_cpu := 0, pk_address := drop_bit LOG2_PAGE_SIZE (oi_ip i), pk_full_addr := oi_ip i,
           pk_instr_id := oi_instr_id i, pk_ip := oi_ip i, pk_type := ucast LOAD, pk_asid := (0, 0), pk_event_cycle := now clk,
           pk_to_return := [ITLB_bus], pk_instr_depend_on_me := map (\<lambda>k. position k b) [k..<l]\<rparr>)"

definition l1i_packet :: "clock \<Rightarrow> nat \<Rightarrow> nat \<Rightarrow> ooo_model_instr circular_buffer \<Rightarrow> packet" where
  "l1i_packet clk k l b =
     (let i = cb_get k b
      in empty_packet\<lparr>pk_fill_level := FILL_L1, pk_cpu := 0, pk_address := drop_bit LOG2_BLOCK_SIZE (oi_instruction_pa i),
           pk_data := oi_instruction_pa i, pk_full_addr := oi_instruction_pa i, pk_v_address := drop_bit LOG2_PAGE_SIZE (oi_ip i),
           pk_full_v_addr := oi_ip i, pk_instr_id := oi_instr_id i, pk_ip := oi_ip i, pk_type := ucast LOAD, pk_asid := (0, 0),
           pk_event_cycle := now clk, pk_to_return := [L1I_bus], pk_instr_depend_on_me := map (\<lambda>k. position k b) [k..<l]\<rparr>)"

definition mark_range ::
  "(ooo_model_instr \<Rightarrow> ooo_model_instr) \<Rightarrow> nat \<Rightarrow> nat \<Rightarrow> ooo_model_instr circular_buffer \<Rightarrow> ooo_model_instr circular_buffer" where
  "mark_range f k l b = foldl (\<lambda>b j. cb_set j f b) b [k..<l]"

definition translate_run :: "('b, 'p, 'm) core_env \<Rightarrow> clock \<Rightarrow> ('b, 'p, 'm) core \<Rightarrow> ('b, 'p, 'm) core option" where
  "translate_run E clk s =
     (let b = IFETCH_BUFFER s; n = unat (occupancy b);
          k = cb_find_from (\<lambda>x. oi_translated x = 0) 0 b;
          page = drop_bit LOG2_PAGE_SIZE (oi_ip (cb_get k b));
          l = cb_find_from (\<lambda>x. page \<noteq> drop_bit LOG2_PAGE_SIZE (oi_ip x)) k b
      in if l \<noteq> n \<or> k = 0
         then do {
           (rq_index, s) \<leftarrow> bus_request (c_add_rq (m_itlb E)) clk (itlb_packet clk k l b) s;
           Some (if rq_index \<noteq> - 2
                 then s\<lparr>IFETCH_BUFFER := mark_range (\<lambda>i. i\<lparr>oi_translated := INFLIGHT\<rparr>) k l (IFETCH_BUFFER s)\<rparr> else s) }
         else Some s)"

definition fetch_run :: "('b, 'p, 'm) core_env \<Rightarrow> clock \<Rightarrow> ('b, 'p, 'm) core \<Rightarrow> ('b, 'p, 'm) core option" where
  "fetch_run E clk s =
     (let b = IFETCH_BUFFER s; n = unat (occupancy b);
          k = cb_find_from (\<lambda>x. oi_translated x = COMPLETED \<and> oi_fetched x = 0) 0 b;
          line = drop_bit LOG2_BLOCK_SIZE (oi_instruction_pa (cb_get k b));
          l = cb_find_from (\<lambda>x. line \<noteq> drop_bit LOG2_BLOCK_SIZE (oi_instruction_pa x)) k b
      in if l \<noteq> n \<or> k = 0
         then do {
           (rq_index, s) \<leftarrow> bus_request (c_add_rq (m_l1i E)) clk (l1i_packet clk k l b) s;
           Some (if rq_index \<noteq> - 2
                 then s\<lparr>IFETCH_BUFFER := mark_range (\<lambda>i. i\<lparr>oi_fetched := INFLIGHT\<rparr>) k l (IFETCH_BUFFER s)\<rparr> else s) }
         else Some s)"

primrec send_to_decode :: "nat \<Rightarrow> clock \<Rightarrow> ('b, 'p, 'm) core \<Rightarrow> ('b, 'p, 'm) core option" where
  "send_to_decode 0 clk s = Some s"
| "send_to_decode (Suc n) clk s =
     (let i = cb_front (IFETCH_BUFFER s)
      in if \<not> cb_empty (IFETCH_BUFFER s) \<and> \<not> dq_full (DECODE_BUFFER s) \<and> oi_translated i = COMPLETED \<and> oi_fetched i = COMPLETED
         then do {
           q \<leftarrow> (if \<not> warm clk \<or> oi_decoded i \<noteq> 0 then dq_push_back_ready i (DECODE_BUFFER s) else dq_push_back i (DECODE_BUFFER s));
           b \<leftarrow> cb_pop_front (IFETCH_BUFFER s);
           send_to_decode n clk (s\<lparr>DECODE_BUFFER := q, IFETCH_BUFFER := b\<rparr>) }
         else Some s)"

definition fetch_instruction :: "('b, 'p, 'm) core_env \<Rightarrow> clock \<Rightarrow> ('b, 'p, 'm) core \<Rightarrow> ('b, 'p, 'm) core option" where
  "fetch_instruction E clk s =
     (let s = (if fetch_stall s \<and> now clk \<ge> fetch_resume_cycle s \<and> fetch_resume_cycle s \<noteq> 0
               then s\<lparr>fetch_stall := False, fetch_resume_cycle := 0\<rparr> else s)
      in if cb_empty (IFETCH_BUFFER s) then Some s
         else do {
           let s = foldl (\<lambda>s k. dib_check E clk k s) s [0..<min (unat (occupancy (IFETCH_BUFFER s))) (FETCH_WIDTH E)];
           s \<leftarrow> translate_run E clk s;
           s \<leftarrow> fetch_run E clk s;
           send_to_decode (FETCH_WIDTH E) clk s })"

section \<open>Decode\<close>

definition dib_comparator :: "dib_entry \<Rightarrow> dib_entry \<Rightarrow> bool" where
  "dib_comparator x y \<longleftrightarrow> \<not> dib_valid y \<or> (dib_valid x \<and> dib_lru x < dib_lru y)"

definition dib_victim :: "dib_entry list \<Rightarrow> nat" where
  "dib_victim xs = max_element dib_comparator xs"

definition dib_insert :: "('b, 'p, 'm) core_env \<Rightarrow> u64 \<Rightarrow> dib_entry list \<Rightarrow> dib_entry list option" where
  "dib_insert E ip dib_set =
     (let way = (case dib_find E ip dib_set of Some w \<Rightarrow> w | None \<Rightarrow> dib_victim dib_set)
      in if dib_set = [] then None
         else Some ((dib_age way dib_set)[way := \<lparr>dib_valid = True, dib_lru = 0, dib_addr = ip\<rparr>]))"

definition resolved_branch ::
  "('b, 'p, 'm) core_env \<Rightarrow> bool \<Rightarrow> ooo_model_instr \<Rightarrow> ('b, 'p, 'm) core \<Rightarrow> ooo_model_instr \<times> ('b, 'p, 'm) core" where
  "resolved_branch E decode_stage i s =
     (let (finished, p) = p_resolved_branch E i decode_stage (l1i_pf s)
      in (i\<lparr>oi_pfc_finished := finished\<rparr>, s\<lparr>l1i_pf := p\<rparr>))"

definition decode_one :: "('b, 'p, 'm) core_env \<Rightarrow> clock \<Rightarrow> ('b, 'p, 'm) core \<Rightarrow> ('b, 'p, 'm) core option" where
  "decode_one E clk s = do {
     let i = dq_front (DECODE_BUFFER s);
     let sx = dib_index E (oi_ip i);
     dib_set \<leftarrow> dib_insert E (oi_ip i) (DIB s ! sx);
     let s = s\<lparr>DIB := (DIB s)[sx := dib_set]\<rparr>;
     let direct = (oi_branch_type i = BRANCH_DIRECT_JUMP \<or> oi_branch_type i = BRANCH_DIRECT_CALL);
     let (i, s) = (if direct then resolved_branch E True i s else (i, s));
     let (i, s) = (if oi_branch_mispredicted i \<noteq> 0 \<and> direct
                   then (i\<lparr>oi_branch_mispredicted := 0\<rparr>, s\<lparr>fetch_resume_cycle := now clk + BRANCH_MISPREDICT_PENALTY E\<rparr>)
                   else (i, s));
     q \<leftarrow> (if warm clk then dq_push_back i (DISPATCH_BUFFER s) else dq_push_back_ready i (DISPATCH_BUFFER s));
     d \<leftarrow> dq_pop_front (DECODE_BUFFER s);
     Some (s\<lparr>DISPATCH_BUFFER := q, DECODE_BUFFER := d\<rparr>) }"

primrec decode_loop :: "nat \<Rightarrow> ('b, 'p, 'm) core_env \<Rightarrow> clock \<Rightarrow> ('b, 'p, 'm) core \<Rightarrow> ('b, 'p, 'm) core option" where
  "decode_loop 0 E clk s = Some s"
| "decode_loop (Suc n) E clk s =
     (if dq_has_ready (DECODE_BUFFER s) \<and> \<not> dq_full (DISPATCH_BUFFER s)
      then Option.bind (decode_one E clk s) (decode_loop n E clk) else Some s)"

definition decode_instruction :: "('b, 'p, 'm) core_env \<Rightarrow> clock \<Rightarrow> ('b, 'p, 'm) core \<Rightarrow> ('b, 'p, 'm) core option" where
  "decode_instruction E clk s =
     (if dq_empty (DECODE_BUFFER s) then Some s
      else do {
        s \<leftarrow> decode_loop (DECODE_WIDTH E) E clk s;
        Some (s\<lparr>DECODE_BUFFER := dq_operate (DECODE_BUFFER s)\<rparr>) })"

section \<open>Dispatch\<close>

definition dispatch_one :: "clock \<Rightarrow> ('b, 'p, 'm) core \<Rightarrow> ('b, 'p, 'm) core option" where
  "dispatch_one clk s = do {
     let r = ROB s;
     q \<leftarrow> dq_pop_front (DISPATCH_BUFFER s);
     Some (s\<lparr>ROB := r\<lparr>co_entry := (co_entry r)[co_tail r := (dq_front (DISPATCH_BUFFER s))\<lparr>oi_event_cycle := now clk\<rparr>],
                       co_tail := next_index (length (co_entry r)) (co_tail r), co_occupancy := co_occupancy r + 1\<rparr>,
             DISPATCH_BUFFER := q\<rparr>) }"

primrec dispatch_loop :: "nat \<Rightarrow> clock \<Rightarrow> ('b, 'p, 'm) core \<Rightarrow> ('b, 'p, 'm) core option" where
  "dispatch_loop 0 clk s = Some s"
| "dispatch_loop (Suc n) clk s =
     (if dq_has_ready (DISPATCH_BUFFER s) \<and> unat (co_occupancy (ROB s)) < length (co_entry (ROB s))
      then Option.bind (dispatch_one clk s) (dispatch_loop n clk) else Some s)"

definition dispatch_instruction :: "('b, 'p, 'm) core_env \<Rightarrow> clock \<Rightarrow> ('b, 'p, 'm) core \<Rightarrow> ('b, 'p, 'm) core option" where
  "dispatch_instruction E clk s =
     (if dq_empty (DISPATCH_BUFFER s) then Some s
      else do {
        s \<leftarrow> dispatch_loop (DISPATCH_WIDTH E) clk s;
        Some (s\<lparr>DISPATCH_BUFFER := dq_operate (DISPATCH_BUFFER s)\<rparr>) })"

end
