(* ===== verification/CoreSched.thy ===== *)
theory CoreSched
  imports CoreFront
begin

text \<open>
  The out-of-order middle of the core, from \<^verbatim>\<open>src/ooo_cpu.cc\<close>: the scan of the reorder buffer for instructions to schedule, the search
  for the producers of their registers, the queue of instructions that are ready to execute, execution, completion and
  the release of the instructions that wait for a completed one.
\<close>

section \<open>Register dependencies\<close>

text \<open>\<^verbatim>\<open>reg_RAW_dependency\<close>: does \<open>prior\<close> write the source \<open>j\<close> of \<open>current\<close>?\<close>

definition reg_RAW_dependency ::
  "('b, 'p, 'm) core_env \<Rightarrow> nat \<Rightarrow> nat \<Rightarrow> nat \<Rightarrow> ('b, 'p, 'm) core \<Rightarrow> ('b, 'p, 'm) core" where
  "reg_RAW_dependency E prior current j s =
     (if (\<exists>r\<in>set (dest_regs E (rob_at prior s)). r \<noteq> 0 \<and> r = oi_source_registers (rob_at current s) ! j)
      then upd_rob current (\<lambda>c. c\<lparr>oi_reg_ready := False, oi_producer_id := oi_instr_id (rob_at prior s),
               oi_num_reg_dependent := oi_num_reg_dependent c + 1, oi_reg_RAW_checked := (oi_reg_RAW_checked c)[j := True]\<rparr>)
             (upd_rob prior (\<lambda>p. p\<lparr>oi_registers_instrs_depend_on_me := fs_insert (of_nat current) (oi_registers_instrs_depend_on_me p),
                oi_registers_index_depend_on_me := (oi_registers_index_depend_on_me p)
                  [j := fs_insert (of_nat current) (oi_registers_index_depend_on_me p ! j)],
                oi_reg_RAW_producer := True\<rparr>) s)
      else s)"

definition check_source ::
  "('b, 'p, 'm) core_env \<Rightarrow> nat \<Rightarrow> nat \<Rightarrow> nat \<Rightarrow> ('b, 'p, 'm) core \<Rightarrow> ('b, 'p, 'm) core" where
  "check_source E prior current j s =
     (let c = rob_at current s
      in if oi_source_registers c ! j \<noteq> 0 \<and> \<not> oi_reg_RAW_checked c ! j then reg_RAW_dependency E prior current j s else s)"

definition check_prior :: "('b, 'p, 'm) core_env \<Rightarrow> nat \<Rightarrow> nat \<Rightarrow> ('b, 'p, 'm) core \<Rightarrow> ('b, 'p, 'm) core" where
  "check_prior E current prior s =
     (if oi_executed (rob_at prior s) \<noteq> COMPLETED
      then foldl (\<lambda>s j. check_source E prior current j s) s [0..<NUM_INSTR_SOURCES] else s)"

text \<open>The slots of the older instructions, youngest first: the loops of \<^verbatim>\<open>reg_dependency\<close> and \<^verbatim>\<open>add_load_queue\<close>.\<close>

definition prior_indices :: "nat \<Rightarrow> 'a core_buffer \<Rightarrow> nat list" where
  "prior_indices rob_index b =
     (let prior = (if rob_index = 0 then length (co_entry b) - 1 else rob_index - 1)
      in if rob_index = co_head b then []
         else if co_head b \<le> prior then rev [co_head b..<prior + 1]
         else rev [0..<prior + 1] @ rev [co_head b..<length (co_entry b)])"

definition reg_dependency :: "('b, 'p, 'm) core_env \<Rightarrow> nat \<Rightarrow> ('b, 'p, 'm) core \<Rightarrow> ('b, 'p, 'm) core" where
  "reg_dependency E rob_index s = foldl (\<lambda>s i. check_prior E rob_index i s) s (prior_indices rob_index (ROB s))"

text \<open>\<^verbatim>\<open>check_rob\<close> looks an instruction up by its number; an empty buffer gives its size, a missing number fails an assertion.\<close>

definition check_rob :: "u64 \<Rightarrow> ('b, 'p, 'm) core \<Rightarrow> nat option" where
  "check_rob instr_id s =
     (if co_is_empty (ROB s) then Some (length (co_entry (ROB s)))
      else List.find (\<lambda>i. oi_instr_id (rob_at i s) = instr_id) (ring_indices (ROB s)))"

section \<open>Scheduling\<close>

text \<open>An index is added to the instructions that are ready to execute, with its sanity check.\<close>

definition add_ready :: "nat \<Rightarrow> ('b, 'p, 'm) core \<Rightarrow> ('b, 'p, 'm) core option" where
  "add_ready i s =
     (let r = ready_to_execute s
      in if rg_slots r ! rg_tail r < length (rg_slots r) then None else Some (s\<lparr>ready_to_execute := ring_put i r\<rparr>))"

definition add_latency :: "clock \<Rightarrow> u64 \<Rightarrow> ooo_model_instr \<Rightarrow> ooo_model_instr" where
  "add_latency clk latency i =
     (if warm clk
      then i\<lparr>oi_event_cycle := (if oi_event_cycle i < now clk then now clk else oi_event_cycle i) + latency\<rparr>
      else if oi_event_cycle i < now clk then i\<lparr>oi_event_cycle := now clk\<rparr> else i)"

definition do_scheduling :: "('b, 'p, 'm) core_env \<Rightarrow> clock \<Rightarrow> nat \<Rightarrow> ('b, 'p, 'm) core \<Rightarrow> ('b, 'p, 'm) core option" where
  "do_scheduling E clk i s =
     (let s = reg_dependency E i (upd_rob i (\<lambda>e. e\<lparr>oi_reg_ready := True\<rparr>) s)
      in if oi_is_memory (rob_at i s) then Some (upd_rob i (\<lambda>e. e\<lparr>oi_scheduled := INFLIGHT\<rparr>) s)
         else let s = upd_rob i (\<lambda>e. add_latency clk (SCHEDULING_LATENCY E) (e\<lparr>oi_scheduled := COMPLETED\<rparr>)) s
              in if oi_reg_ready (rob_at i s) then add_ready i s else Some s)"

definition count_searched :: "nat \<Rightarrow> ('b, 'p, 'm) core \<Rightarrow> ('b, 'p, 'm) core" where
  "count_searched i s = (if oi_executed (rob_at i s) = 0 then s\<lparr>num_searched := num_searched s + 1\<rparr> else s)"

definition search_stops :: "('b, 'p, 'm) core_env \<Rightarrow> clock \<Rightarrow> nat \<Rightarrow> ('b, 'p, 'm) core \<Rightarrow> bool" where
  "search_stops E clk i s \<longleftrightarrow>
     oi_fetched (rob_at i s) \<noteq> COMPLETED \<or> oi_event_cycle (rob_at i s) > now clk \<or> num_searched s \<ge> SCHEDULER_SIZE E"

fun schedule_loop :: "('b, 'p, 'm) core_env \<Rightarrow> clock \<Rightarrow> nat list \<Rightarrow> ('b, 'p, 'm) core \<Rightarrow> ('b, 'p, 'm) core option" where
  "schedule_loop E clk [] s = Some s"
| "schedule_loop E clk (i # is) s =
     (if search_stops E clk i s then Some s
      else do {
        s \<leftarrow> (if oi_scheduled (rob_at i s) = 0 then do_scheduling E clk i s else Some s);
        schedule_loop E clk is (count_searched i s) })"

definition schedule_instruction :: "('b, 'p, 'm) core_env \<Rightarrow> clock \<Rightarrow> ('b, 'p, 'm) core \<Rightarrow> ('b, 'p, 'm) core option" where
  "schedule_instruction E clk s =
     (if co_is_empty (ROB s) then Some s else schedule_loop E clk (ring_indices (ROB s)) (s\<lparr>num_searched := 0\<rparr>))"

section \<open>Execution\<close>

definition do_execution :: "('b, 'p, 'm) core_env \<Rightarrow> clock \<Rightarrow> nat \<Rightarrow> ('b, 'p, 'm) core \<Rightarrow> ('b, 'p, 'm) core" where
  "do_execution E clk i s =
     (let s = upd_rob i (\<lambda>e. add_latency clk (EXEC_LATENCY E) (e\<lparr>oi_executed := INFLIGHT\<rparr>)) s
      in s\<lparr>inflight_reg_executions := inflight_reg_executions s + 1\<rparr>)"

text \<open>
  The loops that drain a ring: a round issues the first index, passes when it is not due yet, or stops the loop. They end after
  \<open>width\<close> issues or one round less than the size of the ring.
\<close>

datatype round = Issue | Pass | Stop

primrec issue_loop :: "nat \<Rightarrow> nat \<Rightarrow> ('s \<Rightarrow> (round \<times> 's) option) \<Rightarrow> nat \<Rightarrow> 's \<Rightarrow> (nat \<times> 's) option" where
  "issue_loop 0 width step issued s = Some (issued, s)"
| "issue_loop (Suc n) width step issued s =
     (if issued < width
      then do {
        (r, s) \<leftarrow> step s;
        (case r of
           Stop \<Rightarrow> Some (issued, s)
         | Pass \<Rightarrow> issue_loop n width step issued s
         | Issue \<Rightarrow> issue_loop n width step (Suc issued) s) }
      else Some (issued, s))"

definition exec_round :: "('b, 'p, 'm) core_env \<Rightarrow> clock \<Rightarrow> ('b, 'p, 'm) core \<Rightarrow> (round \<times> ('b, 'p, 'm) core) option" where
  "exec_round E clk s =
     (let i = ring_top (ready_to_execute s)
      in if i < ROB_SIZE E
         then if oi_event_cycle (rob_at i s) \<le> now clk
              then (let s = do_execution E clk i s
                    in Some (Issue, s\<lparr>ready_to_execute := ring_pop (ROB_SIZE E) (ready_to_execute s)\<rparr>))
              else Some (Pass, s)
         else Some (Stop, s))"

definition execute_instruction :: "('b, 'p, 'm) core_env \<Rightarrow> clock \<Rightarrow> ('b, 'p, 'm) core \<Rightarrow> ('b, 'p, 'm) core option" where
  "execute_instruction E clk s =
     (if co_is_empty (ROB s) then Some s
      else map_option snd (issue_loop (ROB_SIZE E - 1) (EXEC_WIDTH E) (exec_round E clk) 0 s))"

section \<open>Completion\<close>

text \<open>\<^verbatim>\<open>reg_RAW_release\<close>: each instruction that waits for the register loses one dependency per source; without any left it becomes ready.\<close>

definition release_source :: "nat \<Rightarrow> nat \<Rightarrow> nat \<Rightarrow> ('b, 'p, 'm) core \<Rightarrow> ('b, 'p, 'm) core option" where
  "release_source rob_index i j s =
     (if fs_search (of_nat i) (oi_registers_index_depend_on_me (rob_at rob_index s) ! j)
      then (let s = upd_rob i (\<lambda>e. e\<lparr>oi_num_reg_dependent := oi_num_reg_dependent e - 1\<rparr>) s
            in if oi_num_reg_dependent (rob_at i s) = 0
               then (let s = upd_rob i (\<lambda>e. e\<lparr>oi_reg_ready := True\<rparr>) s
                     in if oi_is_memory (rob_at i s) then Some (upd_rob i (\<lambda>e. e\<lparr>oi_scheduled := INFLIGHT\<rparr>) s)
                        else add_ready i (upd_rob i (\<lambda>e. e\<lparr>oi_scheduled := COMPLETED\<rparr>) s))
               else Some s)
      else Some s)"

definition reg_RAW_release :: "('b, 'p, 'm) core_env \<Rightarrow> nat \<Rightarrow> ('b, 'p, 'm) core \<Rightarrow> ('b, 'p, 'm) core option" where
  "reg_RAW_release E rob_index s =
     try_all (\<lambda>i. try_all (\<lambda>j. release_source rob_index (unat i) j) [0..<NUM_INSTR_SOURCES])
       (fs_expand (oi_registers_instrs_depend_on_me (rob_at rob_index s)) (ROB_SIZE E)) s"

text \<open>What both branches of \<^verbatim>\<open>complete_execution\<close> do once the instruction is completed.\<close>

definition finish_execution :: "('b, 'p, 'm) core_env \<Rightarrow> clock \<Rightarrow> nat \<Rightarrow> ('b, 'p, 'm) core \<Rightarrow> ('b, 'p, 'm) core option" where
  "finish_execution E clk i s = do {
     let s = s\<lparr>completed_executions := completed_executions s + 1\<rparr>;
     s \<leftarrow> (if oi_reg_RAW_producer (rob_at i s) then reg_RAW_release E i s else Some s);
     let s = (if oi_is_branch (rob_at i s)
              then (let (e, s) = resolved_branch E False (rob_at i s) s in upd_rob i (\<lambda>_. e) s) else s);
     Some (if oi_branch_mispredicted (rob_at i s) \<noteq> 0
           then s\<lparr>fetch_resume_cycle := now clk + BRANCH_MISPREDICT_PENALTY E\<rparr> else s) }"

definition complete_execution ::
  "('b, 'p, 'm) core_env \<Rightarrow> clock \<Rightarrow> nat \<Rightarrow> ('b, 'p, 'm) core \<Rightarrow> (nat \<times> ('b, 'p, 'm) core) option" where
  "complete_execution E clk i s =
     (let e = rob_at i s
      in if oi_executed e = INFLIGHT \<and> oi_event_cycle e \<le> now clk \<and> (oi_is_memory e \<longrightarrow> oi_num_mem_ops e = 0)
         then do {
           let s = upd_rob i (\<lambda>e. e\<lparr>oi_executed := COMPLETED\<rparr>) s;
           let s = (if oi_is_memory e then s\<lparr>inflight_mem_executions := inflight_mem_executions s - 1\<rparr>
                    else s\<lparr>inflight_reg_executions := inflight_reg_executions s - 1\<rparr>);
           s \<leftarrow> finish_execution E clk i s;
           Some (1, s) }
         else Some (0, s))"

fun complete_loop ::
  "('b, 'p, 'm) core_env \<Rightarrow> clock \<Rightarrow> nat list \<Rightarrow> nat \<Rightarrow> ('b, 'p, 'm) core \<Rightarrow> ('b, 'p, 'm) core option" where
  "complete_loop E clk [] k s = Some s"
| "complete_loop E clk (i # is) k s =
     (if k \<ge> EXEC_WIDTH E then Some s
      else do { (d, s) \<leftarrow> complete_execution E clk i s; complete_loop E clk is (k + d) s })"

definition complete_inflight_instruction ::
  "('b, 'p, 'm) core_env \<Rightarrow> clock \<Rightarrow> ('b, 'p, 'm) core \<Rightarrow> ('b, 'p, 'm) core option" where
  "complete_inflight_instruction E clk s =
     (if inflight_reg_executions s > 0 \<or> inflight_mem_executions s > 0
      then complete_loop E clk (ring_indices (ROB s)) 0 s else Some s)"

end
