(* ===== verification/CoreMemory.thy ===== *)
theory CoreMemory
  imports CoreSched
begin

text \<open>
  Loads and stores of the core, from \<^verbatim>\<open>src/ooo_cpu.cc\<close>: the load and store queues, store-to-load forwarding, the requests to the data
  translation buffer and the data cache, the answers of the four caches, and retirement, which writes the stores to the cache.
\<close>

section \<open>The load queue\<close>

definition release_load_queue :: "nat \<Rightarrow> ('b, 'p, 'm) core \<Rightarrow> ('b, 'p, 'm) core" where
  "release_load_queue lq_index s =
     (let s = upd_lq lq_index (\<lambda>_. new_lsq_entry) s in s\<lparr>LQ := (LQ s)\<lparr>co_occupancy := co_occupancy (LQ s) - 1\<rparr>\<rparr>)"

definition block_offset_mask :: u64 where "block_offset_mask = 2 ^ LOG2_BLOCK_SIZE - 1"
definition page_offset_mask :: u64 where "page_offset_mask = 2 ^ LOG2_PAGE_SIZE - 1"

text \<open>One operation of an instruction is done: the counter must not fall below zero, and at zero the instruction may complete.\<close>

definition mem_op_done :: "u64 \<Rightarrow> nat \<Rightarrow> ('b, 'p, 'm) core \<Rightarrow> ('b, 'p, 'm) core" where
  "mem_op_done cycle i s =
     (let s = upd_rob i (\<lambda>e. e\<lparr>oi_num_mem_ops := oi_num_mem_ops e - 1, oi_event_cycle := cycle\<rparr>) s
      in if oi_num_mem_ops (rob_at i s) = 0 then s\<lparr>inflight_mem_executions := inflight_mem_executions s + 1\<rparr> else s)"

definition checked_mem_op_done :: "u64 \<Rightarrow> nat \<Rightarrow> ('b, 'p, 'm) core \<Rightarrow> ('b, 'p, 'm) core option" where
  "checked_mem_op_done cycle i s =
     (let s = mem_op_done cycle i s in if oi_num_mem_ops (rob_at i s) < 0 then None else Some s)"

text \<open>\<^verbatim>\<open>mem_RAW_dependency\<close>: does the older instruction write the address that the load reads?\<close>

definition mem_RAW_dependency ::
  "('b, 'p, 'm) core_env \<Rightarrow> nat \<Rightarrow> nat \<Rightarrow> nat \<Rightarrow> nat \<Rightarrow> ('b, 'p, 'm) core \<Rightarrow> ('b, 'p, 'm) core" where
  "mem_RAW_dependency E prior current data_index lq_index s =
     (if (\<exists>a\<in>set (take (MAX_INSTR_DESTINATIONS E) (oi_destination_memory (rob_at prior s))).
            a \<noteq> 0 \<and> a = oi_source_memory (rob_at current s) ! data_index)
      then upd_lq lq_index (\<lambda>l. l\<lparr>ls_producer_id := oi_instr_id (rob_at prior s), ls_translated := INFLIGHT\<rparr>)
             (upd_rob prior (\<lambda>p. p\<lparr>oi_memory_instrs_depend_on_me := fs_insert (of_nat current) (oi_memory_instrs_depend_on_me p),
                oi_is_producer := True\<rparr>) s)
      else s)"

definition find_producer :: "('b, 'p, 'm) core_env \<Rightarrow> nat \<Rightarrow> nat \<Rightarrow> nat \<Rightarrow> ('b, 'p, 'm) core \<Rightarrow> ('b, 'p, 'm) core" where
  "find_producer E rob_index data_index lq_index s =
     foldl (\<lambda>s i. if ls_producer_id (lq_at lq_index s) \<noteq> - 1 then s else mem_RAW_dependency E i rob_index data_index lq_index s)
       s (prior_indices rob_index (ROB s))"

text \<open>The search of the store queue: a store with the address of the load that is its producer forwards; a younger store with the
  address, while the load has no producer, only resets the entry.\<close>

fun forwarding_loop ::
  "nat \<Rightarrow> nat \<Rightarrow> nat list \<Rightarrow> ('b, 'p, 'm) core \<Rightarrow> nat option \<times> ('b, 'p, 'm) core" where
  "forwarding_loop rob_index lq_index [] s = (None, s)"
| "forwarding_loop rob_index lq_index (i # is) s =
     (let q = sq_at i s; l = lq_at lq_index s
      in if ls_virtual_address q = 0 \<or> ls_virtual_address q \<noteq> ls_virtual_address l then forwarding_loop rob_index lq_index is s
         else if rob_index \<noteq> co_head (ROB s) \<and> ls_producer_id l = ls_instr_id q then (Some i, s)
         else forwarding_loop rob_index lq_index is
                (if ls_producer_id l = - 1 \<and> ls_instr_id l \<le> ls_instr_id q
                 then upd_lq lq_index (\<lambda>l. l\<lparr>ls_physical_address := 0, ls_translated := 0, ls_fetched := 0\<rparr>) s else s))"

definition forward_address :: "lsq_entry \<Rightarrow> lsq_entry \<Rightarrow> u64" where
  "forward_address q l =
     (ls_physical_address q AND NOT block_offset_mask) OR (ls_virtual_address l AND block_offset_mask)"

definition forward_now :: "clock \<Rightarrow> nat \<Rightarrow> nat \<Rightarrow> ('b, 'p, 'm) core \<Rightarrow> ('b, 'p, 'm) core option" where
  "forward_now clk lq_index i s =
     (if ls_fetched (sq_at i s) = COMPLETED \<and> ls_event_cycle (sq_at i s) \<le> now clk
      then do {
        let s = upd_lq lq_index (\<lambda>l. l\<lparr>ls_physical_address := forward_address (sq_at i s) l,
                  ls_translated := COMPLETED, ls_fetched := COMPLETED\<rparr>) s;
        s \<leftarrow> checked_mem_op_done (now clk) (ls_rob_index (lq_at lq_index s)) s;
        Some (release_load_queue lq_index s) }
      else Some s)"

definition new_load :: "('b, 'p, 'm) core_env \<Rightarrow> clock \<Rightarrow> nat \<Rightarrow> nat \<Rightarrow> nat \<Rightarrow> ('b, 'p, 'm) core \<Rightarrow> ('b, 'p, 'm) core" where
  "new_load E clk rob_index data_index lq_index s =
     (let e = rob_at rob_index s;
          s = upd_rob rob_index (\<lambda>e. e\<lparr>oi_lq_index := (oi_lq_index e)[data_index := of_nat lq_index]\<rparr>) s;
          s = upd_lq lq_index (\<lambda>l. l\<lparr>ls_instr_id := oi_instr_id e, ls_virtual_address := oi_source_memory e ! data_index,
                ls_ip := oi_ip e, ls_data_index := data_index, ls_rob_index := rob_index, ls_asid := oi_asid e,
                ls_event_cycle := now clk + SCHEDULING_LATENCY E\<rparr>) s
      in s\<lparr>LQ := (LQ s)\<lparr>co_occupancy := co_occupancy (LQ s) + 1\<rparr>\<rparr>)"

definition add_load_queue :: "('b, 'p, 'm) core_env \<Rightarrow> clock \<Rightarrow> nat \<Rightarrow> nat \<Rightarrow> ('b, 'p, 'm) core \<Rightarrow> ('b, 'p, 'm) core option" where
  "add_load_queue E clk rob_index data_index s =
     (case first_index (\<lambda>i. ls_virtual_address (lq_at i s) = 0) (length (co_entry (LQ s))) of
        None \<Rightarrow> None
      | Some lq_index \<Rightarrow> do {
          let s = find_producer E rob_index data_index lq_index (new_load E clk rob_index data_index lq_index s);
          let (forwarding_index, s) = forwarding_loop rob_index lq_index [0..<length (co_entry (SQ s))] s;
          s \<leftarrow> (case forwarding_index of Some i \<Rightarrow> forward_now clk lq_index i s | None \<Rightarrow> Some s);
          let s = upd_rob rob_index (\<lambda>e. e\<lparr>oi_source_added := (oi_source_added e)[data_index := True]\<rparr>) s;
          Some (if ls_virtual_address (lq_at lq_index s) \<noteq> 0 \<and> ls_producer_id (lq_at lq_index s) = - 1
                then s\<lparr>RTL0 := ring_put lq_index (RTL0 s)\<rparr> else s) })"

section \<open>The store queue\<close>

definition add_store_queue :: "('b, 'p, 'm) core_env \<Rightarrow> clock \<Rightarrow> nat \<Rightarrow> nat \<Rightarrow> ('b, 'p, 'm) core \<Rightarrow> ('b, 'p, 'm) core option" where
  "add_store_queue E clk rob_index data_index s =
     (let sq_index = co_tail (SQ s); e = rob_at rob_index s
      in if ls_virtual_address (sq_at sq_index s) \<noteq> 0 then None
         else let s = upd_rob rob_index (\<lambda>e. e\<lparr>oi_sq_index := (oi_sq_index e)[data_index := of_nat sq_index],
                        oi_destination_added := (oi_destination_added e)[data_index := True]\<rparr>) s;
                  s = upd_sq sq_index (\<lambda>q. q\<lparr>ls_instr_id := oi_instr_id e, ls_virtual_address := oi_destination_memory e ! data_index,
                        ls_ip := oi_ip e, ls_data_index := data_index, ls_rob_index := rob_index, ls_asid := oi_asid e,
                        ls_event_cycle := now clk + SCHEDULING_LATENCY E\<rparr>) s
              in Some (s\<lparr>SQ := (SQ s)\<lparr>co_occupancy := co_occupancy (SQ s) + 1,
                                      co_tail := next_index (length (co_entry (SQ s))) (co_tail (SQ s))\<rparr>,
                         STA := ring_pop (- 1) (STA s), RTS0 := ring_put sq_index (RTS0 s)\<rparr>))"

text \<open>\<^verbatim>\<open>check_and_add_lsq\<close> counts the memory operations and those that are in a queue; the instruction is scheduled once all are.\<close>

definition try_load ::
  "('b, 'p, 'm) core_env \<Rightarrow> clock \<Rightarrow> nat \<Rightarrow> nat \<Rightarrow> nat \<times> nat \<times> ('b, 'p, 'm) core \<Rightarrow> (nat \<times> nat \<times> ('b, 'p, 'm) core) option" where
  "try_load E clk rob_index i = (\<lambda>(ops, added, s).
     if oi_source_memory (rob_at rob_index s) ! i = 0 then Some (ops, added, s)
     else if oi_source_added (rob_at rob_index s) ! i then Some (ops + 1, added + 1, s)
     else if unat (co_occupancy (LQ s)) < length (co_entry (LQ s))
       then map_option (\<lambda>s. (ops + 1, added + 1, s)) (add_load_queue E clk rob_index i s)
     else Some (ops + 1, added, s))"

definition try_store ::
  "('b, 'p, 'm) core_env \<Rightarrow> clock \<Rightarrow> nat \<Rightarrow> nat \<Rightarrow> nat \<times> nat \<times> ('b, 'p, 'm) core \<Rightarrow> (nat \<times> nat \<times> ('b, 'p, 'm) core) option" where
  "try_store E clk rob_index i = (\<lambda>(ops, added, s).
     if oi_destination_memory (rob_at rob_index s) ! i = 0 then Some (ops, added, s)
     else if oi_destination_added (rob_at rob_index s) ! i then Some (ops + 1, added + 1, s)
     else if unat (co_occupancy (SQ s)) < length (co_entry (SQ s)) \<and> ring_top (STA s) = oi_instr_id (rob_at rob_index s)
       then map_option (\<lambda>s. (ops + 1, added + 1, s)) (add_store_queue E clk rob_index i s)
     else Some (ops + 1, added, s))"

definition check_and_add_lsq ::
  "('b, 'p, 'm) core_env \<Rightarrow> clock \<Rightarrow> nat \<Rightarrow> ('b, 'p, 'm) core \<Rightarrow> (nat \<times> ('b, 'p, 'm) core) option" where
  "check_and_add_lsq E clk rob_index s = do {
     x \<leftarrow> try_all (try_load E clk rob_index) [0..<NUM_INSTR_SOURCES] (0, 0, s);
     (ops, added, s) \<leftarrow> try_all (try_store E clk rob_index) [0..<MAX_INSTR_DESTINATIONS E] x;
     Some (ops - added, s) }"

definition do_memory_scheduling :: "('b, 'p, 'm) core_env \<Rightarrow> clock \<Rightarrow> nat \<Rightarrow> ('b, 'p, 'm) core \<Rightarrow> ('b, 'p, 'm) core option" where
  "do_memory_scheduling E clk rob_index s = do {
     (not_available, s) \<leftarrow> check_and_add_lsq E clk rob_index s;
     Some (if not_available = 0
           then upd_rob rob_index (\<lambda>e. e\<lparr>oi_scheduled := COMPLETED, oi_executed := (if oi_executed e = 0 then INFLIGHT else oi_executed e)\<rparr>) s
           else s) }"

fun schedule_memory_loop :: "('b, 'p, 'm) core_env \<Rightarrow> clock \<Rightarrow> nat list \<Rightarrow> ('b, 'p, 'm) core \<Rightarrow> ('b, 'p, 'm) core option" where
  "schedule_memory_loop E clk [] s = Some s"
| "schedule_memory_loop E clk (i # is) s =
     (if search_stops E clk i s then Some s
      else do {
        s \<leftarrow> (if oi_is_memory (rob_at i s) \<and> oi_reg_ready (rob_at i s) \<and> oi_scheduled (rob_at i s) = INFLIGHT
              then do_memory_scheduling E clk i s else Some s);
        schedule_memory_loop E clk is (count_searched i s) })"

definition schedule_memory_instruction :: "('b, 'p, 'm) core_env \<Rightarrow> clock \<Rightarrow> ('b, 'p, 'm) core \<Rightarrow> ('b, 'p, 'm) core option" where
  "schedule_memory_instruction E clk s =
     (if co_is_empty (ROB s) then Some s else schedule_memory_loop E clk (ring_indices (ROB s)) (s\<lparr>num_searched := 0\<rparr>))"

section \<open>Requests\<close>

definition lsq_packet :: "lsq_entry \<Rightarrow> packet" where
  "lsq_packet q =
     empty_packet\<lparr>pk_fill_level := FILL_L1, pk_cpu := 0, pk_data_index := of_nat (ls_data_index q), pk_instr_id := ls_instr_id q,
       pk_rob_index := int (ls_rob_index q), pk_ip := ls_ip q, pk_asid := ls_asid q, pk_event_cycle := ls_event_cycle q\<rparr>"

definition page_address :: "('b, 'p, 'm) core_env \<Rightarrow> lsq_entry \<Rightarrow> u64" where
  "page_address E q =
     (if knob_cloudsuite E
      then push_bit 9 (drop_bit LOG2_PAGE_SIZE (ls_virtual_address q)) OR ucast (snd (ls_asid q))
      else drop_bit LOG2_PAGE_SIZE (ls_virtual_address q))"

definition store_translation :: "('b, 'p, 'm) core_env \<Rightarrow> nat \<Rightarrow> lsq_entry \<Rightarrow> packet" where
  "store_translation E sq_index q =
     (lsq_packet q)\<lparr>pk_sq_index := of_nat sq_index, pk_address := page_address E q, pk_full_addr := ls_virtual_address q,
       pk_type := ucast RFO, pk_to_return := [DTLB_bus], pk_sq_index_depend_on_me := [sq_index]\<rparr>"

definition load_translation :: "('b, 'p, 'm) core_env \<Rightarrow> nat \<Rightarrow> lsq_entry \<Rightarrow> packet" where
  "load_translation E lq_index l =
     (lsq_packet l)\<lparr>pk_lq_index := of_nat lq_index, pk_address := page_address E l, pk_full_addr := ls_virtual_address l,
       pk_type := ucast LOAD, pk_to_return := [DTLB_bus], pk_lq_index_depend_on_me := [lq_index]\<rparr>"

definition load_packet :: "nat \<Rightarrow> lsq_entry \<Rightarrow> packet" where
  "load_packet lq_index l =
     (lsq_packet l)\<lparr>pk_lq_index := of_nat lq_index, pk_address := drop_bit LOG2_BLOCK_SIZE (ls_physical_address l),
       pk_full_addr := ls_physical_address l, pk_v_address := drop_bit LOG2_BLOCK_SIZE (ls_virtual_address l),
       pk_full_v_addr := ls_virtual_address l, pk_type := ucast LOAD, pk_to_return := [L1D_bus], pk_lq_index_depend_on_me := [lq_index]\<rparr>"

definition store_packet :: "clock \<Rightarrow> nat \<Rightarrow> lsq_entry \<Rightarrow> packet" where
  "store_packet clk sq_index q =
     (lsq_packet q)\<lparr>pk_sq_index := of_nat sq_index, pk_address := drop_bit LOG2_BLOCK_SIZE (ls_physical_address q),
       pk_full_addr := ls_physical_address q, pk_v_address := drop_bit LOG2_BLOCK_SIZE (ls_virtual_address q),
       pk_full_v_addr := ls_virtual_address q, pk_type := ucast RFO, pk_event_cycle := now clk\<rparr>"

section \<open>Executing loads and stores\<close>

text \<open>\<^verbatim>\<open>execute_store\<close> hands its data to the loads that wait for it; a waiting load must name it as its producer.\<close>

definition forward_to :: "clock \<Rightarrow> nat \<Rightarrow> nat \<Rightarrow> nat \<Rightarrow> nat \<Rightarrow> ('b, 'p, 'm) core \<Rightarrow> ('b, 'p, 'm) core option" where
  "forward_to clk rob_index sq_index dependent j s =
     (let d = rob_at dependent s; q = sq_at sq_index s
      in if oi_source_memory d ! j \<noteq> 0 \<and> oi_source_added d ! j \<and> oi_source_memory d ! j = ls_virtual_address q
         then (let lq_index = unat (oi_lq_index d ! j)
               in if lq_index \<ge> length (co_entry (LQ s)) \<or> ls_producer_id (lq_at lq_index s) \<noteq> ls_instr_id q then None
                  else do {
                    let s = upd_lq lq_index (\<lambda>l. l\<lparr>ls_physical_address := forward_address q l, ls_translated := COMPLETED,
                              ls_fetched := COMPLETED, ls_event_cycle := now clk\<rparr>) s;
                    s \<leftarrow> checked_mem_op_done (now clk) (ls_rob_index (lq_at lq_index s)) s;
                    let s = release_load_queue lq_index s;
                    Some (if j = NUM_INSTR_SOURCES - 1
                          then upd_rob rob_index (\<lambda>e. e\<lparr>oi_memory_instrs_depend_on_me :=
                                 fs_insert (of_nat dependent) (oi_memory_instrs_depend_on_me e)\<rparr>) s
                          else s) })
         else Some s)"

definition execute_store :: "('b, 'p, 'm) core_env \<Rightarrow> clock \<Rightarrow> nat \<Rightarrow> nat \<Rightarrow> ('b, 'p, 'm) core \<Rightarrow> ('b, 'p, 'm) core option" where
  "execute_store E clk rob_index sq_index s = do {
     let s = upd_sq sq_index (\<lambda>q. q\<lparr>ls_fetched := COMPLETED, ls_event_cycle := now clk\<rparr>) s;
     s \<leftarrow> checked_mem_op_done (now clk) rob_index s;
     if oi_is_producer (rob_at rob_index s)
     then try_all (\<lambda>d. try_all (\<lambda>j. forward_to clk rob_index sq_index (unat d) j) [0..<NUM_INSTR_SOURCES])
            (fs_expand (oi_memory_instrs_depend_on_me (rob_at rob_index s)) (ROB_SIZE E)) s
     else Some s }"

definition execute_load :: "('b, 'p, 'm) core_env \<Rightarrow> clock \<Rightarrow> nat \<Rightarrow> ('b, 'p, 'm) core \<Rightarrow> (int \<times> ('b, 'p, 'm) core) option" where
  "execute_load E clk lq_index s = do {
     (rq_index, s) \<leftarrow> bus_request (c_add_rq (m_l1d E)) clk (load_packet lq_index (lq_at lq_index s)) s;
     Some (rq_index, if rq_index = - 2 then s else upd_lq lq_index (\<lambda>l. l\<lparr>ls_fetched := INFLIGHT\<rparr>) s) }"

section \<open>The four loops of operate\_lsq\<close>

definition rts0_round :: "('b, 'p, 'm) core_env \<Rightarrow> clock \<Rightarrow> ('b, 'p, 'm) core \<Rightarrow> (round \<times> ('b, 'p, 'm) core) option" where
  "rts0_round E clk s =
     (let i = ring_top (RTS0 s)
      in if i < SQ_SIZE E
         then if ls_event_cycle (sq_at i s) \<le> now clk
              then do {
                (rq_index, s) \<leftarrow> bus_request (c_add_rq (m_dtlb E)) clk (store_translation E i (sq_at i s)) s;
                Some (if rq_index = - 2 then (Stop, s)
                      else (Issue, (upd_sq i (\<lambda>q. q\<lparr>ls_translated := INFLIGHT\<rparr>) s)\<lparr>RTS0 := ring_pop (SQ_SIZE E) (RTS0 s)\<rparr>)) }
              else Some (Pass, s)
         else Some (Stop, s))"

definition rts1_round :: "('b, 'p, 'm) core_env \<Rightarrow> clock \<Rightarrow> ('b, 'p, 'm) core \<Rightarrow> (round \<times> ('b, 'p, 'm) core) option" where
  "rts1_round E clk s =
     (let i = ring_top (RTS1 s)
      in if i < SQ_SIZE E
         then if ls_event_cycle (sq_at i s) \<le> now clk
              then do {
                s \<leftarrow> execute_store E clk (ls_rob_index (sq_at i s)) i s;
                Some (Issue, s\<lparr>RTS1 := ring_pop (SQ_SIZE E) (RTS1 s)\<rparr>) }
              else Some (Pass, s)
         else Some (Stop, s))"

definition rtl0_round :: "('b, 'p, 'm) core_env \<Rightarrow> clock \<Rightarrow> ('b, 'p, 'm) core \<Rightarrow> (round \<times> ('b, 'p, 'm) core) option" where
  "rtl0_round E clk s =
     (let i = ring_top (RTL0 s)
      in if i < LQ_SIZE E
         then if ls_event_cycle (lq_at i s) \<le> now clk
              then do {
                (rq_index, s) \<leftarrow> bus_request (c_add_rq (m_dtlb E)) clk (load_translation E i (lq_at i s)) s;
                Some (if rq_index = - 2 then (Stop, s)
                      else (Issue, (upd_lq i (\<lambda>l. l\<lparr>ls_translated := INFLIGHT\<rparr>) s)\<lparr>RTL0 := ring_pop (LQ_SIZE E) (RTL0 s)\<rparr>)) }
              else Some (Pass, s)
         else Some (Stop, s))"

definition rtl1_round :: "('b, 'p, 'm) core_env \<Rightarrow> clock \<Rightarrow> ('b, 'p, 'm) core \<Rightarrow> (round \<times> ('b, 'p, 'm) core) option" where
  "rtl1_round E clk s =
     (let i = ring_top (RTL1 s)
      in if i < LQ_SIZE E
         then if ls_event_cycle (lq_at i s) \<le> now clk
              then do {
                (rq_index, s) \<leftarrow> execute_load E clk i s;
                Some (if rq_index = - 2 then (Pass, s) else (Issue, s\<lparr>RTL1 := ring_pop (LQ_SIZE E) (RTL1 s)\<rparr>)) }
              else Some (Pass, s)
         else Some (Stop, s))"

definition operate_lsq :: "('b, 'p, 'm) core_env \<Rightarrow> clock \<Rightarrow> ('b, 'p, 'm) core \<Rightarrow> ('b, 'p, 'm) core option" where
  "operate_lsq E clk s = do {
     (store_issued, s) \<leftarrow> issue_loop (SQ_SIZE E - 1) (SQ_WIDTH E) (rts0_round E clk) 0 s;
     (store_issued, s) \<leftarrow> issue_loop (SQ_SIZE E - 1) (SQ_WIDTH E) (rts1_round E clk) store_issued s;
     (load_issued, s) \<leftarrow> issue_loop (LQ_SIZE E - 1) (LQ_WIDTH E) (rtl0_round E clk) 0 s;
     (load_issued, s) \<leftarrow> issue_loop (LQ_SIZE E - 1) (LQ_WIDTH E) (rtl1_round E clk) load_issued s;
     Some s }"

definition operate_cache :: "('b, 'p, 'm) core_env \<Rightarrow> clock \<Rightarrow> ('b, 'p, 'm) core \<Rightarrow> ('b, 'p, 'm) core option" where
  "operate_cache E clk s = do {
     s \<leftarrow> try_all (\<lambda>c s. do {
            (calls, m) \<leftarrow> m_operate E c clk (memory s);
            try_all bus_return calls (s\<lparr>memory := m\<rparr>) }) [C_L2C, C_L1D, C_L1I, C_STLB, C_DTLB, C_ITLB] s;
     (p, m) \<leftarrow> p_cycle_operate E (cb_list (IFETCH_BUFFER s)) (m_prefetch_code_line E clk) (l1i_pf s) (memory s);
     Some (s\<lparr>l1i_pf := p, memory := m\<rparr>) }"

definition execute_memory_instruction :: "('b, 'p, 'm) core_env \<Rightarrow> clock \<Rightarrow> ('b, 'p, 'm) core \<Rightarrow> ('b, 'p, 'm) core option" where
  "execute_memory_instruction E clk s = Option.bind (operate_lsq E clk s) (operate_cache E clk)"

section \<open>Answers\<close>

text \<open>
  An answer of the translation buffer or of the cache serves the instructions it lists, as many as the bandwidth allows; what is
  left of the list stays in the packet for the next cycle. An instruction is named by its position in the fetch buffer.
\<close>

fun serve ::
  "(ooo_model_instr \<Rightarrow> bool) \<Rightarrow> (ooo_model_instr \<Rightarrow> ooo_model_instr) \<Rightarrow> nat \<Rightarrow> nat list \<Rightarrow> ooo_model_instr circular_buffer \<Rightarrow>
   nat \<times> nat list \<times> ooo_model_instr circular_buffer" where
  "serve wants mark n [] b = (n, [], b)"
| "serve wants mark n (k # ks) b =
     (if n = 0 then (n, k # ks, b)
      else if wants (cb_at b (of_nat k)) then serve wants mark (n - 1) ks (cb_modify (of_nat k) mark b)
      else serve wants mark n ks b)"

definition itlb_wants :: "packet \<Rightarrow> ooo_model_instr \<Rightarrow> bool" where
  "itlb_wants p i \<longleftrightarrow> drop_bit LOG2_PAGE_SIZE (oi_ip i) = pk_address p \<and> oi_translated i \<noteq> 0"

definition itlb_mark :: "packet \<Rightarrow> ooo_model_instr \<Rightarrow> ooo_model_instr" where
  "itlb_mark p i = i\<lparr>oi_translated := COMPLETED,
     oi_instruction_pa := push_bit LOG2_PAGE_SIZE (pk_data p) OR (oi_ip i AND page_offset_mask)\<rparr>"

definition l1i_wants :: "packet \<Rightarrow> ooo_model_instr \<Rightarrow> bool" where
  "l1i_wants p i \<longleftrightarrow>
     drop_bit LOG2_BLOCK_SIZE (oi_instruction_pa i) = pk_address p \<and> oi_fetched i \<noteq> 0 \<and> oi_translated i = COMPLETED"

definition l1i_mark :: "ooo_model_instr \<Rightarrow> ooo_model_instr" where
  "l1i_mark i = i\<lparr>oi_fetched := COMPLETED\<rparr>"

definition put_front :: "'a \<Rightarrow> 'a circular_buffer \<Rightarrow> 'a circular_buffer" where
  "put_front x b = cb_modify (cb_head b) (\<lambda>_. x) b"

fun return_instrs ::
  "clock \<Rightarrow> (packet \<Rightarrow> ooo_model_instr \<Rightarrow> bool) \<Rightarrow> (packet \<Rightarrow> ooo_model_instr \<Rightarrow> ooo_model_instr) \<Rightarrow> nat \<Rightarrow> nat \<Rightarrow>
   packet circular_buffer \<times> ooo_model_instr circular_buffer \<Rightarrow> (packet circular_buffer \<times> ooo_model_instr circular_buffer) option" where
  "return_instrs clk wants mark bandwidth 0 x = Some x"
| "return_instrs clk wants mark bandwidth (Suc to_read) (q, b) =
     (let p = cb_front q
      in if bandwidth > 0 \<and> \<not> cb_empty q \<and> pk_event_cycle p \<le> now clk
         then do {
           let (bandwidth, ks, b) = serve (wants p) (mark p) bandwidth (pk_instr_depend_on_me p) b;
           q \<leftarrow> (if ks = [] then cb_pop_front q else Some (put_front (p\<lparr>pk_instr_depend_on_me := ks\<rparr>) q));
           return_instrs clk wants mark bandwidth to_read (q, b) }
         else Some (q, b))"

definition translated_address :: "packet \<Rightarrow> lsq_entry \<Rightarrow> u64" where
  "translated_address p q = push_bit LOG2_PAGE_SIZE (pk_data p) OR (ls_virtual_address q AND page_offset_mask)"

definition dtlb_answer :: "clock \<Rightarrow> packet \<Rightarrow> ('b, 'p, 'm) core \<Rightarrow> ('b, 'p, 'm) core option" where
  "dtlb_answer clk p s =
     (let mark = (\<lambda>q. q\<lparr>ls_physical_address := translated_address p q, ls_translated := COMPLETED, ls_event_cycle := now clk\<rparr>)
      in do {
        s \<leftarrow> try_all (\<lambda>i s. if i < length (co_entry (SQ s)) then Some ((upd_sq i mark s)\<lparr>RTS1 := ring_put i (RTS1 s)\<rparr>) else None)
               (pk_sq_index_depend_on_me p) s;
        s \<leftarrow> try_all (\<lambda>i s. if i < length (co_entry (LQ s)) then Some ((upd_lq i mark s)\<lparr>RTL1 := ring_put i (RTL1 s)\<rparr>) else None)
               (pk_lq_index_depend_on_me p) s;
        if 0 \<le> pk_rob_index p \<and> nat (pk_rob_index p) < length (co_entry (ROB s))
        then Some (upd_rob (nat (pk_rob_index p)) (\<lambda>e. e\<lparr>oi_event_cycle := pk_event_cycle p\<rparr>) s) else None })"

definition l1d_answer :: "clock \<Rightarrow> packet \<Rightarrow> ('b, 'p, 'm) core \<Rightarrow> ('b, 'p, 'm) core option" where
  "l1d_answer clk p s =
     try_all (\<lambda>i s. if i < length (co_entry (LQ s))
                    then (let s = upd_lq i (\<lambda>l. l\<lparr>ls_fetched := COMPLETED, ls_event_cycle := now clk\<rparr>) s
                          in Some (release_load_queue i (mem_op_done (pk_event_cycle p) (ls_rob_index (lq_at i s)) s)))
                    else None) (pk_lq_index_depend_on_me p) s"

primrec return_data_accesses ::
  "nat \<Rightarrow> clock \<Rightarrow> (('b, 'p, 'm) core \<Rightarrow> packet circular_buffer) \<Rightarrow> (packet circular_buffer \<Rightarrow> ('b, 'p, 'm) core \<Rightarrow> ('b, 'p, 'm) core) \<Rightarrow>
   (packet \<Rightarrow> ('b, 'p, 'm) core \<Rightarrow> ('b, 'p, 'm) core option) \<Rightarrow> ('b, 'p, 'm) core \<Rightarrow> ('b, 'p, 'm) core option" where
  "return_data_accesses 0 clk get put handle s = Some s"
| "return_data_accesses (Suc to_read) clk get put handle s =
     (if \<not> cb_empty (get s) \<and> pk_event_cycle (cb_front (get s)) \<le> now clk
      then do {
        s \<leftarrow> handle (cb_front (get s)) s;
        q \<leftarrow> cb_pop_front (get s);
        return_data_accesses to_read clk get put handle (put q s) }
      else Some s)"

definition handle_memory_return :: "('b, 'p, 'm) core_env \<Rightarrow> clock \<Rightarrow> ('b, 'p, 'm) core \<Rightarrow> ('b, 'p, 'm) core option" where
  "handle_memory_return E clk s = do {
     (q, b) \<leftarrow> return_instrs clk itlb_wants itlb_mark (FETCH_WIDTH E) (ITLB_MAX_READ E) (ITLB_PROCESSED s, IFETCH_BUFFER s);
     let s = s\<lparr>ITLB_PROCESSED := q, IFETCH_BUFFER := b\<rparr>;
     (q, b) \<leftarrow> return_instrs clk l1i_wants (\<lambda>_. l1i_mark) (FETCH_WIDTH E) (L1I_MAX_READ E) (L1I_PROCESSED s, IFETCH_BUFFER s);
     let s = s\<lparr>L1I_PROCESSED := q, IFETCH_BUFFER := b\<rparr>;
     s \<leftarrow> return_data_accesses (DTLB_MAX_READ E) clk DTLB_PROCESSED (\<lambda>q s. s\<lparr>DTLB_PROCESSED := q\<rparr>) (dtlb_answer clk) s;
     return_data_accesses (L1D_MAX_READ E) clk L1D_PROCESSED (\<lambda>q s. s\<lparr>L1D_PROCESSED := q\<rparr>) (l1d_answer clk) s }"

section \<open>Retirement\<close>

text \<open>The stores of the instruction at the head go to the data cache; a full write queue ends the cycle, with what is written already dropped
  from the instruction.\<close>

primrec write_stores :: "('b, 'p, 'm) core_env \<Rightarrow> clock \<Rightarrow> nat list \<Rightarrow> ('b, 'p, 'm) core \<Rightarrow> (bool \<times> ('b, 'p, 'm) core) option" where
  "write_stores E clk [] s = Some (True, s)"
| "write_stores E clk (i # is) s =
     (let h = co_head (ROB s); e = rob_at h s
      in if oi_destination_memory e ! i = 0 then write_stores E clk is s
         else let sq_index = unat (oi_sq_index e ! i)
              in if sq_index \<ge> length (co_entry (SQ s)) then None
                 else do {
                   (result, s) \<leftarrow> bus_request (c_add_wq (m_l1d E)) clk (store_packet clk sq_index (sq_at sq_index s)) s;
                   if result = - 2 then Some (False, s)
                   else write_stores E clk is (upd_rob h (\<lambda>e. e\<lparr>oi_destination_memory := (oi_destination_memory e)[i := 0]\<rparr>) s) })"

definition release_store :: "nat \<Rightarrow> ('b, 'p, 'm) core \<Rightarrow> ('b, 'p, 'm) core option" where
  "release_store i s =
     (let q = oi_sq_index (rob_at (co_head (ROB s)) s) ! i
      in if q = - 1 then Some s
         else if unat q \<ge> length (co_entry (SQ s)) then None
         else let s = upd_sq (unat q) (\<lambda>_. new_lsq_entry) s
              in Some (s\<lparr>SQ := (SQ s)\<lparr>co_occupancy := co_occupancy (SQ s) - 1,
                                     co_head := next_index (length (co_entry (SQ s))) (co_head (SQ s))\<rparr>\<rparr>))"

definition release_rob :: "('b, 'p, 'm) core \<Rightarrow> ('b, 'p, 'm) core" where
  "release_rob s =
     (let s = upd_rob (co_head (ROB s)) (\<lambda>_. new_instr) s
      in s\<lparr>ROB := (ROB s)\<lparr>co_head := next_index (length (co_entry (ROB s))) (co_head (ROB s)), co_occupancy := co_occupancy (ROB s) - 1\<rparr>,
           completed_executions := completed_executions s - 1, num_retired := num_retired s + 1\<rparr>)"

primrec retire_loop :: "nat \<Rightarrow> ('b, 'p, 'm) core_env \<Rightarrow> clock \<Rightarrow> ('b, 'p, 'm) core \<Rightarrow> ('b, 'p, 'm) core option" where
  "retire_loop 0 E clk s = Some s"
| "retire_loop (Suc n) E clk s =
     (let e = rob_at (co_head (ROB s)) s
      in if oi_ip e = 0 \<or> oi_executed e \<noteq> COMPLETED then Some s
         else do {
           (written, s) \<leftarrow> write_stores E clk [0..<MAX_INSTR_DESTINATIONS E] s;
           if \<not> written then Some s
           else do {
             s \<leftarrow> try_all release_store [0..<MAX_INSTR_DESTINATIONS E] s;
             retire_loop n E clk (release_rob s) } })"

definition retire_rob :: "('b, 'p, 'm) core_env \<Rightarrow> clock \<Rightarrow> ('b, 'p, 'm) core \<Rightarrow> ('b, 'p, 'm) core option" where
  "retire_rob E clk s =
     (let e = rob_at (co_head (ROB s)) s
      in if oi_executed e \<noteq> COMPLETED \<or> oi_event_cycle e > now clk then Some s else retire_loop (RETIRE_WIDTH E) E clk s)"

end
