(* ===== verification/CoreWindow.thy ===== *)
theory CoreWindow
  imports CoreMemory
begin

text \<open>
  The two ring structures of the core: the window of a \<^verbatim>\<open>CORE_BUFFER\<close> (its slots from the oldest to the youngest) and the index queues
  with a head and a tail (\<open>ring_ok\<close>: a ring that holds exactly the given list, from its head on).
\<close>

section \<open>The window of a core buffer\<close>

definition co_ok :: "'a core_buffer \<Rightarrow> bool" where
  "co_ok b \<longleftrightarrow> co_head b < length (co_entry b) \<and> unat (co_occupancy b) \<le> length (co_entry b) \<and> length (co_entry b) < 2 ^ 31 \<and>
     co_tail b = (co_head b + unat (co_occupancy b)) mod length (co_entry b)"

lemma next_index_mod: "i < n \<Longrightarrow> next_index n i = (i + 1) mod n"
  by (auto simp: next_index_def)

lemma indices_from_eq: "i < n \<Longrightarrow> indices_from n i k = map (\<lambda>j. (i + j) mod n) [0..<k]"
proof (induction k arbitrary: i)
  case (Suc k)
  then have n: "next_index n i < n" by (simp add: next_index_mod)
  have "map (\<lambda>j. (i + j) mod n) [0..<Suc k] = i # map (\<lambda>j. (i + Suc j) mod n) [0..<k]"
    using Suc.prems by (simp add: upt_conv_Cons map_Suc_upt[symmetric] del: upt_Suc)
  also have "\<dots> = i # indices_from n (next_index n i) k"
    using Suc.IH[OF n] Suc.prems by (simp add: next_index_mod mod_simps)
  finally show ?case by simp
qed simp

lemma ring_indices_eq:
  "co_ok b \<Longrightarrow> ring_indices b = map (\<lambda>k. (co_head b + k) mod length (co_entry b)) [0..<unat (co_occupancy b)]"
  by (simp add: ring_indices_def co_ok_def indices_from_eq)

lemma length_ring_indices [simp]: "length (ring_indices b) = unat (co_occupancy b)"
proof -
  have "length (indices_from n i k) = k" for n i k by (induction k arbitrary: i) simp_all
  then show ?thesis by (simp add: ring_indices_def)
qed

lemma ring_indices_nth:
  "co_ok b \<Longrightarrow> k < unat (co_occupancy b) \<Longrightarrow> ring_indices b ! k = (co_head b + k) mod length (co_entry b)"
  by (simp add: ring_indices_eq)

lemma ring_indices_bound: "co_ok b \<Longrightarrow> i \<in> set (ring_indices b) \<Longrightarrow> i < length (co_entry b)"
  by (auto simp: ring_indices_eq co_ok_def intro: mod_less_divisor)

lemma mod_shift_inj: "i < n \<Longrightarrow> j < n \<Longrightarrow> (h + i) mod n = (h + j) mod n \<Longrightarrow> i = (j :: nat)"
  using mod_window_neq[of h i j n n] by auto

lemma mod_less_of_less: "h < n \<Longrightarrow> (i :: nat) mod n < n" for h n :: nat
  by simp

lemma distinct_ring_indices: "co_ok b \<Longrightarrow> distinct (ring_indices b)"
  by (auto simp: ring_indices_eq distinct_map inj_on_def co_ok_def intro: mod_shift_inj[of _ "length (co_entry b)"])

lemma tail_not_in_window:
  assumes "co_ok b" "unat (co_occupancy b) < length (co_entry b)"
  shows "co_tail b \<notin> set (ring_indices b)" "co_tail b < length (co_entry b)"
proof -
  show "co_tail b < length (co_entry b)" using assms by (auto simp: co_ok_def intro: mod_less_of_less)
  show "co_tail b \<notin> set (ring_indices b)"
  proof
    assume "co_tail b \<in> set (ring_indices b)"
    then obtain k where "k < unat (co_occupancy b)" "(co_head b + unat (co_occupancy b)) mod length (co_entry b) = (co_head b + k) mod length (co_entry b)"
      using assms by (auto simp: ring_indices_eq co_ok_def)
    with mod_shift_inj[of "unat (co_occupancy b)" "length (co_entry b)" k "co_head b"] assms show False by simp
  qed
qed

definition co_push :: "'a \<Rightarrow> 'a core_buffer \<Rightarrow> 'a core_buffer" where
  "co_push x b = b\<lparr>co_entry := (co_entry b)[co_tail b := x], co_tail := next_index (length (co_entry b)) (co_tail b),
     co_occupancy := co_occupancy b + 1\<rparr>"

definition co_pop :: "'a \<Rightarrow> 'a core_buffer \<Rightarrow> 'a core_buffer" where
  "co_pop d b = b\<lparr>co_entry := (co_entry b)[co_head b := d], co_head := next_index (length (co_entry b)) (co_head b),
     co_occupancy := co_occupancy b - 1\<rparr>"

lemma co_push_law:
  assumes ok: "co_ok b" and room: "unat (co_occupancy b) < length (co_entry b)"
  shows "co_ok (co_push x b)" "ring_indices (co_push x b) = ring_indices b @ [co_tail b]"
    "unat (co_occupancy (co_push x b)) = Suc (unat (co_occupancy b))"
proof -
  have "unat (co_occupancy b) < 2 ^ 31" using ok room by (simp add: co_ok_def)
  then show u: "unat (co_occupancy (co_push x b)) = Suc (unat (co_occupancy b))"
    by (simp add: co_push_def unat_word_ariths)
  show c: "co_ok (co_push x b)"
    using ok room u tail_not_in_window(2)[OF ok room]
    by (simp add: co_ok_def) (auto simp: co_push_def next_index_mod mod_simps)
  show "ring_indices (co_push x b) = ring_indices b @ [co_tail b]"
    using ok by (simp add: ring_indices_eq[OF ok] ring_indices_eq[OF c] u) (simp add: co_push_def co_ok_def)
qed

lemma co_pop_law:
  assumes ok: "co_ok b" and ne: "co_occupancy b \<noteq> 0"
  shows "co_ok (co_pop d b)" "ring_indices b = co_head b # ring_indices (co_pop d b)"
    "unat (co_occupancy b) = Suc (unat (co_occupancy (co_pop d b)))"
proof -
  have "unat (co_occupancy b) \<noteq> 0" using ne by (simp add: unat_eq_0)
  then show u: "unat (co_occupancy b) = Suc (unat (co_occupancy (co_pop d b)))"
    using ne by (simp add: co_pop_def unat_minus_one)
  show c: "co_ok (co_pop d b)"
    using ok u by (simp add: co_ok_def) (auto simp: co_pop_def next_index_mod mod_simps intro: mod_less_of_less)
  have h: "co_head b < length (co_entry b)" using ok by (simp add: co_ok_def)
  then show "ring_indices b = co_head b # ring_indices (co_pop d b)"
    by (simp add: ring_indices_def u) (simp add: co_pop_def)
qed

text \<open>The loops over the older instructions visit the window before the instruction, youngest first.\<close>

lemma map_mod_upt: "l \<le> n \<Longrightarrow> map (\<lambda>j. (0 + j) mod n) [0..<l] = [0..<l]" for l n :: nat
  by (rule nth_equalityI) auto

lemma prior_indices_eq:
  assumes ok: "co_ok b" and k: "k < unat (co_occupancy b)"
  shows "prior_indices (ring_indices b ! k) b = rev (take k (ring_indices b))"
proof -
  let ?n = "length (co_entry b)" and ?h = "co_head b" and ?i = "ring_indices b ! k"
  have i: "?i = (?h + k) mod ?n" using ring_indices_nth[OF ok k] .
  have b: "?h < ?n" "k < ?n" using ok k by (auto simp: co_ok_def)
  have w: "take k (ring_indices b) = map (\<lambda>j. (?h + j) mod ?n) [0..<k]"
    using k by (simp add: ring_indices_eq[OF ok] take_map min_def)
  consider "k = 0" | "0 < k" "?h + k \<le> ?n" | "?n < ?h + k" by linarith
  then show ?thesis
  proof cases
    case 1
    with b i show ?thesis by (simp add: prior_indices_def)
  next
    case 2
    have e: "(if ?i = 0 then ?n - 1 else ?i - 1) = ?h + k - 1"
      using 2 b i by (cases "?h + k = ?n") auto
    have ne: "?i \<noteq> ?h" using 2 b i by (cases "?h + k = ?n") auto
    have "map (\<lambda>j. (?h + j) mod ?n) [0..<k] = [?h..<?h + k]"
      using 2 by (intro nth_equalityI) auto
    with 2 e ne show ?thesis by (simp add: prior_indices_def w Let_def)
  next
    case 3
    then have i': "?i = ?h + k - ?n" using b i by (simp add: mod_if)
    have "map (\<lambda>j. (?h + j) mod ?n) [0..<k] = [?h..<?n] @ [0..<?i]"
    proof (rule nth_equalityI)
      show "length (map (\<lambda>j. (?h + j) mod ?n) [0..<k]) = length ([?h..<?n] @ [0..<?i])" using 3 b i' by simp
      fix j assume "j < length (map (\<lambda>j. (?h + j) mod ?n) [0..<k])"
      then have "j < k" by simp
      then show "map (\<lambda>j. (?h + j) mod ?n) [0..<k] ! j = ([?h..<?n] @ [0..<?i]) ! j"
        using 3 b i' by (auto simp: nth_append mod_if)
    qed
    moreover obtain m where m: "?i = Suc m" using 3 i' by (metis Suc_pred zero_less_diff)
    moreover have "\<not> ?h \<le> m" "Suc m \<noteq> ?h" using 3 b i' m by linarith+
    ultimately show ?thesis by (simp add: prior_indices_def w Let_def)
  qed
qed

section \<open>Index queues\<close>

definition ring_ok :: "'a \<Rightarrow> 'a ring \<Rightarrow> 'a list \<Rightarrow> bool" where
  "ring_ok d r xs \<longleftrightarrow> rg_head r < length (rg_slots r) \<and> length xs \<le> length (rg_slots r) \<and> d \<notin> set xs \<and>
     rg_tail r = (rg_head r + length xs) mod length (rg_slots r) \<and>
     (\<forall>k<length (rg_slots r). rg_slots r ! ((rg_head r + k) mod length (rg_slots r)) = (if k < length xs then xs ! k else d))"

lemma ring_ok_new: "0 < n \<Longrightarrow> ring_ok d (ring_new d n) []"
  by (simp add: ring_ok_def ring_new_def)

lemma ring_ok_top: "ring_ok d r xs \<Longrightarrow> ring_top r = (if xs = [] then d else hd xs)"
  by (auto simp: ring_ok_def ring_top_def hd_conv_nth dest: spec[of _ 0])

lemma ring_ok_tail:
  assumes "ring_ok d r xs"
  shows "rg_slots r ! rg_tail r = (if length xs < length (rg_slots r) then d else hd xs)"
proof (cases "length xs < length (rg_slots r)")
  case True
  with assms show ?thesis by (auto simp: ring_ok_def)
next
  case False
  with assms have "rg_tail r = rg_head r" "xs \<noteq> []" by (auto simp: ring_ok_def)
  with False ring_ok_top[OF assms] show ?thesis by (simp add: ring_top_def)
qed

lemma ring_ok_put:
  assumes ok: "ring_ok d r xs" and room: "length xs < length (rg_slots r)" and x: "x \<noteq> d"
  shows "ring_ok d (ring_put x r) (xs @ [x])"
proof -
  let ?n = "length (rg_slots r)" and ?h = "rg_head r"
  have t: "rg_tail r = (?h + length xs) mod ?n" "?h < ?n" using ok by (simp_all add: ring_ok_def)
  have "(rg_slots r)[rg_tail r := x] ! ((?h + k) mod ?n) = (if k < Suc (length xs) then (xs @ [x]) ! k else d)" if k: "k < ?n" for k
  proof (cases "k = length xs")
    case True
    with t room mod_less_of_less[OF t(2), of "?h + length xs"] show ?thesis by simp
  next
    case False
    then have "(?h + k) mod ?n \<noteq> rg_tail r" using mod_shift_inj[of k ?n "length xs" ?h] k room t by auto
    with ok k False show ?thesis by (auto simp: ring_ok_def nth_append)
  qed
  moreover have "next_index ?n (rg_tail r) = (?h + Suc (length xs)) mod ?n"
    using t mod_less_of_less[OF t(2), of "?h + length xs"] by (simp add: next_index_mod mod_simps)
  ultimately show ?thesis using ok room x by (auto simp: ring_ok_def ring_put_def)
qed

lemma ring_ok_pop:
  assumes ok: "ring_ok d r (x # xs)"
  shows "ring_ok d (ring_pop d r) xs"
proof -
  let ?n = "length (rg_slots r)" and ?h = "rg_head r"
  have h: "?h < ?n" and s: "\<And>k. k < ?n \<Longrightarrow> rg_slots r ! ((?h + k) mod ?n) = (if k < Suc (length xs) then (x # xs) ! k else d)"
    and l: "Suc (length xs) \<le> ?n" using ok by (simp_all add: ring_ok_def)
  have "(rg_slots r)[?h := d] ! ((next_index ?n ?h + k) mod ?n) = (if k < length xs then xs ! k else d)" if k: "k < ?n" for k
  proof -
    have e: "(next_index ?n ?h + k) mod ?n = (?h + Suc k) mod ?n" using h by (simp add: next_index_mod mod_simps)
    show ?thesis
    proof (cases "Suc k = ?n")
      case True
      then have "(?h + Suc k) mod ?n = ?h" using h by simp
      with True l h show ?thesis by (simp add: e)
    next
      case False
      then have k': "Suc k < ?n" using k by simp
      then have "(?h + Suc k) mod ?n \<noteq> ?h" using mod_shift_inj[of "Suc k" ?n 0 ?h] h by force
      with s[OF k'] show ?thesis by (simp add: e)
    qed
  qed
  with ok h mod_less_of_less[OF h, of "Suc ?h"] show ?thesis by (auto simp: ring_ok_def ring_pop_def next_index_mod mod_simps)
qed

lemma ring_ok_slots:
  assumes "ring_ok d r xs" "x \<in> set xs"
  shows "x \<in> set (rg_slots r)"
proof -
  obtain k where k: "k < length xs" "x = xs ! k" using assms(2) by (auto simp: in_set_conv_nth)
  with assms(1) have "rg_slots r ! ((rg_head r + k) mod length (rg_slots r)) = x" by (auto simp: ring_ok_def)
  moreover have "(rg_head r + k) mod length (rg_slots r) < length (rg_slots r)" using assms(1) by (auto simp: ring_ok_def intro: mod_less_of_less)
  ultimately show ?thesis by (metis nth_mem)
qed

end
