(* ===== verification/CoreFrame.thy ===== *)
theory CoreFrame
  imports CoreWindow
begin

text \<open>
  What the memory side of the core leaves alone. \<open>sched_part\<close> blanks the members of an instruction that loads, stores and fetching write;
  \<open>skel\<close> is the part of the core that the order of the pipeline and the scheduling of registers depend on. Every operation
  on the load and store queues, every answer of a cache and every prefetch keeps \<open>skel\<close>.
\<close>

definition sched_part :: "ooo_model_instr \<Rightarrow> ooo_model_instr" where
  "sched_part e = e\<lparr>oi_event_cycle := 0, oi_num_mem_ops := 0, oi_source_added := [], oi_destination_added := [],
     oi_is_producer := False, oi_memory_instrs_depend_on_me := new_fastset, oi_lq_index := [], oi_sq_index := [],
     oi_destination_memory := [], oi_pfc_finished := False, oi_translated := 0, oi_fetched := 0, oi_decoded := 0,
     oi_instruction_pa := 0, oi_branch_mispredicted := 0\<rparr>"

definition skel where
  "skel s = (map sched_part (co_entry (ROB s)), co_head (ROB s), co_tail (ROB s), co_occupancy (ROB s), ready_to_execute s,
     DISPATCH_BUFFER s, DECODE_BUFFER s, cb_head (IFETCH_BUFFER s), cb_tail (IFETCH_BUFFER s), map sched_part (cb_entry (IFETCH_BUFFER s)),
     (num_retired s, instr_unique_id s, instrs_to_read_this_cycle s, fetch_stall s))"

lemma sched_part_simps [simp]:
  "sched_part (e\<lparr>oi_event_cycle := a\<rparr>) = sched_part e" "sched_part (e\<lparr>oi_num_mem_ops := b\<rparr>) = sched_part e"
  "sched_part (e\<lparr>oi_source_added := c\<rparr>) = sched_part e" "sched_part (e\<lparr>oi_destination_added := c\<rparr>) = sched_part e"
  "sched_part (e\<lparr>oi_is_producer := f\<rparr>) = sched_part e" "sched_part (e\<lparr>oi_memory_instrs_depend_on_me := g\<rparr>) = sched_part e"
  "sched_part (e\<lparr>oi_lq_index := h\<rparr>) = sched_part e" "sched_part (e\<lparr>oi_sq_index := h\<rparr>) = sched_part e"
  "sched_part (e\<lparr>oi_destination_memory := i\<rparr>) = sched_part e" "sched_part (e\<lparr>oi_pfc_finished := f\<rparr>) = sched_part e"
  "sched_part (e\<lparr>oi_translated := j\<rparr>) = sched_part e" "sched_part (e\<lparr>oi_fetched := j\<rparr>) = sched_part e"
  "sched_part (e\<lparr>oi_decoded := j\<rparr>) = sched_part e" "sched_part (e\<lparr>oi_instruction_pa := a\<rparr>) = sched_part e"
  "sched_part (e\<lparr>oi_branch_mispredicted := a\<rparr>) = sched_part e" "sched_part (sched_part e) = sched_part e"
  by (simp_all add: sched_part_def)

lemma skel_simps [simp]:
  "skel (s\<lparr>LQ := a\<rparr>) = skel s" "skel (s\<lparr>SQ := a\<rparr>) = skel s" "skel (s\<lparr>STA := st\<rparr>) = skel s"
  "skel (s\<lparr>RTL0 := r\<rparr>) = skel s" "skel (s\<lparr>RTL1 := r\<rparr>) = skel s" "skel (s\<lparr>RTS0 := r\<rparr>) = skel s" "skel (s\<lparr>RTS1 := r\<rparr>) = skel s"
  "skel (s\<lparr>inflight_mem_executions := n\<rparr>) = skel s" "skel (s\<lparr>inflight_reg_executions := n\<rparr>) = skel s"
  "skel (s\<lparr>completed_executions := u\<rparr>) = skel s" "skel (s\<lparr>num_searched := k\<rparr>) = skel s" "skel (s\<lparr>DIB := d\<rparr>) = skel s"
  "skel (s\<lparr>fetch_resume_cycle := u\<rparr>) = skel s" "skel (s\<lparr>memory := m\<rparr>) = skel s" "skel (s\<lparr>l1i_pf := p\<rparr>) = skel s"
  "skel (s\<lparr>bpu := b\<rparr>) = skel s"
  "skel (s\<lparr>ITLB_PROCESSED := q\<rparr>) = skel s" "skel (s\<lparr>DTLB_PROCESSED := q\<rparr>) = skel s"
  "skel (s\<lparr>L1I_PROCESSED := q\<rparr>) = skel s" "skel (s\<lparr>L1D_PROCESSED := q\<rparr>) = skel s"
  by (simp_all add: skel_def)

lemma skel_upd_lq [simp]: "skel (upd_lq i f s) = skel s" "skel (upd_sq i f s) = skel s"
  by (simp_all add: upd_lq_def upd_sq_def)

lemma map_update_same: "g x = g (xs ! i) \<Longrightarrow> map g (xs[i := x]) = map g xs"
  by (cases "i < length xs"; rule nth_equalityI) (auto simp: nth_list_update)

lemma skel_upd_rob: "sched_part (f (rob_at i s)) = sched_part (rob_at i s) \<Longrightarrow> skel (upd_rob i f s) = skel s"
  by (simp add: skel_def upd_rob_def rob_at_def map_update_same)

lemma skelD:
  assumes "skel s' = skel s"
  shows "map sched_part (co_entry (ROB s')) = map sched_part (co_entry (ROB s))" "co_head (ROB s') = co_head (ROB s)"
    "co_tail (ROB s') = co_tail (ROB s)" "co_occupancy (ROB s') = co_occupancy (ROB s)" "ready_to_execute s' = ready_to_execute s"
    "DISPATCH_BUFFER s' = DISPATCH_BUFFER s" "DECODE_BUFFER s' = DECODE_BUFFER s" "num_retired s' = num_retired s"
    "instr_unique_id s' = instr_unique_id s" "length (co_entry (ROB s')) = length (co_entry (ROB s))"
    "cb_head (IFETCH_BUFFER s') = cb_head (IFETCH_BUFFER s)" "cb_tail (IFETCH_BUFFER s') = cb_tail (IFETCH_BUFFER s)"
    "map sched_part (cb_entry (IFETCH_BUFFER s')) = map sched_part (cb_entry (IFETCH_BUFFER s))"
    "instrs_to_read_this_cycle s' = instrs_to_read_this_cycle s" "fetch_stall s' = fetch_stall s"
  using assms by (auto simp: skel_def dest: map_eq_imp_length_eq)

section \<open>Operations of option type\<close>

definition keeps :: "('a \<Rightarrow> 'k) \<Rightarrow> ('a \<Rightarrow> 'a option) \<Rightarrow> bool" where
  "keeps k f \<longleftrightarrow> (\<forall>s s'. f s = Some s' \<longrightarrow> k s' = k s)"

lemma keepsD: "keeps k f \<Longrightarrow> f s = Some s' \<Longrightarrow> k s' = k s"
  by (simp add: keeps_def)

lemma keepsI: "(\<And>s s'. f s = Some s' \<Longrightarrow> k s' = k s) \<Longrightarrow> keeps k f"
  by (simp add: keeps_def)

lemma keeps_try_all: "(\<And>x. keeps k (f x)) \<Longrightarrow> keeps k (try_all f xs)"
proof (induction xs)
  case (Cons x xs)
  show ?case
  proof (rule keepsI)
    fix s s' assume "try_all f (x # xs) s = Some s'"
    then obtain s1 where "f x s = Some s1" "try_all f xs s1 = Some s'" by (auto simp: bind_eq_Some_conv)
    with keepsD[OF Cons.prems] keepsD[OF Cons.IH[OF Cons.prems]] show "k s' = k s" by metis
  qed
qed (simp add: keeps_def)

lemma keeps_comp: "keeps k f \<Longrightarrow> (\<And>s. k (g s) = k s) \<Longrightarrow> keeps k (\<lambda>s. f (g s))"
  by (auto simp: keeps_def)

lemma keeps_issue_loop:
  assumes "\<And>s r s'. step s = Some (r, s') \<Longrightarrow> k s' = k s"
  shows "issue_loop n width step issued s = Some (j, s') \<Longrightarrow> k s' = k s"
proof (induction n arbitrary: issued s)
  case (Suc n)
  show ?case
  proof (cases "issued < width")
    case True
    then obtain r s1 where r: "step s = Some (r, s1)"
      and rest: "(case r of Stop \<Rightarrow> Some (issued, s1) | Pass \<Rightarrow> issue_loop n width step issued s1
                  | Issue \<Rightarrow> issue_loop n width step (Suc issued) s1) = Some (j, s')"
      using Suc.prems by (auto simp: bind_eq_Some_conv)
    with Suc.IH[of _ s1] have "k s' = k s1" by (cases r) auto
    with assms[OF r] show ?thesis by simp
  qed (use Suc.prems in simp)
qed simp

section \<open>Buses and queues\<close>

lemma skel_bus_return: "keeps skel (bus_return c)"
  by (rule keepsI) (auto simp: bus_return_def Let_def split: prod.splits if_splits)

lemma skel_bus_request: "bus_request f clk pkt s = Some (r, s') \<Longrightarrow> skel s' = skel s"
  by (auto simp: bus_request_def bind_eq_Some_conv dest!: keepsD[OF keeps_try_all[OF skel_bus_return]])

lemma skel_release_load_queue [simp]: "skel (release_load_queue i s) = skel s"
  by (simp add: release_load_queue_def Let_def)

lemma skel_mem_op_done [simp]: "skel (mem_op_done c i s) = skel s"
  by (simp add: mem_op_done_def Let_def skel_upd_rob)

lemma skel_checked_mem_op_done: "checked_mem_op_done c i s = Some s' \<Longrightarrow> skel s' = skel s"
  by (auto simp: checked_mem_op_done_def Let_def split: if_splits)

lemma skel_find_producer [simp]: "skel (find_producer E r d l s) = skel s"
proof -
  have step: "skel (mem_RAW_dependency E p r d l s) = skel s" for p s
    by (simp add: mem_RAW_dependency_def skel_upd_rob)
  have "skel (foldl (\<lambda>s i. if ls_producer_id (lq_at l s) \<noteq> - 1 then s else mem_RAW_dependency E i r d l s) s xs) = skel s" for xs
    by (induction xs arbitrary: s) (simp_all add: step)
  then show ?thesis by (simp add: find_producer_def)
qed

lemma skel_forwarding_loop: "forwarding_loop r l is s = (k, s') \<Longrightarrow> skel s' = skel s"
  by (induction r l "is" s rule: forwarding_loop.induct) (auto simp: Let_def split: if_splits)

lemma skel_new_load [simp]: "skel (new_load E clk r d l s) = skel s"
  by (simp add: new_load_def Let_def skel_upd_rob)

lemma skel_forward_now: "forward_now clk l i s = Some s' \<Longrightarrow> skel s' = skel s"
  by (auto simp: forward_now_def Let_def bind_eq_Some_conv split: if_splits dest!: skel_checked_mem_op_done)

lemma skel_add_load_queue: "add_load_queue E clk r d s = Some s' \<Longrightarrow> skel s' = skel s"
proof -
  assume a: "add_load_queue E clk r d s = Some s'"
  then obtain lq where lq: "first_index (\<lambda>i. ls_virtual_address (lq_at i s) = 0) (length (co_entry (LQ s))) = Some lq"
    by (auto simp: add_load_queue_def split: option.splits)
  define s1 where "s1 = find_producer E r d lq (new_load E clk r d lq s)"
  obtain fi s2 where s2: "forwarding_loop r lq [0..<length (co_entry (SQ s1))] s1 = (fi, s2)" by (metis surj_pair)
  obtain s3 where s3: "(case fi of Some i \<Rightarrow> forward_now clk lq i s2 | None \<Rightarrow> Some s2) = Some s3" and
    s': "s' = (let s = upd_rob r (\<lambda>e. e\<lparr>oi_source_added := (oi_source_added e)[d := True]\<rparr>) s3
               in if ls_virtual_address (lq_at lq s) \<noteq> 0 \<and> ls_producer_id (lq_at lq s) = - 1
                  then s\<lparr>RTL0 := ring_put lq (RTL0 s)\<rparr> else s)"
    using a by (auto simp: add_load_queue_def lq s1_def[symmetric] s2 Let_def bind_eq_Some_conv)
  have "skel s' = skel s3" by (simp add: s' Let_def skel_upd_rob)
  also have "\<dots> = skel s2" using s3 skel_forward_now by (cases fi) auto
  also have "\<dots> = skel s1" by (rule skel_forwarding_loop[OF s2])
  also have "\<dots> = skel s" by (simp add: s1_def)
  finally show ?thesis .
qed

lemma skel_add_store_queue: "add_store_queue E clk r d s = Some s' \<Longrightarrow> skel s' = skel s"
  by (auto simp: add_store_queue_def Let_def skel_upd_rob split: if_splits)

lemma skel_check_and_add_lsq:
  assumes "check_and_add_lsq E clk r s = Some (n, s')"
  shows "skel s' = skel s"
proof -
  have l: "keeps (\<lambda>x. skel (snd (snd x))) (try_load E clk r i)" for i
  proof (rule keepsI)
    fix x x' assume a: "try_load E clk r i x = Some x'"
    obtain ops added s where x: "x = (ops, added, s)" by (cases x)
    from a have "x' = (fst x', fst (snd x'), s) \<or> add_load_queue E clk r i s = Some (snd (snd x'))"
      by (simp add: try_load_def x split: if_splits; fastforce)
    then show "skel (snd (snd x')) = skel (snd (snd x))"
    proof
      assume "x' = (fst x', fst (snd x'), s)"
      then have "snd (snd x') = s" by (metis snd_conv)
      then show ?thesis by (simp add: x)
    next
      assume "add_load_queue E clk r i s = Some (snd (snd x'))"
      from skel_add_load_queue[OF this] show ?thesis by (simp add: x)
    qed
  qed
  have t: "keeps (\<lambda>x. skel (snd (snd x))) (try_store E clk r i)" for i
  proof (rule keepsI)
    fix x x' assume a: "try_store E clk r i x = Some x'"
    obtain ops added s where x: "x = (ops, added, s)" by (cases x)
    from a have "x' = (fst x', fst (snd x'), s) \<or> add_store_queue E clk r i s = Some (snd (snd x'))"
      by (simp add: try_store_def x split: if_splits; fastforce)
    then show "skel (snd (snd x')) = skel (snd (snd x))"
    proof
      assume "x' = (fst x', fst (snd x'), s)"
      then have "snd (snd x') = s" by (metis snd_conv)
      then show ?thesis by (simp add: x)
    next
      assume "add_store_queue E clk r i s = Some (snd (snd x'))"
      from skel_add_store_queue[OF this] show ?thesis by (simp add: x)
    qed
  qed
  obtain x ops added where x: "try_all (try_load E clk r) [0..<NUM_INSTR_SOURCES] (0, 0, s) = Some x"
    "try_all (try_store E clk r) [0..<MAX_INSTR_DESTINATIONS E] x = Some (ops, added, s')"
    using assms by (auto simp: check_and_add_lsq_def bind_eq_Some_conv)
  show ?thesis using keepsD[OF keeps_try_all[OF l] x(1)] keepsD[OF keeps_try_all[OF t] x(2)] by simp
qed

lemma skel_forward_to: "keeps skel (forward_to clk r q d j)"
  by (rule keepsI) (auto simp: forward_to_def Let_def bind_eq_Some_conv skel_upd_rob split: if_splits dest!: skel_checked_mem_op_done)

lemma skel_execute_store: "execute_store E clk r q s = Some s' \<Longrightarrow> skel s' = skel s"
  by (auto simp: execute_store_def Let_def bind_eq_Some_conv split: if_splits dest!: skel_checked_mem_op_done
      keepsD[OF keeps_try_all[OF keeps_try_all[OF skel_forward_to]]])

lemma skel_execute_load: "execute_load E clk l s = Some (r, s') \<Longrightarrow> skel s' = skel s"
  by (auto simp: execute_load_def bind_eq_Some_conv split: if_splits dest!: skel_bus_request)

section \<open>The memory stages\<close>

lemma skel_rounds:
  "rts0_round E clk s = Some (r, s') \<Longrightarrow> skel s' = skel s" "rts1_round E clk s = Some (r, s') \<Longrightarrow> skel s' = skel s"
  "rtl0_round E clk s = Some (r, s') \<Longrightarrow> skel s' = skel s" "rtl1_round E clk s = Some (r, s') \<Longrightarrow> skel s' = skel s"
  by (auto simp: rts0_round_def rts1_round_def rtl0_round_def rtl1_round_def Let_def bind_eq_Some_conv split: if_splits
      dest!: skel_bus_request skel_execute_store skel_execute_load)

lemma skel_operate_lsq: "operate_lsq E clk s = Some s' \<Longrightarrow> skel s' = skel s"
proof -
  assume "operate_lsq E clk s = Some s'"
  then obtain i s1 j s2 k s3 l where "issue_loop (SQ_SIZE E - 1) (SQ_WIDTH E) (rts0_round E clk) 0 s = Some (i, s1)"
    "issue_loop (SQ_SIZE E - 1) (SQ_WIDTH E) (rts1_round E clk) i s1 = Some (j, s2)"
    "issue_loop (LQ_SIZE E - 1) (LQ_WIDTH E) (rtl0_round E clk) 0 s2 = Some (k, s3)"
    "issue_loop (LQ_SIZE E - 1) (LQ_WIDTH E) (rtl1_round E clk) k s3 = Some (l, s')"
    unfolding operate_lsq_def by (auto simp: bind_eq_Some_conv simp del: One_nat_def)
  moreover have "issue_loop n w (rts0_round E clk) i s = Some (j, s') \<Longrightarrow> skel s' = skel s" for n w i j s s'
    by (erule keeps_issue_loop[rotated]) (erule skel_rounds)
  moreover have "issue_loop n w (rts1_round E clk) i s = Some (j, s') \<Longrightarrow> skel s' = skel s" for n w i j s s'
    by (erule keeps_issue_loop[rotated]) (erule skel_rounds)
  moreover have "issue_loop n w (rtl0_round E clk) i s = Some (j, s') \<Longrightarrow> skel s' = skel s" for n w i j s s'
    by (erule keeps_issue_loop[rotated]) (erule skel_rounds)
  moreover have "issue_loop n w (rtl1_round E clk) i s = Some (j, s') \<Longrightarrow> skel s' = skel s" for n w i j s s'
    by (erule keeps_issue_loop[rotated]) (erule skel_rounds)
  ultimately show ?thesis by metis
qed

lemma skel_operate_cache:
  assumes "operate_cache E clk s = Some s'"
  shows "skel s' = skel s"
proof -
  have one: "keeps skel (\<lambda>s. do { (calls, m) \<leftarrow> m_operate E c clk (memory s); try_all bus_return calls (s\<lparr>memory := m\<rparr>) })" for c
    by (rule keepsI) (auto simp: bind_eq_Some_conv dest!: keepsD[OF keeps_try_all[OF skel_bus_return]])
  from assms show ?thesis
    unfolding operate_cache_def by (auto simp: bind_eq_Some_conv simp del: try_all.simps dest!: keepsD[OF keeps_try_all[OF one]])
qed

lemma skel_execute_memory_instruction: "execute_memory_instruction E clk s = Some s' \<Longrightarrow> skel s' = skel s"
  by (auto simp: execute_memory_instruction_def bind_eq_Some_conv dest!: skel_operate_lsq skel_operate_cache)

text \<open>The answers.\<close>

abbreviation cb_skel :: "ooo_model_instr circular_buffer \<Rightarrow> u64 \<times> u64 \<times> ooo_model_instr list" where
  "cb_skel b \<equiv> (cb_head b, cb_tail b, map sched_part (cb_entry b))"

lemma cb_skel_modify:
  assumes "\<And>e. sched_part (f e) = sched_part e"
  shows "cb_skel (cb_modify p f b) = cb_skel b"
proof -
  have "map sched_part ((cb_entry b)[i := f (cb_entry b ! i)]) = map sched_part (cb_entry b)" for i
    by (rule map_update_same) (rule assms)
  then show ?thesis by (simp add: cb_modify_def cb_at_def)
qed

lemma skel_IFETCH: "cb_skel b = cb_skel (IFETCH_BUFFER s) \<Longrightarrow> skel (s\<lparr>IFETCH_BUFFER := b\<rparr>) = skel s"
  by (simp add: skel_def)

lemma cb_skel_serve:
  "(\<And>e. sched_part (mark e) = sched_part e) \<Longrightarrow> serve wants mark n ks b = (m, rest, b') \<Longrightarrow> cb_skel b' = cb_skel b"
proof (induction wants mark n ks b rule: serve.induct)
  case (2 wants mark n k ks b)
  then show ?case using cb_skel_modify[of mark] by (auto split: if_splits simp del: prod.inject)
qed simp

lemma cb_skel_return_instrs:
  assumes "\<And>p e. sched_part (mark p e) = sched_part e"
  shows "return_instrs clk wants mark n k (q, b) = Some (q', b') \<Longrightarrow> cb_skel b' = cb_skel b"
proof (induction k arbitrary: n q b)
  case (Suc k)
  show ?case
  proof (cases "0 < n \<and> \<not> cb_empty q \<and> pk_event_cycle (cb_front q) \<le> now clk")
    case True
    obtain m ks b1 where s: "serve (wants (cb_front q)) (mark (cb_front q)) n (pk_instr_depend_on_me (cb_front q)) b = (m, ks, b1)"
      by (metis prod_cases3)
    then obtain q1 where "return_instrs clk wants mark m k (q1, b1) = Some (q', b')"
      using Suc.prems True by (auto simp: Let_def bind_eq_Some_conv split: if_splits)
    from Suc.IH[OF this] cb_skel_serve[OF assms s] show ?thesis by simp
  next
    case False
    with Suc.prems show ?thesis by (auto simp: Let_def)
  qed
qed simp

lemma skel_return_data_accesses:
  assumes "\<And>p. keeps skel (handle p)" "\<And>q s. skel (put q s) = skel s"
  shows "keeps skel (return_data_accesses n clk get put handle)"
proof (induction n)
  case (Suc n)
  then show ?case
    by (auto simp: keeps_def bind_eq_Some_conv split: if_splits) (metis assms(1,2) keepsD)
qed (simp add: keeps_def)

lemma skel_dtlb_answer: "keeps skel (dtlb_answer clk p)"
proof (rule keepsI)
  fix s s' assume a: "dtlb_answer clk p s = Some s'"
  let ?mark = "\<lambda>q. q\<lparr>ls_physical_address := translated_address p q, ls_translated := COMPLETED, ls_event_cycle := now clk\<rparr>"
  have k: "keeps skel (\<lambda>s. if i < length (co_entry (SQ s)) then Some ((upd_sq i ?mark s)\<lparr>RTS1 := ring_put i (RTS1 s)\<rparr>) else None)"
    "keeps skel (\<lambda>s. if i < length (co_entry (LQ s)) then Some ((upd_lq i ?mark s)\<lparr>RTL1 := ring_put i (RTL1 s)\<rparr>) else None)" for i
    by (rule keepsI; simp split: if_splits; fastforce)+
  show "skel s' = skel s"
    using a by (auto simp: dtlb_answer_def Let_def bind_eq_Some_conv skel_upd_rob split: if_splits
        dest!: keepsD[OF keeps_try_all[OF k(1)]] keepsD[OF keeps_try_all[OF k(2)]])
qed

lemma skel_l1d_answer: "keeps skel (l1d_answer clk p)"
  unfolding l1d_answer_def by (rule keeps_try_all, rule keepsI) (auto simp: Let_def split: if_splits)

lemma skel_handle_memory_return:
  assumes "handle_memory_return E clk s = Some s'"
  shows "skel s' = skel s"
proof -
  have m: "sched_part (itlb_mark p e) = sched_part e" "sched_part (l1i_mark e) = sched_part e" for p e
    by (simp_all add: itlb_mark_def l1i_mark_def)
  have k: "keeps skel (return_data_accesses n clk DTLB_PROCESSED (\<lambda>q s. s\<lparr>DTLB_PROCESSED := q\<rparr>) (dtlb_answer clk))"
    "keeps skel (return_data_accesses n clk L1D_PROCESSED (\<lambda>q s. s\<lparr>L1D_PROCESSED := q\<rparr>) (l1d_answer clk))" for n
    by (rule skel_return_data_accesses; simp add: skel_dtlb_answer skel_l1d_answer)+
  obtain q b q' b' s2 where q: "return_instrs clk itlb_wants itlb_mark (FETCH_WIDTH E) (ITLB_MAX_READ E) (ITLB_PROCESSED s, IFETCH_BUFFER s) = Some (q, b)"
    and q': "return_instrs clk l1i_wants (\<lambda>_. l1i_mark) (FETCH_WIDTH E) (L1I_MAX_READ E) (L1I_PROCESSED s, b) = Some (q', b')"
    and s2: "return_data_accesses (DTLB_MAX_READ E) clk DTLB_PROCESSED (\<lambda>q s. s\<lparr>DTLB_PROCESSED := q\<rparr>) (dtlb_answer clk)
          (s\<lparr>ITLB_PROCESSED := q, IFETCH_BUFFER := b, L1I_PROCESSED := q', IFETCH_BUFFER := b'\<rparr>) = Some s2"
    and s': "return_data_accesses (L1D_MAX_READ E) clk L1D_PROCESSED (\<lambda>q s. s\<lparr>L1D_PROCESSED := q\<rparr>) (l1d_answer clk) s2 = Some s'"
    using assms unfolding handle_memory_return_def Let_def by (auto simp: bind_eq_Some_conv)
  have b: "cb_skel b' = cb_skel (IFETCH_BUFFER s)"
    using cb_skel_return_instrs[OF _ q] cb_skel_return_instrs[OF _ q'] m by simp
  have "skel s' = skel (s\<lparr>ITLB_PROCESSED := q, IFETCH_BUFFER := b, L1I_PROCESSED := q', IFETCH_BUFFER := b'\<rparr>)"
    using keepsD[OF k(1) s2] keepsD[OF k(2) s'] by simp
  also have "\<dots> = skel s" using b by (simp add: skel_def)
  finally show ?thesis .
qed

end
