(* ===== verification/CoreDeps.thy ===== *)
theory CoreDeps
  imports CoreFrame
begin

text \<open>
  The invariant behind the register scheduling, over the window \<open>w\<close> of the reorder buffer (slots, oldest first), the instructions
  \<open>ent\<close> in the slots and the content \<open>rl\<close> of the ready queue. Every instruction counts the registers it waits for exactly, the ready
  queue holds exactly the scheduled instructions that wait for nothing and have not started, and an instruction waits for the last older
  writer of each of its sources. One lemma per event: dispatch, scheduling, start of the execution, completion with the
  release of the waiting instructions, retirement.
\<close>

section \<open>Sets of slots\<close>

definition edeps :: "ooo_model_instr \<Rightarrow> nat \<Rightarrow> nat set" where
  "edeps e j = {x. x < 512 \<and> fs_mem (oi_registers_index_depend_on_me e ! j) (of_nat x)}"

definition einstrs :: "ooo_model_instr \<Rightarrow> nat set" where
  "einstrs e = {x. x < 512 \<and> fs_mem (oi_registers_instrs_depend_on_me e) (of_nat x)}"

definition entry_ok :: "ooo_model_instr \<Rightarrow> bool" where
  "entry_ok e \<longleftrightarrow> length (oi_source_registers e) = 4 \<and> length (oi_destination_registers e) = 4 \<and> length (oi_reg_RAW_checked e) = 4 \<and>
     length (oi_registers_index_depend_on_me e) = 4 \<and> fs_ok (oi_registers_instrs_depend_on_me e) \<and>
     (\<forall>j<4. fs_ok (oi_registers_index_depend_on_me e ! j))"

definition fresh_instr :: "ooo_model_instr \<Rightarrow> bool" where
  "fresh_instr e \<longleftrightarrow> entry_ok e \<and> oi_scheduled e = 0 \<and> oi_executed e = 0 \<and> oi_num_reg_dependent e = 0 \<and>
     (\<forall>j<4. \<not> oi_reg_RAW_checked e ! j) \<and> einstrs e = {} \<and> (\<forall>j<4. edeps e j = {})"

lemma word_of_nat_512 [simp]: "x < 512 \<Longrightarrow> unat (of_nat x :: u16) = x" "x < 512 \<Longrightarrow> (of_nat x :: u16) < 512"
  by (simp_all add: unat_of_nat word_less_nat_alt)

lemma of_nat_512_inj: "x < 512 \<Longrightarrow> y < 512 \<Longrightarrow> (of_nat x :: u16) = of_nat y \<longleftrightarrow> x = y"
  by (metis word_of_nat_512(1))

text \<open>The position order of the window.\<close>

fun older :: "'a list \<Rightarrow> 'a \<Rightarrow> 'a \<Rightarrow> bool" where
  "older [] p c \<longleftrightarrow> False"
| "older (x # xs) p c \<longleftrightarrow> (p = x \<and> c \<in> set xs) \<or> older xs p c"

lemma older_mem: "older w p c \<Longrightarrow> p \<in> set w \<and> c \<in> set w"
  by (induction w) auto

lemma older_irrefl: "distinct w \<Longrightarrow> \<not> older w p p"
  by (induction w) (auto dest: older_mem)

lemma older_snoc [simp]: "older (w @ [t]) p c \<longleftrightarrow> older w p c \<or> (p \<in> set w \<and> c = t)"
  by (induction w) auto

lemma older_trans: "distinct w \<Longrightarrow> older w a b \<Longrightarrow> older w b c \<Longrightarrow> older w a c"
  by (induction w) (auto dest: older_mem)

lemma older_total: "p \<in> set w \<Longrightarrow> c \<in> set w \<Longrightarrow> p \<noteq> c \<Longrightarrow> older w p c \<or> older w c p"
  by (induction w) auto

lemma older_asym: "distinct w \<Longrightarrow> older w a b \<Longrightarrow> \<not> older w b a"
  using older_trans older_irrefl by metis

lemma set_take_older: "distinct w \<Longrightarrow> k < length w \<Longrightarrow> p \<in> set (take k w) \<longleftrightarrow> older w p (w ! k)"
proof (induction w arbitrary: k)
  case (Cons x w)
  then show ?case by (cases k) (auto dest: older_mem)
qed simp

section \<open>The invariant\<close>

definition links :: "nat list \<Rightarrow> (nat \<Rightarrow> ooo_model_instr) \<Rightarrow> nat \<Rightarrow> (nat \<times> nat) set" where
  "links w ent c = {(p, j). p \<in> set w \<and> oi_executed (ent p) \<noteq> COMPLETED \<and> j < 4 \<and> c \<in> edeps (ent p) j}"

definition writes :: "('b, 'p, 'm) core_env \<Rightarrow> ooo_model_instr \<Rightarrow> u8 \<Rightarrow> bool" where
  "writes E e r \<longleftrightarrow> r \<noteq> 0 \<and> r \<in> set (dest_regs E e)"

definition last_writer ::
  "('b, 'p, 'm) core_env \<Rightarrow> nat list \<Rightarrow> (nat \<Rightarrow> ooo_model_instr) \<Rightarrow> nat \<Rightarrow> u8 \<Rightarrow> nat \<Rightarrow> bool" where
  "last_writer E w ent c r p \<longleftrightarrow> older w p c \<and> writes E (ent p) r \<and>
     (\<forall>q. older w p q \<and> older w q c \<longrightarrow> \<not> writes E (ent q) r)"

definition waiting :: "(nat \<Rightarrow> ooo_model_instr) \<Rightarrow> nat \<Rightarrow> bool" where
  "waiting ent c \<longleftrightarrow> \<not> oi_is_memory (ent c) \<and> oi_scheduled (ent c) \<noteq> 0 \<and> oi_num_reg_dependent (ent c) = 0 \<and> oi_executed (ent c) = 0"

definition deps_ok ::
  "('b, 'p, 'm) core_env \<Rightarrow> (nat \<Rightarrow> nat set) \<Rightarrow> nat list \<Rightarrow> (nat \<Rightarrow> ooo_model_instr) \<Rightarrow> nat list \<Rightarrow> bool" where
  "deps_ok E pend w ent rl \<longleftrightarrow>
     distinct w \<and> (\<forall>c\<in>set w. c < 512 \<and> entry_ok (ent c)) \<and>
     (\<forall>p\<in>set w. einstrs (ent p) = (\<Union>j<4. edeps (ent p) j)) \<and>
     (\<forall>p\<in>set w. \<forall>j<4. \<forall>c\<in>edeps (ent p) j. older w p c \<and> oi_scheduled (ent c) \<noteq> 0 \<and> oi_reg_RAW_producer (ent p)) \<and>
     (\<forall>c\<in>set w. finite (pend c) \<and> oi_num_reg_dependent (ent c) = int (card (links w ent c)) + int (card (pend c))) \<and>
     (\<forall>c\<in>set w. oi_scheduled (ent c) = 0 \<longrightarrow> oi_executed (ent c) = 0 \<and> oi_num_reg_dependent (ent c) = 0 \<and> (\<forall>j<4. \<not> oi_reg_RAW_checked (ent c) ! j)) \<and>
     (\<forall>c\<in>set w. oi_scheduled (ent c) \<noteq> 0 \<longrightarrow> (oi_reg_ready (ent c) \<longleftrightarrow> oi_num_reg_dependent (ent c) = 0)) \<and>
     (\<forall>c\<in>set w. oi_executed (ent c) \<noteq> 0 \<longrightarrow> oi_num_reg_dependent (ent c) = 0) \<and>
     distinct rl \<and> set rl = {c \<in> set w. waiting ent c} \<and>
     (\<forall>c\<in>set w. oi_scheduled (ent c) \<noteq> 0 \<longrightarrow> (\<forall>j<4. \<forall>p. last_writer E w ent c (oi_source_registers (ent c) ! j) p \<longrightarrow>
        oi_executed (ent p) = COMPLETED \<or> c \<in> edeps (ent p) j))"

lemma deps_okD:
  assumes "deps_ok E pend w ent rl"
  shows "distinct w" "c \<in> set w \<Longrightarrow> c < 512" "c \<in> set w \<Longrightarrow> entry_ok (ent c)"
    "p \<in> set w \<Longrightarrow> einstrs (ent p) = (\<Union>j<4. edeps (ent p) j)"
    "p \<in> set w \<Longrightarrow> j < 4 \<Longrightarrow> c \<in> edeps (ent p) j \<Longrightarrow> older w p c \<and> oi_scheduled (ent c) \<noteq> 0 \<and> oi_reg_RAW_producer (ent p)"
    "c \<in> set w \<Longrightarrow> finite (pend c)"
    "c \<in> set w \<Longrightarrow> oi_num_reg_dependent (ent c) = int (card (links w ent c)) + int (card (pend c))"
    "c \<in> set w \<Longrightarrow> oi_scheduled (ent c) = 0 \<Longrightarrow> oi_executed (ent c) = 0 \<and> oi_num_reg_dependent (ent c) = 0 \<and> (\<forall>j<4. \<not> oi_reg_RAW_checked (ent c) ! j)"
    "c \<in> set w \<Longrightarrow> oi_scheduled (ent c) \<noteq> 0 \<Longrightarrow> oi_reg_ready (ent c) \<longleftrightarrow> oi_num_reg_dependent (ent c) = 0"
    "c \<in> set w \<Longrightarrow> oi_executed (ent c) \<noteq> 0 \<Longrightarrow> oi_num_reg_dependent (ent c) = 0"
    "distinct rl" "set rl = {c \<in> set w. waiting ent c}"
    "c \<in> set w \<Longrightarrow> oi_scheduled (ent c) \<noteq> 0 \<Longrightarrow> j < 4 \<Longrightarrow> last_writer E w ent c (oi_source_registers (ent c) ! j) p \<Longrightarrow>
      oi_executed (ent p) = COMPLETED \<or> c \<in> edeps (ent p) j"
proof -
  have a: "distinct w" and b: "\<forall>c\<in>set w. c < 512 \<and> entry_ok (ent c)" and
    c: "\<forall>p\<in>set w. einstrs (ent p) = (\<Union>j<4. edeps (ent p) j)" and
    d: "\<forall>p\<in>set w. \<forall>j<4. \<forall>c\<in>edeps (ent p) j. older w p c \<and> oi_scheduled (ent c) \<noteq> 0 \<and> oi_reg_RAW_producer (ent p)" and
    e: "\<forall>c\<in>set w. finite (pend c) \<and> oi_num_reg_dependent (ent c) = int (card (links w ent c)) + int (card (pend c))" and
    f: "\<forall>c\<in>set w. oi_scheduled (ent c) = 0 \<longrightarrow> oi_executed (ent c) = 0 \<and> oi_num_reg_dependent (ent c) = 0 \<and> (\<forall>j<4. \<not> oi_reg_RAW_checked (ent c) ! j)" and
    g: "\<forall>c\<in>set w. oi_scheduled (ent c) \<noteq> 0 \<longrightarrow> (oi_reg_ready (ent c) \<longleftrightarrow> oi_num_reg_dependent (ent c) = 0)" and
    h: "\<forall>c\<in>set w. oi_executed (ent c) \<noteq> 0 \<longrightarrow> oi_num_reg_dependent (ent c) = 0" and
    i: "distinct rl" and j: "set rl = {c \<in> set w. waiting ent c}" and
    k: "\<forall>c\<in>set w. oi_scheduled (ent c) \<noteq> 0 \<longrightarrow> (\<forall>j<4. \<forall>p. last_writer E w ent c (oi_source_registers (ent c) ! j) p \<longrightarrow>
        oi_executed (ent p) = COMPLETED \<or> c \<in> edeps (ent p) j)"
    using assms unfolding deps_ok_def by - (elim conjE, assumption)+
  show "distinct w" "distinct rl" "set rl = {c \<in> set w. waiting ent c}" using a i j .
  show "c \<in> set w \<Longrightarrow> c < 512" "c \<in> set w \<Longrightarrow> entry_ok (ent c)" using b by blast+
  show "p \<in> set w \<Longrightarrow> einstrs (ent p) = (\<Union>j<4. edeps (ent p) j)" using c by blast
  show "p \<in> set w \<Longrightarrow> j < 4 \<Longrightarrow> c \<in> edeps (ent p) j \<Longrightarrow> older w p c \<and> oi_scheduled (ent c) \<noteq> 0 \<and> oi_reg_RAW_producer (ent p)"
    using d by blast
  show "c \<in> set w \<Longrightarrow> finite (pend c)"
    "c \<in> set w \<Longrightarrow> oi_num_reg_dependent (ent c) = int (card (links w ent c)) + int (card (pend c))" using e by blast+
  show "c \<in> set w \<Longrightarrow> oi_scheduled (ent c) = 0 \<Longrightarrow> oi_executed (ent c) = 0 \<and> oi_num_reg_dependent (ent c) = 0 \<and> (\<forall>j<4. \<not> oi_reg_RAW_checked (ent c) ! j)"
    using f by blast
  show "c \<in> set w \<Longrightarrow> oi_scheduled (ent c) \<noteq> 0 \<Longrightarrow> oi_reg_ready (ent c) \<longleftrightarrow> oi_num_reg_dependent (ent c) = 0" using g by blast
  show "c \<in> set w \<Longrightarrow> oi_executed (ent c) \<noteq> 0 \<Longrightarrow> oi_num_reg_dependent (ent c) = 0" using h by blast
  show "c \<in> set w \<Longrightarrow> oi_scheduled (ent c) \<noteq> 0 \<Longrightarrow> j < 4 \<Longrightarrow> last_writer E w ent c (oi_source_registers (ent c) ! j) p \<Longrightarrow>
      oi_executed (ent p) = COMPLETED \<or> c \<in> edeps (ent p) j" using k by blast
qed

lemma deps_okI:
  assumes "distinct w" "\<And>c. c \<in> set w \<Longrightarrow> c < 512" "\<And>c. c \<in> set w \<Longrightarrow> entry_ok (ent c)"
    "\<And>p. p \<in> set w \<Longrightarrow> einstrs (ent p) = (\<Union>j<4. edeps (ent p) j)"
    "\<And>p j c. p \<in> set w \<Longrightarrow> j < 4 \<Longrightarrow> c \<in> edeps (ent p) j \<Longrightarrow> older w p c \<and> oi_scheduled (ent c) \<noteq> 0 \<and> oi_reg_RAW_producer (ent p)"
    "\<And>c. c \<in> set w \<Longrightarrow> finite (pend c)"
    "\<And>c. c \<in> set w \<Longrightarrow> oi_num_reg_dependent (ent c) = int (card (links w ent c)) + int (card (pend c))"
    "\<And>c. c \<in> set w \<Longrightarrow> oi_scheduled (ent c) = 0 \<Longrightarrow> oi_executed (ent c) = 0 \<and> oi_num_reg_dependent (ent c) = 0 \<and> (\<forall>j<4. \<not> oi_reg_RAW_checked (ent c) ! j)"
    "\<And>c. c \<in> set w \<Longrightarrow> oi_scheduled (ent c) \<noteq> 0 \<Longrightarrow> oi_reg_ready (ent c) \<longleftrightarrow> oi_num_reg_dependent (ent c) = 0"
    "\<And>c. c \<in> set w \<Longrightarrow> oi_executed (ent c) \<noteq> 0 \<Longrightarrow> oi_num_reg_dependent (ent c) = 0"
    "distinct rl" "set rl = {c \<in> set w. waiting ent c}"
    "\<And>c j p. c \<in> set w \<Longrightarrow> oi_scheduled (ent c) \<noteq> 0 \<Longrightarrow> j < 4 \<Longrightarrow> last_writer E w ent c (oi_source_registers (ent c) ! j) p \<Longrightarrow>
      oi_executed (ent p) = COMPLETED \<or> c \<in> edeps (ent p) j"
  shows "deps_ok E pend w ent rl"
proof -
  have "\<forall>c\<in>set w. c < 512 \<and> entry_ok (ent c)" "\<forall>p\<in>set w. einstrs (ent p) = (\<Union>j<4. edeps (ent p) j)"
    using assms(2,3,4) by simp_all
  moreover have "\<forall>p\<in>set w. \<forall>j<4. \<forall>c\<in>edeps (ent p) j. older w p c \<and> oi_scheduled (ent c) \<noteq> 0 \<and> oi_reg_RAW_producer (ent p)"
    using assms(5) by blast
  moreover have "\<forall>c\<in>set w. finite (pend c) \<and> oi_num_reg_dependent (ent c) = int (card (links w ent c)) + int (card (pend c))"
    using assms(6,7) by blast
  moreover have "\<forall>c\<in>set w. oi_scheduled (ent c) = 0 \<longrightarrow> oi_executed (ent c) = 0 \<and> oi_num_reg_dependent (ent c) = 0 \<and> (\<forall>j<4. \<not> oi_reg_RAW_checked (ent c) ! j)"
    "\<forall>c\<in>set w. oi_scheduled (ent c) \<noteq> 0 \<longrightarrow> (oi_reg_ready (ent c) \<longleftrightarrow> oi_num_reg_dependent (ent c) = 0)"
    "\<forall>c\<in>set w. oi_executed (ent c) \<noteq> 0 \<longrightarrow> oi_num_reg_dependent (ent c) = 0"
    using assms(8,9,10) by blast+
  moreover have "\<forall>c\<in>set w. oi_scheduled (ent c) \<noteq> 0 \<longrightarrow> (\<forall>j<4. \<forall>p. last_writer E w ent c (oi_source_registers (ent c) ! j) p \<longrightarrow>
      oi_executed (ent p) = COMPLETED \<or> c \<in> edeps (ent p) j)" using assms(13) by blast
  ultimately show ?thesis unfolding deps_ok_def using assms(1,11,12) by (intro conjI)
qed

text \<open>The members that the invariant reads.\<close>

lemma sched_partD:
  assumes "sched_part e = sched_part f"
  shows "oi_instr_id e = oi_instr_id f" "oi_ip e = oi_ip f" "oi_is_memory e = oi_is_memory f" "oi_scheduled e = oi_scheduled f"
    "oi_executed e = oi_executed f" "oi_num_reg_dependent e = oi_num_reg_dependent f" "oi_reg_ready e = oi_reg_ready f"
    "oi_reg_RAW_checked e = oi_reg_RAW_checked f" "oi_reg_RAW_producer e = oi_reg_RAW_producer f" "edeps e = edeps f" "einstrs e = einstrs f"
    "entry_ok e = entry_ok f" "writes E e = writes E f" "oi_source_registers e = oi_source_registers f" "fresh_instr e = fresh_instr f"
    "oi_registers_instrs_depend_on_me e = oi_registers_instrs_depend_on_me f"
    "oi_registers_index_depend_on_me e = oi_registers_index_depend_on_me f" "dest_regs E e = dest_regs E f"
proof -
  have "oi_instr_id (sched_part e) = oi_instr_id e \<and> oi_ip (sched_part e) = oi_ip e \<and> oi_is_memory (sched_part e) = oi_is_memory e \<and>
    oi_scheduled (sched_part e) = oi_scheduled e \<and> oi_executed (sched_part e) = oi_executed e \<and>
    oi_num_reg_dependent (sched_part e) = oi_num_reg_dependent e \<and> oi_reg_ready (sched_part e) = oi_reg_ready e \<and>
    oi_reg_RAW_checked (sched_part e) = oi_reg_RAW_checked e \<and> oi_reg_RAW_producer (sched_part e) = oi_reg_RAW_producer e \<and>
    edeps (sched_part e) = edeps e \<and> einstrs (sched_part e) = einstrs e \<and> entry_ok (sched_part e) = entry_ok e \<and>
    writes E (sched_part e) = writes E e \<and> oi_source_registers (sched_part e) = oi_source_registers e \<and>
    fresh_instr (sched_part e) = fresh_instr e \<and>
    oi_registers_instrs_depend_on_me (sched_part e) = oi_registers_instrs_depend_on_me e \<and>
    oi_registers_index_depend_on_me (sched_part e) = oi_registers_index_depend_on_me e \<and> dest_regs E (sched_part e) = dest_regs E e" for e
    by (simp add: sched_part_def edeps_def einstrs_def entry_ok_def writes_def dest_regs_def fun_eq_iff fresh_instr_def)
  from this[of e] this[of f] assms
  show "oi_instr_id e = oi_instr_id f" "oi_ip e = oi_ip f" "oi_is_memory e = oi_is_memory f" "oi_scheduled e = oi_scheduled f"
    "oi_executed e = oi_executed f" "oi_num_reg_dependent e = oi_num_reg_dependent f" "oi_reg_ready e = oi_reg_ready f"
    "oi_reg_RAW_checked e = oi_reg_RAW_checked f" "oi_reg_RAW_producer e = oi_reg_RAW_producer f" "edeps e = edeps f" "einstrs e = einstrs f"
    "entry_ok e = entry_ok f" "writes E e = writes E f" "oi_source_registers e = oi_source_registers f" "fresh_instr e = fresh_instr f"
    "oi_registers_instrs_depend_on_me e = oi_registers_instrs_depend_on_me f"
    "oi_registers_index_depend_on_me e = oi_registers_index_depend_on_me f" "dest_regs E e = dest_regs E f"
    by metis+
qed

lemma last_writer_cong:
  assumes "\<And>c. c \<in> set w \<Longrightarrow> writes E (ent' c) = writes E (ent c)"
  shows "last_writer E w ent' c r p \<longleftrightarrow> last_writer E w ent c r p"
  unfolding last_writer_def by (metis assms older_mem)

lemma deps_ok_cong:
  assumes ok: "deps_ok E pend w ent rl" and eq: "\<And>c. c \<in> set w \<Longrightarrow> sched_part (ent' c) = sched_part (ent c)"
  shows "deps_ok E pend w ent' rl"
proof -
  note sp = sched_partD[OF eq]
  have l: "links w ent' c = links w ent c" for c unfolding links_def by (auto simp: sp)
  have wt: "{c \<in> set w. waiting ent' c} = {c \<in> set w. waiting ent c}" by (auto simp: waiting_def sp)
  have lw: "last_writer E w ent' c r p \<longleftrightarrow> last_writer E w ent c r p" for c r p
    by (rule last_writer_cong) (rule sp)
  have lm: "last_writer E w ent c r p \<Longrightarrow> p \<in> set w" for c r p by (auto simp: last_writer_def dest: older_mem)
  note d = deps_okD[OF ok]
  show ?thesis
  proof (rule deps_okI)
    fix p j c assume a: "p \<in> set w" "j < 4" "c \<in> edeps (ent' p) j"
    then have o: "older w p c \<and> oi_scheduled (ent c) \<noteq> 0 \<and> oi_reg_RAW_producer (ent p)" using d(5) sp(10) by metis
    then have "c \<in> set w" by (blast dest: older_mem)
    with o a show "older w p c \<and> oi_scheduled (ent' c) \<noteq> 0 \<and> oi_reg_RAW_producer (ent' p)" by (simp add: sp)
  next
    fix c j p assume a: "c \<in> set w" "oi_scheduled (ent' c) \<noteq> 0" "j < 4" "last_writer E w ent' c (oi_source_registers (ent' c) ! j) p"
    then have "last_writer E w ent c (oi_source_registers (ent c) ! j) p" by (simp add: lw sp)
    with d(13) a lm show "oi_executed (ent' p) = COMPLETED \<or> c \<in> edeps (ent' p) j" by (metis sp(4,5,10))
  next
    show "set rl = {c \<in> set w. waiting ent' c}" using d(12) wt by simp
  qed (use d in \<open>simp_all add: sp l\<close>)
qed

end
