(* ===== verification/CoreEvents.thy ===== *)
theory CoreEvents
  imports CoreDeps
begin

text \<open>The events of the register scheduling keep its invariant.\<close>

abbreviation nobody :: "nat \<Rightarrow> nat set" where "nobody \<equiv> \<lambda>_. {}"

lemma code_values [simp]: "INFLIGHT \<noteq> 0" "COMPLETED \<noteq> 0" "INFLIGHT \<noteq> COMPLETED" "COMPLETED \<noteq> INFLIGHT"
  by (simp_all add: code_defs)

lemma links_cong:
  assumes "\<And>p. p \<in> set w \<Longrightarrow> edeps (ent' p) = edeps (ent p) \<and> (oi_executed (ent' p) = COMPLETED \<longleftrightarrow> oi_executed (ent p) = COMPLETED)"
  shows "links w ent' c = links w ent c"
  unfolding links_def using assms by auto

lemma finite_links: "finite (links w ent c)"
  by (rule finite_subset[of _ "set w \<times> {..<4}"]) (auto simp: links_def)

lemma last_writer_mem: "last_writer E w ent c r p \<Longrightarrow> p \<in> set w"
  by (auto simp: last_writer_def dest: older_mem)

section \<open>Dispatch and retirement\<close>

lemma deps_dispatch:
  assumes ok: "deps_ok E nobody w ent rl" and t: "t \<notin> set w" "t < 512" and e: "fresh_instr e"
  shows "deps_ok E nobody (w @ [t]) (ent(t := e)) rl"
proof -
  note d = deps_okD[OF ok]
  let ?ent = "ent(t := e)" and ?w = "w @ [t]"
  have ne: "c \<in> set w \<Longrightarrow> ?ent c = ent c" for c using t by auto
  have lt: "links ?w ?ent t = {}"
    using d(5) e t older_mem[of w _ t] by (auto simp: links_def fresh_instr_def split: if_splits)
  have lw: "links ?w ?ent c = links w ent c" if "c \<in> set w" for c
    using e t by (auto simp: links_def fresh_instr_def split: if_splits)
  have wl: "last_writer E ?w ?ent c r p \<longleftrightarrow> last_writer E w ent c r p" if "c \<in> set w" for c r p
  proof -
    have ct: "c \<noteq> t" using that t by auto
    then have o: "older ?w q c \<longleftrightarrow> older w q c" for q by simp
    have o2: "older ?w p q \<and> older ?w q c \<longleftrightarrow> older w p q \<and> older w q c" for q
      using o t by (auto dest: older_mem)
    have "?ent q = ent q" if "older w q c" for q using older_mem[OF that] ne by blast
    then show ?thesis unfolding last_writer_def o2 unfolding o by metis
  qed
  show ?thesis
  proof (rule deps_okI)
    fix p j c assume a: "p \<in> set ?w" "j < 4" "c \<in> edeps (?ent p) j"
    then have p: "p \<in> set w" using e by (auto simp: fresh_instr_def split: if_splits)
    then have pc: "older w p c \<and> oi_scheduled (ent c) \<noteq> 0 \<and> oi_reg_RAW_producer (ent p)" using d(5) a ne by metis
    then have "c \<in> set w" by (blast dest: older_mem)
    with pc p ne show "older ?w p c \<and> oi_scheduled (?ent c) \<noteq> 0 \<and> oi_reg_RAW_producer (?ent p)" by simp
  next
    show "set rl = {c \<in> set ?w. waiting ?ent c}"
      using d(12) t e by (auto simp: waiting_def fresh_instr_def)
  next
    fix c j p assume a: "c \<in> set ?w" "oi_scheduled (?ent c) \<noteq> 0" "j < 4" "last_writer E ?w ?ent c (oi_source_registers (?ent c) ! j) p"
    then have c: "c \<in> set w" using e by (auto simp: fresh_instr_def split: if_splits)
    have l: "last_writer E w ent c (oi_source_registers (ent c) ! j) p" using a(4) unfolding wl[OF c] ne[OF c] .
    then have "p \<in> set w" by (rule last_writer_mem)
    moreover have "oi_executed (ent p) = COMPLETED \<or> c \<in> edeps (ent p) j" using d(13)[OF c _ a(3) l] a(2) by (simp add: ne[OF c] del: fun_upd_apply)
    ultimately show "oi_executed (?ent p) = COMPLETED \<or> c \<in> edeps (?ent p) j" by (simp only: ne)
  next
    fix c assume c: "c \<in> set ?w"
    show "oi_num_reg_dependent (?ent c) = int (card (links ?w ?ent c)) + int (card (nobody c))"
    proof (cases "c = t")
      case True
      with lt e show ?thesis by (simp add: fresh_instr_def)
    next
      case False
      with c have "c \<in> set w" by simp
      with lw d(7) ne show ?thesis by simp
    qed
  qed (use d t e in \<open>auto simp: fresh_instr_def\<close>)
qed

lemma deps_retire:
  assumes ok: "deps_ok E nobody (h # w) ent rl" and x: "oi_executed (ent h) = COMPLETED"
  shows "deps_ok E nobody w ent rl"
proof -
  note d = deps_okD[OF ok]
  have h: "h \<notin> set w" "distinct w" using d(1) by simp_all
  have o: "older (h # w) p c \<longleftrightarrow> older w p c" if "p \<in> set w" for p c using that h by auto
  show ?thesis
  proof (rule deps_okI)
    fix c assume "c \<in> set w"
    then show "oi_num_reg_dependent (ent c) = int (card (links w ent c)) + int (card (nobody c))"
      using d(7)[of c] x by (simp add: links_def) (metis (no_types, lifting) Collect_cong case_prod_conv)
  next
    fix p j c assume "p \<in> set w" "j < 4" "c \<in> edeps (ent p) j"
    then show "older w p c \<and> oi_scheduled (ent c) \<noteq> 0 \<and> oi_reg_RAW_producer (ent p)" using d(5)[of p j c] o by simp
  next
    show "set rl = {c \<in> set w. waiting ent c}" using d(12) x by (auto simp: waiting_def)
  next
    fix c j p assume a: "c \<in> set w" "oi_scheduled (ent c) \<noteq> 0" "j < 4" "last_writer E w ent c (oi_source_registers (ent c) ! j) p"
    have p: "p \<in> set w" using a(4) by (rule last_writer_mem)
    have "last_writer E (h # w) ent c (oi_source_registers (ent c) ! j) p"
      using a(4) p h by (auto simp: last_writer_def dest: older_mem)
    with d(13)[of c j p] a show "oi_executed (ent p) = COMPLETED \<or> c \<in> edeps (ent p) j" by simp
  qed (use d h in simp_all)
qed

section \<open>Execution\<close>

text \<open>A change of one instruction that touches neither the sets nor the registers.\<close>

lemma deps_change:
  assumes ok: "deps_ok E P w ent rl" and c: "c \<in> set w"
    and same: "edeps e = edeps (ent c)" "einstrs e = einstrs (ent c)" "entry_ok e = entry_ok (ent c)" "writes E e = writes E (ent c)"
      "oi_source_registers e = oi_source_registers (ent c)" "oi_reg_RAW_checked e = oi_reg_RAW_checked (ent c)"
      "oi_reg_RAW_producer e = oi_reg_RAW_producer (ent c)"
    and comp: "oi_executed e = COMPLETED \<longleftrightarrow> oi_executed (ent c) = COMPLETED"
    and sched: "oi_scheduled (ent c) \<noteq> 0" "oi_scheduled e \<noteq> 0"
    and others: "\<And>x. x \<noteq> c \<Longrightarrow> P' x = P x" and fin: "finite (P' c)"
    and count: "oi_num_reg_dependent e = int (card (links w ent c)) + int (card (P' c))"
    and ready: "oi_reg_ready e \<longleftrightarrow> oi_num_reg_dependent e = 0"
    and exec: "oi_executed e \<noteq> 0 \<Longrightarrow> oi_num_reg_dependent e = 0"
    and rl: "distinct rl'" "set rl' = {x \<in> set w. waiting (ent(c := e)) x}"
  shows "deps_ok E P' w (ent(c := e)) rl'"
proof -
  note d = deps_okD[OF ok]
  let ?ent = "ent(c := e)"
  have l: "links w ?ent x = links w ent x" for x by (rule links_cong) (auto simp: same comp)
  have lw: "last_writer E w ?ent x r p \<longleftrightarrow> last_writer E w ent x r p" for x r p
    by (rule last_writer_cong) (auto simp: same)
  have ed: "edeps (?ent x) = edeps (ent x)" "einstrs (?ent x) = einstrs (ent x)" "entry_ok (?ent x) = entry_ok (ent x)"
    "oi_source_registers (?ent x) = oi_source_registers (ent x)" "oi_reg_RAW_producer (?ent x) = oi_reg_RAW_producer (ent x)"
    "(oi_executed (?ent x) = COMPLETED) = (oi_executed (ent x) = COMPLETED)" "(oi_scheduled (?ent x) = 0) = (oi_scheduled (ent x) = 0)" for x
    using same comp sched by auto
  show ?thesis
  proof (rule deps_okI)
    fix x assume x: "x \<in> set w"
    show "oi_num_reg_dependent (?ent x) = int (card (links w ?ent x)) + int (card (P' x))"
      using d(7)[OF x] count by (simp add: l others)
    show "finite (P' x)" using d(6)[OF x] fin others by (cases "x = c") auto
    show "oi_scheduled (?ent x) = 0 \<Longrightarrow> oi_executed (?ent x) = 0 \<and> oi_num_reg_dependent (?ent x) = 0 \<and> (\<forall>j<4. \<not> oi_reg_RAW_checked (?ent x) ! j)"
      using d(8)[OF x] sched by (cases "x = c") auto
    show "oi_scheduled (?ent x) \<noteq> 0 \<Longrightarrow> oi_reg_ready (?ent x) \<longleftrightarrow> oi_num_reg_dependent (?ent x) = 0"
      using d(9)[OF x] ready by (cases "x = c") auto
    show "oi_executed (?ent x) \<noteq> 0 \<Longrightarrow> oi_num_reg_dependent (?ent x) = 0"
      using d(10)[OF x] exec by (cases "x = c") auto
    show "x < 512" "entry_ok (?ent x)" "einstrs (?ent x) = (\<Union>j<4. edeps (?ent x) j)"
      using d(2,3,4) x by (simp_all only: ed)
  next
    fix p j x assume "p \<in> set w" "j < 4" "x \<in> edeps (?ent p) j"
    then show "older w p x \<and> oi_scheduled (?ent x) \<noteq> 0 \<and> oi_reg_RAW_producer (?ent p)" using d(5) by (simp only: ed) blast
  next
    fix x j p assume "x \<in> set w" "oi_scheduled (?ent x) \<noteq> 0" "j < 4" "last_writer E w ?ent x (oi_source_registers (?ent x) ! j) p"
    then show "oi_executed (?ent p) = COMPLETED \<or> x \<in> edeps (?ent p) j" using d(13) by (simp only: ed lw)
  qed (use d(1) rl in simp_all)
qed

lemma entry_fields [simp]:
  "edeps (e\<lparr>oi_executed := a\<rparr>) = edeps e" "edeps (e\<lparr>oi_scheduled := a\<rparr>) = edeps e" "edeps (e\<lparr>oi_reg_ready := b\<rparr>) = edeps e"
  "edeps (e\<lparr>oi_num_reg_dependent := n\<rparr>) = edeps e" "einstrs (e\<lparr>oi_executed := a\<rparr>) = einstrs e"
  "einstrs (e\<lparr>oi_scheduled := a\<rparr>) = einstrs e" "einstrs (e\<lparr>oi_reg_ready := b\<rparr>) = einstrs e"
  "einstrs (e\<lparr>oi_num_reg_dependent := n\<rparr>) = einstrs e" "entry_ok (e\<lparr>oi_executed := a\<rparr>) = entry_ok e"
  "entry_ok (e\<lparr>oi_scheduled := a\<rparr>) = entry_ok e" "entry_ok (e\<lparr>oi_reg_ready := b\<rparr>) = entry_ok e"
  "entry_ok (e\<lparr>oi_num_reg_dependent := n\<rparr>) = entry_ok e" "writes E (e\<lparr>oi_executed := a\<rparr>) = writes E e"
  "writes E (e\<lparr>oi_scheduled := a\<rparr>) = writes E e" "writes E (e\<lparr>oi_reg_ready := b\<rparr>) = writes E e"
  "writes E (e\<lparr>oi_num_reg_dependent := n\<rparr>) = writes E e"
  by (simp_all add: edeps_def einstrs_def entry_ok_def writes_def dest_regs_def fun_eq_iff)

lemma deps_execute:
  assumes ok: "deps_ok E nobody w ent (c # rl)"
  shows "deps_ok E nobody w (ent(c := (ent c)\<lparr>oi_executed := INFLIGHT\<rparr>)) rl"
proof -
  note d = deps_okD[OF ok]
  have c: "c \<in> set w" "waiting ent c" using d(12) by auto
  have s: "oi_scheduled (ent c) \<noteq> 0" "oi_num_reg_dependent (ent c) = 0" "oi_executed (ent c) = 0"
    using c(2) by (simp_all add: waiting_def)
  have "set rl = {x \<in> set w. waiting ent x} - {c}" using d(11,12) by auto
  also have "\<dots> = {x \<in> set w. waiting (ent(c := (ent c)\<lparr>oi_executed := INFLIGHT\<rparr>)) x}"
    by (auto simp: waiting_def)
  finally have rl: "set rl = {x \<in> set w. waiting (ent(c := (ent c)\<lparr>oi_executed := INFLIGHT\<rparr>)) x}" .
  show ?thesis
  proof (rule deps_change[OF ok c(1)])
    show "oi_num_reg_dependent ((ent c)\<lparr>oi_executed := INFLIGHT\<rparr>) = int (card (links w ent c)) + int (card (nobody c))"
      using d(7)[OF c(1)] by simp
    show "distinct rl" using d(11) by simp
  qed (use s d(9)[OF c(1) s(1)] rl in simp_all)
qed

lemma deps_memory:
  assumes ok: "deps_ok E nobody w ent rl" and c: "c \<in> set w" and s: "oi_is_memory (ent c)" "oi_reg_ready (ent c)" "oi_scheduled (ent c) \<noteq> 0"
  shows "deps_ok E nobody w (ent(c := (ent c)\<lparr>oi_scheduled := COMPLETED,
    oi_executed := (if oi_executed (ent c) = 0 then INFLIGHT else oi_executed (ent c))\<rparr>)) rl" (is "deps_ok E nobody w (ent(c := ?e)) rl")
proof -
  note d = deps_okD[OF ok]
  have n: "oi_num_reg_dependent (ent c) = 0" using d(9)[OF c s(3)] s(2) by simp
  have "{x \<in> set w. waiting ent x} = {x \<in> set w. waiting (ent(c := ?e)) x}" using s by (auto simp: waiting_def)
  then have rl: "set rl = {x \<in> set w. waiting (ent(c := ?e)) x}" using d(12) by simp
  show ?thesis
  proof (rule deps_change[OF ok c])
    show "oi_num_reg_dependent ?e = int (card (links w ent c)) + int (card (nobody c))" using d(7)[OF c] by simp
  qed (use s n d(11) rl in \<open>simp_all split: if_splits\<close>)
qed

section \<open>Completion\<close>

definition released :: "(nat \<Rightarrow> ooo_model_instr) \<Rightarrow> nat \<Rightarrow> nat \<Rightarrow> nat set" where
  "released ent c x = {j. j < 4 \<and> x \<in> edeps (ent c) j}"

lemma deps_complete:
  assumes ok: "deps_ok E nobody w ent rl" and c: "c \<in> set w" and x: "oi_executed (ent c) = INFLIGHT"
  shows "deps_ok E (released ent c) w (ent(c := (ent c)\<lparr>oi_executed := COMPLETED\<rparr>)) rl" (is "deps_ok E _ w ?ent rl")
proof -
  note d = deps_okD[OF ok]
  have s: "oi_scheduled (ent c) \<noteq> 0" using d(8)[OF c] x by force
  have ed: "edeps (?ent y) = edeps (ent y)" "einstrs (?ent y) = einstrs (ent y)" "entry_ok (?ent y) = entry_ok (ent y)"
    "writes E (?ent y) = writes E (ent y)" "oi_source_registers (?ent y) = oi_source_registers (ent y)"
    "oi_scheduled (?ent y) = oi_scheduled (ent y)" "oi_num_reg_dependent (?ent y) = oi_num_reg_dependent (ent y)"
    "oi_reg_ready (?ent y) = oi_reg_ready (ent y)" "oi_reg_RAW_checked (?ent y) = oi_reg_RAW_checked (ent y)"
    "oi_reg_RAW_producer (?ent y) = oi_reg_RAW_producer (ent y)" "(oi_executed (?ent y) = 0) = (oi_executed (ent y) = 0)"
    "oi_executed (ent y) = COMPLETED \<Longrightarrow> oi_executed (?ent y) = COMPLETED" for y
    using x by auto
  have lw: "last_writer E w ?ent y r p \<longleftrightarrow> last_writer E w ent y r p" for y r p
    by (rule last_writer_cong) (simp add: ed)
  have l: "links w ent y = links w ?ent y \<union> {c} \<times> released ent c y" "links w ?ent y \<inter> {c} \<times> released ent c y = {}" for y
    using c x by (auto simp: links_def released_def split: if_splits)
  have fr: "finite (released ent c y)" for y by (simp add: released_def)
  have card: "card (links w ent y) = card (links w ?ent y) + card (released ent c y)" for y
    by (simp add: l(1) card_Un_disjoint[OF finite_links _ l(2)] fr card_cartesian_product_singleton)
  show ?thesis
  proof (rule deps_okI)
    fix y assume y: "y \<in> set w"
    show "oi_num_reg_dependent (?ent y) = int (card (links w ?ent y)) + int (card (released ent c y))"
      using d(7)[OF y] card[of y] by (simp only: ed) simp
    show "oi_scheduled (?ent y) = 0 \<Longrightarrow> oi_executed (?ent y) = 0 \<and> oi_num_reg_dependent (?ent y) = 0 \<and> (\<forall>j<4. \<not> oi_reg_RAW_checked (?ent y) ! j)"
      using d(8)[OF y] unfolding ed by simp
    show "oi_executed (?ent y) \<noteq> 0 \<Longrightarrow> oi_num_reg_dependent (?ent y) = 0" using d(10)[OF y] unfolding ed by simp
    show "oi_scheduled (?ent y) \<noteq> 0 \<Longrightarrow> oi_reg_ready (?ent y) \<longleftrightarrow> oi_num_reg_dependent (?ent y) = 0" using d(9)[OF y] unfolding ed by simp
    show "y < 512" "entry_ok (?ent y)" "einstrs (?ent y) = (\<Union>j<4. edeps (?ent y) j)" using d(2,3,4) y by (simp_all only: ed)
  next
    fix p j y assume "p \<in> set w" "j < 4" "y \<in> edeps (?ent p) j"
    then show "older w p y \<and> oi_scheduled (?ent y) \<noteq> 0 \<and> oi_reg_RAW_producer (?ent p)" using d(5) unfolding ed by blast
  next
    fix y j p assume a: "y \<in> set w" "oi_scheduled (?ent y) \<noteq> 0" "j < 4" "last_writer E w ?ent y (oi_source_registers (?ent y) ! j) p"
    then have "oi_executed (ent p) = COMPLETED \<or> y \<in> edeps (ent p) j" using d(13) by (simp only: ed lw)
    then show "oi_executed (?ent p) = COMPLETED \<or> y \<in> edeps (?ent p) j" using ed by metis
  next
    show "set rl = {y \<in> set w. waiting ?ent y}" using d(12) x by (auto simp: waiting_def)
  qed (use d fr in simp_all)
qed

lemma deps_release:
  assumes ok: "deps_ok E P w ent rl" and y: "y \<in> set w" and j: "j \<in> P y"
  defines "e \<equiv> (ent y)\<lparr>oi_num_reg_dependent := oi_num_reg_dependent (ent y) - 1\<rparr>"
  shows "oi_num_reg_dependent e \<noteq> 0 \<Longrightarrow> deps_ok E (P(y := P y - {j})) w (ent(y := e)) rl"
    "oi_num_reg_dependent e = 0 \<Longrightarrow> sc \<noteq> 0 \<Longrightarrow>
       deps_ok E (P(y := P y - {j})) w (ent(y := e\<lparr>oi_reg_ready := True, oi_scheduled := sc\<rparr>)) (if oi_is_memory e then rl else rl @ [y])"
    "\<not> oi_is_memory e \<Longrightarrow> y \<notin> set rl"
proof -
  note d = deps_okD[OF ok]
  have fin: "finite (P y)" using d(6)[OF y] .
  have pos: "0 < card (P y)" using fin j by (auto simp: card_gt_0_iff)
  then have n: "oi_num_reg_dependent (ent y) > 0" using d(7)[OF y] by simp
  have s: "oi_scheduled (ent y) \<noteq> 0" "oi_executed (ent y) = 0" using d(8)[OF y] d(10)[OF y] n by force+
  have count: "oi_num_reg_dependent e = int (card (links w ent y)) + int (card ((P(y := P y - {j})) y))"
    using d(7)[OF y] pos fin j by (simp add: e_def card_Diff_singleton of_nat_diff)
  show yrl: "\<not> oi_is_memory e \<Longrightarrow> y \<notin> set rl" using d(12) n by (auto simp: waiting_def)
  show "deps_ok E (P(y := P y - {j})) w (ent(y := e)) rl" if nz: "oi_num_reg_dependent e \<noteq> 0"
  proof (rule deps_change[OF ok y])
    show "oi_num_reg_dependent e = int (card (links w ent y)) + int (card ((P(y := P y - {j})) y))" by (rule count)
    show "oi_reg_ready e \<longleftrightarrow> oi_num_reg_dependent e = 0" using d(9)[OF y s(1)] n nz by (simp add: e_def)
    have "{x \<in> set w. waiting ent x} = {x \<in> set w. waiting (ent(y := e)) x}" using n nz by (auto simp: waiting_def e_def)
    then show "set rl = {x \<in> set w. waiting (ent(y := e)) x}" using d(12) by simp
  qed (use s d(11) fin in \<open>simp_all add: e_def\<close>)
  show "deps_ok E (P(y := P y - {j})) w (ent(y := e\<lparr>oi_reg_ready := True, oi_scheduled := sc\<rparr>)) (if oi_is_memory e then rl else rl @ [y])"
    (is "deps_ok _ _ _ (ent(y := ?e)) ?rl") if z: "oi_num_reg_dependent e = 0" and sc: "sc \<noteq> 0"
  proof (rule deps_change[OF ok y])
    show "oi_num_reg_dependent ?e = int (card (links w ent y)) + int (card ((P(y := P y - {j})) y))" using count by simp
    have "{x \<in> set w. waiting (ent(y := ?e)) x} = {x \<in> set w. waiting ent x} \<union> (if oi_is_memory e then {} else {y})"
      using n z y s sc by (auto simp: waiting_def e_def)
    then show "set ?rl = {x \<in> set w. waiting (ent(y := ?e)) x}" using d(12) by simp
    show "distinct ?rl" using d(11) yrl by simp
  qed (use s fin z sc in \<open>simp_all add: e_def\<close>)
qed

end
