(* ===== verification/CoreWaits.thy ===== *)
theory CoreWaits
  imports CoreEvents
begin

text \<open>
  Scheduling: the search of \<^verbatim>\<open>reg_dependency\<close> through the older instructions, youngest first, finds for each source register the
  nearest incomplete instruction that writes it, and links the instruction to it. With this the invariant of the scheduling
  survives \<^verbatim>\<open>do_scheduling\<close>.
\<close>

section \<open>The nearest producer\<close>

lemma older_append: "older (xs @ ys) p c \<longleftrightarrow> older xs p c \<or> older ys p c \<or> (p \<in> set xs \<and> c \<in> set ys)"
  by (induction xs) auto

definition blocks :: "('b, 'p, 'm) core_env \<Rightarrow> (nat \<Rightarrow> ooo_model_instr) \<Rightarrow> u8 \<Rightarrow> nat \<Rightarrow> bool" where
  "blocks E ent r p \<longleftrightarrow> oi_executed (ent p) \<noteq> COMPLETED \<and> writes E (ent p) r"

definition nearest :: "('b, 'p, 'm) core_env \<Rightarrow> (nat \<Rightarrow> ooo_model_instr) \<Rightarrow> nat list \<Rightarrow> u8 \<Rightarrow> nat option" where
  "nearest E ent ps r = List.find (blocks E ent r) ps"

lemma nearest_Some: "nearest E ent ps r = Some p \<Longrightarrow> p \<in> set ps \<and> blocks E ent r p"
  by (auto simp: nearest_def find_Some_iff)

lemma nearest_snoc:
  "nearest E ent (ps @ [p]) r = (if nearest E ent ps r = None \<and> blocks E ent r p then Some p else nearest E ent ps r)"
  by (induction ps) (auto simp: nearest_def)

lemma find_rev_last:
  assumes "distinct w" "k < length w" "older w p (w ! k)" "P p"
    "\<And>q. older w p q \<Longrightarrow> older w q (w ! k) \<Longrightarrow> \<not> P q"
  shows "List.find P (rev (take k w)) = Some p"
proof -
  have p: "p \<in> set (take k w)" using assms(1,2,3) set_take_older by metis
  then obtain a b where ab: "take k w = a @ p # b" by (meson split_list)
  have "\<not> P q" if "q \<in> set b" for q
  proof (rule assms(5))
    have "q \<in> set (take k w)" using ab that by simp
    then show "older w q (w ! k)" using assms(1,2) set_take_older by metis
    have "older (take k w @ drop k w) p q" unfolding ab using that by (auto simp: older_append)
    then show "older w p q" by simp
  qed
  then have "List.find P (rev b) = None" by (simp add: find_None_iff)
  moreover have "List.find P (xs @ ys) = (case List.find P xs of None \<Rightarrow> List.find P ys | Some x \<Rightarrow> Some x)" for xs ys
    by (induction xs) auto
  ultimately show ?thesis using assms(4) by (simp add: ab)
qed

lemma nearest_last_writer:
  assumes "distinct w" "k < length w" "last_writer E w ent (w ! k) r p" "oi_executed (ent p) \<noteq> COMPLETED"
  shows "nearest E ent (rev (take k w)) r = Some p"
  unfolding nearest_def using assms
  by (intro find_rev_last) (auto simp: last_writer_def blocks_def)

section \<open>What the search changes\<close>

definition blank_sets :: "ooo_model_instr \<Rightarrow> ooo_model_instr" where
  "blank_sets e = e\<lparr>oi_registers_instrs_depend_on_me := new_fastset, oi_registers_index_depend_on_me := [], oi_reg_RAW_producer := False\<rparr>"

definition blank_wait :: "ooo_model_instr \<Rightarrow> ooo_model_instr" where
  "blank_wait e = e\<lparr>oi_reg_ready := False, oi_producer_id := 0, oi_num_reg_dependent := 0, oi_reg_RAW_checked := []\<rparr>"

definition grown :: "nat \<Rightarrow> nat set \<Rightarrow> ooo_model_instr \<Rightarrow> ooo_model_instr \<Rightarrow> bool" where
  "grown c J e e' \<longleftrightarrow> (J = {} \<longrightarrow> e' = e) \<and> blank_sets e' = blank_sets e \<and>
     (entry_ok e \<longrightarrow> entry_ok e' \<and> (\<forall>j<4. edeps e' j = edeps e j \<union> (if j \<in> J then {c} else {})) \<and>
        einstrs e' = einstrs e \<union> (if J = {} then {} else {c}) \<and> (oi_reg_RAW_producer e' \<longleftrightarrow> oi_reg_RAW_producer e \<or> J \<noteq> {}))"

definition waits_on :: "nat set \<Rightarrow> ooo_model_instr \<Rightarrow> ooo_model_instr \<Rightarrow> bool" where
  "waits_on J e e' \<longleftrightarrow> blank_wait e' = blank_wait e \<and> length (oi_reg_RAW_checked e') = 4 \<and>
     (\<forall>j<4. oi_reg_RAW_checked e' ! j \<longleftrightarrow> j \<in> J) \<and> oi_num_reg_dependent e' = int (card J) \<and> (oi_reg_ready e' \<longleftrightarrow> J = {})"

lemma blank_setsD:
  assumes "blank_sets e' = blank_sets e"
  shows "oi_source_registers e' = oi_source_registers e" "oi_destination_registers e' = oi_destination_registers e"
    "oi_executed e' = oi_executed e" "oi_scheduled e' = oi_scheduled e" "oi_num_reg_dependent e' = oi_num_reg_dependent e"
    "oi_reg_ready e' = oi_reg_ready e" "oi_reg_RAW_checked e' = oi_reg_RAW_checked e" "oi_is_memory e' = oi_is_memory e"
    "oi_instr_id e' = oi_instr_id e" "oi_ip e' = oi_ip e" "writes E e' = writes E e" "oi_event_cycle e' = oi_event_cycle e"
proof -
  have "oi_source_registers (blank_sets e) = oi_source_registers e \<and> oi_destination_registers (blank_sets e) = oi_destination_registers e \<and>
    oi_executed (blank_sets e) = oi_executed e \<and> oi_scheduled (blank_sets e) = oi_scheduled e \<and>
    oi_num_reg_dependent (blank_sets e) = oi_num_reg_dependent e \<and> oi_reg_ready (blank_sets e) = oi_reg_ready e \<and>
    oi_reg_RAW_checked (blank_sets e) = oi_reg_RAW_checked e \<and> oi_is_memory (blank_sets e) = oi_is_memory e \<and>
    oi_instr_id (blank_sets e) = oi_instr_id e \<and> oi_ip (blank_sets e) = oi_ip e \<and> writes E (blank_sets e) = writes E e \<and>
    oi_event_cycle (blank_sets e) = oi_event_cycle e" for e
    by (simp add: blank_sets_def writes_def dest_regs_def fun_eq_iff)
  from this[of e] this[of e'] assms
  show "oi_source_registers e' = oi_source_registers e" "oi_destination_registers e' = oi_destination_registers e"
    "oi_executed e' = oi_executed e" "oi_scheduled e' = oi_scheduled e" "oi_num_reg_dependent e' = oi_num_reg_dependent e"
    "oi_reg_ready e' = oi_reg_ready e" "oi_reg_RAW_checked e' = oi_reg_RAW_checked e" "oi_is_memory e' = oi_is_memory e"
    "oi_instr_id e' = oi_instr_id e" "oi_ip e' = oi_ip e" "writes E e' = writes E e" "oi_event_cycle e' = oi_event_cycle e"
    by metis+
qed

lemma blank_waitD:
  assumes "blank_wait e' = blank_wait e"
  shows "oi_source_registers e' = oi_source_registers e" "oi_destination_registers e' = oi_destination_registers e"
    "oi_executed e' = oi_executed e" "oi_scheduled e' = oi_scheduled e" "oi_is_memory e' = oi_is_memory e"
    "oi_instr_id e' = oi_instr_id e" "oi_ip e' = oi_ip e" "writes E e' = writes E e" "edeps e' = edeps e" "einstrs e' = einstrs e"
    "oi_reg_RAW_producer e' = oi_reg_RAW_producer e" "length (oi_reg_RAW_checked e') = 4 \<Longrightarrow> entry_ok e \<Longrightarrow> entry_ok e'"
proof -
  have "oi_source_registers (blank_wait e) = oi_source_registers e \<and> oi_destination_registers (blank_wait e) = oi_destination_registers e \<and>
    oi_executed (blank_wait e) = oi_executed e \<and> oi_scheduled (blank_wait e) = oi_scheduled e \<and>
    oi_is_memory (blank_wait e) = oi_is_memory e \<and> oi_instr_id (blank_wait e) = oi_instr_id e \<and> oi_ip (blank_wait e) = oi_ip e \<and>
    writes E (blank_wait e) = writes E e \<and> edeps (blank_wait e) = edeps e \<and> einstrs (blank_wait e) = einstrs e \<and>
    oi_reg_RAW_producer (blank_wait e) = oi_reg_RAW_producer e \<and>
    oi_registers_index_depend_on_me (blank_wait e) = oi_registers_index_depend_on_me e \<and>
    oi_registers_instrs_depend_on_me (blank_wait e) = oi_registers_instrs_depend_on_me e" for e
    by (simp add: blank_wait_def writes_def dest_regs_def fun_eq_iff edeps_def einstrs_def)
  note f = this[of e] this[of e']
  from f assms
  show "oi_source_registers e' = oi_source_registers e" "oi_destination_registers e' = oi_destination_registers e"
    "oi_executed e' = oi_executed e" "oi_scheduled e' = oi_scheduled e" "oi_is_memory e' = oi_is_memory e"
    "oi_instr_id e' = oi_instr_id e" "oi_ip e' = oi_ip e" "writes E e' = writes E e" "edeps e' = edeps e" "einstrs e' = einstrs e"
    "oi_reg_RAW_producer e' = oi_reg_RAW_producer e"
    by metis+
  show "length (oi_reg_RAW_checked e') = 4 \<Longrightarrow> entry_ok e \<Longrightarrow> entry_ok e'"
    unfolding entry_ok_def using f assms by metis
qed

lemma grown_refl: "grown c {} e e"
  by (simp add: grown_def)

lemma grown_insert:
  assumes g: "grown c J e e'" and e: "entry_ok e" and j: "j < 4" and c: "c < 512"
  shows "grown c (insert j J) e (e'\<lparr>oi_registers_instrs_depend_on_me := fs_insert (of_nat c) (oi_registers_instrs_depend_on_me e'),
    oi_registers_index_depend_on_me := (oi_registers_index_depend_on_me e')[j := fs_insert (of_nat c) (oi_registers_index_depend_on_me e' ! j)],
    oi_reg_RAW_producer := True\<rparr>)" (is "grown _ _ _ ?f")
proof -
  have e': "entry_ok e'" and d: "\<forall>j<4. edeps e' j = edeps e j \<union> (if j \<in> J then {c} else {})"
    and i: "einstrs e' = einstrs e \<union> (if J = {} then {} else {c})" and b: "blank_sets e' = blank_sets e"
    using g e by (auto simp: grown_def)
  have ok: "fs_ok (oi_registers_instrs_depend_on_me e')" "fs_ok (oi_registers_index_depend_on_me e' ! j)"
    "length (oi_registers_index_depend_on_me e') = 4" using e' j by (auto simp: entry_ok_def)
  note l1 = fs_insert_law[OF ok(1) word_of_nat_512(2)[OF c]] and l2 = fs_insert_law[OF ok(2) word_of_nat_512(2)[OF c]]
  have fok: "entry_ok ?f" using e' l1 l2 j by (auto simp: entry_ok_def nth_list_update)
  have "einstrs ?f = insert c (einstrs e')" using l1 c by (auto simp: einstrs_def of_nat_512_inj)
  moreover have "edeps ?f k = (if k = j then insert c (edeps e' k) else edeps e' k)" if "k < 4" for k
    using l2 c j that ok(3) by (auto simp: edeps_def nth_list_update of_nat_512_inj)
  moreover have "blank_sets ?f = blank_sets e'" by (simp add: blank_sets_def)
  ultimately show ?thesis using fok d i b by (auto simp: grown_def)
qed

lemma waits_on_insert:
  assumes w: "waits_on J e e'" and j: "j < 4" "j \<notin> J" and J: "finite J"
  shows "waits_on (insert j J) e (e'\<lparr>oi_reg_ready := False, oi_producer_id := u, oi_num_reg_dependent := oi_num_reg_dependent e' + 1,
    oi_reg_RAW_checked := (oi_reg_RAW_checked e')[j := True]\<rparr>)" (is "waits_on _ _ ?f")
proof -
  have "blank_wait ?f = blank_wait e'" by (simp add: blank_wait_def)
  with w j J show ?thesis by (auto simp: waits_on_def nth_list_update)
qed

section \<open>The search on the core\<close>

definition outside :: "('b, 'p, 'm) core \<Rightarrow> ('b, 'p, 'm) core" where
  "outside s = s\<lparr>ROB := (ROB s)\<lparr>co_entry := []\<rparr>\<rparr>"

lemma outside_upd_rob [simp]: "outside (upd_rob i f s) = outside s" "length (co_entry (ROB (upd_rob i f s))) = length (co_entry (ROB s))"
  "co_head (ROB (upd_rob i f s)) = co_head (ROB s)" "co_tail (ROB (upd_rob i f s)) = co_tail (ROB s)"
  "co_occupancy (ROB (upd_rob i f s)) = co_occupancy (ROB s)"
  by (simp_all add: outside_def upd_rob_def)

lemma rob_at_upd [simp]: "i < length (co_entry (ROB s)) \<Longrightarrow> rob_at k (upd_rob i f s) = (if k = i then f (rob_at i s) else rob_at k s)"
  by (auto simp: rob_at_def upd_rob_def)

definition found :: "(nat \<Rightarrow> nat option) \<Rightarrow> nat set" where
  "found L = {j. j < 4 \<and> L j \<noteq> None}"

definition links_to :: "(nat \<Rightarrow> nat option) \<Rightarrow> nat \<Rightarrow> nat set" where
  "links_to L p = {j. j < 4 \<and> L j = Some p}"

lemma finite_found [simp]: "finite (found L)"
  by (simp add: found_def)

definition linked :: "nat \<Rightarrow> ('b, 'p, 'm) core \<Rightarrow> (nat \<Rightarrow> nat option) \<Rightarrow> ('b, 'p, 'm) core \<Rightarrow> bool" where
  "linked c s0 L s \<longleftrightarrow> outside s = outside s0 \<and> length (co_entry (ROB s)) = length (co_entry (ROB s0)) \<and>
     (\<forall>p. p \<noteq> c \<longrightarrow> grown c (links_to L p) (rob_at p s0) (rob_at p s)) \<and> waits_on (found L) (rob_at c s0) (rob_at c s)"

lemma writes_iff: "(\<exists>r\<in>set (dest_regs E e). r \<noteq> 0 \<and> r = x) \<longleftrightarrow> writes E e x"
  by (auto simp: writes_def)

lemma linked_check_source:
  assumes l: "linked c s0 L s" and c: "c < length (co_entry (ROB s0))" "c < 512" and p: "p < length (co_entry (ROB s0))" "p \<noteq> c"
    and e: "entry_ok (rob_at p s0)" and j: "j < 4"
  shows "linked c s0 (L(j := if L j = None \<and> writes E (rob_at p s0) (oi_source_registers (rob_at c s0) ! j) then Some p else L j))
           (check_source E p c j s)"
proof -
  have g: "grown c (links_to L p) (rob_at p s0) (rob_at p s)" and w: "waits_on (found L) (rob_at c s0) (rob_at c s)"
    and len: "length (co_entry (ROB s)) = length (co_entry (ROB s0))" using l p by (auto simp: linked_def)
  note gb = blank_setsD[of "rob_at p s" "rob_at p s0"] and wb = blank_waitD[of "rob_at c s" "rob_at c s0"]
  have src: "oi_source_registers (rob_at c s) = oi_source_registers (rob_at c s0)"
    and chk: "oi_reg_RAW_checked (rob_at c s) ! j \<longleftrightarrow> L j \<noteq> None"
    using w wb(1) j by (auto simp: waits_on_def found_def)
  have wr: "writes E (rob_at p s) = writes E (rob_at p s0)" using g gb(11) by (simp add: grown_def)
  show ?thesis
  proof (cases "L j = None \<and> writes E (rob_at p s0) (oi_source_registers (rob_at c s0) ! j)")
    case False
    then have "check_source E p c j s = s"
      by (auto simp: check_source_def Let_def chk src reg_RAW_dependency_def writes_iff wr)
    moreover have "L(j := if L j = None \<and> writes E (rob_at p s0) (oi_source_registers (rob_at c s0) ! j) then Some p else L j) = L"
      using False by auto
    ultimately show ?thesis using l by simp
  next
    case True
    then have r: "oi_source_registers (rob_at c s0) ! j \<noteq> 0" by (auto simp: writes_def)
    let ?s = "check_source E p c j s" and ?L = "L(j := Some p)"
    have s: "?s = upd_rob c (\<lambda>e. e\<lparr>oi_reg_ready := False, oi_producer_id := oi_instr_id (rob_at p s),
               oi_num_reg_dependent := oi_num_reg_dependent e + 1, oi_reg_RAW_checked := (oi_reg_RAW_checked e)[j := True]\<rparr>)
             (upd_rob p (\<lambda>e. e\<lparr>oi_registers_instrs_depend_on_me := fs_insert (of_nat c) (oi_registers_instrs_depend_on_me e),
                oi_registers_index_depend_on_me := (oi_registers_index_depend_on_me e)
                  [j := fs_insert (of_nat c) (oi_registers_index_depend_on_me e ! j)],
                oi_reg_RAW_producer := True\<rparr>) s)"
      using True r by (simp add: check_source_def Let_def reg_RAW_dependency_def writes_iff chk src wr)
    have f: "found ?L = insert j (found L)" "j \<notin> found L" using j True by (auto simp: found_def)
    have t: "links_to ?L q = (if q = p then insert j (links_to L p) else links_to L q)" for q
      using True j by (auto simp: links_to_def)
    have "waits_on (found ?L) (rob_at c s0) (rob_at c ?s)"
      using waits_on_insert[OF w j f(2)] c p len by (simp add: s f(1))
    moreover have "grown c (links_to ?L q) (rob_at q s0) (rob_at q ?s)" if "q \<noteq> c" for q
    proof (cases "q = p")
      case q: True
      with grown_insert[OF g e j c(2)] that c p len t show ?thesis by (simp add: s)
    next
      case q: False
      with l that c p len t show ?thesis by (simp add: s linked_def)
    qed
    moreover have "outside ?s = outside s0" "length (co_entry (ROB ?s)) = length (co_entry (ROB s0))"
      using l by (simp_all add: s linked_def)
    ultimately show ?thesis using True by (simp add: linked_def)
  qed
qed

definition with_prior :: "('b, 'p, 'm) core_env \<Rightarrow> nat \<Rightarrow> ('b, 'p, 'm) core \<Rightarrow> nat \<Rightarrow> (nat \<Rightarrow> nat option) \<Rightarrow> nat \<Rightarrow> nat option" where
  "with_prior E c s0 p L j =
     (if j < 4 \<and> L j = None \<and> blocks E (\<lambda>i. rob_at i s0) (oi_source_registers (rob_at c s0) ! j) p then Some p else L j)"

lemma linked_check_prior:
  assumes l: "linked c s0 L s" and c: "c < length (co_entry (ROB s0))" "c < 512" and p: "p < length (co_entry (ROB s0))" "p \<noteq> c"
    and e: "entry_ok (rob_at p s0)"
  shows "linked c s0 (with_prior E c s0 p L) (check_prior E c p s)"
proof -
  have x: "oi_executed (rob_at p s) = oi_executed (rob_at p s0)"
    using l p(2) blank_setsD(3)[of "rob_at p s" "rob_at p s0"] by (simp add: linked_def grown_def)
  show ?thesis
  proof (cases "oi_executed (rob_at p s0) = COMPLETED")
    case True
    then have "with_prior E c s0 p L = L" by (simp add: with_prior_def blocks_def fun_eq_iff)
    with True l x show ?thesis by (simp add: check_prior_def)
  next
    case False
    let ?up = "\<lambda>j L. L(j := if L j = None \<and> writes E (rob_at p s0) (oi_source_registers (rob_at c s0) ! j) then Some p else L j)"
    note step = linked_check_source[OF _ c p e]
    have "linked c s0 (?up 3 (?up 2 (?up 1 (?up 0 L))))
       (check_source E p c 3 (check_source E p c 2 (check_source E p c 1 (check_source E p c 0 s))))"
      by (rule step, rule step, rule step, rule step, rule l) simp_all
    moreover have "?up 3 (?up 2 (?up 1 (?up 0 L))) = with_prior E c s0 p L"
    proof
      fix j :: nat
      consider "j = 0" | "j = 1" | "j = 2" | "j = 3" | "j \<ge> 4" by linarith
      then show "?up 3 (?up 2 (?up 1 (?up 0 L))) j = with_prior E c s0 p L j"
        using False by cases (simp_all add: with_prior_def blocks_def)
    qed
    moreover have "[0..<NUM_INSTR_SOURCES] = [0, 1, 2, 3]" by (simp add: NUM_INSTR_SOURCES_def upt_rec)
    ultimately show ?thesis using False x by (simp add: check_prior_def)
  qed
qed

definition producers :: "('b, 'p, 'm) core_env \<Rightarrow> nat \<Rightarrow> ('b, 'p, 'm) core \<Rightarrow> nat list \<Rightarrow> nat \<Rightarrow> nat option" where
  "producers E c s0 ps j = (if j < 4 then nearest E (\<lambda>i. rob_at i s0) ps (oi_source_registers (rob_at c s0) ! j) else None)"

lemma linked_search:
  assumes c: "c < length (co_entry (ROB s0))" "c < 512" "c \<notin> set ps"
    and ps: "\<forall>p\<in>set ps. p < length (co_entry (ROB s0)) \<and> entry_ok (rob_at p s0)" and l: "linked c s0 (\<lambda>_. None) s"
  shows "linked c s0 (producers E c s0 ps) (foldl (\<lambda>s i. check_prior E c i s) s ps)"
  using c(3) ps
proof (induction ps rule: rev_induct)
  case Nil
  have "producers E c s0 [] = (\<lambda>_. None)" by (simp add: producers_def nearest_def fun_eq_iff)
  with l show ?case by simp
next
  case (snoc p ps)
  have "linked c s0 (with_prior E c s0 p (producers E c s0 ps)) (check_prior E c p (foldl (\<lambda>s i. check_prior E c i s) s ps))"
    using snoc c(1,2) by (intro linked_check_prior) auto
  moreover have "with_prior E c s0 p (producers E c s0 ps) = producers E c s0 (ps @ [p])"
    by (auto simp: with_prior_def producers_def nearest_snoc fun_eq_iff)
  ultimately show ?case by simp
qed

section \<open>The invariant\<close>

lemma deps_schedule:
  fixes E :: "('b, 'p, 'm) core_env"
  assumes ok: "deps_ok E nobody w ent rl" and k: "k < length w" "w ! k = c" and s: "oi_scheduled (ent c) = 0"
    and L: "\<And>j. j < 4 \<Longrightarrow> L j = nearest E ent (rev (take k w)) (oi_source_registers (ent c) ! j)"
    and g: "\<And>p. p \<in> set w \<Longrightarrow> p \<noteq> c \<Longrightarrow> grown c (links_to L p) (ent p) (ent' p)"
    and wt: "waits_on (found L) (ent c) e" and c': "sched_part (ent' c) = sched_part (e\<lparr>oi_scheduled := sc\<rparr>)" and sc: "sc \<noteq> 0"
  shows "deps_ok E nobody w ent' (if \<not> oi_is_memory (ent c) \<and> found L = {} then rl @ [c] else rl)" (is "deps_ok E nobody w ent' ?rl")
proof -
  note d = deps_okD[OF ok]
  have c: "c \<in> set w" using k by auto
  have x0: "oi_executed (ent c) = 0" using d(8)[OF c s] by simp
  note wb = blank_waitD[of e "ent c"]
  have bw: "blank_wait e = blank_wait (ent c)" "length (oi_reg_RAW_checked e) = 4" using wt by (simp_all add: waits_on_def)
  note sp = sched_partD[OF c']
  have ec: "edeps (ent' c) = edeps (ent c)" "einstrs (ent' c) = einstrs (ent c)" "entry_ok (ent' c)" "oi_scheduled (ent' c) \<noteq> 0"
    "oi_executed (ent' c) = 0" "oi_is_memory (ent' c) = oi_is_memory (ent c)" "oi_source_registers (ent' c) = oi_source_registers (ent c)"
    "oi_num_reg_dependent (ent' c) = int (card (found L))" "oi_reg_ready (ent' c) \<longleftrightarrow> found L = {}"
    "oi_reg_RAW_producer (ent' c) = oi_reg_RAW_producer (ent c)" "writes E (ent' c) = writes E (ent c)"
    using sp(3-12,14) sp(13)[where E = E] wb(1-7,9-12)[OF bw(1)] wb(8)[OF bw(1), where E = E] bw d(3)[OF c] wt sc x0
    by (auto simp: waits_on_def)
  have gr: "blank_sets (ent' p) = blank_sets (ent p)" "entry_ok (ent' p)"
    "\<And>j. j < 4 \<Longrightarrow> edeps (ent' p) j = edeps (ent p) j \<union> (if j \<in> links_to L p then {c} else {})"
    "einstrs (ent' p) = einstrs (ent p) \<union> (if links_to L p = {} then {} else {c})"
    "oi_reg_RAW_producer (ent' p) \<longleftrightarrow> oi_reg_RAW_producer (ent p) \<or> links_to L p \<noteq> {}" if "p \<in> set w" "p \<noteq> c" for p
    using g[OF that] d(3)[OF that(1)] by (auto simp: grown_def)
  note gb = blank_setsD[OF gr(1)]
  have pr: "p \<in> set (take k w) \<and> oi_executed (ent p) \<noteq> COMPLETED" if "j < 4" "L j = Some p" for j p
    using nearest_Some[of E ent "rev (take k w)" "oi_source_registers (ent c) ! j" p] L that by (auto simp: blocks_def)
  have po: "older w p c" "p \<in> set w" "p \<noteq> c" if "j < 4" "L j = Some p" for j p
  proof -
    show o: "older w p c" using pr[OF that] set_take_older[OF d(1) k(1)] k(2) by simp
    show "p \<in> set w" using older_mem[OF o] by simp
    show "p \<noteq> c" using o older_irrefl[OF d(1), of c] by auto
  qed
  have nc: "c \<notin> edeps (ent p) j" if "p \<in> set w" "j < 4" for p j using d(5)[OF that] s by auto
  have cases: "\<And>x. x \<in> set w \<Longrightarrow> x = c \<or> x \<noteq> c" by blast
  have ex: "oi_executed (ent' p) = oi_executed (ent p)" if "p \<in> set w" for p using gb(3)[OF that] ec x0 by (cases "p = c") auto
  have wr: "writes E (ent' p) = writes E (ent p)" if "p \<in> set w" for p using gb(11)[OF that] ec by (cases "p = c") auto
  have sup: "edeps (ent p) j \<subseteq> edeps (ent' p) j" if "p \<in> set w" "j < 4" for p j
    using gr(3)[OF that(1) _ that(2)] ec(1) by (cases "p = c") auto
  have lx: "links w ent' x = links w ent x" if "x \<noteq> c" for x
  proof (rule set_eqI, clarify)
    fix p j
    show "(p, j) \<in> links w ent' x \<longleftrightarrow> (p, j) \<in> links w ent x"
      using ex[of p] gr(3)[of p j] ec(1) that by (cases "p = c"; cases "p \<in> set w"; cases "j < 4") (simp_all add: links_def)
  qed
  have lc: "links w ent' c = (\<lambda>j. (the (L j), j)) ` found L"
  proof (rule set_eqI, clarify)
    fix p j
    show "(p, j) \<in> links w ent' c \<longleftrightarrow> (p, j) \<in> (\<lambda>j. (the (L j), j)) ` found L"
      using ex[of p] gr(3)[of p j] ec(1) nc[of p j] po[of j p] pr[of j p]
      by (cases "p = c") (auto simp: links_def links_to_def found_def image_iff split: if_splits)
  qed
  have "inj_on (\<lambda>j. (the (L j), j)) (found L)" by (simp add: inj_on_def)
  then have card: "card (links w ent' c) = card (found L)" by (simp add: lc card_image)
  have lw: "last_writer E w ent' x r p \<longleftrightarrow> last_writer E w ent x r p" for x r p
    by (rule last_writer_cong) (rule wr)
  show ?thesis
  proof (rule deps_okI)
    fix x assume x: "x \<in> set w"
    show "entry_ok (ent' x)" using ec(3) gr(2)[OF x] by (cases "x = c") auto
    show "oi_num_reg_dependent (ent' x) = int (card (links w ent' x)) + int (card (nobody x))"
      using d(7)[OF x] gb(5)[OF x] ec(8) card lx[of x] by (cases "x = c") auto
    show "oi_scheduled (ent' x) = 0 \<Longrightarrow> oi_executed (ent' x) = 0 \<and> oi_num_reg_dependent (ent' x) = 0 \<and> (\<forall>j<4. \<not> oi_reg_RAW_checked (ent' x) ! j)"
      using d(8)[OF x] gb(3,4,5,7)[OF x] ec(4) by (cases "x = c") auto
    show "oi_scheduled (ent' x) \<noteq> 0 \<Longrightarrow> oi_reg_ready (ent' x) \<longleftrightarrow> oi_num_reg_dependent (ent' x) = 0"
      using d(9)[OF x] gb(4,5,6)[OF x] ec(8,9) by (cases "x = c") auto
    show "oi_executed (ent' x) \<noteq> 0 \<Longrightarrow> oi_num_reg_dependent (ent' x) = 0"
      using d(10)[OF x] gb(3,5)[OF x] ec(5) by (cases "x = c") auto
    show "einstrs (ent' x) = (\<Union>j<4. edeps (ent' x) j)"
      using d(4)[OF x] gr(3,4)[OF x] ec(1,2) by (cases "x = c") (auto simp: links_to_def split: if_splits)
  next
    fix p j x assume a: "p \<in> set w" "j < 4" "x \<in> edeps (ent' p) j"
    show "older w p x \<and> oi_scheduled (ent' x) \<noteq> 0 \<and> oi_reg_RAW_producer (ent' p)"
    proof (cases "x \<in> edeps (ent p) j")
      case True
      with d(5)[OF a(1,2)] have o: "older w p x" "oi_scheduled (ent x) \<noteq> 0" "oi_reg_RAW_producer (ent p)" by auto
      then have "x \<in> set w" "x \<noteq> c" using s by (auto dest: older_mem)
      with o gb(4)[of x] gr(5)[OF a(1)] ec(10) show ?thesis by (cases "p = c") auto
    next
      case False
      then have p: "p \<noteq> c" using a ec(1) by auto
      with a False gr(3)[OF a(1) p a(2)] have "x = c" "L j = Some p" by (auto simp: links_to_def split: if_splits)
      with po[OF a(2)] gr(5)[OF a(1) p] ec(4) a(2) show ?thesis by (auto simp: links_to_def)
    qed
  next
    fix x j p assume a: "x \<in> set w" "oi_scheduled (ent' x) \<noteq> 0" "j < 4" "last_writer E w ent' x (oi_source_registers (ent' x) ! j) p"
    have p: "p \<in> set w" using a(4) last_writer_mem by blast
    show "oi_executed (ent' p) = COMPLETED \<or> x \<in> edeps (ent' p) j"
    proof (cases "x = c")
      case False
      with a gb(1,4)[OF a(1)] have "oi_executed (ent p) = COMPLETED \<or> x \<in> edeps (ent p) j"
        by (intro d(13)[OF a(1)]) (auto simp: lw)
      with sup[OF p a(3)] ex[OF p] show ?thesis by auto
    next
      case True
      have l: "last_writer E w ent (w ! k) (oi_source_registers (ent c) ! j) p" using a(4) True k ec(7) by (simp add: lw)
      show ?thesis
      proof (cases "oi_executed (ent p) = COMPLETED")
        case False
        from nearest_last_writer[OF d(1) k(1) l False] L[OF a(3)] have "L j = Some p" by simp
        with gr(3)[OF p _ a(3)] po(3)[OF a(3)] a(3) True show ?thesis by (simp add: links_to_def)
      qed (use ex[OF p] in simp)
    qed
  next
    have cw: "\<not> waiting ent c" using s by (simp add: waiting_def)
    have "waiting ent' x \<longleftrightarrow> waiting ent x" if "x \<in> set w" "x \<noteq> c" for x
      using gb(3,4,5,8)[OF that] by (simp add: waiting_def)
    moreover have "waiting ent' c \<longleftrightarrow> \<not> oi_is_memory (ent c) \<and> found L = {}"
      using ec by (auto simp: waiting_def)
    ultimately have "{x \<in> set w. waiting ent' x} = {x \<in> set w. waiting ent x} \<union> (if \<not> oi_is_memory (ent c) \<and> found L = {} then {c} else {})"
      using c cw by (auto split: if_splits)
    then show "set ?rl = {x \<in> set w. waiting ent' x}" using d(12) by simp
    show "distinct ?rl" using d(11,12) cw by auto
  qed (use d in simp_all)
qed

end
