(* ===== verification/CoreInvariant.thy ===== *)
theory CoreInvariant
  imports CoreWaits
begin

text \<open>
  The invariant of the core. \<open>sched_inv\<close>: the reorder buffer is a ring, the ready queue holds a list of slots, and the register
  scheduling is exact (\<open>deps_ok\<close>). \<open>order_inv\<close>: the instructions in the reorder buffer, the dispatch, decode and fetch buffers are,
  in this order, the consecutive instructions of the trace that are read and not retired. Each stage keeps both.
\<close>

section \<open>The two halves\<close>

definition sched_inv :: "('b, 'p, 'm) core_env \<Rightarrow> ('b, 'p, 'm) core \<Rightarrow> bool" where
  "sched_inv E s \<longleftrightarrow> co_ok (ROB s) \<and> length (co_entry (ROB s)) = ROB_SIZE E \<and> ROB_SIZE E \<le> 512 \<and>
     length (rg_slots (ready_to_execute s)) = ROB_SIZE E \<and>
     (\<exists>rl. ring_ok (ROB_SIZE E) (ready_to_execute s) rl \<and> deps_ok E nobody (ring_indices (ROB s)) (\<lambda>i. rob_at i s) rl)"

definition window :: "('b, 'p, 'm) core \<Rightarrow> ooo_model_instr list" where
  "window s = map (\<lambda>i. rob_at i s) (ring_indices (ROB s))"

definition front_instrs :: "('b, 'p, 'm) core \<Rightarrow> ooo_model_instr list" where
  "front_instrs s = dq_view (DISPATCH_BUFFER s) @ dq_view (DECODE_BUFFER s) @ cb_view (IFETCH_BUFFER s)"

definition pipeline :: "('b, 'p, 'm) core \<Rightarrow> ooo_model_instr list" where
  "pipeline s = window s @ front_instrs s"

definition order_inv :: "nat \<Rightarrow> ('b, 'p, 'm) core \<Rightarrow> bool" where
  "order_inv n s \<longleftrightarrow> dq_safe n (DISPATCH_BUFFER s) \<and> dq_safe n (DECODE_BUFFER s) \<and> cb_inv n (IFETCH_BUFFER s) \<and>
     (\<forall>e\<in>set (front_instrs s). fresh_instr e) \<and>
     (\<forall>i<length (co_entry (ROB s)). i \<notin> set (ring_indices (ROB s)) \<longrightarrow> oi_ip (rob_at i s) = 0) \<and>
     unat (instr_unique_id s) + n < 2 ^ 64 \<and> unat (num_retired s) + length (pipeline s) = unat (instr_unique_id s) \<and>
     map oi_instr_id (pipeline s) = map of_nat [unat (num_retired s)..<unat (instr_unique_id s)]"

lemma sched_invE:
  assumes "sched_inv E s"
  obtains rl where "co_ok (ROB s)" "length (co_entry (ROB s)) = ROB_SIZE E" "ROB_SIZE E \<le> 512"
    "length (rg_slots (ready_to_execute s)) = ROB_SIZE E" "ring_ok (ROB_SIZE E) (ready_to_execute s) rl"
    "deps_ok E nobody (ring_indices (ROB s)) (\<lambda>i. rob_at i s) rl"
  using assms unfolding sched_inv_def by blast

section \<open>Steps that keep the order\<close>

definition order_part where
  "order_part s = (length (co_entry (ROB s)), co_head (ROB s), co_tail (ROB s), co_occupancy (ROB s), DISPATCH_BUFFER s, DECODE_BUFFER s,
     cb_skel (IFETCH_BUFFER s), num_retired s, instr_unique_id s, instrs_to_read_this_cycle s)"

definition same_order :: "('b, 'p, 'm) core \<Rightarrow> ('b, 'p, 'm) core \<Rightarrow> bool" where
  "same_order s s' \<longleftrightarrow> order_part s' = order_part s \<and>
     (\<forall>i<length (co_entry (ROB s)). oi_instr_id (rob_at i s') = oi_instr_id (rob_at i s) \<and> oi_ip (rob_at i s') = oi_ip (rob_at i s))"

lemma same_order_refl [simp]: "same_order s s"
  by (simp add: same_order_def)

lemma same_order_trans: "same_order s t \<Longrightarrow> same_order t u \<Longrightarrow> same_order s u"
  by (auto simp: same_order_def order_part_def)

lemma ring_indices_cong:
  "length (co_entry b') = length (co_entry b) \<Longrightarrow> co_head b' = co_head b \<Longrightarrow> co_occupancy b' = co_occupancy b \<Longrightarrow> ring_indices b' = ring_indices b"
  by (simp add: ring_indices_def)

lemma prior_indices_cong:
  "length (co_entry b') = length (co_entry b) \<Longrightarrow> co_head b' = co_head b \<Longrightarrow> prior_indices i b' = prior_indices i b"
  by (simp only: prior_indices_def)

lemma same_orderD:
  assumes "same_order s s'"
  shows "ring_indices (ROB s') = ring_indices (ROB s)" "length (co_entry (ROB s')) = length (co_entry (ROB s))"
    "co_head (ROB s') = co_head (ROB s)" "co_tail (ROB s') = co_tail (ROB s)" "co_occupancy (ROB s') = co_occupancy (ROB s)"
    "DISPATCH_BUFFER s' = DISPATCH_BUFFER s" "DECODE_BUFFER s' = DECODE_BUFFER s"
    "cb_head (IFETCH_BUFFER s') = cb_head (IFETCH_BUFFER s)" "cb_tail (IFETCH_BUFFER s') = cb_tail (IFETCH_BUFFER s)"
    "map sched_part (cb_entry (IFETCH_BUFFER s')) = map sched_part (cb_entry (IFETCH_BUFFER s))"
    "num_retired s' = num_retired s" "instr_unique_id s' = instr_unique_id s"
    "instrs_to_read_this_cycle s' = instrs_to_read_this_cycle s" "co_ok (ROB s) \<Longrightarrow> co_ok (ROB s')"
  using assms by (auto simp: same_order_def order_part_def co_ok_def intro: ring_indices_cong)

lemma cb_view_skel:
  assumes "cb_head b' = cb_head b" "cb_tail b' = cb_tail b" "map sched_part (cb_entry b') = map sched_part (cb_entry b)"
  shows "map sched_part (cb_view b') = map sched_part (cb_view b)" "cb_size b' = cb_size b"
    "cb_inv n b' \<longleftrightarrow> cb_inv n b"
proof -
  have len: "length (cb_entry b') = length (cb_entry b)" using map_eq_imp_length_eq[OF assms(3)] .
  then show c: "cb_size b' = cb_size b" by (simp add: cb_size_def)
  then show "cb_inv n b' \<longleftrightarrow> cb_inv n b" using assms by (simp add: cb_inv_def)
  show "map sched_part (cb_view b') = map sched_part (cb_view b)"
  proof (cases "cb_entry b = []")
    case True
    with len have "cb_entry b' = cb_entry b" by simp
    then show ?thesis by (simp add: cb_view_def assms)
  next
    case False
    then have "sched_part (cb_entry b' ! (i mod length (cb_entry b))) = sched_part (cb_entry b ! (i mod length (cb_entry b)))" for i
      using assms(3) len by (metis length_greater_0_conv mod_less_divisor nth_map)
    then show ?thesis by (simp add: cb_view_def assms len)
  qed
qed

lemma sched_part_list:
  assumes "map sched_part xs = map sched_part ys"
  shows "map oi_instr_id xs = map oi_instr_id ys" "(\<forall>e\<in>set xs. fresh_instr e) \<longleftrightarrow> (\<forall>e\<in>set ys. fresh_instr e)"
proof -
  have len: "length xs = length ys" using map_eq_imp_length_eq[OF assms] .
  have s: "sched_part (xs ! i) = sched_part (ys ! i)" if "i < length ys" for i
    using assms that len by (metis nth_map)
  show "map oi_instr_id xs = map oi_instr_id ys" using len sched_partD(1)[OF s] by (simp add: list_eq_iff_nth_eq)
  show "(\<forall>e\<in>set xs. fresh_instr e) \<longleftrightarrow> (\<forall>e\<in>set ys. fresh_instr e)"
    using len sched_partD(15)[OF s] by (simp add: all_set_conv_all_nth)
qed

lemma order_inv_same:
  assumes ok: "order_inv n s" and same: "same_order s s'" and c: "co_ok (ROB s)"
  shows "order_inv n s'"
proof -
  note d = same_orderD[OF same]
  note v = cb_view_skel[OF d(8,9,10)]
  have "map oi_instr_id (window s') = map oi_instr_id (window s)"
    using same ring_indices_bound[OF c] by (auto simp: window_def d(1) same_order_def)
  moreover have "map oi_instr_id (cb_view (IFETCH_BUFFER s')) = map oi_instr_id (cb_view (IFETCH_BUFFER s))"
    by (rule sched_part_list(1)[OF v(1)])
  ultimately have p: "map oi_instr_id (pipeline s') = map oi_instr_id (pipeline s)"
    by (simp add: pipeline_def front_instrs_def d(6,7))
  then have len: "length (pipeline s') = length (pipeline s)" using map_eq_imp_length_eq by blast
  have "\<forall>e\<in>set (front_instrs s'). fresh_instr e"
    using ok sched_part_list(2)[OF v(1)] by (auto simp: order_inv_def front_instrs_def d(6,7))
  with ok same p len v(3)[of n] show ?thesis by (simp add: order_inv_def d same_order_def)
qed

lemma same_order_skel:
  assumes "skel s' = skel s"
  shows "same_order s s'"
proof -
  note d = skelD[OF assms]
  have "sched_part (rob_at i s') = sched_part (rob_at i s)" if "i < length (co_entry (ROB s))" for i
    using d(1,10) that by (metis nth_map rob_at_def)
  from sched_partD(1,2)[OF this] show ?thesis using d by (simp add: same_order_def order_part_def)
qed

lemma sched_inv_skel:
  assumes ok: "sched_inv E s" and sk: "skel s' = skel s"
  shows "sched_inv E s'"
proof -
  note d = skelD[OF sk] and o = same_orderD[OF same_order_skel[OF sk]]
  obtain rl where rl: "co_ok (ROB s)" "length (co_entry (ROB s)) = ROB_SIZE E" "ROB_SIZE E \<le> 512"
    "length (rg_slots (ready_to_execute s)) = ROB_SIZE E" "ring_ok (ROB_SIZE E) (ready_to_execute s) rl"
    "deps_ok E nobody (ring_indices (ROB s)) (\<lambda>i. rob_at i s) rl" using ok by (rule sched_invE)
  have "sched_part (rob_at i s') = sched_part (rob_at i s)" if "i \<in> set (ring_indices (ROB s))" for i
    using ring_indices_bound[OF rl(1) that] d(1,10) by (metis nth_map rob_at_def)
  from deps_ok_cong[OF rl(6), of "\<lambda>i. rob_at i s'", OF this] rl o(14)[OF rl(1)] show ?thesis
    by (auto simp: sched_inv_def d o(1))
qed

section \<open>Adding to the ready queue\<close>

lemma add_ready_law:
  assumes r: "ring_ok (ROB_SIZE E) (ready_to_execute s) rl" "length (rg_slots (ready_to_execute s)) = ROB_SIZE E"
    and w: "distinct (rl @ [c])" "set (rl @ [c]) \<subseteq> {..<ROB_SIZE E}"
  shows "add_ready c s = Some (s\<lparr>ready_to_execute := ring_put c (ready_to_execute s)\<rparr>)"
    "ring_ok (ROB_SIZE E) (ring_put c (ready_to_execute s)) (rl @ [c])"
    "length (rg_slots (ring_put c (ready_to_execute s))) = ROB_SIZE E"
proof -
  have "card (set (rl @ [c])) \<le> card {..<ROB_SIZE E}" using w(2) by (intro card_mono) auto
  then have len: "length rl < length (rg_slots (ready_to_execute s))" using distinct_card[OF w(1)] r(2) by simp
  from ring_ok_tail[OF r(1)] len r(2)
  show "add_ready c s = Some (s\<lparr>ready_to_execute := ring_put c (ready_to_execute s)\<rparr>)" by (simp add: add_ready_def Let_def)
  show "ring_ok (ROB_SIZE E) (ring_put c (ready_to_execute s)) (rl @ [c])"
    using ring_ok_put[OF r(1) len] w(2) by auto
  show "length (rg_slots (ring_put c (ready_to_execute s))) = ROB_SIZE E" using r(2) by (simp add: ring_put_def)
qed

lemma rob_at_more [simp]:
  "rob_at i (s\<lparr>ready_to_execute := r\<rparr>) = rob_at i s" "rob_at i (s\<lparr>num_searched := k\<rparr>) = rob_at i s"
  "rob_at i (s\<lparr>completed_executions := u\<rparr>) = rob_at i s" "rob_at i (s\<lparr>inflight_reg_executions := v\<rparr>) = rob_at i s"
  "rob_at i (s\<lparr>inflight_mem_executions := v\<rparr>) = rob_at i s" "rob_at i (s\<lparr>fetch_resume_cycle := u\<rparr>) = rob_at i s"
  "rob_at i (s\<lparr>l1i_pf := p\<rparr>) = rob_at i s"
  by (simp_all add: rob_at_def)

lemma outsideD:
  fixes s s' :: "('b, 'p, 'm) core"
  assumes "outside s' = outside s"
  shows "ready_to_execute s' = ready_to_execute s" "co_head (ROB s') = co_head (ROB s)" "co_tail (ROB s') = co_tail (ROB s)"
    "co_occupancy (ROB s') = co_occupancy (ROB s)" "length (co_entry (ROB s')) = length (co_entry (ROB s)) \<Longrightarrow> order_part s' = order_part s"
proof -
  have "ready_to_execute (outside s) = ready_to_execute s \<and> co_head (ROB (outside s)) = co_head (ROB s) \<and> co_tail (ROB (outside s)) = co_tail (ROB s) \<and>
    co_occupancy (ROB (outside s)) = co_occupancy (ROB s) \<and> DISPATCH_BUFFER (outside s) = DISPATCH_BUFFER s \<and>
    DECODE_BUFFER (outside s) = DECODE_BUFFER s \<and> IFETCH_BUFFER (outside s) = IFETCH_BUFFER s \<and> num_retired (outside s) = num_retired s \<and>
    instr_unique_id (outside s) = instr_unique_id s \<and> instrs_to_read_this_cycle (outside s) = instrs_to_read_this_cycle s" for s :: "('b, 'p, 'm) core"
    by (simp add: outside_def)
  from this[of s] this[of s'] assms
  show "ready_to_execute s' = ready_to_execute s" "co_head (ROB s') = co_head (ROB s)" "co_tail (ROB s') = co_tail (ROB s)"
    "co_occupancy (ROB s') = co_occupancy (ROB s)" "length (co_entry (ROB s')) = length (co_entry (ROB s)) \<Longrightarrow> order_part s' = order_part s"
    unfolding order_part_def by metis+
qed

end
