(* ===== verification/CoreStages.thy ===== *)
theory CoreStages
  imports CoreInvariant
begin

text \<open>
  The stages of the core between dispatch and retirement keep the invariant and the order of the pipeline, and none of their
  assertions fails: scheduling, execution, completion with the release of the waiting instructions.
\<close>

definition safe_step :: "('b, 'p, 'm) core_env \<Rightarrow> (('b, 'p, 'm) core \<Rightarrow> ('b, 'p, 'm) core option) \<Rightarrow> ('b, 'p, 'm) core \<Rightarrow> bool" where
  "safe_step E f s \<longleftrightarrow> (\<exists>s'. f s = Some s' \<and> sched_inv E s' \<and> same_order s s')"

lemma safe_stepI: "f s = Some s' \<Longrightarrow> sched_inv E s' \<Longrightarrow> same_order s s' \<Longrightarrow> safe_step E f s"
  by (auto simp: safe_step_def)

lemma safe_step_Some [simp]: "sched_inv E s \<Longrightarrow> safe_step E Some s"
  by (simp add: safe_step_def)

lemma same_order_frame:
  fixes s s' :: "('b, 'p, 'm) core"
  assumes "order_part s' = order_part s" "\<And>i. oi_instr_id (rob_at i s') = oi_instr_id (rob_at i s)" "\<And>i. oi_ip (rob_at i s') = oi_ip (rob_at i s)"
  shows "same_order s s'"
  using assms by (simp add: same_order_def)

lemma sched_invI:
  fixes s s' :: "('b, 'p, 'm) core"
  assumes ok: "sched_inv E s" and o: "order_part s' = order_part s"
    and r: "length (rg_slots (ready_to_execute s')) = ROB_SIZE E" "ring_ok (ROB_SIZE E) (ready_to_execute s') rl"
    and d: "deps_ok E nobody (ring_indices (ROB s)) (\<lambda>i. rob_at i s') rl"
  shows "sched_inv E s'"
proof -
  have "length (co_entry (ROB s')) = length (co_entry (ROB s))" "co_head (ROB s') = co_head (ROB s)" "co_tail (ROB s') = co_tail (ROB s)"
    "co_occupancy (ROB s') = co_occupancy (ROB s)" using o by (simp_all add: order_part_def)
  moreover from this have "ring_indices (ROB s') = ring_indices (ROB s)" by (intro ring_indices_cong)
  ultimately show ?thesis using ok r d by (auto simp: sched_inv_def co_ok_def)
qed

lemma outside_ready [simp]:
  "outside (s\<lparr>ready_to_execute := r\<rparr>) = (outside s)\<lparr>ready_to_execute := r\<rparr>"
  "ready_to_execute s = r \<Longrightarrow> (outside s)\<lparr>ready_to_execute := r\<rparr> = outside s"
  "length (co_entry (ROB (s\<lparr>ready_to_execute := r\<rparr>))) = length (co_entry (ROB s))"
  by (auto simp: outside_def)

section \<open>Scheduling\<close>

lemma sched_part_latency [simp]: "sched_part (add_latency clk l e) = sched_part e"
  by (simp add: add_latency_def)

lemma entry_latency [simp]: "oi_instr_id (add_latency clk l e) = oi_instr_id e" "oi_ip (add_latency clk l e) = oi_ip e"
  "oi_reg_ready (add_latency clk l e) = oi_reg_ready e"
  by (simp_all add: add_latency_def)

lemma linked_start:
  assumes c: "c < length (co_entry (ROB s))" and e: "entry_ok (rob_at c s)" and n: "oi_num_reg_dependent (rob_at c s) = 0"
    "\<forall>j<4. \<not> oi_reg_RAW_checked (rob_at c s) ! j"
  shows "linked c s (\<lambda>_. None) (upd_rob c (\<lambda>e. e\<lparr>oi_reg_ready := True\<rparr>) s)"
  using assms by (auto simp: linked_def links_to_def found_def grown_refl waits_on_def blank_wait_def entry_ok_def)

lemma deps_rl_bound:
  assumes "deps_ok E P w ent rl" "set w \<subseteq> {..<n}"
  shows "distinct rl" "set rl \<subseteq> {..<n}"
  using deps_okD(11,12)[OF assms(1)] assms(2) by auto

lemma do_scheduling_law:
  assumes ok: "sched_inv E s" and k: "k < length (ring_indices (ROB s))" "ring_indices (ROB s) ! k = c"
    and new: "oi_scheduled (rob_at c s) = 0"
  shows "safe_step E (do_scheduling E clk c) s"
proof -
  let ?w = "ring_indices (ROB s)" and ?ent = "\<lambda>i. rob_at i s"
  obtain rl where inv: "co_ok (ROB s)" "length (co_entry (ROB s)) = ROB_SIZE E" "ROB_SIZE E \<le> 512"
    "length (rg_slots (ready_to_execute s)) = ROB_SIZE E" and ring: "ring_ok (ROB_SIZE E) (ready_to_execute s) rl"
    and deps: "deps_ok E nobody ?w ?ent rl" using ok by (rule sched_invE)
  note d = deps_okD[OF deps]
  have cw: "c \<in> set ?w" using k by auto
  have b: "set ?w \<subseteq> {..<ROB_SIZE E}" using ring_indices_bound[OF inv(1)] inv(2) by auto
  have c: "c < length (co_entry (ROB s))" "c < 512" using b cw inv by auto
  define ps where "ps = rev (take k ?w)"
  have ps: "c \<notin> set ps" "\<forall>p\<in>set ps. p < length (co_entry (ROB s)) \<and> entry_ok (rob_at p s)"
  proof -
    show "c \<notin> set ps" using set_take_older[OF d(1) k(1)] k(2) older_irrefl[OF d(1)] by (auto simp: ps_def)
    show "\<forall>p\<in>set ps. p < length (co_entry (ROB s)) \<and> entry_ok (rob_at p s)"
      using b d(3) inv(2) by (auto simp: ps_def dest: in_set_takeD)
  qed
  define s1 where "s1 = upd_rob c (\<lambda>e. e\<lparr>oi_reg_ready := True\<rparr>) s"
  define L where "L = producers E c s ps"
  define s2 where "s2 = reg_dependency E c s1"
  have "prior_indices c (ROB s1) = ps"
    using prior_indices_eq[OF inv(1), of k] k by (simp add: ps_def s1_def cong: prior_indices_cong) (simp add: prior_indices_def)
  moreover have "linked c s (\<lambda>_. None) s1"
    using linked_start[OF c(1)] d(3)[OF cw] d(8)[OF cw new] by (simp add: s1_def)
  ultimately have l: "linked c s L s2" using linked_search[OF c ps] by (simp add: s2_def L_def reg_dependency_def)
  have g: "\<And>p. p \<noteq> c \<Longrightarrow> grown c (links_to L p) (rob_at p s) (rob_at p s2)" and wt: "waits_on (found L) (rob_at c s) (rob_at c s2)"
    and out: "outside s2 = outside s" "length (co_entry (ROB s2)) = length (co_entry (ROB s))" using l by (simp_all add: linked_def)
  have L: "L j = nearest E ?ent (rev (take k ?w)) (oi_source_registers (rob_at c s) ! j)" if "j < 4" for j
    using that by (simp add: L_def producers_def ps_def)
  have c2: "c < length (co_entry (ROB s2))" using c out by simp
  have mem: "oi_is_memory (rob_at c s2) = oi_is_memory (rob_at c s)" and rdy: "oi_reg_ready (rob_at c s2) \<longleftrightarrow> found L = {}"
    and idc: "oi_instr_id (rob_at c s2) = oi_instr_id (rob_at c s)" "oi_ip (rob_at c s2) = oi_ip (rob_at c s)"
    using wt blank_waitD(5,6,7)[of "rob_at c s2" "rob_at c s"] by (auto simp: waits_on_def)
  have idp: "oi_instr_id (rob_at p s2) = oi_instr_id (rob_at p s)" "oi_ip (rob_at p s2) = oi_ip (rob_at p s)" if "p \<noteq> c" for p
    using g[OF that] blank_setsD(9,10)[of "rob_at p s2" "rob_at p s"] by (auto simp: grown_def)
  have fin: "safe_step E (\<lambda>_. Some s3) s"
    if s3: "outside s3 = outside (s2\<lparr>ready_to_execute := r\<rparr>)" "length (co_entry (ROB s3)) = length (co_entry (ROB s))"
      "\<And>p. p \<noteq> c \<Longrightarrow> rob_at p s3 = rob_at p s2" "sched_part (rob_at c s3) = sched_part ((rob_at c s2)\<lparr>oi_scheduled := sc\<rparr>)" "sc \<noteq> 0"
      and r: "length (rg_slots r) = ROB_SIZE E" "ring_ok (ROB_SIZE E) r (if \<not> oi_is_memory (rob_at c s) \<and> found L = {} then rl @ [c] else rl)"
    for s3 r and sc :: u8
  proof (rule safe_stepI[OF refl])
    have "order_part s3 = order_part (s2\<lparr>ready_to_execute := r\<rparr>)" using outsideD(5)[OF s3(1)] s3(2) out by simp
    also have "\<dots> = order_part s2" by (simp add: order_part_def)
    also have "\<dots> = order_part s" using outsideD(5)[OF out(1)] out(2) by simp
    finally have o: "order_part s3 = order_part s" .
    have ids: "oi_instr_id (rob_at p s3) = oi_instr_id (rob_at p s)" "oi_ip (rob_at p s3) = oi_ip (rob_at p s)" for p
      using idp s3(3) idc sched_partD(1,2)[OF s3(4)] by (cases "p = c"; simp)+
    show "same_order s s3" by (rule same_order_frame[OF o]) (simp_all add: ids)
    have "deps_ok E nobody ?w (\<lambda>i. rob_at i s3) (if \<not> oi_is_memory (rob_at c s) \<and> found L = {} then rl @ [c] else rl)"
      using deps_schedule[OF deps k(1,2) new L _ wt, of "\<lambda>i. rob_at i s3" sc] g s3(3,4,5) by simp
    moreover have "ready_to_execute s3 = r" using outsideD(1)[OF s3(1)] by simp
    ultimately show "sched_inv E s3" using sched_invI[OF ok o] r by simp
  qed
  have ready2: "ready_to_execute s2 = ready_to_execute s" using outsideD(1)[OF out(1)] .
  show ?thesis
  proof (cases "oi_is_memory (rob_at c s)")
    case True
    let ?s3 = "upd_rob c (\<lambda>e. e\<lparr>oi_scheduled := INFLIGHT\<rparr>) s2"
    have "do_scheduling E clk c s = Some ?s3"
      using True mem by (simp add: do_scheduling_def s1_def[symmetric] s2_def[symmetric] Let_def)
    moreover have "safe_step E (\<lambda>_. Some ?s3) s"
      by (rule fin[of _ "ready_to_execute s" INFLIGHT]) (use True c2 out inv ring ready2 in simp_all)
    ultimately show ?thesis by (simp add: safe_step_def)
  next
    case nm: False
    let ?s3 = "upd_rob c (\<lambda>e. add_latency clk (SCHEDULING_LATENCY E) (e\<lparr>oi_scheduled := COMPLETED\<rparr>)) s2"
    have ds: "do_scheduling E clk c s = (if found L = {} then add_ready c ?s3 else Some ?s3)"
      using nm mem rdy c2 by (simp add: do_scheduling_def s1_def[symmetric] s2_def[symmetric] Let_def)
    have r3: "ready_to_execute ?s3 = ready_to_execute s" using outsideD(1)[OF outside_upd_rob(1)] ready2 by metis
    show ?thesis
    proof (cases "found L = {}")
      case False
      have "safe_step E (\<lambda>_. Some ?s3) s"
        by (rule fin[of _ "ready_to_execute s" COMPLETED]) (use False c2 out inv ring ready2 in simp_all)
      with ds False show ?thesis by (simp add: safe_step_def)
    next
      case True
      have "c \<notin> set rl" using d(12) new by (auto simp: waiting_def)
      then have dr: "distinct (rl @ [c])" "set (rl @ [c]) \<subseteq> {..<ROB_SIZE E}" using d(11) deps_rl_bound(2)[OF deps b] cw b by auto
      note a = add_ready_law[of E ?s3 rl c, unfolded r3, OF ring inv(4) dr]
      have "safe_step E (\<lambda>_. Some (?s3\<lparr>ready_to_execute := ring_put c (ready_to_execute s)\<rparr>)) s"
        by (rule fin[of _ "ring_put c (ready_to_execute s)" COMPLETED])
          (use True nm c2 out a in simp_all)
      with ds True a(1) show ?thesis by (simp add: safe_step_def)
    qed
  qed
qed

lemma safe_step_bind:
  assumes "safe_step E f s" "\<And>s'. f s = Some s' \<Longrightarrow> sched_inv E s' \<Longrightarrow> same_order s s' \<Longrightarrow> safe_step E g s'"
  shows "safe_step E (\<lambda>s. Option.bind (f s) g) s"
  using assms same_order_trans unfolding safe_step_def by (metis bind.bind_lunit)

lemma sched_inv_more:
  assumes "sched_inv E s" "ROB s' = ROB s" "ready_to_execute s' = ready_to_execute s"
  shows "sched_inv E s'"
  using assms by (simp add: sched_inv_def rob_at_def)

lemma count_searched_law:
  assumes "sched_inv E s"
  shows "sched_inv E (count_searched i s)" "same_order s (count_searched i s)"
  by (rule sched_inv_more[OF assms]) (auto simp: count_searched_def same_order_def order_part_def)

lemma safe_step_search:
  assumes "\<And>i s. sched_inv E s \<Longrightarrow> i \<in> set (ring_indices (ROB s)) \<Longrightarrow> safe_step E (f i) s"
    and loop: "\<And>s. l [] s = Some s" "\<And>i is s. l (i # is) s = (if stop i s then Some s else Option.bind (f i s) (\<lambda>s. l is (count_searched i s)))"
  shows "sched_inv E s \<Longrightarrow> set is \<subseteq> set (ring_indices (ROB s)) \<Longrightarrow> safe_step E (l is) s"
proof (induction "is" arbitrary: s)
  case Nil
  with loop(1) show ?case by (simp add: safe_step_def)
next
  case (Cons i xs)
  have "safe_step E (\<lambda>s. Option.bind (f i s) (\<lambda>s. l xs (count_searched i s))) s"
  proof (rule safe_step_bind)
    show "safe_step E (f i) s" using Cons.prems assms(1) by simp
    fix s' assume s': "sched_inv E s'" "same_order s s'"
    note c = count_searched_law[OF s'(1), of i]
    have "ring_indices (ROB (count_searched i s')) = ring_indices (ROB s)"
      using same_orderD(1)[OF c(2)] same_orderD(1)[OF s'(2)] by simp
    then have "safe_step E (l xs) (count_searched i s')" using Cons.IH[OF c(1)] Cons.prems by simp
    then show "safe_step E (\<lambda>s. l xs (count_searched i s)) s'"
      using c(2) same_order_trans by (auto simp: safe_step_def)
  qed
  then show ?case using loop Cons.prems(1) by (auto simp: safe_step_def)
qed

lemma schedule_instruction_law:
  assumes "sched_inv E s"
  shows "safe_step E (schedule_instruction E clk) s"
proof -
  have one: "safe_step E (\<lambda>s. if oi_scheduled (rob_at i s) = 0 then do_scheduling E clk i s else Some s) s"
    if "sched_inv E s" "i \<in> set (ring_indices (ROB s))" for i s
  proof (cases "oi_scheduled (rob_at i s) = 0")
    case True
    have "\<exists>k<length (ring_indices (ROB s)). ring_indices (ROB s) ! k = i" using that(2) by (simp only: in_set_conv_nth)
    with True do_scheduling_law[OF that(1), of _ i clk] show ?thesis by (auto simp: safe_step_def)
  qed (use that in \<open>simp add: safe_step_def\<close>)
  have s0: "sched_inv E (s\<lparr>num_searched := 0\<rparr>)" by (rule sched_inv_more[OF assms]) simp_all
  have "safe_step E (schedule_loop E clk (ring_indices (ROB s))) (s\<lparr>num_searched := 0\<rparr>)"
    by (rule safe_step_search[where f = "\<lambda>i s. if oi_scheduled (rob_at i s) = 0 then do_scheduling E clk i s else Some s", OF one]) (use s0 in simp_all)
  moreover have "same_order s (s\<lparr>num_searched := 0\<rparr>)" by (simp add: same_order_def order_part_def)
  ultimately show ?thesis using assms same_order_trans by (auto simp: schedule_instruction_def safe_step_def)
qed

section \<open>Execution\<close>

lemma upd_rob_order:
  assumes "\<And>e. oi_instr_id (f e) = oi_instr_id e" "\<And>e. oi_ip (f e) = oi_ip e" "i < length (co_entry (ROB s))"
  shows "same_order s (upd_rob i f s)"
  using assms outsideD(5)[OF outside_upd_rob(1)] by (auto simp: same_order_def)

lemma exec_round_law:
  assumes ok: "sched_inv E s"
  shows "\<exists>r s'. exec_round E clk s = Some (r, s') \<and> sched_inv E s' \<and> same_order s s'"
proof -
  obtain rl where inv: "co_ok (ROB s)" "length (co_entry (ROB s)) = ROB_SIZE E" "ROB_SIZE E \<le> 512"
    "length (rg_slots (ready_to_execute s)) = ROB_SIZE E" and ring: "ring_ok (ROB_SIZE E) (ready_to_execute s) rl"
    and deps: "deps_ok E nobody (ring_indices (ROB s)) (\<lambda>i. rob_at i s) rl" using ok by (rule sched_invE)
  note d = deps_okD[OF deps]
  show ?thesis
  proof (cases rl)
    case Nil
    with ring_ok_top[OF ring] ok show ?thesis by (simp add: exec_round_def)
  next
    case (Cons c rs)
    have c: "c < length (co_entry (ROB s))" using d(12) Cons ring_indices_bound[OF inv(1)] by auto
    show ?thesis
    proof (cases "oi_event_cycle (rob_at c s) \<le> now clk")
      case False
      with ring_ok_top[OF ring] Cons c inv(2) ok show ?thesis by (simp add: exec_round_def)
    next
      case True
      let ?f = "\<lambda>e. add_latency clk (EXEC_LATENCY E) (e\<lparr>oi_executed := INFLIGHT\<rparr>)"
      let ?s = "(upd_rob c ?f s)\<lparr>inflight_reg_executions := inflight_reg_executions s + 1,
        ready_to_execute := ring_pop (ROB_SIZE E) (ready_to_execute s)\<rparr>"
      have r: "ready_to_execute (upd_rob c ?f s) = ready_to_execute s" by (rule outsideD(1)[OF outside_upd_rob(1)])
      have "exec_round E clk s = Some (Issue, ?s)"
        using ring_ok_top[OF ring] Cons c inv(2) True by (simp add: exec_round_def do_execution_def upd_rob_def)
      moreover have same: "same_order s ?s"
        using upd_rob_order[of ?f c s] c by (simp add: same_order_def order_part_def)
      moreover have "sched_inv E ?s"
      proof (rule sched_invI[OF ok])
        show "order_part ?s = order_part s" using same by (simp add: same_order_def)
        show "length (rg_slots (ready_to_execute ?s)) = ROB_SIZE E" using inv(4) by (simp add: ring_pop_def)
        show "ring_ok (ROB_SIZE E) (ready_to_execute ?s) rs" using ring_ok_pop ring Cons by fastforce
        show "deps_ok E nobody (ring_indices (ROB s)) (\<lambda>i. rob_at i ?s) rs"
          by (rule deps_ok_cong[OF deps_execute[OF deps[unfolded Cons]]]) (use c in simp)
      qed
      ultimately show ?thesis by blast
    qed
  qed
qed

lemma execute_instruction_law:
  assumes "sched_inv E s"
  shows "safe_step E (execute_instruction E clk) s"
proof -
  have "\<exists>k s'. issue_loop n w (exec_round E clk) j s = Some (k, s') \<and> sched_inv E s' \<and> same_order s s'" if "sched_inv E s" for n w j s
    using that
  proof (induction n arbitrary: j s)
    case (Suc n)
    obtain r s1 where r: "exec_round E clk s = Some (r, s1)" "sched_inv E s1" "same_order s s1" using exec_round_law[OF Suc.prems] by blast
    show ?case
    proof (cases "j < w")
      case True
      with r Suc.IH[OF r(2)] same_order_trans[OF r(3)] show ?thesis by (cases r) (simp_all, blast+)
    qed (use Suc.prems in simp)
  qed simp
  from this[OF assms, of "ROB_SIZE E - 1" "EXEC_WIDTH E" 0] assms show ?thesis
    by (auto simp: execute_instruction_def safe_step_def simp del: One_nat_def)
qed

end
