(* ===== verification/CoreComplete.thy ===== *)
theory CoreComplete
  imports CoreStages
begin

text \<open>
  Completion: the instructions that wait for the completed one lose one dependency for each source it produces, those without any
  left become ready. The invariant and the order of the pipeline are kept, and the ready queue never overflows.
\<close>

section \<open>Releasing the waiting instructions\<close>

definition releasing ::
  "('b, 'p, 'm) core_env \<Rightarrow> nat \<Rightarrow> ('b, 'p, 'm) core \<Rightarrow> (nat \<Rightarrow> nat set) \<Rightarrow> ('b, 'p, 'm) core \<Rightarrow> bool" where
  "releasing E c s0 P s \<longleftrightarrow> same_order s0 s \<and> rob_at c s = rob_at c s0 \<and> length (rg_slots (ready_to_execute s)) = ROB_SIZE E \<and>
     (\<exists>rl. ring_ok (ROB_SIZE E) (ready_to_execute s) rl \<and> deps_ok E P (ring_indices (ROB s0)) (\<lambda>i. rob_at i s) rl)"

lemma releasing_upd:
  assumes rel: "releasing E c s0 P s" and i: "i < length (co_entry (ROB s0))" "i \<noteq> c"
    and f: "\<And>e. oi_instr_id (f e) = oi_instr_id e" "\<And>e. oi_ip (f e) = oi_ip e"
    and r: "length (rg_slots r) = ROB_SIZE E" "ring_ok (ROB_SIZE E) r rl"
    and d: "deps_ok E P' (ring_indices (ROB s0)) ((\<lambda>k. rob_at k s)(i := f (rob_at i s))) rl"
  shows "releasing E c s0 P' ((upd_rob i f s)\<lparr>ready_to_execute := r\<rparr>)"
proof -
  have len: "length (co_entry (ROB s)) = length (co_entry (ROB s0))" using rel same_orderD(2) by (auto simp: releasing_def)
  have "same_order s ((upd_rob i f s)\<lparr>ready_to_execute := r\<rparr>)"
    using upd_rob_order[of f i s, OF f] i(1) len by (simp add: same_order_def order_part_def)
  then have same: "same_order s0 ((upd_rob i f s)\<lparr>ready_to_execute := r\<rparr>)"
    using rel same_order_trans by (auto simp: releasing_def)
  have "(\<lambda>k. rob_at k ((upd_rob i f s)\<lparr>ready_to_execute := r\<rparr>)) = (\<lambda>k. rob_at k s)(i := f (rob_at i s))"
    using i(1) len by auto
  with rel same i r d len show ?thesis by (auto simp: releasing_def)
qed

lemma release_source_law:
  assumes rel: "releasing E c s0 P s" and ok: "co_ok (ROB s0)" "length (co_entry (ROB s0)) = ROB_SIZE E" "ROB_SIZE E \<le> 512"
    and cw: "entry_ok (rob_at c s0)" and i: "i \<in> set (ring_indices (ROB s0))" "i \<noteq> c" and j: "j < 4"
    and P: "P i = released (\<lambda>k. rob_at k s0) c i - J" "j \<notin> J"
  shows "\<exists>s'. release_source c i j s = Some s' \<and> releasing E c s0 (P(i := released (\<lambda>k. rob_at k s0) c i - insert j J)) s'"
proof -
  let ?R = "released (\<lambda>k. rob_at k s0) c i" and ?w = "ring_indices (ROB s0)"
  have il: "i < length (co_entry (ROB s0))" using ring_indices_bound[OF ok(1) i(1)] .
  then have i5: "i < 512" using ok by simp
  have bw: "set ?w \<subseteq> {..<ROB_SIZE E}" using ring_indices_bound[OF ok(1)] ok(2) by auto
  have cs: "rob_at c s = rob_at c s0" and len: "length (co_entry (ROB s)) = length (co_entry (ROB s0))"
    using rel same_orderD(2) by (auto simp: releasing_def)
  obtain rl where rl: "length (rg_slots (ready_to_execute s)) = ROB_SIZE E" "ring_ok (ROB_SIZE E) (ready_to_execute s) rl"
    "deps_ok E P ?w (\<lambda>k. rob_at k s) rl" using rel by (auto simp: releasing_def)
  have search: "fs_search (of_nat i) (oi_registers_index_depend_on_me (rob_at c s) ! j) \<longleftrightarrow> j \<in> ?R"
    using cw j i5 by (simp add: cs fs_search_law entry_ok_def released_def edeps_def)
  show ?thesis
  proof (cases "j \<in> ?R")
    case False
    then have "P(i := ?R - insert j J) = P" using P(1) by (simp add: fun_eq_iff)
    with False search rel show ?thesis by (simp add: release_source_def)
  next
    case True
    then have jP: "j \<in> P i" "P i - {j} = ?R - insert j J" using P by auto
    define e where "e = (rob_at i s)\<lparr>oi_num_reg_dependent := oi_num_reg_dependent (rob_at i s) - 1\<rparr>"
    note dr = deps_release[OF rl(3) i(1) jP(1), folded e_def, unfolded jP(2)]
    have add: "add_ready i (upd_rob i f s) = Some ((upd_rob i f s)\<lparr>ready_to_execute := ring_put i (ready_to_execute s)\<rparr>)"
      "length (rg_slots (ring_put i (ready_to_execute s))) = ROB_SIZE E"
      "ring_ok (ROB_SIZE E) (ring_put i (ready_to_execute s)) (rl @ [i])"
      if "distinct (rl @ [i])" for f
    proof -
      have "set (rl @ [i]) \<subseteq> {..<ROB_SIZE E}" using deps_rl_bound(2)[OF rl(3) bw] i(1) bw by auto
      from add_ready_law[of E "upd_rob i f s" rl i, unfolded outsideD(1)[OF outside_upd_rob(1)], OF rl(2,1) that this]
      show "add_ready i (upd_rob i f s) = Some ((upd_rob i f s)\<lparr>ready_to_execute := ring_put i (ready_to_execute s)\<rparr>)"
        "length (rg_slots (ring_put i (ready_to_execute s))) = ROB_SIZE E"
        "ring_ok (ROB_SIZE E) (ring_put i (ready_to_execute s)) (rl @ [i])" by simp_all
    qed
    have id: "(upd_rob i f s)\<lparr>ready_to_execute := ready_to_execute s\<rparr> = upd_rob i f s" for f by (simp add: upd_rob_def)
    have twice: "upd_rob i g (upd_rob i f s) = upd_rob i (\<lambda>e. g (f e)) s" for f g using il len by (simp add: upd_rob_def rob_at_def)
    show ?thesis
    proof (cases "oi_num_reg_dependent e = 0")
      case False
      let ?f = "\<lambda>e. e\<lparr>oi_num_reg_dependent := oi_num_reg_dependent e - 1\<rparr>"
      have "releasing E c s0 (P(i := ?R - insert j J)) ((upd_rob i ?f s)\<lparr>ready_to_execute := ready_to_execute s\<rparr>)"
        by (rule releasing_upd[OF rel il i(2) _ _ rl(1,2)]) (use dr(1)[OF False] in \<open>simp_all add: e_def\<close>)
      moreover have "release_source c i j s = Some (upd_rob i ?f s)"
        using True search False il len by (simp add: release_source_def e_def Let_def)
      ultimately show ?thesis by (simp add: id)
    next
      case z: True
      show ?thesis
      proof (cases "oi_is_memory e")
        case True
        let ?f = "\<lambda>e. e\<lparr>oi_num_reg_dependent := oi_num_reg_dependent e - 1, oi_reg_ready := True, oi_scheduled := INFLIGHT\<rparr>"
        have "releasing E c s0 (P(i := ?R - insert j J)) ((upd_rob i ?f s)\<lparr>ready_to_execute := ready_to_execute s\<rparr>)"
          by (rule releasing_upd[OF rel il i(2) _ _ rl(1,2)]) (use dr(2)[OF z, of INFLIGHT] True in \<open>simp_all add: e_def\<close>)
        moreover have "release_source c i j s = Some (upd_rob i ?f s)"
          using \<open>j \<in> ?R\<close> search z True il len by (simp add: release_source_def e_def Let_def twice)
        ultimately show ?thesis by (simp add: id)
      next
        case False
        let ?f = "\<lambda>e. e\<lparr>oi_num_reg_dependent := oi_num_reg_dependent e - 1, oi_reg_ready := True, oi_scheduled := COMPLETED\<rparr>"
        have dep: "deps_ok E (P(i := ?R - insert j J)) ?w ((\<lambda>k. rob_at k s)(i := ?f (rob_at i s))) (rl @ [i])"
          using dr(2)[OF z, of COMPLETED] False by (simp add: e_def)
        note a = add[OF deps_okD(11)[OF dep]]
        have "releasing E c s0 (P(i := ?R - insert j J)) ((upd_rob i ?f s)\<lparr>ready_to_execute := ring_put i (ready_to_execute s)\<rparr>)"
          by (rule releasing_upd[where f = ?f, OF rel il i(2) _ _ a(2,3) dep]) simp_all
        moreover have "release_source c i j s = Some ((upd_rob i ?f s)\<lparr>ready_to_execute := ring_put i (ready_to_execute s)\<rparr>)"
          using \<open>j \<in> ?R\<close> search z False il len a(1) by (simp add: release_source_def e_def Let_def twice)
        ultimately show ?thesis by simp
      qed
    qed
  qed
qed

lemma release_sources_law:
  assumes ok: "co_ok (ROB s0)" "length (co_entry (ROB s0)) = ROB_SIZE E" "ROB_SIZE E \<le> 512"
    and cw: "entry_ok (rob_at c s0)" and i: "i \<in> set (ring_indices (ROB s0))" "i \<noteq> c"
  shows "releasing E c s0 P s \<Longrightarrow> P i = released (\<lambda>k. rob_at k s0) c i - J \<Longrightarrow> distinct js \<Longrightarrow> set js \<inter> J = {} \<Longrightarrow> set js \<subseteq> {..<4} \<Longrightarrow>
    \<exists>s'. try_all (\<lambda>j. release_source c i j) js s = Some s' \<and> releasing E c s0 (P(i := released (\<lambda>k. rob_at k s0) c i - (J \<union> set js))) s'"
proof (induction js arbitrary: P J s)
  case Nil
  then have "P(i := released (\<lambda>k. rob_at k s0) c i - (J \<union> set [])) = P" by (simp add: fun_eq_iff)
  with Nil show ?case by simp
next
  case (Cons j js)
  obtain s1 where s1: "release_source c i j s = Some s1"
    "releasing E c s0 (P(i := released (\<lambda>k. rob_at k s0) c i - insert j J)) s1"
    using release_source_law[OF Cons.prems(1) ok cw i, of j J] Cons.prems by auto
  have "\<exists>s'. try_all (\<lambda>j. release_source c i j) js s1 = Some s' \<and>
    releasing E c s0 ((P(i := released (\<lambda>k. rob_at k s0) c i - insert j J))(i := released (\<lambda>k. rob_at k s0) c i - (insert j J \<union> set js))) s'"
    by (rule Cons.IH[OF s1(2)]) (use Cons.prems in auto)
  then have "\<exists>s'. try_all (\<lambda>j. release_source c i j) js s1 = Some s' \<and>
    releasing E c s0 (P(i := released (\<lambda>k. rob_at k s0) c i - (J \<union> set (j # js)))) s'" by (simp only: fun_upd_upd list.set Un_insert_left Un_insert_right)
  with s1(1) show ?case by (simp del: fun_upd_apply)
qed

lemma release_all_law:
  assumes ok: "co_ok (ROB s0)" "length (co_entry (ROB s0)) = ROB_SIZE E" "ROB_SIZE E \<le> 512" and cw: "entry_ok (rob_at c s0)"
  shows "releasing E c s0 (\<lambda>x. if x \<in> D then {} else released (\<lambda>k. rob_at k s0) c x) s \<Longrightarrow> distinct xs \<Longrightarrow> unat ` set xs \<inter> D = {} \<Longrightarrow>
    \<forall>x\<in>set xs. unat x \<in> set (ring_indices (ROB s0)) \<and> unat x \<noteq> c \<Longrightarrow>
    \<exists>s'. try_all (\<lambda>i. try_all (\<lambda>j. release_source c (unat i) j) [0..<NUM_INSTR_SOURCES]) xs s = Some s' \<and>
      releasing E c s0 (\<lambda>x. if x \<in> D \<union> unat ` set xs then {} else released (\<lambda>k. rob_at k s0) c x) s'"
proof (induction xs arbitrary: D s)
  case (Cons x xs)
  let ?R = "released (\<lambda>k. rob_at k s0) c" and ?P = "\<lambda>x. if x \<in> D then {} else released (\<lambda>k. rob_at k s0) c x"
  have "\<exists>s'. try_all (\<lambda>j. release_source c (unat x) j) [0..<NUM_INSTR_SOURCES] s = Some s' \<and>
    releasing E c s0 (?P(unat x := ?R (unat x) - ({} \<union> set [0..<NUM_INSTR_SOURCES]))) s'"
    by (rule release_sources_law[OF ok cw _ _ Cons.prems(1)]) (use Cons.prems in \<open>auto simp: NUM_INSTR_SOURCES_def\<close>)
  moreover have "?P(unat x := ?R (unat x) - ({} \<union> set [0..<NUM_INSTR_SOURCES])) = (\<lambda>y. if y \<in> insert (unat x) D then {} else ?R y)"
    by (auto simp: released_def NUM_INSTR_SOURCES_def fun_eq_iff)
  ultimately obtain s1 where s1: "try_all (\<lambda>j. release_source c (unat x) j) [0..<NUM_INSTR_SOURCES] s = Some s1"
    "releasing E c s0 (\<lambda>y. if y \<in> insert (unat x) D then {} else ?R y) s1" by auto
  have inj: "unat x \<notin> unat ` set xs" using Cons.prems(2) by (auto dest: unsigned_word_eqI)
  have "\<exists>s'. try_all (\<lambda>i. try_all (\<lambda>j. release_source c (unat i) j) [0..<NUM_INSTR_SOURCES]) xs s1 = Some s' \<and>
      releasing E c s0 (\<lambda>y. if y \<in> insert (unat x) D \<union> unat ` set xs then {} else ?R y) s'"
    by (rule Cons.IH[OF s1(2)]) (use Cons.prems inj in auto)
  with s1(1) show ?case by simp
qed simp

section \<open>Completing an instruction\<close>

lemma reg_RAW_release_law:
  assumes rel: "releasing E c s0 (released (\<lambda>k. rob_at k s0) c) s0"
    and ok: "co_ok (ROB s0)" "length (co_entry (ROB s0)) = ROB_SIZE E" "ROB_SIZE E \<le> 512" and c: "c \<in> set (ring_indices (ROB s0))"
  shows "\<exists>s'. reg_RAW_release E c s0 = Some s' \<and> releasing E c s0 nobody s'"
proof -
  let ?w = "ring_indices (ROB s0)" and ?ent = "\<lambda>k. rob_at k s0"
  obtain rl where "deps_ok E (released ?ent c) ?w ?ent rl" using rel by (auto simp: releasing_def)
  note d = deps_okD[OF this]
  have cw: "entry_ok (rob_at c s0)" by (rule d(3)[OF c])
  let ?xs = "fs_expand (oi_registers_instrs_depend_on_me (rob_at c s0)) (ROB_SIZE E)"
  have fs: "fs_ok (oi_registers_instrs_depend_on_me (rob_at c s0))" using cw by (simp add: entry_ok_def)
  have mem: "x \<in> set ?w \<and> x \<noteq> c" if "x \<in> einstrs (rob_at c s0)" for x
  proof -
    from that d(4)[OF c] obtain j where "j < 4" "x \<in> edeps (rob_at c s0) j" by auto
    from d(5)[OF c this] have o: "older ?w c x" by simp
    then show ?thesis using older_mem[OF o] older_irrefl[OF d(1)] by auto
  qed
  have mem2: "unat x \<in> set ?w \<and> unat x \<noteq> c" if "x < 512" "fs_mem (oi_registers_instrs_depend_on_me (rob_at c s0)) x" for x :: u16
    using mem[of "unat x"] that by (simp add: einstrs_def word_less_nat_alt)
  have lt: "\<forall>x<512. fs_mem (oi_registers_instrs_depend_on_me (rob_at c s0)) x \<longrightarrow> unat x < ROB_SIZE E"
    using mem2 ring_indices_bound[OF ok(1)] ok(2) by auto
  note e = fs_expand_law[OF fs ok(3)]
  have sx: "set ?xs = {x. x < 512 \<and> fs_mem (oi_registers_instrs_depend_on_me (rob_at c s0)) x}" by (rule e(3)[OF lt])
  have "distinct ?xs" using e(1) strict_sorted_iff by blast
  moreover have "\<forall>x\<in>set ?xs. unat x \<in> set ?w \<and> unat x \<noteq> c" using sx mem2 by auto
  ultimately obtain s' where s': "reg_RAW_release E c s0 = Some s'"
    "releasing E c s0 (\<lambda>x. if x \<in> {} \<union> unat ` set ?xs then {} else released ?ent c x) s'"
    using release_all_law[OF ok cw, of "{}" s0 ?xs] rel by (auto simp: reg_RAW_release_def)
  have "released ?ent c x = {}" if "x \<notin> unat ` set ?xs" for x
  proof (rule ccontr)
    assume "released ?ent c x \<noteq> {}"
    then have "x \<in> einstrs (rob_at c s0)" using d(4)[OF c] by (auto simp: released_def)
    then have "(of_nat x :: u16) \<in> set ?xs" "unat (of_nat x :: u16) = x" by (auto simp: sx einstrs_def)
    with that show False by (metis imageI)
  qed
  then have "(\<lambda>x. if x \<in> {} \<union> unat ` set ?xs then {} else released ?ent c x) = nobody"
    by (intro ext) (simp only: Un_empty_left if_cancel split: if_split, blast)
  with s' show ?thesis by simp
qed

lemma finish_execution_law:
  assumes rel: "releasing E c s0 (released (\<lambda>k. rob_at k s0) c) s0"
    and ok: "co_ok (ROB s0)" "length (co_entry (ROB s0)) = ROB_SIZE E" "ROB_SIZE E \<le> 512" and c: "c \<in> set (ring_indices (ROB s0))"
  shows "\<exists>s'. finish_execution E clk c s0 = Some s' \<and> sched_inv E s' \<and> same_order s0 s'"
proof -
  let ?s1 = "s0\<lparr>completed_executions := completed_executions s0 + 1\<rparr>"
  have rob1: "(\<lambda>k. rob_at k ?s1) = (\<lambda>k. rob_at k s0)" by simp
  have rel1: "releasing E c ?s1 (released (\<lambda>k. rob_at k ?s1) c) ?s1" using rel unfolding rob1 by (simp add: releasing_def)
  have s01: "same_order s0 ?s1" by (rule same_order_skel) simp
  have "\<exists>s2. (if oi_reg_RAW_producer (rob_at c ?s1) then reg_RAW_release E c ?s1 else Some ?s1) = Some s2 \<and> releasing E c ?s1 nobody s2"
  proof (cases "oi_reg_RAW_producer (rob_at c ?s1)")
    case True
    with reg_RAW_release_law[OF rel1] ok c show ?thesis by simp
  next
    case False
    obtain rl where "deps_ok E (released (\<lambda>k. rob_at k s0) c) (ring_indices (ROB s0)) (\<lambda>k. rob_at k s0) rl" using rel by (auto simp: releasing_def)
    from deps_okD(5)[OF this c] False have "released (\<lambda>k. rob_at k s0) c = nobody" by (auto simp: released_def fun_eq_iff)
    with False rel1 show ?thesis by simp
  qed
  then obtain s2 where s2: "(if oi_reg_RAW_producer (rob_at c ?s1) then reg_RAW_release E c ?s1 else Some ?s1) = Some s2"
    "releasing E c ?s1 nobody s2" by blast
  have i2: "sched_inv E s2" "same_order s0 s2"
  proof -
    show s: "same_order s0 s2" using s2(2) s01 same_order_trans by (auto simp: releasing_def)
    from s2(2) obtain rl where "length (rg_slots (ready_to_execute s2)) = ROB_SIZE E" "ring_ok (ROB_SIZE E) (ready_to_execute s2) rl"
      "deps_ok E nobody (ring_indices (ROB s0)) (\<lambda>i. rob_at i s2) rl" by (auto simp: releasing_def)
    with same_orderD(1,2)[OF s] same_orderD(14)[OF s ok(1)] ok show "sched_inv E s2" by (auto simp: sched_inv_def)
  qed
  define s3 where "s3 = (if oi_is_branch (rob_at c s2)
              then (let (e, s) = resolved_branch E False (rob_at c s2) s2 in upd_rob c (\<lambda>_. e) s) else s2)"
  define s4 where "s4 = (if oi_branch_mispredicted (rob_at c s3) \<noteq> 0
           then s3\<lparr>fetch_resume_cycle := now clk + BRANCH_MISPREDICT_PENALTY E\<rparr> else s3)"
  have "finish_execution E clk c s0 = Some s4"
    using s2(1) by (simp add: finish_execution_def s3_def s4_def Let_def)
  moreover have "skel s3 = skel s2"
    by (auto simp: s3_def resolved_branch_def skel_upd_rob split: prod.splits)
  then have "skel s4 = skel s2" by (simp add: s4_def)
  ultimately show ?thesis using sched_inv_skel[OF i2(1)] same_order_skel same_order_trans[OF i2(2)] by blast
qed

lemma complete_execution_law:
  assumes ok: "sched_inv E s" and c: "c \<in> set (ring_indices (ROB s))"
  shows "\<exists>d s'. complete_execution E clk c s = Some (d, s') \<and> sched_inv E s' \<and> same_order s s'"
proof (cases "oi_executed (rob_at c s) = INFLIGHT \<and> oi_event_cycle (rob_at c s) \<le> now clk \<and>
    (oi_is_memory (rob_at c s) \<longrightarrow> oi_num_mem_ops (rob_at c s) = 0)")
  case False
  with ok show ?thesis by (auto simp: complete_execution_def Let_def)
next
  case True
  obtain rl where inv: "co_ok (ROB s)" "length (co_entry (ROB s)) = ROB_SIZE E" "ROB_SIZE E \<le> 512"
    "length (rg_slots (ready_to_execute s)) = ROB_SIZE E" and ring: "ring_ok (ROB_SIZE E) (ready_to_execute s) rl"
    and deps: "deps_ok E nobody (ring_indices (ROB s)) (\<lambda>i. rob_at i s) rl" using ok by (rule sched_invE)
  have cl: "c < length (co_entry (ROB s))" using ring_indices_bound[OF inv(1) c] .
  let ?f = "\<lambda>e. e\<lparr>oi_executed := COMPLETED\<rparr>"
  define s0 where "s0 = (if oi_is_memory (rob_at c s) then (upd_rob c ?f s)\<lparr>inflight_mem_executions := inflight_mem_executions s - 1\<rparr>
    else (upd_rob c ?f s)\<lparr>inflight_reg_executions := inflight_reg_executions s - 1\<rparr>)"
  have rob: "(\<lambda>k. rob_at k s0) = (\<lambda>k. rob_at k s)(c := ?f (rob_at c s))" using cl by (auto simp: s0_def)
  have sk: "same_order s s0"
    using upd_rob_order[of ?f c s] cl by (auto simp: s0_def same_order_def order_part_def)
  have r0: "ready_to_execute s0 = ready_to_execute s" by (simp add: s0_def upd_rob_def)
  have re: "released (\<lambda>k. rob_at k s0) c = released (\<lambda>k. rob_at k s) c" by (simp add: rob released_def fun_eq_iff)
  have "deps_ok E (released (\<lambda>k. rob_at k s0) c) (ring_indices (ROB s0)) (\<lambda>k. rob_at k s0) rl"
    unfolding re same_orderD(1)[OF sk] unfolding rob using deps_complete[OF deps c] True by simp
  then have "releasing E c s0 (released (\<lambda>k. rob_at k s0) c) s0"
    using inv(4) ring same_order_refl[of s0] unfolding releasing_def r0 by blast
  from finish_execution_law[OF this same_orderD(14)[OF sk inv(1)], of clk] inv c same_orderD(1,2)[OF sk]
  obtain s' where "finish_execution E clk c s0 = Some s'" "sched_inv E s'" "same_order s0 s'" by auto
  moreover have "complete_execution E clk c s = Option.bind (finish_execution E clk c s0) (\<lambda>s. Some (1, s))"
  proof -
    have "inflight_mem_executions (upd_rob c ?f s) = inflight_mem_executions s" "inflight_reg_executions (upd_rob c ?f s) = inflight_reg_executions s"
      by (simp_all add: upd_rob_def)
    with True show ?thesis by (simp add: complete_execution_def Let_def s0_def)
  qed
  ultimately show ?thesis using same_order_trans[OF sk] by auto
qed

lemma complete_loop_law:
  "sched_inv E s \<Longrightarrow> set is \<subseteq> set (ring_indices (ROB s)) \<Longrightarrow> safe_step E (complete_loop E clk is k) s"
proof (induction E clk "is" k s rule: complete_loop.induct)
  case (2 E clk i xs k s)
  obtain d s1 where s1: "complete_execution E clk i s = Some (d, s1)" "sched_inv E s1" "same_order s s1"
    using complete_execution_law[OF 2(2), of i clk] 2(3) by auto
  show ?case
  proof (cases "k \<ge> EXEC_WIDTH E")
    case False
    have "safe_step E (complete_loop E clk xs (k + d)) s1"
      using 2(1)[OF False s1(1) refl s1(2)] 2(3) same_orderD(1)[OF s1(3)] by simp
    with s1(1,3) same_order_trans False show ?thesis by (auto simp: safe_step_def)
  qed (use 2(2) in \<open>simp add: safe_step_def\<close>)
qed (simp add: safe_step_def)

lemma complete_inflight_instruction_law:
  "sched_inv E s \<Longrightarrow> safe_step E (complete_inflight_instruction E clk) s"
  using complete_loop_law[of E s "ring_indices (ROB s)" clk 0] by (auto simp: complete_inflight_instruction_def safe_step_def)

section \<open>Scheduling memory operations\<close>

lemma schedule_memory_law:
  assumes "sched_inv E s" "schedule_memory_instruction E clk s = Some s'"
  shows "sched_inv E s' \<and> same_order s s'"
proof -
  have one: "sched_inv E s' \<and> same_order s s'"
    if ok: "sched_inv E s" and i: "i \<in> set (ring_indices (ROB s))"
      and m: "oi_is_memory (rob_at i s)" "oi_reg_ready (rob_at i s)" "oi_scheduled (rob_at i s) = INFLIGHT"
      and r: "do_memory_scheduling E clk i s = Some s'" for i s s'
  proof -
    obtain n t where t: "check_and_add_lsq E clk i s = Some (n, t)" and s': "s' = (if n = 0
      then upd_rob i (\<lambda>e. e\<lparr>oi_scheduled := COMPLETED, oi_executed := (if oi_executed e = 0 then INFLIGHT else oi_executed e)\<rparr>) t else t)"
      using r by (auto simp: do_memory_scheduling_def bind_eq_Some_conv)
    have sk: "skel t = skel s" by (rule skel_check_and_add_lsq[OF t])
    have tk: "sched_inv E t" "same_order s t" using sched_inv_skel[OF ok sk] same_order_skel[OF sk] by simp_all
    obtain rl where inv: "co_ok (ROB t)" "length (co_entry (ROB t)) = ROB_SIZE E" "ROB_SIZE E \<le> 512"
      "length (rg_slots (ready_to_execute t)) = ROB_SIZE E" and ring: "ring_ok (ROB_SIZE E) (ready_to_execute t) rl"
      and deps: "deps_ok E nobody (ring_indices (ROB t)) (\<lambda>i. rob_at i t) rl" using tk(1) by (rule sched_invE)
    have it: "i \<in> set (ring_indices (ROB t))" using i same_orderD(1)[OF tk(2)] by simp
    have il: "i < length (co_entry (ROB t))" using ring_indices_bound[OF inv(1) it] .
    have "sched_part (rob_at i t) = sched_part (rob_at i s)" using skelD(1,10)[OF sk] il by (metis nth_map rob_at_def)
    note sp = sched_partD[OF this]
    show ?thesis
    proof (cases "n = 0")
      case True
      let ?f = "\<lambda>e. e\<lparr>oi_scheduled := COMPLETED, oi_executed := (if oi_executed e = 0 then INFLIGHT else oi_executed e)\<rparr>"
      have o: "same_order t (upd_rob i ?f t)" by (rule upd_rob_order) (use il in simp_all)
      have "sched_inv E (upd_rob i ?f t)"
      proof (rule sched_invI[OF tk(1)])
        show "order_part (upd_rob i ?f t) = order_part t" using o by (simp add: same_order_def)
        show "length (rg_slots (ready_to_execute (upd_rob i ?f t))) = ROB_SIZE E" "ring_ok (ROB_SIZE E) (ready_to_execute (upd_rob i ?f t)) rl"
          using inv(4) ring by (simp_all add: outsideD(1)[OF outside_upd_rob(1)])
        show "deps_ok E nobody (ring_indices (ROB t)) (\<lambda>k. rob_at k (upd_rob i ?f t)) rl"
          by (rule deps_ok_cong[OF deps_memory[OF deps it]]) (use m sp il in simp_all)
      qed
      with True s' o tk same_order_trans show ?thesis by auto
    qed (use s' tk in simp)
  qed
  have loop: "schedule_memory_loop E clk is s = Some s' \<Longrightarrow> sched_inv E s \<Longrightarrow> set is \<subseteq> set (ring_indices (ROB s)) \<Longrightarrow>
    sched_inv E s' \<and> same_order s s'" for "is" s s'
  proof (induction "is" arbitrary: s)
    case (Cons i xs)
    show ?case
    proof (cases "search_stops E clk i s")
      case False
      then obtain t where t: "(if oi_is_memory (rob_at i s) \<and> oi_reg_ready (rob_at i s) \<and> oi_scheduled (rob_at i s) = INFLIGHT
              then do_memory_scheduling E clk i s else Some s) = Some t" and rest: "schedule_memory_loop E clk xs (count_searched i t) = Some s'"
        using Cons.prems(1) by (auto simp: bind_eq_Some_conv)
      have tk: "sched_inv E t" "same_order s t" using t one[of s i t] Cons.prems by (auto split: if_splits)
      note c = count_searched_law[OF tk(1), of i]
      have "ring_indices (ROB (count_searched i t)) = ring_indices (ROB s)" using same_orderD(1)[OF c(2)] same_orderD(1)[OF tk(2)] by simp
      then have "sched_inv E s' \<and> same_order (count_searched i t) s'" using Cons.IH[OF rest c(1)] Cons.prems(3) by simp
      with same_order_trans[OF same_order_trans[OF tk(2) c(2)]] show ?thesis by simp
    qed (use Cons.prems in auto)
  qed auto
  have s0: "sched_inv E (s\<lparr>num_searched := 0\<rparr>)" "same_order s (s\<lparr>num_searched := 0\<rparr>)"
    by (rule sched_inv_more[OF assms(1)]) (simp_all add: same_order_def order_part_def)
  show ?thesis
    using assms loop[OF _ s0(1), of "ring_indices (ROB s)" s'] s0(2) same_order_trans
    by (auto simp: schedule_memory_instruction_def split: if_splits)
qed

end
