(* ===== verification/CoreOrder.thy ===== *)
theory CoreOrder
  imports CoreComplete
begin

text \<open>
  The stages that move instructions: reading the trace, fetch, decode, dispatch and retirement keep the order of the pipeline, and
  with it the invariant. A cycle moves at most \<open>cycle_budget\<close> instructions through each buffer, what the 64-bit positions are charged with.
\<close>

definition core_inv :: "nat \<Rightarrow> ('b, 'p, 'm) core_env \<Rightarrow> ('b, 'p, 'm) core \<Rightarrow> bool" where
  "core_inv n E s \<longleftrightarrow> sched_inv E s \<and> order_inv n s"

lemma core_inv_step: "core_inv n E s \<Longrightarrow> sched_inv E s' \<Longrightarrow> same_order s s' \<Longrightarrow> core_inv n E s'"
  using order_inv_same by (auto simp: core_inv_def sched_inv_def)

lemma core_inv_skel: "core_inv n E s \<Longrightarrow> skel s' = skel s \<Longrightarrow> core_inv n E s'"
  using core_inv_step sched_inv_skel same_order_skel by (metis core_inv_def)

lemma cb_inv_less: "cb_inv n b \<Longrightarrow> m \<le> n \<Longrightarrow> cb_inv m b"
  by (simp add: cb_inv_def)

lemma order_inv_less: "order_inv n s \<Longrightarrow> m \<le> n \<Longrightarrow> order_inv m s"
  by (auto simp: order_inv_def intro: dq_safe_less cb_inv_less)

lemma core_inv_less: "core_inv n E s \<Longrightarrow> m \<le> n \<Longrightarrow> core_inv m E s"
  by (auto simp: core_inv_def intro: order_inv_less)

text \<open>What the invariant reads of the core.\<close>

lemma core_inv_frame:
  assumes ok: "core_inv n E s" and same: "ROB s' = ROB s" "ready_to_execute s' = ready_to_execute s" "DISPATCH_BUFFER s' = DISPATCH_BUFFER s"
    "DECODE_BUFFER s' = DECODE_BUFFER s" "IFETCH_BUFFER s' = IFETCH_BUFFER s" "num_retired s' = num_retired s" "instr_unique_id s' = instr_unique_id s"
  shows "core_inv n E s'"
proof -
  have "rob_at i s' = rob_at i s" for i by (simp add: rob_at_def same)
  then have "order_inv n s'" using ok by (simp add: core_inv_def order_inv_def pipeline_def window_def front_instrs_def same)
  then show ?thesis using ok sched_inv_more[of E s s'] same by (simp add: core_inv_def)
qed

section \<open>Retirement\<close>

lemma fresh_new_instr [simp]: "oi_ip new_instr = 0"
  by (simp add: new_instr_def)

lemma skel_write_stores: "write_stores E clk is s = Some (b, s') \<Longrightarrow> skel s' = skel s"
proof (induction "is" arbitrary: s)
  case (Cons i xs)
  let ?h = "co_head (ROB s)"
  show ?case
  proof (cases "oi_destination_memory (rob_at ?h s) ! i = 0")
    case True
    with Cons show ?thesis by (simp add: Let_def)
  next
    case False
    then obtain r t where t: "bus_request (c_add_wq (m_l1d E)) clk (store_packet clk (unat (oi_sq_index (rob_at ?h s) ! i))
        (sq_at (unat (oi_sq_index (rob_at ?h s) ! i)) s)) s = Some (r, t)"
      and rest: "(if r = - 2 then Some (False, t)
           else write_stores E clk xs (upd_rob ?h (\<lambda>e. e\<lparr>oi_destination_memory := (oi_destination_memory e)[i := 0]\<rparr>) t)) = Some (b, s')"
      using Cons.prems by (auto simp: Let_def bind_eq_Some_conv split: if_splits)
    have "skel t = skel s" by (rule skel_bus_request[OF t])
    moreover have "skel (upd_rob ?h (\<lambda>e. e\<lparr>oi_destination_memory := (oi_destination_memory e)[i := 0]\<rparr>) t) = skel t"
      by (rule skel_upd_rob) simp
    ultimately show ?thesis using rest Cons.IH by (auto split: if_splits)
  qed
qed simp

lemma skel_release_store: "keeps skel (release_store i)"
  by (rule keepsI) (auto simp: release_store_def Let_def split: if_splits)

lemma core_inv_release_rob:
  assumes ok: "core_inv n E s" and h: "oi_ip (rob_at (co_head (ROB s)) s) \<noteq> 0" "oi_executed (rob_at (co_head (ROB s)) s) = COMPLETED"
  shows "core_inv n E (release_rob s) \<and> unat (num_retired (release_rob s)) = Suc (unat (num_retired s)) \<and>
    window s = rob_at (co_head (ROB s)) s # window (release_rob s)"
proof -
  let ?h = "co_head (ROB s)" and ?s = "release_rob s"
  obtain rl where inv: "co_ok (ROB s)" "length (co_entry (ROB s)) = ROB_SIZE E" "ROB_SIZE E \<le> 512"
    "length (rg_slots (ready_to_execute s)) = ROB_SIZE E" and ring: "ring_ok (ROB_SIZE E) (ready_to_execute s) rl"
    and deps: "deps_ok E nobody (ring_indices (ROB s)) (\<lambda>i. rob_at i s) rl" using ok by (auto simp: core_inv_def elim: sched_invE)
  have o: "order_inv n s" using ok by (simp add: core_inv_def)
  have hl: "?h < length (co_entry (ROB s))" using inv(1) by (simp add: co_ok_def)
  then have hw: "?h \<in> set (ring_indices (ROB s))" using o h(1) by (auto simp: order_inv_def)
  then have ne: "co_occupancy (ROB s) \<noteq> 0" by (auto simp: ring_indices_def)
  have rob: "ROB ?s = co_pop new_instr (ROB s)"
    by (simp add: release_rob_def upd_rob_def co_pop_def Let_def)
  note p = co_pop_law[OF inv(1) ne, of new_instr]
  have at: "rob_at i ?s = (if i = ?h then new_instr else rob_at i s)" for i
    using hl by (simp add: rob_at_def rob co_pop_def)
  have hn: "?h \<notin> set (ring_indices (ROB ?s))" using distinct_ring_indices[OF inv(1)] p(2) by (simp add: rob)
  have w: "window s = rob_at ?h s # window ?s"
    using p(2) hn by (auto simp: window_def rob at)
  have d: "deps_ok E nobody (ring_indices (ROB ?s)) (\<lambda>i. rob_at i s) rl"
    using deps_retire[of E ?h "ring_indices (ROB ?s)" "\<lambda>i. rob_at i s" rl] deps h(2) p(2) by (simp add: rob)
  have "deps_ok E nobody (ring_indices (ROB ?s)) (\<lambda>i. rob_at i ?s) rl"
    by (rule deps_ok_cong[OF d]) (use hn at in auto)
  moreover have r: "ready_to_execute ?s = ready_to_execute s" "DISPATCH_BUFFER ?s = DISPATCH_BUFFER s" "DECODE_BUFFER ?s = DECODE_BUFFER s"
    "IFETCH_BUFFER ?s = IFETCH_BUFFER s" "num_retired ?s = num_retired s + 1" "instr_unique_id ?s = instr_unique_id s"
    by (simp_all add: release_rob_def upd_rob_def Let_def)
  ultimately have si: "sched_inv E ?s"
    using inv ring p(1) rob by (auto simp: sched_inv_def) (simp add: co_pop_def)
  have pl: "pipeline s = rob_at ?h s # pipeline ?s" using w by (simp add: pipeline_def front_instrs_def r)
  have u: "unat (num_retired s) + Suc (length (pipeline ?s)) = unat (instr_unique_id s)" "unat (instr_unique_id s) + n < 2 ^ 64"
    using o pl by (simp_all add: order_inv_def)
  have nr: "unat (num_retired ?s) = Suc (unat (num_retired s))"
    using unat_Suc[of "num_retired s" 0] u by (simp add: r)
  have "map oi_instr_id (pipeline s) = map of_nat (unat (num_retired s) # [Suc (unat (num_retired s))..<unat (instr_unique_id s)])"
    using o u by (simp add: order_inv_def upt_conv_Cons)
  then have ids: "map oi_instr_id (pipeline ?s) = map of_nat [unat (num_retired ?s)..<unat (instr_unique_id s)]" by (simp add: pl nr)
  have "order_inv n ?s"
    using o ids u nr p(2) hn unfolding order_inv_def by (auto simp: r at front_instrs_def rob co_pop_def)
  with si nr w show ?thesis by (simp add: core_inv_def)
qed

lemma core_inv_retire_loop:
  "core_inv n E s \<Longrightarrow> retire_loop k E clk s = Some s' \<Longrightarrow>
   core_inv n E s' \<and> (\<exists>m\<le>k. unat (num_retired s') = unat (num_retired s) + m \<and> length (window s) = m + length (window s') \<and>
     (\<forall>i<m. oi_executed (window s ! i) = COMPLETED))"
proof (induction k arbitrary: s)
  case (Suc k)
  let ?e = "rob_at (co_head (ROB s)) s"
  show ?case
  proof (cases "oi_ip ?e = 0 \<or> oi_executed ?e \<noteq> COMPLETED")
    case True
    then have "s' = s" using Suc.prems(2) by (auto simp: Let_def)
    with Suc.prems(1) show ?thesis by auto
  next
    case False
    then obtain b t where t: "write_stores E clk [0..<MAX_INSTR_DESTINATIONS E] s = Some (b, t)"
      and rest: "(if \<not> b then Some t else do { s \<leftarrow> try_all release_store [0..<MAX_INSTR_DESTINATIONS E] t; retire_loop k E clk (release_rob s) }) = Some s'"
      using Suc.prems(2) by (auto simp: Let_def bind_eq_Some_conv)
    have sk: "skel t = skel s" by (rule skel_write_stores[OF t])
    show ?thesis
    proof (cases b)
      case False
      with rest have st: "s' = t" by simp
      note c = core_inv_skel[OF Suc.prems(1) sk]
      have "length (window t) = length (window s)" using same_orderD(1)[OF same_order_skel[OF sk]] by (simp add: window_def)
      then show ?thesis using c skelD(8)[OF sk] st by (auto intro!: exI[of _ 0])
    next
      case True
      with rest obtain u where u: "try_all release_store [0..<MAX_INSTR_DESTINATIONS E] t = Some u" "retire_loop k E clk (release_rob u) = Some s'"
        by (auto simp: bind_eq_Some_conv)
      have sk2: "skel u = skel s" using keepsD[OF keeps_try_all[OF skel_release_store] u(1)] sk by simp
      note cu = core_inv_skel[OF Suc.prems(1) sk2] and so = same_orderD[OF same_order_skel[OF sk2]]
      have co: "co_ok (ROB s)" using Suc.prems(1) by (simp add: core_inv_def sched_inv_def)
      have sp: "sched_part (rob_at i u) = sched_part (rob_at i s)" if "i < length (co_entry (ROB s))" for i
        using skelD(1,10)[OF sk2] that by (metis nth_map rob_at_def)
      have hl: "co_head (ROB s) < length (co_entry (ROB s))" using co by (simp add: co_ok_def)
      have h: "oi_ip (rob_at (co_head (ROB u)) u) \<noteq> 0" "oi_executed (rob_at (co_head (ROB u)) u) = COMPLETED"
        using False sched_partD(2,5)[OF sp[OF hl]] so(3) by auto
      note rr = core_inv_release_rob[OF cu h]
      from Suc.IH[OF _ u(2)] rr obtain m where m: "core_inv n E s'" "m \<le> k" "unat (num_retired s') = Suc (unat (num_retired s)) + m"
        "length (window (release_rob u)) = m + length (window s')" "\<forall>i<m. oi_executed (window (release_rob u) ! i) = COMPLETED"
        using skelD(8)[OF sk2] by auto
      have lw: "length (window s) = length (window u)" using so(1) by (simp add: window_def)
      have ex: "oi_executed (window s ! i) = oi_executed (window u ! i)" if "i < length (window s)" for i
        using that ring_indices_bound[OF co] sched_partD(5)[OF sp] so(1) by (simp add: window_def)
      have "oi_executed (window s ! i) = COMPLETED" if "i < Suc m" for i
        using ex[of i] lw rr m(4,5) h(2) that by (cases i) auto
      with m rr lw show ?thesis by (intro conjI exI[of _ "Suc m"]) auto
    qed
  qed
qed auto

lemma core_inv_retire_rob:
  assumes "core_inv n E s" "retire_rob E clk s = Some s'"
  shows "core_inv n E s' \<and> (\<exists>m\<le>RETIRE_WIDTH E. unat (num_retired s') = unat (num_retired s) + m \<and>
     length (window s) = m + length (window s') \<and> (\<forall>i<m. oi_executed (window s ! i) = COMPLETED))"
  using assms core_inv_retire_loop[of n E s "RETIRE_WIDTH E" clk s'] by (auto simp: retire_rob_def Let_def split: if_splits)

end
