(* ===== verification/CoreMoves.thy ===== *)
theory CoreMoves
  imports CoreOrder
begin

text \<open>
  Dispatch, decode, fetch and reading the trace: each moves the oldest instruction of one buffer to the end of the next one, so
  the order of the pipeline is kept.
\<close>

section \<open>Dispatch\<close>

lemma fresh_event_cycle [simp]: "fresh_instr (e\<lparr>oi_event_cycle := c\<rparr>) = fresh_instr e"
  by (rule sched_partD(15)) simp

lemma core_inv_dispatch_one:
  assumes ok: "core_inv (Suc n) E s" and ready: "dq_has_ready (DISPATCH_BUFFER s)" and room: "unat (co_occupancy (ROB s)) < length (co_entry (ROB s))"
  shows "\<exists>s'. dispatch_one clk s = Some s' \<and> core_inv n E s' \<and> num_retired s' = num_retired s"
proof -
  have o: "order_inv (Suc n) s" using ok by (simp add: core_inv_def)
  obtain rl where inv: "co_ok (ROB s)" "length (co_entry (ROB s)) = ROB_SIZE E" "ROB_SIZE E \<le> 512"
    "length (rg_slots (ready_to_execute s)) = ROB_SIZE E" and ring: "ring_ok (ROB_SIZE E) (ready_to_execute s) rl"
    and deps: "deps_ok E nobody (ring_indices (ROB s)) (\<lambda>i. rob_at i s) rl" using ok by (auto simp: core_inv_def elim: sched_invE)
  have dq: "dq_safe (Suc n) (DISPATCH_BUFFER s)" using o by (simp add: order_inv_def)
  obtain q where q: "dq_pop_front (DISPATCH_BUFFER s) = Some q" "dq_safe n q" "dq_view q = tl (dq_view (DISPATCH_BUFFER s))"
    using dq_safe_pop[OF dq ready] by blast
  note f = dq_safe_ready[OF dq ready]
  let ?e = "(dq_front (DISPATCH_BUFFER s))\<lparr>oi_event_cycle := now clk\<rparr>"
  define s' where "s' = s\<lparr>ROB := co_push ?e (ROB s), DISPATCH_BUFFER := q\<rparr>"
  have disp: "dispatch_one clk s = Some s'"
    using q(1) by (simp add: dispatch_one_def s'_def co_push_def Let_def)
  have view: "dq_view (DISPATCH_BUFFER s) = dq_front (DISPATCH_BUFFER s) # dq_view q" using f q(3) by simp
  have fresh: "fresh_instr ?e" using o view by (auto simp: order_inv_def front_instrs_def)
  note p = co_push_law[OF inv(1) room, of ?e] and t = tail_not_in_window[OF inv(1) room]
  have at: "rob_at i s' = (if i = co_tail (ROB s) then ?e else rob_at i s)" for i
    using t(2) by (simp add: rob_at_def s'_def co_push_def)
  then have atf: "(\<lambda>i. rob_at i s') = (\<lambda>i. rob_at i s)(co_tail (ROB s) := ?e)" by auto
  have "deps_ok E nobody (ring_indices (ROB s')) (\<lambda>i. rob_at i s') rl"
    using deps_dispatch[OF deps t(1) _ fresh] t(2) inv(2,3) unfolding atf by (simp add: s'_def p(2))
  then have si: "sched_inv E s'" using inv ring p(1) by (auto simp: sched_inv_def s'_def) (simp add: co_push_def)
  have w: "window s' = window s @ [?e]" using t(1) at by (auto simp: window_def s'_def p(2))
  have ids: "map oi_instr_id (pipeline s') = map oi_instr_id (pipeline s)"
    using w view by (simp add: pipeline_def front_instrs_def) (simp add: s'_def)
  then have len: "length (pipeline s') = length (pipeline s)" using map_eq_imp_length_eq by blast
  have "order_inv n s'"
    using order_inv_less[OF o, of n] ids len q(2) view at p(2) unfolding order_inv_def
    by (auto simp: front_instrs_def s'_def co_push_def)
  with si disp show ?thesis by (auto simp: core_inv_def s'_def)
qed

lemma core_inv_dispatch_loop:
  "core_inv (n + k) E s \<Longrightarrow> \<exists>s'. dispatch_loop k clk s = Some s' \<and> core_inv n E s' \<and> num_retired s' = num_retired s"
proof (induction k arbitrary: s)
  case (Suc k)
  show ?case
  proof (cases "dq_has_ready (DISPATCH_BUFFER s) \<and> unat (co_occupancy (ROB s)) < length (co_entry (ROB s))")
    case True
    obtain t where t: "dispatch_one clk s = Some t" "core_inv (n + k) E t" "num_retired t = num_retired s"
      using core_inv_dispatch_one[of "n + k" E s clk] Suc.prems True by auto
    from Suc.IH[OF t(2)] t show ?thesis using True by auto
  next
    case False
    with core_inv_less[OF Suc.prems, of n] show ?thesis by auto
  qed
qed auto

lemma core_inv_dispatch_instruction:
  assumes "core_inv (n + DISPATCH_WIDTH E) E s"
  shows "\<exists>s'. dispatch_instruction E clk s = Some s' \<and> core_inv n E s' \<and> num_retired s' = num_retired s"
proof -
  obtain t where t: "dispatch_loop (DISPATCH_WIDTH E) clk s = Some t" "core_inv n E t" "num_retired t = num_retired s"
    using core_inv_dispatch_loop[OF assms] by blast
  let ?t = "t\<lparr>DISPATCH_BUFFER := dq_operate (DISPATCH_BUFFER t)\<rparr>"
  have "dq_safe n (DISPATCH_BUFFER t)" using t(2) by (simp add: core_inv_def order_inv_def)
  note v = dq_safe_operate[OF this]
  have r: "rob_at i ?t = rob_at i t" for i by (simp add: rob_at_def)
  have "order_inv n ?t" using t(2) v unfolding core_inv_def order_inv_def pipeline_def window_def front_instrs_def r by simp
  moreover have "sched_inv E ?t" by (rule sched_inv_more[of E t]) (use t(2) in \<open>simp_all add: core_inv_def\<close>)
  ultimately have "core_inv n E ?t" by (simp add: core_inv_def)
  with t core_inv_less[OF assms, of n] show ?thesis by (auto simp: dispatch_instruction_def)
qed

section \<open>Decode\<close>

lemma resolved_branch_frame:
  assumes "resolved_branch E d i s = (j, s')"
  shows "sched_part j = sched_part i" "\<exists>p. s' = s\<lparr>l1i_pf := p\<rparr>"
  using assms by (auto simp: resolved_branch_def split: prod.splits)

lemma core_inv_decode_one:
  assumes ok: "core_inv (Suc n) E s" and ready: "dq_has_ready (DECODE_BUFFER s)" "\<not> dq_full (DISPATCH_BUFFER s)"
    and r: "decode_one E clk s = Some s'"
  shows "core_inv n E s' \<and> num_retired s' = num_retired s"
proof -
  let ?i = "dq_front (DECODE_BUFFER s)"
  let ?direct = "oi_branch_type ?i = BRANCH_DIRECT_JUMP \<or> oi_branch_type ?i = BRANCH_DIRECT_CALL"
  obtain d where d: "dib_insert E (oi_ip ?i) (DIB s ! dib_index E (oi_ip ?i)) = Some d"
    using r by (auto simp: decode_one_def Let_def bind_eq_Some_conv)
  define s1 where "s1 = s\<lparr>DIB := (DIB s)[dib_index E (oi_ip ?i) := d]\<rparr>"
  obtain i2 s2 where s2: "(if ?direct then resolved_branch E True ?i s1 else (?i, s1)) = (i2, s2)" by (metis surj_pair)
  obtain i3 s3 where s3: "(if oi_branch_mispredicted i2 \<noteq> 0 \<and> ?direct
                   then (i2\<lparr>oi_branch_mispredicted := 0\<rparr>, s2\<lparr>fetch_resume_cycle := now clk + BRANCH_MISPREDICT_PENALTY E\<rparr>)
                   else (i2, s2)) = (i3, s3)" by (metis surj_pair)
  have i2: "sched_part i2 = sched_part ?i" "\<exists>p. s2 = s1\<lparr>l1i_pf := p\<rparr>"
  proof -
    have "sched_part i2 = sched_part ?i \<and> (\<exists>p. s2 = s1\<lparr>l1i_pf := p\<rparr>)"
    proof (cases ?direct)
      case True
      with s2 have "resolved_branch E True ?i s1 = (i2, s2)" by simp
      from resolved_branch_frame[OF this] show ?thesis by blast
    next
      case False
      with s2 have "i2 = ?i" "s2 = s1\<lparr>l1i_pf := l1i_pf s1\<rparr>" by simp_all
      then show ?thesis by blast
    qed
    then show "sched_part i2 = sched_part ?i" "\<exists>p. s2 = s1\<lparr>l1i_pf := p\<rparr>" by simp_all
  qed
  have i3: "sched_part i3 = sched_part ?i" using s3 i2(1) by (auto split: if_splits)
  have fr: "ROB s3 = ROB s" "ready_to_execute s3 = ready_to_execute s" "DISPATCH_BUFFER s3 = DISPATCH_BUFFER s"
    "DECODE_BUFFER s3 = DECODE_BUFFER s" "IFETCH_BUFFER s3 = IFETCH_BUFFER s" "num_retired s3 = num_retired s"
    "instr_unique_id s3 = instr_unique_id s" using s3 i2(2) by (auto simp: s1_def split: if_splits)
  have dec: "decode_one E clk s = Option.bind (if warm clk then dq_push_back i3 (DISPATCH_BUFFER s3) else dq_push_back_ready i3 (DISPATCH_BUFFER s3))
    (\<lambda>q. Option.bind (dq_pop_front (DECODE_BUFFER s3)) (\<lambda>D. Some (s3\<lparr>DISPATCH_BUFFER := q, DECODE_BUFFER := D\<rparr>)))"
    by (simp only: decode_one_def Let_def d bind.bind_lunit s1_def[symmetric] s2 s3 prod.case)
  obtain q D where q: "(if warm clk then dq_push_back i3 (DISPATCH_BUFFER s) else dq_push_back_ready i3 (DISPATCH_BUFFER s)) = Some q"
    and D: "dq_pop_front (DECODE_BUFFER s) = Some D" and s': "s' = s3\<lparr>DISPATCH_BUFFER := q, DECODE_BUFFER := D\<rparr>"
    using r[unfolded dec fr(3,4)] by (auto simp: bind_eq_Some_conv)
  have o: "order_inv (Suc n) s" using ok by (simp add: core_inv_def)
  have dd: "dq_safe (Suc n) (DECODE_BUFFER s)" "dq_safe n (DISPATCH_BUFFER s)"
    using o order_inv_less[OF o, of n] by (simp_all add: order_inv_def)
  have q2: "dq_safe n q" "dq_view q = dq_view (DISPATCH_BUFFER s) @ [i3]"
    using q dq_safe_push[OF dd(2) ready(2), of _ i3] by (auto simp: dq_push_back_def dq_push_back_ready_def split: if_splits) (metis option.inject)+
  have D2: "dq_safe n D" "dq_view (DECODE_BUFFER s) = ?i # dq_view D"
    using D dq_safe_pop[OF dd(1) ready(1)] dq_safe_ready[OF dd(1) ready(1)] by auto
  have at: "rob_at k s' = rob_at k s" for k by (simp add: s' rob_at_def fr)
  have "map oi_instr_id (pipeline s') = map oi_instr_id (pipeline s)"
    using q2 D2 sched_partD(1)[OF i3] by (simp add: pipeline_def window_def front_instrs_def at) (simp add: s' fr)
  moreover from this have "length (pipeline s') = length (pipeline s)" using map_eq_imp_length_eq by blast
  moreover have "\<forall>e\<in>set (front_instrs s'). fresh_instr e"
    using o q2 D2 sched_partD(15)[OF i3] by (auto simp: order_inv_def front_instrs_def s' fr)
  ultimately have "order_inv n s'"
    using order_inv_less[OF o, of n] q2 D2 unfolding order_inv_def at by (simp add: s' fr)
  moreover have "sched_inv E s'" by (rule sched_inv_more[of E s]) (use ok in \<open>simp_all add: core_inv_def s' fr\<close>)
  ultimately show ?thesis by (simp add: core_inv_def s' fr)
qed

lemma core_inv_decode_loop:
  "core_inv (n + k) E s \<Longrightarrow> decode_loop k E clk s = Some s' \<Longrightarrow> core_inv n E s' \<and> num_retired s' = num_retired s"
proof (induction k arbitrary: s)
  case (Suc k)
  show ?case
  proof (cases "dq_has_ready (DECODE_BUFFER s) \<and> \<not> dq_full (DISPATCH_BUFFER s)")
    case True
    with Suc.prems(2) obtain t where t: "decode_one E clk s = Some t" "decode_loop k E clk t = Some s'" by (auto simp: bind_eq_Some_conv)
    from core_inv_decode_one[of "n + k" E s clk t] Suc.prems(1) True t(1) Suc.IH[OF _ t(2)] show ?thesis by auto
  next
    case False
    with Suc.prems(2) core_inv_less[OF Suc.prems(1), of n] show ?thesis by auto
  qed
qed auto

lemma core_inv_decode_instruction:
  assumes ok: "core_inv (n + DECODE_WIDTH E) E s" and r: "decode_instruction E clk s = Some s'"
  shows "core_inv n E s' \<and> num_retired s' = num_retired s"
proof (cases "dq_empty (DECODE_BUFFER s)")
  case True
  with r core_inv_less[OF ok, of n] show ?thesis by (simp add: decode_instruction_def)
next
  case False
  with r obtain t where t: "decode_loop (DECODE_WIDTH E) E clk s = Some t" and s': "s' = t\<lparr>DECODE_BUFFER := dq_operate (DECODE_BUFFER t)\<rparr>"
    by (auto simp: decode_instruction_def bind_eq_Some_conv)
  note c = core_inv_decode_loop[OF ok t]
  then have "dq_safe n (DECODE_BUFFER t)" by (simp add: core_inv_def order_inv_def)
  note v = dq_safe_operate[OF this]
  have at: "rob_at i s' = rob_at i t" for i by (simp add: s' rob_at_def)
  have "order_inv n s'" using conjunct1[OF c] v unfolding core_inv_def order_inv_def pipeline_def window_def front_instrs_def at by (simp add: s')
  moreover have "sched_inv E s'" by (rule sched_inv_more[of E t]) (use c in \<open>simp_all add: core_inv_def s'\<close>)
  ultimately show ?thesis using c by (simp add: core_inv_def s')
qed

section \<open>Fetch\<close>

lemma cb_set_skel: "(\<And>e. sched_part (f e) = sched_part e) \<Longrightarrow> cb_skel (cb_set k f b) = cb_skel b"
  unfolding cb_set_def by (rule cb_skel_modify)

lemma mark_range_skel:
  assumes "\<And>e. sched_part (f e) = sched_part e"
  shows "cb_skel (mark_range f k l b) = cb_skel b"
proof -
  have "cb_skel (foldl (\<lambda>b j. cb_set j f b) b xs) = cb_skel b" for xs
  proof (induction xs arbitrary: b)
    case (Cons x xs)
    from Cons.IH[of "cb_set x f b"] cb_set_skel[OF assms, of x b] show ?case by simp
  qed simp
  then show ?thesis by (simp add: mark_range_def)
qed

lemma skel_dib_check: "skel (dib_check E clk k s) = skel s"
proof -
  let ?f = "\<lambda>i. i\<lparr>oi_translated := COMPLETED, oi_fetched := COMPLETED, oi_decoded := COMPLETED, oi_event_cycle := now clk\<rparr>"
  have "skel (s\<lparr>IFETCH_BUFFER := cb_set k ?f (IFETCH_BUFFER s)\<rparr>) = skel s"
    by (rule skel_IFETCH) (rule cb_set_skel, simp)
  then have "skel (s\<lparr>IFETCH_BUFFER := cb_set k ?f (IFETCH_BUFFER s), DIB := d\<rparr>) = skel s" for d by simp
  then show ?thesis unfolding dib_check_def Let_def by (auto split: option.splits)
qed

lemma skel_dib_checks: "skel (foldl (\<lambda>s k. dib_check E clk k s) s ks) = skel s"
  by (induction ks arbitrary: s) (simp_all add: skel_dib_check)

lemma skel_translate_run:
  fixes E :: "('b, 'p, 'm) core_env"
  shows "translate_run E clk s = Some s' \<Longrightarrow> skel s' = skel s"
proof -
  have m: "skel (s\<lparr>IFETCH_BUFFER := mark_range (\<lambda>i. i\<lparr>oi_translated := INFLIGHT\<rparr>) k l (IFETCH_BUFFER s)\<rparr>) = skel s"
    for k l and s :: "('b, 'p, 'm) core"
    by (rule skel_IFETCH) (rule mark_range_skel, simp)
  show "translate_run E clk s = Some s' \<Longrightarrow> skel s' = skel s"
    unfolding translate_run_def Let_def by (auto simp: bind_eq_Some_conv m split: if_splits dest!: skel_bus_request)
qed

lemma skel_fetch_run:
  fixes E :: "('b, 'p, 'm) core_env"
  shows "fetch_run E clk s = Some s' \<Longrightarrow> skel s' = skel s"
proof -
  have m: "skel (s\<lparr>IFETCH_BUFFER := mark_range (\<lambda>i. i\<lparr>oi_fetched := INFLIGHT\<rparr>) k l (IFETCH_BUFFER s)\<rparr>) = skel s"
    for k l and s :: "('b, 'p, 'm) core"
    by (rule skel_IFETCH) (rule mark_range_skel, simp)
  show "fetch_run E clk s = Some s' \<Longrightarrow> skel s' = skel s"
    unfolding fetch_run_def Let_def by (auto simp: bind_eq_Some_conv m split: if_splits dest!: skel_bus_request)
qed

lemma core_inv_send_to_decode:
  "core_inv n E s \<Longrightarrow> send_to_decode k clk s = Some s' \<Longrightarrow> core_inv n E s' \<and> num_retired s' = num_retired s"
proof (induction k arbitrary: s)
  case (Suc k)
  let ?i = "cb_front (IFETCH_BUFFER s)"
  show ?case
  proof (cases "\<not> cb_empty (IFETCH_BUFFER s) \<and> \<not> dq_full (DECODE_BUFFER s) \<and> oi_translated ?i = COMPLETED \<and> oi_fetched ?i = COMPLETED")
    case True
    then obtain q b where q: "(if \<not> warm clk \<or> oi_decoded ?i \<noteq> 0 then dq_push_back_ready ?i (DECODE_BUFFER s) else dq_push_back ?i (DECODE_BUFFER s)) = Some q"
      and b: "cb_pop_front (IFETCH_BUFFER s) = Some b" and rest: "send_to_decode k clk (s\<lparr>DECODE_BUFFER := q, IFETCH_BUFFER := b\<rparr>) = Some s'"
      using Suc.prems(2) by (auto simp: Let_def bind_eq_Some_conv)
    have o: "order_inv n s" using Suc.prems(1) by (simp add: core_inv_def)
    then have dd: "dq_safe n (DECODE_BUFFER s)" "cb_inv n (IFETCH_BUFFER s)" by (simp_all add: order_inv_def)
    have q2: "dq_safe n q" "dq_view q = dq_view (DECODE_BUFFER s) @ [?i]"
      using q dq_safe_push[OF dd(1), of _ ?i] True by (auto simp: dq_push_back_def dq_push_back_ready_def split: if_splits) (metis option.inject)+
    have ne: "cb_view (IFETCH_BUFFER s) \<noteq> []" using True cb_emptyD[OF dd(2)] by simp
    obtain ys where y: "cb_view (IFETCH_BUFFER s) = ?i # ys" using cb_ends(1)[OF dd(2) ne] ne by (cases "cb_view (IFETCH_BUFFER s)") auto
    have b2: "cb_inv n b" "cb_view b = ys" using cb_pop_law[OF dd(2) y] b by auto
    let ?s = "s\<lparr>DECODE_BUFFER := q, IFETCH_BUFFER := b\<rparr>"
    have at: "rob_at j ?s = rob_at j s" for j by (simp add: rob_at_def)
    have pl: "pipeline ?s = pipeline s" by (simp add: pipeline_def window_def front_instrs_def at q2 y b2)
    have "order_inv n ?s"
      using o q2 b2 y unfolding order_inv_def pl at by (auto simp: front_instrs_def)
    moreover have "sched_inv E ?s" by (rule sched_inv_more[of E s]) (use Suc.prems(1) in \<open>simp_all add: core_inv_def\<close>)
    ultimately show ?thesis using Suc.IH[OF _ rest] by (simp add: core_inv_def)
  next
    case False
    with Suc.prems show ?thesis by (auto simp: Let_def)
  qed
qed simp

lemma core_inv_fetch_instruction:
  assumes ok: "core_inv n E s" and r: "fetch_instruction E clk s = Some s'"
  shows "core_inv n E s' \<and> num_retired s' = num_retired s"
proof -
  define s1 where "s1 = (if fetch_stall s \<and> now clk \<ge> fetch_resume_cycle s \<and> fetch_resume_cycle s \<noteq> 0
               then s\<lparr>fetch_stall := False, fetch_resume_cycle := 0\<rparr> else s)"
  have c1: "core_inv n E s1" "num_retired s1 = num_retired s" using ok by (auto simp: s1_def intro: core_inv_frame)
  show ?thesis
  proof (cases "cb_empty (IFETCH_BUFFER s1)")
    case True
    with r c1 show ?thesis by (simp add: fetch_instruction_def s1_def[symmetric] Let_def)
  next
    case False
    define s2 where "s2 = foldl (\<lambda>s k. dib_check E clk k s) s1 [0..<min (unat (occupancy (IFETCH_BUFFER s1))) (FETCH_WIDTH E)]"
    obtain s3 s4 where s3: "translate_run E clk s2 = Some s3" "fetch_run E clk s3 = Some s4" "send_to_decode (FETCH_WIDTH E) clk s4 = Some s'"
      using r False by (auto simp: fetch_instruction_def s1_def[symmetric] s2_def[symmetric] Let_def bind_eq_Some_conv)
    have sk: "skel s4 = skel s1"
      using skel_translate_run[OF s3(1)] skel_fetch_run[OF s3(2)] skel_dib_checks by (simp add: s2_def)
    from core_inv_send_to_decode[OF core_inv_skel[OF c1(1) sk] s3(3)] skelD(8)[OF sk] c1(2) show ?thesis by simp
  qed
qed

end
