(* ===== verification/CoreCycle.thy ===== *)
theory CoreCycle
  imports CoreMemory
begin

text \<open>
  A cycle of the core, from \<^verbatim>\<open>src/main.cc\<close>, and runs of cycles.
\<close>

section \<open>A cycle of the core\<close>

text \<open>The loop over a cycle in \<^verbatim>\<open>src/main.cc\<close>: first the ten stages, from retirement to fetch, then the reading of the trace.\<close>

definition core_stages :: "('b, 'p, 'm) core_env \<Rightarrow> clock \<Rightarrow> ('b, 'p, 'm) core \<Rightarrow> ('b, 'p, 'm) core option" where
  "core_stages E clk s = do {
     s \<leftarrow> retire_rob E clk s;
     s \<leftarrow> complete_inflight_instruction E clk s;
     s \<leftarrow> execute_instruction E clk s;
     s \<leftarrow> schedule_instruction E clk s;
     s \<leftarrow> handle_memory_return E clk s;
     s \<leftarrow> execute_memory_instruction E clk s;
     s \<leftarrow> schedule_memory_instruction E clk s;
     s \<leftarrow> dispatch_instruction E clk s;
     s \<leftarrow> decode_instruction E clk s;
     fetch_instruction E clk s }"

text \<open>
  The trace gives the instruction for each number; it never ends, because the reader starts again at the end of the file. The loop
  goes on for as long as \<open>init_instruction\<close> asks for more. The number of its rounds is bounded by the fuel \<open>n\<close>; a loop that is
  cut off by the bound is \<open>Unfinished\<close>, a result of its own that is not the \<open>Failed\<close> of an assertion.
\<close>

datatype 's reading = Finished 's | Failed | Unfinished

primrec read_trace ::
  "nat \<Rightarrow> ('b, 'p, 'm) core_env \<Rightarrow> (nat \<Rightarrow> ooo_model_instr) \<Rightarrow> clock \<Rightarrow> ('b, 'p, 'm) core \<Rightarrow> ('b, 'p, 'm) core reading" where
  "read_trace 0 E trace clk s = Unfinished"
| "read_trace (Suc n) E trace clk s =
     (let i = trace (unat (instr_unique_id s))
      in if oi_ip i = 0 then Failed
         else case init_instruction E clk i s of
                None \<Rightarrow> Failed
              | Some (left, s) \<Rightarrow> if left \<noteq> 0 then read_trace n E trace clk s else Finished s)"

text \<open>A cycle reads at most \<^verbatim>\<open>FETCH_WIDTH\<close> instructions, which is the fuel here; that it never runs out is proved (\<open>reading_ends\<close>).\<close>

definition reads_now :: "('b, 'p, 'm) core \<Rightarrow> bool" where
  "reads_now s \<longleftrightarrow> \<not> cb_full (IFETCH_BUFFER s) \<and> \<not> fetch_stall s"

definition core_cycle ::
  "('b, 'p, 'm) core_env \<Rightarrow> (nat \<Rightarrow> ooo_model_instr) \<Rightarrow> clock \<Rightarrow> ('b, 'p, 'm) core \<Rightarrow> ('b, 'p, 'm) core option" where
  "core_cycle E trace clk s = do {
     s \<leftarrow> core_stages E clk s;
     if reads_now s
     then (case read_trace (FETCH_WIDTH E) E trace clk s of Finished s \<Rightarrow> Some s | Failed \<Rightarrow> None | Unfinished \<Rightarrow> None)
     else Some s }"

text \<open>A run: in every cycle the clock is given, and before it the levels below may have changed (\<open>beneath\<close>).\<close>

primrec core_run ::
  "('b, 'p, 'm) core_env \<Rightarrow> (nat \<Rightarrow> ooo_model_instr) \<Rightarrow> (clock \<times> ('m \<Rightarrow> 'm)) list \<Rightarrow> ('b, 'p, 'm) core \<Rightarrow> ('b, 'p, 'm) core option" where
  "core_run E trace [] s = Some s"
| "core_run E trace (c # cs) s =
     Option.bind (core_cycle E trace (fst c) (s\<lparr>memory := snd c (memory s)\<rparr>)) (core_run E trace cs)"

end
