(* ===== verification/CoreRuns.thy ===== *)
theory CoreRuns
  imports CoreMoves CoreCycle
begin

text \<open>
  Reading the trace, a cycle of the core and runs of cycles: every reachable state satisfies the invariant.
\<close>

section \<open>Reading the trace\<close>

lemma fresh_fields [simp]:
  "fresh_instr (e\<lparr>oi_num_reg_ops := a\<rparr>) = fresh_instr e" "fresh_instr (e\<lparr>oi_num_mem_ops := a\<rparr>) = fresh_instr e"
  "fresh_instr (e\<lparr>oi_is_memory := b\<rparr>) = fresh_instr e" "fresh_instr (e\<lparr>oi_is_branch := b\<rparr>) = fresh_instr e"
  "fresh_instr (e\<lparr>oi_branch_type := t\<rparr>) = fresh_instr e" "fresh_instr (e\<lparr>oi_branch_taken := b\<rparr>) = fresh_instr e"
  "fresh_instr (e\<lparr>oi_branch_target := u\<rparr>) = fresh_instr e" "fresh_instr (e\<lparr>oi_branch_mispredicted := u\<rparr>) = fresh_instr e"
  "fresh_instr (e\<lparr>oi_branch_mispredicted_all := b\<rparr>) = fresh_instr e" "fresh_instr (e\<lparr>oi_instr_id := u\<rparr>) = fresh_instr e"
  by (simp_all add: fresh_instr_def entry_ok_def einstrs_def edeps_def)

lemma fresh_registers:
  "fresh_instr e \<Longrightarrow> length ds = 4 \<Longrightarrow> fresh_instr (e\<lparr>oi_destination_registers := ds\<rparr>)"
  "fresh_instr e \<Longrightarrow> length ss = 4 \<Longrightarrow> fresh_instr (e\<lparr>oi_source_registers := ss\<rparr>)"
  by (simp_all add: fresh_instr_def entry_ok_def einstrs_def edeps_def)

lemma fresh_lengths: "fresh_instr e \<Longrightarrow> length (oi_source_registers e) = 4 \<and> length (oi_destination_registers e) = 4"
  by (simp add: fresh_instr_def entry_ok_def)

definition moving_part where
  "moving_part s = (ROB s, ready_to_execute s, DISPATCH_BUFFER s, DECODE_BUFFER s, IFETCH_BUFFER s, num_retired s, instr_unique_id s)"

lemma moving_partD:
  assumes "moving_part s' = moving_part s"
  shows "ROB s' = ROB s" "ready_to_execute s' = ready_to_execute s" "DISPATCH_BUFFER s' = DISPATCH_BUFFER s" "DECODE_BUFFER s' = DECODE_BUFFER s"
    "IFETCH_BUFFER s' = IFETCH_BUFFER s" "num_retired s' = num_retired s" "instr_unique_id s' = instr_unique_id s"
  using assms by (simp_all add: moving_part_def)

lemma count_ops_frame: "fresh_instr (count_ops E i) = fresh_instr i" "oi_instr_id (count_ops E i) = oi_instr_id i"
  by (simp_all add: count_ops_def Let_def)

lemma set_branch_frame: "fresh_instr (set_branch E i) = fresh_instr i" "oi_instr_id (set_branch E i) = oi_instr_id i"
  by (simp_all add: set_branch_def Let_def split: option.splits)

lemma fold_sp_frame: "fresh_instr i \<Longrightarrow> fresh_instr (fold_sp E i)" "oi_instr_id (fold_sp E i) = oi_instr_id i"
  by (auto simp: fold_sp_def dest_regs_def intro!: fresh_registers dest: fresh_lengths)

lemma clear_registers_frame: "fresh_instr i \<Longrightarrow> fresh_instr (clear_registers E i)" "oi_instr_id (clear_registers E i) = oi_instr_id i"
  by (auto simp: clear_registers_def dest_regs_def intro!: fresh_registers dest: fresh_lengths)

lemma trace_instr_frame:
  assumes "trace_instr E i s = Some (j, s')"
  shows "moving_part s' = moving_part s" "instrs_to_read_this_cycle s' = instrs_to_read_this_cycle s"
    "fresh_instr i \<Longrightarrow> fresh_instr j" "oi_instr_id j = oi_instr_id i"
proof -
  have "moving_part s' = moving_part s \<and> instrs_to_read_this_cycle s' = instrs_to_read_this_cycle s \<and>
    (fresh_instr i \<longrightarrow> fresh_instr j) \<and> oi_instr_id j = oi_instr_id i"
  proof (cases "pt E")
    case False
    with assms obtain sta where "j = fold_sp E (set_branch E (count_ops E i))" and "\<exists>t. s' = s\<lparr>STA := sta, total_branch_types := t\<rparr>"
      by (auto simp: trace_instr_def Let_def bind_eq_Some_conv split: if_splits)
    then show ?thesis
      using fold_sp_frame(1)[of "set_branch E (count_ops E i)" E] by (auto simp: moving_part_def fold_sp_frame(2) set_branch_frame count_ops_frame)
  qed (use assms in \<open>simp add: trace_instr_def\<close>)
  then show "moving_part s' = moving_part s" "instrs_to_read_this_cycle s' = instrs_to_read_this_cycle s"
    "fresh_instr i \<Longrightarrow> fresh_instr j" "oi_instr_id j = oi_instr_id i" by auto
qed

lemma settle_prediction_frame:
  assumes "settle_prediction E clk i target s = (j, s')"
  shows "moving_part s' = moving_part s \<and> instrs_to_read_this_cycle s' \<in> {0, instrs_to_read_this_cycle s} \<and>
    fresh_instr j = fresh_instr i \<and> oi_instr_id j = oi_instr_id i"
  using assms by (auto simp: settle_prediction_def Let_def moving_part_def split: if_splits)

lemma moving_part_simps [simp]:
  "moving_part (s\<lparr>num_branch := a\<rparr>) = moving_part s" "moving_part (s\<lparr>l1i_pf := p\<rparr>) = moving_part s"
  "moving_part (s\<lparr>bpu := b\<rparr>) = moving_part s" "moving_part (s\<lparr>instrs_to_read_this_cycle := a\<rparr>) = moving_part s"
  "moving_part (s\<lparr>predicted_taken_branch_count := a, btb_miss_taken_branch_count := c\<rparr>) = moving_part s"
  by (simp_all add: moving_part_def)

lemma predict_instr_frame:
  assumes r: "predict_instr E clk i s = Some (j, s')"
  shows "moving_part s' = moving_part s \<and> instrs_to_read_this_cycle s' \<in> {0, instrs_to_read_this_cycle s} \<and>
    fresh_instr j = fresh_instr i \<and> oi_instr_id j = oi_instr_id i"
proof (cases "oi_is_branch i")
  case True
  note d = if_distrib[of moving_part] if_distrib[of instrs_to_read_this_cycle] if_distrib[of fresh_instr] if_distrib[of oi_instr_id]
  from r True show ?thesis
    by (clarsimp simp: predict_instr_def Let_def bind_eq_Some_conv)
      (clarsimp simp: bind_eq_Some_conv split: prod.split_asm, drule settle_prediction_frame, auto simp: d split: if_splits)
qed (use r in \<open>simp add: predict_instr_def\<close>)

lemma init_instruction_law:
  assumes ok: "core_inv (Suc n) E s" and i: "fresh_instr i" and r: "init_instruction E clk i s = Some (left, s')"
  shows "core_inv n E s' \<and> num_retired s' = num_retired s \<and> left = instrs_to_read_this_cycle s' \<and>
    instrs_to_read_this_cycle s' \<in> {0, (if instrs_to_read_this_cycle s = 0
      then of_nat (min (FETCH_WIDTH E) (cb_size (IFETCH_BUFFER s) - unat (occupancy (IFETCH_BUFFER s)))) else instrs_to_read_this_cycle s) - 1}"
proof -
  define k where "k = (if instrs_to_read_this_cycle s = 0
      then of_nat (min (FETCH_WIDTH E) (cb_size (IFETCH_BUFFER s) - unat (occupancy (IFETCH_BUFFER s)))) else instrs_to_read_this_cycle s)"
  define s1 where "s1 = s\<lparr>instrs_to_read_this_cycle := k - 1\<rparr>"
  obtain i2 s2 i3 s3 where s2: "trace_instr E (i\<lparr>oi_instr_id := instr_unique_id s1\<rparr>) s1 = Some (i2, s2)"
    and s3: "predict_instr E clk i2 s2 = Some (i3, s3)"
    and rest: "(let i = i3\<lparr>oi_event_cycle := now clk\<rparr>; i = (if warm clk then i else clear_registers E i)
      in Option.bind (cb_push_back i (IFETCH_BUFFER s3)) (\<lambda>b. let s = s3\<lparr>IFETCH_BUFFER := b, instr_unique_id := instr_unique_id s3 + 1\<rparr>
        in Some (instrs_to_read_this_cycle s, s))) = Some (left, s')"
    using r unfolding init_instruction_def k_def[symmetric] Let_def s1_def[symmetric] by (auto simp: bind_eq_Some_conv)
  define j where "j = (if warm clk then i3\<lparr>oi_event_cycle := now clk\<rparr> else clear_registers E (i3\<lparr>oi_event_cycle := now clk\<rparr>))"
  obtain b where b: "cb_push_back j (IFETCH_BUFFER s3) = Some b" and s': "s' = s3\<lparr>IFETCH_BUFFER := b, instr_unique_id := instr_unique_id s3 + 1\<rparr>"
    and left: "left = instrs_to_read_this_cycle s3"
    using rest unfolding Let_def j_def[symmetric] by (auto simp: bind_eq_Some_conv)
  note f2 = trace_instr_frame[OF s2] and f3 = predict_instr_frame[OF s3]
  have mv: "moving_part s3 = moving_part s" using f2(1) f3 by (simp add: s1_def)
  note m = moving_partD[OF mv]
  have "fresh_instr i2" by (rule f2(3)) (use i in simp)
  then have j: "fresh_instr j" "oi_instr_id j = instr_unique_id s"
    using f3 f2(4) by (auto simp: j_def s1_def clear_registers_frame(2) intro!: clear_registers_frame(1))
  have o: "order_inv (Suc n) s" using ok by (simp add: core_inv_def)
  then have cb: "cb_inv (Suc n) (IFETCH_BUFFER s)" by (simp add: order_inv_def)
  have nf: "\<not> cb_full (IFETCH_BUFFER s)" using b by (auto simp: m(5) cb_push_back_def split: if_splits)
  have b2: "cb_inv n b" "cb_view b = cb_view (IFETCH_BUFFER s) @ [j]"
    using cb_push_law[OF cb, of j] cb_fullD[OF cb] nf b by (auto simp: m(5))
  have at: "rob_at l s' = rob_at l s" for l by (simp add: s' rob_at_def m)
  have u: "unat (instr_unique_id s + 1) = Suc (unat (instr_unique_id s))"
    by (rule unat_Suc[of _ n]) (use o in \<open>simp add: order_inv_def\<close>)
  have pl: "pipeline s' = pipeline s @ [j]" unfolding pipeline_def window_def front_instrs_def at by (simp add: s' m b2)
  have ids: "map oi_instr_id (pipeline s') = map of_nat [unat (num_retired s)..<Suc (unat (instr_unique_id s))]"
    using o j by (simp add: pl order_inv_def)
  have "\<forall>e\<in>set (front_instrs s'). fresh_instr e" using o j b2 by (auto simp: order_inv_def front_instrs_def s' m)
  then have "order_inv n s'"
    using order_inv_less[OF o, of n] o b2 u ids pl unfolding order_inv_def at by (simp add: s' m)
  moreover have "sched_inv E s'" by (rule sched_inv_more[of E s]) (use ok in \<open>simp_all add: core_inv_def s' m\<close>)
  ultimately show ?thesis using f2(2) f3 left unfolding k_def[symmetric] by (auto simp: core_inv_def s' m s1_def)
qed

lemma core_inv_read_trace:
  "core_inv (n + k) E s \<Longrightarrow> \<forall>i. fresh_instr (trace i) \<Longrightarrow> read_trace k E trace clk s = Finished s' \<Longrightarrow>
   core_inv n E s' \<and> num_retired s' = num_retired s"
proof (induction k arbitrary: s)
  case (Suc k)
  obtain left t where t: "init_instruction E clk (trace (unat (instr_unique_id s))) s = Some (left, t)"
    and rest: "(if left \<noteq> 0 then read_trace k E trace clk t else Finished t) = Finished s'"
    using Suc.prems(3) by (simp add: Let_def split: if_splits option.splits prod.splits)
  have c: "core_inv (n + k) E t \<and> num_retired t = num_retired s"
    using init_instruction_law[OF _ _ t, of "n + k"] Suc.prems(1,2) by simp
  show ?case
  proof (cases "left = 0")
    case True
    with rest c show ?thesis using core_inv_less[of "n + k" E t n] by auto
  next
    case False
    with rest c Suc.IH[of t] Suc.prems(2) show ?thesis by simp
  qed
qed simp

section \<open>Cycles\<close>

definition cycle_budget :: "('b, 'p, 'm) core_env \<Rightarrow> nat" where
  "cycle_budget E = FETCH_WIDTH E + DECODE_WIDTH E + DISPATCH_WIDTH E"

lemma core_inv_safe:
  assumes "core_inv n E s" "safe_step E f s" "f s = Some s'"
  shows "core_inv n E s' \<and> num_retired s' = num_retired s"
  using assms core_inv_step[of n E s s'] same_orderD(11)[of s s'] by (auto simp: safe_step_def)

text \<open>The middle of the machine never fails, where the cycle calls it.\<close>

lemma core_inv_middle:
  assumes ok: "core_inv n E s1"
  shows "\<exists>s2 s3 s4. complete_inflight_instruction E clk s1 = Some s2 \<and> execute_instruction E clk s2 = Some s3 \<and>
    schedule_instruction E clk s3 = Some s4 \<and> core_inv n E s4 \<and> same_order s1 s4"
proof -
  obtain s2 where s2: "complete_inflight_instruction E clk s1 = Some s2" "sched_inv E s2" "same_order s1 s2"
    using complete_inflight_instruction_law[of E s1 clk] ok by (auto simp: core_inv_def safe_step_def)
  obtain s3 where s3: "execute_instruction E clk s2 = Some s3" "sched_inv E s3" "same_order s2 s3"
    using execute_instruction_law[OF s2(2), of clk] by (auto simp: safe_step_def)
  obtain s4 where s4: "schedule_instruction E clk s3 = Some s4" "sched_inv E s4" "same_order s3 s4"
    using schedule_instruction_law[OF s3(2), of clk] by (auto simp: safe_step_def)
  note o = same_order_trans[OF same_order_trans[OF s2(3) s3(3)] s4(3)]
  from core_inv_step[OF ok s4(2) o] o s2(1) s3(1) s4(1) show ?thesis by blast
qed

lemma core_inv_memory_stages:
  assumes ok: "core_inv n E s4" and r: "handle_memory_return E clk s4 = Some s5" "execute_memory_instruction E clk s5 = Some s6"
    "schedule_memory_instruction E clk s6 = Some s7"
  shows "core_inv n E s7 \<and> num_retired s7 = num_retired s4 \<and> instrs_to_read_this_cycle s7 = instrs_to_read_this_cycle s4"
proof -
  have sk: "skel s6 = skel s4" using skel_handle_memory_return[OF r(1)] skel_execute_memory_instruction[OF r(2)] by simp
  have c6: "core_inv n E s6" by (rule core_inv_skel[OF ok sk])
  have "sched_inv E s7 \<and> same_order s6 s7" by (rule schedule_memory_law[OF _ r(3)]) (use c6 in \<open>simp add: core_inv_def\<close>)
  then show ?thesis using core_inv_step[OF c6] same_orderD(11,13)[of s6 s7] skelD(8,14)[OF sk] by simp
qed

lemma core_inv_core_stages:
  assumes ok: "core_inv (n + cycle_budget E) E s" and r: "core_stages E clk s = Some t"
  shows "core_inv (n + FETCH_WIDTH E) E t \<and> (\<exists>m\<le>RETIRE_WIDTH E. unat (num_retired t) = unat (num_retired s) + m \<and>
     m \<le> length (window s) \<and> (\<forall>i<m. oi_executed (window s ! i) = COMPLETED))"
proof -
  let ?N = "n + FETCH_WIDTH E + DECODE_WIDTH E + DISPATCH_WIDTH E"
  obtain s1 s2 s3 s4 s5 s6 s7 s8 s9 where s: "retire_rob E clk s = Some s1" "complete_inflight_instruction E clk s1 = Some s2"
    "execute_instruction E clk s2 = Some s3" "schedule_instruction E clk s3 = Some s4" "handle_memory_return E clk s4 = Some s5"
    "execute_memory_instruction E clk s5 = Some s6" "schedule_memory_instruction E clk s6 = Some s7"
    "dispatch_instruction E clk s7 = Some s8" "decode_instruction E clk s8 = Some s9" "fetch_instruction E clk s9 = Some t"
    using r by (auto simp: core_stages_def bind_eq_Some_conv)
  have c0: "core_inv ?N E s" using ok by (simp add: cycle_budget_def ac_simps)
  note c1 = core_inv_retire_rob[OF c0 s(1)]
  have c4: "core_inv ?N E s4" "num_retired s4 = num_retired s1"
    using core_inv_middle[OF conjunct1[OF c1], of clk] s(2-4) same_orderD(11)[of s1 s4] by auto
  note c7 = core_inv_memory_stages[OF c4(1) s(5-7)]
  have c8: "core_inv (n + FETCH_WIDTH E + DECODE_WIDTH E) E s8 \<and> num_retired s8 = num_retired s7"
    using core_inv_dispatch_instruction[of "n + FETCH_WIDTH E + DECODE_WIDTH E" E s7 clk] c7 s(8) by auto
  note c9 = core_inv_decode_instruction[OF conjunct1[OF c8] s(9)]
  note c10 = core_inv_fetch_instruction[OF conjunct1[OF c9] s(10)]
  have "num_retired t = num_retired s1" using c4(2) c7 c8 c9 c10 by simp
  with c1 c10 show ?thesis by (metis le_add1)
qed

lemma core_cycle_cases:
  assumes "core_cycle E trace clk s = Some s'"
  obtains t where "core_stages E clk s = Some t" "\<not> reads_now t" "s' = t"
    | t where "core_stages E clk s = Some t" "reads_now t" "read_trace (FETCH_WIDTH E) E trace clk t = Finished s'"
  using assms by (auto simp: core_cycle_def bind_eq_Some_conv split: if_splits reading.splits)

lemma core_inv_core_cycle:
  assumes ok: "core_inv (n + cycle_budget E) E s" and trace: "\<forall>i. fresh_instr (trace i)" and r: "core_cycle E trace clk s = Some s'"
  shows "core_inv n E s' \<and> (\<exists>m\<le>RETIRE_WIDTH E. unat (num_retired s') = unat (num_retired s) + m \<and> m \<le> length (window s) \<and>
     (\<forall>i<m. oi_executed (window s ! i) = COMPLETED))"
  using r
proof (cases rule: core_cycle_cases)
  case (1 t)
  from core_inv_core_stages[OF ok 1(1)] 1(3) core_inv_less[of "n + FETCH_WIDTH E" E t n] show ?thesis by auto
next
  case (2 t)
  note c = core_inv_core_stages[OF ok 2(1)]
  from core_inv_read_trace[OF conjunct1[OF c] trace 2(3)] c show ?thesis by auto
qed

lemma core_inv_core_run:
  "core_inv (n + length cs * cycle_budget E) E s \<Longrightarrow> \<forall>i. fresh_instr (trace i) \<Longrightarrow> core_run E trace cs s = Some s' \<Longrightarrow> core_inv n E s'"
proof (induction cs arbitrary: s)
  case (Cons c cs)
  obtain t where t: "core_cycle E trace (fst c) (s\<lparr>memory := snd c (memory s)\<rparr>) = Some t" "core_run E trace cs t = Some s'"
    using Cons.prems(3) by (auto simp: bind_eq_Some_conv)
  have "core_inv (n + length cs * cycle_budget E + cycle_budget E) E (s\<lparr>memory := snd c (memory s)\<rparr>)"
    by (rule core_inv_skel[of _ _ s]) (use Cons.prems(1) in \<open>simp_all add: ac_simps\<close>)
  from core_inv_core_cycle[OF this Cons.prems(2) t(1)] Cons.IH[OF _ Cons.prems(2) t(2)] show ?case by blast
qed simp

section \<open>The initial state\<close>

lemma core_inv_new_core:
  assumes "0 < ROB_SIZE E" "ROB_SIZE E \<le> 512" "DISPATCH_BUFFER_SIZE E + n < 2 ^ 63" "DECODE_BUFFER_SIZE E + n < 2 ^ 63"
  shows "core_inv n E (new_core E b p m)"
proof -
  let ?s = "new_core E b p m"
  have rob: "co_ok (ROB ?s)" "ring_indices (ROB ?s) = []" "length (co_entry (ROB ?s)) = ROB_SIZE E"
    using assms by (simp_all add: new_core_def core_buffer_new_def co_ok_def ring_indices_def)
  have ring: "ring_ok (ROB_SIZE E) (ready_to_execute ?s) []" "length (rg_slots (ready_to_execute ?s)) = ROB_SIZE E"
    using ring_ok_new[OF assms(1), of "ROB_SIZE E"] by (simp_all add: new_core_def) (simp add: ring_new_def)
  have "deps_ok E nobody [] (\<lambda>i. rob_at i ?s) []" by (simp add: deps_ok_def)
  then have "sched_inv E ?s" using rob ring assms(2) by (auto simp: sched_inv_def)
  moreover have pl: "pipeline ?s = []" "front_instrs ?s = []"
    using rob(2) dq_safe_new(2) cb_new_inv(2) by (auto simp: pipeline_def window_def front_instrs_def) (auto simp: new_core_def dq_safe_new cb_new_inv)
  have "rob_at i ?s = new_instr" if "i < ROB_SIZE E" for i using that by (simp add: rob_at_def new_core_def core_buffer_new_def)
  then have "order_inv n ?s"
    unfolding order_inv_def pl using rob assms(3,4) dq_safe_new(1) cb_new_inv(1)[of n new_instr] by (auto simp: new_core_def)
  ultimately show ?thesis by (simp add: core_inv_def)
qed

lemma core_inv_reachable:
  assumes sizes: "0 < ROB_SIZE E" "ROB_SIZE E \<le> 512"
    and budget: "DISPATCH_BUFFER_SIZE E + DECODE_BUFFER_SIZE E + n + length cs * cycle_budget E < 2 ^ 63"
    and trace: "\<forall>i. fresh_instr (trace i)" and run: "core_run E trace cs (new_core E b p m) = Some s"
  shows "core_inv n E s"
  using core_inv_core_run[OF core_inv_new_core[OF sizes] trace run, of n] budget by simp

text \<open>An instruction built from a record of a trace is fresh.\<close>

lemma fresh_more_fields [simp]:
  "fresh_instr (e\<lparr>oi_destination_memory := a\<rparr>) = fresh_instr e" "fresh_instr (e\<lparr>oi_source_memory := a\<rparr>) = fresh_instr e"
  "fresh_instr (e\<lparr>oi_ip := u\<rparr>) = fresh_instr e" "fresh_instr (e\<lparr>oi_asid := b\<rparr>) = fresh_instr e"
  by (simp_all add: fresh_instr_def entry_ok_def einstrs_def edeps_def)

lemma fresh_new_instr_ok: "fresh_instr new_instr"
proof -
  have "replicate 4 x ! j = x" if "j < 4" for j and x :: 'c using that by simp
  then show ?thesis
    by (simp add: fresh_instr_def entry_ok_def einstrs_def edeps_def new_instr_def NUM_INSTR_SOURCES_def NUM_INSTR_DESTINATIONS_SPARC_def)
qed

lemma fresh_instr_of_input:
  assumes "length (ii_destination_registers i) \<le> 4" "length (ii_source_registers i) = 4"
  shows "fresh_instr (instr_of_input cpu i)" "fresh_instr (instr_of_cloudsuite i)"
  using assms fresh_new_instr_ok fresh_lengths[OF fresh_new_instr_ok]
  by (auto simp: instr_of_input_def instr_of_cloudsuite_def copy_to_def intro!: fresh_registers)

end
