(* ===== verification/CoreExample.thy ===== *)
theory CoreExample
  imports CoreRuns
begin

text \<open>
  A small machine on which the properties of the core are applied: a reorder buffer of two slots, caches that answer at once, and a
  trace in which every instruction reads the register that the one before it writes. After eleven cycles both are in the reorder buffer.
\<close>

definition prompt_cache :: "nat \<Rightarrow> unit consumer" where
  "prompt_cache bus =
     \<lparr>c_add_rq = (\<lambda>clk pkt m. Some (0, [(bus, pkt\<lparr>pk_data := pk_address pkt\<rparr>)], m)), c_add_wq = (\<lambda>clk pkt m. Some (0, [], m)),
      c_add_pq = (\<lambda>clk pkt m. Some (0, [], m)), c_increment_WQ_FULL = (\<lambda>a m. m),
      c_get_occupancy = (\<lambda>q a m. 0), c_get_size = (\<lambda>q a m. 0)\<rparr>"

definition small_core :: "(unit, unit, unit) core_env" where
  "small_core =
     \<lparr>IFETCH_BUFFER_SIZE = 2, DECODE_BUFFER_SIZE = 2, DISPATCH_BUFFER_SIZE = 2, ROB_SIZE = 2, LQ_SIZE = 1, SQ_SIZE = 1,
      FETCH_WIDTH = 2, DECODE_WIDTH = 2, DISPATCH_WIDTH = 2, EXEC_WIDTH = 2, LQ_WIDTH = 1, SQ_WIDTH = 1, RETIRE_WIDTH = 2,
      BRANCH_MISPREDICT_PENALTY = 1, SCHEDULER_SIZE = 4, DECODE_LATENCY = 0, DISPATCH_LATENCY = 0, SCHEDULING_LATENCY = 0,
      EXEC_LATENCY = 0, LOG2_DIB_WINDOW_SIZE = 4, DIB_SET = 1, DIB_WAY = 1,
      ITLB_MAX_READ = 2, DTLB_MAX_READ = 2, L1I_MAX_READ = 2, L1D_MAX_READ = 2,
      pt = True, knob_cloudsuite = False, perfect_bp = False, perfect_btb = False, perfect_bpu = False, MAX_INSTR_DESTINATIONS = 2,
      b_btb_prediction = (\<lambda>ip t b. Some ((0, 0), 0, b)), b_predict_branch = (\<lambda>ip tg a t b. Some (0, b)),
      b_update_btb = (\<lambda>ip tg a t b. Some b), b_last_branch_result = (\<lambda>ip tg a t b. Some b),
      p_branch_operate = (\<lambda>ip t tg a b u p. p), p_cycle_operate = (\<lambda>b f p m. Some (p, m)), p_resolved_branch = (\<lambda>i b p. (False, p)),
      m_itlb = prompt_cache ITLB_bus, m_dtlb = prompt_cache DTLB_bus, m_l1i = prompt_cache L1I_bus, m_l1d = prompt_cache L1D_bus,
      m_prefetch_code_line = (\<lambda>clk a m. Some (True, m)), m_operate = (\<lambda>c clk m. Some ([], m))\<rparr>"

definition chain_trace :: "nat \<Rightarrow> ooo_model_instr" where
  "chain_trace n = instr_of_input 0 \<lparr>ii_ip = 1 + of_nat n, ii_is_branch = False, ii_branch_taken = False,
     ii_destination_registers = [1, 0], ii_source_registers = [1, 0, 0, 0], ii_destination_memory = [0, 0], ii_source_memory = [0, 0, 0, 0]\<rparr>"

definition cycle_clock :: "nat \<Rightarrow> clock" where
  "cycle_clock k = \<lparr>current_core_cycle = (\<lambda>_. of_nat k), warmup_complete = (\<lambda>_. True), all_warmup_complete = 1\<rparr>"

definition small_cycles :: "nat \<Rightarrow> (clock \<times> (unit \<Rightarrow> unit)) list" where
  "small_cycles n = map (\<lambda>k. (cycle_clock k, id)) [0..<n]"

definition small_run :: "nat \<Rightarrow> (unit, unit, unit) core option" where
  "small_run n = core_run small_core chain_trace (small_cycles n) (new_core small_core () () ())"

text \<open>What is looked at: the instructions of the window with their state, the numbers of retired and read ones and the ready queue.\<close>

definition look ::
  "('b, 'p, 'm) core \<Rightarrow> (u64 \<times> u8 \<times> u8 \<times> int \<times> u8 list \<times> u8 list \<times> bool) list \<times> nat \<times> nat \<times> nat list" where
  "look s =
     (map (\<lambda>e. (oi_instr_id e, oi_scheduled e, oi_executed e, oi_num_reg_dependent e, oi_source_registers e, oi_destination_registers e,
                oi_is_memory e)) (window s),
      unat (num_retired s), unat (instr_unique_id s), rg_slots (ready_to_execute s))"

lemma small_run_looks:
  "map_option (\<lambda>s. (look s, map_option look (core_cycle small_core chain_trace (cycle_clock 11) s))) (small_run 11) =
     Some (([(0, 2, 2, 0, [1, 0, 0, 0], [1, 0, 0, 0], False), (1, 2, 1, 0, [1, 0, 0, 0], [1, 0, 0, 0], False)], 0, 8, [2, 2]),
       Some ([(1, 2, 2, 0, [1, 0, 0, 0], [1, 0, 0, 0], False), (2, 0, 0, 0, [1, 0, 0, 0], [1, 0, 0, 0], False)], 1, 9, [2, 2]))"
  by code_simp

end
