(* ===== verification/CoreReading.thy ===== *)
theory CoreReading
  imports CoreRuns
begin

text \<open>
  The loop that reads the trace ends: the number of instructions left to read this cycle is 0 whenever a cycle begins, no stage changes it, the
  first instruction sets it and every one counts it down.
\<close>

section \<open>The stages leave the number alone\<close>

lemma to_read_skel: "skel s' = skel s \<Longrightarrow> instrs_to_read_this_cycle s' = instrs_to_read_this_cycle s"
  by (rule skelD)

lemma to_read_retire_loop:
  "retire_loop k E clk s = Some s' \<Longrightarrow> instrs_to_read_this_cycle s' = instrs_to_read_this_cycle s"
proof (induction k arbitrary: s)
  case (Suc k)
  have rel: "instrs_to_read_this_cycle (release_rob u) = instrs_to_read_this_cycle u" for u :: "('a, 'b, 'c) core"
    by (simp add: release_rob_def upd_rob_def Let_def)
  show ?case
    using Suc.prems
    by (auto simp: Let_def bind_eq_Some_conv rel split: if_splits
        dest!: Suc.IH to_read_skel[OF skel_write_stores] to_read_skel[OF keepsD[OF keeps_try_all[OF skel_release_store]]])
qed simp

lemma to_read_retire_rob: "retire_rob E clk s = Some s' \<Longrightarrow> instrs_to_read_this_cycle s' = instrs_to_read_this_cycle s"
  by (auto simp: retire_rob_def Let_def split: if_splits dest: to_read_retire_loop)

lemma to_read_dispatch_loop: "dispatch_loop k clk s = Some s' \<Longrightarrow> instrs_to_read_this_cycle s' = instrs_to_read_this_cycle s"
proof (induction k arbitrary: s)
  case (Suc k)
  have "dispatch_one clk s = Some t \<Longrightarrow> instrs_to_read_this_cycle t = instrs_to_read_this_cycle s" for t
    by (auto simp: dispatch_one_def bind_eq_Some_conv Let_def)
  with Suc show ?case by (fastforce simp: bind_eq_Some_conv split: if_splits)
qed simp

lemma to_read_decode_one: "decode_one E clk s = Some t \<Longrightarrow> instrs_to_read_this_cycle t = instrs_to_read_this_cycle s"
  by (auto simp: decode_one_def bind_eq_Some_conv Let_def resolved_branch_def split: prod.splits if_splits)

lemma to_read_decode_loop: "decode_loop k E clk s = Some s' \<Longrightarrow> instrs_to_read_this_cycle s' = instrs_to_read_this_cycle s"
  by (induction k arbitrary: s) (auto simp: bind_eq_Some_conv split: if_splits dest: to_read_decode_one)

lemma to_read_send: "send_to_decode k clk s = Some s' \<Longrightarrow> instrs_to_read_this_cycle s' = instrs_to_read_this_cycle s"
proof (induction k arbitrary: s)
  case (Suc k)
  then show ?case by (auto simp: Let_def bind_eq_Some_conv split: if_splits dest!: Suc.IH)
qed simp

lemma to_read_dib [simp]: "instrs_to_read_this_cycle (foldl (\<lambda>s k. dib_check E clk k s) s ks) = instrs_to_read_this_cycle s"
  by (rule to_read_skel[OF skel_dib_checks])

lemma to_read_front_stages:
  "dispatch_instruction E clk s = Some s' \<Longrightarrow> instrs_to_read_this_cycle s' = instrs_to_read_this_cycle s"
  "decode_instruction E clk s = Some s' \<Longrightarrow> instrs_to_read_this_cycle s' = instrs_to_read_this_cycle s"
  "fetch_instruction E clk s = Some s' \<Longrightarrow> instrs_to_read_this_cycle s' = instrs_to_read_this_cycle s"
  by (auto simp: dispatch_instruction_def decode_instruction_def fetch_instruction_def Let_def bind_eq_Some_conv split: if_splits
      dest!: to_read_dispatch_loop to_read_decode_loop to_read_send to_read_skel[OF skel_translate_run] to_read_skel[OF skel_fetch_run])

lemma to_read_core_stages:
  assumes ok: "core_inv n E s" and r: "core_stages E clk s = Some t"
  shows "instrs_to_read_this_cycle t = instrs_to_read_this_cycle s"
proof -
  obtain s1 s2 s3 s4 s5 s6 s7 s8 s9 where s: "retire_rob E clk s = Some s1" "complete_inflight_instruction E clk s1 = Some s2"
    "execute_instruction E clk s2 = Some s3" "schedule_instruction E clk s3 = Some s4" "handle_memory_return E clk s4 = Some s5"
    "execute_memory_instruction E clk s5 = Some s6" "schedule_memory_instruction E clk s6 = Some s7"
    "dispatch_instruction E clk s7 = Some s8" "decode_instruction E clk s8 = Some s9" "fetch_instruction E clk s9 = Some t"
    using r by (auto simp: core_stages_def bind_eq_Some_conv)
  from core_inv_retire_rob[OF ok s(1)] have "core_inv n E s1" by simp
  from core_inv_middle[OF this, of clk] s(2-4) have m: "core_inv n E s4" "same_order s1 s4" by auto
  show ?thesis
    using to_read_retire_rob[OF s(1)] same_orderD(13)[OF m(2)] core_inv_memory_stages[OF m(1) s(5-7)]
      to_read_front_stages(1)[OF s(8)] to_read_front_stages(2)[OF s(9)] to_read_front_stages(3)[OF s(10)] by simp
qed

section \<open>The loop\<close>

lemma trace_instr_counts:
  "trace_instr E i s = Some (j, s') \<Longrightarrow> instr_unique_id s' = instr_unique_id s \<and> instrs_to_read_this_cycle s' = instrs_to_read_this_cycle s"
  using moving_partD(7)[OF trace_instr_frame(1)] trace_instr_frame(2) by metis

lemma predict_instr_counts:
  "predict_instr E clk i s = Some (j, s') \<Longrightarrow> instr_unique_id s' = instr_unique_id s \<and>
   instrs_to_read_this_cycle s' \<in> {0, instrs_to_read_this_cycle s}"
  using predict_instr_frame[of E clk i s j s'] moving_partD(7) by metis

lemma init_instruction_counts:
  assumes r: "init_instruction E clk i s = Some (left, s')"
  shows "left = instrs_to_read_this_cycle s' \<and> instr_unique_id s' = instr_unique_id s + 1 \<and>
    left \<in> {0, (if instrs_to_read_this_cycle s = 0
      then of_nat (min (FETCH_WIDTH E) (cb_size (IFETCH_BUFFER s) - unat (occupancy (IFETCH_BUFFER s)))) else instrs_to_read_this_cycle s) - 1}"
  using r unfolding init_instruction_def Let_def
  by (auto simp: bind_eq_Some_conv split: if_splits dest!: trace_instr_counts predict_instr_counts)

definition reads_within ::
  "nat \<Rightarrow> nat \<Rightarrow> ('b, 'p, 'm) core_env \<Rightarrow> (nat \<Rightarrow> ooo_model_instr) \<Rightarrow> clock \<Rightarrow> ('b, 'p, 'm) core \<Rightarrow> bool" where
  "reads_within n b E trace clk s \<longleftrightarrow>
     (\<forall>k. read_trace (n + k) E trace clk s = read_trace n E trace clk s) \<and>
     (read_trace n E trace clk s = Failed \<or>
      (\<exists>s' m. read_trace n E trace clk s = Finished s' \<and> 0 < m \<and> m \<le> b \<and>
         instr_unique_id s' = instr_unique_id s + of_nat m \<and> instrs_to_read_this_cycle s' = 0))"

lemma reads_within_Suc:
  assumes step: "\<And>left t. init_instruction E clk (trace (unat (instr_unique_id s))) s = Some (left, t) \<Longrightarrow> left \<noteq> 0 \<Longrightarrow>
      reads_within n b E trace clk t"
  shows "reads_within (Suc n) (Suc b) E trace clk s"
proof (cases "oi_ip (trace (unat (instr_unique_id s))) = 0 \<or> init_instruction E clk (trace (unat (instr_unique_id s))) s = None")
  case True
  then show ?thesis by (auto simp: reads_within_def Let_def)
next
  case False
  then obtain left t where t: "oi_ip (trace (unat (instr_unique_id s))) \<noteq> 0"
    "init_instruction E clk (trace (unat (instr_unique_id s))) s = Some (left, t)" by auto
  note c = init_instruction_counts[OF t(2)]
  have r: "read_trace (Suc k) E trace clk s = (if left \<noteq> 0 then read_trace k E trace clk t else Finished t)" for k
    using t by (simp add: Let_def)
  show ?thesis
  proof (cases "left = 0")
    case True
    with c r show ?thesis by (auto simp: reads_within_def simp del: read_trace.simps intro!: exI[of _ 1])
  next
    case False
    note w = step[OF t(2) False, unfolded reads_within_def]
    have "\<exists>m'. 0 < m' \<and> m' \<le> Suc b \<and> instr_unique_id t + of_nat m = instr_unique_id s + of_nat m'" if "m \<le> b" for m
      using that c by (intro exI[of _ "Suc m"]) simp
    with w False show ?thesis unfolding reads_within_def by (fastforce simp: r simp del: read_trace.simps)
  qed
qed

lemma reads_within_left:
  "instrs_to_read_this_cycle s \<noteq> 0 \<Longrightarrow> unat (instrs_to_read_this_cycle s) \<le> b \<Longrightarrow> b \<le> n \<Longrightarrow> reads_within n b E trace clk s"
proof (induction n arbitrary: s b)
  case 0
  then show ?case by (simp add: unat_eq_0)
next
  case (Suc n)
  obtain c where b: "b = Suc c" using Suc.prems(1,2) by (cases b) (auto simp: unat_eq_0)
  have one: "unat (instrs_to_read_this_cycle s - 1) \<le> c" using Suc.prems(1,2) b by (simp add: unat_minus_one)
  show ?case unfolding b
  proof (rule reads_within_Suc)
    fix left t assume t: "init_instruction E clk (trace (unat (instr_unique_id s))) s = Some (left, t)" "left \<noteq> 0"
    show "reads_within n c E trace clk t"
      using init_instruction_counts[OF t(1)] t(2) Suc.prems b one by (intro Suc.IH) auto
  qed
qed

lemma reads_within_width:
  assumes w: "0 < FETCH_WIDTH E" "FETCH_WIDTH E < 2 ^ 64" and z: "instrs_to_read_this_cycle s = 0"
    and b: "cb_inv n (IFETCH_BUFFER s)" "\<not> cb_full (IFETCH_BUFFER s)"
  shows "reads_within (FETCH_WIDTH E) (min (FETCH_WIDTH E) (cb_size (IFETCH_BUFFER s) - unat (occupancy (IFETCH_BUFFER s)))) E trace clk s"
proof -
  let ?k = "min (FETCH_WIDTH E) (cb_size (IFETCH_BUFFER s) - unat (occupancy (IFETCH_BUFFER s)))"
  obtain f where f: "FETCH_WIDTH E = Suc f" using w(1) by (cases "FETCH_WIDTH E") auto
  have k: "0 < ?k" "?k < 2 ^ 64" using w b(2) cb_fullD[OF b(1)] cb_inv_occupancy[OF b(1)] by auto
  then obtain j where j: "?k = Suc j" by (cases ?k) auto
  from k have "unat (of_nat ?k :: u64) = ?k" by (simp only: unat_of_nat) simp
  then have u: "unat (of_nat ?k - 1 :: u64) = j" using unat_minus_one[of "of_nat ?k :: u64"] j by force
  show ?thesis unfolding j unfolding f
  proof (rule reads_within_Suc)
    fix left t assume t: "init_instruction E clk (trace (unat (instr_unique_id s))) s = Some (left, t)" "left \<noteq> 0"
    have "left = of_nat ?k - 1" "instrs_to_read_this_cycle t = left"
      using init_instruction_counts[OF t(1)] t(2) z by auto
    then show "reads_within f j E trace clk t"
      using t(2) u j f by (intro reads_within_left) auto
  qed
qed

section \<open>Whole cycles\<close>

lemma to_read_read_trace: "read_trace n E trace clk s = Finished s' \<Longrightarrow> instrs_to_read_this_cycle s' = 0"
proof (induction n arbitrary: s)
  case (Suc n)
  then show ?case
    by (auto simp: Let_def split: if_splits option.splits dest: init_instruction_counts)
qed simp

lemma to_read_core_cycle:
  assumes "core_inv n E s" "instrs_to_read_this_cycle s = 0" "core_cycle E trace clk s = Some s'"
  shows "instrs_to_read_this_cycle s' = 0"
  using assms(3)
proof (cases rule: core_cycle_cases)
  case (1 t)
  with to_read_core_stages[OF assms(1) 1(1)] assms(2) show ?thesis by simp
next
  case (2 t)
  from to_read_read_trace[OF 2(3)] show ?thesis .
qed

lemma to_read_core_run:
  "core_inv (n + length cs * cycle_budget E) E s \<Longrightarrow> \<forall>i. fresh_instr (trace i) \<Longrightarrow> instrs_to_read_this_cycle s = 0 \<Longrightarrow>
   core_run E trace cs s = Some s' \<Longrightarrow> instrs_to_read_this_cycle s' = 0"
proof (induction cs arbitrary: s)
  case (Cons c cs)
  obtain t where t: "core_cycle E trace (fst c) (s\<lparr>memory := snd c (memory s)\<rparr>) = Some t" "core_run E trace cs t = Some s'"
    using Cons.prems(4) by (auto simp: bind_eq_Some_conv)
  have i: "core_inv (n + length cs * cycle_budget E + cycle_budget E) E (s\<lparr>memory := snd c (memory s)\<rparr>)"
    by (rule core_inv_skel[of _ _ s]) (use Cons.prems(1) in \<open>simp_all add: ac_simps\<close>)
  have "instrs_to_read_this_cycle t = 0" by (rule to_read_core_cycle[OF i _ t(1)]) (simp add: Cons.prems(3))
  with core_inv_core_cycle[OF i Cons.prems(2) t(1)] Cons.IH[OF _ Cons.prems(2) _ t(2)] show ?case by blast
qed simp

end
