(* ===== verification/CoreSpec.thy ===== *)
theory CoreSpec
  imports CoreExample CoreReading
begin

text \<open>
  What the core promises, over every state that a run of cycles from the reset state reaches, with any predictor, prefetcher, caches and
  trace. The bound of \<open>sound_setup\<close> keeps the positions of the two delay queues, which are 64-bit numbers that are never reset, from wrapping
  around; with the default sizes it allows \<^verbatim>\<open>2 ^ 58\<close> cycles.
\<close>

section \<open>Reachable states\<close>

definition sound_setup :: "('b, 'p, 'm) core_env \<Rightarrow> (nat \<Rightarrow> ooo_model_instr) \<Rightarrow> nat \<Rightarrow> bool" where
  "sound_setup E trace cycles \<longleftrightarrow> 0 < ROB_SIZE E \<and> ROB_SIZE E \<le> 512 \<and>
     DISPATCH_BUFFER_SIZE E + DECODE_BUFFER_SIZE E + cycles * cycle_budget E < 2 ^ 63 \<and> (\<forall>i. fresh_instr (trace i))"

lemma reachable_inv:
  assumes "sound_setup E trace (k + length cs)" "core_run E trace cs (new_core E b p m) = Some s"
  shows "core_inv (k * cycle_budget E) E s"
  using assms core_inv_reachable[of E "k * cycle_budget E" cs trace b p m s] by (simp add: sound_setup_def algebra_simps)

lemma reachable_sched: "sound_setup E trace (length cs) \<Longrightarrow> core_run E trace cs (new_core E b p m) = Some s \<Longrightarrow> core_inv 0 E s"
  using reachable_inv[of E trace 0 cs b p m s] by simp

lemma length_window: "length (window s) = unat (co_occupancy (ROB s))"
  by (simp add: window_def)

lemma window_nth: "k < length (window s) \<Longrightarrow> window s ! k = rob_at (ring_indices (ROB s) ! k) s"
  by (simp add: window_def)

text \<open>Nobody waits once every older instruction is completed; what has started waits for nobody.\<close>

lemma no_links:
  assumes ok: "deps_ok E nobody w ent rl" and k: "k < length w"
  shows "oi_num_reg_dependent (ent (w ! k)) = 0 \<longleftrightarrow> links w ent (w ! k) = {}"
  using deps_okD(7)[OF ok, of "w ! k"] k finite_links[of w ent "w ! k"] by simp

lemma links_older:
  assumes ok: "deps_ok E nobody w ent rl" and k: "k < length w" and old: "\<forall>i<k. oi_executed (ent (w ! i)) = COMPLETED"
  shows "links w ent (w ! k) = {}"
proof (rule ccontr)
  assume "links w ent (w ! k) \<noteq> {}"
  then obtain p j where p: "p \<in> set w" "oi_executed (ent p) \<noteq> COMPLETED" "j < 4" "w ! k \<in> edeps (ent p) j" by (auto simp: links_def)
  then have "p \<in> set (take k w)" using deps_okD(5)[OF ok p(1,3,4)] set_take_older[OF deps_okD(1)[OF ok] k] by simp
  then obtain i where "i < k" "p = w ! i" using k by (auto simp: in_set_conv_nth)
  with old p(2) show False by simp
qed

lemma last_writer_nth:
  assumes d: "distinct w" and ab: "a < b" "b < length w" and wr: "writes E (ent (w ! a)) r" "\<forall>k. a < k \<and> k < b \<longrightarrow> \<not> writes E (ent (w ! k)) r"
  shows "last_writer E w ent (w ! b) r (w ! a)"
proof -
  have o: "older w (w ! i) (w ! k) \<longleftrightarrow> i < k" if "i < length w" "k < length w" for i k
    using set_take_older[OF d that(2), of "w ! i"] d that by (auto simp: in_set_conv_nth nth_eq_iff_index_eq)
  have "\<not> writes E (ent q) r" if q: "older w (w ! a) q" "older w q (w ! b)" for q
  proof -
    obtain k where "k < length w" "q = w ! k" using older_mem[OF q(1)] by (auto simp: in_set_conv_nth)
    with q o ab wr(2) show ?thesis by simp
  qed
  with o ab wr(1) show ?thesis by (simp add: last_writer_def)
qed

section \<open>The order of the program\<close>

text \<open>C13: The instructions in the reorder buffer, then the dispatch, decode and fetch buffers, oldest first, are at all times exactly
  the instructions of the trace that are read and not retired, in the order of the trace, with none lost, repeated or overtaken.\<close>

theorem pipeline_in_order:
  assumes "sound_setup E trace (length cs)" "core_run E trace cs (new_core E b p m) = Some s"
  shows "num_retired s \<le> instr_unique_id s \<and>
    map oi_instr_id (pipeline s) = map of_nat [unat (num_retired s)..<unat (instr_unique_id s)]"
  using reachable_sched[OF assms] by (simp add: core_inv_def order_inv_def word_le_nat_alt)

lemma small_setup: "k \<le> 12 \<Longrightarrow> sound_setup small_core chain_trace k"
  by (simp add: sound_setup_def small_core_def cycle_budget_def chain_trace_def fresh_instr_of_input)

lemma length_small_cycles [simp]: "length (small_cycles n) = n"
  by (simp add: small_cycles_def)

lemma pipeline_in_order_witness:
  "\<exists>s. small_run 11 = Some s \<and> length (window s) = 2 \<and> map oi_instr_id (pipeline s) = [0, 1, 2, 3, 4, 5, 6, 7]"
proof -
  obtain s where s: "small_run 11 = Some s" "length (window s) = 2" "unat (num_retired s) = 0" "unat (instr_unique_id s) = 8"
    using small_run_looks by (auto simp: look_def)
  have "map oi_instr_id (pipeline s) = map of_nat [0..<8]"
    using pipeline_in_order[OF _ s(1)[unfolded small_run_def]] small_setup[of 11] s by simp
  with s show ?thesis by (simp add: upt_rec)
qed

text \<open>C16: A cycle retires at most \<^verbatim>\<open>RETIRE_WIDTH\<close> instructions, the oldest ones of the trace that are not retired, and only when each
  has completed its execution.\<close>

theorem retires_completed_in_order:
  assumes "sound_setup E trace (Suc (length cs))" "core_run E trace cs (new_core E b p m) = Some s" "core_cycle E trace clk s = Some s'"
  shows "\<exists>n\<le>RETIRE_WIDTH E. unat (num_retired s') = unat (num_retired s) + n \<and> n \<le> length (window s) \<and>
    (\<forall>i<n. oi_executed (window s ! i) = COMPLETED \<and> oi_instr_id (window s ! i) = of_nat (unat (num_retired s) + i))"
proof -
  have ok: "core_inv (0 + cycle_budget E) E s" using reachable_inv[of E trace 1 cs b p m s] assms by simp
  have trace: "\<forall>i. fresh_instr (trace i)" using assms(1) by (simp add: sound_setup_def)
  obtain n where n: "n \<le> RETIRE_WIDTH E" "unat (num_retired s') = unat (num_retired s) + n" "n \<le> length (window s)"
    "\<forall>i<n. oi_executed (window s ! i) = COMPLETED" using core_inv_core_cycle[OF ok trace assms(3)] by blast
  have o: "map oi_instr_id (pipeline s) = map of_nat [unat (num_retired s)..<unat (instr_unique_id s)]"
    using ok by (simp add: core_inv_def order_inv_def)
  have "oi_instr_id (window s ! i) = of_nat (unat (num_retired s) + i)" if "i < length (window s)" for i
  proof -
    have l: "i < length (pipeline s)" "window s ! i = pipeline s ! i" using that by (simp_all add: pipeline_def nth_append)
    have "length (pipeline s) = unat (instr_unique_id s) - unat (num_retired s)" using map_eq_imp_length_eq[OF o] by simp
    then have "oi_instr_id (pipeline s ! i) = map of_nat [unat (num_retired s)..<unat (instr_unique_id s)] ! i"
      using l(1) by (simp only: nth_map[symmetric] o)
    with l \<open>length (pipeline s) = _\<close> show ?thesis by simp
  qed
  with n show ?thesis by auto
qed

lemma retires_completed_in_order_witness:
  "\<exists>s s'. small_run 11 = Some s \<and> core_cycle small_core chain_trace (cycle_clock 11) s = Some s' \<and> num_retired s = 0 \<and> num_retired s' = 1 \<and>
    oi_executed (window s ! 0) = COMPLETED \<and> oi_instr_id (window s ! 0) = 0"
proof -
  obtain s s' where s: "small_run 11 = Some s" "core_cycle small_core chain_trace (cycle_clock 11) s = Some s'"
    "unat (num_retired s) = 0" "unat (num_retired s') = 1" using small_run_looks by (auto simp: look_def)
  with retires_completed_in_order[OF _ s(1)[unfolded small_run_def] s(2)] small_setup[of 12]
  show ?thesis by (auto simp: word_unat_eq_iff dest: spec[of _ 0])
qed

section \<open>The flow of the data\<close>

text \<open>C14: An instruction never starts before its sources are there: when an instruction in the reorder buffer has started, the youngest
  older instruction there that writes one of its sources (with no writer between the two) is completed.\<close>

theorem executes_after_producers:
  assumes "sound_setup E trace (length cs)" "core_run E trace cs (new_core E b p m) = Some s"
    and ab: "a < k" "k < length (window s)" and started: "oi_executed (window s ! k) \<noteq> 0" and j: "j < NUM_INSTR_SOURCES"
    and reads: "oi_source_registers (window s ! k) ! j = r" "r \<noteq> 0" and wr: "r \<in> set (dest_regs E (window s ! a))"
    and none: "\<forall>i. a < i \<and> i < k \<longrightarrow> r \<notin> set (dest_regs E (window s ! i))"
  shows "oi_executed (window s ! a) = COMPLETED"
proof -
  let ?w = "ring_indices (ROB s)" and ?ent = "\<lambda>i. rob_at i s"
  obtain rl where deps: "deps_ok E nobody ?w ?ent rl"
    using reachable_sched[OF assms(1,2)] by (auto simp: core_inv_def elim: sched_invE)
  have l: "a < length ?w" "k < length ?w" using ab by (simp_all add: length_window)
  then have c: "?w ! k \<in> set ?w" "?w ! a \<in> set ?w" by simp_all
  have n: "window s ! i = ?ent (?w ! i)" if "i \<le> k" for i using that ab by (simp add: window_nth)
  have "last_writer E ?w ?ent (?w ! k) r (?w ! a)"
    by (rule last_writer_nth) (use deps_okD(1)[OF deps] ab l reads(2) wr none n in \<open>auto simp: writes_def\<close>)
  moreover have "oi_executed (?ent (?w ! k)) \<noteq> 0" using started n by simp
  moreover from this have "links ?w ?ent (?w ! k) = {}" using deps_okD(10)[OF deps c(1)] no_links[OF deps l(2)] by simp
  ultimately show ?thesis
    using deps_okD(8,13)[OF deps c(1)] j reads(1) c(2) n[of a] n[of k] ab by (auto simp: links_def NUM_INSTR_SOURCES_def)
qed

lemma executes_after_producers_witness:
  "\<exists>s. small_run 11 = Some s \<and> oi_executed (window s ! 1) = INFLIGHT \<and> oi_executed (window s ! 0) = COMPLETED"
proof -
  obtain s where s: "small_run 11 = Some s" and w: "map (\<lambda>e. (oi_executed e, oi_source_registers e, oi_destination_registers e)) (window s) =
      [(2, [1, 0, 0, 0], [1, 0, 0, 0]), (1, [1, 0, 0, 0], [1, 0, 0, 0])]"
    using small_run_looks by (auto simp: look_def)
  then obtain x y where xy: "window s = [x, y]" "oi_executed y = 1" "oi_source_registers y = [1, 0, 0, 0]" "oi_destination_registers x = [1, 0, 0, 0]"
    by (auto simp: map_eq_Cons_conv)
  have "oi_executed (window s ! 0) = COMPLETED"
    by (rule executes_after_producers[OF _ s[unfolded small_run_def], where k = 1 and j = 0 and r = 1])
      (use small_setup[of 11] xy in \<open>auto simp: NUM_INSTR_SOURCES_def dest_regs_def small_core_def\<close>)
  with s xy show ?thesis by (simp add: INFLIGHT_def)
qed

text \<open>C15: The oldest instruction that is not completed is never stuck: once it is scheduled it waits for no register and its
  registers are ready; without a memory access it is also in the queue of the ready instructions until it starts.\<close>

theorem oldest_is_ready:
  assumes "sound_setup E trace (length cs)" "core_run E trace cs (new_core E b p m) = Some s"
    and k: "k < length (window s)" "\<forall>i<k. oi_executed (window s ! i) = COMPLETED" and sch: "oi_scheduled (window s ! k) \<noteq> 0"
  shows "oi_num_reg_dependent (window s ! k) = 0 \<and> oi_reg_ready (window s ! k) \<and>
    (\<not> oi_is_memory (window s ! k) \<and> oi_executed (window s ! k) = 0 \<longrightarrow>
       ring_indices (ROB s) ! k \<in> set (rg_slots (ready_to_execute s)))"
proof -
  let ?w = "ring_indices (ROB s)" and ?ent = "\<lambda>i. rob_at i s"
  obtain rl where ring: "ring_ok (ROB_SIZE E) (ready_to_execute s) rl" and deps: "deps_ok E nobody ?w ?ent rl"
    using reachable_sched[OF assms(1,2)] by (auto simp: core_inv_def elim: sched_invE)
  have l: "k < length ?w" using k(1) by (simp add: length_window)
  then have c: "?w ! k \<in> set ?w" by simp
  have n: "window s ! i = ?ent (?w ! i)" if "i \<le> k" for i using that k(1) by (simp add: window_nth)
  have "links ?w ?ent (?w ! k) = {}" by (rule links_older[OF deps l]) (use k(2) n in auto)
  then have z: "oi_num_reg_dependent (?ent (?w ! k)) = 0" using no_links[OF deps l] by simp
  moreover have "oi_reg_ready (?ent (?w ! k))" using deps_okD(9)[OF deps c] sch z n by simp
  moreover have "?w ! k \<in> set (rg_slots (ready_to_execute s))" if "\<not> oi_is_memory (?ent (?w ! k))" "oi_executed (?ent (?w ! k)) = 0"
  proof -
    have "?w ! k \<in> set rl" using deps_okD(12)[OF deps] c that sch z n by (simp add: waiting_def)
    then show ?thesis by (rule ring_ok_slots[OF ring])
  qed
  ultimately show ?thesis using n by simp
qed

lemma oldest_is_ready_witness:
  "\<exists>s. small_run 11 = Some s \<and> oi_executed (window s ! 0) = COMPLETED \<and> oi_reg_ready (window s ! 1)"
proof -
  obtain s where s: "small_run 11 = Some s" and w: "map (\<lambda>e. (oi_scheduled e, oi_executed e)) (window s) = [(2, 2), (2, 1)]"
    using small_run_looks by (auto simp: look_def)
  then obtain x y where xy: "window s = [x, y]" "oi_scheduled y = 2" "oi_executed x = 2" by (auto simp: map_eq_Cons_conv)
  have "oi_reg_ready (window s ! 1)"
    using oldest_is_ready[OF _ s[unfolded small_run_def], of 1] small_setup[of 11] xy by (simp add: COMPLETED_def)
  with s xy show ?thesis by (simp add: COMPLETED_def)
qed

section \<open>Assertions and loops\<close>

lemma reachable_memory:
  assumes "sound_setup E trace (Suc (length cs))" "core_run E trace cs (new_core E b p m) = Some s"
  shows "core_inv (0 + cycle_budget E) E (s\<lparr>memory := f (memory s)\<rparr>)"
proof (rule core_inv_skel)
  show "core_inv (0 + cycle_budget E) E s" using reachable_inv[of E trace 1 cs b p m s] assms by simp
qed simp

lemma same_memory: "s\<lparr>memory := id (memory s)\<rparr> = s"
  by (cases s) simp

text \<open>C17: The assertions of the out-of-order middle never fail, where the cycle calls it: in the next cycle of every reachable state, once
  retirement has returned, completion with the release of the waiting instructions, execution and scheduling return one after the other, and once
  the three memory stages have returned, dispatch does too. So no cycle of any run is ended by these four stages, and the array of the
  ready instructions is never written where it still holds an index.\<close>

theorem middle_never_fails:
  assumes "sound_setup E trace (Suc (length cs))" "core_run E trace cs (new_core E b p m) = Some s"
    and "retire_rob E clk (s\<lparr>memory := f (memory s)\<rparr>) = Some s1"
  shows "\<exists>s2 s3 s4. complete_inflight_instruction E clk s1 = Some s2 \<and> execute_instruction E clk s2 = Some s3 \<and>
    schedule_instruction E clk s3 = Some s4 \<and>
    (\<forall>s5 s6 s7. handle_memory_return E clk s4 = Some s5 \<longrightarrow> execute_memory_instruction E clk s5 = Some s6 \<longrightarrow>
       schedule_memory_instruction E clk s6 = Some s7 \<longrightarrow> dispatch_instruction E clk s7 \<noteq> None)"
proof -
  let ?N = "FETCH_WIDTH E + DECODE_WIDTH E + DISPATCH_WIDTH E"
  have "core_inv ?N E (s\<lparr>memory := f (memory s)\<rparr>)" using reachable_memory[OF assms(1,2), of f] by (simp add: cycle_budget_def)
  from core_inv_retire_rob[OF this assms(3)] have "core_inv ?N E s1" by simp
  from core_inv_middle[OF this, of clk] obtain s2 s3 s4 where s: "complete_inflight_instruction E clk s1 = Some s2"
    "execute_instruction E clk s2 = Some s3" "schedule_instruction E clk s3 = Some s4" "core_inv ?N E s4" by blast
  have "dispatch_instruction E clk s7 \<noteq> None"
    if "handle_memory_return E clk s4 = Some s5" "execute_memory_instruction E clk s5 = Some s6" "schedule_memory_instruction E clk s6 = Some s7"
    for s5 s6 s7
    using core_inv_dispatch_instruction[OF conjunct1[OF core_inv_memory_stages[OF s(4) that]], of clk] by auto
  with s show ?thesis by blast
qed

lemma middle_never_fails_witness:
  "\<exists>s s1 s2. small_run 11 = Some s \<and> retire_rob small_core (cycle_clock 11) s = Some s1 \<and>
    complete_inflight_instruction small_core (cycle_clock 11) s1 = Some s2 \<and> execute_instruction small_core (cycle_clock 11) s2 \<noteq> None"
proof -
  obtain s s' where s: "small_run 11 = Some s" "core_cycle small_core chain_trace (cycle_clock 11) s = Some s'"
    using small_run_looks by auto
  then obtain s1 where s1: "retire_rob small_core (cycle_clock 11) s = Some s1"
    by (auto simp: core_cycle_def core_stages_def bind_eq_Some_conv)
  from middle_never_fails[OF _ s(1)[unfolded small_run_def], where f = id, unfolded same_memory, OF _ s1] small_setup[of 12] s1 s(1)
  show ?thesis by fastforce
qed

text \<open>C18: The loop that reads the trace ends by itself. Where a cycle of a run begins to read, no instruction is left over from the cycle
  before, and the loop then stops, by an assertion or after at least one and at most \<^verbatim>\<open>FETCH_WIDTH\<close> instructions that the fetch buffer has
  room for: the fuel \<^verbatim>\<open>FETCH_WIDTH\<close> of \<open>read_trace\<close> never runs out, and more of it changes nothing. (The width is below
  \<^verbatim>\<open>2 ^ 32\<close>, the range of what \<^verbatim>\<open>init_instruction\<close> returns.)\<close>

theorem reading_ends:
  assumes "0 < FETCH_WIDTH E" "FETCH_WIDTH E < 2 ^ 32"
    and "sound_setup E trace (Suc (length cs))" "core_run E trace cs (new_core E b p m) = Some s"
    and "core_stages E clk (s\<lparr>memory := f (memory s)\<rparr>) = Some t" "reads_now t"
  shows "instrs_to_read_this_cycle t = 0 \<and> read_trace (FETCH_WIDTH E) E trace clk t \<noteq> Unfinished \<and>
    (\<forall>k. read_trace (FETCH_WIDTH E + k) E trace clk t = read_trace (FETCH_WIDTH E) E trace clk t) \<and>
    (\<forall>t'. read_trace (FETCH_WIDTH E) E trace clk t = Finished t' \<longrightarrow>
       (\<exists>m>0. m \<le> FETCH_WIDTH E \<and> m \<le> cb_size (IFETCH_BUFFER t) - unat (occupancy (IFETCH_BUFFER t)) \<and>
          instr_unique_id t' = instr_unique_id t + of_nat m))"
proof -
  note ok = reachable_memory[OF assms(3,4), of f]
  have trace: "\<forall>i. fresh_instr (trace i)" using assms(3) by (simp add: sound_setup_def)
  have "core_inv (0 + length cs * cycle_budget E) E (new_core E b p m)"
    by (rule core_inv_new_core) (use assms(3) in \<open>simp_all add: sound_setup_def\<close>)
  from to_read_core_run[OF this trace _ assms(4)] have "instrs_to_read_this_cycle s = 0" by (simp add: new_core_def)
  with to_read_core_stages[OF ok assms(5)] have z: "instrs_to_read_this_cycle t = 0" by simp
  have "cb_inv (0 + FETCH_WIDTH E) (IFETCH_BUFFER t)" using core_inv_core_stages[OF ok assms(5)] by (simp add: core_inv_def order_inv_def)
  from reads_within_width[OF assms(1) _ z this, of trace clk] assms(2,6)
  show ?thesis using z unfolding reads_within_def reads_now_def by auto
qed

lemma small_first_cycle:
  "map_option (\<lambda>t. reads_now t) (core_stages small_core (cycle_clock 0) (new_core small_core () () ())) = Some True"
  by code_simp

lemma reading_ends_witness:
  "\<exists>t. core_stages small_core (cycle_clock 0) (new_core small_core () () ()) = Some t \<and> reads_now t \<and>
    read_trace 2 small_core chain_trace (cycle_clock 0) t \<noteq> Unfinished \<and>
    read_trace 12 small_core chain_trace (cycle_clock 0) t = read_trace 2 small_core chain_trace (cycle_clock 0) t"
proof -
  obtain t where t: "core_stages small_core (cycle_clock 0) (new_core small_core () () ()) = Some t" "reads_now t"
    using small_first_cycle by auto
  have w: "FETCH_WIDTH small_core = 2" by (simp add: small_core_def)
  have r: "core_run small_core chain_trace [] (new_core small_core () () ()) = Some (new_core small_core () () ())" by simp
  from reading_ends[OF _ _ _ r, where f = id, unfolded same_memory, OF _ _ _ t] small_setup[of 1] w
  have "read_trace 2 small_core chain_trace (cycle_clock 0) t \<noteq> Unfinished"
    "\<forall>k. read_trace (2 + k) small_core chain_trace (cycle_clock 0) t = read_trace 2 small_core chain_trace (cycle_clock 0) t" by simp_all
  with t spec[OF this(2), of 10] show ?thesis by auto
qed

end
