(* ===== verification/Spec2Isabelle.thy ===== *)
theory Spec2Isabelle
  imports BasicBtb SrripBtb OptBtb ThermometerBtb GhrpBtb HawkeyeBtb VictimBtb DelayQueue ShipLlc Vmem CacheSpec CoreSpec
begin

text \<open>
  \<^bold>\<open>What this development verifies.\<close> The program is a version of the ChampSim processor simulator that measures replacement
  policies of branch target buffers (BTBs), above all Thermometer, which replaces the branch that a profile calls the coldest. A trace
  drives a core; its front end asks a BTB for the targets of branches; instructions and data come from a hierarchy of
  caches and translation buffers over a memory controller and page tables. This development models the BTBs and their shared
  front end, the objects that measure them, the out-of-order core and the memory hierarchy, function by function, in the order of the
  code, and proves what makes each part correct.

  \<^bold>\<open>Conventions.\<close> A class or struct is a record with the members of the source, a \<open>w\<close>-bit integer is a word of \<open>w\<close> bits (\<open>+\<close> wraps),
  an array is a list, a method takes the state and returns the new one. A failed assertion, an exit and an access the source does
  not define are \<open>None\<close>. Assertions under \<^verbatim>\<open>SANITY_CHECK\<close> are on, \<^verbatim>\<open>DP\<close> prints nothing. One core is simulated (\<^verbatim>\<open>NUM_CPUS\<close> is 1
  in \<^verbatim>\<open>templates/champsim_constants.h\<close>). Files that are read (records of accesses, temperatures) enter as their parsed content, random
  draws as a state of the generator.

  \<^bold>\<open>Shared theories.\<close> \<open>Prelude\<close>: machine integers, branch types, search for the first index, theorem collections. \<open>FrontEnd\<close>: the code
  every BTB file repeats (return address stack, call size tracker, indirect target buffer, dispatch on the branch type), with the
  BTB proper as an argument. \<open>BtbInterface\<close>: the contract of a BTB as a locale, with its runs. \<open>TagArray\<close> and \<open>ArrayBtb\<close>: BTBs kept as
  arrays of sets of ways; \<open>MapSets\<close>: BTBs whose sets are hash maps. Every BTB theory interprets the contract on its own
  handlers and obtains the theorem \<open>*_btb_run_correct\<close>: no handler fails, sets keep their size, a hit predicts the last taken
  target. \<open>Rrip\<close>: the victim search of the re-reference interval policies.

  \<^bold>\<open>Branch target buffers\<close> (\<^verbatim>\<open>btb/*/*.cc\<close>). \<open>BasicBtb\<close> (LRU), \<open>SrripBtb\<close>, \<open>OptBtb\<close> (Belady's policy on a recorded future), \<open>GhrpBtb\<close>
  (dead-block tables), \<open>Optgen\<close> (with the Hawkeye predictor) and \<open>HawkeyeBtb\<close>, \<open>ThermometerBtb\<close> (\<^verbatim>\<open>hot_warm_cold_btb.template\<close>), \<open>VictimBtb\<close>. Each
  has the handlers \<^verbatim>\<open>btb_prediction\<close>, \<^verbatim>\<open>update_btb\<close>, \<^verbatim>\<open>prefetch_btb\<close> and \<^verbatim>\<open>initialize_btb\<close>, the invariant of its
  tables, the functional theorem on its victim choice and, where the code departs from what it means to do, the theorem that shows it.
  \<open>StreamBuffer\<close> and \<open>Statistics\<close> model \<^verbatim>\<open>btb/prefetch_stream_buffer.h\<close> and the measuring headers of \<^verbatim>\<open>btb/\<close>.

  \<^bold>\<open>Memory hierarchy.\<close> \<open>CircularBuffer\<close> and \<open>DelayQueue\<close>: \<^verbatim>\<open>inc/circular_buffer.hpp\<close> and \<^verbatim>\<open>inc/delay_queue.hpp\<close>, refined to a bounded
  queue and to a clocked queue. \<open>RequestQueue\<close>: search and update of a delay queue through iterators, and the view under which
  a cache uses it. \<open>Packet\<close>: \<^verbatim>\<open>inc/block.h\<close>. \<open>Vmem\<close>: \<^verbatim>\<open>src/vmem.cc\<close>. \<open>LlcReplacement\<close>, \<open>LlcRrip\<close>, \<open>ShipLlc\<close>: \<^verbatim>\<open>replacement/\<close> and
  \<^verbatim>\<open>src/base_replacement.cc\<close>, with the contract of a last-level policy as a locale. \<open>MemoryInterface\<close>: the global clock and the interface
  \<^verbatim>\<open>MemoryRequestConsumer\<close>, a record of the functions a lower level offers. \<open>Mshr\<close>: the miss registers, with \<^verbatim>\<open>std::list::sort\<close> as the
  merge sort of the library.

  \<^bold>\<open>The cache\<close> (\<^verbatim>\<open>src/cache.cc\<close>, \<^verbatim>\<open>inc/cache.h\<close>). \<open>CacheModel\<close>: the members, lookup, the requests from above and the answers from
  below; \<open>CacheHandlers\<close>: the handlers and the cycle \<^verbatim>\<open>operate\<close>. A cache is an open system: its record \<open>world\<close> carries the lower level,
  the prefetcher, the policy state and the page tables it calls, whatever they are, and the list of \<^verbatim>\<open>return_data\<close> calls it makes to others.
  \<open>CacheSafety\<close> states the invariant (\<open>cache_ok\<close>) and the contract of the called parts as the locale \<open>cache_parts\<close>; \<open>CacheSteps\<close>,
  \<open>CacheAccess\<close>, \<open>CacheMiss\<close>, \<open>CacheFill\<close>, \<open>CacheCycle\<close> and \<open>CacheOperate\<close> prove inside it one law per operation, from packets up to
  \<^verbatim>\<open>operate\<close>. \<open>CacheRuns\<close> defines runs over arbitrary sequences of requests, invalidations, answers and cycles, and proves that the LRU
  and last-level policies, the next-line prefetchers, the memory controller and a cache itself satisfy the contract; so \<open>CacheSpec\<close> can
  stack L1D over L2C over LLC over DRAM, and the second-level TLB over the page tables, as interpretations, and
  state the theorems of the whole.

  \<^bold>\<open>The memory controller\<close> (\<^verbatim>\<open>src/dram_controller.cc\<close>). \<open>DramController\<close>: every method. \<open>DramSafety\<close>: the invariant (exact counters, a
  scheduled request owns its bank, only one direction is scheduled). \<open>DramRuns\<close>, \<open>DramSpec\<close>: runs, and the balance that every requester is
  answered once or still waits.

  \<^bold>\<open>The out-of-order core\<close> (\<^verbatim>\<open>src/ooo_cpu.cc\<close>, \<^verbatim>\<open>inc/ooo_cpu.h\<close>, the cycle of \<^verbatim>\<open>src/main.cc\<close>). \<open>FastSet\<close>: \<^verbatim>\<open>inc/set.h\<close>, the sets of waiting
  instructions, down to the words of its union. \<open>CoreTypes\<close>: instructions, queue entries, the members of \<^verbatim>\<open>O3_CPU\<close> and, as the record
  \<open>core_env\<close>, what a core calls (branch prediction unit, instruction prefetcher, four caches). \<open>CoreFront\<close>: reading, prediction, fetch, decode,
  dispatch. \<open>CoreSched\<close>: register dependencies, scheduling, execution, completion. \<open>CoreMemory\<close>: load and store queues, the answers of the
  caches, retirement. \<open>CoreCycle\<close>: the cycle and its loop over the trace, whose result tells the end of the loop, a failed assertion and
  exhausted fuel apart. The proofs: \<open>CoreWindow\<close> (rings of indices), \<open>CoreFrame\<close> (what a stage leaves alone), \<open>CoreDeps\<close>,
  \<open>CoreEvents\<close> and \<open>CoreWaits\<close> (the dependency counts are exact: one lemma per event, and the search for producers finds the last
  writer), \<open>CoreInvariant\<close>, \<open>CoreStages\<close>, \<open>CoreComplete\<close>, \<open>CoreOrder\<close>, \<open>CoreMoves\<close> (one law per stage), \<open>CoreRuns\<close> (cycles and reachable states),
  \<open>CoreReading\<close> (what a cycle has left to read), \<open>CoreExample\<close> (a small machine run for twelve cycles) and \<open>CoreSpec\<close>: the pipeline is the trace in order, instructions
  start after their producers and retire completed and in order, the oldest one is never stuck, the stages from completion to
  dispatch never fail where the cycle calls them, and the reading of the trace ends.

  \<^bold>\<open>Bounds and fuel.\<close> Loops over a table are recursions over its list. The loop \<^verbatim>\<open>while (available > 0)\<close> of a handler is
  \<open>budget_loop\<close> with the counter itself as fuel: each round lowers it, so the fuel never runs out (\<open>budget_loop_law\<close>). Victim searches
  that the code repeats until they succeed are partial functions, with a proof that they return. The iterators of a
  circular buffer compare 64-bit positions; theorems on it hold for fewer than \<open>2 ^ 63\<close> moved elements, and a run of a cache
  for fewer than \<open>2 ^ 62\<close> packets taken from its queues (\<open>run_cost\<close>: at most \<open>MAX_WRITE + 3 * MAX_READ\<close> per cycle).
  The buffers of the core move at most \<open>cycle_budget\<close> instructions per cycle, with the same bound; at most \<^verbatim>\<open>FETCH_WIDTH\<close> instructions are
  read per cycle, the fuel of \<open>read_trace\<close>, which is proved enough (\<open>reading_ends\<close>). Time stamps of the BTBs are 64-bit and theorems on their order hold for fewer than \<open>2 ^ 64\<close> accesses.

  \<^bold>\<open>Not modelled.\<close> Trace decompression, option parsing and printed statistics (\<^verbatim>\<open>src/tracereader.cc\<close>, \<^verbatim>\<open>src/main.cc\<close>): input and
  output; the trace is a function from instruction numbers. The profile recorder and prefetcher of Twig, whose hooks in the core do nothing
  unless their flags are set. The direction predictors (\<^verbatim>\<open>branch/\<close>) and the prefetchers of the championships (\<^verbatim>\<open>prefetcher/\<close>): third-party
  code, the core and the cache take any program over their interfaces. The Shotgun, multi-level and probabilistic variants of the
  BTBs: copies of the modelled policies over other tables.
\<close>

end
